(* ===== verification/Py_Prelude.thy ===== *)
theory Py_Prelude
  imports Complex_Main "HOL-Library.Sublist" "HOL-Library.Char_ord" "HOL-Library.List_Lexorder"
begin

text \<open>
  What every component shares: the dynamic values a JSON document or a keyword dictionary holds
  (\<open>pyval\<close>) with the coercions the Python code applies to them, the string operations of the
  standard library on ASCII text, results that may be an exception (\<open>'e + 'a\<close>), and the generic
  lemmas on lists and maps.  A float is a rational: the code compares floats and adds a constant to
  one, and never depends on their rounding.  Infinities and NaN are not modelled.
\<close>

section \<open>Dynamic values\<close>

datatype pyval =
    PNone
  | PBool bool
  | PInt int
  | PFloat rat
  | PStr string
  | PList "pyval list"
  | PDict "(string \<times> pyval) list"

type_synonym pydict = "(string \<times> pyval) list"

text \<open>The content of a file that should hold JSON.\<close>

datatype filetext = Unreadable | Json pyval

text \<open>\<open>d.get(k)\<close>, and \<open>d.get(k, default)\<close> where a present key wins whatever it holds.\<close>

definition dget_or :: "pydict \<Rightarrow> string \<Rightarrow> pyval \<Rightarrow> pyval" where
  "dget_or d k v = (case map_of d k of None \<Rightarrow> v | Some w \<Rightarrow> w)"

definition dget :: "pydict \<Rightarrow> string \<Rightarrow> pyval" where
  "dget d k = dget_or d k PNone"

text \<open>Truth value testing.\<close>

fun truthy :: "pyval \<Rightarrow> bool" where
  "truthy PNone = False"
| "truthy (PBool b) = b"
| "truthy (PInt i) = (i \<noteq> 0)"
| "truthy (PFloat q) = (q \<noteq> 0)"
| "truthy (PStr s) = (s \<noteq> [])"
| "truthy (PList xs) = (xs \<noteq> [])"
| "truthy (PDict d) = (d \<noteq> [])"

fun is_dict :: "pyval \<Rightarrow> bool" where
  "is_dict (PDict d) = True"
| "is_dict _ = False"

text \<open>\<open>x = v or {}; if not isinstance(x, dict): x = {}\<close>.\<close>

fun as_dict :: "pyval \<Rightarrow> pydict" where
  "as_dict (PDict d) = d"
| "as_dict _ = []"

text \<open>\<open>v or []\<close>, then the elements when it is a list.\<close>

fun as_list :: "pyval \<Rightarrow> pyval list" where
  "as_list (PList xs) = xs"
| "as_list _ = []"

lemma dget_Nil [simp]: "dget [] k = PNone"
  by (simp add: dget_def dget_or_def)

lemma dget_Cons [simp]: "dget ((a, v) # d) k = (if a = k then v else dget d k)"
  by (simp add: dget_def dget_or_def)

lemma dget_or_Nil [simp]: "dget_or [] k v = v"
  by (simp add: dget_or_def)

lemma dget_or_Cons [simp]: "dget_or ((a, w) # d) k v = (if a = k then w else dget_or d k v)"
  by (simp add: dget_or_def)

lemma truthy_dict_iff: "truthy (PDict d) \<longleftrightarrow> d \<noteq> []"
  by simp

lemma as_dict_truthy: "as_dict v \<noteq> [] \<Longrightarrow> is_dict v \<and> truthy v"
  by (cases v) auto

section \<open>Results that may be exceptions\<close>

definition ebind :: "'e + 'a \<Rightarrow> ('a \<Rightarrow> 'e + 'b) \<Rightarrow> 'e + 'b" where
  "ebind r f = (case r of Inl e \<Rightarrow> Inl e | Inr x \<Rightarrow> f x)"

lemma ebind_Inl [simp]: "ebind (Inl e) f = Inl e"
  by (simp add: ebind_def)

lemma ebind_Inr [simp]: "ebind (Inr x) f = f x"
  by (simp add: ebind_def)

lemma ebind_eq_Inr_iff: "ebind r f = Inr y \<longleftrightarrow> (\<exists>x. r = Inr x \<and> f x = Inr y)"
  by (cases r) auto

lemma ebind_eq_Inl_iff:
  "ebind r f = Inl e \<longleftrightarrow> r = Inl e \<or> (\<exists>x. r = Inr x \<and> f x = Inl e)"
  by (cases r) auto

lemmas ebind_iffs = ebind_eq_Inr_iff ebind_eq_Inl_iff

section \<open>Strings\<close>

text \<open>ASCII white space, \<open>str.strip\<close>, \<open>str.lower\<close> and \<open>sub in s\<close>.\<close>

definition py_space :: "char \<Rightarrow> bool" where
  "py_space c = (let n = (of_char c :: nat) in (9 \<le> n \<and> n \<le> 13) \<or> (28 \<le> n \<and> n \<le> 32))"

definition py_lstrip :: "string \<Rightarrow> string" where
  "py_lstrip s = dropWhile py_space s"

definition py_strip :: "string \<Rightarrow> string" where
  "py_strip s = rev (dropWhile py_space (rev (py_lstrip s)))"

definition lower_char :: "char \<Rightarrow> char" where
  "lower_char c = (let n = (of_char c :: nat) in if 65 \<le> n \<and> n \<le> 90 then char_of (n + 32) else c)"

definition py_lower :: "string \<Rightarrow> string" where
  "py_lower s = map lower_char s"

text \<open>The same on the bits of a character, for evaluation.\<close>

lemma lower_char_all_bits:
  "\<forall>b0 b1 b2 b3 b4 b5 b6 b7. lower_char (Char b0 b1 b2 b3 b4 b5 b6 b7) =
     (if \<not> b7 \<and> b6 \<and> \<not> b5 \<and> (b4 \<or> b3 \<or> b2 \<or> b1 \<or> b0) \<and> \<not> (b4 \<and> b3 \<and> (b2 \<or> b1 \<and> b0))
      then Char b0 b1 b2 b3 b4 True b6 b7 else Char b0 b1 b2 b3 b4 b5 b6 b7)"
  unfolding all_bool_eq by (simp add: lower_char_def Let_def char_of_def bit_0)

lemmas lower_char_bits [code] = lower_char_all_bits [rule_format]

definition nl :: string where
  "nl = [CHR 0x0A]"

abbreviation py_in :: "string \<Rightarrow> string \<Rightarrow> bool" where
  "py_in sub s \<equiv> sublist sub s"

text \<open>\<open>any(marker in s for marker in markers)\<close>.\<close>

definition any_in :: "string list \<Rightarrow> string \<Rightarrow> bool" where
  "any_in markers s = list_ex (\<lambda>m. py_in m s) markers"

lemma lower_char_idem [simp]: "lower_char (lower_char c) = lower_char c"
  by (simp add: lower_char_def Let_def)

lemma py_lower_idem [simp]: "py_lower (py_lower s) = py_lower s"
  by (simp add: py_lower_def)

lemma py_lower_append: "py_lower (s @ t) = py_lower s @ py_lower t"
  by (simp add: py_lower_def)

lemma dropWhile_idem [simp]: "dropWhile P (dropWhile P xs) = dropWhile P xs"
  by (induction xs) auto

lemma split_rev_dropWhile: "xs = rev (dropWhile P (rev xs)) @ rev (takeWhile P (rev xs))"
  by (metis rev_append rev_rev_ident takeWhile_dropWhile_id)

lemma py_strip_decomp: "\<exists>as bs. s = as @ py_strip s @ bs \<and> list_all py_space as \<and> list_all py_space bs"
proof -
  let ?m = "py_lstrip s"
  have 1: "s = takeWhile py_space s @ ?m" by (simp add: py_lstrip_def)
  have 2: "?m = py_strip s @ rev (takeWhile py_space (rev ?m))"
    unfolding py_strip_def by (rule split_rev_dropWhile)
  have "list_all py_space (takeWhile py_space xs)" for xs
    by (auto simp: list_all_iff dest: set_takeWhileD)
  with 1 2 show ?thesis
    by (metis (no_types, lifting) list_all_rev)
qed

lemma py_strip_empty_iff: "py_strip s = [] \<longleftrightarrow> list_all py_space s"
  by (simp add: py_strip_def py_lstrip_def dropWhile_eq_Nil_conv list_all_iff)
    (metis dropWhile_eq_Nil_conv set_dropWhileD dropWhile_eq_self_iff hd_dropWhile list.set_sel(1))

lemma py_strip_hd: "py_strip s \<noteq> [] \<Longrightarrow> \<not> py_space (hd (py_strip s))"
proof -
  assume ne: "py_strip s \<noteq> []"
  let ?m = "py_lstrip s"
  have m: "?m = py_strip s @ rev (takeWhile py_space (rev ?m))"
    unfolding py_strip_def by (rule split_rev_dropWhile)
  from ne m have "hd ?m = hd (py_strip s)" by (metis hd_append2)
  moreover from ne m have "?m \<noteq> []" by (metis append_is_Nil_conv)
  ultimately show ?thesis
    by (metis hd_dropWhile py_lstrip_def)
qed

lemma py_strip_idem [simp]: "py_strip (py_strip s) = py_strip s"
proof (cases "py_strip s = []")
  case True
  show ?thesis unfolding True by (simp add: py_strip_def py_lstrip_def)
next
  case False
  then have l: "py_lstrip (py_strip s) = py_strip s"
    by (simp add: py_lstrip_def dropWhile_eq_self_iff py_strip_hd)
  show ?thesis
    by (subst py_strip_def, subst l) (simp add: py_strip_def)
qed

text \<open>\<open>s.split(m, 1)[1]\<close>, and \<open>str.upper\<close>.\<close>

fun after_marker :: "string \<Rightarrow> string \<Rightarrow> string option" where
  "after_marker m [] = (if m = [] then Some [] else None)"
| "after_marker m (c # cs) =
     (if prefix m (c # cs) then Some (drop (length m) (c # cs)) else after_marker m cs)"

text \<open>The text before a marker: \<open>s.split(m, 1)[0]\<close>.\<close>

fun before_marker :: "string \<Rightarrow> string \<Rightarrow> string" where
  "before_marker m [] = []"
| "before_marker m (c # cs) = (if prefix m (c # cs) then [] else c # before_marker m cs)"

definition fence_mark :: string where
  "fence_mark = ''```''"

definition upper_char :: "char \<Rightarrow> char" where
  "upper_char c = (let n = (of_char c :: nat) in if 97 \<le> n \<and> n \<le> 122 then char_of (n - 32) else c)"

definition py_upper :: "string \<Rightarrow> string" where
  "py_upper s = map upper_char s"

text \<open>Lines, up to empty ones (a CRLF counts as two ends of line), and \<open>str.split()\<close>.\<close>

definition line_break :: "char \<Rightarrow> bool" where
  "line_break c = (let n = (of_char c :: nat) in (10 \<le> n \<and> n \<le> 13) \<or> (28 \<le> n \<and> n \<le> 30))"

fun split_lines :: "string \<Rightarrow> string \<Rightarrow> string list" where
  "split_lines cur [] = [rev cur]"
| "split_lines cur (c # cs) = (if line_break c then rev cur # split_lines [] cs else split_lines (c # cur) cs)"

fun py_words :: "string \<Rightarrow> string \<Rightarrow> string list" where
  "py_words cur [] = (if cur = [] then [] else [rev cur])"
| "py_words cur (c # cs) =
     (if py_space c then (if cur = [] then py_words [] cs else rev cur # py_words [] cs)
      else py_words (c # cur) cs)"

section \<open>Type tests on dynamic values\<close>

text \<open>\<open>isinstance\<close> guards that keep the tested value.\<close>

fun dict_opt :: "pyval \<Rightarrow> pydict option" where
  "dict_opt (PDict d) = Some d"
| "dict_opt _ = None"

fun list_opt :: "pyval \<Rightarrow> pyval list option" where
  "list_opt (PList xs) = Some xs"
| "list_opt _ = None"

fun str_opt :: "pyval \<Rightarrow> string option" where
  "str_opt (PStr s) = Some s"
| "str_opt _ = None"

text \<open>\<open>isinstance(v, str) and v.strip()\<close>, and \<open>v is None or isinstance(v, str)\<close>.\<close>

definition str_nonblank :: "pyval \<Rightarrow> string option" where
  "str_nonblank v = (case str_opt v of None \<Rightarrow> None | Some s \<Rightarrow> if py_strip s = [] then None else Some s)"

fun none_or_str :: "pyval \<Rightarrow> string option option" where
  "none_or_str PNone = Some None"
| "none_or_str (PStr s) = Some (Some s)"
| "none_or_str _ = None"

lemma str_nonblank_Some: "str_nonblank v = Some s \<longleftrightarrow> v = PStr s \<and> py_strip s \<noteq> []"
  by (cases v) (auto simp: str_nonblank_def)

section \<open>Decimal numerals\<close>

definition digit_char :: "nat \<Rightarrow> char" where
  "digit_char d = char_of (48 + d)"

fun show_nat :: "nat \<Rightarrow> string" where
  "show_nat n = (if n < 10 then [digit_char n] else show_nat (n div 10) @ [digit_char (n mod 10)])"

declare show_nat.simps [simp del]

definition read_nat :: "string \<Rightarrow> nat" where
  "read_nat s = foldl (\<lambda>a c. a * 10 + (of_char c - 48)) 0 s"

lemma of_digit_char: "d < 10 \<Longrightarrow> (of_char (digit_char d) :: nat) = 48 + d"
  by (simp add: digit_char_def)

lemma read_show_nat [simp]: "read_nat (show_nat n) = n"
proof (induction n rule: show_nat.induct)
  case (1 n)
  then show ?case
    by (cases "n < 10") (simp_all add: show_nat.simps [of n] read_nat_def of_digit_char)
qed

lemma show_nat_inject [simp]: "show_nat m = show_nat n \<longleftrightarrow> m = n"
  by (metis read_show_nat)

lemma show_nat_not_space: "c \<in> set (show_nat n) \<Longrightarrow> \<not> py_space c"
proof (induction n rule: show_nat.induct)
  case (1 n)
  have d: "\<not> py_space (digit_char d)" if "d < 10" for d
    using that by (simp add: py_space_def Let_def of_digit_char)
  from 1 show ?case
    by (cases "n < 10") (auto simp: show_nat.simps [of n] d)
qed

text \<open>\<open>int(s)\<close> and \<open>float(s)\<close> on ASCII decimal text; \<open>None\<close> is the \<open>ValueError\<close>.\<close>

definition is_digit :: "char \<Rightarrow> bool" where
  "is_digit c = (let n = (of_char c :: nat) in 48 \<le> n \<and> n \<le> 57)"

text \<open>Digits with single underscores between them.\<close>

fun digit_run :: "string \<Rightarrow> bool" where
  "digit_run [] = False"
| "digit_run [c] = is_digit c"
| "digit_run (c # d # cs) =
     (if c = CHR ''_'' then False
      else is_digit c \<and> (if d = CHR ''_'' then digit_run cs else digit_run (d # cs)))"

definition read_digits :: "string \<Rightarrow> nat" where
  "read_digits s = read_nat (filter (\<lambda>c. c \<noteq> CHR ''_'') s)"

definition split_sign :: "string \<Rightarrow> bool \<times> string" where
  "split_sign s = (case s of
      [] \<Rightarrow> (False, [])
    | c # cs \<Rightarrow> if c = CHR ''-'' then (True, cs) else if c = CHR ''+'' then (False, cs) else (False, s))"

definition py_int :: "string \<Rightarrow> int option" where
  "py_int s = (case split_sign (py_strip s) of (neg, u) \<Rightarrow>
      if digit_run u then Some (if neg then - int (read_digits u) else int (read_digits u)) else None)"

definition py_float :: "string \<Rightarrow> rat option" where
  "py_float s = (case split_sign (py_strip s) of (neg, u) \<Rightarrow>
     let mant = takeWhile (\<lambda>c. c \<noteq> CHR ''e'' \<and> c \<noteq> CHR ''E'') u;
         expo = drop (length mant) u;
         ip = takeWhile (\<lambda>c. c \<noteq> CHR ''.'') mant;
         fp = drop (Suc (length ip)) mant;
         e = (if expo = [] then Some 0
              else case split_sign (tl expo) of (eneg, d) \<Rightarrow>
                if digit_run d then Some (if eneg then - int (read_digits d) else int (read_digits d))
                else None);
         fine = ((ip = [] \<or> digit_run ip) \<and> (fp = [] \<or> digit_run fp) \<and> \<not> (ip = [] \<and> fp = []));
         fd = length (filter (\<lambda>c. c \<noteq> CHR ''_'') fp);
         v = (of_nat (read_digits ip) + of_nat (read_digits fp) / 10 ^ fd :: rat)
     in case e of None \<Rightarrow> None
        | Some k \<Rightarrow> if \<not> fine then None
            else Some ((if neg then - 1 else 1) * (if k \<ge> 0 then v * 10 ^ nat k else v / 10 ^ nat (- k))))"

text \<open>\<open>os.environ.get(name, default) or default\<close>.\<close>

definition env_or :: "string option \<Rightarrow> string \<Rightarrow> string" where
  "env_or v d = (case v of None \<Rightarrow> d | Some s \<Rightarrow> if s = [] then d else s)"

text \<open>An optional string that is neither \<open>None\<close> nor empty.\<close>

definition truthy_str :: "string option \<Rightarrow> string option" where
  "truthy_str v = (case v of None \<Rightarrow> None | Some s \<Rightarrow> if s = [] then None else Some s)"

text \<open>An optional string as a dynamic value.\<close>

definition opt_str :: "string option \<Rightarrow> pyval" where
  "opt_str v = (case v of None \<Rightarrow> PNone | Some s \<Rightarrow> PStr s)"

text \<open>A cap on parallel work: the argument, or else a number in the environment; 0 and none mean no cap.\<close>

definition max_parallel :: "int option \<Rightarrow> string option \<Rightarrow> nat option" where
  "max_parallel arg env =
     (let n = (case arg of Some k \<Rightarrow> Some k
         | None \<Rightarrow> let e = py_strip (case env of None \<Rightarrow> [] | Some v \<Rightarrow> v) in
             if e \<noteq> [] \<and> list_all is_digit e then Some (int (read_nat e)) else None)
      in case n of None \<Rightarrow> None | Some k \<Rightarrow> if k = 0 then None else Some (nat (max 1 k)))"

section \<open>Conversions and comparisons of dynamic values\<close>

text \<open>The exceptions the conversions raise.\<close>

datatype pyexn = TypeError | ValueError | AttributeError

text \<open>\<open>isinstance(v, int)\<close>, which a \<open>bool\<close> passes as the integer it equals.\<close>

fun int_opt :: "pyval \<Rightarrow> int option" where
  "int_opt (PInt i) = Some i"
| "int_opt (PBool b) = Some (if b then 1 else 0)"
| "int_opt _ = None"

text \<open>\<open>isinstance(v, int) and v > 0\<close>.\<close>

definition pos_int :: "pyval \<Rightarrow> int option" where
  "pos_int v = (case int_opt v of None \<Rightarrow> None | Some i \<Rightarrow> if i > 0 then Some i else None)"

lemma pos_int_Some: "pos_int v = Some i \<longleftrightarrow> int_opt v = Some i \<and> 0 < i"
  by (auto simp: pos_int_def split: option.splits)

text \<open>A number of any kind, and \<open>int(v)\<close>, which truncates towards zero.\<close>

fun num_opt :: "pyval \<Rightarrow> rat option" where
  "num_opt (PFloat q) = Some q"
| "num_opt v = map_option of_int (int_opt v)"

definition trunc :: "rat \<Rightarrow> int" where
  "trunc q = (if q \<ge> 0 then \<lfloor>q\<rfloor> else \<lceil>q\<rceil>)"

fun to_int :: "pyval \<Rightarrow> pyexn + int" where
  "to_int (PInt i) = Inr i"
| "to_int (PBool b) = Inr (if b then 1 else 0)"
| "to_int (PFloat q) = Inr (trunc q)"
| "to_int (PStr s) = (case py_int s of None \<Rightarrow> Inl ValueError | Some i \<Rightarrow> Inr i)"
| "to_int _ = Inl TypeError"

lemma size_in_zip: "(x, y) \<in> set (zip xs ys) \<Longrightarrow> size x < Suc (size_list size xs)"
  using set_zip_leftD [of x y xs ys] size_list_estimation' [of x xs "size x" size]
  by (simp add: less_Suc_eq_le)

lemma size_in_dict: "(k, x) \<in> set d \<Longrightarrow> size x < Suc (size_list (size_prod (\<lambda>_. 0) size) d)"
proof -
  assume m: "(k, x) \<in> set d"
  have "size x \<le> size_prod (\<lambda>_. 0) size (k, x)" by simp
  then have "size x \<le> size_list (size_prod (\<lambda>_. 0) size) d"
    by (rule size_list_estimation' [OF m])
  then show ?thesis by simp
qed

text \<open>\<open>v == w\<close>: numbers compare across kinds, dictionaries regardless of order.\<close>

function py_eq :: "pyval \<Rightarrow> pyval \<Rightarrow> bool" where
  "py_eq (PList xs) w = (case w of
      PList ys \<Rightarrow> length xs = length ys \<and> list_all (\<lambda>(x, y). py_eq x y) (zip xs ys) | _ \<Rightarrow> False)"
| "py_eq (PDict d) w = (case w of
      PDict e \<Rightarrow> length d = length e \<and>
        list_all (\<lambda>(k, x). case map_of e k of None \<Rightarrow> False | Some y \<Rightarrow> py_eq x y) d
    | _ \<Rightarrow> False)"
| "py_eq PNone w = (w = PNone)"
| "py_eq (PStr s) w = (w = PStr s)"
| "py_eq (PBool b) w = (num_opt w = num_opt (PBool b))"
| "py_eq (PInt i) w = (num_opt w = num_opt (PInt i))"
| "py_eq (PFloat q) w = (num_opt w = num_opt (PFloat q))"
  by pat_completeness auto

termination
  by (relation "measure (\<lambda>(v, w). size v)") (auto dest: size_in_zip size_in_dict)

text \<open>\<open>for x in v\<close>: what the iteration yields, or the \<open>TypeError\<close>.\<close>

fun py_iter :: "pyval \<Rightarrow> pyexn + pyval list" where
  "py_iter (PList xs) = Inr xs"
| "py_iter (PStr s) = Inr (map (\<lambda>c. PStr [c]) s)"
| "py_iter (PDict d) = Inr (map (\<lambda>kv. PStr (fst kv)) d)"
| "py_iter _ = Inl TypeError"

text \<open>Membership of a set of strings, which raises for an unhashable value.\<close>

fun in_str_set :: "pyval \<Rightarrow> string list \<Rightarrow> pyexn + bool" where
  "in_str_set (PStr s) xs = Inr (s \<in> set xs)"
| "in_str_set (PList _) xs = Inl TypeError"
| "in_str_set (PDict _) xs = Inl TypeError"
| "in_str_set _ xs = Inr False"

text \<open>\<open>v or w\<close>.\<close>

definition py_or :: "pyval \<Rightarrow> pyval \<Rightarrow> pyval" where
  "py_or v w = (if truthy v then v else w)"

definition show_int :: "int \<Rightarrow> string" where
  "show_int i = (if i < 0 then ''-'' @ show_nat (nat (- i)) else show_nat (nat i))"

text \<open>\<open>str(v)\<close>; \<open>rp\<close> is the text of floats and of containers.\<close>

fun py_str :: "(pyval \<Rightarrow> string) \<Rightarrow> pyval \<Rightarrow> string" where
  "py_str rp (PStr s) = s"
| "py_str rp (PInt i) = show_int i"
| "py_str rp (PBool b) = (if b then ''True'' else ''False'')"
| "py_str rp PNone = ''None''"
| "py_str rp v = rp v"

section \<open>Lists\<close>

text \<open>The first position-wise condition of an ordering: every dependency of an element precedes it.\<close>

definition deps_first :: "('a \<Rightarrow> 'a list) \<Rightarrow> 'a list \<Rightarrow> bool" where
  "deps_first deps xs = (\<forall>i < length xs. set (deps (xs ! i)) \<subseteq> set (take i xs))"

lemma deps_first_Nil [simp]: "deps_first deps []"
  by (simp add: deps_first_def)

lemma deps_first_snoc:
  "deps_first deps (xs @ [x]) \<longleftrightarrow> deps_first deps xs \<and> set (deps x) \<subseteq> set xs"
  by (auto simp: deps_first_def nth_append less_Suc_eq)

lemma deps_first_append:
  assumes "deps_first deps xs" "\<And>y. y \<in> set ys \<Longrightarrow> set (deps y) \<subseteq> set xs"
  shows "deps_first deps (xs @ ys)"
  using assms(2)
proof (induction ys rule: rev_induct)
  case Nil
  from assms(1) show ?case by simp
next
  case (snoc y ys)
  then have "deps_first deps (xs @ ys)" by simp
  moreover have "set (deps y) \<subseteq> set (xs @ ys)" using snoc.prems by fastforce
  ultimately show ?case by (simp add: deps_first_snoc flip: append_assoc)
qed

lemma deps_first_closed: "deps_first deps xs \<Longrightarrow> x \<in> set xs \<Longrightarrow> set (deps x) \<subseteq> set xs"
  by (metis in_set_conv_nth deps_first_def set_take_subset subset_trans)

lemma length_filter_less_if_mem:
  "x \<in> set xs \<Longrightarrow> P x \<Longrightarrow> \<not> Q x \<Longrightarrow> (\<And>y. Q y \<Longrightarrow> P y) \<Longrightarrow>
   length (filter Q xs) < length (filter P xs)"
proof (induction xs)
  case (Cons a xs)
  have "length (filter Q xs) \<le> length (filter P xs)"
    using Cons.prems(4) by (induction xs) auto
  with Cons show ?case by (auto simp: less_Suc_eq_le)
qed simp

lemma length_filter_split:
  "length (filter P xs) = length (filter (\<lambda>x. P x \<and> Q x) xs) + length (filter (\<lambda>x. P x \<and> \<not> Q x) xs)"
  by (induction xs) auto

lemma map_of_rev_distinct:
  "distinct (map fst xs) \<Longrightarrow> map_of (rev xs) = map_of xs"
  by (rule map_of_inject_set [THEN iffD2]) (auto simp: rev_map [symmetric])

lemma sort_Nil_iff [simp]: "sort xs = [] \<longleftrightarrow> xs = []"
  by (metis set_empty set_sort)

end
