(* ===== verification/Graph_Plan.thy ===== *)
theory Graph_Plan
  imports Py_Prelude
begin

text \<open>
  The plan model of \<^verbatim>\<open>agy_orchestrator/execution/graph_plan.py\<close>: linear chains and dependency
  graphs, the stable Kahn sort, the Kahn layers, the ancestor closure, and the loader's validation.
  A contract locale states what a linearization owes its callers; both the sort and the flattened
  layers provide it.
\<close>

section \<open>Data\<close>

record plan_node =
  pn_id :: string
  pn_task :: string
  pn_deps :: "string list"
  pn_group :: "string option"

datatype plan = ChainPlan "string list" | GraphPlan "plan_node list"

text \<open>One constructor per \<open>raise\<close>, with the values its message shows.\<close>

datatype graph_error =
    NodesNotList
  | NodeNotObject nat
  | NodeBadId nat
  | NodeDupId nat string
  | NodeBadTask string
  | NodeDepsNotList string
  | NodeBadDep string
  | NodeSelfDep string
  | NodeBadGroup string
  | NodeDangling string string
  | PlanCycle "string list"
  | UnknownNode string

definition node_ids :: "plan_node list \<Rightarrow> string list" where
  "node_ids nodes = map pn_id nodes"

text \<open>\<open>{n.id: n for n in self.nodes}\<close>: a later node with the same id wins.\<close>

definition by_id :: "plan_node list \<Rightarrow> string \<Rightarrow> plan_node option" where
  "by_id nodes = map_of (rev (map (\<lambda>n. (pn_id n, n)) nodes))"

text \<open>\<open>deps_of[nid]\<close>; the code only reads it at ids of the plan.\<close>

definition deps_at :: "plan_node list \<Rightarrow> string \<Rightarrow> string list" where
  "deps_at nodes i = (case by_id nodes i of None \<Rightarrow> [] | Some n \<Rightarrow> pn_deps n)"

section \<open>Stable Kahn sort\<close>

text \<open>The in-degree table: one increment per dependency of every listed id.\<close>

definition indegree_of :: "plan_node list \<Rightarrow> string \<Rightarrow> nat" where
  "indegree_of nodes =
     fold (\<lambda>nid ind. fold (\<lambda>dep t. t(nid := Suc (t nid))) (deps_at nodes nid) ind)
       (node_ids nodes) (\<lambda>_. 0)"

text \<open>The candidates that a step releases, scanned in input order.\<close>

definition newly_ready :: "(string \<Rightarrow> string list) \<Rightarrow> string list \<Rightarrow> string list \<Rightarrow> string list
    \<Rightarrow> string list" where
  "newly_ready deps order done ready =
     filter (\<lambda>c. \<not> (c \<in> set done \<or> c \<in> set ready) \<and> list_all (\<lambda>d. d \<in> set done) (deps c)) order"

function topo_loop :: "(string \<Rightarrow> string list) \<Rightarrow> string list \<Rightarrow> string list \<Rightarrow> string list
    \<Rightarrow> string list" where
  "topo_loop deps order [] done = done"
| "topo_loop deps order (nid # ready) done =
     topo_loop deps order (ready @ newly_ready deps order (done @ [nid]) ready) (done @ [nid])"
  by pat_completeness auto

text \<open>Every round moves one queue entry to the output; a released id leaves the unseen ones.\<close>

definition topo_fuel :: "string list \<Rightarrow> string list \<Rightarrow> string list \<Rightarrow> nat" where
  "topo_fuel order ready done =
     length ready + length (filter (\<lambda>c. c \<notin> set done \<and> c \<notin> set ready) order)"

lemma topo_fuel_step:
  "topo_fuel order (ready @ newly_ready deps order (done @ [nid]) ready) (done @ [nid])
     < topo_fuel order (nid # ready) done"
proof -
  let ?P = "\<lambda>c. c \<notin> set done \<and> c \<notin> set (nid # ready)"
  let ?Q = "\<lambda>c. list_all (\<lambda>d. d \<in> set (done @ [nid])) (deps c)"
  let ?new = "newly_ready deps order (done @ [nid]) ready"
  have new: "?new = filter (\<lambda>c. ?P c \<and> ?Q c) order"
    by (auto simp: newly_ready_def intro!: filter_cong)
  have "filter (\<lambda>c. c \<notin> set (done @ [nid]) \<and> c \<notin> set (ready @ ?new)) order
      = filter (\<lambda>c. ?P c \<and> \<not> ?Q c) order"
    by (rule filter_cong) (auto simp: new)
  then show ?thesis
    unfolding topo_fuel_def using length_filter_split [of ?P order ?Q] by (simp add: new)
qed

termination topo_loop
  by (relation "measure (\<lambda>(deps, order, ready, done). topo_fuel order ready done)")
    (simp_all add: topo_fuel_step)

definition topo_order :: "plan_node list \<Rightarrow> graph_error + string list" where
  "topo_order nodes =
     (let order = node_ids nodes; ind = indegree_of nodes;
          ready = filter (\<lambda>nid. ind nid = 0) order;
          done = topo_loop (deps_at nodes) order ready []
      in if length done \<noteq> length order
         then Inl (PlanCycle (filter (\<lambda>nid. nid \<notin> set done) order))
         else Inr done)"

text \<open>\<open>[by_id[nid].task for nid in self.topo_order()]\<close>.\<close>

definition task_of :: "plan_node list \<Rightarrow> string \<Rightarrow> string" where
  "task_of nodes i = (case by_id nodes i of None \<Rightarrow> [] | Some n \<Rightarrow> pn_task n)"

definition graph_as_steps :: "plan_node list \<Rightarrow> graph_error + string list" where
  "graph_as_steps nodes = ebind (topo_order nodes) (\<lambda>ids. Inr (map (task_of nodes) ids))"

section \<open>Kahn layers\<close>

function layer_loop :: "(string \<Rightarrow> string list) \<Rightarrow> string list \<Rightarrow> string list \<Rightarrow> string list list
    \<Rightarrow> graph_error + string list list" where
  "layer_loop deps remaining placed layers =
     (if remaining = [] then Inr layers
      else let layer = filter (\<lambda>nid. list_all (\<lambda>d. d \<in> set placed) (deps nid)) remaining in
        if layer = [] then Inl (PlanCycle remaining)
        else let placed' = placed @ layer in
          layer_loop deps (filter (\<lambda>nid. nid \<notin> set placed') remaining) placed' (layers @ [layer]))"
  by pat_completeness auto
termination
proof (relation "measure (\<lambda>(deps, remaining, placed, layers). length remaining)", goal_cases)
  case (2 deps remaining placed layers layer placed')
  then have "layer \<noteq> []" by simp
  then obtain x where x: "x \<in> set layer" by (meson list.set_sel(1))
  with 2 have "x \<in> set remaining" by auto
  moreover from x 2 have "x \<in> set placed'" by simp
  ultimately show ?case
    by (auto intro!: length_filter_less)
qed simp

declare layer_loop.simps [simp del]

lemma layer_loop_Nil [simp]: "layer_loop deps [] placed layers = Inr layers"
  by (simp add: layer_loop.simps)

definition topological_layers :: "plan_node list \<Rightarrow> graph_error + string list list" where
  "topological_layers nodes = layer_loop (deps_at nodes) (node_ids nodes) [] []"

definition parallel_groups :: "plan_node list \<Rightarrow> graph_error + string list list" where
  "parallel_groups nodes = topological_layers nodes"

section \<open>Ancestors\<close>

text \<open>The work list is popped at its end and extended at its end.\<close>

definition unseen :: "plan_node list \<Rightarrow> string list \<Rightarrow> string list" where
  "unseen nodes seen = filter (\<lambda>i. i \<notin> set seen) (node_ids nodes)"

lemma by_id_Some_mem: "by_id nodes i = Some n \<Longrightarrow> i \<in> set (node_ids nodes) \<and> pn_id n = i"
  by (auto simp: by_id_def node_ids_def dest!: map_of_SomeD)

lemma by_id_None_iff: "by_id nodes i = None \<longleftrightarrow> i \<notin> set (node_ids nodes)"
  by (auto simp: by_id_def node_ids_def map_of_eq_None_iff image_image)

lemma unseen_less:
  "by_id nodes cur = Some n \<Longrightarrow> cur \<notin> set seen \<Longrightarrow>
   length (unseen nodes (seen @ [cur])) < length (unseen nodes seen)"
  unfolding unseen_def
  by (rule length_filter_less_if_mem [where x = cur]) (auto dest: by_id_Some_mem)

function ancestor_loop :: "plan_node list \<Rightarrow> string list \<Rightarrow> string list
    \<Rightarrow> graph_error + string list" where
  "ancestor_loop nodes stack seen =
     (if stack = [] then Inr seen
      else let cur = last stack; stack' = butlast stack in
        if cur \<in> set seen then ancestor_loop nodes stack' seen
        else case by_id nodes cur of
            None \<Rightarrow> Inl (UnknownNode cur)
          | Some n \<Rightarrow> ancestor_loop nodes (stack' @ pn_deps n) (seen @ [cur]))"
  by pat_completeness auto
termination
  by (relation "measures [\<lambda>(nodes, stack, seen). length (unseen nodes seen),
      \<lambda>(nodes, stack, seen). length stack]")
    (auto dest: unseen_less)

declare ancestor_loop.simps [simp del]

lemma ancestor_loop_Nil [simp]: "ancestor_loop nodes [] seen = Inr seen"
  by (simp add: ancestor_loop.simps)

definition ancestors :: "plan_node list \<Rightarrow> string \<Rightarrow> graph_error + string list" where
  "ancestors nodes node_id =
     (case by_id nodes node_id of
        None \<Rightarrow> Inl (UnknownNode node_id)
      | Some n \<Rightarrow> ebind (ancestor_loop nodes (pn_deps n) [])
          (\<lambda>seen. ebind (topo_order nodes) (\<lambda>ord. Inr (filter (\<lambda>nid. nid \<in> set seen) ord))))"

section \<open>Chains\<close>

definition step_id :: "nat \<Rightarrow> string" where
  "step_id i = ''s'' @ show_nat i"

definition chain_node :: "nat \<Rightarrow> string \<Rightarrow> plan_node" where
  "chain_node i task =
     \<lparr>pn_id = step_id i, pn_task = task, pn_deps = (if i > 1 then [step_id (i - 1)] else []),
      pn_group = None\<rparr>"

text \<open>\<open>for i, task in enumerate(self.steps, 1)\<close>.\<close>

definition as_graph :: "string list \<Rightarrow> plan_node list" where
  "as_graph steps = map (\<lambda>(i, task). chain_node i task) (zip [1..<Suc (length steps)] steps)"

definition as_steps :: "plan \<Rightarrow> graph_error + string list" where
  "as_steps p = (case p of ChainPlan steps \<Rightarrow> Inr steps | GraphPlan nodes \<Rightarrow> graph_as_steps nodes)"

section \<open>Serialization and validation\<close>

definition node_to_json :: "plan_node \<Rightarrow> pyval" where
  "node_to_json n =
     PDict ([(''id'', PStr (pn_id n)), (''task'', PStr (pn_task n)),
             (''deps'', PList (map PStr (pn_deps n)))]
            @ (case pn_group n of None \<Rightarrow> [] | Some g \<Rightarrow> [(''group'', PStr g)]))"

definition plan_to_json :: "plan \<Rightarrow> pyval" where
  "plan_to_json p =
     (case p of
        GraphPlan nodes \<Rightarrow> PDict [(''version'', PInt 2), (''nodes'', PList (map node_to_json nodes))]
      | ChainPlan steps \<Rightarrow> PDict [(''steps'', PList (map PStr steps))])"

fun parse_deps :: "string \<Rightarrow> pyval list \<Rightarrow> graph_error + string list" where
  "parse_deps nid [] = Inr []"
| "parse_deps nid (d # ds) =
     (case str_nonblank d of
        None \<Rightarrow> Inl (NodeBadDep nid)
      | Some s \<Rightarrow>
          if py_strip s = nid then Inl (NodeSelfDep nid)
          else ebind (parse_deps nid ds) (\<lambda>rest. Inr (py_strip s # rest)))"

definition parse_node :: "nat \<Rightarrow> string list \<Rightarrow> pyval \<Rightarrow> graph_error + plan_node" where
  "parse_node idx seen item =
     (case dict_opt item of None \<Rightarrow> Inl (NodeNotObject idx) | Some d \<Rightarrow>
     (case str_nonblank (dget d ''id'') of None \<Rightarrow> Inl (NodeBadId idx) | Some raw \<Rightarrow>
     (let nid = py_strip raw in
      if nid \<in> set seen then Inl (NodeDupId idx nid)
      else
     (case str_nonblank (dget d ''task'') of None \<Rightarrow> Inl (NodeBadTask nid) | Some task \<Rightarrow>
     (case list_opt (dget_or d ''deps'' (PList [])) of None \<Rightarrow> Inl (NodeDepsNotList nid) | Some ds \<Rightarrow>
      ebind (parse_deps nid ds) (\<lambda>deps.
     (case none_or_str (dget d ''group'') of None \<Rightarrow> Inl (NodeBadGroup nid) | Some grp \<Rightarrow>
      Inr \<lparr>pn_id = nid, pn_task = task, pn_deps = deps, pn_group = grp\<rparr>)))))))"

fun parse_nodes :: "nat \<Rightarrow> string list \<Rightarrow> pyval list \<Rightarrow> graph_error + plan_node list" where
  "parse_nodes idx seen [] = Inr []"
| "parse_nodes idx seen (item # items) =
     ebind (parse_node idx seen item) (\<lambda>n.
       ebind (parse_nodes (Suc idx) (seen @ [pn_id n]) items) (\<lambda>rest. Inr (n # rest)))"

text \<open>The first dangling dependency in node order, then in dependency order.\<close>

definition find_dangling :: "plan_node list \<Rightarrow> (string \<times> string) option" where
  "find_dangling nodes =
     List.find (\<lambda>(i, dep). dep \<notin> set (node_ids nodes))
       (concat (map (\<lambda>n. map (\<lambda>dep. (pn_id n, dep)) (pn_deps n)) nodes))"

definition validate_graph :: "pyval \<Rightarrow> graph_error + plan_node list" where
  "validate_graph raw =
     (case list_opt raw of None \<Rightarrow> Inl NodesNotList | Some items \<Rightarrow>
      if items = [] then Inl NodesNotList
      else ebind (parse_nodes 1 [] items) (\<lambda>nodes.
        (case find_dangling nodes of
           Some (i, dep) \<Rightarrow> Inl (NodeDangling i dep)
         | None \<Rightarrow> ebind (topo_order nodes) (\<lambda>_. Inr nodes))))"

section \<open>Well-formed plans and the dependency relation\<close>

definition dep_rel :: "plan_node list \<Rightarrow> (string \<times> string) set" where
  "dep_rel nodes = {(d, i). i \<in> set (node_ids nodes) \<and> d \<in> set (deps_at nodes i)}"

definition wf_plan :: "plan_node list \<Rightarrow> bool" where
  "wf_plan nodes = (distinct (node_ids nodes) \<and>
     list_all (\<lambda>i. list_all (\<lambda>d. d \<in> set (node_ids nodes)) (deps_at nodes i)) (node_ids nodes))"

lemma wf_plan_distinct: "wf_plan nodes \<Longrightarrow> distinct (node_ids nodes)"
  by (simp add: wf_plan_def)

lemma wf_plan_closed:
  "wf_plan nodes \<Longrightarrow> i \<in> set (node_ids nodes) \<Longrightarrow> set (deps_at nodes i) \<subseteq> set (node_ids nodes)"
  by (auto simp: wf_plan_def list_all_iff)

lemma deps_at_outside: "i \<notin> set (node_ids nodes) \<Longrightarrow> deps_at nodes i = []"
  by (simp add: deps_at_def by_id_None_iff [THEN iffD2])

lemma by_id_mem:
  assumes "distinct (node_ids nodes)" "n \<in> set nodes"
  shows "by_id nodes (pn_id n) = Some n"
proof -
  let ?ps = "map (\<lambda>n. (pn_id n, n)) nodes"
  have "distinct (map fst (rev ?ps))"
    using assms(1) by (simp add: node_ids_def comp_def rev_map [symmetric])
  moreover have "(pn_id n, n) \<in> set (rev ?ps)" using assms(2) by auto
  ultimately show ?thesis unfolding by_id_def by (metis map_of_is_SomeI)
qed

lemma deps_at_mem:
  "distinct (node_ids nodes) \<Longrightarrow> n \<in> set nodes \<Longrightarrow> deps_at nodes (pn_id n) = pn_deps n"
  by (simp add: deps_at_def by_id_mem)

lemma task_of_mem:
  "distinct (node_ids nodes) \<Longrightarrow> n \<in> set nodes \<Longrightarrow> task_of nodes (pn_id n) = pn_task n"
  by (simp add: task_of_def by_id_mem)

section \<open>Positions\<close>

definition pos :: "'a list \<Rightarrow> 'a \<Rightarrow> nat" where
  "pos xs x = length (takeWhile (\<lambda>y. y \<noteq> x) xs)"

lemma pos_nth: "distinct xs \<Longrightarrow> i < length xs \<Longrightarrow> pos xs (xs ! i) = i"
proof -
  assume d: "distinct xs" and i: "i < length xs"
  have "takeWhile (\<lambda>y. y \<noteq> xs ! i) xs = take i xs"
    using d i by (intro takeWhile_eq_take_P_nth) (auto simp: nth_eq_iff_index_eq)
  with i show ?thesis by (simp add: pos_def)
qed

lemma deps_first_pos:
  assumes "distinct xs" "deps_first deps xs" "x \<in> set xs" "d \<in> set (deps x)"
  shows "pos xs d < pos xs x"
proof -
  from assms(3) obtain i where i: "i < length xs" "xs ! i = x"
    by (auto simp: in_set_conv_nth)
  with assms(2,4) have "d \<in> set (take i xs)" by (auto simp: deps_first_def)
  then obtain j where j: "j < i" "xs ! j = d"
    using i(1) by (auto simp: in_set_conv_nth)
  with assms(1) i have "pos xs d = j" "pos xs x = i"
    using pos_nth [of xs j] pos_nth [of xs i] by auto
  with j show ?thesis by simp
qed

text \<open>A dependency-closed enumeration that misses nothing it could take is complete.\<close>

lemma deps_first_complete:
  assumes acyc: "acyclic (dep_rel nodes)" and wf: "wf_plan nodes"
    and take: "\<And>c. c \<in> set (node_ids nodes) \<Longrightarrow> set (deps_at nodes c) \<subseteq> S \<Longrightarrow> c \<in> S"
  shows "set (node_ids nodes) \<subseteq> S"
proof (rule ccontr)
  let ?R = "dep_rel nodes"
  assume "\<not> ?thesis"
  then obtain c where c: "c \<in> set (node_ids nodes) - S" by auto
  have "?R \<subseteq> set (node_ids nodes) \<times> set (node_ids nodes)"
    using wf_plan_closed [OF wf] by (fastforce simp: dep_rel_def)
  then have "finite ?R" by (rule finite_subset) simp
  then have "wf ?R" using acyc by (rule finite_acyclic_wf)
  then obtain m where m: "m \<in> set (node_ids nodes) - S"
    and min: "\<And>y. (y, m) \<in> ?R \<Longrightarrow> y \<notin> set (node_ids nodes) - S"
    using wfE_min [OF \<open>wf ?R\<close> c] by blast
  have "set (deps_at nodes m) \<subseteq> S"
    using min m wf_plan_closed [OF wf, of m] by (auto simp: dep_rel_def)
  with m take show False by blast
qed

lemma deps_first_acyclic:
  assumes "distinct xs" "set xs = set (node_ids nodes)" "deps_first (deps_at nodes) xs"
  shows "acyclic (dep_rel nodes)"
proof -
  have "dep_rel nodes \<subseteq> measure (pos xs)"
    using deps_first_pos [OF assms(1,3)] assms(2) by (auto simp: dep_rel_def)
  then show ?thesis by (meson acyclic_subset wf_acyclic wf_measure)
qed

section \<open>The contract of a linearization\<close>

locale linearization =
  fixes sorter :: "plan_node list \<Rightarrow> graph_error + string list"
  assumes sorter_sound: "wf_plan nodes \<Longrightarrow> sorter nodes = Inr ord \<Longrightarrow>
      distinct ord \<and> set ord = set (node_ids nodes) \<and> deps_first (deps_at nodes) ord"
    and sorter_complete: "wf_plan nodes \<Longrightarrow> acyclic (dep_rel nodes) \<Longrightarrow> \<exists>ord. sorter nodes = Inr ord"
begin

lemma sorter_permutes:
  assumes "wf_plan nodes" "sorter nodes = Inr ord"
  shows "distinct ord" "set ord = set (node_ids nodes)" "length ord = length nodes"
proof -
  show d: "distinct ord" and s: "set ord = set (node_ids nodes)"
    using sorter_sound [OF assms] by auto
  have "length ord = card (set ord)" using d by (simp add: distinct_card)
  also have "\<dots> = length (node_ids nodes)"
    using s wf_plan_distinct [OF assms(1)] by (simp add: distinct_card)
  finally show "length ord = length nodes" by (simp add: node_ids_def)
qed

lemma sorter_succeeds_iff:
  "wf_plan nodes \<Longrightarrow> (\<exists>ord. sorter nodes = Inr ord) \<longleftrightarrow> acyclic (dep_rel nodes)"
  by (metis sorter_complete sorter_sound deps_first_acyclic)

lemma dep_precedes:
  assumes "wf_plan nodes" "sorter nodes = Inr ord" "(a, b) \<in> (dep_rel nodes)\<^sup>+"
  shows "pos ord a < pos ord b"
proof -
  have step: "pos ord x < pos ord y" if "(x, y) \<in> dep_rel nodes" for x y
    using sorter_sound [OF assms(1,2)] that deps_first_pos by (fastforce simp: dep_rel_def)
  show ?thesis
    using assms(3) by (induction rule: trancl.induct) (auto dest: step)
qed

end

section \<open>The Kahn sort provides it\<close>

lemma inner_indegree: "fold (\<lambda>dep t. t(nid := Suc (t nid))) ds ind = ind(nid := ind nid + length ds)"
  by (induction ds arbitrary: ind) auto

lemma indegree_fold:
  "fold (\<lambda>nid ind. fold (\<lambda>dep t. t(nid := Suc (t nid))) (deps nid) ind) ids ind x
     = ind x + count_list ids x * length (deps x)"
  by (induction ids arbitrary: ind) (auto simp: inner_indegree)

lemma indegree_zero_iff:
  "i \<in> set (node_ids nodes) \<Longrightarrow> indegree_of nodes i = 0 \<longleftrightarrow> deps_at nodes i = []"
  by (simp add: indegree_of_def indegree_fold count_list_0_iff)

definition topo_inv :: "(string \<Rightarrow> string list) \<Rightarrow> string list \<Rightarrow> string list \<Rightarrow> string list \<Rightarrow> bool" where
  "topo_inv deps order ready done \<longleftrightarrow>
     distinct (done @ ready) \<and> set (done @ ready) \<subseteq> set order \<and> deps_first deps done \<and>
     (\<forall>c \<in> set ready. set (deps c) \<subseteq> set done) \<and>
     (\<forall>c \<in> set order. set (deps c) \<subseteq> set done \<longrightarrow> c \<in> set done \<union> set ready)"

lemma topo_inv_step:
  assumes "distinct order" "topo_inv deps order (nid # ready) done"
  shows "topo_inv deps order (ready @ newly_ready deps order (done @ [nid]) ready) (done @ [nid])"
proof -
  let ?new = "newly_ready deps order (done @ [nid]) ready"
  have new: "c \<in> set ?new \<longleftrightarrow> c \<in> set order \<and> c \<notin> set done \<and> c \<noteq> nid \<and> c \<notin> set ready \<and>
      set (deps c) \<subseteq> insert nid (set done)" for c
    by (auto simp: newly_ready_def list_all_iff)
  have dn: "distinct ?new" using assms(1) by (simp add: newly_ready_def)
  from assms(2) have "deps_first deps (done @ [nid])"
    by (simp add: topo_inv_def deps_first_snoc)
  moreover from assms(2) dn new have "distinct ((done @ [nid]) @ ready @ ?new)"
    by (auto simp: topo_inv_def)
  moreover from assms(2) new have "set ((done @ [nid]) @ ready @ ?new) \<subseteq> set order"
    by (auto simp: topo_inv_def)
  moreover from assms(2) new have "\<forall>c \<in> set (ready @ ?new). set (deps c) \<subseteq> set (done @ [nid])"
    by (auto simp: topo_inv_def)
  moreover from new have "\<forall>c \<in> set order. set (deps c) \<subseteq> set (done @ [nid]) \<longrightarrow>
      c \<in> set (done @ [nid]) \<union> set (ready @ ?new)"
    by auto
  ultimately show ?thesis unfolding topo_inv_def by blast
qed

lemma topo_loop_inv:
  "distinct order \<Longrightarrow> topo_inv deps order ready done \<Longrightarrow>
   topo_inv deps order [] (topo_loop deps order ready done)"
  by (induction deps order ready "done" rule: topo_loop.induct) (simp_all add: topo_inv_step)

lemma topo_inv_init:
  assumes "wf_plan nodes"
  shows "topo_inv (deps_at nodes) (node_ids nodes)
    (filter (\<lambda>i. indegree_of nodes i = 0) (node_ids nodes)) []"
  using wf_plan_distinct [OF assms] by (auto simp: topo_inv_def indegree_zero_iff)

interpretation kahn: linearization topo_order
proof (unfold_locales, goal_cases)
  case (1 nodes ord)
  let ?done = "topo_loop (deps_at nodes) (node_ids nodes)
    (filter (\<lambda>i. indegree_of nodes i = 0) (node_ids nodes)) []"
  have inv: "topo_inv (deps_at nodes) (node_ids nodes) [] ?done"
    using topo_loop_inv [OF wf_plan_distinct [OF 1(1)] topo_inv_init [OF 1(1)]] .
  from 1(2) have ord: "ord = ?done" and len: "length ord = length (node_ids nodes)"
    by (auto simp: topo_order_def Let_def split: if_splits)
  from inv ord have d: "distinct ord" "set ord \<subseteq> set (node_ids nodes)"
      "deps_first (deps_at nodes) ord"
    by (auto simp: topo_inv_def)
  moreover have "card (set ord) = card (set (node_ids nodes))"
    using d(1) len wf_plan_distinct [OF 1(1)] by (simp add: distinct_card)
  then have "set ord = set (node_ids nodes)" using d(2) by (simp add: card_subset_eq)
  ultimately show ?case by simp
next
  case (2 nodes)
  let ?done = "topo_loop (deps_at nodes) (node_ids nodes)
    (filter (\<lambda>i. indegree_of nodes i = 0) (node_ids nodes)) []"
  have inv: "topo_inv (deps_at nodes) (node_ids nodes) [] ?done"
    using topo_loop_inv [OF wf_plan_distinct [OF 2(1)] topo_inv_init [OF 2(1)]] .
  then have "set (node_ids nodes) \<subseteq> set ?done"
    using deps_first_complete [OF 2(2,1), of "set ?done"] by (auto simp: topo_inv_def)
  with inv have "set ?done = set (node_ids nodes)" "distinct ?done"
    by (auto simp: topo_inv_def)
  then have "length ?done = length (node_ids nodes)"
    using wf_plan_distinct [OF 2(1)] by (metis distinct_card)
  then show ?case by (simp add: topo_order_def Let_def)
qed

end
