(* ===== verification/Graph_Plan_Laws.thy ===== *)
theory Graph_Plan_Laws
  imports Graph_Plan
begin

text \<open>
  The laws of the plan model: the Kahn layers are exact levels and provide the same contract as the
  sort, the ancestor closure is the transitive closure in dependency order, a chain lifted to a
  graph linearizes back to itself, and the loader accepts precisely the clean acyclic plans.
\<close>

section \<open>Layers\<close>

definition layered :: "(string \<Rightarrow> string list) \<Rightarrow> string list list \<Rightarrow> bool" where
  "layered deps ls = (\<forall>k < length ls. \<forall>x \<in> set (ls ! k).
     set (deps x) \<subseteq> set (concat (take k ls)) \<and>
     (k > 0 \<longrightarrow> set (deps x) \<inter> set (ls ! (k - 1)) \<noteq> {}))"

lemma layered_Nil [simp]: "layered deps []"
  by (simp add: layered_def)

lemma last_stack_set: "xs \<noteq> [] \<Longrightarrow> set xs = insert (last xs) (set (butlast xs))"
  by (metis append_butlast_last_id list.simps(15) rotate1.simps(2) set_rotate1)

definition level_ok :: "(string \<Rightarrow> string list) \<Rightarrow> string list list \<Rightarrow> nat \<Rightarrow> bool" where
  "level_ok deps ls k = (\<forall>x \<in> set (ls ! k).
     set (deps x) \<subseteq> set (concat (take k ls)) \<and>
     (k > 0 \<longrightarrow> set (deps x) \<inter> set (ls ! (k - 1)) \<noteq> {}))"

lemma layered_level_ok: "layered deps ls = (\<forall>k < length ls. level_ok deps ls k)"
  by (simp add: layered_def level_ok_def)

lemma layered_snoc:
  "layered deps (ls @ [l]) \<longleftrightarrow> layered deps ls \<and>
     (\<forall>x \<in> set l. set (deps x) \<subseteq> set (concat ls) \<and>
        (ls \<noteq> [] \<longrightarrow> set (deps x) \<inter> set (last ls) \<noteq> {}))"
proof -
  have "level_ok deps (ls @ [l]) k = level_ok deps ls k" if "k < length ls" for k
    using that by (simp add: level_ok_def nth_append less_imp_diff_less)
  then have "(\<forall>k < length ls. level_ok deps (ls @ [l]) k) = (\<forall>k < length ls. level_ok deps ls k)"
    by simp
  moreover have "level_ok deps (ls @ [l]) (length ls) = (\<forall>x \<in> set l. set (deps x) \<subseteq> set (concat ls) \<and>
        (ls \<noteq> [] \<longrightarrow> set (deps x) \<inter> set (last ls) \<noteq> {}))"
    by (simp add: level_ok_def nth_append last_conv_nth)
  ultimately show ?thesis
    unfolding layered_level_ok by (simp only: length_append_singleton All_less_Suc) blast
qed

lemma layered_deps_first: "layered deps ls \<Longrightarrow> deps_first deps (concat ls)"
proof (induction ls rule: rev_induct)
  case (snoc l ls)
  then show ?case unfolding concat_append
    by (intro deps_first_append) (auto simp: layered_snoc simp del: set_concat)
qed simp

definition layer_inv :: "(string \<Rightarrow> string list) \<Rightarrow> string list \<Rightarrow> string list \<Rightarrow> string list
    \<Rightarrow> string list list \<Rightarrow> bool" where
  "layer_inv deps order remaining placed ls \<longleftrightarrow>
     remaining = filter (\<lambda>i. i \<notin> set placed) order \<and> placed = concat ls \<and> distinct placed \<and>
     set placed \<subseteq> set order \<and> layered deps ls \<and> (\<forall>l \<in> set ls. l \<noteq> [] \<and> subseq l order) \<and>
     (ls \<noteq> [] \<longrightarrow> (\<forall>x \<in> set remaining. \<not> set (deps x) \<subseteq> set (concat (butlast ls))))"

lemma layer_inv_step:
  assumes "distinct order" "layer_inv deps order remaining placed ls"
    and l: "l = filter (\<lambda>i. list_all (\<lambda>d. d \<in> set placed) (deps i)) remaining" "l \<noteq> []"
  shows "layer_inv deps order (filter (\<lambda>i. i \<notin> set (placed @ l)) remaining) (placed @ l) (ls @ [l])"
proof -
  have mem: "x \<in> set l \<longleftrightarrow> x \<in> set order \<and> x \<notin> set placed \<and> set (deps x) \<subseteq> set placed" for x
    using assms(2) l(1) by (auto simp: layer_inv_def list_all_iff simp del: set_concat)
  have "distinct l" using assms(1,2) l(1) by (simp add: layer_inv_def)
  then have "distinct (placed @ l)" "set (placed @ l) \<subseteq> set order"
    using assms(2) mem by (auto simp: layer_inv_def simp del: set_concat)
  moreover have "set (deps x) \<inter> set (last ls) \<noteq> {}" if "x \<in> set l" "ls \<noteq> []" for x
  proof -
    have c: "set (concat ls) = set (concat (butlast ls)) \<union> set (last ls)"
      using that(2) by (metis append_butlast_last_id concat_append concat.simps append_Nil2 set_append)
    have "x \<in> set remaining" using that(1) l(1) by simp
    then have "\<not> set (deps x) \<subseteq> set (concat (butlast ls))"
      using assms(2) that(2) unfolding layer_inv_def by blast
    moreover have "set (deps x) \<subseteq> set (concat ls)"
      using assms(2) that(1) mem [of x] unfolding layer_inv_def by blast
    ultimately show ?thesis unfolding c by blast
  qed
  then have "layered deps (ls @ [l])"
    using assms(2) mem by (auto simp: layer_inv_def layered_snoc simp del: set_concat)
  moreover have "subseq l order"
    using assms(2) l(1) by (auto simp: layer_inv_def)
  moreover have "filter (\<lambda>i. i \<notin> set (placed @ l)) remaining = filter (\<lambda>i. i \<notin> set (placed @ l)) order"
    using assms(2) by (auto simp: layer_inv_def intro!: filter_cong simp del: set_concat)
  moreover have "\<not> set (deps x) \<subseteq> set placed" if "x \<in> set remaining" "x \<notin> set l" for x
    using that l(1) by (auto simp: list_all_iff)
  ultimately show ?thesis
    using assms(2) l(2) by (auto simp: layer_inv_def simp del: set_concat)
qed

lemma layer_loop_sound:
  "distinct order \<Longrightarrow> layer_inv deps order remaining placed ls \<Longrightarrow>
   layer_loop deps remaining placed ls = Inr res \<Longrightarrow> layer_inv deps order [] (concat res) res"
proof (induction deps remaining placed ls rule: layer_loop.induct)
  case (1 deps remaining placed ls)
  let ?l = "filter (\<lambda>i. list_all (\<lambda>d. d \<in> set placed) (deps i)) remaining"
  show ?case
  proof (cases "remaining = []")
    case True
    with 1(3,4) show ?thesis by (auto simp: layer_inv_def simp del: set_concat)
  next
    case False
    with 1(4) have ne: "?l \<noteq> []"
      by (auto simp: layer_loop.simps [of deps remaining] Let_def split: if_splits)
    then show ?thesis
      using 1(1) [OF False refl ne refl 1(2) layer_inv_step [OF 1(2,3) refl ne]] False 1(4)
      by (simp add: layer_loop.simps [of deps remaining] Let_def)
  qed
qed

lemma layer_loop_complete:
  assumes "wf_plan nodes" "acyclic (dep_rel nodes)"
    and "layer_inv (deps_at nodes) (node_ids nodes) remaining placed ls"
  shows "\<exists>res. layer_loop (deps_at nodes) remaining placed ls = Inr res"
  using assms
proof (induction "deps_at nodes" remaining placed ls rule: layer_loop.induct)
  case (1 remaining placed ls)
  let ?l = "filter (\<lambda>i. list_all (\<lambda>d. d \<in> set placed) (deps_at nodes i)) remaining"
  show ?case
  proof (cases "remaining = []")
    case False
    have "?l \<noteq> []"
    proof
      assume empty: "?l = []"
      have rem: "remaining = filter (\<lambda>i. i \<notin> set placed) (node_ids nodes)"
        using 1(4) by (simp add: layer_inv_def)
      have "c \<in> set placed"
        if "c \<in> set (node_ids nodes)" "set (deps_at nodes c) \<subseteq> set placed" for c
      proof (rule ccontr)
        assume "c \<notin> set placed"
        with that rem have "c \<in> set ?l" by (auto simp: list_all_iff)
        with empty show False by simp
      qed
      then have "set (node_ids nodes) \<subseteq> set placed"
        by (rule deps_first_complete [OF 1(3,2)])
      then have "remaining = []" by (simp add: rem filter_empty_conv subset_iff)
      with False show False ..
    qed
    then show ?thesis
      using 1(1) [OF False refl _ refl 1(2,3)
          layer_inv_step [OF wf_plan_distinct [OF 1(2)] 1(4) refl]] False
      by (simp add: layer_loop.simps [of "deps_at nodes" remaining] Let_def)
  qed simp
qed

lemma layer_inv_init: "layer_inv deps order order [] []"
  by (simp add: layer_inv_def)

lemma layers_inv:
  "wf_plan nodes \<Longrightarrow> topological_layers nodes = Inr ls \<Longrightarrow>
   layer_inv (deps_at nodes) (node_ids nodes) [] (concat ls) ls"
  unfolding topological_layers_def
  by (rule layer_loop_sound [OF wf_plan_distinct layer_inv_init])

definition flat_layers :: "plan_node list \<Rightarrow> graph_error + string list" where
  "flat_layers nodes = ebind (topological_layers nodes) (\<lambda>ls. Inr (concat ls))"

interpretation flat: linearization flat_layers
proof (unfold_locales, goal_cases)
  case (1 nodes ord)
  then obtain ls where ls: "topological_layers nodes = Inr ls" "ord = concat ls"
    by (auto simp: flat_layers_def ebind_iffs)
  from layers_inv [OF 1(1) ls(1)] show ?case
    by (auto simp: ls(2) layer_inv_def layered_deps_first filter_empty_conv
        simp del: set_concat dest!: sym [of "[]"])
next
  case (2 nodes)
  then show ?case
    using layer_loop_complete [OF 2(1,2) layer_inv_init]
    by (auto simp: flat_layers_def topological_layers_def)
qed

section \<open>Ancestors\<close>

lemma deps_first_filter:
  assumes "deps_first deps xs" "\<And>x d. P x \<Longrightarrow> d \<in> set (deps x) \<Longrightarrow> P d"
  shows "deps_first deps (filter P xs)"
  using assms(1)
proof (induction xs rule: rev_induct)
  case (snoc x xs)
  then have "deps_first deps xs" "set (deps x) \<subseteq> set xs" by (auto simp: deps_first_snoc)
  with snoc.IH assms(2) show ?case by (auto simp: deps_first_snoc)
qed simp

definition anc_inv :: "plan_node list \<Rightarrow> string \<Rightarrow> string list \<Rightarrow> string list \<Rightarrow> bool" where
  "anc_inv nodes i stack seen \<longleftrightarrow>
     set stack \<union> set seen \<subseteq> {a. (a, i) \<in> (dep_rel nodes)\<^sup>+} \<and>
     set (deps_at nodes i) \<subseteq> set stack \<union> set seen \<and>
     (\<forall>x \<in> set seen. set (deps_at nodes x) \<subseteq> set stack \<union> set seen)"

lemma trancl_mem: "wf_plan nodes \<Longrightarrow> (a, b) \<in> (dep_rel nodes)\<^sup>+ \<Longrightarrow> a \<in> set (node_ids nodes)"
  using wf_plan_closed by (auto simp: dep_rel_def dest!: tranclD) 

lemma anc_inv_end:
  assumes "anc_inv nodes i [] seen"
  shows "set seen = {a. (a, i) \<in> (dep_rel nodes)\<^sup>+}"
proof -
  have "a \<in> set seen" if "(a, i) \<in> (dep_rel nodes)\<^sup>+" for a
    using that assms
    by (induction rule: converse_trancl_induct) (auto simp: anc_inv_def dep_rel_def)
  with assms show ?thesis by (auto simp: anc_inv_def)
qed

lemma anc_inv_step:
  assumes "anc_inv nodes i stack seen" "stack \<noteq> []" "last stack \<in> set (node_ids nodes)"
  shows "anc_inv nodes i (butlast stack @ deps_at nodes (last stack)) (seen @ [last stack])"
proof -
  note st = last_stack_set [OF assms(2)]
  have "(last stack, i) \<in> (dep_rel nodes)\<^sup>+"
    using assms(1) st by (auto simp: anc_inv_def)
  moreover have "(d, last stack) \<in> dep_rel nodes" if "d \<in> set (deps_at nodes (last stack))" for d
    using that assms(3) by (simp add: dep_rel_def)
  ultimately have "(d, i) \<in> (dep_rel nodes)\<^sup>+" if "d \<in> set (deps_at nodes (last stack))" for d
    using that by (meson trancl_into_trancl2)
  then show ?thesis
    using assms(1) unfolding anc_inv_def st by auto
qed

lemma anc_inv_skip:
  assumes "anc_inv nodes i stack seen" "stack \<noteq> []" "last stack \<in> set seen"
  shows "anc_inv nodes i (butlast stack) seen"
proof -
  note st = last_stack_set [OF assms(2)]
  from assms(1,3) show ?thesis unfolding anc_inv_def st by auto
qed

lemma ancestor_loop_correct:
  "wf_plan nodes \<Longrightarrow> anc_inv nodes i stack seen \<Longrightarrow>
   \<exists>res. ancestor_loop nodes stack seen = Inr res \<and> anc_inv nodes i [] res"
proof (induction nodes stack seen rule: ancestor_loop.induct)
  case (1 nodes stack seen)
  show ?case
  proof (cases "stack = []")
    case True
    with 1 show ?thesis by simp
  next
    case False
    let ?c = "last stack"
    have c: "?c \<in> set (node_ids nodes)"
      using 1(4) last_stack_set [OF False] trancl_mem [OF 1(3), of ?c i] by (auto simp: anc_inv_def)
    then obtain n where n: "by_id nodes ?c = Some n" by (metis by_id_None_iff not_None_eq)
    then have d: "pn_deps n = deps_at nodes ?c" by (simp add: deps_at_def)
    show ?thesis
    proof (cases "?c \<in> set seen")
      case True
      then show ?thesis
        using 1(1) [OF False refl refl True 1(3) anc_inv_skip [OF 1(4) False True]] False
        by (simp add: ancestor_loop.simps [of nodes stack] Let_def)
    next
      case new: False
      then show ?thesis
        using 1(2) [OF False refl refl new n 1(3)] anc_inv_step [OF 1(4) False c] False n d
        by (simp add: ancestor_loop.simps [of nodes stack] Let_def)
    qed
  qed
qed

lemma anc_inv_init: "i \<in> set (node_ids nodes) \<Longrightarrow> anc_inv nodes i (deps_at nodes i) []"
  by (auto simp: anc_inv_def dep_rel_def intro: r_into_trancl)

lemma ancestors_closure:
  assumes wf: "wf_plan nodes" and ac: "acyclic (dep_rel nodes)" and i: "i \<in> set (node_ids nodes)"
  shows "\<exists>xs. ancestors nodes i = Inr xs \<and> set xs = {a. (a, i) \<in> (dep_rel nodes)\<^sup>+} \<and>
    distinct xs \<and> deps_first (deps_at nodes) xs"
proof -
  from i obtain n where n: "by_id nodes i = Some n" by (metis by_id_None_iff not_None_eq)
  then have d: "pn_deps n = deps_at nodes i" by (simp add: deps_at_def)
  obtain seen where seen: "ancestor_loop nodes (pn_deps n) [] = Inr seen"
      "set seen = {a. (a, i) \<in> (dep_rel nodes)\<^sup>+}"
    using ancestor_loop_correct [OF wf anc_inv_init [OF i]] d anc_inv_end by metis
  obtain ord where ord: "topo_order nodes = Inr ord" using kahn.sorter_complete [OF wf ac] ..
  note s = kahn.sorter_sound [OF wf ord]
  have "set (filter (\<lambda>x. x \<in> set seen) ord) = set seen"
    using s seen(2) trancl_mem [OF wf] by auto
  moreover have "deps_first (deps_at nodes) (filter (\<lambda>x. x \<in> set seen) ord)"
  proof (rule deps_first_filter)
    fix x d assume "x \<in> set seen" "d \<in> set (deps_at nodes x)"
    then show "d \<in> set seen"
      using seen(2) trancl_mem [OF wf, of x i]
      by (auto simp: dep_rel_def intro: trancl_into_trancl2)
  qed (use s in simp)
  ultimately show ?thesis
    using s by (simp add: ancestors_def n seen ord)
qed

section \<open>Chains\<close>

lemma step_id_inject [simp]: "step_id i = step_id j \<longleftrightarrow> i = j"
  by (simp add: step_id_def)

lemma step_id_image [simp]: "step_id x \<in> step_id ` S \<longleftrightarrow> x \<in> S"
  by auto

lemma node_ids_as_graph: "node_ids (as_graph steps) = map step_id [Suc 0..<Suc (length steps)]"
  by (rule nth_equalityI) (auto simp: node_ids_def as_graph_def chain_node_def simp del: upt_Suc)

lemma distinct_step_ids: "distinct (map step_id xs) = distinct xs"
  by (simp add: distinct_map inj_on_def)

lemma distinct_as_graph: "distinct (node_ids (as_graph steps))"
  by (simp only: node_ids_as_graph distinct_step_ids distinct_upt)

lemma as_graph_mem:
  "1 \<le> i \<Longrightarrow> i \<le> length steps \<Longrightarrow> chain_node i (steps ! (i - 1)) \<in> set (as_graph steps)"
  by (force simp: as_graph_def set_zip simp del: upt_Suc intro: exI [of _ "i - 1"])

lemma deps_at_as_graph:
  assumes "1 \<le> i" "i \<le> length steps"
  shows "deps_at (as_graph steps) (step_id i) = (if i > 1 then [step_id (i - 1)] else [])"
    and "task_of (as_graph steps) (step_id i) = steps ! (i - 1)"
  using deps_at_mem [OF distinct_as_graph as_graph_mem [OF assms]]
    task_of_mem [OF distinct_as_graph as_graph_mem [OF assms]]
  by (simp_all add: chain_node_def)

lemma filter_single: "distinct xs \<Longrightarrow> x \<in> set xs \<Longrightarrow> filter (\<lambda>y. y = x) xs = [x]"
  by (induction xs) (auto simp: filter_empty_conv)

lemma newly_ready_chain:
  assumes "1 \<le> k" "k \<le> length steps"
  shows "newly_ready (deps_at (as_graph steps)) (map step_id [Suc 0..<Suc (length steps)])
      (map step_id [Suc 0..<Suc k]) []
    = (if k < length steps then [step_id (Suc k)] else [])"
proof -
  let ?N = "length steps"
  have "newly_ready (deps_at (as_graph steps)) (map step_id [Suc 0..<Suc ?N]) (map step_id [Suc 0..<Suc k]) []
      = map step_id (filter (\<lambda>i. i = Suc k) [Suc 0..<Suc ?N])"
    unfolding newly_ready_def filter_map comp_def
    by (rule arg_cong [where f = "map step_id"], rule filter_cong)
      (use assms in \<open>auto simp: deps_at_as_graph simp del: upt_Suc\<close>)
  also have "\<dots> = (if k < ?N then [step_id (Suc k)] else [])"
    by (auto simp: filter_single filter_empty_conv simp del: upt_Suc)
  finally show ?thesis .
qed

lemma topo_loop_chain:
  assumes "1 \<le> k" "k \<le> length steps"
  shows "topo_loop (deps_at (as_graph steps)) (map step_id [Suc 0..<Suc (length steps)])
      [step_id k] (map step_id [Suc 0..<k]) = map step_id [Suc 0..<Suc (length steps)]"
  using assms(2,1)
proof (induction rule: inc_induct)
  case base
  have "map step_id [Suc 0..<length steps] @ [step_id (length steps)] = map step_id [Suc 0..<Suc (length steps)]"
    using base by simp
  with base show ?case
    by (simp add: newly_ready_chain del: upt_Suc)
next
  case (step k)
  then have "map step_id [Suc 0..<k] @ [step_id k] = map step_id [Suc 0..<Suc k]" by simp
  with step show ?case
    by (simp add: newly_ready_chain del: upt_Suc)
qed

lemma topo_order_chain: "topo_order (as_graph steps) = Inr (map step_id [Suc 0..<Suc (length steps)])"
proof (cases "steps = []")
  case True
  then show ?thesis by (simp add: topo_order_def node_ids_as_graph)
next
  case False
  let ?ids = "map step_id [Suc 0..<Suc (length steps)]"
  have "filter (\<lambda>nid. indegree_of (as_graph steps) nid = 0) ?ids
      = map step_id (filter (\<lambda>i. i = 1) [Suc 0..<Suc (length steps)])"
    unfolding filter_map comp_def
    by (rule arg_cong [where f = "map step_id"], rule filter_cong)
      (auto simp: indegree_zero_iff node_ids_as_graph deps_at_as_graph simp del: upt_Suc)
  also have "\<dots> = [step_id 1]"
    using False by (auto simp: filter_single Suc_le_eq simp del: upt_Suc)
  finally show ?thesis
    using topo_loop_chain [of 1 steps] False
    by (simp add: topo_order_def node_ids_as_graph Let_def Suc_le_eq del: upt_Suc)
qed

text \<open>A flat plan lifted to a graph with \<open>as_graph\<close> linearizes to exactly the flat plan's own
  steps, in order, so the legacy master loop sees the same work list through either path.\<close>

theorem chain_lift_preserves_steps:
  "as_steps (GraphPlan (as_graph steps)) = as_steps (ChainPlan steps)"
proof -
  have "map (task_of (as_graph steps)) (map step_id [Suc 0..<Suc (length steps)]) = steps"
    by (rule nth_equalityI) (auto simp: deps_at_as_graph simp del: upt_Suc)
  then show ?thesis
    by (simp add: as_steps_def graph_as_steps_def topo_order_chain del: upt_Suc)
qed

section \<open>Validation\<close>

definition clean_node :: "plan_node \<Rightarrow> bool" where
  "clean_node n = (pn_id n \<noteq> [] \<and> py_strip (pn_id n) = pn_id n \<and> py_strip (pn_task n) \<noteq> [] \<and>
     list_all (\<lambda>d. d \<noteq> [] \<and> py_strip d = d \<and> d \<noteq> pn_id n) (pn_deps n))"

definition clean_plan :: "plan_node list \<Rightarrow> bool" where
  "clean_plan nodes \<longleftrightarrow> nodes \<noteq> [] \<and> list_all clean_node nodes \<and> wf_plan nodes \<and>
     (\<exists>ord. topo_order nodes = Inr ord)"

lemma parse_deps_sound:
  "parse_deps nid ds = Inr deps \<Longrightarrow> list_all (\<lambda>d. d \<noteq> [] \<and> py_strip d = d \<and> d \<noteq> nid) deps"
  by (induction ds arbitrary: deps)
    (auto simp: ebind_iffs str_nonblank_Some split: if_splits option.splits)

lemma parse_node_sound:
  "parse_node idx seen item = Inr n \<Longrightarrow> clean_node n \<and> pn_id n \<notin> set seen"
  by (auto simp: parse_node_def clean_node_def Let_def ebind_iffs str_nonblank_Some
      split: if_splits option.splits dest!: parse_deps_sound)

lemma parse_nodes_sound:
  "parse_nodes idx seen items = Inr nodes \<Longrightarrow>
   list_all clean_node nodes \<and> distinct (node_ids nodes) \<and>
   set (node_ids nodes) \<inter> set seen = {} \<and> length nodes = length items"
proof (induction idx seen items arbitrary: nodes rule: parse_nodes.induct)
  case (2 idx seen item items)
  then obtain n rest where n: "parse_node idx seen item = Inr n" "nodes = n # rest"
      "parse_nodes (Suc idx) (seen @ [pn_id n]) items = Inr rest"
    by (auto simp: ebind_iffs)
  from "2.IH" [OF n(3)] parse_node_sound [OF n(1)] n(2) show ?case
    by (auto simp: node_ids_def)
qed (simp add: node_ids_def)

lemma find_dangling_None_iff:
  "find_dangling nodes = None \<longleftrightarrow>
     (\<forall>n \<in> set nodes. set (pn_deps n) \<subseteq> set (node_ids nodes))"
  by (auto simp: find_dangling_def find_None_iff)

lemma wf_plan_iff:
  "wf_plan nodes \<longleftrightarrow> distinct (node_ids nodes) \<and> find_dangling nodes = None"
proof (cases "distinct (node_ids nodes)")
  case True
  have "(\<forall>i \<in> set (node_ids nodes). set (deps_at nodes i) \<subseteq> set (node_ids nodes)) \<longleftrightarrow>
      (\<forall>n \<in> set nodes. set (pn_deps n) \<subseteq> set (node_ids nodes))"
    using deps_at_mem [OF True] by (auto simp: node_ids_def)
  with True show ?thesis
    by (auto simp: wf_plan_def find_dangling_None_iff list_all_iff subset_iff)
qed (simp add: wf_plan_def)

lemma validate_graph_sound: "validate_graph raw = Inr nodes \<Longrightarrow> clean_plan nodes"
  by (auto simp: validate_graph_def clean_plan_def wf_plan_iff ebind_iffs
      split: if_splits option.splits dest!: parse_nodes_sound)

lemma parse_deps_json:
  "list_all (\<lambda>d. d \<noteq> [] \<and> py_strip d = d \<and> d \<noteq> nid) ds \<Longrightarrow> parse_deps nid (map PStr ds) = Inr ds"
  by (induction ds) (auto simp: str_nonblank_def)

lemma parse_node_json:
  "clean_node n \<Longrightarrow> pn_id n \<notin> set seen \<Longrightarrow> parse_node idx seen (node_to_json n) = Inr n"
  by (cases n) (auto simp: parse_node_def node_to_json_def clean_node_def Let_def parse_deps_json
      str_nonblank_def split: option.splits)

lemma parse_nodes_json:
  "list_all clean_node nodes \<Longrightarrow> distinct (node_ids nodes) \<Longrightarrow>
   set (node_ids nodes) \<inter> set seen = {} \<Longrightarrow>
   parse_nodes idx seen (map node_to_json nodes) = Inr nodes"
proof (induction nodes arbitrary: idx seen)
  case (Cons n nodes)
  then have "parse_node idx seen (node_to_json n) = Inr n"
    by (auto simp: node_ids_def intro!: parse_node_json)
  with Cons show ?case by (auto simp: node_ids_def)
qed simp

lemma validate_graph_json:
  "clean_plan nodes \<Longrightarrow> validate_graph (PList (map node_to_json nodes)) = Inr nodes"
  by (auto simp: validate_graph_def clean_plan_def wf_plan_iff parse_nodes_json)

section \<open>The properties of the plan model\<close>

text \<open>The diamond \<open>a -> {b, c} -> d\<close>, listed out of order, as the running example.\<close>

definition diamond :: "plan_node list" where
  "diamond =
    [\<lparr>pn_id = ''d'', pn_task = ''join'', pn_deps = [''b'', ''c''], pn_group = None\<rparr>,
     \<lparr>pn_id = ''a'', pn_task = ''root'', pn_deps = [], pn_group = None\<rparr>,
     \<lparr>pn_id = ''b'', pn_task = ''left'', pn_deps = [''a''], pn_group = Some ''g''\<rparr>,
     \<lparr>pn_id = ''c'', pn_task = ''right'', pn_deps = [''a''], pn_group = None\<rparr>]"

lemma diamond_wf: "wf_plan diamond"
  by code_simp

lemma diamond_order: "topo_order diamond = Inr [''a'', ''b'', ''c'', ''d'']"
  by code_simp

lemma diamond_layers: "topological_layers diamond = Inr [[''a''], [''b'', ''c''], [''d'']]"
  by code_simp

lemma diamond_acyclic: "acyclic (dep_rel diamond)"
  using kahn.sorter_succeeds_iff [OF diamond_wf] diamond_order by auto

text \<open>C13: On a well-formed plan (distinct ids, every dependency declared) the order that \<open>topo_order\<close>
  returns lists every node exactly once, and every transitive dependency of a node strictly before
  it.\<close>

theorem topo_order_linearizes:
  assumes "wf_plan nodes" and "topo_order nodes = Inr ord"
  shows "distinct ord \<and> set ord = set (node_ids nodes) \<and> length ord = length nodes \<and>
    (\<forall>a b. (a, b) \<in> (dep_rel nodes)\<^sup>+ \<longrightarrow> pos ord a < pos ord b)"
  using kahn.sorter_permutes [OF assms] kahn.dep_precedes [OF assms] by blast

theorem topo_order_linearizes_witness:
  "distinct [''a'', ''b'', ''c'', ''d''] \<and>
   pos [''a'', ''b'', ''c'', ''d''] ''a'' < pos [''a'', ''b'', ''c'', ''d''] ''d''"
proof -
  have "(''a'', ''b'') \<in> dep_rel diamond" "(''b'', ''d'') \<in> dep_rel diamond"
    by (simp_all add: dep_rel_def) code_simp+
  then have "(''a'', ''d'') \<in> (dep_rel diamond)\<^sup>+" by (meson r_into_trancl trancl_trans)
  then show ?thesis using topo_order_linearizes [OF diamond_wf diamond_order] by blast
qed

text \<open>The sort fails exactly on the cyclic plans: on a well-formed plan it returns an order if and
  only if the dependency relation has no cycle, and otherwise it raises the cycle error.\<close>

theorem topo_order_iff_acyclic:
  assumes "wf_plan nodes"
  shows "((\<exists>ord. topo_order nodes = Inr ord) \<longleftrightarrow> acyclic (dep_rel nodes)) \<and>
    (\<not> acyclic (dep_rel nodes) \<longrightarrow> (\<exists>ids. topo_order nodes = Inl (PlanCycle ids)))"
proof -
  note iff = kahn.sorter_succeeds_iff [OF assms]
  moreover have "(\<exists>ord. topo_order nodes = Inr ord) \<or> (\<exists>ids. topo_order nodes = Inl (PlanCycle ids))"
    by (simp add: topo_order_def Let_def)
  ultimately show ?thesis by blast
qed

theorem topo_order_iff_acyclic_witness:
  "acyclic (dep_rel diamond) \<and> (\<exists>ord. topo_order diamond = Inr ord)"
  using topo_order_iff_acyclic [OF diamond_wf] diamond_order by blast

text \<open>The layers are exact levels. They partition the nodes, none is empty, each keeps the input
  order, every dependency of a node lies in an earlier layer, and a node past the first layer has a
  dependency in the layer just before it, so no node could run earlier. They exist exactly when the
  sort succeeds.\<close>

theorem layers_are_levels:
  assumes "wf_plan nodes"
  shows "((\<exists>ls. topological_layers nodes = Inr ls) \<longleftrightarrow> (\<exists>ord. topo_order nodes = Inr ord)) \<and>
    (\<forall>ls. topological_layers nodes = Inr ls \<longrightarrow>
      distinct (concat ls) \<and> set (concat ls) = set (node_ids nodes) \<and>
      (\<forall>l \<in> set ls. l \<noteq> [] \<and> subseq l (node_ids nodes)) \<and> layered (deps_at nodes) ls)"
proof (intro conjI allI impI)
  have "(\<exists>ls. topological_layers nodes = Inr ls) = (\<exists>ord. flat_layers nodes = Inr ord)"
    by (auto simp: flat_layers_def ebind_iffs)
  then show "(\<exists>ls. topological_layers nodes = Inr ls) \<longleftrightarrow> (\<exists>ord. topo_order nodes = Inr ord)"
    using flat.sorter_succeeds_iff [OF assms] kahn.sorter_succeeds_iff [OF assms] by simp
next
  fix ls
  assume ls: "topological_layers nodes = Inr ls"
  then have "flat_layers nodes = Inr (concat ls)" by (simp add: flat_layers_def)
  note s = flat.sorter_sound [OF assms this] and inv = layers_inv [OF assms ls]
  show "distinct (concat ls)" "set (concat ls) = set (node_ids nodes)" using s by auto
  show "\<forall>l \<in> set ls. l \<noteq> [] \<and> subseq l (node_ids nodes)" "layered (deps_at nodes) ls"
    using inv by (auto simp: layer_inv_def simp del: set_concat)
qed

theorem layers_are_levels_witness: "layered (deps_at diamond) [[''a''], [''b'', ''c''], [''d'']]"
  using layers_are_levels [OF diamond_wf] diamond_layers by blast

text \<open>\<open>ancestors\<close> returns exactly the transitive dependencies of the queried node, each once and
  in dependency order, on every well-formed acyclic plan; it never raises there.\<close>

theorem ancestors_are_closure:
  assumes "wf_plan nodes" "acyclic (dep_rel nodes)" "i \<in> set (node_ids nodes)"
  shows "\<exists>xs. ancestors nodes i = Inr xs \<and> set xs = {a. (a, i) \<in> (dep_rel nodes)\<^sup>+} \<and>
    distinct xs \<and> deps_first (deps_at nodes) xs"
  by (rule ancestors_closure [OF assms])

theorem ancestors_are_closure_witness:
  "{a. (a, ''d'') \<in> (dep_rel diamond)\<^sup>+} = {''a'', ''b'', ''c''}"
proof -
  have "''d'' \<in> set (node_ids diamond)" by code_simp
  moreover have "ancestors diamond ''d'' = Inr [''a'', ''b'', ''c'']" by code_simp
  ultimately show ?thesis
    using ancestors_are_closure [OF diamond_wf diamond_acyclic, of "''d''"] by auto
qed

text \<open>C14: The loader accepts precisely the clean plans (non-empty, distinct stripped ids, non-blank
  tasks, declared dependencies, no self-dependency, no cycle), and serializing an accepted plan and
  loading it again gives the same plan.\<close>

theorem validate_graph_exact:
  "((\<exists>raw. validate_graph raw = Inr nodes) \<longleftrightarrow>
      nodes \<noteq> [] \<and> list_all clean_node nodes \<and> wf_plan nodes \<and> acyclic (dep_rel nodes)) \<and>
   (\<forall>raw. validate_graph raw = Inr nodes \<longrightarrow>
      validate_graph (dget (as_dict (plan_to_json (GraphPlan nodes))) ''nodes'') = Inr nodes)"
proof -
  have "clean_plan nodes \<longleftrightarrow>
      nodes \<noteq> [] \<and> list_all clean_node nodes \<and> wf_plan nodes \<and> acyclic (dep_rel nodes)"
    using kahn.sorter_succeeds_iff by (auto simp: clean_plan_def)
  moreover have "(\<exists>raw. validate_graph raw = Inr nodes) \<longleftrightarrow> clean_plan nodes"
    using validate_graph_sound validate_graph_json by metis
  moreover have "validate_graph raw = Inr nodes \<Longrightarrow>
      validate_graph (dget (as_dict (plan_to_json (GraphPlan nodes))) ''nodes'') = Inr nodes" for raw
    using validate_graph_sound validate_graph_json by (simp add: plan_to_json_def)
  ultimately show ?thesis by blast
qed

theorem validate_graph_exact_witness:
  "validate_graph (dget (as_dict (plan_to_json (GraphPlan diamond))) ''nodes'') = Inr diamond"
proof -
  have "validate_graph (PList (map node_to_json diamond)) = Inr diamond" by code_simp
  then show ?thesis using validate_graph_exact [of diamond] by blast
qed

end
