(* ===== verification/Failure_Classes.thy ===== *)
theory Failure_Classes
  imports Py_Prelude
begin

text \<open>
  The classifiers of a failed worker's standard error in \<^verbatim>\<open>agy_orchestrator/core/agent.py\<close>: every
  one is a test for marker substrings in the lowercased text.  Their verdicts drive the fallback
  chain (\<^verbatim>\<open>Fallback_Agent\<close>) and the repair loops (\<^verbatim>\<open>Repair_Loops\<close>).
\<close>

section \<open>Markers\<close>

definition usage_markers :: "string list" where
  "usage_markers =
     [''usage limit'', ''rate limit'', ''rate_limit'', ''quota'', ''out of credits'',
      ''insufficient_quota'', ''too many requests'', ''429'', ''plan limit'',
      ''quota exceeded'', ''limit exceeded'', ''usage exceeded'', ''balance'']"

definition context_overflow_markers :: "string list" where
  "context_overflow_markers =
     [''context_length_exceeded'', ''exceeds the context window'', ''context window'',
      ''remote compaction failed'', ''compact_remote'', ''maximum context length'']"

definition model_unavailable_markers :: "string list" where
  "model_unavailable_markers =
     [''is not supported when using'', ''model is not supported'', ''model not supported'',
      ''does not have access'', ''model_not_found'', ''unsupported_model'',
      ''does not exist or you do not have access'', ''invalid_request_error'']"

definition transport_markers :: "string list" where
  "transport_markers =
     [''connection reset'', ''econnreset'', ''websocket'', ''stream error'',
      ''temporarily unavailable'', ''503'', ''502'']"

definition transport_noise_markers :: "string list" where
  "transport_noise_markers =
     transport_markers @ [''network'', ''timeout'', ''reset'', ''retry'', ''retrying'']"

definition infra_markers :: "string list" where
  "infra_markers =
     [''command not found'', ''no module named'', ''no space left'',
      ''permission denied'', ''importerror while loading conftest'']"

definition wedged_session_markers :: "string list" where
  "wedged_session_markers = [''stdin is closed for this session'', ''rerun exec_command with tty=true'']"

section \<open>Classifiers\<close>

definition is_context_overflow :: "string \<Rightarrow> bool" where
  "is_context_overflow stderr = any_in context_overflow_markers (py_lower stderr)"

definition is_usage_wall :: "string \<Rightarrow> bool" where
  "is_usage_wall stderr =
     (let s = py_lower stderr
      in if is_context_overflow s then False else any_in usage_markers s)"

definition is_model_unavailable :: "string \<Rightarrow> bool" where
  "is_model_unavailable stderr =
     (let s = py_lower stderr
      in if is_usage_wall s \<or> is_context_overflow s then False
         else any_in model_unavailable_markers s)"

definition is_transport_error :: "string \<Rightarrow> bool" where
  "is_transport_error stderr =
     (let s = py_lower stderr
      in if is_usage_wall s \<or> is_context_overflow s then False
         else any_in transport_markers s)"

definition is_transport_noise_line :: "string \<Rightarrow> bool" where
  "is_transport_noise_line line = any_in transport_noise_markers (py_lower line)"

definition looks_like_infra :: "string \<Rightarrow> bool" where
  "looks_like_infra stderr_tail = any_in infra_markers (py_lower stderr_tail)"

definition is_wedged_session :: "string \<Rightarrow> bool" where
  "is_wedged_session stderr = any_in wedged_session_markers (py_lower stderr)"

lemma any_in_append: "any_in (ms @ ns) s \<longleftrightarrow> any_in ms s \<or> any_in ns s"
  by (simp add: any_in_def)

lemma any_in_mono: "any_in ms s \<Longrightarrow> any_in ms (s @ t) \<and> any_in ms (t @ s)"
  unfolding any_in_def list_ex_iff by (meson sublist_appendI sublist_append_leftI sublist_append_rightI sublist_order.order_trans)

lemmas classifier_defs = is_context_overflow_def is_usage_wall_def is_model_unavailable_def
  is_transport_error_def is_transport_noise_line_def looks_like_infra_def is_wedged_session_def

lemma classifiers_disjoint:
  "is_transport_error s \<Longrightarrow> \<not> is_usage_wall s \<and> \<not> is_context_overflow s"
  by (auto simp: classifier_defs Let_def split: if_splits)

text \<open>The quota, overflow and transport verdicts exclude each other, as do the quota, overflow and
  model-access verdicts; every transport error is transport noise to the stall watchdog; and no
  verdict depends on the letter case of the text.\<close>

theorem classifiers_exclusive:
  "\<not> (is_usage_wall s \<and> is_context_overflow s) \<and>
   \<not> (is_transport_error s \<and> (is_usage_wall s \<or> is_context_overflow s)) \<and>
   \<not> (is_model_unavailable s \<and> (is_usage_wall s \<or> is_context_overflow s)) \<and>
   (is_transport_error s \<longrightarrow> is_transport_noise_line s) \<and>
   (\<forall>t. py_lower t = py_lower s \<longrightarrow>
      is_usage_wall t = is_usage_wall s \<and> is_context_overflow t = is_context_overflow s \<and>
      is_transport_error t = is_transport_error s \<and> is_model_unavailable t = is_model_unavailable s \<and>
      is_wedged_session t = is_wedged_session s \<and> looks_like_infra t = looks_like_infra s)"
  by (simp add: classifier_defs Let_def transport_noise_markers_def any_in_append)

theorem classifiers_exclusive_witness:
  "is_transport_error ''ECONNRESET'' \<and> is_transport_noise_line ''ECONNRESET''"
proof -
  have "is_transport_error ''ECONNRESET''" by code_simp
  then show ?thesis
    by (intro conjI classifiers_exclusive [THEN conjunct2, THEN conjunct2, THEN conjunct2, THEN conjunct1, THEN mp])
qed

text \<open>Output that only grows never loses a wedge or overflow verdict, and a chunk that carries an
  overflow marker turns a quota verdict off: an overflow is never reported as an outage.\<close>

theorem verdicts_persist:
  "(is_wedged_session s \<longrightarrow> is_wedged_session (s @ t)) \<and>
   (is_context_overflow s \<longrightarrow> is_context_overflow (s @ t)) \<and>
   (looks_like_infra s \<longrightarrow> looks_like_infra (s @ t)) \<and>
   (is_usage_wall s \<longrightarrow> is_usage_wall (s @ t) = (\<not> is_context_overflow (s @ t)))"
  by (auto simp: classifier_defs Let_def py_lower_append any_in_mono)

theorem verdicts_persist_witness:
  "is_wedged_session (''stdin is closed for this session'' @ '' (retry)'')"
proof -
  have "is_wedged_session ''stdin is closed for this session''" by code_simp
  then show ?thesis by (rule verdicts_persist [THEN conjunct1, THEN mp])
qed

end
