(* ===== verification/Fallback_Agent.thy ===== *)
theory Fallback_Agent
  imports Failure_Classes "HOL-Library.AList"
begin

text \<open>
  \<^verbatim>\<open>agy_orchestrator/core/agents/fallback_agent.py\<close>: the agent that tries a chain of providers.
  A provider is its class name.  Everything outside the class is in \<open>fb_env\<close>: the clock (its
  k-th reading), the three environment settings, and what building and running the n-th sub-agent
  with the given arguments does.  The loop of \<open>run_async\<close> is a partial function over an explicit
  state that carries the two process-wide caches; the trace records emitted events, sleeps and runs.
\<close>

type_synonym provider = string

section \<open>Data\<close>

text \<open>What \<open>float(resets_at)\<close> makes of the reset time a sub-agent reports.\<close>

datatype epoch = NotNumeric | NotFinite | Finite rat

datatype fb_outcome =
    Build_error string
  | Run_error string string epoch
  | Produced string "string option"

datatype fb_event =
    Emitted pydict
  | Slept rat
  | Ran provider "string option"

record fb_class =
  fc_chain :: "provider list"
  fc_cycles :: int
  fc_configs :: "(provider \<times> pydict) list"
  fc_rules :: "(string \<times> provider list) list"
  fc_fallbacks :: "(provider \<times> string list) list"

record fb_self =
  fa_prompt :: string
  fa_model :: "string option"
  fa_effort :: "string option"
  fa_rotate :: int
  fa_session :: "string option"
  fa_owner :: "provider option"
  fa_fork :: bool
  fa_last :: "provider option"

record fb_env =
  fe_now :: "nat \<Rightarrow> rat"
  fe_run :: "nat \<Rightarrow> provider \<Rightarrow> pydict \<Rightarrow> fb_outcome"
  fe_retries :: "string option"
  fe_backoff :: "string option"
  fe_usage_backoff :: "string option"

record fb_state =
  fs_self :: fb_self
  fs_pending :: "(provider \<times> string option) list"
  fs_tried :: "provider \<Rightarrow> string set"
  fs_used :: "provider \<Rightarrow> nat"
  fs_attempts :: nat
  fs_ran :: bool
  fs_base :: nat
  fs_respliced :: nat
  fs_budget :: int
  fs_limited :: "provider \<times> string \<Rightarrow> rat option"
  fs_barred :: "(provider \<times> string) set"
  fs_reads :: nat
  fs_error :: "string option"
  fs_trace :: "fb_event list"

section \<open>The process-wide caches\<close>

definition record_inaccessible_model :: "provider \<Rightarrow> string option \<Rightarrow> fb_state \<Rightarrow> fb_state" where
  "record_inaccessible_model p m s =
     (case truthy_str m of None \<Rightarrow> s | Some k \<Rightarrow> s\<lparr>fs_barred := insert (p, k) (fs_barred s)\<rparr>)"

definition is_model_known_inaccessible :: "fb_state \<Rightarrow> provider \<Rightarrow> string option \<Rightarrow> bool" where
  "is_model_known_inaccessible s p m =
     (case truthy_str m of None \<Rightarrow> False | Some k \<Rightarrow> (p, k) \<in> fs_barred s)"

definition record_rate_limited :: "provider \<Rightarrow> string option \<Rightarrow> epoch \<Rightarrow> fb_state \<Rightarrow> fb_state" where
  "record_rate_limited p m resets_at s =
     (case truthy_str m of None \<Rightarrow> s
      | Some k \<Rightarrow> (case resets_at of
            Finite ra \<Rightarrow> if ra \<le> 0 then s else s\<lparr>fs_limited := (fs_limited s)((p, k) := Some ra)\<rparr>
          | _ \<Rightarrow> s))"

text \<open>\<open>is_rate_limited\<close> reads the clock only when an entry exists and pops an entry that ran out.\<close>

definition is_rate_limited :: "fb_env \<Rightarrow> provider \<Rightarrow> string option \<Rightarrow> fb_state \<Rightarrow> bool \<times> fb_state" where
  "is_rate_limited env p m s =
     (case truthy_str m of None \<Rightarrow> (False, s)
      | Some k \<Rightarrow> (case fs_limited s (p, k) of
            None \<Rightarrow> (False, s)
          | Some resets_at \<Rightarrow>
              (let now = fe_now env (fs_reads s); s' = s\<lparr>fs_reads := Suc (fs_reads s)\<rparr>
               in if now < resets_at then (True, s')
                  else (False, s'\<lparr>fs_limited := (fs_limited s')((p, k) := None)\<rparr>))))"

section \<open>Watchdog reasons and settings\<close>

definition watchdog_marker :: string where
  "watchdog_marker = ''[watchdog:''"

definition watchdog_reason_in :: "string \<Rightarrow> string option" where
  "watchdog_reason_in stderr =
     (case after_marker watchdog_marker stderr of None \<Rightarrow> None
      | Some rest \<Rightarrow> truthy_str (Some (py_strip (takeWhile (\<lambda>c. c \<noteq> CHR '']'') rest))))"

definition reason_category ::
  "bool \<Rightarrow> string option \<Rightarrow> bool \<Rightarrow> bool \<Rightarrow> bool \<Rightarrow> string" where
  "reason_category usage reason overflow transport wedged =
     (if overflow then ''context_overflow''
      else if wedged then ''wedged''
      else if usage then ''usage''
      else if transport \<or> reason = Some ''transport_stall'' then ''transport''
      else if reason = Some ''verbose'' then ''verbose''
      else if reason = Some ''stalled'' then ''stalled''
      else ''error'')"

definition transport_retries :: "fb_env \<Rightarrow> nat" where
  "transport_retries env =
     (let n = (case py_int (env_or (fe_retries env) ''2'') of None \<Rightarrow> 2 | Some n \<Rightarrow> n)
      in nat (max 0 (min n 2)))"

definition transport_backoff_seconds :: "fb_env \<Rightarrow> nat \<Rightarrow> rat" where
  "transport_backoff_seconds env attempt =
     (case py_float (env_or (fe_backoff env) ''0.5'') of None \<Rightarrow> 1 / 2 | Some b \<Rightarrow> b) * of_nat attempt"

definition usage_wall_backoff_seconds :: "fb_env \<Rightarrow> rat" where
  "usage_wall_backoff_seconds env =
     (case py_float (env_or (fe_usage_backoff env) ''5'') of None \<Rightarrow> 5 | Some b \<Rightarrow> max 0 b)"

section \<open>Building a sub-agent\<close>

definition cfg_of :: "fb_class \<Rightarrow> provider \<Rightarrow> pydict" where
  "cfg_of fc p = (case map_of (fc_configs fc) p of None \<Rightarrow> [] | Some d \<Rightarrow> d)"

definition opt_val :: "string option \<Rightarrow> pyval" where
  "opt_val v = (case v of None \<Rightarrow> PNone | Some s \<Rightarrow> PStr s)"

text \<open>\<open>model_override or cfg.get("model", self.model)\<close>.\<close>

definition effective_model :: "fb_class \<Rightarrow> fb_self \<Rightarrow> provider \<Rightarrow> string option \<Rightarrow> string option" where
  "effective_model fc self p override =
     (case truthy_str override of Some m \<Rightarrow> Some m
      | None \<Rightarrow> str_opt (dget_or (cfg_of fc p) ''model'' (opt_val (fa_model self))))"

definition session_capable :: "provider list" where
  "session_capable = [''ClaudeAgent'', ''GrokAgent'']"

definition sub_kwargs :: "fb_class \<Rightarrow> fb_self \<Rightarrow> provider \<Rightarrow> string option \<Rightarrow> pydict" where
  "sub_kwargs fc self p override =
     (let cfg = cfg_of fc p;
          effort = dget_or cfg ''effort'' (opt_val (fa_effort self));
          kw0 = [(''prompt'', PStr (fa_prompt self)), (''model'', opt_val (effective_model fc self p override))]
                @ (if truthy effort then [(''effort'', effort)] else []);
          kw1 = fold (\<lambda>(k, v) kw. if k \<in> {''model'', ''effort''} then kw else AList.update k v kw) cfg kw0
      in if p \<in> set session_capable \<and> fa_owner self = Some p
         then let kw2 = (case truthy_str (fa_session self) of None \<Rightarrow> kw1
                         | Some sid \<Rightarrow> AList.update ''session_id'' (PStr sid) kw1)
              in if p = ''ClaudeAgent'' \<and> fa_fork self
                 then AList.update ''fork_session'' (PBool True) kw2 else kw2
         else kw1)"

definition label_of :: "provider \<Rightarrow> string option \<Rightarrow> string" where
  "label_of p override =
     (case truthy_str override of None \<Rightarrow> p | Some m \<Rightarrow> p @ ''('' @ m @ '')'')"

definition make_fallback_agent ::
  "provider list \<Rightarrow> int \<Rightarrow> (provider \<times> pydict) list \<Rightarrow> (string \<times> provider list) list \<Rightarrow>
   (provider \<times> string list) list \<Rightarrow> string + fb_class" where
  "make_fallback_agent chain cycles configs rules fallbacks =
     (if chain = [] then Inl ''fallback chain must be non-empty''
      else if cycles < 1 then Inl ''cycles must be >= 1''
      else Inr \<lparr>fc_chain = chain, fc_cycles = cycles, fc_configs = configs, fc_rules = rules,
                fc_fallbacks = fallbacks\<rparr>)"

definition emit :: "pydict \<Rightarrow> fb_state \<Rightarrow> fb_state" where
  "emit data s =
     s\<lparr>fs_trace := fs_trace s @ [Emitted ((''workflow'', PStr ''master'')
        # filter (\<lambda>(k, v). v \<noteq> PNone) data)]\<rparr>"

definition emit_move ::
  "fb_class \<Rightarrow> string \<Rightarrow> string \<Rightarrow> string option \<Rightarrow> string \<Rightarrow> string \<Rightarrow> fb_state \<Rightarrow> fb_state" where
  "emit_move fc action src dst reason category s =
     emit [(''phase'', PStr ''fallback''), (''action'', PStr action), (''from_worker'', PStr src),
           (''to_worker'', opt_val dst), (''reason'', PStr reason), (''reason_category'', PStr category),
           (''attempt'', PInt (int (fs_attempts s))), (''attempt_total'', PInt (int (length (fc_chain fc))))] s"

section \<open>One iteration of the loop\<close>

text \<open>The pop's accounting: a re-spliced entry does not advance the cycle, and a new cycle clears the
  transport budget.\<close>

definition account_pop :: "nat \<Rightarrow> fb_state \<Rightarrow> fb_state" where
  "account_pop base_len s =
     (if fs_respliced s > 0 then s\<lparr>fs_respliced := fs_respliced s - 1\<rparr>
      else (if fs_base s \<noteq> 0 \<and> fs_base s mod base_len = 0 then s\<lparr>fs_used := (\<lambda>_. 0)\<rparr> else s)
        \<lparr>fs_base := Suc (fs_base s)\<rparr>)"

definition fallbacks_of :: "fb_class \<Rightarrow> provider \<Rightarrow> string list" where
  "fallbacks_of fc p = (case map_of (fc_fallbacks fc) p of None \<Rightarrow> [] | Some ms \<Rightarrow> ms)"

definition add_tried :: "provider \<Rightarrow> string \<Rightarrow> fb_state \<Rightarrow> fb_state" where
  "add_tried p m s = s\<lparr>fs_tried := (fs_tried s)(p := insert m (fs_tried s p))\<rparr>"

definition mark_tried :: "provider \<Rightarrow> string option \<Rightarrow> fb_state \<Rightarrow> fb_state" where
  "mark_tried p m s =
     (case truthy_str m of None \<Rightarrow> s
      | Some k \<Rightarrow> add_tried p k s)"

text \<open>The first alternate model that is untried, not known to be walled and not barred.\<close>

fun next_open_model :: "fb_env \<Rightarrow> provider \<Rightarrow> string list \<Rightarrow> fb_state \<Rightarrow> string option \<times> fb_state" where
  "next_open_model env p [] s = (None, s)"
| "next_open_model env p (m # ms) s =
     (if m \<in> fs_tried s p then next_open_model env p ms s
      else case is_rate_limited env p (Some m) s of
          (True, s') \<Rightarrow> next_open_model env p ms s'
        | (False, s') \<Rightarrow>
            if is_model_known_inaccessible s' p (Some m) then next_open_model env p ms s'
            else (Some m, s'))"

fun any_viable ::
  "fb_class \<Rightarrow> fb_env \<Rightarrow> (provider \<times> string option) list \<Rightarrow> fb_state \<Rightarrow> bool \<times> fb_state" where
  "any_viable fc env [] s = (False, s)"
| "any_viable fc env ((c, m) # rest) s =
     (case is_rate_limited env c (effective_model fc (fs_self s) c m) s of
        (False, s') \<Rightarrow> (True, s')
      | (True, s') \<Rightarrow> any_viable fc env rest s')"

definition splice_front :: "provider \<times> string option \<Rightarrow> fb_state \<Rightarrow> fb_state" where
  "splice_front e s =
     s\<lparr>fs_pending := e # fs_pending s, fs_respliced := Suc (fs_respliced s)\<rparr>"

text \<open>The cached rate limit: \<open>(True, s)\<close> continues with the next entry, \<open>(False, s)\<close> attempts this one.\<close>

definition skip_walled ::
  "fb_class \<Rightarrow> fb_env \<Rightarrow> provider \<Rightarrow> string option \<Rightarrow> fb_state \<Rightarrow> bool \<times> fb_state" where
  "skip_walled fc env p override s =
     (let model = effective_model fc (fs_self s) p override in
      case is_rate_limited env p model s of
        (False, s1) \<Rightarrow> (False, s1)
      | (True, s1) \<Rightarrow>
          (case next_open_model env p (fallbacks_of fc p) (mark_tried p model s1) of
             (Some m, s2) \<Rightarrow>
               (True, splice_front (p, Some m)
                  (emit_move fc ''model_fallback'' p (Some (p @ ''('' @ m @ '')'')) ''usage'' ''usage''
                    (add_tried p m s2)))
           | (None, s2) \<Rightarrow>
               (case any_viable fc env (fs_pending s2) s2 of
                  (viable, s3) \<Rightarrow>
                    if viable \<or> fs_ran s3
                    then (True, emit_move fc ''rate_limit_skip'' (label_of p override) None
                                  ''usage'' ''usage'' s3)
                    else (False, s3))))"

text \<open>A failed run.  First the bounded retry on the same provider.\<close>

definition transport_failure :: "string \<Rightarrow> bool" where
  "transport_failure stderr =
     (watchdog_reason_in stderr = Some ''transport_stall'' \<or> is_transport_error stderr)"

definition may_retry :: "fb_env \<Rightarrow> provider \<Rightarrow> string \<Rightarrow> fb_state \<Rightarrow> bool" where
  "may_retry env p stderr s =
     (transport_failure stderr \<and> \<not> is_wedged_session stderr
      \<and> watchdog_reason_in stderr \<noteq> Some ''transport_stall''
      \<and> fs_used s p < transport_retries env)"

definition sleep_if :: "bool \<Rightarrow> rat \<Rightarrow> fb_state \<Rightarrow> fb_state" where
  "sleep_if c d s = (if c then s\<lparr>fs_trace := fs_trace s @ [Slept d]\<rparr> else s)"

definition str_or :: "string option \<Rightarrow> string \<Rightarrow> string" where
  "str_or v d = (case v of None \<Rightarrow> d | Some s \<Rightarrow> s)"

definition retry_same ::
  "fb_class \<Rightarrow> fb_env \<Rightarrow> provider \<Rightarrow> string option \<Rightarrow> string \<Rightarrow> fb_state \<Rightarrow> fb_state" where
  "retry_same fc env p override stderr s =
     (let n = fs_used s p + 1;
          backoff = transport_backoff_seconds env n;
          s1 = s\<lparr>fs_used := (fs_used s)(p := n)\<rparr>;
          s2 = emit_move fc ''transport_retry'' (label_of p override) (Some (label_of p override))
                 (str_or (watchdog_reason_in stderr) ''transport'') ''transport'' s1
      in sleep_if (backoff > 0) backoff (splice_front (p, override) s2))"

text \<open>Then the caches are told what the failure shows about the model.\<close>

definition record_walls ::
  "provider \<Rightarrow> string option \<Rightarrow> string \<Rightarrow> epoch \<Rightarrow> fb_state \<Rightarrow> fb_state" where
  "record_walls p model stderr resets_at s =
     (let s1 = (if is_usage_wall stderr then record_rate_limited p model resets_at s else s)
      in if is_model_unavailable stderr then record_inaccessible_model p model s1 else s1)"

definition next_sibling :: "fb_class \<Rightarrow> provider \<Rightarrow> fb_state \<Rightarrow> string option" where
  "next_sibling fc p s =
     find (\<lambda>m. m \<notin> fs_tried s p \<and> \<not> is_model_known_inaccessible s p (Some m)) (fallbacks_of fc p)"

definition try_sibling ::
  "fb_class \<Rightarrow> provider \<Rightarrow> string option \<Rightarrow> string \<Rightarrow> fb_state \<Rightarrow> fb_state + fb_state" where
  "try_sibling fc p override stderr s =
     (if (is_usage_wall stderr \<or> is_model_unavailable stderr) \<and> fallbacks_of fc p \<noteq> [] then
        let s1 = mark_tried p (effective_model fc (fs_self s) p override) s in
        case next_sibling fc p s1 of
          None \<Rightarrow> Inr s1
        | Some m \<Rightarrow>
            (let why = (if is_usage_wall stderr then ''usage'' else ''model_unavailable'')
             in Inl (splice_front (p, Some m)
                  (emit_move fc ''model_fallback'' (label_of p override) (Some (p @ ''('' @ m @ '')'')) why
                    (if is_usage_wall stderr then ''usage'' else ''error'') (add_tried p m s1))))
      else Inr s)"

text \<open>Last the watchdog rules, or the plain advance.\<close>

definition category_of :: "string \<Rightarrow> string" where
  "category_of stderr =
     reason_category (is_usage_wall stderr) (watchdog_reason_in stderr) (is_context_overflow stderr)
       (transport_failure stderr) (is_wedged_session stderr)"

definition next_worker :: "fb_state \<Rightarrow> provider option" where
  "next_worker s = (case fs_pending s of [] \<Rightarrow> None | (p, m) # _ \<Rightarrow> Some p)"

definition advance ::
  "fb_class \<Rightarrow> provider \<Rightarrow> string option \<Rightarrow> string \<Rightarrow> fb_state \<Rightarrow> fb_state" where
  "advance fc p override stderr s =
     (let reason = watchdog_reason_in stderr;
          rule = Option.bind reason (map_of (fc_rules fc))
      in case (reason, rule) of
           (Some r, Some targets) \<Rightarrow>
             if fs_budget s > 0 then
               emit_move fc ''reroute'' (label_of p override)
                 (if targets = [] then None else Some (hd targets)) r (category_of stderr)
                 (s\<lparr>fs_budget := fs_budget s - int (length targets),
                    fs_pending := map (\<lambda>t. (t, None)) targets @ fs_pending s\<rparr>)
             else emit_move fc ''reroute'' (label_of p override) (next_worker s)
                 r (category_of stderr) s
         | _ \<Rightarrow> emit_move fc ''reroute'' (label_of p override) (next_worker s)
                 (str_or reason (if transport_failure stderr then ''transport'' else ''error''))
                 (category_of stderr) s)"

definition on_failure ::
  "fb_class \<Rightarrow> fb_env \<Rightarrow> provider \<Rightarrow> string option \<Rightarrow> string \<Rightarrow> epoch \<Rightarrow> fb_state \<Rightarrow> fb_state" where
  "on_failure fc env p override stderr resets_at s =
     (if may_retry env p stderr s then retry_same fc env p override stderr s
      else
        let s1 = record_walls p (effective_model fc (fs_self s) p override) stderr resets_at s in
        case try_sibling fc p override stderr s1 of
          Inl s2 \<Rightarrow> s2
        | Inr s2 \<Rightarrow>
            (let s3 = advance fc p override stderr s2; d = usage_wall_backoff_seconds env
             in sleep_if (is_usage_wall stderr \<and> d > 0 \<and> fs_pending s3 \<noteq> []) d s3))"

definition on_success :: "provider \<Rightarrow> string option \<Rightarrow> fb_state \<Rightarrow> fb_state" where
  "on_success p sid s =
     (let self = fs_self s;
          self1 = (case truthy_str sid of None \<Rightarrow> self
                   | Some k \<Rightarrow> self\<lparr>fa_session := Some k, fa_owner := Some p\<rparr>)
      in s\<lparr>fs_self := self1\<lparr>fa_last := Some p\<rparr>\<rparr>)"

datatype fb_next = Again fb_state | Returned fb_state string

definition attempt ::
  "fb_class \<Rightarrow> fb_env \<Rightarrow> provider \<Rightarrow> string option \<Rightarrow> fb_state \<Rightarrow> fb_next" where
  "attempt fc env p override s0 =
     (let s = s0\<lparr>fs_attempts := Suc (fs_attempts s0)\<rparr>;
          started = s\<lparr>fs_ran := True, fs_trace := fs_trace s @ [Ran p override]\<rparr>
      in case fe_run env (fs_attempts s0) p (sub_kwargs fc (fs_self s) p override) of
           Build_error e \<Rightarrow> Again (s\<lparr>fs_error := Some e\<rparr>)
         | Run_error e stderr resets_at \<Rightarrow>
             Again ((on_failure fc env p override stderr resets_at started)\<lparr>fs_error := Some e\<rparr>)
         | Produced result sid \<Rightarrow> Returned (on_success p sid started) result)"

definition fb_step :: "fb_class \<Rightarrow> fb_env \<Rightarrow> fb_state \<Rightarrow> fb_next" where
  "fb_step fc env s =
     (case fs_pending s of
        [] \<Rightarrow> Again s
      | (p, override) # rest \<Rightarrow>
          (case skip_walled fc env p override
                  (account_pop (length (fc_chain fc)) (s\<lparr>fs_pending := rest\<rparr>)) of
             (True, s1) \<Rightarrow> Again s1
           | (False, s1) \<Rightarrow> attempt fc env p override s1))"

section \<open>The loop\<close>

text \<open>\<open>Inl n\<close> is the exhaustion error after \<open>n\<close> attempts.\<close>

partial_function (option) run_loop ::
  "fb_class \<Rightarrow> fb_env \<Rightarrow> fb_state \<Rightarrow> (fb_state \<times> (nat + string)) option" where
  [code]: "run_loop fc env s =
     (if fs_pending s = [] then Some (s, Inl (fs_attempts s))
      else case fb_step fc env s of
             Again s' \<Rightarrow> run_loop fc env s'
           | Returned s' r \<Rightarrow> Some (s', Inr r))"

definition rotated :: "int \<Rightarrow> provider list \<Rightarrow> provider list" where
  "rotated off chain =
     (if chain \<noteq> [] \<and> off \<noteq> 0
      then let k = nat (off mod int (length chain)) in drop k chain @ take k chain
      else chain)"

definition initial_pending :: "fb_class \<Rightarrow> fb_self \<Rightarrow> (provider \<times> string option) list" where
  "initial_pending fc self =
     concat (replicate (nat (fc_cycles fc)) (map (\<lambda>c. (c, None)) (rotated (fa_rotate self) (fc_chain fc))))"

definition initial_budget :: "fb_class \<Rightarrow> int" where
  "initial_budget fc =
     int (length (fc_chain fc)) * fc_cycles fc
     + int (sum_list (map (\<lambda>(r, targets). length targets) (fc_rules fc))) * fc_cycles fc"

definition run_async ::
  "fb_class \<Rightarrow> fb_env \<Rightarrow> fb_self \<Rightarrow> (provider \<times> string \<Rightarrow> rat option) \<Rightarrow> (provider \<times> string) set \<Rightarrow>
   (fb_state \<times> (nat + string)) option" where
  "run_async fc env self limited barred =
     run_loop fc env
       \<lparr>fs_self = self, fs_pending = initial_pending fc self, fs_tried = (\<lambda>_. {}), fs_used = (\<lambda>_. 0),
        fs_attempts = 0, fs_ran = False, fs_base = 0, fs_respliced = 0, fs_budget = initial_budget fc,
        fs_limited = limited, fs_barred = barred, fs_reads = 0, fs_error = None, fs_trace = []\<rparr>"

section \<open>The abstract moves of the loop\<close>

text \<open>What an iteration does to the work list, seen without caches, clock and trace.  Every iteration
  that continues is one of four moves (\<open>fb_step_moves\<close>); the bounds are proved on the moves.\<close>

record fb_view =
  v_pending :: "(provider \<times> string option) list"
  v_respliced :: nat
  v_base :: nat
  v_used :: "provider \<Rightarrow> nat"
  v_budget :: int
  v_tried :: "provider \<Rightarrow> string set"
  v_attempts :: nat
  v_ran :: bool

definition view :: "fb_state \<Rightarrow> fb_view" where
  "view s = \<lparr>v_pending = fs_pending s, v_respliced = fs_respliced s, v_base = fs_base s,
     v_used = fs_used s, v_budget = fs_budget s, v_tried = fs_tried s, v_attempts = fs_attempts s,
     v_ran = fs_ran s\<rparr>"

definition popped :: "fb_class \<Rightarrow> (provider \<times> string option) list \<Rightarrow> fb_view \<Rightarrow> fb_view" where
  "popped fc rest v =
     (if v_respliced v > 0 then v\<lparr>v_pending := rest, v_respliced := v_respliced v - 1\<rparr>
      else v\<lparr>v_pending := rest, v_base := Suc (v_base v),
             v_used := if v_base v \<noteq> 0 \<and> v_base v mod length (fc_chain fc) = 0 then (\<lambda>_. 0)
                       else v_used v\<rparr>)"

inductive fb_move :: "fb_class \<Rightarrow> nat \<Rightarrow> fb_view \<Rightarrow> fb_view \<Rightarrow> bool" for fc t where
  drop: "v_pending v = e # rest \<Longrightarrow> w = popped fc rest v \<Longrightarrow> v_tried v \<le> tr \<Longrightarrow>
    a \<or> rest \<noteq> [] \<or> v_ran v \<Longrightarrow>
    fb_move fc t v (w\<lparr>v_tried := tr, v_attempts := v_attempts v + of_bool a, v_ran := v_ran v \<or> (a \<and> r)\<rparr>)"
| alternate: "v_pending v = (p, ov) # rest \<Longrightarrow> w = popped fc rest v \<Longrightarrow> v_tried v \<le> tr \<Longrightarrow>
    m \<in> set (fallbacks_of fc p) \<Longrightarrow> m \<notin> v_tried v p \<Longrightarrow> m \<in> tr p \<Longrightarrow>
    fb_move fc t v (w\<lparr>v_pending := (p, Some m) # rest, v_respliced := Suc (v_respliced w),
      v_tried := tr, v_attempts := v_attempts v + of_bool a, v_ran := v_ran v \<or> a\<rparr>)"
| retry: "v_pending v = (p, ov) # rest \<Longrightarrow> w = popped fc rest v \<Longrightarrow> v_tried v \<le> tr \<Longrightarrow>
    v_used w p < t \<Longrightarrow>
    fb_move fc t v (w\<lparr>v_pending := (p, ov) # rest, v_respliced := Suc (v_respliced w), v_tried := tr,
      v_used := (v_used w)(p := Suc (v_used w p)), v_attempts := Suc (v_attempts v), v_ran := True\<rparr>)"
| reroute: "v_pending v = e # rest \<Longrightarrow> w = popped fc rest v \<Longrightarrow> v_tried v \<le> tr \<Longrightarrow>
    v_budget v > 0 \<Longrightarrow> (r, targets) \<in> set (fc_rules fc) \<Longrightarrow>
    fb_move fc t v (w\<lparr>v_pending := map (\<lambda>c. (c, None)) targets @ rest,
      v_budget := v_budget v - int (length targets), v_tried := tr,
      v_attempts := Suc (v_attempts v), v_ran := True\<rparr>)"

lemma view_sel [simp]:
  "v_pending (view s) = fs_pending s" "v_respliced (view s) = fs_respliced s"
  "v_base (view s) = fs_base s" "v_used (view s) = fs_used s" "v_budget (view s) = fs_budget s"
  "v_tried (view s) = fs_tried s" "v_attempts (view s) = fs_attempts s" "v_ran (view s) = fs_ran s"
  by (simp_all add: view_def)

subsection \<open>What the caches and the trace leave alone\<close>

lemma is_rate_limited_frame:
  "is_rate_limited env p m s = (b, s') \<Longrightarrow> view s' = view s \<and> fs_self s' = fs_self s"
  by (auto simp: is_rate_limited_def Let_def view_def split: option.splits if_splits)

lemma next_open_model_frame:
  "next_open_model env p ms s = (r, s') \<Longrightarrow>
   view s' = view s \<and> fs_self s' = fs_self s \<and>
   (\<forall>m. r = Some m \<longrightarrow> m \<in> set ms \<and> m \<notin> fs_tried s p)"
proof (induction ms arbitrary: s)
  case (Cons m ms)
  obtain b s1 where b: "is_rate_limited env p (Some m) s = (b, s1)" by fastforce
  have f: "view s1 = view s" "fs_self s1 = fs_self s" using is_rate_limited_frame [OF b] by simp_all
  then have t: "fs_tried s1 = fs_tried s" by (simp add: view_def)
  show ?case
  proof (cases "m \<in> fs_tried s p \<or> b \<or> is_model_known_inaccessible s1 p (Some m)")
    case True
    then have "next_open_model env p ms (if m \<in> fs_tried s p then s else s1) = (r, s')"
      using Cons.prems b by (cases b) auto
    from Cons.IH [OF this] show ?thesis using f t by (auto split: if_splits)
  next
    case False
    then have "r = Some m" "s' = s1" using Cons.prems b by (auto split: if_splits)
    with False f show ?thesis by simp
  qed
qed simp

lemma any_viable_frame:
  "any_viable fc env rest s = (b, s') \<Longrightarrow> view s' = view s \<and> fs_self s' = fs_self s \<and> (b \<longrightarrow> rest \<noteq> [])"
  by (induction fc env rest s rule: any_viable.induct)
    (auto split: prod.splits bool.splits dest: is_rate_limited_frame)

lemma view_emit [simp]: "view (emit d s) = view s" "fs_self (emit d s) = fs_self s"
  by (simp_all add: emit_def view_def)

lemma view_emit_move [simp]:
  "view (emit_move fc a x y r c s) = view s" "fs_self (emit_move fc a x y r c s) = fs_self s"
  by (simp_all add: emit_move_def)

lemma view_sleep_if [simp]: "view (sleep_if c d s) = view s" "fs_self (sleep_if c d s) = fs_self s"
  by (simp_all add: sleep_if_def view_def)

lemma view_record_walls [simp]:
  "view (record_walls p m e r s) = view s" "fs_self (record_walls p m e r s) = fs_self s"
  by (simp_all add: record_walls_def record_rate_limited_def record_inaccessible_model_def Let_def view_def
      split: option.splits epoch.splits)

lemma view_account_pop: "fs_pending s = e # rest \<Longrightarrow>
  view (account_pop (length (fc_chain fc)) (s\<lparr>fs_pending := rest\<rparr>)) = popped fc rest (view s)"
  by (simp add: account_pop_def popped_def view_def)

lemma view_splice [simp]:
  "view (splice_front e s) = (view s)\<lparr>v_pending := e # v_pending (view s),
     v_respliced := Suc (v_respliced (view s))\<rparr>"
  "fs_self (splice_front e s) = fs_self s"
  by (simp_all add: splice_front_def view_def)

lemma view_add_tried [simp]:
  "view (add_tried p m s) = (view s)\<lparr>v_tried := (v_tried (view s))(p := insert m (v_tried (view s) p))\<rparr>"
  "fs_self (add_tried p m s) = fs_self s"
  by (simp_all add: add_tried_def view_def)

lemma view_mark_tried:
  "\<exists>tr. view (mark_tried p m s) = (view s)\<lparr>v_tried := tr\<rparr> \<and> v_tried (view s) \<le> tr"
  by (cases "truthy_str m") (auto simp: mark_tried_def le_fun_def intro: exI [of _ "fs_tried s"])

lemma popped_simps [simp]:
  "v_tried (popped fc rest v) = v_tried v" "v_pending (popped fc rest v) = rest"
  "v_budget (popped fc rest v) = v_budget v" "v_attempts (popped fc rest v) = v_attempts v"
  "v_ran (popped fc rest v) = v_ran v"
  by (simp_all add: popped_def)

lemma view_eq_iff: "view s' = view s \<Longrightarrow> fs_pending s' = fs_pending s \<and> fs_ran s' = fs_ran s
  \<and> fs_tried s' = fs_tried s \<and> fs_used s' = fs_used s \<and> fs_budget s' = fs_budget s"
  by (simp add: view_def)

lemma skip_walled_cases:
  assumes "skip_walled fc env p ov s = (b, s')"
  obtains (go) tr where "\<not> b" "view s' = (view s)\<lparr>v_tried := tr\<rparr>" "v_tried (view s) \<le> tr"
        "fs_self s' = fs_self s"
    | (skip) tr where "b" "view s' = (view s)\<lparr>v_tried := tr\<rparr>" "v_tried (view s) \<le> tr"
        "fs_pending s \<noteq> [] \<or> fs_ran s"
    | (splice) tr m where "b" "m \<in> set (fallbacks_of fc p)" "m \<notin> fs_tried s p" "m \<in> tr p"
        "v_tried (view s) \<le> tr"
        "view s' = (view s)\<lparr>v_pending := (p, Some m) # fs_pending s,
           v_respliced := Suc (fs_respliced s), v_tried := tr\<rparr>"
proof -
  let ?m = "effective_model fc (fs_self s) p ov"
  obtain b1 s1 where 1: "is_rate_limited env p ?m s = (b1, s1)" by fastforce
  note f1 = is_rate_limited_frame [OF 1]
  show thesis
  proof (cases b1)
    case False
    with assms 1 have "\<not> b" "s' = s1" by (auto simp: skip_walled_def Let_def)
    then show thesis using f1 by (intro go [of "v_tried (view s)"]) auto
  next
    case True
    obtain tr where tr: "view (mark_tried p ?m s1) = (view s1)\<lparr>v_tried := tr\<rparr>" "v_tried (view s1) \<le> tr"
      using view_mark_tried [of p ?m s1] by blast
    have self: "fs_self (mark_tried p ?m s1) = fs_self s1"
      by (simp add: mark_tried_def split: option.splits)
    obtain r s2 where 2: "next_open_model env p (fallbacks_of fc p) (mark_tried p ?m s1) = (r, s2)"
      by fastforce
    note f2 = next_open_model_frame [OF 2]
    have v2: "view s2 = (view s)\<lparr>v_tried := tr\<rparr>" "v_tried (view s) \<le> tr" "fs_self s2 = fs_self s"
      using f1 f2 tr self by simp_all
    show thesis
    proof (cases r)
      case (Some m)
      then have s': "b" "s' = splice_front (p, Some m)
          (emit_move fc ''model_fallback'' p (Some (p @ ''('' @ m @ '')'')) ''usage'' ''usage''
                    (add_tried p m s2))"
        using assms 1 2 True by (auto simp: skip_walled_def Let_def)
      have "v_tried (view (mark_tried p ?m s1)) = tr" by (simp add: tr(1))
      then have "fs_tried (mark_tried p ?m s1) = tr" by (simp add: view_def)
      then have "m \<in> set (fallbacks_of fc p)" "m \<notin> tr p" using f2 Some by auto
      then show thesis
        using s' v2 by (intro splice [of m "tr(p := insert m (tr p))"])
          (auto simp: le_fun_def)
    next
      case None
      obtain viable s3 where 3: "any_viable fc env (fs_pending s2) s2 = (viable, s3)" by fastforce
      note f3 = any_viable_frame [OF 3]
      have pend: "fs_pending s2 = fs_pending s" "fs_ran s3 = fs_ran s"
        using v2(1) f3 by (simp_all add: view_def)
      show thesis
      proof (cases "viable \<or> fs_ran s3")
        case True
        with assms 1 2 3 \<open>b1\<close> None have s': "b" "s' = emit_move fc ''rate_limit_skip'' (label_of p ov) None
            ''usage'' ''usage'' s3"
          by (auto simp: skip_walled_def Let_def)
        then show thesis using v2 f3 pend True by (intro skip [of tr]) auto
      next
        case False
        with assms 1 2 3 \<open>b1\<close> None have "\<not> b" "s' = s3" by (auto simp: skip_walled_def Let_def)
        then show thesis using v2 f3 by (intro go [of tr]) auto
      qed
    qed
  qed
qed

lemma advance_cases:
  obtains (reroute) r targets where "view (advance fc p ov e s) = (view s)\<lparr>
        v_pending := map (\<lambda>t. (t, None)) targets @ fs_pending s, v_budget := fs_budget s - int (length targets)\<rparr>"
      "watchdog_reason_in e = Some r" "map_of (fc_rules fc) r = Some targets" "fs_budget s > 0"
    | (plain) "view (advance fc p ov e s) = view s"
      "\<not> (\<exists>r targets. watchdog_reason_in e = Some r \<and> map_of (fc_rules fc) r = Some targets \<and> fs_budget s > 0)"
proof (cases "\<exists>r targets. watchdog_reason_in e = Some r \<and> map_of (fc_rules fc) r = Some targets \<and> fs_budget s > 0")
  case True
  then obtain r targets where r: "watchdog_reason_in e = Some r" "map_of (fc_rules fc) r = Some targets"
    "fs_budget s > 0" by blast
  have "view (advance fc p ov e s) = (view s)\<lparr>
        v_pending := map (\<lambda>t. (t, None)) targets @ fs_pending s, v_budget := fs_budget s - int (length targets)\<rparr>"
    using r by (simp add: advance_def view_def emit_move_def emit_def)
  with r show thesis by (rule reroute [rotated 1])
next
  case False
  then have "view (advance fc p ov e s) = view s"
    by (auto simp: advance_def Let_def split: option.splits)
  with False show thesis by (intro plain)
qed

lemma try_sibling_cases:
  obtains (sibling) s' tr m where "try_sibling fc p ov e s = Inl s'" "m \<in> set (fallbacks_of fc p)"
      "m \<notin> fs_tried s p" "m \<in> tr p" "fs_tried s \<le> tr" "(p, m) \<notin> fs_barred s \<or> m = []"
      "effective_model fc (fs_self s) p ov \<noteq> Some m \<or> m = []"
      "is_usage_wall e \<or> is_model_unavailable e"
      "view s' = (view s)\<lparr>v_pending := (p, Some m) # fs_pending s,
         v_respliced := Suc (fs_respliced s), v_tried := tr\<rparr>"
    | (none) s' tr where "try_sibling fc p ov e s = Inr s'" "view s' = (view s)\<lparr>v_tried := tr\<rparr>"
      "fs_tried s \<le> tr"
      "(is_usage_wall e \<or> is_model_unavailable e) \<Longrightarrow>
       \<forall>m \<in> set (fallbacks_of fc p). m \<in> tr p \<or> is_model_known_inaccessible s p (Some m)"
proof (cases "(is_usage_wall e \<or> is_model_unavailable e) \<and> fallbacks_of fc p \<noteq> []")
  case False
  then show thesis by (intro none [of s "fs_tried s"]) (auto simp: try_sibling_def)
next
  case True
  let ?s1 = "mark_tried p (effective_model fc (fs_self s) p ov) s"
  obtain tr where tr: "view ?s1 = (view s)\<lparr>v_tried := tr\<rparr>" "fs_tried s \<le> tr"
    using view_mark_tried [of p _ s] by fastforce
  have t1: "fs_tried ?s1 = tr" using arg_cong [OF tr(1), of v_tried] by simp
  have b1: "fs_barred ?s1 = fs_barred s"
    by (simp add: mark_tried_def add_tried_def split: option.splits)
  have inacc: "is_model_known_inaccessible ?s1 p m = is_model_known_inaccessible s p m" for m
    unfolding is_model_known_inaccessible_def b1 ..
  show thesis
  proof (cases "next_sibling fc p ?s1")
    case None
    then have all: "\<forall>m \<in> set (fallbacks_of fc p). m \<in> tr p \<or> is_model_known_inaccessible s p (Some m)"
      by (auto simp: next_sibling_def find_None_iff t1 inacc)
    have "try_sibling fc p ov e s = Inr ?s1" using True None by (simp add: try_sibling_def Let_def)
    then show thesis using tr all by (intro none [of ?s1 tr])
  next
    case (Some m)
    then have m: "m \<in> set (fallbacks_of fc p)" "m \<notin> tr p" "\<not> is_model_known_inaccessible s p (Some m)"
      by (auto simp: next_sibling_def find_Some_iff t1 inacc)
    have cur: "effective_model fc (fs_self s) p ov \<noteq> Some m \<or> m = []"
      using m(2) t1 by (auto simp: mark_tried_def add_tried_def truthy_str_def split: if_splits)
    have bar: "(p, m) \<notin> fs_barred s \<or> m = []"
      using m(3) by (auto simp: is_model_known_inaccessible_def truthy_str_def split: if_splits)
    have mt: "m \<notin> fs_tried s p" using m(2) tr(2) by (auto simp: le_fun_def)
    show thesis
      by (rule sibling [of _ m "tr(p := insert m (tr p))"])
        (use True Some tr m cur bar mt in \<open>auto simp: try_sibling_def Let_def le_fun_def t1\<close>)
  qed
qed

lemma on_failure_cases:
  fixes fc env p ov e ra s
  defines "s' \<equiv> on_failure fc env p ov e ra s"
  obtains (retry) "may_retry env p e s" "view s' = (view s)\<lparr>v_pending := (p, ov) # fs_pending s,
        v_respliced := Suc (fs_respliced s), v_used := (fs_used s)(p := Suc (fs_used s p))\<rparr>"
    | (sibling) tr m where "\<not> may_retry env p e s" "m \<in> set (fallbacks_of fc p)" "m \<notin> fs_tried s p"
      "m \<in> tr p" "fs_tried s \<le> tr" "effective_model fc (fs_self s) p ov \<noteq> Some m \<or> m = []"
      "(p, m) \<notin> fs_barred s \<or> m = []"
      "is_usage_wall e \<or> is_model_unavailable e"
      "view s' = (view s)\<lparr>v_pending := (p, Some m) # fs_pending s,
         v_respliced := Suc (fs_respliced s), v_tried := tr\<rparr>"
    | (reroute) tr r targets where "\<not> may_retry env p e s" "fs_tried s \<le> tr"
      "watchdog_reason_in e = Some r" "map_of (fc_rules fc) r = Some targets" "fs_budget s > 0"
      "view s' = (view s)\<lparr>v_tried := tr, v_pending := map (\<lambda>t. (t, None)) targets @ fs_pending s,
         v_budget := fs_budget s - int (length targets)\<rparr>"
    | (plain) tr where "\<not> may_retry env p e s" "fs_tried s \<le> tr" "view s' = (view s)\<lparr>v_tried := tr\<rparr>"
      "\<not> (\<exists>r targets. watchdog_reason_in e = Some r \<and> map_of (fc_rules fc) r = Some targets \<and> fs_budget s > 0)"
proof (cases "may_retry env p e s")
  case True
  then have "view s' = (view s)\<lparr>v_pending := (p, ov) # fs_pending s,
        v_respliced := Suc (fs_respliced s), v_used := (fs_used s)(p := Suc (fs_used s p))\<rparr>"
    by (simp add: s'_def on_failure_def retry_same_def Let_def view_def sleep_if_def splice_front_def
        emit_move_def emit_def)
  with True show thesis by (rule that(1))
next
  case False
  let ?s1 = "record_walls p (effective_model fc (fs_self s) p ov) e ra s"
  have f: "view ?s1 = view s" "fs_self ?s1 = fs_self s" "fs_barred s \<subseteq> fs_barred ?s1"
    "fs_tried ?s1 = fs_tried s" "fs_pending ?s1 = fs_pending s" "fs_respliced ?s1 = fs_respliced s"
    by (auto simp: record_walls_def record_rate_limited_def record_inaccessible_model_def Let_def view_def
      split: option.splits epoch.splits)
  show thesis
  proof (cases rule: try_sibling_cases [of fc p ov e ?s1])
    case (sibling s2 tr m)
    then have "s' = s2" using False by (simp add: s'_def on_failure_def Let_def)
    then show thesis
      using sibling f False by (intro that(2) [of m tr]) auto
  next
    case (none s2 tr)
    have s': "view s' = view (advance fc p ov e s2)"
      using False none(1) by (simp add: s'_def on_failure_def Let_def)
    have s2: "fs_pending s2 = fs_pending s" "fs_budget s2 = fs_budget s"
      using arg_cong [OF none(2), of v_pending] arg_cong [OF none(2), of v_budget]
        arg_cong [OF f(1), of v_budget] f by simp_all
    show thesis
    proof (cases rule: advance_cases [of fc p ov e s2])
      case (reroute r targets)
      then show thesis using none f False s' s2 by (intro that(3) [of tr r targets]) auto
    next
      case plain
      then show thesis using none f False s' s2 by (intro that(4) [of tr]) auto
    qed
  qed
qed

end
