(* ===== verification/Fallback_Laws.thy ===== *)
theory Fallback_Laws
  imports Fallback_Agent
begin

text \<open>
  What the fallback loop of \<^verbatim>\<open>Fallback_Agent\<close> guarantees: every iteration that continues is an
  abstract move (a simulation), a measure on the moves bounds the run whatever the providers, the
  clock and the caches do, no run gives up without an attempt, and the branch taken after a
  failure is decided by the failure's classification.
\<close>

section \<open>The simulation\<close>

lemma view_error [simp]: "view (s\<lparr>fs_error := x\<rparr>) = view s"
  by (simp add: view_def)

lemma used_after_tried: "view s1 = w\<lparr>v_tried := tr\<rparr> \<Longrightarrow> fs_used s1 = v_used w"
  by (drule arg_cong [where f = v_used]) simp

text \<open>An attempt seen as a view: the counters, then what the failure did.\<close>

lemma view_started: "view (s\<lparr>fs_attempts := a, fs_ran := r, fs_trace := tr\<rparr>)
    = (view s)\<lparr>v_attempts := a, v_ran := r\<rparr>"
  by (simp add: view_def)

lemma view_attempts: "view (s\<lparr>fs_attempts := a, fs_error := e\<rparr>) = (view s)\<lparr>v_attempts := a\<rparr>"
  by (simp add: view_def)

lemma fb_step_moves:
  assumes "fs_pending s \<noteq> []" and "fb_step fc env s = Again s'"
  shows "fb_move fc (transport_retries env) (view s) (view s')"
proof -
  obtain p ov rest where pend: "fs_pending s = (p, ov) # rest"
    using assms(1) by (metis list.exhaust surj_pair)
  let ?s0 = "account_pop (length (fc_chain fc)) (s\<lparr>fs_pending := rest\<rparr>)"
  let ?w = "popped fc rest (view s)"
  have w: "view ?s0 = ?w" by (rule view_account_pop [OF pend])
  have vp: "v_pending (view s) = (p, ov) # rest" by (simp add: pend)
  have s0: "fs_pending ?s0 = rest" "fs_tried ?s0 = fs_tried s" "fs_ran ?s0 = fs_ran s"
    by (simp_all add: account_pop_def)
  obtain b s1 where sk: "skip_walled fc env p ov ?s0 = (b, s1)" by fastforce
  show ?thesis
    using sk
  proof (cases rule: skip_walled_cases)
    case (skip tr)
    then have "s' = s1" using assms(2) sk by (simp add: fb_step_def pend)
    then have "view s' = ?w\<lparr>v_tried := tr, v_attempts := v_attempts (view s) + of_bool False,
        v_ran := v_ran (view s) \<or> (False \<and> False)\<rparr>"
      using skip(2) w by simp
    then show ?thesis
      using fb_move.drop [OF vp refl, of tr False fc "transport_retries env" False] skip(3,4) s0 w by simp
  next
    case (splice tr m)
    then have "s' = s1" using assms(2) sk by (simp add: fb_step_def pend)
    moreover have "fs_respliced ?s0 = v_respliced ?w" using arg_cong [OF w, of v_respliced] by simp
    ultimately have "view s' = ?w\<lparr>v_pending := (p, Some m) # rest, v_respliced := Suc (v_respliced ?w),
        v_tried := tr, v_attempts := v_attempts (view s) + of_bool False, v_ran := v_ran (view s) \<or> False\<rparr>"
      using splice(6) w s0 by simp
    then show ?thesis
      using fb_move.alternate [OF vp refl, of tr m fc "transport_retries env" False]
        splice(2-5) s0 w by simp
  next
    case (go tr)
    let ?st = "s1\<lparr>fs_attempts := Suc (fs_attempts s1), fs_ran := True,
        fs_trace := fs_trace s1 @ [Ran p ov]\<rparr>"
    have v1: "view s1 = ?w\<lparr>v_tried := tr\<rparr>" and le: "v_tried (view s) \<le> tr"
      using go w by simp_all
    have sel: "fs_pending s1 = rest" "fs_respliced s1 = v_respliced ?w" "fs_used s1 = v_used ?w"
      "fs_tried s1 = tr" "fs_budget s1 = fs_budget s" "fs_attempts s1 = fs_attempts s" "fs_ran s1 = fs_ran s"
      using arg_cong [OF v1, of v_pending] arg_cong [OF v1, of v_respliced] arg_cong [OF v1, of v_used]
        arg_cong [OF v1, of v_tried] arg_cong [OF v1, of v_budget] arg_cong [OF v1, of v_attempts]
        arg_cong [OF v1, of v_ran] by simp_all
    have st: "view ?st = ?w\<lparr>v_tried := tr, v_attempts := Suc (v_attempts (view s)), v_ran := True\<rparr>"
      unfolding view_started v1 sel(6) by simp
    have att: "attempt fc env p ov s1 = Again s'" using assms(2) sk go(1) by (simp add: fb_step_def pend)
    show ?thesis
    proof (cases "fe_run env (fs_attempts s1) p (sub_kwargs fc (fs_self s1) p ov)")
      case (Build_error x)
      then have s': "s1\<lparr>fs_attempts := Suc (fs_attempts s1), fs_error := Some x\<rparr> = s'"
        using att by (simp add: attempt_def Let_def)
      have "view s' = ?w\<lparr>v_tried := tr, v_attempts := v_attempts (view s) + of_bool True,
          v_ran := v_ran (view s) \<or> (True \<and> False)\<rparr>"
        unfolding s' [symmetric] view_attempts v1 sel(6) by simp
      then show ?thesis
        using fb_move.drop [OF vp refl le, of True fc "transport_retries env" False] by simp
    next
      case (Produced x y)
      then show ?thesis using att by (simp add: attempt_def)
    next
      case (Run_error x e ra)
      then have vs': "view s' = view (on_failure fc env p ov e ra ?st)"
        using att by (auto simp: attempt_def Let_def)
      have fs: "fs_pending ?st = rest" "fs_respliced ?st = v_respliced ?w" "fs_used ?st = v_used ?w"
        "fs_tried ?st = tr" "fs_budget ?st = v_budget (view s)"
        by (simp_all add: sel)
      show ?thesis
      proof (cases rule: on_failure_cases [of env p e ?st fc ov ra])
        case retry
        then have "v_used ?w p < transport_retries env" using fs by (simp add: may_retry_def)
        note mv = fb_move.retry [OF vp refl le this]
        show ?thesis
          by (rule back_subst [where P = "fb_move fc (transport_retries env) (view s)", OF mv], rule fb_view.equality) (simp_all add: vs' retry(2) st fs)
      next
        case (sibling tr' m)
        have "v_tried (view s) \<le> tr'" using le sibling(5) fs by simp
        moreover have "m \<notin> v_tried (view s) p" using sibling(3) le fs by (auto simp: le_fun_def)
        ultimately have mv: "fb_move fc (transport_retries env) (view s) (?w\<lparr>v_pending := (p, Some m) # rest,
            v_respliced := Suc (v_respliced ?w), v_tried := tr', v_attempts := v_attempts (view s) + of_bool True,
            v_ran := v_ran (view s) \<or> True\<rparr>)"
          by (intro fb_move.alternate [OF vp refl _ sibling(2)] sibling(4))
        show ?thesis
          by (rule back_subst [where P = "fb_move fc (transport_retries env) (view s)", OF mv], rule fb_view.equality) (simp_all add: vs' sibling(9) st fs)
      next
        case (reroute tr' r targets)
        have "v_tried (view s) \<le> tr'" using le reroute(2) fs by simp
        moreover have "v_budget (view s) > 0" using reroute(5) fs by simp
        ultimately have mv: "fb_move fc (transport_retries env) (view s) (?w\<lparr>
            v_pending := map (\<lambda>c. (c, None)) targets @ rest,
            v_budget := v_budget (view s) - int (length targets), v_tried := tr',
            v_attempts := Suc (v_attempts (view s)), v_ran := True\<rparr>)"
          by (rule fb_move.reroute [OF vp refl _ _ map_of_SomeD [OF reroute(4)]])
        show ?thesis
          by (rule back_subst [where P = "fb_move fc (transport_retries env) (view s)", OF mv], rule fb_view.equality) (simp_all add: vs' reroute(6) st fs)
      next
        case (plain tr')
        have "v_tried (view s) \<le> tr'" using le plain(2) fs by simp
        then have mv: "fb_move fc (transport_retries env) (view s) (?w\<lparr>v_tried := tr',
            v_attempts := v_attempts (view s) + of_bool True, v_ran := v_ran (view s) \<or> (True \<and> True)\<rparr>)"
          by (rule fb_move.drop [OF vp refl]) simp
        show ?thesis
          by (rule back_subst [where P = "fb_move fc (transport_retries env) (view s)", OF mv], rule fb_view.equality) (simp_all add: vs' plain(3) st fs)
      qed
    qed
  qed
qed

lemma fb_step_returns:
  assumes "fb_step fc env s = Returned s' r"
  shows "fs_attempts s' = Suc (fs_attempts s) \<and> fs_ran s' \<and> fs_pending s \<noteq> []"
proof -
  obtain p ov rest where pend: "fs_pending s = (p, ov) # rest"
    using assms by (cases "fs_pending s") (auto simp: fb_step_def)
  let ?s0 = "account_pop (length (fc_chain fc)) (s\<lparr>fs_pending := rest\<rparr>)"
  obtain b s1 where sk: "skip_walled fc env p ov ?s0 = (b, s1)" by fastforce
  with assms have "\<not> b" and at: "attempt fc env p ov s1 = Returned s' r"
    by (cases b; simp add: fb_step_def pend)+
  with sk obtain tr where "view s1 = (view ?s0)\<lparr>v_tried := tr\<rparr>" by (auto elim: skip_walled_cases)
  then have "fs_attempts s1 = fs_attempts s"
    by (drule_tac arg_cong [where f = v_attempts]) (simp add: account_pop_def)
  with at pend show ?thesis
    by (auto simp: attempt_def Let_def on_success_def split: fb_outcome.splits)
qed

section \<open>The measure\<close>

definition max_targets :: "fb_class \<Rightarrow> nat" where
  "max_targets fc = foldr max (map (\<lambda>(r, ts). length ts) (fc_rules fc)) 0"

definition growth :: "fb_class \<Rightarrow> int \<Rightarrow> nat" where
  "growth fc b = (if b > 0 then nat b + max_targets fc - 1 else 0)"

definition untried :: "fb_class \<Rightarrow> (provider \<Rightarrow> string set) \<Rightarrow> nat" where
  "untried fc tr = (\<Sum>c \<in> fst ` set (fc_fallbacks fc). card (set (fallbacks_of fc c) - tr c))"

definition headroom :: "nat \<Rightarrow> fb_view \<Rightarrow> nat" where
  "headroom t v = (if v_respliced v = 1 then 1 + (t - v_used v (fst (hd (v_pending v)))) else 0)"

definition fb_measure :: "fb_class \<Rightarrow> nat \<Rightarrow> fb_view \<Rightarrow> nat" where
  "fb_measure fc t v = (t + 1) * (length (v_pending v) - v_respliced v + growth fc (v_budget v))
     + untried fc (v_tried v) + headroom t v"

definition fb_wf :: "fb_view \<Rightarrow> bool" where
  "fb_wf v \<longleftrightarrow> v_respliced v \<le> 1 \<and> (v_respliced v = 1 \<longrightarrow> v_pending v \<noteq> [])"

lemma max_targets_ge: "(r, ts) \<in> set (fc_rules fc) \<Longrightarrow> length ts \<le> max_targets fc"
proof -
  have "(r, ts) \<in> set xs \<Longrightarrow> length ts \<le> foldr max (map (\<lambda>(r, ts). length ts) xs) 0" for xs
    by (induction xs) auto
  then show "(r, ts) \<in> set (fc_rules fc) \<Longrightarrow> ?thesis" by (simp add: max_targets_def)
qed

lemma growth_reroute:
  assumes "b > 0" "(r, ts) \<in> set (fc_rules fc)"
  shows "length ts + growth fc (b - int (length ts)) \<le> growth fc b"
  using assms max_targets_ge [OF assms(2)] by (auto simp: growth_def)

lemma untried_mono: "tr \<le> tr' \<Longrightarrow> untried fc tr' \<le> untried fc tr"
  unfolding untried_def by (intro sum_mono card_mono) (auto simp: le_fun_def)

lemma untried_less:
  assumes "tr \<le> tr'" "m \<in> set (fallbacks_of fc p)" "m \<notin> tr p" "m \<in> tr' p"
  shows "untried fc tr' < untried fc tr"
  unfolding untried_def
proof (rule sum_strict_mono_ex1)
  show "\<forall>c \<in> fst ` set (fc_fallbacks fc). card (set (fallbacks_of fc c) - tr' c) \<le> card (set (fallbacks_of fc c) - tr c)"
    using assms(1) by (auto simp: le_fun_def intro!: card_mono)
  obtain ms where "map_of (fc_fallbacks fc) p = Some ms"
    using assms(2) by (cases "map_of (fc_fallbacks fc) p") (auto simp: fallbacks_of_def)
  then have "p \<in> fst ` set (fc_fallbacks fc)" by (force dest: map_of_SomeD)
  moreover have "card (set (fallbacks_of fc p) - tr' p) < card (set (fallbacks_of fc p) - tr p)"
    using assms by (intro psubset_card_mono) (auto simp: le_fun_def)
  ultimately show "\<exists>c \<in> fst ` set (fc_fallbacks fc). card (set (fallbacks_of fc c) - tr' c)
      < card (set (fallbacks_of fc c) - tr c)" by blast
qed simp

lemma popped_wf:
  assumes "fb_wf v" "v_pending v = (p, ov) # rest" "w = popped fc rest v"
  shows "v_respliced w = 0"
    and "v_respliced v = 0 \<or> (v_respliced v = 1 \<and> v_used w = v_used v)"
  using assms by (auto simp: popped_def fb_wf_def)

lemma fb_move_wf: "fb_move fc t v v' \<Longrightarrow> fb_wf v \<Longrightarrow> fb_wf v'"
  by (induction rule: fb_move.induct) (auto simp: fb_wf_def popped_def)

lemma fb_move_decreases:
  assumes "fb_move fc t v v'" "fb_wf v"
  shows "fb_measure fc t v' < fb_measure fc t v"
  using assms
proof cases
  case (drop e rest w tr a r)
  obtain p ov where e: "e = (p, ov)" by (cases e)
  note pw = popped_wf [OF assms(2) drop(2) [unfolded e] drop(3)]
  have "untried fc tr \<le> untried fc (v_tried v)" by (rule untried_mono [OF drop(4)])
  then show ?thesis
    using pw drop e by (auto simp: fb_measure_def headroom_def)
next
  case (alternate p ov rest w tr m a)
  note pw = popped_wf [OF assms(2) alternate(2,3)]
  have "untried fc tr < untried fc (v_tried v)" using alternate by (intro untried_less)
  then show ?thesis
    using pw alternate by (auto simp: fb_measure_def headroom_def)
next
  case (retry p ov rest w tr)
  note pw = popped_wf [OF assms(2) retry(2,3)]
  have "untried fc tr \<le> untried fc (v_tried v)" by (rule untried_mono [OF retry(4)])
  then show ?thesis
    using pw retry by (auto simp: fb_measure_def headroom_def)
next
  case (reroute e rest w tr r targets)
  obtain p ov where e: "e = (p, ov)" by (cases e)
  note pw = popped_wf [OF assms(2) reroute(2) [unfolded e] reroute(3)]
  have "untried fc tr \<le> untried fc (v_tried v)" by (rule untried_mono [OF reroute(4)])
  moreover have "(t + 1) * (length targets + length rest + growth fc (v_budget v - int (length targets)))
      \<le> (t + 1) * (length rest + growth fc (v_budget v))"
    using growth_reroute [OF reroute(5,6)] by (intro mult_le_mono2) simp
  ultimately show ?thesis
    using pw reroute e by (auto simp: fb_measure_def headroom_def)
qed

section \<open>Every run ends, after at least one attempt\<close>

definition fb_live :: "fb_view \<Rightarrow> bool" where
  "fb_live v \<longleftrightarrow> (v_attempts v > 0 \<or> v_pending v \<noteq> []) \<and> (v_ran v \<longrightarrow> v_attempts v > 0)"

lemma fb_move_live: "fb_move fc t v v' \<Longrightarrow> fb_live v \<Longrightarrow> fb_live v' \<and> v_attempts v' \<le> Suc (v_attempts v)"
  by (induction rule: fb_move.induct) (auto simp: fb_live_def)

lemma fb_measure_pos: "fb_wf v \<Longrightarrow> v_pending v \<noteq> [] \<Longrightarrow> 0 < fb_measure fc t v"
  by (cases "v_respliced v = 0") (auto simp: fb_measure_def headroom_def fb_wf_def)

lemma run_loop_total:
  assumes "fb_wf (view s)" "fb_live (view s)"
  shows "\<exists>s' r. run_loop fc env s = Some (s', r) \<and> 1 \<le> fs_attempts s' \<and>
    fs_attempts s' \<le> fs_attempts s + fb_measure fc (transport_retries env) (view s) \<and>
    (\<forall>n. r = Inl n \<longrightarrow> n = fs_attempts s')"
  using assms
proof (induction "fb_measure fc (transport_retries env) (view s)" arbitrary: s rule: less_induct)
  case less
  show ?case
  proof (cases "fs_pending s = []")
    case True
    then show ?thesis using less.prems by (auto simp: run_loop.simps [of fc env s] fb_live_def)
  next
    case False
    show ?thesis
    proof (cases "fb_step fc env s")
      case (Again s1)
      note mv = fb_step_moves [OF False Again]
      note dec = fb_move_decreases [OF mv less.prems(1)]
      have live: "fb_live (view s1)" "fs_attempts s1 \<le> Suc (fs_attempts s)"
        using fb_move_live [OF mv less.prems(2)] by simp_all
      obtain s' r where "run_loop fc env s1 = Some (s', r)" "1 \<le> fs_attempts s'"
        "fs_attempts s' \<le> fs_attempts s1 + fb_measure fc (transport_retries env) (view s1)"
        "\<forall>n. r = Inl n \<longrightarrow> n = fs_attempts s'"
        using less.hyps [OF dec fb_move_wf [OF mv less.prems(1)] live(1)] by blast
      then show ?thesis
        using False Again live(2) dec by (auto simp: run_loop.simps [of fc env s])
    next
      case (Returned s1 r)
      then show ?thesis
        using False fb_step_returns [OF Returned] fb_measure_pos [OF less.prems(1), of fc "transport_retries env"]
        by (auto simp: run_loop.simps [of fc env s] less_eq_Suc_le)
    qed
  qed
qed

text \<open>The bound: the chain's slots and the re-route budget, each with its transport retries, and every
  alternate model once.\<close>

definition attempt_bound :: "fb_class \<Rightarrow> nat \<Rightarrow> nat" where
  "attempt_bound fc t =
     (t + 1) * (nat (fc_cycles fc) * length (fc_chain fc) + growth fc (initial_budget fc))
     + untried fc (\<lambda>_. {})"

lemma transport_retries_le: "transport_retries env \<le> 2"
  by (simp add: transport_retries_def Let_def)

lemma length_rotated [simp]: "length (rotated off xs) = length xs"
proof (cases "xs = []")
  case False
  then have "nat (off mod int (length xs)) < length xs" by (simp add: nat_less_iff)
  then show ?thesis by (simp add: rotated_def Let_def)
qed (simp add: rotated_def)

lemma length_initial: "length (initial_pending fc self) = nat (fc_cycles fc) * length (fc_chain fc)"
  by (simp add: initial_pending_def length_concat sum_list_replicate)

text \<open>C11: A call of the fallback agent always ends, whatever the providers answer, however the rules
  table refers to itself and whatever the clock and the caches hold: it makes at least one and at most
  \<open>attempt_bound\<close> attempts, and the exhaustion error reports that number.\<close>

theorem run_async_terminates:
  assumes "make_fallback_agent chain cycles configs rules fallbacks = Inr fc"
  shows "\<exists>s r. run_async fc env self limited barred = Some (s, r) \<and> 1 \<le> fs_attempts s \<and>
    fs_attempts s \<le> attempt_bound fc (transport_retries env) \<and> transport_retries env \<le> 2 \<and>
    (\<forall>n. r = Inl n \<longrightarrow> n = fs_attempts s)"
proof -
  let ?s = "\<lparr>fs_self = self, fs_pending = initial_pending fc self, fs_tried = (\<lambda>_. {}), fs_used = (\<lambda>_. 0),
        fs_attempts = 0, fs_ran = False, fs_base = 0, fs_respliced = 0, fs_budget = initial_budget fc,
        fs_limited = limited, fs_barred = barred, fs_reads = 0, fs_error = None, fs_trace = []\<rparr>"
  have fc: "fc_chain fc \<noteq> []" "fc_cycles fc \<ge> 1"
    using assms by (auto simp: make_fallback_agent_def split: if_splits)
  then have "initial_pending fc self \<noteq> []"
    by (metis length_greater_0_conv length_initial mult_pos_pos zero_less_nat_eq zero_less_one order_less_le_trans)
  then have "fb_wf (view ?s)" "fb_live (view ?s)" by (simp_all add: fb_wf_def fb_live_def)
  from run_loop_total [OF this, of fc env] obtain s r where "run_loop fc env ?s = Some (s, r)"
    "1 \<le> fs_attempts s" "fs_attempts s \<le> fb_measure fc (transport_retries env) (view ?s)"
    "\<forall>n. r = Inl n \<longrightarrow> n = fs_attempts s"
    by auto
  moreover have "fb_measure fc (transport_retries env) (view ?s) = attempt_bound fc (transport_retries env)"
    by (simp add: fb_measure_def attempt_bound_def headroom_def length_initial view_def)
  ultimately show ?thesis using transport_retries_le by (simp add: run_async_def)
qed

text \<open>An instance: a rules table that sends every failure back to the first provider.\<close>

definition looping_env :: fb_env where
  "looping_env = \<lparr>fe_now = of_nat, fe_run = (\<lambda>n p kw. Run_error ''exit 1'' ''[watchdog:verbose]'' NotNumeric),
     fe_retries = None, fe_backoff = None, fe_usage_backoff = Some ''0''\<rparr>"

definition some_self :: fb_self where
  "some_self = \<lparr>fa_prompt = ''fix it'', fa_model = Some ''standard'', fa_effort = None, fa_rotate = 1,
     fa_session = None, fa_owner = None, fa_fork = False, fa_last = None\<rparr>"

definition looping_class :: fb_class where
  "looping_class = \<lparr>fc_chain = [''CodexAgent'', ''AgyAgent''], fc_cycles = 2, fc_configs = [],
     fc_rules = [(''verbose'', [''CodexAgent''])], fc_fallbacks = []\<rparr>"

theorem run_async_terminates_witness:
  "\<exists>s r. run_async looping_class looping_env some_self (\<lambda>_. None) {} = Some (s, r) \<and> 1 \<le> fs_attempts s"
proof -
  have "make_fallback_agent [''CodexAgent'', ''AgyAgent''] 2 [] [(''verbose'', [''CodexAgent''])] []
      = Inr looping_class"
    by (simp add: make_fallback_agent_def looping_class_def)
  from run_async_terminates [OF this, of looping_env some_self "\<lambda>_. None" "{}"] show ?thesis by blast
qed

section \<open>The branch taken after a failure\<close>

text \<open>Reading the fields of a state off its view.\<close>

lemma view_updates:
  "view s' = v \<longleftrightarrow> fs_pending s' = v_pending v \<and> fs_respliced s' = v_respliced v \<and> fs_base s' = v_base v \<and>
     fs_used s' = v_used v \<and> fs_budget s' = v_budget v \<and> fs_tried s' = v_tried v \<and>
     fs_attempts s' = v_attempts v \<and> fs_ran s' = v_ran v"
  by (cases v) (auto simp: view_def)

lemma may_retry_iff: "may_retry env p e s \<longleftrightarrow> is_transport_error e \<and> \<not> is_wedged_session e \<and>
    watchdog_reason_in e \<noteq> Some ''transport_stall'' \<and> fs_used s p < transport_retries env"
  by (auto simp: may_retry_def transport_failure_def)

text \<open>After a failed run exactly one of three things happens to the work list.  A transport error
  that is neither a quota wall nor an overflow nor a wedged session nor a transport stall, within
  its budget, retries the same provider and model.  Otherwise a quota wall or an inaccessible
  model puts the same provider back with a different, untried, accessible alternate model.
  Otherwise the work list is kept, behind the targets of a matching watchdog rule if the re-route
  budget is positive; a wedged or stalled provider is never run again ahead of them.\<close>

theorem after_failure_exact:
  assumes "[] \<notin> set (fallbacks_of fc p)"
  shows "let s' = on_failure fc env p ov e ra s in
    (if is_transport_error e \<and> \<not> is_wedged_session e \<and> watchdog_reason_in e \<noteq> Some ''transport_stall''
          \<and> fs_used s p < transport_retries env
     then \<not> is_usage_wall e \<and> \<not> is_context_overflow e \<and> fs_pending s' = (p, ov) # fs_pending s
       \<and> fs_used s' = (fs_used s)(p := Suc (fs_used s p))
     else fs_used s' = fs_used s \<and>
       ((\<exists>m. (is_usage_wall e \<or> is_model_unavailable e) \<and> m \<in> set (fallbacks_of fc p) \<and>
           m \<notin> fs_tried s p \<and> (p, m) \<notin> fs_barred s \<and> effective_model fc (fs_self s) p ov \<noteq> Some m \<and>
           m \<in> fs_tried s' p \<and> fs_pending s' = (p, Some m) # fs_pending s) \<or>
        (\<exists>r ts. watchdog_reason_in e = Some r \<and> map_of (fc_rules fc) r = Some ts \<and> fs_budget s > 0 \<and>
           fs_pending s' = map (\<lambda>c. (c, None)) ts @ fs_pending s \<and>
           fs_budget s' = fs_budget s - int (length ts)) \<or>
        (fs_pending s' = fs_pending s \<and> fs_budget s' = fs_budget s)))"
proof (cases rule: on_failure_cases [of env p e s fc ov ra])
  case retry
  then show ?thesis
    using classifiers_disjoint [of e]
    by (simp add: Let_def may_retry_iff view_updates)
next
  case (sibling tr m)
  then have "m \<noteq> []" using assms by auto
  with sibling show ?thesis by (auto simp: Let_def may_retry_iff view_updates)
next
  case (reroute tr r targets)
  then show ?thesis by (auto simp: Let_def may_retry_iff view_updates)
next
  case (plain tr)
  then show ?thesis by (auto simp: Let_def may_retry_iff view_updates)
qed

theorem after_failure_exact_witness:
  "fs_pending (on_failure looping_class looping_env ''CodexAgent'' None ''connection reset'' NotNumeric
     \<lparr>fs_self = some_self, fs_pending = [(''AgyAgent'', None)], fs_tried = (\<lambda>_. {}), fs_used = (\<lambda>_. 0),
      fs_attempts = 1, fs_ran = True, fs_base = 1, fs_respliced = 0, fs_budget = 4,
      fs_limited = (\<lambda>_. None), fs_barred = {}, fs_reads = 0, fs_error = None, fs_trace = []\<rparr>)
   = [(''CodexAgent'', None), (''AgyAgent'', None)]"
proof -
  have c: "is_transport_error ''connection reset'' \<and> \<not> is_wedged_session ''connection reset'' \<and>
      watchdog_reason_in ''connection reset'' \<noteq> Some ''transport_stall''"
    by code_simp
  have t: "transport_retries looping_env = 2" by code_simp
  show ?thesis
    using after_failure_exact [of looping_class "''CodexAgent''" looping_env None "''connection reset''" NotNumeric]
    by (simp add: c t Let_def fallbacks_of_def looping_class_def)
qed

section \<open>The rate-limit cache\<close>

text \<open>A recorded rate limit holds exactly until its reset time: a lookup says limited iff the clock
  reads earlier, a lookup that finds the window over removes the entry so that no later lookup is
  limited, other models are not affected, and a reset time that is absent, not a number, not
  finite or not positive is never cached.\<close>

theorem rate_limit_window:
  fixes s :: fb_state and p :: provider
  assumes "m \<noteq> []" "ra > 0"
  defines "s1 \<equiv> record_rate_limited p (Some m) (Finite ra) s"
  shows "fst (is_rate_limited env p (Some m) s1) = (fe_now env (fs_reads s) < ra) \<and>
    (\<not> fst (is_rate_limited env p (Some m) s1) \<longrightarrow>
       (\<forall>env'. \<not> fst (is_rate_limited env' p (Some m) (snd (is_rate_limited env p (Some m) s1))))) \<and>
    (\<forall>q k. (q, k) \<noteq> (p, m) \<longrightarrow>
       fst (is_rate_limited env q (Some k) s1) = fst (is_rate_limited env q (Some k) s)) \<and>
    (\<forall>x. (case x of Finite r \<Rightarrow> r \<le> 0 | _ \<Rightarrow> True) \<longrightarrow> record_rate_limited p (Some m) x s = s)"
  using assms
  by (auto simp: is_rate_limited_def record_rate_limited_def truthy_str_def Let_def
      split: epoch.splits option.splits)

theorem rate_limit_window_witness:
  "fst (is_rate_limited looping_env ''CodexAgent'' (Some ''spark'')
     (record_rate_limited ''CodexAgent'' (Some ''spark'') (Finite 10)
       \<lparr>fs_self = some_self, fs_pending = [], fs_tried = (\<lambda>_. {}), fs_used = (\<lambda>_. 0), fs_attempts = 0,
        fs_ran = False, fs_base = 0, fs_respliced = 0, fs_budget = 0, fs_limited = (\<lambda>_. None),
        fs_barred = {}, fs_reads = 4, fs_error = None, fs_trace = []\<rparr>))"
  by (subst rate_limit_window [THEN conjunct1]) (simp_all add: looping_env_def)

section \<open>Warm sessions\<close>

lemma map_of_fold_update:
  "k \<notin> fst ` set xs \<Longrightarrow>
   map_of (fold (\<lambda>(a, v) kw. if P a then kw else AList.update a v kw) xs kw) k = map_of kw k"
  by (induction xs arbitrary: kw) (auto simp: update_conv')

text \<open>A session identifier is only ever handed to the provider that produced it: after a success of
  one provider, the arguments of the next sub-agent carry that identifier exactly when it is the
  same session-capable provider, unless the provider's own configuration sets the key.\<close>

theorem session_stays_with_owner:
  assumes "sid \<noteq> []" "''session_id'' \<notin> fst ` set (cfg_of fc q)"
  shows "map_of (sub_kwargs fc (fs_self (on_success p (Some sid) s)) q ov) ''session_id''
    = (if q = p \<and> q \<in> set session_capable then Some (PStr sid) else None)"
  using assms
  by (cases "q = p") (simp_all add: sub_kwargs_def on_success_def truthy_str_def Let_def update_conv'
      map_of_fold_update)

theorem session_stays_with_owner_witness:
  "map_of (sub_kwargs looping_class (fs_self (on_success ''ClaudeAgent'' (Some ''s1'')
     \<lparr>fs_self = some_self, fs_pending = [], fs_tried = (\<lambda>_. {}), fs_used = (\<lambda>_. 0), fs_attempts = 0,
        fs_ran = False, fs_base = 0, fs_respliced = 0, fs_budget = 0, fs_limited = (\<lambda>_. None),
        fs_barred = {}, fs_reads = 4, fs_error = None, fs_trace = []\<rparr>)) ''GrokAgent'' None) ''session_id'' = None"
  by (subst session_stays_with_owner) (simp_all add: cfg_of_def looping_class_def)

text \<open>A model that was recorded as inaccessible stays the provider's lead model: the next entry of the
  chain that resolves to it is attempted again, since only the choice of an alternate consults the
  record.\<close>

lemma barred_lead_attempted:
  assumes "fs_pending s = (p, None) # rest"
    and "effective_model fc (fs_self s) p None = Some m" "(p, m) \<in> fs_barred s" "fs_limited s (p, m) = None"
  shows "fb_step fc env s =
    attempt fc env p None (account_pop (length (fc_chain fc)) (s\<lparr>fs_pending := rest\<rparr>))"
proof -
  let ?s = "account_pop (length (fc_chain fc)) (s\<lparr>fs_pending := rest\<rparr>)"
  have "fs_limited ?s = fs_limited s" "fs_self ?s = fs_self s" by (simp_all add: account_pop_def)
  then have "is_rate_limited env p (effective_model fc (fs_self ?s) p None) ?s = (False, ?s)"
    using assms(2,4) by (auto simp: is_rate_limited_def truthy_str_def split: option.splits)
  then show ?thesis by (simp add: fb_step_def assms(1) skip_walled_def Let_def)
qed

end
