(* ===== verification/Job_Queue.thy ===== *)
theory Job_Queue
  imports Py_Prelude "HOL-Library.AList" "HOL-Library.List_Lexorder"
begin

text \<open>
  \<^verbatim>\<open>harness/job_queue.py\<close>: the persistent queue of builds.  A queue is the dictionary of jobs, the
  contents of its file (\<open>None\<close> when missing) and the counters behind fresh ids and clock readings.
  The file holds a JSON value; writing it is atomic, and reading text that is not JSON is
  \<open>Unreadable\<close>.  Ids are strings: a record with another id is treated as malformed.
\<close>

section \<open>Jobs\<close>

record job =
  j_id :: string
  j_instruction :: pyval
  j_kwargs :: pydict
  j_status :: pyval
  j_submitted :: rat
  j_started :: pyval
  j_finished :: pyval
  j_run :: pyval
  j_pools :: "pyval list"
  j_result :: pyval

definition job_to_dict :: "job \<Rightarrow> pydict" where
  "job_to_dict j =
     [(''id'', PStr (j_id j)), (''instruction'', j_instruction j), (''kwargs'', PDict (j_kwargs j)),
      (''status'', j_status j), (''submitted_at'', PFloat (j_submitted j)), (''started_at'', j_started j),
      (''finished_at'', j_finished j), (''run_id'', j_run j), (''pools'', PList (j_pools j)),
      (''result'', j_result j)]"

text \<open>\<open>float(v or 0.0)\<close>, \<open>dict(v or {})\<close> and \<open>list(v or [])\<close>; \<open>None\<close> is the exception that skips a record.\<close>

definition float_or_zero :: "pyval \<Rightarrow> rat option" where
  "float_or_zero v = (if \<not> truthy v then Some 0 else case v of
       PBool b \<Rightarrow> Some 1 | PInt i \<Rightarrow> Some (of_int i) | PFloat q \<Rightarrow> Some q | PStr s \<Rightarrow> py_float s | _ \<Rightarrow> None)"

definition dict_or_empty :: "pyval \<Rightarrow> pydict option" where
  "dict_or_empty v = (if truthy v then dict_opt v else Some [])"

definition list_or_empty :: "pyval \<Rightarrow> pyval list option" where
  "list_or_empty v = (if \<not> truthy v then Some [] else case v of
       PList xs \<Rightarrow> Some xs | PStr s \<Rightarrow> Some (map (\<lambda>c. PStr [c]) s) | PDict d \<Rightarrow> Some (map (\<lambda>(k, v). PStr k) d)
     | _ \<Rightarrow> None)"

definition job_from_dict :: "pyval \<Rightarrow> job option" where
  "job_from_dict v = (case dict_opt v of None \<Rightarrow> None | Some d \<Rightarrow>
     (case (str_opt (dget d ''id''), dict_or_empty (dget d ''kwargs''), float_or_zero (dget d ''submitted_at''),
            list_or_empty (dget d ''pools'')) of
        (Some i, Some kw, Some sub, Some pools) \<Rightarrow>
          Some \<lparr>j_id = i, j_instruction = dget_or d ''instruction'' (PStr []), j_kwargs = kw,
            j_status = dget_or d ''status'' (PStr ''queued''), j_submitted = sub,
            j_started = dget d ''started_at'', j_finished = dget d ''finished_at'',
            j_run = dget d ''run_id'', j_pools = pools, j_result = dget d ''result''\<rparr>
      | _ \<Rightarrow> None))"

abbreviation queued :: pyval where "queued \<equiv> PStr ''queued''"
abbreviation running :: pyval where "running \<equiv> PStr ''running''"

definition terminal :: "pyval \<Rightarrow> bool" where
  "terminal s = (s \<in> {PStr ''done'', PStr ''failed'', PStr ''canceled''})"

section \<open>Fresh ids\<close>

fun pad :: "nat \<Rightarrow> nat \<Rightarrow> string" where
  "pad 0 n = []"
| "pad (Suc w) n = pad w (n div 10) @ [digit_char (n mod 10)]"

text \<open>\<open>%0wd\<close>: a number too wide for its field keeps all its digits.\<close>

definition zero_padded :: "nat \<Rightarrow> nat \<Rightarrow> string" where
  "zero_padded w n = (if n < 10 ^ w then pad w n else show_nat n)"

text \<open>The local-time stamp of a second is a parameter.\<close>

definition new_job_id :: "(nat \<Rightarrow> string) \<Rightarrow> nat \<Rightarrow> nat \<Rightarrow> string" where
  "new_job_id stamp ns c =
     (let ms = ns div 1000000
      in stamp (ms div 1000) @ ''-'' @ zero_padded 3 (ms mod 1000) @ ''-'' @ zero_padded 12 c)"

section \<open>The queue\<close>

record clock =
  ck_stamp :: "nat \<Rightarrow> string"
  ck_ns :: "nat \<Rightarrow> nat"
  ck_time :: "nat \<Rightarrow> rat"

record jqueue =
  q_jobs :: "(string \<times> job) list"
  q_file :: "filetext option"
  q_counter :: nat
  q_reads :: nat

definition ordered :: "jqueue \<Rightarrow> job list" where
  "ordered q = map (\<lambda>k. the (map_of (q_jobs q) k)) (sort (map fst (q_jobs q)))"

definition payload :: "jqueue \<Rightarrow> pyval" where
  "payload q = PDict [(''jobs'', PList (map (\<lambda>j. PDict (job_to_dict j)) (ordered q)))]"

definition persist :: "jqueue \<Rightarrow> jqueue" where
  "persist q = q\<lparr>q_file := Some (Json (payload q))\<rparr>"

text \<open>Loading: a job that was running is queued again.\<close>

definition requeue :: "job \<Rightarrow> job" where
  "requeue j = (if j_status j = running
     then j\<lparr>j_status := queued, j_started := PNone, j_run := PNone\<rparr> else j)"

definition records_of :: "pyval \<Rightarrow> pyval list option" where
  "records_of v = (case v of
       PDict d \<Rightarrow> (case map_of d ''jobs'' of None \<Rightarrow> None | Some r \<Rightarrow> list_opt r)
     | _ \<Rightarrow> list_opt v)"

definition load_records :: "pyval list \<Rightarrow> (string \<times> job) list" where
  "load_records recs = fold (\<lambda>r jobs. case job_from_dict r of None \<Rightarrow> jobs
     | Some j \<Rightarrow> AList.update (j_id j) (requeue j) jobs) recs []"

definition load :: "jqueue \<Rightarrow> jqueue" where
  "load q = q\<lparr>q_jobs := (case q_file q of
       Some (Json v) \<Rightarrow> (case records_of v of None \<Rightarrow> [] | Some recs \<Rightarrow> load_records recs)
     | _ \<Rightarrow> [])\<rparr>"

text \<open>One id is minted per pass; a pass collides only with an id that is already in the queue, so
  one pass more than there are jobs is enough fuel.\<close>

fun mint_id :: "clock \<Rightarrow> nat \<Rightarrow> jqueue \<Rightarrow> string \<times> jqueue" where
  "mint_id ck 0 q = ([], q)"
| "mint_id ck (Suc n) q =
     (let i = new_job_id (ck_stamp ck) (ck_ns ck (q_reads q)) (q_counter q);
          q1 = q\<lparr>q_counter := Suc (q_counter q), q_reads := Suc (q_reads q)\<rparr>
      in if map_of (q_jobs q) i = None then (i, q1) else mint_id ck n q1)"

definition put_job :: "job \<Rightarrow> jqueue \<Rightarrow> jqueue" where
  "put_job j q = q\<lparr>q_jobs := AList.update (j_id j) j (q_jobs q)\<rparr>"

definition submit :: "clock \<Rightarrow> pyval \<Rightarrow> pydict \<Rightarrow> pyval list \<Rightarrow> jqueue \<Rightarrow> job \<times> jqueue" where
  "submit ck instruction kwargs pools q =
     (let (i, q1) = mint_id ck (Suc (length (q_jobs q))) q;
          j = \<lparr>j_id = i, j_instruction = instruction, j_kwargs = kwargs, j_status = queued,
               j_submitted = ck_time ck (q_reads q1), j_started = PNone, j_finished = PNone,
               j_run = PNone, j_pools = pools, j_result = PNone\<rparr>
      in (j, persist (put_job j (q1\<lparr>q_reads := Suc (q_reads q1)\<rparr>))))"

text \<open>\<open>set(job.pools)\<close> raises for a pool that cannot be hashed; the scan stops there, unless a job before it
  was found.\<close>

fun unhashable :: "pyval \<Rightarrow> bool" where
  "unhashable (PList xs) = True"
| "unhashable (PDict d) = True"
| "unhashable _ = False"

definition disjoint_pools :: "pyval list \<Rightarrow> job \<Rightarrow> pyexn + bool" where
  "disjoint_pools active j =
     (if list_ex unhashable (j_pools j) then Inl TypeError
      else Inr (list_all (\<lambda>p. p \<notin> set active) (j_pools j)))"

fun scan_jobs :: "pyval list \<Rightarrow> job list \<Rightarrow> pyexn + job option" where
  "scan_jobs active [] = Inr None"
| "scan_jobs active (j # js) =
     (if j_status j \<noteq> queued then scan_jobs active js
      else ebind (disjoint_pools active j) (\<lambda>d. if d then Inr (Some j) else scan_jobs active js))"

definition next_runnable :: "pyval list \<Rightarrow> jqueue \<Rightarrow> pyexn + job option" where
  "next_runnable active q = scan_jobs active (ordered q)"

definition oldest_queued :: "jqueue \<Rightarrow> job option" where
  "oldest_queued q = find (\<lambda>j. j_status j = queued) (ordered q)"

text \<open>A mutation of one job, stamped with the time; unknown ids are ignored.\<close>

definition update_job :: "clock \<Rightarrow> string \<Rightarrow> (rat \<Rightarrow> job \<Rightarrow> job) \<Rightarrow> jqueue \<Rightarrow> jqueue" where
  "update_job ck i f q = (case map_of (q_jobs q) i of
       None \<Rightarrow> q
     | Some j \<Rightarrow> persist (q\<lparr>q_jobs := AList.update i (f (ck_time ck (q_reads q)) j) (q_jobs q),
                            q_reads := Suc (q_reads q)\<rparr>))"

definition mark_running :: "clock \<Rightarrow> string \<Rightarrow> pyval \<Rightarrow> jqueue \<Rightarrow> jqueue" where
  "mark_running ck i run_id =
     update_job ck i (\<lambda>t j. j\<lparr>j_status := running, j_started := PFloat t, j_run := run_id\<rparr>)"

definition mark_done :: "clock \<Rightarrow> string \<Rightarrow> pyval \<Rightarrow> jqueue \<Rightarrow> jqueue" where
  "mark_done ck i result =
     update_job ck i (\<lambda>t j.
       let j1 = j\<lparr>j_status := PStr ''done'', j_finished := PFloat t, j_result := result\<rparr> in
       (case dict_opt result of
          Some d \<Rightarrow> if truthy (dget d ''run_id'') \<and> \<not> truthy (j_run j)
                    then j1\<lparr>j_run := dget d ''run_id''\<rparr> else j1
        | None \<Rightarrow> j1))"

definition mark_failed :: "clock \<Rightarrow> string \<Rightarrow> string \<Rightarrow> jqueue \<Rightarrow> jqueue" where
  "mark_failed ck i error =
     update_job ck i (\<lambda>t j. j\<lparr>j_status := PStr ''failed'', j_finished := PFloat t,
       j_result := PDict [(''success'', PBool False), (''error'', PStr error), (''run_id'', j_run j)]\<rparr>)"

definition cancel_job :: "clock \<Rightarrow> string \<Rightarrow> jqueue \<Rightarrow> bool \<times> jqueue" where
  "cancel_job ck i q = (case map_of (q_jobs q) i of
       None \<Rightarrow> (False, q)
     | Some j \<Rightarrow> if j_status j \<noteq> queued then (False, q)
         else (True, update_job ck i (\<lambda>t j. j\<lparr>j_status := PStr ''canceled'', j_finished := PFloat t\<rparr>) q))"

definition get_job :: "jqueue \<Rightarrow> string \<Rightarrow> job option" where
  "get_job q i = map_of (q_jobs q) i"

definition snapshot :: "jqueue \<Rightarrow> pydict list" where
  "snapshot q =
     (let active = (\<lambda>j. j_status j = queued \<or> j_status j = running)
      in map job_to_dict (filter active (ordered q) @ filter (\<lambda>j. \<not> active j) (ordered q)))"

section \<open>Well-formed queues\<close>

definition queue_ok :: "jqueue \<Rightarrow> bool" where
  "queue_ok q \<longleftrightarrow> distinct (map fst (q_jobs q)) \<and> (\<forall>(k, j) \<in> set (q_jobs q). j_id j = k)"

lemma queue_ok_map_of: "queue_ok q \<Longrightarrow> map_of (q_jobs q) k = Some j \<Longrightarrow> j_id j = k"
  by (auto simp: queue_ok_def dest: map_of_SomeD)

lemma queue_ok_update:
  assumes "queue_ok q" "j_id j = k" "q_jobs q' = AList.update k j (q_jobs q)"
  shows "queue_ok q'"
  unfolding queue_ok_def
proof (intro conjI ballI, goal_cases)
  case 1
  show ?case using assms(1,3) by (simp add: queue_ok_def distinct_update)
next
  case (2 x)
  have "distinct (map fst (q_jobs q'))" using assms(1,3) by (simp add: queue_ok_def distinct_update)
  then have m: "map_of (q_jobs q') (fst x) = Some (snd x)" using 2 by (intro map_of_is_SomeI) simp_all
  then have "(if fst x = k then Some j else map_of (q_jobs q) (fst x)) = Some (snd x)"
    by (simp add: assms(3) update_conv')
  then have "j_id (snd x) = fst x"
    using assms(2) queue_ok_map_of [OF assms(1)] by (auto split: if_splits)
  then show ?case by (cases x) simp
qed

lemma persist_simps [simp]:
  "q_jobs (persist q) = q_jobs q" "queue_ok (persist q) = queue_ok q" "ordered (persist q) = ordered q"
  "q_file (persist q) = Some (Json (payload q))" "payload (persist q) = payload q"
  by (simp_all add: persist_def queue_ok_def ordered_def payload_def)

lemma set_ordered: "queue_ok q \<Longrightarrow> j \<in> set (ordered q) \<longleftrightarrow> map_of (q_jobs q) (j_id j) = Some j"
proof
  assume ok: "queue_ok q" and "j \<in> set (ordered q)"
  then obtain k where k: "k \<in> fst ` set (q_jobs q)" "j = the (map_of (q_jobs q) k)"
    by (auto simp: ordered_def)
  then obtain j' where "map_of (q_jobs q) k = Some j'" by (metis map_of_eq_None_iff option.exhaust)
  with k queue_ok_map_of [OF ok] show "map_of (q_jobs q) (j_id j) = Some j" by fastforce
next
  assume m: "map_of (q_jobs q) (j_id j) = Some j"
  then have "j_id j \<in> fst ` set (q_jobs q)" by (metis map_of_eq_None_iff option.distinct(1))
  then show "j \<in> set (ordered q)" using m by (force simp: ordered_def)
qed

lemma ordered_ids: "queue_ok q \<Longrightarrow> map j_id (ordered q) = sort (map fst (q_jobs q))"
proof -
  assume ok: "queue_ok q"
  have "j_id (the (map_of (q_jobs q) k)) = k" if "k \<in> fst ` set (q_jobs q)" for k
    using that queue_ok_map_of [OF ok] by (metis map_of_eq_None_iff option.collapse)
  then show ?thesis unfolding ordered_def map_map by (intro map_idI) simp
qed

lemma ordered_sorted: "queue_ok q \<Longrightarrow> sorted (map j_id (ordered q)) \<and> distinct (map j_id (ordered q))"
  by (simp add: ordered_ids queue_ok_def)

section \<open>Crash recovery\<close>

text \<open>The mutations that persist.\<close>

inductive q_op :: "clock \<Rightarrow> jqueue \<Rightarrow> jqueue \<Rightarrow> bool" for ck where
  q_submit: "q_op ck q (snd (submit ck ins kw pools q))"
| q_running: "map_of (q_jobs q) i = Some j \<Longrightarrow> q_op ck q (mark_running ck i r q)"
| q_done: "map_of (q_jobs q) i = Some j \<Longrightarrow> q_op ck q (mark_done ck i r q)"
| q_failed: "map_of (q_jobs q) i = Some j \<Longrightarrow> q_op ck q (mark_failed ck i e q)"
| q_cancel: "cancel_job ck i q = (True, q') \<Longrightarrow> q_op ck q q'"

inductive_cases q_opE: "q_op ck q q'"

definition file_current :: "jqueue \<Rightarrow> bool" where
  "file_current q = (q_file q = Some (Json (payload q)))"

lemma payload_cong: "q_jobs q = q_jobs q' \<Longrightarrow> payload q = payload q'"
  by (simp add: payload_def ordered_def)

lemma file_current_persist [simp]: "file_current (persist q)"
  by (simp add: file_current_def)

lemma update_job_ok:
  assumes "queue_ok q" "\<And>t j. j_id (f t j) = j_id j"
  shows "queue_ok (update_job ck i f q) \<and> (map_of (q_jobs q) i \<noteq> None \<longrightarrow> file_current (update_job ck i f q))"
proof (cases "map_of (q_jobs q) i")
  case (Some j)
  have "queue_ok (update_job ck i f q)"
    by (rule queue_ok_update [OF assms(1), of "f (ck_time ck (q_reads q)) j" i])
      (simp_all add: update_job_def Some assms(2) queue_ok_map_of [OF assms(1) Some])
  then show ?thesis by (simp add: update_job_def Some)
qed (simp add: update_job_def assms(1))

lemma mint_id_jobs: "mint_id ck n q = (i, q') \<Longrightarrow> q_jobs q' = q_jobs q"
  by (induction ck n q rule: mint_id.induct) (auto simp: Let_def split: if_splits)

lemma submit_ok:
  assumes "queue_ok q" "submit ck ins kw pools q = (j, q')"
  shows "queue_ok q' \<and> file_current q' \<and> q_jobs q' = AList.update (j_id j) j (q_jobs q)"
proof -
  obtain i q1 where m: "mint_id ck (Suc (length (q_jobs q))) q = (i, q1)" by fastforce
  note qj = mint_id_jobs [OF m]
  from assms(2) m have q': "q' = persist (put_job j (q1\<lparr>q_reads := Suc (q_reads q1)\<rparr>))"
    by (auto simp: submit_def Let_def simp del: mint_id.simps)
  then have jobs: "q_jobs q' = AList.update (j_id j) j (q_jobs q)" by (simp add: put_job_def qj)
  then show ?thesis using queue_ok_update [OF assms(1) refl jobs] q' by simp
qed

lemma q_op_ok:
  assumes "q_op ck q q'" "queue_ok q"
  shows "queue_ok q' \<and> file_current q'"
  using assms(1)
proof (cases rule: q_op.cases)
  case (q_submit ins kw pools)
  then show ?thesis using submit_ok [OF assms(2)] by (metis prod.collapse)
next
  case (q_running i j r)
  then show ?thesis using update_job_ok [OF assms(2)] by (simp add: mark_running_def)
next
  case (q_done i j r)
  have "j_id (let j1 = j\<lparr>j_status := PStr ''done'', j_finished := PFloat t, j_result := r\<rparr> in
       (case dict_opt r of
          Some d \<Rightarrow> if truthy (dget d ''run_id'') \<and> \<not> truthy (j_run j)
                    then j1\<lparr>j_run := dget d ''run_id''\<rparr> else j1
        | None \<Rightarrow> j1)) = j_id j" for t j
    by (simp add: Let_def split: option.splits)
  from update_job_ok [OF assms(2), of "\<lambda>t j. let j1 = j\<lparr>j_status := PStr ''done'', j_finished := PFloat t, j_result := r\<rparr> in
       (case dict_opt r of
          Some d \<Rightarrow> if truthy (dget d ''run_id'') \<and> \<not> truthy (j_run j)
                    then j1\<lparr>j_run := dget d ''run_id''\<rparr> else j1
        | None \<Rightarrow> j1)", OF this]
  show ?thesis using q_done by (simp add: mark_done_def)
next
  case (q_failed i j e)
  then show ?thesis using update_job_ok [OF assms(2)] by (simp add: mark_failed_def)
next
  case (q_cancel i)
  then obtain j where "map_of (q_jobs q) i = Some j"
    "q' = update_job ck i (\<lambda>t j. j\<lparr>j_status := PStr ''canceled'', j_finished := PFloat t\<rparr>) q"
    by (auto simp: cancel_job_def split: option.splits if_splits)
  then show ?thesis using update_job_ok [OF assms(2)] by simp
qed

lemma job_roundtrip: "job_from_dict (PDict (job_to_dict j)) = Some j"
  by (cases "j_pools j"; cases "j_kwargs j")
    (simp_all add: job_from_dict_def job_to_dict_def dict_or_empty_def float_or_zero_def list_or_empty_def)

lemma map_of_load_records:
  assumes "distinct (map j_id js)"
  shows "map_of (load_records (map (\<lambda>j. PDict (job_to_dict j)) js)) = map_of (map (\<lambda>j. (j_id j, requeue j)) js)"
proof -
  have "map_of (fold (\<lambda>r jobs. case job_from_dict r of None \<Rightarrow> jobs
       | Some j \<Rightarrow> AList.update (j_id j) (requeue j) jobs) (map (\<lambda>j. PDict (job_to_dict j)) js) acc)
     = map_of acc ++ map_of (map (\<lambda>j. (j_id j, requeue j)) js)" for acc
    using assms
  proof (induction js arbitrary: acc)
    case (Cons j js)
    then have "j_id j \<notin> dom (map_of (map (\<lambda>j. (j_id j, requeue j)) js))"
      by (auto simp: dom_map_of_conv_image_fst)
    then have eq: "(map_of acc)(j_id j \<mapsto> requeue j) ++ map_of (map (\<lambda>j. (j_id j, requeue j)) js)
        = map_of acc ++ map_of (map (\<lambda>j. (j_id j, requeue j)) (j # js))"
      by (auto simp: map_add_def fun_eq_iff domIff split: option.splits)
    have ih: "distinct (map j_id js)" using Cons.prems by simp
    show ?case
      unfolding eq [symmetric] update_conv' [symmetric] Cons.IH [OF ih, symmetric] by (simp add: job_roundtrip)
  qed simp
  then show ?thesis by (simp add: load_records_def)
qed

lemma load_current:
  assumes "queue_ok q" "file_current q"
  shows "map_of (q_jobs (load q)) k = map_option requeue (map_of (q_jobs q) k)"
proof -
  have "map_of (q_jobs (load q)) = map_of (map (\<lambda>j. (j_id j, requeue j)) (ordered q))"
    using assms(2) map_of_load_records [of "ordered q"] ordered_sorted [OF assms(1)]
    by (simp add: load_def file_current_def payload_def records_of_def)
  then have "map_of (q_jobs (load q)) k = map_of (map (\<lambda>j. (j_id j, requeue j)) (ordered q)) k" by simp
  also have "\<dots> = map_option requeue (map_of (q_jobs q) k)"
  proof (cases "map_of (q_jobs q) k")
    case None
    then have "k \<notin> j_id ` set (ordered q)" using set_ordered [OF assms(1)] by fastforce
    then have "map_of (map (\<lambda>j. (j_id j, requeue j)) (ordered q)) k = None"
      by (simp add: map_of_eq_None_iff image_image)
    with None show ?thesis by simp
  next
    case (Some j)
    then have "(k, requeue j) \<in> set (map (\<lambda>j. (j_id j, requeue j)) (ordered q))"
      using set_ordered [OF assms(1), of j] queue_ok_map_of [OF assms(1) Some] by force
    then have "map_of (map (\<lambda>j. (j_id j, requeue j)) (ordered q)) k = Some (requeue j)"
      using ordered_sorted [OF assms(1)] by (intro map_of_is_SomeI) (simp_all add: comp_def)
    with Some show ?thesis by simp
  qed
  finally show ?thesis .
qed

text \<open>C18: A crash loses nothing: after any submission, start, completion, failure or cancellation the
  queue stays well formed and reading the file back gives every job with every field, except that a
  running job is queued again without its start time and run id.\<close>

theorem crash_recovery:
  assumes "queue_ok q" "q_op ck q q'"
  shows "queue_ok q' \<and> (\<forall>k. map_of (q_jobs (load q')) k = map_option (\<lambda>j. if j_status j = running
           then j\<lparr>j_status := queued, j_started := PNone, j_run := PNone\<rparr> else j) (map_of (q_jobs q') k))"
  using q_op_ok [OF assms(2,1)] load_current [unfolded requeue_def [abs_def]] by blast

definition sample_clock :: clock where
  "sample_clock = \<lparr>ck_stamp = (\<lambda>s. ''20260101-000000''), ck_ns = (\<lambda>n. n), ck_time = of_nat\<rparr>"

definition empty_queue :: jqueue where
  "empty_queue = \<lparr>q_jobs = [], q_file = None, q_counter = 0, q_reads = 0\<rparr>"

theorem crash_recovery_witness:
  "queue_ok (snd (submit sample_clock (PStr ''build'') [] [PStr ''codex''] empty_queue))"
proof -
  have "queue_ok empty_queue" by (simp add: queue_ok_def empty_queue_def)
  from crash_recovery [OF this q_submit] show ?thesis by blast
qed

section \<open>Ordering\<close>

lemma find_sorted_least:
  assumes "sorted (map f xs)" "distinct (map f xs)"
  shows "find P xs = Some x \<longleftrightarrow> x \<in> set xs \<and> P x \<and> (\<forall>y \<in> set xs. P y \<longrightarrow> f x \<le> f y)"
proof
  assume "find P xs = Some x"
  then obtain i where i: "i < length xs" "P (xs ! i)" "x = xs ! i" "\<And>j. j < i \<Longrightarrow> \<not> P (xs ! j)"
    by (auto simp: find_Some_iff)
  have "f x \<le> f (xs ! k)" if "k < length xs" "P (xs ! k)" for k
    using sorted_nth_mono [OF assms(1), of i k] i that by (metis length_map linorder_not_less nth_map)
  then show "x \<in> set xs \<and> P x \<and> (\<forall>y \<in> set xs. P y \<longrightarrow> f x \<le> f y)"
    using i by (auto simp: in_set_conv_nth)
next
  assume r: "x \<in> set xs \<and> P x \<and> (\<forall>y \<in> set xs. P y \<longrightarrow> f x \<le> f y)"
  then obtain i where i: "i < length xs" "x = xs ! i" by (auto simp: in_set_conv_nth)
  have "\<not> P (xs ! j)" if "j < i" for j
  proof
    assume "P (xs ! j)"
    then have "f x \<le> f (xs ! j)" using r that i by simp
    moreover have "f (xs ! j) \<le> f x"
      using sorted_nth_mono [OF assms(1), of j i] that i by simp
    ultimately have "map f xs ! j = map f xs ! i" using that i by simp
    then show False using nth_eq_iff_index_eq [OF assms(2), of j i] that i by simp
  qed
  with r i show "find P xs = Some x" by (auto simp: find_Some_iff)
qed

lemma all_ordered:
  assumes "queue_ok q"
  shows "(\<forall>k \<in> set (ordered q). R (j_id k) k) \<longleftrightarrow> (\<forall>i k. map_of (q_jobs q) i = Some k \<longrightarrow> R i k)"
proof (intro iffI allI ballI impI)
  fix i k assume r: "\<forall>k \<in> set (ordered q). R (j_id k) k" and m: "map_of (q_jobs q) i = Some k"
  have "j_id k = i" by (rule queue_ok_map_of [OF assms m])
  with r m set_ordered [OF assms, of k] show "R i k" by auto
next
  fix k assume r: "\<forall>i k. map_of (q_jobs q) i = Some k \<longrightarrow> R i k" and "k \<in> set (ordered q)"
  then show "R (j_id k) k" using set_ordered [OF assms, of k] by simp
qed

lemma find_ordered:
  assumes "queue_ok q"
  shows "find P (ordered q) = Some j \<longleftrightarrow> map_of (q_jobs q) (j_id j) = Some j \<and> P j \<and>
      (\<forall>i k. map_of (q_jobs q) i = Some k \<longrightarrow> P k \<longrightarrow> j_id j \<le> i)"
    and "find P (ordered q) = None \<longleftrightarrow> (\<forall>i k. map_of (q_jobs q) i = Some k \<longrightarrow> \<not> P k)"
proof -
  show "find P (ordered q) = Some j \<longleftrightarrow> map_of (q_jobs q) (j_id j) = Some j \<and> P j \<and>
      (\<forall>i k. map_of (q_jobs q) i = Some k \<longrightarrow> P k \<longrightarrow> j_id j \<le> i)"
    using ordered_sorted [OF assms] all_ordered [OF assms, of "\<lambda>i k. P k \<longrightarrow> j_id j \<le> i"]
    by (simp add: find_sorted_least [where f = j_id] set_ordered [OF assms, of j])
  show "find P (ordered q) = None \<longleftrightarrow> (\<forall>i k. map_of (q_jobs q) i = Some k \<longrightarrow> \<not> P k)"
    using all_ordered [OF assms, of "\<lambda>i k. \<not> P k"] by (auto simp: find_None_iff)
qed

lemma scan_jobs_find:
  "scan_jobs active js = Inr r \<Longrightarrow> find (\<lambda>j. j_status j = queued \<and> set (j_pools j) \<inter> set active = {}) js = r"
  by (induction js) (auto simp: disjoint_pools_def ebind_iffs list_all_iff split: if_splits)

lemma scan_jobs_raises:
  "scan_jobs active js = Inl e \<Longrightarrow> e = TypeError \<and> (\<exists>j \<in> set js. j_status j = queued \<and> list_ex unhashable (j_pools j))"
  by (induction js) (auto simp: disjoint_pools_def ebind_iffs split: if_splits)

lemma scan_jobs_total:
  "\<forall>j \<in> set js. j_status j = queued \<longrightarrow> \<not> list_ex unhashable (j_pools j) \<Longrightarrow> \<exists>r. scan_jobs active js = Inr r"
  by (induction js) (auto simp: disjoint_pools_def)

text \<open>The next runnable job is the queued job with the least id among those whose pools are all free,
  and there is none exactly when every queued job needs an occupied pool; when every pool can be hashed nothing is raised.\<close>

theorem next_runnable_fifo:
  assumes "queue_ok q" "next_runnable active q = Inr r"
  shows "(\<forall>j. r = Some j \<longleftrightarrow>
      map_of (q_jobs q) (j_id j) = Some j \<and> j_status j = queued \<and> set (j_pools j) \<inter> set active = {} \<and>
      (\<forall>i k. map_of (q_jobs q) i = Some k \<and> j_status k = queued \<and> set (j_pools k) \<inter> set active = {}
         \<longrightarrow> j_id j \<le> i)) \<and>
    (r = None \<longleftrightarrow>
      (\<forall>i k. map_of (q_jobs q) i = Some k \<and> j_status k = queued \<longrightarrow> set (j_pools k) \<inter> set active \<noteq> {}))"
  unfolding scan_jobs_find [OF assms(2) [unfolded next_runnable_def], symmetric] find_ordered [OF assms(1)]
  by (intro conjI allI) blast+

lemma next_runnable_raises:
  assumes "queue_ok q" "next_runnable active q = Inl e"
  shows "\<exists>i k. map_of (q_jobs q) i = Some k \<and> j_status k = queued \<and> list_ex unhashable (j_pools k)"
  using scan_jobs_raises [OF assms(2) [unfolded next_runnable_def]] set_ordered [OF assms(1)] by blast

lemma digit_char_less: "a < b \<Longrightarrow> b < 10 \<Longrightarrow> digit_char a < digit_char b"
  by (simp add: less_char_def of_digit_char)

lemma length_pad [simp]: "length (pad w n) = w"
  by (induction w arbitrary: n) auto

lemma less_append_left: "(xs :: string) < ys \<Longrightarrow> length xs = length ys \<Longrightarrow> xs @ as < ys @ bs"
  unfolding list_less_def by (rule lexord_sufI) simp_all

lemma less_append_right: "(as :: string) < bs \<Longrightarrow> xs @ as < xs @ bs"
  unfolding list_less_def by (rule lexord_append_leftI)

lemma pad_less: "m < n \<Longrightarrow> n < 10 ^ w \<Longrightarrow> pad w m < pad w n"
proof (induction w arbitrary: m n)
  case (Suc w)
  show ?case
  proof (cases "m div 10 < n div 10")
    case True
    moreover have "n div 10 < 10 ^ w" using Suc.prems(2) by (simp add: less_mult_imp_div_less mult.commute)
    ultimately have "pad w (m div 10) < pad w (n div 10)" by (rule Suc.IH)
    then show ?thesis by (simp add: less_append_left)
  next
    case False
    then have d: "m div 10 = n div 10" using Suc.prems(1) by (meson div_le_mono le_neq_implies_less less_imp_le)
    have "m mod 10 < n mod 10"
      using Suc.prems(1) d by (metis add_less_cancel_left mult_div_mod_eq)
    then have "[digit_char (m mod 10)] < [digit_char (n mod 10)]"
      by (simp add: digit_char_less)
    then show ?thesis by (simp add: d less_append_right)
  qed
qed simp

text \<open>Ids sort in the order of submission: if the stamps of the two seconds have the same width and are in order, a
  later submission, at the same or a later clock reading and with a later counter, has a greater id,
  also within the same millisecond.\<close>

theorem job_ids_fifo:
  assumes "ns div 10 ^ 9 < ns' div 10 ^ 9 \<Longrightarrow> stamp (ns div 10 ^ 9) < stamp (ns' div 10 ^ 9)"
    and "length (stamp (ns div 10 ^ 9)) = length (stamp (ns' div 10 ^ 9))"
    and "ns \<le> ns'" "c < c'" "c' < 10 ^ 12"
  shows "new_job_id stamp ns c < new_job_id stamp ns' c'"
proof -
  define a where "a = ns div 1000000"
  define b where "b = ns' div 1000000"
  have s9: "a div 1000 = ns div 10 ^ 9" "b div 1000 = ns' div 10 ^ 9"
    by (simp_all add: a_def b_def div_mult2_eq [symmetric])
  have ab: "a \<le> b" using assms(3) by (simp add: a_def b_def div_le_mono)
  have c: "zero_padded 12 c < zero_padded 12 c'"
    using assms(4,5) by (simp add: zero_padded_def pad_less)
  have p3: "zero_padded 3 (x mod 1000) = pad 3 (x mod 1000)" for x
    by (simp add: zero_padded_def)
  have "stamp (a div 1000) @ ''-'' @ pad 3 (a mod 1000) @ ''-'' @ zero_padded 12 c
      < stamp (b div 1000) @ ''-'' @ pad 3 (b mod 1000) @ ''-'' @ zero_padded 12 c'"
  proof (cases "a div 1000 = b div 1000")
    case False
    then have "a div 1000 < b div 1000" using ab by (simp add: div_le_mono le_neq_implies_less)
    then show ?thesis using assms(1,2) by (intro less_append_left) (simp_all add: s9)
  next
    case sec: True
    show ?thesis
    proof (cases "a = b")
      case True
      then show ?thesis using c by (simp add: less_append_right)
    next
      case False
      then have "a mod 1000 < b mod 1000"
        using ab sec by (metis add_less_cancel_left le_neq_implies_less mult_div_mod_eq)
      then have "pad 3 (a mod 1000) < pad 3 (b mod 1000)" by (intro pad_less) simp_all
      then show ?thesis using sec by (simp add: less_append_left less_append_right)
    qed
  qed
  then show ?thesis by (simp add: new_job_id_def Let_def a_def b_def p3)
qed

theorem job_ids_fifo_witness:
  "new_job_id (pad 12) (2 * 10 ^ 9) 7 < new_job_id (pad 12) (3 * 10 ^ 9) 8"
  by (rule job_ids_fifo) (simp_all add: pad_less)

text \<open>Local time can step back; then a later job sorts before an earlier one.\<close>

lemma clock_back_reorders:
  assumes "stamp (ns' div 10 ^ 9) < stamp (ns div 10 ^ 9)"
    and "length (stamp (ns' div 10 ^ 9)) = length (stamp (ns div 10 ^ 9))"
  shows "new_job_id stamp ns' c' < new_job_id stamp ns c"
proof -
  have "x div 1000000 div 1000 = x div 10 ^ 9" for x :: nat by (simp add: div_mult2_eq [symmetric])
  then show ?thesis using assms by (simp add: new_job_id_def Let_def less_append_left)
qed

section \<open>Fresh ids are fresh\<close>

lemma show_nat_length: "10 ^ w \<le> n \<Longrightarrow> w < length (show_nat n)"
proof (induction w arbitrary: n)
  case 0
  then show ?case by (simp add: show_nat.simps [of n])
next
  case (Suc w)
  have "(1::nat) \<le> 10 ^ w" by simp
  then have "\<not> n < 10" using Suc.prems unfolding power_Suc by linarith
  moreover have "10 ^ w \<le> n div 10" using Suc.prems by (simp add: less_eq_div_iff_mult_less_eq)
  ultimately show ?case using Suc.IH by (simp add: show_nat.simps [of n])
qed

lemma zero_padded_inject: "zero_padded w m = zero_padded w n \<longleftrightarrow> m = n"
proof
  assume e: "zero_padded w m = zero_padded w n"
  consider "m < 10 ^ w" "n < 10 ^ w" | "\<not> m < 10 ^ w" "\<not> n < 10 ^ w"
    | "m < 10 ^ w" "\<not> n < 10 ^ w" | "\<not> m < 10 ^ w" "n < 10 ^ w" by blast
  then show "m = n"
  proof cases
    case 1
    then show ?thesis using e pad_less [of m n w] pad_less [of n m w]
      by (cases m n rule: linorder_cases) (simp_all add: zero_padded_def)
  next
    case 2
    then show ?thesis using e by (simp add: zero_padded_def)
  next
    case 3
    then have "length (zero_padded w n) > w" "length (zero_padded w m) = w"
      using show_nat_length [of w n] by (simp_all add: zero_padded_def)
    with e show ?thesis by simp
  next
    case 4
    then have "length (zero_padded w m) > w" "length (zero_padded w n) = w"
      using show_nat_length [of w m] by (simp_all add: zero_padded_def)
    with e show ?thesis by simp
  qed
qed simp

lemma digit_not_dash: "d < 10 \<Longrightarrow> digit_char d \<noteq> CHR ''-''"
proof
  assume "d < 10" "digit_char d = CHR ''-''"
  then have "48 + d = (of_char (CHR ''-'') :: nat)" by (metis of_digit_char)
  then show False by simp
qed

lemma zero_padded_no_dash: "CHR ''-'' \<notin> set (zero_padded w n)"
proof -
  have "CHR ''-'' \<notin> set (pad w n)" by (induction w arbitrary: n) (auto simp: digit_not_dash [symmetric])
  moreover have "CHR ''-'' \<notin> set (show_nat n)"
    by (induction n rule: show_nat.induct) (subst show_nat.simps, auto simp: digit_not_dash [symmetric])
  ultimately show ?thesis by (simp add: zero_padded_def)
qed

definition counter_part :: "string \<Rightarrow> string" where
  "counter_part i = rev (takeWhile (\<lambda>c. c \<noteq> CHR ''-'') (rev i))"

lemma counter_part_id: "counter_part (new_job_id stamp ns c) = zero_padded 12 c"
proof -
  have "takeWhile (\<lambda>x. x \<noteq> CHR ''-'') (rev (zero_padded 12 c) @ CHR ''-'' # xs) = rev (zero_padded 12 c)" for xs
    using zero_padded_no_dash [of 12 c] by (subst takeWhile_append2) auto
  then show ?thesis by (simp add: counter_part_def new_job_id_def Let_def)
qed

lemma mint_id_fresh:
  assumes "mint_id ck n q = (i, q')"
    and "card {k \<in> fst ` set (q_jobs q). \<exists>c \<ge> q_counter q. counter_part k = zero_padded 12 c} < n"
  shows "map_of (q_jobs q) i = None"
  using assms
proof (induction ck n q rule: mint_id.induct)
  case (2 ck n q)
  let ?i = "new_job_id (ck_stamp ck) (ck_ns ck (q_reads q)) (q_counter q)"
  let ?q1 = "q\<lparr>q_counter := Suc (q_counter q), q_reads := Suc (q_reads q)\<rparr>"
  let ?K = "\<lambda>c0. {k \<in> fst ` set (q_jobs q). \<exists>c \<ge> c0. counter_part k = zero_padded 12 c}"
  show ?case
  proof (cases "map_of (q_jobs q) ?i = None")
    case True
    with 2 show ?thesis by (auto simp: Let_def)
  next
    case False
    then have "?i \<in> ?K (q_counter q)" by (auto simp: map_of_eq_None_iff counter_part_id)
    moreover have "?i \<notin> ?K (Suc (q_counter q))" by (auto simp: counter_part_id zero_padded_inject)
    moreover have "?K (Suc (q_counter q)) \<subseteq> ?K (q_counter q)" using Suc_leD by blast
    ultimately have "card (?K (Suc (q_counter q))) < card (?K (q_counter q))"
      by (intro psubset_card_mono) auto
    with 2 False show ?thesis by (auto simp: Let_def)
  qed
qed simp

lemma submit_fresh:
  assumes "submit ck ins kw pools q = (j, q')"
  shows "map_of (q_jobs q) (j_id j) = None"
proof -
  obtain i q1 where m: "mint_id ck (Suc (length (q_jobs q))) q = (i, q1)" by fastforce
  have "card {k \<in> fst ` set (q_jobs q). \<exists>c \<ge> q_counter q. counter_part k = zero_padded 12 c}
      \<le> card (fst ` set (q_jobs q))" by (intro card_mono) auto
  also have "\<dots> \<le> length (q_jobs q)" by (metis card_length length_map set_map)
  finally have "map_of (q_jobs q) i = None" by (intro mint_id_fresh [OF m]) simp
  moreover have "j_id j = i" using assms m by (auto simp: submit_def Let_def simp del: mint_id.simps)
  ultimately show ?thesis by simp
qed

end
