(* ===== verification/Broker.thy ===== *)
theory Broker
  imports Job_Queue
begin

text \<open>
  \<^verbatim>\<open>harness/broker.py\<close>: the single process that drains the queue.  The scheduler, the handling of
  requests and the singleton guard are functions; the interleaving of the drain loop, the running
  tasks and the requests on one event loop is the step relation \<open>b_step\<close>.  A task has two steps, the
  \<^verbatim>\<open>finally\<close> block of \<^verbatim>\<open>_run_job\<close> and the callback that forgets it.  What the scheduler needs of the
  queue is the contract \<open>job_store\<close>.
\<close>

section \<open>State\<close>

record broker =
  b_queue :: jqueue
  b_cap :: int
  b_wait :: rat
  b_active :: "(string \<times> pyval list) list"
  b_tasks :: "string list"
  b_sem :: int
  b_stopping :: bool
  b_collide :: "rat option"

definition pool_wait_seconds :: "rat option \<Rightarrow> string option \<Rightarrow> rat" where
  "pool_wait_seconds explicit env =
     (case explicit of Some w \<Rightarrow> max 0 w
      | None \<Rightarrow> (case truthy_str env of None \<Rightarrow> 5
          | Some raw \<Rightarrow> (case py_float raw of None \<Rightarrow> 5 | Some w \<Rightarrow> max 0 w)))"

definition make_broker :: "jqueue \<Rightarrow> int option \<Rightarrow> rat option \<Rightarrow> string option \<Rightarrow> broker" where
  "make_broker q cap wait env =
     (let c = (case cap of None \<Rightarrow> 2 | Some c \<Rightarrow> c)
      in \<lparr>b_queue = load q, b_cap = c, b_wait = pool_wait_seconds wait env, b_active = [], b_tasks = [],
          b_sem = c, b_stopping = False, b_collide = None\<rparr>)"

definition active_pool_union :: "broker \<Rightarrow> pyval list" where
  "active_pool_union b = concat (map snd (b_active b))"

section \<open>Scheduling\<close>

text \<open>\<open>out.update(pools)\<close> raises for a pool that cannot be hashed.\<close>

definition pool_union :: "broker \<Rightarrow> pyexn + pyval list" where
  "pool_union b = (if list_ex unhashable (active_pool_union b) then Inl TypeError else Inr (active_pool_union b))"

text \<open>The choice of \<open>_try_launch_one\<close> over any job store: launch a job, flagged when it may share a pool,
  or hold with the new start of the waiting window.  The text of the overlap warning is left out.\<close>

datatype pick = Launch job bool | Hold "rat option"

definition pick_job ::
  "(pyval list \<Rightarrow> 'q \<Rightarrow> pyexn + job option) \<Rightarrow> ('q \<Rightarrow> job option) \<Rightarrow> pyval list \<Rightarrow> bool \<Rightarrow> rat option \<Rightarrow> rat \<Rightarrow> rat \<Rightarrow>
   'q \<Rightarrow> pyexn + pick" where
  "pick_job nxt oldest active idle since now wait q = ebind (nxt active q) (\<lambda>r. Inr
     (case r of
        Some j \<Rightarrow> Launch j False
      | None \<Rightarrow>
          (case oldest q of
             None \<Rightarrow> Hold None
           | Some j \<Rightarrow>
               if idle then Launch j True
               else (case since of
                       None \<Rightarrow> Hold (Some now)
                     | Some t \<Rightarrow> if now - t \<ge> wait then Launch j True else Hold (Some t)))))"

definition launch :: "clock \<Rightarrow> job \<Rightarrow> broker \<Rightarrow> broker" where
  "launch ck j b =
     b\<lparr>b_sem := b_sem b - 1,
       b_active := AList.update (j_id j) (j_pools j) (b_active b),
       b_queue := mark_running ck (j_id j) (j_run j) (b_queue b),
       b_tasks := j_id j # b_tasks b\<rparr>"

definition try_launch_one :: "clock \<Rightarrow> rat \<Rightarrow> broker \<Rightarrow> broker \<times> (pyexn + bool)" where
  "try_launch_one ck now b =
     (if int (length (b_tasks b)) \<ge> b_cap b then (b, Inr False)
      else case ebind (pool_union b) (\<lambda>active. pick_job next_runnable oldest_queued active (b_active b = [])
                  (b_collide b) now (b_wait b) (b_queue b)) of
             Inl e \<Rightarrow> (b, Inl e)
           | Inr (Launch j over) \<Rightarrow> (launch ck j (b\<lparr>b_collide := None\<rparr>), Inr True)
           | Inr (Hold since) \<Rightarrow> (b\<lparr>b_collide := since\<rparr>, Inr False))"

text \<open>One pass of the drain loop.  An exception ends it, and with it the server, whose \<open>close\<close> stops the broker.\<close>

definition drain_pass :: "clock \<Rightarrow> rat \<Rightarrow> broker \<Rightarrow> broker" where
  "drain_pass ck now b =
     (case try_launch_one ck now b of
        (b', Inl e) \<Rightarrow> b'\<lparr>b_stopping := True\<rparr>
      | (b', Inr launched) \<Rightarrow> b')"

section \<open>Running a job\<close>

datatype run_outcome = Dispatch_raised string | Dispatch_cancelled | Dispatched pyval

definition normalize_result :: "pyval \<Rightarrow> pydict" where
  "normalize_result raw =
     (let d = as_dict raw in
      if raw = PNone then [(''success'', PBool True), (''run_id'', PNone), (''error'', PNone)]
      else [(''success'', PBool (truthy (dget_or d ''success'' (PBool True)))),
            (''run_id'', dget d ''run_id''), (''error'', dget d ''error'')])"

text \<open>\<open>result.get("error") or "dispatch reported failure"\<close>; an error is a string or absent.\<close>

definition failure_text :: "pydict \<Rightarrow> string" where
  "failure_text d = (case truthy_str (str_opt (dget d ''error'')) of
     Some e \<Rightarrow> e | None \<Rightarrow> ''dispatch reported failure'')"

definition settle :: "clock \<Rightarrow> string \<Rightarrow> run_outcome \<Rightarrow> jqueue \<Rightarrow> jqueue" where
  "settle ck i r q =
     (case r of
        Dispatch_raised e \<Rightarrow> mark_failed ck i e q
      | Dispatch_cancelled \<Rightarrow> q
      | Dispatched raw \<Rightarrow>
          let res = normalize_result raw;
              q1 = (if truthy (dget res ''run_id'') \<and>
                       (case get_job q i of None \<Rightarrow> False | Some j \<Rightarrow> \<not> truthy (j_run j))
                    then mark_running ck i (dget res ''run_id'') q else q)
          in if truthy (dget res ''success'') then mark_done ck i (PDict res) q1
             else mark_failed ck i (failure_text res) q1)"

definition finish_job :: "clock \<Rightarrow> string \<Rightarrow> run_outcome \<Rightarrow> broker \<Rightarrow> broker" where
  "finish_job ck i r b =
     b\<lparr>b_queue := settle ck i r (b_queue b), b_active := AList.delete i (b_active b), b_sem := b_sem b + 1\<rparr>"

definition task_done :: "string \<Rightarrow> broker \<Rightarrow> broker" where
  "task_done i b = b\<lparr>b_tasks := remove1 i (b_tasks b)\<rparr>"

section \<open>Requests\<close>

definition error_response :: "string \<Rightarrow> pydict" where
  "error_response e = [(''ok'', PBool False), (''error'', PStr e)]"

definition count_status :: "string \<Rightarrow> jqueue \<Rightarrow> nat" where
  "count_status s q = length (filter (\<lambda>d. dget d ''status'' = PStr s) (snapshot q))"

definition op_ping :: "int \<Rightarrow> broker \<Rightarrow> pydict" where
  "op_ping pid b =
     [(''ok'', PBool True), (''pid'', PInt pid), (''cap'', PInt (b_cap b)),
      (''running'', PInt (int (count_status ''running'' (b_queue b)))),
      (''queued'', PInt (int (count_status ''queued'' (b_queue b))))]"

definition op_submit :: "clock \<Rightarrow> pydict \<Rightarrow> broker \<Rightarrow> pydict \<times> broker" where
  "op_submit ck req b =
     (let kwargs = (if truthy (dget req ''kwargs'') then dget req ''kwargs'' else PDict []);
          pools = (if truthy (dget req ''pools'') then dget req ''pools'' else PList [])
      in case (dict_opt kwargs, list_opt pools) of
           (None, _) \<Rightarrow> (error_response ''kwargs must be an object'', b)
         | (Some kw, None) \<Rightarrow> (error_response ''pools must be a list'', b)
         | (Some kw, Some ps) \<Rightarrow>
             (case submit ck (dget_or req ''instruction'' (PStr [])) kw ps (b_queue b) of
                (j, q) \<Rightarrow> ([(''ok'', PBool True), (''job_id'', PStr (j_id j))], b\<lparr>b_queue := q\<rparr>)))"

text \<open>A job id that cannot be a dictionary key raises, which the handler turns into a response.\<close>

definition op_status :: "pydict \<Rightarrow> broker \<Rightarrow> pydict" where
  "op_status req b =
     (let i = dget req ''job_id'' in
      if truthy i \<and> unhashable i then error_response ''TypeError: unhashable type''
      else [(''ok'', PBool True),
            (''job'', case Option.bind (str_opt i) (get_job (b_queue b)) of
               Some j \<Rightarrow> if truthy i then PDict (job_to_dict j) else PNone | None \<Rightarrow> PNone)])"

definition op_cancel :: "clock \<Rightarrow> pydict \<Rightarrow> broker \<Rightarrow> pydict \<times> broker" where
  "op_cancel ck req b =
     (let i = dget req ''job_id'' in
      if truthy i \<and> unhashable i then (error_response ''TypeError: unhashable type'', b)
      else case (if truthy i then str_opt i else None) of
          None \<Rightarrow> ([(''ok'', PBool True), (''canceled'', PBool False)], b)
        | Some k \<Rightarrow> (case cancel_job ck k (b_queue b) of
             (c, q) \<Rightarrow> ([(''ok'', PBool True), (''canceled'', PBool c)], b\<lparr>b_queue := q\<rparr>)))"

definition handle_op :: "clock \<Rightarrow> int \<Rightarrow> pydict \<Rightarrow> broker \<Rightarrow> pydict \<times> broker" where
  "handle_op ck pid req b =
     (let opn = dget req ''op'' in
      if opn = PStr ''ping'' then (op_ping pid b, b)
      else if opn = PStr ''submit'' then op_submit ck req b
      else if opn = PStr ''list''
      then ([(''ok'', PBool True), (''jobs'', PList (map PDict (snapshot (b_queue b))))], b)
      else if opn = PStr ''status'' then (op_status req b, b)
      else if opn = PStr ''cancel'' then op_cancel ck req b
      else (error_response ''unknown op'', b))"

text \<open>A line of the socket: \<open>None\<close> when it is not JSON.\<close>

definition handle_line :: "clock \<Rightarrow> int \<Rightarrow> pyval option \<Rightarrow> broker \<Rightarrow> pydict \<times> broker" where
  "handle_line ck pid parsed b =
     (case Option.bind parsed dict_opt of
        None \<Rightarrow> (error_response ''bad request'', b)
      | Some req \<Rightarrow> handle_op ck pid req b)"

section \<open>The singleton guard\<close>

datatype guard = Free | Reclaim | Refuse "int option"

definition read_pidfile :: "string option \<Rightarrow> int option" where
  "read_pidfile raw = Option.bind raw (\<lambda>s. py_int (py_strip s))"

text \<open>\<open>reply\<close> is the parsed answer of the socket to a ping, \<open>None\<close> when there is none.\<close>

definition refuse_if_live :: "bool \<Rightarrow> pydict option \<Rightarrow> string option \<Rightarrow> guard" where
  "refuse_if_live sock_exists reply pidfile =
     (if \<not> sock_exists then Free
      else case reply of
          None \<Rightarrow> Reclaim
        | Some d \<Rightarrow>
            if truthy (dget d ''ok'')
            then Refuse (case dget d ''pid'' of PNone \<Rightarrow> read_pidfile pidfile | PInt p \<Rightarrow> Some p | _ \<Rightarrow> None)
            else Reclaim)"

section \<open>Steps\<close>

inductive b_step :: "clock \<Rightarrow> broker \<Rightarrow> broker \<Rightarrow> bool" for ck where
  s_launch: "\<not> b_stopping b \<Longrightarrow> b_step ck b (drain_pass ck now b)"
| s_finish: "i \<in> fst ` set (b_active b) \<Longrightarrow> b_step ck b (finish_job ck i r b)"
| s_done: "i \<in> set (b_tasks b) \<Longrightarrow> i \<notin> fst ` set (b_active b) \<Longrightarrow> b_step ck b (task_done i b)"
| s_line: "b_step ck b (snd (handle_line ck pid parsed b))"
| s_stop: "b_step ck b (b\<lparr>b_stopping := True\<rparr>)"

inductive b_reach :: "clock \<Rightarrow> broker \<Rightarrow> broker \<Rightarrow> bool" for ck b0 where
  r_init: "b_reach ck b0 b0"
| r_step: "b_reach ck b0 b \<Longrightarrow> b_step ck b b' \<Longrightarrow> b_reach ck b0 b'"

inductive_cases b_stepE: "b_step ck b b'"

section \<open>The contract of the job store\<close>

definition awaits :: "job \<Rightarrow> bool" where
  "awaits j = (j_status j = queued)"

definition shares :: "pyval list \<Rightarrow> job \<Rightarrow> bool" where
  "shares active j = (set (j_pools j) \<inter> set active \<noteq> {})"

locale job_store =
  fixes valid :: "'q \<Rightarrow> bool" and lookup :: "'q \<Rightarrow> string \<Rightarrow> job option"
    and nxt :: "pyval list \<Rightarrow> 'q \<Rightarrow> pyexn + job option" and oldest :: "'q \<Rightarrow> job option"
  assumes nxt_some: "valid q \<Longrightarrow> nxt act q = Inr (Some j) \<Longrightarrow> lookup q (j_id j) = Some j \<and> awaits j \<and> \<not> shares act j \<and>
      (\<forall>i k. lookup q i = Some k \<and> awaits k \<and> \<not> shares act k \<longrightarrow> j_id j \<le> i)"
    and nxt_none: "valid q \<Longrightarrow> nxt act q = Inr None \<Longrightarrow> lookup q i = Some k \<Longrightarrow> awaits k \<Longrightarrow> shares act k"
    and nxt_raises: "valid q \<Longrightarrow> nxt act q = Inl e \<Longrightarrow> \<exists>i k. lookup q i = Some k \<and> awaits k \<and> list_ex unhashable (j_pools k)"
    and oldest_some: "valid q \<Longrightarrow> oldest q = Some j \<Longrightarrow> lookup q (j_id j) = Some j \<and> awaits j \<and>
      (\<forall>i k. lookup q i = Some k \<and> awaits k \<longrightarrow> j_id j \<le> i)"
    and oldest_none: "valid q \<Longrightarrow> oldest q = None \<Longrightarrow> lookup q i = Some k \<Longrightarrow> \<not> awaits k"
begin

lemma pick_launches:
  assumes "valid q" "pick_job nxt oldest act idle since now wait q = Inr (Launch j over)"
  shows "lookup q (j_id j) = Some j \<and> awaits j \<and>
    (if over
     then (\<forall>i k. lookup q i = Some k \<and> awaits k \<longrightarrow> shares act k \<and> j_id j \<le> i) \<and>
       (idle \<or> (\<exists>t. since = Some t \<and> now - t \<ge> wait))
     else \<not> shares act j \<and> (\<forall>i k. lookup q i = Some k \<and> awaits k \<and> \<not> shares act k \<longrightarrow> j_id j \<le> i))"
proof -
  obtain r where r: "nxt act q = Inr r" using assms(2) by (auto simp: pick_job_def ebind_iffs)
  show ?thesis
  proof (cases r)
    case (Some x)
    with assms r nxt_some [OF assms(1), of act x] show ?thesis by (auto simp: pick_job_def)
  next
    case None
    with assms r obtain x where x: "oldest q = Some x" by (auto simp: pick_job_def split: option.splits)
    with None r assms have "j = x" "over" "idle \<or> (\<exists>t. since = Some t \<and> now - t \<ge> wait)"
      by (auto simp: pick_job_def split: option.splits if_splits)
    with oldest_some [OF assms(1) x] nxt_none [OF assms(1) r [unfolded None]] show ?thesis by auto
  qed
qed

lemma pick_holds:
  assumes "valid q" "pick_job nxt oldest act idle since now wait q = Inr (Hold s)"
  shows "\<forall>i k. lookup q i = Some k \<and> awaits k \<longrightarrow>
    shares act k \<and> \<not> idle \<and> s = Some (case since of None \<Rightarrow> now | Some t \<Rightarrow> t) \<and>
    (\<forall>t. since = Some t \<longrightarrow> now - t < wait)"
proof -
  have n: "nxt act q = Inr None" using assms(2) by (auto simp: pick_job_def ebind_iffs split: option.splits)
  show ?thesis
  proof (cases "oldest q")
    case None
    then show ?thesis using oldest_none [OF assms(1)] by blast
  next
    case (Some x)
    with n assms(2) have "\<not> idle" "s = Some (case since of None \<Rightarrow> now | Some t \<Rightarrow> t)"
      "\<forall>t. since = Some t \<longrightarrow> now - t < wait"
      by (auto simp: pick_job_def split: option.splits if_splits)
    then show ?thesis using nxt_none [OF assms(1) n] by blast
  qed
qed

lemma pick_raises:
  assumes "valid q" "pick_job nxt oldest act idle since now wait q = Inl e"
  shows "\<exists>i k. lookup q i = Some k \<and> awaits k \<and> list_ex unhashable (j_pools k)"
  using assms nxt_raises by (auto simp: pick_job_def ebind_iffs)

end

lemma oldest_queued_iff:
  "queue_ok q \<Longrightarrow> oldest_queued q = Some j \<longleftrightarrow> map_of (q_jobs q) (j_id j) = Some j \<and> j_status j = queued \<and>
    (\<forall>i k. map_of (q_jobs q) i = Some k \<longrightarrow> j_status k = queued \<longrightarrow> j_id j \<le> i)"
  "queue_ok q \<Longrightarrow> oldest_queued q = None \<longleftrightarrow> (\<forall>i k. map_of (q_jobs q) i = Some k \<longrightarrow> j_status k \<noteq> queued)"
  unfolding oldest_queued_def by (simp_all only: find_ordered)

interpretation jobs: job_store queue_ok get_job next_runnable oldest_queued
proof unfold_locales
  fix q act j assume q: "queue_ok q" "next_runnable act q = Inr (Some j)"
  show "get_job q (j_id j) = Some j \<and> awaits j \<and> \<not> shares act j \<and>
      (\<forall>i k. get_job q i = Some k \<and> awaits k \<and> \<not> shares act k \<longrightarrow> j_id j \<le> i)"
    using next_runnable_fifo [OF q, THEN conjunct1, THEN spec [of _ j]] by (simp add: get_job_def awaits_def shares_def)
next
  fix q act i k assume q: "queue_ok q" "next_runnable act q = Inr None" and k: "get_job q i = Some k" "awaits k"
  show "shares act k"
    using next_runnable_fifo [OF q, THEN conjunct2] k by (simp add: get_job_def awaits_def shares_def)
qed (auto simp: get_job_def awaits_def oldest_queued_iff dest: next_runnable_raises)

section \<open>What operations do to the jobs\<close>

lemma map_of_update_job:
  "map_of (q_jobs (update_job ck i f q)) = (case map_of (q_jobs q) i of
     None \<Rightarrow> map_of (q_jobs q) | Some j \<Rightarrow> (map_of (q_jobs q))(i \<mapsto> f (ck_time ck (q_reads q)) j))"
  by (auto simp: update_job_def update_conv' split: option.splits)

lemma mark_done_facts:
  assumes "map_of (q_jobs q) i = Some j"
  shows "\<exists>j'. map_of (q_jobs (mark_done ck i r q)) = (map_of (q_jobs q))(i \<mapsto> j') \<and>
    j_status j' = PStr ''done'' \<and> j_pools j' = j_pools j \<and> j_id j' = j_id j"
  using assms by (auto simp: mark_done_def map_of_update_job Let_def split: option.splits)

lemma mark_failed_facts:
  assumes "map_of (q_jobs q) i = Some j"
  shows "\<exists>j'. map_of (q_jobs (mark_failed ck i e q)) = (map_of (q_jobs q))(i \<mapsto> j') \<and>
    j_status j' = PStr ''failed'' \<and> j_pools j' = j_pools j \<and> j_id j' = j_id j"
  using assms by (auto simp: mark_failed_def map_of_update_job)

lemma mark_running_facts:
  assumes "map_of (q_jobs q) i = Some j"
  shows "\<exists>j'. map_of (q_jobs (mark_running ck i r q)) = (map_of (q_jobs q))(i \<mapsto> j') \<and>
    j_status j' = running \<and> j_pools j' = j_pools j \<and> j_id j' = j_id j"
  using assms by (auto simp: mark_running_def map_of_update_job)

lemma settle_facts:
  assumes "queue_ok q" "map_of (q_jobs q) i = Some j" "j_status j = running"
  shows "queue_ok (settle ck i r q) \<and>
    (\<exists>j'. map_of (q_jobs (settle ck i r q)) = (map_of (q_jobs q))(i \<mapsto> j') \<and>
       j_status j' \<in> {running, PStr ''done'', PStr ''failed''} \<and> (j_status j' = running \<longrightarrow> r = Dispatch_cancelled))"
proof (cases r)
  case (Dispatch_raised e)
  then show ?thesis
    using q_op_ok [OF q_failed [of q i j ck e] assms(1)] mark_failed_facts [OF assms(2), of ck e] assms
    by (auto simp: settle_def)
next
  case Dispatch_cancelled
  then show ?thesis using assms by (auto simp: settle_def intro!: exI [of _ j])
next
  case (Dispatched raw)
  let ?res = "normalize_result raw"
  let ?q1 = "if truthy (dget ?res ''run_id'') \<and>
      (case get_job q i of None \<Rightarrow> False | Some j \<Rightarrow> \<not> truthy (j_run j))
    then mark_running ck i (dget ?res ''run_id'') q else q"
  have 1: "queue_ok ?q1"
    using q_op_ok [OF q_running [of q i j ck] assms(1)] assms by auto
  obtain j1 where j1: "map_of (q_jobs ?q1) = (map_of (q_jobs q))(i \<mapsto> j1)"
  proof (cases "truthy (dget ?res ''run_id'') \<and> (case get_job q i of None \<Rightarrow> False | Some j \<Rightarrow> \<not> truthy (j_run j))")
    case True
    then show thesis using mark_running_facts [OF assms(2), of ck "dget ?res ''run_id''"] that by auto
  next
    case False
    have "map_of (q_jobs q) = (map_of (q_jobs q))(i \<mapsto> j)" by (rule sym, rule map_upd_triv, rule assms(2))
    then have "map_of (q_jobs ?q1) = (map_of (q_jobs q))(i \<mapsto> j)" unfolding if_not_P [OF False] .
    then show thesis by (rule that)
  qed
  then have m1: "map_of (q_jobs ?q1) i = Some j1" by simp
  have eq: "settle ck i r q = (if truthy (dget ?res ''success'') then mark_done ck i (PDict ?res) ?q1
      else mark_failed ck i (failure_text ?res) ?q1)"
    unfolding settle_def Dispatched Let_def by simp
  show ?thesis
  proof (cases "truthy (dget ?res ''success'')")
    case True
    obtain j' where "map_of (q_jobs (mark_done ck i (PDict ?res) ?q1)) = (map_of (q_jobs ?q1))(i \<mapsto> j')"
      "j_status j' = PStr ''done''" using mark_done_facts [OF m1] by blast
    moreover have "queue_ok (mark_done ck i (PDict ?res) ?q1)" using q_op_ok [OF q_done [OF m1] 1] by blast
    ultimately show ?thesis unfolding eq j1 using True by auto
  next
    case False
    obtain j' where "map_of (q_jobs (mark_failed ck i (failure_text ?res) ?q1)) = (map_of (q_jobs ?q1))(i \<mapsto> j')"
      "j_status j' = PStr ''failed''" using mark_failed_facts [OF m1] by blast
    moreover have "queue_ok (mark_failed ck i (failure_text ?res) ?q1)" using q_op_ok [OF q_failed [OF m1] 1] by blast
    ultimately show ?thesis unfolding eq j1 using False by auto
  qed
qed

lemma cancel_job_facts:
  assumes "queue_ok q" "cancel_job ck i q = (c, q')"
  shows "queue_ok q' \<and> (\<forall>k. map_of (q_jobs q') k = map_of (q_jobs q) k \<or>
    (\<exists>j j'. map_of (q_jobs q) k = Some j \<and> awaits j \<and> map_of (q_jobs q') k = Some j' \<and>
       j_status j' = PStr ''canceled''))"
proof (cases c)
  case True
  then show ?thesis
    using q_op_ok [OF q_cancel [of ck i q q'] assms(1)] assms(2)
    by (auto simp: cancel_job_def map_of_update_job awaits_def split: option.splits if_splits)
next
  case False
  then have "q' = q" using assms(2) by (auto simp: cancel_job_def split: option.splits if_splits)
  with assms(1) show ?thesis by simp
qed

lemma op_submit_facts:
  assumes "queue_ok (b_queue b)" "op_submit ck req b = (resp, b')"
  shows "b' = b\<lparr>b_queue := b_queue b'\<rparr> \<and> queue_ok (b_queue b') \<and>
    (\<forall>k. map_of (q_jobs (b_queue b')) k = map_of (q_jobs (b_queue b)) k \<or>
       (map_of (q_jobs (b_queue b)) k = None \<and> (\<exists>j. map_of (q_jobs (b_queue b')) k = Some j \<and> awaits j)))"
proof (cases "b' = b")
  case True
  with assms(1) show ?thesis by simp
next
  case False
  then obtain ins kw ps j q where s: "submit ck ins kw ps (b_queue b) = (j, q)" "b' = b\<lparr>b_queue := q\<rparr>"
    using assms(2) by (auto simp: op_submit_def Let_def split: option.splits prod.splits)
  note ok = submit_ok [OF assms(1) s(1)] and fresh = submit_fresh [OF s(1)]
  have "awaits j" using s(1) by (auto simp: submit_def Let_def awaits_def split: prod.splits)
  with s(2) ok fresh show ?thesis by (auto simp: update_conv')
qed

lemma handle_line_facts:
  assumes "queue_ok (b_queue b)" "handle_line ck pid parsed b = (resp, b')"
  shows "b' = b\<lparr>b_queue := b_queue b'\<rparr> \<and> queue_ok (b_queue b') \<and>
    (\<forall>k. map_of (q_jobs (b_queue b')) k = map_of (q_jobs (b_queue b)) k \<or>
       (map_of (q_jobs (b_queue b)) k = None \<and> (\<exists>j. map_of (q_jobs (b_queue b')) k = Some j \<and> awaits j)) \<or>
       (\<exists>j j'. map_of (q_jobs (b_queue b)) k = Some j \<and> awaits j \<and>
          map_of (q_jobs (b_queue b')) k = Some j' \<and> j_status j' = PStr ''canceled''))"
proof -
  consider "b' = b" | req where "op_submit ck req b = (resp, b')" | req where "op_cancel ck req b = (resp, b')"
    using assms(2) by (auto simp: handle_line_def handle_op_def Let_def split: option.splits if_splits)
  then show ?thesis
  proof cases
    case 1
    with assms(1) show ?thesis by simp
  next
    case 2
    from op_submit_facts [OF assms(1) 2] show ?thesis by blast
  next
    case 3
    show ?thesis
    proof (cases "b' = b")
      case True
      with assms(1) show ?thesis by simp
    next
      case False
      with 3 obtain k c q where c: "cancel_job ck k (b_queue b) = (c, q)" "b' = b\<lparr>b_queue := q\<rparr>"
        by (auto simp: op_cancel_def Let_def split: option.splits if_splits prod.splits)
      from cancel_job_facts [OF assms(1) c(1)] c(2) show ?thesis by auto
    qed
  qed
qed

text \<open>Requests cannot disturb the work: whatever line arrives, a job that is not queued keeps every
  field, a queued job keeps every field or is canceled, at most one job is added, it is queued under
  an unused id, and the scheduler's state is untouched.\<close>

theorem requests_leave_work_alone:
  assumes "queue_ok (b_queue b)"
  shows "let b' = snd (handle_line ck pid parsed b) in
    b' = b\<lparr>b_queue := b_queue b'\<rparr> \<and>
    (\<forall>k j. map_of (q_jobs (b_queue b)) k = Some j \<longrightarrow>
       (if awaits j then \<exists>j'. map_of (q_jobs (b_queue b')) k = Some j' \<and>
          (j' = j \<or> j_status j' = PStr ''canceled'')
        else map_of (q_jobs (b_queue b')) k = Some j)) \<and>
    (\<forall>k j'. map_of (q_jobs (b_queue b)) k = None \<and> map_of (q_jobs (b_queue b')) k = Some j' \<longrightarrow> awaits j')"
proof -
  obtain resp b' where h: "handle_line ck pid parsed b = (resp, b')" by fastforce
  note f = handle_line_facts [OF assms h]
  have "if awaits j then \<exists>j'. map_of (q_jobs (b_queue b')) k = Some j' \<and> (j' = j \<or> j_status j' = PStr ''canceled'')
        else map_of (q_jobs (b_queue b')) k = Some j" if "map_of (q_jobs (b_queue b)) k = Some j" for k j
    using conjunct2 [OF conjunct2 [OF f], rule_format, of k] that by auto
  moreover have "awaits j'" if "map_of (q_jobs (b_queue b)) k = None" "map_of (q_jobs (b_queue b')) k = Some j'" for k j'
    using conjunct2 [OF conjunct2 [OF f], rule_format, of k] that by auto
  ultimately show ?thesis unfolding Let_def h snd_conv using f by blast
qed

theorem requests_leave_work_alone_witness:
  "queue_ok (b_queue (make_broker empty_queue None None None)) \<and>
   b_tasks (snd (handle_line sample_clock 1 (Some (PDict [(''op'', PStr ''submit'')]))
     (make_broker empty_queue None None None))) = []"
proof -
  have ok: "queue_ok (b_queue (make_broker empty_queue None None None))"
    by (simp add: make_broker_def Let_def load_def empty_queue_def queue_ok_def)
  from requests_leave_work_alone [OF ok, of sample_clock 1 "Some (PDict [(''op'', PStr ''submit'')])"]
  have "snd (handle_line sample_clock 1 (Some (PDict [(''op'', PStr ''submit'')])) (make_broker empty_queue None None None))
    = make_broker empty_queue None None None\<lparr>b_queue := b_queue (snd (handle_line sample_clock 1
        (Some (PDict [(''op'', PStr ''submit'')])) (make_broker empty_queue None None None)))\<rparr>"
    unfolding Let_def by blast
  then have "b_tasks (snd (handle_line sample_clock 1 (Some (PDict [(''op'', PStr ''submit'')]))
      (make_broker empty_queue None None None))) = b_tasks (make_broker empty_queue None None None)"
    by (rule ssubst) simp
  with ok show ?thesis by (simp add: make_broker_def Let_def)
qed

section \<open>The scheduler's choice\<close>

lemma launch_simps [simp]:
  "b_cap (launch ck j b) = b_cap b" "b_wait (launch ck j b) = b_wait b" "b_stopping (launch ck j b) = b_stopping b"
  "b_tasks (launch ck j b) = j_id j # b_tasks b" "b_sem (launch ck j b) = b_sem b - 1"
  "b_queue (launch ck j b) = mark_running ck (j_id j) (j_run j) (b_queue b)"
  "b_active (launch ck j b) = AList.update (j_id j) (j_pools j) (b_active b)"
  "b_collide (launch ck j b) = b_collide b"
  by (simp_all add: launch_def)

text \<open>The scheduler launches at most one job, never above the cap; it takes the oldest queued job
  whose pools are free, and one that shares a pool only when every queued job does and either
  nothing is in flight or the waiting window has run out, and then the oldest.  It holds only when
  nothing is queued, the cap is reached, or every queued job shares a pool and the window that has
  started is still open, so no queued job waits beyond the window for a free slot.  It raises, changing
  nothing, only when a queued or running job has a pool that cannot be hashed.\<close>

theorem scheduler_choice:
  assumes "queue_ok (b_queue b)"
  shows "case try_launch_one ck now b of
      (b', Inl e) \<Rightarrow> b' = b \<and> (list_ex unhashable (active_pool_union b) \<or>
         (\<exists>i k. get_job (b_queue b) i = Some k \<and> awaits k \<and> list_ex unhashable (j_pools k)))
    | (b', Inr launched) \<Rightarrow>
    (if launched
     then int (length (b_tasks b)) < b_cap b \<and>
       (\<exists>j. get_job (b_queue b) (j_id j) = Some j \<and> awaits j \<and> b' = launch ck j (b\<lparr>b_collide := None\<rparr>) \<and>
         (\<forall>i k. get_job (b_queue b) i = Some k \<and> awaits k \<and> \<not> shares (active_pool_union b) k \<longrightarrow> j_id j \<le> i) \<and>
         (shares (active_pool_union b) j \<longrightarrow>
            (\<forall>i k. get_job (b_queue b) i = Some k \<and> awaits k \<longrightarrow> shares (active_pool_union b) k \<and> j_id j \<le> i) \<and>
            (b_active b = [] \<or> (\<exists>t. b_collide b = Some t \<and> now - t \<ge> b_wait b))))
     else b' = b\<lparr>b_collide := b_collide b'\<rparr> \<and>
       (b_cap b \<le> int (length (b_tasks b)) \<or>
        (\<forall>i k. get_job (b_queue b) i = Some k \<and> awaits k \<longrightarrow>
           shares (active_pool_union b) k \<and> b_active b \<noteq> [] \<and>
           b_collide b' = Some (case b_collide b of None \<Rightarrow> now | Some t \<Rightarrow> t) \<and>
           (\<forall>t. b_collide b = Some t \<longrightarrow> now - t < b_wait b))))"
proof -
  consider (full) "int (length (b_tasks b)) \<ge> b_cap b" | (union) "int (length (b_tasks b)) < b_cap b" "list_ex unhashable (active_pool_union b)"
    | (pick) "int (length (b_tasks b)) < b_cap b" "\<not> list_ex unhashable (active_pool_union b)" by fastforce
  then show ?thesis
  proof cases
    case full
    then show ?thesis by (simp add: try_launch_one_def)
  next
    case union
    then show ?thesis by (simp add: try_launch_one_def pool_union_def)
  next
    case pick
    let ?pick = "pick_job next_runnable oldest_queued (active_pool_union b) (b_active b = [])
                  (b_collide b) now (b_wait b) (b_queue b)"
    consider e where "?pick = Inl e" | j over where "?pick = Inr (Launch j over)" | s where "?pick = Inr (Hold s)"
      by (metis sum.exhaust pick.exhaust)
    then show ?thesis
    proof cases
      case 1
      then have t: "try_launch_one ck now b = (b, Inl e)" using pick by (simp add: try_launch_one_def pool_union_def)
      from jobs.pick_raises [OF assms 1] show ?thesis unfolding t by simp
    next
      case 2
      then have t: "try_launch_one ck now b = (launch ck j (b\<lparr>b_collide := None\<rparr>), Inr True)"
        using pick by (simp add: try_launch_one_def pool_union_def)
      from jobs.pick_launches [OF assms 2] show ?thesis
        using pick unfolding t by (cases over) auto
    next
      case 3
      then have t: "try_launch_one ck now b = (b\<lparr>b_collide := s\<rparr>, Inr False)"
        using pick by (simp add: try_launch_one_def pool_union_def)
      from jobs.pick_holds [OF assms 3] show ?thesis unfolding t by simp blast
    qed
  qed
qed

text \<open>The finding: a request may submit a pool that cannot be hashed.  It is accepted, and once the job is the first of
  the queue with a slot free, the drain loop raises and the broker stops, whatever else is queued.\<close>

lemma any_list_of_pools_is_accepted:
  "dget (fst (handle_line ck pid (Some (PDict [(''op'', PStr ''submit''), (''pools'', PList [PList ps])])) b)) ''ok'' = PBool True"
  by (simp add: handle_line_def handle_op_def op_submit_def dget_def dget_or_def Let_def split: prod.split)

lemma unhashable_pool_stops_the_broker:
  assumes "ordered (b_queue b) = j # js" "j_status j = queued" "list_ex unhashable (j_pools j)"
    and "int (length (b_tasks b)) < b_cap b"
  shows "b_stopping (drain_pass ck now b)"
proof -
  have "next_runnable act (b_queue b) = Inl TypeError" for act
    using assms(1-3) by (simp add: next_runnable_def disjoint_pools_def)
  then show ?thesis using assms(4) by (simp add: drain_pass_def try_launch_one_def pool_union_def pick_job_def)
qed

section \<open>The invariant of the broker\<close>

definition broker_ok :: "broker \<Rightarrow> bool" where
  "broker_ok b \<longleftrightarrow> queue_ok (b_queue b) \<and> distinct (b_tasks b) \<and> distinct (map fst (b_active b)) \<and>
     fst ` set (b_active b) \<subseteq> set (b_tasks b) \<and> b_sem b = b_cap b - int (length (b_active b)) \<and>
     int (length (b_tasks b)) \<le> max 0 (b_cap b) \<and>
     (\<forall>i \<in> set (b_tasks b). \<exists>j. map_of (q_jobs (b_queue b)) i = Some j \<and> \<not> awaits j) \<and>
     (\<forall>(i, ps) \<in> set (b_active b). \<exists>j. map_of (q_jobs (b_queue b)) i = Some j \<and> j_status j = running \<and> j_pools j = ps)"

lemma broker_okD:
  assumes "broker_ok b"
  shows "queue_ok (b_queue b)" "distinct (b_tasks b)" "distinct (map fst (b_active b))"
    "fst ` set (b_active b) \<subseteq> set (b_tasks b)" "b_sem b = b_cap b - int (length (b_active b))"
    "int (length (b_tasks b)) \<le> max 0 (b_cap b)"
    "i \<in> set (b_tasks b) \<Longrightarrow> \<exists>j. map_of (q_jobs (b_queue b)) i = Some j \<and> \<not> awaits j"
    "(i, ps) \<in> set (b_active b) \<Longrightarrow> \<exists>j. map_of (q_jobs (b_queue b)) i = Some j \<and> j_status j = running \<and> j_pools j = ps"
  using assms unfolding broker_ok_def by auto

lemma update_new_key: "k \<notin> fst ` set al \<Longrightarrow> AList.update k v al = al @ [(k, v)]"
  by (induction al) auto

lemma broker_ok_launch:
  assumes "broker_ok b" "map_of (q_jobs (b_queue b)) (j_id j) = Some j" "awaits j"
    and "int (length (b_tasks b)) < b_cap b"
  shows "broker_ok (launch ck j b)"
proof -
  note ok = broker_okD [OF assms(1)]
  obtain j' where j': "map_of (q_jobs (mark_running ck (j_id j) (j_run j) (b_queue b)))
      = (map_of (q_jobs (b_queue b)))(j_id j \<mapsto> j')" "j_status j' = running" "j_pools j' = j_pools j"
    using mark_running_facts [OF assms(2)] by blast
  have new: "j_id j \<notin> set (b_tasks b)" using ok(7) assms(2,3) by fastforce
  then have na: "j_id j \<notin> fst ` set (b_active b)" using ok(4) by blast
  then have upd: "AList.update (j_id j) (j_pools j) (b_active b) = b_active b @ [(j_id j, j_pools j)]"
    by (rule update_new_key)
  show ?thesis
    using ok new na j' assms(4) q_op_ok [OF q_running [OF assms(2)] ok(1)]
    unfolding broker_ok_def launch_simps upd by (auto simp: awaits_def)
qed

lemma broker_ok_collide: "broker_ok (b\<lparr>b_collide := x\<rparr>) = broker_ok b"
  by (simp add: broker_ok_def)

lemma length_delete:
  "distinct (map fst al) \<Longrightarrow> k \<in> fst ` set al \<Longrightarrow> length al = Suc (length (AList.delete k al))"
proof (induction al)
  case (Cons x al)
  show ?case
  proof (cases "fst x = k")
    case True
    then have "k \<notin> fst ` set al" using Cons.prems(1) by auto
    then have "AList.delete k al = al" by (rule delete_id)
    with True show ?thesis by (cases x) simp
  next
    case False
    with Cons show ?thesis by (cases x) auto
  qed
qed simp

lemma broker_ok_finish:
  assumes "broker_ok b" "i \<in> fst ` set (b_active b)"
  shows "broker_ok (finish_job ck i r b)"
proof -
  note ok = broker_okD [OF assms(1)]
  obtain ps where ps: "(i, ps) \<in> set (b_active b)" using assms(2) by auto
  obtain j where j: "map_of (q_jobs (b_queue b)) i = Some j" "j_status j = running" using ok(8) [OF ps] by blast
  obtain j' where j': "map_of (q_jobs (settle ck i r (b_queue b))) = (map_of (q_jobs (b_queue b)))(i \<mapsto> j')"
    "j_status j' \<in> {running, PStr ''done'', PStr ''failed''}" "queue_ok (settle ck i r (b_queue b))"
    using settle_facts [OF ok(1) j] by blast
  have del: "set (AList.delete i (b_active b)) = {x \<in> set (b_active b). fst x \<noteq> i}"
    by (auto simp: AList.delete_eq)
  have sem: "int (length (b_active b)) = 1 + int (length (AList.delete i (b_active b)))"
    using length_delete [OF ok(3) assms(2)] by simp
  show ?thesis
    unfolding broker_ok_def
  proof (intro conjI)
    show "b_sem (finish_job ck i r b) = b_cap (finish_job ck i r b) - int (length (b_active (finish_job ck i r b)))"
      using ok(5) sem by (simp add: finish_job_def)
    show "\<forall>k \<in> set (b_tasks (finish_job ck i r b)).
        \<exists>j. map_of (q_jobs (b_queue (finish_job ck i r b))) k = Some j \<and> \<not> awaits j"
      using ok(7) j'(1,2) by (auto simp: finish_job_def awaits_def)
    show "\<forall>(k, ps) \<in> set (b_active (finish_job ck i r b)).
        \<exists>j. map_of (q_jobs (b_queue (finish_job ck i r b))) k = Some j \<and> j_status j = running \<and> j_pools j = ps"
      using ok(8) by (auto simp: finish_job_def j'(1) del)
  qed (use ok j'(3) del in \<open>auto simp: finish_job_def distinct_delete\<close>)
qed

lemma broker_ok_task_done:
  assumes "broker_ok b" "i \<notin> fst ` set (b_active b)"
  shows "broker_ok (task_done i b)"
proof -
  note ok = broker_okD [OF assms(1)]
  have "length (remove1 i (b_tasks b)) \<le> length (b_tasks b)" by (simp add: length_remove1)
  then show ?thesis
    using ok assms(2) unfolding broker_ok_def task_done_def by (auto dest: in_set_remove1 [THEN iffD1])
qed

lemma broker_ok_line:
  assumes "broker_ok b"
  shows "broker_ok (snd (handle_line ck pid parsed b))"
proof -
  obtain resp b' where h: "handle_line ck pid parsed b = (resp, b')" by fastforce
  note ok = broker_okD [OF assms]
  note f = handle_line_facts [OF ok(1) h]
  have keep: "map_of (q_jobs (b_queue b')) k = Some j"
    if "map_of (q_jobs (b_queue b)) k = Some j" "\<not> awaits j" for k j
    using conjunct2 [OF conjunct2 [OF f], rule_format, of k] that by auto
  have b': "b_tasks b' = b_tasks b" "b_active b' = b_active b" "b_sem b' = b_sem b" "b_cap b' = b_cap b"
    using f by (metis broker.select_convs broker.surjective broker.update_convs(1))+
  have "\<forall>(i, ps) \<in> set (b_active b). \<exists>j. map_of (q_jobs (b_queue b')) i = Some j \<and> j_status j = running \<and> j_pools j = ps"
    using ok(8) keep by (fastforce simp: awaits_def)
  moreover have "\<forall>i \<in> set (b_tasks b). \<exists>j. map_of (q_jobs (b_queue b')) i = Some j \<and> \<not> awaits j"
    using ok(7) keep by blast
  ultimately show ?thesis using ok f unfolding broker_ok_def h snd_conv b' by blast
qed

lemma broker_ok_stop: "broker_ok (b\<lparr>b_stopping := x\<rparr>) = broker_ok b"
  by (simp add: broker_ok_def)

lemma broker_ok_drain:
  assumes "broker_ok b"
  shows "broker_ok (drain_pass ck now b)"
proof -
  obtain b' l where t: "try_launch_one ck now b = (b', l)" by fastforce
  note sc = scheduler_choice [OF broker_okD(1) [OF assms], of ck now, unfolded t prod.case]
  show ?thesis
  proof (cases l)
    case (Inl e)
    with sc assms show ?thesis by (simp add: drain_pass_def t broker_ok_stop)
  next
    case (Inr launched)
    show ?thesis
    proof (cases launched)
      case True
      with sc Inr obtain j where "int (length (b_tasks b)) < b_cap b" "get_job (b_queue b) (j_id j) = Some j"
        "awaits j" "b' = launch ck j (b\<lparr>b_collide := None\<rparr>)" by auto
      then show ?thesis
        using assms by (simp add: drain_pass_def t Inr broker_ok_launch broker_ok_collide get_job_def)
    next
      case False
      with sc Inr have "b' = b\<lparr>b_collide := b_collide b'\<rparr>" by auto
      with assms show ?thesis unfolding drain_pass_def t Inr prod.case sum.case by (metis broker_ok_collide)
    qed
  qed
qed

lemma b_step_ok: "b_step ck b b' \<Longrightarrow> broker_ok b \<Longrightarrow> broker_ok b'"
proof (induction rule: b_step.induct)
  case (s_stop b)
  then show ?case by (simp add: broker_ok_def)
qed (simp_all add: broker_ok_drain broker_ok_finish broker_ok_task_done broker_ok_line)

lemma load_records_ok: "queue_ok (q\<lparr>q_jobs := load_records recs\<rparr>)"
proof -
  have "queue_ok (q\<lparr>q_jobs := fold (\<lambda>r jobs. case job_from_dict r of None \<Rightarrow> jobs
     | Some j \<Rightarrow> AList.update (j_id j) (requeue j) jobs) recs acc\<rparr>)" if "queue_ok (q\<lparr>q_jobs := acc\<rparr>)" for acc
    using that
  proof (induction recs arbitrary: acc)
    case (Cons r recs)
    have "queue_ok (q\<lparr>q_jobs := AList.update (j_id j) (requeue j) acc\<rparr>)" for j
      by (rule queue_ok_update [OF Cons.prems, of "requeue j" "j_id j"]) (simp_all add: requeue_def)
    with Cons show ?case by (simp split: option.splits)
  qed simp
  from this [of "[]"] show ?thesis by (simp add: load_records_def queue_ok_def)
qed

lemma load_ok: "queue_ok (load q)"
proof -
  have "queue_ok (q\<lparr>q_jobs := []\<rparr>)" by (simp add: queue_ok_def)
  then show ?thesis
    using load_records_ok [where q = q] by (simp add: load_def split: option.splits filetext.splits)
qed

text \<open>C6: In every reachable state of the broker, under any interleaving of scheduling, task completion,
  forgotten tasks and requests: at most \<open>cap\<close> jobs are in flight, the semaphore counts exactly the free
  slots, so acquiring it for a launch never blocks, no job is in flight twice, and every job that holds
  pools is running in the queue with exactly those pools.\<close>

theorem broker_invariant:
  assumes "b_reach ck (make_broker q cap wait env) b"
  shows "queue_ok (b_queue b) \<and> distinct (b_tasks b) \<and> int (length (b_tasks b)) \<le> max 0 (b_cap b) \<and>
    b_sem b = b_cap b - int (length (b_active b)) \<and>
    (int (length (b_tasks b)) < b_cap b \<longrightarrow> b_sem b > 0) \<and>
    (\<forall>(i, ps) \<in> set (b_active b). i \<in> set (b_tasks b) \<and>
       (\<exists>j. map_of (q_jobs (b_queue b)) i = Some j \<and> j_status j = running \<and> j_pools j = ps))"
proof -
  have "broker_ok b"
    using assms
  proof (induction rule: b_reach.induct)
    case r_init
    show ?case by (simp add: broker_ok_def make_broker_def Let_def load_ok)
  next
    case (r_step b b')
    then show ?case using b_step_ok by blast
  qed
  note ok = broker_okD [OF this]
  have "length (map fst (b_active b)) \<le> length (b_tasks b)"
    using ok(2-4) by (metis card_mono distinct_card finite_set set_map)
  then show ?thesis using ok by auto
qed

theorem broker_invariant_witness:
  "b_sem (make_broker empty_queue None None None) = 2"
  using broker_invariant [OF r_init [of sample_clock "make_broker empty_queue None None None"]]
  by (simp add: make_broker_def Let_def)

end
