(* ===== verification/Safety_Kernel.thy ===== *)
theory Safety_Kernel
  imports Py_Prelude
begin

text \<open>
  The action gate of the computer-use worker for isolated displays (\<open>SafetyKernel\<close> in
  \<open>computer_use/safety.py\<close>) and the records of \<open>computer_use/models.py\<close> it builds: the schema and
  budget checks, the launch allowlist, risk classification, foreign element handles, target
  resolution and the executable \<open>ActionSpec\<close>.  An intent, a session and a snapshot are the
  dictionaries \<open>_to_dict\<close> makes of them; a check that raises is \<open>Inl\<close> of the exception.  The
  messages of violations are left out.  The supervisor's \<open>is_owned\<close>, the compiled argument patterns
  (\<open>re\<close>) and the text of floats and containers are fields of the kernel.
\<close>

section \<open>Records and closed sets\<close>

datatype violation_code =
    DISPLAY_SCOPE_INVALID | TARGET_MISSING | TARGET_UNRESOLVABLE | FOREIGN_PROCESS | BUDGET_EXCEEDED
  | RESOURCE_LIMIT | SCHEMA_INVALID | CONFIRMATION_REQUIRED | CONFIRMATION_INVALID
  | LAUNCH_APP_NOT_ALLOWLISTED | LAUNCH_APP_ARGS_INVALID | SPAWN_ENV_OVERRIDE_FORBIDDEN
  | REAL_ACT_NOT_PERMITTED | ASK_MODE_DISABLED | GRANT_REQUIRED | GRANT_EXPIRED
  | CLEARANCE_TOKEN_INVALID | BROWSER_NOT_OPEN

definition action_types :: "string list" where
  "action_types = [''click'', ''double_click'', ''type'', ''hotkey'', ''scroll'', ''drag'', ''wait'',
     ''launch_app'', ''navigate'']"

definition risk_levels :: "string list" where
  "risk_levels = [''low'', ''medium'', ''high'', ''irreversible'']"

definition spatial :: "string list" where
  "spatial = [''click'', ''double_click'', ''type'', ''scroll'', ''drag'']"

record app_entry =
  exec_path :: string
  allowed_args_pattern :: "string option"
  default_args :: "string list"
  blocked_args :: "string list"

record app_policy =
  allowed_apps :: "(string \<times> app_entry) list"
  blocked_env_keys :: "string list"

definition default_app_launch_policy :: app_policy where
  "default_app_launch_policy = \<lparr>
     allowed_apps = [
       (''xclock'', \<lparr> exec_path = ''xclock'', allowed_args_pattern = Some ''^-.*$|^$'', default_args = [], blocked_args = [] \<rparr>),
       (''xeyes'', \<lparr> exec_path = ''xeyes'', allowed_args_pattern = Some ''^-.*$|^$'', default_args = [], blocked_args = [] \<rparr>),
       (''true'', \<lparr> exec_path = ''true'', allowed_args_pattern = Some ''.*'', default_args = [], blocked_args = [] \<rparr>),
       (''test-gui-app'', \<lparr> exec_path = ''true'', allowed_args_pattern = Some ''^--test-mode$|^$'', default_args = [],
          blocked_args = [''--dangerous''] \<rparr>)],
     blocked_env_keys = [''DISPLAY'', ''WAYLAND_DISPLAY'', ''XAUTHORITY'', ''LD_PRELOAD''] \<rparr>"

record coordinate_target =
  ct_x :: int
  ct_y :: int

text \<open>\<open>asdict\<close> of a \<open>CoordinateTarget\<close> made from two coordinates.\<close>

definition coordinate_dict :: "coordinate_target \<Rightarrow> pydict" where
  "coordinate_dict c = [(''kind'', PStr ''coordinate''), (''x'', PInt (ct_x c)), (''y'', PInt (ct_y c)),
     (''coordinate_space'', PStr ''display''), (''window_id'', PNone), (''tolerance_px'', PInt 3)]"

record action_spec =
  as_action_id :: string
  as_type :: pyval
  as_display_scope :: pyval
  as_target :: "pydict option"
  as_source_handle_id :: pyval
  as_text :: pyval
  as_hotkey :: pyval
  as_scroll_delta :: pyval
  as_drag_to :: pyval
  as_wait_ms :: pyval
  as_url :: pyval
  as_app :: pyval
  as_app_args :: pyval
  as_rationale :: pyval
  as_risk_level :: pyval
  as_confirmation_token :: pyval
  as_clearance_token :: "string option"

text \<open>\<open>ActionSpec.__post_init__\<close>.\<close>

definition check_action_spec :: "action_spec \<Rightarrow> pyexn + action_spec" where
  "check_action_spec s =
     ebind (in_str_set (as_display_scope s) [''isolated'', ''real_act'']) (\<lambda>known_scope.
     if \<not> known_scope then Inl ValueError
     else if as_display_scope s = PStr ''real_act'' \<and>
             (case as_clearance_token s of None \<Rightarrow> True | Some t \<Rightarrow> t = [] \<or> py_strip t = []) then Inl ValueError
     else ebind (in_str_set (as_type s) action_types) (\<lambda>known_type.
     if \<not> known_type then Inl ValueError
     else ebind (in_str_set (as_risk_level s) risk_levels) (\<lambda>known_risk.
     if \<not> known_risk then Inl ValueError else Inr s)))"

record validation_result =
  valid :: bool
  violations :: "violation_code list option"
  normalized_action :: "action_spec option"

definition rejected :: "violation_code list \<Rightarrow> validation_result" where
  "rejected vs = \<lparr> valid = False, violations = Some vs, normalized_action = None \<rparr>"

definition accepted :: "action_spec \<Rightarrow> validation_result" where
  "accepted s = \<lparr> valid = True, violations = Some [], normalized_action = Some s \<rparr>"

record kernel =
  k_is_owned :: "int \<Rightarrow> bool"
  k_policy :: app_policy
  k_compile :: "string \<Rightarrow> (string \<Rightarrow> bool) option"
  k_repr :: "pyval \<Rightarrow> string"

section \<open>Risk\<close>

definition drastic :: "string \<Rightarrow> bool" where
  "drastic rat = (py_in ''reboot'' rat \<or> py_in ''destroy'' rat \<or> py_in ''rm -rf'' rat)"

text \<open>\<open>(d.get("rationale") or "").lower()\<close>.\<close>

definition rationale_text :: "pydict \<Rightarrow> pyexn + string" where
  "rationale_text d = (let v = py_or (dget d ''rationale'') (PStr []) in
     case str_opt v of None \<Rightarrow> Inl AttributeError | Some s \<Rightarrow> Inr (py_lower s))"

definition classify_risk :: "pyval \<Rightarrow> string option \<Rightarrow> pyexn + pyval" where
  "classify_risk intent scope =
     (let d = as_dict intent; r = dget_or d ''risk_level'' (PStr ''low'')
      in ebind (rationale_text d) (\<lambda>rat.
         if scope = Some ''real_act'' then
           (if drastic rat then Inr (PStr ''irreversible'') else Inr r)
         else if drastic rat \<or> py_in '':0'' rat then Inr (PStr ''irreversible'')
         else Inr r))"

abbreviation high_risk :: "pyval \<Rightarrow> bool" where
  "high_risk r \<equiv> r = PStr ''high'' \<or> r = PStr ''irreversible''"

datatype gate_type = ALLOW | REQUIRE_CONFIRMATION | DENY_GATE

record gate_decision =
  gd_gate :: gate_type
  gd_pending_intent_id :: pyval

definition require_confirmation :: "pyval \<Rightarrow> string option \<Rightarrow> pyexn + gate_decision" where
  "require_confirmation intent scope =
     (let d = as_dict intent
      in ebind (classify_risk intent scope) (\<lambda>risk.
         if high_risk risk \<and> \<not> truthy (dget d ''confirmation_token'')
         then Inr \<lparr> gd_gate = REQUIRE_CONFIRMATION, gd_pending_intent_id = py_or (dget d ''intent_id'') (PStr ''i'') \<rparr>
         else Inr \<lparr> gd_gate = ALLOW, gd_pending_intent_id = PNone \<rparr>))"

section \<open>Launching applications\<close>

definition metachars :: string where
  "metachars = '';&|`$()<>[]{}*?^~'' @ [CHR 0x0A, CHR 0x0D]"

definition has_metachar :: "string \<Rightarrow> bool" where
  "has_metachar v = list_ex (\<lambda>c. c \<in> set metachars) v"

text \<open>\<open>app not in policy.allowed_apps\<close> for a truthy \<open>app\<close>, and the entry.\<close>

definition policy_entry :: "app_policy \<Rightarrow> pyval \<Rightarrow> pyexn + app_entry option" where
  "policy_entry p app =
     (if \<not> truthy app then Inr None
      else case app of
        PStr s \<Rightarrow> Inr (map_of (allowed_apps p) s)
      | PList _ \<Rightarrow> Inl TypeError
      | PDict _ \<Rightarrow> Inl TypeError
      | _ \<Rightarrow> Inr None)"

definition arg_violations :: "kernel \<Rightarrow> app_entry \<Rightarrow> string list \<Rightarrow> violation_code list" where
  "arg_violations k e args =
     (let pat_str = truthy_str (allowed_args_pattern e);
          pat = Option.bind pat_str (k_compile k)
      in (if pat_str \<noteq> None \<and> pat = None then [LAUNCH_APP_ARGS_INVALID] else []) @
         concat (map (\<lambda>v.
           if v \<in> set (blocked_args e) then [LAUNCH_APP_ARGS_INVALID]
           else case pat of
                  None \<Rightarrow> []
                | Some fullmatch \<Rightarrow> if fullmatch v then [] else [LAUNCH_APP_ARGS_INVALID]) args))"

definition validate_launch_app :: "kernel \<Rightarrow> pyval \<Rightarrow> pyval \<Rightarrow> app_policy \<Rightarrow> pyexn + violation_code list" where
  "validate_launch_app k app app_args policy =
     ebind (py_iter (py_or app_args (PList []))) (\<lambda>xs.
     let args = map (py_str (k_repr k)) xs
     in ebind (policy_entry policy app) (\<lambda>entry.
        Inr ((if entry = None then [LAUNCH_APP_NOT_ALLOWLISTED] else []) @
             concat (map (\<lambda>v. if has_metachar v then [LAUNCH_APP_ARGS_INVALID] else []) args) @
             (case entry of None \<Rightarrow> [] | Some e \<Rightarrow> arg_violations k e args))))"

section \<open>Schema, budgets and element provenance\<close>

abbreviation falsy :: "pyval \<Rightarrow> bool" where
  "falsy v \<equiv> \<not> truthy v"

definition schema_violations :: "pydict \<Rightarrow> pydict \<Rightarrow> bool \<Rightarrow> violation_code list" where
  "schema_violations a tgt known =
     (let typ = dget a ''type''; isn = (\<lambda>s. typ = PStr s); missing = (\<lambda>f. falsy (dget a f)) in
      (if \<not> known then [SCHEMA_INVALID] else []) @
      (if list_ex isn spatial \<and> tgt = [] then [TARGET_MISSING] else []) @
      (if isn ''wait'' \<and> dget a ''wait_ms'' = PNone then [SCHEMA_INVALID] else []) @
      (if isn ''launch_app'' \<and> missing ''app'' then [LAUNCH_APP_NOT_ALLOWLISTED] else []) @
      (if isn ''navigate'' \<and> missing ''url'' then [SCHEMA_INVALID] else []) @
      (if isn ''hotkey'' \<and> missing ''hotkey'' then [SCHEMA_INVALID] else []) @
      (if isn ''scroll'' \<and> missing ''scroll_delta'' then [SCHEMA_INVALID] else []) @
      (if isn ''drag'' \<and> missing ''drag_to'' then [SCHEMA_INVALID] else []))"

text \<open>\<open>(sb.get("budgets") or {}).get(key, 200)\<close>, read as an integer.\<close>

definition budget :: "pydict \<Rightarrow> string \<Rightarrow> pyexn + int" where
  "budget sb key = (let b = py_or (dget sb ''budgets'') (PDict []) in
     case dict_opt b of None \<Rightarrow> Inl AttributeError | Some bd \<Rightarrow> to_int (dget_or bd key (PInt 200)))"

definition budget_violations :: "pyval \<Rightarrow> int \<Rightarrow> int \<Rightarrow> pyexn + violation_code list" where
  "budget_violations session step actions =
     (let sb = as_dict session in
      ebind (budget sb ''max_steps'') (\<lambda>ms.
      ebind (budget sb ''max_actions'') (\<lambda>ma.
      Inr ((if step \<ge> ms then [BUDGET_EXCEEDED] else []) @ (if actions \<ge> ma then [BUDGET_EXCEEDED] else [])))))"

type_synonym snapshots = "(string \<times> pyval) list"

text \<open>\<open>sn.get("elements") or []\<close>, iterated.\<close>

definition elements_of :: "pyval \<Rightarrow> pyexn + pyval list" where
  "elements_of sn = py_iter (py_or (dget (as_dict sn) ''elements'') (PList []))"

definition foreign_element :: "kernel \<Rightarrow> pyval \<Rightarrow> pyval \<Rightarrow> bool" where
  "foreign_element k hid e =
     (let ed = as_dict e; pid = dget ed ''app_pid'' in
      py_eq (dget ed ''handle_id'') hid \<and> pid \<noteq> PNone \<and>
      (case to_int pid of Inl _ \<Rightarrow> True | Inr p \<Rightarrow> \<not> k_is_owned k p))"

fun foreign_violations :: "kernel \<Rightarrow> pyval \<Rightarrow> snapshots \<Rightarrow> pyexn + violation_code list" where
  "foreign_violations k hid [] = Inr []"
| "foreign_violations k hid ((s, sn) # rest) =
     ebind (elements_of sn) (\<lambda>es.
     ebind (foreign_violations k hid rest) (\<lambda>vs.
     Inr (map (\<lambda>_. FOREIGN_PROCESS) (filter (foreign_element k hid) es) @ vs)))"

section \<open>Target resolution\<close>

text \<open>\<open>(b.get("w", 0) or 0) // 2\<close>, and \<open>int(b.get("x", 0) + ...)\<close>.\<close>

definition half_of :: "pyval \<Rightarrow> pyexn + rat" where
  "half_of v = (case num_opt (py_or v (PInt 0)) of None \<Rightarrow> Inl TypeError | Some q \<Rightarrow> Inr (of_int \<lfloor>q / 2\<rfloor>))"

definition middle :: "pydict \<Rightarrow> string \<Rightarrow> string \<Rightarrow> pyexn + int" where
  "middle b pos extent =
     ebind (half_of (dget_or b extent (PInt 0))) (\<lambda>h.
     case num_opt (dget_or b pos (PInt 0)) of None \<Rightarrow> Inl TypeError | Some q \<Rightarrow> Inr (trunc (q + h)))"

definition center :: "pyval \<Rightarrow> pyexn + coordinate_target" where
  "center e =
     (case dict_opt (py_or (dget (as_dict e) ''bbox'') (PDict [])) of
        None \<Rightarrow> Inl AttributeError
      | Some b \<Rightarrow>
          ebind (middle b ''x'' ''w'') (\<lambda>x. ebind (middle b ''y'' ''h'') (\<lambda>y. Inr \<lparr> ct_x = x, ct_y = y \<rparr>)))"

fun element_center :: "pyval \<Rightarrow> snapshots \<Rightarrow> pyexn + coordinate_target" where
  "element_center hid [] = Inl ValueError"
| "element_center hid ((s, sn) # rest) =
     ebind (elements_of sn) (\<lambda>es.
     case find (\<lambda>e. py_eq (dget (as_dict e) ''handle_id'') hid) es of
       Some e \<Rightarrow> center e
     | None \<Rightarrow> element_center hid rest)"

datatype resolved = Point coordinate_target | Dom pydict

definition point_target :: "pydict \<Rightarrow> pyexn + coordinate_target" where
  "point_target tgt =
     ebind (to_int (dget_or tgt ''x'' (PInt 0))) (\<lambda>x.
     ebind (to_int (dget_or tgt ''y'' (PInt 0))) (\<lambda>y. Inr \<lparr> ct_x = x, ct_y = y \<rparr>))"

definition resolve_target :: "pyval \<Rightarrow> snapshots \<Rightarrow> pyexn + resolved" where
  "resolve_target intent snaps =
     (let a = as_dict (dget (as_dict intent) ''action'') in
      case dict_opt (py_or (dget a ''target'') (PDict [])) of
        None \<Rightarrow> Inl AttributeError
      | Some tgt \<Rightarrow>
          if dget tgt ''kind'' = PStr ''coordinate'' then ebind (point_target tgt) (\<lambda>c. Inr (Point c))
          else if dget tgt ''kind'' = PStr ''dom'' then Inr (Dom tgt)
          else if dget tgt ''kind'' = PStr ''element''
            then ebind (element_center (dget tgt ''handle_id'') snaps) (\<lambda>c. Inr (Point c))
          else Inl ValueError)"

section \<open>The gate\<close>

definition gate_violations :: "kernel \<Rightarrow> pyval \<Rightarrow> pyval \<Rightarrow> int \<Rightarrow> int \<Rightarrow> snapshots \<Rightarrow> pyexn + violation_code list \<times> pyval" where
  "gate_violations k intent session step actions snaps =
     (let d = as_dict intent; a = as_dict (dget d ''action''); typ = dget a ''type'';
          tgt = as_dict (dget a ''target'') in
      ebind (in_str_set typ action_types) (\<lambda>known.
      ebind (budget_violations session step actions) (\<lambda>bvs.
      ebind (if typ = PStr ''launch_app''
             then validate_launch_app k (dget a ''app'') (dget a ''app_args'') (k_policy k) else Inr []) (\<lambda>lvs.
      ebind (classify_risk intent None) (\<lambda>risk.
      ebind (if dget tgt ''kind'' = PStr ''element''
             then foreign_violations k (dget tgt ''handle_id'') snaps else Inr []) (\<lambda>fvs.
      Inr (schema_violations a tgt known @ bvs @ lvs @
           (if high_risk risk \<and> falsy (dget d ''confirmation_token'') then [CONFIRMATION_REQUIRED] else []) @ fvs,
           risk)))))))"

text \<open>The coordinate target and the source handle of an accepted action; \<open>None\<close> is
  \<open>TARGET_UNRESOLVABLE\<close>.\<close>

definition gate_target :: "pyval \<Rightarrow> snapshots \<Rightarrow> (coordinate_target option \<times> pyval) option" where
  "gate_target intent snaps =
     (let a = as_dict (dget (as_dict intent) ''action''); typ = dget a ''type'';
          tgt = as_dict (dget a ''target''); kind = dget tgt ''kind'';
          dom = (typ = PStr ''click'' \<or> typ = PStr ''type'') \<and> kind = PStr ''dom'' in
      if kind = PStr ''coordinate'' then
        (case point_target tgt of Inl _ \<Rightarrow> None | Inr c \<Rightarrow> Some (Some c, PNone))
      else if kind = PStr ''element'' then
        (case resolve_target intent snaps of
           Inr (Point c) \<Rightarrow> Some (Some c, dget tgt ''handle_id'')
         | _ \<Rightarrow> None)
      else if dom then Some (None, PNone)
      else if list_ex (\<lambda>s. typ = PStr s) spatial then None
      else Some (None, PNone))"

definition isolated_spec :: "pyval \<Rightarrow> coordinate_target option \<Rightarrow> pyval \<Rightarrow> pyval \<Rightarrow> nat \<Rightarrow> action_spec" where
  "isolated_spec intent coord sh risk now_ms =
     (let d = as_dict intent; a = as_dict (dget d ''action''); typ = dget a ''type'';
          tgt = as_dict (dget a ''target'');
          dom = (typ = PStr ''click'' \<or> typ = PStr ''type'') \<and> dget tgt ''kind'' = PStr ''dom'' in
      \<lparr> as_action_id = ''act-'' @ show_nat now_ms, as_type = typ, as_display_scope = PStr ''isolated'',
        as_target = (case coord of Some c \<Rightarrow> Some (coordinate_dict c) | None \<Rightarrow> if dom then Some tgt else None),
        as_source_handle_id = sh, as_text = dget a ''text'', as_hotkey = dget a ''hotkey'',
        as_scroll_delta = dget a ''scroll_delta'', as_drag_to = dget a ''drag_to'',
        as_wait_ms = dget a ''wait_ms'', as_url = dget a ''url'', as_app = dget a ''app'',
        as_app_args = dget a ''app_args'', as_rationale = dget_or d ''rationale'' (PStr []),
        as_risk_level = risk, as_confirmation_token = dget d ''confirmation_token'',
        as_clearance_token = None \<rparr>)"

definition validate :: "kernel \<Rightarrow> pyval \<Rightarrow> pyval \<Rightarrow> int \<Rightarrow> int \<Rightarrow> snapshots \<Rightarrow> nat \<Rightarrow> pyexn + validation_result" where
  "validate k intent session step actions snaps now_ms =
     (if dget (as_dict (dget (as_dict intent) ''action'')) ''display_scope'' \<noteq> PStr ''isolated''
      then Inr (rejected [DISPLAY_SCOPE_INVALID])
      else ebind (gate_violations k intent session step actions snaps) (\<lambda>(vs, risk).
        if vs \<noteq> [] then Inr (rejected vs)
        else case gate_target intent snaps of
               None \<Rightarrow> Inr (rejected [TARGET_UNRESOLVABLE])
             | Some (coord, sh) \<Rightarrow>
                 (case check_action_spec (isolated_spec intent coord sh risk now_ms) of
                    Inl _ \<Rightarrow> Inr (rejected [SCHEMA_INVALID])
                  | Inr s \<Rightarrow> Inr (accepted s))))"

section \<open>Spawn requests\<close>

record spawn_spec =
  sp_argv :: "string list"
  sp_display_scope :: string
  sp_env :: "(string \<times> string) list"
  sp_no_shell :: bool

text \<open>\<open>SpawnSpec.__post_init__\<close>.\<close>

definition check_spawn_spec :: "spawn_spec \<Rightarrow> pyexn + spawn_spec" where
  "check_spawn_spec s =
     (if sp_display_scope s \<noteq> ''isolated'' then Inl ValueError
      else if \<not> sp_no_shell s then Inl ValueError
      else if sp_argv s = [] then Inl ValueError
      else Inr s)"

definition x_keys :: "string list" where
  "x_keys = [''DISPLAY'', ''XAUTHORITY'', ''WAYLAND_DISPLAY'']"

definition real_display_value :: "string \<Rightarrow> bool" where
  "real_display_value v = (py_in '':0'' v \<or> py_in '':0.'' v \<or> py_in ''.Xauthority'' v \<or>
     py_in ''/.Xauthority'' v \<or> py_strip v = [])"

definition validate_spawn_request :: "spawn_spec \<Rightarrow> validation_result" where
  "validate_spawn_request spec =
     (let vs0 = (if sp_display_scope spec \<noteq> ''isolated'' then [SPAWN_ENV_OVERRIDE_FORBIDDEN] else []) @
                concat (map (\<lambda>(k, v). if k \<in> set x_keys \<and> real_display_value v
                                       then [SPAWN_ENV_OVERRIDE_FORBIDDEN] else []) (sp_env spec));
          vs = vs0 @ (if list_ex (\<lambda>(k, v). py_in '':0'' v) (sp_env spec) \<and>
                         \<not> list_ex (\<lambda>c. c = SPAWN_ENV_OVERRIDE_FORBIDDEN) vs0
                      then [SPAWN_ENV_OVERRIDE_FORBIDDEN] else [])
      in \<lparr> valid = (vs = []), violations = (if vs = [] then None else Some vs), normalized_action = None \<rparr>)"

end
