(* ===== verification/Ownership.thy ===== *)
theory Ownership
  imports Py_Prelude "HOL-Library.Product_Lexorder"
begin

text \<open>
  Who owns the target of an action (\<open>computer_use/ownership.py\<close>): the capture of the baseline, the
  classification of a process id, and the resolution of a target to the process it belongs to, for
  the production resolver and for the double the tests use.  The live supervisor, the process list
  and the output of the window tools are arguments.  The locale \<open>ownership\<close> is the contract the
  action gate relies on; both resolvers are interpretations of it.
\<close>

section \<open>Windows under a point\<close>

definition bbox_hit :: "int \<Rightarrow> int \<Rightarrow> pyval \<Rightarrow> bool" where
  "bbox_hit x y bbox = (case dict_opt bbox of
       None \<Rightarrow> False
     | Some b \<Rightarrow>
         (case (to_int (dget_or b ''x'' (PInt 0)), to_int (dget_or b ''y'' (PInt 0)),
                to_int (dget_or b ''w'' (PInt 0)), to_int (dget_or b ''h'' (PInt 0))) of
            (Inr bx, Inr by, Inr bw, Inr bh) \<Rightarrow>
              bw > 0 \<and> bh > 0 \<and> bx \<le> x \<and> x < bx + bw \<and> by \<le> y \<and> y < by + bh
          | _ \<Rightarrow> False))"

text \<open>\<open>int(w.get("z_index") or 0)\<close>, 0 when that raises.\<close>

definition z_of :: "pydict \<Rightarrow> int" where
  "z_of w = (case to_int (py_or (dget w ''z_index'') (PInt 0)) of Inl _ \<Rightarrow> 0 | Inr z \<Rightarrow> z)"

fun hits_at :: "int \<Rightarrow> int \<Rightarrow> pyval list \<Rightarrow> (int \<times> int) list" where
  "hits_at x y [] = []"
| "hits_at x y (v # vs) = (case dict_opt v of
       None \<Rightarrow> hits_at x y vs
     | Some w \<Rightarrow>
         if \<not> bbox_hit x y (dget w ''bbox'') then hits_at x y vs
         else case pos_int (dget w ''pid'') of
                None \<Rightarrow> hits_at x y vs
              | Some p \<Rightarrow> (z_of w, p) # hits_at x y vs)"

definition topmost_pid_for_point :: "pyval list \<Rightarrow> int \<Rightarrow> int \<Rightarrow> int option" where
  "topmost_pid_for_point windows x y =
     (let hits = hits_at x y windows
      in if hits = [] then None else Some (snd (hd (rev (sort hits)))))"

section \<open>The baseline\<close>

text \<open>\<open>re.search(r"=\s*(\d+)", out)\<close> and the positive number it found.\<close>

fun first_number_after_eq :: "string \<Rightarrow> nat option" where
  "first_number_after_eq [] = None"
| "first_number_after_eq (c # cs) =
     (if c = CHR ''='' then
        (let ds = takeWhile is_digit (dropWhile py_space cs)
         in if ds = [] then first_number_after_eq cs else Some (read_nat ds))
      else first_number_after_eq cs)"

definition extract_pid_from_xprop :: "(string list \<Rightarrow> string) \<Rightarrow> string \<Rightarrow> int option" where
  "extract_pid_from_xprop sh wid =
     (case first_number_after_eq (sh [''xprop'', ''-id'', wid, ''_NET_WM_PID'']) of
        None \<Rightarrow> None
      | Some p \<Rightarrow> if p > 0 then Some (int p) else None)"

type_synonym window_map = "string \<Rightarrow> int option option"

text \<open>One line of \<open>wmctrl -lp\<close>, and one line of \<open>wmctrl -l\<close>.\<close>

definition read_lp_line :: "window_map \<Rightarrow> string \<Rightarrow> window_map" where
  "read_lp_line m line = (case py_words [] line of
       wid # a # pid # _ \<Rightarrow>
         (case py_int pid of
            None \<Rightarrow> m(wid \<mapsto> None)
          | Some p \<Rightarrow> m(wid \<mapsto> (if p > 0 then Some p else None)))
     | _ \<Rightarrow> m)"

definition read_l_line :: "(string list \<Rightarrow> string) \<Rightarrow> window_map \<Rightarrow> string \<Rightarrow> window_map" where
  "read_l_line sh m line = (case py_words [] line of
       [] \<Rightarrow> m
     | wid # _ \<Rightarrow>
         (case m wid of
            Some (Some p) \<Rightarrow> if p > 0 then m else m(wid \<mapsto> extract_pid_from_xprop sh wid)
          | _ \<Rightarrow> m(wid \<mapsto> extract_pid_from_xprop sh wid)))"

definition window_pids :: "(string list \<Rightarrow> string) \<Rightarrow> window_map" where
  "window_pids sh =
     (let primary = foldl read_lp_line Map.empty (split_lines [] (sh [''wmctrl'', ''-lp'']))
      in foldl (read_l_line sh) primary (split_lines [] (sh [''wmctrl'', ''-l''])))"

text \<open>
  The resolver.  \<open>supervisor\<close> answers \<open>is_owned\<close> (\<open>None\<close>: it raised); \<open>capture_baseline\<close> gets the
  process list (\<open>None\<close>: \<open>psutil.pids()\<close> raised), the outputs of the tools, and the time.
\<close>

record resolver =
  baseline_pids :: "int set"
  baseline_windows :: window_map
  supervisor :: "(int \<Rightarrow> bool option) option"

record baseline_report =
  b_pids :: "int set"
  b_windows :: window_map
  b_captured_at :: rat
  b_display :: string

definition capture_baseline :: "int list option \<Rightarrow> (string list \<Rightarrow> string) \<Rightarrow> rat \<Rightarrow> resolver \<Rightarrow> string
    \<Rightarrow> baseline_report \<times> resolver" where
  "capture_baseline live sh now r display =
     (let pids = (case live of None \<Rightarrow> {} | Some ps \<Rightarrow> set ps); wins = window_pids sh
      in (\<lparr> b_pids = pids, b_windows = wins, b_captured_at = now, b_display = display \<rparr>,
          r\<lparr> baseline_pids := pids, baseline_windows := wins \<rparr>))"

section \<open>Classification and resolution\<close>

abbreviation "OWNED \<equiv> ''OWNED''"
abbreviation "FOREIGN \<equiv> ''FOREIGN''"

definition classify :: "resolver \<Rightarrow> pyval \<Rightarrow> string" where
  "classify r pid = (case pos_int pid of
       None \<Rightarrow> FOREIGN
     | Some p \<Rightarrow>
         if p \<in> baseline_pids r then FOREIGN
         else case supervisor r of
                None \<Rightarrow> FOREIGN
              | Some is_owned \<Rightarrow> if is_owned p = Some True then OWNED else FOREIGN)"

text \<open>The first of \<open>app_pid\<close>, \<open>pid\<close> that is a positive integer.\<close>

definition claimed_pid :: "pydict \<Rightarrow> int option" where
  "claimed_pid target = (case pos_int (dget target ''app_pid'') of
       Some p \<Rightarrow> Some p | None \<Rightarrow> pos_int (dget target ''pid''))"

text \<open>The first window with the id \<open>wid\<close> and a usable process id.\<close>

fun pid_of_window :: "pyval \<Rightarrow> pyval list \<Rightarrow> int option" where
  "pid_of_window wid [] = None"
| "pid_of_window wid (v # vs) = (case dict_opt v of
       None \<Rightarrow> pid_of_window wid vs
     | Some w \<Rightarrow>
         if py_eq (dget w ''window_id'') wid \<and> pos_int (dget w ''pid'') \<noteq> None
         then pos_int (dget w ''pid'') else pid_of_window wid vs)"

definition point_pid :: "pydict \<Rightarrow> pyval list \<Rightarrow> int option" where
  "point_pid target windows =
     (case (to_int (dget_or target ''x'' (PInt (- 1000000000))),
            to_int (dget_or target ''y'' (PInt (- 1000000000)))) of
        (Inr x, Inr y) \<Rightarrow> topmost_pid_for_point windows x y
      | _ \<Rightarrow> None)"

definition has_point :: "pydict \<Rightarrow> bool" where
  "has_point target = (map_of target ''x'' \<noteq> None \<and> map_of target ''y'' \<noteq> None)"

definition resolve_target_to_pid :: "pyval \<Rightarrow> pyval list \<Rightarrow> int option" where
  "resolve_target_to_pid target windows = (case dict_opt target of
       None \<Rightarrow> None
     | Some t \<Rightarrow>
         if dget t ''kind'' = PStr ''element'' then
           (case claimed_pid t of
              Some p \<Rightarrow> Some p
            | None \<Rightarrow>
                if truthy (dget t ''window_id'') then pid_of_window (dget t ''window_id'') windows else None)
         else if dget t ''kind'' = PStr ''coordinate'' \<or> has_point t then point_pid t windows
         else None)"

section \<open>The test double\<close>

record fake_resolver =
  f_baseline :: "int set"
  f_owned :: "int set"

definition fake_classify :: "fake_resolver \<Rightarrow> pyval \<Rightarrow> string" where
  "fake_classify f pid = (case pos_int pid of
       None \<Rightarrow> FOREIGN
     | Some p \<Rightarrow> if p \<in> f_baseline f then FOREIGN else if p \<in> f_owned f then OWNED else FOREIGN)"

definition fake_resolve :: "pyval \<Rightarrow> pyval list \<Rightarrow> int option" where
  "fake_resolve target windows = (case dict_opt target of
       None \<Rightarrow> None
     | Some t \<Rightarrow>
         (case claimed_pid t of
            Some p \<Rightarrow> Some p
          | None \<Rightarrow>
              (case (if truthy (dget t ''window_id'') then pid_of_window (dget t ''window_id'') windows else None) of
                 Some p \<Rightarrow> Some p
               | None \<Rightarrow>
                   if dget t ''kind'' = PStr ''coordinate'' \<or> has_point t then point_pid t windows else None)))"

section \<open>The contract of an ownership resolver\<close>

locale ownership =
  fixes cls :: "'r \<Rightarrow> pyval \<Rightarrow> string"
    and base :: "'r \<Rightarrow> int set"
    and claims :: "'r \<Rightarrow> int \<Rightarrow> bool"
    and res :: "pyval \<Rightarrow> pyval list \<Rightarrow> int option"
  assumes owned: "cls r pid = OWNED \<longleftrightarrow> (\<exists>p. pos_int pid = Some p \<and> p \<notin> base r \<and> claims r p)"
    and two_classes: "cls r pid = OWNED \<or> cls r pid = FOREIGN"
    and resolved_pos: "res target windows = Some p \<Longrightarrow> 0 < p"
begin

lemma baseline_foreign: "p \<in> base r \<Longrightarrow> cls r (PInt p) = FOREIGN"
  using two_classes [of r "PInt p"] owned [of r "PInt p"] by (auto simp: pos_int_Some)

lemma unclaimed_foreign: "\<not> claims r p \<Longrightarrow> cls r (PInt p) = FOREIGN"
  using two_classes [of r "PInt p"] owned [of r "PInt p"] by (auto simp: pos_int_Some)

lemma owned_target:
  assumes "res target windows = Some p"
  shows "cls r (PInt p) = OWNED \<longleftrightarrow> p \<notin> base r \<and> claims r p"
  using resolved_pos [OF assms] owned [of r "PInt p"] by (auto simp: pos_int_def)

end

lemma hits_at_iff:
  "(z, p) \<in> set (hits_at x y windows) \<longleftrightarrow>
     (\<exists>w. PDict w \<in> set windows \<and> bbox_hit x y (dget w ''bbox'') \<and>
          pos_int (dget w ''pid'') = Some p \<and> z = z_of w)"
proof (induction windows)
  case (Cons v vs)
  then show ?case by (cases v) (auto split: option.splits)
qed simp

lemma hd_rev_sort:
  assumes "xs \<noteq> []"
  shows "hd (rev (sort xs)) = h \<longleftrightarrow> h \<in> set xs \<and> (\<forall>k \<in> set xs. k \<le> h)"
proof -
  let ?l = "hd (rev (sort xs))"
  have ne: "sort xs \<noteq> []" using assms by simp
  have m: "?l \<in> set xs" using ne by (metis hd_in_set rev_is_Nil_conv set_rev set_sort)
  have "k \<le> ?l" if "k \<in> set xs" for k
  proof -
    from that have "k \<in> set (sort xs)" by simp
    then obtain i where i: "i < length (sort xs)" "sort xs ! i = k" by (metis in_set_conv_nth)
    have "sort xs ! i \<le> sort xs ! (length (sort xs) - 1)"
      by (rule sorted_nth_mono) (use i in auto)
    with i show ?thesis using ne by (simp add: hd_rev last_conv_nth)
  qed
  with m show ?thesis by (auto intro: order.antisym)
qed

lemma topmost_Some:
  "topmost_pid_for_point windows x y = Some p \<longleftrightarrow>
     (\<exists>z. (z, p) \<in> set (hits_at x y windows) \<and> (\<forall>k \<in> set (hits_at x y windows). k \<le> (z, p)))"
proof (cases "hits_at x y windows = []")
  case False
  let ?h = "hd (rev (sort (hits_at x y windows)))"
  have "topmost_pid_for_point windows x y = Some p \<longleftrightarrow> (\<exists>z. ?h = (z, p))"
    using False by (cases ?h) (auto simp: topmost_pid_for_point_def)
  then show ?thesis by (simp only: hd_rev_sort [OF False])
qed (simp add: topmost_pid_for_point_def)

lemma topmost_pos: "topmost_pid_for_point windows x y = Some p \<Longrightarrow> 0 < p"
  by (auto simp: topmost_Some hits_at_iff pos_int_Some)

lemma claimed_pos: "claimed_pid t = Some p \<Longrightarrow> 0 < p"
  by (auto simp: claimed_pid_def pos_int_Some split: option.splits)

lemma pid_of_window_pos: "pid_of_window wid windows = Some p \<Longrightarrow> 0 < p"
  by (induction windows) (auto simp: pos_int_Some split: option.splits if_splits)

lemma point_pos: "point_pid t windows = Some p \<Longrightarrow> 0 < p"
  by (auto simp: point_pid_def split: sum.splits dest: topmost_pos)

lemmas resolved_pos_facts = topmost_pos claimed_pos pid_of_window_pos point_pos

lemma resolve_pos: "resolve_target_to_pid target windows = Some p \<Longrightarrow> 0 < p"
  unfolding resolve_target_to_pid_def
  by (auto split: option.splits if_splits dest: resolved_pos_facts)

lemma fake_resolve_pos: "fake_resolve target windows = Some p \<Longrightarrow> 0 < p"
  unfolding fake_resolve_def
  by (auto split: option.splits if_splits dest: resolved_pos_facts)

text \<open>What the supervisor of a resolver says of a process.\<close>

definition claims_of :: "resolver \<Rightarrow> int \<Rightarrow> bool" where
  "claims_of r p = (case supervisor r of None \<Rightarrow> False | Some is_owned \<Rightarrow> is_owned p = Some True)"

lemma classify_iff:
  "classify r pid = OWNED \<longleftrightarrow> (\<exists>p. pos_int pid = Some p \<and> p \<notin> baseline_pids r \<and> claims_of r p)"
  "classify r pid = OWNED \<or> classify r pid = FOREIGN"
  by (auto simp: classify_def claims_of_def split: option.splits)

lemma fake_classify_iff:
  "fake_classify f pid = OWNED \<longleftrightarrow> (\<exists>p. pos_int pid = Some p \<and> p \<notin> f_baseline f \<and> p \<in> f_owned f)"
  "fake_classify f pid = OWNED \<or> fake_classify f pid = FOREIGN"
  by (auto simp: fake_classify_def split: option.splits)

interpretation real: ownership classify baseline_pids claims_of resolve_target_to_pid
  by unfold_locales (use classify_iff resolve_pos in \<open>blast+\<close>)

interpretation fake: ownership fake_classify f_baseline "\<lambda>f p. p \<in> f_owned f" fake_resolve
  by unfold_locales (use fake_classify_iff fake_resolve_pos in \<open>blast+\<close>)

section \<open>Window maps hold usable ids only\<close>

definition usable_map :: "window_map \<Rightarrow> bool" where
  "usable_map m = (\<forall>wid p. m wid = Some (Some p) \<longrightarrow> 0 < p)"

lemma usable_upd: "usable_map m \<Longrightarrow> (\<And>p. v = Some p \<Longrightarrow> 0 < p) \<Longrightarrow> usable_map (m(wid \<mapsto> v))"
  by (simp add: usable_map_def)

lemma usable_read_lp:
  assumes "usable_map m"
  shows "usable_map (read_lp_line m line)"
proof -
  have "usable_map (m(wid \<mapsto> None))" for wid by (rule usable_upd [OF assms]) simp
  moreover have "usable_map (m(wid \<mapsto> (if p > 0 then Some p else None)))" for wid p
    by (rule usable_upd [OF assms]) (simp split: if_splits)
  ultimately show ?thesis
    unfolding read_lp_line_def by (simp only: assms split: list.split option.split) simp
qed

lemma xprop_pos: "extract_pid_from_xprop sh wid = Some p \<Longrightarrow> 0 < p"
  by (auto simp: extract_pid_from_xprop_def split: option.splits if_splits)

lemma usable_read_l:
  assumes "usable_map m"
  shows "usable_map (read_l_line sh m line)"
proof -
  have probe: "usable_map (m(wid \<mapsto> extract_pid_from_xprop sh wid))" for wid
    by (rule usable_upd [OF assms]) (rule xprop_pos)
  show ?thesis
    unfolding read_l_line_def by (simp add: assms probe split: list.split option.split)
qed

lemma foldl_keeps: "P m \<Longrightarrow> (\<And>m l. P m \<Longrightarrow> P (f m l)) \<Longrightarrow> P (foldl f m ls)"
  by (induction ls arbitrary: m) auto

lemma window_pids_usable: "usable_map (window_pids sh)"
proof -
  have "usable_map (foldl read_lp_line Map.empty ls)" for ls
    by (rule foldl_keeps [where P = usable_map]) (simp_all add: usable_map_def [of Map.empty] usable_read_lp)
  then show ?thesis
    unfolding window_pids_def Let_def
    by (rule foldl_keeps [where P = usable_map, OF _ usable_read_l])
qed

section \<open>Properties\<close>

text \<open>Once the baseline is captured, every process alive at that moment is \<open>FOREIGN\<close> for the rest
  of the run, whatever a supervisor later claims; any other process is \<open>OWNED\<close> exactly when the live
  supervisor confirms it, and an invalid id never is.  The window map records positive ids only.\<close>

theorem baseline_stays_foreign:
  "classify ((snd (capture_baseline live sh now r display))\<lparr> supervisor := watcher \<rparr>) pid =
     (if \<exists>p is_owned. pos_int pid = Some p \<and> p \<notin> (case live of None \<Rightarrow> {} | Some ps \<Rightarrow> set ps) \<and>
           watcher = Some is_owned \<and> is_owned p = Some True
      then OWNED else FOREIGN) \<and>
   (case b_windows (fst (capture_baseline live sh now r display)) wid of
      Some (Some q) \<Rightarrow> 0 < q | _ \<Rightarrow> True)"
proof
  show "classify ((snd (capture_baseline live sh now r display))\<lparr> supervisor := watcher \<rparr>) pid =
     (if \<exists>p is_owned. pos_int pid = Some p \<and> p \<notin> (case live of None \<Rightarrow> {} | Some ps \<Rightarrow> set ps) \<and>
           watcher = Some is_owned \<and> is_owned p = Some True
      then OWNED else FOREIGN)"
    by (cases "pos_int pid"; cases watcher) (auto simp: classify_def capture_baseline_def Let_def)
  have "usable_map (b_windows (fst (capture_baseline live sh now r display)))"
    by (simp add: capture_baseline_def Let_def window_pids_usable)
  then show "case b_windows (fst (capture_baseline live sh now r display)) wid of
      Some (Some q) \<Rightarrow> 0 < q | _ \<Rightarrow> True"
    unfolding usable_map_def by (auto split: option.splits)
qed

text \<open>A point is attributed to the process of the topmost window under it: a hit with a usable
  process id that no other hit exceeds in stacking order, and among equals in process id; there is no
  answer exactly when no window with a usable id is under the point.\<close>

theorem topmost_exact:
  "(topmost_pid_for_point windows x y = Some p \<longleftrightarrow>
     (\<exists>w. PDict w \<in> set windows \<and> bbox_hit x y (dget w ''bbox'') \<and> pos_int (dget w ''pid'') = Some p \<and>
       (\<forall>v q. PDict v \<in> set windows \<and> bbox_hit x y (dget v ''bbox'') \<and> pos_int (dget v ''pid'') = Some q \<longrightarrow>
          z_of v < z_of w \<or> z_of v = z_of w \<and> q \<le> p))) \<and>
   (topmost_pid_for_point windows x y = None \<longleftrightarrow>
     (\<forall>v. PDict v \<in> set windows \<and> bbox_hit x y (dget v ''bbox'') \<longrightarrow> pos_int (dget v ''pid'') = None))"
proof
  have le: "((z, q) \<le> (z', p)) = (z < z' \<or> z = z' \<and> q \<le> p)" for z z' q p :: int
    by (auto simp: less_eq_prod_def)
  show "topmost_pid_for_point windows x y = Some p \<longleftrightarrow>
     (\<exists>w. PDict w \<in> set windows \<and> bbox_hit x y (dget w ''bbox'') \<and> pos_int (dget w ''pid'') = Some p \<and>
       (\<forall>v q. PDict v \<in> set windows \<and> bbox_hit x y (dget v ''bbox'') \<and> pos_int (dget v ''pid'') = Some q \<longrightarrow>
          z_of v < z_of w \<or> z_of v = z_of w \<and> q \<le> p))"
    unfolding topmost_Some Ball_def split_paired_All hits_at_iff le by blast
  have none: "(\<forall>z p. \<nexists>w. A w \<and> B w \<and> f w = Some p \<and> z = g w) \<longleftrightarrow> (\<forall>v. A v \<and> B v \<longrightarrow> f v = None)"
    for A B :: "pydict \<Rightarrow> bool" and f :: "pydict \<Rightarrow> int option" and g :: "pydict \<Rightarrow> int"
    by (metis option.exhaust option.distinct(1))
  have "hits_at x y windows = [] \<longleftrightarrow> (\<forall>z p. (z, p) \<notin> set (hits_at x y windows))"
    by (metis list.set_intros(1) neq_Nil_conv surj_pair empty_iff list.set(1))
  moreover have "topmost_pid_for_point windows x y = None \<longleftrightarrow> hits_at x y windows = []"
    by (simp add: topmost_pid_for_point_def Let_def)
  ultimately have "topmost_pid_for_point windows x y = None \<longleftrightarrow> (\<forall>z p. (z, p) \<notin> set (hits_at x y windows))"
    by simp
  then show "topmost_pid_for_point windows x y = None \<longleftrightarrow>
     (\<forall>v. PDict v \<in> set windows \<and> bbox_hit x y (dget v ''bbox'') \<longrightarrow> pos_int (dget v ''pid'') = None)"
    by (simp only: hits_at_iff none)
qed

definition box :: "int \<Rightarrow> int \<Rightarrow> int \<Rightarrow> int \<Rightarrow> pyval" where
  "box x y w h = PDict [(''x'', PInt x), (''y'', PInt y), (''w'', PInt w), (''h'', PInt h)]"

definition window :: "int \<Rightarrow> pyval \<Rightarrow> int \<Rightarrow> pyval" where
  "window pid bbox z = PDict [(''pid'', PInt pid), (''bbox'', bbox), (''z_index'', PInt z)]"

lemma topmost_exact_witness:
  "\<exists>w. PDict w \<in> set [window 11 (box 0 0 50 50) 2, window 12 (box 10 10 50 50) 7] \<and>
     bbox_hit 20 20 (dget w ''bbox'') \<and> pos_int (dget w ''pid'') = Some 12 \<and>
     (\<forall>v q. PDict v \<in> set [window 11 (box 0 0 50 50) 2, window 12 (box 10 10 50 50) 7] \<and>
        bbox_hit 20 20 (dget v ''bbox'') \<and> pos_int (dget v ''pid'') = Some q \<longrightarrow>
        z_of v < z_of w \<or> z_of v = z_of w \<and> q \<le> 12)"
proof -
  have "topmost_pid_for_point [window 11 (box 0 0 50 50) 2, window 12 (box 10 10 50 50) 7] 20 20 = Some 12"
    by code_simp
  then show ?thesis by (rule topmost_exact [THEN conjunct1, THEN iffD1])
qed

text \<open>The double the tests use classifies like the production resolver with the same baseline and
  registry, and resolves an element target without coordinates, and any other target without a process
  or window claim, to the same process.\<close>

theorem fake_agrees:
  assumes "f_baseline f = baseline_pids r"
    and "\<And>p. p \<in> f_owned f \<longleftrightarrow> claims_of r p"
    and "if dget t ''kind'' = PStr ''element'' then \<not> has_point t
         else claimed_pid t = None \<and> \<not> truthy (dget t ''window_id'')"
  shows "fake_classify f pid = classify r pid \<and>
         fake_resolve (PDict t) windows = resolve_target_to_pid (PDict t) windows"
proof
  have "fake_classify f pid = OWNED \<longleftrightarrow> classify r pid = OWNED"
    using assms(1, 2) by (simp add: fake.owned real.owned)
  then show "fake_classify f pid = classify r pid"
    using fake.two_classes [of f pid] real.two_classes [of r pid] by metis
  show "fake_resolve (PDict t) windows = resolve_target_to_pid (PDict t) windows"
    using assms(3) by (auto simp: fake_resolve_def resolve_target_to_pid_def split: option.splits if_splits)
qed

lemma fake_agrees_witness:
  "fake_classify \<lparr> f_baseline = {1001}, f_owned = {2001} \<rparr> (PInt 2001) = OWNED \<and>
   fake_resolve (PDict [(''kind'', PStr ''element''), (''app_pid'', PInt 2001)]) [] = Some 2001"
proof -
  let ?r = "\<lparr> baseline_pids = {1001}, baseline_windows = Map.empty,
      supervisor = Some (\<lambda>p. Some (p = 2001)) \<rparr>"
  have "fake_classify \<lparr> f_baseline = {1001}, f_owned = {2001} \<rparr> (PInt 2001) = classify ?r (PInt 2001) \<and>
    fake_resolve (PDict [(''kind'', PStr ''element''), (''app_pid'', PInt 2001)]) [] =
    resolve_target_to_pid (PDict [(''kind'', PStr ''element''), (''app_pid'', PInt 2001)]) []"
    by (rule fake_agrees) (simp_all add: claims_of_def has_point_def)
  moreover have "classify ?r (PInt 2001) = OWNED" by (simp add: classify_def pos_int_def)
  moreover have "resolve_target_to_pid (PDict [(''kind'', PStr ''element''), (''app_pid'', PInt 2001)]) [] = Some 2001"
    by code_simp
  ultimately show ?thesis by simp
qed

text \<open>The restriction matters: a point that names a process is resolved to that process by the double,
  to the window under it by the production resolver.\<close>

lemma fake_believes_the_target:
  "fake_resolve (PDict [(''kind'', PStr ''coordinate''), (''x'', PInt 5), (''y'', PInt 5), (''app_pid'', PInt 2001)])
     [window 777 (box 0 0 50 50) 1] = Some 2001"
  "resolve_target_to_pid (PDict [(''kind'', PStr ''coordinate''), (''x'', PInt 5), (''y'', PInt 5), (''app_pid'', PInt 2001)])
     [window 777 (box 0 0 50 50) 1] = Some 777"
  by code_simp+

text \<open>Two windows at the same height: the larger process id wins, not the first window.\<close>

lemma ties_go_to_the_larger_pid:
  "topmost_pid_for_point [window 11 (box 0 0 50 50) 1, window 12 (box 0 0 50 50) 1] 5 5 = Some 12"
  "topmost_pid_for_point [window 12 (box 0 0 50 50) 1, window 11 (box 0 0 50 50) 1] 5 5 = Some 12"
  by code_simp+

end
