(* ===== verification/Grants.thy ===== *)
theory Grants
  imports Py_Prelude
begin

text \<open>
  The grant cache of the computer-use worker (\<open>computer_use/grants.py\<close>): what the operator allowed
  towards a foreign process, per process id.  The state is the dictionary \<open>_store\<close>; the clock is
  injected and its reading is an argument of the operations that read it.  The specification is a
  function of the history of calls alone (\<open>authority_of\<close>): the locale \<open>permission_table\<close> states what
  a cache owes its caller, and derives that every answer is the one the history determines.
\<close>

section \<open>State\<close>

record grant_entry =
  e_scope :: string
  e_expiry :: "rat option"
  e_consumed :: bool
  e_consumed_by :: "string option"

type_synonym grant_store = "int \<Rightarrow> grant_entry option"

record grant_cache =
  store :: grant_store
  gc_run_id :: string

text \<open>The snapshot \<open>grant\<close> returns.\<close>

record grant =
  g_pid :: int
  g_scope :: string
  g_expires_at :: "string option"
  g_run_id :: string

abbreviation "ACTION \<equiv> ''ACTION''"
abbreviation "PROCESS_RUN \<equiv> ''PROCESS_RUN''"
abbreviation "PROCESS_TTL \<equiv> ''PROCESS_TTL''"
abbreviation "DENY \<equiv> ''DENY''"

definition new_cache :: "string option \<Rightarrow> grant_cache" where
  "new_cache rid = \<lparr> store = Map.empty, gc_run_id = (case rid of None \<Rightarrow> [] | Some r \<Rightarrow> r) \<rparr>"

section \<open>Operations\<close>

definition clear_for_pid :: "grant_cache \<Rightarrow> int \<Rightarrow> grant_cache" where
  "clear_for_pid c p = c\<lparr> store := (store c)(p := None) \<rparr>"

text \<open>
  \<open>grant(pid, scope, ttl_seconds)\<close> at clock reading \<open>now\<close>.  \<open>fmt\<close> formats an instant as
  \<open>datetime.fromtimestamp(...).isoformat()\<close> does; it fails (\<open>None\<close>) outside the range of
  \<open>datetime\<close>, and then the call raises before anything is stored.
\<close>

definition grant_pid :: "(rat \<Rightarrow> string option) \<Rightarrow> rat \<Rightarrow> grant_cache \<Rightarrow> pyval \<Rightarrow> string \<Rightarrow> rat option
    \<Rightarrow> grant option \<times> grant_cache" where
  "grant_pid fmt now c pid scope ttl =
     (case pos_int pid of
        None \<Rightarrow>
          (Some \<lparr> g_pid = (case int_opt pid of None \<Rightarrow> 0 | Some i \<Rightarrow> i), g_scope = DENY,
                  g_expires_at = None, g_run_id = gc_run_id c \<rparr>, c)
      | Some p \<Rightarrow>
          if scope = DENY then
            (Some \<lparr> g_pid = p, g_scope = DENY, g_expires_at = None, g_run_id = gc_run_id c \<rparr>,
             clear_for_pid c p)
          else if scope = PROCESS_TTL then
            (let secs = (case ttl of None \<Rightarrow> 600 | Some t \<Rightarrow> t); expiry = now + secs
             in case fmt expiry of
                  None \<Rightarrow> (None, c)
                | Some stamp \<Rightarrow>
                    (Some \<lparr> g_pid = p, g_scope = PROCESS_TTL, g_expires_at = Some stamp, g_run_id = gc_run_id c \<rparr>,
                     c\<lparr> store := (store c)(p \<mapsto> \<lparr> e_scope = PROCESS_TTL, e_expiry = Some expiry,
                                              e_consumed = False, e_consumed_by = None \<rparr>) \<rparr>))
          else
            (let sc = (if scope = PROCESS_RUN then PROCESS_RUN else ACTION)
             in (Some \<lparr> g_pid = p, g_scope = sc, g_expires_at = None, g_run_id = gc_run_id c \<rparr>,
                 c\<lparr> store := (store c)(p \<mapsto> \<lparr> e_scope = sc, e_expiry = None,
                                          e_consumed = False, e_consumed_by = None \<rparr>) \<rparr>)))"

definition is_granted :: "rat \<Rightarrow> grant_cache \<Rightarrow> pyval \<Rightarrow> string option \<Rightarrow> bool \<times> grant_cache" where
  "is_granted now c pid action_id =
     (case pos_int pid of
        None \<Rightarrow> (False, c)
      | Some p \<Rightarrow>
          case store c p of
            None \<Rightarrow> (False, c)
          | Some e \<Rightarrow>
              if e_scope e = PROCESS_RUN then (True, c)
              else if e_scope e = PROCESS_TTL then
                (case e_expiry e of
                   None \<Rightarrow> (True, c)
                 | Some t \<Rightarrow> if now > t then (False, clear_for_pid c p) else (True, c))
              else if e_scope e = ACTION then
                (if e_consumed e then (False, c)
                 else (True, c\<lparr> store := (store c)(p \<mapsto>
                    e\<lparr> e_consumed := True,
                      e_consumed_by := (case truthy_str action_id of
                          None \<Rightarrow> e_consumed_by e
                        | Some a \<Rightarrow> case e_consumed_by e of None \<Rightarrow> Some a | Some b \<Rightarrow> Some b) \<rparr>) \<rparr>))
              else (False, c))"

section \<open>Histories\<close>

text \<open>A run of the cache: what its callers did, and the clock reading of each call.\<close>

datatype call =
    Grant_Call rat pyval string "rat option"
  | Check_Call rat pyval "string option"
  | Clear_Call int

fun call_step :: "(rat \<Rightarrow> string option) \<Rightarrow> grant_cache \<Rightarrow> call \<Rightarrow> grant_cache" where
  "call_step fmt c (Grant_Call now pid scope ttl) = snd (grant_pid fmt now c pid scope ttl)"
| "call_step fmt c (Check_Call now pid aid) = snd (is_granted now c pid aid)"
| "call_step fmt c (Clear_Call p) = clear_for_pid c p"

definition run_calls :: "(rat \<Rightarrow> string option) \<Rightarrow> grant_cache \<Rightarrow> call list \<Rightarrow> grant_cache" where
  "run_calls fmt c calls = foldl (call_step fmt) c calls"

text \<open>A grant takes effect unless its expiry cannot be formatted.\<close>

definition effective :: "(rat \<Rightarrow> string option) \<Rightarrow> rat \<Rightarrow> string \<Rightarrow> rat option \<Rightarrow> bool" where
  "effective fmt now scope ttl =
     (scope = PROCESS_TTL \<longrightarrow> fmt (now + (case ttl of None \<Rightarrow> 600 | Some t \<Rightarrow> t)) \<noteq> None)"

text \<open>
  The authority \<open>p\<close> has after a history: none, for the run, until an instant, or for one action
  (\<open>Once used\<close>).  It is decided by the last grant, and by the checks and revocations since.
\<close>

datatype authority = Nothing | For_Run | Until rat | Once bool

fun auth_step :: "(rat \<Rightarrow> string option) \<Rightarrow> call \<Rightarrow> authority \<Rightarrow> int \<Rightarrow> authority" where
  "auth_step fmt (Grant_Call now pid scope ttl) a p =
     (if pos_int pid \<noteq> Some p \<or> \<not> effective fmt now scope ttl then a
      else if scope = DENY then Nothing
      else if scope = PROCESS_TTL then Until (now + (case ttl of None \<Rightarrow> 600 | Some t \<Rightarrow> t))
      else if scope = PROCESS_RUN then For_Run
      else Once False)"
| "auth_step fmt (Check_Call now pid aid) a p =
     (if pos_int pid \<noteq> Some p then a
      else case a of
             Until t \<Rightarrow> if now > t then Nothing else Until t
           | Once _ \<Rightarrow> Once True
           | _ \<Rightarrow> a)"
| "auth_step fmt (Clear_Call q) a p = (if q = p then Nothing else a)"

definition authority_of :: "(rat \<Rightarrow> string option) \<Rightarrow> call list \<Rightarrow> int \<Rightarrow> authority" where
  "authority_of fmt calls p = foldl (\<lambda>a c. auth_step fmt c a p) Nothing calls"

fun permits :: "authority \<Rightarrow> rat \<Rightarrow> bool" where
  "permits Nothing now = False"
| "permits For_Run now = True"
| "permits (Until t) now = (now \<le> t)"
| "permits (Once used) now = (\<not> used)"

lemma authority_of_Nil [simp]: "authority_of fmt [] p = Nothing"
  by (simp add: authority_of_def)

lemma authority_of_snoc [simp]:
  "authority_of fmt (h @ [c]) p = auth_step fmt c (authority_of fmt h p) p"
  by (simp add: authority_of_def)

section \<open>The contract of a permission table\<close>

text \<open>
  \<open>auth\<close> reads the authority a state records for a process; every call changes it as
  \<open>auth_step\<close> says, and a check is answered by it.
\<close>

locale permission_table =
  fixes auth :: "'s \<Rightarrow> int \<Rightarrow> authority"
    and start :: 's
    and step :: "'s \<Rightarrow> call \<Rightarrow> 's"
    and answer :: "rat \<Rightarrow> 's \<Rightarrow> pyval \<Rightarrow> bool"
    and fmt :: "rat \<Rightarrow> string option"
  assumes auth_start: "auth start p = Nothing"
    and auth_call: "auth (step s c) p = auth_step fmt c (auth s p) p"
    and answer: "answer now s pid = (case pos_int pid of None \<Rightarrow> False | Some p \<Rightarrow> permits (auth s p) now)"
begin

lemma auth_run: "auth (foldl step start calls) p = authority_of fmt calls p"
  by (induction calls rule: rev_induct) (simp_all add: auth_start auth_call)

lemma answer_run:
  "answer now (foldl step start calls) pid =
     (case pos_int pid of None \<Rightarrow> False | Some p \<Rightarrow> permits (authority_of fmt calls p) now)"
  by (simp add: answer auth_run split: option.split)

end

text \<open>The calls that take an authority over \<open>p\<close> away, and those that use it.\<close>

definition no_veto :: "call list \<Rightarrow> int \<Rightarrow> bool" where
  "no_veto calls p = list_all (\<lambda>c. case c of
       Clear_Call q \<Rightarrow> q \<noteq> p
     | Grant_Call now pid scope ttl \<Rightarrow> \<not> (pos_int pid = Some p \<and> scope = DENY)
     | _ \<Rightarrow> True) calls"

definition no_check :: "call list \<Rightarrow> int \<Rightarrow> bool" where
  "no_check calls p = list_all (\<lambda>c. case c of Check_Call now pid aid \<Rightarrow> pos_int pid \<noteq> Some p | _ \<Rightarrow> True) calls"

lemma no_veto_simps [simp]:
  "no_veto [] p" "no_veto (calls @ [c]) p \<longleftrightarrow> no_veto calls p \<and> no_veto [c] p"
  by (simp_all add: no_veto_def)

lemma no_check_simps [simp]:
  "no_check [] p" "no_check (calls @ [c]) p \<longleftrightarrow> no_check calls p \<and> no_check [c] p"
  by (simp_all add: no_check_def)

definition ttl_of :: "rat option \<Rightarrow> rat" where
  "ttl_of ttl = (case ttl of None \<Rightarrow> 600 | Some t \<Rightarrow> t)"

text \<open>An authority is the trace of one grant that no later call has taken away.\<close>

definition granted_by :: "call list \<Rightarrow> int \<Rightarrow> authority \<Rightarrow> bool" where
  "granted_by calls p a = (\<exists>pre t pid scope ttl post.
     calls = pre @ [Grant_Call t pid scope ttl] @ post \<and> pos_int pid = Some p \<and> scope \<noteq> DENY \<and>
     no_veto post p \<and>
     (case a of Nothing \<Rightarrow> False
      | For_Run \<Rightarrow> scope = PROCESS_RUN
      | Until u \<Rightarrow> scope = PROCESS_TTL \<and> u = t + ttl_of ttl
      | Once used \<Rightarrow> scope \<notin> {PROCESS_RUN, PROCESS_TTL} \<and> (\<not> used \<longrightarrow> no_check post p)))"

lemma granted_by_later:
  assumes "granted_by calls p a" "no_veto [c] p" "no_check [c] p \<or> (\<forall>b. a \<noteq> Once b)"
  shows "granted_by (calls @ [c]) p a"
proof -
  from assms(1) obtain pre t pid scope ttl post where h:
    "calls = pre @ [Grant_Call t pid scope ttl] @ post" "pos_int pid = Some p" "scope \<noteq> DENY"
    "no_veto post p"
    "case a of Nothing \<Rightarrow> False | For_Run \<Rightarrow> scope = PROCESS_RUN
      | Until u \<Rightarrow> scope = PROCESS_TTL \<and> u = t + ttl_of ttl
      | Once used \<Rightarrow> scope \<notin> {PROCESS_RUN, PROCESS_TTL} \<and> (\<not> used \<longrightarrow> no_check post p)"
    unfolding granted_by_def by auto
  show ?thesis unfolding granted_by_def
    using h assms(2, 3)
    by (intro exI [of _ pre] exI [of _ t] exI [of _ pid] exI [of _ scope] exI [of _ ttl] exI [of _ "post @ [c]"])
      (auto split: authority.splits)
qed

lemma granted_by_used:
  assumes "granted_by calls p (Once b)" "no_veto [c] p"
  shows "granted_by (calls @ [c]) p (Once True)"
proof -
  from assms(1) obtain pre t pid scope ttl post where h:
    "calls = pre @ [Grant_Call t pid scope ttl] @ post" "pos_int pid = Some p" "scope \<noteq> DENY"
    "no_veto post p" "scope \<notin> {PROCESS_RUN, PROCESS_TTL}"
    unfolding granted_by_def authority.case by blast
  show ?thesis unfolding granted_by_def
    using h assms(2)
    by (intro exI [of _ pre] exI [of _ t] exI [of _ pid] exI [of _ scope] exI [of _ ttl] exI [of _ "post @ [c]"]) auto
qed

lemma granted_by_now:
  assumes "pos_int pid = Some p" "scope \<noteq> DENY" "effective fmt t scope ttl"
  shows "granted_by (calls @ [Grant_Call t pid scope ttl]) p (auth_step fmt (Grant_Call t pid scope ttl) a p)"
  unfolding granted_by_def
  using assms
  by (intro exI [of _ calls] exI [of _ t] exI [of _ pid] exI [of _ scope] exI [of _ ttl] exI [of _ "[]"])
    (simp add: ttl_of_def)

lemma authority_explained:
  "authority_of fmt calls p \<noteq> Nothing \<Longrightarrow> granted_by calls p (authority_of fmt calls p)"
proof (induction calls rule: rev_induct)
  case (snoc c calls)
  let ?a = "authority_of fmt calls p"
  show ?case
  proof (cases c)
    case (Grant_Call t pid scope ttl)
    show ?thesis
    proof (cases "pos_int pid = Some p \<and> effective fmt t scope ttl")
      case True
      with snoc.prems Grant_Call have "scope \<noteq> DENY" by auto
      with True show ?thesis
        unfolding Grant_Call authority_of_snoc by (intro granted_by_now) auto
    next
      case False
      have same: "authority_of fmt (calls @ [c]) p = ?a" using False by (auto simp: Grant_Call)
      have nv: "no_veto [c] p \<and> no_check [c] p"
        using False by (auto simp: Grant_Call no_veto_def no_check_def effective_def)
      from snoc.prems same have "granted_by calls p ?a" by (intro snoc.IH) simp
      with nv show ?thesis unfolding same by (intro granted_by_later) auto
    qed
  next
    case (Check_Call t pid aid)
    have nv: "no_veto [c] p" by (simp add: Check_Call no_veto_def)
    have "?a \<noteq> Nothing"
      using snoc.prems by (auto simp: Check_Call split: if_splits authority.splits)
    then have gb: "granted_by calls p ?a" by (rule snoc.IH)
    show ?thesis
    proof (cases "pos_int pid = Some p")
      case False
      then have "authority_of fmt (calls @ [c]) p = ?a" by (simp add: Check_Call)
      moreover have "no_check [c] p" using False by (simp add: Check_Call no_check_def)
      ultimately show ?thesis using granted_by_later [OF gb nv] by simp
    next
      case True
      then show ?thesis
        using snoc.prems gb nv granted_by_used [of calls p _ c] granted_by_later [of calls p _ c]
        by (cases ?a) (auto simp: Check_Call split: if_splits)
    qed
  next
    case (Clear_Call q)
    with snoc.prems have "q \<noteq> p" "?a \<noteq> Nothing" by (auto split: if_splits)
    with snoc.IH Clear_Call show ?thesis
      using granted_by_later [of calls p ?a c] by (simp add: no_veto_def no_check_def)
  qed
qed simp

section \<open>The cache is a permission table\<close>

definition recorded :: "grant_cache \<Rightarrow> int \<Rightarrow> authority" where
  "recorded c p = (case store c p of
       None \<Rightarrow> Nothing
     | Some e \<Rightarrow>
         if e_scope e = PROCESS_RUN then For_Run
         else if e_scope e = PROCESS_TTL then
           (case e_expiry e of None \<Rightarrow> For_Run | Some t \<Rightarrow> Until t)
         else if e_scope e = ACTION then Once (e_consumed e)
         else Nothing)"

lemma recorded_new [simp]: "recorded (new_cache rid) p = Nothing"
  by (simp add: recorded_def new_cache_def)

lemma recorded_clear [simp]: "recorded (clear_for_pid c q) p = (if q = p then Nothing else recorded c p)"
  by (simp add: recorded_def clear_for_pid_def)

lemma recorded_grant:
  "recorded (snd (grant_pid fmt now c pid scope ttl)) p = auth_step fmt (Grant_Call now pid scope ttl) (recorded c p) p"
  by (cases "pos_int pid")
    (auto simp: grant_pid_def effective_def Let_def recorded_def clear_for_pid_def split: option.splits)

lemma recorded_check:
  "recorded (snd (is_granted now c pid aid)) p = auth_step fmt (Check_Call now pid aid) (recorded c p) p"
proof (cases "pos_int pid")
  case None
  then show ?thesis by (simp add: is_granted_def)
next
  case (Some q)
  show ?thesis
  proof (cases "q = p")
    case True
    with Some show ?thesis
      by (cases "store c p") (auto simp: is_granted_def recorded_def clear_for_pid_def split: option.splits)
  next
    case False
    with Some show ?thesis
      by (cases "store c q") (auto simp: is_granted_def recorded_def clear_for_pid_def split: option.splits)
  qed
qed

lemma granted_recorded:
  "fst (is_granted now c pid aid) =
     (case pos_int pid of None \<Rightarrow> False | Some p \<Rightarrow> permits (recorded c p) now)"
  by (auto simp: is_granted_def recorded_def split: option.splits)

interpretation cache: permission_table recorded "new_cache rid" "call_step fmt"
    "\<lambda>now c pid. fst (is_granted now c pid aid)" fmt for rid fmt aid
proof unfold_locales
  fix c s p
  show "recorded (call_step fmt s c) p = auth_step fmt c (recorded s p) p"
    by (cases c) (simp_all add: recorded_grant recorded_check del: auth_step.simps, simp)
qed (simp_all add: granted_recorded)

section \<open>Properties\<close>

text \<open>C19: after any sequence of grants, checks and revocations, with any clock readings, the cache
  answers a check exactly as the history of those calls determines: a run grant holds, a timed grant
  holds up to its expiry unless a check found it expired, a single-use grant holds for one check, a
  denial, a revocation or an invalid pid holds nothing.\<close>

theorem grant_cache_refines_history:
  "fst (is_granted now (run_calls fmt (new_cache rid) calls) pid aid) =
     (case pos_int pid of None \<Rightarrow> False | Some p \<Rightarrow> permits (authority_of fmt calls p) now)"
  unfolding run_calls_def by (rule cache.answer_run)

text \<open>A positive check is always backed by the operator's consent to that very process: an earlier
  grant with a scope other than \<open>DENY\<close>, neither revoked nor denied since, within its time if it is a
  timed one, and never used before if it is a single-use one.\<close>

theorem grants_need_consent:
  assumes "fst (is_granted now (run_calls fmt (new_cache rid) calls) pid aid)"
  shows "\<exists>p pre t q scope ttl post.
     calls = pre @ [Grant_Call t q scope ttl] @ post \<and> pos_int pid = Some p \<and> pos_int q = Some p \<and>
     scope \<noteq> DENY \<and> no_veto post p \<and> (scope = PROCESS_TTL \<longrightarrow> now \<le> t + ttl_of ttl) \<and>
     (scope \<notin> {PROCESS_RUN, PROCESS_TTL} \<longrightarrow> no_check post p)"
proof -
  from assms obtain p where p: "pos_int pid = Some p" "permits (authority_of fmt calls p) now"
    by (auto simp: run_calls_def cache.answer_run split: option.splits)
  then have "authority_of fmt calls p \<noteq> Nothing" by auto
  then have "granted_by calls p (authority_of fmt calls p)" by (rule authority_explained)
  then obtain pre t q scope ttl post where h:
    "calls = pre @ [Grant_Call t q scope ttl] @ post" "pos_int q = Some p" "scope \<noteq> DENY"
    "no_veto post p"
    "case authority_of fmt calls p of Nothing \<Rightarrow> False | For_Run \<Rightarrow> scope = PROCESS_RUN
      | Until u \<Rightarrow> scope = PROCESS_TTL \<and> u = t + ttl_of ttl
      | Once used \<Rightarrow> scope \<notin> {PROCESS_RUN, PROCESS_TTL} \<and> (\<not> used \<longrightarrow> no_check post p)"
    unfolding granted_by_def by blast
  have "(scope = PROCESS_TTL \<longrightarrow> now \<le> t + ttl_of ttl) \<and>
        (scope \<notin> {PROCESS_RUN, PROCESS_TTL} \<longrightarrow> no_check post p)"
    using h(5) p(2) by (auto split: authority.splits)
  with h(1-4) p(1) show ?thesis by blast
qed

lemma grants_need_consent_witness:
  "no_veto [Check_Call 60 (PInt 8) None] 7 \<and>
   (\<exists>p pre t q scope ttl post.
     [Grant_Call 10 (PInt 7) PROCESS_TTL (Some 90), Check_Call 60 (PInt 8) None] =
       pre @ [Grant_Call t q scope ttl] @ post \<and>
     pos_int (PInt 7) = Some p \<and> pos_int q = Some p \<and>
     scope \<noteq> DENY \<and> no_veto post p \<and> (scope = PROCESS_TTL \<longrightarrow> 100 \<le> t + ttl_of ttl) \<and>
     (scope \<notin> {PROCESS_RUN, PROCESS_TTL} \<longrightarrow> no_check post p))"
proof
  show "no_veto [Check_Call 60 (PInt 8) None] 7" by (simp add: no_veto_def)
  have "fst (is_granted 100 (run_calls (\<lambda>_. Some ''later'') (new_cache (Some ''r1''))
          [Grant_Call 10 (PInt 7) PROCESS_TTL (Some 90), Check_Call 60 (PInt 8) None]) (PInt 7) None)"
    by code_simp
  from grants_need_consent [OF this]
  show "\<exists>p pre t q scope ttl post.
     [Grant_Call 10 (PInt 7) PROCESS_TTL (Some 90), Check_Call 60 (PInt 8) None] =
       pre @ [Grant_Call t q scope ttl] @ post \<and>
     pos_int (PInt 7) = Some p \<and> pos_int q = Some p \<and>
     scope \<noteq> DENY \<and> no_veto post p \<and> (scope = PROCESS_TTL \<longrightarrow> 100 \<le> t + ttl_of ttl) \<and>
     (scope \<notin> {PROCESS_RUN, PROCESS_TTL} \<longrightarrow> no_check post p)" .
qed

end
