(* ===== verification/Real_Act.thy ===== *)
theory Real_Act
  imports Safety_Kernel Ownership Grants
begin

text \<open>
  The gate for actions on the operator's own display (\<open>SafetyKernel._real_act_gate\<close> in
  \<open>computer_use/safety.py\<close>): mode, ownership of the target, policy, grant cache, operator prompt, the
  audit events and the cleared \<open>ActionSpec\<close>.  The kernel's state is its grant cache, the events handed
  to the audit sink and the prompts shown so far.  The ownership resolver and the prompter are
  injected, so they are parameters: \<open>None\<close> as an answer is an exception, and a prompter may answer its
  n-th call as it likes.
\<close>

section \<open>Parameters and state\<close>

record owner_iface =
  oi_resolve :: "pyval \<Rightarrow> pyval list \<Rightarrow> int option option"
  oi_classify :: "int \<Rightarrow> string option"

record prompt_context =
  pc_run_id :: string
  pc_pid :: int
  pc_action_type :: string
  pc_policy :: string
  pc_ask_mode :: string
  pc_window_id :: "string option"
  pc_rationale :: string

record prompt_result =
  pr_grant_scope :: "string option"
  pr_operator_text :: string
  pr_granted :: bool

record gate =
  g_owner :: "owner_iface option"
  g_prompter :: "(nat \<Rightarrow> prompt_context \<Rightarrow> prompt_result option) option"
  g_has_sink :: bool
  g_repr :: "pyval \<Rightarrow> string"
  g_fmt :: "rat \<Rightarrow> string option"

record event =
  ev_run_id :: string
  ev_type :: string
  ev_payload :: pydict

record gate_state =
  gs_cache :: "grant_cache option"
  gs_events :: "event list"
  gs_prompts :: "prompt_context list"

text \<open>The clock readings of one call: the cache's at the check and at the grant, and the seconds and
  milliseconds of \<open>time.time()\<close> in the token and the action id.\<close>

record readings =
  at_check :: rat
  at_grant :: rat
  token_seconds :: nat
  spec_millis :: nat

definition emit_event :: "gate \<Rightarrow> string \<Rightarrow> pydict \<Rightarrow> gate_state \<Rightarrow> gate_state" where
  "emit_event g etype payload st =
     (if g_has_sink g
      then st\<lparr> gs_events := gs_events st @
             [\<lparr> ev_run_id = py_str (g_repr g) (dget_or payload ''run_id'' (PStr ''unknown'')),
               ev_type = etype, ev_payload = payload \<rparr>] \<rparr>
      else st)"

abbreviation "PERMISSION_GRANTED \<equiv> ''permission.granted''"
abbreviation "PERMISSION_DENIED \<equiv> ''permission.denied''"
abbreviation "PERMISSION_PROMPT_SHOWN \<equiv> ''permission.prompt_shown''"
abbreviation "FOREIGN_INTERACTION_BLOCKED \<equiv> ''foreign_interaction_blocked''"
abbreviation "OPERATOR_NOTE_RECEIVED \<equiv> ''operator_note.received''"

section \<open>The cleared action\<close>

definition real_act_spec :: "pydict \<Rightarrow> pydict \<Rightarrow> pyval \<Rightarrow> string \<Rightarrow> nat \<Rightarrow> action_spec" where
  "real_act_spec d a risk clearance now_ms =
     \<lparr> as_action_id = ''act-'' @ show_nat now_ms, as_type = py_or (dget a ''type'') (PStr ''click''),
       as_display_scope = PStr ''real_act'', as_target = dict_opt (dget a ''target''),
       as_source_handle_id = dget (as_dict (dget a ''target'')) ''handle_id'',
       as_text = dget a ''text'', as_hotkey = dget a ''hotkey'',
       as_scroll_delta = dget a ''scroll_delta'', as_drag_to = dget a ''drag_to'',
       as_wait_ms = dget a ''wait_ms'', as_url = dget a ''url'', as_app = dget a ''app'',
       as_app_args = dget a ''app_args'', as_rationale = dget_or d ''rationale'' (PStr []),
       as_risk_level = risk, as_confirmation_token = dget d ''confirmation_token'',
       as_clearance_token = Some clearance \<rparr>"

definition build_real_act_allowed :: "pydict \<Rightarrow> pydict \<Rightarrow> pyval \<Rightarrow> string \<Rightarrow> nat \<Rightarrow> validation_result" where
  "build_real_act_allowed d a risk clearance now_ms =
     (case check_action_spec (real_act_spec d a risk clearance now_ms) of
        Inl _ \<Rightarrow> rejected [SCHEMA_INVALID]
      | Inr s \<Rightarrow> accepted s)"

definition clearance_token :: "string \<Rightarrow> int \<Rightarrow> string \<Rightarrow> nat \<Rightarrow> string" where
  "clearance_token run_id p scope secs =
     ''clr:'' @ run_id @ '':'' @ show_int p @ '':'' @ scope @ '':'' @ show_nat secs"

text \<open>\<open>_is_real_act_clearance\<close>.\<close>

definition is_real_act_clearance :: "string option \<Rightarrow> bool" where
  "is_real_act_clearance token = (case truthy_str token of None \<Rightarrow> False | Some t \<Rightarrow> prefix ''clr:'' t)"

section \<open>The decision tree\<close>

text \<open>The windows of all snapshots.\<close>

definition snapshot_windows :: "snapshots \<Rightarrow> pyval list" where
  "snapshot_windows snaps =
     concat (map (\<lambda>(n, sn). filter is_dict (as_list (dget (as_dict sn) ''windows''))) snaps)"

definition resolved_pid :: "gate \<Rightarrow> pydict \<Rightarrow> snapshots \<Rightarrow> int option" where
  "resolved_pid g tgt snaps = (case g_owner g of
       None \<Rightarrow> None
     | Some ow \<Rightarrow>
         (case oi_resolve ow (PDict tgt) (snapshot_windows snaps) of
            Some (Some p) \<Rightarrow> if p > 0 then Some p else None
          | _ \<Rightarrow> None))"

definition target_class :: "gate \<Rightarrow> int \<Rightarrow> string" where
  "target_class g p = (case g_owner g of
       None \<Rightarrow> FOREIGN
     | Some ow \<Rightarrow> (case oi_classify ow p of None \<Rightarrow> FOREIGN | Some c \<Rightarrow> c))"

text \<open>\<open>grant_cache.is_granted(pid)\<close>, which may consume the grant.\<close>

definition check_cache :: "readings \<Rightarrow> int \<Rightarrow> gate_state \<Rightarrow> bool \<times> gate_state" where
  "check_cache rd p st = (case gs_cache st of
       None \<Rightarrow> (False, st)
     | Some c \<Rightarrow> (case is_granted (at_check rd) c (PInt p) None of (b, c') \<Rightarrow> (b, st\<lparr> gs_cache := Some c' \<rparr>)))"

definition cache_grant :: "gate \<Rightarrow> readings \<Rightarrow> int \<Rightarrow> string \<Rightarrow> gate_state \<Rightarrow> gate_state" where
  "cache_grant g rd p scope st = (case gs_cache st of
       None \<Rightarrow> st
     | Some c \<Rightarrow> st\<lparr> gs_cache := Some (snd (grant_pid (g_fmt g) (at_grant rd) c (PInt p) scope None)) \<rparr>)"

text \<open>The session's settings, with the defaults of the code.\<close>

definition run_id_of :: "gate \<Rightarrow> pydict \<Rightarrow> string" where
  "run_id_of g sb = py_str (g_repr g) (py_or (dget sb ''run_id'') (PStr ''unknown''))"

definition mode_of :: "pydict \<Rightarrow> pyval" where
  "mode_of sb = py_or (dget sb ''mode'') (PStr ''ISOLATED'')"

definition policy_of :: "pydict \<Rightarrow> pyval" where
  "policy_of sb = py_or (dget sb ''real_gui_policy'') (PStr ''full'')"

definition ask_of :: "pydict \<Rightarrow> pyval" where
  "ask_of sb = py_or (dget sb ''ask_mode'') (PStr ''on'')"

definition prompt_for :: "gate \<Rightarrow> pydict \<Rightarrow> pydict \<Rightarrow> pydict \<Rightarrow> pydict \<Rightarrow> int \<Rightarrow> prompt_context" where
  "prompt_for g d a tgt sb p =
     \<lparr> pc_run_id = run_id_of g sb, pc_pid = p,
       pc_action_type = py_str (g_repr g) (py_or (dget a ''type'') (PStr ''click'')),
       pc_policy = py_str (g_repr g) (policy_of sb), pc_ask_mode = py_str (g_repr g) (ask_of sb),
       pc_window_id = (if truthy (dget tgt ''window_id'') then Some (py_str (g_repr g) (dget tgt ''window_id'')) else None),
       pc_rationale = py_str (g_repr g) (py_or (dget d ''rationale'') (PStr [])) \<rparr>"

text \<open>The prompt path: the operator is asked, a note is recorded, and a grant is cached.\<close>

definition ask_operator :: "gate \<Rightarrow> readings \<Rightarrow> pydict \<Rightarrow> pydict \<Rightarrow> pydict \<Rightarrow> pydict \<Rightarrow> pyval \<Rightarrow> int \<Rightarrow> gate_state
    \<Rightarrow> validation_result \<times> gate_state" where
  "ask_operator g rd d a tgt sb risk p st =
     (let rid = run_id_of g sb; run = (''run_id'', PStr rid); pidf = (''pid'', PInt p);
          ctx = prompt_for g d a tgt sb p
      in case g_prompter g of
        None \<Rightarrow> (rejected [ASK_MODE_DISABLED],
                 emit_event g PERMISSION_DENIED [run, pidf, (''reason'', PStr ''no_prompter'')] st)
      | Some prompt \<Rightarrow>
          (let st1 = emit_event g PERMISSION_PROMPT_SHOWN
                       [run, pidf, (''action_type'', PStr (pc_action_type ctx)), (''policy'', PStr (pc_policy ctx)),
                        (''ask_mode'', PStr (pc_ask_mode ctx))] st;
               n = length (gs_prompts st1);
               st2 = st1\<lparr> gs_prompts := gs_prompts st1 @ [ctx] \<rparr>
           in case prompt n ctx of
                None \<Rightarrow> (rejected [GRANT_REQUIRED],
                         emit_event g PERMISSION_DENIED [run, pidf, (''reason'', PStr ''prompt_failed'')] st2)
              | Some res \<Rightarrow>
                  (let note = py_strip (pr_operator_text res);
                       st3 = (if note = [] then st2
                              else emit_event g OPERATOR_NOTE_RECEIVED
                                     [run, pidf, (''text'', PStr (take 200 note))] st2)
                   in case (if pr_granted res then truthy_str (pr_grant_scope res) else None) of
                        None \<Rightarrow> (rejected [GRANT_REQUIRED],
                                 emit_event g PERMISSION_DENIED [run, pidf, (''reason'', PStr ''operator_denied'')] st3)
                      | Some scope \<Rightarrow>
                          (build_real_act_allowed d a risk (clearance_token rid p scope (token_seconds rd)) (spec_millis rd),
                           emit_event g PERMISSION_GRANTED
                             [run, pidf, (''grant_scope'', PStr scope),
                              (''operator_text'', PStr (take 200 (pr_operator_text res)))]
                             (cache_grant g rd p scope st3)))))"

definition real_act_gate :: "gate \<Rightarrow> readings \<Rightarrow> gate_state \<Rightarrow> pyval \<Rightarrow> pyval \<Rightarrow> snapshots
    \<Rightarrow> (pyexn + validation_result) \<times> gate_state" where
  "real_act_gate g rd st intent session snaps =
     (let d = as_dict intent; a = as_dict (dget d ''action''); tgt = as_dict (dget a ''target'');
          sb = as_dict session; rid = run_id_of g sb; run = (''run_id'', PStr rid)
      in case classify_risk intent (Some ''real_act'') of
        Inl e \<Rightarrow> (Inl e, st)
      | Inr risk \<Rightarrow>
          if mode_of sb \<noteq> PStr ''REAL'' then
            (Inr (rejected [REAL_ACT_NOT_PERMITTED]),
             emit_event g PERMISSION_DENIED [run, (''reason'', PStr ''real_act_not_permitted''), (''pid'', PNone)] st)
          else (case resolved_pid g tgt snaps of
            None \<Rightarrow>
              (Inr (rejected [TARGET_UNRESOLVABLE]),
               emit_event g FOREIGN_INTERACTION_BLOCKED [run, (''reason'', PStr ''target_unresolvable''), (''pid'', PNone)] st)
          | Some p \<Rightarrow>
              (let cleared = (\<lambda>st scope.
                     (Inr (build_real_act_allowed d a risk (clearance_token rid p ''real_act'' (token_seconds rd)) (spec_millis rd)),
                      emit_event g PERMISSION_GRANTED
                        [run, (''pid'', PInt p), (''grant_scope'', PStr scope), (''implicit'', PBool True)] st))
               in if target_class g p = OWNED then cleared st ''owned_child''
                  else if policy_of sb = PStr ''children'' then
                    (Inr (rejected [FOREIGN_PROCESS]),
                     emit_event g FOREIGN_INTERACTION_BLOCKED
                       [run, (''pid'', PInt p), (''policy'', PStr ''children''), (''reason'', PStr ''foreign_process'')] st)
                  else if ask_of sb = PStr ''off'' then
                    (Inr (rejected [ASK_MODE_DISABLED]),
                     emit_event g PERMISSION_DENIED [run, (''pid'', PInt p), (''reason'', PStr ''ask_mode_disabled'')] st)
                  else (case check_cache rd p st of
                    (True, st1) \<Rightarrow> cleared st1 ''cached''
                  | (False, st1) \<Rightarrow>
                      (case ask_operator g rd d a tgt sb risk p st1 of (r, st2) \<Rightarrow> (Inr r, st2))))))"

end
