(* ===== verification/Safety_Laws.thy ===== *)
theory Safety_Laws
  imports Safety_Kernel
begin

text \<open>
  What the isolated gate guarantees: the exact condition under which an action is accepted, that a
  refusal carries a reason and no action, the launch allowlist and the guard on spawn requests.
\<close>

section \<open>Launching\<close>

lemma concat_map_if_Nil [simp]:
  "concat (map (\<lambda>v. if P v then [x] else []) vs) = [] \<longleftrightarrow> (\<forall>v \<in> set vs. \<not> P v)"
  by (induction vs) auto

lemma arg_violations_Nil:
  "arg_violations k e args = [] \<longleftrightarrow>
     (case truthy_str (allowed_args_pattern e) of
        None \<Rightarrow> True | Some p \<Rightarrow> k_compile k p \<noteq> None) \<and>
     (\<forall>v \<in> set args. v \<notin> set (blocked_args e) \<and>
        (case truthy_str (allowed_args_pattern e) of
           None \<Rightarrow> True | Some p \<Rightarrow> \<exists>f. k_compile k p = Some f \<and> f v))"
proof (cases "truthy_str (allowed_args_pattern e)")
  case None
  then show ?thesis by (auto simp: arg_violations_def split: if_splits)
next
  case (Some p)
  then show ?thesis
    by (cases "k_compile k p") (auto simp: arg_violations_def split: if_splits)
qed

text \<open>A launch request passes without violation exactly when the application is on the allowlist,
  its argument list can be read, and every argument is free of shell metacharacters, not blocked, and
  matches the pattern of the entry when there is one.\<close>

theorem launch_allowlist_exact:
  "validate_launch_app k app app_args policy = Inr [] \<longleftrightarrow>
     (\<exists>s e xs. app = PStr s \<and> s \<noteq> [] \<and> map_of (allowed_apps policy) s = Some e \<and>
        py_iter (py_or app_args (PList [])) = Inr xs \<and>
        (case truthy_str (allowed_args_pattern e) of None \<Rightarrow> True | Some p \<Rightarrow> k_compile k p \<noteq> None) \<and>
        (\<forall>v \<in> set (map (py_str (k_repr k)) xs).
           \<not> has_metachar v \<and> v \<notin> set (blocked_args e) \<and>
           (case truthy_str (allowed_args_pattern e) of
              None \<Rightarrow> True | Some p \<Rightarrow> \<exists>f. k_compile k p = Some f \<and> f v)))"
proof -
  have entry: "policy_entry policy app = Inr (Some e) \<longleftrightarrow>
      (\<exists>s. app = PStr s \<and> s \<noteq> [] \<and> map_of (allowed_apps policy) s = Some e)" for e
    by (cases app) (auto simp: policy_entry_def)
  have "validate_launch_app k app app_args policy = Inr [] \<longleftrightarrow>
     (\<exists>xs e. py_iter (py_or app_args (PList [])) = Inr xs \<and> policy_entry policy app = Inr (Some e) \<and>
        (\<forall>v \<in> set (map (py_str (k_repr k)) xs). \<not> has_metachar v) \<and>
        arg_violations k e (map (py_str (k_repr k)) xs) = [])"
    unfolding validate_launch_app_def ebind_eq_Inr_iff Let_def sum.inject append_is_Nil_conv concat_map_if_Nil
    by (auto split: option.splits if_splits)
  then show ?thesis unfolding entry arg_violations_Nil by auto
qed

lemma launch_allowlist_exact_witness:
  "validate_launch_app \<lparr> k_is_owned = \<lambda>_. True, k_policy = default_app_launch_policy,
       k_compile = \<lambda>p. Some (\<lambda>v. v = ''--test-mode''), k_repr = \<lambda>_. [] \<rparr>
     (PStr ''test-gui-app'') (PList [PStr ''--test-mode'']) default_app_launch_policy = Inr []"
  unfolding launch_allowlist_exact
  by (rule exI [of _ "''test-gui-app''"], rule exI [of _ "the (map_of (allowed_apps default_app_launch_policy) ''test-gui-app'')"],
      rule exI [of _ "[PStr ''--test-mode'']"])
    (simp add: default_app_launch_policy_def py_or_def truthy_str_def has_metachar_def metachars_def)

section \<open>Spawn requests\<close>

text \<open>A spawn request is accepted exactly when its scope is isolated, no value of its environment
  mentions display \<open>:0\<close>, and no X variable is blank or names an Xauthority file; a refusal carries a
  violation.\<close>

theorem spawn_request_exact:
  "(valid (validate_spawn_request spec) \<longleftrightarrow>
      sp_display_scope spec = ''isolated'' \<and>
      (\<forall>(k, v) \<in> set (sp_env spec). \<not> py_in '':0'' v \<and>
         (k \<in> set x_keys \<longrightarrow> \<not> py_in ''.Xauthority'' v \<and> \<not> py_in ''/.Xauthority'' v \<and> py_strip v \<noteq> []))) \<and>
   (violations (validate_spawn_request spec) = None \<longleftrightarrow> valid (validate_spawn_request spec))"
proof -
  have zero: "py_in '':0'' v" if "py_in '':0.'' v" for v
  proof -
    from that obtain a b where "v = a @ '':0.'' @ b" by (auto simp: sublist_def)
    then have "v = a @ '':0'' @ (''.'' @ b)" by simp
    then show ?thesis unfolding sublist_def by blast
  qed
  have nil: "concat (map (\<lambda>(k, v). if P k v then [x] else []) xs) = [] \<longleftrightarrow> (\<forall>(k, v) \<in> set xs. \<not> P k v)"
    for P :: "string \<Rightarrow> string \<Rightarrow> bool" and x :: violation_code and xs
    by (induction xs) auto
  have "valid (validate_spawn_request spec) \<longleftrightarrow>
      sp_display_scope spec = ''isolated'' \<and>
      (\<forall>(k, v) \<in> set (sp_env spec). \<not> (k \<in> set x_keys \<and> real_display_value v)) \<and>
      (\<forall>(k, v) \<in> set (sp_env spec). \<not> py_in '':0'' v)"
    unfolding validate_spawn_request_def Let_def
    by (auto simp: nil list_ex_iff split: if_splits)
  moreover have "\<not> (k \<in> set x_keys \<and> real_display_value v) \<and> \<not> py_in '':0'' v \<longleftrightarrow>
      \<not> py_in '':0'' v \<and>
      (k \<in> set x_keys \<longrightarrow> \<not> py_in ''.Xauthority'' v \<and> \<not> py_in ''/.Xauthority'' v \<and> py_strip v \<noteq> [])" for k v
    using zero [of v] unfolding real_display_value_def by blast
  moreover have "violations (validate_spawn_request spec) = None \<longleftrightarrow> valid (validate_spawn_request spec)"
    unfolding validate_spawn_request_def Let_def by simp
  ultimately show ?thesis by (simp only: case_prod_unfold ball_conj_distrib [symmetric] conj_assoc)
qed

lemma spawn_request_exact_witness:
  "valid (validate_spawn_request \<lparr> sp_argv = [''true''], sp_display_scope = ''isolated'',
     sp_env = [(''DISPLAY'', '':99''), (''LANG'', ''C'')], sp_no_shell = True \<rparr>)"
  unfolding spawn_request_exact [THEN conjunct1]
  by (simp add: x_keys_def sublist_code py_strip_def py_lstrip_def py_space_def Let_def)

section \<open>The isolated gate\<close>

text \<open>The fields an action of a type needs.\<close>

definition payload_complete :: "pydict \<Rightarrow> pydict \<Rightarrow> bool" where
  "payload_complete a tgt = (\<exists>t \<in> set action_types. dget a ''type'' = PStr t \<and>
     (t \<in> set spatial \<longrightarrow> tgt \<noteq> []) \<and>
     (t = ''wait'' \<longrightarrow> dget a ''wait_ms'' \<noteq> PNone) \<and>
     (t = ''launch_app'' \<longrightarrow> truthy (dget a ''app'')) \<and>
     (t = ''navigate'' \<longrightarrow> truthy (dget a ''url'')) \<and>
     (t = ''hotkey'' \<longrightarrow> truthy (dget a ''hotkey'')) \<and>
     (t = ''scroll'' \<longrightarrow> truthy (dget a ''scroll_delta'')) \<and>
     (t = ''drag'' \<longrightarrow> truthy (dget a ''drag_to'')))"

lemma in_str_set_True: "in_str_set v xs = Inr True \<longleftrightarrow> (\<exists>s \<in> set xs. v = PStr s)"
  by (cases v) auto

lemma schema_complete:
  assumes "in_str_set (dget a ''type'') action_types = Inr known"
  shows "schema_violations a tgt known = [] \<longleftrightarrow> payload_complete a tgt"
proof (cases known)
  case False
  with assms have "\<not> (\<exists>t \<in> set action_types. dget a ''type'' = PStr t)"
    using in_str_set_True [of "dget a ''type''" action_types] by simp
  with False show ?thesis by (auto simp: schema_violations_def payload_complete_def Let_def)
next
  case True
  with assms obtain t where "t \<in> set action_types" "dget a ''type'' = PStr t"
    by (auto simp: in_str_set_True)
  with True show ?thesis
    by (simp add: schema_violations_def payload_complete_def Let_def list_ex_iff)
qed

definition within_budget :: "pyval \<Rightarrow> int \<Rightarrow> int \<Rightarrow> bool" where
  "within_budget session step actions = (\<exists>ms ma. budget (as_dict session) ''max_steps'' = Inr ms \<and>
     budget (as_dict session) ''max_actions'' = Inr ma \<and> step < ms \<and> actions < ma)"

lemma budget_Nil: "budget_violations session step actions = Inr [] \<longleftrightarrow> within_budget session step actions"
  by (auto simp: budget_violations_def within_budget_def ebind_eq_Inr_iff Let_def not_le split: if_splits)

lemma foreign_Nil:
  "foreign_violations k hid snaps = Inr [] \<longleftrightarrow>
     (\<forall>(s, sn) \<in> set snaps. \<exists>es. elements_of sn = Inr es \<and> (\<forall>e \<in> set es. \<not> foreign_element k hid e))"
proof (induction snaps)
  case (Cons x xs)
  obtain s sn where x: "x = (s, sn)" by force
  show ?case unfolding x
    using Cons.IH by (auto simp: ebind_eq_Inr_iff filter_empty_conv)
qed simp

lemma gate_violations_Nil:
  "gate_violations k intent session step actions snaps = Inr ([], risk) \<longleftrightarrow>
     (let d = as_dict intent; a = as_dict (dget d ''action''); tgt = as_dict (dget a ''target'') in
      payload_complete a tgt \<and> within_budget session step actions \<and>
      (dget a ''type'' = PStr ''launch_app'' \<longrightarrow>
         validate_launch_app k (dget a ''app'') (dget a ''app_args'') (k_policy k) = Inr []) \<and>
      classify_risk intent None = Inr risk \<and>
      (high_risk risk \<longrightarrow> truthy (dget d ''confirmation_token'')) \<and>
      (dget tgt ''kind'' = PStr ''element'' \<longrightarrow> foreign_violations k (dget tgt ''handle_id'') snaps = Inr []))"
proof -
  define d where "d = as_dict intent"
  define a where "a = as_dict (dget d ''action'')"
  define tgt where "tgt = as_dict (dget a ''target'')"
  have known: "(\<exists>b. in_str_set (dget a ''type'') action_types = Inr b \<and> schema_violations a tgt b = []) \<longleftrightarrow>
      payload_complete a tgt"
  proof
    assume "payload_complete a tgt"
    then have "in_str_set (dget a ''type'') action_types = Inr True"
      by (auto simp: payload_complete_def in_str_set_True)
    with \<open>payload_complete a tgt\<close> schema_complete
    show "\<exists>b. in_str_set (dget a ''type'') action_types = Inr b \<and> schema_violations a tgt b = []" by blast
  qed (use schema_complete in blast)
  have "gate_violations k intent session step actions snaps = Inr ([], risk) \<longleftrightarrow>
      (\<exists>b. in_str_set (dget a ''type'') action_types = Inr b \<and> schema_violations a tgt b = []) \<and>
      budget_violations session step actions = Inr [] \<and>
      (if dget a ''type'' = PStr ''launch_app''
       then validate_launch_app k (dget a ''app'') (dget a ''app_args'') (k_policy k) else Inr []) = Inr [] \<and>
      classify_risk intent None = Inr risk \<and>
      \<not> (high_risk risk \<and> falsy (dget d ''confirmation_token'')) \<and>
      (if dget tgt ''kind'' = PStr ''element''
       then foreign_violations k (dget tgt ''handle_id'') snaps else Inr []) = Inr []"
    unfolding gate_violations_def Let_def ebind_eq_Inr_iff d_def [symmetric] a_def [symmetric] tgt_def [symmetric]
    by (simp only: sum.inject prod.inject append_is_Nil_conv) (auto split: if_splits)
  also have "\<dots> \<longleftrightarrow> payload_complete a tgt \<and> within_budget session step actions \<and>
      (dget a ''type'' = PStr ''launch_app'' \<longrightarrow>
         validate_launch_app k (dget a ''app'') (dget a ''app_args'') (k_policy k) = Inr []) \<and>
      classify_risk intent None = Inr risk \<and>
      (high_risk risk \<longrightarrow> truthy (dget d ''confirmation_token'')) \<and>
      (dget tgt ''kind'' = PStr ''element'' \<longrightarrow> foreign_violations k (dget tgt ''handle_id'') snaps = Inr [])"
    unfolding known budget_Nil by auto
  finally show ?thesis by (simp only: Let_def d_def a_def tgt_def)
qed

lemma check_isolated:
  "check_action_spec (isolated_spec intent coord sh risk now_ms) = Inr s \<longleftrightarrow>
     s = isolated_spec intent coord sh risk now_ms \<and>
     (\<exists>t \<in> set action_types. dget (as_dict (dget (as_dict intent) ''action'')) ''type'' = PStr t) \<and>
     (\<exists>r \<in> set risk_levels. risk = PStr r)"
  by (auto simp: check_action_spec_def isolated_spec_def Let_def ebind_eq_Inr_iff in_str_set_True
      split: if_splits)

lemma accepted_inject [simp]: "accepted s = accepted t \<longleftrightarrow> s = t"
  by (simp add: accepted_def)

lemma rejected_inject [simp]: "rejected vs = rejected ws \<longleftrightarrow> vs = ws"
  by (simp add: rejected_def)

lemma accepted_not_rejected [simp]: "accepted s \<noteq> rejected vs" "rejected vs \<noteq> accepted s"
  by (simp_all add: accepted_def rejected_def)

lemma validate_cases:
  assumes "dget (as_dict (dget (as_dict intent) ''action'')) ''display_scope'' = PStr ''isolated''"
  shows "validate k intent session step actions snaps now_ms = Inr (accepted s) \<longleftrightarrow>
     (\<exists>risk coord sh. gate_violations k intent session step actions snaps = Inr ([], risk) \<and>
        gate_target intent snaps = Some (coord, sh) \<and>
        check_action_spec (isolated_spec intent coord sh risk now_ms) = Inr s)"
proof -
  have "validate k intent session step actions snaps now_ms = Inr (accepted s) \<longleftrightarrow>
    (\<exists>vs risk. gate_violations k intent session step actions snaps = Inr (vs, risk) \<and>
      (if vs \<noteq> [] then Inr (rejected vs)
       else case gate_target intent snaps of
              None \<Rightarrow> Inr (rejected [TARGET_UNRESOLVABLE])
            | Some (coord, sh) \<Rightarrow>
                (case check_action_spec (isolated_spec intent coord sh risk now_ms) of
                   Inl _ \<Rightarrow> Inr (rejected [SCHEMA_INVALID])
                 | Inr s \<Rightarrow> Inr (accepted s))) = (Inr (accepted s) :: pyexn + validation_result))"
    unfolding validate_def using assms by (simp add: ebind_eq_Inr_iff split_paired_Ex)
  also have "\<dots> \<longleftrightarrow> (\<exists>risk coord sh. gate_violations k intent session step actions snaps = Inr ([], risk) \<and>
        gate_target intent snaps = Some (coord, sh) \<and>
        check_action_spec (isolated_spec intent coord sh risk now_ms) = Inr s)"
    by (cases "gate_target intent snaps") (auto split: if_splits sum.splits)
  finally show ?thesis .
qed

text \<open>C20: the gate for isolated displays accepts an action exactly when it asks for the isolated display,
  is of a known type with the fields of that type, is within both budgets, passes the launch allowlist,
  has a known risk level and a confirmation token when that is high or irreversible, refers to no
  element of a process the supervisor does not own, and has a target that can be resolved; the action
  it returns is then determined.\<close>

theorem gate_accepts_exact:
  "validate k intent session step actions snaps now_ms = Inr (accepted s) \<longleftrightarrow>
     (let d = as_dict intent; a = as_dict (dget d ''action''); tgt = as_dict (dget a ''target'') in
      dget a ''display_scope'' = PStr ''isolated'' \<and>
      payload_complete a tgt \<and> within_budget session step actions \<and>
      (dget a ''type'' = PStr ''launch_app'' \<longrightarrow>
         validate_launch_app k (dget a ''app'') (dget a ''app_args'') (k_policy k) = Inr []) \<and>
      (dget tgt ''kind'' = PStr ''element'' \<longrightarrow>
         (\<forall>(n, sn) \<in> set snaps. \<exists>es. elements_of sn = Inr es \<and>
            (\<forall>e \<in> set es. \<not> foreign_element k (dget tgt ''handle_id'') e))) \<and>
      (\<exists>r \<in> set risk_levels. classify_risk intent None = Inr (PStr r) \<and>
         (r \<in> {''high'', ''irreversible''} \<longrightarrow> truthy (dget d ''confirmation_token'')) \<and>
         (\<exists>coord sh. gate_target intent snaps = Some (coord, sh) \<and>
            s = isolated_spec intent coord sh (PStr r) now_ms)))"
proof (cases "dget (as_dict (dget (as_dict intent) ''action'')) ''display_scope'' = PStr ''isolated''")
  case False
  then show ?thesis by (simp add: validate_def Let_def)
next
  case True
  define d where "d = as_dict intent"
  define a where "a = as_dict (dget d ''action'')"
  define tgt where "tgt = as_dict (dget a ''target'')"
  define E where "E = (\<forall>(n, sn) \<in> set snaps. \<exists>es. elements_of sn = Inr es \<and>
            (\<forall>e \<in> set es. \<not> foreign_element k (dget tgt ''handle_id'') e))"
  have known: "\<exists>t \<in> set action_types. dget a ''type'' = PStr t" if "payload_complete a tgt"
    using that by (auto simp: payload_complete_def)
  have "validate k intent session step actions snaps now_ms = Inr (accepted s) \<longleftrightarrow>
     payload_complete a tgt \<and> within_budget session step actions \<and>
     (dget a ''type'' = PStr ''launch_app'' \<longrightarrow>
         validate_launch_app k (dget a ''app'') (dget a ''app_args'') (k_policy k) = Inr []) \<and>
     (dget tgt ''kind'' = PStr ''element'' \<longrightarrow> E) \<and>
     (\<exists>risk coord sh. classify_risk intent None = Inr risk \<and>
        (high_risk risk \<longrightarrow> truthy (dget d ''confirmation_token'')) \<and>
        gate_target intent snaps = Some (coord, sh) \<and> s = isolated_spec intent coord sh risk now_ms \<and>
        (\<exists>r \<in> set risk_levels. risk = PStr r))"
    unfolding validate_cases [OF True] gate_violations_Nil check_isolated foreign_Nil Let_def
      d_def [symmetric] a_def [symmetric] tgt_def [symmetric] E_def [symmetric]
    using known by blast
  moreover have "(\<exists>risk coord sh. classify_risk intent None = Inr risk \<and>
        (high_risk risk \<longrightarrow> truthy (dget d ''confirmation_token'')) \<and>
        gate_target intent snaps = Some (coord, sh) \<and> s = isolated_spec intent coord sh risk now_ms \<and>
        (\<exists>r \<in> set risk_levels. risk = PStr r)) \<longleftrightarrow>
      (\<exists>r \<in> set risk_levels. classify_risk intent None = Inr (PStr r) \<and>
         (r \<in> {''high'', ''irreversible''} \<longrightarrow> truthy (dget d ''confirmation_token'')) \<and>
         (\<exists>coord sh. gate_target intent snaps = Some (coord, sh) \<and>
            s = isolated_spec intent coord sh (PStr r) now_ms))"
    unfolding insert_iff empty_iff by (metis (no_types, lifting) pyval.inject(4))
  moreover have "dget a ''display_scope'' = PStr ''isolated''" using True by (simp add: a_def d_def)
  ultimately show ?thesis
    unfolding Let_def d_def [symmetric] a_def [symmetric] tgt_def [symmetric] E_def [symmetric] by blast
qed

lemma gate_accepts_exact_witness:
  "payload_complete [(''type'', PStr ''hotkey''), (''display_scope'', PStr ''isolated''),
     (''hotkey'', PList [PStr ''Return''])] []"
proof -
  define k where "k = \<lparr> k_is_owned = \<lambda>_. False, k_policy = default_app_launch_policy,
    k_compile = \<lambda>p. None, k_repr = \<lambda>_. [] \<rparr>"
  define intent where "intent = PDict [(''action'', PDict [(''type'', PStr ''hotkey''),
     (''display_scope'', PStr ''isolated''), (''hotkey'', PList [PStr ''Return''])]), (''rationale'', PStr ''enter'')]"
  have "validate k intent PNone 0 0 [] 5 = Inr (accepted (isolated_spec intent None PNone (PStr ''low'') 5))"
    unfolding k_def intent_def by code_simp
  from gate_accepts_exact [THEN iffD1, OF this] show ?thesis
    by (simp add: intent_def Let_def)
qed

text \<open>C21: the gate fails closed: what it returns is either a refusal with at least one violation and no
  action, or an acceptance whose action is bound to the isolated display, carries no clearance for the
  real one, and, when it is spatial, has a point or (for a click or typing in the browser) the DOM
  target of the intent.\<close>

theorem isolated_gate_fails_closed:
  assumes "validate k intent session step actions snaps now_ms = Inr r"
  shows "(\<exists>vs. vs \<noteq> [] \<and> r = rejected vs) \<or>
    (\<exists>s. r = accepted s \<and> as_display_scope s = PStr ''isolated'' \<and> as_clearance_token s = None \<and>
       ((\<exists>t \<in> set spatial. as_type s = PStr t) \<longrightarrow>
          (\<exists>c. as_target s = Some (coordinate_dict c)) \<or>
          as_type s \<in> {PStr ''click'', PStr ''type''} \<and>
            (\<exists>tgt. as_target s = Some tgt \<and> dget tgt ''kind'' = PStr ''dom'')))"
proof (cases "\<exists>s. r = accepted s")
  case False
  from assms have "r = rejected [DISPLAY_SCOPE_INVALID] \<or>
      (\<exists>vs. vs \<noteq> [] \<and> r = rejected vs) \<or> (\<exists>s. r = accepted s)"
    unfolding validate_def
    by (auto simp: ebind_eq_Inr_iff split: if_splits option.splits sum.splits prod.splits)
  with False show ?thesis by (metis not_Cons_self2)
next
  case True
  then obtain s where s: "r = accepted s" by blast
  from gate_accepts_exact [THEN iffD1, OF assms [unfolded s]]
  obtain risk coord sh where t: "gate_target intent snaps = Some (coord, sh)"
    and sp: "s = isolated_spec intent coord sh risk now_ms"
    by (auto simp: Let_def)
  define a where "a = as_dict (dget (as_dict intent) ''action'')"
  define tgt where "tgt = as_dict (dget a ''target'')"
  have iso: "as_display_scope s = PStr ''isolated''" "as_clearance_token s = None" "as_type s = dget a ''type''"
    by (simp_all add: sp isolated_spec_def Let_def a_def)
  have point: "(\<exists>t \<in> set spatial. dget a ''type'' = PStr t) \<Longrightarrow>
     (\<exists>c. coord = Some c) \<or>
     (dget a ''type'' = PStr ''click'' \<or> dget a ''type'' = PStr ''type'') \<and> dget tgt ''kind'' = PStr ''dom'' \<and> coord = None"
    using t unfolding gate_target_def Let_def a_def [symmetric] tgt_def [symmetric] list_ex_iff
    by (auto split: if_splits sum.splits resolved.splits)
  have target: "as_target s = (case coord of Some c \<Rightarrow> Some (coordinate_dict c) | None \<Rightarrow>
      if (dget a ''type'' = PStr ''click'' \<or> dget a ''type'' = PStr ''type'') \<and> dget tgt ''kind'' = PStr ''dom''
      then Some tgt else None)"
    unfolding sp isolated_spec_def Let_def a_def tgt_def by simp
  have "(\<exists>t \<in> set spatial. as_type s = PStr t) \<longrightarrow>
      (\<exists>c. as_target s = Some (coordinate_dict c)) \<or>
      as_type s \<in> {PStr ''click'', PStr ''type''} \<and>
        (\<exists>tgt. as_target s = Some tgt \<and> dget tgt ''kind'' = PStr ''dom'')"
  proof (cases coord)
    case None
    with point target show ?thesis unfolding iso by auto
  next
    case (Some c)
    with target have "as_target s = Some (coordinate_dict c)" by simp
    then show ?thesis by blast
  qed
  with iso s show ?thesis by blast
qed

lemma isolated_gate_fails_closed_witness:
  "\<exists>vs. vs \<noteq> [] \<and> rejected [DISPLAY_SCOPE_INVALID] = rejected vs"
proof -
  define k where "k = \<lparr> k_is_owned = \<lambda>_. False, k_policy = default_app_launch_policy,
    k_compile = \<lambda>p. None, k_repr = \<lambda>_. [] \<rparr>"
  have "validate k (PDict [(''action'', PDict [(''type'', PStr ''click''), (''display_scope'', PStr '':0'')])])
      PNone 0 0 [] 5 = Inr (rejected [DISPLAY_SCOPE_INVALID])"
    unfolding k_def by code_simp
  from isolated_gate_fails_closed [OF this] show ?thesis by auto
qed

end
