(* ===== verification/Real_Act_Laws.thy ===== *)
theory Real_Act_Laws
  imports Real_Act Safety_Laws
begin

text \<open>
  What the gate for real displays guarantees: the exact condition under which an action is cleared, the
  audit trail of every decision, when the operator is asked, and, over a whole run of the kernel with
  the production ownership resolver, that no action reaches a process the run does not own without the
  operator's consent to that process.
\<close>

section \<open>Building the cleared action\<close>

lemma truthy_str_Some: "truthy_str v = Some s \<longleftrightarrow> v = Some s \<and> s \<noteq> []"
  by (auto simp: truthy_str_def split: option.splits)

lemma clearance_marked:
  "prefix ''clr:'' (clearance_token run_id p scope secs)"
  "is_real_act_clearance (Some (clearance_token run_id p scope secs))"
  "py_strip (clearance_token run_id p scope secs) \<noteq> []"
  by (simp_all add: clearance_token_def is_real_act_clearance_def truthy_str_def py_strip_empty_iff
      py_space_def Let_def)

lemma clearance_not_Nil [simp]: "clearance_token run_id p scope secs \<noteq> []"
  by (simp add: clearance_token_def)

definition known_action :: "pydict \<Rightarrow> bool" where
  "known_action a = (\<exists>t \<in> set action_types. py_or (dget a ''type'') (PStr ''click'') = PStr t)"

lemma build_accepts:
  assumes "py_strip clearance \<noteq> []"
  shows "build_real_act_allowed d a risk clearance ms =
     (if known_action a \<and> (\<exists>r \<in> set risk_levels. risk = PStr r)
      then accepted (real_act_spec d a risk clearance ms) else rejected [SCHEMA_INVALID])"
proof -
  have ne: "clearance \<noteq> []" using assms by (auto simp: py_strip_def py_lstrip_def)
  have "check_action_spec (real_act_spec d a risk clearance ms) = Inr s \<longleftrightarrow>
      known_action a \<and> (\<exists>r \<in> set risk_levels. risk = PStr r) \<and> s = real_act_spec d a risk clearance ms" for s
    using assms ne unfolding check_action_spec_def known_action_def
    by (auto simp: real_act_spec_def ebind_eq_Inr_iff in_str_set_True split: if_splits)
  then show ?thesis
    unfolding build_real_act_allowed_def
    by (cases "check_action_spec (real_act_spec d a risk clearance ms)") auto
qed

lemmas build_token = build_accepts [OF clearance_marked(3)]

section \<open>The outcome\<close>

text \<open>The operator, asked in state \<open>st\<close>, grants a scope.\<close>

definition consents :: "gate \<Rightarrow> gate_state \<Rightarrow> prompt_context \<Rightarrow> bool" where
  "consents g st ctx = (\<exists>prompt res. g_prompter g = Some prompt \<and>
     prompt (length (gs_prompts st)) ctx = Some res \<and> pr_granted res \<and> truthy_str (pr_grant_scope res) \<noteq> None)"

lemma emit_keeps [simp]:
  "gs_cache (emit_event g t e st) = gs_cache st" "gs_prompts (emit_event g t e st) = gs_prompts st"
  by (simp_all add: emit_event_def)

lemma cache_keeps [simp]:
  "gs_prompts (snd (check_cache rd p st)) = gs_prompts st"
  "gs_events (snd (check_cache rd p st)) = gs_events st"
  "gs_prompts (cache_grant g rd p scope st) = gs_prompts st"
  "gs_events (cache_grant g rd p scope st) = gs_events st"
  by (simp_all add: check_cache_def cache_grant_def split: option.splits prod.splits)

lemma ask_accepts:
  "(\<exists>s. fst (ask_operator g rd d a tgt sb risk p st) = accepted s) \<longleftrightarrow>
     consents g st (prompt_for g d a tgt sb p) \<and> known_action a \<and> (\<exists>r \<in> set risk_levels. risk = PStr r)"
proof (cases "g_prompter g")
  case None
  then show ?thesis by (simp add: ask_operator_def consents_def Let_def)
next
  case (Some prompt)
  show ?thesis
  proof (cases "prompt (length (gs_prompts st)) (prompt_for g d a tgt sb p)")
    case None
    with Some show ?thesis by (simp add: ask_operator_def consents_def Let_def)
  next
    case (Some res)
    with \<open>g_prompter g = Some prompt\<close> show ?thesis
      unfolding ask_operator_def consents_def Let_def
      by (auto simp: build_token split: option.splits)
  qed
qed

text \<open>C9: an action on the operator's display is cleared exactly when the run is in REAL mode, the target
  resolves to a process, and that process is owned, or else foreign interaction is neither excluded by
  the policy nor by the ask mode and a cached grant or the operator's answer allows it; and the action
  has a known type and risk level.\<close>

theorem real_act_exact:
  "(\<exists>s. fst (real_act_gate g rd st intent session snaps) = Inr (accepted s)) \<longleftrightarrow>
     (let d = as_dict intent; a = as_dict (dget d ''action''); tgt = as_dict (dget a ''target'');
          sb = as_dict session in
      mode_of sb = PStr ''REAL'' \<and>
      (\<exists>p. resolved_pid g tgt snaps = Some p \<and>
        (target_class g p = OWNED \<or>
         policy_of sb \<noteq> PStr ''children'' \<and> ask_of sb \<noteq> PStr ''off'' \<and>
         (fst (check_cache rd p st) \<or>
          consents g (snd (check_cache rd p st)) (prompt_for g d a tgt sb p)))) \<and>
      known_action a \<and>
      (\<exists>r \<in> set risk_levels. classify_risk intent (Some ''real_act'') = Inr (PStr r)))"
proof -
  define d where "d = as_dict intent"
  define a where "a = as_dict (dget d ''action'')"
  define tgt where "tgt = as_dict (dget a ''target'')"
  define sb where "sb = as_dict session"
  note folds = d_def [symmetric] a_def [symmetric] tgt_def [symmetric] sb_def [symmetric]
  show ?thesis
  proof (cases "classify_risk intent (Some ''real_act'')")
    case (Inl e)
    then show ?thesis by (simp add: real_act_gate_def Let_def)
  next
    case (Inr risk)
    note risk = this
    show ?thesis
    proof (cases "mode_of sb = PStr ''REAL''")
      case False
      with risk show ?thesis unfolding real_act_gate_def Let_def folds by simp
    next
      case True
      note mode = this
      show ?thesis
      proof (cases "resolved_pid g tgt snaps")
        case None
        with risk mode show ?thesis unfolding real_act_gate_def Let_def folds by simp
      next
        case (Some p)
        obtain b st1 where c: "check_cache rd p st = (b, st1)" by force
        obtain r st2 where q: "ask_operator g rd d a tgt sb risk p st1 = (r, st2)" by force
        from ask_accepts [of g rd d a tgt sb risk p st1]
        have ask: "(\<exists>s. r = accepted s) \<longleftrightarrow> consents g st1 (prompt_for g d a tgt sb p) \<and> known_action a \<and>
            (\<exists>r \<in> set risk_levels. risk = PStr r)" by (simp add: q)
        show ?thesis
          using risk mode Some c q
          unfolding real_act_gate_def Let_def folds
          by (cases b) (auto simp: ask build_token)
      qed
    qed
  qed
qed

section \<open>Consent over a whole run\<close>

text \<open>The production resolver as the gate sees it; neither method raises.\<close>

definition production_owner :: "resolver \<Rightarrow> owner_iface" where
  "production_owner r = \<lparr> oi_resolve = \<lambda>t ws. Some (resolve_target_to_pid t ws),
     oi_classify = \<lambda>p. Some (classify r (PInt p)) \<rparr>"

type_synonym prompter = "(nat \<Rightarrow> prompt_context \<Rightarrow> prompt_result option) option"

text \<open>One of the prompts shown was about \<open>p\<close> and the operator granted it.\<close>

definition consented :: "prompter \<Rightarrow> prompt_context list \<Rightarrow> int \<Rightarrow> bool" where
  "consented pr ps p = (\<exists>i < length ps. pc_pid (ps ! i) = p \<and>
     (\<exists>prompt res. pr = Some prompt \<and> prompt i (ps ! i) = Some res \<and> pr_granted res \<and>
        truthy_str (pr_grant_scope res) \<noteq> None))"

text \<open>
  A run of the kernel: gate calls, between which the registry and the resolver may change, and grants
  dropped when a process dies.  The prompter stays the same.
\<close>

inductive gate_run :: "prompter \<Rightarrow> gate_state \<Rightarrow> bool" for pr where
  start: "gate_run pr \<lparr> gs_cache = map_option new_cache rid, gs_events = [], gs_prompts = [] \<rparr>"
| act: "gate_run pr st \<Longrightarrow> g_prompter g = pr \<Longrightarrow>
        real_act_gate g rd st intent session snaps = (out, st') \<Longrightarrow> gate_run pr st'"
| drop: "gate_run pr st \<Longrightarrow> gs_cache st = Some c \<Longrightarrow> gate_run pr (st\<lparr> gs_cache := Some (clear_for_pid c p) \<rparr>)"

definition backed :: "prompter \<Rightarrow> gate_state \<Rightarrow> bool" where
  "backed pr st = (\<forall>c p. gs_cache st = Some c \<longrightarrow> recorded c p \<noteq> Nothing \<longrightarrow> consented pr (gs_prompts st) p)"

lemma consented_append: "consented pr ps p \<Longrightarrow> consented pr (ps @ qs) p"
  unfolding consented_def by (metis length_append nth_append trans_less_add1)

lemma backed_emit [simp]: "backed pr (emit_event g t e st) = backed pr st"
  by (simp add: backed_def)

lemma backed_prompt: "backed pr st \<Longrightarrow> backed pr (st\<lparr> gs_prompts := gs_prompts st @ [ctx] \<rparr>)"
  unfolding backed_def using consented_append by fastforce

lemma backed_check: "backed pr st \<Longrightarrow> backed pr (snd (check_cache rd p st))"
proof (cases "gs_cache st")
  case (Some c)
  assume b: "backed pr st"
  obtain a c' where i: "is_granted (at_check rd) c (PInt p) None = (a, c')" by force
  have "recorded c' q \<noteq> Nothing \<Longrightarrow> recorded c q \<noteq> Nothing" for q
    using recorded_check [of "at_check rd" c "PInt p" None q] i by (auto split: if_splits)
  with b Some i show ?thesis by (simp add: backed_def check_cache_def)
qed (simp add: check_cache_def)

lemma backed_grant:
  assumes "backed pr st" "consented pr (gs_prompts st) p"
  shows "backed pr (cache_grant g rd p scope st)"
proof (cases "gs_cache st")
  case (Some c)
  have "consented pr (gs_prompts st) q"
    if "recorded (snd (grant_pid (g_fmt g) (at_grant rd) c (PInt p) scope None)) q \<noteq> Nothing" for q
  proof (cases "q = p")
    case False
    then have "recorded c q \<noteq> Nothing"
      using that by (auto simp: recorded_grant pos_int_def split: if_splits)
    with assms(1) Some show ?thesis by (simp add: backed_def)
  qed (simp add: assms(2))
  with Some show ?thesis by (simp add: backed_def cache_grant_def)
qed (simp add: cache_grant_def assms(1))

lemma asked_now:
  assumes "g_prompter g = Some prompt" "prompt (length ps) ctx = Some res" "pr_granted res"
    "truthy_str (pr_grant_scope res) \<noteq> None"
  shows "consented (g_prompter g) (ps @ [ctx]) (pc_pid ctx)"
  unfolding consented_def using assms by (intro exI [of _ "length ps"]) auto

lemma ctx_pid [simp]: "pc_pid (prompt_for g d a tgt sb p) = p"
  by (simp add: prompt_for_def)

text \<open>The states the prompt path can leave behind.\<close>

lemma ask_backed:
  assumes "backed (g_prompter g) st"
  shows "backed (g_prompter g) (snd (ask_operator g rd d a tgt sb risk p st)) \<and>
    (\<forall>s. fst (ask_operator g rd d a tgt sb risk p st) = accepted s \<longrightarrow>
       consented (g_prompter g) (gs_prompts (snd (ask_operator g rd d a tgt sb risk p st))) p)"
proof (cases "g_prompter g")
  case None
  with assms show ?thesis by (simp add: ask_operator_def Let_def)
next
  case (Some prompt)
  let ?ctx = "prompt_for g d a tgt sb p"
  define st2 where "st2 = (emit_event g PERMISSION_PROMPT_SHOWN
      [(''run_id'', PStr (run_id_of g sb)), (''pid'', PInt p), (''action_type'', PStr (pc_action_type ?ctx)),
       (''policy'', PStr (pc_policy ?ctx)), (''ask_mode'', PStr (pc_ask_mode ?ctx))] st)\<lparr> gs_prompts := gs_prompts st @ [?ctx] \<rparr>"
  have b2: "backed (g_prompter g) st2"
    using backed_prompt [of "g_prompter g" "emit_event g PERMISSION_PROMPT_SHOWN
      [(''run_id'', PStr (run_id_of g sb)), (''pid'', PInt p), (''action_type'', PStr (pc_action_type ?ctx)),
       (''policy'', PStr (pc_policy ?ctx)), (''ask_mode'', PStr (pc_ask_mode ?ctx))] st" ?ctx] assms
    by (simp add: st2_def)
  have p2: "gs_prompts st2 = gs_prompts st @ [?ctx]" by (simp add: st2_def)
  show ?thesis
  proof (cases "prompt (length (gs_prompts st)) ?ctx")
    case None
    with \<open>g_prompter g = Some prompt\<close> b2 show ?thesis
      unfolding ask_operator_def Let_def by (simp add: st2_def [symmetric])
  next
    case (Some res)
    define st3 where "st3 = (if py_strip (pr_operator_text res) = [] then st2
        else emit_event g OPERATOR_NOTE_RECEIVED [(''run_id'', PStr (run_id_of g sb)), (''pid'', PInt p),
               (''text'', PStr (take 200 (py_strip (pr_operator_text res))))] st2)"
    have b3: "backed (g_prompter g) st3" "gs_prompts st3 = gs_prompts st @ [?ctx]"
      using b2 p2 by (simp_all add: st3_def)
    show ?thesis
    proof (cases "pr_granted res \<and> truthy_str (pr_grant_scope res) \<noteq> None")
      case False
      then have "(if pr_granted res then truthy_str (pr_grant_scope res) else None) = None" by auto
      with \<open>g_prompter g = Some prompt\<close> Some b3 b2 show ?thesis
        unfolding ask_operator_def Let_def by (simp add: st2_def [symmetric] st3_def [symmetric])
    next
      case True
      then obtain scope where "truthy_str (pr_grant_scope res) = Some scope" by blast
      moreover have c: "consented (g_prompter g) (gs_prompts st3) p"
        using asked_now [OF \<open>g_prompter g = Some prompt\<close> Some] True b3(2) by simp
      ultimately show ?thesis
        using \<open>g_prompter g = Some prompt\<close> Some True backed_grant [OF b3(1) c]
        unfolding ask_operator_def Let_def
        by (cases "py_strip (pr_operator_text res) = []") (simp_all add: st2_def [symmetric] st3_def)
    qed
  qed
qed

lemma gate_backed:
  assumes "backed (g_prompter g) st" "real_act_gate g rd st intent session snaps = (out, st')"
  shows "backed (g_prompter g) st'"
proof -
  define d where "d = as_dict intent"
  define a where "a = as_dict (dget d ''action'')"
  define tgt where "tgt = as_dict (dget a ''target'')"
  define sb where "sb = as_dict session"
  note folds = d_def [symmetric] a_def [symmetric] tgt_def [symmetric] sb_def [symmetric]
  show ?thesis
  proof (cases "classify_risk intent (Some ''real_act'')")
    case (Inl e)
    with assms show ?thesis by (simp add: real_act_gate_def Let_def)
  next
    case (Inr risk)
    show ?thesis
    proof (cases "resolved_pid g tgt snaps")
      case None
      with Inr assms show ?thesis
        unfolding real_act_gate_def Let_def folds by (auto split: if_splits)
    next
      case (Some p)
      obtain b st1 where c: "check_cache rd p st = (b, st1)" by force
      obtain r st2 where q: "ask_operator g rd d a tgt sb risk p st1 = (r, st2)" by force
      have b1: "backed (g_prompter g) st1" using backed_check [OF assms(1), of rd p] c by simp
      have b2: "backed (g_prompter g) st2" using ask_backed [OF b1, of rd d a tgt sb risk p] q by simp
      show ?thesis
        using assms Inr Some c q b1 b2
        unfolding real_act_gate_def Let_def folds
        by (cases b) (auto split: if_splits)
    qed
  qed
qed

lemma run_backed: "gate_run pr st \<Longrightarrow> backed pr st"
proof (induction rule: gate_run.induct)
  case (start rid)
  show ?case by (cases rid) (auto simp: backed_def)
next
  case (act st g rd intent session snaps out st')
  then show ?case using gate_backed [of g st] by auto
next
  case (drop st c p)
  then show ?case by (simp add: backed_def)
qed

text \<open>C1: at any point of a run that starts with an empty grant cache, an action the gate clears is aimed
  at a process that the supervisor owns and that was not alive at the baseline, or at one for which the
  operator has answered a prompt (of this call or an earlier one) with a grant.  In particular no
  process of the baseline is ever touched without such an answer.\<close>

theorem no_action_without_consent:
  assumes "gate_run (g_prompter g) st"
    and "g_owner g = Some (production_owner r)"
    and "real_act_gate g rd st intent session snaps = (Inr (accepted s), st')"
  shows "\<exists>p. resolve_target_to_pid (PDict (as_dict (dget (as_dict (dget (as_dict intent) ''action'')) ''target'')))
           (snapshot_windows snaps) = Some p \<and>
         (p \<notin> baseline_pids r \<and> claims_of r p \<or> consented (g_prompter g) (gs_prompts st') p)"
proof -
  define d where "d = as_dict intent"
  define a where "a = as_dict (dget d ''action'')"
  define tgt where "tgt = as_dict (dget a ''target'')"
  define sb where "sb = as_dict session"
  note folds = d_def [symmetric] a_def [symmetric] tgt_def [symmetric] sb_def [symmetric]
  have "\<exists>s. fst (real_act_gate g rd st intent session snaps) = Inr (accepted s)" using assms(3) by simp
  from real_act_exact [THEN iffD1, OF this]
  obtain p risk where p: "resolved_pid g tgt snaps = Some p" and mode: "mode_of sb = PStr ''REAL''"
    and risk: "classify_risk intent (Some ''real_act'') = Inr risk"
    unfolding Let_def folds by blast
  have res: "resolve_target_to_pid (PDict tgt) (snapshot_windows snaps) = Some p"
    using p assms(2) by (auto simp: resolved_pid_def production_owner_def split: option.splits if_splits)
  obtain b st1 where c: "check_cache rd p st = (b, st1)" by force
  obtain v st2 where q: "ask_operator g rd d a tgt sb risk p st1 = (v, st2)" by force
  have b0: "backed (g_prompter g) st" using assms(1) by (rule run_backed)
  have b1: "backed (g_prompter g) st1" using backed_check [OF b0, of rd p] c by simp
  have "p \<notin> baseline_pids r \<and> claims_of r p \<or> consented (g_prompter g) (gs_prompts st') p"
  proof (cases "target_class g p = OWNED")
    case True
    then have "classify r (PInt p) = OWNED"
      using assms(2) by (simp add: target_class_def production_owner_def)
    with real.owned_target [OF res] show ?thesis by simp
  next
    case False
    show ?thesis
    proof (cases b)
      case True
      have "gs_prompts st' = gs_prompts st"
        using assms(3) False True p mode risk c cache_keeps(1) [of rd p st]
        unfolding real_act_gate_def Let_def folds by (auto split: if_splits)
      moreover have "\<exists>c. gs_cache st = Some c \<and> recorded c p \<noteq> Nothing"
        using c True by (auto simp: check_cache_def granted_recorded pos_int_def
            dest!: arg_cong [where f = fst] split: option.splits prod.splits if_splits)
      ultimately show ?thesis using b0 by (auto simp: backed_def)
    next
      case nb: False
      have "v = accepted s \<and> st' = st2"
        using assms(3) False nb p mode risk c q
        unfolding real_act_gate_def Let_def folds by (auto split: if_splits)
      then show ?thesis using ask_backed [OF b1, of rd d a tgt sb risk p] q by simp
    qed
  qed
  with res show ?thesis unfolding folds by blast
qed

text \<open>A small kernel: one owned process (2001), one baseline process (1001), and an operator who allows one
  action and then nothing.\<close>

definition demo_resolver :: resolver where
  "demo_resolver = \<lparr> baseline_pids = {1001}, baseline_windows = Map.empty,
     supervisor = Some (\<lambda>p. Some (p = 2001)) \<rparr>"

definition demo_gate :: gate where
  "demo_gate = \<lparr> g_owner = Some (production_owner demo_resolver),
     g_prompter = Some (\<lambda>n ctx. if n = 0
        then Some \<lparr> pr_grant_scope = Some ACTION, pr_operator_text = ''once'', pr_granted = True \<rparr>
        else Some \<lparr> pr_grant_scope = None, pr_operator_text = [], pr_granted = False \<rparr>),
     g_has_sink = True, g_repr = \<lambda>_. [], g_fmt = \<lambda>_. Some [] \<rparr>"

definition demo_readings :: readings where
  "demo_readings = \<lparr> at_check = 10, at_grant = 11, token_seconds = 12, spec_millis = 13 \<rparr>"

definition demo_session :: pyval where
  "demo_session = PDict [(''run_id'', PStr ''r''), (''mode'', PStr ''REAL'')]"

definition demo_intent :: "int \<Rightarrow> pyval" where
  "demo_intent pid = PDict [(''action'', PDict [(''type'', PStr ''hotkey''),
     (''target'', PDict [(''kind'', PStr ''element''), (''app_pid'', PInt pid)])])]"

definition demo_start :: gate_state where
  "demo_start = \<lparr> gs_cache = Some (new_cache (Some ''r'')), gs_events = [], gs_prompts = [] \<rparr>"

definition demo_call :: "int \<Rightarrow> gate_state \<Rightarrow> bool \<times> gate_state" where
  "demo_call pid st = (case real_act_gate demo_gate demo_readings st (demo_intent pid) demo_session [] of
     (out, st') \<Rightarrow> (case out of Inl _ \<Rightarrow> False | Inr r \<Rightarrow> valid r, st'))"

lemmas demo_defs = demo_resolver_def demo_gate_def demo_readings_def demo_session_def demo_intent_def
  demo_start_def demo_call_def

section \<open>The audit trail\<close>

text \<open>From \<open>st\<close> to \<open>st'\<close> the sink, if there is one, received notes and prompts, then one decision of type
  \<open>t\<close>.\<close>

definition side_event :: "event \<Rightarrow> bool" where
  "side_event e = (ev_type e = PERMISSION_PROMPT_SHOWN \<or> ev_type e = OPERATOR_NOTE_RECEIVED)"

definition decided :: "gate \<Rightarrow> gate_state \<Rightarrow> gate_state \<Rightarrow> string \<Rightarrow> bool" where
  "decided g st st' t = (if g_has_sink g
     then \<exists>mid ev. gs_events st' = gs_events st @ mid @ [ev] \<and> list_all side_event mid \<and> ev_type ev = t
     else gs_events st' = gs_events st)"

definition side_steps :: "gate \<Rightarrow> gate_state \<Rightarrow> gate_state \<Rightarrow> bool" where
  "side_steps g st st' = (if g_has_sink g
     then \<exists>mid. gs_events st' = gs_events st @ mid \<and> list_all side_event mid
     else gs_events st' = gs_events st)"

lemma side_refl [simp]: "gs_events st' = gs_events st \<Longrightarrow> side_steps g st st'"
  by (simp add: side_steps_def)

lemma side_emit:
  "side_steps g st st' \<Longrightarrow> t = PERMISSION_PROMPT_SHOWN \<or> t = OPERATOR_NOTE_RECEIVED \<Longrightarrow>
   side_steps g st (emit_event g t e st')"
  by (auto simp: side_steps_def emit_event_def side_event_def)

lemma side_decide: "side_steps g st st' \<Longrightarrow> decided g st (emit_event g t e st') t"
  by (auto simp: side_steps_def decided_def emit_event_def)

lemma side_frame [simp]:
  "side_steps g st (st'\<lparr> gs_prompts := ps \<rparr>) = side_steps g st st'"
  "side_steps g st (cache_grant g rd p scope st') = side_steps g st st'"
  by (simp_all add: side_steps_def)

text \<open>What a result says about the decision that was logged.\<close>

definition logged :: "gate \<Rightarrow> gate_state \<Rightarrow> validation_result \<times> gate_state \<Rightarrow> bool" where
  "logged g st out = (case out of (r, st') \<Rightarrow>
     (\<exists>s. r = accepted s) \<and> decided g st st' PERMISSION_GRANTED \<or>
     r = rejected [SCHEMA_INVALID] \<and> decided g st st' PERMISSION_GRANTED \<or>
     (\<exists>vs. vs \<noteq> [] \<and> r = rejected vs) \<and>
       (decided g st st' PERMISSION_DENIED \<or> decided g st st' FOREIGN_INTERACTION_BLOCKED))"

lemma logged_build:
  "decided g st st' PERMISSION_GRANTED \<Longrightarrow>
   logged g st (build_real_act_allowed d a risk (clearance_token i p sc n) ms, st')"
  by (simp add: logged_def build_token)

lemma logged_reject:
  "decided g st st' PERMISSION_DENIED \<or> decided g st st' FOREIGN_INTERACTION_BLOCKED \<Longrightarrow>
   logged g st (rejected [c], st')"
  by (auto simp: logged_def)

lemma ask_logged: "side_steps g st st1 \<Longrightarrow> logged g st (ask_operator g rd d a tgt sb risk p st1)"
  unfolding ask_operator_def Let_def
  by (auto intro!: logged_reject logged_build side_decide simp: side_emit split: option.splits if_splits)

lemma check_side: "side_steps g st (snd (check_cache rd p st))"
  by simp

lemma gate_logged:
  assumes "real_act_gate g rd st intent session snaps = (Inr r, st')"
  shows "logged g st (r, st')"
proof -
  define d where "d = as_dict intent"
  define a where "a = as_dict (dget d ''action'')"
  define tgt where "tgt = as_dict (dget a ''target'')"
  define sb where "sb = as_dict session"
  note folds = d_def [symmetric] a_def [symmetric] tgt_def [symmetric] sb_def [symmetric]
  from assms obtain risk where risk: "classify_risk intent (Some ''real_act'') = Inr risk"
    by (auto simp: real_act_gate_def Let_def split: sum.splits)
  show ?thesis
  proof (cases "resolved_pid g tgt snaps")
    case None
    with risk assms show ?thesis
      unfolding real_act_gate_def Let_def folds
      by (auto intro!: logged_reject side_decide split: if_splits)
  next
    case (Some p)
    obtain b st1 where c: "check_cache rd p st = (b, st1)" by force
    have s: "side_steps g st st1" using check_side [of g st rd p] c by simp
    obtain v st2 where q: "ask_operator g rd d a tgt sb risk p st1 = (v, st2)" by force
    have "logged g st (v, st2)" using ask_logged [OF s, of rd d a tgt sb risk p] q by simp
    with assms risk Some c q s show ?thesis
      unfolding real_act_gate_def Let_def folds
      by (cases b) (auto intro!: logged_reject logged_build side_decide split: if_splits)
  qed
qed

text \<open>Every call of the gate that returns logs exactly one decision, after the prompt and the note it
  may log, and the decision is the outcome: \<open>permission.granted\<close> for a cleared action (or one whose
  type or risk level then turns out invalid), a denial or a block for every other refusal; a refusal
  always carries a violation and no action.\<close>

theorem every_decision_audited:
  assumes "real_act_gate g rd st intent session snaps = (Inr r, st')" "g_has_sink g"
  shows "\<exists>mid ev. gs_events st' = gs_events st @ mid @ [ev] \<and>
     (\<forall>e \<in> set mid. ev_type e \<in> {PERMISSION_PROMPT_SHOWN, OPERATOR_NOTE_RECEIVED}) \<and>
     (if ev_type ev = PERMISSION_GRANTED
      then (\<exists>s. r = accepted s) \<or> r = rejected [SCHEMA_INVALID]
      else ev_type ev \<in> {PERMISSION_DENIED, FOREIGN_INTERACTION_BLOCKED} \<and>
           (\<exists>vs. vs \<noteq> [] \<and> r = rejected vs))"
proof -
  from gate_logged [OF assms(1)] obtain t where
    t: "decided g st st' t" "if t = PERMISSION_GRANTED then (\<exists>s. r = accepted s) \<or> r = rejected [SCHEMA_INVALID]
      else t \<in> {PERMISSION_DENIED, FOREIGN_INTERACTION_BLOCKED} \<and> (\<exists>vs. vs \<noteq> [] \<and> r = rejected vs)"
    by (auto simp: logged_def)
  from t(1) assms(2) obtain mid ev where
    h: "gs_events st' = gs_events st @ mid @ [ev]" "list_all side_event mid" "ev_type ev = t"
    by (auto simp: decided_def)
  from h(2) have "\<forall>e \<in> set mid. ev_type e \<in> {PERMISSION_PROMPT_SHOWN, OPERATOR_NOTE_RECEIVED}"
    by (simp add: list_all_iff side_event_def)
  with h(1) t(2) show ?thesis unfolding h(3) [symmetric] by blast
qed

lemma gate_form:
  assumes "fst (real_act_gate g rd st intent session snaps) = Inr r" "valid r"
  shows "\<exists>s. real_act_gate g rd st intent session snaps =
    (Inr (accepted s), snd (real_act_gate g rd st intent session snaps))"
proof -
  have "real_act_gate g rd st intent session snaps = (Inr r, snd (real_act_gate g rd st intent session snaps))"
    using assms(1) by (metis prod.collapse)
  from gate_logged [OF this] assms(2) have "\<exists>s. r = accepted s"
    by (auto simp: logged_def rejected_def)
  with assms(1) show ?thesis by (metis prod.collapse)
qed

section \<open>Witnesses on the small kernel\<close>

lemma demo_accepts:
  assumes "fst (demo_call pid st)"
  shows "\<exists>s. real_act_gate demo_gate demo_readings st (demo_intent pid) demo_session [] =
    (Inr (accepted s), snd (demo_call pid st))"
proof -
  obtain out st' where o: "real_act_gate demo_gate demo_readings st (demo_intent pid) demo_session [] = (out, st')"
    by force
  with assms obtain r where "out = Inr r" "valid r"
    by (auto simp: demo_call_def split: sum.splits)
  with o gate_form [of demo_gate demo_readings st "demo_intent pid" demo_session "[]" r]
  show ?thesis by (simp add: demo_call_def)
qed

lemma demo_first: "fst (demo_call 1001 demo_start)"
  by code_simp

lemma every_decision_audited_witness:
  "\<exists>mid ev. gs_events (snd (demo_call 1001 demo_start)) = mid @ [ev] \<and> ev_type ev = PERMISSION_GRANTED"
proof -
  from demo_accepts [OF demo_first] obtain s where
    "real_act_gate demo_gate demo_readings demo_start (demo_intent 1001) demo_session [] =
      (Inr (accepted s), snd (demo_call 1001 demo_start))" by blast
  from every_decision_audited [OF this] show ?thesis
    by (auto simp: demo_gate_def demo_start_def split: if_splits)
qed

lemma real_act_exact_witness:
  "resolved_pid demo_gate [(''kind'', PStr ''element''), (''app_pid'', PInt 1001)] [] = Some 1001 \<and>
   (\<exists>r \<in> set risk_levels. classify_risk (demo_intent 1001) (Some ''real_act'') = Inr (PStr r))"
proof
  show "resolved_pid demo_gate [(''kind'', PStr ''element''), (''app_pid'', PInt 1001)] [] = Some 1001"
    by code_simp
  from demo_accepts [OF demo_first]
  have "\<exists>s. fst (real_act_gate demo_gate demo_readings demo_start (demo_intent 1001) demo_session [])
      = Inr (accepted s)" by auto
  from real_act_exact [THEN iffD1, OF this]
  show "\<exists>r \<in> set risk_levels. classify_risk (demo_intent 1001) (Some ''real_act'') = Inr (PStr r)"
    by (simp add: Let_def)
qed

lemma demo_run: "gate_run (g_prompter demo_gate) demo_start"
  using gate_run.start [of "g_prompter demo_gate" "Some (Some ''r'')"] by (simp add: demo_start_def)

lemma no_action_without_consent_witness:
  "resolve_target_to_pid (PDict (as_dict (dget (as_dict (dget (as_dict (demo_intent 1001)) ''action'')) ''target''))) [] = Some 1001 \<and>
   consented (g_prompter demo_gate) (gs_prompts (snd (demo_call 1001 demo_start))) 1001"
proof -
  have r: "resolve_target_to_pid (PDict (as_dict (dget (as_dict (dget (as_dict (demo_intent 1001)) ''action'')) ''target''))) [] = Some 1001"
    by code_simp
  have o: "g_owner demo_gate = Some (production_owner demo_resolver)" by (simp add: demo_gate_def)
  from demo_accepts [OF demo_first] obtain s where
    "real_act_gate demo_gate demo_readings demo_start (demo_intent 1001) demo_session [] =
      (Inr (accepted s), snd (demo_call 1001 demo_start))" by blast
  from no_action_without_consent [OF demo_run o this] r show ?thesis
    by (simp add: snapshot_windows_def demo_resolver_def)
qed

text \<open>
  The answer "allow once" allows two actions: the grant is cached without being marked as used by the
  action that was just allowed, so the next action on the process is cleared by the cache; only the
  third asks again.
\<close>

lemma allow_once_allows_twice:
  "let one = demo_call 1001 demo_start; two = demo_call 1001 (snd one); three = demo_call 1001 (snd two) in
   fst one \<and> length (gs_prompts (snd one)) = 1 \<and>
   fst two \<and> length (gs_prompts (snd two)) = 1 \<and>
   \<not> fst three \<and> length (gs_prompts (snd three)) = 2"
  by code_simp

text \<open>
  An element target is believed: the process id the intent itself states decides, so an action without
  coordinates (a key press goes to whatever window has the focus) is cleared without a prompt when the
  intent names an owned process.
\<close>

lemma claimed_process_is_believed:
  "fst (demo_call 2001 demo_start) \<and> gs_prompts (snd (demo_call 2001 demo_start)) = []"
  by code_simp

end
