(* ===== verification/Master_Context.thy ===== *)
theory Master_Context
  imports Graph_Plan_Laws
begin

text \<open>
  The running context of the master workflow (\<^verbatim>\<open>agy_orchestrator/workflows/master.py\<close>): the blocks
  of step summaries, the context a graph node is given (its ancestors only), the linear context a
  graph run returns, the gate between the flat loop and the graph walker, and the two-tier
  compaction with its splitter.  The worker that condenses older steps is a parameter.
\<close>

section \<open>Step results and summaries\<close>

record step_result =
  final_output :: string
  step_summary :: string
  verified :: bool
  approved :: bool
  stalled :: bool
  iterations_used :: int
  session_id :: "string option"

definition missing_summary :: string where
  "missing_summary = [CHR 0x00] @ ''__AGY_MISSING_SUMMARY__'' @ [CHR 0x00]"

definition missing_note :: "string \<Rightarrow> string" where
  "missing_note task = ''(prior step completed in an earlier run; its detailed summary was '' @
     ''not preserved across resume '' @ [CHR 0xE2, CHR 0x80, CHR 0x94] @ '' task was: '' @ take 300 task @ '')''"

definition render_step_summary :: "string \<Rightarrow> string \<Rightarrow> string" where
  "render_step_summary summary task = (if summary = missing_summary then missing_note task else summary)"

definition goal_header :: "string \<Rightarrow> string" where
  "goal_header prompt = ''Original Goal: '' @ prompt @ nl @ nl @ ''=== Accumulated Implementation ==='' @ nl"

definition step_block :: "nat \<Rightarrow> string \<Rightarrow> string" where
  "step_block n text = nl @ ''--- Step '' @ show_nat n @ '' Summary ---'' @ nl @ text @ nl"

section \<open>Contexts of graph nodes\<close>

text \<open>\<open>{nid: idx + 1 for idx, nid in enumerate(order)}\<close>; the code reads it at ids of the order only.\<close>

definition step_no :: "string list \<Rightarrow> string \<Rightarrow> nat" where
  "step_no order nid = Suc (pos order nid)"

text \<open>What composing a context can raise: the sort's error, or the \<open>KeyError\<close> of \<open>done[anc]\<close>.\<close>

datatype context_error = Plan_Error graph_error | Missing_Result string

type_synonym done_map = "string \<Rightarrow> step_result option"

definition lift_plan :: "graph_error + 'a \<Rightarrow> context_error + 'a" where
  "lift_plan r = (case r of Inl e \<Rightarrow> Inl (Plan_Error e) | Inr x \<Rightarrow> Inr x)"

definition rendered :: "plan_node list \<Rightarrow> step_result \<Rightarrow> string \<Rightarrow> string" where
  "rendered nodes r nid = render_step_summary (step_summary r) (task_of nodes nid)"

fun ancestor_blocks :: "plan_node list \<Rightarrow> string list \<Rightarrow> done_map \<Rightarrow> string list \<Rightarrow> context_error + string" where
  "ancestor_blocks nodes order dn [] = Inr []"
| "ancestor_blocks nodes order dn (a # as) = (case dn a of
       None \<Rightarrow> Inl (Missing_Result a)
     | Some r \<Rightarrow> ebind (ancestor_blocks nodes order dn as) (\<lambda>rest.
         Inr (step_block (step_no order a) (rendered nodes r a) @ rest)))"

definition compose_context :: "plan_node list \<Rightarrow> string \<Rightarrow> done_map \<Rightarrow> string \<Rightarrow> context_error + string" where
  "compose_context nodes nid dn prompt =
     ebind (lift_plan (topo_order nodes)) (\<lambda>order.
     ebind (lift_plan (ancestors nodes nid)) (\<lambda>ancs.
     ebind (ancestor_blocks nodes order dn ancs) (\<lambda>blocks. Inr (goal_header prompt @ blocks))))"

definition rebuild_linear_context :: "plan_node list \<Rightarrow> string list \<Rightarrow> done_map \<Rightarrow> string \<Rightarrow> string" where
  "rebuild_linear_context nodes order dn prompt = goal_header prompt @
     concat (map (\<lambda>nid. case dn nid of None \<Rightarrow> []
       | Some r \<Rightarrow> step_block (step_no order nid) (rendered nodes r nid)) order)"

section \<open>Which plans walk the graph\<close>

definition has_nonlinear_deps :: "plan_node list \<Rightarrow> graph_error + bool" where
  "has_nonlinear_deps nodes = ebind (topo_order nodes) (\<lambda>order.
     Inr (list_ex (\<lambda>k. deps_at nodes (order ! k) \<noteq> (if k > 0 then [order ! (k - 1)] else []))
       [0..<length order]))"

definition is_graph_plan :: "plan_node list option \<Rightarrow> graph_error + bool" where
  "is_graph_plan g = (case g of None \<Rightarrow> Inr False | Some nodes \<Rightarrow> has_nonlinear_deps nodes)"

text \<open>The comparison of a checkpoint's tasks with the supplied plan is on flat lists.\<close>

definition normalized_linearization :: "'a list \<Rightarrow> 'a list" where
  "normalized_linearization steps = steps"

section \<open>Splitting a context into step blocks\<close>

text \<open>
  The pattern of a step header.  \<open>match_header s\<close> matches at a line start and yields the length of the
  match: the white-space runs may span lines, and the last one ends at the end of the text or
  before the last line break it contains.
\<close>

definition strip_prefix :: "string \<Rightarrow> string \<Rightarrow> string option" where
  "strip_prefix p s = (if prefix p s then Some (drop (length p) s) else None)"

definition skip_space :: "string \<Rightarrow> string" where
  "skip_space s = dropWhile py_space s"

definition skip_space1 :: "string \<Rightarrow> string option" where
  "skip_space1 s = (case s of [] \<Rightarrow> None | c # cs \<Rightarrow> if py_space c then Some (skip_space cs) else None)"

definition skip_digits1 :: "string \<Rightarrow> string option" where
  "skip_digits1 s = (case s of [] \<Rightarrow> None | c # cs \<Rightarrow> if is_digit c then Some (dropWhile is_digit cs) else None)"

text \<open>How much of the trailing white space \<open>\s*$\<close> takes.\<close>

definition trailing_run :: "string \<Rightarrow> nat option" where
  "trailing_run s = (let ws = takeWhile py_space s in
     if length ws = length s then Some (length ws)
     else if CHR 0x0A \<in> set ws
     then Some (length ws - Suc (length (takeWhile (\<lambda>c. c \<noteq> CHR 0x0A) (rev ws))))
     else None)"

definition match_header :: "string \<Rightarrow> nat option" where
  "match_header s =
     Option.bind (strip_prefix ''---'' s) (\<lambda>a.
     Option.bind (strip_prefix ''Step'' (skip_space a)) (\<lambda>b.
     Option.bind (skip_space1 b) (\<lambda>c.
     Option.bind (skip_digits1 c) (\<lambda>d.
     Option.bind (skip_space1 d) (\<lambda>e.
     Option.bind (strip_prefix ''Summary'' e) (\<lambda>f.
     Option.bind (strip_prefix ''---'' (skip_space f)) (\<lambda>g.
     map_option (\<lambda>n. length s - length g + n) (trailing_run g))))))))"

text \<open>The start positions of the matches: \<open>i\<close> is the position of \<open>s\<close>, \<open>bol\<close> whether it starts a line,
  \<open>busy\<close> how many characters the last match still covers.\<close>

fun header_starts :: "nat \<Rightarrow> bool \<Rightarrow> nat \<Rightarrow> string \<Rightarrow> nat list" where
  "header_starts i bol busy [] = []"
| "header_starts i bol busy (c # cs) =
     (let here = (if bol \<and> busy = 0 then match_header (c # cs) else None)
      in case here of
           Some n \<Rightarrow> i # header_starts (Suc i) (c = CHR 0x0A) (n - 1) cs
         | None \<Rightarrow> header_starts (Suc i) (c = CHR 0x0A) (busy - 1) cs)"

text \<open>\<open>start - 1\<close> when the character before is a line break.\<close>

definition walk_back :: "string \<Rightarrow> nat \<Rightarrow> nat" where
  "walk_back s i = (if i > 0 \<and> s ! (i - 1) = CHR 0x0A then i - 1 else i)"

definition slice :: "nat \<Rightarrow> nat \<Rightarrow> 'a list \<Rightarrow> 'a list" where
  "slice i j xs = drop i (take j xs)"

fun blocks_from :: "string \<Rightarrow> nat list \<Rightarrow> string list" where
  "blocks_from s [] = []"
| "blocks_from s [i] = [slice (walk_back s i) (length s) s]"
| "blocks_from s (i # j # js) = slice (walk_back s i) (j - 1) s # blocks_from s (j # js)"

definition split_context_into_steps :: "string \<Rightarrow> string \<times> string list" where
  "split_context_into_steps s = (case header_starts 0 True 0 s of
       [] \<Rightarrow> (s, [])
     | i # is \<Rightarrow> (take (walk_back s i) s, blocks_from s (i # is)))"

section \<open>Compaction\<close>

record master_cfg =
  mc_recent :: nat
  mc_interval :: int
  mc_max_chars :: int

definition should_compact :: "master_cfg \<Rightarrow> int \<Rightarrow> string \<Rightarrow> bool" where
  "should_compact cfg since ctx =
     (mc_interval cfg \<noteq> 0 \<and> since \<ge> mc_interval cfg \<or> mc_max_chars cfg \<noteq> 0 \<and> int (length ctx) \<ge> mc_max_chars cfg)"

definition compacted_header :: "string \<Rightarrow> string" where
  "compacted_header prompt = ''Original Goal: '' @ prompt @ nl @ nl @ ''=== Accumulated Implementation (compacted) ==='' @ nl"

text \<open>What goes through the digest, and what is kept as it is.\<close>

definition compaction_parts :: "nat \<Rightarrow> string \<Rightarrow> string \<times> string" where
  "compaction_parts keep ctx = (case split_context_into_steps ctx of (pre, blocks) \<Rightarrow>
     if blocks = [] \<or> keep = 0 \<or> length blocks \<le> keep then (ctx, [])
     else (pre @ concat (take (length blocks - keep) blocks), concat (drop (length blocks - keep) blocks)))"

text \<open>\<open>s[-n:]\<close>; a negative \<open>n\<close> drops from the front.\<close>

definition tail_of :: "int \<Rightarrow> string \<Rightarrow> string" where
  "tail_of n s = (if n = 0 then s else if n > 0 then drop (length s - nat n) s else drop (nat (- n)) s)"

text \<open>\<open>digest\<close> is the compactor's reply to the first 24000 characters, \<open>None\<close> when it raised.\<close>

definition compact_context :: "master_cfg \<Rightarrow> (string \<Rightarrow> string option) \<Rightarrow> string \<Rightarrow> string \<Rightarrow> string" where
  "compact_context cfg digest prompt ctx =
     (case compaction_parts (mc_recent cfg) ctx of (older, recent) \<Rightarrow>
        (case digest (take 24000 older) of
           Some d \<Rightarrow> compacted_header prompt @ py_strip d @ nl @
             (if recent = [] then [] else nl @ ''=== Recent steps (verbatim) ==='' @ recent @ nl)
         | None \<Rightarrow> compacted_header prompt @ tail_of (mc_max_chars cfg) ctx))"

section \<open>Contexts carry exactly the dependencies\<close>

lemma lift_plan_Inr [simp]: "lift_plan (Inr x) = Inr x"
  by (simp add: lift_plan_def)

lemma ancestor_blocks_all:
  "(\<And>a. a \<in> set as \<Longrightarrow> dn a \<noteq> None) \<Longrightarrow>
   ancestor_blocks nodes order dn as =
     Inr (concat (map (\<lambda>a. step_block (step_no order a) (rendered nodes (the (dn a)) a)) as))"
  by (induction as) force+

lemma ancestor_blocks_cong:
  "(\<And>a. a \<in> set as \<Longrightarrow> dn a = dn' a) \<Longrightarrow>
   ancestor_blocks nodes order dn as = ancestor_blocks nodes order dn' as"
  by (induction as) (auto split: option.splits)

lemma ancestors_sorted:
  assumes "ancestors nodes i = Inr xs" "topo_order nodes = Inr order"
  shows "xs = filter (\<lambda>x. x \<in> set xs) order"
proof -
  from assms obtain seen where "xs = filter (\<lambda>x. x \<in> set seen) order"
    by (auto simp: ancestors_def ebind_iffs split: option.splits)
  then show ?thesis by (auto intro: filter_cong)
qed

lemma compose_context_works:
  assumes wf: "wf_plan nodes" and ac: "acyclic (dep_rel nodes)" and i: "i \<in> set (node_ids nodes)"
    and dn: "\<forall>a. (a, i) \<in> (dep_rel nodes)\<^sup>+ \<longrightarrow> dn a \<noteq> None"
  obtains order where "topo_order nodes = Inr order"
    "compose_context nodes i dn prompt = Inr (goal_header prompt @
       concat (map (\<lambda>a. step_block (step_no order a) (rendered nodes (the (dn a)) a))
         (filter (\<lambda>a. (a, i) \<in> (dep_rel nodes)\<^sup>+) order)))"
proof -
  obtain order where o: "topo_order nodes = Inr order" using kahn.sorter_complete [OF wf ac] ..
  obtain xs where xs: "ancestors nodes i = Inr xs" "set xs = {a. (a, i) \<in> (dep_rel nodes)\<^sup>+}"
    using ancestors_closure [OF wf ac i] by blast
  have f: "xs = filter (\<lambda>a. (a, i) \<in> (dep_rel nodes)\<^sup>+) order"
    using ancestors_sorted [OF xs(1) o] by (simp add: xs(2))
  have "compose_context nodes i dn prompt = Inr (goal_header prompt @
      concat (map (\<lambda>a. step_block (step_no order a) (rendered nodes (the (dn a)) a)) xs))"
    using ancestor_blocks_all [of xs dn nodes order] xs dn by (simp add: compose_context_def o)
  with o f that show ?thesis by simp
qed

text \<open>The context a graph node is given is the goal followed by one block for each of its transitive
  dependencies and for nothing else, in the order of the stable sort and numbered by it; so results of
  unrelated nodes cannot leak into it, however far they have come.\<close>

theorem context_is_ancestry:
  assumes "wf_plan nodes" "acyclic (dep_rel nodes)" "i \<in> set (node_ids nodes)"
    and "\<forall>a. (a, i) \<in> (dep_rel nodes)\<^sup>+ \<longrightarrow> dn a \<noteq> None"
    and "\<forall>a. (a, i) \<in> (dep_rel nodes)\<^sup>+ \<longrightarrow> dn' a = dn a"
  shows "\<exists>order. topo_order nodes = Inr order \<and>
    compose_context nodes i dn' prompt = compose_context nodes i dn prompt \<and>
    compose_context nodes i dn prompt = Inr (goal_header prompt @
       concat (map (\<lambda>a. step_block (step_no order a) (rendered nodes (the (dn a)) a))
         (filter (\<lambda>a. (a, i) \<in> (dep_rel nodes)\<^sup>+) order)))"
proof -
  obtain order where o: "topo_order nodes = Inr order"
    "compose_context nodes i dn prompt = Inr (goal_header prompt @
       concat (map (\<lambda>a. step_block (step_no order a) (rendered nodes (the (dn a)) a))
         (filter (\<lambda>a. (a, i) \<in> (dep_rel nodes)\<^sup>+) order)))"
    using compose_context_works [OF assms(1-4)] by blast
  have dn': "\<forall>a. (a, i) \<in> (dep_rel nodes)\<^sup>+ \<longrightarrow> dn' a \<noteq> None" using assms(4, 5) by simp
  obtain order' where o': "topo_order nodes = Inr order'"
    "compose_context nodes i dn' prompt = Inr (goal_header prompt @
       concat (map (\<lambda>a. step_block (step_no order' a) (rendered nodes (the (dn' a)) a))
         (filter (\<lambda>a. (a, i) \<in> (dep_rel nodes)\<^sup>+) order')))"
    using compose_context_works [OF assms(1-3) dn'] by blast
  have "map (\<lambda>a. step_block (step_no order a) (rendered nodes (the (dn' a)) a)) (filter (\<lambda>a. (a, i) \<in> (dep_rel nodes)\<^sup>+) order)
      = map (\<lambda>a. step_block (step_no order a) (rendered nodes (the (dn a)) a)) (filter (\<lambda>a. (a, i) \<in> (dep_rel nodes)\<^sup>+) order)"
    using assms(5) by (intro map_cong) auto
  with o o' show ?thesis by auto
qed

definition noted :: "string \<Rightarrow> step_result" where
  "noted s = \<lparr> final_output = [], step_summary = s, verified = True, approved = True, stalled = False,
     iterations_used = 1, session_id = None \<rparr>"

lemma context_is_ancestry_witness:
  "compose_context diamond ''b'' [''a'' \<mapsto> noted ''A'', ''c'' \<mapsto> noted ''C''] ''g'' =
   compose_context diamond ''b'' [''a'' \<mapsto> noted ''A''] ''g''"
proof -
  have b: "''b'' \<in> set (node_ids diamond)" by code_simp
  have "ancestors diamond ''b'' = Inr [''a'']" by code_simp
  with ancestors_closure [OF diamond_wf diamond_acyclic b]
  have only: "{x. (x, ''b'') \<in> (dep_rel diamond)\<^sup>+} = {''a''}" by auto
  have a: "x = ''a''" if "(x, ''b'') \<in> (dep_rel diamond)\<^sup>+" for x
  proof -
    from that have "x \<in> {x. (x, ''b'') \<in> (dep_rel diamond)\<^sup>+}" by (rule CollectI)
    then show ?thesis unfolding only by (rule singletonD)
  qed
  have n: "\<forall>x. (x, ''b'') \<in> (dep_rel diamond)\<^sup>+ \<longrightarrow> [''a'' \<mapsto> noted ''A''] x \<noteq> None"
  proof (intro allI impI)
    fix x assume "(x, ''b'') \<in> (dep_rel diamond)\<^sup>+"
    then have "x = ''a''" by (rule a)
    then show "[''a'' \<mapsto> noted ''A''] x \<noteq> None" by simp
  qed
  have e: "\<forall>x. (x, ''b'') \<in> (dep_rel diamond)\<^sup>+ \<longrightarrow>
      [''a'' \<mapsto> noted ''A'', ''c'' \<mapsto> noted ''C''] x = [''a'' \<mapsto> noted ''A''] x"
  proof (intro allI impI)
    fix x assume "(x, ''b'') \<in> (dep_rel diamond)\<^sup>+"
    then have "x = ''a''" by (rule a)
    then show "[''a'' \<mapsto> noted ''A'', ''c'' \<mapsto> noted ''C''] x = [''a'' \<mapsto> noted ''A''] x" by simp
  qed
  show ?thesis using context_is_ancestry [OF diamond_wf diamond_acyclic b n e] by blast
qed

section \<open>Chains\<close>

lemma chain_dep_rel:
  "(x, y) \<in> dep_rel (as_graph steps) \<longleftrightarrow>
     (\<exists>k. 1 \<le> k \<and> Suc k \<le> length steps \<and> x = step_id k \<and> y = step_id (Suc k))"
proof
  assume "(x, y) \<in> dep_rel (as_graph steps)"
  then have y: "y \<in> set (node_ids (as_graph steps))" and x: "x \<in> set (deps_at (as_graph steps) y)"
    by (auto simp: dep_rel_def)
  from y obtain j where j: "1 \<le> j" "j \<le> length steps" "y = step_id j"
    by (auto simp: node_ids_as_graph simp del: upt_Suc)
  with x deps_at_as_graph(1) [OF j(1, 2)] have "j > 1" "x = step_id (j - 1)" by (auto split: if_splits)
  with j show "\<exists>k. 1 \<le> k \<and> Suc k \<le> length steps \<and> x = step_id k \<and> y = step_id (Suc k)"
    by (intro exI [of _ "j - 1"]) auto
next
  assume "\<exists>k. 1 \<le> k \<and> Suc k \<le> length steps \<and> x = step_id k \<and> y = step_id (Suc k)"
  then show "(x, y) \<in> dep_rel (as_graph steps)"
    using deps_at_as_graph(1) [of "Suc k" steps for k]
    by (auto simp: dep_rel_def node_ids_as_graph simp del: upt_Suc)
qed

lemma chain_trancl:
  "(x, y) \<in> (dep_rel (as_graph steps))\<^sup>+ \<longleftrightarrow>
     (\<exists>i j. 1 \<le> i \<and> i < j \<and> j \<le> length steps \<and> x = step_id i \<and> y = step_id j)"
proof
  assume "(x, y) \<in> (dep_rel (as_graph steps))\<^sup>+"
  then show "\<exists>i j. 1 \<le> i \<and> i < j \<and> j \<le> length steps \<and> x = step_id i \<and> y = step_id j"
    by (induction rule: trancl_induct) (fastforce simp: chain_dep_rel)+
next
  assume "\<exists>i j. 1 \<le> i \<and> i < j \<and> j \<le> length steps \<and> x = step_id i \<and> y = step_id j"
  then obtain i j where h: "1 \<le> i" "i < j" "j \<le> length steps" "x = step_id i" "y = step_id j" by blast
  from h(2, 3) have "(step_id i, step_id j) \<in> (dep_rel (as_graph steps))\<^sup>+"
  proof (induction j)
    case (Suc j)
    then have s: "(step_id j, step_id (Suc j)) \<in> dep_rel (as_graph steps)"
      using h(1) by (auto simp: chain_dep_rel)
    from Suc s show ?case
      by (cases "i = j") (auto intro: trancl_into_trancl)
  qed simp
  with h show "(x, y) \<in> (dep_rel (as_graph steps))\<^sup>+" by simp
qed

lemma chain_acyclic: "acyclic (dep_rel (as_graph steps))"
  by (auto simp: acyclic_def chain_trancl)

lemma chain_wf: "wf_plan (as_graph steps)"
proof -
  have "set (deps_at (as_graph steps) i) \<subseteq> set (node_ids (as_graph steps))"
    if "i \<in> set (node_ids (as_graph steps))" for i
  proof -
    from that obtain k where k: "1 \<le> k" "k \<le> length steps" "i = step_id k"
      by (auto simp: node_ids_as_graph simp del: upt_Suc)
    then show ?thesis
      using deps_at_as_graph(1) [OF k(1, 2)] by (auto simp: node_ids_as_graph simp del: upt_Suc)
  qed
  then show ?thesis
    using distinct_as_graph by (auto simp: wf_plan_def list_all_iff)
qed

lemma chain_step_no:
  assumes "1 \<le> j" "j \<le> length steps"
  shows "step_no (map step_id [Suc 0..<Suc (length steps)]) (step_id j) = j"
proof -
  let ?o = "map step_id [Suc 0..<Suc (length steps)]"
  have "?o ! (j - 1) = step_id j" using assms by (simp del: upt_Suc)
  moreover have "distinct ?o" by (simp add: distinct_step_ids del: upt_Suc)
  ultimately have "pos ?o (step_id j) = j - 1"
    using pos_nth [of ?o "j - 1"] assms by (simp del: upt_Suc)
  with assms show ?thesis by (simp add: step_no_def)
qed

text \<open>The context the flat loop has accumulated after some steps.\<close>

definition flat_context :: "string \<Rightarrow> string list \<Rightarrow> string" where
  "flat_context prompt texts = goal_header prompt @
     concat (map (\<lambda>k. step_block (Suc k) (texts ! k)) [0..<length texts])"

text \<open>On a flat plan lifted to a graph, the context composed for a node is byte for byte the context the
  flat loop would have accumulated before that step, and such a plan never enters the graph walker.\<close>

theorem chain_context_is_flat:
  assumes "k < length steps"
    and "\<forall>j < k. dn (step_id (Suc j)) = Some (r j) \<and> step_summary (r j) \<noteq> missing_summary"
  shows "compose_context (as_graph steps) (step_id (Suc k)) dn prompt =
      Inr (flat_context prompt (map (step_summary \<circ> r) [0..<k])) \<and>
    is_graph_plan (Some (as_graph steps)) = Inr False"
proof
  let ?N = "length steps" and ?g = "as_graph steps"
  let ?o = "map step_id [Suc 0..<Suc ?N]"
  have i: "step_id (Suc k) \<in> set (node_ids ?g)"
    using assms(1) by (auto simp: node_ids_as_graph simp del: upt_Suc)
  have anc: "(a, step_id (Suc k)) \<in> (dep_rel ?g)\<^sup>+ \<longleftrightarrow> (\<exists>j < k. a = step_id (Suc j))" for a
  proof
    assume "(a, step_id (Suc k)) \<in> (dep_rel ?g)\<^sup>+"
    then obtain m where "1 \<le> m" "m < Suc k" "a = step_id m" by (auto simp: chain_trancl)
    then show "\<exists>j < k. a = step_id (Suc j)" by (intro exI [of _ "m - 1"]) auto
  qed (use assms(1) in \<open>auto simp: chain_trancl\<close>)
  have dn: "\<forall>a. (a, step_id (Suc k)) \<in> (dep_rel ?g)\<^sup>+ \<longrightarrow> dn a \<noteq> None"
    using assms(2) by (auto simp: anc)
  have f: "filter (\<lambda>a. (a, step_id (Suc k)) \<in> (dep_rel ?g)\<^sup>+) ?o = map (\<lambda>j. step_id (Suc j)) [0..<k]"
  proof -
    have "filter (\<lambda>a. (a, step_id (Suc k)) \<in> (dep_rel ?g)\<^sup>+) ?o
        = map step_id (filter (\<lambda>j. j \<le> k) [Suc 0..<Suc ?N])"
      unfolding filter_map comp_def anc
      by (rule arg_cong [where f = "map step_id"], rule filter_cong) (auto simp: Suc_le_eq gr0_conv_Suc simp del: upt_Suc)
    also have "filter (\<lambda>j. j \<le> k) [Suc 0..<Suc ?N] = [Suc 0..<Suc k]"
    proof -
      have "[Suc 0..<Suc ?N] = [Suc 0..<Suc k] @ [Suc k..<Suc ?N]"
        using assms(1) upt_add_eq_append [of "Suc 0" "Suc k" "?N - k"] by (simp del: upt_Suc)
      then show ?thesis by (simp add: filter_id_conv filter_empty_conv del: upt_Suc)
    qed
    also have "map step_id [Suc 0..<Suc k] = map (\<lambda>j. step_id (Suc j)) [0..<k]"
      by (simp add: map_Suc_upt [symmetric] del: upt_Suc)
    finally show ?thesis .
  qed
  obtain order where o: "topo_order ?g = Inr order"
    "compose_context ?g (step_id (Suc k)) dn prompt = Inr (goal_header prompt @
       concat (map (\<lambda>a. step_block (step_no order a) (rendered ?g (the (dn a)) a))
         (filter (\<lambda>a. (a, step_id (Suc k)) \<in> (dep_rel ?g)\<^sup>+) order)))"
    using compose_context_works [OF chain_wf chain_acyclic i dn] by blast
  have "order = ?o" using o(1) by (simp add: topo_order_chain del: upt_Suc)
  with o(2) f have "compose_context ?g (step_id (Suc k)) dn prompt = Inr (goal_header prompt @
      concat (map (\<lambda>j. step_block (step_no ?o (step_id (Suc j))) (rendered ?g (the (dn (step_id (Suc j)))) (step_id (Suc j)))) [0..<k]))"
    by (simp add: comp_def del: upt_Suc)
  also have "map (\<lambda>j. step_block (step_no ?o (step_id (Suc j))) (rendered ?g (the (dn (step_id (Suc j)))) (step_id (Suc j)))) [0..<k]
      = map (\<lambda>j. step_block (Suc j) (step_summary (r j))) [0..<k]"
  proof (rule map_cong [OF refl])
    fix j assume "j \<in> set [0..<k]"
    then have "j < k" by simp
    with assms have "step_no ?o (step_id (Suc j)) = Suc j" "dn (step_id (Suc j)) = Some (r j)"
      "step_summary (r j) \<noteq> missing_summary"
      using chain_step_no [of "Suc j" steps] by simp_all
    then show "step_block (step_no ?o (step_id (Suc j))) (rendered ?g (the (dn (step_id (Suc j)))) (step_id (Suc j)))
        = step_block (Suc j) (step_summary (r j))"
      by (simp add: rendered_def render_step_summary_def)
  qed
  also have "goal_header prompt @ concat (map (\<lambda>j. step_block (Suc j) (step_summary (r j))) [0..<k])
      = flat_context prompt (map (step_summary \<circ> r) [0..<k])"
    unfolding flat_context_def by (intro arg_cong2 [where f = "(@)"] refl arg_cong [where f = concat] map_cong) auto
  finally show "compose_context ?g (step_id (Suc k)) dn prompt =
      Inr (flat_context prompt (map (step_summary \<circ> r) [0..<k]))" .
  have "deps_at ?g (?o ! m) = (if m > 0 then [?o ! (m - 1)] else [])" if "m < ?N" for m
    using that deps_at_as_graph(1) [of "Suc m" steps] by (simp del: upt_Suc)
  then show "is_graph_plan (Some ?g) = Inr False"
    by (simp add: is_graph_plan_def has_nonlinear_deps_def topo_order_chain list_ex_iff del: upt_Suc)
qed

lemma chain_context_is_flat_witness:
  "compose_context (as_graph [''x'', ''y'', ''z'']) ''s3'' [''s1'' \<mapsto> noted ''A'', ''s2'' \<mapsto> noted ''B''] ''g'' =
     Inr (flat_context ''g'' [''A'', ''B''])"
proof -
  have n: "missing_summary \<noteq> ''A''" "missing_summary \<noteq> ''B''" by (simp_all add: missing_summary_def)
  have s: "step_id (Suc 0) = ''s1''" "step_id (Suc (Suc 0)) = ''s2''" "step_id (Suc 2) = ''s3''"
    by (simp_all add: step_id_def show_nat.simps digit_char_def char_of_def bit_0 flip: numeral_2_eq_2 numeral_3_eq_3)
  let ?r = "\<lambda>j. if j = 0 then noted ''A'' else noted ''B''"
  have h: "\<forall>j < 2. [''s1'' \<mapsto> noted ''A'', ''s2'' \<mapsto> noted ''B''] (step_id (Suc j)) = Some (?r j) \<and>
      step_summary (?r j) \<noteq> missing_summary"
    using n by (auto simp: less_2_cases_iff s noted_def)
  have "map (step_summary \<circ> ?r) [0..<2] = [''A'', ''B'']"
    by (simp add: upt_rec noted_def)
  moreover have "step_id (Suc 2) = ''s3''" by (rule s(3))
  moreover have "(2::nat) < length [''x'', ''y'', ''z'']" by simp
  ultimately show ?thesis
    using chain_context_is_flat [OF _ h, of "[''x'', ''y'', ''z'']" "''g''"] by metis
qed

end
