(* ===== verification/Master_Checkpoint.thy ===== *)
theory Master_Checkpoint
  imports Master_Context
begin

text \<open>
  The salvage checkpoint of the master workflow (\<^verbatim>\<open>agy_orchestrator/workflows/master.py\<close>): the
  fingerprint of the working tree, the decision to resume, the per-node frontier of a graph run and
  the atomic save.  The answers of git, the hash function, the text of containers and the outcome of
  a write are parameters.
\<close>

section \<open>Fingerprints\<close>

text \<open>A git call: \<open>None\<close> when it raised, otherwise whether it exited with 0, and its output.\<close>

record git =
  git_head :: "(bool \<times> string) option"
  git_status :: "(bool \<times> string) option"
  git_ancestor :: "string \<Rightarrow> string \<Rightarrow> bool option"

record ck_cfg =
  ck_path :: "string option"
  ck_policy :: string
  ck_sha :: "string \<Rightarrow> string"
  ck_repr :: "pyval \<Rightarrow> string"

definition checkpoint_key :: "ck_cfg \<Rightarrow> string \<Rightarrow> string" where
  "checkpoint_key cfg prompt = ck_sha cfg prompt"

definition base_fingerprint :: "ck_cfg \<Rightarrow> git \<Rightarrow> string option" where
  "base_fingerprint cfg g = (case git_head g of
       Some (True, head) \<Rightarrow> (case git_status g of
           Some (True, status) \<Rightarrow> Some (py_strip head @ '':'' @ take 16 (ck_sha cfg status))
         | _ \<Rightarrow> None)
     | _ \<Rightarrow> None)"

text \<open>\<open>s.rsplit(":", 1)[0]\<close>.\<close>

definition before_colon :: "string \<Rightarrow> string" where
  "before_colon s = (if CHR '':'' \<in> set s then rev (tl (dropWhile (\<lambda>c. c \<noteq> CHR '':'') (rev s))) else s)"

text \<open>The stored fingerprint comes from the file and may be any value.\<close>

definition is_benign_fingerprint_advance :: "git \<Rightarrow> pyval \<Rightarrow> string option \<Rightarrow> pyexn + bool" where
  "is_benign_fingerprint_advance g stored current = (case truthy_str current of
       None \<Rightarrow> Inr False
     | Some cur \<Rightarrow>
         if \<not> truthy stored \<or> py_eq stored (PStr cur) then Inr False
         else (case stored of
             PStr s \<Rightarrow> let stored_head = before_colon s; current_head = before_colon cur in
               Inr (if stored_head = [] \<or> stored_head = current_head then False
                    else git_ancestor g stored_head current_head = Some True)
           | _ \<Rightarrow> Inl AttributeError))"

section \<open>Loading\<close>

record resume_point =
  rp_tasks :: "pyval list"
  rp_completed :: int
  rp_context :: pyval
  rp_session :: pyval

text \<open>What there is to read at the configured path.\<close>

definition checkpoint_file :: "ck_cfg \<Rightarrow> filetext option \<Rightarrow> filetext option" where
  "checkpoint_file cfg file = (if truthy_str (ck_path cfg) = None then None else file)"

definition fingerprint_accepts :: "ck_cfg \<Rightarrow> git \<Rightarrow> pyval \<Rightarrow> pyexn + bool" where
  "fingerprint_accepts cfg g stored = (case base_fingerprint cfg g of
       None \<Rightarrow> Inr True
     | Some current \<Rightarrow>
         if stored = PNone then Inr True
         else ebind (is_benign_fingerprint_advance g stored (Some current)) (\<lambda>benign.
           Inr (if benign then True
                else if \<not> py_eq stored (PStr current) then ck_policy cfg = ''force'' else True)))"

definition load_checkpoint :: "ck_cfg \<Rightarrow> git \<Rightarrow> string \<Rightarrow> filetext option \<Rightarrow> pyexn + resume_point option" where
  "load_checkpoint cfg g prompt file =
    (if ck_policy cfg = ''never'' then Inr None
     else case checkpoint_file cfg file of
       Some (Json (PDict d)) \<Rightarrow>
         if \<not> py_eq (dget d ''key'') (PStr (checkpoint_key cfg prompt)) then Inr None
         else (case py_or (dget d ''tasks'') (PList []) of
             PList tasks \<Rightarrow> (case to_int (dget_or d ''completed'' (PInt 0)) of
                 Inl _ \<Rightarrow> Inr None
               | Inr completed \<Rightarrow>
                   if tasks = [] \<or> completed \<ge> int (length tasks) then Inr None
                   else ebind (fingerprint_accepts cfg g (dget d ''base_fingerprint'')) (\<lambda>accept.
                     Inr (if accept
                          then Some \<lparr> rp_tasks = tasks, rp_completed = completed,
                            rp_context = dget_or d ''project_context'' (PStr []), rp_session = dget d ''session_id'' \<rparr>
                          else None)))
           | _ \<Rightarrow> Inr None)
     | _ \<Rightarrow> Inr None)"

text \<open>The frontier of a graph run.\<close>

definition seed_result :: "ck_cfg \<Rightarrow> pydict \<Rightarrow> pyexn + step_result" where
  "seed_result cfg rec =
     ebind (to_int (py_or (dget_or rec ''iterations_used'' (PInt 0)) (PInt 0))) (\<lambda>iters.
       Inr \<lparr> final_output = [],
             step_summary = py_str (ck_repr cfg) (dget_or rec ''step_summary'' (PStr [])),
             verified = truthy (dget_or rec ''verified'' (PBool False)),
             approved = truthy (dget_or rec ''approved'' (PBool False)),
             stalled = truthy (dget_or rec ''stalled'' (PBool False)),
             iterations_used = iters, session_id = None \<rparr>)"

fun seed_nodes :: "ck_cfg \<Rightarrow> pydict \<Rightarrow> pyexn + (string \<times> step_result) list" where
  "seed_nodes cfg [] = Inr []"
| "seed_nodes cfg ((nid, v) # rest) = (case v of
       PDict rec \<Rightarrow> ebind (seed_result cfg rec) (\<lambda>r. ebind (seed_nodes cfg rest) (\<lambda>rs. Inr ((nid, r) # rs)))
     | _ \<Rightarrow> seed_nodes cfg rest)"

definition load_graph_done_frontier ::
  "ck_cfg \<Rightarrow> string \<Rightarrow> filetext option \<Rightarrow> pyexn + (string \<times> step_result) list option" where
  "load_graph_done_frontier cfg prompt file = (case checkpoint_file cfg file of
       Some (Json v) \<Rightarrow> (case v of
           PDict d \<Rightarrow>
             if \<not> py_eq (dget d ''key'') (PStr (checkpoint_key cfg prompt)) then Inr None
             else (case dget d ''done'' of
                 PDict recs \<Rightarrow> ebind (seed_nodes cfg recs) (\<lambda>frontier.
                   Inr (if frontier = [] then None else Some frontier))
               | _ \<Rightarrow> Inr None)
         | _ \<Rightarrow> Inl AttributeError)
     | _ \<Rightarrow> Inr None)"

section \<open>Saving\<close>

record ck_state =
  ck_file :: "filetext option"
  ck_write_failed :: bool

text \<open>A write succeeds or fails with an error number, if the error has one.\<close>

datatype disk = Stored | Write_Error "int option"

definition step_result_to_checkpoint :: "step_result \<Rightarrow> pyval" where
  "step_result_to_checkpoint r = PDict
     [(''step_summary'', PStr (step_summary r)), (''verified'', PBool (verified r)),
      (''approved'', PBool (approved r)), (''stalled'', PBool (stalled r)),
      (''iterations_used'', PInt (iterations_used r))]"

definition checkpoint_payload :: "ck_cfg \<Rightarrow> git \<Rightarrow> string \<Rightarrow> pyval list \<Rightarrow> int \<Rightarrow> string \<Rightarrow> string option \<Rightarrow>
    pyval list option \<Rightarrow> pydict option \<Rightarrow> pydict" where
  "checkpoint_payload cfg g prompt tasks completed ctx session graph dn =
     [(''key'', PStr (checkpoint_key cfg prompt)), (''tasks'', PList tasks), (''completed'', PInt completed),
      (''project_context'', PStr ctx), (''session_id'', opt_str session),
      (''base_fingerprint'', opt_str (base_fingerprint cfg g))] @
     (case graph of None \<Rightarrow> [] | Some ns \<Rightarrow> [(''graph'', PList ns)]) @
     (case dn of None \<Rightarrow> [] | Some recs \<Rightarrow> [(''done'', PDict recs)])"

text \<open>The result says whether the save raised.\<close>

definition save_checkpoint :: "ck_cfg \<Rightarrow> git \<Rightarrow> disk \<Rightarrow> string \<Rightarrow> pyval list \<Rightarrow> int \<Rightarrow> string \<Rightarrow> string option \<Rightarrow>
    pyval list option \<Rightarrow> pydict option \<Rightarrow> ck_state \<Rightarrow> bool \<times> ck_state" where
  "save_checkpoint cfg g disk prompt tasks completed ctx session graph dn st =
    (if truthy_str (ck_path cfg) = None then (False, st)
     else case disk of
       Stored \<Rightarrow> (False, st\<lparr> ck_file := Some (Json (PDict
           (checkpoint_payload cfg g prompt tasks completed ctx session graph dn))), ck_write_failed := False \<rparr>)
     | Write_Error errno \<Rightarrow> (errno \<in> {Some 28, Some 122}, st\<lparr> ck_write_failed := True \<rparr>))"

text \<open>\<open>gone\<close> is false when the removal failed with an error other than a missing file.\<close>

definition remove_checkpoint :: "ck_cfg \<Rightarrow> bool \<Rightarrow> ck_state \<Rightarrow> ck_state" where
  "remove_checkpoint cfg gone st =
     (if truthy_str (ck_path cfg) = None \<or> \<not> gone then st else st\<lparr> ck_file := None \<rparr>)"

section \<open>What a save promises a load\<close>

lemma before_colon_split:
  assumes "CHR '':'' \<notin> set b"
  shows "before_colon (a @ '':'' @ b) = a"
proof -
  have "dropWhile (\<lambda>c. c \<noteq> CHR '':'') (rev b @ '':'' @ rev a) = '':'' @ rev a"
    using assms by (subst dropWhile_append2) auto
  then show ?thesis by (simp add: before_colon_def)
qed

lemma colon_split_eq:
  assumes "CHR '':'' \<notin> set b" "CHR '':'' \<notin> set b'"
  shows "a @ '':'' @ b = a' @ '':'' @ b' \<longleftrightarrow> a = a' \<and> b = b'"
proof
  assume e: "a @ '':'' @ b = a' @ '':'' @ b'"
  then have "before_colon (a @ '':'' @ b) = before_colon (a' @ '':'' @ b')" by (rule arg_cong)
  with before_colon_split [OF assms(1), of a] before_colon_split [OF assms(2), of a'] have "a = a'" by simp
  with e show "a = a' \<and> b = b'" by simp
qed simp

text \<open>The commit and the state of the working tree, when git can tell both.\<close>

definition tree_state :: "git \<Rightarrow> (string \<times> string) option" where
  "tree_state g = (case (git_head g, git_status g) of
     (Some (True, head), Some (True, status)) \<Rightarrow> Some (py_strip head, status) | _ \<Rightarrow> None)"

text \<open>When an automatic resume on the tree \<open>g'\<close> of a checkpoint written on the tree \<open>g\<close> is in order: one of
  the two cannot be told, nothing has changed (as far as the digest shows), or the stored commit is a
  proper ancestor of the present one.\<close>

definition tree_trusted :: "ck_cfg \<Rightarrow> git \<Rightarrow> git \<Rightarrow> bool" where
  "tree_trusted cfg g g' = (case (tree_state g, tree_state g') of
       (Some (h, s), Some (h', s')) \<Rightarrow>
         h = h' \<and> take 16 (ck_sha cfg s) = take 16 (ck_sha cfg s') \<or>
         h \<noteq> h' \<and> h \<noteq> [] \<and> git_ancestor g' h h' = Some True
     | _ \<Rightarrow> True)"

lemma base_fingerprint_state:
  "base_fingerprint cfg g = map_option (\<lambda>(h, s). h @ '':'' @ take 16 (ck_sha cfg s)) (tree_state g)"
  by (auto simp: base_fingerprint_def tree_state_def split: option.splits bool.splits)

lemma hash_colon_free: "\<forall>x. CHR '':'' \<notin> set (ck_sha cfg x) \<Longrightarrow> CHR '':'' \<notin> set (take n (ck_sha cfg x))"
  by (meson in_set_takeD)

lemma fingerprint_accepts_saved:
  assumes "\<forall>x. CHR '':'' \<notin> set (ck_sha cfg x)"
  shows "fingerprint_accepts cfg g' (opt_str (base_fingerprint cfg g)) =
    Inr (tree_trusted cfg g g' \<or> ck_policy cfg = ''force'')"
proof (cases "tree_state g")
  case None
  then show ?thesis
    by (simp add: fingerprint_accepts_def base_fingerprint_state opt_str_def tree_trusted_def split: option.split)
next
  case S: (Some hs)
  obtain h s where hs: "hs = (h, s)" by (cases hs)
  show ?thesis
  proof (cases "tree_state g'")
    case None
    with S show ?thesis
      by (simp add: fingerprint_accepts_def base_fingerprint_state opt_str_def tree_trusted_def split: prod.split)
  next
    case S': (Some hs')
    obtain h' s' where hs': "hs' = (h', s')" by (cases hs')
    note cf = hash_colon_free [OF assms, of 16]
    have "before_colon (h @ '':'' @ take 16 (ck_sha cfg s)) = h"
      "before_colon (h' @ '':'' @ take 16 (ck_sha cfg s')) = h'"
      using before_colon_split cf by blast+
    moreover have "h @ '':'' @ take 16 (ck_sha cfg s) = h' @ '':'' @ take 16 (ck_sha cfg s') \<longleftrightarrow>
        h = h' \<and> take 16 (ck_sha cfg s) = take 16 (ck_sha cfg s')"
      using colon_split_eq cf by blast
    ultimately show ?thesis
      using S S' hs hs'
      by (auto simp: fingerprint_accepts_def base_fingerprint_state opt_str_def tree_trusted_def Let_def
          is_benign_fingerprint_advance_def truthy_str_def)
  qed
qed

lemma dget_append: "dget (xs @ ys) k = (case map_of xs k of None \<Rightarrow> dget ys k | Some v \<Rightarrow> v)"
  by (simp add: dget_def dget_or_def map_add_def split: option.splits)

lemma payload_reads:
  "dget (checkpoint_payload cfg g prompt tasks completed ctx session graph dn) ''key'' = PStr (checkpoint_key cfg prompt)"
  "dget (checkpoint_payload cfg g prompt tasks completed ctx session graph dn) ''tasks'' = PList tasks"
  "dget_or (checkpoint_payload cfg g prompt tasks completed ctx session graph dn) ''completed'' v = PInt completed"
  "dget_or (checkpoint_payload cfg g prompt tasks completed ctx session graph dn) ''project_context'' v = PStr ctx"
  "dget (checkpoint_payload cfg g prompt tasks completed ctx session graph dn) ''session_id'' = opt_str session"
  "dget (checkpoint_payload cfg g prompt tasks completed ctx session graph dn) ''base_fingerprint'' =
     opt_str (base_fingerprint cfg g)"
  "dget (checkpoint_payload cfg g prompt tasks completed ctx session graph (Some recs)) ''done'' = PDict recs"
  by (simp_all add: checkpoint_payload_def dget_append split: option.split)

lemma checkpoint_load:
  assumes "truthy_str (ck_path cfg) \<noteq> None" "\<forall>x. CHR '':'' \<notin> set (ck_sha cfg x)"
    and "save_checkpoint (cfg\<lparr> ck_policy := policy \<rparr>) g Stored prompt tasks completed ctx session graph dn st = (raised, st')"
  shows "\<not> raised \<and> load_checkpoint cfg g' prompt' (ck_file st') =
    Inr (if ck_policy cfg \<noteq> ''never'' \<and> ck_sha cfg prompt' = ck_sha cfg prompt \<and> completed < int (length tasks) \<and>
            tasks \<noteq> [] \<and> (tree_trusted cfg g g' \<or> ck_policy cfg = ''force'')
         then Some \<lparr> rp_tasks = tasks, rp_completed = completed, rp_context = PStr ctx, rp_session = opt_str session \<rparr>
         else None)"
proof -
  let ?p = "checkpoint_payload cfg g prompt tasks completed ctx session graph dn"
  have p: "checkpoint_payload (cfg\<lparr> ck_policy := policy \<rparr>) g prompt tasks completed ctx session graph dn = ?p"
    by (simp add: checkpoint_payload_def checkpoint_key_def base_fingerprint_state)
  from assms(1, 3) have st': "\<not> raised" "ck_file st' = Some (Json (PDict ?p))"
    by (auto simp: save_checkpoint_def p)
  from assms(1) obtain q where "truthy_str (ck_path cfg) = Some q" by auto
  then show ?thesis
    using st'(1) by (simp add: st'(2) load_checkpoint_def checkpoint_file_def payload_reads
        checkpoint_key_def py_or_def fingerprint_accepts_saved [OF assms(2)] eq_commute [of "ck_sha cfg prompt"])
qed

lemma checkpoint_reload:
  assumes "truthy_str (ck_path cfg) \<noteq> None" "\<forall>x. CHR '':'' \<notin> set (ck_sha cfg x)"
  shows "load_checkpoint cfg g' prompt'
      (ck_file (snd (save_checkpoint cfg g Stored prompt tasks completed ctx session graph dn st))) =
    Inr (if ck_policy cfg \<noteq> ''never'' \<and> ck_sha cfg prompt' = ck_sha cfg prompt \<and> completed < int (length tasks) \<and>
            tasks \<noteq> [] \<and> (tree_trusted cfg g g' \<or> ck_policy cfg = ''force'')
         then Some \<lparr> rp_tasks = tasks, rp_completed = completed, rp_context = PStr ctx, rp_session = opt_str session \<rparr>
         else None)"
proof -
  have same: "cfg\<lparr> ck_policy := ck_policy cfg \<rparr> = cfg" by simp
  obtain raised st' where sv: "save_checkpoint cfg g Stored prompt tasks completed ctx session graph dn st = (raised, st')"
    by fastforce
  then have "save_checkpoint (cfg\<lparr> ck_policy := ck_policy cfg \<rparr>) g Stored prompt tasks completed ctx session graph dn st
      = (raised, st')" by simp
  from checkpoint_load [OF assms this] sv show ?thesis by simp
qed

text \<open>What a checkpoint gives back.  After a successful write a later run of the same project gets
  exactly the saved tasks, position, context and session, provided there are steps left, resuming is
  not switched off, and the working tree is trusted: unchanged, moved forward by commits only, not
  verifiable, or forced by the operator.  In every other case it starts afresh; it never raises.\<close>

theorem checkpoint_round_trip:
  assumes "truthy_str (ck_path cfg) \<noteq> None" "\<forall>x. CHR '':'' \<notin> set (ck_sha cfg x)"
    and "save_checkpoint (cfg\<lparr> ck_policy := policy \<rparr>) g Stored prompt tasks completed ctx session graph dn st = (raised, st')"
  shows "\<not> raised \<and> load_checkpoint cfg g' prompt' (ck_file st') =
    Inr (if ck_policy cfg \<noteq> ''never'' \<and> ck_sha cfg prompt' = ck_sha cfg prompt \<and> completed < int (length tasks) \<and>
            tasks \<noteq> [] \<and> (tree_trusted cfg g g' \<or> ck_policy cfg = ''force'')
         then Some \<lparr> rp_tasks = tasks, rp_completed = completed, rp_context = PStr ctx, rp_session = opt_str session \<rparr>
         else None)"
  by (rule checkpoint_load [OF assms])

definition plain_cfg :: "string \<Rightarrow> ck_cfg" where
  "plain_cfg policy = \<lparr> ck_path = Some ''run.json'', ck_policy = policy,
     ck_sha = (\<lambda>s. if s = [] then ''00'' else ''1f''), ck_repr = (\<lambda>v. ''?'') \<rparr>"

definition git_at :: "string \<Rightarrow> string \<Rightarrow> git" where
  "git_at head status = \<lparr> git_head = Some (True, head @ nl), git_status = Some (True, status),
     git_ancestor = (\<lambda>a b. Some (a = ''c0'' \<and> b = ''c1'')) \<rparr>"

text \<open>A checkpoint written on commit \<open>c0\<close> resumes on \<open>c1\<close>, and not after going back from \<open>c1\<close> to \<open>c0\<close>.\<close>

lemma checkpoint_round_trip_witness:
  "let save = (\<lambda>head. snd (save_checkpoint (plain_cfg ''auto'') (git_at head '' M x'') Stored ''goal''
         [PStr ''a'', PStr ''b''] 1 ''ctx'' None None None \<lparr> ck_file = None, ck_write_failed = True \<rparr>))
   in load_checkpoint (plain_cfg ''auto'') (git_at ''c1'' []) ''goal'' (ck_file (save ''c0'')) =
        Inr (Some \<lparr> rp_tasks = [PStr ''a'', PStr ''b''], rp_completed = 1, rp_context = PStr ''ctx'', rp_session = PNone \<rparr>) \<and>
      load_checkpoint (plain_cfg ''auto'') (git_at ''c0'' []) ''goal'' (ck_file (save ''c1'')) = Inr None"
proof -
  let ?c = "plain_cfg ''auto''"
  have path: "truthy_str (ck_path ?c) \<noteq> None" by (simp add: plain_cfg_def truthy_str_def)
  have hash: "\<forall>x. CHR '':'' \<notin> set (ck_sha ?c x)" by (simp add: plain_cfg_def)
  have same: "?c\<lparr> ck_policy := ''auto'' \<rparr> = ?c" by (simp add: plain_cfg_def)
  have onward: "tree_trusted ?c (git_at ''c0'' '' M x'') (git_at ''c1'' [])" by code_simp
  have undone: "\<not> tree_trusted ?c (git_at ''c1'' '' M x'') (git_at ''c0'' [])" by code_simp
  note rt = checkpoint_round_trip [OF path hash, of "''auto''", unfolded same, OF surjective_pairing]
  show ?thesis
    using onward undone
    by (simp add: Let_def rt, simp add: plain_cfg_def opt_str_def)
qed

section \<open>Frontiers\<close>

definition trimmed :: "step_result \<Rightarrow> step_result" where
  "trimmed r = r\<lparr> final_output := [], session_id := None \<rparr>"

lemma seed_result_saved:
  "\<exists>rec. step_result_to_checkpoint r = PDict rec \<and> seed_result cfg rec = Inr (trimmed r)"
  by (cases r) (auto simp: step_result_to_checkpoint_def seed_result_def trimmed_def py_or_def)

lemma seed_nodes_saved:
  "seed_nodes cfg (map (\<lambda>(n, r). (n, step_result_to_checkpoint r)) rs) = Inr (map (\<lambda>(n, r). (n, trimmed r)) rs)"
proof (induction rs)
  case (Cons x rs)
  obtain n r where x: "x = (n, r)" by (cases x)
  from seed_result_saved obtain rec where "step_result_to_checkpoint r = PDict rec" "seed_result cfg rec = Inr (trimmed r)"
    by blast
  with Cons x show ?case by simp
qed simp

text \<open>A graph checkpoint restores its frontier exactly: every finished node with its summary, signals
  and iteration count, nothing else, whatever the policy; only outputs and sessions are dropped.\<close>

theorem frontier_round_trip:
  assumes "truthy_str (ck_path cfg) \<noteq> None" "rs \<noteq> []"
    and "save_checkpoint cfg g Stored prompt tasks completed ctx session graph
      (Some (map (\<lambda>(n, r). (n, step_result_to_checkpoint r)) rs)) st = (raised, st')"
  shows "load_graph_done_frontier cfg prompt (ck_file st') = Inr (Some (map (\<lambda>(n, r). (n, trimmed r)) rs))"
  using assms by (auto simp: save_checkpoint_def load_graph_done_frontier_def checkpoint_file_def payload_reads
      seed_nodes_saved)

lemma frontier_round_trip_witness:
  "load_graph_done_frontier (plain_cfg ''auto'') ''goal'' (ck_file (snd (save_checkpoint (plain_cfg ''auto'')
     (git_at ''c0'' []) Stored ''goal'' [PStr ''a''] 1 ''ctx'' None (Some [])
     (Some [(''s1'', step_result_to_checkpoint (noted ''A''))]) \<lparr> ck_file = None, ck_write_failed = False \<rparr>))) =
   Inr (Some [(''s1'', noted ''A'')])"
  using frontier_round_trip [of "plain_cfg ''auto''" "[(''s1'', noted ''A'')]", OF _ _ surjective_pairing]
  by (simp add: plain_cfg_def truthy_str_def trimmed_def noted_def)

section \<open>Damaged files and failed writes\<close>

text \<open>A failed write keeps the previous checkpoint, flags the run, and aborts it exactly when the disk is
  full or over quota.\<close>

lemma failed_write_keeps_checkpoint:
  assumes "truthy_str (ck_path cfg) \<noteq> None"
  shows "save_checkpoint cfg g (Write_Error errno) prompt tasks completed ctx session graph dn st =
     (errno \<in> {Some 28, Some 122}, st\<lparr> ck_write_failed := True \<rparr>)"
  using assms by (auto simp: save_checkpoint_def)

text \<open>Loading raises for one kind of damage only: a fingerprint that is neither missing nor a string.\<close>

lemma load_raises_on_fingerprint_only:
  assumes "load_checkpoint cfg g prompt file = Inl e"
  shows "\<exists>d. checkpoint_file cfg file = Some (Json (PDict d)) \<and> truthy (dget d ''base_fingerprint'') \<and>
    str_opt (dget d ''base_fingerprint'') = None"
  using assms
  by (auto simp: load_checkpoint_def ebind_iffs fingerprint_accepts_def is_benign_fingerprint_advance_def Let_def
      split: if_splits option.splits filetext.splits pyval.splits sum.splits)

lemma damaged_fingerprint_raises:
  "load_checkpoint (plain_cfg ''auto'') (git_at ''c0'' []) ''goal'' (Some (Json (PDict
     [(''key'', PStr ''1f''), (''tasks'', PList [PStr ''a'']), (''completed'', PInt 0), (''base_fingerprint'', PInt 7)]))) =
   Inl AttributeError"
  by code_simp

lemma damaged_frontier_raises:
  "load_graph_done_frontier (plain_cfg ''auto'') ''goal'' (Some (Json (PDict
     [(''key'', PStr ''1f''), (''done'', PDict [(''s1'', PDict [(''iterations_used'', PStr ''x'')])])]))) = Inl ValueError"
  by code_simp

end
