(* ===== verification/Workspace.thy ===== *)
theory Workspace
  imports Py_Prelude "HOL-Library.AList"
begin

text \<open>
  File trees and the write-back functions of \<^verbatim>\<open>agy_orchestrator/execution/workspace.py\<close>.  A
  tree is the finite map from relative paths (slash-separated) to bytes of its regular files;
  a directory exists when a file lies below it, so an empty directory is not represented, and
  neither are permission failures and symbolic links.  A contract locale says what a single-file
  write owes the loops that call it.
\<close>

section \<open>Trees\<close>

type_synonym path = string
type_synonym bytes = string
type_synonym tree = "(path \<times> bytes) list"

text \<open>\<open>COPY_IGNORE_PATTERNS\<close>, tested as exact names of the first path component.\<close>

definition copy_ignore :: "string list" where
  "copy_ignore = [''.git'', ''.venv'', ''venv'', ''__pycache__'', ''*.pyc'', ''.pytest_cache'',
     ''.mypy_cache'', ''.ruff_cache'', ''runs'', ''node_modules'', ''dist'', ''build'']"

definition top_of :: "path \<Rightarrow> string" where
  "top_of p = takeWhile (\<lambda>c. c \<noteq> CHR ''/'') p"

definition ignored :: "path \<Rightarrow> bool" where
  "ignored p = (top_of p \<in> set copy_ignore \<or> prefix ''.git'' (top_of p))"

definition snapshot_tree :: "tree \<Rightarrow> tree" where
  "snapshot_tree t = filter (\<lambda>(p, d). \<not> ignored p) t"

text \<open>\<open>q\<close> lies below the directory \<open>p\<close>; two paths conflict when one is below the other.\<close>

definition below :: "path \<Rightarrow> path \<Rightarrow> bool" where
  "below p q = prefix (p @ ''/'') q"

definition conflict :: "path \<Rightarrow> path \<Rightarrow> bool" where
  "conflict p q = (below p q \<or> below q p)"

definition tree_ok :: "tree \<Rightarrow> bool" where
  "tree_ok t \<longleftrightarrow> distinct (map fst t) \<and> (\<forall>p \<in> fst ` set t. \<forall>q \<in> fst ` set t. \<not> below p q)"

lemma conflict_sym: "conflict p q = conflict q p"
  by (auto simp: conflict_def)

lemma below_top:
  assumes "below p q"
  shows "top_of q = top_of p"
proof -
  obtain zs where q: "q = p @ CHR ''/'' # zs"
    using assms by (auto simp: below_def prefix_def)
  show ?thesis
  proof (cases "CHR ''/'' \<in> set p")
    case True
    then show ?thesis by (simp add: q top_of_def takeWhile_append1)
  next
    case False
    then have all: "\<And>x. x \<in> set p \<Longrightarrow> x \<noteq> CHR ''/''" by auto
    have "takeWhile (\<lambda>c. c \<noteq> CHR ''/'') q = p"
      using takeWhile_append2 [of p "\<lambda>c. c \<noteq> CHR ''/''" "CHR ''/'' # zs"] all by (simp add: q)
    moreover have "takeWhile (\<lambda>c. c \<noteq> CHR ''/'') p = p"
      using all by (simp add: takeWhile_eq_all_conv)
    ultimately show ?thesis unfolding top_of_def by metis
  qed
qed

lemma conflict_ignored: "conflict p q \<Longrightarrow> ignored p = ignored q"
  by (auto simp: conflict_def ignored_def dest: below_top)

lemma map_of_snapshot: "map_of (snapshot_tree t) p = (if ignored p then None else map_of t p)"
  by (induction t) (auto simp: snapshot_tree_def)

lemma tree_ok_no_conflict:
  "tree_ok t \<Longrightarrow> map_of t p = Some d \<Longrightarrow> map_of t q = Some e \<Longrightarrow> \<not> conflict p q"
  unfolding tree_ok_def conflict_def by (metis domI dom_map_of_conv_image_fst)

lemma tree_ok_filter: "tree_ok t \<Longrightarrow> tree_ok (filter P t)"
  by (fastforce simp: tree_ok_def distinct_map_filter)

lemma tree_ok_snapshot: "tree_ok t \<Longrightarrow> tree_ok (snapshot_tree t)"
  by (simp add: snapshot_tree_def tree_ok_filter)

lemma map_of_filter_keys: "map_of (filter (\<lambda>(p, d). P p) t) q = (if P q then map_of t q else None)"
  by (induction t) auto

section \<open>The contract of a single-file write\<close>

text \<open>A loop of writes; \<open>None\<close> is an \<open>OSError\<close> that leaves the loop.\<close>

fun write_seq :: "(tree \<Rightarrow> path \<Rightarrow> bytes \<Rightarrow> tree option) \<Rightarrow> tree \<Rightarrow> tree \<Rightarrow> tree option" where
  "write_seq put t [] = Some t"
| "write_seq put t ((p, d) # ws) =
     (case put t p d of None \<Rightarrow> None | Some t' \<Rightarrow> write_seq put t' ws)"

locale tree_writer =
  fixes put :: "tree \<Rightarrow> path \<Rightarrow> bytes \<Rightarrow> tree option"
  assumes write_at: "put t p d = Some t' \<Longrightarrow> map_of t' p = Some d"
    and write_frame: "put t p d = Some t' \<Longrightarrow> q \<noteq> p \<Longrightarrow> \<not> conflict p q \<Longrightarrow> map_of t' q = map_of t q"
    and write_shrink: "put t p d = Some t' \<Longrightarrow> q \<noteq> p \<Longrightarrow> map_of t' q = Some e \<Longrightarrow> map_of t q = Some e"
begin

lemma write_seq_frame:
  "write_seq put t ws = Some t' \<Longrightarrow> q \<notin> fst ` set ws \<Longrightarrow>
   (\<And>p. p \<in> fst ` set ws \<Longrightarrow> \<not> conflict p q) \<Longrightarrow> map_of t' q = map_of t q"
proof (induction ws arbitrary: t)
  case (Cons w ws)
  obtain p d where w: "w = (p, d)" by (cases w)
  from Cons.prems obtain t1 where t1: "put t p d = Some t1" "write_seq put t1 ws = Some t'"
    by (auto simp: w split: option.splits)
  have "map_of t' q = map_of t1 q" using Cons.IH [OF t1(2)] Cons.prems by auto
  also have "\<dots> = map_of t q" using write_frame [OF t1(1), of q] Cons.prems by (auto simp: w)
  finally show ?case .
qed simp

lemma write_seq_shrink:
  "write_seq put t ws = Some t' \<Longrightarrow> q \<notin> fst ` set ws \<Longrightarrow> map_of t' q = Some e \<Longrightarrow>
   map_of t q = Some e"
proof (induction ws arbitrary: t)
  case (Cons w ws)
  obtain p d where w: "w = (p, d)" by (cases w)
  from Cons.prems obtain t1 where t1: "put t p d = Some t1" "write_seq put t1 ws = Some t'"
    by (auto simp: w split: option.splits)
  then have "map_of t1 q = Some e" using Cons.IH [OF t1(2)] Cons.prems by auto
  then show ?case using write_shrink [OF t1(1)] Cons.prems by (auto simp: w)
qed simp

lemma write_seq_at:
  "write_seq put t ws = Some t' \<Longrightarrow> distinct (map fst ws) \<Longrightarrow>
   (\<And>p q. p \<in> fst ` set ws \<Longrightarrow> q \<in> fst ` set ws \<Longrightarrow> \<not> conflict p q) \<Longrightarrow>
   (p, d) \<in> set ws \<Longrightarrow> map_of t' p = Some d"
proof (induction ws arbitrary: t)
  case (Cons w ws)
  obtain p' d' where w: "w = (p', d')" by (cases w)
  from Cons.prems obtain t1 where t1: "put t p' d' = Some t1" "write_seq put t1 ws = Some t'"
    by (auto simp: w split: option.splits)
  show ?case
  proof (cases "(p, d) = w")
    case True
    have "map_of t' p = map_of t1 p"
      using write_seq_frame [OF t1(2), of p] Cons.prems(2,3) True w by (auto simp: image_iff)
    then show ?thesis using write_at [OF t1(1)] True w by simp
  next
    case False
    with Cons.prems show ?thesis using Cons.IH [OF t1(2)] by (auto simp: w)
  qed
qed simp

end

text \<open>A writer that changes nothing but the written path.\<close>

locale exact_writer = tree_writer +
  assumes write_exact: "put t p d = Some t' \<Longrightarrow> q \<noteq> p \<Longrightarrow> map_of t' q = map_of t q"
begin

lemma write_seq_exact:
  "write_seq put t ws = Some t' \<Longrightarrow> distinct (map fst ws) \<Longrightarrow> map_of t' = map_of t ++ map_of ws"
proof (induction ws arbitrary: t)
  case (Cons w ws)
  obtain p d where w: "w = (p, d)" by (cases w)
  from Cons.prems obtain t1 where t1: "put t p d = Some t1" "write_seq put t1 ws = Some t'"
    by (auto simp: w split: option.splits)
  have "map_of t1 = (map_of t)(p \<mapsto> d)"
    using write_at [OF t1(1)] write_exact [OF t1(1)] by (auto simp: fun_eq_iff)
  moreover have "map_of t' = map_of t1 ++ map_of ws"
    using Cons.IH [OF t1(2)] Cons.prems(2) by simp
  moreover have "p \<notin> dom (map_of ws)"
    using Cons.prems(2) by (simp add: w dom_map_of_conv_image_fst)
  ultimately show ?case
    by (auto simp: w map_add_def fun_eq_iff domIff split: option.splits)
qed simp

end

section \<open>The clearing write\<close>

text \<open>\<open>_clear_path_conflicts\<close> unlinks the ancestors that are files and removes the tree below the
  target; then the file is written unless its bytes already match.\<close>

definition clear_path_conflicts :: "tree \<Rightarrow> path \<Rightarrow> tree" where
  "clear_path_conflicts t p = filter (\<lambda>(q, d). \<not> conflict p q) t"

definition write_clearing :: "tree \<Rightarrow> path \<Rightarrow> bytes \<Rightarrow> tree" where
  "write_clearing t p d =
     (if map_of t p = Some d then t else AList.update p d (clear_path_conflicts t p))"

lemma map_of_clear: "map_of (clear_path_conflicts t p) q = (if conflict p q then None else map_of t q)"
  by (simp add: clear_path_conflicts_def map_of_filter_keys)

lemma map_of_write_clearing:
  "map_of (write_clearing t p d) q =
     (if q = p then Some d else if map_of t p \<noteq> Some d \<and> conflict p q then None else map_of t q)"
  by (simp add: write_clearing_def update_conv' map_of_clear)

interpretation clearing: tree_writer "\<lambda>t p d. Some (write_clearing t p d)"
  by unfold_locales (auto simp: map_of_write_clearing split: if_splits)

lemma tree_ok_update:
  assumes "tree_ok t" "\<And>q. q \<in> fst ` set t \<Longrightarrow> \<not> conflict p q" "p \<noteq> []"
  shows "tree_ok (AList.update p d t)"
proof -
  have "\<not> below p p" by (auto simp: below_def dest: prefix_length_le)
  moreover have "fst ` set (AList.update p d t) \<subseteq> insert p (fst ` set t)"
    using dom_update [of p d t] by (simp add: dom_map_of_conv_image_fst)
  ultimately have "\<forall>a \<in> fst ` set (AList.update p d t). \<forall>b \<in> fst ` set (AList.update p d t). \<not> below a b"
    using assms(1,2) unfolding tree_ok_def conflict_def by (smt (verit) insert_iff subset_iff)
  then show ?thesis
    using assms(1) by (simp add: tree_ok_def distinct_update)
qed

section \<open>Applying one node's writes, and mirroring a workspace\<close>

definition apply_node_writes :: "tree \<Rightarrow> tree \<Rightarrow> tree \<Rightarrow> tree" where
  "apply_node_writes src dst base =
     (let current = snapshot_tree src;
          written = fold (\<lambda>(rel, data) t. if map_of base rel = Some data then t
                                          else write_clearing t rel data) current dst
      in fold (\<lambda>(rel, data) t. if map_of current rel \<noteq> None then t else AList.delete rel t)
           base written)"

text \<open>\<open>(src / rel).exists()\<close>: a file there, or a directory.\<close>

definition path_exists :: "tree \<Rightarrow> path \<Rightarrow> bool" where
  "path_exists t p = (map_of t p \<noteq> None \<or> list_ex (\<lambda>(q, d). below p q) t)"

definition apply_workspace :: "tree \<Rightarrow> tree \<Rightarrow> tree" where
  "apply_workspace src dst =
     (let written = fold (\<lambda>(rel, data) t. if ignored rel then t else write_clearing t rel data) src dst
      in filter (\<lambda>(rel, data). ignored rel \<or> path_exists src rel) written)"

text \<open>Both write loops are runs of the clearing writer.\<close>

lemma fold_write_seq:
  "write_seq (\<lambda>t p d. Some (write_clearing t p d)) t (filter (\<lambda>(p, d). P p d) ws)
     = Some (fold (\<lambda>(p, d) t. if P p d then write_clearing t p d else t) ws t)"
  by (induction ws arbitrary: t) auto

lemma fold_delete:
  "map_of (fold (\<lambda>(rel, data) t. if K rel then t else AList.delete rel t) ws t) p
     = (if p \<in> fst ` set ws \<and> \<not> K p then None else map_of t p)"
  by (induction ws arbitrary: t) (auto simp: delete_conv')

lemma tree_ok_distinct: "tree_ok t \<Longrightarrow> distinct (map fst t)"
  by (simp add: tree_ok_def)

lemma tree_ok_conflict_free:
  "tree_ok t \<Longrightarrow> p \<in> fst ` set t \<Longrightarrow> q \<in> fst ` set t \<Longrightarrow> \<not> conflict p q"
  unfolding tree_ok_def conflict_def by blast

lemma keys_filter_subset: "fst ` set (filter P t) \<subseteq> fst ` set t"
  by auto

text \<open>What a run of clearing writes of a consistent tree leaves at each path.\<close>

lemma clearing_run:
  fixes t ws P
  defines "t' \<equiv> fold (\<lambda>(p, d) t. if P p d then write_clearing t p d else t) ws t"
  assumes ok: "tree_ok ws"
  shows "map_of ws p = Some d \<Longrightarrow> P p d \<Longrightarrow> map_of t' p = Some d"
    and "\<not> (\<exists>d. map_of ws p = Some d \<and> P p d) \<Longrightarrow>
      (\<And>q e. map_of ws q = Some e \<Longrightarrow> P q e \<Longrightarrow> \<not> conflict q p) \<Longrightarrow> map_of t' p = map_of t p"
    and "\<not> (\<exists>d. map_of ws p = Some d \<and> P p d) \<Longrightarrow> map_of t' p = Some e \<Longrightarrow> map_of t p = Some e"
proof -
  let ?ws = "filter (\<lambda>(p, d). P p d) ws"
  have run: "write_seq (\<lambda>t p d. Some (write_clearing t p d)) t ?ws = Some t'"
    unfolding t'_def by (rule fold_write_seq)
  have dist: "distinct (map fst ?ws)"
    using ok by (simp add: tree_ok_def distinct_map_filter)
  have keys: "q \<in> fst ` set ?ws \<longleftrightarrow> (\<exists>e. map_of ws q = Some e \<and> P q e)" for q
    unfolding map_of_eq_Some_iff [OF tree_ok_distinct [OF ok]] image_iff by simp
  have mem: "a \<in> fst ` set ?ws \<Longrightarrow> a \<in> fst ` set ws" for a by auto
  have free: "\<not> conflict a b" if "a \<in> fst ` set ?ws" "b \<in> fst ` set ?ws" for a b
    by (rule tree_ok_conflict_free [OF ok mem [OF that(1)] mem [OF that(2)]])
  show "map_of t' p = Some d" if "map_of ws p = Some d" "P p d"
  proof -
    have "(p, d) \<in> set ?ws" using map_of_SomeD [OF that(1)] that(2) by simp
    then show ?thesis by (intro clearing.write_seq_at [OF run dist]) (rule free)
  qed
  have keyE: "\<exists>e. map_of ws q = Some e \<and> P q e" if "q \<in> fst ` set ?ws" for q
    using that unfolding keys .
  have nokey: "p \<notin> fst ` set ?ws" if "\<not> (\<exists>d. map_of ws p = Some d \<and> P p d)"
    using that unfolding keys .
  show "map_of t' p = map_of t p" if n: "\<not> (\<exists>d. map_of ws p = Some d \<and> P p d)"
      and c: "\<And>q e. map_of ws q = Some e \<Longrightarrow> P q e \<Longrightarrow> \<not> conflict q p"
    by (rule clearing.write_seq_frame [OF run nokey [OF n]]) (metis keyE c)
  show "map_of t p = Some e" if "\<not> (\<exists>d. map_of ws p = Some d \<and> P p d)" "map_of t' p = Some e"
    by (rule clearing.write_seq_shrink [OF run nokey [OF that(1)] that(2)])
qed

lemma path_exists_not_conflict:
  "tree_ok src \<Longrightarrow> path_exists src p \<Longrightarrow> map_of src p = None \<Longrightarrow>
   \<exists>q e. map_of src q = Some e \<and> conflict q p"
  by (auto simp: path_exists_def list_ex_iff conflict_def tree_ok_def)

lemma conflict_free_run:
  assumes "tree_ok src" "tree_ok dst" "\<not> ignored p" "map_of src p = None"
    and "map_of src q = Some e" "conflict q p"
  shows "map_of (fold (\<lambda>(rel, data) t. if ignored rel then t else write_clearing t rel data) src dst) p
    = None"
proof (rule ccontr)
  let ?run = "\<lambda>xs t. fold (\<lambda>(rel, data) t. if ignored rel then t else write_clearing t rel data) xs t"
  assume "map_of (?run src dst) p \<noteq> None"
  then obtain d where d: "map_of (?run src dst) p = Some d" by auto
  have nq: "\<not> ignored q" using assms(3,6) conflict_ignored by blast
  from map_of_SomeD [OF assms(5)] obtain ps rs where src: "src = ps @ (q, e) # rs"
    by (auto simp: in_set_conv_decomp)
  have swap: "?run xs t = fold (\<lambda>(p, d) t. if \<not> ignored p then write_clearing t p d else t) xs t" for xs t
    by (intro fold_cong) auto
  have "p \<notin> fst ` set src" using assms(4) by (simp add: map_of_eq_None_iff)
  then have nomem: "p \<notin> fst ` set ps" "p \<notin> fst ` set rs" by (auto simp: src)
  have nps: "q \<notin> fst ` set ps" using assms(1) by (auto simp: src tree_ok_def)
  have ok: "tree_ok ps" "tree_ok rs"
    using assms(1) unfolding src tree_ok_def by auto
  note shrink = clearing_run(3) [where P = "\<lambda>p d. \<not> ignored p", folded swap]
  have "?run src dst = ?run rs (write_clearing (?run ps dst) q e)"
    using nq by (simp add: src)
  with d have "map_of (write_clearing (?run ps dst) q e) p = Some d"
    using shrink [OF ok(2), of p "write_clearing (?run ps dst) q e" d] nomem(2)
    by (auto simp: map_of_eq_None_iff dest: map_of_SomeD)
  moreover have "p \<noteq> q" using assms(4,5) by auto
  ultimately have pd: "map_of (?run ps dst) p = Some d" and qe: "map_of (?run ps dst) q = Some e"
    using assms(6) by (auto simp: map_of_write_clearing split: if_splits)
  have "map_of dst q = Some e"
    using shrink [OF ok(1), of q dst e] qe nps by (simp add: map_of_eq_None_iff)
  moreover have "map_of dst p = Some d"
    using shrink [OF ok(1), of p dst d] pd nomem(1) by (simp add: map_of_eq_None_iff)
  ultimately show False using tree_ok_no_conflict [OF assms(2)] assms(6) by blast
qed

text \<open>C15: \<open>apply_workspace\<close> makes the destination an exact mirror of the source on every tracked path,
  files that turn into directories and back included, and leaves every ignored path of the
  destination (the repository metadata, virtual environments, run records) untouched.\<close>

theorem apply_workspace_mirrors:
  assumes "tree_ok src" "tree_ok dst"
  shows "map_of (apply_workspace src dst) p =
    (if ignored p then map_of dst p else map_of src p)"
proof -
  let ?t = "fold (\<lambda>(rel, data) t. if ignored rel then t else write_clearing t rel data) src dst"
  have t: "?t = fold (\<lambda>(p, d) t. if \<not> ignored p then write_clearing t p d else t) src dst"
    by (intro fold_cong) auto
  have res: "map_of (apply_workspace src dst) p
      = (if ignored p \<or> path_exists src p then map_of ?t p else None)"
    by (simp add: apply_workspace_def Let_def map_of_filter_keys)
  show ?thesis
  proof (cases "ignored p")
    case True
    have "map_of ?t p = map_of dst p" unfolding t
      by (rule clearing_run(2) [OF assms(1)]) (use True conflict_ignored in auto)
    with True res show ?thesis by simp
  next
    case False
    show ?thesis
    proof (cases "map_of src p")
      case None
      have "map_of ?t p = None" if "path_exists src p"
        using path_exists_not_conflict [OF assms(1) that None]
          conflict_free_run [OF assms False None] by blast
      with None False res show ?thesis by simp
    next
      case (Some d)
      have "map_of ?t p = Some d" unfolding t
        by (rule clearing_run(1) [OF assms(1) Some]) (use False in simp)
      with Some False res show ?thesis by (simp add: path_exists_def)
    qed
  qed
qed

theorem apply_workspace_mirrors_witness:
  "map_of (apply_workspace [(''mod.py/init'', ''new'')] [(''mod.py'', ''old''), (''.git/HEAD'', ''ref'')])
     ''mod.py'' = None \<and>
   map_of (apply_workspace [(''mod.py/init'', ''new'')] [(''mod.py'', ''old''), (''.git/HEAD'', ''ref'')])
     ''.git/HEAD'' = Some ''ref''"
proof -
  let ?s = "[(''mod.py/init'', ''new'')]" and ?d = "[(''mod.py'', ''old''), (''.git/HEAD'', ''ref'')]"
  have ok: "tree_ok ?s" "tree_ok ?d" by (simp_all add: tree_ok_def below_def)
  show ?thesis
    unfolding apply_workspace_mirrors [OF ok] by (simp add: ignored_def top_of_def copy_ignore_def)
qed

text \<open>\<open>apply_node_writes\<close> touches nothing beyond the node's own difference to its base: a path
  the node neither wrote nor deleted, and that no written path shadows as a directory, keeps its
  bytes; a path the node wrote gets the node's bytes; a path it deleted is gone.\<close>

theorem apply_node_writes_frame:
  assumes "tree_ok src"
  shows "(\<forall>d. map_of (snapshot_tree src) p = Some d \<and> map_of base p \<noteq> Some d \<longrightarrow>
      map_of (apply_node_writes src dst base) p = Some d) \<and>
    (map_of (snapshot_tree src) p = None \<and> map_of base p \<noteq> None \<longrightarrow>
      map_of (apply_node_writes src dst base) p = None) \<and>
    (map_of (snapshot_tree src) p = map_of base p \<and>
      (\<forall>q. conflict q p \<longrightarrow> map_of (snapshot_tree src) q = map_of base q) \<longrightarrow>
      map_of (apply_node_writes src dst base) p = map_of dst p)"
proof -
  let ?cur = "snapshot_tree src"
  let ?w = "fold (\<lambda>(p, d) t. if map_of base p \<noteq> Some d then write_clearing t p d else t) ?cur dst"
  have w: "fold (\<lambda>(rel, data) t. if map_of base rel = Some data then t
      else write_clearing t rel data) ?cur dst = ?w"
    by (intro fold_cong) auto
  have res: "map_of (apply_node_writes src dst base) p
      = (if map_of base p \<noteq> None \<and> map_of ?cur p = None then None else map_of ?w p)"
    by (simp add: apply_node_writes_def Let_def w fold_delete map_of_eq_None_iff)
  note run = clearing_run [OF tree_ok_snapshot [OF assms], where P = "\<lambda>p d. map_of base p \<noteq> Some d"
      and t = dst and p = p]
  have "map_of ?w p = map_of dst p" if "map_of ?cur p = map_of base p"
      "\<forall>q. conflict q p \<longrightarrow> map_of ?cur q = map_of base q"
    by (rule run(2)) (use that in auto)
  then show ?thesis unfolding res using run(1) by auto
qed

theorem apply_node_writes_frame_witness:
  "map_of (apply_node_writes [(''a.py'', ''new'')] [(''a.py'', ''old''), (''b.py'', ''sib''), (''c.py'', ''x'')]
     [(''a.py'', ''old''), (''c.py'', ''x'')]) ''a.py'' = Some ''new'' \<and>
   map_of (apply_node_writes [(''a.py'', ''new'')] [(''a.py'', ''old''), (''b.py'', ''sib''), (''c.py'', ''x'')]
     [(''a.py'', ''old''), (''c.py'', ''x'')]) ''c.py'' = None"
proof -
  have ok: "tree_ok [(''a.py'', ''new'')]" by (simp add: tree_ok_def below_def)
  have snap: "snapshot_tree [(''a.py'', ''new'')] = [(''a.py'', ''new'')]" by code_simp
  show ?thesis
    using apply_node_writes_frame [OF ok, of "''a.py''" "[(''a.py'', ''old''), (''c.py'', ''x'')]"
        "[(''a.py'', ''old''), (''b.py'', ''sib''), (''c.py'', ''x'')]"]
      apply_node_writes_frame [OF ok, of "''c.py''" "[(''a.py'', ''old''), (''c.py'', ''x'')]"
        "[(''a.py'', ''old''), (''b.py'', ''sib''), (''c.py'', ''x'')]"]
    by (simp add: snap)
qed

end
