(* ===== verification/Graph_Merge.thy ===== *)
theory Graph_Merge
  imports Workspace
begin

text \<open>
  \<^verbatim>\<open>agy_orchestrator/workflows/graph_merge.py\<close>: folding one completed node's writes into the live
  tree.  \<open>merge_node\<close> returns the tree it leaves together with the outcome or the exception, since
  an exception can leave part of the writes behind.  The reconciler is a parameter (a worker
  resolves the overlap; \<open>None\<close> when it raises).  Its single-file write \<open>write_file\<close> is the model's
  instance of the \<open>exact_writer\<close> contract of \<^verbatim>\<open>Workspace\<close>.
\<close>

section \<open>Data\<close>

record merge_outcome =
  o_node :: string
  o_layer :: nat
  o_overlapping :: "path list"
  o_policy :: string
  o_conflict :: bool
  o_resolution :: string

datatype merge_error =
    BadPolicy string
  | MergeConflict merge_outcome
  | ReconcilerRaised path
  | WriteBlocked

type_synonym reconciler = "path \<Rightarrow> bytes option \<Rightarrow> bytes \<Rightarrow> bytes \<Rightarrow> bytes option"

definition merge_policies :: "string list" where
  "merge_policies = [''disjoint'', ''reconcile'', ''fail'']"

definition outcome_to_dict :: "merge_outcome \<Rightarrow> pydict" where
  "outcome_to_dict o1 =
     [(''node_id'', PStr (o_node o1)),
      (''layer'', PInt (int (o_layer o1))),
      (''overlapping_paths'', PList (map PStr (o_overlapping o1))),
      (''policy'', PStr (o_policy o1)),
      (''conflict'', PBool (o_conflict o1)),
      (''resolution'', PStr (o_resolution o1))]"

section \<open>Operations\<close>

definition node_changes :: "tree \<Rightarrow> tree \<Rightarrow> tree" where
  "node_changes src_snapshot base = filter (\<lambda>(rel, data). map_of base rel \<noteq> Some data) src_snapshot"

text \<open>\<open>_write_file\<close> clears nothing: \<open>mkdir\<close> raises when an ancestor is a file, and the write raises
  when the path is a directory.\<close>

definition write_file :: "tree \<Rightarrow> path \<Rightarrow> bytes \<Rightarrow> tree option" where
  "write_file t p d =
     (if map_of t p = Some d then Some t
      else if list_ex (\<lambda>(q, e). conflict p q) t then None
      else Some (AList.update p d t))"

fun write_files :: "tree \<Rightarrow> tree \<Rightarrow> tree \<times> bool" where
  "write_files t [] = (t, True)"
| "write_files t ((p, d) # ws) =
     (case write_file t p d of None \<Rightarrow> (t, False) | Some t' \<Rightarrow> write_files t' ws)"

definition apply_disjoint :: "tree \<Rightarrow> tree \<Rightarrow> path list \<Rightarrow> tree \<times> bool" where
  "apply_disjoint live disjoint deletions =
     (case write_files live disjoint of
        (t, False) \<Rightarrow> (t, False)
      | (t, True) \<Rightarrow> (fold AList.delete deletions t, True))"

fun reconcile_paths ::
  "reconciler \<Rightarrow> tree \<Rightarrow> tree \<Rightarrow> tree \<Rightarrow> tree \<Rightarrow> path list \<Rightarrow> tree \<times> merge_error option" where
  "reconcile_paths rec base live0 changed t [] = (t, None)"
| "reconcile_paths rec base live0 changed t (rel # rels) =
     (let sibling = (case map_of live0 rel of None \<Rightarrow> [] | Some b \<Rightarrow> b);
          node_bytes = the (map_of changed rel)
      in case rec rel (map_of base rel) sibling node_bytes of
           None \<Rightarrow> (t, Some (ReconcilerRaised rel))
         | Some merged \<Rightarrow>
             (case write_file t rel merged of
                None \<Rightarrow> (t, Some WriteBlocked)
              | Some t' \<Rightarrow> reconcile_paths rec base live0 changed t' rels))"

definition overlapping_of :: "tree \<Rightarrow> tree \<Rightarrow> tree \<Rightarrow> path list" where
  "overlapping_of changed base live0 =
     map fst (filter (\<lambda>(rel, data). map_of live0 rel \<noteq> map_of base rel) changed)"

definition disjoint_of :: "tree \<Rightarrow> tree \<Rightarrow> tree \<Rightarrow> tree" where
  "disjoint_of changed base live0 =
     filter (\<lambda>(rel, data). map_of live0 rel = map_of base rel) changed"

definition deletions_of :: "tree \<Rightarrow> tree \<Rightarrow> tree \<Rightarrow> path list" where
  "deletions_of src_snapshot base live0 =
     map fst (filter (\<lambda>(rel, data). map_of src_snapshot rel = None
       \<and> map_of live0 rel = map_of base rel) base)"

definition merge_node ::
  "string \<Rightarrow> nat \<Rightarrow> tree \<Rightarrow> tree \<Rightarrow> tree \<Rightarrow> string \<Rightarrow> reconciler option \<Rightarrow>
   tree \<times> (merge_error + merge_outcome)" where
  "merge_node node_id layer src_ws live base policy station =
    (if policy \<notin> set merge_policies then (live, Inl (BadPolicy policy))
     else
       let src_snapshot = snapshot_tree src_ws;
           live0 = snapshot_tree live;
           changed = node_changes src_snapshot base;
           overlapping = overlapping_of changed base live0;
           deletions = deletions_of src_snapshot base live0;
           outcome = \<lparr>o_node = node_id, o_layer = layer, o_overlapping = sort overlapping,
                      o_policy = policy, o_conflict = False, o_resolution = []\<rparr>
       in if overlapping \<noteq> [] \<and> policy \<in> {''disjoint'', ''fail''}
          then (live, Inl (MergeConflict (outcome\<lparr>o_conflict := True,
                  o_resolution := if policy = ''disjoint'' then ''aborted:disjoint-policy''
                                  else ''aborted:fail-policy''\<rparr>)))
          else
            let (t, fine) = apply_disjoint live (disjoint_of changed base live0) deletions
            in if \<not> fine then (t, Inl WriteBlocked)
               else if overlapping = [] then (t, Inr (outcome\<lparr>o_resolution := ''disjoint''\<rparr>))
               else (case station of
                   None \<Rightarrow> (t, Inl (MergeConflict (outcome\<lparr>o_conflict := True,
                             o_resolution := ''aborted:no-reconciler''\<rparr>)))
                 | Some rec \<Rightarrow>
                     (case reconcile_paths rec base live0 changed t (o_overlapping outcome) of
                        (t', Some e) \<Rightarrow> (t', Inl e)
                      | (t', None) \<Rightarrow> (t', Inr (outcome\<lparr>o_resolution := ''reconciled''\<rparr>)))))"

section \<open>The writer contract\<close>

lemma map_of_write_file:
  "write_file t p d = Some t' \<Longrightarrow> map_of t' = (map_of t)(p \<mapsto> d)"
  by (auto simp: write_file_def update_conv' split: if_splits)

interpretation plain: exact_writer write_file
  by unfold_locales (auto simp: map_of_write_file)

lemma write_files_seq: "write_files t ws = (t', True) \<longleftrightarrow> write_seq write_file t ws = Some t'"
  by (induction t ws rule: write_files.induct) (auto split: option.splits)

lemma write_files_touch:
  "q \<notin> fst ` set ws \<Longrightarrow> map_of (fst (write_files t ws)) q = map_of t q"
  by (induction t ws rule: write_files.induct) (auto simp: map_of_write_file split: option.splits)

lemma map_of_fold_delete:
  "map_of (fold AList.delete ps t) q = (if q \<in> set ps then None else map_of t q)"
  by (induction ps arbitrary: t) (auto simp: delete_conv')

lemma apply_disjoint_exact:
  assumes "apply_disjoint live ws ds = (t, True)" "distinct (map fst ws)"
  shows "map_of t q = (if q \<in> set ds then None else (map_of live ++ map_of ws) q)"
proof -
  from assms(1) obtain t1 where "write_files live ws = (t1, True)" "t = fold AList.delete ds t1"
    by (auto simp: apply_disjoint_def split: prod.splits bool.splits)
  then show ?thesis
    using plain.write_seq_exact [OF _ assms(2)] by (simp add: write_files_seq map_of_fold_delete)
qed

lemma apply_disjoint_touch:
  assumes "q \<notin> fst ` set ws" "q \<notin> set ds"
  shows "map_of (fst (apply_disjoint live ws ds)) q = map_of live q"
  using write_files_touch [OF assms(1), of live] assms(2)
  by (auto simp: apply_disjoint_def map_of_fold_delete split: prod.splits bool.splits)

section \<open>The reconcile loop\<close>

lemma reconcile_touch:
  "q \<notin> set rels \<Longrightarrow> map_of (fst (reconcile_paths rec base live0 ch t rels)) q = map_of t q"
  by (induction rec base live0 ch t rels rule: reconcile_paths.induct)
    (auto simp: Let_def map_of_write_file split: option.splits)

abbreviation resolved :: "reconciler \<Rightarrow> tree \<Rightarrow> tree \<Rightarrow> tree \<Rightarrow> path \<Rightarrow> bytes option" where
  "resolved rec base live0 ch q \<equiv>
     rec q (map_of base q) (case map_of live0 q of None \<Rightarrow> [] | Some b \<Rightarrow> b) (the (map_of ch q))"

lemma reconcile_only:
  "map_of (fst (reconcile_paths rec base live0 ch t rels)) q = map_of t q \<or>
   (resolved rec base live0 ch q \<noteq> None \<and>
    map_of (fst (reconcile_paths rec base live0 ch t rels)) q = resolved rec base live0 ch q)"
proof (induction rec base live0 ch t rels rule: reconcile_paths.induct)
  case (2 rec base live0 ch t rel rels)
  show ?case
  proof (cases "resolved rec base live0 ch rel")
    case (Some m)
    show ?thesis
    proof (cases "write_file t rel m")
      case (Some t')
      have "map_of t' = (map_of t)(rel \<mapsto> m)" by (rule map_of_write_file [OF Some])
      then show ?thesis
        using 2 [OF refl refl \<open>resolved rec base live0 ch rel = Some m\<close> Some]
          \<open>resolved rec base live0 ch rel = Some m\<close> Some
        by (cases "q = rel") (auto simp: Let_def)
    qed (simp add: Some Let_def)
  qed (simp add: Let_def)
qed simp

lemma reconcile_done:
  "reconcile_paths rec base live0 ch t rels = (t', None) \<Longrightarrow> distinct rels \<Longrightarrow>
   map_of t' q = (if q \<in> set rels then resolved rec base live0 ch q else map_of t q)"
proof (induction rec base live0 ch t rels rule: reconcile_paths.induct)
  case (2 rec base live0 ch t rel rels)
  then obtain m t1 where m: "resolved rec base live0 ch rel = Some m" "write_file t rel m = Some t1"
    and r: "reconcile_paths rec base live0 ch t1 rels = (t', None)"
    by (auto simp: Let_def split: option.splits)
  show ?case
    using 2(1) [OF refl refl m r] 2(3) m(1) map_of_write_file [OF m(2)] by auto
qed simp

section \<open>What a merge leaves at each path\<close>

text \<open>The specification, path by path: a sibling's change meets the reconciler, an undisturbed change
  or deletion is taken over, everything else keeps its bytes.\<close>

definition changed_at :: "tree \<Rightarrow> tree \<Rightarrow> path \<Rightarrow> bool" where
  "changed_at src base p =
     (map_of (snapshot_tree src) p \<noteq> None \<and> map_of (snapshot_tree src) p \<noteq> map_of base p)"

definition overlap_at :: "tree \<Rightarrow> tree \<Rightarrow> tree \<Rightarrow> path \<Rightarrow> bool" where
  "overlap_at src base live p =
     (changed_at src base p \<and> map_of (snapshot_tree live) p \<noteq> map_of base p)"

definition deleted_at :: "tree \<Rightarrow> tree \<Rightarrow> tree \<Rightarrow> path \<Rightarrow> bool" where
  "deleted_at src base live p =
     (map_of (snapshot_tree src) p = None \<and> map_of base p \<noteq> None \<and>
      map_of (snapshot_tree live) p = map_of base p)"

definition merge_at :: "reconciler \<Rightarrow> tree \<Rightarrow> tree \<Rightarrow> tree \<Rightarrow> path \<Rightarrow> bytes option" where
  "merge_at rec src base live p =
     (if overlap_at src base live p
      then resolved rec base (snapshot_tree live) (snapshot_tree src) p
      else if changed_at src base p then map_of (snapshot_tree src) p
      else if deleted_at src base live p then None
      else map_of live p)"

lemma map_of_filter_distinct:
  "distinct (map fst xs) \<Longrightarrow> map_of (filter (\<lambda>(p, d). P p d) xs) q =
     (case map_of xs q of None \<Rightarrow> None | Some d \<Rightarrow> if P q d then Some d else None)"
  by (induction xs) (auto simp: map_of_eq_None_iff image_iff split: option.splits)

lemma map_of_changes:
  "distinct (map fst s) \<Longrightarrow> map_of (node_changes s base) p =
     (if map_of s p \<noteq> map_of base p then map_of s p else None)"
  by (auto simp: node_changes_def map_of_filter_distinct split: option.splits)

lemma distinct_changes: "distinct (map fst s) \<Longrightarrow> distinct (map fst (node_changes s base))"
  by (auto simp: node_changes_def distinct_map_filter)

lemma distinct_snapshot: "distinct (map fst t) \<Longrightarrow> distinct (map fst (snapshot_tree t))"
  by (auto simp: snapshot_tree_def distinct_map_filter)

lemma keys_map_of: "p \<in> fst ` set t \<longleftrightarrow> map_of t p \<noteq> None"
  by (simp add: map_of_eq_None_iff)

text \<open>The classification of the changed paths, read off the three snapshots.\<close>

lemma classified:
  fixes src base live :: tree
  assumes "distinct (map fst src)"
  defines "ch \<equiv> node_changes (snapshot_tree src) base"
  shows "p \<in> set (overlapping_of ch base (snapshot_tree live)) \<longleftrightarrow> overlap_at src base live p"
    and "distinct (overlapping_of ch base (snapshot_tree live))"
    and "p \<in> set (deletions_of (snapshot_tree src) base (snapshot_tree live)) \<longleftrightarrow> deleted_at src base live p"
    and "map_of (disjoint_of ch base (snapshot_tree live)) p =
      (if changed_at src base p \<and> \<not> overlap_at src base live p then map_of (snapshot_tree src) p else None)"
    and "distinct (map fst (disjoint_of ch base (snapshot_tree live)))"
    and "changed_at src base p \<Longrightarrow> map_of ch p = map_of (snapshot_tree src) p"
proof -
  note ds = distinct_snapshot [OF assms(1)]
  note dc = distinct_changes [OF ds, of base, folded ch_def]
  have m: "map_of ch q = (if changed_at src base q then map_of (snapshot_tree src) q else None)" for q
    by (auto simp: ch_def map_of_changes [OF ds] changed_at_def)
  have keys: "q \<in> fst ` set ch \<longleftrightarrow> changed_at src base q" for q
    by (simp add: keys_map_of m) (auto simp: changed_at_def)
  show "p \<in> set (overlapping_of ch base (snapshot_tree live)) \<longleftrightarrow> overlap_at src base live p"
    using keys [of p] by (force simp: overlapping_of_def overlap_at_def)
  show "distinct (overlapping_of ch base (snapshot_tree live))"
    using dc by (simp add: overlapping_of_def distinct_map_filter)
  show "p \<in> set (deletions_of (snapshot_tree src) base (snapshot_tree live)) \<longleftrightarrow> deleted_at src base live p"
    using keys_map_of [of p base] by (force simp: deletions_of_def deleted_at_def)
  show "map_of (disjoint_of ch base (snapshot_tree live)) p =
      (if changed_at src base p \<and> \<not> overlap_at src base live p then map_of (snapshot_tree src) p else None)"
    by (auto simp: disjoint_of_def map_of_filter_keys m overlap_at_def)
  show "distinct (map fst (disjoint_of ch base (snapshot_tree live)))"
    using dc by (simp add: disjoint_of_def distinct_map_filter)
  show "changed_at src base p \<Longrightarrow> map_of ch p = map_of (snapshot_tree src) p"
    by (simp add: m)
qed

lemma changed_visible: "changed_at src base p \<Longrightarrow> \<not> ignored p"
  by (auto simp: changed_at_def map_of_snapshot split: if_splits)

lemma merge_node_returns:
  assumes "distinct (map fst src)"
    and "merge_node n l src live base policy station = (t, Inr o1)"
  shows "map_of t p = merge_at (\<lambda>q b s d. case station of None \<Rightarrow> None | Some rec \<Rightarrow> rec q b s d) src base live p"
    and "(p \<in> set (o_overlapping o1) \<longleftrightarrow> overlap_at src base live p)
    \<and> sorted (o_overlapping o1) \<and> distinct (o_overlapping o1) \<and> \<not> o_conflict o1
    \<and> o_resolution o1 = (if o_overlapping o1 = [] then ''disjoint'' else ''reconciled'')"
proof -
  let ?live0 = "snapshot_tree live"
  let ?ch = "node_changes (snapshot_tree src) base"
  let ?ov = "overlapping_of ?ch base ?live0"
  let ?dl = "deletions_of (snapshot_tree src) base ?live0"
  note cl = classified(1-5) [OF assms(1), where base = base and live = live]
    and cl6 = classified(6) [OF assms(1), where base = base]
  from assms(2) obtain t1 where t1: "apply_disjoint live (disjoint_of ?ch base ?live0) ?dl = (t1, True)"
    and o1: "o_overlapping o1 = sort ?ov" "\<not> o_conflict o1"
      "o_resolution o1 = (if ?ov = [] then ''disjoint'' else ''reconciled'')"
    and rest: "?ov = [] \<and> t = t1 \<or> (?ov \<noteq> [] \<and>
      (\<exists>rec. station = Some rec \<and> reconcile_paths rec base ?live0 ?ch t1 (sort ?ov) = (t, None)))"
    by (auto simp: merge_node_def Let_def split: if_splits prod.splits option.splits)
  have m1: "map_of t1 p = (if deleted_at src base live p then None
      else if changed_at src base p \<and> \<not> overlap_at src base live p then map_of (snapshot_tree src) p
      else map_of live p)"
    using apply_disjoint_exact [OF t1 cl(5), of p] cl(3,4) [of p]
    by (auto simp: map_add_def changed_at_def split: option.splits)
  show "map_of t p = merge_at (\<lambda>q b s d. case station of None \<Rightarrow> None | Some rec \<Rightarrow> rec q b s d) src base live p"
    using rest
  proof (elim disjE conjE exE)
    assume "?ov = []" "t = t1"
    then show ?thesis using m1 cl(1) [of p] by (auto simp: merge_at_def deleted_at_def changed_at_def)
  next
    fix rec assume st: "station = Some rec" "reconcile_paths rec base ?live0 ?ch t1 (sort ?ov) = (t, None)"
    have "map_of t p = (if p \<in> set (sort ?ov) then resolved rec base ?live0 ?ch p else map_of t1 p)"
      by (rule reconcile_done [OF st(2)]) (simp add: cl(2))
    then show ?thesis
      using m1 cl(1) [of p] cl6 [of p] st(1)
      by (auto simp: merge_at_def deleted_at_def changed_at_def overlap_at_def)
  qed
  show "(p \<in> set (o_overlapping o1) \<longleftrightarrow> overlap_at src base live p)
    \<and> sorted (o_overlapping o1) \<and> distinct (o_overlapping o1) \<and> \<not> o_conflict o1
    \<and> o_resolution o1 = (if o_overlapping o1 = [] then ''disjoint'' else ''reconciled'')"
    using o1 cl(1) [of p] cl(2) by auto
qed

lemmas merge_node_map = merge_node_returns(1)

text \<open>C10: A merge that returns has folded in exactly the node's difference to its base: a path only the
  node changed carries the node's bytes, a path the node deleted undisturbed is gone, a path a sibling
  also changed carries the reconciler's bytes, every other path is as it was; the reported
  overlap is the sorted list of the paths both wrote and no conflict is flagged.\<close>

theorem merge_node_exact:
  assumes "distinct (map fst src)"
    and "merge_node n l src live base policy station = (t, Inr o1)"
  shows "map_of t p = merge_at (\<lambda>q b s d. case station of None \<Rightarrow> None | Some rec \<Rightarrow> rec q b s d) src base live p
    \<and> (p \<in> set (o_overlapping o1) \<longleftrightarrow> overlap_at src base live p)
    \<and> sorted (o_overlapping o1) \<and> distinct (o_overlapping o1) \<and> \<not> o_conflict o1
    \<and> o_resolution o1 = (if o_overlapping o1 = [] then ''disjoint'' else ''reconciled'')"
  using merge_node_returns [OF assms] by blast

theorem merge_node_exact_witness:
  "map_of (fst (merge_node ''n'' 2 [(''a'', ''A1''), (''b'', ''B1'')] [(''a'', ''A0''), (''b'', ''B2''), (''c'', ''C0'')]
     [(''a'', ''A0''), (''b'', ''B0''), (''c'', ''C0'')] ''reconcile'' (Some (\<lambda>q b s d. Some (s @ d))))) ''b''
   = Some ''B2B1''"
proof -
  let ?src = "[(''a'', ''A1''), (''b'', ''B1'')]"
    and ?live = "[(''a'', ''A0''), (''b'', ''B2''), (''c'', ''C0'')]"
    and ?base = "[(''a'', ''A0''), (''b'', ''B0''), (''c'', ''C0'')]"
    and ?st = "Some (\<lambda>q b s d. Some (s @ d)) :: reconciler option"
  have run: "merge_node ''n'' 2 ?src ?live ?base ''reconcile'' ?st =
      ([(''a'', ''A1''), (''b'', ''B2B1'')],
       Inr \<lparr>o_node = ''n'', o_layer = 2, o_overlapping = [''b''], o_policy = ''reconcile'',
            o_conflict = False, o_resolution = ''reconciled''\<rparr>)"
    by code_simp
  have "merge_at (\<lambda>q b s d. case ?st of None \<Rightarrow> None | Some rec \<Rightarrow> rec q b s d) ?src ?base ?live ''b''
      = Some ''B2B1''"
    by code_simp
  with merge_node_exact [OF _ run, of "''b''"] show ?thesis unfolding run by simp
qed

text \<open>C4: No merge clobbers a sibling, whatever its result, exceptions included: a path whose live
  bytes differ from the node's base keeps them, unless the policy is reconcile, a station is
  wired, and the path now holds the bytes that the station returned for it.\<close>

theorem merge_never_clobbers:
  assumes "distinct (map fst src)" and "\<not> ignored p" and "map_of live p \<noteq> map_of base p"
  shows "map_of (fst (merge_node n l src live base policy station)) p = map_of live p \<or>
    (policy = ''reconcile'' \<and> (\<exists>rec m. station = Some rec \<and>
       resolved rec base (snapshot_tree live) (node_changes (snapshot_tree src) base) p = Some m \<and>
       map_of (fst (merge_node n l src live base policy station)) p = Some m))"
proof -
  let ?live0 = "snapshot_tree live"
  let ?ch = "node_changes (snapshot_tree src) base"
  let ?ov = "overlapping_of ?ch base ?live0"
  let ?dl = "deletions_of (snapshot_tree src) base ?live0"
  let ?t1 = "fst (apply_disjoint live (disjoint_of ?ch base ?live0) ?dl)"
  note cl = classified(1-5) [OF assms(1), where base = base and live = live]
  have vis: "map_of ?live0 p \<noteq> map_of base p" using assms(2,3) by (simp add: map_of_snapshot)
  have t1: "map_of ?t1 p = map_of live p"
    by (rule apply_disjoint_touch)
      (use vis cl(3,4) [of p] in \<open>auto simp: keys_map_of deleted_at_def overlap_at_def\<close>)
  have fst_cases: "fst (merge_node n l src live base policy station) = live \<or>
      fst (merge_node n l src live base policy station) = ?t1 \<or>
      (policy = ''reconcile'' \<and> (\<exists>rec. station = Some rec \<and>
        fst (merge_node n l src live base policy station)
          = fst (reconcile_paths rec base ?live0 ?ch ?t1 (sort ?ov))))"
    by (auto simp: merge_node_def merge_policies_def Let_def split: prod.splits option.splits)
  then show ?thesis
  proof (elim disjE conjE exE)
    fix rec assume "policy = ''reconcile''" "station = Some rec"
      and r: "fst (merge_node n l src live base policy station)
          = fst (reconcile_paths rec base ?live0 ?ch ?t1 (sort ?ov))"
    then show ?thesis
      using reconcile_only [of rec base ?live0 ?ch ?t1 "sort ?ov" p] t1 by auto
  qed (simp_all add: t1)
qed

theorem merge_never_clobbers_witness:
  "map_of (fst (merge_node ''n'' 1 [(''b'', ''B1'')] [(''b'', ''B2'')] [(''b'', ''B0'')] ''fail'' None)) ''b''
   = Some ''B2''"
  using merge_never_clobbers [of "[(''b'', ''B1'')]" "''b''" "[(''b'', ''B2'')]" "[(''b'', ''B0'')]"
      "''n''" 1 "''fail''" None]
  by (simp add: ignored_def top_of_def copy_ignore_def)

text \<open>The abort policies are decided before anything is written: under \<open>disjoint\<close> and \<open>fail\<close> an
  overlap raises the conflict that lists exactly the overlapping paths and leaves the live
  tree as it was, and without an overlap these policies never raise a conflict.\<close>

theorem abort_policy_before_writing:
  assumes "distinct (map fst src)" and "policy \<in> {''disjoint'', ''fail''}"
  shows "(\<exists>o1. snd (merge_node n l src live base policy station) = Inl (MergeConflict o1)) =
      (\<exists>p. overlap_at src base live p) \<and>
    (\<forall>o1. snd (merge_node n l src live base policy station) = Inl (MergeConflict o1) \<longrightarrow>
       fst (merge_node n l src live base policy station) = live \<and> o_conflict o1 \<and>
       sorted (o_overlapping o1) \<and> set (o_overlapping o1) = {p. overlap_at src base live p})"
proof -
  let ?ch = "node_changes (snapshot_tree src) base"
  let ?ov = "overlapping_of ?ch base (snapshot_tree live)"
  note cl = classified(1) [OF assms(1), where base = base and live = live]
  have ov: "set ?ov = {p. overlap_at src base live p}" using cl by blast
  have pol: "policy \<in> set merge_policies" using assms(2) by (auto simp: merge_policies_def)
  show ?thesis
  proof (cases "?ov = []")
    case True
    then have "{p. overlap_at src base live p} = {}" using ov by simp
    moreover have "snd (merge_node n l src live base policy station) \<noteq> Inl (MergeConflict o1)" for o1
      using True pol by (auto simp: merge_node_def Let_def split: prod.splits)
    ultimately show ?thesis by blast
  next
    case False
    then have "\<exists>p. overlap_at src base live p" using ov by (metis empty_Collect_eq set_empty)
    moreover have "merge_node n l src live base policy station = (live, Inl (MergeConflict
        \<lparr>o_node = n, o_layer = l, o_overlapping = sort ?ov, o_policy = policy, o_conflict = True,
         o_resolution = if policy = ''disjoint'' then ''aborted:disjoint-policy''
           else ''aborted:fail-policy''\<rparr>))"
      using False pol assms(2) by (auto simp: merge_node_def Let_def)
    ultimately show ?thesis using ov by simp
  qed
qed

theorem abort_policy_before_writing_witness:
  "(\<exists>o1. snd (merge_node ''n'' 1 [(''b'', ''B1'')] [(''b'', ''B2'')] [(''b'', ''B0'')] ''fail'' None)
     = Inl (MergeConflict o1)) = (\<exists>p. overlap_at [(''b'', ''B1'')] [(''b'', ''B0'')] [(''b'', ''B2'')] p)"
  using abort_policy_before_writing [of "[(''b'', ''B1'')]" "''fail''" "''n''" 1 "[(''b'', ''B2'')]"
      "[(''b'', ''B0'')]" None]
  by simp

definition touched_at :: "tree \<Rightarrow> tree \<Rightarrow> path \<Rightarrow> bool" where
  "touched_at src base p = (map_of (snapshot_tree src) p \<noteq> map_of base p)"

lemma merge_at_untouched: "\<not> touched_at src base p \<Longrightarrow> merge_at rec src base live p = map_of live p"
  by (auto simp: touched_at_def merge_at_def overlap_at_def changed_at_def deleted_at_def)

lemma merge_at_local:
  "map_of live p = map_of live' p \<Longrightarrow> merge_at rec src base live p = merge_at rec src base live' p"
  by (simp add: merge_at_def overlap_at_def deleted_at_def map_of_snapshot)

text \<open>The order in which two completed nodes merge does not matter when the paths they touched
  are disjoint: if both merges return in both orders, the two final trees are equal at every path.\<close>

theorem disjoint_merges_commute:
  assumes "distinct (map fst a)" "distinct (map fst b)"
    and "\<And>p. \<not> (touched_at a base p \<and> touched_at b base p)"
    and "merge_node n l a live base pol st = (ta, Inr o1)" "merge_node n' l' b ta base pol st = (tab, Inr o2)"
    and "merge_node n' l' b live base pol st = (tb, Inr o3)" "merge_node n l a tb base pol st = (tba, Inr o4)"
  shows "map_of tab = map_of tba"
proof
  fix p
  let ?m = "merge_at (\<lambda>q b s d. case st of None \<Rightarrow> None | Some rec \<Rightarrow> rec q b s d)"
  have m: "map_of ta p = ?m a base live p" "map_of tab p = ?m b base ta p"
    "map_of tb p = ?m b base live p" "map_of tba p = ?m a base tb p"
    by (rule merge_node_map [OF assms(1,4)] merge_node_map [OF assms(2,5)]
      merge_node_map [OF assms(2,6)] merge_node_map [OF assms(1,7)])+
  show "map_of tab p = map_of tba p"
  proof (cases "touched_at a base p")
    case True
    then have nb: "\<not> touched_at b base p" using assms(3) by blast
    then have "map_of tb p = map_of live p" using m(3) by (simp add: merge_at_untouched)
    then have "map_of tba p = ?m a base live p" unfolding m(4) by (rule merge_at_local)
    then show ?thesis using nb m(1,2) by (simp add: merge_at_untouched)
  next
    case False
    then have "map_of ta p = map_of live p" using m(1) by (simp add: merge_at_untouched)
    then have "map_of tab p = ?m b base live p" unfolding m(2) by (rule merge_at_local)
    then show ?thesis using False m(3,4) by (simp add: merge_at_untouched)
  qed
qed

theorem disjoint_merges_commute_witness:
  "map_of (fst (merge_node ''b'' 2 [(''x'', ''0''), (''y'', ''1'')]
       (fst (merge_node ''a'' 2 [(''x'', ''0''), (''z'', ''1'')] [(''x'', ''0'')] [(''x'', ''0'')] ''disjoint'' None))
       [(''x'', ''0'')] ''disjoint'' None))
   = map_of (fst (merge_node ''a'' 2 [(''x'', ''0''), (''z'', ''1'')]
       (fst (merge_node ''b'' 2 [(''x'', ''0''), (''y'', ''1'')] [(''x'', ''0'')] [(''x'', ''0'')] ''disjoint'' None))
       [(''x'', ''0'')] ''disjoint'' None))"
proof -
  let ?o = "\<lambda>n. \<lparr>o_node = n, o_layer = 2, o_overlapping = [], o_policy = ''disjoint'',
            o_conflict = False, o_resolution = ''disjoint''\<rparr>"
  let ?base = "[(''x'', ''0'')]" and ?a = "[(''x'', ''0''), (''z'', ''1'')]"
    and ?b = "[(''x'', ''0''), (''y'', ''1'')]"
  have runs: "merge_node ''a'' 2 ?a ?base ?base ''disjoint'' None = (?a, Inr (?o ''a''))"
    "merge_node ''b'' 2 ?b ?a ?base ''disjoint'' None
      = ([(''x'', ''0''), (''z'', ''1''), (''y'', ''1'')], Inr (?o ''b''))"
    "merge_node ''b'' 2 ?b ?base ?base ''disjoint'' None = (?b, Inr (?o ''b''))"
    "merge_node ''a'' 2 ?a ?b ?base ''disjoint'' None
      = ([(''x'', ''0''), (''y'', ''1''), (''z'', ''1'')], Inr (?o ''a''))"
    by code_simp+
  have disj: "\<not> (touched_at ?a ?base p \<and> touched_at ?b ?base p)" for p
    by (auto simp: touched_at_def map_of_snapshot ignored_def top_of_def copy_ignore_def split: if_splits)
  have "map_of [(''x'', ''0''), (''z'', ''1''), (''y'', ''1'')]
      = map_of [(''x'', ''0''), (''y'', ''1''), (''z'', ''1'')]"
    by (rule disjoint_merges_commute [OF _ _ disj runs]) simp_all
  then show ?thesis by (simp only: runs fst_conv)
qed

end
