(* ===== verification/Repair_Loops.thy ===== *)
theory Repair_Loops
  imports Graph_Merge
begin

text \<open>
  The verifier-gated loops of \<^verbatim>\<open>agy_orchestrator/workflows/\<close>: \<^verbatim>\<open>test_feedback.py\<close>,
  \<^verbatim>\<open>cascade.py\<close> and \<^verbatim>\<open>pat.py\<close>.  Workers and the verifier are parameters: the n-th worker call maps
  agent, prompt and working tree to an output and a tree, the n-th check judges a tree, and both may
  raise (\<open>None\<close>, which leaves the workflow).  The cascade relies on its stages through the contract
  \<open>repair_stage\<close>, which the test-feedback loop provides.
\<close>

section \<open>Workers and the verifier\<close>

record vresult =
  v_ok :: bool
  v_message :: string
  v_returncode :: int
  v_timeout :: bool
  v_resource :: bool
  v_infra :: bool
  v_hash :: "string option"

record world =
  w_tree :: tree
  w_calls :: nat
  w_checks :: nat

record renv =
  re_gen :: "nat \<Rightarrow> string \<Rightarrow> string \<Rightarrow> tree \<Rightarrow> (string \<times> tree) option"
  re_ver :: "nat \<Rightarrow> tree \<Rightarrow> vresult option"

definition run_agent :: "renv \<Rightarrow> string \<Rightarrow> string \<Rightarrow> world \<Rightarrow> (string \<times> world) option" where
  "run_agent env a prompt w =
     (case re_gen env (w_calls w) a prompt (w_tree w) of
        None \<Rightarrow> None
      | Some (out, t) \<Rightarrow> Some (out, w\<lparr>w_tree := t, w_calls := Suc (w_calls w)\<rparr>))"

definition run_verify :: "renv \<Rightarrow> world \<Rightarrow> (vresult \<times> world) option" where
  "run_verify env w =
     (case re_ver env (w_checks w) (w_tree w) of
        None \<Rightarrow> None
      | Some r \<Rightarrow> Some (r, w\<lparr>w_checks := Suc (w_checks w)\<rparr>))"

text \<open>The last check that ran passed, and judged the tree as it is now.\<close>

definition accepted :: "renv \<Rightarrow> world \<Rightarrow> bool" where
  "accepted env w = (w_checks w > 0 \<and>
     (case re_ver env (w_checks w - 1) (w_tree w) of None \<Rightarrow> False | Some r \<Rightarrow> v_ok r))"

lemma run_agent_Some:
  "run_agent env a p w = Some (out, w') \<Longrightarrow> w_calls w' = Suc (w_calls w) \<and> w_checks w' = w_checks w"
  by (auto simp: run_agent_def split: option.splits)

lemma run_verify_Some:
  "run_verify env w = Some (r, w') \<Longrightarrow> w_calls w' = w_calls w \<and> w_checks w' = Suc (w_checks w) \<and>
   w_tree w' = w_tree w \<and> accepted env w' = v_ok r"
  by (auto simp: run_verify_def accepted_def split: option.splits)

section \<open>Test feedback\<close>

text \<open>Prompts are the source text; its em dashes are written \<open>-\<close>.\<close>

definition revise_prompt :: "bool \<Rightarrow> string \<Rightarrow> string \<Rightarrow> string \<Rightarrow> string" where
  "revise_prompt preserve initial prior error =
     initial @ nl @ nl @ ''Your last output:'' @ nl @ prior @ nl @ nl @
     ''It FAILED verification with this error:'' @ nl @ error @ nl @ nl @
     (if preserve then ''Fix ONLY what the error indicates and output the complete corrected '' @
        ''version. Re-read the requirement for edge cases; keep everything that '' @
        ''already works exactly as it is - do not rewrite from scratch.''
      else ''Fix the issues and output the corrected version.'')"

record stage_result =
  st_world :: world
  st_output :: string
  st_used :: nat
  st_verified :: bool

fun tf_loop :: "renv \<Rightarrow> string \<Rightarrow> bool \<Rightarrow> string \<Rightarrow> string \<Rightarrow> string \<Rightarrow> nat \<Rightarrow> nat \<Rightarrow> world \<Rightarrow> stage_result option" where
  "tf_loop env a preserve initial prompt prior used 0 w =
     Some \<lparr>st_world = w, st_output = prior, st_used = used, st_verified = False\<rparr>"
| "tf_loop env a preserve initial prompt prior used (Suc n) w =
     (case run_agent env a prompt w of
        None \<Rightarrow> None
      | Some (out, w1) \<Rightarrow>
          (case run_verify env w1 of
             None \<Rightarrow> None
           | Some (r, w2) \<Rightarrow>
               if v_ok r
               then Some \<lparr>st_world = w2, st_output = out, st_used = Suc used, st_verified = True\<rparr>
               else tf_loop env a preserve initial
                      (revise_prompt preserve initial out
                        (if v_message r = [] then ''(no detail)'' else v_message r))
                      out (Suc used) n w2))"

definition test_feedback :: "renv \<Rightarrow> string \<Rightarrow> string \<Rightarrow> int \<Rightarrow> world \<Rightarrow> stage_result option" where
  "test_feedback env a initial max_iterations w =
     tf_loop env a True initial initial [] 0 (nat max_iterations) w"

lemma tf_loop_facts:
  "tf_loop env a pr ini p l u n w = Some r \<Longrightarrow>
   u \<le> st_used r \<and> st_used r \<le> u + n \<and> w_calls (st_world r) + u = w_calls w + st_used r \<and>
   w_checks (st_world r) + u = w_checks w + st_used r \<and>
   (st_verified r \<longrightarrow> u < st_used r \<and> accepted env (st_world r)) \<and>
   (\<not> st_verified r \<longrightarrow> st_used r = u + n)"
proof (induction n arbitrary: p l u w)
  case (Suc n)
  then obtain out w1 v w2 where 1: "run_agent env a p w = Some (out, w1)" "run_verify env w1 = Some (v, w2)"
    by (auto split: option.splits)
  note f = run_agent_Some [OF 1(1)] run_verify_Some [OF 1(2)]
  show ?case
  proof (cases "v_ok v")
    case True
    with Suc.prems 1 f show ?thesis by auto
  next
    case False
    then have "tf_loop env a pr ini (revise_prompt pr ini out (if v_message v = [] then ''(no detail)''
        else v_message v)) out (Suc u) n w2 = Some r"
      using Suc.prems 1 by simp
    from Suc.IH [OF this] f show ?thesis by auto
  qed
qed auto

section \<open>The contract of a repair stage\<close>

text \<open>What the cascade needs of a stage: a stage that reports success ended on a passing check of the
  tree it leaves, one check follows every worker call, and the budget bounds the calls.\<close>

locale repair_stage =
  fixes stage :: "renv \<Rightarrow> string \<Rightarrow> string \<Rightarrow> int \<Rightarrow> world \<Rightarrow> stage_result option"
  assumes stage_sound: "stage env a p n w = Some r \<Longrightarrow> st_verified r \<Longrightarrow> accepted env (st_world r)"
    and stage_bound: "stage env a p n w = Some r \<Longrightarrow> st_used r \<le> nat n"
    and stage_calls: "stage env a p n w = Some r \<Longrightarrow> w_calls (st_world r) = w_calls w + st_used r"
    and stage_tries: "stage env a p n w = Some r \<Longrightarrow> n > 0 \<Longrightarrow> st_used r > 0"

interpretation feedback: repair_stage test_feedback
  by unfold_locales (auto simp: test_feedback_def dest!: tf_loop_facts)

section \<open>The cascade\<close>

definition reset_ignore :: "string list" where
  "reset_ignore = [''.git'', ''.venv'', ''venv'', ''__pycache__'', ''.pytest_cache'', ''.mypy_cache'',
     ''.ruff_cache'', ''runs'', ''node_modules'', ''dist'', ''build'']"

definition reset_ignored :: "path \<Rightarrow> bool" where
  "reset_ignored p = (top_of p \<in> set reset_ignore \<or> prefix ''.git'' (top_of p))"

definition reset_snapshot :: "tree \<Rightarrow> tree" where
  "reset_snapshot t = filter (\<lambda>(p, d). \<not> reset_ignored p) t"

text \<open>\<open>_restore_tree\<close> unlinks files but never a directory, so a path that is a directory in the tree at
  entry stays one, and the write there fails and is swallowed.\<close>

definition restore_tree :: "tree \<Rightarrow> tree \<Rightarrow> tree" where
  "restore_tree snap t =
     (let current = reset_snapshot t;
          kept = filter (\<lambda>(p, d). map_of current p = None \<or> map_of snap p \<noteq> None) t
      in fold (\<lambda>(rel, data) u.
            if map_of current rel = Some data then u
            else if list_ex (\<lambda>(q, e). below rel q) t \<or> list_ex (\<lambda>(q, e). below q rel) u then u
            else AList.update rel data u) snap kept)"

definition infra_reason_of :: "vresult option \<Rightarrow> string option" where
  "infra_reason_of r = (case r of None \<Rightarrow> None | Some v \<Rightarrow>
     if v_timeout v then Some ''verifier_timeout''
     else if v_resource v then Some ''verifier_resource_exceeded''
     else if v_infra v then Some ''verifier_infra_suspected''
     else None)"

text \<open>\<open>sha\<close> is the digest of the standard library.\<close>

definition signature_of :: "(string \<Rightarrow> string) \<Rightarrow> vresult option \<Rightarrow> string option" where
  "signature_of sha r = (case r of None \<Rightarrow> None | Some v \<Rightarrow>
     (case truthy_str (v_hash v) of
        Some h \<Rightarrow> Some h
      | None \<Rightarrow> if v_message v = [] then None else Some (sha (v_message v))))"

record cascade_result =
  cs_world :: world
  cs_output :: string
  cs_verified :: bool
  cs_stage :: int
  cs_iterations :: nat
  cs_stalled :: bool
  cs_infra :: "string option"
  cs_short :: bool
  cs_no_work :: bool

definition cs_init :: "world \<Rightarrow> string \<Rightarrow> nat \<Rightarrow> cascade_result" where
  "cs_init w out iters = \<lparr>cs_world = w, cs_output = out, cs_verified = False, cs_stage = -1,
     cs_iterations = iters, cs_stalled = False, cs_infra = None, cs_short = False, cs_no_work = False\<rparr>"

text \<open>The probe after a failed stage swallows an exception of the verifier.\<close>

definition probe_verdict :: "renv \<Rightarrow> world \<Rightarrow> vresult option \<times> world" where
  "probe_verdict env w = (case run_verify env w of
     None \<Rightarrow> (None, w\<lparr>w_checks := Suc (w_checks w)\<rparr>) | Some (r, w') \<Rightarrow> (Some r, w'))"

fun cascade_loop ::
  "(renv \<Rightarrow> string \<Rightarrow> string \<Rightarrow> int \<Rightarrow> world \<Rightarrow> stage_result option) \<Rightarrow> renv \<Rightarrow> (string \<Rightarrow> string) \<Rightarrow>
   tree option \<Rightarrow> string \<Rightarrow> int \<Rightarrow> string list \<Rightarrow> nat \<Rightarrow> string option \<Rightarrow> string \<Rightarrow> nat \<Rightarrow> world \<Rightarrow>
   cascade_result option" where
  "cascade_loop stage env sha baseline initial budget [] i prev prior iters w =
     Some ((cs_init w prior iters)\<lparr>cs_stalled := True\<rparr>)"
| "cascade_loop stage env sha baseline initial budget (a # stages) i prev prior iters w =
     (case stage env a initial budget w of
        None \<Rightarrow> None
      | Some r \<Rightarrow>
          let res = cs_init (st_world r) (st_output r) (iters + st_used r) in
          if st_verified r then Some (res\<lparr>cs_verified := True, cs_stage := int i\<rparr>)
          else
            (case probe_verdict env (st_world r) of
               (verdict, w1) \<Rightarrow>
                 let res1 = res\<lparr>cs_world := w1, cs_stalled := True\<rparr>; sig = signature_of sha verdict in
                 (case infra_reason_of verdict of
                    Some reason \<Rightarrow> Some (res1\<lparr>cs_infra := Some reason\<rparr>)
                  | None \<Rightarrow>
                      if sig \<noteq> None \<and> sig = prev then Some (res1\<lparr>cs_short := True\<rparr>)
                      else cascade_loop stage env sha baseline initial budget stages (Suc i) sig
                             (st_output r) (iters + st_used r)
                             (case baseline of None \<Rightarrow> w1
                              | Some snap \<Rightarrow> w1\<lparr>w_tree := restore_tree snap (w_tree w1)\<rparr>))))"

definition isolation_enabled :: "string option \<Rightarrow> bool" where
  "isolation_enabled v = (case v of None \<Rightarrow> True | Some s \<Rightarrow> s \<notin> {''0'', [], ''false''})"

definition cascade_execute ::
  "renv \<Rightarrow> (string \<Rightarrow> string) \<Rightarrow> string option \<Rightarrow> string list \<Rightarrow> int \<Rightarrow> string \<Rightarrow> world \<Rightarrow>
   cascade_result option" where
  "cascade_execute env sha isolate stages budget initial w =
     (if budget \<le> 0 then Some ((cs_init w [] 0)\<lparr>cs_no_work := True\<rparr>)
      else cascade_loop test_feedback env sha
             (if isolation_enabled isolate then Some (reset_snapshot (w_tree w)) else None)
             initial budget stages 0 None [] 0 w)"

definition make_cascade :: "string list \<Rightarrow> bool \<Rightarrow> string + string list" where
  "make_cascade stages has_verifier =
     (if stages = [] then Inl ''CascadeWorkflow needs at least one generator stage''
      else if \<not> has_verifier then Inl ''CascadeWorkflow requires a QualityVerifier (the escalation gate)''
      else Inr stages)"

section \<open>What the cascade guarantees\<close>

lemma probe_facts:
  "probe_verdict env w = (v, w') \<Longrightarrow> w_calls w' = w_calls w \<and> w_tree w' = w_tree w \<and>
   v = re_ver env (w_checks w' - 1) (w_tree w')"
  by (auto simp: probe_verdict_def run_verify_def split: option.splits)

context repair_stage
begin

lemma cascade_loop_facts:
  assumes "budget > 0"
  shows "cascade_loop stage env sha b ini budget stages i prev pr iters w = Some r \<Longrightarrow>
   \<not> cs_no_work r \<and>
   (cs_verified r \<longrightarrow> accepted env (cs_world r) \<and> int i \<le> cs_stage r \<and> cs_stage r < int (i + length stages) \<and>
      \<not> cs_stalled r \<and> cs_infra r = None \<and> \<not> cs_short r) \<and>
   (\<not> cs_verified r \<longrightarrow> cs_stalled r \<and> cs_stage r = -1 \<and> (cs_infra r = None \<or> \<not> cs_short r)) \<and>
   (\<forall>x. cs_infra r = Some x \<longrightarrow>
      infra_reason_of (re_ver env (w_checks (cs_world r) - 1) (w_tree (cs_world r))) = Some x) \<and>
   cs_iterations r \<le> iters + length stages * nat budget \<and>
   w_calls (cs_world r) + iters = w_calls w + cs_iterations r \<and>
   iters \<le> cs_iterations r \<and> (stages \<noteq> [] \<longrightarrow> iters < cs_iterations r)"
proof (induction stages arbitrary: i prev pr iters w)
  case (Cons a stages)
  then obtain s where s: "stage env a ini budget w = Some s" by (auto split: option.splits)
  note f = stage_bound [OF s] stage_calls [OF s] stage_tries [OF s assms] stage_sound [OF s]
  show ?case
  proof (cases "st_verified s")
    case True
    with Cons.prems s f show ?thesis by (auto simp: cs_init_def Let_def)
  next
    case False
    obtain v w1 where v: "probe_verdict env (st_world s) = (v, w1)" by fastforce
    note p = probe_facts [OF v]
    show ?thesis
    proof (cases "infra_reason_of v \<noteq> None \<or> (signature_of sha v \<noteq> None \<and> signature_of sha v = prev)")
      case True
      let ?res = "cs_init (st_world s) (st_output s) (iters + st_used s)"
      from True consider (infra) x where "infra_reason_of v = Some x"
        | (short) "infra_reason_of v = None" "signature_of sha v \<noteq> None" "signature_of sha v = prev" by auto
      then show ?thesis
      proof cases
        case infra
        then have "r = ?res\<lparr>cs_world := w1, cs_stalled := True, cs_infra := Some x\<rparr>"
          using Cons.prems s False v by (simp add: Let_def)
        then show ?thesis using f p infra by (simp add: cs_init_def)
      next
        case short
        then have "r = ?res\<lparr>cs_world := w1, cs_stalled := True, cs_short := True\<rparr>"
          using Cons.prems s False v by (simp add: Let_def)
        then show ?thesis using f p by (simp add: cs_init_def)
      qed
    next
      case esc: False
      let ?w2 = "case b of None \<Rightarrow> w1 | Some snap \<Rightarrow> w1\<lparr>w_tree := restore_tree snap (w_tree w1)\<rparr>"
      have "cascade_loop stage env sha b ini budget stages (Suc i) (signature_of sha v)
          (st_output s) (iters + st_used s) ?w2 = Some r"
        using Cons.prems s False v esc by (auto simp: Let_def)
      note ih = Cons.IH [OF this]
      moreover have "w_calls ?w2 = w_calls w + st_used s" using p f by (auto split: option.splits)
      ultimately show ?thesis using f(1,3) by auto
    qed
  qed
qed (auto simp: cs_init_def)

end

text \<open>C16: A cascade that returns has either run nothing, because its repair budget is not positive, or
  ended in one of two ways.  Success: some stage passed, and the last check that ran judged exactly the
  tree that is left to be good.  Failure: it is marked stalled, no stage is credited, and an
  infrastructure verdict is reported only when the last check gave it.  In every case the worker calls
  are the reported iterations, at most the budget times the stages, at least one if there is a stage.\<close>

theorem cascade_outcome:
  assumes "cascade_execute env sha mode stages budget ini w = Some r"
  shows "(if budget \<le> 0 then cs_no_work r \<and> \<not> cs_verified r \<and> \<not> cs_stalled r \<and> cs_world r = w
     else \<not> cs_no_work r \<and> cs_stalled r = (\<not> cs_verified r) \<and>
      (cs_verified r \<longrightarrow> accepted env (cs_world r) \<and> 0 \<le> cs_stage r \<and> cs_stage r < int (length stages) \<and>
         cs_infra r = None \<and> \<not> cs_short r) \<and>
      (\<not> cs_verified r \<longrightarrow> cs_stage r = -1) \<and>
      (\<forall>x. cs_infra r = Some x \<longrightarrow>
         infra_reason_of (re_ver env (w_checks (cs_world r) - 1) (w_tree (cs_world r))) = Some x) \<and>
      (stages \<noteq> [] \<longrightarrow> 0 < cs_iterations r)) \<and>
    cs_iterations r \<le> length stages * nat budget \<and> w_calls (cs_world r) = w_calls w + cs_iterations r"
proof (cases "budget \<le> 0")
  case True
  with assms show ?thesis by (auto simp: cascade_execute_def cs_init_def)
next
  case False
  then show ?thesis
    using assms feedback.cascade_loop_facts [of budget env sha _ ini stages 0 None "[]" 0 w r]
    by (auto simp: cascade_execute_def)
qed

text \<open>An instance: the first agent never fixes the tree, the second does.\<close>

definition sample_env :: renv where
  "sample_env = \<lparr>re_gen = (\<lambda>n a p t. Some (a, [(''out.py'', a)])),
     re_ver = (\<lambda>n t. Some \<lparr>v_ok = (t = [(''out.py'', ''strong'')]), v_message = ''1 failed'', v_returncode = 1,
       v_timeout = False, v_resource = False, v_infra = False, v_hash = None\<rparr>)\<rparr>"

theorem cascade_outcome_witness:
  "\<exists>r. cascade_execute sample_env id None [''cheap'', ''strong''] 1 ''task''
      \<lparr>w_tree = [], w_calls = 0, w_checks = 0\<rparr> = Some r \<and> cs_iterations r \<le> 2"
proof -
  have "cascade_execute sample_env id None [''cheap'', ''strong''] 1 ''task''
      \<lparr>w_tree = [], w_calls = 0, w_checks = 0\<rparr> =
    Some \<lparr>cs_world = \<lparr>w_tree = [(''out.py'', ''strong'')], w_calls = 2, w_checks = 3\<rparr>,
      cs_output = ''strong'', cs_verified = True, cs_stage = 1, cs_iterations = 2, cs_stalled = False,
      cs_infra = None, cs_short = False, cs_no_work = False\<rparr>"
    by code_simp
  from cascade_outcome [OF this] this show ?thesis by auto
qed

section \<open>The reset between stages\<close>

lemma reset_ignored_conflict: "conflict p q \<Longrightarrow> reset_ignored p = reset_ignored q"
  by (auto simp: conflict_def reset_ignored_def dest: below_top)

lemma map_of_reset_snapshot: "map_of (reset_snapshot t) p = (if reset_ignored p then None else map_of t p)"
  by (simp add: reset_snapshot_def map_of_filter_keys)

definition restore_step :: "tree \<Rightarrow> tree \<Rightarrow> path \<times> bytes \<Rightarrow> tree \<Rightarrow> tree" where
  "restore_step t current w u = (case w of (rel, data) \<Rightarrow>
     if map_of current rel = Some data then u
     else if list_ex (\<lambda>(q, e). below rel q) t \<or> list_ex (\<lambda>(q, e). below q rel) u then u
     else AList.update rel data u)"

lemma restore_run:
  assumes "distinct (map fst ws)"
    and "\<And>p d q. (p, d) \<in> set ws \<Longrightarrow> q \<in> fst ` set t \<Longrightarrow> \<not> below p q"
    and "\<And>p d q. (p, d) \<in> set ws \<Longrightarrow> q \<in> fst ` set u \<union> fst ` set ws \<Longrightarrow> \<not> below q p"
    and "\<And>p d. (p, d) \<in> set ws \<Longrightarrow> map_of cur p = Some d \<Longrightarrow> map_of u p = Some d"
  shows "map_of (fold (restore_step t cur) ws u) = map_of u ++ map_of ws"
  using assms
proof (induction ws arbitrary: u)
  case (Cons w ws)
  obtain p d where w: "w = (p, d)" by (cases w)
  let ?u = "restore_step t cur w u"
  have "\<forall>x \<in> set t. \<not> below p (fst x)" "\<forall>x \<in> set u. \<not> below (fst x) p"
    using Cons.prems(2) [of p d] Cons.prems(3) [of p d] by (simp_all add: w)
  then have "\<not> list_ex (\<lambda>(q, e). below p q) t" "\<not> list_ex (\<lambda>(q, e). below q p) u"
    by (auto simp: list_ex_iff)
  then have u: "map_of ?u = (map_of u)(p \<mapsto> d)"
    using Cons.prems(4) by (auto simp: restore_step_def w update_conv' fun_eq_iff)
  have keys: "fst ` set ?u \<subseteq> insert p (fst ` set u)"
    using arg_cong [OF u, of dom] by (simp add: dom_map_of_conv_image_fst)
  have "map_of (fold (restore_step t cur) ws ?u) = map_of ?u ++ map_of ws"
  proof (rule Cons.IH)
    show "distinct (map fst ws)" using Cons.prems(1) by simp
    show "\<not> below q x" if "(x, y) \<in> set ws" "q \<in> fst ` set ?u \<union> fst ` set ws" for x y q
      using Cons.prems(3) [of x y q] that keys by (auto simp: w)
    show "map_of ?u x = Some y" if "(x, y) \<in> set ws" "map_of cur x = Some y" for x y
    proof -
      have "x \<noteq> p" using Cons.prems(1) that(1) by (auto simp: w image_iff)
      then show ?thesis using Cons.prems(4) [of x y] that by (simp add: u)
    qed
  qed (use Cons.prems(2) in auto)
  moreover have "p \<notin> dom (map_of ws)" using Cons.prems(1) by (simp add: w dom_map_of_conv_image_fst)
  then have "(map_of u)(p \<mapsto> d) ++ map_of ws = map_of u ++ map_of (w # ws)"
    by (simp add: w map_add_upd_left)
  ultimately show ?case by (simp only: fold_simps u)
qed simp

lemma restore_tree_fold:
  "restore_tree snap t = fold (restore_step t (reset_snapshot t)) snap
     (filter (\<lambda>(p, d). map_of (reset_snapshot t) p = None \<or> map_of snap p \<noteq> None) t)"
  unfolding restore_tree_def Let_def by (intro fold_cong) (auto simp: restore_step_def)

text \<open>Restoring the baseline between two stages brings back every tracked file with its baseline
  bytes, removes every tracked file that the failed stage added and leaves the ignored trees alone,
  provided the failed stage did not turn a baseline file into a directory.\<close>

theorem restore_tree_exact:
  assumes "tree_ok t0" "tree_ok t"
    and "\<And>p q. p \<in> fst ` set (reset_snapshot t0) \<Longrightarrow> q \<in> fst ` set t \<Longrightarrow> \<not> below p q"
  shows "map_of (restore_tree (reset_snapshot t0) t) p = (if reset_ignored p then map_of t p else map_of t0 p)"
proof -
  let ?snap = "reset_snapshot t0" and ?cur = "reset_snapshot t"
  let ?kept = "filter (\<lambda>(p, d). map_of ?cur p = None \<or> map_of ?snap p \<noteq> None) t"
  have kept: "map_of ?kept q = (if map_of ?cur q = None \<or> map_of ?snap q \<noteq> None then map_of t q else None)" for q
    by (rule map_of_filter_keys)
  have ok: "tree_ok ?snap" using assms(1) by (simp add: reset_snapshot_def tree_ok_filter)
  have "map_of (fold (restore_step t ?cur) ?snap ?kept) = map_of ?kept ++ map_of ?snap"
  proof (rule restore_run)
    show "distinct (map fst ?snap)" by (rule tree_ok_distinct [OF ok])
    show "\<not> below a q" if "(a, d) \<in> set ?snap" "q \<in> fst ` set t" for a d q
      using assms(3) that by force
    show "map_of ?kept a = Some d" if "(a, d) \<in> set ?snap" "map_of ?cur a = Some d" for a d
      using that map_of_is_SomeI [OF tree_ok_distinct [OF ok] that(1)]
      unfolding kept by (auto simp: map_of_reset_snapshot split: if_splits)
    show "\<not> below q a" if "(a, d) \<in> set ?snap" "q \<in> fst ` set ?kept \<union> fst ` set ?snap" for a d q
    proof (cases "q \<in> fst ` set ?snap")
      case True
      then show ?thesis
        using tree_ok_conflict_free [OF ok True, of a] that(1) by (force simp: conflict_def)
    next
      case False
      then have "map_of ?kept q \<noteq> None" "map_of ?snap q = None"
        using that(2) False unfolding Un_iff keys_map_of by blast+
      then have "reset_ignored q" unfolding kept by (auto simp: map_of_reset_snapshot split: if_splits)
      moreover have "\<not> reset_ignored a" using that(1) by (auto simp: reset_snapshot_def)
      ultimately show ?thesis using reset_ignored_conflict [of q a] by (auto simp: conflict_def)
    qed
  qed
  then have "map_of (restore_tree ?snap t) p = (map_of ?kept ++ map_of ?snap) p"
    by (simp only: restore_tree_fold)
  then show ?thesis unfolding map_add_def kept by (auto simp: map_of_reset_snapshot split: option.splits)
qed

theorem restore_tree_exact_witness:
  "map_of (restore_tree (reset_snapshot [(''a.py'', ''old''), (''runs/1'', ''log'')])
     [(''a.py'', ''broken''), (''b.py'', ''new''), (''runs/2'', ''log2'')]) ''a.py'' = Some ''old''"
proof -
  let ?old = "[(''a.py'', ''old''), (''runs/1'', ''log'')]"
    and ?t = "[(''a.py'', ''broken''), (''b.py'', ''new''), (''runs/2'', ''log2'')]"
  have ok: "tree_ok ?old" "tree_ok ?t" by (simp_all add: tree_ok_def below_def)
  have ig: "\<not> reset_ignored ''a.py''" "reset_ignored ''runs/1''"
    by (simp_all add: reset_ignored_def top_of_def reset_ignore_def)
  then have snap: "reset_snapshot ?old = [(''a.py'', ''old'')]" by (simp add: reset_snapshot_def)
  have "map_of (restore_tree (reset_snapshot ?old) ?t) ''a.py''
      = (if reset_ignored ''a.py'' then map_of ?t ''a.py'' else map_of ?old ''a.py'')"
    by (rule restore_tree_exact [OF ok]) (auto simp: snap below_def)
  then show ?thesis by (simp only: ig if_False) simp
qed

text \<open>Without that proviso the baseline file is lost: the unlinked package leaves its directory.\<close>

lemma restore_tree_loses_file:
  "restore_tree [(''mod.py'', ''old'')] [(''mod.py/__init__.py'', ''new'')] = []"
  by code_simp

section \<open>Plan after trial\<close>

text \<open>The master workflow is a parameter: its output, its verified and approved flags and its iterations.\<close>

record master_result =
  mr_world :: world
  mr_output :: string
  mr_verified :: bool
  mr_approved :: bool
  mr_used :: nat

record pat_result =
  pr_world :: world
  pr_output :: string
  pr_verified :: bool
  pr_approved :: bool
  pr_stalled :: bool
  pr_stage :: int
  pr_iterations :: nat
  pr_infra :: "string option"

definition escalation_prompt :: "string \<Rightarrow> string \<Rightarrow> string \<Rightarrow> string" where
  "escalation_prompt initial direct message =
     initial @ nl @ nl @ ''## Prior direct attempt (failed verifier)'' @ nl @ direct @ nl @ nl @
     ''## Verifier error'' @ nl @ message @ nl @ nl @
     ''Plan and execute the work needed to make the verifier pass. '' @
     ''Treat the prior attempt as one data point; you may reuse or '' @ ''discard any of it.''"

definition make_pat :: "bool \<Rightarrow> bool \<Rightarrow> bool \<Rightarrow> string + unit" where
  "make_pat has_verifier has_direct has_master =
     (if \<not> has_verifier then Inl ''PatWorkflow requires a QualityVerifier''
      else if \<not> has_direct then Inl ''PatWorkflow needs a direct_generator for Stage 1.''
      else if \<not> has_master then Inl ''PatWorkflow needs a master_workflow for the escalation stage.''
      else Inr ())"

definition pat_execute ::
  "renv \<Rightarrow> (string \<Rightarrow> world \<Rightarrow> master_result option) \<Rightarrow> string \<Rightarrow> string \<Rightarrow> world \<Rightarrow> pat_result option" where
  "pat_execute env master direct initial w =
     (case run_agent env direct initial w of
        None \<Rightarrow> None
      | Some (out, w1) \<Rightarrow>
     (case run_verify env w1 of
        None \<Rightarrow> None
      | Some (r, w2) \<Rightarrow>
          let res = \<lparr>pr_world = w2, pr_output = out, pr_verified = False, pr_approved = False,
                     pr_stalled = False, pr_stage = 0, pr_iterations = 1, pr_infra = None\<rparr> in
          if v_ok r then Some (res\<lparr>pr_verified := True, pr_approved := True\<rparr>)
          else if v_timeout r \<or> v_resource r
          then Some (res\<lparr>pr_infra := Some (if v_timeout r then ''verifier_timeout''
                       else ''verifier_resource_exceeded''), pr_stalled := True\<rparr>)
          else (case master (escalation_prompt initial out (v_message r)) w2 of
                  None \<Rightarrow> None
                | Some m \<Rightarrow>
                    (case (if mr_verified m then Some (True, mr_world m)
                           else case run_verify env (mr_world m) of
                                  None \<Rightarrow> None | Some (r2, w3) \<Rightarrow> Some (v_ok r2, w3)) of
                       None \<Rightarrow> None
                     | Some (ver, w3) \<Rightarrow>
                         Some (res\<lparr>pr_world := w3, pr_output := mr_output m, pr_verified := ver,
                           pr_approved := ver \<or> mr_approved m, pr_stalled := \<not> (ver \<or> mr_approved m),
                           pr_stage := 1, pr_iterations := 1 + mr_used m\<rparr>)))))"

text \<open>Plan after trial claims a verified result only for a tree whose last check passed, given that
  the inner workflow's own claim is honest; the planner runs exactly when the direct attempt failed
  for a reason that is neither a timeout nor a resource kill; and a result is either approved or
  stalled, never both.\<close>

theorem pat_outcome:
  assumes "pat_execute env master direct ini w = Some r"
    and "\<And>p w0 m. master p w0 = Some m \<Longrightarrow> mr_verified m \<Longrightarrow> accepted env (mr_world m)"
  shows "(pr_verified r \<longrightarrow> accepted env (pr_world r) \<and> pr_approved r) \<and>
    pr_stalled r = (\<not> pr_approved r) \<and>
    (\<exists>out w1 v w2. run_agent env direct ini w = Some (out, w1) \<and> run_verify env w1 = Some (v, w2) \<and>
       (pr_stage r = 1) = (\<not> v_ok v \<and> \<not> v_timeout v \<and> \<not> v_resource v) \<and>
       (pr_infra r \<noteq> None) = (\<not> v_ok v \<and> (v_timeout v \<or> v_resource v)) \<and>
       (pr_stage r = 0 \<longrightarrow> pr_world r = w2 \<and> pr_output r = out))"
proof -
  from assms(1) obtain out w1 where a: "run_agent env direct ini w = Some (out, w1)"
    by (auto simp: pat_execute_def split: option.splits)
  with assms(1) obtain v w2 where v: "run_verify env w1 = Some (v, w2)"
    by (auto simp: pat_execute_def split: option.splits)
  note acc = run_verify_Some [OF v]
  have "(pr_verified r \<longrightarrow> accepted env (pr_world r) \<and> pr_approved r) \<and> pr_stalled r = (\<not> pr_approved r) \<and>
       (pr_stage r = 1) = (\<not> v_ok v \<and> \<not> v_timeout v \<and> \<not> v_resource v) \<and>
       (pr_infra r \<noteq> None) = (\<not> v_ok v \<and> (v_timeout v \<or> v_resource v)) \<and>
       (pr_stage r = 0 \<longrightarrow> pr_world r = w2 \<and> pr_output r = out)"
  proof (cases "v_ok v \<or> v_timeout v \<or> v_resource v")
    case True
    with assms(1) a v acc show ?thesis by (auto simp: pat_execute_def Let_def split: if_splits)
  next
    case False
    then obtain m where m: "master (escalation_prompt ini out (v_message v)) w2 = Some m"
      using assms(1) a v by (auto simp: pat_execute_def Let_def split: option.splits)
    show ?thesis
    proof (cases "mr_verified m")
      case True
      with False assms(1) a v m assms(2) [OF m] show ?thesis by (auto simp: pat_execute_def Let_def)
    next
      case nv: False
      then obtain r2 w3 where r2: "run_verify env (mr_world m) = Some (r2, w3)"
        using False assms(1) a v m by (auto simp: pat_execute_def Let_def split: option.splits)
      with False assms(1) a v m nv run_verify_Some [OF r2] show ?thesis
        by (auto simp: pat_execute_def Let_def)
    qed
  qed
  with a v show ?thesis by blast
qed

theorem pat_outcome_witness:
  "\<exists>r. pat_execute sample_env (\<lambda>p w. None) ''strong'' ''task'' \<lparr>w_tree = [], w_calls = 0, w_checks = 0\<rparr> = Some r
     \<and> accepted sample_env (pr_world r)"
proof -
  have run: "pat_execute sample_env (\<lambda>p w. None) ''strong'' ''task'' \<lparr>w_tree = [], w_calls = 0, w_checks = 0\<rparr> =
     Some \<lparr>pr_world = \<lparr>w_tree = [(''out.py'', ''strong'')], w_calls = 1, w_checks = 1\<rparr>, pr_output = ''strong'',
       pr_verified = True, pr_approved = True, pr_stalled = False, pr_stage = 0, pr_iterations = 1,
       pr_infra = None\<rparr>"
    by code_simp
  with pat_outcome [OF run] show ?thesis by simp
qed

end
