(* ===== verification/Adversarial.thy ===== *)
theory Adversarial
  imports Repair_Loops
begin

text \<open>
  \<^verbatim>\<open>agy_orchestrator/workflows/adversarial.py\<close>: a generator whose output a verifier or, without
  one, a critic judges.  Generator, critic and verifier are parameters as in \<^verbatim>\<open>Repair_Loops\<close>; the
  generator also sees its rotation offset.  One iteration is \<open>adv_iter\<close>, which goes on, stops with
  the output, or is left by an exception.
\<close>

section \<open>The critic's approval\<close>

fun skip_past :: "string \<Rightarrow> string \<Rightarrow> string option" where
  "skip_past m [] = (if m = [] then Some [] else None)"
| "skip_past m (c # cs) =
     (if prefix m (py_lower (c # cs)) then Some (drop (length m) (c # cs)) else skip_past m cs)"

lemma skip_past_length: "skip_past m s = Some r \<Longrightarrow> length r \<le> length s"
  by (induction m s rule: skip_past.induct) (auto split: if_splits)

text \<open>\<open>_THINK_RE.sub("", s)\<close>: drop every closed think block, leftmost and shortest first.\<close>

function strip_think :: "string \<Rightarrow> string" where
  "strip_think [] = []"
| "strip_think (c # cs) =
     (if prefix ''<think>'' (py_lower (c # cs))
      then case skip_past ''</think>'' (drop 7 (c # cs)) of
             Some rest \<Rightarrow> strip_think rest
           | None \<Rightarrow> c # strip_think cs
      else c # strip_think cs)"
  by pat_completeness auto
termination
  by (relation "measure length") (auto dest!: skip_past_length)

text \<open>\<open>[ln for ln in s.splitlines() if ln.strip()]\<close>; an empty line between the two characters of a CRLF
  is dropped with the other blank lines.\<close>

definition nonblank_lines :: "string \<Rightarrow> string list" where
  "nonblank_lines s = filter (\<lambda>l. py_strip l \<noteq> []) (split_lines [] s)"

definition trailing :: "char \<Rightarrow> bool" where
  "trailing c = (py_space c \<or> c \<in> set ''.!?:;,'')"

definition is_approved :: "string \<Rightarrow> bool" where
  "is_approved feedback =
     (let stripped = py_strip (strip_think feedback) in
      if py_upper stripped = ''APPROVED'' then True
      else let lines = nonblank_lines stripped in
        if lines = [] then False
        else py_upper (rev (dropWhile trailing (rev (py_strip (last lines))))) = ''APPROVED'')"

fun collapse_spaces :: "string \<Rightarrow> string" where
  "collapse_spaces [] = []"
| "collapse_spaces (c # cs) =
     (if py_space c
      then if cs \<noteq> [] \<and> py_space (hd cs) then collapse_spaces cs else CHR '' '' # collapse_spaces cs
      else c # collapse_spaces cs)"

definition norm_feedback :: "string \<Rightarrow> string" where
  "norm_feedback s = collapse_spaces (py_lower (py_strip (strip_think s)))"

section \<open>State\<close>

record adv_cfg =
  ac_max :: int
  ac_verifier :: bool
  ac_diff_only :: bool
  ac_preamble :: string
  ac_requirement :: "string option"
  ac_chain :: nat
  ac_rotate_env :: "string option"

record adv_env =
  ae_gen :: "nat \<Rightarrow> int \<Rightarrow> string \<Rightarrow> tree \<Rightarrow> (string \<times> tree) option"
  ae_critic :: "nat \<Rightarrow> string \<Rightarrow> tree \<Rightarrow> (string option \<times> tree) option"
  ae_ver :: renv

datatype adv_event =
    A_started nat
  | A_completed nat string bool bool
  | A_rotation nat nat

record adv_state =
  as_world :: world
  as_prompt :: string
  as_output :: string
  as_feedback :: string
  as_prev :: "string option"
  as_used :: nat
  as_approved :: bool
  as_verified :: bool
  as_stalled :: bool
  as_infra :: "string option"
  as_suspected :: nat
  as_fails :: nat
  as_rotations :: nat
  as_offset :: int
  as_log :: "adv_event list"

definition rotate_after :: "string option \<Rightarrow> int" where
  "rotate_after v = (case v of None \<Rightarrow> 2 | Some s \<Rightarrow> (case py_int s of None \<Rightarrow> 2 | Some n \<Rightarrow> max 1 n))"

definition iteration_outcome :: "adv_state \<Rightarrow> string" where
  "iteration_outcome s =
     (if as_verified s then ''verified''
      else if as_approved s then ''approved''
      else case as_infra s of
             Some reason \<Rightarrow> reason
           | None \<Rightarrow> if as_stalled s then ''stalled'' else ''continue'')"

definition log_event :: "adv_event \<Rightarrow> adv_state \<Rightarrow> adv_state" where
  "log_event e s = s\<lparr>as_log := as_log s @ [e]\<rparr>"

definition completed :: "nat \<Rightarrow> adv_state \<Rightarrow> adv_state" where
  "completed i s = log_event (A_completed i (iteration_outcome s) (as_verified s) (as_approved s)) s"

section \<open>Prompts\<close>

definition fix_prompt :: "string \<Rightarrow> string \<Rightarrow> string \<Rightarrow> string" where
  "fix_prompt initial output message =
     initial @ nl @ nl @ ''Your last output:'' @ nl @ output @ nl @ nl @
     ''It FAILED verification with this error:'' @ nl @ message @ nl @ nl @
     ''Fix ONLY what the error indicates and output the complete corrected '' @
     ''version. Re-read the requirement for edge cases; keep everything that '' @
     ''already works unchanged.''"

definition review_instructions :: string where
  "review_instructions =
     ''CRITICAL REVIEW INSTRUCTIONS:'' @ nl @
     ''1. CORRECTNESS: Verify the output fully and accurately satisfies the requirement. '' @
     ''Look for bugs, logical errors, and any identifiers, signatures, or interfaces that '' @
     ''must match but don't (e.g. names shared across files, function signatures, API contracts).'' @ nl @
     ''2. EXCELLENCE: Hold the output to a high, domain-appropriate quality bar for whatever '' @
     ''the task actually is - code should be clear, robust, and idiomatic; writing should be '' @
     ''precise and well-structured; any other deliverable should meet professional standards '' @
     ''for its kind. Judge against the task's own goals, not a fixed template.'' @ nl @
     ''3. CONVERGENCE: If the output fully meets the requirement with no defects, you MUST reply '' @
     ''exactly with 'APPROVED'. Do not get stuck in an endless loop of minor subjective nitpicks. '' @
     ''Reward work that is correct and complete.'' @ nl @
     ''If it meets all requirements with no defects, reply exactly with 'APPROVED'. '' @
     ''Otherwise, provide specific, actionable changes needed.''"

definition critic_prompt :: "adv_cfg \<Rightarrow> string \<Rightarrow> string \<Rightarrow> string" where
  "critic_prompt cfg initial output =
     ac_preamble cfg @
     ''Please review the following output against the original requirement.'' @ nl @
     ''Original Requirement:'' @ nl @
     (case truthy_str (ac_requirement cfg) of None \<Rightarrow> initial | Some r \<Rightarrow> r) @ nl @ nl @
     ''Generated Output:'' @ nl @ output @ nl @ nl @ review_instructions"

definition update_prompt :: "adv_cfg \<Rightarrow> string \<Rightarrow> string \<Rightarrow> string \<Rightarrow> string" where
  "update_prompt cfg initial output feedback =
     initial @ nl @ nl @ ''Your last output:'' @ nl @ output @ nl @ nl @
     ''Critic Feedback:'' @ nl @ feedback @ nl @ nl @
     (if ac_diff_only cfg
      then ''Change ONLY what the critique explicitly named and leave '' @
           ''everything else byte-identical. Do not rewrite, reformat, or '' @
           ''touch any part the critique did not mention. Output the full '' @ ''updated version.''
      else ''Please carefully update the output based on this feedback.'')"

section \<open>One iteration\<close>

datatype adv_next = Go adv_state | Stop adv_state | Raise adv_state

definition generate :: "adv_env \<Rightarrow> adv_state \<Rightarrow> adv_state option" where
  "generate env s =
     (let w = as_world s in
      case ae_gen env (w_calls w) (as_offset s) (as_prompt s) (w_tree w) of
        None \<Rightarrow> None
      | Some (out, t) \<Rightarrow>
          Some (s\<lparr>as_output := out, as_world := w\<lparr>w_tree := t, w_calls := Suc (w_calls w)\<rparr>\<rparr>))"

text \<open>The rotation to the next provider of the generator's chain.\<close>

definition rotate_generator :: "adv_cfg \<Rightarrow> nat \<Rightarrow> adv_state \<Rightarrow> adv_state" where
  "rotate_generator cfg i s =
     (let s1 = s\<lparr>as_fails := Suc (as_fails s)\<rparr> in
      if ac_chain cfg > 1 \<and> as_rotations s1 < ac_chain cfg - 1
         \<and> int (as_fails s1) \<ge> rotate_after (ac_rotate_env cfg) \<and> int i + 1 < ac_max cfg
      then log_event (A_rotation (Suc i) (Suc (as_rotations s1)))
             (s1\<lparr>as_rotations := Suc (as_rotations s1), as_fails := 0, as_offset := as_offset s1 + 1\<rparr>)
      else s1)"

definition more_to_come :: "adv_cfg \<Rightarrow> nat \<Rightarrow> adv_state \<Rightarrow> adv_state" where
  "more_to_come cfg i s = (if int i + 1 < ac_max cfg then completed (Suc i) s else s)"

definition verifier_gate :: "adv_cfg \<Rightarrow> adv_env \<Rightarrow> string \<Rightarrow> nat \<Rightarrow> adv_state \<Rightarrow> adv_next" where
  "verifier_gate cfg env initial i s =
     (case run_verify (ae_ver env) (as_world s) of
        None \<Rightarrow> Raise s
      | Some (r, w) \<Rightarrow>
          let s1 = s\<lparr>as_world := w\<rparr> in
          if v_ok r then Stop (completed (Suc i) (s1\<lparr>as_verified := True, as_approved := True\<rparr>))
          else if v_timeout r \<or> v_resource r
          then Stop (completed (Suc i) (s1\<lparr>as_infra :=
                 Some (if v_timeout r then ''verifier_timeout'' else ''verifier_resource_exceeded'')\<rparr>))
          else if v_infra r \<and> as_suspected s1 \<ge> 1
          then Stop (completed (Suc i) (s1\<lparr>as_infra := Some ''verifier_infra_suspected''\<rparr>))
          else
            let s2 = (if v_infra r then s1\<lparr>as_suspected := Suc (as_suspected s1)\<rparr> else s1);
                s3 = rotate_generator cfg i s2
            in Go (more_to_come cfg i
                    (s3\<lparr>as_prompt := fix_prompt initial (as_output s3) (v_message r)\<rparr>)))"

definition critic_gate :: "adv_cfg \<Rightarrow> adv_env \<Rightarrow> string \<Rightarrow> nat \<Rightarrow> adv_state \<Rightarrow> adv_next" where
  "critic_gate cfg env initial i s =
     (case ae_critic env i (critic_prompt cfg initial (as_output s)) (w_tree (as_world s)) of
        None \<Rightarrow> Raise s
      | Some (reply, t) \<Rightarrow>
          let feedback = (case reply of None \<Rightarrow> [] | Some f \<Rightarrow> f);
              s1 = s\<lparr>as_feedback := feedback, as_world := (as_world s)\<lparr>w_tree := t\<rparr>\<rparr>;
              norm = norm_feedback feedback
          in if is_approved feedback then Stop (completed (Suc i) (s1\<lparr>as_approved := True\<rparr>))
             else if as_prev s1 = Some norm then Stop (completed (Suc i) (s1\<lparr>as_stalled := True\<rparr>))
             else Go (more_to_come cfg i
                    (s1\<lparr>as_prev := Some norm, as_prompt := update_prompt cfg initial (as_output s1) feedback\<rparr>)))"

definition adv_iter :: "adv_cfg \<Rightarrow> adv_env \<Rightarrow> string \<Rightarrow> nat \<Rightarrow> adv_state \<Rightarrow> adv_next" where
  "adv_iter cfg env initial i s =
     (let s0 = log_event (A_started (Suc i)) (s\<lparr>as_used := Suc i\<rparr>) in
      case generate env s0 of
        None \<Rightarrow> Raise s0
      | Some s1 \<Rightarrow> if ac_verifier cfg then verifier_gate cfg env initial i s1
                  else critic_gate cfg env initial i s1)"

fun adv_loop :: "adv_cfg \<Rightarrow> adv_env \<Rightarrow> string \<Rightarrow> nat \<Rightarrow> nat \<Rightarrow> adv_state \<Rightarrow> adv_state \<times> string option" where
  "adv_loop cfg env initial i 0 s =
     (let s1 = (if ac_max cfg > 0 then completed (nat (ac_max cfg)) s else s) in (s1, Some (as_output s1)))"
| "adv_loop cfg env initial i (Suc n) s =
     (case adv_iter cfg env initial i s of
        Go s1 \<Rightarrow> adv_loop cfg env initial (Suc i) n s1
      | Stop s1 \<Rightarrow> (s1, Some (as_output s1))
      | Raise s1 \<Rightarrow> (s1, None))"

definition adv_init :: "string \<Rightarrow> int \<Rightarrow> world \<Rightarrow> adv_state" where
  "adv_init initial offset w = \<lparr>as_world = w, as_prompt = initial, as_output = [], as_feedback = [],
     as_prev = None, as_used = 0, as_approved = False, as_verified = False, as_stalled = False,
     as_infra = None, as_suspected = 0, as_fails = 0, as_rotations = 0, as_offset = offset, as_log = []\<rparr>"

definition adv_execute ::
  "adv_cfg \<Rightarrow> adv_env \<Rightarrow> string \<Rightarrow> int \<Rightarrow> world \<Rightarrow> adv_state \<times> string option" where
  "adv_execute cfg env initial offset w =
     adv_loop cfg env initial 0 (nat (ac_max cfg)) (adv_init initial offset w)"

section \<open>The loop's invariant\<close>

text \<open>Between iterations no verdict is set.\<close>

definition undecided :: "adv_state \<Rightarrow> bool" where
  "undecided s = (\<not> as_approved s \<and> \<not> as_verified s \<and> \<not> as_stalled s \<and> as_infra s = None)"

definition within_bounds :: "adv_cfg \<Rightarrow> adv_state \<Rightarrow> bool" where
  "within_bounds cfg s = (as_suspected s \<le> 1 \<and> as_rotations s \<le> ac_chain cfg - 1)"

lemma log_event_simps [simp]:
  "as_world (log_event e s) = as_world s" "as_approved (log_event e s) = as_approved s"
  "as_verified (log_event e s) = as_verified s" "as_stalled (log_event e s) = as_stalled s"
  "as_infra (log_event e s) = as_infra s" "as_suspected (log_event e s) = as_suspected s"
  "as_rotations (log_event e s) = as_rotations s" "as_used (log_event e s) = as_used s"
  "as_feedback (log_event e s) = as_feedback s" "as_prev (log_event e s) = as_prev s"
  "as_output (log_event e s) = as_output s"
  by (simp_all add: log_event_def)

lemma frame_simps [simp]:
  "undecided (log_event e s) = undecided s" "within_bounds cfg (log_event e s) = within_bounds cfg s"
  by (simp_all add: undecided_def within_bounds_def)

lemma generate_facts:
  assumes "generate env s = Some s'"
  shows "undecided s' = undecided s \<and> within_bounds cfg s' = within_bounds cfg s \<and> as_used s' = as_used s \<and>
    w_calls (as_world s') = Suc (w_calls (as_world s)) \<and> as_suspected s' = as_suspected s"
  using assms by (auto simp: generate_def Let_def undecided_def within_bounds_def split: option.splits)

lemma rotate_facts:
  "undecided s \<Longrightarrow> undecided (rotate_generator cfg i s)"
  "within_bounds cfg s \<Longrightarrow> within_bounds cfg (rotate_generator cfg i s)"
  "as_used (rotate_generator cfg i s) = as_used s" "as_world (rotate_generator cfg i s) = as_world s"
  by (auto simp: rotate_generator_def Let_def undecided_def within_bounds_def)

lemma verifier_gate_facts:
  assumes "undecided s" "within_bounds cfg s" "ac_verifier cfg"
  shows "case verifier_gate cfg env ini i s of
      Go s' \<Rightarrow> undecided s' \<and> within_bounds cfg s' \<and> as_used s' = as_used s
        \<and> w_calls (as_world s') = w_calls (as_world s)
    | Stop s' \<Rightarrow> \<not> undecided s' \<and> within_bounds cfg s' \<and> as_used s' = as_used s
        \<and> w_calls (as_world s') = w_calls (as_world s)
    | Raise s' \<Rightarrow> s' = s"
proof (cases "run_verify (ae_ver env) (as_world s)")
  case None
  then show ?thesis by (simp add: verifier_gate_def)
next
  case (Some rw)
  obtain r w where rw: "rw = (r, w)" by (cases rw)
  note v = run_verify_Some [OF Some [unfolded rw]]
  have last: "re_ver (ae_ver env) (w_checks w - 1) (w_tree w) = Some r"
    using Some by (auto simp: rw run_verify_def split: option.splits)
  consider "v_ok r" | "\<not> v_ok r" "v_timeout r \<or> v_resource r"
    | "\<not> v_ok r" "\<not> (v_timeout r \<or> v_resource r)" "v_infra r" "as_suspected s \<ge> 1"
    | "\<not> v_ok r" "\<not> (v_timeout r \<or> v_resource r)" "\<not> (v_infra r \<and> as_suspected s \<ge> 1)"
    by auto
  then show ?thesis
  proof cases
    case 1
    then show ?thesis using Some rw v assms
      by (simp add: verifier_gate_def Let_def completed_def  undecided_def within_bounds_def)
  next
    case 2
    then show ?thesis using Some rw v assms last
      by (auto simp: verifier_gate_def Let_def completed_def  undecided_def within_bounds_def
          infra_reason_of_def)
  next
    case 3
    then show ?thesis using Some rw v assms last
      by (auto simp: verifier_gate_def Let_def completed_def  undecided_def within_bounds_def
          infra_reason_of_def)
  next
    case 4
    let ?s2 = "if v_infra r then s\<lparr>as_world := w, as_suspected := Suc (as_suspected s)\<rparr> else s\<lparr>as_world := w\<rparr>"
    have 2: "undecided ?s2" "within_bounds cfg ?s2" "as_used ?s2 = as_used s" "as_world ?s2 = w"
      using assms(1,2) 4 by (auto simp: undecided_def within_bounds_def)
    have "verifier_gate cfg env ini i s = Go (more_to_come cfg i ((rotate_generator cfg i ?s2)\<lparr>as_prompt :=
        fix_prompt ini (as_output (rotate_generator cfg i ?s2)) (v_message r)\<rparr>))"
      using 4 Some rw by (auto simp: verifier_gate_def Let_def)
    moreover have "undecided (t\<lparr>as_prompt := x\<rparr>) = undecided t"
      "within_bounds cfg (t\<lparr>as_prompt := x\<rparr>) = within_bounds cfg t" for t x
      by (simp_all add: undecided_def within_bounds_def)
    ultimately show ?thesis
      using rotate_facts(1) [OF 2(1)] rotate_facts(2) [OF 2(2)] 2(3,4) v
      by (simp add: more_to_come_def completed_def rotate_facts)
  qed
qed

lemma critic_gate_facts:
  assumes "undecided s" "within_bounds cfg s" "\<not> ac_verifier cfg"
  shows "case critic_gate cfg env ini i s of
      Go s' \<Rightarrow> undecided s' \<and> within_bounds cfg s' \<and> as_used s' = as_used s
        \<and> w_calls (as_world s') = w_calls (as_world s)
    | Stop s' \<Rightarrow> \<not> undecided s' \<and> within_bounds cfg s' \<and> as_used s' = as_used s
        \<and> w_calls (as_world s') = w_calls (as_world s)
    | Raise s' \<Rightarrow> s' = s"
  using assms
  by (auto simp: critic_gate_def Let_def completed_def more_to_come_def  undecided_def
      within_bounds_def split: option.splits)

lemma adv_iter_facts:
  assumes "undecided s" "within_bounds cfg s"
  shows "case adv_iter cfg env ini i s of
      Go s' \<Rightarrow> undecided s' \<and> within_bounds cfg s' \<and> as_used s' = Suc i
        \<and> w_calls (as_world s') = Suc (w_calls (as_world s))
    | Stop s' \<Rightarrow> \<not> undecided s' \<and> within_bounds cfg s' \<and> as_used s' = Suc i
        \<and> w_calls (as_world s') = Suc (w_calls (as_world s))
    | Raise s' \<Rightarrow> undecided s' \<and> within_bounds cfg s' \<and> as_used s' = Suc i"
proof -
  let ?s0 = "log_event (A_started (Suc i)) (s\<lparr>as_used := Suc i\<rparr>)"
  have 0: "undecided ?s0" "within_bounds cfg ?s0"
    using assms by (simp_all add: undecided_def within_bounds_def)
  show ?thesis
  proof (cases "generate env ?s0")
    case None
    then show ?thesis using 0 by (simp add: adv_iter_def Let_def)
  next
    case (Some s1)
    note g = generate_facts [OF Some, where cfg = cfg]
    have 1: "undecided s1" "within_bounds cfg s1" using g 0 by simp_all
    show ?thesis
      using Some g 1 verifier_gate_facts [OF 1, where env = env and ini = ini and i = i] critic_gate_facts [OF 1, where env = env and ini = ini and i = i]
      by (cases "ac_verifier cfg") (auto simp: adv_iter_def Let_def split: adv_next.splits)
  qed
qed

lemma adv_loop_facts:
  "adv_loop cfg env ini i n s = (s', res) \<Longrightarrow> undecided s \<Longrightarrow> within_bounds cfg s \<Longrightarrow> as_used s = i \<Longrightarrow>
   within_bounds cfg s' \<and> as_used s' \<le> i + n \<and>
   (res = None \<longrightarrow> undecided s') \<and>
   (\<forall>out. res = Some out \<longrightarrow> out = as_output s' \<and>
      w_calls (as_world s') + i = w_calls (as_world s) + as_used s' \<and>
      (undecided s' \<longrightarrow> as_used s' = i + n))"
proof (induction n arbitrary: i s)
  case 0
  then show ?case by (auto simp: Let_def completed_def)
next
  case (Suc n)
  note it = adv_iter_facts [OF Suc.prems(2,3), where env = env and ini = ini and i = i]
  show ?case
  proof (cases "adv_iter cfg env ini i s")
    case (Go s1)
    with it have g: "undecided s1" "within_bounds cfg s1" "as_used s1 = Suc i"
      "w_calls (as_world s1) = Suc (w_calls (as_world s))" by simp_all
    from Suc.prems(1) Go have "adv_loop cfg env ini (Suc i) n s1 = (s', res)" by simp
    from Suc.IH [OF this g(1-3)] g(4) show ?thesis by auto
  next
    case (Stop s1)
    with it Suc.prems show ?thesis by auto
  next
    case (Raise s1)
    with it Suc.prems show ?thesis by auto
  qed
qed

section \<open>The reviews and the verdict\<close>

text \<open>\<open>reviewed\<close>: review \<open>i\<close> of the output \<open>out\<close> answered \<open>f\<close> and left the tree \<open>t\<close>.  A run without a
  verifier is judged by the list of its critiques: none but the last approves, no two neighbours before
  the last are the same after normalisation, and the verdict is read off the last two.\<close>

definition reviewed :: "adv_cfg \<Rightarrow> adv_env \<Rightarrow> string \<Rightarrow> nat \<Rightarrow> string \<Rightarrow> string \<Rightarrow> tree \<Rightarrow> bool" where
  "reviewed cfg env initial i out f t \<longleftrightarrow>
     (\<exists>t0 reply. ae_critic env i (critic_prompt cfg initial out) t0 = Some (reply, t) \<and>
        f = (case reply of None \<Rightarrow> [] | Some x \<Rightarrow> x))"

definition critiques :: "adv_cfg \<Rightarrow> adv_env \<Rightarrow> string \<Rightarrow> string list \<Rightarrow> adv_state \<Rightarrow> bool" where
  "critiques cfg env initial fs s \<longleftrightarrow> length fs = as_used s \<and>
     (\<forall>i < length fs. \<exists>out t. reviewed cfg env initial i out (fs ! i) t) \<and>
     (fs \<noteq> [] \<longrightarrow> reviewed cfg env initial (length fs - 1) (as_output s) (last fs) (w_tree (as_world s))
        \<and> as_feedback s = last fs)"

definition judged_by_critic :: "adv_cfg \<Rightarrow> adv_env \<Rightarrow> string \<Rightarrow> string list \<Rightarrow> adv_state \<Rightarrow> bool" where
  "judged_by_critic cfg env initial fs s \<longleftrightarrow> critiques cfg env initial fs s \<and>
     (\<forall>f \<in> set (butlast fs). \<not> is_approved f) \<and> distinct_adj (map norm_feedback (butlast fs)) \<and>
     (as_approved s \<longleftrightarrow> fs \<noteq> [] \<and> is_approved (last fs)) \<and>
     (as_stalled s \<longleftrightarrow> \<not> as_approved s \<and> \<not> distinct_adj (map norm_feedback fs)) \<and>
     \<not> as_verified s \<and> as_infra s = None"

text \<open>A run with a verifier is judged by the list of its checks: each before the last failed for the
  output's own fault, but for one suspected infrastructure failure, and the last judged the tree the
  run leaves.\<close>

definition checks :: "adv_env \<Rightarrow> nat \<Rightarrow> vresult list \<Rightarrow> adv_state \<Rightarrow> bool" where
  "checks env n vs s \<longleftrightarrow> length vs = as_used s \<and> w_checks (as_world s) = n + length vs \<and>
     (\<forall>i < length vs. \<exists>t. re_ver (ae_ver env) (n + i) t = Some (vs ! i)) \<and>
     (vs \<noteq> [] \<longrightarrow> re_ver (ae_ver env) (n + length vs - 1) (w_tree (as_world s)) = Some (last vs))"

definition own_failures :: "vresult list \<Rightarrow> bool" where
  "own_failures vs \<longleftrightarrow> (\<forall>v \<in> set vs. \<not> v_ok v \<and> \<not> v_timeout v \<and> \<not> v_resource v) \<and> length (filter v_infra vs) \<le> 1"

definition judged_by_checks :: "adv_env \<Rightarrow> nat \<Rightarrow> vresult list \<Rightarrow> adv_state \<Rightarrow> bool" where
  "judged_by_checks env n vs s \<longleftrightarrow> checks env n vs s \<and> own_failures (butlast vs) \<and>
     (as_verified s \<longleftrightarrow> vs \<noteq> [] \<and> v_ok (last vs)) \<and> as_approved s = as_verified s \<and> \<not> as_stalled s \<and>
     as_infra s = (if vs = [] \<or> v_ok (last vs) \<or> own_failures vs then None else infra_reason_of (Some (last vs)))"

definition heard :: "adv_cfg \<Rightarrow> adv_env \<Rightarrow> string \<Rightarrow> string list \<Rightarrow> adv_state \<Rightarrow> bool" where
  "heard cfg env initial fs s \<longleftrightarrow> undecided s \<and> critiques cfg env initial fs s \<and>
     (\<forall>f \<in> set fs. \<not> is_approved f) \<and> distinct_adj (map norm_feedback fs) \<and>
     as_prev s = (if fs = [] then None else Some (norm_feedback (last fs)))"

definition tried :: "adv_env \<Rightarrow> nat \<Rightarrow> vresult list \<Rightarrow> adv_state \<Rightarrow> bool" where
  "tried env n vs s \<longleftrightarrow> undecided s \<and> checks env n vs s \<and> own_failures vs \<and>
     as_suspected s = length (filter v_infra vs)"

lemma distinct_adj_snoc [simp]: "distinct_adj (xs @ [x]) \<longleftrightarrow> distinct_adj xs \<and> (xs = [] \<or> last xs \<noteq> x)"
  by (simp add: distinct_adj_append_iff)

lemma generate_frame:
  assumes "generate env s = Some s'"
  shows "as_prev s' = as_prev s" "w_checks (as_world s') = w_checks (as_world s)"
  using assms by (auto simp: generate_def Let_def split: option.splits)

lemma completed_frame [simp]:
  "as_output (completed i s) = as_output s" "as_world (completed i s) = as_world s" "as_used (completed i s) = as_used s"
  "as_feedback (completed i s) = as_feedback s" "as_prev (completed i s) = as_prev s" "undecided (completed i s) = undecided s"
  "as_approved (completed i s) = as_approved s" "as_stalled (completed i s) = as_stalled s"
  "as_verified (completed i s) = as_verified s" "as_infra (completed i s) = as_infra s" "as_suspected (completed i s) = as_suspected s"
  by (simp_all add: completed_def)

lemma more_frame [simp]:
  "as_output (more_to_come cfg i s) = as_output s" "as_world (more_to_come cfg i s) = as_world s"
  "as_used (more_to_come cfg i s) = as_used s" "as_feedback (more_to_come cfg i s) = as_feedback s"
  "as_prev (more_to_come cfg i s) = as_prev s" "undecided (more_to_come cfg i s) = undecided s"
  "as_suspected (more_to_come cfg i s) = as_suspected s"
  by (simp_all add: more_to_come_def)

lemma critiques_snoc:
  "critiques cfg env ini (fs @ [f]) s \<longleftrightarrow> as_used s = Suc (length fs) \<and>
     (\<forall>i < length fs. \<exists>out t. reviewed cfg env ini i out (fs ! i) t) \<and>
     reviewed cfg env ini (length fs) (as_output s) f (w_tree (as_world s)) \<and> as_feedback s = f"
  unfolding critiques_def by (auto simp: nth_append less_Suc_eq)

lemma checks_snoc:
  "checks env n (vs @ [v]) s \<longleftrightarrow> as_used s = Suc (length vs) \<and> w_checks (as_world s) = n + Suc (length vs) \<and>
     (\<forall>i < length vs. \<exists>t. re_ver (ae_ver env) (n + i) t = Some (vs ! i)) \<and>
     re_ver (ae_ver env) (n + length vs) (w_tree (as_world s)) = Some v"
  unfolding checks_def by (auto simp: nth_append less_Suc_eq)

lemma adv_iter_start:
  assumes "\<nexists>x. adv_iter cfg env ini i s = Raise x"
  shows "\<exists>s1. adv_iter cfg env ini i s = (if ac_verifier cfg then verifier_gate cfg env ini i s1 else critic_gate cfg env ini i s1) \<and>
    as_used s1 = Suc i \<and> as_prev s1 = as_prev s \<and> as_suspected s1 = as_suspected s \<and> undecided s1 = undecided s \<and>
    w_checks (as_world s1) = w_checks (as_world s)"
proof -
  let ?s0 = "log_event (A_started (Suc i)) (s\<lparr>as_used := Suc i\<rparr>)"
  obtain s1 where s1: "generate env ?s0 = Some s1"
    using assms by (cases "generate env ?s0") (auto simp: adv_iter_def Let_def)
  from generate_facts [OF s1, of undefined] generate_frame [OF s1] show ?thesis
    by (intro exI [of _ s1]) (simp add: adv_iter_def s1 Let_def undecided_def)
qed

lemma undecided_prompt [simp]: "undecided (t\<lparr>as_prompt := x\<rparr>) = undecided t"
  by (simp add: undecided_def)

lemma critic_gate_hears:
  assumes "as_used s1 = Suc (length fs)" "as_prev s1 = as_prev s" "undecided s1" "heard cfg env ini fs s"
  shows "case critic_gate cfg env ini (length fs) s1 of
      Go s' \<Rightarrow> \<exists>f. heard cfg env ini (fs @ [f]) s'
    | Stop s' \<Rightarrow> \<exists>f. judged_by_critic cfg env ini (fs @ [f]) s'
    | Raise s' \<Rightarrow> True"
proof (cases "ae_critic env (length fs) (critic_prompt cfg ini (as_output s1)) (w_tree (as_world s1))")
  case None
  then show ?thesis by (simp add: critic_gate_def)
next
  case (Some rt)
  obtain reply t where rt: "rt = (reply, t)" by (cases rt)
  define f where "f = (case reply of None \<Rightarrow> [] | Some x \<Rightarrow> x)"
  have rev: "reviewed cfg env ini (length fs) (as_output s1) f t" using Some rt f_def by (auto simp: reviewed_def)
  have past: "\<forall>i < length fs. \<exists>out t. reviewed cfg env ini i out (fs ! i) t" "\<forall>f \<in> set fs. \<not> is_approved f"
    "distinct_adj (map norm_feedback fs)" "as_prev s1 = (if fs = [] then None else Some (norm_feedback (last fs)))"
    using assms(2, 4) by (auto simp: heard_def critiques_def)
  have flags: "\<not> as_approved s1" "\<not> as_verified s1" "\<not> as_stalled s1" "as_infra s1 = None"
    using assms(3) by (simp_all add: undecided_def)
  show ?thesis
  proof (cases "is_approved f")
    case True
    then have "judged_by_critic cfg env ini (fs @ [f])
        (completed (Suc (length fs)) (s1\<lparr>as_feedback := f, as_world := (as_world s1)\<lparr>w_tree := t\<rparr>, as_approved := True\<rparr>))"
      using rev past flags assms(1) by (auto simp: judged_by_critic_def critiques_snoc)
    with Some True show ?thesis by (auto simp: critic_gate_def rt Let_def f_def)
  next
    case False
    note unapproved = this
    show ?thesis
    proof (cases "as_prev s1 = Some (norm_feedback f)")
      case True
      then have "judged_by_critic cfg env ini (fs @ [f])
          (completed (Suc (length fs)) (s1\<lparr>as_feedback := f, as_world := (as_world s1)\<lparr>w_tree := t\<rparr>, as_stalled := True\<rparr>))"
        using rev past flags assms(1) unapproved
        by (auto simp: judged_by_critic_def critiques_snoc last_map split: if_splits)
      with Some True unapproved show ?thesis by (auto simp: critic_gate_def rt Let_def f_def)
    next
      case False
      let ?s' = "more_to_come cfg (length fs) (s1\<lparr>as_feedback := f, as_world := (as_world s1)\<lparr>w_tree := t\<rparr>,
          as_prev := Some (norm_feedback f), as_prompt := update_prompt cfg ini (as_output s1) f\<rparr>)"
      have "undecided (s1\<lparr>as_feedback := f, as_world := (as_world s1)\<lparr>w_tree := t\<rparr>,
          as_prev := Some (norm_feedback f), as_prompt := update_prompt cfg ini (as_output s1) f\<rparr>)"
        using flags by (simp add: undecided_def)
      then have "heard cfg env ini (fs @ [f]) ?s'"
        using rev past assms(1) unapproved False by (auto simp: heard_def critiques_snoc last_map split: if_splits)
      moreover have "critic_gate cfg env ini (length fs) s1 = Go ?s'"
        using Some unapproved False by (simp add: critic_gate_def rt Let_def f_def)
      ultimately show ?thesis by auto
    qed
  qed
qed

lemma verifier_gate_tries:
  assumes "as_used s1 = Suc (length vs)" "as_suspected s1 = as_suspected s" "undecided s1"
    "w_checks (as_world s1) = w_checks (as_world s)" "tried env n vs s"
  shows "case verifier_gate cfg env ini (length vs) s1 of
      Go s' \<Rightarrow> \<exists>v. tried env n (vs @ [v]) s'
    | Stop s' \<Rightarrow> \<exists>v. judged_by_checks env n (vs @ [v]) s'
    | Raise s' \<Rightarrow> True"
proof (cases "run_verify (ae_ver env) (as_world s1)")
  case None
  then show ?thesis by (simp add: verifier_gate_def)
next
  case (Some vw)
  obtain v w where vw: "vw = (v, w)" by (cases vw)
  have past: "\<forall>i < length vs. \<exists>t. re_ver (ae_ver env) (n + i) t = Some (vs ! i)" "own_failures vs"
    "as_suspected s1 = length (filter v_infra vs)" "w_checks (as_world s1) = n + length vs"
    using assms(2, 4, 5) by (auto simp: tried_def checks_def)
  have now: "re_ver (ae_ver env) (n + length vs) (w_tree w) = Some v" "w_checks w = n + Suc (length vs)"
    using Some past(4) by (auto simp: vw run_verify_def split: option.splits)
  have flags: "\<not> as_approved s1" "\<not> as_verified s1" "\<not> as_stalled s1" "as_infra s1 = None"
    using assms(3) by (simp_all add: undecided_def)
  note here = past now flags assms(1)
  consider "v_ok v" | "\<not> v_ok v" "v_timeout v \<or> v_resource v"
    | "\<not> v_ok v" "\<not> (v_timeout v \<or> v_resource v)" "v_infra v" "as_suspected s1 \<ge> 1"
    | "\<not> v_ok v" "\<not> (v_timeout v \<or> v_resource v)" "\<not> (v_infra v \<and> as_suspected s1 \<ge> 1)"
    by auto
  then show ?thesis
  proof cases
    case 1
    then have "judged_by_checks env n (vs @ [v])
        (completed (Suc (length vs)) (s1\<lparr>as_world := w, as_verified := True, as_approved := True\<rparr>))"
      using here by (simp add: judged_by_checks_def checks_snoc)
    with 1 Some show ?thesis by (auto simp: verifier_gate_def vw Let_def)
  next
    case 2
    then have "judged_by_checks env n (vs @ [v]) (completed (Suc (length vs)) (s1\<lparr>as_world := w,
        as_infra := Some (if v_timeout v then ''verifier_timeout'' else ''verifier_resource_exceeded'')\<rparr>))"
      using here by (auto simp: judged_by_checks_def checks_snoc own_failures_def infra_reason_of_def)
    with 2 Some show ?thesis by (auto simp: verifier_gate_def vw Let_def)
  next
    case 3
    then have "judged_by_checks env n (vs @ [v])
        (completed (Suc (length vs)) (s1\<lparr>as_world := w, as_infra := Some ''verifier_infra_suspected''\<rparr>))"
      using here by (auto simp: judged_by_checks_def checks_snoc own_failures_def infra_reason_of_def)
    with 3 Some show ?thesis by (auto simp: verifier_gate_def vw Let_def)
  next
    case 4
    let ?s2 = "if v_infra v then s1\<lparr>as_world := w, as_suspected := Suc (as_suspected s1)\<rparr> else s1\<lparr>as_world := w\<rparr>"
    let ?s3 = "rotate_generator cfg (length vs) ?s2"
    let ?s' = "more_to_come cfg (length vs) (?s3\<lparr>as_prompt := fix_prompt ini (as_output ?s3) (v_message v)\<rparr>)"
    have "undecided ?s2" using flags by (simp add: undecided_def)
    then have "undecided ?s3" by (rule rotate_facts(1))
    then have "undecided ?s'" by simp
    moreover have "as_suspected ?s' = as_suspected ?s2" by (simp add: rotate_generator_def log_event_def Let_def)
    moreover have "as_world ?s' = w" "as_used ?s' = Suc (length vs)" using here by (simp_all add: rotate_facts)
    moreover have "own_failures (vs @ [v])" "as_suspected ?s2 = length (filter v_infra (vs @ [v]))"
      using 4 here by (auto simp: own_failures_def Suc_le_eq)
    ultimately have "tried env n (vs @ [v]) ?s'" using here by (simp add: tried_def checks_snoc)
    moreover have "verifier_gate cfg env ini (length vs) s1 = Go ?s'"
      using 4 Some by (auto simp: verifier_gate_def vw Let_def)
    ultimately show ?thesis by auto
  qed
qed

lemma adv_iter_hears:
  assumes "\<not> ac_verifier cfg" "heard cfg env ini fs s"
  shows "case adv_iter cfg env ini (length fs) s of
      Go s' \<Rightarrow> \<exists>f. heard cfg env ini (fs @ [f]) s' | Stop s' \<Rightarrow> \<exists>f. judged_by_critic cfg env ini (fs @ [f]) s' | Raise s' \<Rightarrow> True"
proof (cases "\<exists>x. adv_iter cfg env ini (length fs) s = Raise x")
  case False
  then obtain s1 where "adv_iter cfg env ini (length fs) s = critic_gate cfg env ini (length fs) s1"
    "as_used s1 = Suc (length fs)" "as_prev s1 = as_prev s" "undecided s1"
    using assms adv_iter_start [OF False] unfolding heard_def by metis
  with critic_gate_hears [OF this(2-4) assms(2)] show ?thesis by simp
qed auto

lemma adv_iter_tries:
  assumes "ac_verifier cfg" "tried env n vs s"
  shows "case adv_iter cfg env ini (length vs) s of
      Go s' \<Rightarrow> \<exists>v. tried env n (vs @ [v]) s' | Stop s' \<Rightarrow> \<exists>v. judged_by_checks env n (vs @ [v]) s' | Raise s' \<Rightarrow> True"
proof (cases "\<exists>x. adv_iter cfg env ini (length vs) s = Raise x")
  case False
  then obtain s1 where "adv_iter cfg env ini (length vs) s = verifier_gate cfg env ini (length vs) s1"
    "as_used s1 = Suc (length vs)" "as_suspected s1 = as_suspected s" "undecided s1"
    "w_checks (as_world s1) = w_checks (as_world s)"
    using assms adv_iter_start [OF False] unfolding tried_def by metis
  with verifier_gate_tries [OF this(2-5) assms(2)] show ?thesis by simp
qed auto

lemma distinct_adj_butlast: "distinct_adj xs \<Longrightarrow> distinct_adj (butlast xs)"
  by (cases xs rule: rev_cases) auto

lemma heard_is_judged:
  assumes "heard cfg env ini fs s"
  shows "judged_by_critic cfg env ini fs s \<and> judged_by_critic cfg env ini fs (completed i s)"
  using assms distinct_adj_butlast [of "map norm_feedback fs"]
  by (auto simp: heard_def judged_by_critic_def critiques_def undecided_def map_butlast dest: in_set_butlastD)

lemma own_failures_butlast: "own_failures vs \<Longrightarrow> own_failures (butlast vs)"
  by (cases vs rule: rev_cases) (auto simp: own_failures_def split: if_splits)

lemma checks_completed: "checks env n vs (completed i s) = checks env n vs s"
  by (simp only: checks_def completed_frame)

lemma tried_is_judged:
  assumes "tried env n vs s"
  shows "judged_by_checks env n vs s \<and> judged_by_checks env n vs (completed i s)"
proof -
  from assms have t: "own_failures vs" "checks env n vs s"
    and u: "\<not> as_approved s" "\<not> as_verified s" "\<not> as_stalled s" "as_infra s = None"
    by (simp_all add: tried_def undecided_def)
  have "vs = [] \<or> \<not> v_ok (last vs)" using t(1) unfolding own_failures_def by (meson last_in_set)
  with t u own_failures_butlast show ?thesis by (auto simp: judged_by_checks_def checks_completed)
qed

lemma adv_loop_trace:
  assumes step: "\<And>xs s. I xs s \<Longrightarrow> case adv_iter cfg env ini (length xs) s of
        Go s' \<Rightarrow> \<exists>x. I (xs @ [x]) s' | Stop s' \<Rightarrow> \<exists>x. J (xs @ [x]) s' | Raise s' \<Rightarrow> True"
    and exhausted: "\<And>xs i s. I xs s \<Longrightarrow> J xs s \<and> J xs (completed i s)"
  shows "adv_loop cfg env ini (length xs) n s = (s', Some out) \<Longrightarrow> I xs s \<Longrightarrow> \<exists>ys. J ys s'"
proof (induction n arbitrary: xs s)
  case 0
  then show ?case using exhausted by (auto simp: Let_def split: if_splits)
next
  case (Suc n)
  from step [OF Suc.prems(2)] Suc.prems(1) show ?case
    using Suc.IH [of "xs @ [_]"] by (auto split: adv_next.splits)
qed

text \<open>C17: an adversarial review that returns gives back the generator's last output, after at most the maximum of
  iterations, each with one generator call.  With a verifier, its flags are those of the list of its checks:
  verified exactly when the last check, made on the very tree the run leaves, passed; stopped for the
  infrastructure exactly when the last check timed out, exceeded its resources or was the second
  suspected infrastructure failure, and with that reason.  Without one, they are those of the list of the critiques: approved exactly
  when the last critique, of the very output returned, approves; stalled exactly when it repeats the
  critique before it up to normalisation, so never on a first critique.  A run without a verdict used every iteration.\<close>

theorem adversarial_outcome:
  assumes "adv_execute cfg env ini off w = (s, Some out)"
  shows "out = as_output s \<and>
    (if ac_verifier cfg then \<exists>vs. judged_by_checks env (w_checks w) vs s else \<exists>fs. judged_by_critic cfg env ini fs s) \<and>
    (undecided s \<longrightarrow> as_used s = nat (ac_max cfg)) \<and>
    as_used s \<le> nat (ac_max cfg) \<and> w_calls (as_world s) = w_calls w + as_used s \<and>
    as_rotations s \<le> ac_chain cfg - 1 \<and> as_suspected s \<le> 1"
proof -
  let ?s0 = "adv_init ini off w"
  have 0: "undecided ?s0" "within_bounds cfg ?s0" "as_used ?s0 = 0" "as_world ?s0 = w"
    by (simp_all add: adv_init_def undecided_def within_bounds_def)
  note run = assms [unfolded adv_execute_def]
  have "if ac_verifier cfg then \<exists>vs. judged_by_checks env (w_checks w) vs s else \<exists>fs. judged_by_critic cfg env ini fs s"
  proof (cases "ac_verifier cfg")
    case True
    have "tried env (w_checks w) [] ?s0" using 0
      by (simp add: tried_def checks_def own_failures_def) (simp add: adv_init_def)
    with run have "\<exists>vs. judged_by_checks env (w_checks w) vs s"
      using adv_loop_trace [where I = "tried env (w_checks w)" and J = "judged_by_checks env (w_checks w)" and xs = "[]",
        OF adv_iter_tries [OF True] tried_is_judged] by simp
    with True show ?thesis by simp
  next
    case False
    have "heard cfg env ini [] ?s0" using 0 by (simp add: heard_def critiques_def) (simp add: adv_init_def)
    with run have "\<exists>fs. judged_by_critic cfg env ini fs s"
      using adv_loop_trace [where I = "heard cfg env ini" and J = "judged_by_critic cfg env ini" and xs = "[]",
        OF adv_iter_hears [OF False] heard_is_judged] by simp
    with False show ?thesis by simp
  qed
  with adv_loop_facts [OF run 0(1-3)] 0(4) show ?thesis
    by (auto simp: within_bounds_def)
qed

definition review_env :: adv_env where
  "review_env = \<lparr>ae_gen = (\<lambda>n off p t. Some (''draft'', t)),
     ae_critic = (\<lambda>i p t. Some (Some (if i = 0 then ''Add a test.'' else ''Fine.'' @ nl @ ''approved.''), t)),
     ae_ver = \<lparr>re_gen = (\<lambda>n a p t. None), re_ver = (\<lambda>n t. None)\<rparr>\<rparr>"

definition review_cfg :: adv_cfg where
  "review_cfg = \<lparr>ac_max = 5, ac_verifier = False, ac_diff_only = False, ac_preamble = [],
     ac_requirement = None, ac_chain = 1, ac_rotate_env = None\<rparr>"

theorem adversarial_outcome_witness:
  "as_approved (fst (adv_execute review_cfg review_env ''task'' 0 \<lparr>w_tree = [], w_calls = 0, w_checks = 0\<rparr>))
   \<and> (\<exists>fs. judged_by_critic review_cfg review_env ''task'' fs
        (fst (adv_execute review_cfg review_env ''task'' 0 \<lparr>w_tree = [], w_calls = 0, w_checks = 0\<rparr>)) \<and> is_approved (last fs))"
proof -
  let ?w = "\<lparr>w_tree = [], w_calls = 0, w_checks = 0\<rparr>"
  obtain s out where s: "adv_execute review_cfg review_env ''task'' 0 ?w = (s, Some out)" "as_approved s"
  proof -
    have "snd (adv_execute review_cfg review_env ''task'' 0 ?w) = Some ''draft''"
      "as_approved (fst (adv_execute review_cfg review_env ''task'' 0 ?w))"
      by code_simp+
    then show thesis using that by (cases "adv_execute review_cfg review_env ''task'' 0 ?w") auto
  qed
  obtain fs where "judged_by_critic review_cfg review_env ''task'' fs s"
    using adversarial_outcome [OF s(1)] by (auto simp: review_cfg_def)
  with s show ?thesis by (auto simp: judged_by_critic_def)
qed

section \<open>Thinking cannot approve\<close>

lemma prefix_py_lower_border:
  assumes "prefix m (py_lower (x @ m @ b))" "x \<noteq> []" "\<not> sublist m (py_lower x)" "m \<noteq> []" "hd m \<notin> set (tl m)"
    "py_lower m = m"
  shows False
proof (cases "length m \<le> length x")
  case True
  then have "prefix m (py_lower x)"
    using prefix_length_prefix [OF assms(1), of "py_lower x"]
    by (simp add: py_lower_append) (simp add: py_lower_def)
  with assms(3) show False by (meson prefix_imp_sublist)
next
  case False
  then have i: "length x < length m" by simp
  have "m ! length x = py_lower (x @ m @ b) ! length x"
    using assms(1) i by (metis prefix_def nth_append)
  also have "\<dots> = py_lower m ! 0" using assms(4) by (simp add: py_lower_def nth_append)
  also have "\<dots> = hd m" using assms(4,6) by (simp add: hd_conv_nth)
  finally have "hd m = tl m ! (length x - 1)"
    using assms(2) i by (cases m; cases x) auto
  moreover have "length x - 1 < length (tl m)" using assms(2) i by (cases m; cases x) auto
  ultimately show False using assms(5) by (metis nth_mem)
qed

lemma skip_past_first:
  assumes "\<not> sublist m (py_lower x)" "m \<noteq> []" "hd m \<notin> set (tl m)" "py_lower m = m"
  shows "skip_past m (x @ m @ b) = Some b"
  using assms(1)
proof (induction x)
  case Nil
  obtain c cs where m: "m = c # cs" using assms(2) by (cases m) auto
  have "prefix m (py_lower (m @ b))" using assms(4) by (simp add: py_lower_append)
  then show ?case by (simp add: m)
next
  case (Cons c x)
  then have "\<not> sublist m (py_lower x)" by (auto simp: py_lower_def sublist_Cons_right)
  moreover have "\<not> prefix m (py_lower ((c # x) @ m @ b))"
    using prefix_py_lower_border [of m "c # x" b] Cons.prems assms by blast
  ultimately show ?case using Cons.IH by simp
qed

text \<open>What a critic writes inside a closed think block has no influence on its verdict: a reply that
  opens with a think block is approved exactly when the rest of it is.\<close>

theorem thinking_cannot_approve:
  assumes "\<not> sublist ''</think>'' (py_lower x)"
  shows "is_approved (''<think>'' @ x @ ''</think>'' @ b) = is_approved b"
proof -
  have "skip_past ''</think>'' (x @ ''</think>'' @ b) = Some b"
    by (rule skip_past_first [OF assms]) (simp_all add: py_lower_def lower_char_bits)
  moreover have "py_lower (''<think>'' @ x @ ''</think>'' @ b) = ''<think>'' @ py_lower (x @ ''</think>'' @ b)"
    by (simp add: py_lower_def lower_char_bits)
  ultimately have "strip_think (''<think>'' @ x @ ''</think>'' @ b) = strip_think b" by simp
  then show ?thesis unfolding is_approved_def by metis
qed

theorem thinking_cannot_approve_witness:
  "\<not> is_approved (''<think>'' @ ''APPROVED'' @ ''</think>'' @ ''no'')"
proof -
  have n: "\<not> sublist ''</think>'' (py_lower ''APPROVED'')" by code_simp
  have "\<not> is_approved ''no''" by code_simp
  then show ?thesis unfolding thinking_cannot_approve [OF n] .
qed

text \<open>A block that is never closed is not dropped, so a truncated reply can approve from inside it.\<close>

lemma unclosed_thinking_approves: "is_approved (''<think>maybe'' @ nl @ ''APPROVED'')"
  by code_simp

end
