(* ===== verification/Master_Linear.thy ===== *)
theory Master_Linear
  imports Master_Checkpoint Adversarial
begin

text \<open>
  The flat path of the master workflow (\<^verbatim>\<open>agy_orchestrator/workflows/master.py\<close>): the planner with
  its one re-prompt, the execution of a step (exploration, adversarial refinement, summary), and the
  loop over the steps with its checkpoints and compactions.  Agents, the JSON parser, git and the
  outcomes of writes are parameters; a step runs the adversarial review of \<^verbatim>\<open>Adversarial\<close>.  The
  effect a compactor has on the working tree is not modelled.  Prompts are the source text; their em
  dashes are written \<open>-\<close>.
\<close>

section \<open>Events\<close>

datatype m_event =
    Plan_Completed nat "string list"
  | Plan_Reprompt string
  | Plan_Failed string
  | Step_Started int nat string
  | Step_Completed int nat string "string option" bool bool

definition truncate_title :: "string \<Rightarrow> string" where
  "truncate_title s = take 120 s"

section \<open>The planner\<close>

text \<open>\<open>s[s.find("["):s.rfind("]") + 1]\<close>, and what it parses to; \<open>json\<close> is the parser, its left results are
  the texts of its errors.\<close>

definition array_text :: "string \<Rightarrow> string option" where
  "array_text s =
     (if CHR ''['' \<in> set s \<and> CHR '']'' \<in> set s
      then Some (slice (length (takeWhile (\<lambda>c. c \<noteq> CHR ''['') s))
             (length s - length (takeWhile (\<lambda>c. c \<noteq> CHR '']'') (rev s))) s)
      else None)"

definition extract_tasks :: "(string \<Rightarrow> string + pyval) \<Rightarrow> string \<Rightarrow> string + pyval list" where
  "extract_tasks json s = (case array_text s of
       None \<Rightarrow> Inl ''No JSON array found.''
     | Some a \<Rightarrow> ebind (json a) (\<lambda>v. case v of
           PList xs \<Rightarrow> if xs = [] then Inl ''Planner produced an EMPTY plan (zero steps).'' else Inr xs
         | _ \<Rightarrow> Inl ''Planner output is not a JSON list.''))"

definition planner_prompt :: "string \<Rightarrow> string" where
  "planner_prompt prompt =
     ''You are the Lead Architect. Break down the following complex project into a logical sequence of implementation steps.'' @ nl @
     ''This is a PLANNING-ONLY task: do NOT create, write, edit, or apply changes to ANY files, and do NOT run build/install/test commands - read only what you need, then produce the plan. (File-writing tools are disabled for this call.)'' @ nl @
     ''Output ONLY a valid JSON list of strings, where each string is a detailed prompt for a single step.'' @ nl @
     ''Example: [\"Step 1: Setup project structure and core utilities...\", \"Step 2: Implement UI component X...\"]'' @ nl @ nl @
     ''Project Request:'' @ nl @ prompt"

definition reprompt :: "string \<Rightarrow> string" where
  "reprompt prompt =
     ''Your previous reply was NOT a valid JSON list and could not be '' @
     ''parsed. Reply with ONLY a JSON array of step-prompt strings - no '' @
     ''prose, no explanation, no markdown fences, no thinking. The first '' @
     ''character of your reply must be '' @ [CHR 0x27] @ ''['' @ [CHR 0x27] @ '' and the last must be '' @
     [CHR 0x27] @ '']'' @ [CHR 0x27] @ ''.'' @ nl @ nl @
     ''Each array element is a detailed prompt for a single implementation '' @
     ''step.'' @ nl @ nl @ ''Project Request:'' @ nl @ prompt"

text \<open>The reply of a planning agent and the session it established, or the text of what it raised.\<close>

type_synonym planner = "string \<Rightarrow> string option \<Rightarrow> string + string \<times> string option"

record plan_result =
  pr_tasks :: "pyval list"
  pr_session :: "string option"
  pr_error :: "string option"
  pr_log :: "m_event list"

definition degraded :: "plan_result \<Rightarrow> bool" where
  "degraded r = (pr_error r \<noteq> None)"

definition single_step :: "string \<Rightarrow> string option \<Rightarrow> string \<Rightarrow> string \<Rightarrow> plan_result" where
  "single_step prompt session e e2 = \<lparr> pr_tasks = [PStr prompt], pr_session = session, pr_error = Some e2,
     pr_log = [Plan_Reprompt e, Plan_Failed e2] \<rparr>"

definition run_planner :: "(string \<Rightarrow> string + pyval) \<Rightarrow> planner \<Rightarrow> planner \<Rightarrow> string \<Rightarrow> string + plan_result" where
  "run_planner json planner planner2 prompt =
     ebind (planner (planner_prompt prompt) None) (\<lambda>(out, session).
       case extract_tasks json out of
         Inr tasks \<Rightarrow> Inr \<lparr> pr_tasks = tasks, pr_session = session, pr_error = None, pr_log = [] \<rparr>
       | Inl e \<Rightarrow> (case planner2 (reprompt prompt) (truthy_str session) of
             Inl e2 \<Rightarrow> Inr (single_step prompt session e e2)
           | Inr (out2, session2) \<Rightarrow>
               let session1 = (if truthy_str session = None then session2 else session) in
               (case extract_tasks json out2 of
                  Inr tasks \<Rightarrow> Inr \<lparr> pr_tasks = tasks, pr_session = session1, pr_error = None, pr_log = [Plan_Reprompt e] \<rparr>
                | Inl e2 \<Rightarrow> Inr (single_step prompt session1 e e2))))"

section \<open>One step\<close>

record step_cfg =
  sc_branches :: int
  sc_critic_distinct :: bool
  sc_adv :: adv_cfg

text \<open>The exploration, the agents of the review (which get the generator's and the critic's session), and
  the summarizer, which returns its reply and its session, or raises.\<close>

record step_env =
  sv_tot :: "string \<Rightarrow> string \<Rightarrow> tree \<Rightarrow> string option \<times> tree"
  sv_review :: "string option \<Rightarrow> string option \<Rightarrow> adv_env"
  sv_summary :: "string \<Rightarrow> string option \<Rightarrow> tree \<Rightarrow> (string \<times> string option) option \<times> tree"

definition step_prompt :: "int \<Rightarrow> string \<Rightarrow> string \<Rightarrow> string" where
  "step_prompt n ctx task =
     ''You are implementing Step '' @ show_int n @ '' of a larger project.'' @ nl @ nl @
     ''Project Context (What has been built so far):'' @ nl @ ctx @ nl @ nl @
     ''Current Task to implement NOW:'' @ nl @ task"

definition refine_prompt :: "string \<Rightarrow> string \<Rightarrow> string" where
  "refine_prompt sp best =
     (if best \<noteq> []
      then sp @ nl @ nl @
        ''Please refine, finalize, and perfect the following draft implementation. '' @
        ''Ensure it meets the highest standards and resolves any bugs:'' @ nl @ best
      else sp)"

definition summary_prompt :: "int \<Rightarrow> string \<Rightarrow> string" where
  "summary_prompt n out =
     ''In 3-5 bullet points, summarize what was just implemented in Step '' @ show_int n @ ''.'' @ nl @
     ''Focus on: what files were created/modified, key design decisions, and any'' @ nl @
     ''CSS classes, JS functions, or IDs that other steps should know about.'' @ nl @
     ''Be concise. Do NOT reproduce the full code.'' @ nl @ nl @ ''Step output:'' @ nl @ take 8000 out"

definition step_outcome :: "adv_state \<Rightarrow> string option" where
  "step_outcome a =
     (if as_verified a then Some ''verified''
      else if as_approved a then Some ''approved''
      else case as_infra a of
          Some reason \<Rightarrow> Some (if reason = [] then ''verifier_infra_failed'' else reason)
        | None \<Rightarrow> if as_stalled a then Some ''stalled'' else None)"

definition explore :: "step_cfg \<Rightarrow> step_env \<Rightarrow> string \<Rightarrow> string \<Rightarrow> tree \<Rightarrow> string option \<times> tree" where
  "explore cfg env sp task t = (if sc_branches cfg \<le> 1 then (Some [], t) else sv_tot env sp task t)"

text \<open>The summary of a step, and the session the workflow continues with.\<close>

definition summarize :: "step_env \<Rightarrow> int \<Rightarrow> string \<Rightarrow> string \<Rightarrow> string option \<Rightarrow> tree \<Rightarrow>
    (string \<times> string option) \<times> tree" where
  "summarize env n task out session t =
     (case sv_summary env (summary_prompt n out) (truthy_str session) t of
        (None, t') \<Rightarrow> ((''Completed: '' @ take 300 task, session), t')
      | (Some (text, minted), t') \<Rightarrow> ((text, if truthy_str session = None then minted else session), t'))"

definition review_step :: "step_cfg \<Rightarrow> step_env \<Rightarrow> string option \<Rightarrow> string \<Rightarrow> world \<Rightarrow> adv_state \<times> string option" where
  "review_step cfg env session prompt w =
     adv_execute (sc_adv cfg)
       (sv_review env (truthy_str session) (if sc_critic_distinct cfg then None else truthy_str session))
       prompt 0 w"

text \<open>The result is \<open>None\<close> when the exploration or the review raised.\<close>

definition execute_step :: "step_cfg \<Rightarrow> step_env \<Rightarrow> int \<Rightarrow> nat \<Rightarrow> string \<Rightarrow> string \<Rightarrow> string option \<Rightarrow> world \<Rightarrow>
    world \<times> m_event list \<times> step_result option" where
  "execute_step cfg env n steps task ctx session w =
     (let started = Step_Started n steps (truncate_title task); sp = step_prompt n ctx task in
      case explore cfg env sp task (w_tree w) of
        (None, t) \<Rightarrow> (w\<lparr>w_tree := t\<rparr>, [started], None)
      | (Some best, t) \<Rightarrow>
          (case review_step cfg env session (refine_prompt sp best) (w\<lparr>w_tree := t\<rparr>) of
             (a, None) \<Rightarrow> (as_world a, [started], None)
           | (a, Some out) \<Rightarrow>
               (case summarize env n task out session (w_tree (as_world a)) of
                  ((text, session'), t') \<Rightarrow>
                    ((as_world a)\<lparr>w_tree := t'\<rparr>,
                     [started, Step_Completed n steps (truncate_title task) (step_outcome a) (as_verified a) (as_approved a)],
                     Some \<lparr> final_output = out, step_summary = text, verified = as_verified a,
                       approved = as_approved a, stalled = as_stalled a, iterations_used = int (as_used a),
                       session_id = session' \<rparr>))))"

section \<open>The loop over the steps\<close>

record run_cfg =
  rc_master :: master_cfg
  rc_step :: step_cfg
  rc_ck :: ck_cfg

text \<open>What the world answers during step \<open>i\<close>: its agents, the compactor's reply, and git and the disk at
  its two saves (0 after the step, 1 after a compaction).\<close>

record run_env =
  rn_step :: "int \<Rightarrow> step_env"
  rn_digest :: "int \<Rightarrow> string \<Rightarrow> string option"
  rn_git :: "int \<Rightarrow> nat \<Rightarrow> git"
  rn_disk :: "int \<Rightarrow> nat \<Rightarrow> disk"

record lin_state =
  ls_world :: world
  ls_context :: string
  ls_session :: "string option"
  ls_since :: int
  ls_verified :: bool
  ls_approved :: bool
  ls_stalled :: bool
  ls_iterations :: int
  ls_ck :: ck_state
  ls_log :: "m_event list"

text \<open>\<open>xs[i]\<close> with Python's negative indices.\<close>

definition py_nth :: "'a list \<Rightarrow> int \<Rightarrow> 'a option" where
  "py_nth xs i =
     (if 0 \<le> i \<and> i < int (length xs) then Some (xs ! nat i)
      else if - int (length xs) \<le> i \<and> i < 0 then Some (xs ! nat (int (length xs) + i))
      else None)"

definition summary_block :: "int \<Rightarrow> string \<Rightarrow> string" where
  "summary_block n text = nl @ ''--- Step '' @ show_int n @ '' Summary ---'' @ nl @ text @ nl"

definition save_progress :: "run_cfg \<Rightarrow> run_env \<Rightarrow> string \<Rightarrow> pyval list \<Rightarrow> int \<Rightarrow> nat \<Rightarrow> lin_state \<Rightarrow> bool \<times> lin_state" where
  "save_progress cfg env prompt tasks i k s =
     (case save_checkpoint (rc_ck cfg) (rn_git env i k) (rn_disk env i k) prompt tasks (i + 1)
         (ls_context s) (ls_session s) None None (ls_ck s) of
       (raised, ck) \<Rightarrow> (\<not> raised, s\<lparr>ls_ck := ck\<rparr>))"

definition absorb :: "int \<Rightarrow> world \<Rightarrow> m_event list \<Rightarrow> step_result \<Rightarrow> lin_state \<Rightarrow> lin_state" where
  "absorb i w evs r s = s\<lparr> ls_world := w, ls_log := ls_log s @ evs, ls_session := session_id r,
     ls_verified := verified r, ls_approved := approved r, ls_stalled := stalled r,
     ls_iterations := iterations_used r,
     ls_context := ls_context s @ summary_block (i + 1) (step_summary r) \<rparr>"

definition compact_step :: "run_cfg \<Rightarrow> run_env \<Rightarrow> string \<Rightarrow> pyval list \<Rightarrow> int \<Rightarrow> lin_state \<Rightarrow> bool \<times> lin_state" where
  "compact_step cfg env prompt tasks i s =
     (let s1 = s\<lparr>ls_since := ls_since s + 1\<rparr> in
      if should_compact (rc_master cfg) (ls_since s1) (ls_context s1)
      then save_progress cfg env prompt tasks i 1 (s1\<lparr>
             ls_context := compact_context (rc_master cfg) (rn_digest env i) prompt (ls_context s1),
             ls_session := None, ls_since := 0\<rparr>)
      else (True, s1))"

text \<open>One pass of the loop; the flag is false when it raised.  A task that is not a string raises before
  any worker is started.\<close>

definition linear_step :: "run_cfg \<Rightarrow> run_env \<Rightarrow> string \<Rightarrow> pyval list \<Rightarrow> int \<Rightarrow> lin_state \<Rightarrow> bool \<times> lin_state" where
  "linear_step cfg env prompt tasks i s = (case Option.bind (py_nth tasks i) str_opt of
       None \<Rightarrow> (False, s)
     | Some task \<Rightarrow>
         (case execute_step (rc_step cfg) (rn_step env i) (i + 1) (length tasks) task
             (ls_context s) (ls_session s) (ls_world s) of
            (w, evs, None) \<Rightarrow> (False, s\<lparr>ls_world := w, ls_log := ls_log s @ evs\<rparr>)
          | (w, evs, Some r) \<Rightarrow>
              (case save_progress cfg env prompt tasks i 0 (absorb i w evs r s) of
                 (False, s1) \<Rightarrow> (False, s1)
               | (True, s1) \<Rightarrow> compact_step cfg env prompt tasks i s1)))"

fun linear_loop :: "run_cfg \<Rightarrow> run_env \<Rightarrow> string \<Rightarrow> pyval list \<Rightarrow> int list \<Rightarrow> lin_state \<Rightarrow> bool \<times> lin_state" where
  "linear_loop cfg env prompt tasks [] s = (True, s)"
| "linear_loop cfg env prompt tasks (i # is) s = (case linear_step cfg env prompt tasks i s of
       (False, s1) \<Rightarrow> (False, s1)
     | (True, s1) \<Rightarrow> linear_loop cfg env prompt tasks is s1)"

text \<open>The run from a starting point: a string context, a position, and the state left on disk.\<close>

definition start_state :: "world \<Rightarrow> string \<Rightarrow> string option \<Rightarrow> int \<Rightarrow> ck_state \<Rightarrow> m_event list \<Rightarrow> lin_state" where
  "start_state w ctx session start ck evs = \<lparr> ls_world = w, ls_context = ctx, ls_session = session, ls_since = start,
     ls_verified = False, ls_approved = False, ls_stalled = False, ls_iterations = 0, ls_ck = ck, ls_log = evs \<rparr>"

definition linear_run :: "run_cfg \<Rightarrow> run_env \<Rightarrow> bool \<Rightarrow> string \<Rightarrow> pyval list \<Rightarrow> int \<Rightarrow> lin_state \<Rightarrow> bool \<times> lin_state" where
  "linear_run cfg env gone prompt tasks start s =
     (case linear_loop cfg env prompt tasks [start..int (length tasks) - 1] s of
        (False, s1) \<Rightarrow> (False, s1)
      | (True, s1) \<Rightarrow> (True, s1\<lparr>ls_ck := remove_checkpoint (rc_ck cfg) gone (ls_ck s1)\<rparr>))"

end
