(* ===== verification/Master_Graph.thy ===== *)
theory Master_Graph
  imports Master_Linear
begin

text \<open>
  The graph walker of the master workflow (\<^verbatim>\<open>agy_orchestrator/workflows/master.py\<close>): the frontier
  scheduler and the life of a node, from waiting for a slot over its context, its workspace, its step
  and the merge of its writes to the harvest of its result.  One transition of \<open>graph_step\<close> is what
  happens between two awaits that matter; all interleavings of the running nodes are runs of it.  The
  queue of the semaphore is left open: any waiting node may take a free slot.  Agents, the workspace
  that is opened, reconcilers, re-verification, git and the disk are parameters.
\<close>

section \<open>State\<close>

datatype node_error = Compose_Error context_error | Open_Failed | Step_Raised | Merge_Error merge_error | Save_Failed

text \<open>A task of the scheduler: before it has a slot; with its context; with its workspace; with the
  snapshot it was opened on, the workspace it leaves and its result; merged; over.\<close>

datatype node_task =
    Waiting
  | Composed string
  | Opened string tree
  | Ran tree tree step_result
  | Merged step_result merge_outcome
  | Finished step_result
  | Crashed node_error

datatype node_status = Pending | Passed | Failed

datatype phase = Going | Returned string | Aborted node_error

record graph_state =
  gs_done :: done_map
  gs_running :: "(string \<times> node_task) list"
  gs_status :: "string \<Rightarrow> node_status"
  gs_live :: tree
  gs_outcomes :: "merge_outcome list"
  gs_verified :: bool
  gs_approved :: bool
  gs_stalled :: bool
  gs_iterations :: int
  gs_ck :: ck_state
  gs_log :: "m_event list"
  gs_phase :: phase

record graph_cfg =
  gc_nodes :: "plan_node list"
  gc_tasks :: "pyval list"
  gc_prompt :: string
  gc_step :: step_cfg
  gc_ck :: ck_cfg
  gc_cap :: "nat option"
  gc_policy :: string

record graph_env =
  ge_open :: "string \<Rightarrow> tree \<Rightarrow> tree option"
  ge_step :: "string \<Rightarrow> step_env"
  ge_station :: "string \<Rightarrow> reconciler option"
  ge_reverify :: "string \<Rightarrow> tree \<Rightarrow> bool option"
  ge_gone :: bool

section \<open>The life of a node\<close>

fun over :: "node_task \<Rightarrow> bool" where
  "over (Finished r) = True"
| "over (Crashed e) = True"
| "over _ = False"

fun holds_slot :: "node_task \<Rightarrow> bool" where
  "holds_slot Waiting = False"
| "holds_slot t = (\<not> over t)"

definition slots_used :: "graph_state \<Rightarrow> nat" where
  "slots_used s = length (filter (\<lambda>(n, t). holds_slot t) (gs_running s))"

definition slot_free :: "graph_cfg \<Rightarrow> graph_state \<Rightarrow> bool" where
  "slot_free cfg s = (case gc_cap cfg of None \<Rightarrow> True | Some c \<Rightarrow> slots_used s < c)"

definition build_reconciler :: "graph_cfg \<Rightarrow> graph_env \<Rightarrow> string \<Rightarrow> reconciler option" where
  "build_reconciler cfg env nid = (if gc_policy cfg \<noteq> ''reconcile'' then None else ge_station env nid)"

text \<open>A conflict leaves its outcome behind before it is raised.\<close>

definition merge_back :: "graph_cfg \<Rightarrow> graph_env \<Rightarrow> string list \<Rightarrow> string \<Rightarrow> tree \<Rightarrow> tree \<Rightarrow> step_result \<Rightarrow>
    graph_state \<Rightarrow> node_task \<times> graph_state" where
  "merge_back cfg env order nid base ws r s =
     (case merge_node nid (step_no order nid) ws (gs_live s) base (gc_policy cfg) (build_reconciler cfg env nid) of
        (live, Inr outcome) \<Rightarrow>
          (Merged r outcome, s\<lparr>gs_live := live, gs_outcomes := gs_outcomes s @ [outcome]\<rparr>)
      | (live, Inl (MergeConflict outcome)) \<Rightarrow>
          (Crashed (Merge_Error (MergeConflict outcome)), s\<lparr>gs_live := live, gs_outcomes := gs_outcomes s @ [outcome]\<rparr>)
      | (live, Inl e) \<Rightarrow> (Crashed (Merge_Error e), s\<lparr>gs_live := live\<rparr>))"

text \<open>A reconciled overlap is verified again on the merged tree; a check that could not run drops both
  signals.\<close>

definition recheck :: "graph_cfg \<Rightarrow> graph_env \<Rightarrow> string \<Rightarrow> merge_outcome \<Rightarrow> tree \<Rightarrow> step_result \<Rightarrow> step_result" where
  "recheck cfg env nid outcome live r =
     (if o_resolution outcome = ''reconciled'' \<and> ac_verifier (sc_adv (gc_step cfg))
      then (case ge_reverify env nid live of
          Some fine \<Rightarrow> r\<lparr>verified := fine\<rparr>
        | None \<Rightarrow> r\<lparr>verified := False, approved := False\<rparr>)
      else r)"

fun run_dag_node :: "graph_cfg \<Rightarrow> graph_env \<Rightarrow> string list \<Rightarrow> string \<Rightarrow> node_task \<Rightarrow> graph_state \<Rightarrow>
    (node_task \<times> graph_state) option" where
  "run_dag_node cfg env order nid Waiting s =
     (if slot_free cfg s
      then Some (case compose_context (gc_nodes cfg) nid (gs_done s) (gc_prompt cfg) of
             Inl e \<Rightarrow> (Crashed (Compose_Error e), s)
           | Inr ctx \<Rightarrow> (Composed ctx, s))
      else None)"
| "run_dag_node cfg env order nid (Composed ctx) s =
     Some (case ge_open env nid (gs_live s) of None \<Rightarrow> (Crashed Open_Failed, s) | Some ws \<Rightarrow> (Opened ctx ws, s))"
| "run_dag_node cfg env order nid (Opened ctx ws) s =
     Some (case execute_step (gc_step cfg) (ge_step env nid) (int (step_no order nid)) (length order)
               (task_of (gc_nodes cfg) nid) ctx None \<lparr>w_tree = ws, w_calls = 0, w_checks = 0\<rparr> of
             (w, evs, None) \<Rightarrow> (Crashed Step_Raised, s\<lparr>gs_log := gs_log s @ evs\<rparr>)
           | (w, evs, Some r) \<Rightarrow> (Ran (snapshot_tree ws) (w_tree w) r, s\<lparr>gs_log := gs_log s @ evs\<rparr>))"
| "run_dag_node cfg env order nid (Ran base ws r) s = Some (merge_back cfg env order nid base ws r s)"
| "run_dag_node cfg env order nid (Merged r outcome) s =
     Some (Finished (recheck cfg env nid outcome (gs_live s) r), s)"
| "run_dag_node cfg env order nid (Finished r) s = None"
| "run_dag_node cfg env order nid (Crashed e) s = None"

section \<open>The scheduler\<close>

definition ready :: "graph_cfg \<Rightarrow> graph_state \<Rightarrow> string \<Rightarrow> bool" where
  "ready cfg s nid = (gs_done s nid = None \<and> nid \<notin> set (map fst (gs_running s)) \<and>
     list_all (\<lambda>d. gs_done s d \<noteq> None) (deps_at (gc_nodes cfg) nid))"

text \<open>The ids of the order are distinct, so one node becoming a task does not change another's turn.\<close>

definition schedule_ready :: "graph_cfg \<Rightarrow> string list \<Rightarrow> graph_state \<Rightarrow> graph_state" where
  "schedule_ready cfg order s =
     s\<lparr>gs_running := gs_running s @ map (\<lambda>nid. (nid, Waiting)) (filter (ready cfg s) order)\<rparr>"

definition status_of :: "step_result \<Rightarrow> node_status" where
  "status_of r = (if verified r \<or> approved r then Passed else Failed)"

definition last_done :: "string list \<Rightarrow> done_map \<Rightarrow> string" where
  "last_done order dn = last (filter (\<lambda>n. dn n \<noteq> None) order)"

text \<open>Run-level signals follow the last finished node of the order; verified also needs that no node failed.\<close>

definition fold_signals :: "string list \<Rightarrow> graph_state \<Rightarrow> graph_state" where
  "fold_signals order s = (let r = the (gs_done s (last_done order (gs_done s))) in
     s\<lparr>gs_verified := verified r \<and> \<not> list_ex (\<lambda>n. gs_status s n = Failed) order,
       gs_approved := approved r, gs_stalled := stalled r, gs_iterations := iterations_used r\<rparr>)"

definition take_result :: "string list \<Rightarrow> string \<Rightarrow> step_result \<Rightarrow> graph_state \<Rightarrow> graph_state" where
  "take_result order nid r s = fold_signals order (s\<lparr>
     gs_running := filter (\<lambda>(n, t). n \<noteq> nid) (gs_running s), gs_done := (gs_done s)(nid \<mapsto> r),
     gs_status := (gs_status s)(nid := status_of r)\<rparr>)"

text \<open>Failing fast cancels every other task.\<close>

definition abort :: "node_error \<Rightarrow> graph_state \<Rightarrow> graph_state" where
  "abort e s = s\<lparr>gs_running := [], gs_phase := Aborted e\<rparr>"

fun harvest :: "string list \<Rightarrow> (string \<times> node_task) list \<Rightarrow> graph_state \<Rightarrow> bool \<times> graph_state" where
  "harvest order [] s = (True, s)"
| "harvest order ((nid, t) # rest) s = (case t of
       Finished r \<Rightarrow> harvest order rest (take_result order nid r s)
     | Crashed e \<Rightarrow> (False, abort e s)
     | _ \<Rightarrow> harvest order rest s)"

definition graph_payload :: "plan_node list \<Rightarrow> pyval list" where
  "graph_payload nodes = map (\<lambda>n. PDict [(''id'', PStr (pn_id n)), (''task'', PStr (pn_task n)),
     (''deps'', PList (map PStr (pn_deps n)))]) nodes"

definition done_payload :: "string list \<Rightarrow> done_map \<Rightarrow> pydict" where
  "done_payload order dn =
     map (\<lambda>n. (n, step_result_to_checkpoint (the (dn n)))) (filter (\<lambda>n. dn n \<noteq> None) order)"

definition checkpoint_graph :: "graph_cfg \<Rightarrow> string list \<Rightarrow> git \<Rightarrow> disk \<Rightarrow> graph_state \<Rightarrow> bool \<times> graph_state" where
  "checkpoint_graph cfg order g d s =
     (case save_checkpoint (gc_ck cfg) g d (gc_prompt cfg) (gc_tasks cfg)
         (int (length (filter (\<lambda>n. gs_done s n \<noteq> None) order)))
         (rebuild_linear_context (gc_nodes cfg) order (gs_done s) (gc_prompt cfg)) None
         (Some (graph_payload (gc_nodes cfg))) (Some (done_payload order (gs_done s))) (gs_ck s) of
       (raised, ck) \<Rightarrow> (\<not> raised, s\<lparr>gs_ck := ck\<rparr>))"

text \<open>The head of the loop: without a running task the run returns.\<close>

definition settle_run :: "graph_cfg \<Rightarrow> graph_env \<Rightarrow> string list \<Rightarrow> graph_state \<Rightarrow> graph_state" where
  "settle_run cfg env order s =
     (if gs_running s = []
      then s\<lparr>gs_ck := remove_checkpoint (gc_ck cfg) (ge_gone env) (gs_ck s),
             gs_phase := Returned (rebuild_linear_context (gc_nodes cfg) order (gs_done s) (gc_prompt cfg))\<rparr>
      else s)"

text \<open>One wake-up of the scheduler: everything over by then is harvested in the order the tasks were
  created, the frontier is checkpointed, and the nodes this released are scheduled.\<close>

definition wake_up :: "graph_cfg \<Rightarrow> graph_env \<Rightarrow> string list \<Rightarrow> git \<Rightarrow> disk \<Rightarrow> graph_state \<Rightarrow> graph_state" where
  "wake_up cfg env order g d s =
     (case harvest order (filter (\<lambda>(n, t). over t) (gs_running s)) s of
        (False, s1) \<Rightarrow> s1
      | (True, s1) \<Rightarrow> (case checkpoint_graph cfg order g d s1 of
            (False, s2) \<Rightarrow> abort Save_Failed s2
          | (True, s2) \<Rightarrow> settle_run cfg env order (schedule_ready cfg order s2)))"

definition put_task :: "string \<Rightarrow> node_task \<Rightarrow> graph_state \<Rightarrow> graph_state" where
  "put_task nid t s = s\<lparr>gs_running := map (\<lambda>(n, u). (n, if n = nid then t else u)) (gs_running s)\<rparr>"

inductive graph_step :: "graph_cfg \<Rightarrow> graph_env \<Rightarrow> string list \<Rightarrow> graph_state \<Rightarrow> graph_state \<Rightarrow> bool"
  for cfg env order where
  node_moves: "gs_phase s = Going \<Longrightarrow> (nid, t) \<in> set (gs_running s) \<Longrightarrow>
    run_dag_node cfg env order nid t s = Some (t', s') \<Longrightarrow>
    graph_step cfg env order s (put_task nid t' s')"
| wakes_up: "gs_phase s = Going \<Longrightarrow> (nid, t) \<in> set (gs_running s) \<Longrightarrow> over t \<Longrightarrow>
    graph_step cfg env order s (wake_up cfg env order g d s)"

inductive_cases graph_stepE: "graph_step cfg env order s s'"

section \<open>Starting\<close>

text \<open>\<open>order[:start_index]\<close>.\<close>

definition py_take :: "int \<Rightarrow> 'a list \<Rightarrow> 'a list" where
  "py_take i xs = take (if i \<ge> 0 then nat i else length xs - nat (- i)) xs"

definition unknown_result :: step_result where
  "unknown_result = \<lparr>final_output = [], step_summary = missing_summary, verified = False, approved = False,
     stalled = False, iterations_used = 0, session_id = None\<rparr>"

definition seed_done :: "plan_node list \<Rightarrow> string list \<Rightarrow> int \<Rightarrow> (string \<times> step_result) list option \<Rightarrow> done_map" where
  "seed_done nodes order start seeds = (case seeds of
       Some (x # xs) \<Rightarrow> map_of (filter (\<lambda>(nid, r). nid \<in> set (node_ids nodes)) (x # xs))
     | _ \<Rightarrow> map_of (map (\<lambda>nid. (nid, unknown_result)) (py_take start order)))"

definition fresh_state :: "tree \<Rightarrow> ck_state \<Rightarrow> m_event list \<Rightarrow> done_map \<Rightarrow> graph_state" where
  "fresh_state live ck evs dn = \<lparr>gs_done = dn, gs_running = [],
     gs_status = (\<lambda>n. if dn n \<noteq> None then Passed else Pending), gs_live = live, gs_outcomes = [],
     gs_verified = False, gs_approved = False, gs_stalled = False, gs_iterations = 0, gs_ck = ck, gs_log = evs,
     gs_phase = Going\<rparr>"

definition start_graph :: "graph_cfg \<Rightarrow> graph_env \<Rightarrow> string list \<Rightarrow> graph_state \<Rightarrow> graph_state" where
  "start_graph cfg env order s = settle_run cfg env order (schedule_ready cfg order s)"

text \<open>The first state of a graph run, or the sort's error.\<close>

definition execute_graph :: "graph_cfg \<Rightarrow> graph_env \<Rightarrow> tree \<Rightarrow> ck_state \<Rightarrow> m_event list \<Rightarrow> int \<Rightarrow>
    (string \<times> step_result) list option \<Rightarrow> graph_error + string list \<times> graph_state" where
  "execute_graph cfg env live ck evs start seeds = ebind (topo_order (gc_nodes cfg)) (\<lambda>order.
     Inr (order, start_graph cfg env order (fresh_state live ck evs (seed_done (gc_nodes cfg) order start seeds))))"

end
