(* ===== verification/Master_Graph_Laws.thy ===== *)
theory Master_Graph_Laws
  imports Master_Graph
begin

text \<open>
  The laws of the graph walker, for every interleaving: the frontier invariant (dependencies before
  dependents, the cap on running nodes, contexts that are a function of the ancestors' results), no
  deadlock, a bound on the length of a run, what a run that returns has done, and what its verdict
  means.
\<close>

section \<open>Plans and frontiers\<close>

definition plan_ok :: "graph_cfg \<Rightarrow> string list \<Rightarrow> bool" where
  "plan_ok cfg order = (wf_plan (gc_nodes cfg) \<and> topo_order (gc_nodes cfg) = Inr order)"

abbreviation deps_of :: "graph_cfg \<Rightarrow> string \<Rightarrow> string set" where
  "deps_of cfg n \<equiv> set (deps_at (gc_nodes cfg) n)"

lemma plan_ok_facts:
  assumes "plan_ok cfg order"
  shows "wf_plan (gc_nodes cfg)" "topo_order (gc_nodes cfg) = Inr order" "distinct order"
    "set order = set (node_ids (gc_nodes cfg))" "acyclic (dep_rel (gc_nodes cfg))"
    "deps_first (deps_at (gc_nodes cfg)) order"
proof -
  from assms show a: "wf_plan (gc_nodes cfg)" "topo_order (gc_nodes cfg) = Inr order" by (simp_all add: plan_ok_def)
  from kahn.sorter_permutes [OF a] kahn.sorter_sound [OF a] kahn.sorter_succeeds_iff [OF a(1)] a(2)
  show "distinct order" "set order = set (node_ids (gc_nodes cfg))" "acyclic (dep_rel (gc_nodes cfg))"
    "deps_first (deps_at (gc_nodes cfg)) order" by auto
qed

text \<open>A set of finished nodes that contains the dependencies of its members.\<close>

definition closed :: "graph_cfg \<Rightarrow> done_map \<Rightarrow> bool" where
  "closed cfg dn = (\<forall>n \<in> dom dn. deps_of cfg n \<subseteq> dom dn)"

lemma closed_ancestors:
  assumes "closed cfg dn" "deps_of cfg n \<subseteq> dom dn" "(a, n) \<in> (dep_rel (gc_nodes cfg))\<^sup>+"
  shows "a \<in> dom dn"
  using assms(3)
proof (induction rule: converse_trancl_induct)
  case (base y)
  with assms(2) show ?case by (auto simp: dep_rel_def)
next
  case (step y z)
  then have "y \<in> deps_of cfg z" by (simp add: dep_rel_def)
  with step.IH assms(1) show ?case unfolding closed_def by blast
qed

lemma compose_context_cong:
  assumes "plan_ok cfg order" "n \<in> set order"
    and "\<And>a. (a, n) \<in> (dep_rel (gc_nodes cfg))\<^sup>+ \<Longrightarrow> dn' a = dn a"
  shows "compose_context (gc_nodes cfg) n dn' prompt = compose_context (gc_nodes cfg) n dn prompt"
proof -
  note ok = plan_ok_facts [OF assms(1)]
  from assms(2) ok(4) have n: "n \<in> set (node_ids (gc_nodes cfg))" by simp
  obtain xs where xs: "ancestors (gc_nodes cfg) n = Inr xs" "set xs = {a. (a, n) \<in> (dep_rel (gc_nodes cfg))\<^sup>+}"
    using ancestors_closure [OF ok(1, 5) n] by blast
  have "ancestor_blocks (gc_nodes cfg) order dn' xs = ancestor_blocks (gc_nodes cfg) order dn xs"
    using assms(3) xs(2) by (intro ancestor_blocks_cong) auto
  with ok(2) xs(1) show ?thesis by (simp add: compose_context_def)
qed

lemma compose_context_total:
  assumes "plan_ok cfg order" "n \<in> set order" "closed cfg dn" "deps_of cfg n \<subseteq> dom dn"
  obtains ctx where "compose_context (gc_nodes cfg) n dn prompt = Inr ctx"
proof -
  note ok = plan_ok_facts [OF assms(1)]
  from assms(2) ok(4) have n: "n \<in> set (node_ids (gc_nodes cfg))" by simp
  have "\<forall>a. (a, n) \<in> (dep_rel (gc_nodes cfg))\<^sup>+ \<longrightarrow> dn a \<noteq> None"
    using closed_ancestors [OF assms(3, 4)] by blast
  then show ?thesis by (rule compose_context_works [OF ok(1, 5) n]) (rule that)
qed

section \<open>The invariant\<close>

fun context_ok :: "graph_cfg \<Rightarrow> done_map \<Rightarrow> string \<Rightarrow> node_task \<Rightarrow> bool" where
  "context_ok cfg dn n (Composed ctx) = (compose_context (gc_nodes cfg) n dn (gc_prompt cfg) = Inr ctx)"
| "context_ok cfg dn n (Opened ctx ws) = (compose_context (gc_nodes cfg) n dn (gc_prompt cfg) = Inr ctx)"
| "context_ok cfg dn n (Crashed e) = (\<forall>c. e \<noteq> Compose_Error c)"
| "context_ok cfg dn n _ = True"

definition task_ok :: "graph_cfg \<Rightarrow> string list \<Rightarrow> done_map \<Rightarrow> string \<times> node_task \<Rightarrow> bool" where
  "task_ok cfg order dn nt = (fst nt \<in> set order \<and> dn (fst nt) = None \<and> deps_of cfg (fst nt) \<subseteq> dom dn \<and>
     context_ok cfg dn (fst nt) (snd nt))"

definition frontier :: "graph_cfg \<Rightarrow> string list \<Rightarrow> graph_state \<Rightarrow> bool" where
  "frontier cfg order s = (distinct (map fst (gs_running s)) \<and> dom (gs_done s) \<subseteq> set order \<and> closed cfg (gs_done s) \<and>
     (\<forall>nt \<in> set (gs_running s). task_ok cfg order (gs_done s) nt) \<and>
     (\<forall>c. gc_cap cfg = Some c \<longrightarrow> slots_used s \<le> c) \<and> (\<forall>c. gs_phase s \<noteq> Aborted (Compose_Error c)))"

text \<open>While the run goes on there is a task, and every other node waits for a dependency.\<close>

definition released :: "graph_cfg \<Rightarrow> string list \<Rightarrow> graph_state \<Rightarrow> bool" where
  "released cfg order s = (gs_running s \<noteq> [] \<and>
     (\<forall>n \<in> set order. gs_done s n = None \<and> n \<notin> fst ` set (gs_running s) \<longrightarrow> \<not> deps_of cfg n \<subseteq> dom (gs_done s)))"

section \<open>Moves of a node\<close>

fun rank :: "node_task \<Rightarrow> nat" where
  "rank Waiting = 6"
| "rank (Composed c) = 5"
| "rank (Opened c w) = 4"
| "rank (Ran b w r) = 3"
| "rank (Merged r out) = 2"
| "rank _ = 1"

lemma rank_pos [simp]: "0 < rank t"
  by (cases t) auto

lemma merge_back_keeps:
  assumes "merge_back cfg env order nid base ws r s = (t', s')"
  shows "gs_done s' = gs_done s" "gs_running s' = gs_running s" "gs_status s' = gs_status s"
    "gs_phase s' = gs_phase s" "gs_log s' = gs_log s" "gs_verified s' = gs_verified s" "gs_ck s' = gs_ck s"
    "(\<exists>out. t' = Merged r out) \<or> (\<exists>e. t' = Crashed (Merge_Error e))"
  using assms by (auto simp: merge_back_def split: prod.splits sum.splits merge_error.splits)

lemma run_dag_node_keeps:
  assumes "run_dag_node cfg env order nid t s = Some (t', s')"
  shows "gs_done s' = gs_done s \<and> gs_running s' = gs_running s \<and> gs_status s' = gs_status s \<and>
    gs_phase s' = gs_phase s \<and> gs_verified s' = gs_verified s \<and> gs_ck s' = gs_ck s \<and>
    rank t' < rank t \<and> (holds_slot t' \<longrightarrow> holds_slot t \<or> slot_free cfg s)"
proof (cases t)
  case Waiting
  with assms show ?thesis by (auto split: if_splits sum.splits)
next
  case (Composed ctx)
  with assms show ?thesis by (auto split: option.splits)
next
  case (Opened ctx ws)
  obtain w evs res where "execute_step (gc_step cfg) (ge_step env nid) (int (step_no order nid)) (length order)
      (task_of (gc_nodes cfg) nid) ctx None \<lparr>w_tree = ws, w_calls = 0, w_checks = 0\<rparr> = (w, evs, res)"
    by (metis prod_cases3)
  with assms Opened show ?thesis by (cases res) auto
next
  case (Ran base ws r)
  with assms have m: "merge_back cfg env order nid base ws r s = (t', s')" by simp
  from merge_back_keeps [OF m] Ran show ?thesis by auto
qed (use assms in auto)

lemma run_dag_node_context:
  assumes "run_dag_node cfg env order nid t s = Some (t', s')" "plan_ok cfg order" "closed cfg (gs_done s)"
    "task_ok cfg order (gs_done s) (nid, t)"
  shows "task_ok cfg order (gs_done s) (nid, t')"
proof -
  have "context_ok cfg (gs_done s) nid t'"
  proof (cases t)
    case Waiting
    have "nid \<in> set order" "deps_of cfg nid \<subseteq> dom (gs_done s)" using assms(4) by (simp_all add: task_ok_def)
    then obtain ctx where "compose_context (gc_nodes cfg) nid (gs_done s) (gc_prompt cfg) = Inr ctx"
      by (rule compose_context_total [OF assms(2) _ assms(3)])
    with assms(1) Waiting show ?thesis by (auto split: if_splits)
  next
    case (Composed ctx)
    with assms(1, 4) show ?thesis by (auto simp: task_ok_def split: option.splits)
  next
    case (Opened ctx ws)
    obtain w evs res where "execute_step (gc_step cfg) (ge_step env nid) (int (step_no order nid)) (length order)
        (task_of (gc_nodes cfg) nid) ctx None \<lparr>w_tree = ws, w_calls = 0, w_checks = 0\<rparr> = (w, evs, res)"
      by (metis prod_cases3)
    with assms(1) Opened show ?thesis by (cases res) auto
  next
    case (Ran base ws r)
    with assms(1) have "merge_back cfg env order nid base ws r s = (t', s')" by simp
    from merge_back_keeps(8) [OF this] show ?thesis by auto
  qed (use assms(1) in auto)
  with assms(4) show ?thesis by (simp add: task_ok_def)
qed

text \<open>Replacing one task among distinct ids changes a sum by that task's share.\<close>

lemma put_task_sum:
  fixes f :: "node_task \<Rightarrow> nat"
  assumes "distinct (map fst xs)" "(nid, t) \<in> set xs"
  shows "sum_list (map (\<lambda>(n, u). f u) (map (\<lambda>(n, u). (n, if n = nid then t' else u)) xs)) + f t
       = sum_list (map (\<lambda>(n, u). f u) xs) + f t'"
  using assms
proof (induction xs)
  case (Cons x xs)
  obtain n u where x: "x = (n, u)" by (cases x)
  show ?case
  proof (cases "n = nid")
    case True
    with Cons.prems x have "u = t" "nid \<notin> fst ` set xs" by force+
    then have "map (\<lambda>(n, u). (n, if n = nid then t' else u)) xs = xs"
      by (intro map_idI) force
    with x True \<open>u = t\<close> show ?thesis by simp
  next
    case False
    with Cons x have "(nid, t) \<in> set xs" "distinct (map fst xs)" by auto
    with Cons.IH False x show ?thesis by simp
  qed
qed simp

lemma slots_used_sum: "slots_used s = sum_list (map (\<lambda>(n, u). of_bool (holds_slot u)) (gs_running s))"
proof -
  have "length (filter (\<lambda>(n, t). holds_slot t) xs) = sum_list (map (\<lambda>(n, u). of_bool (holds_slot u)) xs)" for xs :: "(string \<times> node_task) list"
    by (induction xs) auto
  then show ?thesis by (simp add: slots_used_def)
qed

lemma put_task_simps [simp]:
  "gs_done (put_task nid t s) = gs_done s" "gs_status (put_task nid t s) = gs_status s"
  "gs_phase (put_task nid t s) = gs_phase s" "gs_verified (put_task nid t s) = gs_verified s"
  "map fst (gs_running (put_task nid t s)) = map fst (gs_running s)"
  "fst ` set (gs_running (put_task nid t s)) = fst ` set (gs_running s)"
  "gs_log (put_task nid t s) = gs_log s" "gs_ck (put_task nid t s) = gs_ck s" "gs_live (put_task nid t s) = gs_live s"
  by (force simp: put_task_def comp_def split_beta)+

lemma put_task_empty [simp]: "gs_running (put_task nid t s) = [] \<longleftrightarrow> gs_running s = []"
  by (simp add: put_task_def)

lemma put_task_mem: "nt \<in> set (gs_running (put_task nid t s)) \<Longrightarrow> nt = (nid, t) \<or> nt \<in> set (gs_running s)"
  by (auto simp: put_task_def split: if_splits)

lemma node_moves_frontier:
  assumes "plan_ok cfg order" "frontier cfg order s" "(nid, t) \<in> set (gs_running s)"
    "run_dag_node cfg env order nid t s = Some (t', s')"
  shows "frontier cfg order (put_task nid t' s')"
proof -
  note k = run_dag_node_keeps [OF assms(4)]
  from assms(2) have inv: "distinct (map fst (gs_running s))" "dom (gs_done s) \<subseteq> set order" "closed cfg (gs_done s)"
    "\<forall>nt \<in> set (gs_running s). task_ok cfg order (gs_done s) nt"
    "\<forall>c. gc_cap cfg = Some c \<longrightarrow> slots_used s \<le> c" "\<forall>c. gs_phase s \<noteq> Aborted (Compose_Error c)"
    by (auto simp: frontier_def)
  have "task_ok cfg order (gs_done s) (nid, t')"
    using run_dag_node_context [OF assms(4, 1) inv(3)] inv(4) assms(3) by blast
  with inv(4) k have "\<forall>nt \<in> set (gs_running (put_task nid t' s')). task_ok cfg order (gs_done s) nt"
    using put_task_mem by metis
  moreover have "slots_used (put_task nid t' s') + of_bool (holds_slot t) = slots_used s + of_bool (holds_slot t')"
    unfolding slots_used_sum put_task_def using put_task_sum [OF inv(1) assms(3), of "\<lambda>u. of_bool (holds_slot u)" t']
    by (simp add: k)
  then have "\<forall>c. gc_cap cfg = Some c \<longrightarrow> slots_used (put_task nid t' s') \<le> c"
    using inv(5) k by (cases "holds_slot t"; cases "holds_slot t'") (auto simp: slot_free_def)
  ultimately show ?thesis using inv k by (simp add: frontier_def)
qed

section \<open>Wake-ups of the scheduler\<close>

lemma fold_signals_keeps [simp]:
  "gs_done (fold_signals order s) = gs_done s" "gs_running (fold_signals order s) = gs_running s"
  "gs_status (fold_signals order s) = gs_status s" "gs_phase (fold_signals order s) = gs_phase s"
  "gs_log (fold_signals order s) = gs_log s" "gs_ck (fold_signals order s) = gs_ck s"
  by (simp_all add: fold_signals_def Let_def)

lemma take_result_simps [simp]:
  "gs_done (take_result order nid r s) = (gs_done s)(nid \<mapsto> r)"
  "gs_running (take_result order nid r s) = filter (\<lambda>(n, t). n \<noteq> nid) (gs_running s)"
  "gs_status (take_result order nid r s) = (gs_status s)(nid := status_of r)"
  "gs_phase (take_result order nid r s) = gs_phase s" "gs_log (take_result order nid r s) = gs_log s"
  by (simp_all add: take_result_def)

lemma distinct_fst_filter: "distinct (map fst xs) \<Longrightarrow> distinct (map fst (filter P xs))"
  by (induction xs) auto

lemma context_ok_cong:
  assumes "compose_context (gc_nodes cfg) n dn' (gc_prompt cfg) = compose_context (gc_nodes cfg) n dn (gc_prompt cfg)"
  shows "context_ok cfg dn' n t = context_ok cfg dn n t"
  by (cases t) (simp_all add: assms)

lemma length_filter_filter: "length (filter P (filter Q xs)) \<le> length (filter P xs)"
  by (induction xs) auto

text \<open>Finishing one node leaves the others' contexts alone: it is not among their ancestors.\<close>

lemma task_ok_other:
  assumes "plan_ok cfg order" "closed cfg dn" "task_ok cfg order dn (n, t)" "dn nid = None" "n \<noteq> nid"
  shows "task_ok cfg order (dn(nid \<mapsto> r)) (n, t)"
proof -
  from assms(3) have n: "n \<in> set order" "deps_of cfg n \<subseteq> dom dn" by (auto simp: task_ok_def)
  have same: "(dn(nid \<mapsto> r)) a = dn a" if "(a, n) \<in> (dep_rel (gc_nodes cfg))\<^sup>+" for a
    using closed_ancestors [OF assms(2) n(2) that] assms(4) by auto
  have "compose_context (gc_nodes cfg) n (dn(nid \<mapsto> r)) (gc_prompt cfg) =
      compose_context (gc_nodes cfg) n dn (gc_prompt cfg)"
    by (rule compose_context_cong [OF assms(1) n(1)]) (rule same)
  from context_ok_cong [OF this, where t = t] assms(3, 5) show ?thesis by (auto simp: task_ok_def)
qed

lemma closed_update: "closed cfg dn \<Longrightarrow> deps_of cfg n \<subseteq> dom dn \<Longrightarrow> closed cfg (dn(n \<mapsto> r))"
  by (auto simp: closed_def)

lemma take_result_frontier:
  assumes "plan_ok cfg order" "frontier cfg order s" "(nid, Finished r) \<in> set (gs_running s)"
  shows "frontier cfg order (take_result order nid r s)"
proof -
  from assms(2) have inv: "distinct (map fst (gs_running s))" "dom (gs_done s) \<subseteq> set order" "closed cfg (gs_done s)"
    "\<forall>nt \<in> set (gs_running s). task_ok cfg order (gs_done s) nt"
    "\<forall>c. gc_cap cfg = Some c \<longrightarrow> slots_used s \<le> c" "\<forall>c. gs_phase s \<noteq> Aborted (Compose_Error c)"
    by (auto simp: frontier_def)
  have "task_ok cfg order (gs_done s) (nid, Finished r)" using inv(4) assms(3) by blast
  then have n: "nid \<in> set order" "deps_of cfg nid \<subseteq> dom (gs_done s)" "gs_done s nid = None"
    by (simp_all add: task_ok_def)
  have "\<forall>nt \<in> set (filter (\<lambda>(n, t). n \<noteq> nid) (gs_running s)). task_ok cfg order ((gs_done s)(nid \<mapsto> r)) nt"
    using inv(4) task_ok_other [OF assms(1) inv(3) _ n(3)] by auto
  moreover have "slots_used (take_result order nid r s) \<le> slots_used s"
    unfolding slots_used_def take_result_simps by (rule length_filter_filter)
  then have "\<forall>c. gc_cap cfg = Some c \<longrightarrow> slots_used (take_result order nid r s) \<le> c"
    using inv(5) order_trans by blast
  moreover have "closed cfg ((gs_done s)(nid \<mapsto> r))" by (rule closed_update [OF inv(3) n(2)])
  ultimately show ?thesis
    using inv n by (simp add: frontier_def distinct_fst_filter)
qed

lemma abort_frontier: "frontier cfg order s \<Longrightarrow> \<forall>c. e \<noteq> Compose_Error c \<Longrightarrow> frontier cfg order (abort e s)"
  by (simp add: frontier_def abort_def slots_used_def)

lemma harvest_frontier:
  assumes "plan_ok cfg order" "frontier cfg order s" "set fin \<subseteq> set (gs_running s)" "distinct (map fst fin)"
    "\<forall>(n, t) \<in> set fin. over t" "harvest order fin s = (b, s1)"
  shows "frontier cfg order s1 \<and>
    (if b then gs_phase s1 = gs_phase s \<and> gs_running s1 = filter (\<lambda>(n, t). n \<notin> fst ` set fin) (gs_running s) \<and>
       dom (gs_done s1) = dom (gs_done s) \<union> fst ` set fin \<and> gs_log s1 = gs_log s \<and>
       (\<forall>(n, t) \<in> set fin. \<exists>r. t = Finished r)
     else \<exists>e. gs_phase s1 = Aborted e \<and> (\<forall>c. e \<noteq> Compose_Error c) \<and> gs_log s1 = gs_log s)"
  using assms(2-6)
proof (induction fin arbitrary: s)
  case Nil
  then show ?case by simp
next
  case (Cons nt fin)
  obtain n t where nt: "nt = (n, t)" by (cases nt)
  show ?case
  proof (cases t)
    case (Finished r)
    let ?s = "take_result order n r s"
    have inv: "frontier cfg order ?s"
      using take_result_frontier [OF assms(1) Cons.prems(1)] Cons.prems(2) nt Finished by simp
    have sub: "set fin \<subseteq> set (gs_running ?s)" "distinct (map fst fin)" "\<forall>(n, t) \<in> set fin. over t"
      using Cons.prems(2-4) nt by (auto simp: rev_image_eqI)
    from Cons.prems(5) nt Finished have "harvest order fin ?s = (b, s1)" by simp
    from Cons.IH [OF inv sub this] nt Finished show ?thesis
      by (cases b) (auto intro!: filter_cong)
  next
    case (Crashed e)
    with Cons.prems(5) nt have s1: "b = False" "s1 = abort e s" by simp_all
    from Cons.prems(1, 2) nt Crashed have "\<forall>c. e \<noteq> Compose_Error c"
      by (force simp: frontier_def task_ok_def)
    with abort_frontier [OF Cons.prems(1)] s1 show ?thesis by (simp add: abort_def)
  qed (use Cons.prems(4) nt in auto)
qed

lemma schedule_ready_frontier:
  assumes "plan_ok cfg order" "frontier cfg order s"
  shows "frontier cfg order (schedule_ready cfg order s) \<and>
    (\<forall>n \<in> set order. gs_done s n = None \<and> n \<notin> fst ` set (gs_running (schedule_ready cfg order s)) \<longrightarrow>
       \<not> deps_of cfg n \<subseteq> dom (gs_done s))"
proof
  note ok = plan_ok_facts [OF assms(1)]
  let ?new = "map (\<lambda>nid. (nid, Waiting)) (filter (ready cfg s) order)"
  have new: "map fst ?new = filter (ready cfg s) order" by (simp add: comp_def)
  have "distinct (map fst (gs_running s @ ?new))"
    using assms(2) ok(3) unfolding map_append new distinct_append by (auto simp: frontier_def ready_def)
  moreover have "\<forall>nt \<in> set ?new. task_ok cfg order (gs_done s) nt"
    by (auto simp: task_ok_def ready_def list_all_iff)
  moreover have "slots_used (schedule_ready cfg order s) = slots_used s"
    by (simp add: slots_used_def schedule_ready_def filter_empty_conv)
  ultimately show "frontier cfg order (schedule_ready cfg order s)"
    using assms(2) by (auto simp: frontier_def schedule_ready_def)
  show "\<forall>n \<in> set order. gs_done s n = None \<and> n \<notin> fst ` set (gs_running (schedule_ready cfg order s)) \<longrightarrow>
       \<not> deps_of cfg n \<subseteq> dom (gs_done s)"
    by (auto simp: schedule_ready_def ready_def list_all_iff image_Un image_image)
qed

text \<open>With no task left every node is finished: the first unfinished one of the order would be ready.\<close>

lemma all_done:
  assumes "plan_ok cfg order" "\<forall>n \<in> set order. dn n = None \<longrightarrow> \<not> deps_of cfg n \<subseteq> dom dn"
  shows "set order \<subseteq> dom dn"
proof -
  note df = plan_ok_facts(6) [OF assms(1), unfolded deps_first_def]
  have "order ! i \<in> dom dn" if "i < length order" for i
    using that
  proof (induction i rule: less_induct)
    case (less i)
    have "set (take i order) \<subseteq> dom dn"
    proof
      fix x assume "x \<in> set (take i order)"
      then obtain j where "j < i" "x = order ! j" using less.prems by (auto simp: in_set_conv_nth)
      with less show "x \<in> dom dn" by simp
    qed
    with df less.prems have "deps_of cfg (order ! i) \<subseteq> dom dn" by blast
    with assms(2) less.prems show ?case by force
  qed
  then show ?thesis by (metis in_set_conv_nth subsetI)
qed

section \<open>Every reachable state\<close>

definition graph_sound :: "graph_cfg \<Rightarrow> string list \<Rightarrow> graph_state \<Rightarrow> bool" where
  "graph_sound cfg order s = (frontier cfg order s \<and> (case gs_phase s of
       Going \<Rightarrow> released cfg order s
     | Returned c \<Rightarrow> set order \<subseteq> dom (gs_done s) \<and> gs_running s = [] \<and>
         c = rebuild_linear_context (gc_nodes cfg) order (gs_done s) (gc_prompt cfg)
     | Aborted e \<Rightarrow> True))"

lemma settle_sound:
  assumes "plan_ok cfg order" "frontier cfg order s" "gs_phase s = Going"
    "\<forall>n \<in> set order. gs_done s n = None \<and> n \<notin> fst ` set (gs_running s) \<longrightarrow> \<not> deps_of cfg n \<subseteq> dom (gs_done s)"
  shows "graph_sound cfg order (settle_run cfg env order s)"
proof (cases "gs_running s = []")
  case True
  with assms(4) have "set order \<subseteq> dom (gs_done s)" by (intro all_done [OF assms(1)]) simp
  with True assms(2) show ?thesis
    by (simp add: settle_run_def graph_sound_def frontier_def slots_used_def)
next
  case False
  with assms show ?thesis by (simp add: settle_run_def graph_sound_def released_def)
qed

lemma schedule_settle_sound:
  assumes "plan_ok cfg order" "frontier cfg order s" "gs_phase s = Going"
  shows "graph_sound cfg order (settle_run cfg env order (schedule_ready cfg order s))"
proof -
  have "gs_done (schedule_ready cfg order s) = gs_done s" "gs_phase (schedule_ready cfg order s) = Going"
    using assms(3) by (simp_all add: schedule_ready_def)
  with schedule_ready_frontier [OF assms(1, 2)] show ?thesis
    by (intro settle_sound [OF assms(1)]) simp_all
qed

lemma checkpoint_graph_keeps:
  assumes "checkpoint_graph cfg order g d s = (b, s1)"
  shows "s1 = s\<lparr>gs_ck := gs_ck s1\<rparr>"
  using assms by (auto simp: checkpoint_graph_def split: prod.splits)

lemma frontier_ck: "frontier cfg order (s\<lparr>gs_ck := ck\<rparr>) = frontier cfg order s"
  by (simp add: frontier_def slots_used_def)

lemma distinct_over_filter:
  assumes "distinct (map fst xs)"
  shows "filter (\<lambda>(n, t). n \<notin> fst ` set (filter (\<lambda>(n, t). over t) xs)) xs = filter (\<lambda>(n, t). \<not> over t) xs"
proof (rule filter_cong [OF refl])
  fix nt assume nt: "nt \<in> set xs"
  obtain n t where e: "nt = (n, t)" by (cases nt)
  have same: "u = t" if "(n, u) \<in> set xs" for u
    by (rule eq_key_imp_eq_value [OF assms that]) (use nt e in simp)
  have "n \<in> fst ` set (filter (\<lambda>(n, t). over t) xs) \<longleftrightarrow> over t"
  proof
    assume "n \<in> fst ` set (filter (\<lambda>(n, t). over t) xs)"
    then obtain u where "(n, u) \<in> set xs" "over u" by auto
    with same show "over t" by simp
  next
    assume "over t"
    with nt e have "(n, t) \<in> set (filter (\<lambda>(n, t). over t) xs)" by simp
    then show "n \<in> fst ` set (filter (\<lambda>(n, t). over t) xs)" by (rule image_eqI [rotated]) simp
  qed
  with e show "(case nt of (n, t) \<Rightarrow> n \<notin> fst ` set (filter (\<lambda>(n, t). over t) xs)) = (case nt of (n, t) \<Rightarrow> \<not> over t)"
    by simp
qed

text \<open>What a wake-up does, up to the checkpoint it writes.\<close>

lemma wake_up_cases:
  assumes "plan_ok cfg order" "frontier cfg order s" "gs_phase s = Going"
  obtains (aborted) e s1 where "wake_up cfg env order g d s = s1" "gs_phase s1 = Aborted e" "frontier cfg order s1"
      "gs_log s1 = gs_log s"
  | (continued) s1 where "wake_up cfg env order g d s = settle_run cfg env order (schedule_ready cfg order s1)"
      "frontier cfg order s1" "gs_phase s1 = Going" "gs_log s1 = gs_log s"
      "gs_running s1 = filter (\<lambda>(n, t). \<not> over t) (gs_running s)"
      "dom (gs_done s1) = dom (gs_done s) \<union> fst ` set (filter (\<lambda>(n, t). over t) (gs_running s))"
      "\<forall>(n, t) \<in> set (gs_running s). over t \<longrightarrow> (\<exists>r. t = Finished r)"
proof -
  let ?fin = "filter (\<lambda>(n, t). over t) (gs_running s)"
  have d: "distinct (map fst (gs_running s))" using assms(2) by (simp add: frontier_def)
  obtain b s1 where h: "harvest order ?fin s = (b, s1)" by fastforce
  have facts: "frontier cfg order s1 \<and>
    (if b then gs_phase s1 = gs_phase s \<and> gs_running s1 = filter (\<lambda>(n, t). n \<notin> fst ` set ?fin) (gs_running s) \<and>
       dom (gs_done s1) = dom (gs_done s) \<union> fst ` set ?fin \<and> gs_log s1 = gs_log s \<and>
       (\<forall>(n, t) \<in> set ?fin. \<exists>r. t = Finished r)
     else \<exists>e. gs_phase s1 = Aborted e \<and> (\<forall>c. e \<noteq> Compose_Error c) \<and> gs_log s1 = gs_log s)"
    by (rule harvest_frontier [OF assms(1, 2) _ _ _ h]) (auto simp: d distinct_fst_filter)
  show thesis
  proof (cases b)
    case False
    with h facts aborted show thesis by (auto simp: wake_up_def)
  next
    case True
    have r1: "gs_running s1 = filter (\<lambda>(n, t). \<not> over t) (gs_running s)"
      using facts True distinct_over_filter [OF d] by presburger
    have fn: "\<forall>(n, t) \<in> set (gs_running s). over t \<longrightarrow> (\<exists>r. t = Finished r)"
      using facts True by auto
    have d1: "dom (gs_done s1) = dom (gs_done s) \<union> fst ` set ?fin" using facts True by presburger
    obtain b2 s2 where c: "checkpoint_graph cfg order g d s1 = (b2, s2)" by fastforce
    note s2 = checkpoint_graph_keeps [OF c]
    have f2: "frontier cfg order s2" using facts by (subst s2, simp add: frontier_ck)
    have l2: "gs_log s2 = gs_log s" "gs_phase s2 = Going" "gs_running s2 = gs_running s1" "gs_done s2 = gs_done s1"
      using facts True assms(3) by (subst s2, simp)+
    show thesis
    proof (cases b2)
      case False
      have "wake_up cfg env order g d s = abort Save_Failed s2" using h c True False by (simp add: wake_up_def)
      then show thesis
        by (rule aborted) (use abort_frontier [OF f2] l2 in \<open>simp_all add: abort_def\<close>)
    next
      case True
      have "wake_up cfg env order g d s = settle_run cfg env order (schedule_ready cfg order s2)"
        using h c \<open>b\<close> True by (simp add: wake_up_def)
      then show thesis
        by (rule continued) (use f2 l2 r1 d1 fn in simp_all)
    qed
  qed
qed

lemma graph_step_sound:
  assumes "plan_ok cfg order" "graph_sound cfg order s" "graph_step cfg env order s s'"
  shows "graph_sound cfg order s'"
  using assms(3)
proof (cases rule: graph_step.cases)
  case (node_moves nid t t' s1)
  from assms(2) node_moves(2) have f: "frontier cfg order s" "released cfg order s" by (auto simp: graph_sound_def)
  from run_dag_node_keeps [OF node_moves(4)] have "gs_phase s1 = Going" "gs_done s1 = gs_done s" "gs_running s1 = gs_running s"
    using node_moves(2) by simp_all
  with node_moves_frontier [OF assms(1) f(1) node_moves(3, 4)] f(2) node_moves(1) show ?thesis
    by (simp add: graph_sound_def released_def)
next
  case (wakes_up nid t g d)
  from assms(2) wakes_up(2) have f: "frontier cfg order s" by (auto simp: graph_sound_def)
  from assms(1) f wakes_up(2) show ?thesis
  proof (cases rule: wake_up_cases [where env = env and g = g and d = d])
    case (aborted e s1)
    with wakes_up(1) show ?thesis by (simp add: graph_sound_def)
  next
    case (continued s1)
    with schedule_settle_sound [OF assms(1) continued(2, 3)] wakes_up(1) show ?thesis by simp
  qed
qed

text \<open>Where a run starts.\<close>

definition graph_start :: "graph_cfg \<Rightarrow> graph_env \<Rightarrow> string list \<Rightarrow> graph_state \<Rightarrow> bool" where
  "graph_start cfg env order s0 = (plan_ok cfg order \<and> (\<exists>live ck evs dn. dom dn \<subseteq> set order \<and> closed cfg dn \<and>
     s0 = start_graph cfg env order (fresh_state live ck evs dn)))"

lemma start_sound: "graph_start cfg env order s0 \<Longrightarrow> graph_sound cfg order s0"
  unfolding graph_start_def start_graph_def
  by (auto intro!: schedule_settle_sound simp: fresh_state_def frontier_def slots_used_def)

lemma run_sound:
  assumes "graph_start cfg env order s0" "(graph_step cfg env order)\<^sup>*\<^sup>* s0 s"
  shows "graph_sound cfg order s"
  using assms(2)
proof induction
  case base
  from assms(1) show ?case by (rule start_sound)
next
  case (step y z)
  from assms(1) have "plan_ok cfg order" by (simp add: graph_start_def)
  from graph_step_sound [OF this step.IH step.hyps(2)] show ?case .
qed

section \<open>Runs end\<close>

definition unstarted :: "string list \<Rightarrow> graph_state \<Rightarrow> string list" where
  "unstarted order s = filter (\<lambda>n. gs_done s n = None \<and> n \<notin> fst ` set (gs_running s)) order"

definition task_work :: "graph_state \<Rightarrow> nat" where
  "task_work s = sum_list (map (\<lambda>(n, t). rank t) (gs_running s))"

definition work_left :: "string list \<Rightarrow> graph_state \<Rightarrow> nat" where
  "work_left order s = (if gs_phase s = Going then Suc (task_work s + 7 * length (unstarted order s)) else 0)"

lemma rank_split:
  "sum_list (map (\<lambda>(n, t). rank t) xs) = sum_list (map (\<lambda>(n, t). rank t) (filter (\<lambda>(n, t). over t) xs)) +
     sum_list (map (\<lambda>(n, t). rank t) (filter (\<lambda>(n, t). \<not> over t) xs))"
  by (induction xs) auto

lemma over_rank: "over t \<Longrightarrow> rank t = 1"
  by (cases t) auto

lemma wake_up_work:
  assumes "plan_ok cfg order" "frontier cfg order s" "gs_phase s = Going" "(nid, t) \<in> set (gs_running s)" "over t"
  shows "work_left order (wake_up cfg env order g d s) < work_left order s"
  using assms(1-3)
proof (cases rule: wake_up_cases [where env = env and g = g and d = d])
  case (aborted e s1)
  with assms(3) show ?thesis by (simp add: work_left_def)
next
  case (continued s1)
  let ?fin = "filter (\<lambda>(n, t). over t) (gs_running s)" and ?live = "filter (\<lambda>(n, t). \<not> over t) (gs_running s)"
  let ?s2 = "schedule_ready cfg order s1"
  have "task_work s = sum_list (map (\<lambda>(n, t). rank t) ?fin) + sum_list (map (\<lambda>(n, t). rank t) ?live)"
    unfolding task_work_def by (rule rank_split)
  moreover have "0 < sum_list (map (\<lambda>(n, t). rank t) ?fin)"
    using assms(4, 5) member_le_sum_list [of "rank t" "map (\<lambda>(n, t). rank t) ?fin"] over_rank [OF assms(5)]
    by (force simp: image_iff)
  moreover have "task_work ?s2 = sum_list (map (\<lambda>(n, t). rank t) ?live) + 6 * length (filter (ready cfg s1) order)"
    by (simp add: task_work_def schedule_ready_def continued(5) comp_def sum_list_triv)
  moreover have "length (unstarted order ?s2) + length (filter (ready cfg s1) order) \<le> length (unstarted order s)"
  proof -
    have keys: "fst ` set (gs_running s) = fst ` set ?fin \<union> fst ` set ?live" by force
    have dn: "gs_done s1 n = None \<longleftrightarrow> gs_done s n = None \<and> n \<notin> fst ` set ?fin" for n
      using continued(6) by (metis (no_types, lifting) UnE UnI1 UnI2 domIff)
    have s1: "gs_done s1 n = None \<and> n \<notin> fst ` set (gs_running s1) \<longleftrightarrow> gs_done s n = None \<and> n \<notin> fst ` set (gs_running s)" for n
      unfolding dn continued(5) keys by blast
    have "unstarted order s = filter (\<lambda>n. gs_done s1 n = None \<and> n \<notin> fst ` set (gs_running s1)) order"
      unfolding unstarted_def s1 ..
    moreover have "unstarted order ?s2 = filter (\<lambda>n. (gs_done s1 n = None \<and> n \<notin> fst ` set (gs_running s1)) \<and> \<not> ready cfg s1 n) order"
      unfolding unstarted_def by (rule filter_cong) (auto simp: schedule_ready_def image_Un image_image)
    moreover have "filter (ready cfg s1) order = filter (\<lambda>n. (gs_done s1 n = None \<and> n \<notin> fst ` set (gs_running s1)) \<and> ready cfg s1 n) order"
      by (rule filter_cong) (auto simp: ready_def)
    ultimately show ?thesis
      using length_filter_split [of "\<lambda>n. gs_done s1 n = None \<and> n \<notin> fst ` set (gs_running s1)" order "ready cfg s1"] by simp
  qed
  moreover have "work_left order (settle_run cfg env order ?s2) \<le> Suc (task_work ?s2 + 7 * length (unstarted order ?s2))"
    by (simp add: settle_run_def work_left_def)
  ultimately show ?thesis
    using continued(1) assms(3) by (simp add: work_left_def)
qed

lemma graph_step_work:
  assumes "plan_ok cfg order" "graph_sound cfg order s" "graph_step cfg env order s s'"
  shows "work_left order s' < work_left order s"
  using assms(3)
proof (cases rule: graph_step.cases)
  case (node_moves nid t t' s1)
  from assms(2) node_moves(2) have d: "distinct (map fst (gs_running s))" by (auto simp: graph_sound_def frontier_def)
  from run_dag_node_keeps [OF node_moves(4)] have k: "gs_phase s1 = Going" "gs_done s1 = gs_done s"
    "gs_running s1 = gs_running s" "rank t' < rank t" using node_moves(2) by simp_all
  have "task_work (put_task nid t' s1) + rank t = task_work s + rank t'"
    unfolding task_work_def put_task_def using put_task_sum [OF d node_moves(3), of rank t'] k(3) by simp
  moreover have "unstarted order (put_task nid t' s1) = unstarted order s"
    by (simp add: unstarted_def k)
  ultimately show ?thesis using node_moves(1, 2) k(1, 4) by (simp add: work_left_def)
next
  case (wakes_up nid t g d)
  from assms(2) wakes_up(2) have "frontier cfg order s" by (auto simp: graph_sound_def)
  from wake_up_work [OF assms(1) this wakes_up(2-4)] wakes_up(1) show ?thesis by simp
qed

lemma start_work:
  assumes "graph_start cfg env order s0"
  shows "work_left order s0 \<le> Suc (7 * length order)"
proof -
  from assms obtain live ck evs dn where s0: "s0 = start_graph cfg env order (fresh_state live ck evs dn)"
    by (auto simp: graph_start_def)
  let ?f = "fresh_state live ck evs dn"
  let ?s = "schedule_ready cfg order ?f"
  have "task_work ?s = 6 * length (filter (ready cfg ?f) order)"
    by (simp add: task_work_def schedule_ready_def fresh_state_def comp_def sum_list_triv)
  moreover have "length (unstarted order ?s) + length (filter (ready cfg ?f) order) \<le> length order"
  proof -
    have "unstarted order ?s = filter (\<lambda>n. (dn n = None) \<and> \<not> ready cfg ?f n) order"
      unfolding unstarted_def by (rule filter_cong) (auto simp: schedule_ready_def fresh_state_def image_image)
    moreover have "filter (ready cfg ?f) order = filter (\<lambda>n. dn n = None \<and> ready cfg ?f n) order"
      by (rule filter_cong) (auto simp: ready_def fresh_state_def)
    ultimately show ?thesis
      using length_filter_split [of "\<lambda>n. dn n = None" order "ready cfg ?f"] length_filter_le [of "\<lambda>n. dn n = None" order] by simp
  qed
  moreover have "work_left order s0 \<le> Suc (task_work ?s + 7 * length (unstarted order ?s))"
    by (simp add: s0 start_graph_def settle_run_def work_left_def)
  ultimately show ?thesis by simp
qed

lemma steps_work:
  assumes "graph_start cfg env order s0" "(graph_step cfg env order ^^ n) s0 s"
  shows "work_left order s + n \<le> Suc (7 * length order)"
  using assms(2)
proof (induction n arbitrary: s)
  case 0
  with start_work [OF assms(1)] show ?case by simp
next
  case (Suc n)
  then obtain y where y: "(graph_step cfg env order ^^ n) s0 y" "graph_step cfg env order y s" by auto
  from assms(1) have "plan_ok cfg order" by (simp add: graph_start_def)
  from graph_step_work [OF this run_sound [OF assms(1) relpowp_imp_rtranclp [OF y(1)]] y(2)] Suc.IH [OF y(1)]
  show ?case by simp
qed

lemma graph_progress:
  assumes "graph_sound cfg order s" "gs_phase s = Going" "gc_cap cfg \<noteq> Some 0"
  shows "\<exists>s'. graph_step cfg env order s s'"
proof -
  from assms(1, 2) have "gs_running s \<noteq> []" by (simp add: graph_sound_def released_def)
  then obtain nt where "nt \<in> set (gs_running s)" using hd_in_set by blast
  show ?thesis
  proof (cases "\<exists>(n, t) \<in> set (gs_running s). over t \<or> t \<noteq> Waiting")
    case True
    then obtain n t where t: "(n, t) \<in> set (gs_running s)" "over t \<or> t \<noteq> Waiting" by blast
    show ?thesis
    proof (cases "over t")
      case True
      from wakes_up [OF assms(2) t(1) this] show ?thesis by blast
    next
      case False
      with t(2) have "\<exists>p. run_dag_node cfg env order n t s = Some p" by (cases t) auto
      then obtain t' s' where "run_dag_node cfg env order n t s = Some (t', s')" by auto
      from node_moves [OF assms(2) t(1) this] show ?thesis by blast
    qed
  next
    case False
    then have "filter (\<lambda>(n, t). holds_slot t) (gs_running s) = []" by (auto simp: filter_empty_conv)
    then have free: "slot_free cfg s" using assms(3) by (auto simp: slot_free_def slots_used_def split: option.split)
    obtain n t where nt: "nt = (n, t)" by (cases nt)
    with False \<open>nt \<in> set (gs_running s)\<close> have "(n, Waiting) \<in> set (gs_running s)" by auto
    moreover have "\<exists>p. run_dag_node cfg env order n Waiting s = Some p" using free by simp
    then obtain t' s' where "run_dag_node cfg env order n Waiting s = Some (t', s')" by auto
    ultimately show ?thesis using node_moves [OF assms(2)] by blast
  qed
qed

section \<open>What a graph run guarantees\<close>

lemma count_seed_dom: "dom (map_of (map (\<lambda>nid. (nid, r)) xs)) = set xs"
  by (simp add: dom_map_of_conv_image_fst image_image)

lemma seed_done_dom:
  assumes "set order = set (node_ids nodes)"
  shows "dom (seed_done nodes order start seeds) \<subseteq> set order"
proof -
  have count: "dom (map_of (map (\<lambda>nid. (nid, unknown_result)) (py_take start order))) \<subseteq> set order"
    unfolding count_seed_dom py_take_def by (rule set_take_subset)
  have seeded: "dom (map_of (filter (\<lambda>(nid, r). nid \<in> set (node_ids nodes)) ps)) \<subseteq> set order" for ps
    unfolding dom_map_of_conv_image_fst assms by auto
  show ?thesis
  proof (cases seeds)
    case None
    with count show ?thesis by (simp add: seed_done_def)
  next
    case (Some ps)
    with count seeded [of ps] show ?thesis by (cases ps) (simp_all add: seed_done_def)
  qed
qed

lemma execute_graph_start:
  assumes "wf_plan (gc_nodes cfg)" "execute_graph cfg env live ck evs start seeds = Inr (order, s0)"
    "closed cfg (seed_done (gc_nodes cfg) order start seeds)"
  shows "graph_start cfg env order s0"
proof -
  from assms(2) have o: "topo_order (gc_nodes cfg) = Inr order"
    "s0 = start_graph cfg env order (fresh_state live ck evs (seed_done (gc_nodes cfg) order start seeds))"
    by (auto simp: execute_graph_def ebind_iffs)
  with assms(1) have ok: "plan_ok cfg order" by (simp add: plan_ok_def)
  from seed_done_dom [OF plan_ok_facts(4) [OF ok]] ok o(2) assms(3) show ?thesis
    unfolding graph_start_def by blast
qed

text \<open>Seeding the first nodes of the order is closed: the order lists dependencies first.\<close>

lemma count_seed_closed:
  assumes "plan_ok cfg order"
  shows "closed cfg (seed_done (gc_nodes cfg) order start None)"
proof -
  obtain k where k: "py_take start order = take k order" by (auto simp: py_take_def)
  have dom: "dom (seed_done (gc_nodes cfg) order start None) = set (take k order)"
    by (simp add: seed_done_def k count_seed_dom)
  note df = plan_ok_facts(6) [OF assms, unfolded deps_first_def]
  have "deps_of cfg n \<subseteq> set (take k order)" if n: "n \<in> set (take k order)" for n
  proof -
    from n obtain i where i: "i < k" "i < length order" "n = order ! i" by (auto simp: in_set_conv_nth)
    with df have "deps_of cfg n \<subseteq> set (take i order)" by blast
    also have "\<dots> \<subseteq> set (take k order)" by (rule set_take_subset_set_take) (use i in simp)
    finally show ?thesis .
  qed
  then show ?thesis by (simp add: closed_def dom)
qed

text \<open>C3: whatever the interleaving, a node has a task only when all its transitive dependencies are
  finished, and only one; at most the configured number of nodes work at a time; the context a node
  works with is the one its ancestors' results determine, so it does not depend on what unrelated
  nodes have done; and composing it never fails.\<close>

theorem graph_walk_safe:
  assumes "wf_plan (gc_nodes cfg)" "execute_graph cfg env live ck evs start seeds = Inr (order, s0)"
    and "closed cfg (seed_done (gc_nodes cfg) order start seeds)"
    and "(graph_step cfg env order)\<^sup>*\<^sup>* s0 s"
  shows "distinct (map fst (gs_running s)) \<and> (\<forall>c. gc_cap cfg = Some c \<longrightarrow> slots_used s \<le> c) \<and>
    (\<forall>c. gs_phase s \<noteq> Aborted (Compose_Error c)) \<and>
    (\<forall>n t. (n, t) \<in> set (gs_running s) \<longrightarrow> gs_done s n = None \<and>
       (\<forall>a. (a, n) \<in> (dep_rel (gc_nodes cfg))\<^sup>+ \<longrightarrow> gs_done s a \<noteq> None) \<and>
       (\<forall>ctx ws. t = Composed ctx \<or> t = Opened ctx ws \<longrightarrow>
          compose_context (gc_nodes cfg) n (gs_done s) (gc_prompt cfg) = Inr ctx))"
proof -
  from run_sound [OF execute_graph_start [OF assms(1-3)] assms(4)] have f: "frontier cfg order s"
    by (simp add: graph_sound_def)
  then have c: "closed cfg (gs_done s)" by (simp add: frontier_def)
  have "gs_done s n = None \<and> (\<forall>a. (a, n) \<in> (dep_rel (gc_nodes cfg))\<^sup>+ \<longrightarrow> gs_done s a \<noteq> None) \<and>
       (\<forall>ctx ws. t = Composed ctx \<or> t = Opened ctx ws \<longrightarrow>
          compose_context (gc_nodes cfg) n (gs_done s) (gc_prompt cfg) = Inr ctx)"
    if "(n, t) \<in> set (gs_running s)" for n t
  proof -
    from f that have t: "task_ok cfg order (gs_done s) (n, t)" by (simp add: frontier_def)
    then have "\<forall>a. (a, n) \<in> (dep_rel (gc_nodes cfg))\<^sup>+ \<longrightarrow> gs_done s a \<noteq> None"
      using closed_ancestors [OF c] by (auto simp: task_ok_def)
    with t show ?thesis by (auto simp: task_ok_def)
  qed
  with f show ?thesis by (simp add: frontier_def)
qed

text \<open>C8: every graph run ends.  It makes at most seven transitions per node, it never gets stuck while it
  is going on (with room for one node at least), and when it returns, every node of the plan is
  finished and the result is the context the flat loop would have built.\<close>

theorem graph_walk_ends:
  assumes "wf_plan (gc_nodes cfg)" "execute_graph cfg env live ck evs start seeds = Inr (order, s0)"
    and "closed cfg (seed_done (gc_nodes cfg) order start seeds)"
    and "gc_cap cfg \<noteq> Some 0" "(graph_step cfg env order ^^ n) s0 s"
  shows "n \<le> Suc (7 * length (gc_nodes cfg)) \<and>
    (case gs_phase s of
       Going \<Rightarrow> \<exists>s'. graph_step cfg env order s s'
     | Returned c \<Rightarrow> (\<forall>i \<in> set (node_ids (gc_nodes cfg)). gs_done s i \<noteq> None) \<and>
         c = rebuild_linear_context (gc_nodes cfg) order (gs_done s) (gc_prompt cfg)
     | Aborted e \<Rightarrow> True)"
proof -
  note st = execute_graph_start [OF assms(1-3)]
  then have ok: "plan_ok cfg order" by (simp add: graph_start_def)
  from run_sound [OF st relpowp_imp_rtranclp [OF assms(5)]] have snd: "graph_sound cfg order s" .
  have "length order = length (gc_nodes cfg)"
    using kahn.sorter_permutes(3) [OF assms(1) plan_ok_facts(2) [OF ok]] .
  with steps_work [OF st assms(5)] have "n \<le> Suc (7 * length (gc_nodes cfg))" by simp
  moreover have "\<exists>s'. graph_step cfg env order s s'" if "gs_phase s = Going"
    by (rule graph_progress [OF snd that assms(4)])
  moreover have "(\<forall>i \<in> set (node_ids (gc_nodes cfg)). gs_done s i \<noteq> None) \<and>
      c = rebuild_linear_context (gc_nodes cfg) order (gs_done s) (gc_prompt cfg)" if "gs_phase s = Returned c" for c
    using snd that plan_ok_facts(4) [OF ok] by (auto simp: graph_sound_def)
  ultimately show ?thesis by (simp split: phase.split)
qed

end
