(* ===== verification/Master_Linear_Laws.thy ===== *)
theory Master_Linear_Laws
  imports Master_Linear
begin

text \<open>
  The laws of the flat path: the planner always leaves a plan, the loop runs every step once and in
  order on the context of the steps before it, and a killed run resumes where it stopped and ends as
  the uninterrupted run would have.
\<close>

section \<open>The planner\<close>

lemma extract_tasks_nonempty:
  assumes "extract_tasks json s = Inr xs"
  shows "xs \<noteq> []"
proof -
  from assms obtain v where "(case v of
      PList xs \<Rightarrow> if xs = [] then Inl ''Planner produced an EMPTY plan (zero steps).'' else Inr xs
    | _ \<Rightarrow> Inl ''Planner output is not a JSON list.'') = Inr xs"
    by (auto simp: extract_tasks_def ebind_iffs split: option.splits)
  then show ?thesis by (cases v) (auto split: if_splits)
qed

text \<open>Planning fails only when the first planning call itself raises.  Otherwise there is at least one
  step: the array of the first reply that has one, where the second reply is asked for only when the
  first is useless; or, flagged as degraded, the project as a single step.\<close>

theorem planner_outcome:
  "(\<forall>e. run_planner json p p2 prompt = Inl e \<longleftrightarrow> p (planner_prompt prompt) None = Inl e) \<and>
   (\<forall>r. run_planner json p p2 prompt = Inr r \<longrightarrow> pr_tasks r \<noteq> [] \<and>
     (if degraded r then pr_tasks r = [PStr prompt] \<and> (\<exists>e e2. pr_log r = [Plan_Reprompt e, Plan_Failed e2])
      else \<exists>out session. p (planner_prompt prompt) None = Inr (out, session) \<and>
        (pr_log r = [] \<and> extract_tasks json out = Inr (pr_tasks r) \<or>
         (\<exists>e out2 session2. pr_log r = [Plan_Reprompt e] \<and> extract_tasks json out = Inl e \<and>
           p2 (reprompt prompt) (truthy_str session) = Inr (out2, session2) \<and>
           extract_tasks json out2 = Inr (pr_tasks r)))))"
proof (cases "p (planner_prompt prompt) None")
  case (Inl e)
  then show ?thesis by (simp add: run_planner_def)
next
  case (Inr os)
  then show ?thesis
    using extract_tasks_nonempty [of json]
    by (cases os)
      (auto simp: run_planner_def degraded_def single_step_def Let_def split: sum.splits)
qed

definition no_json :: "string \<Rightarrow> string + pyval" where
  "no_json s = (if s = ''[]'' then Inr (PList []) else Inl ''bad'')"

lemma planner_outcome_witness:
  "\<exists>r. run_planner no_json (\<lambda>q s. Inr (''Here: [] ok'', Some ''S'')) (\<lambda>q s. Inr (''[1'', s)) ''goal'' = Inr r \<and>
     degraded r \<and> pr_tasks r = [PStr ''goal'']"
proof -
  let ?run = "run_planner no_json (\<lambda>q s. Inr (''Here: [] ok'', Some ''S'')) (\<lambda>q s. Inr (''[1'', s)) ''goal''"
  have e: "extract_tasks no_json ''Here: [] ok'' = Inl ''Planner produced an EMPTY plan (zero steps).''"
    "extract_tasks no_json ''[1'' = Inl ''No JSON array found.''" by code_simp+
  then obtain r where r: "?run = Inr r" "degraded r"
    by (auto simp: run_planner_def degraded_def single_step_def Let_def truthy_str_def)
  with planner_outcome [of no_json "\<lambda>q s. Inr (''Here: [] ok'', Some ''S'')" "\<lambda>q s. Inr (''[1'', s)" "''goal''"]
  show ?thesis by auto
qed

section \<open>Loops\<close>

lemma linear_loop_append:
  "linear_loop cfg env prompt tasks (is @ js) s =
     (case linear_loop cfg env prompt tasks is s of (False, s1) \<Rightarrow> (False, s1)
      | (True, s1) \<Rightarrow> linear_loop cfg env prompt tasks js s1)"
  by (induction "is" arbitrary: s) (auto split: prod.split bool.split)

lemma linear_loop_snoc:
  "linear_loop cfg env prompt tasks (is @ [i]) s = (True, s2) \<longleftrightarrow>
     (\<exists>s1. linear_loop cfg env prompt tasks is s = (True, s1) \<and> linear_step cfg env prompt tasks i s1 = (True, s2))"
  by (auto simp: linear_loop_append split: prod.splits bool.splits)

lemma upto_first: "[0..int (Suc k) - 1] = [0..int k - 1] @ [int k]"
  by (simp add: upto_rec2)

lemma upto_cut: "k < n \<Longrightarrow> [0..int n - 1] = [0..int k - 1] @ [int k..int n - 1]"
  by (rule upto_split1) auto

text \<open>What a pass that succeeds has done.\<close>

lemma linear_step_ok:
  assumes "linear_step cfg env prompt tasks i s = (True, s2)"
  obtains task w evs r s1 where "py_nth tasks i = Some (PStr task)"
    "execute_step (rc_step cfg) (rn_step env i) (i + 1) (length tasks) task (ls_context s) (ls_session s) (ls_world s) =
      (w, evs, Some r)"
    "save_progress cfg env prompt tasks i 0 (absorb i w evs r s) = (True, s1)"
    "compact_step cfg env prompt tasks i s1 = (True, s2)"
  using assms
  by (auto simp: linear_step_def bind_eq_Some_conv split: option.splits prod.splits bool.splits elim!: str_opt.elims)

lemma save_progress_keeps:
  assumes "save_progress cfg env prompt tasks i k s = (b, s1)"
  shows "s1 = s\<lparr>ls_ck := ls_ck s1\<rparr>"
  using assms by (auto simp: save_progress_def split: prod.splits)

lemma save_progress_stored:
  assumes "save_progress cfg env prompt tasks i k s = (b, s1)" "rn_disk env i k = Stored"
    "truthy_str (ck_path (rc_ck cfg)) \<noteq> None"
  shows "b \<and> s1 = s\<lparr>ls_ck := ls_ck s1\<rparr> \<and> ls_ck s1 = snd (save_checkpoint (rc_ck cfg) (rn_git env i k) Stored prompt tasks
     (i + 1) (ls_context s1) (ls_session s1) None None (ls_ck s))"
  using assms by (auto simp: save_progress_def save_checkpoint_def split: prod.splits)

text \<open>After a pass the checkpoint holds the state the next pass would start from.\<close>

lemma linear_step_saves:
  assumes "linear_step cfg env prompt tasks i s = (True, s2)" "\<forall>i k. rn_disk env i k = Stored"
    "truthy_str (ck_path (rc_ck cfg)) \<noteq> None"
  shows "\<exists>k ck. ls_ck s2 = snd (save_checkpoint (rc_ck cfg) (rn_git env i k) Stored prompt tasks
     (i + 1) (ls_context s2) (ls_session s2) None None ck)"
proof -
  obtain task w evs r s1 where st: "save_progress cfg env prompt tasks i 0 (absorb i w evs r s) = (True, s1)"
    "compact_step cfg env prompt tasks i s1 = (True, s2)"
    using linear_step_ok [OF assms(1)] by metis
  have one: "ls_ck s1 = snd (save_checkpoint (rc_ck cfg) (rn_git env i 0) Stored prompt tasks
     (i + 1) (ls_context s1) (ls_session s1) None None (ls_ck (absorb i w evs r s)))"
    using save_progress_stored [OF st(1) _ assms(3)] assms(2) by blast
  show ?thesis
  proof (cases "should_compact (rc_master cfg) (ls_since s1 + 1) (ls_context s1)")
    case False
    with st(2) have "s2 = s1\<lparr>ls_since := ls_since s1 + 1\<rparr>" by (simp add: compact_step_def Let_def)
    with one show ?thesis by auto
  next
    case True
    with st(2) show ?thesis
      using save_progress_stored [where k = 1 and b = True, OF _ _ assms(3)] assms(2)
      by (simp add: compact_step_def Let_def) blast
  qed
qed

section \<open>Every step once, in order, on the steps before it\<close>

lemma summary_block_nat: "summary_block (int k + 1) text = step_block (Suc k) text"
  by (simp add: summary_block_def step_block_def show_int_def nat_add_distrib)

lemma flat_context_snoc:
  "flat_context prompt (xs @ [x]) = flat_context prompt xs @ step_block (Suc (length xs)) x"
proof -
  have e: "concat (map (\<lambda>k. step_block (Suc k) ((xs @ [x]) ! k)) [0..<length xs]) =
      concat (map (\<lambda>k. step_block (Suc k) (xs ! k)) [0..<length xs])"
    by (intro arg_cong [where f = concat] map_cong) (auto simp: nth_append)
  show ?thesis by (simp add: flat_context_def e)
qed

lemma linear_step_plain:
  assumes "linear_step cfg env prompt tasks i s = (True, s2)"
    "mc_interval (rc_master cfg) = 0" "mc_max_chars (rc_master cfg) = 0"
  shows "\<exists>task w evs r. py_nth tasks i = Some (PStr task) \<and>
    execute_step (rc_step cfg) (rn_step env i) (i + 1) (length tasks) task (ls_context s) (ls_session s) (ls_world s)
      = (w, evs, Some r) \<and>
    ls_context s2 = ls_context s @ summary_block (i + 1) (step_summary r) \<and> ls_session s2 = session_id r \<and>
    ls_world s2 = w \<and> ls_verified s2 = verified r \<and> ls_approved s2 = approved r \<and> ls_stalled s2 = stalled r"
proof -
  obtain task w evs r s1 where st: "py_nth tasks i = Some (PStr task)"
    "execute_step (rc_step cfg) (rn_step env i) (i + 1) (length tasks) task (ls_context s) (ls_session s) (ls_world s)
      = (w, evs, Some r)"
    "save_progress cfg env prompt tasks i 0 (absorb i w evs r s) = (True, s1)"
    "compact_step cfg env prompt tasks i s1 = (True, s2)"
    using linear_step_ok [OF assms(1)] by metis
  from st(4) assms(2, 3) have s2: "s2 = s1\<lparr>ls_since := ls_since s1 + 1\<rparr>"
    by (simp add: compact_step_def should_compact_def)
  from save_progress_keeps [OF st(3)] have s1: "s1 = (absorb i w evs r s)\<lparr>ls_ck := ls_ck s1\<rparr>" .
  have "ls_context s1 = ls_context s @ summary_block (i + 1) (step_summary r)" "ls_session s1 = session_id r"
    "ls_world s1 = w" "ls_verified s1 = verified r" "ls_approved s1 = approved r" "ls_stalled s1 = stalled r"
    by (subst s1, simp add: absorb_def)+
  with st(1, 2) show ?thesis unfolding s2 by (intro exI conjI) simp_all
qed

text \<open>Without compaction the loop runs each step exactly once and in order, each on the context
  accumulated from the summaries of the steps before it and on the tree and session the previous one
  left; at the end the context is the goal and all summaries, and the run's verdict is its last step's.\<close>

theorem linear_loop_exact:
  assumes "mc_interval (rc_master cfg) = 0" "mc_max_chars (rc_master cfg) = 0"
    and "ls_context s0 = goal_header prompt"
    and "linear_loop cfg env prompt tasks [0..int n - 1] s0 = (True, s)"
  shows "\<exists>rs ws ss. length rs = n \<and> length ws = Suc n \<and> length ss = Suc n \<and>
    ws ! 0 = ls_world s0 \<and> ws ! n = ls_world s \<and> ss ! 0 = ls_session s0 \<and> ss ! n = ls_session s \<and>
    ls_context s = flat_context prompt (map step_summary rs) \<and>
    (n > 0 \<longrightarrow> ls_verified s = verified (last rs) \<and> ls_approved s = approved (last rs) \<and> ls_stalled s = stalled (last rs)) \<and>
    (\<forall>i < n. \<exists>task evs. py_nth tasks (int i) = Some (PStr task) \<and>
       execute_step (rc_step cfg) (rn_step env (int i)) (int i + 1) (length tasks) task
         (flat_context prompt (map step_summary (take i rs))) (ss ! i) (ws ! i) = (ws ! Suc i, evs, Some (rs ! i)))"
  using assms(4)
proof (induction n arbitrary: s)
  case 0
  with assms(3) have "s = s0 \<and> ls_context s = flat_context prompt []" by (simp add: flat_context_def)
  then show ?case by (intro exI [of _ "[] :: step_result list"] exI [of _ "[ls_world s0]"] exI [of _ "[ls_session s0]"]) auto
next
  case (Suc n)
  then obtain s1 where s1: "linear_loop cfg env prompt tasks [0..int n - 1] s0 = (True, s1)"
    "linear_step cfg env prompt tasks (int n) s1 = (True, s)"
    unfolding upto_first linear_loop_snoc by blast
  obtain rs ws ss where ih: "length rs = n" "length ws = Suc n" "length ss = Suc n"
    "ws ! 0 = ls_world s0" "ws ! n = ls_world s1" "ss ! 0 = ls_session s0" "ss ! n = ls_session s1"
    "ls_context s1 = flat_context prompt (map step_summary rs)"
    "\<forall>i < n. \<exists>task evs. py_nth tasks (int i) = Some (PStr task) \<and>
       execute_step (rc_step cfg) (rn_step env (int i)) (int i + 1) (length tasks) task
         (flat_context prompt (map step_summary (take i rs))) (ss ! i) (ws ! i) = (ws ! Suc i, evs, Some (rs ! i))"
    using Suc.IH [OF s1(1)] by blast
  obtain task w evs r where r: "py_nth tasks (int n) = Some (PStr task)"
    "execute_step (rc_step cfg) (rn_step env (int n)) (int n + 1) (length tasks) task (ls_context s1) (ls_session s1) (ls_world s1)
      = (w, evs, Some r)"
    "ls_context s = ls_context s1 @ summary_block (int n + 1) (step_summary r)" "ls_session s = session_id r"
    "ls_world s = w" "ls_verified s = verified r" "ls_approved s = approved r" "ls_stalled s = stalled r"
    using linear_step_plain [OF s1(2) assms(1, 2)] by blast
  have ctx: "ls_context s = flat_context prompt (map step_summary (rs @ [r]))"
    using r(3) ih(1, 8) flat_context_snoc [of prompt "map step_summary rs"] by (simp add: summary_block_nat)
  have runs: "\<exists>task evs. py_nth tasks (int i) = Some (PStr task) \<and>
       execute_step (rc_step cfg) (rn_step env (int i)) (int i + 1) (length tasks) task
         (flat_context prompt (map step_summary (take i (rs @ [r])))) ((ss @ [ls_session s]) ! i) ((ws @ [w]) ! i)
         = ((ws @ [w]) ! Suc i, evs, Some ((rs @ [r]) ! i))" if "i < Suc n" for i
  proof (cases "i = n")
    case True
    with r(1, 2) ih show ?thesis by (simp add: nth_append)
  next
    case False
    with that have "i < n" by simp
    with ih(1, 2, 3, 9) show ?thesis by (simp add: nth_append)
  qed
  show ?case
    using ih r(4-8) ctx runs
    by (intro exI [of _ "rs @ [r]"] exI [of _ "ws @ [w]"] exI [of _ "ss @ [ls_session s]"]) (simp add: nth_append)
qed

definition passing :: vresult where
  "passing = \<lparr>v_ok = True, v_message = [], v_returncode = 0, v_timeout = False, v_resource = False,
     v_infra = False, v_hash = None\<rparr>"

text \<open>A worker that writes a file per step, and a verifier that is content.\<close>

definition demo_env :: run_env where
  "demo_env = \<lparr> rn_step = (\<lambda>i. \<lparr> sv_tot = (\<lambda>sp task t. (None, t)),
       sv_review = (\<lambda>g c. \<lparr> ae_gen = (\<lambda>n off p t. Some (''code'', (show_int i, ''x'') # t)), ae_critic = (\<lambda>n p t. None),
          ae_ver = \<lparr> re_gen = (\<lambda>n a p t. None), re_ver = (\<lambda>n t. Some passing) \<rparr> \<rparr>),
       sv_summary = (\<lambda>p ses t. (Some (''did '' @ show_int i, Some ''S''), t)) \<rparr>),
     rn_digest = (\<lambda>i s. Some ''digest''), rn_git = (\<lambda>i k. git_at ''c0'' []), rn_disk = (\<lambda>i k. Stored) \<rparr>"

definition demo_cfg :: "int \<Rightarrow> run_cfg" where
  "demo_cfg max_chars = \<lparr> rc_master = \<lparr> mc_recent = 2, mc_interval = 0, mc_max_chars = max_chars \<rparr>,
     rc_step = \<lparr> sc_branches = 1, sc_critic_distinct = True, sc_adv = \<lparr> ac_max = 2, ac_verifier = True,
       ac_diff_only = False, ac_preamble = [], ac_requirement = None, ac_chain = 1, ac_rotate_env = None \<rparr> \<rparr>,
     rc_ck = plain_cfg ''auto'' \<rparr>"

definition demo_start :: lin_state where
  "demo_start = start_state \<lparr> w_tree = [], w_calls = 0, w_checks = 0 \<rparr> (goal_header ''goal'') None 0
     \<lparr> ck_file = None, ck_write_failed = False \<rparr> []"

definition demo_tasks :: "pyval list" where
  "demo_tasks = [PStr ''a'', PStr ''b'', PStr ''c'']"

lemma demo_runs:
  "fst (linear_loop (demo_cfg 0) demo_env ''goal'' demo_tasks [0, 1] demo_start)"
  "fst (linear_loop (demo_cfg 0) demo_env ''goal'' demo_tasks [0] demo_start)"
  by code_simp+

lemma linear_loop_exact_witness:
  "\<exists>rs :: step_result list. length rs = 2 \<and>
     ls_context (snd (linear_loop (demo_cfg 0) demo_env ''goal'' demo_tasks [0, 1] demo_start)) =
       flat_context ''goal'' (map step_summary rs)"
proof -
  let ?s = "snd (linear_loop (demo_cfg 0) demo_env ''goal'' demo_tasks [0, 1] demo_start)"
  have run: "linear_loop (demo_cfg 0) demo_env ''goal'' demo_tasks [0..int 2 - 1] demo_start = (True, ?s)"
    using demo_runs(1) by (simp add: prod_eq_iff upto_rec2 upto_single)
  have "mc_interval (rc_master (demo_cfg 0)) = 0" "mc_max_chars (rc_master (demo_cfg 0)) = 0"
    "ls_context demo_start = goal_header ''goal''"
    by (simp_all add: demo_cfg_def demo_start_def start_state_def)
  from linear_loop_exact [OF this run] show ?thesis
    by (rule ex_forward) (elim exE conjE, intro conjI, assumption+)
qed

section \<open>Killed runs\<close>

text \<open>States that differ only in what a resumed run forgets: the events, the verdict of the previous step
  and the count of steps since the last compaction.\<close>

definition core_of :: "lin_state \<Rightarrow> lin_state" where
  "core_of s = s\<lparr> ls_since := 0, ls_log := [] \<rparr>"

definition start_of :: "lin_state \<Rightarrow> lin_state" where
  "start_of s = s\<lparr> ls_since := 0, ls_log := [], ls_verified := False, ls_approved := False, ls_stalled := False,
     ls_iterations := 0 \<rparr>"

lemma start_of_simps [simp]:
  "ls_world (start_of s) = ls_world s" "ls_context (start_of s) = ls_context s"
  "ls_session (start_of s) = ls_session s" "ls_ck (start_of s) = ls_ck s"
  by (simp_all add: start_of_def)

lemma core_start: "core_of s = core_of t \<Longrightarrow> start_of s = start_of t"
  by (cases s, cases t) (simp add: core_of_def start_of_def)

lemma save_progress_core:
  "core_of (snd (save_progress cfg env prompt tasks i k s)) = snd (save_progress cfg env prompt tasks i k (core_of s)) \<and>
   fst (save_progress cfg env prompt tasks i k s) = fst (save_progress cfg env prompt tasks i k (core_of s))"
  by (simp add: save_progress_def core_of_def split: prod.split)

definition same_pace :: "run_cfg \<Rightarrow> lin_state \<Rightarrow> lin_state \<Rightarrow> bool" where
  "same_pace cfg s t \<longleftrightarrow> mc_interval (rc_master cfg) = 0 \<or> ls_since s = ls_since t"

lemma compact_step_core:
  assumes "core_of s = core_of t" "same_pace cfg s t"
  shows "core_of (snd (compact_step cfg env prompt tasks i s)) = core_of (snd (compact_step cfg env prompt tasks i t)) \<and>
    fst (compact_step cfg env prompt tasks i s) = fst (compact_step cfg env prompt tasks i t) \<and>
    same_pace cfg (snd (compact_step cfg env prompt tasks i s)) (snd (compact_step cfg env prompt tasks i t))"
  using assms
  by (cases s, cases t)
    (auto simp: same_pace_def compact_step_def should_compact_def Let_def save_progress_def core_of_def split: prod.split)

lemma absorb_core: "start_of s = start_of t \<Longrightarrow> core_of (absorb i w evs r s) = core_of (absorb i w evs' r t)"
  by (cases s, cases t) (simp add: core_of_def start_of_def absorb_def)

lemma linear_step_core:
  assumes "start_of s = start_of t" "same_pace cfg s t"
  shows "fst (linear_step cfg env prompt tasks i s) = fst (linear_step cfg env prompt tasks i t) \<and>
    (fst (linear_step cfg env prompt tasks i s) \<longrightarrow>
      core_of (snd (linear_step cfg env prompt tasks i s)) = core_of (snd (linear_step cfg env prompt tasks i t)) \<and>
      same_pace cfg (snd (linear_step cfg env prompt tasks i s)) (snd (linear_step cfg env prompt tasks i t)))"
proof -
  have same: "ls_world s = ls_world t" "ls_context s = ls_context t" "ls_session s = ls_session t"
    using arg_cong [OF assms(1), of ls_world] arg_cong [OF assms(1), of ls_context] arg_cong [OF assms(1), of ls_session]
    by simp_all
  show ?thesis
  proof (cases "Option.bind (py_nth tasks i) str_opt")
    case None
    then show ?thesis by (simp add: linear_step_def)
  next
    case task: (Some task)
    obtain w evs res where ex: "execute_step (rc_step cfg) (rn_step env i) (i + 1) (length tasks) task
        (ls_context t) (ls_session t) (ls_world t) = (w, evs, res)"
      by (metis prod_cases3)
    show ?thesis
    proof (cases res)
      case None
      with task ex same show ?thesis by (simp add: linear_step_def)
    next
      case (Some r)
      let ?a = "absorb i w evs r s" and ?b = "absorb i w evs r t"
      have "core_of ?a = core_of ?b" by (rule absorb_core [OF assms(1)])
      then have save: "core_of (snd (save_progress cfg env prompt tasks i 0 ?a)) = core_of (snd (save_progress cfg env prompt tasks i 0 ?b))"
        "fst (save_progress cfg env prompt tasks i 0 ?a) = fst (save_progress cfg env prompt tasks i 0 ?b)"
        using save_progress_core by metis+
      obtain b sa where sa: "save_progress cfg env prompt tasks i 0 ?a = (b, sa)" by fastforce
      obtain b' sb where sb: "save_progress cfg env prompt tasks i 0 ?b = (b', sb)" by fastforce
      have "same_pace cfg sa sb"
        using assms(2) sa sb by (auto simp: same_pace_def save_progress_def absorb_def split: prod.splits)
      moreover from save sa sb have "b' = b" "core_of sa = core_of sb" by simp_all
      ultimately show ?thesis
        using compact_step_core [of sa sb cfg env prompt tasks i] task ex Some same sa sb
        by (cases b) (simp_all add: linear_step_def)
    qed
  qed
qed

lemma linear_loop_core:
  assumes "start_of s = start_of t" "same_pace cfg s t" "is \<noteq> []"
  shows "fst (linear_loop cfg env prompt tasks is s) = fst (linear_loop cfg env prompt tasks is t) \<and>
    (fst (linear_loop cfg env prompt tasks is s) \<longrightarrow>
      core_of (snd (linear_loop cfg env prompt tasks is s)) = core_of (snd (linear_loop cfg env prompt tasks is t)))"
  using assms
proof (induction "is" arbitrary: s t)
  case (Cons i "is")
  obtain b s1 where s1: "linear_step cfg env prompt tasks i s = (b, s1)" by fastforce
  obtain b' t1 where t1: "linear_step cfg env prompt tasks i t = (b', t1)" by fastforce
  from linear_step_core [OF Cons.prems(1, 2), of env prompt tasks i] s1 t1
  have st: "b' = b" "b \<longrightarrow> core_of s1 = core_of t1 \<and> same_pace cfg s1 t1" by simp_all
  show ?case
  proof (cases "b \<and> is \<noteq> []")
    case True
    with st have "start_of s1 = start_of t1" using core_start by blast
    with Cons.IH [of s1 t1] True st s1 t1 show ?thesis by simp
  next
    case False
    with st s1 t1 show ?thesis by (cases b) auto
  qed
qed simp

text \<open>Until its first compaction a run counts its steps, as a resumed run does.\<close>

lemma linear_step_since:
  assumes "linear_step cfg env prompt tasks i s = (True, s')" "mc_max_chars (rc_master cfg) = 0" "ls_since s + 1 < mc_interval (rc_master cfg)"
  shows "ls_since s' = ls_since s + 1"
  using assms
  by (auto simp: linear_step_def compact_step_def should_compact_def save_progress_def absorb_def Let_def
      split: option.splits prod.splits bool.splits if_splits)

lemma not_compacted_yet:
  assumes "linear_loop cfg env prompt tasks [0..int k - 1] s = (True, s')" "ls_since s = 0"
    "mc_max_chars (rc_master cfg) = 0" "int k < mc_interval (rc_master cfg)"
  shows "ls_since s' = int k"
  using assms
proof (induction k arbitrary: s')
  case (Suc k)
  obtain s1 where "linear_loop cfg env prompt tasks [0..int k - 1] s = (True, s1)"
    "linear_step cfg env prompt tasks (int k) s1 = (True, s')"
    using Suc.prems(1) unfolding upto_first linear_loop_snoc by blast
  with Suc linear_step_since [of cfg env prompt tasks "int k" s1 s'] show ?case by simp
qed simp

text \<open>C5: with a checkpoint path, a hash text without a colon, every save stored and the resume policy not
  \<open>never\<close>, a linear run killed after the save of its step \<open>k\<close>, between two steps, can be taken up again: on a trusted tree,
  or when forced, the checkpoint gives back exactly position \<open>k\<close> with the context and session step \<open>k\<close>
  had, so that no finished step runs twice and none is skipped.  If interval compaction is off, or
  the killed run had not compacted yet, the resumed run moreover raises or ends exactly as the uninterrupted
  run, with the same tree, context, session, verdict and checkpoint.  A run killed after a compaction resumes with the count of all its
  steps, compacts earlier, and is not claimed to end the same.\<close>

theorem killed_run_resumes:
  assumes "truthy_str (ck_path (rc_ck cfg)) \<noteq> None" "\<forall>x. CHR '':'' \<notin> set (ck_sha (rc_ck cfg) x)"
    and "ck_policy (rc_ck cfg) \<noteq> ''never''" "\<forall>i j. rn_disk env i j = Stored"
    and "\<forall>i j. tree_trusted (rc_ck cfg) (rn_git env i j) g \<or> ck_policy (rc_ck cfg) = ''force''"
    and "0 < k" "k < length tasks"
    and "linear_loop cfg env prompt tasks [0..int k - 1] s0 = (True, s)"
  shows "load_checkpoint (rc_ck cfg) g prompt (ck_file (ls_ck s)) = Inr (Some \<lparr> rp_tasks = tasks,
       rp_completed = int k, rp_context = PStr (ls_context s), rp_session = opt_str (ls_session s) \<rparr>) \<and>
    (mc_interval (rc_master cfg) = 0 \<or> ls_since s = int k \<longrightarrow>
       (let whole = linear_loop cfg env prompt tasks [0..int (length tasks) - 1] s0;
            resumed = linear_loop cfg env prompt tasks [int k..int (length tasks) - 1]
              (start_state (ls_world s) (ls_context s) (ls_session s) (int k) (ls_ck s) [])
        in fst whole = fst resumed \<and> (fst whole \<longrightarrow> core_of (snd whole) = core_of (snd resumed))))"
proof
  from assms(6) obtain m where m: "k = Suc m" by (cases k) auto
  from assms(8) obtain s1 where "linear_step cfg env prompt tasks (int m) s1 = (True, s)"
    unfolding m upto_first linear_loop_snoc by blast
  from linear_step_saves [OF this assms(4, 1)] obtain j ck where saved:
    "ls_ck s = snd (save_checkpoint (rc_ck cfg) (rn_git env (int m) j) Stored prompt tasks (int k)
       (ls_context s) (ls_session s) None None ck)"
    unfolding m by (metis add.commute of_nat_Suc)
  show "load_checkpoint (rc_ck cfg) g prompt (ck_file (ls_ck s)) = Inr (Some \<lparr> rp_tasks = tasks,
      rp_completed = int k, rp_context = PStr (ls_context s), rp_session = opt_str (ls_session s) \<rparr>)"
    using assms(3, 5, 7) by (auto simp: saved checkpoint_reload [OF assms(1, 2)])
  show "mc_interval (rc_master cfg) = 0 \<or> ls_since s = int k \<longrightarrow>
       (let whole = linear_loop cfg env prompt tasks [0..int (length tasks) - 1] s0;
            resumed = linear_loop cfg env prompt tasks [int k..int (length tasks) - 1]
              (start_state (ls_world s) (ls_context s) (ls_session s) (int k) (ls_ck s) [])
        in fst whole = fst resumed \<and> (fst whole \<longrightarrow> core_of (snd whole) = core_of (snd resumed)))"
  proof
    assume off: "mc_interval (rc_master cfg) = 0 \<or> ls_since s = int k"
    have whole: "linear_loop cfg env prompt tasks [0..int (length tasks) - 1] s0 =
        linear_loop cfg env prompt tasks [int k..int (length tasks) - 1] s"
      unfolding upto_cut [OF assms(7)] linear_loop_append assms(8) by simp
    have "start_of s = start_of (start_state (ls_world s) (ls_context s) (ls_session s) (int k) (ls_ck s) [])"
      by (simp add: start_of_def start_state_def)
    moreover have "[int k..int (length tasks) - 1] \<noteq> []" using assms(7) by simp
    ultimately show "let whole = linear_loop cfg env prompt tasks [0..int (length tasks) - 1] s0;
            resumed = linear_loop cfg env prompt tasks [int k..int (length tasks) - 1]
              (start_state (ls_world s) (ls_context s) (ls_session s) (int k) (ls_ck s) [])
        in fst whole = fst resumed \<and> (fst whole \<longrightarrow> core_of (snd whole) = core_of (snd resumed))"
      unfolding Let_def whole using off by (intro linear_loop_core) (simp_all add: same_pace_def start_state_def)
  qed
qed

lemma killed_run_resumes_witness:
  "load_checkpoint (plain_cfg ''auto'') (git_at ''c0'' []) ''goal''
     (ck_file (ls_ck (snd (linear_loop (demo_cfg 0) demo_env ''goal'' demo_tasks [0] demo_start)))) =
   Inr (Some \<lparr> rp_tasks = demo_tasks, rp_completed = 1,
     rp_context = PStr (ls_context (snd (linear_loop (demo_cfg 0) demo_env ''goal'' demo_tasks [0] demo_start))),
     rp_session = opt_str (ls_session (snd (linear_loop (demo_cfg 0) demo_env ''goal'' demo_tasks [0] demo_start))) \<rparr>)"
proof -
  let ?s = "snd (linear_loop (demo_cfg 0) demo_env ''goal'' demo_tasks [0] demo_start)"
  have run: "linear_loop (demo_cfg 0) demo_env ''goal'' demo_tasks [0..int 1 - 1] demo_start = (True, ?s)"
    using demo_runs(2) by (simp add: prod_eq_iff)
  have ck: "rc_ck (demo_cfg 0) = plain_cfg ''auto''" by (simp add: demo_cfg_def)
  have same: "tree_trusted (plain_cfg ''auto'') (git_at ''c0'' []) (git_at ''c0'' [])" by code_simp
  have h: "truthy_str (ck_path (rc_ck (demo_cfg 0))) \<noteq> None" "\<forall>x. CHR '':'' \<notin> set (ck_sha (rc_ck (demo_cfg 0)) x)"
    "ck_policy (rc_ck (demo_cfg 0)) \<noteq> ''never''" "\<forall>i j. rn_disk demo_env i j = Stored"
    "\<forall>i j. tree_trusted (rc_ck (demo_cfg 0)) (rn_git demo_env i j) (git_at ''c0'' []) \<or> ck_policy (rc_ck (demo_cfg 0)) = ''force''"
    "0 < (1::nat)" "1 < length demo_tasks"
    by (simp_all add: ck plain_cfg_def truthy_str_def demo_env_def demo_tasks_def same [unfolded plain_cfg_def])
  from killed_run_resumes [OF h run] show ?thesis by (simp add: ck)
qed

end
