(* ===== verification/Master_Graph_Runs.thy ===== *)
theory Master_Graph_Runs
  imports Master_Graph_Laws Master_Linear_Laws
begin

text \<open>
  Whole runs of the graph walker: what a run's verdict means, that every step starts exactly once, a
  deterministic scheduler that follows the transitions (so that runs can be evaluated), and what a
  resume does to the verdict.
\<close>

section \<open>The verdict of a run\<close>

definition verdict_ok :: "string list \<Rightarrow> graph_state \<Rightarrow> bool" where
  "verdict_ok order s = (
     (\<forall>n \<in> set order. gs_status s n = (case gs_done s n of None \<Rightarrow> Pending | Some r \<Rightarrow> status_of r)) \<and>
     ((\<exists>n \<in> set order. gs_done s n \<noteq> None) \<longrightarrow>
        gs_verified s = (verified (the (gs_done s (last_done order (gs_done s)))) \<and>
          (\<forall>n \<in> set order. gs_status s n \<noteq> Failed))))"

lemma take_result_verdict: "verdict_ok order s \<Longrightarrow> verdict_ok order (take_result order nid r s)"
  by (auto simp: verdict_ok_def take_result_def fold_signals_def Let_def list_ex_iff)

lemma harvest_verdict: "verdict_ok order s \<Longrightarrow> verdict_ok order (snd (harvest order fin s))"
proof (induction fin arbitrary: s)
  case (Cons nt fin)
  obtain n t where nt: "nt = (n, t)" by (cases nt)
  show ?case
  proof (cases t)
    case (Crashed e)
    with Cons.prems nt show ?thesis by (simp add: verdict_ok_def abort_def)
  qed (use Cons nt take_result_verdict in simp_all)
qed simp

lemma verdict_ok_cong:
  "gs_done s' = gs_done s \<Longrightarrow> gs_status s' = gs_status s \<Longrightarrow> gs_verified s' = gs_verified s \<Longrightarrow>
   verdict_ok order s' = verdict_ok order s"
  by (simp add: verdict_ok_def)

lemma settle_schedule_keeps [simp]:
  "gs_done (settle_run cfg env order (schedule_ready cfg order s)) = gs_done s"
  "gs_status (settle_run cfg env order (schedule_ready cfg order s)) = gs_status s"
  "gs_verified (settle_run cfg env order (schedule_ready cfg order s)) = gs_verified s"
  "gs_log (settle_run cfg env order (schedule_ready cfg order s)) = gs_log s"
  by (simp_all add: settle_run_def schedule_ready_def)

lemma graph_step_verdict:
  assumes "verdict_ok order s" "graph_step cfg env order s s'"
  shows "verdict_ok order s'"
  using assms(2)
proof (cases rule: graph_step.cases)
  case (node_moves nid t t' s1)
  from run_dag_node_keeps [OF node_moves(4)] have "gs_done s1 = gs_done s" "gs_status s1 = gs_status s"
    "gs_verified s1 = gs_verified s" by simp_all
  with assms(1) node_moves(1) show ?thesis by (simp add: verdict_ok_def)
next
  case (wakes_up nid t g d)
  obtain b s1 where h: "harvest order (filter (\<lambda>(n, t). over t) (gs_running s)) s = (b, s1)" by fastforce
  with harvest_verdict [OF assms(1), of "filter (\<lambda>(n, t). over t) (gs_running s)"] have v1: "verdict_ok order s1" by simp
  obtain b2 s2 where c: "checkpoint_graph cfg order g d s1 = (b2, s2)" by fastforce
  have v2: "verdict_ok order s2"
    using v1 by (subst checkpoint_graph_keeps [OF c]) (simp add: verdict_ok_def)
  have "verdict_ok order (abort e s2)" for e using v2 by (simp add: verdict_ok_def abort_def)
  moreover have "verdict_ok order (settle_run cfg env order (schedule_ready cfg order s2))"
    using v2 by (simp add: verdict_ok_def)
  ultimately show ?thesis
    using v1 h c wakes_up(1) by (cases b; cases b2) (simp_all add: wake_up_def)
qed

lemma fresh_verdict: "verdict_ok order (start_graph cfg env order (fresh_state live ck evs Map.empty))"
  by (simp add: start_graph_def verdict_ok_def) (simp add: fresh_state_def)

lemma run_verdict:
  assumes "(graph_step cfg env order)\<^sup>*\<^sup>* s0 s" "verdict_ok order s0"
  shows "verdict_ok order s"
  using assms by (induction rule: rtranclp_induct) (auto intro: graph_step_verdict)

lemma last_done_all: "set order \<subseteq> dom dn \<Longrightarrow> last_done order dn = last order"
proof -
  assume "set order \<subseteq> dom dn"
  then have "filter (\<lambda>n. dn n \<noteq> None) order = order" by (intro filter_True) blast
  then show ?thesis by (simp add: last_done_def)
qed

text \<open>C12: the verdict of a graph run that started afresh is no false green: it is verified exactly when the
  last node of the order passed its verifier and every node of the plan passed, by its verifier or by
  its critic.\<close>

theorem graph_verdict_exact:
  assumes "wf_plan (gc_nodes cfg)" "execute_graph cfg env live ck evs 0 None = Inr (order, s0)"
    and "(graph_step cfg env order)\<^sup>*\<^sup>* s0 s" "gs_phase s = Returned c" "gc_nodes cfg \<noteq> []"
  shows "gs_verified s \<longleftrightarrow>
    (\<exists>r. gs_done s (last order) = Some r \<and> verified r) \<and>
    (\<forall>n \<in> set (node_ids (gc_nodes cfg)). \<exists>r. gs_done s n = Some r \<and> (verified r \<or> approved r))"
proof -
  have empty: "seed_done (gc_nodes cfg) order 0 None = Map.empty" by (simp add: seed_done_def py_take_def)
  from assms(2) have o: "topo_order (gc_nodes cfg) = Inr order"
    and s0: "s0 = start_graph cfg env order (fresh_state live ck evs Map.empty)"
    by (auto simp: execute_graph_def ebind_iffs empty)
  with assms(1) have ok: "plan_ok cfg order" by (simp add: plan_ok_def)
  have st: "graph_start cfg env order s0"
    by (rule execute_graph_start [OF assms(1, 2)]) (rule count_seed_closed [OF ok])
  from run_sound [OF st assms(3)] assms(4) have all: "set order \<subseteq> dom (gs_done s)" by (simp add: graph_sound_def)
  from run_verdict [OF assms(3)] fresh_verdict s0 have v: "verdict_ok order s" by simp
  have "order \<noteq> []" using plan_ok_facts(4) [OF ok] assms(5) by (auto simp: node_ids_def)
  then have ex: "\<exists>n \<in> set order. gs_done s n \<noteq> None" using all last_in_set by blast
  have "gs_verified s = (verified (the (gs_done s (last order))) \<and> (\<forall>n \<in> set order. gs_status s n \<noteq> Failed))"
    using v ex last_done_all [OF all] by (simp add: verdict_ok_def)
  moreover have "gs_status s n \<noteq> Failed \<longleftrightarrow> (\<exists>r. gs_done s n = Some r \<and> (verified r \<or> approved r))" if n: "n \<in> set order" for n
  proof -
    from all n obtain r where r: "gs_done s n = Some r" by blast
    with v n have "gs_status s n = status_of r" by (simp add: verdict_ok_def)
    with r show ?thesis by (simp add: status_of_def)
  qed
  moreover obtain r where "gs_done s (last order) = Some r"
    using all last_in_set [OF \<open>order \<noteq> []\<close>] by blast
  ultimately show ?thesis using plan_ok_facts(4) [OF ok] by auto
qed

section \<open>Every step starts once\<close>

fun start_number :: "m_event \<Rightarrow> int list" where
  "start_number (Step_Started n k title) = [n]"
| "start_number _ = []"

definition starts :: "m_event list \<Rightarrow> int list" where
  "starts evs = concat (map start_number evs)"

lemma starts_append [simp]: "starts (xs @ ys) = starts xs @ starts ys"
  by (simp add: starts_def)

lemma execute_step_starts:
  assumes "execute_step cfg env n k task ctx session w = (w', evs, res)"
  shows "starts evs = [n]"
  using assms
  by (auto simp: execute_step_def starts_def Let_def split: prod.splits option.splits)

fun begun :: "node_task \<Rightarrow> bool" where
  "begun (Ran b ws r) = True"
| "begun (Merged r out) = True"
| "begun (Finished r) = True"
| "begun _ = False"

fun maybe_begun :: "node_task \<Rightarrow> bool" where
  "maybe_begun (Crashed e) = True"
| "maybe_begun t = begun t"

definition number :: "string list \<Rightarrow> string \<Rightarrow> int" where
  "number order n = int (step_no order n)"

definition starts_ok :: "string list \<Rightarrow> graph_state \<Rightarrow> bool" where
  "starts_ok order s = (distinct (starts (gs_log s)) \<and>
     ((\<forall>e. gs_phase s \<noteq> Aborted e) \<longrightarrow>
       (\<forall>n \<in> dom (gs_done s). number order n \<in> set (starts (gs_log s))) \<and>
       (\<forall>n t. (n, t) \<in> set (gs_running s) \<and> begun t \<longrightarrow> number order n \<in> set (starts (gs_log s))) \<and>
       (\<forall>k \<in> set (starts (gs_log s)). \<exists>n \<in> set order. k = number order n \<and>
          (n \<in> dom (gs_done s) \<or> (\<exists>t. (n, t) \<in> set (gs_running s) \<and> maybe_begun t)))))"

lemma number_inj: "distinct order \<Longrightarrow> n \<in> set order \<Longrightarrow> m \<in> set order \<Longrightarrow> number order n = number order m \<Longrightarrow> n = m"
  by (auto simp: number_def step_no_def in_set_conv_nth pos_nth)

lemma run_dag_node_starts:
  assumes "run_dag_node cfg env order nid t s = Some (t', s')"
  shows "(maybe_begun t \<longrightarrow> maybe_begun t') \<and>
    (if \<exists>c w. t = Opened c w then starts (gs_log s') = starts (gs_log s) @ [number order nid] \<and> maybe_begun t'
     else gs_log s' = gs_log s \<and> (begun t' \<longrightarrow> begun t))"
proof (cases t)
  case Waiting
  with assms show ?thesis by (auto split: if_splits sum.splits)
next
  case (Composed ctx)
  with assms show ?thesis by (auto split: option.splits)
next
  case (Opened ctx ws)
  obtain w evs res where ex: "execute_step (gc_step cfg) (ge_step env nid) (int (step_no order nid)) (length order)
      (task_of (gc_nodes cfg) nid) ctx None \<lparr>w_tree = ws, w_calls = 0, w_checks = 0\<rparr> = (w, evs, res)"
    by (metis prod_cases3)
  with assms Opened execute_step_starts [OF ex] show ?thesis by (cases res) (auto simp: number_def)
next
  case (Ran base ws r)
  with assms have m: "merge_back cfg env order nid base ws r s = (t', s')" by simp
  from merge_back_keeps [OF m] Ran show ?thesis by auto
qed (use assms in auto)

lemma put_task_iff:
  "(m, u) \<in> set (gs_running (put_task nid t' s)) \<longleftrightarrow> (\<exists>u0. (m, u0) \<in> set (gs_running s) \<and> u = (if m = nid then t' else u0))"
  by (force simp: put_task_def)

lemma node_moves_starts:
  assumes "plan_ok cfg order" "frontier cfg order s" "starts_ok order s" "gs_phase s = Going"
    "(nid, t) \<in> set (gs_running s)" "run_dag_node cfg env order nid t s = Some (t', s')"
  shows "starts_ok order (put_task nid t' s')"
proof -
  let ?q = "put_task nid t' s'"
  note k = run_dag_node_keeps [OF assms(6)] and st = run_dag_node_starts [OF assms(6)]
  note ord = plan_ok_facts(3) [OF assms(1)]
  from assms(2) have d: "distinct (map fst (gs_running s))" and tk: "task_ok cfg order (gs_done s) (nid, t)"
    using assms(5) by (auto simp: frontier_def)
  from tk have nid: "nid \<in> set order" "gs_done s nid = None" by (simp_all add: task_ok_def)
  have uniq: "u = t" if "(nid, u) \<in> set (gs_running s)" for u
    by (rule eq_key_imp_eq_value [OF d that assms(5)])
  from assms(3, 4) have inv: "distinct (starts (gs_log s))"
    "\<forall>n \<in> dom (gs_done s). number order n \<in> set (starts (gs_log s))"
    "\<forall>n t. (n, t) \<in> set (gs_running s) \<and> begun t \<longrightarrow> number order n \<in> set (starts (gs_log s))"
    "\<forall>k \<in> set (starts (gs_log s)). \<exists>n \<in> set order. k = number order n \<and>
          (n \<in> dom (gs_done s) \<or> (\<exists>t. (n, t) \<in> set (gs_running s) \<and> maybe_begun t))"
    by (auto simp: starts_ok_def)
  have grow: "set (starts (gs_log s)) \<subseteq> set (starts (gs_log s'))" using st by (auto split: if_splits)
  have "distinct (starts (gs_log s'))"
  proof (cases "\<exists>c w. t = Opened c w")
    case True
    then have "\<not> maybe_begun t" by auto
    have "number order nid \<notin> set (starts (gs_log s))"
    proof
      assume "number order nid \<in> set (starts (gs_log s))"
      with inv(4) obtain n where n: "n \<in> set order" "number order nid = number order n"
        "n \<in> dom (gs_done s) \<or> (\<exists>t. (n, t) \<in> set (gs_running s) \<and> maybe_begun t)" by blast
      with number_inj [OF ord nid(1) n(1)] have "n = nid" by simp
      with n(3) nid(2) uniq \<open>\<not> maybe_begun t\<close> show False by auto
    qed
    with True st inv(1) show ?thesis by simp
  next
    case False
    with st inv(1) show ?thesis by simp
  qed
  moreover have "\<forall>n \<in> dom (gs_done s'). number order n \<in> set (starts (gs_log s'))"
    using inv(2) grow k by auto
  moreover have "number order n \<in> set (starts (gs_log s'))" if n: "(n, u) \<in> set (gs_running ?q)" "begun u" for n u
  proof (cases "n = nid")
    case True
    with n have "begun t'" by (auto simp: put_task_iff)
    with True st inv(3) assms(5) grow show ?thesis by (auto split: if_splits)
  next
    case False
    with n k have "(n, u) \<in> set (gs_running s)" by (auto simp: put_task_iff)
    with inv(3) n(2) grow show ?thesis by blast
  qed
  moreover have "\<exists>n \<in> set order. i = number order n \<and>
      (n \<in> dom (gs_done s') \<or> (\<exists>u. (n, u) \<in> set (gs_running ?q) \<and> maybe_begun u))"
    if i: "i \<in> set (starts (gs_log s'))" for i
  proof (cases "i \<in> set (starts (gs_log s))")
    case True
    with inv(4) obtain n where n: "n \<in> set order" "i = number order n"
      "n \<in> dom (gs_done s) \<or> (\<exists>t. (n, t) \<in> set (gs_running s) \<and> maybe_begun t)" by blast
    show ?thesis
    proof (rule bexI [OF _ n(1)], intro conjI)
      show "n \<in> dom (gs_done s') \<or> (\<exists>u. (n, u) \<in> set (gs_running ?q) \<and> maybe_begun u)"
      proof (cases "n = nid")
        case True
        with n(3) nid(2) uniq have "maybe_begun t" by auto
        with st have "maybe_begun t'" by simp
        moreover have "(n, t') \<in> set (gs_running ?q)" using True assms(5) k by (auto simp: put_task_iff)
        ultimately show ?thesis by blast
      next
        case False
        with n(3) k show ?thesis by (auto simp: put_task_iff)
      qed
    qed (rule n(2))
  next
    case False
    with i st have "i = number order nid" "maybe_begun t'" by (auto split: if_splits)
    moreover have "(nid, t') \<in> set (gs_running ?q)" using assms(5) k by (auto simp: put_task_iff)
    ultimately show ?thesis using nid(1) by blast
  qed
  ultimately show ?thesis unfolding starts_ok_def put_task_simps by blast
qed

lemma begun_maybe: "begun t \<Longrightarrow> maybe_begun t"
  by (cases t) auto

lemma schedule_settle_starts:
  assumes "starts_ok order s" "gs_phase s = Going"
  shows "starts_ok order (settle_run cfg env order (schedule_ready cfg order s))"
proof -
  have same: "\<forall>n t. maybe_begun t \<longrightarrow> ((n, t) \<in> set (gs_running (settle_run cfg env order (schedule_ready cfg order s))) \<longleftrightarrow>
      (n, t) \<in> set (gs_running s))"
    by (auto simp: settle_run_def schedule_ready_def)
  from assms have inv: "distinct (starts (gs_log s))"
    "\<forall>n \<in> dom (gs_done s). number order n \<in> set (starts (gs_log s))"
    "\<forall>n t. (n, t) \<in> set (gs_running s) \<and> begun t \<longrightarrow> number order n \<in> set (starts (gs_log s))"
    "\<forall>k \<in> set (starts (gs_log s)). \<exists>n \<in> set order. k = number order n \<and>
          (n \<in> dom (gs_done s) \<or> (\<exists>t. (n, t) \<in> set (gs_running s) \<and> maybe_begun t))"
    by (simp_all add: starts_ok_def)
  from inv(3) same begun_maybe
  have "\<forall>n t. (n, t) \<in> set (gs_running (settle_run cfg env order (schedule_ready cfg order s))) \<and> begun t \<longrightarrow>
      number order n \<in> set (starts (gs_log s))" by blast
  moreover from inv(4) same
  have "\<forall>k \<in> set (starts (gs_log s)). \<exists>n \<in> set order. k = number order n \<and> (n \<in> dom (gs_done s) \<or>
      (\<exists>t. (n, t) \<in> set (gs_running (settle_run cfg env order (schedule_ready cfg order s))) \<and> maybe_begun t))"
    by blast
  ultimately show ?thesis using inv(1, 2) unfolding starts_ok_def settle_schedule_keeps by blast
qed

lemma graph_step_starts:
  assumes "plan_ok cfg order" "graph_sound cfg order s" "starts_ok order s" "graph_step cfg env order s s'"
  shows "starts_ok order s'"
  using assms(4)
proof (cases rule: graph_step.cases)
  case (node_moves nid t t' s1)
  from assms(2) have "frontier cfg order s" by (simp add: graph_sound_def)
  from node_moves_starts [OF assms(1) this assms(3) node_moves(2-4)] node_moves(1) show ?thesis by simp
next
  case (wakes_up nid t g d)
  from assms(2) have f: "frontier cfg order s" by (simp add: graph_sound_def)
  from assms(3) wakes_up(2) have inv: "distinct (starts (gs_log s))"
    "\<forall>n \<in> dom (gs_done s). number order n \<in> set (starts (gs_log s))"
    "\<forall>n t. (n, t) \<in> set (gs_running s) \<and> begun t \<longrightarrow> number order n \<in> set (starts (gs_log s))"
    "\<forall>k \<in> set (starts (gs_log s)). \<exists>n \<in> set order. k = number order n \<and>
          (n \<in> dom (gs_done s) \<or> (\<exists>t. (n, t) \<in> set (gs_running s) \<and> maybe_begun t))"
    by (auto simp: starts_ok_def)
  from assms(1) f wakes_up(2) show ?thesis
  proof (cases rule: wake_up_cases [where env = env and g = g and d = d])
    case (aborted e s1)
    with wakes_up(1) assms(3) show ?thesis by (simp add: starts_ok_def)
  next
    case (continued s1)
    have "number order n \<in> set (starts (gs_log s))" if n: "n \<in> dom (gs_done s1)" for n
    proof (cases "n \<in> dom (gs_done s)")
      case False
      with n continued(6) have "n \<in> fst ` set (filter (\<lambda>(n, t). over t) (gs_running s))" by blast
      then obtain t where t: "(n, t) \<in> set (gs_running s)" "over t" by auto
      with continued(7) have "begun t" by auto
      with inv(3) t(1) show ?thesis by blast
    qed (use inv(2) in blast)
    moreover have "\<exists>n \<in> set order. k = number order n \<and>
        (n \<in> dom (gs_done s1) \<or> (\<exists>t. (n, t) \<in> set (gs_running s1) \<and> maybe_begun t))"
      if k: "k \<in> set (starts (gs_log s))" for k
    proof -
      from inv(4) k obtain n where n: "n \<in> set order" "k = number order n"
        "n \<in> dom (gs_done s) \<or> (\<exists>t. (n, t) \<in> set (gs_running s) \<and> maybe_begun t)" by blast
      have "n \<in> dom (gs_done s1) \<or> (\<exists>t. (n, t) \<in> set (gs_running s1) \<and> maybe_begun t)"
      proof (cases "n \<in> dom (gs_done s)")
        case True
        then show ?thesis unfolding continued(6) by blast
      next
        case False
        with n(3) obtain t where t: "(n, t) \<in> set (gs_running s)" "maybe_begun t" by blast
        show ?thesis
        proof (cases "over t")
          case True
          with t(1) show ?thesis unfolding continued(6) by force
        next
          case False
          with t show ?thesis unfolding continued(5) by auto
        qed
      qed
      with n(1, 2) show ?thesis by blast
    qed
    moreover have "\<forall>n t. (n, t) \<in> set (gs_running s1) \<and> begun t \<longrightarrow> number order n \<in> set (starts (gs_log s))"
      using inv(3) unfolding continued(5) by auto
    ultimately have "starts_ok order s1"
      using inv(1) unfolding starts_ok_def continued(4) by blast
    from schedule_settle_starts [OF this continued(3)] wakes_up(1) continued(1) show ?thesis by simp
  qed
qed

lemma numbers: "distinct order \<Longrightarrow> number order ` set order = int ` {1..length order}"
proof -
  assume d: "distinct order"
  have "number order ` set order = (\<lambda>i. int (Suc i)) ` {..<length order}"
  proof -
    have "set order = (!) order ` {..<length order}" by (auto simp: set_conv_nth)
    then have "number order ` set order = (\<lambda>i. number order (order ! i)) ` {..<length order}"
      by (simp add: image_image)
    also have "\<dots> = (\<lambda>i. int (Suc i)) ` {..<length order}"
      using d by (intro image_cong) (simp_all add: number_def step_no_def pos_nth)
    finally show ?thesis .
  qed
  also have "\<dots> = int ` (Suc ` {..<length order})" by (simp add: image_image)
  also have "Suc ` {..<length order} = {1..length order}"
    by (simp add: lessThan_atLeast0 atLeastLessThanSuc_atLeastAtMost)
  finally show ?thesis .
qed

lemma fresh_starts:
  "starts evs = [] \<Longrightarrow> starts_ok order (fresh_state live ck evs Map.empty)"
  by (simp add: starts_ok_def fresh_state_def)

text \<open>No step of a graph run is ever started twice, and when a fresh run returns, each of the plan's steps
  has been started, exactly once.\<close>

theorem each_step_starts_once:
  assumes "wf_plan (gc_nodes cfg)" "execute_graph cfg env live ck evs 0 None = Inr (order, s0)"
    and "starts evs = []" "(graph_step cfg env order)\<^sup>*\<^sup>* s0 s"
  shows "distinct (starts (gs_log s)) \<and>
    (\<forall>c. gs_phase s = Returned c \<longrightarrow> set (starts (gs_log s)) = int ` {1..length (gc_nodes cfg)})"
proof -
  have empty: "seed_done (gc_nodes cfg) order 0 None = Map.empty" by (simp add: seed_done_def py_take_def)
  from assms(2) have o: "topo_order (gc_nodes cfg) = Inr order"
    and s0: "s0 = start_graph cfg env order (fresh_state live ck evs Map.empty)"
    by (auto simp: execute_graph_def ebind_iffs empty)
  with assms(1) have ok: "plan_ok cfg order" by (simp add: plan_ok_def)
  have st: "graph_start cfg env order s0"
    by (rule execute_graph_start [OF assms(1, 2)]) (rule count_seed_closed [OF ok])
  have "starts_ok order s0"
    unfolding s0 start_graph_def
    by (rule schedule_settle_starts [OF fresh_starts [OF assms(3)]]) (simp add: fresh_state_def)
  with assms(4) have so: "starts_ok order s"
  proof (induction rule: rtranclp_induct)
    case (step y z)
    from graph_step_starts [OF ok run_sound [OF st step.hyps(1)] step.IH [OF step.prems] step.hyps(2)] show ?case .
  qed
  have "set (starts (gs_log s)) = int ` {1..length (gc_nodes cfg)}" if "gs_phase s = Returned c" for c
  proof -
    from run_sound [OF st assms(4)] that have "set order \<subseteq> dom (gs_done s)" "dom (gs_done s) \<subseteq> set order" "gs_running s = []"
      by (simp_all add: graph_sound_def frontier_def)
    with so that have "set (starts (gs_log s)) = number order ` set order"
      by (fastforce simp: starts_ok_def)
    with numbers [OF plan_ok_facts(3) [OF ok]] kahn.sorter_permutes(3) [OF assms(1) o] show ?thesis by simp
  qed
  with so show ?thesis by (simp add: starts_ok_def)
qed

section \<open>A scheduler that can be evaluated\<close>

text \<open>The first task that can move does; results are harvested as soon as there are any.\<close>

fun first_move :: "graph_cfg \<Rightarrow> graph_env \<Rightarrow> string list \<Rightarrow> graph_state \<Rightarrow> (string \<times> node_task) list \<Rightarrow> graph_state option" where
  "first_move cfg env order s [] = None"
| "first_move cfg env order s ((nid, t) # rest) = (case run_dag_node cfg env order nid t s of
       Some (t', s') \<Rightarrow> Some (put_task nid t' s')
     | None \<Rightarrow> first_move cfg env order s rest)"

definition drive_step :: "graph_cfg \<Rightarrow> graph_env \<Rightarrow> string list \<Rightarrow> git \<Rightarrow> graph_state \<Rightarrow> graph_state" where
  "drive_step cfg env order g s =
     (if gs_phase s \<noteq> Going then s
      else if list_ex (\<lambda>(n, t). over t) (gs_running s) then wake_up cfg env order g Stored s
      else case first_move cfg env order s (gs_running s) of None \<Rightarrow> s | Some s' \<Rightarrow> s')"

primrec drive :: "nat \<Rightarrow> graph_cfg \<Rightarrow> graph_env \<Rightarrow> string list \<Rightarrow> git \<Rightarrow> graph_state \<Rightarrow> graph_state" where
  "drive 0 cfg env order g s = s"
| "drive (Suc n) cfg env order g s = drive n cfg env order g (drive_step cfg env order g s)"

lemma first_move_step:
  assumes "first_move cfg env order s ts = Some s'" "set ts \<subseteq> set (gs_running s)" "gs_phase s = Going"
  shows "graph_step cfg env order s s'"
  using assms
  by (induction cfg env order s ts rule: first_move.induct) (auto split: option.splits intro: node_moves)

lemma drive_step_steps: "(graph_step cfg env order)\<^sup>*\<^sup>* s (drive_step cfg env order g s)"
proof (cases "gs_phase s = Going")
  case True
  show ?thesis
  proof (cases "list_ex (\<lambda>(n, t). over t) (gs_running s)")
    case over: True
    then obtain n t where "(n, t) \<in> set (gs_running s)" "over t" by (auto simp: list_ex_iff)
    from wakes_up [OF True this, of cfg env order g Stored] over True show ?thesis
      by (simp add: drive_step_def r_into_rtranclp)
  next
    case False
    with True first_move_step [of cfg env order s "gs_running s"] show ?thesis
      by (auto simp: drive_step_def split: option.split intro: r_into_rtranclp)
  qed
qed (simp add: drive_step_def)

lemma drive_steps: "(graph_step cfg env order)\<^sup>*\<^sup>* s (drive n cfg env order g s)"
  by (induction n arbitrary: s) (auto intro: rtranclp_trans drive_step_steps)

section \<open>A run of the diamond\<close>

definition walk_cfg :: "plan_node list \<Rightarrow> graph_cfg" where
  "walk_cfg nodes = \<lparr>gc_nodes = nodes, gc_tasks = [], gc_prompt = ''goal'', gc_step = rc_step (demo_cfg 0),
     gc_ck = plain_cfg ''auto'', gc_cap = Some 2, gc_policy = ''reconcile''\<rparr>"

text \<open>Every node writes a file of its own; the verifier is content.\<close>

definition walk_env :: graph_env where
  "walk_env = \<lparr>ge_open = (\<lambda>n t. Some t),
     ge_step = (\<lambda>n. \<lparr> sv_tot = (\<lambda>sp task t. (None, t)),
       sv_review = (\<lambda>g c. \<lparr> ae_gen = (\<lambda>k off p t. Some (''code'', (n, ''x'') # t)), ae_critic = (\<lambda>k p t. None),
          ae_ver = \<lparr> re_gen = (\<lambda>k a p t. None), re_ver = (\<lambda>k t. Some passing) \<rparr> \<rparr>),
       sv_summary = (\<lambda>p ses t. (Some (''did '' @ n, None), t)) \<rparr>),
     ge_station = (\<lambda>n. None), ge_reverify = (\<lambda>n t. None), ge_gone = True\<rparr>"

definition walk_start :: "plan_node list \<Rightarrow> (string \<times> step_result) list option \<Rightarrow> string list \<times> graph_state" where
  "walk_start nodes seeds = (case execute_graph (walk_cfg nodes) walk_env [] \<lparr> ck_file = None, ck_write_failed = False \<rparr> [] 0 seeds of
     Inr r \<Rightarrow> r | Inl e \<Rightarrow> ([], fresh_state [] \<lparr> ck_file = None, ck_write_failed = False \<rparr> [] Map.empty))"

definition walk :: "nat \<Rightarrow> plan_node list \<Rightarrow> (string \<times> step_result) list option \<Rightarrow> graph_state" where
  "walk n nodes seeds = drive n (walk_cfg nodes) walk_env (fst (walk_start nodes seeds)) (git_at ''c0'' []) (snd (walk_start nodes seeds))"

definition returned :: "graph_state \<Rightarrow> bool" where
  "returned s = (case gs_phase s of Returned c \<Rightarrow> True | _ \<Rightarrow> False)"

lemma diamond_start:
  "execute_graph (walk_cfg diamond) walk_env [] \<lparr> ck_file = None, ck_write_failed = False \<rparr> [] 0 None =
     Inr ([''a'', ''b'', ''c'', ''d''], snd (walk_start diamond None))"
  "fst (walk_start diamond None) = [''a'', ''b'', ''c'', ''d'']"
  using diamond_order by (simp_all add: walk_start_def execute_graph_def walk_cfg_def)

lemma diamond_steps:
  "(graph_step (walk_cfg diamond) walk_env [''a'', ''b'', ''c'', ''d''])\<^sup>*\<^sup>* (snd (walk_start diamond None)) (walk n diamond None)"
  unfolding walk_def diamond_start(2) by (rule drive_steps)

lemma diamond_plan: "wf_plan (gc_nodes (walk_cfg diamond))"
  "gc_nodes (walk_cfg diamond) = diamond" "gc_cap (walk_cfg diamond) = Some 2"
  using diamond_wf by (simp_all add: walk_cfg_def diamond_def)

lemma diamond_closed: "closed (walk_cfg diamond) (seed_done (gc_nodes (walk_cfg diamond)) [''a'', ''b'', ''c'', ''d''] 0 None)"
  by (simp add: closed_def seed_done_def py_take_def)

definition two_steps :: "plan_node list" where
  "two_steps = [\<lparr>pn_id = ''a'', pn_task = ''A'', pn_deps = [], pn_group = None\<rparr>,
     \<lparr>pn_id = ''b'', pn_task = ''B'', pn_deps = [''a''], pn_group = None\<rparr>]"

lemma two_steps_run: "returned (walk 12 two_steps None) \<and> gs_verified (walk 12 two_steps None)"
  by code_simp

lemma two_steps_start:
  "execute_graph (walk_cfg two_steps) walk_env [] \<lparr> ck_file = None, ck_write_failed = False \<rparr> [] 0 None =
     Inr ([''a'', ''b''], snd (walk_start two_steps None))"
  "fst (walk_start two_steps None) = [''a'', ''b'']"
proof -
  have "topo_order two_steps = Inr [''a'', ''b'']" by code_simp
  then show "execute_graph (walk_cfg two_steps) walk_env [] \<lparr> ck_file = None, ck_write_failed = False \<rparr> [] 0 None =
     Inr ([''a'', ''b''], snd (walk_start two_steps None))" "fst (walk_start two_steps None) = [''a'', ''b'']"
    by (simp_all add: walk_start_def execute_graph_def walk_cfg_def)
qed

lemma graph_verdict_exact_witness:
  "\<exists>r. gs_done (walk 12 two_steps None) ''b'' = Some r \<and> verified r"
proof -
  have wf: "wf_plan (gc_nodes (walk_cfg two_steps))" "gc_nodes (walk_cfg two_steps) \<noteq> []" by code_simp+
  have steps: "(graph_step (walk_cfg two_steps) walk_env [''a'', ''b''])\<^sup>*\<^sup>* (snd (walk_start two_steps None)) (walk 12 two_steps None)"
    unfolding walk_def two_steps_start(2) by (rule drive_steps)
  from two_steps_run obtain c where c: "gs_phase (walk 12 two_steps None) = Returned c"
    by (auto simp: returned_def split: phase.splits)
  from graph_verdict_exact [OF wf(1) two_steps_start(1) steps c wf(2)] two_steps_run
  show ?thesis by simp
qed

lemma each_step_starts_once_witness: "distinct (starts (gs_log (walk 30 diamond None)))"
proof -
  have none: "starts [] = []" by (simp add: starts_def)
  from each_step_starts_once [OF diamond_plan(1) diamond_start(1) none diamond_steps] show ?thesis by blast
qed

lemma graph_walk_safe_witness:
  "distinct (map fst (gs_running (walk 3 diamond None))) \<and> slots_used (walk 3 diamond None) \<le> 2"
proof -
  from graph_walk_safe [OF diamond_plan(1) diamond_start(1) diamond_closed diamond_steps] diamond_plan(3)
  show ?thesis by blast
qed

lemma graph_walk_ends_witness:
  "\<exists>n. (graph_step (walk_cfg diamond) walk_env [''a'', ''b'', ''c'', ''d''] ^^ n) (snd (walk_start diamond None)) (walk 30 diamond None) \<and>
     n \<le> 29"
proof -
  obtain n where n: "(graph_step (walk_cfg diamond) walk_env [''a'', ''b'', ''c'', ''d''] ^^ n)
      (snd (walk_start diamond None)) (walk 30 diamond None)"
    using rtranclp_imp_relpowp [OF diamond_steps] by blast
  have "gc_cap (walk_cfg diamond) \<noteq> Some 0" by (simp add: diamond_plan(3))
  from graph_walk_ends [OF diamond_plan(1) diamond_start(1) diamond_closed this n]
  have "n \<le> Suc (7 * length (gc_nodes (walk_cfg diamond)))" by blast
  moreover have "length (gc_nodes (walk_cfg diamond)) = 4" by (simp add: diamond_plan(2), simp add: diamond_def)
  ultimately show ?thesis using n by auto
qed

section \<open>A resume forgets a failure\<close>

text \<open>A node that failed before the crash is restored from the checkpoint as passed, so the resumed run can
  report itself verified although the same run, uninterrupted, could not.\<close>

lemma resume_forgets_failure:
  "let failed = (noted ''A'')\<lparr>verified := False, approved := False\<rparr>; s = walk 12 two_steps (Some [(''a'', failed)])
   in returned s \<and> gs_verified s \<and> status_of failed = Failed \<and> gs_status s ''a'' = Passed"
  by code_simp

end
