(* ===== verification/Master_Execute.thy ===== *)
theory Master_Execute
  imports Master_Graph_Runs
begin

text \<open>
  The entry of the master workflow (\<^verbatim>\<open>MasterWorkflow.execute\<close> in
  \<^verbatim>\<open>agy_orchestrator/workflows/master.py\<close>): the dry run, the choice between a checkpoint, an injected
  plan and the planner, and the choice between the flat loop of \<^verbatim>\<open>Master_Linear\<close> and the graph walker of
  \<^verbatim>\<open>Master_Graph\<close>.
\<close>

section \<open>Configuration\<close>

text \<open>\<open>mw_steps\<close> is the injected plan, empty when there is none.\<close>

record master_workflow =
  mw_plan_only :: bool
  mw_steps :: "pyval list"
  mw_graph :: "plan_node list option"
  mw_run :: run_cfg
  mw_cap :: "nat option"
  mw_policy :: string

text \<open>The constructor keeps the steps in line with a graph, and normalizes the cap.\<close>

definition make_master :: "bool \<Rightarrow> pyval list \<Rightarrow> plan_node list option \<Rightarrow> run_cfg \<Rightarrow> int option \<Rightarrow> string option \<Rightarrow>
    string \<Rightarrow> string + master_workflow" where
  "make_master plan_only steps graph cfg workers env policy =
     (if ck_policy (rc_ck cfg) \<notin> {''auto'', ''force'', ''never''} then Inl ''resume_policy''
      else ebind (case (steps, graph) of ([], Some ns) \<Rightarrow>
              (case graph_as_steps ns of Inl e \<Rightarrow> Inl ''cycle'' | Inr xs \<Rightarrow> Inr (map PStr xs)) | _ \<Rightarrow> Inr steps) (\<lambda>xs.
        if policy \<notin> set merge_policies then Inl ''merge_policy''
        else Inr \<lparr>mw_plan_only = plan_only, mw_steps = xs, mw_graph = graph, mw_run = cfg,
               mw_cap = max_parallel workers env, mw_policy = policy\<rparr>))"

section \<open>Starting a run\<close>

record launch_point =
  lp_tasks :: "pyval list"
  lp_start :: int
  lp_context :: pyval
  lp_session :: pyval
  lp_seeds :: "(string \<times> step_result) list option"

datatype launched =
    Dry_Run string
  | Run_Flat launch_point
  | Run_Graph launch_point
  | Not_Started string

definition plan_event :: "ck_cfg \<Rightarrow> pyval list \<Rightarrow> m_event" where
  "plan_event cfg tasks = Plan_Completed (length tasks) (map (\<lambda>t. truncate_title (py_str (ck_repr cfg) t)) tasks)"

definition plan_listing :: "ck_cfg \<Rightarrow> pyval list \<Rightarrow> string" where
  "plan_listing cfg tasks =
     ''Plan-only dry-run: '' @ show_nat (length tasks) @ '' step(s). No worker wrote to the '' @
     ''out-dir; pass without --plan-only to execute.'' @ nl @
     concat (map (\<lambda>i. nl @ ''  '' @ show_nat (Suc i) @ ''. '' @ py_str (ck_repr cfg) (tasks ! i)) [0..<length tasks])"

text \<open>What a resume would use: nothing when there is no usable checkpoint, or when the injected plan is not
  the checkpoint's.\<close>

definition resume_from :: "master_workflow \<Rightarrow> git \<Rightarrow> string \<Rightarrow> ck_state \<Rightarrow> pyexn + launch_point option" where
  "resume_from mw g prompt ck =
     ebind (load_checkpoint (rc_ck (mw_run mw)) g prompt (ck_file ck)) (\<lambda>found. case found of
         None \<Rightarrow> Inr None
       | Some rp \<Rightarrow> ebind (load_graph_done_frontier (rc_ck (mw_run mw)) prompt (ck_file ck)) (\<lambda>seeds.
           Inr (if mw_steps mw \<noteq> [] \<and> \<not> py_eq (PList (normalized_linearization (rp_tasks rp)))
                     (PList (normalized_linearization (mw_steps mw)))
                then None
                else Some \<lparr>lp_tasks = rp_tasks rp, lp_start = rp_completed rp, lp_context = rp_context rp,
                       lp_session = rp_session rp, lp_seeds = seeds\<rparr>)))"

text \<open>Where a new run starts; its first checkpoint is written before any step.\<close>

definition fresh_launch :: "string \<Rightarrow> pyval list \<Rightarrow> string option \<Rightarrow> launch_point" where
  "fresh_launch prompt tasks session = \<lparr>lp_tasks = tasks, lp_start = 0, lp_context = PStr (goal_header prompt),
     lp_session = opt_str session, lp_seeds = None\<rparr>"

definition dispatch :: "master_workflow \<Rightarrow> launch_point \<Rightarrow> launched" where
  "dispatch mw lp = (case is_graph_plan (mw_graph mw) of
       Inl e \<Rightarrow> Not_Started ''cycle'' | Inr True \<Rightarrow> Run_Graph lp | Inr False \<Rightarrow> Run_Flat lp)"

definition start_fresh :: "master_workflow \<Rightarrow> git \<Rightarrow> disk \<Rightarrow> string \<Rightarrow> pyval list \<Rightarrow> string option \<Rightarrow> ck_state \<Rightarrow>
    launched \<times> ck_state" where
  "start_fresh mw g d prompt tasks session ck =
     (case save_checkpoint (rc_ck (mw_run mw)) g d prompt tasks 0 (goal_header prompt) session None None ck of
        (True, ck1) \<Rightarrow> (Not_Started ''disk'', ck1)
      | (False, ck1) \<Rightarrow> (dispatch mw (fresh_launch prompt tasks session), ck1))"

text \<open>The planner's result is a parameter computed by \<open>run_planner\<close>; it is consulted only when needed.\<close>

definition execute_master :: "master_workflow \<Rightarrow> git \<Rightarrow> disk \<Rightarrow> string + plan_result \<Rightarrow> string \<Rightarrow> ck_state \<Rightarrow>
    launched \<times> ck_state \<times> m_event list" where
  "execute_master mw g d planned prompt ck =
    (if mw_plan_only mw
     then (if mw_steps mw \<noteq> []
           then (Dry_Run (plan_listing (rc_ck (mw_run mw)) (mw_steps mw)), ck, [plan_event (rc_ck (mw_run mw)) (mw_steps mw)])
           else case planned of
               Inl e \<Rightarrow> (Not_Started e, ck, [])
             | Inr p \<Rightarrow> (Dry_Run (plan_listing (rc_ck (mw_run mw)) (pr_tasks p)), ck,
                         pr_log p @ [plan_event (rc_ck (mw_run mw)) (pr_tasks p)]))
     else case resume_from mw g prompt ck of
         Inl e \<Rightarrow> (Not_Started ''checkpoint'', ck, [])
       | Inr (Some lp) \<Rightarrow> (dispatch mw lp, ck, [])
       | Inr None \<Rightarrow>
           (if mw_steps mw \<noteq> []
            then (case start_fresh mw g d prompt (mw_steps mw) None ck of
                (l, ck1) \<Rightarrow> (l, ck1, [plan_event (rc_ck (mw_run mw)) (mw_steps mw)]))
            else case planned of
                Inl e \<Rightarrow> (Not_Started e, ck, [])
              | Inr p \<Rightarrow> (case start_fresh mw g d prompt (pr_tasks p) (pr_session p) ck of
                    (l, ck1) \<Rightarrow> (l, ck1, pr_log p @ [plan_event (rc_ck (mw_run mw)) (pr_tasks p)]))))"

section \<open>What is run\<close>

lemma py_eq_refl_str: "py_eq (PList (map PStr xs)) (PList (map PStr ys)) \<longleftrightarrow> xs = ys"
proof -
  have "length xs = length ys \<Longrightarrow> list_all (\<lambda>(x, y). py_eq x y) (zip (map PStr xs) (map PStr ys)) \<longleftrightarrow> xs = ys"
    by (induction xs ys rule: list_induct2) auto
  then show ?thesis by (cases "length xs = length ys") auto
qed

lemma start_fresh_launches:
  assumes "start_fresh mw g d prompt tasks session ck = (l, ck1)" "l \<in> {Run_Flat lp, Run_Graph lp}"
  shows "lp = fresh_launch prompt tasks session"
  using assms by (auto simp: start_fresh_def dispatch_def split: prod.splits bool.splits sum.splits)

text \<open>An injected plan of step texts is always what runs: a checkpoint is taken up only when its steps are
  exactly the plan's, and otherwise the run starts at the first step with a context that is the bare
  goal.  A dry run starts nothing and leaves the checkpoint alone, whatever there is to resume.\<close>

theorem injected_plan_runs:
  assumes "mw_steps mw = map PStr steps" "steps \<noteq> []"
    and "execute_master mw g d planned prompt ck = (l, ck1, evs)"
  shows "(mw_plan_only mw \<longrightarrow> ck1 = ck \<and> l = Dry_Run (plan_listing (rc_ck (mw_run mw)) (map PStr steps))) \<and>
    (\<forall>lp. l \<in> {Run_Flat lp, Run_Graph lp} \<longrightarrow> \<not> mw_plan_only mw \<and>
       (lp = fresh_launch prompt (map PStr steps) None \<or>
        py_eq (PList (lp_tasks lp)) (PList (map PStr steps)) \<and> ck1 = ck \<and>
        resume_from mw g prompt ck = Inr (Some lp)))"
proof (cases "mw_plan_only mw")
  case True
  with assms show ?thesis by (auto simp: execute_master_def)
next
  case False
  show ?thesis
  proof (cases "resume_from mw g prompt ck")
    case (Inl e)
    with assms False show ?thesis by (auto simp: execute_master_def)
  next
    case (Inr found)
    show ?thesis
    proof (cases found)
      case None
      obtain l2 ck2 where st: "start_fresh mw g d prompt (map PStr steps) None ck = (l2, ck2)" by fastforce
      with assms False Inr None have "l2 = l" by (simp add: execute_master_def)
      with start_fresh_launches [OF st] False show ?thesis by auto
    next
      case (Some lp0)
      with assms False Inr have l: "l = dispatch mw lp0" "ck1 = ck" by (simp_all add: execute_master_def)
      have "py_eq (PList (lp_tasks lp0)) (PList (map PStr steps))"
        using Inr Some assms(1, 2)
        by (auto simp: resume_from_def ebind_iffs normalized_linearization_def simp del: py_eq.simps
            split: option.splits if_splits)
      with l Inr Some False show ?thesis
        by (auto simp: dispatch_def split: sum.splits bool.splits)
    qed
  qed
qed

definition demo_master :: "string list \<Rightarrow> master_workflow" where
  "demo_master steps = \<lparr>mw_plan_only = False, mw_steps = map PStr steps, mw_graph = None, mw_run = demo_cfg 0,
     mw_cap = None, mw_policy = ''reconcile''\<rparr>"

text \<open>The checkpoint of a two-step plan is not used for the edited plan.\<close>

lemma injected_plan_runs_witness:
  "let ck = snd (save_checkpoint (plain_cfg ''auto'') (git_at ''c0'' []) Stored ''goal'' [PStr ''a'', PStr ''b''] 1 ''ctx'' None
         None None \<lparr>ck_file = None, ck_write_failed = False\<rparr>);
       mw = demo_master [''a'', ''c'']
   in fst (execute_master mw (git_at ''c0'' []) Stored (Inl ''none'') ''goal'' ck) =
        Run_Flat (fresh_launch ''goal'' [PStr ''a'', PStr ''c''] None)"
proof -
  let ?ck = "snd (save_checkpoint (plain_cfg ''auto'') (git_at ''c0'' []) Stored ''goal'' [PStr ''a'', PStr ''b''] 1 ''ctx'' None
         None None \<lparr>ck_file = None, ck_write_failed = False\<rparr>)"
  let ?mw = "demo_master [''a'', ''c'']"
  have none: "resume_from ?mw (git_at ''c0'' []) ''goal'' ?ck = Inr None" by code_simp
  obtain l ck1 evs where ex: "execute_master ?mw (git_at ''c0'' []) Stored (Inl ''none'') ''goal'' ?ck = (l, ck1, evs)"
    by (metis prod_cases3)
  then obtain lp where flat: "l = Run_Flat lp"
    unfolding execute_master_def none
    by (auto simp: start_fresh_def dispatch_def is_graph_plan_def demo_master_def save_checkpoint_def demo_cfg_def
        plain_cfg_def truthy_str_def)
  have steps: "mw_steps ?mw = map PStr [''a'', ''c'']" by (simp add: demo_master_def)
  from injected_plan_runs [OF steps _ ex] flat
  have "lp = fresh_launch ''goal'' (map PStr [''a'', ''c'']) None"
    unfolding none by blast
  then show ?thesis unfolding Let_def ex fst_conv flat by simp
qed

text \<open>A graph whose edited dependencies leave the order of the steps as it was passes the comparison with
  the checkpoint, and the finished nodes it restores need not be closed: then a context cannot be
  composed and the run aborts.\<close>

lemma edited_dependencies_abort:
  "let chain = [\<lparr>pn_id = ''a'', pn_task = ''A'', pn_deps = [], pn_group = None\<rparr>,
         \<lparr>pn_id = ''b'', pn_task = ''B'', pn_deps = [''a''], pn_group = None\<rparr>,
         \<lparr>pn_id = ''c'', pn_task = ''C'', pn_deps = [''b''], pn_group = None\<rparr>]
   in fst (walk_start chain (Some [(''b'', noted ''B'')])) = [''a'', ''b'', ''c''] \<and>
      compose_context chain ''c'' [''b'' \<mapsto> noted ''B''] ''goal'' = Inl (Missing_Result ''a'') \<and>
      ready (walk_cfg chain) (fresh_state [] \<lparr>ck_file = None, ck_write_failed = False\<rparr> [] [''b'' \<mapsto> noted ''B'']) ''c''"
  by code_simp

end
