(* ===== verification/Vote.thy ===== *)
theory Vote
  imports Repair_Loops "HOL-Library.Product_Lexorder"
begin

text \<open>
  \<^verbatim>\<open>agy_orchestrator/workflows/vote.py\<close>: candidates generated in isolated workspaces, each graded by
  the verifier, the best passing one mirrored back.  Candidates do not see each other's workspaces,
  so the two semaphores only delay them and the results are a map over the candidates.  Generators,
  the setup command, the verifier, the diff and the opening of workspaces are parameters; candidate
  \<open>None\<close> is the preflight probe.  The wording of refusals is left out.
\<close>

section \<open>Configuration\<close>

record vote_cfg =
  vo_count :: nat
  vo_verifier_concurrency :: nat
  vo_preflight :: bool
  vo_baseline :: "bool option"
  vo_setup :: "string option"
  vo_setup_timeout :: rat
  vo_max_parallel :: "nat option"

definition setup_timeout_of :: "rat option \<Rightarrow> string option \<Rightarrow> rat" where
  "setup_timeout_of arg env = (case arg of Some t \<Rightarrow> t
     | None \<Rightarrow> let raw = (case env of None \<Rightarrow> ''1200'' | Some v \<Rightarrow> v) in
         if raw = [] then 0 else case py_float raw of None \<Rightarrow> 1200 | Some t \<Rightarrow> t)"

definition make_vote :: "nat \<Rightarrow> bool \<Rightarrow> int \<Rightarrow> bool \<Rightarrow> bool option \<Rightarrow> string option \<Rightarrow> rat option \<Rightarrow> string option \<Rightarrow>
    int option \<Rightarrow> string option \<Rightarrow> string + vote_cfg" where
  "make_vote generators has_verifier concurrency preflight baseline setup timeout timeout_env workers workers_env =
     (if generators = 0 then Inl ''VoteWorkflow needs at least one generator''
      else if \<not> has_verifier then Inl ''VoteWorkflow requires a verifier''
      else Inr \<lparr>vo_count = generators, vo_verifier_concurrency = nat (max 1 concurrency), vo_preflight = preflight,
             vo_baseline = baseline, vo_setup = setup, vo_setup_timeout = setup_timeout_of timeout timeout_env,
             vo_max_parallel = max_parallel workers workers_env\<rparr>)"

text \<open>How a setup command ended: its exit code and standard error, killed by the timeout, or an exception.\<close>

datatype setup_end = Setup_Exit int string | Setup_Timeout | Setup_Raised string

text \<open>The collaborators; \<open>Inl\<close> is the text of an exception.  A generator may come back without an output.
  \<open>ve_apply\<close> is \<open>None\<close> when the winner is written back whole, else the exception and the tree it leaves.\<close>

record vote_env =
  ve_open :: "nat option \<Rightarrow> tree \<Rightarrow> tree option"
  ve_gen :: "nat \<Rightarrow> string \<Rightarrow> tree \<Rightarrow> (string + string option) \<times> tree"
  ve_setup :: "nat option \<Rightarrow> tree \<Rightarrow> setup_end \<times> tree"
  ve_verify :: "nat option \<Rightarrow> tree \<Rightarrow> string + vresult"
  ve_verify_base :: "tree \<Rightarrow> string + vresult"
  ve_diff :: "nat \<Rightarrow> tree \<Rightarrow> tree \<Rightarrow> string + string"
  ve_apply :: "tree \<Rightarrow> tree \<Rightarrow> (string \<times> tree) option"
  ve_seconds :: "rat \<Rightarrow> string"

section \<open>One candidate\<close>

definition last_chars :: "nat \<Rightarrow> string \<Rightarrow> string" where
  "last_chars n s = drop (length s - n) s"

definition setup_error :: "vote_cfg \<Rightarrow> vote_env \<Rightarrow> string \<Rightarrow> setup_end \<Rightarrow> string option" where
  "setup_error cfg env cmd e = (case e of
       Setup_Timeout \<Rightarrow> Some (''candidate setup timed out after '' @ ve_seconds env (vo_setup_timeout cfg) @ ''s: '' @ cmd)
     | Setup_Raised why \<Rightarrow> Some (''candidate setup raised: '' @ why)
     | Setup_Exit rc err \<Rightarrow>
         if rc = 0 then None
         else Some (py_strip (''candidate setup failed (rc='' @ show_int rc @ ''): '' @ cmd @ nl @ last_chars 500 err)))"

definition run_candidate_setup :: "vote_cfg \<Rightarrow> vote_env \<Rightarrow> nat option \<Rightarrow> tree \<Rightarrow> string option \<times> tree" where
  "run_candidate_setup cfg env who t = (case truthy_str (vo_setup cfg) of
       None \<Rightarrow> (None, t)
     | Some cmd \<Rightarrow> (case ve_setup env who t of (e, t') \<Rightarrow> (setup_error cfg env cmd e, t')))"

text \<open>The output if there is one, whether the candidate passed, the error, and the workspace it leaves.\<close>

definition run_one :: "vote_cfg \<Rightarrow> vote_env \<Rightarrow> string \<Rightarrow> nat \<Rightarrow> tree \<Rightarrow>
    (string option \<times> bool \<times> string option) \<times> tree" where
  "run_one cfg env prompt i ws = (case ve_gen env i prompt ws of
       (Inl why, t) \<Rightarrow> ((None, False, Some why), t)
     | (Inr out, t) \<Rightarrow>
         (case run_candidate_setup cfg env (Some i) t of
            (Some err, t') \<Rightarrow> ((out, False, Some err), t')
          | (None, t') \<Rightarrow>
              (case ve_verify env (Some i) t' of
                 Inl why \<Rightarrow> ((out, False, Some (''verifier-raised: '' @ why)), t')
               | Inr r \<Rightarrow> ((out, v_ok r, Some (v_message r)), t'))))"

section \<open>Preflight\<close>

datatype refusal = Setup_Refused string | Cannot_Start | Env_Differs

definition preflight_refusal :: "vresult \<Rightarrow> refusal" where
  "preflight_refusal r =
     (if v_returncode r \<in> {126, 127} \<or> py_in ''command not found'' (py_lower (py_strip (v_message r)))
      then Cannot_Start else Env_Differs)"

definition preflight_check :: "vote_cfg \<Rightarrow> vote_env \<Rightarrow> tree \<Rightarrow> string + refusal option" where
  "preflight_check cfg env base = (case ve_open env None base of
       None \<Rightarrow> Inr None
     | Some ws \<Rightarrow> (case run_candidate_setup cfg env None ws of
           (Some err, t) \<Rightarrow> Inr (Some (Setup_Refused (take 300 err)))
         | (None, t) \<Rightarrow> (case ve_verify env None t of
               Inl why \<Rightarrow> Inr None
             | Inr pristine \<Rightarrow>
                 if v_ok pristine then Inr None
                 else if v_returncode pristine = 127 then Inr (Some (preflight_refusal pristine))
                 else ebind (case vo_baseline cfg of
                        Some b \<Rightarrow> Inr b
                      | None \<Rightarrow> ebind (ve_verify_base env base) (\<lambda>r. Inr (v_ok r))) (\<lambda>base_ok.
                   Inr (if base_ok then Some (preflight_refusal pristine) else None)))))"

section \<open>Scores\<close>

record score =
  sc_index :: nat
  sc_output :: string
  sc_tree :: tree
  sc_files :: nat
  sc_size :: nat
  sc_tests :: bool

definition strip_lead :: "string \<Rightarrow> string \<Rightarrow> string" where
  "strip_lead p s = (if prefix p s then drop (length p) s else s)"

definition diff_headers :: "string \<Rightarrow> string list" where
  "diff_headers diff = filter (prefix ''diff --git '') (split_lines [] diff)"

definition names_test :: "string \<Rightarrow> bool" where
  "names_test line = (case py_words [] line of
       a # b # p # q # rest \<Rightarrow>
         py_in ''test'' (py_lower (strip_lead ''a/'' p)) \<or> py_in ''test'' (py_lower (strip_lead ''b/'' q))
     | _ \<Rightarrow> False)"

definition score_passer :: "vote_env \<Rightarrow> tree \<Rightarrow> nat \<Rightarrow> string \<Rightarrow> tree \<Rightarrow> string + score" where
  "score_passer env base i out ws = ebind (ve_diff env i base ws) (\<lambda>diff. Inr
     \<lparr>sc_index = i, sc_output = out, sc_tree = ws, sc_files = length (diff_headers diff), sc_size = length diff,
       sc_tests = list_ex names_test (diff_headers diff)\<rparr>)"

definition rank_key :: "score \<Rightarrow> nat \<times> nat \<times> nat \<times> nat" where
  "rank_key s = (sc_files s, if sc_tests s then 0 else 1, sc_size s, sc_index s)"

definition rank_passers :: "score list \<Rightarrow> score list" where
  "rank_passers ss = sort_key rank_key ss"

section \<open>The vote\<close>

datatype vote_end = Voted string | Refused refusal | Vote_Raised string

record vote_state =
  vs_tree :: tree
  vs_verified :: bool
  vs_passed :: nat
  vs_winner :: int
  vs_used :: nat
  vs_outcomes :: "(bool \<times> string option) list"
  vs_metric :: "(nat \<times> nat \<times> bool) option"

definition vote_init :: "tree \<Rightarrow> vote_state" where
  "vote_init t = \<lparr>vs_tree = t, vs_verified = False, vs_passed = 0, vs_winner = - 1, vs_used = 0, vs_outcomes = [],
     vs_metric = None\<rparr>"

type_synonym candidate = "(string option \<times> bool \<times> string option) \<times> tree"

text \<open>The scores of the candidates that passed and have an output, numbered from \<open>i\<close>; a failing diff ends the loop.\<close>

fun passers :: "vote_env \<Rightarrow> tree \<Rightarrow> nat \<Rightarrow> candidate list \<Rightarrow> string + score list" where
  "passers env base i [] = Inr []"
| "passers env base i (((out, ok, e), ws) # cs) =
     (case (ok, out) of
        (True, Some text) \<Rightarrow> ebind (score_passer env base i text ws) (\<lambda>w.
            ebind (passers env base (Suc i) cs) (\<lambda>ss. Inr (w # ss)))
      | _ \<Rightarrow> passers env base (Suc i) cs)"

definition count_results :: "candidate list \<Rightarrow> vote_state \<Rightarrow> vote_state" where
  "count_results cs s = s\<lparr>
     vs_used := length (filter (\<lambda>((out, ok, e), ws). out \<noteq> None) cs),
     vs_outcomes := map (\<lambda>((out, ok, e), ws). (ok, e)) cs,
     vs_passed := length (filter (\<lambda>((out, ok, e), ws). ok) cs)\<rparr>"

text \<open>The winner's signals are set before its workspace is written back.\<close>

definition crown :: "vote_env \<Rightarrow> score \<Rightarrow> vote_state \<Rightarrow> vote_end \<times> vote_state" where
  "crown env w s =
     (let s1 = s\<lparr>vs_winner := int (sc_index w), vs_verified := True,
                 vs_metric := Some (sc_files w, sc_size w, sc_tests w)\<rparr>
      in case ve_apply env (sc_tree w) (vs_tree s) of
           None \<Rightarrow> (Voted (sc_output w), s1\<lparr>vs_tree := apply_workspace (sc_tree w) (vs_tree s)\<rparr>)
         | Some (why, t) \<Rightarrow> (Vote_Raised why, s1\<lparr>vs_tree := t\<rparr>))"

definition first_output :: "candidate list \<Rightarrow> string" where
  "first_output cs = (case filter (\<lambda>((out, ok, e), ws). out \<noteq> None) cs of
     ((Some out, ok, e), ws) # _ \<Rightarrow> out | _ \<Rightarrow> [])"

definition candidates :: "vote_cfg \<Rightarrow> vote_env \<Rightarrow> string \<Rightarrow> tree \<Rightarrow> candidate list" where
  "candidates cfg env prompt base =
     map (\<lambda>i. run_one cfg env prompt i (the (ve_open env (Some i) base))) [0..<vo_count cfg]"

definition vote_execute :: "vote_cfg \<Rightarrow> vote_env \<Rightarrow> string \<Rightarrow> tree \<Rightarrow> vote_end \<times> vote_state" where
  "vote_execute cfg env prompt base =
     (case (if vo_preflight cfg then preflight_check cfg env base else Inr None) of
        Inl why \<Rightarrow> (Vote_Raised why, vote_init base)
      | Inr (Some r) \<Rightarrow> (Refused r, vote_init base)
      | Inr None \<Rightarrow>
          if list_ex (\<lambda>i. ve_open env (Some i) base = None) [0..<vo_count cfg]
          then (Vote_Raised ''open'', vote_init base)
          else
            let cs = candidates cfg env prompt base;
                s = count_results cs (vote_init base)
            in case passers env base 0 cs of
                 Inl why \<Rightarrow> (Vote_Raised why, s)
               | Inr ps \<Rightarrow> if ps \<noteq> [] then crown env (hd (rank_passers ps)) s
                           else (Voted (first_output cs), s))"

section \<open>What a vote decides\<close>

definition passed :: "vote_cfg \<Rightarrow> vote_env \<Rightarrow> string \<Rightarrow> tree \<Rightarrow> nat \<Rightarrow> bool" where
  "passed cfg env prompt base i =
     fst (snd (fst (run_one cfg env prompt i (the (ve_open env (Some i) base)))))"

text \<open>A candidate can win when it passed and has an output; its score exists when its diff could be taken.\<close>

definition eligible :: "vote_cfg \<Rightarrow> vote_env \<Rightarrow> string \<Rightarrow> tree \<Rightarrow> nat \<Rightarrow> bool" where
  "eligible cfg env prompt base i \<longleftrightarrow> passed cfg env prompt base i \<and>
     fst (fst (run_one cfg env prompt i (the (ve_open env (Some i) base)))) \<noteq> None"

definition candidate_score :: "vote_cfg \<Rightarrow> vote_env \<Rightarrow> string \<Rightarrow> tree \<Rightarrow> nat \<Rightarrow> score option" where
  "candidate_score cfg env prompt base i =
     (case run_one cfg env prompt i (the (ve_open env (Some i) base)) of
        ((out, ok, e), ws) \<Rightarrow> (case score_passer env base i (the out) ws of Inl why \<Rightarrow> None | Inr w \<Rightarrow> Some w))"

lemma score_index: "score_passer env base i out ws = Inr w \<Longrightarrow> sc_index w = i"
  by (cases "ve_diff env i base ws") (auto simp: score_passer_def ebind_def)

lemma passers_ConsE:
  assumes "passers env base i (c # cs) = Inr ps"
  obtains (scored) out e ws w ps' where "c = ((Some out, True, e), ws)" "score_passer env base i out ws = Inr w"
      "passers env base (Suc i) cs = Inr ps'" "ps = w # ps'"
  | (skipped) "\<And>out e ws. c \<noteq> ((Some out, True, e), ws)" "passers env base (Suc i) cs = Inr ps"
proof -
  obtain out ok e ws where c: "c = ((out, ok, e), ws)" by (metis prod.exhaust)
  show thesis
  proof (cases "ok \<and> out \<noteq> None")
    case True
    with assms c scored show thesis by (auto simp: ebind_iffs)
  next
    case False
    with assms c skipped show thesis by (cases ok; cases out) auto
  qed
qed

lemma passers_have_scores:
  "passers env base i cs = Inr ps \<Longrightarrow> w \<in> set ps \<Longrightarrow>
     \<exists>j < length cs. \<exists>out e ws. cs ! j = ((Some out, True, e), ws) \<and> score_passer env base (i + j) out ws = Inr w"
proof (induction cs arbitrary: i ps)
  case (Cons c cs)
  have later: ?case if "passers env base (Suc i) cs = Inr ps'" "w \<in> set ps'" for ps'
  proof -
    from Cons.IH [OF that] obtain j out e ws where "j < length cs" "cs ! j = ((Some out, True, e), ws)"
      "score_passer env base (Suc i + j) out ws = Inr w" by blast
    then show ?thesis by (intro exI [of _ "Suc j"]) auto
  qed
  from Cons.prems(1) show ?case
  proof (cases rule: passers_ConsE)
    case (scored out e ws w' ps')
    show ?thesis
    proof (cases "w = w'")
      case True
      with scored show ?thesis by (intro exI [of _ 0]) simp
    next
      case False
      with scored Cons.prems(2) later show ?thesis by simp
    qed
  next
    case skipped
    with Cons.prems(2) later show ?thesis by simp
  qed
qed simp

lemma passers_score_all:
  "passers env base i cs = Inr ps \<Longrightarrow> j < length cs \<Longrightarrow> cs ! j = ((Some out, True, e), ws) \<Longrightarrow>
     \<exists>w \<in> set ps. score_passer env base (i + j) out ws = Inr w"
proof (induction cs arbitrary: i j ps)
  case (Cons c cs)
  show ?case
  proof (cases j)
    case 0
    with Cons.prems(3) have "c = ((Some out, True, e), ws)" by simp
    from Cons.prems(1) show ?thesis by (cases rule: passers_ConsE) (use 0 \<open>c = _\<close> in auto)
  next
    case (Suc k)
    with Cons.prems have k: "k < length cs" "cs ! k = ((Some out, True, e), ws)" by simp_all
    from Cons.prems(1) show ?thesis
      by (cases rule: passers_ConsE) (use Cons.IH [OF _ k] Suc in force)+
  qed
qed simp

lemma candidate_at: "i < vo_count cfg \<Longrightarrow> candidates cfg env prompt base ! i = run_one cfg env prompt i (the (ve_open env (Some i) base))"
  by (simp add: candidates_def)

lemma eligible_iff:
  assumes "i < vo_count cfg"
  shows "eligible cfg env prompt base i \<longleftrightarrow> (\<exists>out e ws. candidates cfg env prompt base ! i = ((Some out, True, e), ws))"
  unfolding candidate_at [OF assms] eligible_def passed_def
  by (cases "run_one cfg env prompt i (the (ve_open env (Some i) base))") auto

lemma passers_candidates:
  assumes "passers env base 0 (candidates cfg env prompt base) = Inr ps"
  shows "w \<in> set ps \<Longrightarrow> \<exists>i < vo_count cfg. eligible cfg env prompt base i \<and> candidate_score cfg env prompt base i = Some w"
    "i < vo_count cfg \<Longrightarrow> eligible cfg env prompt base i \<Longrightarrow> \<exists>w \<in> set ps. candidate_score cfg env prompt base i = Some w"
proof -
  have n: "length (candidates cfg env prompt base) = vo_count cfg" by (simp add: candidates_def)
  show "\<exists>i < vo_count cfg. eligible cfg env prompt base i \<and> candidate_score cfg env prompt base i = Some w" if "w \<in> set ps"
    using passers_have_scores [OF assms that] eligible_iff [of _ cfg env prompt base] candidate_at [of _ cfg env prompt base]
    by (fastforce simp: n candidate_score_def)
  assume i: "i < vo_count cfg" "eligible cfg env prompt base i"
  then obtain out e ws where c: "candidates cfg env prompt base ! i = ((Some out, True, e), ws)" using eligible_iff by blast
  from passers_score_all [OF assms _ c] i(1) c show "\<exists>w \<in> set ps. candidate_score cfg env prompt base i = Some w"
    by (auto simp: n candidate_score_def candidate_at)
qed

lemma hd_sort_key:
  fixes f :: "'a \<Rightarrow> 'b::linorder"
  assumes "xs \<noteq> []"
  shows "hd (sort_key f xs) \<in> set xs \<and> (\<forall>x \<in> set xs. f (hd (sort_key f xs)) \<le> f x)"
proof
  have ne: "sort_key f xs \<noteq> []" using assms by (metis length_0_conv length_sort)
  then show "hd (sort_key f xs) \<in> set xs" using hd_in_set set_sort by metis
  show "\<forall>x \<in> set xs. f (hd (sort_key f xs)) \<le> f x"
  proof
    fix x assume "x \<in> set xs"
    then have "f x \<in> set (map f (sort_key f xs))" by simp
    moreover have "sorted (map f (sort_key f xs))" by simp
    ultimately show "f (hd (sort_key f xs)) \<le> f x"
      using ne by (cases "sort_key f xs") auto
  qed
qed

lemma count_results_passed:
  "vs_passed (count_results (candidates cfg env prompt base) s) = card {i. i < vo_count cfg \<and> passed cfg env prompt base i}"
proof -
  have "filter (\<lambda>((out, ok, e), ws). ok) (candidates cfg env prompt base) =
      map (\<lambda>i. run_one cfg env prompt i (the (ve_open env (Some i) base))) (filter (passed cfg env prompt base) [0..<vo_count cfg])"
    by (simp add: candidates_def filter_map comp_def passed_def [abs_def] split_beta)
  then have "vs_passed (count_results (candidates cfg env prompt base) s) =
      length (filter (passed cfg env prompt base) [0..<vo_count cfg])"
    by (simp add: count_results_def)
  also have "\<dots> = card (set (filter (passed cfg env prompt base) [0..<vo_count cfg]))"
    by (rule distinct_card [symmetric]) simp
  also have "set (filter (passed cfg env prompt base) [0..<vo_count cfg]) = {i. i < vo_count cfg \<and> passed cfg env prompt base i}"
    by auto
  finally show ?thesis .
qed

text \<open>C22: a vote changes the working tree only for a winner.  The winner is a candidate that passed the
  verifier in its own workspace and has an output, and no other such candidate beats it (fewer files, then tests touched,
  then the smaller diff, then the smaller index); the vote then returns its output and the tree mirrors exactly its
  workspace, unless the writing back itself raises.  A vote that returns has counted the candidates that
  passed and has a winner exactly when one of them has an output; a refusal, a failure before that or a vote without passers leaves the
  tree as it was.\<close>

theorem vote_outcome:
  assumes "vote_execute cfg env prompt base = (e, s)"
  shows "(vs_verified s \<longrightarrow> (\<exists>i < vo_count cfg. \<exists>w. vs_winner s = int i \<and> eligible cfg env prompt base i \<and>
       candidate_score cfg env prompt base i = Some w \<and>
       (e = Voted (sc_output w) \<and> vs_tree s = apply_workspace (sc_tree w) base \<or>
        (\<exists>why. e = Vote_Raised why \<and> ve_apply env (sc_tree w) base = Some (why, vs_tree s))) \<and>
       (\<forall>j < vo_count cfg. eligible cfg env prompt base j \<longrightarrow>
          (\<exists>v. candidate_score cfg env prompt base j = Some v \<and> rank_key w \<le> rank_key v)))) \<and>
    (\<not> vs_verified s \<longrightarrow> vs_winner s = - 1 \<and> vs_tree s = base) \<and>
    (\<forall>out. e = Voted out \<longrightarrow> vs_passed s = card {i. i < vo_count cfg \<and> passed cfg env prompt base i} \<and>
       (vs_verified s \<longleftrightarrow> (\<exists>i < vo_count cfg. eligible cfg env prompt base i)))"
proof -
  let ?cs = "candidates cfg env prompt base"
  let ?s = "count_results ?cs (vote_init base)"
  have init: "\<not> vs_verified (vote_init base)" "vs_winner (vote_init base) = - 1" "vs_tree (vote_init base) = base"
    "\<not> vs_verified ?s" "vs_winner ?s = - 1" "vs_tree ?s = base"
    by (simp_all add: vote_init_def count_results_def)
  consider (early) "\<forall>out. e \<noteq> Voted out" "s = vote_init base \<or> s = ?s"
    | (late) ps where "passers env base 0 ?cs = Inr ps"
        "(e, s) = (if ps \<noteq> [] then crown env (hd (rank_passers ps)) ?s else (Voted (first_output ?cs), ?s))"
    using assms by (auto simp: vote_execute_def Let_def split: sum.splits option.splits if_splits)
  then show ?thesis
  proof cases
    case early
    with init show ?thesis by auto
  next
    case late
    note ps = passers_candidates [OF late(1)]
    have count: "vs_passed ?s = card {i. i < vo_count cfg \<and> passed cfg env prompt base i}" by (rule count_results_passed)
    show ?thesis
    proof (cases "ps = []")
      case True
      then have "\<not> (\<exists>i < vo_count cfg. eligible cfg env prompt base i)" using ps(2) by auto
      with late(2) True init count show ?thesis by simp
    next
      case False
      let ?w = "hd (rank_passers ps)"
      from hd_sort_key [OF False, of rank_key]
      have w: "?w \<in> set ps" "\<forall>x \<in> set ps. rank_key ?w \<le> rank_key x" by (simp_all add: rank_passers_def)
      from ps(1) [OF w(1)] obtain i where i: "i < vo_count cfg" "eligible cfg env prompt base i"
        "candidate_score cfg env prompt base i = Some ?w" by blast
      have "sc_index ?w = i"
        using i(3) score_index by (fastforce simp: candidate_score_def split: prod.splits sum.splits)
      then have s: "vs_verified s" "vs_winner s = int i" "vs_passed s = vs_passed ?s"
        and e: "e = Voted (sc_output ?w) \<and> vs_tree s = apply_workspace (sc_tree ?w) base \<or>
          (\<exists>why. e = Vote_Raised why \<and> ve_apply env (sc_tree ?w) base = Some (why, vs_tree s))"
        using late(2) False init by (auto simp: crown_def Let_def split: option.splits)
      have "\<exists>v. candidate_score cfg env prompt base j = Some v \<and> rank_key ?w \<le> rank_key v"
        if "j < vo_count cfg" "eligible cfg env prompt base j" for j
        using ps(2) [OF that] w(2) by blast
      then have best: "\<forall>j < vo_count cfg. eligible cfg env prompt base j \<longrightarrow>
          (\<exists>v. candidate_score cfg env prompt base j = Some v \<and> rank_key ?w \<le> rank_key v)" by simp
      have "\<exists>i < vo_count cfg. \<exists>w. vs_winner s = int i \<and> eligible cfg env prompt base i \<and>
         candidate_score cfg env prompt base i = Some w \<and>
         (e = Voted (sc_output w) \<and> vs_tree s = apply_workspace (sc_tree w) base \<or>
          (\<exists>why. e = Vote_Raised why \<and> ve_apply env (sc_tree w) base = Some (why, vs_tree s))) \<and>
         (\<forall>j < vo_count cfg. eligible cfg env prompt base j \<longrightarrow>
            (\<exists>v. candidate_score cfg env prompt base j = Some v \<and> rank_key w \<le> rank_key v))"
        by (rule exI [of _ i], rule conjI, fact, rule exI [of _ ?w], intro conjI; fact)
      moreover have "vs_verified s \<longleftrightarrow> (\<exists>i < vo_count cfg. eligible cfg env prompt base i)" using s(1) i by auto
      ultimately show ?thesis using s(1) s(3) count by simp
    qed
  qed
qed

definition vote_sample :: vote_env where
  "vote_sample = \<lparr>ve_open = (\<lambda>who t. Some t), ve_gen = (\<lambda>i p t. (Inr (Some ''out''), (''a.py'', show_nat i) # t)),
     ve_setup = (\<lambda>who t. (Setup_Exit 0 [], t)),
     ve_verify = (\<lambda>who t. Inr \<lparr>v_ok = (who = None \<or> who = Some 1), v_message = [], v_returncode = 1,
       v_timeout = False, v_resource = False, v_infra = False, v_hash = None\<rparr>),
     ve_verify_base = (\<lambda>t. Inl ''off''), ve_diff = (\<lambda>i a b. Inr []), ve_apply = (\<lambda>a b. None), ve_seconds = (\<lambda>t. ''1'')\<rparr>"

definition vote_sample_cfg :: vote_cfg where
  "vote_sample_cfg = \<lparr>vo_count = 2, vo_verifier_concurrency = 1, vo_preflight = True, vo_baseline = None, vo_setup = None,
     vo_setup_timeout = 1200, vo_max_parallel = None\<rparr>"

theorem vote_outcome_witness:
  "vs_winner (snd (vote_execute vote_sample_cfg vote_sample ''task'' [])) = 1"
proof -
  obtain e s where r: "vote_execute vote_sample_cfg vote_sample ''task'' [] = (e, s)" by force
  have ok: "vs_verified (snd (vote_execute vote_sample_cfg vote_sample ''task'' []))" by code_simp
  have no: "\<not> passed vote_sample_cfg vote_sample ''task'' [] 0" by code_simp
  from vote_outcome [OF r] ok r obtain i where i: "i < vo_count vote_sample_cfg" "vs_winner s = int i"
    "eligible vote_sample_cfg vote_sample ''task'' [] i" by auto
  with no have "i = 1" by (cases i) (auto simp: vote_sample_cfg_def eligible_def)
  with i r show ?thesis by simp
qed

section \<open>When a vote is refused\<close>

definition base_green :: "vote_cfg \<Rightarrow> vote_env \<Rightarrow> tree \<Rightarrow> bool" where
  "base_green cfg env base = (case vo_baseline cfg of Some b \<Rightarrow> b
     | None \<Rightarrow> (case ve_verify_base env base of Inr r \<Rightarrow> v_ok r | Inl why \<Rightarrow> False))"

text \<open>Without a setup command, a run is refused exactly for a pristine workspace that is red while the base
  tree is green, or red with exit status 127 whatever the base tree says.\<close>

lemma preflight_exact:
  assumes "ve_open env None base = Some ws" "truthy_str (vo_setup cfg) = None" "ve_verify env None ws = Inr p"
  shows "(\<exists>r. preflight_check cfg env base = Inr (Some r)) \<longleftrightarrow>
    \<not> v_ok p \<and> (v_returncode p = 127 \<or> base_green cfg env base)"
  using assms by (auto simp: preflight_check_def run_candidate_setup_def base_green_def split: option.split sum.split)

text \<open>So a verifier that cannot start anywhere is refused too, with a message saying that the real tree passes.\<close>

lemma refused_on_a_red_base:
  assumes "ve_open env None base = Some ws" "truthy_str (vo_setup cfg) = None" "ve_verify env None ws = Inr p"
    and "\<not> v_ok p" "v_returncode p = 127" "\<not> base_green cfg env base"
  shows "preflight_check cfg env base = Inr (Some Cannot_Start)"
  using assms by (simp add: preflight_check_def run_candidate_setup_def preflight_refusal_def)

end
