(* ===== verification/Reconcile_Parse.thy ===== *)
theory Reconcile_Parse
  imports Adversarial
begin

text \<open>
  \<^verbatim>\<open>agy_orchestrator/workflows/reconcile.py\<close>, the parsing half: the JSON object inside a
  reply, witness values, findings, the verdict computed from them, and the test-module convention.
  \<open>json.loads\<close> and the text of floats and containers are parameters.
\<close>

section \<open>Numbers in text\<close>

text \<open>What \<open>-?\d+(?:\.\d+)?\<close> matches at the start of a text, and \<open>findall\<close> of it.\<close>

definition number_prefix :: "string \<Rightarrow> string option" where
  "number_prefix s =
     (let sg = (case s of c # cs \<Rightarrow> if c = CHR ''-'' then [c] else [] | [] \<Rightarrow> []);
          ds = takeWhile is_digit (drop (length sg) s);
          fr = (case drop (length sg + length ds) s of
                  c # cs \<Rightarrow> if c = CHR ''.'' \<and> takeWhile is_digit cs \<noteq> [] then c # takeWhile is_digit cs else []
                | [] \<Rightarrow> [])
      in if ds = [] then None else Some (sg @ ds @ fr))"

lemma number_prefix_nonempty: "number_prefix s = Some n \<Longrightarrow> n \<noteq> []"
  by (auto simp: number_prefix_def Let_def split: if_splits)

function find_numbers :: "string \<Rightarrow> string list" where
  "find_numbers [] = []"
| "find_numbers (c # cs) = (case number_prefix (c # cs) of
      Some n \<Rightarrow> n # find_numbers (drop (length n) (c # cs)) | None \<Rightarrow> find_numbers cs)"
  by pat_completeness auto
termination
  by (relation "measure length") (auto dest: number_prefix_nonempty)

text \<open>\<open>WITNESS:\s*(...)\<close>, in any case.\<close>

definition tag_prefix :: "string \<Rightarrow> string option" where
  "tag_prefix s = (if prefix ''witness:'' (py_lower s) then number_prefix (py_lstrip (drop 8 s)) else None)"

definition tag_length :: "string \<Rightarrow> string \<Rightarrow> nat" where
  "tag_length s n = 8 + length (takeWhile py_space (drop 8 s)) + length n"

function find_tags :: "string \<Rightarrow> string list" where
  "find_tags [] = []"
| "find_tags (c # cs) = (case tag_prefix (c # cs) of
      Some n \<Rightarrow> n # find_tags (drop (tag_length (c # cs) n) (c # cs)) | None \<Rightarrow> find_tags cs)"
  by pat_completeness auto
termination
  by (relation "measure length") (auto simp: tag_length_def)

text \<open>A number that no double holds, above the largest one rounded up, is \<open>inf\<close> and counts as 0.\<close>

definition finite_or_dead :: "rat \<Rightarrow> rat" where
  "finite_or_dead q = (if \<bar>q\<bar> \<ge> 2 ^ 1024 - 2 ^ 970 then 0 else q)"

definition read_number :: "string \<Rightarrow> rat" where
  "read_number n = (case py_float n of None \<Rightarrow> 0 | Some q \<Rightarrow> finite_or_dead q)"

fun coerce_float :: "pyval \<Rightarrow> rat" where
  "coerce_float (PBool b) = (if b then 1 else 0)"
| "coerce_float (PInt i) = finite_or_dead (of_int i)"
| "coerce_float (PFloat q) = finite_or_dead q"
| "coerce_float (PStr s) = (case find_numbers s of [] \<Rightarrow> 0 | n # ns \<Rightarrow> read_number n)"
| "coerce_float _ = 0"

definition parse_witness_signal :: "string \<Rightarrow> rat option" where
  "parse_witness_signal out =
     (if find_tags out \<noteq> [] then Some (read_number (last (find_tags out)))
      else if find_numbers out \<noteq> [] then Some (read_number (last (find_numbers out)))
      else None)"

section \<open>Findings\<close>

record witness =
  wi_value :: rat
  wi_description :: string
  wi_measured :: bool

definition text_field :: "(pyval \<Rightarrow> string) \<Rightarrow> pydict \<Rightarrow> string \<Rightarrow> string" where
  "text_field rp d k = py_str rp (py_or (dget_or d k (PStr [])) (PStr []))"

fun parse_witness :: "(pyval \<Rightarrow> string) \<Rightarrow> pyval \<Rightarrow> witness" where
  "parse_witness rp (PDict d) = \<lparr>wi_value = coerce_float (dget_or d ''value'' (PFloat 0)),
     wi_description = text_field rp d ''description'', wi_measured = False\<rparr>"
| "parse_witness rp v = \<lparr>wi_value = coerce_float v, wi_description = [], wi_measured = False\<rparr>"

record finding =
  fd_name :: string
  fd_class :: string
  fd_sub :: "string option"
  fd_location :: "string option"
  fd_witness :: witness
  fd_evidence :: string
  fd_excused :: "string option"
  fd_mock :: "bool option"

definition classifications :: "string list" where
  "classifications = [''load_bearing'', ''exists_not_load_bearing'', ''absent'']"

definition sub_kinds :: "string list" where
  "sub_kinds = [''uncalled'', ''stub_constant'', ''untrained'', ''bypassed_proxy'', ''mocked_none'', ''saturated'']"

definition dead_class :: string where
  "dead_class = ''exists_not_load_bearing''"

definition is_dead :: "finding \<Rightarrow> bool" where
  "is_dead f = (fd_class f = dead_class \<and> truthy_str (fd_excused f) = None)"

definition sub_kind_of :: "(pyval \<Rightarrow> string) \<Rightarrow> pyval \<Rightarrow> string option" where
  "sub_kind_of rp v = (if v = PNone \<or> v = PStr [] then None
     else let s = py_lower (py_strip (py_str rp v)) in if s \<in> set sub_kinds then Some s else None)"

definition location_of :: "(pyval \<Rightarrow> string) \<Rightarrow> pydict \<Rightarrow> string option" where
  "location_of rp d =
     (let f = dget d ''file''; ln = dget d ''line'' in
      if truthy (dget d ''location'') then Some (py_strip (py_str rp (dget d ''location'')))
      else if \<not> truthy f then None
      else if ln \<noteq> PNone \<and> ln \<noteq> PStr [] then Some (py_strip (py_str rp f @ '':'' @ py_str rp ln))
      else Some (py_strip (py_str rp f)))"

definition class_of_finding :: "(pyval \<Rightarrow> string) \<Rightarrow> pydict \<Rightarrow> string" where
  "class_of_finding rp d =
     (let c = py_lower (py_strip (text_field rp d ''classification'')) in
      if c \<in> set classifications then c
      else if wi_value (parse_witness rp (dget d ''witness'')) > 0 then ''load_bearing'' else dead_class)"

definition parse_finding :: "(pyval \<Rightarrow> string) \<Rightarrow> pydict \<Rightarrow> finding option" where
  "parse_finding rp d =
     (let name = py_strip (text_field rp d ''name'');
          cls = class_of_finding rp d;
          sub = sub_kind_of rp (dget d ''sub_kind'')
      in if name = [] then None
         else Some \<lparr>fd_name = name, fd_class = cls,
           fd_sub = (if cls = dead_class \<and> sub = None then Some ''uncalled'' else sub),
           fd_location = location_of rp d, fd_witness = parse_witness rp (dget d ''witness''),
           fd_evidence = text_field rp d ''evidence'', fd_excused = None, fd_mock = None\<rparr>)"

section \<open>The JSON object of a reply\<close>

text \<open>The body of the first fenced block: no fence starts inside the skipped label and spaces, so when the
  first fence has no end no later one has.\<close>

definition fenced :: "string \<Rightarrow> string option" where
  "fenced s = (case after_marker fence_mark s of
       None \<Rightarrow> None
     | Some r \<Rightarrow>
         let r1 = (if prefix ''json'' (py_lower r) then drop 4 r else r); body = py_lstrip r1 in
         if after_marker fence_mark body = None then None else Some (before_marker fence_mark body))"

text \<open>The text up to the brace that closes the first one: depth, inside a string, after a backslash.\<close>

fun balanced :: "nat \<Rightarrow> bool \<Rightarrow> bool \<Rightarrow> string \<Rightarrow> string option" where
  "balanced depth in_str esc [] = None"
| "balanced depth in_str esc (c # cs) = map_option ((#) c)
     (if in_str
      then (if esc then balanced depth True False cs
            else if of_char c = (92::nat) then balanced depth True True cs
            else if of_char c = (34::nat) then balanced depth False False cs
            else balanced depth True False cs)
      else if of_char c = (34::nat) then balanced depth True False cs
      else if c = CHR ''{'' then balanced (Suc depth) False esc cs
      else if c = CHR ''}'' then (if depth = 1 then Some [] else balanced (depth - 1) False esc cs)
      else balanced depth False esc cs)"

definition extract_json_blob :: "string \<Rightarrow> string option" where
  "extract_json_blob text =
     (let cleaned = py_strip (strip_think text);
          body = (case fenced cleaned of None \<Rightarrow> cleaned
                  | Some inner \<Rightarrow> if py_strip inner = [] then cleaned else py_strip inner)
      in balanced 0 False False (dropWhile (\<lambda>c. c \<noteq> CHR ''{'') body))"

section \<open>The verdict\<close>

record verdict =
  rr_reconciled :: bool
  rr_findings :: "finding list"
  rr_disposition :: string
  rr_raw :: string
  rr_parse_error :: "string option"
  rr_starved :: "string option"

text \<open>How \<open>json.loads\<close> ended: a value, a decode error, the recursion limit, or another exception.\<close>

datatype json_end = Json_Value pyval | Json_Error string | Json_Deep string | Json_Raised string

definition stray_control :: "char \<Rightarrow> bool" where
  "stray_control c = (let n = (of_char c :: nat) in n \<le> 8 \<or> n = 11 \<or> n = 12 \<or> (14 \<le> n \<and> n \<le> 31))"

text \<open>\<open>loads strict text\<close>.\<close>

type_synonym loads = "bool \<Rightarrow> string \<Rightarrow> json_end"

fun try_loads :: "loads \<Rightarrow> string list \<Rightarrow> string + pyval option" where
  "try_loads loads [] = Inr None"
| "try_loads loads (b # bs) = (case loads False b of
      Json_Value v \<Rightarrow> Inr (if v = PNone then None else Some v)
    | Json_Raised why \<Rightarrow> Inl why
    | _ \<Rightarrow> try_loads loads bs)"

definition loads_repaired :: "loads \<Rightarrow> string \<Rightarrow> string + pyval option" where
  "loads_repaired loads blob = try_loads loads [blob, filter (\<lambda>c. \<not> stray_control c) blob]"

text \<open>The data of the reply and the parse error; \<open>Inl\<close> is an exception that leaves \<open>parse\<close>.\<close>

definition reply_data :: "loads \<Rightarrow> string \<Rightarrow> string + pyval \<times> string option" where
  "reply_data loads reply = (case extract_json_blob reply of
       None \<Rightarrow> Inr (PNone, Some ''no JSON object found in reply'')
     | Some blob \<Rightarrow> (case loads True blob of
           Json_Value v \<Rightarrow> Inr (v, None)
         | Json_Error why \<Rightarrow> ebind (loads_repaired loads blob) (\<lambda>r. Inr (case r of
               None \<Rightarrow> (PDict [], Some (''invalid JSON: '' @ why)) | Some v \<Rightarrow> (v, None)))
         | Json_Deep why \<Rightarrow> Inr (PDict [], Some (''invalid JSON: input nested too deeply ('' @ why @ '')''))
         | Json_Raised why \<Rightarrow> Inl why))"

definition findings_of :: "(pyval \<Rightarrow> string) \<Rightarrow> pyval \<Rightarrow> finding list" where
  "findings_of rp data = List.map_filter (\<lambda>raw. case raw of PDict d \<Rightarrow> parse_finding rp d | _ \<Rightarrow> None)
     (as_list (dget (as_dict data) ''findings''))"

definition parse_reply :: "loads \<Rightarrow> (pyval \<Rightarrow> string) \<Rightarrow> string \<Rightarrow> string \<Rightarrow> string + verdict" where
  "parse_reply loads rp disposition reply = ebind (reply_data loads reply) (\<lambda>(data, err).
     let fs = findings_of rp data in
     Inr \<lparr>rr_reconciled = (\<not> list_ex is_dead fs \<and> fs \<noteq> []), rr_findings = fs, rr_disposition = disposition,
       rr_raw = reply, rr_parse_error = err, rr_starved = None\<rparr>)"

section \<open>Reading a verdict\<close>

definition mark_starved :: "string \<Rightarrow> verdict \<Rightarrow> verdict" where
  "mark_starved reason r = r\<lparr>rr_starved := Some (if reason = [] then ''critic_starved'' else reason), rr_reconciled := False\<rparr>"

definition is_substantive :: "verdict \<Rightarrow> bool" where
  "is_substantive r = (rr_starved r = None \<and> rr_parse_error r = None \<and> length (rr_findings r) \<ge> 1)"

definition substance_status :: "verdict \<Rightarrow> string" where
  "substance_status r =
     (if rr_starved r \<noteq> None then ''ran:critic_starved''
      else if rr_parse_error r \<noteq> None then ''ran:parse_error''
      else if rr_findings r = [] then ''ran:empty''
      else ''ran:'' @ show_nat (length (rr_findings r)) @ ''_findings'')"

definition dead_findings :: "verdict \<Rightarrow> finding list" where
  "dead_findings r = filter is_dead (rr_findings r)"

definition absent_findings :: "verdict \<Rightarrow> finding list" where
  "absent_findings r = filter (\<lambda>f. fd_class f = ''absent'') (rr_findings r)"

definition excused_findings :: "verdict \<Rightarrow> finding list" where
  "excused_findings r = filter (\<lambda>f. fd_class f = dead_class \<and> truthy_str (fd_excused f) \<noteq> None) (rr_findings r)"

definition load_bearing_findings :: "verdict \<Rightarrow> finding list" where
  "load_bearing_findings r = filter (\<lambda>f. fd_class f = ''load_bearing'') (rr_findings r)"

definition verdict_text :: "verdict \<Rightarrow> string" where
  "verdict_text r = (if rr_reconciled r then ''reconciled'' else ''not_reconciled'')"

definition should_fail_run :: "verdict \<Rightarrow> bool" where
  "should_fail_run r = (rr_disposition r = ''fail'' \<and> \<not> rr_reconciled r)"

definition finding_to_dict :: "finding \<Rightarrow> pyval" where
  "finding_to_dict f = PDict ([(''name'', PStr (fd_name f)), (''classification'', PStr (fd_class f)),
     (''sub_kind'', opt_str (fd_sub f)), (''excused'', opt_str (fd_excused f)), (''location'', opt_str (fd_location f)),
     (''witness'', PDict [(''value'', PFloat (wi_value (fd_witness f))),
        (''description'', PStr (wi_description (fd_witness f))), (''measured'', PBool (wi_measured (fd_witness f)))]),
     (''evidence'', PStr (fd_evidence f))] @
     (case fd_mock f of None \<Rightarrow> [] | Some b \<Rightarrow> [(''mock_hides_implementation'', PBool b)]))"

definition verdict_to_dict :: "verdict \<Rightarrow> pydict" where
  "verdict_to_dict r =
     (let lb = load_bearing_findings r; measured = filter (\<lambda>f. wi_measured (fd_witness f)) lb;
          unmeasured = filter (\<lambda>f. \<not> wi_measured (fd_witness f)) lb
      in [(''reconciled'', PBool (rr_reconciled r)), (''witnesses_unmeasured'', PBool (lb \<noteq> [] \<and> measured = [])),
          (''mock_hidden_load_bearing'', PBool (list_ex (\<lambda>f. fd_mock f = Some True) (rr_findings r))),
          (''verdict'', PStr (verdict_text r)), (''disposition'', PStr (rr_disposition r)),
          (''parse_error'', opt_str (rr_parse_error r)), (''substantive'', PBool (is_substantive r)),
          (''substance_status'', PStr (substance_status r)), (''starved_reason'', opt_str (rr_starved r)),
          (''measured_coverage'', PDict [(''load_bearing'', PInt (int (length lb))),
             (''measured'', PInt (int (length measured))), (''unmeasured'', PInt (int (length unmeasured)))]),
          (''findings'', PList (map finding_to_dict (rr_findings r)))])"

section \<open>Test modules\<close>

text \<open>\<open>(:\d+)*\<close> up to the end, and the shortest prefix ending in \<open>.py\<close> that it follows; a dot matches no newline.\<close>

function colon_digits :: "string \<Rightarrow> bool" where
  "colon_digits [] = True"
| "colon_digits (c # cs) = (c = CHR '':'' \<and> takeWhile is_digit cs \<noteq> [] \<and> colon_digits (dropWhile is_digit cs))"
  by pat_completeness auto
termination
  by (relation "measure length") (auto simp: le_imp_less_Suc length_dropWhile_le)

fun py_head :: "string \<Rightarrow> string \<Rightarrow> string option" where
  "py_head acc s = (if suffix ''.py'' (py_lower (rev acc)) \<and> colon_digits s then Some (rev acc)
     else case s of [] \<Rightarrow> None | c # cs \<Rightarrow> if [c] = nl then None else py_head (c # acc) cs)"

definition slashed :: "string \<Rightarrow> string" where
  "slashed s = map (\<lambda>c. if of_char c = (92::nat) then CHR ''/'' else c) s"

definition location_path :: "string option \<Rightarrow> string option" where
  "location_path location = (case truthy_str location of
       None \<Rightarrow> None
     | Some l \<Rightarrow>
         let loc = py_strip (before_marker ''::'' (py_strip l));
             p = (case py_head [] loc of Some h \<Rightarrow> h | None \<Rightarrow> loc)
         in Some (slashed p))"

definition test_file :: "string \<Rightarrow> bool" where
  "test_file p =
     (let b = rev (takeWhile (\<lambda>c. c \<noteq> CHR ''/'') (rev p)) in
      (prefix ''test_'' b \<and> suffix ''.py'' b \<and> length b \<ge> 8) \<or> suffix ''_test.py'' b \<or> b = ''conftest.py'')"

definition is_test_path :: "string option \<Rightarrow> bool" where
  "is_test_path location = (case location_path location of
       None \<Rightarrow> False | Some p \<Rightarrow> p \<noteq> [] \<and> test_file (py_lower p))"

end
