(* ===== verification/Reconcile.thy ===== *)
theory Reconcile
  imports Reconcile_Parse
begin

text \<open>
  \<^verbatim>\<open>agy_orchestrator/workflows/reconcile.py\<close>, the review: the trace with its re-asks, the measured
  witnesses, and the two passes over the findings.  Parameters: the agents, \<open>json.loads\<close>, the witness
  commands, the workspace, and the test sources as abstract syntax.  The mandate text (which is not
  ASCII) is an argument of the prompt, and a long dash in the other texts is written with two short ones.
\<close>

section \<open>Configuration, environment and state\<close>

record rc_cfg =
  rc_mandate :: string
  rc_goal :: string
  rc_directory :: string
  rc_disposition :: string
  rc_diff :: "string option"
  rc_ablation :: "string option"
  rc_ablation_map :: "(string \<times> string) list"
  rc_timeout :: rat
  rc_chain :: "string list"
  rc_mock_check :: "string option"
  rc_mock_strict :: "string option"

definition dispositions :: "string list" where
  "dispositions = [''warn'', ''fail'', ''open-task'']"

definition ablation_timeout_of :: "rat option \<Rightarrow> string option \<Rightarrow> string + rat" where
  "ablation_timeout_of arg env = (case arg of Some t \<Rightarrow> Inr t
     | None \<Rightarrow> let raw = (case env of None \<Rightarrow> ''600'' | Some v \<Rightarrow> v) in
         if raw = [] then Inr 0
         else case py_float raw of None \<Rightarrow> Inl ''could not convert string to float'' | Some t \<Rightarrow> Inr t)"

text \<open>The constructor: the settings as passed, with the disposition checked and the timeout read.\<close>

definition make_review :: "rc_cfg \<Rightarrow> rat option \<Rightarrow> string option \<Rightarrow> string + rc_cfg" where
  "make_review cfg timeout env =
     (if rc_disposition cfg \<notin> set dispositions then Inl ''disposition must be one of''
      else ebind (ablation_timeout_of timeout env) (\<lambda>t.
        Inr (cfg\<lparr>rc_ablation := truthy_str (rc_ablation cfg), rc_timeout := t\<rparr>)))"

text \<open>The nodes of Python's abstract syntax that the code looks at; a call has its function, its arguments
  and the names of its keywords.\<close>

datatype pexpr = EName string | EAttr pexpr string | EStr string | ECall pexpr "pexpr list" "string option list" | EOther

datatype pnode = NExpr pexpr | NAssign "pexpr list" pexpr | NAnn pexpr "pexpr option" | NDef nat nat string | NOther

text \<open>\<open>rq_source\<close> and \<open>rq_tests\<close> give the nodes \<open>ast.walk\<close> yields, or \<open>None\<close> when a file cannot be read or
  parsed; \<open>rq_walk\<close> the relative paths of all files.  A witness run has an exit code and standard
  output, or nothing when it could not start or was timed out.\<close>

record rc_env =
  rq_agent :: "nat \<Rightarrow> int \<Rightarrow> string \<Rightarrow> string + string"
  rq_loads :: loads
  rq_repr :: "pyval \<Rightarrow> string"
  rq_general :: "rat \<Rightarrow> string"
  rq_workspace :: bool
  rq_witness :: "nat \<Rightarrow> string \<Rightarrow> string option \<Rightarrow> (int \<times> string) option"
  rq_isdir :: bool
  rq_walk :: "string list list"
  rq_source :: "string \<Rightarrow> pnode list option"

datatype rc_event =
    Trace_Started
  | Reprompt_Json string
  | Provider_Cycle string nat
  | Measured string rat
  | Mismatch string rat
  | Excused_Tests nat
  | Trace_Completed string bool nat

record rc_state =
  rs_calls :: nat
  rs_runs :: nat
  rs_offset :: int
  rs_log :: "rc_event list"

definition rc_emit :: "rc_event \<Rightarrow> rc_state \<Rightarrow> rc_state" where
  "rc_emit e s = s\<lparr>rs_log := rs_log s @ [e]\<rparr>"

section \<open>The trace and its re-asks\<close>

definition build_prompt :: "rc_cfg \<Rightarrow> string" where
  "build_prompt cfg = rc_mandate cfg @
     nl @ ''--- GOAL (what this build was supposed to ACHIEVE) ---'' @ nl @
     py_strip (rc_goal cfg) @
     nl @ nl @ ''--- ASSEMBLED CODE ---'' @ nl @
     ''The assembled code is in: '' @ rc_directory cfg @ nl @
     ''Read it, run its real entry point, and trace each goal-named mechanism '' @
     ''to the live path. Use read-only probes only.'' @ nl @
     (case truthy_str (rc_diff cfg) of None \<Rightarrow> []
      | Some d \<Rightarrow> nl @ ''--- CHANGED SURFACE (for scoping) ---'' @ nl @ py_strip d @ nl)"

definition output_contract :: string where
  "output_contract = nl @ nl @ ''--- OUTPUT CONTRACT (STRICT) ---'' @ nl @
     ''Your previous reply contained NO JSON object and could not be parsed. '' @
     ''Reply with ONLY a single JSON object for the verdict -- no prose, no '' @
     ''explanation, no markdown fences, no thinking. The first character of '' @
     ''your reply must be '' @ [char_of (39::nat)] @ ''{'' @ [char_of (39::nat)] @
     '' and the last must be '' @ [char_of (39::nat)] @ ''}'' @ [char_of (39::nat)] @ ''.'' @ nl"

definition json_only_reprompt :: "rc_cfg \<Rightarrow> string" where
  "json_only_reprompt cfg = build_prompt cfg @ output_contract"

definition ask :: "rc_cfg \<Rightarrow> rc_env \<Rightarrow> string \<Rightarrow> rc_state \<Rightarrow> (string + verdict) \<times> rc_state" where
  "ask cfg env prompt s =
     (ebind (rq_agent env (rs_calls s) (rs_offset s) prompt)
        (parse_reply (rq_loads env) (rq_repr env) (rc_disposition cfg)),
      s\<lparr>rs_calls := Suc (rs_calls s)\<rparr>)"

text \<open>One provider after the other as the lead; the result is the last verdict that was parsed at all.\<close>

fun cycle_loop :: "rc_cfg \<Rightarrow> rc_env \<Rightarrow> nat list \<Rightarrow> verdict option \<Rightarrow> rc_state \<Rightarrow> verdict option \<times> rc_state" where
  "cycle_loop cfg env [] found s = (found, s)"
| "cycle_loop cfg env (rot # rots) found s =
     (case ask cfg env (json_only_reprompt cfg)
         (rc_emit (Provider_Cycle (rc_chain cfg ! (rot mod length (rc_chain cfg))) rot) (s\<lparr>rs_offset := int rot\<rparr>)) of
        (Inl why, s') \<Rightarrow> cycle_loop cfg env rots found s'
      | (Inr r, s') \<Rightarrow> if rr_parse_error r = None then (Some r, s') else cycle_loop cfg env rots (Some r) s')"

definition cycle_providers :: "rc_cfg \<Rightarrow> rc_env \<Rightarrow> rc_state \<Rightarrow> verdict option \<times> rc_state" where
  "cycle_providers cfg env s =
     (if length (rc_chain cfg) \<le> 1 then (None, s)
      else case cycle_loop cfg env [1..<length (rc_chain cfg)] None s of
             (r, s') \<Rightarrow> (r, s'\<lparr>rs_offset := rs_offset s\<rparr>))"

definition recover :: "rc_cfg \<Rightarrow> rc_env \<Rightarrow> verdict \<Rightarrow> string \<Rightarrow> rc_state \<Rightarrow> verdict \<times> rc_state" where
  "recover cfg env r why s =
     (case ask cfg env (json_only_reprompt cfg) (rc_emit (Reprompt_Json why) s) of
        (Inl e, s') \<Rightarrow> (r, s')
      | (Inr r2, s') \<Rightarrow>
          if rr_parse_error r2 = None then (r2, s')
          else (case cycle_providers cfg env s' of
                  (Some r3, s3) \<Rightarrow> (if rr_parse_error r3 = None then r3 else r, s3)
                | (None, s3) \<Rightarrow> (r, s3)))"

definition trace :: "rc_cfg \<Rightarrow> rc_env \<Rightarrow> rc_state \<Rightarrow> (string + verdict) \<times> rc_state" where
  "trace cfg env s = (case ask cfg env (build_prompt cfg) (rc_emit Trace_Started s) of
       (Inl why, s') \<Rightarrow> (Inl why, s')
     | (Inr r, s') \<Rightarrow> (case rr_parse_error r of
           None \<Rightarrow> (Inr r, s')
         | Some why \<Rightarrow> (case recover cfg env r why s' of (r2, s2) \<Rightarrow> (Inr r2, s2))))"

section \<open>Measured witnesses\<close>

text \<open>\<open>s.replace(a, b)\<close> for a nonempty \<open>a\<close>.\<close>

function replace_all :: "string \<Rightarrow> string \<Rightarrow> string \<Rightarrow> string" where
  "replace_all a b [] = []"
| "replace_all a b (c # cs) =
     (if a \<noteq> [] \<and> prefix a (c # cs) then b @ replace_all a b (drop (length a) (c # cs)) else c # replace_all a b cs)"
  by pat_completeness auto
termination
  by (relation "measure (\<lambda>(a, b, s). length s)") auto

definition ablation_enabled :: "rc_cfg \<Rightarrow> bool" where
  "ablation_enabled cfg = (truthy_str (rc_ablation cfg) \<noteq> None \<or> rc_ablation_map cfg \<noteq> [])"

definition ablation_cmd_for :: "rc_cfg \<Rightarrow> string \<Rightarrow> string option" where
  "ablation_cmd_for cfg mech =
     (case (case truthy_str (map_of (rc_ablation_map cfg) mech) of Some t \<Rightarrow> Some t | None \<Rightarrow> truthy_str (rc_ablation cfg)) of
        None \<Rightarrow> None
      | Some t \<Rightarrow> Some (replace_all ''{mech}'' mech (replace_all ''{MECH}'' mech t)))"

definition run_witness :: "rc_env \<Rightarrow> string \<Rightarrow> string option \<Rightarrow> rc_state \<Rightarrow> rat option \<times> rc_state" where
  "run_witness env cmd ablate s =
     ((case rq_witness env (rs_runs s) cmd (truthy_str ablate) of None \<Rightarrow> None | Some (rc, out) \<Rightarrow> parse_witness_signal out),
      s\<lparr>rs_runs := Suc (rs_runs s)\<rparr>)"

definition claims_load :: "finding \<Rightarrow> bool" where
  "claims_load f = (fd_class f = ''load_bearing'' \<or> wi_value (fd_witness f) > 0)"

definition measured_text :: "rc_env \<Rightarrow> string \<Rightarrow> rat \<Rightarrow> rat \<Rightarrow> string" where
  "measured_text env name b a = ''measured ablation delta '' @ rq_general env \<bar>b - a\<bar> @ '' (baseline='' @
     rq_general env b @ '', ablated['' @ name @ '']='' @ rq_general env a @ '')''"

definition with_measure :: "rc_env \<Rightarrow> rat \<Rightarrow> rat \<Rightarrow> finding \<Rightarrow> finding" where
  "with_measure env b a f =
     (let g = f\<lparr>fd_witness := \<lparr>wi_value = \<bar>b - a\<bar>, wi_description = measured_text env (fd_name f) b a, wi_measured = True\<rparr>\<rparr>
      in if claims_load f \<and> \<bar>b - a\<bar> = 0
         then g\<lparr>fd_class := dead_class, fd_sub := (case fd_sub f of None \<Rightarrow> Some ''uncalled'' | Some k \<Rightarrow> Some k)\<rparr>
         else g)"

definition measure_events :: "finding \<Rightarrow> rat \<Rightarrow> rc_event list" where
  "measure_events f d = Measured (fd_name f) d # (if claims_load f \<and> d = 0 then [Mismatch (fd_name f) d] else [])"

definition measure_finding :: "rc_cfg \<Rightarrow> rc_env \<Rightarrow> finding \<Rightarrow> rc_state \<Rightarrow> finding \<times> rc_state" where
  "measure_finding cfg env f s = (case truthy_str (ablation_cmd_for cfg (fd_name f)) of
       None \<Rightarrow> (f, s)
     | Some cmd \<Rightarrow>
         (case run_witness env cmd None s of (b, s1) \<Rightarrow>
            (case run_witness env cmd (Some (fd_name f)) s1 of (a, s2) \<Rightarrow>
               (case (b, a) of
                  (Some x, Some y) \<Rightarrow> (with_measure env x y f, s2\<lparr>rs_log := rs_log s2 @ measure_events f \<bar>x - y\<bar>\<rparr>)
                | _ \<Rightarrow> (f, s2)))))"

fun measure_all :: "rc_cfg \<Rightarrow> rc_env \<Rightarrow> finding list \<Rightarrow> rc_state \<Rightarrow> finding list \<times> rc_state" where
  "measure_all cfg env [] s = ([], s)"
| "measure_all cfg env (f # fs) s = (case measure_finding cfg env f s of (g, s1) \<Rightarrow>
     (case measure_all cfg env fs s1 of (gs, s2) \<Rightarrow> (g # gs, s2)))"

definition apply_ablation_witnesses :: "rc_cfg \<Rightarrow> rc_env \<Rightarrow> verdict \<Rightarrow> rc_state \<Rightarrow> verdict \<times> rc_state" where
  "apply_ablation_witnesses cfg env r s =
     (if \<not> ablation_enabled cfg \<or> rr_findings r = [] \<or> \<not> rq_workspace env then (r, s)
      else case measure_all cfg env (rr_findings r) s of
             (fs, s') \<Rightarrow> (r\<lparr>rr_findings := fs, rr_reconciled := fs \<noteq> [] \<and> \<not> list_ex is_dead fs\<rparr>, s'))"

section \<open>Findings at test modules\<close>

definition excuse :: "finding \<Rightarrow> finding" where
  "excuse f = (if is_dead f \<and> is_test_path (fd_location f) then f\<lparr>fd_excused := Some ''test_module''\<rparr> else f)"

definition earned :: "verdict \<Rightarrow> bool" where
  "earned r = (rr_starved r = None \<and> rr_findings r \<noteq> [] \<and> \<not> list_ex is_dead (rr_findings r))"

definition excuse_findings :: "verdict \<Rightarrow> rc_state \<Rightarrow> verdict \<times> rc_state" where
  "excuse_findings r s =
     (if \<not> list_ex (\<lambda>f. is_dead f \<and> is_test_path (fd_location f)) (rr_findings r) then (r, s)
      else let r' = r\<lparr>rr_findings := map excuse (rr_findings r)\<rparr>
           in (r'\<lparr>rr_reconciled := earned r'\<rparr>, rc_emit (Excused_Tests (length (excused_findings r'))) s))"

section \<open>Claims that only mocks cover\<close>

definition ident_start :: "char \<Rightarrow> bool" where
  "ident_start c = (let n = (of_char c :: nat) in (65 \<le> n \<and> n \<le> 90) \<or> n = 95 \<or> (97 \<le> n \<and> n \<le> 122))"

definition ident_char :: "char \<Rightarrow> bool" where
  "ident_char c = (ident_start c \<or> is_digit c)"

function identifiers :: "string \<Rightarrow> string list" where
  "identifiers [] = []"
| "identifiers (c # cs) =
     (if ident_start c then (c # takeWhile ident_char cs) # identifiers (dropWhile ident_char cs) else identifiers cs)"
  by pat_completeness auto
termination
  by (relation "measure length") (auto simp: le_imp_less_Suc length_dropWhile_le)

definition symbol_from_name :: "string \<Rightarrow> string option" where
  "symbol_from_name name = (if identifiers name = [] then None else Some (last (identifiers name)))"

text \<open>The number after the first \<open>.py:\<close> that a digit follows.\<close>

fun line_scan :: "string \<Rightarrow> string option" where
  "line_scan [] = None"
| "line_scan (c # cs) =
     (if prefix ''.py:'' (py_lower (c # cs)) \<and> takeWhile is_digit (drop 3 cs) \<noteq> [] then Some (takeWhile is_digit (drop 3 cs))
      else if [c] = nl then None else line_scan cs)"

definition line_from_location :: "string option \<Rightarrow> nat option" where
  "line_from_location location = (case truthy_str location of None \<Rightarrow> None
     | Some l \<Rightarrow> map_option read_nat (line_scan (before_marker ''::'' l)))"

definition def_nodes :: "pnode list \<Rightarrow> (nat \<times> nat \<times> string) list" where
  "def_nodes ns = List.map_filter (\<lambda>n. case n of NDef a b x \<Rightarrow> Some (a, b, x) | _ \<Rightarrow> None) ns"

text \<open>The last of the pairs of start line and name in their order, which compares lines first.\<close>

fun later_def :: "nat \<times> string \<Rightarrow> nat \<times> string \<Rightarrow> nat \<times> string" where
  "later_def (a, x) (b, y) = (if a < b \<or> (a = b \<and> x < y) then (b, y) else (a, x))"

definition last_def :: "(nat \<times> string) list \<Rightarrow> string option" where
  "last_def ds = (case ds of [] \<Rightarrow> None | d # rest \<Rightarrow> Some (snd (foldl later_def d rest)))"

definition enclosing_symbol :: "pnode list \<Rightarrow> nat \<Rightarrow> string option" where
  "enclosing_symbol ns line =
     (let ds = def_nodes ns;
          enclosing = map (\<lambda>(a, b, x). (a, x)) (filter (\<lambda>(a, b, x). a \<le> line \<and> line \<le> b) ds);
          before = map (\<lambda>(a, b, x). (a, x)) (filter (\<lambda>(a, b, x). a \<le> line \<and> \<not> line \<le> b) ds)
      in if enclosing \<noteq> [] then last_def enclosing else last_def before)"

definition symbol_from_location :: "rc_env \<Rightarrow> string option \<Rightarrow> string option" where
  "symbol_from_location env location =
     (case (truthy_str (location_path location), line_from_location location) of
        (Some rel, Some line) \<Rightarrow>
          (case rq_source env rel of None \<Rightarrow> None | Some ns \<Rightarrow> enclosing_symbol ns line)
      | _ \<Rightarrow> None)"

definition unmeasured :: "finding \<Rightarrow> bool" where
  "unmeasured f = (fd_class f = ''load_bearing'' \<and> \<not> wi_measured (fd_witness f))"

definition symbol_of :: "rc_env \<Rightarrow> finding \<Rightarrow> string option" where
  "symbol_of env f = (if \<not> unmeasured f then None else
     case truthy_str (symbol_from_location env (fd_location f)) of
       Some x \<Rightarrow> Some x | None \<Rightarrow> truthy_str (symbol_from_name (fd_name f)))"

fun callee :: "pexpr \<Rightarrow> string option" where
  "callee (EName x) = Some x"
| "callee (EAttr e x) = Some x"
| "callee _ = None"

fun const_str :: "pexpr \<Rightarrow> string option" where
  "const_str (EStr s) = Some s"
| "const_str _ = None"

fun is_patch_attr :: "pexpr \<Rightarrow> string \<Rightarrow> bool" where
  "is_patch_attr (EAttr (EName v) x) attr = (x = attr \<and> v = ''patch'')"
| "is_patch_attr (EAttr (EAttr e v) x) attr = (x = attr \<and> v = ''patch'')"
| "is_patch_attr _ attr = False"

fun is_mock_value :: "pexpr \<Rightarrow> bool" where
  "is_mock_value (ECall f as ks) = (callee f \<in> Some ` set [''Mock'', ''MagicMock'', ''AsyncMock'', ''PropertyMock'',
     ''NonCallableMock'', ''NonCallableMagicMock''])"
| "is_mock_value _ = False"

definition last_part :: "string \<Rightarrow> string" where
  "last_part s = rev (takeWhile (\<lambda>c. c \<noteq> CHR ''.'') (rev s))"

definition str_at :: "pexpr list \<Rightarrow> nat \<Rightarrow> string list" where
  "str_at as i = (if i < length as then (case truthy_str (const_str (as ! i)) of None \<Rightarrow> [] | Some s \<Rightarrow> [s]) else [])"

definition mock_targets :: "pexpr \<Rightarrow> pexpr list \<Rightarrow> string option list \<Rightarrow> string list" where
  "mock_targets f as ks =
     (if callee f = Some ''patch'' then map last_part (str_at as 0) else []) @
     (if is_patch_attr f ''object'' then str_at as 1 else []) @
     (if is_patch_attr f ''multiple'' then List.map_filter truthy_str ks else []) @
     (case f of
        EAttr e x \<Rightarrow> if x = ''setattr'' then map last_part (str_at as 0 @ str_at as 1) else []
      | EName x \<Rightarrow> if x = ''setattr'' \<and> length as \<ge> 3 \<and> is_mock_value (as ! 2) then str_at as 1 else []
      | _ \<Rightarrow> [])"

text \<open>The symbols a node mocks and the symbols it calls, of the given ones.\<close>

fun node_mocks :: "string list \<Rightarrow> pnode \<Rightarrow> string list" where
  "node_mocks targets (NExpr (ECall f as ks)) = filter (\<lambda>x. x \<in> set targets) (mock_targets f as ks)"
| "node_mocks targets (NAssign lhs v) = (if is_mock_value v
     then List.map_filter (\<lambda>t. case t of EAttr e x \<Rightarrow> if x \<in> set targets then Some x else None | _ \<Rightarrow> None) lhs else [])"
| "node_mocks targets (NAnn t (Some v)) = (if is_mock_value v
     then (case t of EAttr e x \<Rightarrow> if x \<in> set targets then [x] else [] | _ \<Rightarrow> []) else [])"
| "node_mocks targets _ = []"

fun node_calls :: "string list \<Rightarrow> pnode \<Rightarrow> string list" where
  "node_calls targets (NExpr (ECall f as ks)) =
     (if filter (\<lambda>x. x \<in> set targets) (mock_targets f as ks) \<noteq> [] then []
      else case callee f of None \<Rightarrow> [] | Some x \<Rightarrow> if x \<in> set targets then [x] else [])"
| "node_calls targets _ = []"

text \<open>The test files of the walk: hidden and generated directories are not entered.\<close>

definition pruned_dir :: "string \<Rightarrow> bool" where
  "pruned_dir d = (prefix ''.'' d \<or> d \<in> set [''venv'', ''.venv'', ''__pycache__'', ''node_modules''])"

fun join_path :: "string list \<Rightarrow> string" where
  "join_path [] = []"
| "join_path [x] = x"
| "join_path (x # y # xs) = x @ ''/'' @ join_path (y # xs)"

definition is_test_source :: "string \<Rightarrow> bool" where
  "is_test_source path = (let rel = slashed path in
     prefix ''tests/'' rel \<or> py_in ''/tests/'' rel \<or> is_test_path (Some rel))"

definition test_sources :: "rc_env \<Rightarrow> string list" where
  "test_sources env = filter (\<lambda>rel. is_test_source rel \<and> suffix ''.py'' rel)
     (map join_path (filter (\<lambda>p. p \<noteq> [] \<and> \<not> list_ex pruned_dir (butlast p)) (rq_walk env)))"

text \<open>The census of the test suite, or nothing when there is none or a file of it cannot be parsed.\<close>

definition test_nodes :: "rc_env \<Rightarrow> pnode list option" where
  "test_nodes env = (let files = test_sources env in
     if files = [] \<or> list_ex (\<lambda>f. rq_source env f = None) files then None
     else Some (concat (map (\<lambda>f. the (rq_source env f)) files)))"

definition mock_note :: string where
  "mock_note = ''mock-hides-implementation (#86): only mock-patched in tests, never '' @
     ''exercised for real -- load-bearing claim is unproven''"

definition flag_on :: "string option \<Rightarrow> string \<Rightarrow> string list \<Rightarrow> bool" where
  "flag_on v dflt words = (py_lower (py_strip (case v of None \<Rightarrow> dflt | Some s \<Rightarrow> s)) \<in> set words)"

definition flag_finding :: "bool \<Rightarrow> finding \<Rightarrow> finding" where
  "flag_finding flip f =
     (let g = f\<lparr>fd_mock := Some True,
            fd_evidence := (if fd_evidence f \<noteq> [] then fd_evidence f @ ''; '' @ mock_note else mock_note)\<rparr>
      in if flip then g\<lparr>fd_class := dead_class, fd_sub := Some ''mocked_none'',
            fd_witness := (fd_witness f)\<lparr>wi_value := 0\<rparr>\<rparr> else g)"

definition only_mocked :: "rc_env \<Rightarrow> pnode list \<Rightarrow> string list \<Rightarrow> finding \<Rightarrow> bool" where
  "only_mocked env ns targets f = (case symbol_of env f of None \<Rightarrow> False
     | Some x \<Rightarrow> x \<in> set (concat (map (node_mocks targets) ns)) \<and> x \<notin> set (concat (map (node_calls targets) ns)))"

definition mock_targets_of :: "rc_env \<Rightarrow> verdict \<Rightarrow> string list" where
  "mock_targets_of env r = List.map_filter (symbol_of env) (rr_findings r)"

definition flip_on :: "rc_cfg \<Rightarrow> verdict \<Rightarrow> bool" where
  "flip_on cfg r = (flag_on (rc_mock_strict cfg) ''0'' [''1'', ''true'', ''yes'', ''on''] \<and> rr_disposition r = ''fail'')"

definition flag_mock_hidden :: "rc_cfg \<Rightarrow> rc_env \<Rightarrow> verdict \<Rightarrow> verdict" where
  "flag_mock_hidden cfg env r =
     (if flag_on (rc_mock_check cfg) ''1'' [''0'', ''false'', ''no'', ''off''] \<or> mock_targets_of env r = [] \<or> \<not> rq_isdir env
      then r
      else case test_nodes env of None \<Rightarrow> r
        | Some ns \<Rightarrow>
            let hit = only_mocked env ns (mock_targets_of env r); flip = flip_on cfg r;
                r' = r\<lparr>rr_findings := map (\<lambda>f. if hit f then flag_finding flip f else f) (rr_findings r)\<rparr>
            in if flip \<and> list_ex hit (rr_findings r) then r'\<lparr>rr_reconciled := earned r'\<rparr> else r')"

section \<open>The station\<close>

definition complete :: "rc_cfg \<Rightarrow> rc_env \<Rightarrow> verdict \<Rightarrow> rc_state \<Rightarrow> verdict \<times> rc_state" where
  "complete cfg env r s =
     (case (if ablation_enabled cfg then apply_ablation_witnesses cfg env r s else (r, s)) of (r1, s1) \<Rightarrow>
        (case excuse_findings r1 s1 of (r2, s2) \<Rightarrow>
           let r3 = flag_mock_hidden cfg env r2
           in (r3, rc_emit (Trace_Completed (verdict_text r3) (rr_reconciled r3) (length (dead_findings r3))) s2)))"

definition reconcile_execute :: "rc_cfg \<Rightarrow> rc_env \<Rightarrow> rc_state \<Rightarrow> (string + verdict) \<times> rc_state" where
  "reconcile_execute cfg env s = (case trace cfg env s of
       (Inl why, s') \<Rightarrow> (Inl why, s')
     | (Inr r, s') \<Rightarrow> (case complete cfg env r s' of (r2, s2) \<Rightarrow> (Inr r2, s2)))"

end
