(* ===== verification/Reconcile_Laws.thy ===== *)
theory Reconcile_Laws
  imports Reconcile
begin

text \<open>
  What a reconciliation verdict is worth: it is positive only for a parsed, nonempty trace without dead
  findings; how many calls a review makes; and that one provider that answers in JSON is enough.
\<close>

section \<open>Verdicts\<close>

definition derived :: "verdict \<Rightarrow> bool" where
  "derived r = (rr_starved r = None \<and> (rr_reconciled r \<longleftrightarrow> rr_findings r \<noteq> [] \<and> \<not> list_ex is_dead (rr_findings r)) \<and>
     (rr_parse_error r \<noteq> None \<longrightarrow> rr_findings r = []))"

text \<open>What every finding of a verdict satisfies: only test modules are excused, a measured mechanism that is
  called load-bearing moved the signal, and a dead one says how it is dead.\<close>

definition honest :: "finding \<Rightarrow> bool" where
  "honest f \<longleftrightarrow> (truthy_str (fd_excused f) \<noteq> None \<longrightarrow> fd_class f = dead_class \<and> is_test_path (fd_location f)) \<and>
     (wi_measured (fd_witness f) \<and> fd_class f = ''load_bearing'' \<longrightarrow> wi_value (fd_witness f) \<noteq> 0) \<and>
     (fd_class f = dead_class \<longrightarrow> fd_sub f \<noteq> None)"

text \<open>A verdict as it is parsed: nothing is excused yet.\<close>

definition fair :: "verdict \<Rightarrow> bool" where
  "fair r = (derived r \<and> list_all (\<lambda>f. honest f \<and> fd_excused f = None) (rr_findings r))"

lemma earned_derived: "rr_starved r = None \<Longrightarrow> (rr_parse_error r \<noteq> None \<Longrightarrow> rr_findings r = []) \<Longrightarrow>
    derived (r\<lparr>rr_reconciled := earned r\<rparr>)"
  by (auto simp: derived_def earned_def)

lemma dead_not_load [simp]: "dead_class \<noteq> ''load_bearing''" "''load_bearing'' \<noteq> dead_class"
  by (simp_all add: dead_class_def)

lemma truthy_str_None [simp]: "truthy_str None = None"
  by (simp add: truthy_str_def)

lemma parse_finding_honest: "parse_finding rp d = Some f \<Longrightarrow> honest f \<and> fd_excused f = None"
proof -
  assume f: "parse_finding rp d = Some f"
  have "\<not> wi_measured (parse_witness rp v)" for v by (cases v) simp_all
  with f show ?thesis by (auto simp: parse_finding_def honest_def Let_def split: if_splits)
qed

lemma findings_of_honest: "list_all (\<lambda>f. honest f \<and> fd_excused f = None) (findings_of rp data)"
proof -
  have "honest f \<and> fd_excused f = None" if "f \<in> set (findings_of rp data)" for f
    using that by (auto simp: findings_of_def List.map_filter_def parse_finding_honest split: pyval.splits)
  then show ?thesis by (simp add: list_all_iff)
qed

lemma reply_data_error: "reply_data loads reply = Inr (v, Some e) \<Longrightarrow> v = PNone \<or> v = PDict []"
  by (auto simp: reply_data_def ebind_iffs split: option.splits json_end.splits)

lemma parse_reply_fair: "parse_reply loads rp disp reply = Inr r \<Longrightarrow> fair r"
proof -
  assume p: "parse_reply loads rp disp reply = Inr r"
  then obtain v err where d: "reply_data loads reply = Inr (v, err)"
    and r: "r = \<lparr>rr_reconciled = (\<not> list_ex is_dead (findings_of rp v) \<and> findings_of rp v \<noteq> []),
      rr_findings = findings_of rp v, rr_disposition = disp, rr_raw = reply, rr_parse_error = err, rr_starved = None\<rparr>"
    by (auto simp: parse_reply_def ebind_iffs Let_def)
  have "findings_of rp v = []" if "err \<noteq> None"
    using that d reply_data_error [of loads reply v] by (cases err) (auto simp: findings_of_def List.map_filter_def)
  then show ?thesis by (auto simp: fair_def derived_def r findings_of_honest)
qed

section \<open>The trace\<close>

lemma ask_state [simp]: "rs_calls (snd (ask cfg env p s)) = Suc (rs_calls s)" "rs_offset (snd (ask cfg env p s)) = rs_offset s"
    "rs_runs (snd (ask cfg env p s)) = rs_runs s"
  by (simp_all add: ask_def)

lemma emit_state [simp]: "rs_calls (rc_emit e s) = rs_calls s" "rs_offset (rc_emit e s) = rs_offset s"
    "rs_runs (rc_emit e s) = rs_runs s"
  by (simp_all add: rc_emit_def)

lemma ask_fair: "fst (ask cfg env p s) = Inr r \<Longrightarrow> fair r"
  by (auto simp: ask_def ebind_iffs dest: parse_reply_fair)

lemma cycle_loop_fair:
  "pred_option fair found \<Longrightarrow> pred_option fair (fst (cycle_loop cfg env rots found s))"
proof (induction cfg env rots found s rule: cycle_loop.induct)
  case (2 cfg env rot rots found s)
  show ?case
    using 2 ask_fair [of cfg env "json_only_reprompt cfg"] by (auto split: prod.splits sum.splits) (metis fst_conv)+
qed simp

lemma cycle_loop_state:
  "rs_calls (snd (cycle_loop cfg env rots found s)) \<le> rs_calls s + length rots \<and>
   rs_runs (snd (cycle_loop cfg env rots found s)) = rs_runs s"
proof (induction cfg env rots found s rule: cycle_loop.induct)
  case (2 cfg env rot rots found s)
  let ?s = "rc_emit (Provider_Cycle (rc_chain cfg ! (rot mod length (rc_chain cfg))) rot) (s\<lparr>rs_offset := int rot\<rparr>)"
  obtain a s' where a: "ask cfg env (json_only_reprompt cfg) ?s = (a, s')" by force
  then have "rs_calls s' = Suc (rs_calls s)" "rs_runs s' = rs_runs s"
    using ask_state [of cfg env "json_only_reprompt cfg" ?s] by simp_all
  with 2 a show ?case by (cases a) fastforce+
qed simp

lemma cycle_providers_state:
  assumes "cycle_providers cfg env s = (r, s')"
  shows "rs_calls s' \<le> rs_calls s + (length (rc_chain cfg) - 1)" "rs_runs s' = rs_runs s" "rs_offset s' = rs_offset s"
    "pred_option fair r"
  using assms cycle_loop_state [of cfg env "[1..<length (rc_chain cfg)]" None s]
    cycle_loop_fair [of None cfg env "[1..<length (rc_chain cfg)]" s]
  by (auto simp: cycle_providers_def split: if_splits prod.splits)

lemma recover_state:
  assumes "recover cfg env r why s = (r', s')"
  shows "rs_calls s' \<le> rs_calls s + Suc (length (rc_chain cfg) - 1)" "rs_runs s' = rs_runs s" "rs_offset s' = rs_offset s"
    "fair r \<Longrightarrow> fair r'"
proof -
  obtain a s1 where a: "ask cfg env (json_only_reprompt cfg) (rc_emit (Reprompt_Json why) s) = (a, s1)" by force
  then have s1: "rs_calls s1 = Suc (rs_calls s)" "rs_runs s1 = rs_runs s" "rs_offset s1 = rs_offset s"
    using ask_state [of cfg env "json_only_reprompt cfg" "rc_emit (Reprompt_Json why) s"] by simp_all
  obtain c s2 where c: "cycle_providers cfg env s1 = (c, s2)" by force
  note cs = cycle_providers_state [OF c]
  show "rs_calls s' \<le> rs_calls s + Suc (length (rc_chain cfg) - 1)" "rs_runs s' = rs_runs s" "rs_offset s' = rs_offset s"
    using assms a c s1 cs(1-3) by (auto simp: recover_def split: sum.splits if_splits option.splits)
  show "fair r'" if "fair r"
    using assms a c cs(4) that ask_fair [of cfg env "json_only_reprompt cfg" "rc_emit (Reprompt_Json why) s"]
    by (auto simp: recover_def split: sum.splits if_splits option.splits)
qed

lemma trace_state:
  assumes "trace cfg env s = (a, s')"
  shows "rs_calls s' \<le> rs_calls s + Suc (Suc (length (rc_chain cfg) - 1))" "rs_runs s' = rs_runs s" "rs_offset s' = rs_offset s"
    "a = Inr r \<Longrightarrow> fair r"
proof -
  obtain b s1 where b: "ask cfg env (build_prompt cfg) (rc_emit Trace_Started s) = (b, s1)" by force
  then have s1: "rs_calls s1 = Suc (rs_calls s)" "rs_runs s1 = rs_runs s" "rs_offset s1 = rs_offset s"
    using ask_state [of cfg env "build_prompt cfg" "rc_emit Trace_Started s"] by simp_all
  have fb: "fair v" if "b = Inr v" for v using ask_fair [of cfg env "build_prompt cfg" "rc_emit Trace_Started s" v] b that by simp
  have all: "rs_calls s' \<le> rs_calls s + Suc (Suc (length (rc_chain cfg) - 1)) \<and> rs_runs s' = rs_runs s \<and>
      rs_offset s' = rs_offset s \<and> (\<forall>r. a = Inr r \<longrightarrow> fair r)"
  proof (cases b)
    case (Inl why)
    with assms b s1 show ?thesis by (auto simp: trace_def)
  next
    case (Inr v)
    show ?thesis
    proof (cases "rr_parse_error v")
      case None
      with assms b s1 Inr fb show ?thesis by (auto simp: trace_def)
    next
      case (Some why)
      obtain r2 s2 where r: "recover cfg env v why s1 = (r2, s2)" by force
      with recover_state [OF r] assms b s1 Inr Some fb show ?thesis by (auto simp: trace_def)
    qed
  qed
  then show "rs_calls s' \<le> rs_calls s + Suc (Suc (length (rc_chain cfg) - 1))" "rs_runs s' = rs_runs s" "rs_offset s' = rs_offset s"
    "a = Inr r \<Longrightarrow> fair r" by auto
qed

section \<open>The passes over the findings\<close>

lemma with_measure_honest: "honest f \<and> fd_excused f = None \<Longrightarrow>
    honest (with_measure env b a f) \<and> fd_excused (with_measure env b a f) = None"
  by (auto simp: honest_def with_measure_def Let_def claims_load_def split: option.split)

lemma run_witness_state [simp]: "rs_calls (snd (run_witness env cmd m s)) = rs_calls s"
    "rs_offset (snd (run_witness env cmd m s)) = rs_offset s" "rs_runs (snd (run_witness env cmd m s)) = Suc (rs_runs s)"
  by (simp_all add: run_witness_def)

lemma measure_finding_state:
  assumes "measure_finding cfg env f s = (g, s')"
  shows "rs_calls s' = rs_calls s \<and> rs_offset s' = rs_offset s \<and> rs_runs s' \<le> rs_runs s + 2 \<and>
    (honest f \<and> fd_excused f = None \<longrightarrow> honest g \<and> fd_excused g = None)"
proof (cases "truthy_str (ablation_cmd_for cfg (fd_name f))")
  case (Some cmd)
  obtain b s1 where b: "run_witness env cmd None s = (b, s1)" by force
  obtain a s2 where a: "run_witness env cmd (Some (fd_name f)) s1 = (a, s2)" by force
  have s2: "rs_calls s2 = rs_calls s" "rs_offset s2 = rs_offset s" "rs_runs s2 = Suc (Suc (rs_runs s))"
    using run_witness_state [of env cmd None s] run_witness_state [of env cmd "Some (fd_name f)" s1] b a by simp_all
  have "(g = f \<or> (\<exists>x y. g = with_measure env x y f)) \<and> rs_calls s' = rs_calls s2 \<and> rs_offset s' = rs_offset s2 \<and> rs_runs s' = rs_runs s2"
    using assms Some b a by (cases b; cases a) (auto simp: measure_finding_def)
  with s2 with_measure_honest show ?thesis by auto
qed (use assms in \<open>simp add: measure_finding_def\<close>)

lemma measure_all_state:
  "measure_all cfg env fs s = (gs, s') \<Longrightarrow>
   rs_calls s' = rs_calls s \<and> rs_offset s' = rs_offset s \<and> rs_runs s' \<le> rs_runs s + 2 * length fs \<and> length gs = length fs \<and>
   (list_all (\<lambda>f. honest f \<and> fd_excused f = None) fs \<longrightarrow> list_all (\<lambda>f. honest f \<and> fd_excused f = None) gs)"
proof (induction fs arbitrary: s gs s')
  case (Cons f fs)
  obtain g s1 where g: "measure_finding cfg env f s = (g, s1)" by force
  obtain hs s2 where h: "measure_all cfg env fs s1 = (hs, s2)" by force
  from Cons.prems g h have "gs = g # hs" "s' = s2" by auto
  with measure_finding_state [OF g] Cons.IH [OF h] show ?case by auto
qed simp

lemma ablation_fair:
  assumes "apply_ablation_witnesses cfg env r s = (r', s')" "fair r"
  shows "fair r'" "rs_calls s' = rs_calls s" "rs_offset s' = rs_offset s" "rs_runs s' \<le> rs_runs s + 2 * length (rr_findings r)"
    "length (rr_findings r') = length (rr_findings r)"
proof -
  obtain fs t where m: "measure_all cfg env (rr_findings r) s = (fs, t)" by force
  note ms = measure_all_state [OF m]
  have "fair r' \<and> rs_calls s' = rs_calls s \<and> rs_offset s' = rs_offset s \<and>
      rs_runs s' \<le> rs_runs s + 2 * length (rr_findings r) \<and> length (rr_findings r') = length (rr_findings r)"
    using assms m ms
    by (auto simp: apply_ablation_witnesses_def fair_def derived_def split: if_splits)
  then show "fair r'" "rs_calls s' = rs_calls s" "rs_offset s' = rs_offset s"
    "rs_runs s' \<le> rs_runs s + 2 * length (rr_findings r)" "length (rr_findings r') = length (rr_findings r)" by auto
qed

lemma excuse_honest: "honest f \<Longrightarrow> honest (excuse f)"
  by (auto simp: excuse_def honest_def is_dead_def)

definition settled :: "verdict \<Rightarrow> bool" where
  "settled r = (derived r \<and> list_all honest (rr_findings r))"

lemma excuse_settled:
  assumes "excuse_findings r s = (r', s')" "fair r"
  shows "settled r'" "rs_calls s' = rs_calls s" "rs_offset s' = rs_offset s" "rs_runs s' = rs_runs s"
    "length (rr_findings r') = length (rr_findings r)"
proof -
  have h: "list_all honest (map excuse (rr_findings r))"
    using assms(2) excuse_honest by (auto simp: fair_def list_all_iff)
  have d: "derived (r\<lparr>rr_findings := map excuse (rr_findings r), rr_reconciled := earned (r\<lparr>rr_findings := map excuse (rr_findings r)\<rparr>)\<rparr>)"
    using earned_derived [of "r\<lparr>rr_findings := map excuse (rr_findings r)\<rparr>"] assms(2) by (auto simp: fair_def derived_def)
  have "settled r" using assms(2) by (auto simp: fair_def settled_def list_all_iff)
  with assms(1) h d show "settled r'" "rs_calls s' = rs_calls s" "rs_offset s' = rs_offset s" "rs_runs s' = rs_runs s"
    "length (rr_findings r') = length (rr_findings r)"
    by (auto simp: excuse_findings_def settled_def Let_def split: if_splits)
qed

lemma flag_finding_honest: "honest f \<Longrightarrow> fd_class f = ''load_bearing'' \<Longrightarrow> honest (flag_finding flip f)"
  by (auto simp: honest_def flag_finding_def Let_def)

lemma only_mocked_unmeasured: "only_mocked env ns targets f \<Longrightarrow> unmeasured f"
  by (auto simp: only_mocked_def symbol_of_def split: option.splits if_splits)

lemma flag_dead_iff: "unmeasured f \<Longrightarrow> is_dead (flag_finding False f) = is_dead f"
  by (simp add: flag_finding_def is_dead_def Let_def)

lemma flag_settled: "settled r \<Longrightarrow> settled (flag_mock_hidden cfg env r) \<and>
    length (rr_findings (flag_mock_hidden cfg env r)) = length (rr_findings r)"
proof -
  assume r: "settled r"
  define hit where "hit ns = only_mocked env ns (mock_targets_of env r)" for ns
  define fs where "fs ns = map (\<lambda>f. if hit ns f then flag_finding (flip_on cfg r) f else f) (rr_findings r)" for ns
  have hs: "list_all honest (fs ns)" for ns
    using r flag_finding_honest only_mocked_unmeasured
    by (auto simp: settled_def list_all_iff fs_def hit_def unmeasured_def)
  have e: "derived (r\<lparr>rr_findings := fs ns, rr_reconciled := earned (r\<lparr>rr_findings := fs ns\<rparr>)\<rparr>)" for ns
    using earned_derived [of "r\<lparr>rr_findings := fs ns\<rparr>"] r by (auto simp: settled_def derived_def fs_def)
  have same: "list_ex is_dead (fs ns) = list_ex is_dead (rr_findings r)" if "\<not> (flip_on cfg r \<and> list_ex (hit ns) (rr_findings r))" for ns
  proof -
    define g where "g f = (if hit ns f then flag_finding (flip_on cfg r) f else f)" for f
    have "is_dead (g f) = is_dead f" if "f \<in> set (rr_findings r)" for f
      using \<open>\<not> (flip_on cfg r \<and> list_ex (hit ns) (rr_findings r))\<close> that flag_dead_iff only_mocked_unmeasured
      by (auto simp: g_def list_ex_iff hit_def)
    then have "list_ex is_dead (map g (rr_findings r)) = list_ex is_dead (rr_findings r)" by (auto simp: list_ex_iff)
    then show ?thesis by (simp add: fs_def g_def [abs_def])
  qed
  have k: "derived (r\<lparr>rr_findings := fs ns\<rparr>)" if "\<not> (flip_on cfg r \<and> list_ex (hit ns) (rr_findings r))" for ns
    using r same [OF that] by (auto simp: settled_def derived_def fs_def)
  show ?thesis
  proof (cases "flag_on (rc_mock_check cfg) ''1'' [''0'', ''false'', ''no'', ''off''] \<or> mock_targets_of env r = [] \<or> \<not> rq_isdir env
      \<or> test_nodes env = None")
    case True
    with r show ?thesis by (auto simp: flag_mock_hidden_def)
  next
    case False
    then obtain ns where "test_nodes env = Some ns" by auto
    with False have "flag_mock_hidden cfg env r = (if flip_on cfg r \<and> list_ex (hit ns) (rr_findings r)
        then r\<lparr>rr_findings := fs ns, rr_reconciled := earned (r\<lparr>rr_findings := fs ns\<rparr>)\<rparr> else r\<lparr>rr_findings := fs ns\<rparr>)"
      by (simp add: flag_mock_hidden_def Let_def hit_def fs_def)
    with hs e k show ?thesis by (auto simp: settled_def fs_def)
  qed
qed

section \<open>The review\<close>

lemma complete_settled:
  assumes "complete cfg env r s = (r', s')" "fair r"
  shows "settled r'" "rs_calls s' = rs_calls s" "rs_offset s' = rs_offset s"
    "rs_runs s' \<le> rs_runs s + 2 * length (rr_findings r)" "length (rr_findings r') = length (rr_findings r)"
proof -
  obtain r1 s1 where a: "(if ablation_enabled cfg then apply_ablation_witnesses cfg env r s else (r, s)) = (r1, s1)" by force
  then have r1: "fair r1 \<and> rs_calls s1 = rs_calls s \<and> rs_offset s1 = rs_offset s \<and>
      rs_runs s1 \<le> rs_runs s + 2 * length (rr_findings r) \<and> length (rr_findings r1) = length (rr_findings r)"
    using assms(2) ablation_fair by (auto split: if_splits)
  obtain r2 s2 where b: "excuse_findings r1 s1 = (r2, s2)" by force
  note r2 = excuse_settled [OF b conjunct1 [OF r1]]
  have "r' = flag_mock_hidden cfg env r2" "rs_calls s' = rs_calls s2" "rs_offset s' = rs_offset s2" "rs_runs s' = rs_runs s2"
    using assms(1) a b by (auto simp: complete_def Let_def)
  with r1 r2 flag_settled [OF r2(1), of cfg env] show "settled r'" "rs_calls s' = rs_calls s" "rs_offset s' = rs_offset s"
    "rs_runs s' \<le> rs_runs s + 2 * length (rr_findings r)" "length (rr_findings r') = length (rr_findings r)" by auto
qed

lemma execute_cases:
  assumes "reconcile_execute cfg env s = (a, s')"
  obtains (raised) why where "a = Inl why" "trace cfg env s = (Inl why, s')"
    | (judged) r s1 r' where "a = Inr r'" "trace cfg env s = (Inr r, s1)" "complete cfg env r s1 = (r', s')"
proof -
  obtain b s1 where t: "trace cfg env s = (b, s1)" by force
  show ?thesis
  proof (cases b)
    case (Inl why)
    with t assms raised show ?thesis by (auto simp: reconcile_execute_def)
  next
    case (Inr r)
    obtain r2 s2 where "complete cfg env r s1 = (r2, s2)" by force
    with t assms Inr judged show ?thesis by (auto simp: reconcile_execute_def)
  qed
qed

text \<open>C23: a reconciliation is positive exactly when its trace has findings and none of them is dead wiring;
  it is then substantive (parsed, not starved, not empty).  Every finding of the verdict is honest: only
  a dead finding at a test module is excused, a mechanism called load-bearing that was measured moved
  the signal, and a dead finding carries its kind.\<close>

theorem verdict_is_earned:
  assumes "reconcile_execute cfg env s = (Inr r, s')"
  shows "(rr_reconciled r \<longleftrightarrow> rr_findings r \<noteq> [] \<and> \<not> list_ex is_dead (rr_findings r)) \<and>
    (rr_reconciled r \<longrightarrow> is_substantive r) \<and> list_all honest (rr_findings r)"
proof -
  from assms have "settled r"
    by (rule execute_cases) (auto dest: complete_settled(1) trace_state(4))
  then show ?thesis
    by (auto simp: settled_def derived_def is_substantive_def Suc_le_eq)
qed

text \<open>However the replies come out, a review calls its agents at most once for the trace, once for the
  re-ask and once for each further provider, runs two commands per finding at most, and leaves the
  rotation of the chain as it found it.\<close>

theorem review_is_bounded:
  "rs_calls (snd (reconcile_execute cfg env s)) \<le> rs_calls s + max 2 (Suc (length (rc_chain cfg))) \<and>
   rs_offset (snd (reconcile_execute cfg env s)) = rs_offset s \<and>
   (case reconcile_execute cfg env s of (Inl why, s') \<Rightarrow> rs_runs s' = rs_runs s
    | (Inr r, s') \<Rightarrow> rs_runs s' \<le> rs_runs s + 2 * length (rr_findings r))"
proof -
  obtain a s' where r: "reconcile_execute cfg env s = (a, s')" by force
  have b: "rs_calls s + Suc (Suc (length (rc_chain cfg) - 1)) \<le> rs_calls s + max 2 (Suc (length (rc_chain cfg)))"
    by (cases "length (rc_chain cfg)") auto
  from r show ?thesis
  proof (cases rule: execute_cases)
    case (raised why)
    with trace_state(1-3) [OF raised(2)] r b show ?thesis by simp
  next
    case (judged v s1 v')
    with trace_state(1-3) [OF judged(2)] complete_settled(2-5) [OF judged(3) trace_state(4) [OF judged(2) refl]] r b
    show ?thesis by simp
  qed
qed


section \<open>Recovering a verdict\<close>

definition answer :: "rc_cfg \<Rightarrow> rc_env \<Rightarrow> int \<Rightarrow> nat \<Rightarrow> string + verdict" where
  "answer cfg env off n = ebind (rq_agent env n off (json_only_reprompt cfg))
     (parse_reply (rq_loads env) (rq_repr env) (rc_disposition cfg))"

definition parsed :: "string + verdict \<Rightarrow> bool" where
  "parsed a = (case a of Inl why \<Rightarrow> False | Inr v \<Rightarrow> rr_parse_error v = None)"

lemma ask_answer: "ask cfg env (json_only_reprompt cfg) s = (answer cfg env (rs_offset s) (rs_calls s), s\<lparr>rs_calls := Suc (rs_calls s)\<rparr>)"
  by (simp add: ask_def answer_def)

lemma cycle_finds:
  assumes "k \<in> set rots" "\<And>n. parsed (answer cfg env (int k) n)"
  shows "\<exists>v s'. cycle_loop cfg env rots found s = (Some v, s') \<and> rr_parse_error v = None"
  using assms(1)
proof (induction rots arbitrary: found s)
  case (Cons rot rots)
  show ?case
  proof (cases "parsed (answer cfg env (int rot) (rs_calls s))")
    case True
    then show ?thesis by (auto simp: ask_answer rc_emit_def parsed_def split: sum.splits)
  next
    case False
    with assms(2) Cons.prems have "k \<in> set rots" by auto
    from Cons.IH [OF this] False show ?thesis
      by (auto simp: ask_answer rc_emit_def parsed_def split: sum.splits)
  qed
qed simp

lemma complete_parse_error: "complete cfg env r s = (r', s') \<Longrightarrow> rr_parse_error r' = rr_parse_error r"
proof -
  assume c: "complete cfg env r s = (r', s')"
  have "rr_parse_error (fst (apply_ablation_witnesses cfg env r s)) = rr_parse_error r" for r s
    by (simp add: apply_ablation_witnesses_def split: prod.split)
  moreover have "rr_parse_error (fst (excuse_findings r s)) = rr_parse_error r" for r s
    by (simp add: excuse_findings_def Let_def)
  moreover have "rr_parse_error (flag_mock_hidden cfg env r) = rr_parse_error r" for r
    by (simp add: flag_mock_hidden_def Let_def split: option.split)
  ultimately show ?thesis using c by (auto simp: complete_def Let_def split: prod.splits if_splits) (metis fst_conv)+
qed

text \<open>One provider is enough: when the lead answers the re-ask (with whatever text) and some other provider
  of the chain answers it in JSON, a review that returns has a parsed verdict, whatever the lead and the
  providers before that one said.\<close>

theorem one_provider_suffices:
  assumes "reconcile_execute cfg env s = (Inr r, s')"
    and lead: "\<And>n. \<exists>v. answer cfg env (rs_offset s) n = Inr v"
    and k: "1 \<le> k" "k < length (rc_chain cfg)" "\<And>n. parsed (answer cfg env (int k) n)"
  shows "rr_parse_error r = None"
  using assms(1)
proof (cases rule: execute_cases)
  case (judged v s1 r')
  obtain b s2 where b: "ask cfg env (build_prompt cfg) (rc_emit Trace_Started s) = (b, s2)" by force
  then have off: "rs_offset s2 = rs_offset s"
    using ask_state(2) [of cfg env "build_prompt cfg" "rc_emit Trace_Started s"] by simp
  have "rr_parse_error v = None"
  proof (cases b)
    case (Inl why)
    with judged(2) b show ?thesis by (simp add: trace_def)
  next
    case (Inr w)
    show ?thesis
    proof (cases "rr_parse_error w")
      case None
      with judged(2) b Inr show ?thesis by (simp add: trace_def)
    next
      case (Some why)
      let ?s = "s2\<lparr>rs_log := rs_log s2 @ [Reprompt_Json why], rs_calls := Suc (rs_calls s2)\<rparr>"
      obtain u where u: "answer cfg env (rs_offset s) (rs_calls s2) = Inr u" using lead by blast
      obtain x t where x: "cycle_loop cfg env [1..<length (rc_chain cfg)] None ?s = (Some x, t)" "rr_parse_error x = None"
        using cycle_finds [of k "[1..<length (rc_chain cfg)]" cfg env None ?s] k by auto
      have rec: "rr_parse_error (fst (recover cfg env w why s2)) = None"
        using u x k off by (auto simp: recover_def ask_answer rc_emit_def cycle_providers_def split: if_splits)
      obtain w2 s3 where "recover cfg env w why s2 = (w2, s3)" by force
      with judged(2) b Inr Some rec show ?thesis by (simp add: trace_def)
    qed
  qed
  with complete_parse_error [OF judged(3)] judged(1) show ?thesis by simp
qed simp

section \<open>What the witness measurement reads\<close>

lemma read_small: "py_float n = Some q \<Longrightarrow> \<bar>q\<bar> \<le> 100 \<Longrightarrow> read_number n = q"
proof -
  assume q: "py_float n = Some q" "\<bar>q\<bar> \<le> 100"
  have "(100::rat) < 2 ^ 1024 - 2 ^ 970" by simp
  with q have "\<not> \<bar>q\<bar> \<ge> 2 ^ 1024 - 2 ^ 970" by linarith
  with q show ?thesis by (simp add: read_number_def finite_or_dead_def)
qed

lemma py_float_minus_five: "py_float ''-05'' = Some (- 5)" "py_float ''5'' = Some 5"
  by code_simp+

text \<open>A small signal that is printed with an exponent is read as its exponent, so two different signals of the
  same order of magnitude measure as no difference, and the mechanism is reported dead.\<close>

lemma exponents_are_read_as_signals:
  "parse_witness_signal ''1e-05'' = Some (- 5)" "parse_witness_signal ''9e-05'' = Some (- 5)"
proof -
  have t: "find_tags ''1e-05'' = []" "find_tags ''9e-05'' = []" by code_simp+
  have n: "find_numbers ''1e-05'' = [''1'', ''-05'']" "find_numbers ''9e-05'' = [''9'', ''-05'']" by code_simp+
  have f: "read_number ''-05'' = - 5" using read_small [of "''-05''" "- 5"] by (simp add: py_float_minus_five)
  show "parse_witness_signal ''1e-05'' = Some (- 5)" "parse_witness_signal ''9e-05'' = Some (- 5)"
    unfolding parse_witness_signal_def t n by (simp_all add: f)
qed

text \<open>The exit status of a witness command is not looked at: the output of a failing command counts.\<close>

lemma failing_command_counts:
  assumes "rq_witness env (rs_runs s) cmd None = Some (1, ''error 5'')"
  shows "fst (run_witness env cmd None s) = Some 5"
proof -
  have "find_tags ''error 5'' = []" "find_numbers ''error 5'' = [''5'']" by code_simp+
  then have "parse_witness_signal ''error 5'' = Some 5"
    unfolding parse_witness_signal_def using read_small [OF py_float_minus_five(2)] by simp
  with assms show ?thesis by (simp add: run_witness_def)
qed

section \<open>A sample review\<close>

text \<open>The lead answers in prose, the second provider with one mechanism.\<close>

definition rc_sample :: rc_env where
  "rc_sample = \<lparr>rq_agent = (\<lambda>n off p. Inr (if off = 1 then ''{}'' else ''fine'')),
     rq_loads = (\<lambda>strict t. Json_Value (PDict [(''findings'', PList [PDict [(''name'', PStr ''cache''),
       (''classification'', PStr ''load_bearing''), (''witness'', PBool True)]])])),
     rq_repr = (\<lambda>v. []), rq_general = (\<lambda>q. []), rq_workspace = False, rq_witness = (\<lambda>n c a. None),
     rq_isdir = False, rq_walk = [], rq_source = (\<lambda>p. None)\<rparr>"

definition rc_sample_cfg :: rc_cfg where
  "rc_sample_cfg = \<lparr>rc_mandate = [], rc_goal = ''a cache'', rc_directory = ''.'', rc_disposition = ''warn'', rc_diff = None,
     rc_ablation = None, rc_ablation_map = [], rc_timeout = 600, rc_chain = [''A'', ''B''], rc_mock_check = None,
     rc_mock_strict = None\<rparr>"

definition rc_sample_state :: rc_state where
  "rc_sample_state = \<lparr>rs_calls = 0, rs_runs = 0, rs_offset = 0, rs_log = []\<rparr>"

lemma sample_blobs: "extract_json_blob ''{}'' = Some ''{}''" "extract_json_blob ''fine'' = None"
  by code_simp+

lemma sample_findings: "findings_of (\<lambda>v. []) (PDict [(''findings'', PList [PDict [(''name'', PStr ''cache''),
       (''classification'', PStr ''load_bearing''), (''witness'', PBool True)]])]) =
   [\<lparr>fd_name = ''cache'', fd_class = ''load_bearing'', fd_sub = None, fd_location = None,
     fd_witness = \<lparr>wi_value = 1, wi_description = [], wi_measured = False\<rparr>, fd_evidence = [], fd_excused = None, fd_mock = None\<rparr>]"
  by code_simp

lemma sample_answers: "answer rc_sample_cfg rc_sample 1 n = Inr \<lparr>rr_reconciled = True,
      rr_findings = findings_of (\<lambda>v. []) (PDict [(''findings'', PList [PDict [(''name'', PStr ''cache''),
       (''classification'', PStr ''load_bearing''), (''witness'', PBool True)]])]),
      rr_disposition = ''warn'', rr_raw = ''{}'', rr_parse_error = None, rr_starved = None\<rparr>"
    "\<exists>v. answer rc_sample_cfg rc_sample 0 n = Inr v \<and> rr_parse_error v \<noteq> None"
  by (simp_all add: answer_def rc_sample_def rc_sample_cfg_def parse_reply_def reply_data_def sample_blobs Let_def
      sample_findings is_dead_def dead_class_def)

lemma sample_returns: "\<exists>r s'. reconcile_execute rc_sample_cfg rc_sample rc_sample_state = (Inr r, s')"
proof -
  obtain b s2 where b: "ask rc_sample_cfg rc_sample (build_prompt rc_sample_cfg) (rc_emit Trace_Started rc_sample_state) = (b, s2)"
    by force
  then obtain v where v: "b = Inr v"
    by (auto simp: ask_def rc_sample_def rc_sample_cfg_def rc_sample_state_def rc_emit_def parse_reply_def reply_data_def sample_blobs Let_def)
  obtain a s3 where t: "trace rc_sample_cfg rc_sample rc_sample_state = (a, s3)" by force
  with b v obtain w where "a = Inr w" by (auto simp: trace_def split: option.splits prod.splits)
  with t show ?thesis by (auto simp: reconcile_execute_def split: prod.split)
qed

theorem one_provider_suffices_witness:
  "\<exists>r s'. reconcile_execute rc_sample_cfg rc_sample rc_sample_state = (Inr r, s') \<and> rr_parse_error r = None"
proof -
  obtain r s' where r: "reconcile_execute rc_sample_cfg rc_sample rc_sample_state = (Inr r, s')" using sample_returns by blast
  have "rr_parse_error r = None"
  proof (rule one_provider_suffices [OF r])
    show "\<exists>v. answer rc_sample_cfg rc_sample (rs_offset rc_sample_state) n = Inr v" for n
      using sample_answers(2) [of n] by (auto simp: rc_sample_state_def)
    show "(1::nat) \<le> 1" "1 < length (rc_chain rc_sample_cfg)" by (simp_all add: rc_sample_cfg_def)
    show "parsed (answer rc_sample_cfg rc_sample (int 1) n)" for n using sample_answers(1) [of n] by (simp add: parsed_def)
  qed
  with r show ?thesis by blast
qed

theorem verdict_is_earned_witness:
  "\<exists>r s'. reconcile_execute rc_sample_cfg rc_sample rc_sample_state = (Inr r, s') \<and>
     (rr_reconciled r = (rr_findings r \<noteq> [] \<and> \<not> list_ex is_dead (rr_findings r)))"
proof -
  obtain r s' where r: "reconcile_execute rc_sample_cfg rc_sample rc_sample_state = (Inr r, s')" using sample_returns by blast
  from verdict_is_earned [OF r] r show ?thesis by blast
qed

end
