(* ===== verification/Supervisor.thy ===== *)
theory Supervisor
  imports Safety_Kernel "HOL-Library.AList"
begin

text \<open>
  \<^verbatim>\<open>computer_use/process_supervisor.py\<close> and the environments of \<^verbatim>\<open>computer_use/xauth.py\<close>: owned process
  trees on a process table.  The table lists live processes with parent and group; a killed process is
  gone at once and its children are adopted by process 1, as the kernel does.  Pids, cookie files and
  resource usage come from outside.
\<close>

section \<open>The process table\<close>

record os_proc =
  os_pid :: int
  os_ppid :: int
  os_pgid :: int

type_synonym proc_table = "os_proc list"

definition pid_exists :: "proc_table \<Rightarrow> int \<Rightarrow> bool" where
  "pid_exists os p = list_ex (\<lambda>q. os_pid q = p) os"

definition getpgid :: "proc_table \<Rightarrow> int \<Rightarrow> int option" where
  "getpgid os p = map_option os_pgid (find (\<lambda>q. os_pid q = p) os)"

text \<open>\<open>children(recursive=True)\<close>: generation by generation, as many as there are processes.\<close>

fun generations :: "nat \<Rightarrow> proc_table \<Rightarrow> int list \<Rightarrow> int list" where
  "generations 0 os ps = []"
| "generations (Suc n) os ps =
     (let ks = map os_pid (filter (\<lambda>q. os_ppid q \<in> set ps) os) in ks @ generations n os ks)"

definition descendants :: "proc_table \<Rightarrow> int \<Rightarrow> int list" where
  "descendants os p = generations (length os) os [p]"

text \<open>\<^verbatim>\<open>terminate_tree\<close> sends SIGTERM, waits a moment and sends SIGKILL; the table is the one after that, without the zombies that
  are still to be reaped.\<close>

definition kill_procs :: "(int \<Rightarrow> bool) \<Rightarrow> proc_table \<Rightarrow> proc_table" where
  "kill_procs dead os = map (\<lambda>q. if dead (os_ppid q) then q\<lparr>os_ppid := 1\<rparr> else q) (filter (\<lambda>q. \<not> dead (os_pid q)) os)"

section \<open>Environments\<close>

type_synonym environ = "(string \<times> string) list"

definition x_state_keys :: "string list" where
  "x_state_keys = [''DISPLAY'', ''XAUTHORITY'', ''WAYLAND_DISPLAY'']"

definition isolated_keys :: "string list" where
  "isolated_keys = [''DISPLAY'', ''XAUTHORITY'', ''WAYLAND_DISPLAY'', ''HOME'', ''AGY_ISOLATED_X'']"

definition env_set :: "string \<Rightarrow> string \<Rightarrow> environ \<Rightarrow> environ" where
  "env_set k v e = AList.update k v e"

definition env_drop :: "string \<Rightarrow> environ \<Rightarrow> environ" where
  "env_drop k e = AList.delete k e"

text \<open>A private cookie file and a private home, or the exception of making them.\<close>

type_synonym private_files = "(string \<times> string) option"

definition get_isolated_env :: "environ \<Rightarrow> private_files \<Rightarrow> string \<Rightarrow> environ \<Rightarrow> environ option" where
  "get_isolated_env environ files display extra =
     (if \<not> prefix '':'' display then None
      else case files of None \<Rightarrow> None | Some (auth, home) \<Rightarrow>
        let kept = filter (\<lambda>(k, v). k \<notin> set x_state_keys \<and> \<not> (py_in ''.Xauthority'' v \<or> py_in ''/Xauth'' v) \<and> k \<noteq> ''HOME'') environ;
            forced = env_set ''AGY_ISOLATED_X'' ''1'' (env_set ''HOME'' home (env_set ''XAUTHORITY'' auth (env_set ''DISPLAY'' display kept)))
        in Some (foldl (\<lambda>e (k, v). if k \<in> set isolated_keys then e else env_set k v e) forced extra))"

text \<open>The environment of a spawned child: the parent's with the overrides, and for an isolated one the
  private display, cookie and home, or no X state at all when they could not be made.\<close>

definition isolate_env :: "environ \<Rightarrow> private_files \<Rightarrow> string option \<Rightarrow> environ \<Rightarrow> environ" where
  "isolate_env environ files display child =
     (let d = (case truthy_str display of Some x \<Rightarrow> x | None \<Rightarrow> '':99'') in
      case get_isolated_env environ files d [] of
        Some ie \<Rightarrow>
          env_drop ''WAYLAND_DISPLAY'' (env_set ''AGY_ISOLATED_X'' (the (map_of ie ''AGY_ISOLATED_X''))
            (env_set ''HOME'' (the (map_of ie ''HOME'')) (env_set ''XAUTHORITY'' (the (map_of ie ''XAUTHORITY''))
              (env_set ''DISPLAY'' (the (map_of ie ''DISPLAY'')) child))))
      | None \<Rightarrow> env_set ''DISPLAY'' d (env_drop ''WAYLAND_DISPLAY'' (env_drop ''DISPLAY'' (env_drop ''XAUTHORITY'' child))))"

definition child_env :: "environ \<Rightarrow> private_files \<Rightarrow> string \<Rightarrow> string option \<Rightarrow> environ \<Rightarrow> environ" where
  "child_env environ files scope display overrides =
     (let base = foldl (\<lambda>e (k, v). env_set k v e) environ overrides in
      if scope = ''isolated'' then isolate_env environ files display base else base)"

section \<open>Resource limits\<close>

text \<open>A soft and a hard limit; -1 is unlimited.\<close>

type_synonym rlimit = "int \<times> int"

definition nproc_floor :: rlimit where
  "nproc_floor = (4096, 4096)"

definition as_floor :: rlimit where
  "as_floor = (2 * 1024 * 1024 * 1024, 2 * 1024 * 1024 * 1024)"

definition backstop :: "rlimit \<Rightarrow> rlimit \<Rightarrow> rlimit" where
  "backstop fl cur =
     (if snd fl \<le> (if snd cur > 0 then snd cur else 10 ^ 18)
      then (min (if fst cur > 0 then fst cur else fst fl) (fst fl), min (if snd cur > 0 then snd cur else snd fl) (snd fl))
      else cur)"

section \<open>The supervisor\<close>

record owned_root =
  ow_pgid :: int
  ow_root :: int
  ow_argv :: "string list"
  ow_scope :: "string option"

type_synonym registry = "(string \<times> owned_root) list"

record sup_state =
  su_os :: proc_table
  su_registry :: registry
  su_envs :: "environ list"

record spawn_args =
  sa_argv :: "string list"
  sa_scope :: string
  sa_no_shell :: bool
  sa_env :: environ
  sa_action :: "string option"
  sa_display :: "string option"

text \<open>What the system gives a spawn: the caller's pid and environment, the private files, and the new pid,
  or nothing when the executable does not exist.\<close>

record spawn_sys =
  sy_caller :: int
  sy_environ :: environ
  sy_files :: private_files
  sy_pid :: "int option"

definition spawn_check :: "spawn_args \<Rightarrow> string option" where
  "spawn_check a = (if sa_argv a = [] then Some ''argv must be non-empty''
     else if \<not> sa_no_shell a then Some ''no_shell must be exactly True'' else None)"

text \<open>The child runs before its entry is built, and the entry's specification must be isolated.\<close>

definition spawn :: "spawn_sys \<Rightarrow> spawn_args \<Rightarrow> sup_state \<Rightarrow> (string + string \<times> int) \<times> sup_state" where
  "spawn sys a s = (case spawn_check a of
       Some why \<Rightarrow> (Inl why, s)
     | None \<Rightarrow> (case sy_pid sys of
           None \<Rightarrow> (Inl ''executable not found'', s)
         | Some p \<Rightarrow>
             let s1 = s\<lparr>su_os := su_os s @ [\<lparr>os_pid = p, os_ppid = sy_caller sys, os_pgid = p\<rparr>],
                        su_envs := su_envs s @ [child_env (sy_environ sys) (sy_files sys) (sa_scope a) (sa_display a) (sa_env a)]\<rparr>;
                 rid = (case truthy_str (sa_action a) of Some i \<Rightarrow> i | None \<Rightarrow> ''spawn-'' @ show_int p)
             in if sa_scope a \<noteq> ''isolated'' then (Inl ''SpawnSpec.display_scope must be isolated'', s1)
                else (Inr (rid, p), s1\<lparr>su_registry := AList.update rid
                    \<lparr>ow_pgid = p, ow_root = p, ow_argv = sa_argv a, ow_scope = Some (sa_scope a)\<rparr> (su_registry s1)\<rparr>)))"

definition xvfb_args :: "string \<Rightarrow> string \<Rightarrow> string option \<Rightarrow> spawn_args" where
  "xvfb_args display screen binary =
     \<lparr>sa_argv = [(case truthy_str binary of Some b \<Rightarrow> b | None \<Rightarrow> ''Xvfb''), display, ''-screen'', ''0'', screen, ''-nolisten'', ''tcp'', ''-noreset''],
      sa_scope = ''isolated'', sa_no_shell = True, sa_env = [], sa_action = Some (''xvfb-'' @ filter (\<lambda>c. c \<noteq> CHR '':'') display),
      sa_display = Some display\<rparr>"

definition spawn_isolated_display :: "spawn_sys \<Rightarrow> string \<Rightarrow> string \<Rightarrow> string option \<Rightarrow> sup_state \<Rightarrow>
    (string + string \<times> int) \<times> sup_state" where
  "spawn_isolated_display sys display screen binary s = spawn sys (xvfb_args display screen binary) s"

definition adopt_owned_process :: "int \<Rightarrow> string option \<Rightarrow> string \<Rightarrow> sup_state \<Rightarrow> (string + string) \<times> sup_state" where
  "adopt_owned_process p root_id source s =
     (if p \<le> 0 then (Inl ''pid must be positive int'', s)
      else let rid = (case root_id of Some r \<Rightarrow> r | None \<Rightarrow> source @ ''-'' @ show_int p);
               g = (case getpgid (su_os s) p of Some g \<Rightarrow> g | None \<Rightarrow> p)
           in (Inr rid, s\<lparr>su_registry := AList.update rid \<lparr>ow_pgid = g, ow_root = p, ow_argv = [], ow_scope = None\<rparr> (su_registry s)\<rparr>))"

text \<open>The group of a leader is killed first; then what descends from the root now, and the root.\<close>

definition kill_group :: "owned_root \<Rightarrow> proc_table \<Rightarrow> proc_table" where
  "kill_group r os = (if ow_root r \<noteq> 0 \<and> ow_pgid r = ow_root r
     then kill_procs (\<lambda>p. getpgid os p = Some (ow_pgid r)) os else os)"

definition sweep_root :: "owned_root \<Rightarrow> proc_table \<Rightarrow> proc_table" where
  "sweep_root r os = (if ow_root r \<noteq> 0 \<and> pid_exists os (ow_root r)
     then kill_procs (\<lambda>p. p = ow_root r \<or> p \<in> set (descendants os (ow_root r))) os else os)"

definition terminate_tree :: "string \<Rightarrow> sup_state \<Rightarrow> sup_state" where
  "terminate_tree rid s = (case map_of (su_registry s) rid of
       None \<Rightarrow> s
     | Some r \<Rightarrow> s\<lparr>su_registry := AList.delete rid (su_registry s), su_os := sweep_root r (kill_group r (su_os s))\<rparr>)"

definition is_owned :: "sup_state \<Rightarrow> int \<Rightarrow> bool" where
  "is_owned s p =
     (p > 0 \<and> pid_exists (su_os s) p \<and>
      (list_ex (\<lambda>(rid, r). getpgid (su_os s) p = Some (ow_pgid r)) (su_registry s) \<or>
       list_ex (\<lambda>(rid, r). ow_root r \<noteq> 0 \<and> pid_exists (su_os s) (ow_root r) \<and> p \<in> set (descendants (su_os s) (ow_root r)))
         (su_registry s)))"

section \<open>Limits\<close>

text \<open>Memory in MB and processor share of a set of processes.\<close>

type_synonym usage = "int list \<Rightarrow> rat \<times> rat"

record tree_budget =
  tb_procs :: int
  tb_rss :: int
  tb_cpu :: rat

definition drop_dead :: "sup_state \<Rightarrow> sup_state" where
  "drop_dead s = s\<lparr>su_registry := filter (\<lambda>(rid, r). ow_root r = 0 \<or> pid_exists (su_os s) (ow_root r)) (su_registry s)\<rparr>"

definition over_budget :: "usage \<Rightarrow> tree_budget \<Rightarrow> proc_table \<Rightarrow> owned_root \<Rightarrow> bool" where
  "over_budget use b os r = (let ps = ow_root r # descendants os (ow_root r) in
     int (length ps) > tb_procs b \<or> fst (use ps) > of_int (tb_rss b) \<or> snd (use ps) > tb_cpu b)"

fun enforce_roots :: "usage \<Rightarrow> tree_budget \<Rightarrow> string list \<Rightarrow> sup_state \<Rightarrow> sup_state" where
  "enforce_roots use b [] s = s"
| "enforce_roots use b (rid # rids) s = enforce_roots use b rids (case map_of (su_registry s) rid of
       None \<Rightarrow> s
     | Some r \<Rightarrow> if ow_root r \<noteq> 0 \<and> pid_exists (su_os s) (ow_root r) \<and> over_budget use b (su_os s) r
         then terminate_tree rid s else s)"

definition enforce_limits :: "usage \<Rightarrow> tree_budget option \<Rightarrow> sup_state \<Rightarrow> sup_state" where
  "enforce_limits use budgets s = (let s1 = drop_dead s in
     case budgets of None \<Rightarrow> s1 | Some b \<Rightarrow> enforce_roots use b (map fst (su_registry s1)) s1)"

definition roots :: "sup_state \<Rightarrow> (string \<times> owned_root) list" where
  "roots s = su_registry s"

end
