(* ===== verification/Supervisor_Laws.thy ===== *)
theory Supervisor_Laws
  imports Supervisor
begin

text \<open>
  What the supervisor kills, what it owns, and what its children see of the operator's display.
\<close>

section \<open>Descendants\<close>

definition parent_of :: "proc_table \<Rightarrow> (int \<times> int) set" where
  "parent_of os = (\<lambda>q. (os_ppid q, os_pid q)) ` set os"

lemma finite_parent_of [simp]: "finite (parent_of os)"
  by (simp add: parent_of_def)

lemma card_parent_of: "card (parent_of os) \<le> length os"
  unfolding parent_of_def by (rule le_trans [OF card_image_le card_length]) simp

lemma set_generations:
  "set (generations n os ps) = {q. \<exists>k p. 0 < k \<and> k \<le> n \<and> p \<in> set ps \<and> (p, q) \<in> parent_of os ^^ k}"
proof (induction n arbitrary: ps)
  case (Suc n)
  let ?ks = "map os_pid (filter (\<lambda>q. os_ppid q \<in> set ps) os)"
  have ks: "set ?ks = {q. \<exists>p \<in> set ps. (p, q) \<in> parent_of os}" by (auto simp: parent_of_def)
  have "(\<exists>k p. 0 < k \<and> k \<le> Suc n \<and> p \<in> set ps \<and> (p, q) \<in> parent_of os ^^ k) \<longleftrightarrow>
      q \<in> set ?ks \<or> (\<exists>k p. 0 < k \<and> k \<le> n \<and> p \<in> set ?ks \<and> (p, q) \<in> parent_of os ^^ k)" (is "?l \<longleftrightarrow> ?r") for q
  proof
    assume ?l
    then obtain k p where k: "0 < k" "k \<le> Suc n" "p \<in> set ps" "(p, q) \<in> parent_of os ^^ k" by blast
    then obtain j where j: "k = Suc j" by (cases k) auto
    with k(4) obtain x where x: "(p, x) \<in> parent_of os" "(x, q) \<in> parent_of os ^^ j" by (metis relpow_Suc_D2)
    show ?r
    proof (cases "j = 0")
      case True
      with x ks k(3) show ?thesis by auto
    next
      case False
      with x ks k j show ?thesis by (metis (mono_tags, lifting) Suc_le_mono mem_Collect_eq neq0_conv)
    qed
  next
    assume ?r
    then show ?l
    proof
      assume "q \<in> set ?ks"
      then obtain p where "p \<in> set ps" "(p, q) \<in> parent_of os" using ks by auto
      then show ?thesis by (intro exI [of _ 1] exI [of _ p]) auto
    next
      assume "\<exists>k p. 0 < k \<and> k \<le> n \<and> p \<in> set ?ks \<and> (p, q) \<in> parent_of os ^^ k"
      then obtain k x where x: "k \<le> n" "x \<in> set ?ks" "(x, q) \<in> parent_of os ^^ k" by blast
      from x(2) obtain p where "p \<in> set ps" "(p, x) \<in> parent_of os" unfolding ks by blast
      with x(3) have "(p, q) \<in> parent_of os ^^ Suc k" by (intro relpow_Suc_I2)
      with x(1) \<open>p \<in> set ps\<close> show ?thesis by (metis Suc_le_mono zero_less_Suc)
    qed
  qed
  with Suc [of ?ks] show ?case by (auto simp: Let_def)
qed auto

theorem descendants_exact: "p' \<in> set (descendants os p) \<longleftrightarrow> (p, p') \<in> (parent_of os)\<^sup>+"
proof -
  have "(parent_of os)\<^sup>+ = (\<Union>k\<in>{k. 0 < k \<and> k \<le> card (parent_of os)}. parent_of os ^^ k)"
    by (rule trancl_finite_eq_relpow) simp
  moreover have "(p, p') \<in> (parent_of os)\<^sup>+" if "0 < k" "(p, p') \<in> parent_of os ^^ k" for k
    using that by (auto simp: trancl_power)
  ultimately show ?thesis
    unfolding descendants_def set_generations using card_parent_of [of os] by (auto intro: le_trans)
qed

section \<open>What is killed\<close>

lemma pid_exists_iff: "pid_exists os p \<longleftrightarrow> p \<in> set (map os_pid os)"
  by (auto simp: pid_exists_def list_ex_iff)

lemma pids_kill: "map os_pid (kill_procs dead os) = filter (\<lambda>p. \<not> dead p) (map os_pid os)"
  unfolding kill_procs_def by (induction os) auto

lemma pid_exists_kill: "pid_exists (kill_procs dead os) p \<longleftrightarrow> pid_exists os p \<and> \<not> dead p"
  unfolding pid_exists_iff pids_kill by simp

lemma getpgid_exists: "getpgid os p \<noteq> None \<longleftrightarrow> pid_exists os p"
  by (auto simp: getpgid_def pid_exists_def list_ex_iff find_None_iff)

definition leader :: "owned_root \<Rightarrow> bool" where
  "leader r \<longleftrightarrow> ow_root r \<noteq> 0 \<and> ow_pgid r = ow_root r"

text \<open>What termination does in the model, where a killed process is gone at once and its children pass to process 1: it kills
  exactly the group of a root that leads it, and exactly the root and its descendants when the root does not lead its
  group; every process it kills was owned before.\<close>

theorem terminate_tree_exact:
  assumes "map_of (su_registry s) rid = Some r" "ow_root r > 0"
    and "leader r \<Longrightarrow> pid_exists (su_os s) (ow_root r) \<Longrightarrow> getpgid (su_os s) (ow_root r) = Some (ow_pgid r)"
  shows "(pid_exists (su_os (terminate_tree rid s)) p \<longleftrightarrow> pid_exists (su_os s) p \<and>
      (if leader r then getpgid (su_os s) p \<noteq> Some (ow_pgid r)
       else pid_exists (su_os s) (ow_root r) \<longrightarrow> p \<noteq> ow_root r \<and> (ow_root r, p) \<notin> (parent_of (su_os s))\<^sup>+)) \<and>
    (p > 0 \<and> pid_exists (su_os s) p \<and> \<not> pid_exists (su_os (terminate_tree rid s)) p \<longrightarrow>
      is_owned s p \<or> p = ow_root r)" (is "?exact \<and> ?owned")
proof -
  have after: "su_os (terminate_tree rid s) = sweep_root r (kill_group r (su_os s))"
    using assms(1) by (simp add: terminate_tree_def)
  have exact: ?exact
  proof (cases "leader r")
    case True
    then have g: "kill_group r (su_os s) = kill_procs (\<lambda>p. getpgid (su_os s) p = Some (ow_pgid r)) (su_os s)"
      by (simp add: kill_group_def leader_def)
    have "\<not> pid_exists (kill_group r (su_os s)) (ow_root r)"
      using assms(3) [OF True] by (auto simp: g pid_exists_kill)
    then have "sweep_root r (kill_group r (su_os s)) = kill_group r (su_os s)"
      by (simp only: sweep_root_def simp_thms if_False)
    with True after show ?thesis by (simp add: g pid_exists_kill)
  next
    case False
    with after assms(2) show ?thesis
      by (auto simp: kill_group_def leader_def sweep_root_def pid_exists_kill descendants_exact)
  qed
  have ?owned
  proof
    assume p: "p > 0 \<and> pid_exists (su_os s) p \<and> \<not> pid_exists (su_os (terminate_tree rid s)) p"
    have m: "(rid, r) \<in> set (su_registry s)" using assms(1) by (rule map_of_SomeD)
    show "is_owned s p \<or> p = ow_root r"
    proof (cases "leader r")
      case True
      with exact p have "getpgid (su_os s) p = Some (ow_pgid r)" by auto
      with p m show ?thesis by (auto simp: is_owned_def list_ex_iff)
    next
      case False
      with exact p have "pid_exists (su_os s) (ow_root r)" "p = ow_root r \<or> (ow_root r, p) \<in> (parent_of (su_os s))\<^sup>+" by auto
      with p m assms(2) show ?thesis by (fastforce simp: is_owned_def list_ex_iff descendants_exact)
    qed
  qed
  with exact show ?thesis ..
qed

text \<open>C24: terminating a tree leaves neither the root nor a descendant that shares the group the root leads, nor any
  descendant of a root that does not lead its group.  It ends only processes that were owned before, and none
  outside the tree and the group its root leads; all those keep their id and their group.  The root is forgotten and the entries of other roots are kept.  Of a
  descendant that left the group of a leading root nothing is claimed: it escapes, see below.  In the model a killed process is gone
  at once.\<close>

theorem tree_is_gone_and_others_live:
  assumes "map_of (su_registry s) rid = Some r" "ow_root r > 0"
    and "leader r \<Longrightarrow> pid_exists (su_os s) (ow_root r) \<Longrightarrow> getpgid (su_os s) (ow_root r) = Some (ow_pgid r)"
  shows "let s' = terminate_tree rid s; tree = {p. p = ow_root r \<or> (ow_root r, p) \<in> (parent_of (su_os s))\<^sup>+}
     in (if leader r then {p \<in> tree. getpgid (su_os s) p = Some (ow_pgid r)}
         else if pid_exists (su_os s) (ow_root r) then tree else {ow_root r}) \<subseteq> {p. \<not> pid_exists (su_os s') p}
      \<and> \<not> pid_exists (su_os s') (ow_root r)
      \<and> {p. pid_exists (su_os s) p \<and> p \<notin> tree \<and> \<not> (leader r \<and> getpgid (su_os s) p = Some (ow_pgid r))}
          \<subseteq> {p. pid_exists (su_os s') p \<and> getpgid (su_os s') p = getpgid (su_os s) p}
      \<and> {p. p > 0 \<and> pid_exists (su_os s) p \<and> \<not> is_owned s p \<and> p \<noteq> ow_root r}
          \<subseteq> {p. pid_exists (su_os s') p \<and> getpgid (su_os s') p = getpgid (su_os s) p}
      \<and> map_of (su_registry s') = (map_of (su_registry s))(rid := None)"
proof -
  let ?s = "terminate_tree rid s"
  note exact = terminate_tree_exact [OF assms]
  have kept: "getpgid (kill_procs dead os) p = getpgid os p" if "\<not> dead p" for dead os p
    using that unfolding getpgid_def kill_procs_def by (induction os) auto
  have after: "su_os ?s = sweep_root r (kill_group r (su_os s))" and reg: "su_registry ?s = AList.delete rid (su_registry s)"
    using assms(1) by (simp_all add: terminate_tree_def)
  have same: "getpgid (su_os ?s) p = getpgid (su_os s) p" if "pid_exists (su_os ?s) p" for p
  proof -
    have g: "pid_exists (kill_group r (su_os s)) p" using that unfolding after sweep_root_def by (auto simp: pid_exists_kill split: if_splits)
    have "getpgid (sweep_root r os) p = getpgid os p" if "pid_exists (sweep_root r os) p" for os
      using that kept unfolding sweep_root_def by (auto simp: pid_exists_kill split: if_splits)
    moreover have "getpgid (kill_group r (su_os s)) p = getpgid (su_os s) p"
      using g kept unfolding kill_group_def by (auto simp: pid_exists_kill split: if_splits)
    ultimately show ?thesis using that unfolding after by simp
  qed
  have root: "\<not> pid_exists (su_os ?s) (ow_root r)"
    using exact [of "ow_root r"] assms(3) by (auto split: if_splits)
  have "(if leader r then {p. (p = ow_root r \<or> (ow_root r, p) \<in> (parent_of (su_os s))\<^sup>+) \<and> getpgid (su_os s) p = Some (ow_pgid r)}
         else if pid_exists (su_os s) (ow_root r) then {p. p = ow_root r \<or> (ow_root r, p) \<in> (parent_of (su_os s))\<^sup>+} else {ow_root r})
      \<subseteq> {p. \<not> pid_exists (su_os ?s) p}"
    using exact root by auto
  moreover have "{p. pid_exists (su_os s) p \<and> p \<notin> {p. p = ow_root r \<or> (ow_root r, p) \<in> (parent_of (su_os s))\<^sup>+} \<and>
        \<not> (leader r \<and> getpgid (su_os s) p = Some (ow_pgid r))}
      \<subseteq> {p. pid_exists (su_os ?s) p \<and> getpgid (su_os ?s) p = getpgid (su_os s) p}"
    using exact same by auto
  moreover have "{p. p > 0 \<and> pid_exists (su_os s) p \<and> \<not> is_owned s p \<and> p \<noteq> ow_root r}
      \<subseteq> {p. pid_exists (su_os ?s) p \<and> getpgid (su_os ?s) p = getpgid (su_os s) p}"
    using exact same by blast
  moreover have "map_of (su_registry ?s) = (map_of (su_registry s))(rid := None)" unfolding reg by (rule delete_conv')
  ultimately show ?thesis unfolding Let_def mem_Collect_eq using root by (intro conjI)
qed

section \<open>What escapes\<close>

definition sample_root :: owned_root where
  "sample_root = \<lparr>ow_pgid = 10, ow_root = 10, ow_argv = [''app''], ow_scope = Some ''isolated''\<rparr>"

text \<open>Process 11 is a child in the group of the root; its child 12 has moved to a group of its own.\<close>

definition sample_sup :: sup_state where
  "sample_sup = \<lparr>su_os = [\<lparr>os_pid = 10, os_ppid = 2, os_pgid = 10\<rparr>, \<lparr>os_pid = 11, os_ppid = 10, os_pgid = 10\<rparr>,
       \<lparr>os_pid = 12, os_ppid = 11, os_pgid = 12\<rparr>, \<lparr>os_pid = 7, os_ppid = 1, os_pgid = 7\<rparr>],
     su_registry = [(''a'', sample_root)], su_envs = []\<rparr>"

theorem tree_is_gone_and_others_live_witness:
  "\<not> pid_exists (su_os (terminate_tree ''a'' sample_sup)) 11 \<and> \<not> pid_exists (su_os (terminate_tree ''a'' sample_sup)) 10
   \<and> pid_exists (su_os (terminate_tree ''a'' sample_sup)) 7"
proof -
  have a: "map_of (su_registry sample_sup) ''a'' = Some sample_root" "ow_root sample_root > 0" "leader sample_root"
    "getpgid (su_os sample_sup) 10 = Some 10" "getpgid (su_os sample_sup) 11 = Some 10" "pid_exists (su_os sample_sup) 7"
    "ow_root sample_root = 10" "ow_pgid sample_root = 10"
    by (simp_all add: sample_sup_def sample_root_def leader_def getpgid_def pid_exists_def)
  have "(10, 11) \<in> parent_of (su_os sample_sup)" by (simp add: parent_of_def sample_sup_def)
  then have child: "(10, 11) \<in> (parent_of (su_os sample_sup))\<^sup>+" by (rule r_into_trancl)
  have free: "\<not> is_owned sample_sup 7" by code_simp
  note gone = tree_is_gone_and_others_live [OF a(1, 2), unfolded Let_def]
  have lead: "leader sample_root \<Longrightarrow> pid_exists (su_os sample_sup) (ow_root sample_root) \<Longrightarrow>
    getpgid (su_os sample_sup) (ow_root sample_root) = Some (ow_pgid sample_root)" using a by simp
  have "(11::int) \<in> {p \<in> {p. p = ow_root sample_root \<or> (ow_root sample_root, p) \<in> (parent_of (su_os sample_sup))\<^sup>+}.
    getpgid (su_os sample_sup) p = Some (ow_pgid sample_root)}" using a child by simp
  then have "\<not> pid_exists (su_os (terminate_tree ''a'' sample_sup)) 11" using gone [OF lead] a(3) by (auto simp del: mem_Collect_eq)
  moreover have "\<not> pid_exists (su_os (terminate_tree ''a'' sample_sup)) 10" using gone [OF lead] a(7) by simp
  moreover have "(7::int) \<in> {p. p > 0 \<and> pid_exists (su_os sample_sup) p \<and> \<not> is_owned sample_sup p \<and> p \<noteq> ow_root sample_root}"
    using a free by simp
  then have "7 \<in> {p. pid_exists (su_os (terminate_tree ''a'' sample_sup)) p \<and>
      getpgid (su_os (terminate_tree ''a'' sample_sup)) p = getpgid (su_os sample_sup) p}"
    using gone [OF lead] by (meson subsetD)
  ultimately show ?thesis by simp
qed

text \<open>The sweep comes after the group was killed, when the remaining descendants already belong to process 1:
  a descendant with a group of its own is owned before, survives, and is owned no more.\<close>

lemma descendant_escapes:
  "is_owned sample_sup 12" "pid_exists (su_os (terminate_tree ''a'' sample_sup)) 12"
  "\<not> is_owned (terminate_tree ''a'' sample_sup) 12"
  by code_simp+

text \<open>A root that has ended is dropped from the registry with its group still running.\<close>

lemma dead_root_is_forgotten:
  assumes "s = sample_sup\<lparr>su_os := [\<lparr>os_pid = 11, os_ppid = 1, os_pgid = 10\<rparr>]\<rparr>"
  shows "is_owned s 11" "\<not> is_owned (enforce_limits use None s) 11" "pid_exists (su_os (enforce_limits use None s)) 11"
  by (simp_all add: assms sample_sup_def sample_root_def is_owned_def enforce_limits_def drop_dead_def pid_exists_def getpgid_def)

text \<open>An adopted process that did not start a group makes its whole group owned, the caller included.\<close>

lemma adoption_owns_the_group:
  assumes "adopt_owned_process p None ''browser'' s = (Inr rid, s')"
    and "getpgid (su_os s) p = Some g" "q > 0" "getpgid (su_os s) q = Some g"
  shows "is_owned s' q"
proof -
  let ?r = "\<lparr>ow_pgid = g, ow_root = p, ow_argv = [], ow_scope = None\<rparr>"
  from assms(1, 2) have s': "s' = s\<lparr>su_registry := AList.update rid ?r (su_registry s)\<rparr>"
    by (auto simp: adopt_owned_process_def Let_def split: if_splits)
  have "map_of (AList.update rid ?r (su_registry s)) rid = Some ?r" by (simp add: update_conv')
  then have "(rid, ?r) \<in> set (su_registry s')" by (auto simp: s' dest: map_of_SomeD)
  moreover have "pid_exists (su_os s) q" using assms(4) getpgid_exists [of "su_os s" q] by auto
  moreover have "su_os s' = su_os s" by (simp add: s')
  ultimately show ?thesis using assms(3, 4) unfolding is_owned_def list_ex_iff
    by (metis (mono_tags, lifting) case_prod_conv owned_root.select_convs(1))
qed

text \<open>A second spawn for one action id replaces the entry of the first, whose tree is then nobody's.\<close>

lemma same_action_replaces_root:
  assumes "spawn sys a s = (Inr (rid, p), s1)" "spawn sys' a s1 = (Inr (rid', p'), s2)" "truthy_str (sa_action a) = Some rid"
  shows "rid' = rid \<and> map_of (su_registry s2) rid = Some \<lparr>ow_pgid = p', ow_root = p', ow_argv = sa_argv a, ow_scope = Some (sa_scope a)\<rparr>"
proof -
  have "spawn_check a = None" "sa_scope a = ''isolated''" "sy_pid sys' = Some p'"
    using assms(1, 2) by (auto simp: spawn_def Let_def split: option.splits if_splits)
  with assms(2, 3) show ?thesis by (auto simp: spawn_def Let_def update_conv')
qed

text \<open>A spawn that is not isolated is refused after its process was started, and nobody owns the process.\<close>

lemma refused_spawn_runs:
  assumes "sa_argv a \<noteq> []" "sa_no_shell a" "sa_scope a \<noteq> ''isolated''" "sy_pid sys = Some p"
  shows "\<exists>why s'. spawn sys a s = (Inl why, s') \<and> pid_exists (su_os s') p \<and> su_registry s' = su_registry s"
  using assms by (auto simp: spawn_def spawn_check_def Let_def pid_exists_def)

section \<open>Environments and limits\<close>

lemma map_of_env_set [simp]: "map_of (env_set k v e) x = (if x = k then Some v else map_of e x)"
  by (simp add: env_set_def update_conv')

lemma map_of_env_drop [simp]: "map_of (env_drop k e) x = (if x = k then None else map_of e x)"
  by (simp add: env_drop_def delete_conv')

lemma get_isolated_env_facts:
  assumes "get_isolated_env environ files d [] = Some e"
  shows "map_of e ''DISPLAY'' = Some d" "map_of e ''XAUTHORITY'' = map_option fst files" "prefix '':'' d"
  using assms by (auto simp: get_isolated_env_def Let_def split: if_splits option.splits)

lemma get_isolated_env_None: "get_isolated_env environ files d [] = None \<longleftrightarrow> \<not> prefix '':'' d \<or> files = None"
  by (auto simp: get_isolated_env_def Let_def split: option.split)

lemma isolate_env_facts:
  assumes "d = (case truthy_str display of Some x \<Rightarrow> x | None \<Rightarrow> '':99'')"
  shows "map_of (isolate_env environ files display child) ''DISPLAY'' = Some d"
    "map_of (isolate_env environ files display child) ''WAYLAND_DISPLAY'' = None"
    "map_of (isolate_env environ files display child) ''XAUTHORITY'' = (if prefix '':'' d then map_option fst files else None)"
proof -
  have "map_of (isolate_env environ files display child) ''DISPLAY'' = Some d \<and>
    map_of (isolate_env environ files display child) ''WAYLAND_DISPLAY'' = None \<and>
    map_of (isolate_env environ files display child) ''XAUTHORITY'' = (if prefix '':'' d then map_option fst files else None)"
  proof (cases "get_isolated_env environ files d []")
    case None
    then have x: "(if prefix '':'' d then map_option fst files else None) = None"
      unfolding get_isolated_env_None by auto
    show ?thesis unfolding x isolate_env_def assms [symmetric] Let_def None by simp
  next
    case (Some e)
    note f = get_isolated_env_facts [OF Some]
    from Some have "files \<noteq> None" by (metis get_isolated_env_None option.discI)
    with f show ?thesis unfolding isolate_env_def assms [symmetric] Let_def Some by auto
  qed
  then show "map_of (isolate_env environ files display child) ''DISPLAY'' = Some d"
    "map_of (isolate_env environ files display child) ''WAYLAND_DISPLAY'' = None"
    "map_of (isolate_env environ files display child) ''XAUTHORITY'' = (if prefix '':'' d then map_option fst files else None)"
    by blast+
qed

text \<open>Whatever the caller's environment and the overrides are, a child that is spawned isolated sees the
  isolated display only: its display is the given one, it has no Wayland display, and its X authority is
  the private cookie or absent.\<close>

theorem isolated_child_sees_no_real_display:
  "map_of (child_env environ files ''isolated'' display overrides) ''DISPLAY'' =
     Some (case truthy_str display of Some x \<Rightarrow> x | None \<Rightarrow> '':99'') \<and>
   map_of (child_env environ files ''isolated'' display overrides) ''WAYLAND_DISPLAY'' = None \<and>
   map_of (child_env environ files ''isolated'' display overrides) ''XAUTHORITY'' =
     (if prefix '':'' (case truthy_str display of Some x \<Rightarrow> x | None \<Rightarrow> '':99'') then map_option fst files else None)"
  unfolding child_env_def Let_def simp_thms if_True using isolate_env_facts [OF refl] by blast

lemma backstop_is_finite:
  assumes "fst fl = snd fl" "0 < snd fl" "snd fl \<le> 10 ^ 18" "snd cur = - 1 \<or> snd cur > 0"
  shows "0 < snd (backstop fl cur) \<and> snd (backstop fl cur) \<le> snd fl"
  using assms by (auto simp: backstop_def)

end
