(* ===== verification/Executor.thy ===== *)
theory Executor
  imports Supervisor_Laws
begin

text \<open>
  \<^verbatim>\<open>computer_use/action_executor.py\<close>: what executing an action does.  An action is the dictionary of its
  fields; its effects are logged in order, with the environment of every tool call.  The browser
  controller and the supervisor's spawn are parameters.  The outcome of a tool call is not part of the
  model because the code does not look at it.
\<close>

section \<open>Effects\<close>

datatype effect =
    Xdo environ "string list"
  | Launch spawn_args
  | Dom_Click pyval int
  | Dom_Type pyval int string
  | Browse string
  | Sleep rat

text \<open>A computation in the \<open>try\<close> block: its effects so far, and its value unless it raised.\<close>

type_synonym 'a act = "effect list \<times> 'a option"

definition abind :: "'a act \<Rightarrow> ('a \<Rightarrow> 'b act) \<Rightarrow> 'b act" where
  "abind m f = (case m of (w, None) \<Rightarrow> (w, None) | (w, Some x) \<Rightarrow> (case f x of (w', r) \<Rightarrow> (w @ w', r)))"

definition areturn :: "'a \<Rightarrow> 'a act" where
  "areturn x = ([], Some x)"

definition aemit :: "effect \<Rightarrow> unit act" where
  "aemit e = ([e], Some ())"

definition alift :: "'e + 'a \<Rightarrow> 'a act" where
  "alift r = ([], case r of Inl e \<Rightarrow> None | Inr x \<Rightarrow> Some x)"

definition adict :: "pyval \<Rightarrow> pydict act" where
  "adict v = ([], dict_opt (py_or v (PDict [])))"

section \<open>The executor\<close>

record browser =
  br_click :: "pyval \<Rightarrow> int \<Rightarrow> pydict option"
  br_type :: "pyval \<Rightarrow> int \<Rightarrow> string \<Rightarrow> pydict option"
  br_navigate :: "string \<Rightarrow> (pyval \<times> pyval) option"

record executor =
  xc_display :: string
  xc_timeout_ms :: int
  xc_environ :: environ
  xc_files :: private_files
  xc_browser :: "browser option"
  xc_spawn :: "spawn_args \<Rightarrow> string + int"
  xc_repr :: "pyval \<Rightarrow> string"

definition executor_display :: "string \<Rightarrow> string" where
  "executor_display d = (let disp = (if d = [] then '':99'' else d) in if prefix '':'' disp then disp else '':99'')"

definition tool_timeout :: "executor \<Rightarrow> rat" where
  "tool_timeout x = max (1 / 2) (min (of_int (xc_timeout_ms x) / 1000) 8)"

definition isolated_tool_env :: "executor \<Rightarrow> environ" where
  "isolated_tool_env x =
     (let e = (case get_isolated_env (xc_environ x) (xc_files x) (xc_display x) [] of
                 Some e \<Rightarrow> e | None \<Rightarrow> [(''DISPLAY'', xc_display x), (''AGY_ISOLATED_X'', ''1'')])
      in env_drop ''WAYLAND_DISPLAY'' (env_set ''DISPLAY'' (xc_display x) e))"

definition real_tool_env :: "executor \<Rightarrow> environ" where
  "real_tool_env x =
     (let e = filter (\<lambda>(k, v). k \<noteq> ''WAYLAND_DISPLAY'' \<and> \<not> prefix ''AGY_ISOLATED'' k) (xc_environ x);
          d = (case truthy_str (map_of e ''DISPLAY'') of Some v \<Rightarrow> v | None \<Rightarrow> '':0'');
          e1 = env_set ''DISPLAY'' (if prefix '':'' d then d else '':0'') e;
          xa = (case map_of e1 ''XAUTHORITY'' of Some v \<Rightarrow> v | None \<Rightarrow> [])
      in env_drop ''AGY_ISOLATED_X''
           (if py_in ''agu-'' xa \<or> py_in ''AGY_ISOLATED'' xa then env_drop ''XAUTHORITY'' e1 else e1))"

definition verify_clearance :: "(pyval \<Rightarrow> string) \<Rightarrow> pydict \<Rightarrow> bool" where
  "verify_clearance rp a = (truthy (dget a ''clearance_token'') \<and> py_strip (py_str rp (dget a ''clearance_token'')) \<noteq> [])"

section \<open>The branches\<close>

datatype branch_end = Browser_Closed | Ended bool "pydict option" "int list" "string list option"

definition tagged :: "(pyval \<Rightarrow> string) \<Rightarrow> string \<Rightarrow> pyval \<Rightarrow> string list" where
  "tagged rp tag v = (if truthy v then [tag @ py_str rp v] else [])"

definition some_list :: "'a list \<Rightarrow> 'a list option" where
  "some_list xs = (if xs = [] then None else Some xs)"

definition dom_end :: "int \<Rightarrow> pydict option \<Rightarrow> (pydict \<Rightarrow> string list) \<Rightarrow> branch_end act" where
  "dom_end index out artifacts = (case out of
       None \<Rightarrow> ([], None)
     | Some d \<Rightarrow>
         if truthy (dget d ''ok'')
         then abind (alift (to_int (dget_or d ''index'' (PInt index)))) (\<lambda>i.
           areturn (Ended True (Some [(''index'', PInt i)]) [] (some_list (artifacts d))))
         else if dget d ''error_code'' = PStr ''browser_not_open'' then areturn Browser_Closed
         else areturn (Ended False None [] None))"

definition click_dom :: "executor \<Rightarrow> browser \<Rightarrow> pydict \<Rightarrow> branch_end act" where
  "click_dom x b tgt =
     abind (alift (to_int (dget_or tgt ''index'' (PInt 1)))) (\<lambda>i.
     abind (aemit (Dom_Click (dget tgt ''selector'') i)) (\<lambda>_.
     dom_end i (br_click b (dget tgt ''selector'') i) (\<lambda>d. tagged (xc_repr x) ''landed_url:'' (dget d ''landed_url'') @
       tagged (xc_repr x) ''child_page_url:'' (dget d ''child_page_url'') @
       tagged (xc_repr x) ''click_method:'' (dget d ''click_method''))))"

definition type_dom :: "executor \<Rightarrow> browser \<Rightarrow> pydict \<Rightarrow> pyval \<Rightarrow> branch_end act" where
  "type_dom x b tgt text =
     (let txt = py_str (xc_repr x) (py_or text (PStr [])) in
      abind (alift (to_int (dget_or tgt ''index'' (PInt 1)))) (\<lambda>i.
      abind (aemit (Dom_Type (dget tgt ''selector'') i txt)) (\<lambda>_.
      dom_end i (br_type b (dget tgt ''selector'') i txt) (\<lambda>d. tagged (xc_repr x) ''landed_url:'' (dget d ''landed_url'')))))"

definition coords :: "pydict \<Rightarrow> (int \<times> int) act" where
  "coords tgt = abind (alift (to_int (dget_or tgt ''x'' (PInt 0)))) (\<lambda>x.
     abind (alift (to_int (dget_or tgt ''y'' (PInt 0)))) (\<lambda>y. areturn (x, y)))"

definition xdotool :: "environ \<Rightarrow> string list \<Rightarrow> unit act" where
  "xdotool env args = aemit (Xdo env (''xdotool'' # args))"

definition at_point :: "int \<times> int \<Rightarrow> branch_end" where
  "at_point p = Ended True (Some [(''x'', PInt (fst p)), (''y'', PInt (snd p))]) [] None"

definition move_args :: "int \<times> int \<Rightarrow> string list" where
  "move_args p = [''mousemove'', show_int (fst p), show_int (snd p)]"

definition do_click :: "environ \<Rightarrow> bool \<Rightarrow> pydict \<Rightarrow> branch_end act" where
  "do_click env double tgt = abind (coords tgt) (\<lambda>p.
     abind (xdotool env (move_args p @ [''click'', ''1''])) (\<lambda>_.
     abind (if double then xdotool env [''click'', ''1''] else areturn ()) (\<lambda>_. areturn (at_point p))))"

definition do_type :: "executor \<Rightarrow> environ \<Rightarrow> pydict \<Rightarrow> pyval \<Rightarrow> branch_end act" where
  "do_type x env tgt text = abind (coords tgt) (\<lambda>p.
     let txt = py_str (xc_repr x) (py_or text (PStr [])) in
     abind (xdotool env (move_args p @ [''click'', ''1''])) (\<lambda>_.
     abind (xdotool env [''type'', ''--'', if txt = [] then '' '' else txt]) (\<lambda>_. areturn (at_point p))))"

fun join_plus :: "string list \<Rightarrow> string" where
  "join_plus [] = []"
| "join_plus [k] = k"
| "join_plus (k # l # ks) = k @ ''+'' @ join_plus (l # ks)"

definition do_hotkey :: "executor \<Rightarrow> environ \<Rightarrow> pyval \<Rightarrow> branch_end act" where
  "do_hotkey x env hotkey = abind (alift (py_iter (py_or hotkey (PList [PStr ''Return''])))) (\<lambda>ks.
     abind (xdotool env [''key'', join_plus (map (py_str (xc_repr x)) ks)]) (\<lambda>_. areturn (Ended True None [] None)))"

definition do_scroll :: "environ \<Rightarrow> pydict \<Rightarrow> pyval \<Rightarrow> branch_end act" where
  "do_scroll env tgt delta =
     (let at_tgt = (tgt \<noteq> [] \<and> dget tgt ''kind'' = PStr ''coordinate'') in
      abind (if at_tgt then abind (coords tgt) (\<lambda>p. abind (xdotool env (move_args p)) (\<lambda>_. areturn p)) else areturn (0, 0)) (\<lambda>p.
      abind (adict delta) (\<lambda>d.
      abind (alift (to_int (dget_or d ''dy'' (PInt 0)))) (\<lambda>dy.
      abind (xdotool env [''click'', if dy \<ge> 0 then ''5'' else ''4'']) (\<lambda>_.
      areturn (if at_tgt then at_point p else Ended True None [] None))))))"

definition do_drag :: "environ \<Rightarrow> pydict \<Rightarrow> pyval \<Rightarrow> branch_end act" where
  "do_drag env tgt dest = abind (coords tgt) (\<lambda>p. abind (adict dest) (\<lambda>d.
     abind (alift (to_int (dget_or d ''x'' (PInt (fst p + 10))))) (\<lambda>tx.
     abind (alift (to_int (dget_or d ''y'' (PInt (snd p + 10))))) (\<lambda>ty.
     abind (xdotool env (move_args p @ [''mousedown'', ''1''])) (\<lambda>_.
     abind (xdotool env (move_args (tx, ty))) (\<lambda>_.
     abind (xdotool env [''mouseup'', ''1'']) (\<lambda>_. areturn (at_point (tx, ty)))))))))"

definition do_wait :: "pyval \<Rightarrow> branch_end act" where
  "do_wait ms = abind (alift (to_int (py_or ms (PInt 0)))) (\<lambda>m.
     abind (aemit (Sleep (max 0 (min (of_int m / 1000) 30)))) (\<lambda>_. areturn (Ended True None [] None)))"

definition launch_args :: "string list \<Rightarrow> pyval \<Rightarrow> (pyval \<Rightarrow> string) \<Rightarrow> spawn_args" where
  "launch_args argv action_id rp = \<lparr>sa_argv = argv, sa_scope = ''isolated'', sa_no_shell = True, sa_env = [],
     sa_action = (if action_id = PNone then None else Some (py_str rp action_id)), sa_display = None\<rparr>"

definition do_spawn :: "executor \<Rightarrow> string list \<Rightarrow> pyval \<Rightarrow> branch_end act" where
  "do_spawn x argv action_id = abind (aemit (Launch (launch_args argv action_id (xc_repr x)))) (\<lambda>_.
     abind (alift (xc_spawn x (launch_args argv action_id (xc_repr x)))) (\<lambda>p. areturn (Ended True None [p] None)))"

definition do_launch :: "executor \<Rightarrow> pyval \<Rightarrow> pyval \<Rightarrow> pyval \<Rightarrow> branch_end act" where
  "do_launch x app args action_id =
     (if \<not> truthy app then areturn (Ended False None [] None)
      else abind (alift (py_iter (py_or args (PList [])))) (\<lambda>xs.
        do_spawn x (py_str (xc_repr x) app # map (py_str (xc_repr x)) xs) action_id))"

definition do_navigate :: "executor \<Rightarrow> pyval \<Rightarrow> pyval \<Rightarrow> branch_end act" where
  "do_navigate x url action_id = (case xc_browser x of
       None \<Rightarrow> do_spawn x [''true''] action_id
     | Some b \<Rightarrow>
         let u = py_str (xc_repr x) (py_or url (PStr ''about:blank'')) in
         abind (aemit (Browse u)) (\<lambda>_. abind ([], br_navigate b u) (\<lambda>(landed, p).
         abind (if truthy p then abind (alift (to_int p)) (\<lambda>i. areturn [i]) else areturn []) (\<lambda>spawned.
         abind (alift (to_int (py_or p (PInt 0)))) (\<lambda>i.
         areturn (Ended True (Some [(''browser_pid'', PInt i)]) spawned (some_list (tagged (xc_repr x) ''landed_url:'' landed))))))))"

definition run_branch :: "executor \<Rightarrow> environ \<Rightarrow> pydict \<Rightarrow> pydict \<Rightarrow> branch_end act" where
  "run_branch x env a tgt =
     (let typ = dget a ''type''; dom = dget tgt ''kind'' = PStr ''dom''; b = xc_browser x in
      if typ = PStr ''click'' \<and> dom then (case b of None \<Rightarrow> ([], None) | Some b \<Rightarrow> click_dom x b tgt)
      else if typ = PStr ''type'' \<and> dom then (case b of None \<Rightarrow> ([], None) | Some b \<Rightarrow> type_dom x b tgt (dget a ''text''))
      else if typ = PStr ''click'' then do_click env False tgt
      else if typ = PStr ''double_click'' then do_click env True tgt
      else if typ = PStr ''type'' then do_type x env tgt (dget a ''text'')
      else if typ = PStr ''hotkey'' then do_hotkey x env (dget a ''hotkey'')
      else if typ = PStr ''scroll'' then do_scroll env tgt (dget a ''scroll_delta'')
      else if typ = PStr ''drag'' then do_drag env tgt (dget a ''drag_to'')
      else if typ = PStr ''wait'' then do_wait (dget a ''wait_ms'')
      else if typ = PStr ''launch_app'' then do_launch x (dget a ''app'') (dget a ''app_args'') (dget_or a ''action_id'' (PStr ''act-d''))
      else if typ = PStr ''navigate'' then do_navigate x (dget a ''url'') (dget_or a ''action_id'' (PStr ''act-d''))
      else areturn (Ended False None [] None))"

section \<open>Executing\<close>

record action_result =
  ar_status :: string
  ar_resolved :: "pydict option"
  ar_spawned :: "int list option"
  ar_error :: "string option"
  ar_artifacts :: "string list option"

definition refuse :: "string \<Rightarrow> action_result" where
  "refuse code = \<lparr>ar_status = ''rejected'', ar_resolved = None, ar_spawned = None, ar_error = Some code, ar_artifacts = None\<rparr>"

definition result_of :: "branch_end option \<Rightarrow> action_result" where
  "result_of e = (case e of
       None \<Rightarrow> \<lparr>ar_status = ''failed'', ar_resolved = None, ar_spawned = None, ar_error = Some ''execution_failed'', ar_artifacts = None\<rparr>
     | Some Browser_Closed \<Rightarrow> refuse ''browser_not_open''
     | Some (Ended ok resolved spawned artifacts) \<Rightarrow>
         \<lparr>ar_status = (if ok then ''ok'' else ''failed''), ar_resolved = resolved, ar_spawned = some_list spawned,
          ar_error = (if ok then None else Some ''execution_failed''), ar_artifacts = artifacts\<rparr>)"

text \<open>\<open>Inl\<close> is an exception that leaves \<open>execute\<close>: a target without \<open>get\<close>, or a type that cannot be hashed.\<close>

definition execute :: "executor \<Rightarrow> pydict \<Rightarrow> effect list \<times> (pyexn + action_result)" where
  "execute x a =
     (let ds = dget a ''display_scope''; typ = dget a ''type'' in
      if ds \<noteq> PStr ''isolated'' \<and> ds \<noteq> PStr ''real_act'' then ([], Inr (refuse ''display_scope_invalid''))
      else if ds = PStr ''real_act'' \<and> \<not> verify_clearance (xc_repr x) a then ([], Inr (refuse ''clearance_token_invalid''))
      else case dict_opt (py_or (dget a ''target'') (PDict [])) of
             None \<Rightarrow> ([], Inl AttributeError)
           | Some tgt \<Rightarrow>
               let dom = (typ = PStr ''click'' \<or> typ = PStr ''type'') \<and> dget tgt ''kind'' = PStr ''dom'' in
               (case in_str_set typ spatial of
                  Inl e \<Rightarrow> ([], Inl e)
                | Inr is_spatial \<Rightarrow>
                    if is_spatial \<and> \<not> dom \<and> (tgt = [] \<or> dget tgt ''kind'' \<noteq> PStr ''coordinate'')
                    then ([], Inr (refuse ''target_missing''))
                    else if dom \<and> xc_browser x = None then ([], Inr (refuse ''browser_not_open''))
                    else let env = (if ds = PStr ''real_act'' then real_tool_env x else isolated_tool_env x);
                             r = run_branch x env a tgt
                         in (fst r, Inr (result_of (snd r)))))"

section \<open>Which environment the tools see\<close>

text \<open>Every tool call of a computation runs in the environment it was given, and a launch names no display.\<close>

fun tame :: "environ \<Rightarrow> effect \<Rightarrow> bool" where
  "tame env (Xdo env' args) = (env' = env)"
| "tame env (Launch sa) = (sa_scope sa = ''isolated'' \<and> sa_display sa = None)"
| "tame env e = True"

definition tools_in :: "environ \<Rightarrow> 'a act \<Rightarrow> bool" where
  "tools_in env m = list_all (tame env) (fst m)"

named_theorems tool_rules

lemma tools_bind [tool_rules]: "tools_in env m \<Longrightarrow> (\<And>x. tools_in env (f x)) \<Longrightarrow> tools_in env (abind m f)"
  by (auto simp: tools_in_def abind_def split: prod.split option.split) (metis fst_conv)

lemma tools_return [tool_rules]: "tools_in env (areturn x)"
  by (simp add: tools_in_def areturn_def)

lemma tools_lift [tool_rules]: "tools_in env (alift r)" "tools_in env (adict v)" "tools_in env ([], y)"
  by (simp_all add: tools_in_def alift_def adict_def)

lemma tools_xdotool [tool_rules]: "tools_in env (xdotool env args)"
  by (simp add: tools_in_def xdotool_def aemit_def)

lemma tools_emit [tool_rules]: "tame env e \<Longrightarrow> tools_in env (aemit e)"
  by (simp add: tools_in_def aemit_def)

lemma tools_if [tool_rules]: "tools_in env m \<Longrightarrow> tools_in env n \<Longrightarrow> tools_in env (if b then m else n)"
  by simp

lemma tools_dom_end [tool_rules]: "tools_in env (dom_end i out arts)"
  by (auto simp: dom_end_def split: option.split intro!: tool_rules)

lemma tools_spawn [tool_rules]: "tools_in env (do_spawn x argv i)"
  unfolding do_spawn_def by (intro tool_rules) (simp add: launch_args_def)

lemma tools_coords [tool_rules]: "tools_in env (coords tgt)"
  unfolding coords_def by (intro tool_rules)

lemma tools_branches [tool_rules]:
  "tools_in env (click_dom x b tgt)" "tools_in env (type_dom x b tgt text)" "tools_in env (do_click env d tgt)"
  "tools_in env (do_type x env tgt text)" "tools_in env (do_hotkey x env k)" "tools_in env (do_scroll env tgt delta)"
  "tools_in env (do_drag env tgt dest)" "tools_in env (do_wait ms)" "tools_in env (do_launch x app args i)"
  unfolding click_dom_def type_dom_def do_click_def do_type_def do_hotkey_def do_scroll_def do_drag_def do_wait_def do_launch_def Let_def
  by (intro tool_rules; simp)+

lemma tools_navigate [tool_rules]: "tools_in env (do_navigate x url i)"
proof (cases "xc_browser x")
  case None
  then show ?thesis unfolding do_navigate_def by (simp add: tool_rules)
next
  case (Some b)
  then show ?thesis
    unfolding do_navigate_def Let_def by (auto intro!: tool_rules)
qed

lemma tools_run_branch: "tools_in env (run_branch x env a tgt)"
  unfolding run_branch_def Let_def by (auto intro!: tool_rules split: option.split)

lemma isolated_tool_env_facts:
  "map_of (isolated_tool_env x) ''DISPLAY'' = Some (xc_display x)"
  "map_of (isolated_tool_env x) ''WAYLAND_DISPLAY'' = None"
  "map_of (isolated_tool_env x) ''XAUTHORITY'' = (if prefix '':'' (xc_display x) then map_option fst (xc_files x) else None)"
proof -
  have "map_of (isolated_tool_env x) ''XAUTHORITY'' = (if prefix '':'' (xc_display x) then map_option fst (xc_files x) else None)"
  proof (cases "get_isolated_env (xc_environ x) (xc_files x) (xc_display x) []")
    case None
    then show ?thesis
      using get_isolated_env_None [of "xc_environ x" "xc_files x" "xc_display x"] by (auto simp: isolated_tool_env_def Let_def)
  next
    case (Some e)
    from get_isolated_env_facts [OF this] show ?thesis by (simp add: isolated_tool_env_def Let_def Some)
  qed
  then show "map_of (isolated_tool_env x) ''XAUTHORITY'' = (if prefix '':'' (xc_display x) then map_option fst (xc_files x) else None)" .
qed (simp_all add: isolated_tool_env_def Let_def)

lemma executed_cases:
  assumes "execute x a = (w, r)"
  obtains (silent) "w = []"
    | (ran) tgt env where "dget a ''display_scope'' = PStr ''isolated'' \<and> env = isolated_tool_env x \<or>
        dget a ''display_scope'' = PStr ''real_act'' \<and> verify_clearance (xc_repr x) a \<and> env = real_tool_env x"
      "dict_opt (py_or (dget a ''target'') (PDict [])) = Some tgt" "w = fst (run_branch x env a tgt)"
      "r = Inr (result_of (snd (run_branch x env a tgt)))"
proof (cases "w = []")
  case False
  with assms that(2) show ?thesis by (auto simp: execute_def Let_def split: if_splits option.splits sum.splits)
qed (use that in blast)

text \<open>An action has an effect only when its scope is isolated, or when it is \<open>real_act\<close> with a clearance
  token that is not blank.  The tools of an isolated action all see the isolated display, no Wayland
  display, and the private cookie or none.\<close>

theorem effects_stay_in_scope:
  assumes "execute x a = (w, r)"
  shows "(w \<noteq> [] \<longrightarrow> dget a ''display_scope'' = PStr ''isolated'' \<or>
      dget a ''display_scope'' = PStr ''real_act'' \<and> verify_clearance (xc_repr x) a) \<and>
    (dget a ''display_scope'' = PStr ''isolated'' \<longrightarrow> list_all (\<lambda>e. case e of Xdo env args \<Rightarrow>
       map_of env ''DISPLAY'' = Some (xc_display x) \<and> map_of env ''WAYLAND_DISPLAY'' = None \<and>
       map_of env ''XAUTHORITY'' \<in> {None, map_option fst (xc_files x)} | _ \<Rightarrow> True) w)"
  using assms
proof (cases rule: executed_cases)
  case (ran tgt env)
  have t: "list_all (tame env) w" using tools_run_branch [of env x a tgt] by (simp add: tools_in_def ran(3))
  have "list_all (\<lambda>e. case e of Xdo env' args \<Rightarrow> map_of env' ''DISPLAY'' = Some (xc_display x) \<and>
       map_of env' ''WAYLAND_DISPLAY'' = None \<and> map_of env' ''XAUTHORITY'' \<in> {None, map_option fst (xc_files x)} | _ \<Rightarrow> True) w"
    if "dget a ''display_scope'' = PStr ''isolated''"
  proof -
    from that ran(1) have "env = isolated_tool_env x" by auto
    moreover have "map_of (isolated_tool_env x) ''XAUTHORITY'' \<in> {None, map_option fst (xc_files x)}"
      using isolated_tool_env_facts(3) [of x] by simp
    ultimately show ?thesis
      using t isolated_tool_env_facts(1, 2) [of x] unfolding list_all_iff by (force split: effect.split)
  qed
  with ran(1) show ?thesis by blast
qed simp

definition sample_executor :: executor where
  "sample_executor = \<lparr>xc_display = '':102'', xc_timeout_ms = 10000, xc_environ = [(''DISPLAY'', '':0''), (''XAUTHORITY'', ''/home/op/.Xauthority'')],
     xc_files = Some (''/tmp/agu-d102-a.Xauth'', ''/tmp/iso-home-a''), xc_browser = None, xc_spawn = (\<lambda>a. Inr 4), xc_repr = (\<lambda>v. [])\<rparr>"

definition sample_key :: pydict where
  "sample_key = [(''type'', PStr ''hotkey''), (''display_scope'', PStr ''isolated'')]"

theorem effects_stay_in_scope_witness:
  "\<exists>env args. fst (execute sample_executor sample_key) = [Xdo env args] \<and> map_of env ''DISPLAY'' = Some '':102''"
proof -
  obtain w r where e: "execute sample_executor sample_key = (w, r)" by force
  have l: "length (fst (execute sample_executor sample_key)) = 1" by code_simp
  have x: "case hd (fst (execute sample_executor sample_key)) of Xdo env args \<Rightarrow> True | _ \<Rightarrow> False" by code_simp
  have d: "dget sample_key ''display_scope'' = PStr ''isolated''" "xc_display sample_executor = '':102''"
    by (simp_all add: sample_key_def sample_executor_def)
  from l e obtain f where w: "w = [f]" by (auto simp: length_Suc_conv)
  with x e obtain env args where "f = Xdo env args" by (auto split: effect.splits)
  with effects_stay_in_scope [OF e] d w e show ?thesis by auto
qed

text \<open>A launched application is spawned without the executor's display, so it comes up on display 99
  whatever display the session has.\<close>

lemma launch_forgets_the_display:
  assumes "Launch sa \<in> set (fst (execute x a))"
  shows "sa_scope sa = ''isolated'' \<and> map_of (child_env environ files (sa_scope sa) (sa_display sa) (sa_env sa)) ''DISPLAY'' = Some '':99''"
proof -
  obtain w r where e: "execute x a = (w, r)" by force
  with assms have "Launch sa \<in> set w" by simp
  from e have "sa_scope sa = ''isolated'' \<and> sa_display sa = None"
  proof (cases rule: executed_cases)
    case silent
    with \<open>Launch sa \<in> set w\<close> show ?thesis by simp
  next
    case (ran tgt env)
    then have "list_all (tame env) w" using tools_run_branch [of env x a tgt] by (simp add: tools_in_def)
    with \<open>Launch sa \<in> set w\<close> show ?thesis by (auto simp: list_all_iff)
  qed
  then show ?thesis
    using isolated_child_sees_no_real_display [of environ files "sa_display sa" "sa_env sa"] by (simp add: truthy_str_def)
qed

end
