(* ===== verification/Session.thy ===== *)
theory Session
  imports Supervisor_Laws
begin

text \<open>
  \<^verbatim>\<open>computer_use/session.py\<close>: the session of a run, its confirmations and its teardown.  A message from
  outside is a confirmation token, for one intent or for any, or an operator's note.  What arrives while
  a confirmation is awaited is an argument of the wait.  The capability probe, the hash of the run id, the
  ownership resolver and the choice of a browser controller are parameters; private files, clean-up of
  the file system and event payloads are left out.
\<close>

section \<open>Requests\<close>

record run_request =
  rq_run_id :: string
  rq_mode :: "string option"
  rq_priority :: "string option"
  rq_budgets :: pydict
  rq_observe :: "string option"
  rq_policy :: "string option"
  rq_ask :: "string option"
  rq_engine :: "string option"
  rq_display :: "string option"

definition run_modes :: "string list" where
  "run_modes = [''ISOLATED'', ''OBSERVE'', ''REAL'']"

definition priorities :: "string list" where
  "priorities = [''normal'', ''high'']"

text \<open>\<open>RunRequest.__post_init__\<close>.\<close>

definition one_of :: "string option \<Rightarrow> string list \<Rightarrow> bool" where
  "one_of v xs = (case v of None \<Rightarrow> True | Some s \<Rightarrow> s \<in> set xs)"

definition check_request :: "run_request \<Rightarrow> pyexn + run_request" where
  "check_request r =
     (if \<not> one_of (rq_mode r) run_modes \<or> \<not> one_of (rq_priority r) priorities then Inl ValueError
      else if rq_mode r = Some ''REAL'' \<and>
         (\<not> one_of (rq_policy r) [''full'', ''children''] \<or> \<not> one_of (rq_ask r) [''on'', ''off'']) then Inl ValueError
      else Inr r)"

section \<open>Sessions\<close>

datatype omsg = Token_Msg string "string option" | Note_Msg string

datatype s_event =
    Probe bool
  | Baseline nat nat
  | Terminated int int
  | Wait_Started pyval
  | Confirm_Received pyval
  | Wait_Timeout pyval

record session =
  ss_run :: string
  ss_mode :: string
  ss_priority :: string
  ss_budgets :: "(string \<times> int) list"
  ss_isolated :: string
  ss_observe :: "string option"
  ss_policy :: "string option"
  ss_ask :: "string option"
  ss_engine :: string
  ss_browser_display :: string
  ss_baseline :: "int list option"
  ss_xvfb :: "string option"
  ss_sup :: sup_state
  ss_step :: int
  ss_actions :: int
  ss_pending :: "omsg list"
  ss_waits :: "(pyval \<times> string option) list"
  ss_suspended :: "pyval option"
  ss_status :: string
  ss_events :: "s_event list"

definition log_session :: "s_event \<Rightarrow> session \<Rightarrow> session" where
  "log_session e s = s\<lparr>ss_events := ss_events s @ [e]\<rparr>"

definition default_budgets :: "(string \<times> int) list" where
  "default_budgets = [(''max_steps'', 200), (''max_actions'', 200), (''action_timeout_ms'', 10000),
     (''reasoning_timeout_ms'', 45000), (''confirmation_wait_timeout_ms'', 300000), (''max_cpu_percent'', 200),
     (''max_rss_mb'', 2048), (''max_processes'', 64)]"

definition merge_budgets :: "pydict \<Rightarrow> (string \<times> int) list" where
  "merge_budgets d = foldl (\<lambda>b (k, v). if map_of b k = None then b
       else case num_opt v of None \<Rightarrow> b | Some q \<Rightarrow> AList.update k (trunc q) b) default_budgets d"

definition pick_display :: "(string \<Rightarrow> int) \<Rightarrow> string \<Rightarrow> string" where
  "pick_display hash run = '':'' @ show_int (99 + \<bar>hash run\<bar> mod 8)"

text \<open>\<open>sorted(int(p) for p in bp if ...)\<close>; an exception makes it empty.\<close>

definition baseline_pids :: "pyval list option \<Rightarrow> int list" where
  "baseline_pids found = (case found of None \<Rightarrow> []
     | Some ps \<Rightarrow>
         let vals = map to_int (filter (\<lambda>p. int_opt p \<noteq> None \<or> str_opt p \<noteq> None) ps) in
         if list_ex (\<lambda>r. case r of Inl e \<Rightarrow> True | Inr i \<Rightarrow> False) vals then []
         else sort (List.map_filter (\<lambda>r. case r of Inr i \<Rightarrow> if i > 0 then Some i else None | Inl e \<Rightarrow> None) vals))"

text \<open>What surrounds a session: the hash, whether actions can be executed, the resolver's baseline (pids and
  number of windows), and the system that spawns the display.\<close>

record surround =
  sr_hash :: "string \<Rightarrow> int"
  sr_action_exec :: bool
  sr_baseline :: "(pyval list \<times> nat) option"
  sr_sys :: spawn_sys

type_synonym controller = "(string \<times> session) list"

definition session_mode :: "run_request \<Rightarrow> string" where
  "session_mode r = (let m = py_upper (env_or (rq_mode r) ''ISOLATED'') in if m \<in> set run_modes then m else ''ISOLATED'')"

definition session_ask :: "string \<Rightarrow> run_request \<Rightarrow> string option" where
  "session_ask mode r = (let a = map_option py_lower (rq_ask r) in
     if mode = ''REAL'' \<and> truthy_str a = None then Some ''on'' else a)"

definition new_session :: "surround \<Rightarrow> run_request \<Rightarrow> sup_state \<Rightarrow> session" where
  "new_session sr r sv =
     (let mode = session_mode r;
          prio = py_lower (env_or (rq_priority r) ''normal'');
          iso_disp = pick_display (sr_hash sr) (rq_run_id r);
          obs = (case truthy_str (rq_observe r) of Some d \<Rightarrow> Some d | None \<Rightarrow> if mode = ''OBSERVE'' then Some '':0'' else None);
          base = (if mode = ''REAL'' \<and> sr_action_exec sr then Some (baseline_pids (map_option fst (sr_baseline sr))) else None);
          wins = (case sr_baseline sr of None \<Rightarrow> 0 | Some (ps, n) \<Rightarrow> n);
          (xvfb, sv') = (if \<not> sr_action_exec sr then (None, sv)
             else case spawn_isolated_display (sr_sys sr) iso_disp ''1024x768x24'' (Some ''Xvfb'') sv of
                    (Inr (rid, p), s') \<Rightarrow> (Some rid, s') | (Inl why, s') \<Rightarrow> (None, s'))
      in \<lparr>ss_run = rq_run_id r, ss_mode = mode,
          ss_priority = (if prio \<in> set priorities then prio else ''normal''),
          ss_budgets = merge_budgets (rq_budgets r), ss_isolated = iso_disp, ss_observe = obs,
          ss_policy = map_option py_lower (rq_policy r), ss_ask = session_ask mode r,
          ss_engine = env_or (rq_engine r) ''bing'',
          ss_browser_display = (case truthy_str (rq_display r) of Some d \<Rightarrow> d | None \<Rightarrow> if mode = ''REAL'' then '':0'' else iso_disp),
          ss_baseline = base, ss_xvfb = xvfb, ss_sup = sv', ss_step = 0, ss_actions = 0, ss_pending = [], ss_waits = [],
          ss_suspended = None, ss_status = ''active'',
          ss_events = Probe (xvfb \<noteq> None) # (case base of None \<Rightarrow> [] | Some ps \<Rightarrow> [Baseline (length ps) wins])\<rparr>)"

definition create_session :: "surround \<Rightarrow> run_request \<Rightarrow> sup_state \<Rightarrow> controller \<Rightarrow> pyexn + session \<times> controller" where
  "create_session sr r sv ctl = ebind (check_request r) (\<lambda>r.
     let s = new_session sr r sv in Inr (s, AList.update (ss_run s) s ctl))"

section \<open>Teardown\<close>

text \<open>The display first, then the browser (closing it is a function on the supervisor), then every root left.\<close>

definition teardown :: "(sup_state \<Rightarrow> sup_state) \<Rightarrow> session \<Rightarrow> session" where
  "teardown close_browser s =
     (let sup1 = (case truthy_str (ss_xvfb s) of None \<Rightarrow> ss_sup s | Some rid \<Rightarrow> terminate_tree rid (ss_sup s));
          sup2 = close_browser sup1;
          sup3 = foldl (\<lambda>u rid. terminate_tree rid u) sup2 (map fst (roots sup2))
      in log_session (Terminated (ss_step s) (ss_actions s)) (s\<lparr>ss_sup := sup3, ss_status := ''closed''\<rparr>))"

definition close_session :: "(sup_state \<Rightarrow> sup_state) \<Rightarrow> string \<Rightarrow> controller \<Rightarrow> session option \<times> controller" where
  "close_session close_browser run ctl = (case map_of ctl run of
       None \<Rightarrow> (None, ctl)
     | Some s \<Rightarrow> (Some (teardown close_browser s), AList.delete run ctl))"

section \<open>Confirmations\<close>

definition token_of :: "omsg \<Rightarrow> string option" where
  "token_of m = (case m of Token_Msg t i \<Rightarrow> truthy_str (Some t) | Note_Msg t \<Rightarrow> None)"

text \<open>A message confirms an intent when it names it or names none, or when the intent has an empty id.\<close>

definition confirms :: "pyval \<Rightarrow> omsg \<Rightarrow> bool" where
  "confirms iid m = (case m of
       Note_Msg t \<Rightarrow> False
     | Token_Msg t i \<Rightarrow> t \<noteq> [] \<and> (case truthy_str i of None \<Rightarrow> True | Some x \<Rightarrow> iid = PStr x \<or> \<not> truthy iid))"

definition inject :: "omsg \<Rightarrow> session \<Rightarrow> session" where
  "inject m s = (case m of
       Note_Msg t \<Rightarrow> s
     | Token_Msg t i \<Rightarrow>
         if t = [] then s
         else let hit = (\<lambda>k. case truthy_str i of None \<Rightarrow> True | Some x \<Rightarrow> k = PStr x) in
           s\<lparr>ss_waits := map (\<lambda>(k, v). if hit k then (k, Some t) else (k, v)) (ss_waits s),
             ss_events := ss_events s @ map (\<lambda>(k, v). Confirm_Received k) (filter (\<lambda>(k, v). hit k) (ss_waits s))\<rparr>)"

definition enqueue :: "omsg \<Rightarrow> session \<Rightarrow> session" where
  "enqueue m s = inject m (s\<lparr>ss_pending := ss_pending s @ [m]\<rparr>)"

fun drain :: "pyval \<Rightarrow> omsg list \<Rightarrow> string option \<times> omsg list" where
  "drain iid [] = (None, [])"
| "drain iid (m # ms) = (if confirms iid m then (token_of m, ms)
     else case drain iid ms of (t, rest) \<Rightarrow> (t, m # rest))"

datatype confirmation = Accepted string | Timed_Out | No_Session

definition start_wait :: "pyval \<Rightarrow> session \<Rightarrow> session" where
  "start_wait iid s = log_session (Wait_Started iid)
     (s\<lparr>ss_waits := AList.update iid None (ss_waits s), ss_suspended := Some iid\<rparr>)"

definition end_wait :: "pyval \<Rightarrow> session \<Rightarrow> session" where
  "end_wait iid s = s\<lparr>ss_waits := AList.delete iid (ss_waits s), ss_suspended := None\<rparr>"

text \<open>A wait for an intent: a token that is already there, or else what arrives before the timeout.  An id
  that cannot be a dictionary key raises.\<close>

definition await_confirmation :: "pyval \<Rightarrow> omsg list \<Rightarrow> session \<Rightarrow> pyexn + confirmation \<times> session" where
  "await_confirmation iid arrivals s =
     (if (case iid of PList _ \<Rightarrow> True | PDict _ \<Rightarrow> True | _ \<Rightarrow> False) then Inl TypeError
      else let s1 = start_wait iid s in
        case drain iid (ss_pending s1) of
          (Some t, rest) \<Rightarrow> Inr (Accepted t, end_wait iid (log_session (Confirm_Received iid) (s1\<lparr>ss_pending := rest\<rparr>)))
        | (None, _) \<Rightarrow>
            let s2 = foldl (\<lambda>s m. enqueue m s) s1 arrivals in
            (case map_of (ss_waits s2) iid of
               Some (Some t) \<Rightarrow> Inr (Accepted t, (end_wait iid s2)\<lparr>ss_pending := snd (drain iid (ss_pending s2))\<rparr>)
             | _ \<Rightarrow> Inr (Timed_Out, log_session (Wait_Timeout iid) (end_wait iid s2))))"

section \<open>What a confirmation is worth\<close>

lemma drain_Some: "drain iid ms = (Some t, rest) \<Longrightarrow>
    \<exists>xs m ys. ms = xs @ m # ys \<and> rest = xs @ ys \<and> confirms iid m \<and> token_of m = Some t"
proof (induction ms arbitrary: t rest)
  case (Cons m ms)
  show ?case
  proof (cases "confirms iid m")
    case True
    with Cons.prems show ?thesis by (intro exI [of _ "[]"] exI [of _ m] exI [of _ ms]) simp
  next
    case False
    obtain u r where d: "drain iid ms = (u, r)" by force
    with Cons.prems False have "u = Some t" "rest = m # r" by auto
    with Cons.IH [of t r] d obtain xs n ys where "ms = xs @ n # ys" "r = xs @ ys" "confirms iid n" "token_of n = Some t" by blast
    with \<open>rest = m # r\<close> show ?thesis by (intro exI [of _ "m # xs"] exI [of _ n] exI [of _ ys]) simp
  qed
qed simp

lemma confirms_token: "confirms iid m \<Longrightarrow> \<exists>t. token_of m = Some t"
  by (auto simp: confirms_def token_of_def truthy_str_def split: omsg.splits)

lemma drain_None: "fst (drain iid ms) = None \<longleftrightarrow> \<not> list_ex (confirms iid) ms"
  by (induction ms) (auto simp: split_beta dest: confirms_token)

lemma enqueue_pending [simp]: "ss_pending (enqueue m s) = ss_pending s @ [m]"
  by (simp add: enqueue_def inject_def Let_def split: omsg.split)

lemma enqueue_all_pending [simp]: "ss_pending (foldl (\<lambda>s m. enqueue m s) s ms) = ss_pending s @ ms"
  by (induction ms arbitrary: s) simp_all

lemma map_of_hit: "map_of (map (\<lambda>(k, v). if P k then (k, w) else (k, v)) xs) x =
    (if P x \<and> map_of xs x \<noteq> None then Some w else map_of xs x)"
  by (induction xs) (auto split: if_splits prod.splits)

text \<open>The token a waiter finds is that of a message that confirms its intent.\<close>

lemma enqueue_wait:
  assumes "truthy iid" "map_of (ss_waits s) iid \<noteq> None"
  shows "map_of (ss_waits (enqueue m s)) iid = (if confirms iid m then Some (token_of m) else map_of (ss_waits s) iid)"
  using assms
  by (auto simp: enqueue_def inject_def confirms_def token_of_def truthy_str_def Let_def map_of_hit
      split: omsg.split option.split)

lemma enqueue_all_wait:
  assumes "truthy iid" "map_of (ss_waits s) iid = Some None"
  shows "(\<exists>t. map_of (ss_waits (foldl (\<lambda>s m. enqueue m s) s ms)) iid = Some (Some t) \<and> list_ex (\<lambda>m. confirms iid m \<and> token_of m = Some t) ms)
      \<or> map_of (ss_waits (foldl (\<lambda>s m. enqueue m s) s ms)) iid = Some None \<and> \<not> list_ex (confirms iid) ms"
proof (induction ms rule: rev_induct)
  case (snoc m ms)
  let ?s = "foldl (\<lambda>s m. enqueue m s) s ms"
  from snoc have "map_of (ss_waits ?s) iid \<noteq> None" by auto
  from enqueue_wait [OF assms(1) this, of m] snoc confirms_token [of iid m] show ?case
    by (cases "confirms iid m") auto
qed (use assms in simp)

lemma start_wait_facts: "map_of (ss_waits (start_wait iid s)) iid = Some None" "ss_pending (start_wait iid s) = ss_pending s"
  by (simp_all add: start_wait_def log_session_def update_conv')

text \<open>What any wait does: an accepted one uses up one confirming message, another none.\<close>

lemma enqueue_wait_changes:
  "map_of (ss_waits (enqueue m s)) iid \<noteq> map_of (ss_waits s) iid \<Longrightarrow> confirms iid m"
  by (auto simp: enqueue_def inject_def confirms_def truthy_str_def Let_def map_of_hit split: omsg.splits option.splits if_splits)

lemma enqueue_all_wait_changes:
  "map_of (ss_waits (foldl (\<lambda>s m. enqueue m s) s ms)) iid \<noteq> map_of (ss_waits s) iid \<Longrightarrow> list_ex (confirms iid) ms"
proof (induction ms rule: rev_induct)
  case (snoc m ms)
  let ?s = "foldl (\<lambda>s m. enqueue m s) s ms"
  from snoc.prems have "map_of (ss_waits ?s) iid \<noteq> map_of (ss_waits s) iid \<or> map_of (ss_waits (enqueue m ?s)) iid \<noteq> map_of (ss_waits ?s) iid"
    by auto
  with snoc.IH enqueue_wait_changes [of m ?s iid] have "list_ex (confirms iid) ms \<or> confirms iid m" by blast
  then show ?case by auto
qed simp

lemma await_cases:
  assumes "await_confirmation iid arrivals s = Inr (c, s')"
  obtains (early) t rest where "drain iid (ss_pending s) = (Some t, rest)" "c = Accepted t"
      "s' = end_wait iid (log_session (Confirm_Received iid) ((start_wait iid s)\<lparr>ss_pending := rest\<rparr>))"
    | (woken) t w where "w = foldl (\<lambda>s m. enqueue m s) (start_wait iid s) arrivals" "map_of (ss_waits w) iid = Some (Some t)"
      "c = Accepted t" "s' = (end_wait iid w)\<lparr>ss_pending := snd (drain iid (ss_pending w))\<rparr>"
    | (late) w where "w = foldl (\<lambda>s m. enqueue m s) (start_wait iid s) arrivals" "c = Timed_Out"
      "s' = log_session (Wait_Timeout iid) (end_wait iid w)"
proof (cases "drain iid (ss_pending s)")
  case (Pair r rest)
  let ?w = "foldl (\<lambda>s m. enqueue m s) (start_wait iid s) arrivals"
  from assms have h: "\<not> (case iid of PList _ \<Rightarrow> True | PDict _ \<Rightarrow> True | _ \<Rightarrow> False)"
    by (auto simp: await_confirmation_def)
  show ?thesis
  proof (cases r)
    case (Some t)
    with assms h Pair show ?thesis by (intro early) (auto simp: await_confirmation_def Let_def start_wait_facts)
  next
    case None
    show ?thesis
    proof (cases "map_of (ss_waits ?w) iid")
      case (Some v)
      with assms h Pair None woken [OF refl] late [OF refl] show ?thesis
        by (cases v) (simp_all add: await_confirmation_def Let_def start_wait_facts)
    next
      case w: None
      with assms h Pair None late [OF refl] show ?thesis
        by (simp add: await_confirmation_def Let_def start_wait_facts)
    qed
  qed
qed

lemma await_uses_messages:
  assumes "await_confirmation iid arrivals s = Inr (c, s')"
  shows "(\<exists>t. c = Accepted t) \<and> (\<exists>xs m ys. confirms iid m \<and> ss_pending s' = xs @ ys \<and>
       (ss_pending s = xs @ m # ys \<or> ss_pending s @ arrivals = xs @ m # ys)) \<or>
    c = Timed_Out \<and> ss_pending s' = ss_pending s @ arrivals"
  using assms
proof (cases rule: await_cases)
  case (early t rest)
  with drain_Some [OF early(1)] show ?thesis by (auto simp: end_wait_def log_session_def)
next
  case (woken t w)
  then have "list_ex (confirms iid) arrivals"
    using enqueue_all_wait_changes [where s = "start_wait iid s" and ms = arrivals and iid = iid] start_wait_facts(1) by simp
  then have "fst (drain iid (ss_pending s @ arrivals)) \<noteq> None" by (simp add: drain_None)
  then obtain u r where dr: "drain iid (ss_pending s @ arrivals) = (Some u, r)" by (metis prod.collapse option.exhaust)
  with woken have "ss_pending s' = r" by (simp add: start_wait_facts)
  with drain_Some [OF dr] woken(3) show ?thesis by blast
next
  case (late w)
  then show ?thesis by (simp add: end_wait_def log_session_def start_wait_facts)
qed

definition frame :: "session \<Rightarrow> session \<Rightarrow> bool" where
  "frame s s' = (ss_budgets s' = ss_budgets s \<and> ss_isolated s' = ss_isolated s \<and> ss_actions s' = ss_actions s \<and> ss_step s' = ss_step s \<and>
     ss_xvfb s' = ss_xvfb s)"

lemma frame_refl [simp]: "frame s s"
  and frame_trans: "frame s t \<Longrightarrow> frame t u \<Longrightarrow> frame s u"
  by (simp_all add: frame_def)

lemma frame_enqueue: "frame s (enqueue m s)"
  by (simp add: frame_def enqueue_def inject_def Let_def split: omsg.split)

lemma frame_enqueue_all: "frame s (foldl (\<lambda>s m. enqueue m s) s ms)"
  by (induction ms arbitrary: s) (auto intro: frame_trans frame_enqueue)

lemma frame_waits: "frame s (start_wait iid s)" "frame s (end_wait iid s)" "frame s (log_session e s)" "frame s (s\<lparr>ss_pending := ms\<rparr>)"
  by (simp_all add: frame_def start_wait_def end_wait_def log_session_def)

lemma frame_await:
  assumes "await_confirmation iid arrivals s = Inr (c, s')"
  shows "frame s s'"
proof -
  have w: "frame s (foldl (\<lambda>s m. enqueue m s) (start_wait iid s) arrivals)"
    by (rule frame_trans [OF frame_waits(1) frame_enqueue_all])
  from assms show ?thesis
  proof (cases rule: await_cases)
    case (early t rest)
    then show ?thesis by (simp add: frame_def start_wait_def end_wait_def log_session_def)
  next
    case (woken t w)
    with w show ?thesis by (simp add: frame_def end_wait_def)
  next
    case (late w)
    with w show ?thesis by (simp add: frame_def end_wait_def log_session_def)
  qed
qed

text \<open>A confirmation of an intent is one message from outside: a wait is accepted exactly when a pending or
  arriving message confirms the intent, with the token of such a message, and it uses up exactly one of
  them; otherwise it times out and uses up none.\<close>

theorem confirmation_is_one_message:
  assumes "await_confirmation iid arrivals s = Inr (c, s')" "truthy iid"
  shows "(c = Timed_Out \<longleftrightarrow> \<not> list_ex (confirms iid) (ss_pending s @ arrivals)) \<and>
    (c = Timed_Out \<longrightarrow> ss_pending s' = ss_pending s @ arrivals) \<and>
    (\<forall>t. c = Accepted t \<longrightarrow>
       list_ex (\<lambda>m. confirms iid m \<and> token_of m = Some t) (ss_pending s @ arrivals) \<and>
       (\<exists>xs m ys. confirms iid m \<and> ss_pending s' = xs @ ys \<and>
          (ss_pending s = xs @ m # ys \<or> ss_pending s @ arrivals = xs @ m # ys)))"
proof (cases "fst (drain iid (ss_pending s))")
  case (Some t)
  obtain rest where d: "drain iid (ss_pending s) = (Some t, rest)" using Some by (metis prod.collapse)
  from drain_Some [OF this] obtain xs m ys where m: "ss_pending s = xs @ m # ys" "rest = xs @ ys" "confirms iid m" "token_of m = Some t"
    by blast
  from assms(1) d have "c = Accepted t" "ss_pending s' = rest"
    by (auto simp: await_confirmation_def Let_def start_wait_facts end_wait_def log_session_def split: if_splits)
  with m show ?thesis by (auto 4 3)
next
  case None
  let ?s = "foldl (\<lambda>s m. enqueue m s) (start_wait iid s) arrivals"
  obtain rest where d: "drain iid (ss_pending s) = (None, rest)" using None by (metis prod.collapse)
  from None have no: "\<not> list_ex (confirms iid) (ss_pending s)" by (simp add: drain_None)
  have w: "(\<exists>t. map_of (ss_waits ?s) iid = Some (Some t) \<and> list_ex (\<lambda>m. confirms iid m \<and> token_of m = Some t) arrivals)
      \<or> map_of (ss_waits ?s) iid = Some None \<and> \<not> list_ex (confirms iid) arrivals"
    using enqueue_all_wait [OF assms(2) start_wait_facts(1)] .
  show ?thesis
  proof (cases "list_ex (confirms iid) arrivals")
    case True
    with w obtain t where t: "map_of (ss_waits ?s) iid = Some (Some t)" "list_ex (\<lambda>m. confirms iid m \<and> token_of m = Some t) arrivals" by blast
    let ?p = "ss_pending s @ arrivals"
    have "fst (drain iid ?p) \<noteq> None" using True by (simp add: drain_None)
    then obtain u r where dr: "drain iid ?p = (Some u, r)" by (metis prod.collapse option.exhaust)
    from drain_Some [OF this] obtain xs m ys where m: "?p = xs @ m # ys" "r = xs @ ys" "confirms iid m" by blast
    from assms(1) d t dr have "c = Accepted t" "ss_pending s' = r"
      by (auto simp: await_confirmation_def Let_def start_wait_facts split: if_splits)
    have ex: "list_ex (\<lambda>m. confirms iid m \<and> token_of m = Some t) ?p" "list_ex (confirms iid) ?p" using t True by simp_all
    have "\<exists>xs m ys. confirms iid m \<and> ss_pending s' = xs @ ys \<and> (ss_pending s = xs @ m # ys \<or> ?p = xs @ m # ys)"
      using m \<open>ss_pending s' = r\<close> by blast
    with ex \<open>c = Accepted t\<close> show ?thesis by simp
  next
    case False
    with w have "map_of (ss_waits ?s) iid = Some None" by (auto simp: list_ex_iff)
    with assms(1) d have "c = Timed_Out" "ss_pending s' = ss_pending s @ arrivals"
      by (auto simp: await_confirmation_def Let_def start_wait_facts end_wait_def log_session_def split: if_splits)
    with False no show ?thesis by auto
  qed
qed

definition sample_surround :: surround where
  "sample_surround = \<lparr>sr_hash = (\<lambda>s. 3), sr_action_exec = True, sr_baseline = Some ([PInt 7, PInt 3], 1),
     sr_sys = \<lparr>sy_caller = 2, sy_environ = [(''DISPLAY'', '':0'')], sy_files = Some (''/tmp/a.Xauth'', ''/tmp/iso-home-a''), sy_pid = Some 40\<rparr>\<rparr>"

definition sample_request :: run_request where
  "sample_request = \<lparr>rq_run_id = ''r1'', rq_mode = Some ''REAL'', rq_priority = None, rq_budgets = [(''max_steps'', PInt 5)],
     rq_observe = None, rq_policy = Some ''full'', rq_ask = None, rq_engine = None, rq_display = None\<rparr>"

definition sample_session :: session where
  "sample_session = new_session sample_surround sample_request sample_sup"

lemma sample_session_waits: "ss_pending sample_session = []"
  by (simp add: sample_session_def new_session_def Let_def split_beta)

text \<open>A token for another intent and a note do not confirm; the next message does.\<close>

definition sample_arrivals :: "omsg list" where
  "sample_arrivals = [Token_Msg ''ok'' (Some ''i-8''), Note_Msg ''wait'', Token_Msg ''yes'' (Some ''i-7'')]"

theorem confirmation_is_one_message_witness:
  "\<exists>s'. await_confirmation (PStr ''i-7'') sample_arrivals sample_session = Inr (Accepted ''yes'', s') \<and> length (ss_pending s') = 2"
proof -
  obtain c s' where r: "await_confirmation (PStr ''i-7'') sample_arrivals sample_session = Inr (c, s')"
  proof -
    have "\<exists>x. await_confirmation (PStr ''i-7'') sample_arrivals sample_session = Inr x"
      by (simp add: await_confirmation_def Let_def split: prod.split option.split)
    then show thesis using that by force
  qed
  have i: "truthy (PStr ''i-7'')" by code_simp
  have e: "list_ex (confirms (PStr ''i-7'')) sample_arrivals" by code_simp
  from confirmation_is_one_message [OF r i] e sample_session_waits have "c \<noteq> Timed_Out" by simp
  moreover have "c \<noteq> No_Session" using r by (auto simp: await_confirmation_def Let_def split: prod.splits option.splits if_splits)
  ultimately obtain t where c: "c = Accepted t" by (cases c) auto
  with confirmation_is_one_message [OF r i] sample_session_waits
  have t: "list_ex (\<lambda>m. confirms (PStr ''i-7'') m \<and> token_of m = Some t) sample_arrivals"
    and l: "\<exists>xs m ys. ss_pending s' = xs @ ys \<and> sample_arrivals = xs @ m # ys" by auto
  from t have "t = ''yes''" by (simp add: sample_arrivals_def confirms_def token_of_def truthy_str_def)
  moreover from l obtain xs m ys where "ss_pending s' = xs @ ys" "sample_arrivals = xs @ m # ys" by blast
  then have "length (ss_pending s') = length sample_arrivals - 1" by (metis add_Suc_right diff_Suc_1 length_Cons length_append)
  ultimately show ?thesis using r c by (simp add: sample_arrivals_def)
qed

text \<open>An intent with an empty id is confirmed by a token that was given for another intent.\<close>

lemma empty_id_takes_any_token:
  "ss_pending s = [Token_Msg ''ok'' (Some ''i-7'')] \<Longrightarrow>
   \<exists>s'. await_confirmation (PStr []) [] s = Inr (Accepted ''ok'', s')"
  by (simp add: await_confirmation_def Let_def start_wait_facts confirms_def token_of_def truthy_str_def)

section \<open>Sessions begin isolated and end clean\<close>

lemma merge_keeps_keys: "dom (map_of (merge_budgets d)) = dom (map_of default_budgets)"
proof -
  have "dom (map_of (foldl (\<lambda>b (k, v). if map_of b k = None then b
       else case num_opt v of None \<Rightarrow> b | Some q \<Rightarrow> AList.update k (trunc q) b) b d)) = dom (map_of b)" for b
  proof (induction d arbitrary: b)
    case (Cons kv d)
    obtain k v where "kv = (k, v)" by force
    then show ?case using Cons.IH by (auto simp: update_conv' split: option.split)
  qed simp
  then show ?thesis by (simp add: merge_budgets_def)
qed

lemma terminate_all_registry:
  "su_registry (foldl (\<lambda>u rid. terminate_tree rid u) u rids) = filter (\<lambda>(k, v). k \<notin> set rids) (su_registry u)"
proof (induction rids arbitrary: u)
  case (Cons rid rids)
  have "su_registry (terminate_tree rid u) = filter (\<lambda>(k, v). k \<noteq> rid) (su_registry u)"
  proof (cases "map_of (su_registry u) rid")
    case None
    then have "filter (\<lambda>(k, v). k \<noteq> rid) (su_registry u) = su_registry u"
      by (force simp: filter_id_conv map_of_eq_None_iff)
    with None show ?thesis by (simp add: terminate_tree_def)
  next
    case (Some r)
    then show ?thesis by (auto simp: terminate_tree_def AList.delete_eq case_prod_beta' intro!: filter_cong)
  qed
  with Cons.IH [of "terminate_tree rid u"] show ?case by (auto intro!: filter_cong)
qed (simp add: filter_id_conv)

lemma check_request_ok:
  assumes "check_request r = Inr r'"
  shows "r' = r" "one_of (rq_mode r) run_modes" "one_of (rq_priority r) priorities"
    "rq_mode r = Some ''REAL'' \<Longrightarrow> one_of (rq_ask r) [''on'', ''off'']"
  using assms by (simp_all add: check_request_def split: if_splits)

lemma upper_modes: "py_upper ''ISOLATED'' = ''ISOLATED''" "py_upper ''OBSERVE'' = ''OBSERVE''" "py_upper ''REAL'' = ''REAL''"
  and lower_asks: "py_lower ''on'' = ''on''" "py_lower ''off'' = ''off''"
  by code_simp+

lemma session_mode_checked:
  assumes "check_request r = Inr r'"
  shows "session_mode r = (case rq_mode r of None \<Rightarrow> ''ISOLATED'' | Some m \<Rightarrow> m)"
proof (cases "rq_mode r")
  case None
  then show ?thesis by (simp add: session_mode_def env_or_def upper_modes run_modes_def)
next
  case (Some m)
  with check_request_ok (2) [OF assms] have "m = ''ISOLATED'' \<or> m = ''OBSERVE'' \<or> m = ''REAL''"
    by (simp add: one_of_def run_modes_def)
  with Some show ?thesis by (elim disjE) (simp_all add: session_mode_def env_or_def truthy_str_def upper_modes run_modes_def)
qed

lemma session_ask_checked:
  assumes "check_request r = Inr r'" "rq_mode r = Some ''REAL''"
  shows "session_ask ''REAL'' r \<in> {Some ''on'', Some ''off''}"
  using check_request_ok (4) [OF assms]
  by (cases "rq_ask r") (auto simp: one_of_def session_ask_def truthy_str_def lower_asks)

lemma new_session_fields:
  "ss_run (new_session sr r sv) = rq_run_id r" "ss_mode (new_session sr r sv) = session_mode r"
  "ss_ask (new_session sr r sv) = session_ask (session_mode r) r" "ss_budgets (new_session sr r sv) = merge_budgets (rq_budgets r)"
  by (simp_all add: new_session_def Let_def split_beta)

lemma create_session_ok:
  assumes "create_session sr r sv ctl = Inr (s, ctl')"
  shows "check_request r = Inr r" "s = new_session sr r sv" "ctl' = AList.update (ss_run s) s ctl"
  using assms by (auto simp: create_session_def check_request_def Let_def split: if_splits)

lemma teardown_empties: "su_registry (ss_sup (teardown close_browser s)) = []"
proof -
  have "filter (\<lambda>(k, v). k \<notin> fst ` set xs) xs = []" for xs :: registry
    by (force simp: filter_empty_conv)
  then show ?thesis by (simp add: teardown_def Let_def log_session_def terminate_all_registry roots_def)
qed

text \<open>A session that is created is isolated unless another mode was asked for, asks the operator by default
  when it is real, and has every budget; closing it, whatever the browser's closing did, leaves no
  process tree registered and no session behind.\<close>

theorem session_lifecycle:
  assumes "create_session sr r sv ctl = Inr (s, ctl')"
  shows "ss_mode s = (case rq_mode r of None \<Rightarrow> ''ISOLATED'' | Some m \<Rightarrow> m) \<and>
    (ss_mode s = ''REAL'' \<longrightarrow> ss_ask s \<in> {Some ''on'', Some ''off''}) \<and>
    dom (map_of (ss_budgets s)) = dom (map_of default_budgets) \<and>
    (\<exists>t. close_session close_browser (ss_run s) ctl' = (Some t, AList.delete (ss_run s) ctl') \<and>
       su_registry (ss_sup t) = [] \<and> ss_status t = ''closed'' \<and> map_of (AList.delete (ss_run s) ctl') (ss_run s) = None)"
proof -
  note ok = create_session_ok [OF assms]
  note mode = session_mode_checked [OF ok(1)]
  have "ss_ask s \<in> {Some ''on'', Some ''off''}" if "ss_mode s = ''REAL''"
    using that mode session_ask_checked [OF ok(1)] by (simp add: ok(2) new_session_fields split: option.splits)
  moreover have "close_session close_browser (ss_run s) ctl' = (Some (teardown close_browser s), AList.delete (ss_run s) ctl')"
    by (simp add: close_session_def ok(3) update_conv')
  moreover have "ss_status (teardown close_browser s) = ''closed''" by (simp add: teardown_def Let_def log_session_def)
  moreover have "map_of (AList.delete (ss_run s) ctl') (ss_run s) = None" by (simp add: delete_conv')
  moreover have "ss_mode s = (case rq_mode r of None \<Rightarrow> ''ISOLATED'' | Some m \<Rightarrow> m)" using mode ok(2) new_session_fields(2) by simp
  ultimately show ?thesis using merge_keeps_keys teardown_empties ok(2) new_session_fields(4) by metis
qed

lemma sample_created:
  "create_session sample_surround sample_request sample_sup [] = Inr (sample_session, [(''r1'', sample_session)])"
  by (simp add: create_session_def check_request_def one_of_def sample_request_def run_modes_def sample_session_def new_session_fields Let_def)

theorem session_lifecycle_witness:
  "\<exists>ctl t. create_session sample_surround sample_request sample_sup [] = Inr (sample_session, ctl) \<and>
     close_session (\<lambda>u. u) ''r1'' ctl = (Some t, []) \<and> su_registry (ss_sup t) = [] \<and> ss_ask sample_session = Some ''on''"
proof -
  note c = sample_created
  have r: "ss_run sample_session = ''r1''" by (simp add: sample_session_def new_session_fields sample_request_def)
  have "ss_ask sample_session = Some ''on''"
    using session_lifecycle [OF c] by (simp add: sample_session_def new_session_fields sample_request_def session_ask_def truthy_str_def
        session_mode_def env_or_def upper_modes run_modes_def)
  with session_lifecycle [OF c, of "\<lambda>u. u"] c r show ?thesis by auto
qed

text \<open>A second session for the same run replaces the first, whose process trees no close reaches.\<close>

lemma second_session_replaces:
  "create_session sr r sv ctl = Inr (s, ctl') \<Longrightarrow> create_session sr r sup2 ctl' = Inr (s2, ctl2) \<Longrightarrow>
   map_of ctl2 (ss_run s) = Some s2"
  using create_session_ok(2,3) new_session_fields(1) by (metis map_upd_Some_unfold update_conv')

end
