(* ===== verification/Reasoner.thy ===== *)
theory Reasoner
  imports Safety_Kernel
begin

text \<open>
  \<^verbatim>\<open>computer_use/reasoner.py\<close>: one decision of the reasoner.  The engines are asked in turn, each a bounded
  number of times; an answer is scanned for a request to log in, parsed and validated before it becomes an
  intent.  What an engine answers to an attempt, the error text it leaves, and the JSON parser are
  parameters; the text of the prompt is left out.
\<close>

section \<open>Reading an answer\<close>

definition auth_markers :: "string list" where
  "auth_markers = [''oauth'', ''sign in'', ''log in'', ''authentication'', ''login required'', ''re-authenticate'',
     ''please authenticate'', ''session expired'', ''browser to re-auth'']"

definition is_auth :: "string \<Rightarrow> bool" where
  "is_auth t = any_in auth_markers (py_lower t)"

text \<open>The bodies of the fenced blocks in order; each ends at the next fence.\<close>

lemma after_marker_shorter: "after_marker m s = Some r \<Longrightarrow> length r + length m \<le> length s"
  by (induction s) (auto split: if_splits dest: prefix_length_le)

function fenced_blocks :: "string \<Rightarrow> string list" where
  "fenced_blocks s = (case after_marker fence_mark s of
       None \<Rightarrow> []
     | Some r \<Rightarrow>
         let body = (if prefix ''json'' (py_lower r) then drop 4 r else r) in
         (case after_marker fence_mark body of
            None \<Rightarrow> []
          | Some rest \<Rightarrow> py_strip (before_marker fence_mark body) # fenced_blocks rest))"
  by pat_completeness auto

termination
proof (relation "measure length")
  fix s r body rest
  assume "after_marker fence_mark s = Some r" "body = (if prefix ''json'' (py_lower r) then drop 4 r else r)"
    "after_marker fence_mark body = Some rest"
  with after_marker_shorter [of fence_mark s r] after_marker_shorter [of fence_mark body rest]
  show "(rest, s) \<in> measure length" by (auto simp: fence_mark_def split: if_splits)
qed simp

declare fenced_blocks.simps [simp del]

text \<open>The intent of an answer: the outer option is whether the search is over.\<close>

definition intent_in :: "pyval option \<Rightarrow> pydict option option" where
  "intent_in j = (case j of
       Some (PDict d) \<Rightarrow> map_option dict_opt (map_of d ''action_intent'')
     | _ \<Rightarrow> None)"

fun first_intent :: "(string \<Rightarrow> pyval option) \<Rightarrow> string list \<Rightarrow> pydict option option" where
  "first_intent loads [] = None"
| "first_intent loads (b # bs) = (case intent_in (loads b) of Some r \<Rightarrow> Some r | None \<Rightarrow> first_intent loads bs)"

definition extract_intent :: "(string \<Rightarrow> pyval option) \<Rightarrow> string \<Rightarrow> pydict option" where
  "extract_intent loads raw =
     (if raw = [] then None
      else case first_intent loads (fenced_blocks raw) of
             Some r \<Rightarrow> r
           | None \<Rightarrow> (case intent_in (loads (py_strip raw)) of Some r \<Rightarrow> r | None \<Rightarrow> None))"

section \<open>Intents\<close>

record action_intent =
  ai_intent_id :: pyval
  ai_snapshot_id :: pyval
  ai_action :: pyval
  ai_rationale :: pyval
  ai_risk_level :: pyval
  ai_requires_confirmation :: bool
  ai_confirmation_token :: pyval
  ai_confidence :: rat

fun to_float :: "pyval \<Rightarrow> pyexn + rat" where
  "to_float (PStr s) = (case py_float s of None \<Rightarrow> Inl ValueError | Some q \<Rightarrow> Inr q)"
| "to_float v = (case num_opt v of None \<Rightarrow> Inl TypeError | Some q \<Rightarrow> Inr q)"

text \<open>\<open>ActionIntent.__post_init__\<close>.\<close>

definition check_intent :: "action_intent \<Rightarrow> pyexn + action_intent" where
  "check_intent i = ebind (in_str_set (ai_risk_level i) risk_levels) (\<lambda>known.
     if \<not> known then Inl ValueError
     else if \<not> (0 \<le> ai_confidence i \<and> ai_confidence i \<le> 1) then Inl ValueError else Inr i)"

datatype engine = Claude | Codex

definition engine_name :: "engine \<Rightarrow> string" where
  "engine_name e = (case e of Claude \<Rightarrow> ''claude'' | Codex \<Rightarrow> ''codex'')"

definition build_intent :: "engine \<Rightarrow> nat \<Rightarrow> pydict \<Rightarrow> pyexn + action_intent" where
  "build_intent e attempt d = ebind (to_float (dget_or d ''confidence'' (PFloat (1 / 2)))) (\<lambda>c. check_intent
     \<lparr>ai_intent_id = dget_or d ''intent_id'' (PStr (''i-'' @ engine_name e @ ''-'' @ show_nat attempt)),
      ai_snapshot_id = dget_or d ''snapshot_id'' (PStr ''s1''), ai_action = dget_or d ''action'' (PDict []),
      ai_rationale = dget_or d ''rationale'' (PStr []), ai_risk_level = dget_or d ''risk_level'' (PStr ''low''),
      ai_requires_confirmation = truthy (dget_or d ''requires_confirmation'' (PBool False)),
      ai_confirmation_token = dget d ''confirmation_token'', ai_confidence = c\<rparr>)"

text \<open>\<open>asdict\<close> of an intent.\<close>

definition intent_dict :: "action_intent \<Rightarrow> pydict" where
  "intent_dict i = [(''intent_id'', ai_intent_id i), (''snapshot_id'', ai_snapshot_id i), (''action'', ai_action i),
     (''rationale'', ai_rationale i), (''risk_level'', ai_risk_level i),
     (''requires_confirmation'', PBool (ai_requires_confirmation i)),
     (''confirmation_token'', ai_confirmation_token i), (''confidence'', PFloat (ai_confidence i))]"

section \<open>Asking the engines\<close>

datatype reply = Answer string | Timed_Out_Reply | Runtime_Error string | Other_Error

record asking =
  ak_claude :: bool
  ak_codex :: bool
  ak_auto_build :: bool
  ak_builds :: "engine \<Rightarrow> bool"
  ak_repair :: int
  ak_loads :: "string \<Rightarrow> pyval option"
  ak_reply :: "engine \<Rightarrow> nat \<Rightarrow> reply"
  ak_stderr :: "engine \<Rightarrow> nat \<Rightarrow> string"

datatype r_event =
    R_Timeout engine nat
  | R_Auth engine nat
  | R_Parse_Error engine nat
  | R_Schema_Error engine nat
  | R_Intent engine pyval
  | R_Kill engine
  | R_Exhausted string

definition route :: "string option \<Rightarrow> engine list" where
  "route prio = (if py_lower (env_or prio []) = ''high'' then [Claude, Codex] else [Codex, Claude])"

definition ensure_agent :: "asking \<Rightarrow> engine \<Rightarrow> bool" where
  "ensure_agent k e = ((case e of Claude \<Rightarrow> ak_claude k | Codex \<Rightarrow> ak_codex k) \<or> (ak_auto_build k \<and> ak_builds k e))"

text \<open>What a reply is worth: nothing more from this engine, or its text, empty for another error.\<close>

definition reply_text :: "reply \<Rightarrow> string option" where
  "reply_text r = (case r of
       Answer t \<Rightarrow> Some t
     | Timed_Out_Reply \<Rightarrow> None
     | Runtime_Error m \<Rightarrow> if any_in [''timeout'', ''exceeded'', ''watchdog''] (py_lower m) then None else Some []
     | Other_Error \<Rightarrow> Some [])"

definition err_text :: "string \<Rightarrow> engine \<Rightarrow> string" where
  "err_text what e = what @ '':'' @ engine_name e"

text \<open>The attempts of one engine; the last error of those that found no intent.\<close>

fun ask_engine :: "asking \<Rightarrow> engine \<Rightarrow> nat list \<Rightarrow> string option \<Rightarrow> (string option + action_intent) \<times> r_event list" where
  "ask_engine k e [] err = (Inl err, [])"
| "ask_engine k e (a # as) err = (case reply_text (ak_reply k e a) of
       None \<Rightarrow> (Inl (Some (err_text ''timeout'' e)), [R_Timeout e a, R_Kill e])
     | Some raw \<Rightarrow>
         if is_auth (raw @ nl @ ak_stderr k e a) then (Inl (Some (err_text ''auth'' e)), [R_Auth e a, R_Kill e])
         else case extract_intent (ak_loads k) raw of
           None \<Rightarrow> (case ask_engine k e as (Some (err_text ''parse'' e)) of (r, ev) \<Rightarrow> (r, R_Parse_Error e a # ev))
         | Some d \<Rightarrow> (case build_intent e a d of
             Inl x \<Rightarrow> (case ask_engine k e as (Some (err_text ''schema'' e)) of (r, ev) \<Rightarrow> (r, R_Schema_Error e a # ev))
           | Inr i \<Rightarrow> (Inr i, [R_Intent e (ai_intent_id i)])))"

definition attempts :: "asking \<Rightarrow> nat list" where
  "attempts k = [0..<nat (max 0 (ak_repair k)) + 1]"

fun ask_engines :: "asking \<Rightarrow> engine list \<Rightarrow> string option \<Rightarrow> (string option + action_intent) \<times> r_event list" where
  "ask_engines k [] err = (Inl err, [])"
| "ask_engines k (e # es) err =
     (if \<not> ensure_agent k e then ask_engines k es (Some (''no-agent:'' @ engine_name e))
      else case ask_engine k e (attempts k) err of
             (Inr i, ev) \<Rightarrow> (Inr i, ev)
           | (Inl err', ev) \<Rightarrow> (case ask_engines k es err' of (r, ev') \<Rightarrow> (r, ev @ ev')))"

text \<open>\<open>Inl\<close> is the \<open>ReasonerError\<close>.\<close>

definition decide :: "asking \<Rightarrow> string option \<Rightarrow> (string + action_intent) \<times> r_event list" where
  "decide k prio = (case ask_engines k (route prio) None of
       (Inr i, ev) \<Rightarrow> (Inr i, ev)
     | (Inl err, ev) \<Rightarrow> let last_err = env_or err ''exhausted'' in (Inl last_err, ev @ [R_Exhausted last_err]))"

definition engine_status :: "asking \<Rightarrow> string \<times> string" where
  "engine_status k = (if ak_claude k then ''ready'' else ''degraded'', if ak_codex k then ''ready'' else ''degraded'')"

section \<open>What a decision rests on\<close>

text \<open>An intent is the content of one attempt's answer, which asked for no login.\<close>

definition grounded :: "asking \<Rightarrow> engine \<Rightarrow> nat \<Rightarrow> action_intent \<Rightarrow> bool" where
  "grounded k e a i = (case reply_text (ak_reply k e a) of
       None \<Rightarrow> False
     | Some raw \<Rightarrow> \<not> is_auth (raw @ nl @ ak_stderr k e a) \<and>
         (case extract_intent (ak_loads k) raw of None \<Rightarrow> False | Some d \<Rightarrow> build_intent e a d = Inr i))"

text \<open>The three ways an attempt ends.\<close>

lemma ask_engine_cases:
  obtains (stopped) w x where "ask_engine k e (a # as) err = (Inl (Some w), [x, R_Kill e])" "x = R_Timeout e a \<or> x = R_Auth e a"
    | (failed) w x where "ask_engine k e (a # as) err = (fst (ask_engine k e as (Some w)), x # snd (ask_engine k e as (Some w)))"
        "x = R_Parse_Error e a \<or> x = R_Schema_Error e a"
    | (found) i where "ask_engine k e (a # as) err = (Inr i, [R_Intent e (ai_intent_id i)])" "grounded k e a i"
proof (cases "reply_text (ak_reply k e a)")
  case None
  then show ?thesis by (intro stopped [of _ "R_Timeout e a"]) simp_all
next
  case (Some raw)
  show ?thesis
  proof (cases "is_auth (raw @ nl @ ak_stderr k e a)")
    case True
    with Some show ?thesis by (intro stopped [of _ "R_Auth e a"]) simp_all
  next
    case noauth: False
    show ?thesis
    proof (cases "extract_intent (ak_loads k) raw")
      case None
      with Some noauth show ?thesis by (intro failed [of _ "R_Parse_Error e a"]) (simp_all add: split_beta)
    next
      case d: (Some d)
      show ?thesis
      proof (cases "build_intent e a d")
        case (Inl x)
        with Some noauth d show ?thesis by (intro failed [of _ "R_Schema_Error e a"]) (simp_all add: split_beta)
      next
        case (Inr i)
        with Some noauth d show ?thesis by (intro found) (simp_all add: grounded_def)
      qed
    qed
  qed
qed

lemma ask_engine_grounded: "ask_engine k e as err = (Inr i, ev) \<Longrightarrow> \<exists>a. a \<in> set as \<and> grounded k e a i"
proof (induction as arbitrary: err ev)
  case (Cons a as)
  show ?case
  proof (cases rule: ask_engine_cases [of k e a as err])
    case (failed w x)
    with Cons.prems have "ask_engine k e as (Some w) = (Inr i, snd (ask_engine k e as (Some w)))"
      by (simp add: prod_eq_iff)
    from Cons.IH [OF this] show ?thesis by auto
  qed (use Cons.prems in auto)
qed simp

lemma ask_engines_grounded:
  "ask_engines k es err = (Inr i, ev) \<Longrightarrow> \<exists>e a. ensure_agent k e \<and> a \<in> set (attempts k) \<and> grounded k e a i"
proof (induction es arbitrary: err ev)
  case (Cons e es)
  obtain r ev1 where one: "ask_engine k e (attempts k) err = (r, ev1)" by force
  show ?case
  proof (cases "ensure_agent k e")
    case False
    with Cons show ?thesis by simp
  next
    case True
    show ?thesis
    proof (cases r)
      case (Inr j)
      with Cons.prems True one have "ask_engine k e (attempts k) err = (Inr i, ev1)" by simp
      from ask_engine_grounded [OF this] True show ?thesis by blast
    next
      case (Inl err')
      with Cons.prems True one obtain ev2 where "ask_engines k es err' = (Inr i, ev2)" by (auto split: prod.splits)
      from Cons.IH [OF this] show ?thesis .
    qed
  qed
qed simp

text \<open>Every engine that timed out or asked for a login is killed next.\<close>

fun kills_follow :: "r_event list \<Rightarrow> bool" where
  "kills_follow [] = True"
| "kills_follow (R_Timeout e a # es) = ((case es of R_Kill e' # _ \<Rightarrow> e' = e | _ \<Rightarrow> False) \<and> kills_follow es)"
| "kills_follow (R_Auth e a # es) = ((case es of R_Kill e' # _ \<Rightarrow> e' = e | _ \<Rightarrow> False) \<and> kills_follow es)"
| "kills_follow (_ # es) = kills_follow es"

lemma kills_follow_append: "kills_follow xs \<Longrightarrow> kills_follow ys \<Longrightarrow> kills_follow (xs @ ys)"
  by (induction xs rule: kills_follow.induct) (auto split: list.splits r_event.splits)

fun is_turn :: "r_event \<Rightarrow> bool" where
  "is_turn (R_Kill e) = False"
| "is_turn (R_Exhausted m) = False"
| "is_turn _ = True"

lemma ask_engine_turns:
  "kills_follow (snd (ask_engine k e as err)) \<and> length (filter is_turn (snd (ask_engine k e as err))) \<le> length as"
proof (induction as arbitrary: err)
  case (Cons a as)
  show ?case
  proof (cases rule: ask_engine_cases [of k e a as err])
    case (failed w x)
    with Cons.IH [of "Some w"] show ?thesis by auto
  qed auto
qed simp

lemma ask_engines_turns:
  "kills_follow (snd (ask_engines k es err)) \<and>
   length (filter is_turn (snd (ask_engines k es err))) \<le> length es * length (attempts k)"
proof (induction es arbitrary: err)
  case (Cons e es)
  obtain r ev where one: "ask_engine k e (attempts k) err = (r, ev)" by force
  with ask_engine_turns [of k e "attempts k" err] have ev: "kills_follow ev" "length (filter is_turn ev) \<le> length (attempts k)"
    by simp_all
  show ?case
  proof (cases r)
    case (Inl err')
    with Cons.IH [of err'] Cons.IH [of "Some (''no-agent:'' @ engine_name e)"] one ev show ?thesis
      by (auto simp: split_beta intro: kills_follow_append)
  next
    case (Inr i)
    with Cons.IH [of "Some (''no-agent:'' @ engine_name e)"] one ev show ?thesis by auto
  qed
qed simp

lemma build_intent_checked:
  assumes "build_intent e a d = Inr i"
  shows "\<exists>r. ai_risk_level i = PStr r \<and> r \<in> set risk_levels" "0 \<le> ai_confidence i" "ai_confidence i \<le> 1"
  using assms
  by (auto simp: build_intent_def check_intent_def ebind_def split: sum.splits if_splits elim!: in_str_set.elims)

lemma grounded_checked:
  assumes "grounded k e a i"
  shows "(\<exists>l. ai_risk_level i = PStr l \<and> l \<in> set risk_levels) \<and> 0 \<le> ai_confidence i \<and> ai_confidence i \<le> 1"
proof -
  from assms obtain d where "build_intent e a d = Inr i" by (auto simp: grounded_def split: option.splits)
  from build_intent_checked [OF this] show ?thesis by blast
qed

lemma decide_grounded:
  assumes "decide k prio = (Inr i, ev)"
  shows "\<exists>e a. ensure_agent k e \<and> a \<le> nat (max 0 (ak_repair k)) \<and> grounded k e a i"
proof -
  from assms obtain ev1 where "ask_engines k (route prio) None = (Inr i, ev1)"
    by (auto simp: decide_def Let_def split: sum.splits prod.splits)
  from ask_engines_grounded [OF this] obtain e a where "ensure_agent k e" "a \<in> set (attempts k)" "grounded k e a i" by blast
  moreover from this(2) have "a \<le> nat (max 0 (ak_repair k))" by (auto simp: attempts_def)
  ultimately show ?thesis by blast
qed

text \<open>A decision is an intent only when an available engine gave, within its attempts, an answer that
  neither timed out nor asked for a login and whose content is that intent, with a known risk and a
  confidence between 0 and 1; at most twice the attempts are asked, and every engine that timed out or
  asked for a login is killed at once.\<close>

theorem decision_is_grounded:
  assumes "decide k prio = (r, ev)"
  shows "(\<forall>i. r = Inr i \<longrightarrow>
      (\<exists>e a. ensure_agent k e \<and> a \<le> nat (max 0 (ak_repair k)) \<and> grounded k e a i) \<and>
      (\<exists>l. ai_risk_level i = PStr l \<and> l \<in> set risk_levels) \<and> 0 \<le> ai_confidence i \<and> ai_confidence i \<le> 1) \<and>
    length (filter is_turn ev) \<le> 2 * (nat (max 0 (ak_repair k)) + 1) \<and> kills_follow ev"
proof -
  obtain q ev1 where q: "ask_engines k (route prio) None = (q, ev1)" by force
  have t: "kills_follow ev1" "length (filter is_turn ev1) \<le> 2 * (nat (max 0 (ak_repair k)) + 1)"
    using ask_engines_turns [of k "route prio" None] q by (simp_all add: attempts_def route_def split: if_splits)
  have "\<exists>e a. ensure_agent k e \<and> a \<le> nat (max 0 (ak_repair k)) \<and> grounded k e a i" if "r = Inr i" for i
    using decide_grounded assms that by blast
  moreover have "(\<exists>l. ai_risk_level i = PStr l \<and> l \<in> set risk_levels) \<and> 0 \<le> ai_confidence i \<and> ai_confidence i \<le> 1"
    if "r = Inr i" for i using calculation [OF that] grounded_checked by blast
  moreover have "kills_follow ev \<and> length (filter is_turn ev) \<le> 2 * (nat (max 0 (ak_repair k)) + 1)"
    using assms q t kills_follow_append [of ev1] by (auto simp: decide_def Let_def split: sum.splits)
  ultimately show ?thesis by blast
qed

definition sample_asking :: asking where
  "sample_asking = \<lparr>ak_claude = True, ak_codex = True, ak_auto_build = False, ak_builds = (\<lambda>e. False), ak_repair = 1,
     ak_loads = (\<lambda>s. if s = ''{1}'' then Some (PDict [(''action_intent'', PDict [(''intent_id'', PStr ''i-7''), (''confidence'', PInt 1)])]) else None),
     ak_reply = (\<lambda>e a. case e of Codex \<Rightarrow> Timed_Out_Reply | Claude \<Rightarrow> if a = 0 then Answer ''hm'' else Answer ''so: ```json {1} ```''),
     ak_stderr = (\<lambda>e a. [])\<rparr>"

text \<open>Codex times out, Claude answers at the second attempt.\<close>

theorem decision_is_grounded_witness:
  "\<exists>i ev. decide sample_asking None = (Inr i, ev) \<and> kills_follow ev \<and> ai_intent_id i = PStr ''i-7'' \<and>
     (\<exists>e a. ensure_agent sample_asking e \<and> a \<le> 1 \<and> grounded sample_asking e a i) \<and> length (filter is_turn ev) \<le> 4"
proof -
  have c: "case decide sample_asking None of (Inr i, ev) \<Rightarrow> ai_intent_id i = PStr ''i-7'' | _ \<Rightarrow> False" by code_simp
  then obtain i ev where d: "decide sample_asking None = (Inr i, ev)" "ai_intent_id i = PStr ''i-7''"
    by (auto split: prod.splits sum.splits)
  from decision_is_grounded [OF d(1)] d show ?thesis by (auto simp: sample_asking_def)
qed

end
