(* ===== verification/CU_Run.thy ===== *)
theory CU_Run
  imports Executor Session Reasoner
begin

text \<open>
  \<^verbatim>\<open>computer_use/adapter.py\<close>: the loop that perceives, asks the reasoner, passes the gates and executes, and
  the run around it.  What a step meets is a \<open>cu_env\<close>: the messages that came in, the stop flag, the
  snapshots, the engines, the processes.  The loop calls the components' own operations.  Perception
  is a parameter, and the fields of sessions, of snapshot summaries and of event payloads that nothing
  reads are left out.  The trace lists what the loop emits and executes, in order.
\<close>

section \<open>The environment of a step\<close>

record cu_env =
  en_inbox :: "omsg list"
  en_stop :: bool
  en_usage :: usage
  en_snaps :: "snapshots option"
  en_asking :: "pydict \<Rightarrow> omsg list \<Rightarrow> asking"
  en_arrivals :: "omsg list"
  en_kernel :: kernel
  en_now :: nat
  en_sys :: spawn_sys
  en_browser :: "browser option"
  en_stop_after :: bool

datatype run_event =
    Perception_Failed
  | Note_Received string
  | Reasoned "r_event list"
  | Dry_Run pyval pyval
  | Unconfirmed pyval
  | Gate_Raised
  | Gate_Violation violation_code
  | Not_Valid pyval
  | Acted action_spec "effect list" "pyexn + action_result"
  | Action_Executed string
  | Action_Rejected string
  | Repeated_Failure pyval nat

record run_state =
  rs_session :: session
  rs_streak :: "(pyval \<times> nat) option"
  rs_log :: "run_event list"

definition emit_run :: "run_event list \<Rightarrow> run_state \<Rightarrow> run_state" where
  "emit_run es st = st\<lparr>rs_log := rs_log st @ es\<rparr>"

definition budget_of :: "session \<Rightarrow> string \<Rightarrow> int \<Rightarrow> int" where
  "budget_of s key d = (case map_of (ss_budgets s) key of None \<Rightarrow> d | Some v \<Rightarrow> v)"

text \<open>What the gate sees of the session.\<close>

definition worker_session :: "session \<Rightarrow> pyval" where
  "worker_session s = PDict [(''run_id'', PStr (ss_run s)), (''mode'', PStr (ss_mode s)), (''task_priority'', PStr (ss_priority s)),
     (''budgets'', PDict (map (\<lambda>(k, v). (k, PInt v)) (ss_budgets s))),
     (''real_gui_policy'', opt_str (ss_policy s)), (''ask_mode'', opt_str (ss_ask s))]"

section \<open>Components of a run\<close>

definition tree_budget_of :: "session \<Rightarrow> tree_budget" where
  "tree_budget_of s = \<lparr>tb_procs = budget_of s ''max_processes'' 64, tb_rss = budget_of s ''max_rss_mb'' 2048,
     tb_cpu = of_int (budget_of s ''max_cpu_percent'' 200)\<rparr>"

definition enforce_session_limits :: "usage \<Rightarrow> session \<Rightarrow> session" where
  "enforce_session_limits use s =
     s\<lparr>ss_sup := enforce_limits use (if ss_budgets s = [] then None else Some (tree_budget_of s)) (ss_sup s)\<rparr>"

definition run_kernel :: "cu_env \<Rightarrow> session \<Rightarrow> kernel" where
  "run_kernel e s = (en_kernel e)\<lparr>k_is_owned := is_owned (ss_sup s)\<rparr>"

text \<open>The executor on the session's display, whose launches go through the session's supervisor.\<close>

definition run_executor :: "cu_env \<Rightarrow> session \<Rightarrow> executor" where
  "run_executor e s = \<lparr>xc_display = executor_display (ss_isolated s), xc_timeout_ms = budget_of s ''action_timeout_ms'' 10000,
     xc_environ = sy_environ (en_sys e), xc_files = sy_files (en_sys e), xc_browser = en_browser e,
     xc_spawn = (\<lambda>a. case fst (spawn (en_sys e) a (ss_sup s)) of Inl why \<Rightarrow> Inl why | Inr (rid, p) \<Rightarrow> Inr p),
     xc_repr = k_repr (en_kernel e)\<rparr>"

fun spawned_by :: "spawn_sys \<Rightarrow> effect \<Rightarrow> sup_state \<Rightarrow> sup_state" where
  "spawned_by y (Launch a) u = snd (spawn y a u)"
| "spawned_by y e u = u"

text \<open>The fields of an action as the executor reads them.\<close>

definition action_dict :: "action_spec \<Rightarrow> pydict" where
  "action_dict a = [(''action_id'', PStr (as_action_id a)), (''type'', as_type a), (''display_scope'', as_display_scope a),
     (''target'', (case as_target a of None \<Rightarrow> PNone | Some t \<Rightarrow> PDict t)), (''source_handle_id'', as_source_handle_id a),
     (''text'', as_text a), (''hotkey'', as_hotkey a), (''scroll_delta'', as_scroll_delta a), (''drag_to'', as_drag_to a),
     (''wait_ms'', as_wait_ms a), (''url'', as_url a), (''app'', as_app a), (''app_args'', as_app_args a),
     (''rationale'', as_rationale a), (''risk_level'', as_risk_level a), (''confirmation_token'', as_confirmation_token a),
     (''clearance_token'', opt_str (as_clearance_token a))]"

section \<open>The stages of a step\<close>

definition constraints :: "session \<Rightarrow> int \<Rightarrow> int \<Rightarrow> pydict" where
  "constraints s max_steps max_actions =
     [(''must_use_display_scope'', PStr (if ss_mode s = ''REAL'' then ''real_act'' else ''isolated'')),
      (''max_actions_remaining'', PInt (max 0 (max_actions - ss_actions s))),
      (''max_steps_remaining'', PInt (max 0 (max_steps - ss_step s))), (''disallowed_ops'', PList [])] @
     (if ss_mode s = ''REAL'' then [(''real_gui_policy'', PStr (env_or (ss_policy s) ''full'')), (''ask_mode'', PStr (env_or (ss_ask s) ''on''))]
      else [])"

definition notes_of :: "omsg list \<Rightarrow> string list" where
  "notes_of ms = List.map_filter (\<lambda>m. case m of Note_Msg t \<Rightarrow> Some (take 200 t) | Token_Msg t i \<Rightarrow> None) ms"

datatype 'a stage = Go 'a | Skip_Step | Halt_Run | Crash_Run

text \<open>\<open>v[:200]\<close> raises on what has no slices.\<close>

definition sliceable :: "pyval \<Rightarrow> bool" where
  "sliceable v = (case v of PStr s \<Rightarrow> True | PList xs \<Rightarrow> True | _ \<Rightarrow> False)"

definition reason_stage :: "cu_env \<Rightarrow> int \<Rightarrow> int \<Rightarrow> session \<Rightarrow> action_intent stage \<times> run_event list" where
  "reason_stage e max_steps max_actions s =
     (case decide (en_asking e (constraints s max_steps max_actions) (ss_pending s)) (Some (ss_priority s)) of
        (Inr i, ev) \<Rightarrow> (Go i, [Reasoned ev])
      | (Inl err, ev) \<Rightarrow> (Halt_Run, [Reasoned ev]))"

definition confirm_stage :: "cu_env \<Rightarrow> action_intent \<Rightarrow> session \<Rightarrow> action_intent stage \<times> session \<times> run_event list" where
  "confirm_stage e i s =
     (case require_confirmation (PDict (intent_dict i)) None of
        Inl x \<Rightarrow> (Go i, s, [])
      | Inr g \<Rightarrow>
          if gd_gate g \<noteq> REQUIRE_CONFIRMATION then (Go i, s, [])
          else if \<not> sliceable (ai_rationale i) then (Crash_Run, s, [])
          else let ev = [Dry_Run (ai_intent_id i) (ai_risk_level i)] in
            (case await_confirmation (ai_intent_id i) (en_arrivals e) s of
               Inl x \<Rightarrow> (Crash_Run, s, ev)
             | Inr (Accepted t, s') \<Rightarrow>
                 if t = [] then (Skip_Step, s', ev @ [Unconfirmed (ai_intent_id i)])
                 else (Go (i\<lparr>ai_confirmation_token := PStr t\<rparr>), s', ev)
             | Inr (c, s') \<Rightarrow> (Skip_Step, s', ev @ [Unconfirmed (ai_intent_id i)])))"

definition validate_stage :: "cu_env \<Rightarrow> snapshots \<Rightarrow> action_intent \<Rightarrow> session \<Rightarrow> action_spec stage \<times> run_event list" where
  "validate_stage e snaps i s =
     (case validate (run_kernel e s) (PDict (intent_dict i)) (worker_session s) (ss_step s) (ss_actions s) snaps (en_now e) of
        Inl x \<Rightarrow> (Skip_Step, [Gate_Raised])
      | Inr v \<Rightarrow>
          if \<not> valid v then (Skip_Step, map Gate_Violation (case violations v of None \<Rightarrow> [] | Some vs \<Rightarrow> vs) @ [Not_Valid (ai_intent_id i)])
          else case normalized_action v of None \<Rightarrow> (Skip_Step, []) | Some a \<Rightarrow> (Go a, []))"

definition execute_stage :: "cu_env \<Rightarrow> action_spec \<Rightarrow> run_state \<Rightarrow> bool \<times> run_state" where
  "execute_stage e a st =
     (let s = rs_session st; (w, r) = execute (run_executor e s) (action_dict a);
          ok = (case r of Inl x \<Rightarrow> False | Inr res \<Rightarrow> ar_status res = ''ok'');
          status = (case r of Inl x \<Rightarrow> ''failed'' | Inr res \<Rightarrow> ar_status res)
      in (ok, (emit_run ([Acted a w r] @ (case r of Inl x \<Rightarrow> [Action_Rejected ''executor_exception''] | Inr res \<Rightarrow> []) @
                  [if ok then Action_Executed status else Action_Rejected status]) st)
           \<lparr>rs_session := s\<lparr>ss_sup := foldl (\<lambda>u ef. spawned_by (en_sys e) ef u) (ss_sup s) w, ss_actions := ss_actions s + 1\<rparr>\<rparr>))"

text \<open>The streak of failures of one type after an action, and whether it ends the run.\<close>

definition next_streak :: "bool \<Rightarrow> pyval \<Rightarrow> (pyval \<times> nat) option \<Rightarrow> (pyval \<times> nat) option" where
  "next_streak ok t streak =
     (if ok then None
      else case streak of
             None \<Rightarrow> Some (t, 1)
           | Some (t', n) \<Rightarrow> Some (t, if t = t' then n + 1 else 1))"

definition streak_stops :: "int \<Rightarrow> (pyval \<times> nat) option \<Rightarrow> bool" where
  "streak_stops limit streak = (case streak of None \<Rightarrow> False | Some (t, n) \<Rightarrow> int n \<ge> limit)"

definition finish_stage :: "cu_env \<Rightarrow> action_spec \<Rightarrow> bool \<Rightarrow> run_state \<Rightarrow> unit stage \<times> run_state" where
  "finish_stage e a ok st =
     (let streak = next_streak ok (as_type a) (rs_streak st); st1 = st\<lparr>rs_streak := streak\<rparr> in
      if streak_stops (budget_of (rs_session st) ''max_repeat_failures'' 3) streak
      then (Halt_Run, emit_run (case streak of None \<Rightarrow> [] | Some (t, n) \<Rightarrow> [Repeated_Failure t n]) st1)
      else case rationale_text [(''rationale'', as_rationale a)] of
             Inl x \<Rightarrow> (Crash_Run, st1)
           | Inr rat \<Rightarrow> (if any_in [''done'', ''complete'', ''objective satisfied''] rat \<or> en_stop_after e then Halt_Run else Go (), st1))"

section \<open>One step\<close>

definition perceive :: "cu_env \<Rightarrow> int \<Rightarrow> run_state \<Rightarrow> snapshots \<times> run_state" where
  "perceive e step st =
     (let s = enforce_session_limits (en_usage e) ((rs_session st)\<lparr>ss_step := step\<rparr>) in
      (case en_snaps e of None \<Rightarrow> [] | Some sn \<Rightarrow> sn,
       emit_run ((if en_snaps e = None then [Perception_Failed] else []) @ map Note_Received (notes_of (ss_pending s))) (st\<lparr>rs_session := s\<rparr>)))"

definition act_on :: "cu_env \<Rightarrow> snapshots \<Rightarrow> action_intent \<Rightarrow> run_state \<Rightarrow> unit stage \<times> run_state" where
  "act_on e snaps i st =
     (case confirm_stage e i (rs_session st) of (g, s, ev) \<Rightarrow>
        let st1 = emit_run ev (st\<lparr>rs_session := s\<rparr>) in
        (case g of
           Go j \<Rightarrow> (case validate_stage e snaps j s of
               (Go a, ev2) \<Rightarrow> (case execute_stage e a (emit_run ev2 st1) of (ok, st2) \<Rightarrow> finish_stage e a ok st2)
             | (_, ev2) \<Rightarrow> (Go (), emit_run ev2 st1))
         | Crash_Run \<Rightarrow> (Crash_Run, st1)
         | _ \<Rightarrow> (Go (), st1)))"

definition run_step :: "cu_env \<Rightarrow> int \<Rightarrow> int \<Rightarrow> int \<Rightarrow> run_state \<Rightarrow> unit stage \<times> run_state" where
  "run_step e max_steps max_actions step st0 =
     (let st = st0\<lparr>rs_session := foldl (\<lambda>s m. enqueue m s) (rs_session st0) (en_inbox e)\<rparr> in
      if en_stop e \<or> ss_actions (rs_session st) \<ge> max_actions then (Halt_Run, st)
      else case perceive e step st of (snaps, st1) \<Rightarrow>
        (case reason_stage e max_steps max_actions (rs_session st1) of
           (Go i, ev) \<Rightarrow> act_on e snaps i (emit_run ev st1)
         | (_, ev) \<Rightarrow> (Halt_Run, emit_run ev st1)))"

section \<open>The run\<close>

text \<open>Whether the loop raised.\<close>

fun run_steps :: "(nat \<Rightarrow> cu_env) \<Rightarrow> int \<Rightarrow> int \<Rightarrow> nat list \<Rightarrow> run_state \<Rightarrow> bool \<times> run_state" where
  "run_steps env max_steps max_actions [] st = (False, st)"
| "run_steps env max_steps max_actions (n # ns) st =
     (case run_step (env n) max_steps max_actions (int n) st of
        (Crash_Run, st') \<Rightarrow> (True, st')
      | (Halt_Run, st') \<Rightarrow> (False, st')
      | (_, st') \<Rightarrow> run_steps env max_steps max_actions ns st')"

definition execute_run :: "(nat \<Rightarrow> cu_env) \<Rightarrow> session \<Rightarrow> bool \<times> run_state" where
  "execute_run env s =
     (let max_steps = budget_of s ''max_steps'' 200 in
      run_steps env max_steps (budget_of s ''max_actions'' 200) [1..<Suc (nat max_steps)] \<lparr>rs_session = s, rs_streak = None, rs_log = []\<rparr>)"

definition start_run :: "surround \<Rightarrow> (nat \<Rightarrow> cu_env) \<Rightarrow> (sup_state \<Rightarrow> sup_state) \<Rightarrow> run_request \<Rightarrow> sup_state \<Rightarrow> controller
    \<Rightarrow> pyexn + string \<times> run_event list \<times> session option \<times> controller" where
  "start_run sr env close_browser r u ctl = ebind (create_session sr r u ctl) (\<lambda>(s, ctl1).
     case execute_run env s of (raised, st) \<Rightarrow>
       let s1 = (if raised then (rs_session st)\<lparr>ss_status := ''errored''\<rparr> else rs_session st);
           (closed, ctl2) = close_session close_browser (ss_run s) (AList.update (ss_run s) s1 ctl1)
       in Inr (if raised then ''errored'' else ''completed'', rs_log st, closed, ctl2))"

text \<open>A token from outside, acknowledged unless it is empty.\<close>

definition submit_confirmation :: "string \<Rightarrow> string \<Rightarrow> string option \<Rightarrow> controller \<Rightarrow> bool \<times> controller" where
  "submit_confirmation run token iid ctl =
     (if token = [] then (False, ctl)
      else (True, case map_of ctl run of None \<Rightarrow> ctl | Some s \<Rightarrow> AList.update run (enqueue (Token_Msg token iid) s) ctl))"

end
