(* ===== verification/CU_Run_Laws.thy ===== *)
theory CU_Run_Laws
  imports CU_Run Safety_Laws
begin

text \<open>
  What holds of every run of the computer-use worker: its actions are within both budgets and on the
  session's display, a high risk costs a message of the operator unless the reasoner confirms itself, a
  failure repeated three times ends it, and its session is closed.
\<close>

section \<open>What one step does\<close>

definition acted :: "run_event list \<Rightarrow> (action_spec \<times> effect list \<times> (pyexn + action_result)) list" where
  "acted = List.map_filter (\<lambda>ev. case ev of Acted a w r \<Rightarrow> Some (a, w, r) | _ \<Rightarrow> None)"

definition tokens :: "omsg list \<Rightarrow> nat" where
  "tokens ms = length (filter (\<lambda>m. token_of m \<noteq> None) ms)"

lemma acted_append [simp]: "acted (xs @ ys) = acted xs @ acted ys"
  by (simp add: acted_def List.map_filter_def)

lemma acted_simps [simp]: "acted [] = []" "acted (Acted a w r # es) = (a, w, r) # acted es"
  "acted (Perception_Failed # es) = acted es" "acted (Reasoned rv # es) = acted es" "acted (Dry_Run x y # es) = acted es"
  "acted (Unconfirmed x # es) = acted es" "acted (Gate_Raised # es) = acted es" "acted (Not_Valid x # es) = acted es"
  "acted (Action_Executed t # es) = acted es" "acted (Action_Rejected t # es) = acted es" "acted (Repeated_Failure x n # es) = acted es"
  "acted (map Gate_Violation vs) = []" "acted (map Note_Received ts) = []"
  by (simp_all add: acted_def List.map_filter_def filter_empty_conv)

lemma tokens_append [simp]: "tokens (xs @ ys) = tokens xs + tokens ys"
  and tokens_Cons [simp]: "tokens (m # ms) = (if token_of m \<noteq> None then 1 else 0) + tokens ms"
  and tokens_Nil [simp]: "tokens [] = 0"
  by (simp_all add: tokens_def)

text \<open>An accepted confirmation uses up a token.\<close>

lemma await_tokens:
  assumes "await_confirmation iid arrivals s = Inr (c, s')"
  shows "tokens (ss_pending s') + (if c = Timed_Out then 0 else 1) \<le> tokens (ss_pending s) + tokens arrivals"
  using await_uses_messages [OF assms]
proof
  assume "(\<exists>t. c = Accepted t) \<and> (\<exists>xs m ys. confirms iid m \<and> ss_pending s' = xs @ ys \<and>
       (ss_pending s = xs @ m # ys \<or> ss_pending s @ arrivals = xs @ m # ys))"
  then obtain t xs m ys where c: "c = Accepted t" and m: "confirms iid m" and p: "ss_pending s' = xs @ ys"
    and q: "ss_pending s = xs @ m # ys \<or> ss_pending s @ arrivals = xs @ m # ys" by blast
  from confirms_token [OF m] have "tokens (xs @ m # ys) = tokens (xs @ ys) + 1" by auto
  moreover from q have "tokens (xs @ m # ys) \<le> tokens (ss_pending s @ arrivals)" by (metis le_add1 order_refl tokens_append)
  ultimately show ?thesis using c p by simp
next
  assume "c = Timed_Out \<and> ss_pending s' = ss_pending s @ arrivals"
  then show ?thesis by simp
qed

text \<open>Some answer of the engines carries a confirmation token of its own.\<close>

definition self_confirming :: "cu_env \<Rightarrow> bool" where
  "self_confirming e = (\<exists>c ms prio i ev. decide (en_asking e c ms) prio = (Inr i, ev) \<and> truthy (ai_confirmation_token i))"

lemma intent_dict_get:
  "dget (intent_dict i) ''confirmation_token'' = ai_confirmation_token i"
  "dget (intent_dict i) ''rationale'' = ai_rationale i" "dget_or (intent_dict i) ''risk_level'' v = ai_risk_level i"
  "dget (intent_dict i) ''action'' = ai_action i"
  by (simp_all add: intent_dict_def dget_def dget_or_def)

lemma risk_ignores_token:
  "classify_risk (PDict (intent_dict (i\<lparr>ai_confirmation_token := t\<rparr>))) sc = classify_risk (PDict (intent_dict i)) sc"
  by (simp add: classify_risk_def rationale_text_def intent_dict_get)

text \<open>The gate before the wait lets an intent pass when its risk cannot be read, when it is not high, with
  a token of its own, or with a token that is used up.\<close>

lemma confirm_stage_cases:
  assumes "confirm_stage e i s = (g, s', ev)"
  obtains (pass) "g = Go i" "s' = s" "ev = []"
      "\<And>gd. require_confirmation (PDict (intent_dict i)) None = Inr gd \<Longrightarrow> gd_gate gd \<noteq> REQUIRE_CONFIRMATION"
    | (crashed) "g = Crash_Run" "s' = s" "acted ev = []"
    | (waited) t where "await_confirmation (ai_intent_id i) (en_arrivals e) s = Inr (Accepted t, s')"
        "g = Go (i\<lparr>ai_confirmation_token := PStr t\<rparr>)" "acted ev = []"
    | (refused) c where "await_confirmation (ai_intent_id i) (en_arrivals e) s = Inr (c, s')" "g = Skip_Step" "acted ev = []"
proof (cases "require_confirmation (PDict (intent_dict i)) None")
  case (Inl x)
  with assms show ?thesis by (intro pass) (simp_all add: confirm_stage_def)
next
  case (Inr gd)
  show ?thesis
  proof (cases "gd_gate gd = REQUIRE_CONFIRMATION")
    case False
    with assms Inr show ?thesis by (intro pass) (simp_all add: confirm_stage_def)
  next
    case req: True
    show ?thesis
    proof (cases "sliceable (ai_rationale i)")
      case False
      with assms Inr req show ?thesis by (intro crashed) (simp_all add: confirm_stage_def)
    next
      case slice: True
      show ?thesis
      proof (cases "await_confirmation (ai_intent_id i) (en_arrivals e) s")
        case (Inl x)
        with assms Inr req slice show ?thesis by (intro crashed) (auto simp: confirm_stage_def)
      next
        case w: (Inr cs)
        obtain c s2 where cs: "cs = (c, s2)" by force
        show ?thesis
        proof (cases "\<exists>t. c = Accepted t \<and> t \<noteq> []")
          case True
          then obtain t where "c = Accepted t" "t \<noteq> []" by blast
          with assms Inr req slice w cs show ?thesis by (intro waited [of t]) (auto simp: confirm_stage_def)
        next
          case False
          with assms Inr req slice w cs show ?thesis
            by (cases c) (auto simp: confirm_stage_def Let_def intro: refused split: if_splits)
        qed
      qed
    qed
  qed
qed

lemma confirm_stage_frame:
  assumes "confirm_stage e i s = (g, s', ev)"
  shows "frame s s'" "acted ev = []" "tokens (ss_pending s') \<le> tokens (ss_pending s) + tokens (en_arrivals e)"
  using assms by (cases rule: confirm_stage_cases; force dest: frame_await await_tokens)+

lemma confirm_stage_risk:
  assumes "confirm_stage e i s = (Go j, s', ev)" "classify_risk (PDict (intent_dict j)) None = Inr risk" "high_risk risk"
  shows "truthy (ai_confirmation_token i) \<or> tokens (ss_pending s') + 1 \<le> tokens (ss_pending s) + tokens (en_arrivals e)"
  using assms(1)
proof (cases rule: confirm_stage_cases)
  case pass
  with assms(2,3) show ?thesis
    by (cases "truthy (ai_confirmation_token i)") (auto simp: require_confirmation_def intent_dict_get Let_def)
next
  case (waited t)
  from await_tokens [OF waited(1)] show ?thesis by simp
qed simp_all

text \<open>What the second gate guarantees of an action.\<close>

lemma validate_form: "validate k intent session step actions snaps now = Inr v \<Longrightarrow> (\<exists>vs. v = rejected vs) \<or> (\<exists>a. v = accepted a)"
  by (auto simp: validate_def ebind_eq_Inr_iff split: if_splits option.splits sum.splits prod.splits)

lemma validated:
  assumes "validate_stage e snaps i s = (Go a, ev)"
  shows "ev = []" "within_budget (worker_session s) (ss_step s) (ss_actions s)" "as_display_scope a = PStr ''isolated''"
    "classify_risk (PDict (intent_dict i)) None = Inr (as_risk_level a)"
    "high_risk (as_risk_level a) \<Longrightarrow> truthy (ai_confirmation_token i)"
proof -
  let ?v = "validate (run_kernel e s) (PDict (intent_dict i)) (worker_session s) (ss_step s) (ss_actions s) snaps (en_now e)"
  from assms obtain v where v: "?v = Inr v" "valid v" "normalized_action v = Some a" "ev = []"
    by (auto simp: validate_stage_def split: sum.splits if_splits option.splits)
  with validate_form [OF v(1)] have a: "?v = Inr (accepted a)" by (auto simp: rejected_def accepted_def)
  then have scope: "dget (as_dict (dget (as_dict (PDict (intent_dict i))) ''action'')) ''display_scope'' = PStr ''isolated''"
    by (auto simp: validate_def split: if_splits)
  from a [unfolded validate_cases [OF scope] gate_violations_Nil check_isolated Let_def]
  obtain risk coord sh where f: "within_budget (worker_session s) (ss_step s) (ss_actions s)"
      "classify_risk (PDict (intent_dict i)) None = Inr risk" "a = isolated_spec (PDict (intent_dict i)) coord sh risk (en_now e)"
      "high_risk risk \<longrightarrow> truthy (dget (intent_dict i) ''confirmation_token'')" by auto
  then show "ev = []" "within_budget (worker_session s) (ss_step s) (ss_actions s)" "as_display_scope a = PStr ''isolated''"
    "classify_risk (PDict (intent_dict i)) None = Inr (as_risk_level a)"
    "high_risk (as_risk_level a) \<Longrightarrow> truthy (ai_confirmation_token i)"
    using v(4) by (auto simp: isolated_spec_def Let_def intent_dict_get)
qed

lemma map_of_ints: "map_of (map (\<lambda>(k, v). (k, PInt v)) xs) k = map_option PInt (map_of xs k)"
  by (induction xs) auto

lemma worker_budget: "budget (as_dict (worker_session s)) key = Inr (budget_of s key 200)"
  by (cases "ss_budgets s = []")
    (auto simp: budget_def worker_session_def dget_def dget_or_def py_or_def budget_of_def map_of_ints Let_def split: option.split)

lemma within_budget_session:
  "within_budget (worker_session s) step actions \<longleftrightarrow> step < budget_of s ''max_steps'' 200 \<and> actions < budget_of s ''max_actions'' 200"
  by (auto simp: within_budget_def worker_budget)

section \<open>A step of the loop\<close>

text \<open>An effect stays off the operator's display: a tool sees the display \<open>d\<close> and no Wayland; an application is
  spawned so that its environment, whatever the operator's is and whichever private files there are, names \<open>d\<close> or the
  default isolated display 99 and no Wayland.  Calls into the page of a browser and pauses name no display.\<close>

fun off_real_display :: "string \<Rightarrow> effect \<Rightarrow> bool" where
  "off_real_display d (Xdo env args) = (map_of env ''DISPLAY'' = Some d \<and> map_of env ''WAYLAND_DISPLAY'' = None)"
| "off_real_display d (Launch sa) =
     (\<forall>operator files. let env = child_env operator files (sa_scope sa) (sa_display sa) (sa_env sa)
       in map_of env ''DISPLAY'' \<in> {Some d, Some '':99''} \<and> map_of env ''WAYLAND_DISPLAY'' = None)"
| "off_real_display d (Dom_Click sel n) = True"
| "off_real_display d (Dom_Type sel n text) = True"
| "off_real_display d (Browse url) = True"
| "off_real_display d (Sleep q) = True"

lemma executed_off_real_display:
  assumes "execute x a = (w, r)" "dget a ''display_scope'' = PStr ''isolated''"
  shows "list_all (off_real_display (xc_display x)) w"
  using assms(1)
proof (cases rule: executed_cases)
  case (ran tgt env)
  with assms(2) have "env = isolated_tool_env x" by auto
  moreover have "list_all (tame env) w" using tools_run_branch [of env x a tgt] by (simp add: tools_in_def ran(3))
  moreover have "off_real_display (xc_display x) e" if "tame (isolated_tool_env x) e" for e
    using that isolated_tool_env_facts(1,2) [of x] isolated_child_sees_no_real_display by (cases e) (simp_all add: Let_def truthy_str_def)
  ultimately show ?thesis by (simp add: list_all_iff)
qed simp

text \<open>An action of a step: its scope, its display, the budgets it was within, and what a high risk cost.\<close>

definition guarded :: "cu_env \<Rightarrow> int \<Rightarrow> session \<Rightarrow> session \<Rightarrow> action_spec \<times> effect list \<times> (pyexn + action_result) \<Rightarrow> bool" where
  "guarded e step s s' act = (case act of (a, w, r) \<Rightarrow>
     as_display_scope a = PStr ''isolated'' \<and> list_all (off_real_display (executor_display (ss_isolated s))) w \<and>
     step < budget_of s ''max_steps'' 200 \<and> ss_actions s < budget_of s ''max_actions'' 200 \<and>
     (high_risk (as_risk_level a) \<longrightarrow> self_confirming e \<or>
        tokens (ss_pending s') + 1 \<le> tokens (ss_pending s) + tokens (en_inbox e) + tokens (en_arrivals e)))"

definition steady :: "session \<Rightarrow> session \<Rightarrow> bool" where
  "steady s s' = (ss_budgets s' = ss_budgets s \<and> ss_isolated s' = ss_isolated s)"

definition step_law :: "cu_env \<Rightarrow> int \<Rightarrow> run_state \<Rightarrow> run_state \<Rightarrow> bool" where
  "step_law e step st st' =
     (let s = rs_session st; s' = rs_session st' in
      steady s s' \<and> tokens (ss_pending s') \<le> tokens (ss_pending s) + tokens (en_inbox e) + tokens (en_arrivals e) \<and>
      (acted (rs_log st') = acted (rs_log st) \<and> ss_actions s' = ss_actions s \<or>
       (\<exists>act. acted (rs_log st') = acted (rs_log st) @ [act] \<and> ss_actions s' = ss_actions s + 1 \<and> guarded e step s s' act)))"

lemma emit_run_simps [simp]: "rs_session (emit_run es st) = rs_session st" "rs_log (emit_run es st) = rs_log st @ es" "rs_streak (emit_run es st) = rs_streak st"
  by (simp_all add: emit_run_def)

lemma emit_run_Nil [simp]: "emit_run [] st = st"
  by (simp add: emit_run_def)

lemma execute_stage_facts:
  assumes "execute_stage e a st = (ok, st')"
  obtains w r where "execute (run_executor e (rs_session st)) (action_dict a) = (w, r)" "acted (rs_log st') = acted (rs_log st) @ [(a, w, r)]"
    "ss_actions (rs_session st') = ss_actions (rs_session st) + 1" "ss_pending (rs_session st') = ss_pending (rs_session st)"
    "steady (rs_session st) (rs_session st')" "rs_streak st' = rs_streak st"
    "ok \<longleftrightarrow> (case r of Inl x \<Rightarrow> False | Inr res \<Rightarrow> ar_status res = ''ok'')"
proof -
  obtain w r where x: "execute (run_executor e (rs_session st)) (action_dict a) = (w, r)" by force
  with assms show thesis
    by (intro that [of w r]) (auto simp: execute_stage_def Let_def steady_def split: sum.splits)
qed

definition goes_on :: "unit stage \<Rightarrow> bool" where
  "goes_on g = (g \<noteq> Halt_Run \<and> g \<noteq> Crash_Run)"

lemma finish_stage_facts:
  assumes "finish_stage e a ok st = (g, st')"
  shows "rs_session st' = rs_session st" "acted (rs_log st') = acted (rs_log st)"
    "rs_streak st' = next_streak ok (as_type a) (rs_streak st)"
    "goes_on g \<Longrightarrow> \<not> streak_stops (budget_of (rs_session st) ''max_repeat_failures'' 3) (rs_streak st')"
  using assms by (auto simp: finish_stage_def goes_on_def Let_def split: if_splits option.splits sum.splits)

text \<open>What acting on an intent does: nothing is executed, or one action that passed both gates is.\<close>

lemma act_on_cases:
  assumes "act_on e snaps i st = (g, st')" "confirm_stage e i (rs_session st) = (c, s1, ev)"
  obtains (idle) "rs_session st' = s1" "acted (rs_log st') = acted (rs_log st)" "rs_streak st' = rs_streak st"
    | (action) j a ok st2 where "c = Go j" "validate_stage e snaps j s1 = (Go a, [])"
        "execute_stage e a (emit_run ev (st\<lparr>rs_session := s1\<rparr>)) = (ok, st2)" "finish_stage e a ok st2 = (g, st')"
proof (cases "\<exists>j a. c = Go j \<and> fst (validate_stage e snaps j s1) = Go a")
  case True
  then obtain j a ev2 where j: "c = Go j" "validate_stage e snaps j s1 = (Go a, ev2)" by (metis prod.collapse)
  obtain ok st2 where x: "execute_stage e a (emit_run ev2 (emit_run ev (st\<lparr>rs_session := s1\<rparr>))) = (ok, st2)" by force
  with validated(1) [OF j(2)] show ?thesis using action [of j a ok st2] assms j by (simp add: act_on_def Let_def)
next
  case False
  have quiet: "acted ev2 = []" if "validate_stage e snaps j s1 = (g2, ev2)" "\<nexists>a. g2 = Go a" for j g2 ev2
    using that by (auto simp: validate_stage_def split: sum.splits if_splits option.splits)
  have "rs_session st' = s1 \<and> acted (rs_log st') = acted (rs_log st) \<and> rs_streak st' = rs_streak st"
  proof (cases "\<exists>j. c = Go j")
    case True
    then obtain j where j: "c = Go j" by blast
    obtain g2 ev2 where v: "validate_stage e snaps j s1 = (g2, ev2)" by force
    with False j have n: "\<nexists>a. g2 = Go a" by auto
    with assms j v have "st' = emit_run ev2 (emit_run ev (st\<lparr>rs_session := s1\<rparr>))" by (cases g2) (auto simp: act_on_def Let_def)
    with quiet [OF v n] confirm_stage_frame(2) [OF assms(2)] show ?thesis by simp
  next
    case False
    with assms have "st' = emit_run ev (st\<lparr>rs_session := s1\<rparr>)" by (cases c) (auto simp: act_on_def Let_def)
    with confirm_stage_frame(2) [OF assms(2)] show ?thesis by simp
  qed
  then show ?thesis by (intro idle) simp_all
qed

lemma act_on_law:
  assumes "act_on e snaps i st = (g, st')" "ss_step (rs_session st) = step"
    "decide (en_asking e c ms) prio = (Inr i, dev)"
  shows "steady (rs_session st) (rs_session st') \<and>
    tokens (ss_pending (rs_session st')) \<le> tokens (ss_pending (rs_session st)) + tokens (en_arrivals e) \<and>
    (acted (rs_log st') = acted (rs_log st) \<and> ss_actions (rs_session st') = ss_actions (rs_session st) \<or>
     (\<exists>act. acted (rs_log st') = acted (rs_log st) @ [act] \<and> ss_actions (rs_session st') = ss_actions (rs_session st) + 1 \<and>
        guarded (e\<lparr>en_inbox := []\<rparr>) step (rs_session st) (rs_session st') act))"
proof -
  obtain cg s1 ev where cs: "confirm_stage e i (rs_session st) = (cg, s1, ev)" by (metis prod_cases3)
  note f = confirm_stage_frame [OF cs]
  from assms(1) cs show ?thesis
  proof (cases rule: act_on_cases)
    case idle
    with f show ?thesis by (simp add: steady_def frame_def)
  next
    case (action j a ok st2)
    note v = validated [OF action(2)]
    from action(3) obtain w r where x: "execute (run_executor e s1) (action_dict a) = (w, r)"
      "acted (rs_log st2) = acted (rs_log st) @ [(a, w, r)]" "ss_actions (rs_session st2) = ss_actions s1 + 1"
      "ss_pending (rs_session st2) = ss_pending s1" "steady s1 (rs_session st2)"
      by (rule execute_stage_facts) (use f(2) in auto)
    note fin = finish_stage_facts [OF action(4)]
    have "dget (action_dict a) ''display_scope'' = PStr ''isolated''"
      using v(3) by (simp add: action_dict_def dget_def dget_or_def)
    from executed_off_real_display [OF x(1) this] have disp: "list_all (off_real_display (executor_display (ss_isolated (rs_session st)))) w"
      using f(1) by (simp add: run_executor_def frame_def)
    have risk: "self_confirming e \<or> tokens (ss_pending s1) + 1 \<le> tokens (ss_pending (rs_session st)) + tokens (en_arrivals e)"
      if "high_risk (as_risk_level a)"
      using confirm_stage_risk [OF cs [unfolded action(1)] v(4) that] assms(3) unfolding self_confirming_def by blast
    have "guarded (e\<lparr>en_inbox := []\<rparr>) step (rs_session st) (rs_session st') (a, w, r)"
      using v(2,3) disp risk f(1) assms(2) fin(1) x(4)
      by (auto simp: guarded_def within_budget_session frame_def budget_of_def self_confirming_def)
    with x f fin show ?thesis by (auto simp: steady_def frame_def)
  qed
qed

lemma run_step_law:
  assumes "run_step e ms ma step st = (g, st')"
  shows "step_law e step st st'"
proof -
  let ?q = "foldl (\<lambda>s m. enqueue m s) (rs_session st) (en_inbox e)"
  let ?st = "st\<lparr>rs_session := ?q\<rparr>"
  have q: "frame (rs_session st) ?q" by (rule frame_enqueue_all)
  show ?thesis
  proof (cases "en_stop e \<or> ss_actions ?q \<ge> ma")
    case True
    with assms have "st' = ?st" by (simp add: run_step_def Let_def)
    with q show ?thesis by (simp add: step_law_def Let_def steady_def frame_def)
  next
    case False
    obtain snaps st1 where p: "perceive e step ?st = (snaps, st1)" by force
    then have p1: "acted (rs_log st1) = acted (rs_log st)" "ss_step (rs_session st1) = step" "ss_actions (rs_session st1) = ss_actions (rs_session st)"
      "ss_pending (rs_session st1) = ss_pending (rs_session st) @ en_inbox e" "steady (rs_session st) (rs_session st1)"
      using q by (auto simp: perceive_def Let_def enforce_session_limits_def steady_def frame_def)
    show ?thesis
    proof (cases "decide (en_asking e (constraints (rs_session st1) ms ma) (ss_pending (rs_session st1))) (Some (ss_priority (rs_session st1)))")
      case (Pair d dev)
      show ?thesis
      proof (cases d)
        case (Inl err)
        with assms False p Pair have "st' = emit_run [Reasoned dev] st1" by (simp add: run_step_def reason_stage_def Let_def)
        with p1 show ?thesis by (simp add: step_law_def Let_def)
      next
        case (Inr i)
        with assms False p Pair have a: "act_on e snaps i (emit_run [Reasoned dev] st1) = (g, st')"
          by (simp add: run_step_def reason_stage_def Let_def)
        from act_on_law [OF a _ Pair [unfolded Inr], of step] p1
        show ?thesis by (auto simp: step_law_def Let_def steady_def guarded_def budget_of_def self_confirming_def)
      qed
    qed
  qed
qed

section \<open>The whole run\<close>

text \<open>The loop keeps what every step keeps.\<close>

lemma run_steps_induct:
  assumes "I st" "\<And>n st g st'. n \<in> set ns \<Longrightarrow> I st \<Longrightarrow> run_step (env n) ms ma (int n) st = (g, st') \<Longrightarrow> I st'"
  shows "I (snd (run_steps env ms ma ns st))"
  using assms
proof (induction ns arbitrary: st)
  case (Cons n ns)
  obtain g st' where s: "run_step (env n) ms ma (int n) st = (g, st')" by force
  have i: "I st'" using Cons.prems(2) [OF _ Cons.prems(1) s] by simp
  moreover have "I (snd (run_steps env ms ma ns st'))" by (rule Cons.IH [OF i]) (rule Cons.prems(2), auto)
  ultimately show ?case using s by (cases g) auto
qed simp

definition high_acts :: "(action_spec \<times> effect list \<times> (pyexn + action_result)) list \<Rightarrow> nat" where
  "high_acts acts = length (filter (\<lambda>(a, w, r). high_risk (as_risk_level a)) acts)"

definition msgs_of :: "(nat \<Rightarrow> cu_env) \<Rightarrow> nat list \<Rightarrow> nat" where
  "msgs_of env ns = sum_list (map (\<lambda>n. tokens (en_inbox (env n)) + tokens (en_arrivals (env n))) ns)"

lemma run_steps_tokens:
  assumes "\<And>n. \<not> self_confirming (env n)"
  shows "high_acts (acted (rs_log (snd (run_steps env ms ma ns st)))) + tokens (ss_pending (rs_session (snd (run_steps env ms ma ns st))))
    \<le> high_acts (acted (rs_log st)) + tokens (ss_pending (rs_session st)) + msgs_of env ns"
proof (induction ns arbitrary: st)
  case (Cons n ns)
  obtain g st' where s: "run_step (env n) ms ma (int n) st = (g, st')" by force
  have "high_acts (acted (rs_log st')) + tokens (ss_pending (rs_session st')) \<le>
      high_acts (acted (rs_log st)) + tokens (ss_pending (rs_session st)) + tokens (en_inbox (env n)) + tokens (en_arrivals (env n))"
    using run_step_law [OF s] assms [of n] by (auto simp: step_law_def Let_def guarded_def high_acts_def split: prod.splits)
  moreover have "msgs_of env (n # ns) = tokens (en_inbox (env n)) + tokens (en_arrivals (env n)) + msgs_of env ns"
    by (simp add: msgs_of_def)
  ultimately show ?case using s Cons.IH [of st'] by (cases g) auto
qed (simp add: msgs_of_def)

text \<open>The actions of a run so far: at most one per step before the last allowed one, within the action budget.\<close>

definition isolated_act :: "session \<Rightarrow> action_spec \<times> effect list \<times> (pyexn + action_result) \<Rightarrow> bool" where
  "isolated_act s act = (as_display_scope (fst act) = PStr ''isolated'' \<and>
     list_all (off_real_display (executor_display (ss_isolated s))) (fst (snd act)))"

lemma steady_facts: "steady s s' \<Longrightarrow> budget_of s' k d = budget_of s k d" "steady s s' \<Longrightarrow> isolated_act s' = isolated_act s"
  "steady s s' \<Longrightarrow> steady s' s'' \<Longrightarrow> steady s s''" "steady s s"
  by (auto simp: steady_def budget_of_def isolated_act_def fun_eq_iff)

lemma guarded_act: "guarded e step s s' act \<Longrightarrow> isolated_act s act \<and> ss_actions s < budget_of s ''max_actions'' 200"
  by (auto simp: guarded_def isolated_act_def split: prod.splits)

definition run_inv :: "session \<Rightarrow> run_state \<Rightarrow> bool" where
  "run_inv s st = (steady s (rs_session st) \<and> ss_actions (rs_session st) = ss_actions s + int (length (acted (rs_log st))) \<and>
     (acted (rs_log st) \<noteq> [] \<longrightarrow> ss_actions (rs_session st) \<le> budget_of s ''max_actions'' 200) \<and>
     list_all (isolated_act s) (acted (rs_log st)))"

lemma run_inv_step:
  assumes "run_inv s st" "run_step e ms ma step st = (g, st')"
  shows "run_inv s st'"
proof -
  let ?s = "rs_session st" and ?s' = "rs_session st'"
  have l: "steady ?s ?s'" "acted (rs_log st') = acted (rs_log st) \<and> ss_actions ?s' = ss_actions ?s \<or>
       (\<exists>act. acted (rs_log st') = acted (rs_log st) @ [act] \<and> ss_actions ?s' = ss_actions ?s + 1 \<and> guarded e step ?s ?s' act)"
    using run_step_law [OF assms(2)] by (simp_all add: step_law_def Let_def)
  have s: "steady s ?s" using assms(1) by (simp add: run_inv_def)
  note t = steady_facts(3) [OF s l(1)]
  from l(2) show ?thesis
  proof (elim disjE exE conjE)
    assume "acted (rs_log st') = acted (rs_log st)" "ss_actions ?s' = ss_actions ?s"
    with assms(1) t show ?thesis by (auto simp: run_inv_def)
  next
    fix act
    assume a: "acted (rs_log st') = acted (rs_log st) @ [act]" "ss_actions ?s' = ss_actions ?s + 1" "guarded e step ?s ?s' act"
    with guarded_act [OF a(3)] assms(1) t steady_facts(1,2) [OF s] show ?thesis by (simp add: run_inv_def)
  qed
qed

lemma acts_per_step:
  "length (acted (rs_log (snd (run_steps env ms ma ns st)))) \<le>
    length (acted (rs_log st)) + length (filter (\<lambda>n. int n < budget_of (rs_session st) ''max_steps'' 200) ns)"
proof (induction ns arbitrary: st)
  case (Cons n ns)
  obtain g st' where s: "run_step (env n) ms ma (int n) st = (g, st')" by force
  have b: "budget_of (rs_session st') k d = budget_of (rs_session st) k d" for k d
    using run_step_law [OF s] by (simp add: step_law_def Let_def steady_def budget_of_def)
  have "length (acted (rs_log st')) \<le> length (acted (rs_log st)) + (if int n < budget_of (rs_session st) ''max_steps'' 200 then 1 else 0)"
    using run_step_law [OF s] by (auto simp: step_law_def Let_def guarded_def split: prod.splits)
  with s Cons.IH [of st'] b show ?case by (cases g) auto
qed simp

section \<open>Repeated failures\<close>

definition succeeded :: "pyexn + action_result \<Rightarrow> bool" where
  "succeeded r = (case r of Inl x \<Rightarrow> False | Inr res \<Rightarrow> ar_status res = ''ok'')"

definition streak_of :: "(action_spec \<times> effect list \<times> (pyexn + action_result)) list \<Rightarrow> (pyval \<times> nat) option" where
  "streak_of acts = foldl (\<lambda>k (a, w, r). next_streak (succeeded r) (as_type a) k) None acts"

lemma streak_of_simps [simp]: "streak_of [] = None" "streak_of (acts @ [(a, w, r)]) = next_streak (succeeded r) (as_type a) (streak_of acts)"
  by (simp_all add: streak_of_def)

text \<open>The loop's streak is that of its actions, and it goes on only while the streak is short.\<close>

lemma run_step_streak:
  assumes "run_step e ms ma step st = (g, st')" "rs_streak st = streak_of (acted (rs_log st))"
  shows "rs_streak st' = streak_of (acted (rs_log st'))"
    "acted (rs_log st') = acted (rs_log st) \<or>
     (\<exists>act. acted (rs_log st') = acted (rs_log st) @ [act]) \<and>
       (goes_on g \<longrightarrow> \<not> streak_stops (budget_of (rs_session st) ''max_repeat_failures'' 3) (rs_streak st'))"
proof -
  let ?st = "st\<lparr>rs_session := foldl (\<lambda>s m. enqueue m s) (rs_session st) (en_inbox e)\<rparr>"
  let ?quiet = "acted (rs_log st') = acted (rs_log st) \<and> rs_streak st' = rs_streak st"
  let ?act = "\<exists>a w r. acted (rs_log st') = acted (rs_log st) @ [(a, w, r)] \<and> rs_streak st' = next_streak (succeeded r) (as_type a) (rs_streak st) \<and>
      (goes_on g \<longrightarrow> \<not> streak_stops (budget_of (rs_session st) ''max_repeat_failures'' 3) (rs_streak st'))"
  have "?quiet \<or> ?act"
  proof (cases "en_stop e \<or> ss_actions (rs_session ?st) \<ge> ma")
    case True
    with assms(1) have "st' = ?st" by (simp add: run_step_def Let_def)
    then show ?thesis by simp
  next
    case False
    obtain snaps st1 where p: "perceive e step ?st = (snaps, st1)" by force
    then have p1: "acted (rs_log st1) = acted (rs_log st)" "rs_streak st1 = rs_streak st" by (auto simp: perceive_def Let_def)
    obtain c ev where r: "reason_stage e ms ma (rs_session st1) = (c, ev)" by force
    have ev: "acted ev = []" using r by (auto simp: reason_stage_def split: prod.splits sum.splits)
    show ?thesis
    proof (cases "\<exists>i. c = Go i")
      case no: False
      with assms(1) False p r have "st' = emit_run ev st1" by (cases c) (auto simp: run_step_def Let_def)
      with p1 ev show ?thesis by simp
    next
      case True
      then obtain i where i: "c = Go i" by blast
      with assms(1) False p r have a: "act_on e snaps i (emit_run ev st1) = (g, st')" by (simp add: run_step_def Let_def)
      obtain cg s1 ev2 where cs: "confirm_stage e i (rs_session (emit_run ev st1)) = (cg, s1, ev2)" by (metis prod_cases3)
      from a cs show ?thesis
      proof (cases rule: act_on_cases)
        case idle
        with p1 ev show ?thesis by simp
      next
        case (action j a ok st2)
        from action(3) obtain w r where x: "acted (rs_log st2) = acted (rs_log st) @ [(a, w, r)]" "rs_streak st2 = rs_streak st"
            "ok \<longleftrightarrow> succeeded r" "budget_of (rs_session st2) ''max_repeat_failures'' 3 = budget_of s1 ''max_repeat_failures'' 3"
          by (rule execute_stage_facts)
            (use p1 ev confirm_stage_frame(2) [OF cs] in \<open>auto simp: succeeded_def steady_def budget_of_def\<close>)
        have "steady (rs_session st) (rs_session st')" using run_step_law [OF assms(1)] by (simp add: step_law_def Let_def)
        then have b: "budget_of (rs_session st2) ''max_repeat_failures'' 3 = budget_of (rs_session st) ''max_repeat_failures'' 3"
          using finish_stage_facts(1) [OF action(4)] by (simp add: steady_facts(1))
        have "acted (rs_log st') = acted (rs_log st) @ [(a, w, r)] \<and> rs_streak st' = next_streak (succeeded r) (as_type a) (rs_streak st) \<and>
          (goes_on g \<longrightarrow> \<not> streak_stops (budget_of (rs_session st) ''max_repeat_failures'' 3) (rs_streak st'))"
          using x(1-3) b finish_stage_facts(2,3,4) [OF action(4)] by simp
        then show ?thesis by blast
      qed
    qed
  qed
  then have k: "rs_streak st' = streak_of (acted (rs_log st')) \<and> (acted (rs_log st') = acted (rs_log st) \<or>
     (\<exists>act. acted (rs_log st') = acted (rs_log st) @ [act]) \<and>
       (goes_on g \<longrightarrow> \<not> streak_stops (budget_of (rs_session st) ''max_repeat_failures'' 3) (rs_streak st')))"
  proof
    assume ?quiet
    with assms(2) show ?thesis by simp
  next
    assume ?act
    then obtain a w r where "acted (rs_log st') = acted (rs_log st) @ [(a, w, r)]" "rs_streak st' = next_streak (succeeded r) (as_type a) (rs_streak st)"
      "goes_on g \<longrightarrow> \<not> streak_stops (budget_of (rs_session st) ''max_repeat_failures'' 3) (rs_streak st')" by blast
    with assms(2) show ?thesis by simp
  qed
  show "rs_streak st' = streak_of (acted (rs_log st'))" by (rule conjunct1 [OF k])
  show "acted (rs_log st') = acted (rs_log st) \<or>
     (\<exists>act. acted (rs_log st') = acted (rs_log st) @ [act]) \<and>
       (goes_on g \<longrightarrow> \<not> streak_stops (budget_of (rs_session st) ''max_repeat_failures'' 3) (rs_streak st'))"
    by (rule conjunct2 [OF k])
qed

text \<open>No action follows a streak that is long enough.\<close>

lemma run_steps_streak:
  assumes "rs_streak st = streak_of (acted (rs_log st))"
    "\<And>xs ys. acted (rs_log st) = xs @ ys \<Longrightarrow> \<not> streak_stops (budget_of (rs_session st) ''max_repeat_failures'' 3) (streak_of xs)"
    "acted (rs_log (snd (run_steps env ms ma ns st))) = xs @ ys" "ys \<noteq> []"
  shows "\<not> streak_stops (budget_of (rs_session st) ''max_repeat_failures'' 3) (streak_of xs)"
  using assms
proof (induction ns arbitrary: st)
  case (Cons n ns)
  let ?b = "budget_of (rs_session st) ''max_repeat_failures'' 3"
  obtain g st' where s: "run_step (env n) ms ma (int n) st = (g, st')" by force
  note k = run_step_streak [OF s Cons.prems(1)]
  have b: "budget_of (rs_session st') ''max_repeat_failures'' 3 = ?b"
    using run_step_law [OF s] steady_facts(1) by (simp add: step_law_def Let_def)
  have short: "\<not> streak_stops ?b (streak_of us)" if "acted (rs_log st') = us @ vs" "vs \<noteq> [] \<or> goes_on g" for us vs
    using k(2)
  proof (elim disjE exE conjE)
    assume "acted (rs_log st') = acted (rs_log st)"
    with that Cons.prems(2) show ?thesis by metis
  next
    fix act
    assume a: "acted (rs_log st') = acted (rs_log st) @ [act]" "goes_on g \<longrightarrow> \<not> streak_stops ?b (rs_streak st')"
    show ?thesis
    proof (cases "vs = []")
      case True
      with that a(2) k(1) show ?thesis by simp
    next
      case False
      with that(1) a(1) obtain vs' where "acted (rs_log st) = us @ vs'" by (metis append_assoc append_butlast_last_id butlast_append butlast_snoc)
      with Cons.prems(2) show ?thesis by blast
    qed
  qed
  show ?case
  proof (cases "goes_on g")
    case True
    with s Cons.prems(3) have "acted (rs_log (snd (run_steps env ms ma ns st'))) = xs @ ys" by (cases g) (auto simp: goes_on_def)
    with Cons.IH [of st'] k(1) short True b Cons.prems(4) show ?thesis by metis
  next
    case False
    with s Cons.prems(3) have "acted (rs_log st') = xs @ ys" by (cases g) (auto simp: goes_on_def)
    with short Cons.prems(4) show ?thesis by blast
  qed
next
  case Nil
  then show ?case by auto
qed

section \<open>Runs\<close>

lemma start_run_cases:
  assumes "start_run sr env close_browser r u ctl = Inr (status, tr, lft, ctl')"
  obtains s raised st where "s = new_session sr r u" "check_request r = Inr r" "execute_run env s = (raised, st)" "tr = rs_log st"
    "status = (if raised then ''errored'' else ''completed'')"
    "\<exists>t. lft = Some (teardown close_browser t)" "map_of ctl' (rq_run_id r) = None"
proof -
  from assms obtain s ctl1 where c: "create_session sr r u ctl = Inr (s, ctl1)" by (auto simp: start_run_def ebind_eq_Inr_iff)
  note ok = create_session_ok [OF c]
  obtain raised st where x: "execute_run env s = (raised, st)" by force
  have run: "ss_run s = rq_run_id r" using ok(2) by (simp add: new_session_fields)
  show thesis
    using assms c x run ok(1,2)
    by (intro that [of s raised st])
      (auto simp: start_run_def close_session_def update_conv' delete_conv' Let_def ebind_def split: if_splits)
qed

lemma new_session_budget: "map_of (ss_budgets (new_session sr r u)) k = None \<longleftrightarrow> map_of default_budgets k = None"
proof -
  have "k \<in> dom (map_of (ss_budgets (new_session sr r u))) \<longleftrightarrow> k \<in> dom (map_of default_budgets)"
    by (simp only: new_session_fields(4) merge_keeps_keys)
  then show ?thesis by (auto simp: dom_def)
qed

lemma execute_run_inv:
  assumes "execute_run env s = (raised, st)" "ss_actions s = 0"
  shows "run_inv s st"
proof -
  let ?i = "\<lparr>rs_session = s, rs_streak = None, rs_log = []\<rparr>"
  have i: "run_inv s ?i" using assms(2) by (simp add: run_inv_def steady_facts)
  have "run_inv s (snd (run_steps env ms ma ns ?i))" for ms ma ns
    by (rule run_steps_induct [where I = "run_inv s", OF i]) (rule run_inv_step)
  with assms(1) show ?thesis unfolding execute_run_def Let_def by (metis snd_conv)
qed

lemma count_below: "length (filter (\<lambda>n. int n < m) [1..<Suc (nat m)]) = nat (m - 1)"
proof -
  have "filter (\<lambda>n. int n < m) [1..<Suc (nat m)] = [1..<nat m]"
  proof (cases "m \<le> 0")
    case False
    then have "[1..<Suc (nat m)] = [1..<nat m] @ [nat m]" by (simp add: Suc_le_eq)
    moreover have "filter (\<lambda>n. int n < m) [1..<nat m] = [1..<nat m]" by (rule filter_True) auto
    ultimately show ?thesis using False by simp
  qed simp
  then show ?thesis by (simp add: nat_diff_distrib')
qed

section \<open>An example\<close>

text \<open>Three drags to no place, each confirmed by the operator.\<close>

definition sample_answer :: pyval where
  "sample_answer = PDict [(''action_intent'', PDict [(''intent_id'', PStr ''i-7''), (''risk_level'', PStr ''high''), (''confidence'', PInt 1),
     (''action'', PDict [(''type'', PStr ''drag''), (''display_scope'', PStr ''isolated''), (''drag_to'', PInt 5),
       (''target'', PDict [(''kind'', PStr ''coordinate''), (''x'', PInt 4), (''y'', PInt 6)])])])]"

definition sample_engines :: asking where
  "sample_engines = \<lparr>ak_claude = True, ak_codex = False, ak_auto_build = False, ak_builds = (\<lambda>e. False), ak_repair = 1,
     ak_loads = (\<lambda>s. Some sample_answer), ak_reply = (\<lambda>e a. Answer ''{}''), ak_stderr = (\<lambda>e a. [])\<rparr>"

definition sample_cu_env :: "nat \<Rightarrow> cu_env" where
  "sample_cu_env n = \<lparr>en_inbox = [], en_stop = False, en_usage = (\<lambda>ps. (0, 0)), en_snaps = Some [], en_asking = (\<lambda>c ms. sample_engines),
     en_arrivals = [Note_Msg ''fine'', Token_Msg ''yes'' (Some ''i-7'')],
     en_kernel = \<lparr>k_is_owned = (\<lambda>p. False), k_policy = default_app_launch_policy, k_compile = (\<lambda>p. None), k_repr = (\<lambda>v. [])\<rparr>,
     en_now = n, en_sys = sr_sys sample_surround, en_browser = None, en_stop_after = False\<rparr>"

definition sample_end :: "bool \<times> run_state" where
  "sample_end = execute_run sample_cu_env sample_session"

lemma sample_acts:
  "map (\<lambda>(a, w, r). (as_type a, as_risk_level a, succeeded r)) (acted (rs_log (snd sample_end))) =
     replicate 3 (PStr ''drag'', PStr ''high'', False)"
  by code_simp

lemma sample_tokens: "tokens (ss_pending (rs_session (snd sample_end))) = 0"
  by code_simp
lemma sample_start:
  "\<exists>status lft ctl'. start_run sample_surround sample_cu_env (\<lambda>u. u) sample_request sample_sup [] =
     Inr (status, rs_log (snd sample_end), lft, ctl')"
  by (auto simp: start_run_def sample_created sample_end_def Let_def ebind_def split: prod.split)

lemma sample_obeys: "\<not> self_confirming (sample_cu_env n)"
proof
  assume "self_confirming (sample_cu_env n)"
  then obtain c ms prio i ev where d: "decide sample_engines prio = (Inr i, ev)" and t: "truthy (ai_confirmation_token i)"
    by (auto simp: self_confirming_def sample_cu_env_def)
  from decide_grounded [OF d] obtain e a where g: "grounded sample_engines e a i" by blast
  have x: "extract_intent (ak_loads sample_engines) ''{}'' = dict_opt (the (map_of (as_dict sample_answer) ''action_intent''))"
    by code_simp
  from g obtain dd where "dict_opt (the (map_of (as_dict sample_answer) ''action_intent'')) = Some dd" "build_intent e a dd = Inr i"
    unfolding grounded_def by (auto simp: sample_engines_def reply_text_def x [unfolded sample_engines_def, simplified] split: option.splits)
  moreover from this(1) have "dget dd ''confirmation_token'' = PNone" by (auto simp: sample_answer_def dget_def dget_or_def)
  ultimately have "ai_confirmation_token i = PNone"
    by (auto simp: build_intent_def check_intent_def ebind_eq_Inr_iff split: if_splits)
  with t show False by simp
qed

section \<open>The laws of a run\<close>



text \<open>C7: when no answer of the engines brings a confirmation token of its own, every high-risk action a run
  executes has cost a token the operator sent: such actions and the tokens still pending are together no
  more than the tokens that were pending or came in.\<close>

theorem high_risk_costs_a_token:
  assumes "execute_run env s = (raised, st)" "\<And>n. \<not> self_confirming (env n)"
  shows "high_acts (acted (rs_log st)) + tokens (ss_pending (rs_session st)) \<le>
    tokens (ss_pending s) + msgs_of env [1..<Suc (nat (budget_of s ''max_steps'' 200))]"
proof -
  let ?i = "\<lparr>rs_session = s, rs_streak = None, rs_log = []\<rparr>" and ?b = "budget_of s"
  have st: "st = snd (run_steps env (?b ''max_steps'' 200) (?b ''max_actions'' 200) [1..<Suc (nat (?b ''max_steps'' 200))] ?i)"
    using assms(1) by (simp add: execute_run_def Let_def)
  have "high_acts (acted (rs_log ?i)) = 0" by (simp add: high_acts_def)
  then show ?thesis
    using run_steps_tokens [where env = env and st = ?i, OF assms(2)] unfolding st by (metis add_0 run_state.select_convs(1))
qed

theorem high_risk_costs_a_token_witness:
  "high_acts (acted (rs_log (snd sample_end))) = 3 \<and> 3 \<le> msgs_of sample_cu_env [1..<Suc (nat (budget_of sample_session ''max_steps'' 200))]"
proof -
  have "high_acts (acted (rs_log (snd sample_end))) =
      length (filter (\<lambda>(t, l, k). high_risk l) (map (\<lambda>(a, w, r). (as_type a, as_risk_level a, succeeded r)) (acted (rs_log (snd sample_end)))))"
    by (simp add: high_acts_def filter_map comp_def case_prod_beta')
  also have "\<dots> = 3" unfolding sample_acts by simp
  finally have h: "high_acts (acted (rs_log (snd sample_end))) = 3" .
  have "execute_run sample_cu_env sample_session = (fst sample_end, snd sample_end)" by (simp add: sample_end_def)
  from high_risk_costs_a_token [OF this sample_obeys] h sample_session_waits show ?thesis by simp
qed

text \<open>Three failures in a row of actions of one type are the last actions of a run.\<close>

theorem three_failures_end_the_run:
  assumes "start_run sr env close_browser r u ctl = Inr (status, tr, lft, ctl')"
    "acted tr = xs @ [(a1, w1, r1), (a2, w2, r2), (a3, w3, r3)] @ ys"
    "\<not> succeeded r1 \<and> \<not> succeeded r2 \<and> \<not> succeeded r3" "as_type a1 = as_type a3 \<and> as_type a2 = as_type a3"
  shows "ys = []"
  using assms(1)
proof (rule start_run_cases)
  fix s raised st
  assume s: "s = new_session sr r u" and x: "execute_run env s = (raised, st)" and  l: "tr = rs_log st"
  let ?i = "\<lparr>rs_session = s, rs_streak = None, rs_log = []\<rparr>"
  have b: "budget_of s ''max_repeat_failures'' 3 = 3"
    using new_session_budget [of sr r u "''max_repeat_failures''"] by (simp add: s budget_of_def default_budgets_def)
  have stop: "streak_stops 3 (streak_of (xs @ [(a1, w1, r1), (a2, w2, r2), (a3, w3, r3)]))"
    using assms(3,4) streak_of_simps(2) [of "xs @ [(a1, w1, r1), (a2, w2, r2)]"] streak_of_simps(2) [of "xs @ [(a1, w1, r1)]"]
    by (cases "streak_of xs") (auto simp: next_streak_def streak_stops_def)
  show "ys = []"
  proof (rule ccontr)
    assume y: "ys \<noteq> []"
    have "acted (rs_log (snd (run_steps env (budget_of s ''max_steps'' 200) (budget_of s ''max_actions'' 200)
        [1..<Suc (nat (budget_of s ''max_steps'' 200))] ?i))) = (xs @ [(a1, w1, r1), (a2, w2, r2), (a3, w3, r3)]) @ ys"
      using x assms(2) l by (simp add: execute_run_def Let_def)
    from run_steps_streak [OF _ _ this y] stop b show False by (simp add: streak_stops_def)
  qed
qed

theorem three_failures_end_the_run_witness:
  "\<exists>x y z. acted (rs_log (snd sample_end)) = [x, y, z] \<and> as_type (fst x) = PStr ''drag'' \<and> \<not> succeeded (snd (snd z))"
proof -
  obtain status lft ctl' where r: "start_run sample_surround sample_cu_env (\<lambda>u. u) sample_request sample_sup [] =
     Inr (status, rs_log (snd sample_end), lft, ctl')" using sample_start by blast
  have "length (acted (rs_log (snd sample_end))) = 3" using arg_cong [OF sample_acts, of length] by simp
  then obtain a1 w1 r1 a2 w2 r2 a3 w3 r3 where
    e: "acted (rs_log (snd sample_end)) = [] @ [(a1, w1, r1), (a2, w2, r2), (a3, w3, r3)] @ drop 3 (acted (rs_log (snd sample_end)))"
    by (auto simp: numeral_3_eq_3 length_Suc_conv)
  have l: "drop 3 (acted (rs_log (snd sample_end))) = []"
    by (rule three_failures_end_the_run [OF r e]) (use sample_acts e in \<open>auto simp: numeral_3_eq_3\<close>)
  with e have "acted (rs_log (snd sample_end)) = [(a1, w1, r1), (a2, w2, r2), (a3, w3, r3)]" by simp
  with sample_acts show ?thesis by (simp add: numeral_3_eq_3)
qed

end
