(* ===== verification/Exploration.thy ===== *)
theory Exploration
  imports Adversarial
begin

text \<open>
  Choosing among candidates: \<^verbatim>\<open>execution/pipeline.py\<close> (a swarm of agents and a linear pipeline),
  \<^verbatim>\<open>workflows/tree_of_thought.py\<close>, \<^verbatim>\<open>workflows/generate_and_rank.py\<close> and \<^verbatim>\<open>execution/execution_selector.py\<close>.
  What an agent, a judge, a verifier and a test run answer are parameters; a branch has a duration, or
  none when it never ends.  The text of the judge's rubric is left out.
\<close>

section \<open>Swarms\<close>

record branch =
  br_time :: "rat option"
  br_result :: "string + string"

definition swarm_branch_timeout :: "string option \<Rightarrow> rat" where
  "swarm_branch_timeout env =
     (case py_float (env_or env ''0'') of None \<Rightarrow> 0 | Some q \<Rightarrow> q)"

text \<open>\<open>None\<close> is a branch that is waited for for ever.\<close>

definition await_branch :: "rat \<Rightarrow> branch \<Rightarrow> (string + string) option" where
  "await_branch timeout b =
     (if timeout \<le> 0 then (case br_time b of None \<Rightarrow> None | Some t \<Rightarrow> Some (br_result b))
      else Some (case br_time b of
          None \<Rightarrow> Inl ''TimeoutError''
        | Some t \<Rightarrow> if t \<le> timeout then br_result b else Inl ''TimeoutError''))"

fun outputs_of :: "('e + 'a) list \<Rightarrow> 'a list" where
  "outputs_of [] = []"
| "outputs_of (Inl e # rs) = outputs_of rs"
| "outputs_of (Inr x # rs) = x # outputs_of rs"

text \<open>The survivors; when there is none the first failure is raised.\<close>

definition gather :: "(string + string) list \<Rightarrow> string + string list" where
  "gather rs = (case rs of
       Inl e # _ \<Rightarrow> if outputs_of rs = [] then Inl e else Inr (outputs_of rs)
     | _ \<Rightarrow> Inr (outputs_of rs))"

definition swarm :: "rat \<Rightarrow> branch list \<Rightarrow> (string + string list) option" where
  "swarm timeout bs = (let rs = map (await_branch timeout) bs in
     if list_ex (\<lambda>r. r = None) rs then None else Some (gather (map the rs)))"

fun linear_pipeline :: "(string option \<Rightarrow> 'e + string) list \<Rightarrow> string option \<Rightarrow> 'e + string option" where
  "linear_pipeline [] inp = Inr inp"
| "linear_pipeline (a # as) inp = ebind (a inp) (\<lambda>out. linear_pipeline as (Some out))"

section \<open>Reading a judge\<close>

text \<open>A leading think block is dropped, up to its first end.\<close>

definition lead_think :: "string \<Rightarrow> string" where
  "lead_think s = (let t = py_lstrip s in
     if prefix ''<think>'' (py_lower t)
     then case skip_past ''</think>'' (drop 7 t) of Some rest \<Rightarrow> rest | None \<Rightarrow> s
     else s)"

definition short_number :: "string \<Rightarrow> (nat \<times> string) option" where
  "short_number s = (let d = takeWhile is_digit (take 2 s) in
     if d = [] then None else Some (read_nat d, drop (length d) s))"

text \<open>A named score: the word, at most four characters that are no digits, a number.\<close>

definition named_score :: "string \<Rightarrow> nat option" where
  "named_score s = (case find (\<lambda>w. prefix w (py_lower s)) [''score'', ''rating'', ''rate''] of
       None \<Rightarrow> None
     | Some w \<Rightarrow>
         let r = drop (length w) s; gap = takeWhile (\<lambda>c. \<not> is_digit c) r in
         if length gap > 4 then None else map_option fst (short_number (drop (length gap) r)))"

definition out_of_ten :: "string \<Rightarrow> nat option" where
  "out_of_ten s = (case short_number s of
       None \<Rightarrow> None
     | Some (n, r) \<Rightarrow> (case py_lstrip r of
           c # q \<Rightarrow> if c = CHR ''/'' \<and> prefix ''10'' (py_lstrip q) then Some n else None
         | [] \<Rightarrow> None))"

fun find_score :: "string \<Rightarrow> nat option" where
  "find_score [] = None"
| "find_score (c # cs) = (case named_score (c # cs) of
       Some n \<Rightarrow> Some n
     | None \<Rightarrow> (case out_of_ten (c # cs) of Some n \<Rightarrow> Some n | None \<Rightarrow> find_score cs))"

text \<open>All numbers of at most two digits, from the left.\<close>

fun short_numbers :: "string \<Rightarrow> nat list" where
  "short_numbers [] = []"
| "short_numbers [c] = (if is_digit c then [read_nat [c]] else [])"
| "short_numbers (c # d # cs) =
     (if is_digit c \<and> is_digit d then read_nat [c, d] # short_numbers cs
      else if is_digit c then read_nat [c] # short_numbers (d # cs)
      else short_numbers (d # cs))"

definition parse_score :: "string \<Rightarrow> nat" where
  "parse_score reply = (let body = lead_think reply in
     case find_score body of
       Some n \<Rightarrow> min 10 n
     | None \<Rightarrow> (let ns = short_numbers body in if ns = [] then 0 else min 10 (last ns)))"

definition normalize :: "string \<Rightarrow> string" where
  "normalize t = py_lower (py_strip (collapse_spaces (lead_think t)))"

section \<open>The first of the best\<close>

text \<open>\<open>max\<close> over the indices below \<open>n\<close> by a key, where the earlier of equals wins.\<close>

fun first_max :: "(nat \<Rightarrow> 'k::linorder) \<Rightarrow> nat \<Rightarrow> nat" where
  "first_max f 0 = 0"
| "first_max f (Suc 0) = 0"
| "first_max f (Suc (Suc n)) = (let b = first_max f (Suc n) in if f (Suc n) > f b then Suc n else b)"

lemma first_max_best:
  "0 < n \<Longrightarrow> first_max f n < n \<and> (\<forall>j<n. f j \<le> f (first_max f n)) \<and> (\<forall>j<first_max f n. f j < f (first_max f n))"
proof (induction f n rule: first_max.induct)
  case (3 f n)
  let ?b = "first_max f (Suc n)"
  have b: "?b < Suc n" "\<forall>j<Suc n. f j \<le> f ?b" "\<forall>j<?b. f j < f ?b" using 3 by simp_all
  show ?case
  proof (cases "f ?b < f (Suc n)")
    case True
    with b show ?thesis by (auto simp: less_Suc_eq intro: le_less_trans less_imp_le)
  next
    case False
    with b show ?thesis by (auto simp: less_Suc_eq)
  qed
qed simp_all

section \<open>Tree of thought\<close>

datatype t_event = Branch_Selected nat nat string nat "nat list"

definition selected :: "string \<Rightarrow> string list \<Rightarrow> (nat \<Rightarrow> nat) \<Rightarrow> string \<times> t_event" where
  "selected how outs f = (let w = first_max f (length outs) in
     (outs ! w, Branch_Selected (w + 1) (length outs) how (f w) (map f [0..<length outs])))"

definition votes_for :: "string list \<Rightarrow> nat \<Rightarrow> nat" where
  "votes_for outs i = length (filter (\<lambda>o'. normalize o' = normalize (outs ! i)) outs)"

definition select_by_vote :: "string list \<Rightarrow> string \<times> t_event" where
  "select_by_vote outs = selected ''vote'' outs (votes_for outs)"

text \<open>A judge that raises scores 0.\<close>

definition judge_score :: "(string \<Rightarrow> 'e + string) \<Rightarrow> string \<Rightarrow> nat" where
  "judge_score judge t = (case judge t of Inl e \<Rightarrow> 0 | Inr reply \<Rightarrow> parse_score reply)"

definition select_by_judge :: "(nat \<Rightarrow> string \<Rightarrow> 'e + string) \<Rightarrow> string list \<Rightarrow> string \<times> t_event" where
  "select_by_judge judge outs = selected ''judge'' outs (\<lambda>i. judge_score (judge i) (outs ! i))"

definition tree_of_thought :: "string \<Rightarrow> rat \<Rightarrow> branch list \<Rightarrow> (nat \<Rightarrow> string \<Rightarrow> 'e + string) \<Rightarrow> (string + string \<times> t_event list) option" where
  "tree_of_thought selector timeout bs judge =
     (if bs = [] then Some (Inl ''TreeOfThought needs at least one branch instance'')
      else case swarm timeout bs of
        None \<Rightarrow> None
      | Some (Inl e) \<Rightarrow> Some (Inl e)
      | Some (Inr outs) \<Rightarrow> Some (Inr (case outs of
            [o'] \<Rightarrow> (o', [])
          | _ \<Rightarrow> (case if selector = ''vote'' then select_by_vote outs else select_by_judge judge outs of (o', ev) \<Rightarrow> (o', [ev])))))"

section \<open>Selecting by execution\<close>

text \<open>The body of a fenced block that starts here.\<close>

definition code_at :: "string \<Rightarrow> string option" where
  "code_at s =
     (if \<not> prefix fence_mark s then None
      else let r = drop 3 s; r1 = (if prefix ''python'' (py_lower r) then drop 6 r else r);
               ws = takeWhile py_space r1 in
        if nl ! 0 \<notin> set ws then None
        else let tail = length (takeWhile (\<lambda>c. c \<noteq> nl ! 0) (rev ws));
                 body = drop (length ws - tail) r1 in
          if after_marker fence_mark body = None then None else Some (before_marker fence_mark body))"

fun first_code :: "string \<Rightarrow> string option" where
  "first_code [] = None"
| "first_code (c # cs) = (case code_at (c # cs) of Some b \<Rightarrow> Some b | None \<Rightarrow> first_code cs)"

definition extract_code :: "string \<Rightarrow> string" where
  "extract_code t = (case first_code t of Some b \<Rightarrow> py_strip b | None \<Rightarrow> py_strip (lead_think t))"

text \<open>Words one after the other, separated by white space.\<close>

fun phrase_at :: "string list \<Rightarrow> string \<Rightarrow> bool" where
  "phrase_at [] s = True"
| "phrase_at [w] s = prefix w (py_lower s)"
| "phrase_at (w # ws) s = (prefix w (py_lower s) \<and>
     (let r = drop (length w) s in r \<noteq> [] \<and> py_space (hd r) \<and> phrase_at ws (py_lstrip r)))"

fun has_phrase :: "string list \<Rightarrow> string \<Rightarrow> bool" where
  "has_phrase ws [] = False"
| "has_phrase ws (c # cs) = (phrase_at ws (c # cs) \<or> has_phrase ws cs)"

definition collection_error :: "string \<Rightarrow> bool" where
  "collection_error s = (has_phrase [''error'', ''during'', ''collection''] s \<or> has_phrase [''error'', ''collecting''] s)"

definition statuses :: "string list" where
  "statuses = [''passed'', ''failed'', ''error'', ''errors'', ''skipped'', ''xfailed'', ''xpassed'', ''deselected'', ''rerun'', ''reruns'']"

lemma py_lstrip_length: "length (py_lstrip s) \<le> length s"
  by (simp add: py_lstrip_def length_dropWhile_le)

text \<open>Counts with their status, from the left; a match ends with its status.\<close>

function summary_counts :: "string \<Rightarrow> (nat \<times> string) list" where
  "summary_counts [] = []"
| "summary_counts (c # cs) =
     (let s = c # cs; ds = takeWhile is_digit s; r = drop (length ds) s; q = py_lstrip r in
      if ds = [] \<or> q = r then summary_counts cs
      else case find (\<lambda>w. prefix w (py_lower q)) statuses of
             None \<Rightarrow> summary_counts cs
           | Some w \<Rightarrow> (read_nat ds, w) # summary_counts (drop (length w) q))"
  by pat_completeness auto
termination
proof (relation "measure length")
  fix c and cs s ds r q :: string and w
  assume "s = c # cs" "ds = takeWhile is_digit s" "r = drop (length ds) s" "q = py_lstrip r" "\<not> (ds = [] \<or> q = r)"
  then have "length ds > 0" "length q \<le> length s - length ds" "length s > 0" using py_lstrip_length [of r] by auto
  moreover from this have "length q < length s" by arith
  ultimately show "(drop (length w) q, c # cs) \<in> measure length" using \<open>s = c # cs\<close> by auto
qed auto

datatype pytest_end = Run_Failed | Exited int string string

definition score_run :: "pytest_end \<Rightarrow> nat \<times> nat" where
  "score_run e = (case e of
       Run_Failed \<Rightarrow> (0, 0)
     | Exited rc out err \<Rightarrow>
         let t = out @ nl @ err in
         if collection_error t \<or> rc \<notin> {0, 1} then (0, 0)
         else let cs = summary_counts t;
                  passed = sum_list (map fst (filter (\<lambda>(n, w). w = ''passed'') cs));
                  tot = sum_list (map fst (filter (\<lambda>(n, w). w \<noteq> ''deselected'') cs)) in
           if tot = 0 then (0, 0) else (passed, tot))"

definition select_candidate :: "(nat \<Rightarrow> string \<Rightarrow> pytest_end) \<Rightarrow> string list \<Rightarrow> (nat \<times> (nat \<times> nat) list) option" where
  "select_candidate test cands =
     (if cands = [] then None
      else let scores = map (\<lambda>i. score_run (test i (extract_code (cands ! i)))) [0..<length cands] in
        Some (first_max (\<lambda>i. fst (scores ! i)) (length cands), scores))"

section \<open>Generate and rank\<close>

record gar_state =
  ga_verified :: bool
  ga_candidates :: nat
  ga_passed :: nat

record 'e gar_env =
  ge_judge :: "(nat \<Rightarrow> string \<Rightarrow> 'e + string) option"
  ge_verify :: "('e + bool) option"
  ge_test :: "(nat \<Rightarrow> string \<Rightarrow> pytest_end) option"

definition gar_gate :: "'e gar_env \<Rightarrow> gar_state \<Rightarrow> 'e + gar_state" where
  "gar_gate env s = (case ge_verify env of
       None \<Rightarrow> Inr s
     | Some r \<Rightarrow> ebind r (\<lambda>ok. Inr (s\<lparr>ga_verified := ok, ga_passed := (if ok then 1 else 0)\<rparr>)))"

definition rank_by_judge :: "(nat \<Rightarrow> string \<Rightarrow> 'e + string) \<Rightarrow> string list \<Rightarrow> string" where
  "rank_by_judge judge cands = cands ! first_max (\<lambda>i. judge_score (judge i) (cands ! i)) (length cands)"

definition all_pass :: "nat \<times> nat \<Rightarrow> bool" where
  "all_pass pt = (snd pt > 0 \<and> fst pt = snd pt)"

definition rank_many :: "'e gar_env \<Rightarrow> string list \<Rightarrow> gar_state \<Rightarrow> 'e + string \<times> gar_state" where
  "rank_many env cands s = (case (case ge_test env of None \<Rightarrow> None | Some test \<Rightarrow> select_candidate test cands) of
       Some (b, scores) \<Rightarrow>
         Inr (cands ! b, s\<lparr>ga_verified := all_pass (scores ! b), ga_passed := length (filter all_pass scores)\<rparr>)
     | None \<Rightarrow>
         let best = (case ge_judge env of None \<Rightarrow> cands ! 0 | Some judge \<Rightarrow> rank_by_judge judge cands) in
         ebind (gar_gate env s) (\<lambda>s'. Inr (best, s')))"

definition gar_start :: gar_state where
  "gar_start = \<lparr>ga_verified = False, ga_candidates = 0, ga_passed = 0\<rparr>"

definition generate_and_rank :: "string gar_env \<Rightarrow> rat \<Rightarrow> branch list \<Rightarrow> (string + string \<times> gar_state) option" where
  "generate_and_rank env timeout bs =
     (if bs = [] then Some (Inl ''GenerateAndRankWorkflow needs at least one generator instance'')
      else case swarm timeout bs of
        None \<Rightarrow> None
      | Some (Inl e) \<Rightarrow> Some (Inl e)
      | Some (Inr cands) \<Rightarrow>
          let s = gar_start\<lparr>ga_candidates := length cands\<rparr> in
          Some (case cands of
              [c] \<Rightarrow> ebind (gar_gate env s) (\<lambda>s'. Inr (c, s'))
            | _ \<Rightarrow> rank_many env cands s))"

section \<open>What is chosen\<close>

lemma outputs_of_set: "set (outputs_of rs) = {x. Inr x \<in> set rs}"
  by (induction rs rule: outputs_of.induct) auto

lemma gather_cases:
  "gather rs = Inr outs \<Longrightarrow> outs = outputs_of rs"
  "gather rs = Inl e \<Longrightarrow> outputs_of rs = [] \<and> rs \<noteq> []"
  by (auto simp: gather_def split: list.splits sum.splits if_splits)

definition in_time :: "rat \<Rightarrow> branch \<Rightarrow> bool" where
  "in_time timeout b = (case br_time b of None \<Rightarrow> False | Some t \<Rightarrow> t \<le> timeout)"

definition survivor :: "rat \<Rightarrow> branch \<Rightarrow> string option" where
  "survivor timeout b = (if in_time timeout b then (case br_result b of Inl e \<Rightarrow> None | Inr x \<Rightarrow> Some x) else None)"

lemma await_positive: "0 < timeout \<Longrightarrow> await_branch timeout b = Some (if in_time timeout b then br_result b else Inl ''TimeoutError'')"
  by (auto simp: await_branch_def in_time_def split: option.split)

lemma outputs_survivors:
  "0 < timeout \<Longrightarrow> outputs_of (map (\<lambda>b. if in_time timeout b then br_result b else Inl ''TimeoutError'') bs) = List.map_filter (survivor timeout) bs"
proof (induction bs)
  case (Cons b bs)
  then show ?case by (cases "br_result b") (auto simp: survivor_def List.map_filter_simps)
qed (simp add: List.map_filter_simps)

text \<open>A swarm with a positive branch timeout always returns, however many branches hang: with the outputs
  of exactly the branches that answered in time, in order, and with an error only when there is none.\<close>

theorem swarm_survives:
  assumes "0 < timeout" "bs \<noteq> []"
  shows "\<exists>r. swarm timeout bs = Some r \<and>
    (case r of Inl e \<Rightarrow> List.map_filter (survivor timeout) bs = []
     | Inr outs \<Rightarrow> outs = List.map_filter (survivor timeout) bs \<and> outs \<noteq> [])"
proof -
  let ?rs = "map (\<lambda>b. if in_time timeout b then br_result b else Inl ''TimeoutError'') bs"
  have s: "swarm timeout bs = Some (gather ?rs)"
    using assms(1) by (auto simp: swarm_def Let_def await_positive list_ex_iff comp_def)
  have "outputs_of ?rs \<noteq> []" if "gather ?rs = Inr outs" for outs
  proof
    assume o: "outputs_of ?rs = []"
    obtain r rs where rs: "?rs = r # rs" using assms(2) by (cases bs) auto
    with o obtain e where "r = Inl e" by (cases r) auto
    with o rs that show False by (simp add: gather_def)
  qed
  then show ?thesis
    using s gather_cases [of ?rs] outputs_survivors [OF assms(1), of bs] by (cases "gather ?rs") auto
qed

definition sample_branches :: "branch list" where
  "sample_branches = [\<lparr>br_time = None, br_result = Inr ''a''\<rparr>, \<lparr>br_time = Some 3, br_result = Inr ''b''\<rparr>,
     \<lparr>br_time = Some 1, br_result = Inl ''wall''\<rparr>, \<lparr>br_time = Some 2, br_result = Inr ''c''\<rparr>]"

theorem swarm_survives_witness: "swarm 5 sample_branches = Some (Inr [''b'', ''c''])"
proof -
  have m: "List.map_filter (survivor 5) sample_branches = [''b'', ''c'']"
    by (simp add: sample_branches_def survivor_def in_time_def List.map_filter_simps)
  have "sample_branches \<noteq> []" by (simp add: sample_branches_def)
  from swarm_survives [OF _ this, of 5, unfolded m] obtain r where r: "swarm 5 sample_branches = Some r"
    "case r of Inl e \<Rightarrow> [''b'', ''c''] = [] | Inr outs \<Rightarrow> outs = [''b'', ''c''] \<and> outs \<noteq> []" by force
  then show ?thesis by (cases r) auto
qed

definition first_best :: "(nat \<Rightarrow> nat) \<Rightarrow> nat \<Rightarrow> nat \<Rightarrow> bool" where
  "first_best f n w = (w < n \<and> (\<forall>j<n. f j \<le> f w) \<and> (\<forall>j<w. f j < f w))"

lemma first_max_first_best: "0 < n \<Longrightarrow> first_best f n (first_max f n)"
  using first_max_best [of n f] by (simp add: first_best_def)

text \<open>Of two or more surviving branches the tree of thought returns the first of those with the most
  votes, or with the highest score of the judge, and generate-and-rank without a test run returns the
  first of those with the highest score.\<close>

theorem choice_is_first_best:
  assumes "swarm timeout bs = Some (Inr outs)" "length outs \<ge> 2" "bs \<noteq> []"
  shows "(\<exists>w. first_best (votes_for outs) (length outs) w \<and>
      tree_of_thought ''vote'' timeout bs judge = Some (Inr (outs ! w, [snd (select_by_vote outs)]))) \<and>
    (\<exists>w. first_best (\<lambda>i. judge_score (judge i) (outs ! i)) (length outs) w \<and>
      tree_of_thought ''judge'' timeout bs judge = Some (Inr (outs ! w, [snd (select_by_judge judge outs)])) \<and>
      generate_and_rank \<lparr>ge_judge = Some judge, ge_verify = None, ge_test = None\<rparr> timeout bs =
        Some (Inr (outs ! w, gar_start\<lparr>ga_candidates := length outs\<rparr>)))"
proof -
  have n: "0 < length outs" "bs \<noteq> []" using assms by auto
  from assms(2) obtain x y zs where o: "outs = x # y # zs" by (auto simp: numeral_2_eq_2 Suc_le_length_iff)
  show ?thesis
  proof (intro conjI exI)
    show "first_best (votes_for outs) (length outs) (first_max (votes_for outs) (length outs))"
      "first_best (\<lambda>i. judge_score (judge i) (outs ! i)) (length outs) (first_max (\<lambda>i. judge_score (judge i) (outs ! i)) (length outs))"
      by (rule first_max_first_best [OF n(1)])+
  qed (use assms(1) n(2) o in \<open>simp_all add: tree_of_thought_def select_by_vote_def select_by_judge_def selected_def Let_def
      generate_and_rank_def rank_many_def rank_by_judge_def gar_gate_def\<close>)
qed

theorem choice_is_first_best_witness:
  "tree_of_thought ''vote'' 5 sample_branches (\<lambda>i t. Inl ''x'') = Some (Inr (''b'', [snd (select_by_vote [''b'', ''c''])]))"
proof -
  have s: "swarm 5 sample_branches = Some (Inr [''b'', ''c''])" "sample_branches \<noteq> []" by code_simp+
  have l: "2 \<le> length [''b'', ''c'']" by simp
  obtain w where w: "first_best (votes_for [''b'', ''c'']) (length [''b'', ''c'']) w"
      "tree_of_thought ''vote'' 5 sample_branches (\<lambda>i t. Inl ''x'') = Some (Inr ([''b'', ''c''] ! w, [snd (select_by_vote [''b'', ''c''])]))"
    using conjunct1 [OF choice_is_first_best [OF s(1) l s(2), where judge = "\<lambda>i t. Inl ''x''"]] by blast
  have "votes_for [''b'', ''c''] 0 = 1" "votes_for [''b'', ''c''] 1 = 1" by code_simp+
  with w(1) have "w = 0" by (cases w) (auto simp: first_best_def less_Suc_eq)
  with w(2) show ?thesis by simp
qed

text \<open>Ranking by execution takes the first candidate with the most passed tests; it is reported verified
  exactly when its run had tests and all of them passed, and then some candidate is counted as passing.\<close>

theorem execution_ranking_honest:
  assumes "ge_test env = Some test" "cands \<noteq> []" "rank_many env cands s = Inr (best, s')"
  shows "\<exists>w. first_best (\<lambda>i. fst (score_run (test i (extract_code (cands ! i))))) (length cands) w \<and> best = cands ! w \<and>
    ga_verified s' = all_pass (score_run (test w (extract_code best))) \<and>
    (ga_verified s' \<longrightarrow> ga_passed s' > 0) \<and> ga_passed s' \<le> length cands \<and> ga_candidates s' = ga_candidates s"
proof -
  let ?f = "\<lambda>i. score_run (test i (extract_code (cands ! i)))" and ?n = "length cands"
  let ?scores = "map ?f [0..<?n]" and ?g = "\<lambda>i. fst (?f i)"
  define w where "w = first_max (\<lambda>i. fst (?scores ! i)) ?n"
  have n: "0 < ?n" using assms(2) by simp
  have w: "first_best (\<lambda>i. fst (?scores ! i)) ?n w" unfolding w_def by (rule first_max_first_best [OF n])
  then have "first_best ?g ?n w" by (auto simp: first_best_def)
  moreover have s': "best = cands ! w" "ga_verified s' = all_pass (?scores ! w)" "ga_passed s' = length (filter all_pass ?scores)"
      "ga_candidates s' = ga_candidates s"
    using assms by (auto simp: rank_many_def select_candidate_def Let_def w_def)
  moreover have "?scores ! w = ?f w" using w by (simp add: first_best_def)
  moreover have "length (filter all_pass ?scores) > 0" if "all_pass (?scores ! w)"
  proof -
    have "?scores ! w \<in> set ?scores" using w unfolding first_best_def by (intro nth_mem) simp
    with that show ?thesis by (auto simp: filter_empty_conv)
  qed
  moreover have "length (filter all_pass ?scores) \<le> ?n" using length_filter_le [of all_pass ?scores] by simp
  ultimately show ?thesis by auto
qed

definition sample_test :: "nat \<Rightarrow> string \<Rightarrow> pytest_end" where
  "sample_test i code = (if i = 0 then Exited 1 ''1 failed, 2 passed'' [] else Exited 0 ''3 passed'' [])"

definition sample_ranking :: "string gar_env" where
  "sample_ranking = \<lparr>ge_judge = None, ge_verify = None, ge_test = Some sample_test\<rparr>"

theorem execution_ranking_honest_witness:
  "\<exists>s'. rank_many sample_ranking [''x'', ''y''] gar_start = Inr (''y'', s') \<and> ga_verified s' \<and> ga_passed s' \<le> 2"
proof -
  obtain best s' where r: "rank_many sample_ranking [''x'', ''y''] gar_start = Inr (best, s')"
    by (force simp: rank_many_def sample_ranking_def select_candidate_def Let_def)
  have f: "score_run (sample_test 0 (extract_code ''x'')) = (2, 3)" "score_run (sample_test 1 (extract_code ''y'')) = (3, 3)" by code_simp+
  have e: "ge_test sample_ranking = Some sample_test" by (simp add: sample_ranking_def)
  from execution_ranking_honest [OF e _ r] obtain w where
    w: "first_best (\<lambda>i. fst (score_run (sample_test i (extract_code ([''x'', ''y''] ! i))))) 2 w" "best = [''x'', ''y''] ! w"
      "ga_verified s' = all_pass (score_run (sample_test w (extract_code best)))" "ga_passed s' \<le> 2"
    by (auto simp: numeral_2_eq_2)
  have "w \<noteq> 0"
  proof
    assume "w = 0"
    with w(1) have "fst (score_run (sample_test 1 (extract_code ''y''))) \<le> fst (score_run (sample_test 0 (extract_code ''x'')))"
      by (auto simp: first_best_def dest: spec [of _ "Suc 0"])
    with f show False by simp
  qed
  with w(1) have "w = 1" by (auto simp: first_best_def less_2_cases_iff)
  with w f r show ?thesis by (simp add: all_pass_def)
qed

text \<open>A score with a decimal is read from its last digit: 9.5 out of 10 ranks below 6.\<close>

lemma decimal_scores_misread: "parse_score ''9.5/10'' = 5" "parse_score ''6/10'' = 6"
  by code_simp+

text \<open>The counts are read anywhere in the output, so what a failing test prints is added to them.\<close>

lemma printed_counts_inflate: "score_run (Exited 1 ''Captured: 90 passed. 1 failed'' []) = (90, 91)"
  by code_simp

text \<open>A suite with a skipped test never verifies.\<close>

lemma skipped_test_blocks_verified: "\<not> all_pass (score_run (Exited 0 ''7 passed, 1 skipped'' []))"
  by code_simp

end
