(* ===== verification/Decompose.thy ===== *)
theory Decompose
  imports Adversarial
begin

text \<open>
  \<^verbatim>\<open>workflows/decompose.py\<close>: a task is tried whole and split only when that fails, down to a depth.  The
  solver and the splitter are parameters; the n-th call of either may answer differently.  \<^verbatim>\<open>workflows/spec.py\<close>:
  an author and a critic work on a design document.
\<close>

section \<open>Decomposition on failure\<close>

datatype 't decomp_node = Decomp_Node (dn_task: 't) (dn_depth: nat) (dn_ok: bool) (dn_children: "'t decomp_node list")

record dec_state =
  dc_solves :: nat
  dc_splits :: nat
  dc_depth :: nat
  dc_decompositions :: nat

record 't dec_env =
  de_solve :: "nat \<Rightarrow> 't \<Rightarrow> string \<times> bool"
  de_split :: "nat \<Rightarrow> 't \<Rightarrow> 't list"

text \<open>Python's slice \<open>xs[:n]\<close>: a negative bound counts from the end.\<close>

definition slice_to :: "int \<Rightarrow> 'a list \<Rightarrow> 'a list" where
  "slice_to n xs = take (nat (if n < 0 then max 0 (int (length xs) + n) else n)) xs"

text \<open>The levels below the root that may still be split.\<close>

definition depth_budget :: "int \<Rightarrow> int \<Rightarrow> nat" where
  "depth_budget max_depth recursion_limit = nat (min max_depth (recursion_limit - 64))"

definition join_nl :: "string list \<Rightarrow> string" where
  "join_nl xs = concat (map (\<lambda>(i, x). if i = 0 then x else nl @ x) (zip [0..<length xs] xs))"

fun solve_task :: "'t dec_env \<Rightarrow> int \<Rightarrow> nat \<Rightarrow> nat \<Rightarrow> 't \<Rightarrow> dec_state \<Rightarrow> (string \<times> bool) \<times> 't decomp_node \<times> dec_state"
and solve_tasks :: "'t dec_env \<Rightarrow> int \<Rightarrow> nat \<Rightarrow> nat \<Rightarrow> 't list \<Rightarrow> dec_state \<Rightarrow> (string list \<times> bool) \<times> 't decomp_node list \<times> dec_state" where
  "solve_task env width left depth t s =
     (let (out, ok) = de_solve env (dc_solves s) t;
          s1 = s\<lparr>dc_solves := Suc (dc_solves s), dc_depth := max (dc_depth s) depth\<rparr> in
      if ok then ((out, True), Decomp_Node t depth True [], s1)
      else case left of
        0 \<Rightarrow> ((out, False), Decomp_Node t depth False [], s1)
      | Suc l \<Rightarrow>
          let subs = slice_to width (de_split env (dc_splits s1) t); s2 = s1\<lparr>dc_splits := Suc (dc_splits s1)\<rparr> in
          if subs = [] then ((out, False), Decomp_Node t depth False [], s2)
          else case solve_tasks env width l (Suc depth) subs (s2\<lparr>dc_decompositions := Suc (dc_decompositions s2)\<rparr>) of
            ((outs, all), kids, s3) \<Rightarrow> ((join_nl outs, all), Decomp_Node t depth all kids, s3))"
| "solve_tasks env width left depth [] s = (([], True), [], s)"
| "solve_tasks env width left depth (t # ts) s =
     (case solve_task env width left depth t s of
        ((out, ok), n, s1) \<Rightarrow> (case solve_tasks env width left depth ts s1 of
           ((outs, all), ns, s2) \<Rightarrow> ((out # outs, ok \<and> all), n # ns, s2)))"

definition decompose_run :: "'t dec_env \<Rightarrow> int \<Rightarrow> int \<Rightarrow> int \<Rightarrow> 't \<Rightarrow> (string \<times> bool) \<times> 't decomp_node \<times> dec_state" where
  "decompose_run env max_depth width recursion_limit t =
     solve_task env width (depth_budget max_depth recursion_limit) 0 t
       \<lparr>dc_solves = 0, dc_splits = 0, dc_depth = 0, dc_decompositions = 0\<rparr>"

section \<open>What the recorded tree says\<close>

fun tree_leaves :: "'t decomp_node \<Rightarrow> 't decomp_node list" where
  "tree_leaves (Decomp_Node t d ok kids) = (if kids = [] then [Decomp_Node t d ok kids] else concat (map tree_leaves kids))"

fun tree_nodes :: "'t decomp_node \<Rightarrow> nat" where
  "tree_nodes (Decomp_Node t d ok kids) = Suc (sum_list (map tree_nodes kids))"

text \<open>Depths count from the root, a split node succeeded exactly when its parts did, and no node is wider or
  deeper than allowed.\<close>

fun tree_fits :: "nat \<Rightarrow> nat \<Rightarrow> nat \<Rightarrow> 't decomp_node \<Rightarrow> bool" where
  "tree_fits width left depth (Decomp_Node t d ok kids) =
     (d = depth \<and> length kids \<le> width \<and> (kids \<noteq> [] \<longrightarrow> 0 < left \<and> ok = list_all dn_ok kids) \<and>
      list_all (tree_fits width (left - 1) (Suc depth)) kids)"

fun full_tree :: "nat \<Rightarrow> nat \<Rightarrow> nat" where
  "full_tree width 0 = 1"
| "full_tree width (Suc l) = 1 + width * full_tree width l"

definition solved_once :: "'t dec_env \<Rightarrow> nat \<Rightarrow> 't decomp_node \<Rightarrow> bool" where
  "solved_once env n l = (dn_ok l \<longrightarrow> (\<exists>k<n. snd (de_solve env k (dn_task l))))"

lemma solved_once_mono: "solved_once env n l \<Longrightarrow> n \<le> m \<Longrightarrow> solved_once env m l"
  unfolding solved_once_def by (meson order_less_le_trans)

lemma slice_to_length: "0 \<le> n \<Longrightarrow> length (slice_to n xs) \<le> nat n"
  by (simp add: slice_to_def)

definition task_law :: "'t dec_env \<Rightarrow> nat \<Rightarrow> nat \<Rightarrow> nat \<Rightarrow> 't \<Rightarrow> dec_state \<Rightarrow> bool \<Rightarrow> 't decomp_node \<Rightarrow> dec_state \<Rightarrow> bool" where
  "task_law env width left depth t s ok n s' =
     (dn_ok n = ok \<and> dn_task n = t \<and> tree_fits width left depth n \<and> dc_solves s' = dc_solves s + tree_nodes n \<and>
      list_all (solved_once env (dc_solves s')) (tree_leaves n))"

lemma solve_tasks_law:
  assumes "\<And>t s out ok n s'. solve_task env width left depth t s = ((out, ok), n, s') \<Longrightarrow> task_law env w left depth t s ok n s'"
    "solve_tasks env width left depth ts s = ((outs, all), ns, s')"
  shows "all = list_all dn_ok ns \<and> map dn_task ns = ts \<and> list_all (tree_fits w left depth) ns \<and>
      dc_solves s' = dc_solves s + sum_list (map tree_nodes ns) \<and>
      list_all (\<lambda>n. list_all (solved_once env (dc_solves s')) (tree_leaves n)) ns"
  using assms(2)
proof (induction ts arbitrary: s outs all ns s')
  case (Cons t ts)
  obtain out ok n s1 where one: "solve_task env width left depth t s = ((out, ok), n, s1)" by (metis prod.collapse)
  obtain outs2 all2 ns2 s2 where rest: "solve_tasks env width left depth ts s1 = ((outs2, all2), ns2, s2)" by (metis prod.collapse)
  from Cons.prems one rest have e: "all = (ok \<and> all2)" "ns = n # ns2" "s' = s2" by auto
  note l = assms(1) [OF one, unfolded task_law_def] and r = Cons.IH [OF rest]
  from r have "dc_solves s1 \<le> dc_solves s2" by simp
  with l have "list_all (solved_once env (dc_solves s2)) (tree_leaves n)" by (auto simp: list_all_iff intro: solved_once_mono)
  with e l r show ?case by auto
qed simp

lemma solve_task_law:
  assumes "0 \<le> width" "solve_task env width left depth t s = ((out, ok), n, s')"
  shows "task_law env (nat width) left depth t s ok n s'"
  using assms(2)
proof (induction left arbitrary: depth t s out ok n s')
  case 0
  then show ?case by (auto simp: task_law_def solved_once_def Let_def split: if_splits prod.splits) (metis lessI snd_conv)+
next
  case (Suc left)
  obtain o1 k where a: "de_solve env (dc_solves s) t = (o1, k)" by force
  define s1 where "s1 = s\<lparr>dc_solves := Suc (dc_solves s), dc_depth := max (dc_depth s) depth\<rparr>"
  define subs where "subs = slice_to width (de_split env (dc_splits s1) t)"
  define s2 where "s2 = s1\<lparr>dc_splits := Suc (dc_splits s1), dc_decompositions := Suc (dc_decompositions s1)\<rparr>"
  show ?case
  proof (cases "k \<or> subs = []")
    case True
    with Suc.prems a have "n = Decomp_Node t depth k []" "ok = k" "dc_solves s' = Suc (dc_solves s)"
      by (auto simp: subs_def s1_def Let_def split: if_splits)
    with a show ?thesis by (auto simp: task_law_def solved_once_def)
  next
    case False
    obtain outs all kids s3 where r: "solve_tasks env width left (Suc depth) subs s2 = ((outs, all), kids, s3)" by (metis prod.collapse)
    with Suc.prems a False have e: "n = Decomp_Node t depth all kids" "ok = all" "s' = s3"
      by (auto simp: subs_def s1_def s2_def Let_def)
    note l = solve_tasks_law [where w = "nat width", OF Suc.IH r]
    have "dc_solves s2 = Suc (dc_solves s)" by (simp add: s2_def s1_def)
    moreover have "length kids = length subs" using arg_cong [where f = length, OF conjunct1 [OF conjunct2 [OF l]]] by simp
    moreover have "length subs \<le> nat width" unfolding subs_def by (rule slice_to_length [OF assms(1)])
    ultimately have len: "length kids \<le> nat width" "kids \<noteq> []" "dc_solves s2 = Suc (dc_solves s)" using False by auto
    have leaves: "list_all (solved_once env (dc_solves s3)) (tree_leaves n)"
      using conjunct2 [OF conjunct2 [OF conjunct2 [OF conjunct2 [OF l]]]] len(2)
      unfolding e list_all_iff by simp
    have fits: "tree_fits (nat width) (Suc left) depth n" using l len(1) len(2) unfolding e by simp
    have "dc_solves s3 = dc_solves s + tree_nodes n" using l len(3) unfolding e by simp
    with leaves fits show ?thesis unfolding task_law_def e by simp
  qed
qed

lemma tree_fits_size: "tree_fits width left depth n \<Longrightarrow> tree_nodes n \<le> full_tree width left"
proof (induction width left depth n rule: tree_fits.induct)
  case (1 width left depth t d ok kids)
  show ?case
  proof (cases "kids = []")
    case True
    then show ?thesis by (cases left) simp_all
  next
    case False
    with 1 obtain l where l: "left = Suc l" by (cases left) auto
    have "sum_list (map tree_nodes kids) \<le> sum_list (map (\<lambda>k. full_tree width l) kids)"
      using 1 l by (intro sum_list_mono) (auto simp: list_all_iff)
    also have "\<dots> \<le> width * full_tree width l" using 1(2) by (simp add: sum_list_triv)
    finally show ?thesis by (simp add: l)
  qed
qed

lemma leaves_decide: "tree_fits width left depth n \<Longrightarrow> dn_ok n = list_all dn_ok (tree_leaves n)"
proof (induction width left depth n rule: tree_fits.induct)
  case (1 width left depth t d ok kids)
  then show ?case by (cases "kids = []") (auto simp: list_all_iff)
qed

text \<open>A decomposition succeeds exactly when every leaf of the recorded tree does; a successful leaf was solved
  by an attempt of its own, every node of the tree was attempted once, the tree is no deeper and no wider
  than allowed, and so the number of attempts is bounded.\<close>

theorem decomposition_exact:
  assumes "decompose_run env max_depth width recursion_limit t = ((out, ok), n, s)" "0 \<le> width"
  shows "ok = list_all dn_ok (tree_leaves n) \<and> dn_task n = t \<and>
    tree_fits (nat width) (depth_budget max_depth recursion_limit) 0 n \<and>
    list_all (solved_once env (dc_solves s)) (tree_leaves n) \<and> dc_solves s = tree_nodes n \<and>
    dc_solves s \<le> full_tree (nat width) (depth_budget max_depth recursion_limit)"
  using solve_task_law [OF assms(2) assms(1) [unfolded decompose_run_def]] tree_fits_size leaves_decide
  unfolding task_law_def by fastforce

definition sample_dec :: "nat dec_env" where
  "sample_dec = \<lparr>de_solve = (\<lambda>k t. (''r'', t \<le> 2)), de_split = (\<lambda>k t. [t div 2, t - t div 2])\<rparr>"

theorem decomposition_exact_witness:
  "\<exists>(n :: nat decomp_node) (s :: dec_state). fst (decompose_run sample_dec 2 6 1000 4) = ([CHR ''r'', CHR 0x0A, CHR ''r''], True) \<and>
     list_all dn_ok (tree_leaves n) \<and> dc_solves s = tree_nodes n \<and> dc_solves s = 3"
proof -
  obtain n s where r: "decompose_run sample_dec 2 6 1000 4 = (([CHR ''r'', CHR 0x0A, CHR ''r''], True), n, s)"
    and c: "dc_solves s = 3"
  proof -
    have a: "fst (decompose_run sample_dec 2 6 1000 4) = ([CHR ''r'', CHR 0x0A, CHR ''r''], True)" by code_simp
    have b: "dc_solves (snd (snd (decompose_run sample_dec 2 6 1000 4))) = 3" by code_simp
    show thesis using that [of "fst (snd (decompose_run sample_dec 2 6 1000 4))" "snd (snd (decompose_run sample_dec 2 6 1000 4))"] a b
      by (metis prod.collapse)
  qed
  have w: "(0::int) \<le> 6" by simp
  from decomposition_exact [OF r w] c r have "fst (decompose_run sample_dec 2 6 1000 4) = ([CHR ''r'', CHR 0x0A, CHR ''r''], True) \<and>
     list_all dn_ok (tree_leaves n) \<and> dc_solves s = tree_nodes n \<and> dc_solves s = 3" by simp
  then show ?thesis by (intro exI)
qed

section \<open>Design documents\<close>

definition numbered :: "string list \<Rightarrow> string" where
  "numbered ss = join_nl (map (\<lambda>(i, x). show_nat (i + 1) @ ''. '' @ x) (zip [0..<length ss] ss))"

text \<open>The long dash of the first text is written as a hyphen.\<close>

definition format_constraints :: "string list option \<Rightarrow> string" where
  "format_constraints cs = (case cs of
       None \<Rightarrow> ''(none specified - derive sensible defaults and record them as Assumptions)''
     | Some [] \<Rightarrow> ''(none specified - derive sensible defaults and record them as Assumptions)''
     | Some xs \<Rightarrow> join_nl (map (\<lambda>c. ''- '' @ py_strip c) (filter (\<lambda>c. py_strip c \<noteq> []) xs)))"

text \<open>What a prompt carries: goal, constraints, sections, document and critique.\<close>

datatype sp_prompt =
    Architect string string string
  | Critic string string string
  | Revise string string string

record sp_env =
  sp_author :: "nat \<Rightarrow> sp_prompt \<Rightarrow> string option"
  sp_critic :: "nat \<Rightarrow> sp_prompt \<Rightarrow> string option"

record sp_state =
  sp_used :: nat
  sp_approved :: bool
  sp_stalled :: bool
  sp_drafts :: "(string \<times> nat) list"

definition emit_draft :: "string \<Rightarrow> sp_state \<Rightarrow> sp_state" where
  "emit_draft d s = s\<lparr>sp_drafts := sp_drafts s @ [(d, sp_used s)]\<rparr>"

text \<open>The rounds that are left; \<open>None\<close> is an exception of an agent.\<close>

fun spec_loop :: "sp_env \<Rightarrow> string \<Rightarrow> string \<Rightarrow> string \<Rightarrow> nat \<Rightarrow> nat \<Rightarrow> string \<Rightarrow> string option \<Rightarrow> sp_state \<Rightarrow> string option \<times> sp_state" where
  "spec_loop env goal cs secs 0 i draft prev s = (Some draft, s)"
| "spec_loop env goal cs secs (Suc r) i draft prev s =
     (let s1 = s\<lparr>sp_used := i + 1\<rparr> in
      case sp_critic env i (Critic goal cs draft) of
        None \<Rightarrow> (None, s1)
      | Some critique \<Rightarrow>
          if is_approved critique then (Some draft, s1\<lparr>sp_approved := True\<rparr>)
          else let fb = norm_feedback critique in
            if prev = Some fb then (Some draft, s1\<lparr>sp_stalled := True\<rparr>)
            else if r = 0 then (Some draft, s1)
            else case sp_author env (i + 1) (Revise draft critique secs) of
              None \<Rightarrow> (None, s1)
            | Some d \<Rightarrow> spec_loop env goal cs secs r (i + 1) d (Some fb) (emit_draft d s1))"

definition spec_execute :: "sp_env \<Rightarrow> int \<Rightarrow> string list \<Rightarrow> string \<Rightarrow> string list option \<Rightarrow> string option \<times> sp_state" where
  "spec_execute env max_iterations sections goal constraints =
     (let s = \<lparr>sp_used = 0, sp_approved = False, sp_stalled = False, sp_drafts = []\<rparr>;
          g = py_strip goal; cs = format_constraints constraints; secs = numbered sections in
      case sp_author env 0 (Architect g cs secs) of
        None \<Rightarrow> (None, s)
      | Some d \<Rightarrow> spec_loop env g cs secs (nat (max 1 max_iterations)) 0 d None (emit_draft d s))"

text \<open>The outcome of the remaining rounds: every draft so far was flushed, and the last one is returned.\<close>

definition spec_law :: "sp_env \<Rightarrow> string \<Rightarrow> string \<Rightarrow> nat \<Rightarrow> string option \<times> sp_state \<Rightarrow> bool" where
  "spec_law env goal cs limit res = (case res of (out, s) \<Rightarrow>
     (case out of None \<Rightarrow> True
      | Some d \<Rightarrow> length (sp_drafts s) = sp_used s \<and> sp_drafts s \<noteq> [] \<and> fst (last (sp_drafts s)) = d \<and>
          (sp_approved s \<longleftrightarrow> (\<exists>c. sp_critic env (sp_used s - 1) (Critic goal cs d) = Some c \<and> is_approved c))) \<and>
     0 < sp_used s \<and> sp_used s \<le> limit \<and> \<not> (sp_approved s \<and> sp_stalled s) \<and>
     (out = None \<longrightarrow> \<not> sp_approved s))"

lemma spec_loop_law:
  assumes "length (sp_drafts s) = Suc i" "fst (last (sp_drafts s)) = draft" "\<not> sp_approved s" "\<not> sp_stalled s"
  shows "spec_law env goal cs (i + Suc r) (spec_loop env goal cs secs (Suc r) i draft prev s)"
  using assms
proof (induction r arbitrary: i draft prev s)
  case 0
  then show ?case by (auto simp: spec_law_def Let_def split: option.split)
next
  case (Suc r)
  show ?case
  proof (cases "\<exists>critique d. sp_critic env i (Critic goal cs draft) = Some critique \<and> \<not> is_approved critique \<and> prev \<noteq> Some (norm_feedback critique) \<and>
      sp_author env (i + 1) (Revise draft critique secs) = Some d")
    case True
    then obtain critique d where c: "sp_critic env i (Critic goal cs draft) = Some critique" "\<not> is_approved critique"
      "prev \<noteq> Some (norm_feedback critique)" "sp_author env (i + 1) (Revise draft critique secs) = Some d" by blast
    let ?s = "emit_draft d (s\<lparr>sp_used := i + 1\<rparr>)"
    have "spec_law env goal cs ((i + 1) + Suc r) (spec_loop env goal cs secs (Suc r) (i + 1) d (Some (norm_feedback critique)) ?s)"
      by (rule Suc.IH) (use Suc.prems in \<open>simp_all add: emit_draft_def\<close>)
    moreover have "spec_loop env goal cs secs (Suc (Suc r)) i draft prev s =
        spec_loop env goal cs secs (Suc r) (i + 1) d (Some (norm_feedback critique)) ?s"
      using c by (simp only: spec_loop.simps(2)) (simp add: Let_def)
    ultimately show ?thesis by simp
  next
    case False
    then have "spec_loop env goal cs secs (Suc (Suc r)) i draft prev s =
      (let s1 = s\<lparr>sp_used := i + 1\<rparr> in
       case sp_critic env i (Critic goal cs draft) of None \<Rightarrow> (None, s1)
       | Some critique \<Rightarrow> if is_approved critique then (Some draft, s1\<lparr>sp_approved := True\<rparr>)
           else if prev = Some (norm_feedback critique) then (Some draft, s1\<lparr>sp_stalled := True\<rparr>) else (None, s1))"
      by (subst spec_loop.simps(2)) (auto simp: Let_def split: option.split)
    then show ?thesis using Suc.prems
      by (auto simp: spec_law_def Let_def split: option.split)
  qed
qed

text \<open>Whatever author and critic answer, a design run returns the last draft that was flushed; it is approved
  exactly when the critic approved that very draft in the last round, never both approved and stalled, and
  takes between one round and the limit, with one draft per round.\<close>

theorem spec_outcome:
  assumes "spec_execute env max_iterations sections goal constraints = (Some d, s)"
  shows "fst (last (sp_drafts s)) = d \<and> length (sp_drafts s) = sp_used s \<and> 0 < sp_used s \<and> sp_used s \<le> nat (max 1 max_iterations) \<and>
    (sp_approved s \<longleftrightarrow> (\<exists>c. sp_critic env (sp_used s - 1) (Critic (py_strip goal) (format_constraints constraints) d) = Some c \<and> is_approved c)) \<and>
    \<not> (sp_approved s \<and> sp_stalled s)"
proof -
  let ?s = "\<lparr>sp_used = 0, sp_approved = False, sp_stalled = False, sp_drafts = []\<rparr>"
  let ?g = "py_strip goal" and ?cs = "format_constraints constraints"
  obtain r where r: "nat (max 1 max_iterations) = Suc r" by (metis One_nat_def gr0_conv_Suc max.cobounded1 nat_mono nat_one_as_int not_less_eq_eq not_gr_zero zero_less_nat_eq zero_less_one order_less_le_trans)
  from assms obtain d0 where d0: "sp_author env 0 (Architect ?g ?cs (numbered sections)) = Some d0"
    "spec_loop env ?g ?cs (numbered sections) (Suc r) 0 d0 None (emit_draft d0 ?s) = (Some d, s)"
    by (auto simp: spec_execute_def Let_def r split: option.splits)
  have "spec_law env ?g ?cs (0 + Suc r) (spec_loop env ?g ?cs (numbered sections) (Suc r) 0 d0 None (emit_draft d0 ?s))"
    by (rule spec_loop_law) (simp_all add: emit_draft_def)
  then show ?thesis unfolding d0(2) r by (auto simp: spec_law_def)
qed

definition sample_sp :: sp_env where
  "sample_sp = \<lparr>sp_author = (\<lambda>n p. Some (''draft '' @ show_nat n)),
     sp_critic = (\<lambda>n p. Some (if n = 0 then ''no storage section'' else ''APPROVED''))\<rparr>"

theorem spec_outcome_witness:
  "\<exists>s. spec_execute sample_sp 3 [''Overview''] ''a queue'' None = (Some ''draft 1'', s) \<and> sp_approved s \<and> sp_used s = 2 \<and>
     fst (last (sp_drafts s)) = ''draft 1''"
proof -
  define s where "s = snd (spec_execute sample_sp 3 [''Overview''] ''a queue'' None)"
  have a: "fst (spec_execute sample_sp 3 [''Overview''] ''a queue'' None) = Some ''draft 1''"
    and u: "sp_used s = 2" "sp_approved s" unfolding s_def by code_simp+
  then have r: "spec_execute sample_sp 3 [''Overview''] ''a queue'' None = (Some ''draft 1'', s)" by (simp add: s_def prod_eq_iff)
  from spec_outcome [OF r] r u show ?thesis by blast
qed

end
