(* ===== verification/Routing.thy ===== *)
theory Routing
  imports Py_Prelude
begin

text \<open>
  What surrounds a run: \<^verbatim>\<open>routing/policy.py\<close> picks the mode of \<^verbatim>\<open>--mode auto\<close>, \<^verbatim>\<open>execution/ledger.py\<close> says
  afterwards how far the result can be trusted, and \<^verbatim>\<open>interaction/decision_engine.py\<close> answers a question of
  a run.  Long dashes of the texts are written as hyphens.
\<close>

section \<open>Choice of a mode\<close>

record task_features =
  tf_instruction :: string
  tf_has_test_cmd :: bool
  tf_has_context :: bool
  tf_prompt_chars :: nat
  tf_branches :: "int option"
  tf_chain :: nat

record routing_decision =
  rd_mode :: string
  rd_reason :: string
  rd_branches :: "int option"
  rd_max_iterations :: "int option"

definition plan_keywords :: "string list" where
  "plan_keywords = [''plan'', ''phases'', ''multi-step'', ''multistep'', ''spec'',
     ''architecture'', ''design and implement'', ''whole feature'']"

definition ambiguity_keywords :: "string list" where
  "ambiguity_keywords = [''unsure'', ''try'', ''figure out'', ''explore'', ''investigate'',
     ''open ended'', ''open-ended'', ''multiple approaches'']"

definition tiny_prompt_chars :: nat where
  "tiny_prompt_chars = 400"

definition plan_prompt_chars :: nat where
  "plan_prompt_chars = 1200"

definition looks_like_plan :: "string \<Rightarrow> nat \<Rightarrow> bool" where
  "looks_like_plan instruction chars = (plan_prompt_chars < chars \<or> any_in plan_keywords (py_lower instruction))"

definition looks_ambiguous :: "string \<Rightarrow> int option \<Rightarrow> bool" where
  "looks_ambiguous instruction branches =
     ((case branches of None \<Rightarrow> False | Some k \<Rightarrow> 1 < k) \<or> any_in ambiguity_keywords (py_lower instruction))"

definition verdict_for :: "string \<Rightarrow> string \<Rightarrow> int option \<Rightarrow> routing_decision" where
  "verdict_for mode reason k = \<lparr>rd_mode = mode, rd_reason = reason, rd_branches = k, rd_max_iterations = None\<rparr>"

text \<open>\<open>task.explicit_branches or 3\<close>.\<close>

definition wished_branches :: "int option \<Rightarrow> int" where
  "wished_branches b = (case b of None \<Rightarrow> 3 | Some k \<Rightarrow> if k = 0 then 3 else k)"

definition choose_mode :: "task_features \<Rightarrow> routing_decision" where
  "choose_mode t =
     (let is_plan = looks_like_plan (tf_instruction t) (tf_prompt_chars t);
          ambiguous = looks_ambiguous (tf_instruction t) (tf_branches t) in
      if \<not> tf_has_test_cmd t \<and> is_plan then
        verdict_for ''master'' ''No verifier; multi-step language detected - master mode plans the work'' None
      else if \<not> tf_has_test_cmd t then
        verdict_for ''adversarial'' ''No verifier; adversarial gen+critic loop is the strongest non-test gate'' None
      else if tf_prompt_chars t < tiny_prompt_chars \<and> \<not> tf_has_context t then
        verdict_for ''feedback'' ''Tiny precise task with verifier - feedback loop is fast and direct'' None
      else if ambiguous then
        verdict_for ''vote'' ''Test-graded ambiguity - vote K candidates in isolated workspaces'' (Some (max 3 (wished_branches (tf_branches t))))
      else if is_plan then
        verdict_for ''pat'' ''Multi-step task with verifier - PaT skips plan tax on easy paths'' None
      else verdict_for ''pat'' ''Default with verifier: PaT tries direct first, escalates only on failure'' None)"

definition given :: "string option \<Rightarrow> bool" where
  "given s = (case s of None \<Rightarrow> False | Some x \<Rightarrow> x \<noteq> [] \<and> py_strip x \<noteq> [])"

definition from_dispatch_args :: "string \<Rightarrow> string option \<Rightarrow> string option \<Rightarrow> int \<Rightarrow> string list \<Rightarrow> task_features" where
  "from_dispatch_args instruction context test_cmd branches chain =
     \<lparr>tf_instruction = instruction, tf_has_test_cmd = given test_cmd, tf_has_context = given context,
      tf_prompt_chars = length instruction, tf_branches = (if 3 < branches then Some branches else None),
      tf_chain = length chain\<rparr>"

definition auto_decisions :: "(string \<times> string) list" where
  "auto_decisions =
     [(''master'', ''R1: no verifier + multi-step language''),
      (''adversarial'', ''R2: no verifier, general''),
      (''feedback'', ''R3: test_cmd + tiny precise''),
      (''vote'', ''R4: test_cmd + ambiguity / explicit branches''),
      (''pat'', ''R5: test_cmd + multi-step language''),
      (''pat'', ''R6: test_cmd, general default'')]"

lemma any_in_around: "any_in ks s \<Longrightarrow> any_in ks (a @ s @ b)"
  unfolding any_in_def list_ex_iff by (meson sublist_append_leftI sublist_append_rightI sublist_order.order_trans)

text \<open>Text around an instruction never takes the plan or the ambiguity out of it, also where a keyword is a
  part of another word.\<close>

lemma plan_is_monotone:
  "looks_like_plan i n \<Longrightarrow> n \<le> m \<Longrightarrow> looks_like_plan (a @ i @ b) m"
  unfolding looks_like_plan_def py_lower_def map_append using any_in_around by fastforce

lemma retry_is_ambiguous: "looks_ambiguous ''Add a retry limit'' None"
proof -
  have "py_lower ''Add a retry limit'' = ''add a re'' @ ''try'' @ '' limit''" by code_simp
  then have "sublist ''try'' (py_lower ''Add a retry limit'')" unfolding sublist_def by blast
  then show ?thesis by (simp add: looks_ambiguous_def any_in_def ambiguity_keywords_def)
qed

text \<open>\<^verbatim>\<open>--mode auto\<close> picks a mode of the documented table; master and adversarial exactly when there is no
  verifier, feedback exactly for a short instruction with a verifier and no context, and a number of branches
  exactly with vote, then the operator's number but at least three; with a verifier an operator's wish for more
  than three branches is followed unless the instruction is short and has no context.\<close>

theorem auto_mode_exact:
  assumes "d = choose_mode (from_dispatch_args instruction context test_cmd branches chain)"
  shows "rd_mode d \<in> set (map fst auto_decisions) \<and>
    (rd_mode d \<in> {''master'', ''adversarial''} \<longleftrightarrow> \<not> given test_cmd) \<and>
    (rd_mode d = ''feedback'' \<longleftrightarrow> given test_cmd \<and> length instruction < 400 \<and> \<not> given context) \<and>
    (rd_branches d \<noteq> None \<longleftrightarrow> rd_mode d = ''vote'') \<and>
    (rd_mode d = ''vote'' \<longrightarrow> rd_branches d = Some (max 3 branches)) \<and>
    (given test_cmd \<and> 3 < branches \<and> (400 \<le> length instruction \<or> given context) \<longrightarrow>
       rd_mode d = ''vote'' \<and> rd_branches d = Some branches)"
  unfolding assms
  by (auto simp: choose_mode_def from_dispatch_args_def verdict_for_def auto_decisions_def tiny_prompt_chars_def
      looks_ambiguous_def wished_branches_def Let_def)

theorem auto_mode_exact_witness:
  "let d = choose_mode (from_dispatch_args ''go'' (Some ''notes'') (Some ''pytest'') 5 [''claude'']) in
     rd_mode d = ''vote'' \<and> rd_branches d = Some 5"
  using auto_mode_exact [OF refl, of "''go''" "Some ''notes''" "Some ''pytest''" 5 "[''claude'']"]
  by (simp add: given_def py_strip_def py_lstrip_def py_space_def Let_def)

section \<open>The confidence of a result\<close>

text \<open>The attributes a workflow may have; \<open>None\<close> is one without the attribute.\<close>

record workflow_signals =
  wf_verified :: "pyval option"
  wf_approved :: "pyval option"
  wf_stalled :: "pyval option"
  wf_iterations :: "pyval option"

definition flag :: "pyval option \<Rightarrow> bool" where
  "flag v = (case v of None \<Rightarrow> False | Some x \<Rightarrow> truthy x)"

definition note_verified :: string where
  "note_verified = ''A programmatic verifier passed - high confidence.''"

definition note_approved :: string where
  "note_approved = ''No verifier; the LLM critic approved - medium confidence, add a --test-cmd to harden.''"

definition note_unverified :: string where
  "note_unverified = ''Nothing confirmed this output (no verifier, loop stalled or '' @
     ''hit its cap). Treat as suspect; review or re-run with --test-cmd.''"

definition note_stalled :: string where
  "note_stalled = ''The run was ABORTED (watchdog / run-level stall) before completing '' @
     ''- any in-loop verification covers only the steps that ran, not the '' @
     ''whole build. Treat as failed; review or re-run.''"

definition note_failed :: string where
  "note_failed = ''The run produced no output.''"

definition note_unverified_with_verifier :: string where
  "note_unverified_with_verifier = ''A verifier was configured but the final output was not confirmed green '' @
     ''(the loop hit its cap or the last attempt failed). Treat as suspect; review the run.''"

definition confidence_of :: "workflow_signals \<Rightarrow> bool \<Rightarrow> bool \<Rightarrow> string" where
  "confidence_of w output aborted =
     (if aborted then (if output then ''stalled'' else ''failed'')
      else if flag (wf_verified w) then ''verified''
      else if flag (wf_approved w) then ''approved''
      else if output then ''unverified'' else ''failed'')"

definition ledger_note :: "string \<Rightarrow> bool \<Rightarrow> string" where
  "ledger_note c had_verifier =
     (if c = ''unverified'' \<and> had_verifier then note_unverified_with_verifier
      else if c = ''verified'' then note_verified
      else if c = ''approved'' then note_approved
      else if c = ''unverified'' then note_unverified
      else if c = ''stalled'' then note_stalled else note_failed)"

definition telemetry_keys :: "string list" where
  "telemetry_keys = [''wall_ms'', ''out_bytes'', ''watchdog_reason'', ''worker'', ''model'', ''effort'',
     ''baseline_ok'', ''baseline_error_hash'', ''baseline_duration_ms'', ''verifier_delta'']"

definition telemetry_rows :: "pydict option \<Rightarrow> pydict" where
  "telemetry_rows t = (case t of None \<Rightarrow> []
     | Some d \<Rightarrow> map (\<lambda>k. (k, dget d k)) (filter (\<lambda>k. dget d k \<noteq> PNone) telemetry_keys))"

definition build_ledger :: "workflow_signals \<Rightarrow> bool \<Rightarrow> bool \<Rightarrow> pydict option \<Rightarrow> bool \<Rightarrow> pydict" where
  "build_ledger w had_verifier output telemetry aborted =
     (let c = confidence_of w output aborted in
      [(''confidence'', PStr c), (''verified'', PBool (flag (wf_verified w))),
       (''critic_approved'', PBool (flag (wf_approved w))), (''stalled'', PBool (flag (wf_stalled w))),
       (''iterations_used'', case wf_iterations w of None \<Rightarrow> PNone | Some v \<Rightarrow> v),
       (''had_verifier'', PBool had_verifier), (''note'', PStr (ledger_note c had_verifier))] @ telemetry_rows telemetry)"

lemma dget_map_filter:
  "dget (map (\<lambda>k. (k, f k)) (filter P ks)) k = (if k \<in> set ks \<and> P k then f k else PNone)"
  by (induction ks) auto

lemma dget_skip: "k \<notin> set (map fst xs) \<Longrightarrow> dget (xs @ ys) k = dget ys k"
  by (induction xs) auto

lemma dget_telemetry:
  "dget (telemetry_rows (Some t)) k = (if k \<in> set telemetry_keys then dget t k else PNone)"
  by (simp add: telemetry_rows_def dget_map_filter)

lemma row_values_set: "(k, v) \<in> set (telemetry_rows t) \<Longrightarrow> v \<noteq> PNone"
  by (auto simp: telemetry_rows_def split: option.splits)

lemma telemetry_keys_fresh:
  "distinct telemetry_keys \<and> set telemetry_keys \<inter>
     {''confidence'', ''verified'', ''critic_approved'', ''stalled'', ''iterations_used'', ''had_verifier'', ''note''} = {}"
  by (simp add: telemetry_keys_def)

lemma confidence_cases:
  "confidence_of w output aborted = ''verified'' \<longleftrightarrow> \<not> aborted \<and> flag (wf_verified w)"
  "confidence_of w output aborted = ''approved'' \<longleftrightarrow> \<not> aborted \<and> flag (wf_approved w) \<and> \<not> flag (wf_verified w)"
  "confidence_of w output aborted = ''stalled'' \<longleftrightarrow> aborted \<and> output"
  "confidence_of w output aborted = ''unverified'' \<longleftrightarrow>
     \<not> aborted \<and> output \<and> \<not> flag (wf_verified w) \<and> \<not> flag (wf_approved w)"
  by (simp_all add: confidence_of_def)

lemma ledger_head:
  assumes "r = build_ledger w had_verifier output (Some t) aborted"
  shows "dget r ''confidence'' = PStr (confidence_of w output aborted)"
    "dget r ''note'' = PStr (ledger_note (confidence_of w output aborted) had_verifier)"
  unfolding assms build_ledger_def Let_def by simp_all

lemma ledger_telemetry:
  assumes "k \<in> set telemetry_keys"
  shows "dget (build_ledger w had_verifier output (Some t) aborted) k = dget t k"
proof -
  have "k \<notin> {''confidence'', ''verified'', ''critic_approved'', ''stalled'', ''iterations_used'', ''had_verifier'', ''note''}"
    by (rule mp [OF spec [OF iffD1 [OF disjoint_iff conjunct2 [OF telemetry_keys_fresh]]] assms])
  then have "dget (build_ledger w had_verifier output (Some t) aborted) k = dget (telemetry_rows (Some t)) k"
    unfolding build_ledger_def Let_def by (intro dget_skip) (simp only: list.map fst_conv list.set not_False_eq_True)
  then show ?thesis using assms by (simp only: dget_telemetry if_True)
qed

lemma note_third:
  "note_verified ! 2 = CHR ''p''" "note_approved ! 2 = CHR '' ''" "note_unverified ! 2 = CHR ''t''"
  "note_stalled ! 2 = CHR ''e''" "note_failed ! 2 = CHR ''e''" "note_unverified_with_verifier ! 2 = CHR ''v''"
  unfolding note_verified_def note_approved_def note_unverified_def note_stalled_def note_failed_def
    note_unverified_with_verifier_def by (simp_all add: nth_append)

lemma notes_differ:
  "note_verified \<noteq> note_unverified" "note_approved \<noteq> note_unverified" "note_stalled \<noteq> note_unverified"
  "note_failed \<noteq> note_unverified" "note_unverified_with_verifier \<noteq> note_unverified"
  using note_third by fastforce+

text \<open>The ledger calls a result verified exactly when the workflow did and the run was not aborted, and
  approved exactly when only the critic did; an aborted run is stalled or failed; with a verifier it never
  says that there was none; and every measured value is in the row as it was measured.\<close>

theorem ledger_is_honest:
  assumes "r = build_ledger w had_verifier output (Some t) aborted"
  shows "(dget r ''confidence'' = PStr ''verified'' \<longleftrightarrow> \<not> aborted \<and> flag (wf_verified w)) \<and>
    (dget r ''confidence'' = PStr ''approved'' \<longleftrightarrow> \<not> aborted \<and> flag (wf_approved w) \<and> \<not> flag (wf_verified w)) \<and>
    (aborted \<longrightarrow> dget r ''confidence'' \<in> {PStr ''stalled'', PStr ''failed''}) \<and>
    (had_verifier \<longrightarrow> dget r ''note'' \<noteq> PStr note_unverified) \<and>
    (\<forall>k \<in> set telemetry_keys. dget r k = dget t k)"
proof (intro conjI ballI impI)
  fix k assume "k \<in> set telemetry_keys"
  then show "dget r k = dget t k" unfolding assms by (rule ledger_telemetry)
next
  assume had_verifier
  then show "dget r ''note'' \<noteq> PStr note_unverified"
    unfolding ledger_head [OF assms]
    using notes_differ by (simp add: ledger_note_def)
qed (simp_all add: ledger_head [OF assms] confidence_cases, simp add: confidence_of_def)

definition sample_signals :: workflow_signals where
  "sample_signals = \<lparr>wf_verified = Some (PBool True), wf_approved = None, wf_stalled = None, wf_iterations = Some (PInt 2)\<rparr>"

theorem ledger_is_honest_witness:
  "let r = build_ledger sample_signals True True (Some [(''wall_ms'', PInt 12)]) True in
     dget r ''confidence'' = PStr ''stalled'' \<and> dget r ''wall_ms'' = PInt 12"
  using ledger_is_honest [OF refl, of sample_signals True True "[(''wall_ms'', PInt 12)]" True]
  by (simp add: Let_def telemetry_keys_def build_ledger_def confidence_of_def)

section \<open>A question of a run\<close>

definition question_prompt :: "string \<Rightarrow> string" where
  "question_prompt q = ''Please provide a concise and correct answer to the following system/user question '' @
     ''so execution can proceed automatically:'' @ nl @ nl @ q"

text \<open>Who was asked, and the answer; the resolver is an agent, and the operator a line of the input.\<close>

definition resolve_question :: "bool \<Rightarrow> (string \<Rightarrow> string) option \<Rightarrow> string \<Rightarrow> string \<Rightarrow> bool \<times> string" where
  "resolve_question auto_mode resolver line q = (case (if auto_mode then resolver else None) of
       Some f \<Rightarrow> (True, f (question_prompt q))
     | None \<Rightarrow> (False, py_strip line))"

end
