(* ===== verification/Probe.thy ===== *)
theory Probe
  imports Complex_Main
begin

text \<open>
  \<^verbatim>\<open>execution/complexity_probe.py\<close>: the slope of the running time over the size, both on a logarithmic scale,
  as a measure of complexity.  Floats are real numbers here, so rounding is left out.  The candidate under
  measurement is a parameter: the n-th call either raises or takes some seconds.
\<close>

section \<open>Regression\<close>

definition fmean :: "real list \<Rightarrow> real" where
  "fmean xs = sum_list xs / real (length xs)"

definition slope_of :: "real list \<Rightarrow> real list \<Rightarrow> real" where
  "slope_of xs ys = (let mx = fmean xs; my = fmean ys in
     sum_list (map (\<lambda>(x, y). (x - mx) * (y - my)) (zip xs ys)) / sum_list (map (\<lambda>x. (x - mx) ^ 2) xs))"

definition goodness :: "real \<Rightarrow> real \<Rightarrow> real" where
  "goodness residual variation =
     (if variation = 0 then (if residual = 0 then 1 else 0) else max 0 (min 1 (1 - residual / variation)))"

definition fit_line :: "real list \<Rightarrow> real list \<Rightarrow> real \<times> real \<times> real" where
  "fit_line xs ys =
     (if length xs < 2 then (0, (if ys = [] then 0 else hd ys), 0)
      else let mx = fmean xs; my = fmean ys in
        if sum_list (map (\<lambda>x. (x - mx) ^ 2) xs) = 0 then (0, my, 0)
        else let slope = slope_of xs ys; intercept = my - slope * mx in
          (slope, intercept,
           goodness (sum_list (map (\<lambda>(x, y). (y - (slope * x + intercept)) ^ 2) (zip xs ys)))
             (sum_list (map (\<lambda>y. (y - my) ^ 2) ys))))"

definition single_predictor_r2 :: "real list \<Rightarrow> real list \<Rightarrow> real" where
  "single_predictor_r2 xs ys =
     (if length xs < 2 then 0
      else let intercept = fmean (map (\<lambda>(x, y). y - x) (zip xs ys)) in
        goodness (sum_list (map (\<lambda>(x, y). (y - (x + intercept)) ^ 2) (zip xs ys)))
          (sum_list (map (\<lambda>y. (y - fmean ys) ^ 2) ys)))"

section \<open>Classification\<close>

definition usable :: "(int \<times> real) list \<Rightarrow> (int \<times> real) list" where
  "usable samples = filter (\<lambda>(n, s). 1 < n \<and> 0 < s) samples"

definition complexity_label :: "real \<Rightarrow> bool \<Rightarrow> string" where
  "complexity_label e nlogn_fits =
     (if e < 0.3 then ''O(1)''
      else if e < 0.85 then ''O(log n)''
      else if e < 1.4 then (if 1.05 \<le> e \<and> nlogn_fits then ''O(n log n)'' else ''O(n)'')
      else if e < 2.5 then ''O(n^2)''
      else if e < 3.5 then ''O(n^3)''
      else ''super-polynomial'')"

definition classify_samples :: "(int \<times> real) list \<Rightarrow> real \<times> real \<times> string" where
  "classify_samples samples = (let us = usable samples in
     if length us < 2 then (0, 0, ''O(1)'')
     else let xs = map (\<lambda>(n, s). log 2 (real_of_int n)) us; ys = map (\<lambda>(n, s). log 2 s) us in
       case fit_line xs ys of (e, intercept, r2) \<Rightarrow>
         (e, r2, complexity_label e
           (r2 < single_predictor_r2 (map (\<lambda>(n, s). log 2 (real_of_int n * log 2 (real_of_int n))) us) ys)))"

definition low_confidence_r2 :: real where
  "low_confidence_r2 = 0.5"

definition check_budget :: "real \<Rightarrow> real \<Rightarrow> real \<Rightarrow> real \<Rightarrow> bool" where
  "check_budget e r2 budget margin = (r2 < low_confidence_r2 \<or> e \<le> budget + margin)"

section \<open>Measurement\<close>

datatype probe_note =
    Raised_in_warmup int
  | Slow_warmup int real
  | Raised int
  | Too_slow int real
  | Few_samples
  | Low_confidence real

text \<open>The k-th call, at size n: \<open>None\<close> when it raises, or the seconds it takes.\<close>

type_synonym probe_candidate = "nat \<Rightarrow> int \<Rightarrow> real option"

definition too_slow :: "real option \<Rightarrow> real \<Rightarrow> bool" where
  "too_slow limit s = (case limit of None \<Rightarrow> False | Some l \<Rightarrow> l < s)"

text \<open>The calls of one size: the timings so far, or the note the measurement stops with.\<close>

fun timed_calls :: "probe_candidate \<Rightarrow> real option \<Rightarrow> (int \<Rightarrow> probe_note) \<Rightarrow> (int \<Rightarrow> real \<Rightarrow> probe_note) \<Rightarrow> int \<Rightarrow> nat \<Rightarrow> nat \<Rightarrow> (probe_note + real list) \<times> nat" where
  "timed_calls f limit raised slow n 0 k = (Inr [], k)"
| "timed_calls f limit raised slow n (Suc r) k =
     (case f k n of
        None \<Rightarrow> (Inl (raised n), Suc k)
      | Some s \<Rightarrow>
          if too_slow limit s then (Inl (slow n s), Suc k)
          else case timed_calls f limit raised slow n r (Suc k) of
            (Inl e, k') \<Rightarrow> (Inl e, k')
          | (Inr ts, k') \<Rightarrow> (Inr (s # ts), k'))"

fun measure_sizes :: "probe_candidate \<Rightarrow> real option \<Rightarrow> nat \<Rightarrow> nat \<Rightarrow> int list \<Rightarrow> nat \<Rightarrow> (int \<times> real) list \<times> probe_note list" where
  "measure_sizes f limit repeats warmup [] k = ([], [])"
| "measure_sizes f limit repeats warmup (n # ns) k =
     (case timed_calls f limit Raised_in_warmup Slow_warmup n warmup k of
        (Inl e, k1) \<Rightarrow> ([], [e])
      | (Inr ws, k1) \<Rightarrow>
          (case timed_calls f limit Raised Too_slow n repeats k1 of
             (Inl e, k2) \<Rightarrow> ([], [e])
           | (Inr ts, k2) \<Rightarrow>
               (case measure_sizes f limit repeats warmup ns k2 of
                  (samples, notes) \<Rightarrow> ((if ts = [] then samples else (n, Min (set ts)) # samples), notes))))"

record complexity_result =
  cx_samples :: "(int \<times> real) list"
  cx_exponent :: real
  cx_r2 :: real
  cx_label :: string
  cx_within :: "bool option"
  cx_budget :: "real option"
  cx_notes :: "probe_note list"

definition measure_scaling :: "probe_candidate \<Rightarrow> int list \<Rightarrow> nat \<Rightarrow> nat \<Rightarrow> real option \<Rightarrow> real option \<Rightarrow> real \<Rightarrow> complexity_result" where
  "measure_scaling f sizes repeats warmup limit budget margin =
     (case measure_sizes f limit repeats warmup sizes 0 of (samples, notes) \<Rightarrow>
      case classify_samples samples of (e, r2, label) \<Rightarrow>
        \<lparr>cx_samples = samples, cx_exponent = e, cx_r2 = r2, cx_label = label,
         cx_within = map_option (\<lambda>b. check_budget e r2 b margin) budget, cx_budget = budget,
         cx_notes = notes @ (if length samples < 2 then [Few_samples]
                             else if r2 < low_confidence_r2 then [Low_confidence r2] else [])\<rparr>)"

section \<open>A power law is measured exactly\<close>

lemma sum_zip_map: "sum_list (map (\<lambda>(x, y). g x y) (zip xs (map f xs))) = sum_list (map (\<lambda>x. g x (f x)) xs)"
  by (induction xs) auto

lemma fmean_affine: "xs \<noteq> [] \<Longrightarrow> fmean (map (\<lambda>x. k * x + b) xs) = k * fmean xs + b"
  by (simp add: fmean_def sum_list_addf sum_list_const_mult sum_list_triv add_divide_distrib)

lemma spread_positive:
  assumes "x \<in> set xs" "y \<in> set xs" "x \<noteq> y"
  shows "sum_list (map (\<lambda>z. (z - c) ^ 2) xs) \<noteq> (0::real)"
proof
  assume "sum_list (map (\<lambda>z. (z - c) ^ 2) xs) = 0"
  then have "\<forall>v \<in> set (map (\<lambda>z. (z - c) ^ 2) xs). v = 0"
    by (subst (asm) sum_list_nonneg_eq_0_iff) auto
  then have "z = c" if "z \<in> set xs" for z using that by simp
  then show False using assms by metis
qed

lemma fit_affine:
  assumes "x \<in> set xs" "y \<in> set xs" "x \<noteq> y"
  shows "fit_line xs (map (\<lambda>x. k * x + b) xs) = (k, b, 1)"
proof -
  let ?ss = "sum_list (map (\<lambda>x. (x - fmean xs) ^ 2) xs)"
  have len: "\<not> length xs < 2"
    using assms by (cases xs; cases "tl xs") auto
  have ne: "xs \<noteq> []" using assms(1) by auto
  have ss: "?ss \<noteq> 0" by (rule spread_positive [OF assms])
  have "sum_list (map (\<lambda>x. (x - fmean xs) * (k * x + b - (k * fmean xs + b))) xs) = k * ?ss"
    by (simp add: sum_list_const_mult [symmetric] power2_eq_square algebra_simps)
  then have slope: "slope_of xs (map (\<lambda>x. k * x + b) xs) = k"
    using ss by (simp add: slope_of_def Let_def sum_zip_map fmean_affine [OF ne])
  have icpt: "k * fmean xs + b - k * fmean xs = b" by simp
  show ?thesis
    using len ss by (simp add: fit_line_def Let_def slope fmean_affine [OF ne] icpt sum_zip_map goodness_def)
qed

definition power_law :: "real \<Rightarrow> real \<Rightarrow> (int \<times> real) list \<Rightarrow> bool" where
  "power_law c k samples = (0 < c \<and> (\<forall>(n, s) \<in> set samples. 1 < n \<and> s = c * real_of_int n powr k) \<and>
     1 < card (fst ` set samples))"

lemma two_of_card: "1 < card A \<Longrightarrow> \<exists>a \<in> A. \<exists>b \<in> A. a \<noteq> b"
  using card_le_Suc0_iff_eq [of A] card.infinite [of A] by (cases "finite A") fastforce+

lemma power_law_log:
  assumes "power_law c k samples"
  shows "map (\<lambda>(n, s). log 2 s) samples = map (\<lambda>x. k * x + log 2 c) (map (\<lambda>(n, s). log 2 (real_of_int n)) samples)"
proof -
  have "log 2 s = k * log 2 (real_of_int n) + log 2 c" if "(n, s) \<in> set samples" for n s
  proof -
    have n: "1 < n" and s: "s = c * real_of_int n powr k" and c: "0 < c" using assms that by (auto simp: power_law_def)
    have "0 < real_of_int n powr k" using n by simp
    then show ?thesis unfolding s using c by (simp add: log_mult_pos log_powr)
  qed
  then show ?thesis by auto
qed

lemma goodness_le_1: "goodness a b \<le> 1"
  by (simp add: goodness_def)

lemma single_predictor_le_1: "single_predictor_r2 xs ys \<le> 1"
  using goodness_le_1 by (simp add: single_predictor_r2_def Let_def)

lemma power_law_usable: "power_law c k samples \<Longrightarrow> usable samples = samples"
  unfolding usable_def power_law_def by (auto intro!: filter_True)

lemma power_law_classified:
  assumes "power_law c k samples"
  shows "classify_samples samples = (k, 1, complexity_label k False)"
proof -
  let ?xs = "map (\<lambda>(n, s). log 2 (real_of_int n)) samples"
  let ?ys = "map (\<lambda>(n, s). log 2 s) samples"
  obtain a b where ab: "a \<in> fst ` set samples" "b \<in> fst ` set samples" "a \<noteq> b"
    using two_of_card assms unfolding power_law_def by blast
  with assms have pos: "1 < a" "1 < b" by (auto simp: power_law_def)
  have "log 2 (real_of_int a) \<noteq> log 2 (real_of_int b)" using pos ab(3) by (simp add: log_def)
  moreover have "log 2 (real_of_int a) \<in> set ?xs" "log 2 (real_of_int b) \<in> set ?xs" using ab by force+
  ultimately have fit: "fit_line ?xs ?ys = (k, log 2 c, 1)" unfolding power_law_log [OF assms] by (intro fit_affine)
  have "\<not> length samples < 2" using ab by (cases samples; cases "tl samples") auto
  then show ?thesis
    using single_predictor_le_1 by (simp add: classify_samples_def Let_def power_law_usable [OF assms] fit not_less [symmetric])
qed

section \<open>The minimum filters the noise\<close>

text \<open>A candidate of true cost \<open>t n\<close> whose calls are disturbed by \<open>noise\<close>.\<close>

definition noisy :: "(int \<Rightarrow> real) \<Rightarrow> (nat \<Rightarrow> real) \<Rightarrow> probe_candidate" where
  "noisy t noise = (\<lambda>k n. Some (t n + noise k))"

lemma timed_calls_noisy:
  "timed_calls (noisy t noise) None raised slow n m k = (Inr (map (\<lambda>j. t n + noise (k + j)) [0..<m]), k + m)"
proof (induction m arbitrary: k)
  case (Suc m)
  have "[0..<Suc m] = 0 # map Suc [0..<m]" by (simp add: map_Suc_upt upt_conv_Cons)
  then show ?case using Suc [of "Suc k"] by (simp add: noisy_def too_slow_def comp_def)
qed simp

lemma least_of_noisy:
  assumes "\<forall>k. 0 \<le> noise k" "\<exists>j<m. noise (k + j) = 0"
  shows "Min (set (map (\<lambda>j. t n + noise (k + j)) [0..<m])) = (t n :: real)"
proof (rule Min_eqI)
  obtain j where "j < m" "noise (k + j) = 0" using assms(2) by blast
  then show "t n \<in> set (map (\<lambda>j. t n + noise (k + j)) [0..<m])" by (auto intro!: image_eqI [of _ _ j])
qed (use assms(1) in auto)

lemma measured_samples:
  assumes "\<forall>k. 0 \<le> noise k" "\<forall>k. \<exists>j<repeats. noise (k + j) = 0"
  shows "measure_sizes (noisy t noise) None repeats warmup sizes k = (map (\<lambda>n. (n, t n)) sizes, [])"
proof (induction sizes arbitrary: k)
  case (Cons n ns)
  have "repeats \<noteq> 0" using assms(2) by auto
  moreover have "\<exists>j<repeats. noise (k + warmup + j) = 0" using assms(2) by blast
  ultimately show ?case
    using Cons least_of_noisy [OF assms(1), where m = repeats and k = "k + warmup" and t = t and n = n]
    by (simp add: timed_calls_noisy del: set_map)
qed simp

lemma power_law_samples:
  assumes "0 < c" "\<forall>n \<in> set sizes. 1 < n" "1 < card (set sizes)"
  shows "power_law c k (map (\<lambda>n. (n, c * real_of_int n powr k)) sizes)"
  using assms by (simp add: power_law_def image_image)

text \<open>A candidate whose cost is a power of the size is measured exactly: if every run of calls has one that
  nothing disturbed, the exponent is the power, the fit is perfect, the label is the one of the power, and the
  budget holds exactly when the power is within it.\<close>

theorem power_law_measured:
  assumes "0 < c" "\<forall>n \<in> set sizes. 1 < n" "1 < card (set sizes)"
    "\<forall>k. 0 \<le> noise k" "\<forall>k. \<exists>j<repeats. noise (k + j) = 0"
    "r = measure_scaling (noisy (\<lambda>n. c * real_of_int n powr p) noise) sizes repeats warmup None (Some budget) margin"
  shows "cx_exponent r = p \<and> cx_r2 r = 1 \<and> cx_label r = complexity_label p False \<and>
    cx_within r = Some (p \<le> budget + margin) \<and> cx_samples r = map (\<lambda>n. (n, c * real_of_int n powr p)) sizes \<and> cx_notes r = []"
proof -
  let ?ss = "map (\<lambda>n. (n, c * real_of_int n powr p)) sizes"
  have m: "measure_sizes (noisy (\<lambda>n. c * real_of_int n powr p) noise) None repeats warmup sizes 0 = (?ss, [])"
    by (rule measured_samples [OF assms(4,5)])
  have cl: "classify_samples ?ss = (p, 1, complexity_label p False)"
    by (rule power_law_classified [OF power_law_samples [OF assms(1,2,3)]])
  have "\<not> length sizes < 2" using assms(3) card_length [of sizes] by linarith
  then show ?thesis unfolding assms(6) measure_scaling_def m split cl
    by (simp add: check_budget_def low_confidence_r2_def)
qed

theorem power_law_measured_witness:
  "let r = measure_scaling (noisy (\<lambda>n. 3 * real_of_int n powr 2) (\<lambda>k. if even k then 0 else 1)) [8, 16, 32] 2 1 None (Some 1) 0.35 in
     cx_exponent r = 2 \<and> cx_label r = ''O(n^2)'' \<and> cx_within r = Some False"
proof -
  have n: "\<forall>k :: nat. \<exists>j<2. (if even (k + j) then 0 else 1) = (0::real)"
  proof
    fix k :: nat
    show "\<exists>j<2. (if even (k + j) then 0 else 1) = (0::real)"
      by (rule exI [of _ "if even k then 0 else 1"]) simp
  qed
  have "(0::real) < 3" "\<forall>n \<in> set [8, 16, 32]. (1::int) < n" "1 < card (set [8, 16, 32 :: int])"
    "\<forall>k. 0 \<le> (if even (k :: nat) then 0 else 1 :: real)" by simp_all
  note law = power_law_measured [OF this n refl, where p = 2 and warmup = 1 and budget = 1 and margin = "0.35"]
  have "complexity_label 2 False = ''O(n^2)''" "((2::real) \<le> 1 + 0.35) = False" by (simp_all add: complexity_label_def)
  with law show ?thesis unfolding Let_def by (simp only: simp_thms)
qed

text \<open>A candidate too slow for its first size has no samples, and passes every budget.\<close>

lemma hopeless_candidate_passes:
  assumes "0 < warmup" "\<forall>n. \<exists>s. f 0 n = Some s \<and> l < s"
  shows "cx_within (measure_scaling f (n # ns) repeats warmup (Some l) (Some budget) margin) = Some True"
proof -
  obtain w where w: "warmup = Suc w" using assms(1) gr0_implies_Suc by blast
  obtain s where "f 0 n = Some s" "l < s" using assms(2) by blast
  then show ?thesis
    by (simp add: measure_scaling_def w too_slow_def classify_samples_def usable_def Let_def check_budget_def low_confidence_r2_def)
qed

end
