(* ===== verification/Overrides.thy ===== *)
theory Overrides
  imports Py_Prelude "HOL-Library.AList"
begin

text \<open>
  \<^verbatim>\<open>harness/effort_overrides.py\<close>: the flags that choose models and efforts, resolved for each role into a map
  from providers to what is overridden.  An error or an advisory note is a constructor that holds what its
  text quotes.
\<close>

section \<open>Tables\<close>

definition effort_tiers :: "string list" where
  "effort_tiers = [''low'', ''medium'', ''high'', ''max'']"

definition effort_capable :: "string list" where
  "effort_capable = [''codex'', ''agy'', ''claude'']"

type_synonym setting = "(string \<times> string) list"

definition effort_profiles :: "(string \<times> (string \<times> setting) list) list" where
  "effort_profiles =
     [(''low'', [(''codex'', [(''model'', ''gpt-5.4-mini''), (''effort'', ''low'')]),
                 (''agy'', [(''effort'', ''low'')]), (''claude'', [(''effort'', ''low'')])]),
      (''balanced'', [(''codex'', [(''model'', ''standard''), (''effort'', ''high'')]),
                      (''agy'', [(''model'', ''pro''), (''effort'', ''high'')]),
                      (''claude'', [(''model'', ''opus''), (''effort'', ''high'')])]),
      (''max'', [(''codex'', [(''model'', ''gpt-5.5''), (''effort'', ''max'')]),
                 (''agy'', [(''model'', ''pro''), (''effort'', ''high'')]),
                 (''claude'', [(''model'', ''opus''), (''effort'', ''high'')])])]"

definition codex_models :: "string list" where
  "codex_models = [''gpt-5.5'', ''gpt-5.4'', ''gpt-5.4-mini'', ''gpt-5.3-codex-spark'']"

section \<open>Flags\<close>

datatype ov_error =
    Bad_effort string string
  | Comma_scalar string string
  | Malformed string string
  | Unknown_profile string
  | Bad_scale rat

datatype ov_note =
    Unknown_model string string
  | Grok_no_effort string
  | Grok_dropped string string
  | Unvalidated_model string string string
  | Not_in_chain string string
  | Architect_effort string string
  | Architect_model string string
  | Architect_ignored
  | Profile_is_base string

type_synonym ov = "(string \<times> setting) list"

definition validate_effort :: "string \<Rightarrow> string \<Rightarrow> ov_error + unit" where
  "validate_effort value loc = (if value \<in> set effort_tiers then Inr () else Inl (Bad_effort value loc))"

definition validate_model :: "string \<Rightarrow> string \<Rightarrow> string \<Rightarrow> ov_note list \<Rightarrow> ov_note list" where
  "validate_model provider value loc notes =
     (if provider = ''codex'' \<and> value \<notin> set codex_models then notes @ [Unknown_model value loc] else notes)"

text \<open>\<open>s.split(d)\<close>, which is never empty, and \<open>s.split(d, 1)\<close>.\<close>

fun split_char :: "char \<Rightarrow> string \<Rightarrow> string list" where
  "split_char d [] = [[]]"
| "split_char d (c # cs) =
     (if c = d then [] # split_char d cs
      else case split_char d cs of [] \<Rightarrow> [[c]] | w # ws \<Rightarrow> (c # w) # ws)"

definition split_once :: "char \<Rightarrow> string \<Rightarrow> string \<times> string" where
  "split_once d s = (takeWhile (\<lambda>c. c \<noteq> d) s, drop 1 (dropWhile (\<lambda>c. c \<noteq> d) s))"

fun kv_parts :: "string \<Rightarrow> string list \<Rightarrow> setting \<Rightarrow> ov_error + setting" where
  "kv_parts flag [] out = Inr out"
| "kv_parts flag (p # ps) out =
     (let part = py_strip p in
      if part = [] then kv_parts flag ps out
      else if CHR ''='' \<notin> set part then Inl (Malformed flag part)
      else let (k, v) = split_once (CHR ''='') part; key = py_strip k; val = py_strip v in
        if key = [] \<or> val = [] then Inl (Malformed flag part)
        else kv_parts flag ps (AList.update key val out))"

definition parse_kv_map :: "string option \<Rightarrow> string \<Rightarrow> ov_error + setting" where
  "parse_kv_map spec flag = (case spec of
       None \<Rightarrow> Inr []
     | Some s0 \<Rightarrow> let s = py_strip s0 in
         if s = [] then Inr []
         else if CHR ''='' \<notin> set s then
           (if CHR '','' \<in> set s then Inl (Comma_scalar flag s) else Inr [(''*'', s)])
         else kv_parts flag (split_char (CHR '','') s) [])"

section \<open>Layers\<close>

text \<open>\<open>ov.setdefault(p, {})[f] = v\<close>, and \<open>ov.setdefault(p, {}).update(preset)\<close>.\<close>

definition setting_of :: "ov \<Rightarrow> string \<Rightarrow> setting" where
  "setting_of m p = (case map_of m p of None \<Rightarrow> [] | Some d \<Rightarrow> d)"

definition set_field :: "ov \<Rightarrow> string \<Rightarrow> string \<Rightarrow> string \<Rightarrow> ov" where
  "set_field m p f v = AList.update p (AList.update f v (setting_of m p)) m"

definition set_preset :: "ov \<Rightarrow> string \<Rightarrow> setting \<Rightarrow> ov" where
  "set_preset m p preset = AList.update p (fold (\<lambda>(f, v). AList.update f v) preset (setting_of m p)) m"

definition field_of :: "ov \<Rightarrow> string \<Rightarrow> string \<Rightarrow> string option" where
  "field_of m p f = map_of (setting_of m p) f"

definition effort_on_chain :: "string list \<Rightarrow> string \<Rightarrow> ov \<Rightarrow> ov" where
  "effort_on_chain chain value m = fold (\<lambda>p m. if p \<in> set effort_capable then set_field m p ''effort'' value else m) chain m"

definition apply_effort_scalar :: "string list \<Rightarrow> string \<Rightarrow> string \<Rightarrow> ov \<times> ov_note list \<Rightarrow> ov_error + ov \<times> ov_note list" where
  "apply_effort_scalar chain value loc s = (case s of (m, notes) \<Rightarrow>
     ebind (validate_effort value loc) (\<lambda>_.
       Inr (effort_on_chain chain value m, if ''grok'' \<in> set chain then notes @ [Grok_no_effort loc] else notes)))"

definition apply_model_to_lead :: "string list \<Rightarrow> string \<Rightarrow> string \<Rightarrow> ov \<times> ov_note list \<Rightarrow> ov \<times> ov_note list" where
  "apply_model_to_lead chain value loc s = (case s of (m, notes) \<Rightarrow> (case chain of
       [] \<Rightarrow> (m, notes)
     | lead # _ \<Rightarrow>
         let notes1 = validate_model lead value loc notes in
         (set_field m lead ''model'' value,
          if lead \<noteq> ''codex'' then notes1 @ [Unvalidated_model loc value lead] else notes1)))"

text \<open>The entry for every provider: an effort is checked when a provider of the chain takes it.\<close>

definition apply_star :: "string list \<Rightarrow> string \<Rightarrow> string \<Rightarrow> string \<Rightarrow> ov \<times> ov_note list \<Rightarrow> ov_error + ov \<times> ov_note list" where
  "apply_star chain value field flag s = (case s of (m, notes) \<Rightarrow>
     if field = ''effort'' then
       ebind (if list_ex (\<lambda>p. p \<in> set effort_capable) chain then validate_effort value flag else Inr ()) (\<lambda>_.
         Inr (effort_on_chain chain value m, if ''grok'' \<in> set chain then notes @ [Grok_no_effort flag] else notes))
     else Inr (apply_model_to_lead chain value flag (m, notes)))"

definition apply_entry :: "string list \<Rightarrow> string \<Rightarrow> string \<Rightarrow> string \<times> string \<Rightarrow> ov \<times> ov_note list \<Rightarrow> ov_error + ov \<times> ov_note list" where
  "apply_entry chain field flag kv s = (case (kv, s) of ((p, v), (m, notes)) \<Rightarrow>
     if p = ''*'' then Inr s
     else if p = ''grok'' \<and> field = ''effort'' then Inr (m, notes @ [Grok_dropped flag v])
     else ebind (if field = ''effort'' then ebind (validate_effort v flag) (\<lambda>_. Inr notes)
                 else Inr (validate_model p v flag notes)) (\<lambda>notes1.
       Inr (set_field m p field v, if p \<notin> set chain then notes1 @ [Not_in_chain flag p] else notes1)))"

fun apply_entries :: "string list \<Rightarrow> string \<Rightarrow> string \<Rightarrow> setting \<Rightarrow> ov \<times> ov_note list \<Rightarrow> ov_error + ov \<times> ov_note list" where
  "apply_entries chain field flag [] s = Inr s"
| "apply_entries chain field flag (kv # kvs) s = ebind (apply_entry chain field flag kv s) (apply_entries chain field flag kvs)"

definition apply_map :: "string list \<Rightarrow> setting \<Rightarrow> string \<Rightarrow> string \<Rightarrow> ov \<times> ov_note list \<Rightarrow> ov_error + ov \<times> ov_note list" where
  "apply_map chain kv field flag s =
     ebind (case map_of kv ''*'' of None \<Rightarrow> Inr s | Some v \<Rightarrow> apply_star chain v field flag s)
       (apply_entries chain field flag kv)"

record ov_flags =
  of_mode :: string
  of_profile :: "string option"
  of_gen_effort :: "string option"
  of_gen_model :: "string option"
  of_critic_effort :: "string option"
  of_critic_model :: "string option"
  of_arch_effort :: "string option"
  of_arch_model :: "string option"
  of_codex_model :: "string option"
  of_effort_map :: "string option"
  of_model_map :: "string option"
  of_scale :: "rat option"

definition profile_layer :: "string option \<Rightarrow> string list \<Rightarrow> ov" where
  "profile_layer profile chain = (case profile of
       None \<Rightarrow> []
     | Some name \<Rightarrow> (case map_of effort_profiles name of
           None \<Rightarrow> []
         | Some presets \<Rightarrow>
             fold (\<lambda>p m. case map_of presets p of None \<Rightarrow> m | Some preset \<Rightarrow> set_preset m p preset) chain []))"

definition build_role :: "ov_flags \<Rightarrow> setting \<Rightarrow> setting \<Rightarrow> string list \<Rightarrow> string \<Rightarrow> string option \<Rightarrow> string option \<Rightarrow> ov_note list \<Rightarrow> ov_error + ov \<times> ov_note list" where
  "build_role fl effort_kv model_kv chain role role_effort role_model notes =
     ebind (apply_map chain effort_kv ''effort'' ''--effort'' (profile_layer (of_profile fl) chain, notes)) (\<lambda>s1.
     ebind (apply_map chain model_kv ''model'' ''--model'' s1) (\<lambda>s2.
     ebind (case role_effort of None \<Rightarrow> Inr s2 | Some v \<Rightarrow> apply_effort_scalar chain v (''--'' @ role @ ''-effort'') s2) (\<lambda>s3.
       let s4 = (case role_model of None \<Rightarrow> s3 | Some v \<Rightarrow> apply_model_to_lead chain v (''--'' @ role @ ''-model'') s3) in
       Inr (case of_codex_model fl of
           None \<Rightarrow> s4
         | Some v \<Rightarrow> if ''codex'' \<in> set chain
             then (set_field (fst s4) ''codex'' ''model'' v, validate_model ''codex'' v ''--codex-model'' (snd s4))
             else s4))))"

record resolved_overrides =
  ro_generator :: ov
  ro_critic :: ov
  ro_notes :: "ov_note list"
  ro_scale :: rat

definition for_role :: "resolved_overrides \<Rightarrow> string \<Rightarrow> ov" where
  "for_role r role = (if role = ''critic'' then ro_critic r else ro_generator r)"

definition no_overrides :: "resolved_overrides \<Rightarrow> bool" where
  "no_overrides r = (ro_generator r = [] \<and> ro_critic r = [] \<and> ro_scale r = 1)"

definition is_architect_mode :: "string \<Rightarrow> bool" where
  "is_architect_mode mode = (mode = ''master'' \<or> mode = ''pat'')"

definition prefer_architect :: "string \<Rightarrow> string option \<Rightarrow> string option \<Rightarrow> string option" where
  "prefer_architect mode arch gen = (if is_architect_mode mode then (case arch of None \<Rightarrow> gen | Some v \<Rightarrow> Some v) else gen)"

definition architect_note :: "(string \<Rightarrow> string \<Rightarrow> ov_note) \<Rightarrow> string option \<Rightarrow> string option \<Rightarrow> ov_note list" where
  "architect_note c arch gen = (case (arch, gen) of (Some a, Some g) \<Rightarrow> if a \<noteq> g then [c a g] else [] | _ \<Rightarrow> [])"

definition architect_notes :: "ov_flags \<Rightarrow> ov_note list" where
  "architect_notes fl =
     (if is_architect_mode (of_mode fl) then
        architect_note Architect_effort (of_arch_effort fl) (of_gen_effort fl) @
        architect_note Architect_model (of_arch_model fl) (of_gen_model fl)
      else if of_arch_effort fl \<noteq> None \<or> of_arch_model fl \<noteq> None then [Architect_ignored] else [])"

definition explicit_flags :: "ov_flags \<Rightarrow> setting \<Rightarrow> setting \<Rightarrow> bool" where
  "explicit_flags fl effort_kv model_kv =
     (list_ex (\<lambda>v. v \<noteq> None) [of_gen_effort fl, of_critic_effort fl, of_arch_effort fl, of_gen_model fl,
        of_critic_model fl, of_codex_model fl, of_arch_model fl] \<or> effort_kv \<noteq> [] \<or> model_kv \<noteq> [])"

text \<open>Later copies of a note are dropped.\<close>

fun first_copies :: "'a list \<Rightarrow> 'a list \<Rightarrow> 'a list" where
  "first_copies seen [] = []"
| "first_copies seen (x # xs) = (if x \<in> set seen then first_copies seen xs else x # first_copies (x # seen) xs)"

definition scale_of :: "rat option \<Rightarrow> ov_error + rat" where
  "scale_of v = (case v of None \<Rightarrow> Inr 1 | Some q \<Rightarrow> if q \<le> 0 then Inl (Bad_scale q) else Inr q)"

definition known_profile :: "string option \<Rightarrow> ov_error + unit" where
  "known_profile v = (case v of None \<Rightarrow> Inr () | Some p \<Rightarrow> if p \<in> set (map fst effort_profiles) then Inr () else Inl (Unknown_profile p))"

definition resolve_overrides :: "string list \<Rightarrow> string list \<Rightarrow> ov_flags \<Rightarrow> ov_error + resolved_overrides" where
  "resolve_overrides gen_chain critic_chain fl =
     ebind (known_profile (of_profile fl)) (\<lambda>_.
     ebind (parse_kv_map (of_effort_map fl) ''--effort'') (\<lambda>effort_kv.
     ebind (parse_kv_map (of_model_map fl) ''--model'') (\<lambda>model_kv.
       let notes = architect_notes fl @ (case of_profile fl of
             None \<Rightarrow> [] | Some p \<Rightarrow> if explicit_flags fl effort_kv model_kv then [Profile_is_base p] else []) in
       ebind (build_role fl effort_kv model_kv gen_chain ''gen'' (prefer_architect (of_mode fl) (of_arch_effort fl) (of_gen_effort fl))
           (prefer_architect (of_mode fl) (of_arch_model fl) (of_gen_model fl)) notes) (\<lambda>(generator, notes1).
       ebind (build_role fl effort_kv model_kv critic_chain ''critic'' (of_critic_effort fl) (of_critic_model fl) notes1) (\<lambda>(critic, notes2).
       ebind (scale_of (of_scale fl)) (\<lambda>scale.
         Inr \<lparr>ro_generator = generator, ro_critic = critic, ro_notes = first_copies [] notes2, ro_scale = scale\<rparr>))))))"

definition effective_config :: "string list \<Rightarrow> ov \<Rightarrow> ov \<Rightarrow> ov" where
  "effective_config chain m defaults =
     fold (\<lambda>p out.
       let base = setting_of defaults p;
           start = [(''model'', case map_of base ''model'' of None \<Rightarrow> [] | Some v \<Rightarrow> v),
                    (''effort'', case map_of base ''effort'' of None \<Rightarrow> [] | Some v \<Rightarrow> v)] in
       AList.update p (fold (\<lambda>(k, v). AList.update k v) (setting_of m p) start) out) chain []"

section \<open>Lookups\<close>

lemma setting_of_update [simp]: "setting_of (AList.update p d m) q = (if q = p then d else setting_of m q)"
  by (simp add: setting_of_def update_conv)

lemma field_of_set_field [simp]:
  "field_of (set_field m p f v) q g = (if q = p \<and> g = f then Some v else field_of m q g)"
  by (auto simp: field_of_def set_field_def update_conv)

lemma fold_update_map_of:
  "map_of (fold (\<lambda>(k, v). AList.update k v) xs ys) f =
     (case map_of (rev xs) f of None \<Rightarrow> map_of ys f | Some v \<Rightarrow> Some v)"
proof (induction xs arbitrary: ys)
  case (Cons x xs)
  obtain k v where x: "x = (k, v)" by (cases x)
  show ?case unfolding x
    by (simp add: Cons update_conv map_add_def split: option.split)
qed simp

lemma field_of_effort_on_chain:
  "field_of (effort_on_chain chain v m) q g =
     (if q \<in> set chain \<and> q \<in> set effort_capable \<and> g = ''effort'' then Some v else field_of m q g)"
  by (induction chain arbitrary: m) (auto simp: effort_on_chain_def)

section \<open>Parsing maps\<close>

definition plain :: "string \<Rightarrow> bool" where
  "plain s = (s \<noteq> [] \<and> py_strip s = s \<and> CHR '','' \<notin> set s \<and> CHR ''='' \<notin> set s)"

lemma strip_stable: "s \<noteq> [] \<Longrightarrow> \<not> py_space (hd s) \<Longrightarrow> \<not> py_space (last s) \<Longrightarrow> py_strip s = s"
proof -
  assume s: "s \<noteq> []" "\<not> py_space (hd s)" "\<not> py_space (last s)"
  have "dropWhile py_space s = s" using s by (simp only: dropWhile_eq_self_iff) simp
  moreover have "dropWhile py_space (rev s) = rev s" using s by (simp only: dropWhile_eq_self_iff hd_rev) simp
  ultimately show ?thesis by (simp add: py_strip_def py_lstrip_def)
qed

lemma strip_ends: "py_strip s = s \<Longrightarrow> s \<noteq> [] \<Longrightarrow> \<not> py_space (hd s) \<and> \<not> py_space (last s)"
proof
  assume s: "py_strip s = s" "s \<noteq> []"
  show "\<not> py_space (hd s)" using py_strip_hd [of s] s by simp
  have "rev s = dropWhile py_space (rev (py_lstrip s))" using arg_cong [OF s(1), of rev] by (simp add: py_strip_def)
  then show "\<not> py_space (last s)" using s(2) by (metis hd_dropWhile hd_rev rev_is_Nil_conv)
qed

fun print_rest :: "setting \<Rightarrow> string" where
  "print_rest [] = []"
| "print_rest ((k, v) # kvs) = CHR '','' # k @ CHR ''='' # v @ print_rest kvs"

lemma split_plain:
  "d \<notin> set w \<Longrightarrow> split_char d (w @ d # s) = w # split_char d s"
  "d \<notin> set w \<Longrightarrow> split_char d w = [w]"
  by (induction w) auto

lemma split_print_rest:
  assumes "CHR '','' \<notin> set w" "\<forall>(k, v) \<in> set kvs. plain k \<and> plain v"
  shows "split_char (CHR '','') (w @ print_rest kvs) = w # map (\<lambda>(k, v). k @ CHR ''='' # v) kvs"
  using assms
proof (induction kvs arbitrary: w)
  case (Cons kv kvs)
  obtain k v where kv: "kv = (k, v)" by (cases kv)
  with Cons.prems have "CHR '','' \<notin> set (k @ CHR ''='' # v)" by (auto simp: plain_def)
  from Cons.IH [OF this] Cons.prems show ?case
    by (simp add: kv split_plain(1) [OF Cons.prems(1)])
qed (simp add: split_plain)

lemma kv_entry_stable: "plain k \<Longrightarrow> plain v \<Longrightarrow> py_strip (k @ CHR ''='' # v) = k @ CHR ''='' # v"
  by (rule strip_stable) (use strip_ends in \<open>auto simp: plain_def\<close>)

lemma split_once_plain: "d \<notin> set k \<Longrightarrow> split_once d (k @ d # v) = (k, v)"
  unfolding split_once_def by (induction k) auto

lemma kv_parts_plain:
  assumes "\<forall>(k, v) \<in> set kvs. plain k \<and> plain v" "distinct (map fst kvs)" "fst ` set kvs \<inter> fst ` set out = {}"
  shows "kv_parts flag (map (\<lambda>(k, v). k @ CHR ''='' # v) kvs) out = Inr (out @ kvs)"
  using assms
proof (induction kvs arbitrary: out)
  case (Cons kv kvs)
  obtain k v where kv: "kv = (k, v)" by (cases kv)
  have p: "plain k" "plain v" using Cons.prems(1) kv by auto
  have new: "AList.update k v out = out @ [(k, v)]"
    using Cons.prems(3) kv by (induction out) auto
  have "kv_parts flag (map (\<lambda>(k, v). k @ CHR ''='' # v) (kv # kvs)) out =
      kv_parts flag (map (\<lambda>(k, v). k @ CHR ''='' # v) kvs) (out @ [(k, v)])"
    using p split_once_plain [of "CHR ''=''" k v]
    by (simp add: kv kv_entry_stable new Let_def plain_def)
  also have "\<dots> = Inr ((out @ [(k, v)]) @ kvs)"
    by (rule Cons.IH) (use Cons.prems kv in auto)
  finally show ?case by (simp add: kv)
qed simp

text \<open>A list of provider and value pairs, printed as \<^verbatim>\<open>p=v,q=w\<close>, is read back as that list.\<close>

theorem kv_map_round_trip:
  assumes "\<forall>(k, v) \<in> set ((k0, v0) # kvs). plain k \<and> plain v" "distinct (map fst ((k0, v0) # kvs))"
  shows "parse_kv_map (Some (k0 @ CHR ''='' # v0 @ print_rest kvs)) flag = Inr ((k0, v0) # kvs)"
proof -
  let ?s = "k0 @ CHR ''='' # v0 @ print_rest kvs"
  have p: "plain k0" "plain v0" using assms(1) by auto
  have last: "\<not> py_space (last (k @ CHR ''='' # v @ print_rest kvs))" if "plain v" "\<forall>(k, v) \<in> set kvs. plain k \<and> plain v" for k v kvs
    using that
  proof (induction kvs arbitrary: k v)
    case Nil
    then show ?case using strip_ends [of v] by (simp add: plain_def)
  next
    case (Cons kv kvs)
    obtain k' v' where kv: "kv = (k', v')" by (cases kv)
    from Cons.IH [of v' k'] Cons.prems show ?case by (simp add: kv)
  qed
  have "py_strip ?s = ?s"
    by (rule strip_stable) (use p strip_ends [of k0] last [OF p(2), of kvs k0] assms(1) in \<open>auto simp: plain_def\<close>)
  moreover have "?s = (k0 @ CHR ''='' # v0) @ print_rest kvs" by simp
  moreover have "split_char (CHR '','') ((k0 @ CHR ''='' # v0) @ print_rest kvs) = map (\<lambda>(k, v). k @ CHR ''='' # v) ((k0, v0) # kvs)"
    by (subst split_print_rest) (use assms(1) p in \<open>auto simp: plain_def\<close>)
  moreover have "kv_parts flag (map (\<lambda>(k, v). k @ CHR ''='' # v) ((k0, v0) # kvs)) [] = Inr ([] @ (k0, v0) # kvs)"
    by (rule kv_parts_plain) (use assms in auto)
  ultimately have "kv_parts flag (split_char (CHR '','') (py_strip ?s)) [] = Inr ((k0, v0) # kvs)" by (simp only: append_Nil)
  moreover have "py_strip ?s = ?s" by fact
  moreover have "?s \<noteq> []" "CHR ''='' \<in> set ?s" by simp_all
  ultimately show ?thesis unfolding parse_kv_map_def option.case Let_def by (simp only: if_False not_True_eq_False)
qed

section \<open>Which layer wins\<close>

fun first_given :: "'a option list \<Rightarrow> 'a option" where
  "first_given [] = None"
| "first_given (None # xs) = first_given xs"
| "first_given (Some x # xs) = Some x"

definition profile_field :: "string option \<Rightarrow> string list \<Rightarrow> string \<Rightarrow> string \<Rightarrow> string option" where
  "profile_field profile chain p f =
     (case profile of None \<Rightarrow> None | Some name \<Rightarrow>
      case map_of effort_profiles name of None \<Rightarrow> None | Some presets \<Rightarrow>
      if p \<notin> set chain then None
      else case map_of presets p of None \<Rightarrow> None | Some preset \<Rightarrow> map_of preset f)"

definition effort_wish :: "string option \<Rightarrow> string list \<Rightarrow> setting \<Rightarrow> string option \<Rightarrow> string \<Rightarrow> string option" where
  "effort_wish profile chain kv role p =
     (let takes = p \<in> set chain \<and> p \<in> set effort_capable in
      first_given [if takes then role else None, if p = ''grok'' then None else map_of kv p,
        if takes then map_of kv ''*'' else None, profile_field profile chain p ''effort''])"

definition leads :: "string list \<Rightarrow> string \<Rightarrow> bool" where
  "leads chain p = (chain \<noteq> [] \<and> hd chain = p)"

definition model_wish :: "string option \<Rightarrow> string option \<Rightarrow> string list \<Rightarrow> setting \<Rightarrow> string option \<Rightarrow> string \<Rightarrow> string option" where
  "model_wish profile codex chain kv role p =
     first_given [if p = ''codex'' \<and> p \<in> set chain then codex else None, if leads chain p then role else None, map_of kv p,
       if leads chain p then map_of kv ''*'' else None, profile_field profile chain p ''model'']"

lemma first_given_nest [simp]:
  "first_given [first_given ys] = first_given ys"
  "first_given [a, first_given ys] = first_given (a # ys)"
  "first_given [a, b, first_given ys] = first_given (a # b # ys)"
proof -
  show 1: "first_given [first_given ys] = first_given ys" for ys :: "'c option list"
    by (cases "first_given ys") simp_all
  show "first_given [a, first_given ys] = first_given (a # ys)" by (cases a) (simp_all add: 1)
  show "first_given [a, b, first_given ys] = first_given (a # b # ys)" by (cases a; cases b) (simp_all add: 1)
qed

lemma field_of_set_preset:
  "field_of (set_preset m p preset) q f =
     (if q = p then (case map_of (rev preset) f of None \<Rightarrow> field_of m q f | Some v \<Rightarrow> Some v) else field_of m q f)"
proof (cases "q = p")
  case True
  show ?thesis unfolding True set_preset_def field_of_def by (simp add: fold_update_map_of)
qed (simp add: set_preset_def field_of_def)

lemma field_of_profile_fold:
  "field_of (fold (\<lambda>p m. case map_of presets p of None \<Rightarrow> m | Some preset \<Rightarrow> set_preset m p preset) chain m) q f =
     (if q \<in> set chain then (case map_of presets q of None \<Rightarrow> field_of m q f
        | Some preset \<Rightarrow> (case map_of (rev preset) f of None \<Rightarrow> field_of m q f | Some v \<Rightarrow> Some v))
      else field_of m q f)"
proof (induction chain arbitrary: m)
  case (Cons p ps)
  show ?case
    by (auto simp: Cons field_of_set_preset split: option.split)
qed simp

lemma presets_distinct:
  "map_of effort_profiles name = Some presets \<Longrightarrow> map_of presets p = Some preset \<Longrightarrow> distinct (map fst preset)"
  by (auto simp: effort_profiles_def split: if_splits)

lemma field_of_Nil [simp]: "field_of [] p f = None"
  by (simp add: field_of_def setting_of_def)

lemma field_of_profile_layer: "field_of (profile_layer profile chain) p f = profile_field profile chain p f"
proof (cases "profile = None \<or> map_of effort_profiles (the profile) = None")
  case False
  then obtain name presets where n: "profile = Some name" "map_of effort_profiles name = Some presets" by auto
  show ?thesis
    using presets_distinct [OF n(2)] field_of_Nil
    by (auto simp: profile_layer_def profile_field_def n field_of_profile_fold map_of_rev_distinct split: option.split)
qed (auto simp: profile_layer_def profile_field_def split: option.split)

lemma field_of_entry:
  assumes "apply_entry chain field flag (p, v) s = Inr s'"
  shows "field_of (fst s') q g = (if q = p \<and> g = field \<and> p \<noteq> ''*'' \<and> \<not> (p = ''grok'' \<and> field = ''effort'')
     then Some v else field_of (fst s) q g)"
  using assms by (cases s) (auto simp: apply_entry_def ebind_iffs split: if_splits)

lemma field_of_entries:
  assumes "apply_entries chain field flag kvs s = Inr s'" "q \<noteq> ''*''" "distinct (map fst kvs)"
  shows "field_of (fst s') q g =
     (if g = field \<and> \<not> (q = ''grok'' \<and> field = ''effort'') then first_given [map_of kvs q, field_of (fst s) q g]
      else field_of (fst s) q g)"
  using assms(1,3)
proof (induction kvs arbitrary: s)
  case Nil
  then show ?case by (cases "field_of (fst s) q g") auto
next
  case (Cons kv kvs)
  obtain p v where kv: "kv = (p, v)" by (cases kv)
  from Cons.prems(1) obtain s1 where s1: "apply_entry chain field flag (p, v) s = Inr s1" "apply_entries chain field flag kvs s1 = Inr s'"
    by (auto simp: kv ebind_iffs)
  from Cons.prems(2) have "p \<notin> fst ` set kvs" by (auto simp: kv)
  then have "map_of kvs p = None" by (simp add: map_of_eq_None_iff)
  moreover have "distinct (map fst kvs)" using Cons.prems(2) by simp
  ultimately show ?case
    using Cons.IH [OF s1(2)] field_of_entry [OF s1(1), of q g] assms(2) by (auto simp: kv)
qed

lemma field_of_lead:
  "field_of (fst (apply_model_to_lead chain v loc s)) q g =
     (if leads chain q \<and> g = ''model'' then Some v else field_of (fst s) q g)"
  by (cases s) (auto simp: apply_model_to_lead_def leads_def Let_def split: list.split)

lemma field_of_star:
  assumes "apply_star chain v field flag s = Inr s'" "field = ''effort'' \<or> field = ''model''"
  shows "field_of (fst s') q g =
     (if g = field \<and> (if field = ''effort'' then q \<in> set chain \<and> q \<in> set effort_capable else leads chain q) then Some v
      else field_of (fst s) q g)"
  using assms by (cases s) (auto simp: apply_star_def ebind_iffs field_of_effort_on_chain field_of_lead split: if_splits)

lemma field_of_map:
  assumes "apply_map chain kv field flag s = Inr s'" "field = ''effort'' \<or> field = ''model''" "q \<noteq> ''*''" "distinct (map fst kv)"
  shows "field_of (fst s') q g =
     (if g = field then first_given [if q = ''grok'' \<and> field = ''effort'' then None else map_of kv q,
          if (if field = ''effort'' then q \<in> set chain \<and> q \<in> set effort_capable else leads chain q) then map_of kv ''*'' else None,
          field_of (fst s) q g]
      else field_of (fst s) q g)"
proof -
  from assms(1) obtain s1 where
    s1: "(case map_of kv ''*'' of None \<Rightarrow> Inr s | Some v \<Rightarrow> apply_star chain v field flag s) = Inr s1" "apply_entries chain field flag kv s1 = Inr s'"
    by (auto simp: apply_map_def ebind_iffs)
  have 1: "field_of (fst s1) q g = (if g = field then first_given
      [if (if field = ''effort'' then q \<in> set chain \<and> q \<in> set effort_capable else leads chain q) then map_of kv ''*'' else None,
       field_of (fst s) q g] else field_of (fst s) q g)"
    using s1(1) assms(2) by (cases "map_of kv ''*''"; cases "field_of (fst s) q g") (auto simp: field_of_star)
  show ?thesis
    unfolding field_of_entries [OF s1(2) assms(3,4)] 1 by (cases "map_of kv q") auto
qed

lemma build_role_fields:
  assumes "build_role fl ekv mkv chain role re rm notes = Inr (m, notes')" "p \<noteq> ''*''" "distinct (map fst ekv)" "distinct (map fst mkv)"
  shows "field_of m p ''effort'' = effort_wish (of_profile fl) chain ekv re p"
    "field_of m p ''model'' = model_wish (of_profile fl) (of_codex_model fl) chain mkv rm p"
proof -
  from assms(1) obtain s1 s2 s3 where
    s1: "apply_map chain ekv ''effort'' ''--effort'' (profile_layer (of_profile fl) chain, notes) = Inr s1" and
    s2: "apply_map chain mkv ''model'' ''--model'' s1 = Inr s2" and
    s3: "(case re of None \<Rightarrow> Inr s2 | Some v \<Rightarrow> apply_effort_scalar chain v (''--'' @ role @ ''-effort'') s2) = Inr s3" and
    m: "m = fst (let s4 = (case rm of None \<Rightarrow> s3 | Some v \<Rightarrow> apply_model_to_lead chain v (''--'' @ role @ ''-model'') s3) in
       case of_codex_model fl of
           None \<Rightarrow> s4
         | Some v \<Rightarrow> if ''codex'' \<in> set chain
             then (set_field (fst s4) ''codex'' ''model'' v, validate_model ''codex'' v ''--codex-model'' (snd s4))
             else s4)"
    by (auto simp: build_role_def ebind_iffs Let_def)
  note f1 = field_of_map [OF s1 _ assms(2,3)] and f2 = field_of_map [OF s2 _ assms(2,4)]
  have f3: "field_of (fst s3) p g = (if g = ''effort'' \<and> p \<in> set chain \<and> p \<in> set effort_capable then first_given [re, field_of (fst s2) p g]
      else field_of (fst s2) p g)" for g
    using s3 by (cases re; cases s2; cases "field_of (fst s2) p g")
      (auto simp: apply_effort_scalar_def ebind_iffs field_of_effort_on_chain)
  have f4: "field_of m p g = (if g = ''model'' then first_given [if p = ''codex'' \<and> p \<in> set chain then of_codex_model fl else None,
      if leads chain p then rm else None, field_of (fst s3) p g] else field_of (fst s3) p g)" for g
    unfolding m Let_def by (cases rm; cases "of_codex_model fl"; cases "field_of (fst s3) p g") (auto simp: field_of_lead)
  show "field_of m p ''effort'' = effort_wish (of_profile fl) chain ekv re p"
    unfolding f4 f3 effort_wish_def Let_def by (simp add: f2 f1 field_of_profile_layer)
  show "field_of m p ''model'' = model_wish (of_profile fl) (of_codex_model fl) chain mkv rm p"
    unfolding f4 f3 model_wish_def by (simp add: f2 f1 field_of_profile_layer)
qed

lemma kv_parts_distinct: "kv_parts flag ps out = Inr kv \<Longrightarrow> distinct (map fst out) \<Longrightarrow> distinct (map fst kv)"
proof (induction ps arbitrary: out)
  case (Cons p ps)
  let ?k = "py_strip (fst (split_once (CHR ''='') (py_strip p)))" and ?v = "py_strip (snd (split_once (CHR ''='') (py_strip p)))"
  have "kv_parts flag ps out = Inr kv \<or> kv_parts flag ps (AList.update ?k ?v out) = Inr kv"
    using Cons.prems(1) by (auto simp: Let_def case_prod_beta split: if_splits)
  then show ?case using Cons.IH distinct_update [OF Cons.prems(2)] Cons.prems(2) by blast
qed simp

lemma parse_kv_distinct: "parse_kv_map spec flag = Inr kv \<Longrightarrow> distinct (map fst kv)"
  unfolding parse_kv_map_def by (auto simp: Let_def split: option.splits if_splits dest: kv_parts_distinct)

section \<open>Only known tiers are recorded\<close>

definition tiers_only :: "ov \<Rightarrow> bool" where
  "tiers_only m = (\<forall>p v. field_of m p ''effort'' = Some v \<longrightarrow> v \<in> set effort_tiers)"

lemma tiers_only_effort: "tiers_only m \<Longrightarrow> v \<in> set effort_tiers \<Longrightarrow> tiers_only (set_field m p ''effort'' v)"
  by (auto simp: tiers_only_def)

lemma tiers_only_model: "tiers_only m \<Longrightarrow> tiers_only (set_field m p ''model'' v)"
  by (auto simp: tiers_only_def)

lemma tiers_only_lead: "tiers_only (fst s) \<Longrightarrow> tiers_only (fst (apply_model_to_lead chain v loc s))"
  by (auto simp: tiers_only_def field_of_lead)

lemma tiers_only_chain:
  "tiers_only m \<Longrightarrow> (\<exists>p \<in> set chain. p \<in> set effort_capable) \<longrightarrow> v \<in> set effort_tiers \<Longrightarrow> tiers_only (effort_on_chain chain v m)"
  by (auto simp: tiers_only_def field_of_effort_on_chain)

lemma tiers_only_star:
  "apply_star chain v field flag s = Inr s' \<Longrightarrow> tiers_only (fst s) \<Longrightarrow> tiers_only (fst s')"
  by (cases s) (auto simp: apply_star_def validate_effort_def ebind_iffs list_ex_iff intro!: tiers_only_chain tiers_only_lead split: if_splits)

lemma tiers_only_entry:
  assumes "apply_entry chain field flag kv s = Inr s'" "field = ''effort'' \<or> field = ''model''" "tiers_only (fst s)"
  shows "tiers_only (fst s')"
  using assms
  by (cases s; cases kv) (auto simp: apply_entry_def validate_effort_def ebind_iffs intro: tiers_only_effort tiers_only_model split: if_splits)

lemma tiers_only_entries:
  assumes "apply_entries chain field flag kvs s = Inr s'" "field = ''effort'' \<or> field = ''model''" "tiers_only (fst s)"
  shows "tiers_only (fst s')"
  using assms(1,3)
proof (induction kvs arbitrary: s)
  case (Cons kv kvs)
  then obtain s1 where s1: "apply_entry chain field flag kv s = Inr s1" "apply_entries chain field flag kvs s1 = Inr s'"
    by (auto simp: ebind_iffs)
  show ?case by (rule Cons.IH [OF s1(2) tiers_only_entry [OF s1(1) assms(2) Cons.prems(2)]])
qed simp

lemma tiers_only_map:
  assumes "apply_map chain kv field flag s = Inr s'" "field = ''effort'' \<or> field = ''model''" "tiers_only (fst s)"
  shows "tiers_only (fst s')"
proof -
  from assms(1) obtain s1 where
    s1: "(case map_of kv ''*'' of None \<Rightarrow> Inr s | Some v \<Rightarrow> apply_star chain v field flag s) = Inr s1" "apply_entries chain field flag kv s1 = Inr s'"
    by (auto simp: apply_map_def ebind_iffs)
  have "tiers_only (fst s1)" using s1(1) assms(3) tiers_only_star by (auto split: option.splits)
  then show ?thesis by (rule tiers_only_entries [OF s1(2) assms(2)])
qed

lemma preset_tiers:
  "map_of effort_profiles name = Some presets \<Longrightarrow> map_of presets p = Some preset \<Longrightarrow> map_of preset ''effort'' = Some v \<Longrightarrow>
   v \<in> set effort_tiers \<and> p \<noteq> ''grok''"
  by (auto simp: effort_profiles_def effort_tiers_def split: if_splits)

lemma tiers_only_profile: "tiers_only (profile_layer profile chain)"
  using preset_tiers unfolding tiers_only_def field_of_profile_layer profile_field_def
  by (fastforce split: option.splits if_splits)

lemma tiers_only_role:
  assumes "build_role fl ekv mkv chain role re rm notes = Inr (m, notes')"
  shows "tiers_only m"
proof -
  from assms obtain s1 s2 s3 where
    s1: "apply_map chain ekv ''effort'' ''--effort'' (profile_layer (of_profile fl) chain, notes) = Inr s1" and
    s2: "apply_map chain mkv ''model'' ''--model'' s1 = Inr s2" and
    s3: "(case re of None \<Rightarrow> Inr s2 | Some v \<Rightarrow> apply_effort_scalar chain v (''--'' @ role @ ''-effort'') s2) = Inr s3" and
    m: "m = fst (let s4 = (case rm of None \<Rightarrow> s3 | Some v \<Rightarrow> apply_model_to_lead chain v (''--'' @ role @ ''-model'') s3) in
       case of_codex_model fl of
           None \<Rightarrow> s4
         | Some v \<Rightarrow> if ''codex'' \<in> set chain
             then (set_field (fst s4) ''codex'' ''model'' v, validate_model ''codex'' v ''--codex-model'' (snd s4))
             else s4)"
    by (auto simp: build_role_def ebind_iffs Let_def)
  have "tiers_only (fst s1)" using tiers_only_map [OF s1] tiers_only_profile by simp
  then have "tiers_only (fst s2)" using tiers_only_map [OF s2] by simp
  then have "tiers_only (fst s3)" using s3
    by (cases re; cases s2) (auto simp: apply_effort_scalar_def validate_effort_def ebind_iffs intro!: tiers_only_chain split: if_splits)
  then show ?thesis unfolding m Let_def
    by (cases rm; cases "of_codex_model fl") (auto intro: tiers_only_model tiers_only_lead)
qed

lemma grok_no_wish: "effort_wish profile chain kv role ''grok'' = None"
proof -
  have "profile_field profile chain ''grok'' ''effort'' = None"
    using preset_tiers unfolding profile_field_def by (fastforce split: option.splits if_splits)
  then show ?thesis by (simp add: effort_wish_def effort_capable_def)
qed

section \<open>The resolution\<close>

lemma resolve_parts:
  assumes "resolve_overrides gen_chain critic_chain fl = Inr r"
  obtains ekv mkv n0 n1 n2 where
    "parse_kv_map (of_effort_map fl) ''--effort'' = Inr ekv" "parse_kv_map (of_model_map fl) ''--model'' = Inr mkv"
    "build_role fl ekv mkv gen_chain ''gen'' (prefer_architect (of_mode fl) (of_arch_effort fl) (of_gen_effort fl))
       (prefer_architect (of_mode fl) (of_arch_model fl) (of_gen_model fl)) n0 = Inr (ro_generator r, n1)"
    "build_role fl ekv mkv critic_chain ''critic'' (of_critic_effort fl) (of_critic_model fl) n1 = Inr (ro_critic r, n2)"
    "ro_notes r = first_copies [] n2" "scale_of (of_scale fl) = Inr (ro_scale r)"
  using assms unfolding resolve_overrides_def Let_def by (auto simp: ebind_iffs case_prod_beta)

lemma first_copies_props: "distinct (first_copies seen xs) \<and> set (first_copies seen xs) = set xs - set seen"
  by (induction seen xs rule: first_copies.induct) auto

text \<open>In a resolution, what every provider runs with is the most specific flag that names it: for the effort the
  flag of the role, then the map's entry, the map's value for all, and the profile; for the model \<^verbatim>\<open>--codex-model\<close>
  first; a value for all reaches the lead's model and the efforts of the providers that take one.  Grok never
  gets an effort, every recorded effort is a known tier, no note comes twice, and the watchdog's scale is positive.\<close>

theorem most_specific_flag_wins:
  assumes "resolve_overrides gen_chain critic_chain fl = Inr r" "p \<noteq> ''*''"
    "parse_kv_map (of_effort_map fl) ''--effort'' = Inr ekv" "parse_kv_map (of_model_map fl) ''--model'' = Inr mkv"
  shows "field_of (ro_generator r) p ''effort'' = effort_wish (of_profile fl) gen_chain ekv
      (prefer_architect (of_mode fl) (of_arch_effort fl) (of_gen_effort fl)) p \<and>
    field_of (ro_generator r) p ''model'' = model_wish (of_profile fl) (of_codex_model fl) gen_chain mkv
      (prefer_architect (of_mode fl) (of_arch_model fl) (of_gen_model fl)) p \<and>
    field_of (ro_critic r) p ''effort'' = effort_wish (of_profile fl) critic_chain ekv (of_critic_effort fl) p \<and>
    field_of (ro_critic r) p ''model'' = model_wish (of_profile fl) (of_codex_model fl) critic_chain mkv (of_critic_model fl) p \<and>
    field_of (ro_generator r) ''grok'' ''effort'' = None \<and> field_of (ro_critic r) ''grok'' ''effort'' = None \<and>
    tiers_only (ro_generator r) \<and> tiers_only (ro_critic r) \<and> distinct (ro_notes r) \<and> 0 < ro_scale r"
proof -
  from resolve_parts [OF assms(1)] obtain n0 n1 n2 where
    g: "build_role fl ekv mkv gen_chain ''gen'' (prefer_architect (of_mode fl) (of_arch_effort fl) (of_gen_effort fl))
       (prefer_architect (of_mode fl) (of_arch_model fl) (of_gen_model fl)) n0 = Inr (ro_generator r, n1)" and
    c: "build_role fl ekv mkv critic_chain ''critic'' (of_critic_effort fl) (of_critic_model fl) n1 = Inr (ro_critic r, n2)" and
    n: "ro_notes r = first_copies [] n2" and s: "scale_of (of_scale fl) = Inr (ro_scale r)"
    by (metis assms(3,4) sum.inject(2))
  note d = parse_kv_distinct [OF assms(3)] parse_kv_distinct [OF assms(4)]
  have grok: "''grok'' \<noteq> ''*''" by simp
  have "0 < ro_scale r" using s by (auto simp: scale_of_def split: option.splits if_splits)
  then show ?thesis
    using build_role_fields [OF g assms(2) d] build_role_fields [OF c assms(2) d] build_role_fields(1) [OF g grok d]
      build_role_fields(1) [OF c grok d] tiers_only_role [OF g] tiers_only_role [OF c] first_copies_props [of "[]" n2]
    by (simp add: n grok_no_wish)
qed

definition sample_flags :: ov_flags where
  "sample_flags = \<lparr>of_mode = ''pat'', of_profile = Some ''max'', of_gen_effort = None, of_gen_model = None, of_critic_effort = Some ''low'',
     of_critic_model = None, of_arch_effort = Some ''medium'', of_arch_model = None, of_codex_model = None,
     of_effort_map = Some ''grok=high'', of_model_map = Some ''gpt-5.4'', of_scale = None\<rparr>"

theorem most_specific_flag_wins_witness:
  "\<exists>r. resolve_overrides [''codex'', ''grok''] [''agy''] sample_flags = Inr r \<and>
     field_of (ro_generator r) ''codex'' ''effort'' = Some ''medium'' \<and> field_of (ro_generator r) ''codex'' ''model'' = Some ''gpt-5.4''"
proof -
  let ?r = "resolve_overrides [''codex'', ''grok''] [''agy''] sample_flags"
  have "(case ?r of Inl e \<Rightarrow> False | Inr r \<Rightarrow> True)" by code_simp
  then obtain r where r: "?r = Inr r" by (cases ?r) auto
  have kv: "parse_kv_map (of_effort_map sample_flags) ''--effort'' = Inr [(''grok'', ''high'')]"
    "parse_kv_map (of_model_map sample_flags) ''--model'' = Inr [(''*'', ''gpt-5.4'')]" by code_simp+
  have p: "''codex'' \<noteq> ''*''" by simp
  have w: "effort_wish (of_profile sample_flags) [''codex'', ''grok''] [(''grok'', ''high'')]
      (prefer_architect (of_mode sample_flags) (of_arch_effort sample_flags) (of_gen_effort sample_flags)) ''codex'' = Some ''medium''"
    "model_wish (of_profile sample_flags) (of_codex_model sample_flags) [''codex'', ''grok''] [(''*'', ''gpt-5.4'')]
      (prefer_architect (of_mode sample_flags) (of_arch_model sample_flags) (of_gen_model sample_flags)) ''codex'' = Some ''gpt-5.4''"
    by code_simp+
  show ?thesis using most_specific_flag_wins [OF r p kv] unfolding w using r by blast
qed

text \<open>A tier that does not exist is accepted when no provider of the chains takes an effort, or for grok.\<close>

lemma unknown_tier_accepted:
  "(case resolve_overrides [''grok''] [''grok''] (sample_flags\<lparr>of_critic_effort := None, of_arch_effort := None, of_effort_map := Some ''bogus''\<rparr>) of
      Inl e \<Rightarrow> False | Inr r \<Rightarrow> True)"
  by code_simp

theorem kv_map_round_trip_witness:
  "parse_kv_map (Some ''codex=max,agy=high'') ''--effort'' = Inr [(''codex'', ''max''), (''agy'', ''high'')]"
proof -
  have "\<forall>(k, v) \<in> set [(''codex'', ''max''), (''agy'', ''high'')]. plain k \<and> plain v" by code_simp
  moreover have "distinct (map fst [(''codex'', ''max''), (''agy'', ''high'')])" by simp
  ultimately show ?thesis using kv_map_round_trip [of "''codex''" "''max''" "[(''agy'', ''high'')]"] by simp
qed

end
