(* ===== verification/Calibration.thy ===== *)
theory Calibration
  imports Py_Prelude
begin

text \<open>
  The budgets of the watchdog.  \<^verbatim>\<open>core/calibration.py\<close> reads what earlier runs produced and took; \<^verbatim>\<open>harness/roles.py\<close>
  arms an agent with the budgets, scaled or replaced by the operator.  A file of rows is a parameter: it is
  absent, unreadable, or the JSON values of its lines.
\<close>

section \<open>The table\<close>

type_synonym run_key = "pyval \<times> pyval \<times> pyval"

text \<open>The successful runs in the order they were read, each with its key, tokens and milliseconds.\<close>

type_synonym calibration = "(run_key \<times> int \<times> rat) list"

definition bytes_per_token :: int where
  "bytes_per_token = 4"

definition default_max_bytes :: int where
  "default_max_bytes = 200000"

definition default_stall_of :: "string \<Rightarrow> rat" where
  "default_stall_of worker =
     (if worker \<in> {''codex'', ''agy'', ''grok''} then 600 else if worker = ''claude'' then 180 else 300)"

fun coerce_finite :: "pyval \<Rightarrow> rat option" where
  "coerce_finite (PInt i) = Some (of_int i)"
| "coerce_finite (PFloat q) = Some q"
| "coerce_finite (PStr s) = py_float s"
| "coerce_finite _ = None"

fun hashable :: "pyval \<Rightarrow> bool" where
  "hashable (PList xs) = False"
| "hashable (PDict d) = False"
| "hashable _ = True"

definition or_zero :: "rat option \<Rightarrow> rat" where
  "or_zero v = (case v of None \<Rightarrow> 0 | Some q \<Rightarrow> q)"

definition ingest_row :: "pyval \<Rightarrow> calibration \<Rightarrow> pyexn + calibration" where
  "ingest_row row tbl = (case row of
       PDict r \<Rightarrow>
         if \<not> truthy (dget r ''ok'') then Inr tbl
         else let w = dget_or r ''worker'' (PStr []); m = dget_or r ''model'' (PStr []); e = dget r ''effort'';
                  t = coerce_finite (dget r ''out_tokens''); ms = coerce_finite (dget r ''wall_ms'') in
           if t = None \<and> ms = None then Inr tbl
           else if \<not> (hashable w \<and> hashable m \<and> hashable e) then Inl TypeError
           else Inr (tbl @ [((w, m, e), trunc (or_zero t), or_zero ms)])
     | _ \<Rightarrow> Inl AttributeError)"

text \<open>The rows until one raises; what was added stays.\<close>

fun ingest :: "pyval list \<Rightarrow> calibration \<Rightarrow> calibration \<times> pyexn option" where
  "ingest [] tbl = (tbl, None)"
| "ingest (r # rs) tbl = (case ingest_row r tbl of Inl e \<Rightarrow> (tbl, Some e) | Inr t \<Rightarrow> ingest rs t)"

datatype row_file = Absent | Broken | Rows "pyval list"

definition load_file :: "row_file \<Rightarrow> calibration \<Rightarrow> calibration" where
  "load_file f tbl = (case f of Rows rs \<Rightarrow> fst (ingest rs tbl) | _ \<Rightarrow> tbl)"

text \<open>The offline sweep, then the live ledger: the one that was asked for, or the default one unless
  \<^verbatim>\<open>AGY_LIVE_LEDGER\<close> is off.\<close>

definition load_table :: "row_file \<Rightarrow> row_file option \<Rightarrow> row_file \<Rightarrow> string option \<Rightarrow> calibration" where
  "load_table offline live default_live env =
     (let t = load_file offline [] in
      case live of
        Some f \<Rightarrow> load_file f t
      | None \<Rightarrow> if py_lower (env_or env []) = ''off'' then t else load_file default_live t)"

definition rows_for :: "calibration \<Rightarrow> string \<Rightarrow> string \<Rightarrow> string option \<Rightarrow> (int \<times> rat) list" where
  "rows_for tbl worker model effort = map snd (filter (\<lambda>(k, _). k = (PStr worker, PStr model, opt_str effort)) tbl)"

definition has_data_for :: "calibration \<Rightarrow> string \<Rightarrow> string \<Rightarrow> string option \<Rightarrow> bool" where
  "has_data_for tbl worker model effort = (3 \<le> length (rows_for tbl worker model effort))"

text \<open>\<open>statistics.quantiles(data, n=20)[-1]\<close>, by its default, exclusive method, or the largest of few data.\<close>

definition ventile_pos :: "nat \<Rightarrow> nat" where
  "ventile_pos ld = (let j = (19 * (ld + 1)) div 20 in if j < 1 then 1 else if j > ld - 1 then ld - 1 else j)"

definition last_ventile :: "rat list \<Rightarrow> rat" where
  "last_ventile xs = (let d = sort xs; j = ventile_pos (length d);
       delta = rat_of_int (int (19 * (length d + 1)) - int (j * 20)) in
     (d ! (j - 1) * (20 - delta) + d ! j * delta) / 20)"

definition p95 :: "rat list \<Rightarrow> rat" where
  "p95 xs = (if 20 \<le> length xs then last_ventile xs else Max (set xs))"

definition budget_for :: "calibration \<Rightarrow> rat \<Rightarrow> string \<Rightarrow> string \<Rightarrow> string option \<Rightarrow> int \<times> rat" where
  "budget_for tbl multiplier worker model effort =
     (let rows = rows_for tbl worker model effort; stall0 = default_stall_of worker in
      if length rows < 3 then (default_max_bytes, stall0)
      else let ts = filter (\<lambda>t. 0 < t) (map (\<lambda>r. rat_of_int (fst r)) rows); ws = filter (\<lambda>w. 0 < w) (map snd rows) in
        (if 2 \<le> length ts then max (trunc (p95 ts * of_int bytes_per_token * multiplier)) 8000 else default_max_bytes,
         if 2 \<le> length ws then max (p95 ws / 1000 * multiplier) stall0 else stall0))"

section \<open>The live ledger\<close>

definition opt_num :: "('a \<Rightarrow> pyval) \<Rightarrow> 'a option \<Rightarrow> pyval" where
  "opt_num f v = (case v of None \<Rightarrow> PNone | Some x \<Rightarrow> f x)"

definition ledger_optional_keys :: "string list" where
  "ledger_optional_keys = [''mode'', ''stage_used'', ''n_candidates'', ''n_passed'', ''winner_index'', ''verifier_delta'',
     ''verifier_failure_kind'', ''diff_files_added'', ''diff_files_modified'', ''diff_files_deleted'']"

text \<open>The row that is appended, or none; \<open>opts\<close> are the other measurements by their names.\<close>

definition live_row :: "string option \<Rightarrow> string \<Rightarrow> string \<Rightarrow> string option \<Rightarrow> bool \<Rightarrow> int option \<Rightarrow> rat option \<Rightarrow> pydict \<Rightarrow> pydict option" where
  "live_row env worker model effort ok out_bytes wall opts =
     (if py_lower (env_or env []) = ''off'' then None
      else if out_bytes = None \<and> wall = None \<and> list_all (\<lambda>k. dget opts k = PNone) ledger_optional_keys then None
      else Some ([(''worker'', PStr worker), (''model'', PStr model), (''effort'', opt_str effort), (''ok'', PBool ok)] @
        filter (\<lambda>(k, v). v \<noteq> PNone)
          ([(''out_tokens'', opt_num (\<lambda>b. PInt (b div bytes_per_token)) out_bytes), (''wall_ms'', opt_num PFloat wall)] @
           map (\<lambda>k. (k, dget opts k)) ledger_optional_keys)))"

section \<open>Arming an agent\<close>

definition positive :: "rat option \<Rightarrow> rat option" where
  "positive v = (case v of Some q \<Rightarrow> if 0 < q then Some q else None | None \<Rightarrow> None)"

text \<open>An override: a positive argument, or else the environment's; \<open>cast\<close> reads the text, and \<open>conv\<close> is what it does to a
  number.\<close>

definition resolve_abs_override :: "(rat \<Rightarrow> rat) \<Rightarrow> (string \<Rightarrow> rat option) \<Rightarrow> rat option \<Rightarrow> string option \<Rightarrow> rat option" where
  "resolve_abs_override conv cast arg env = (case positive (map_option conv arg) of
       Some q \<Rightarrow> Some q
     | None \<Rightarrow> if env_or env [] = [] then None else positive (cast (env_or env [])))"

definition bytes_override :: "rat option \<Rightarrow> string option \<Rightarrow> rat option" where
  "bytes_override = resolve_abs_override (\<lambda>q. of_int (trunc q)) (\<lambda>s. map_option of_int (py_int s))"

definition stall_override :: "rat option \<Rightarrow> string option \<Rightarrow> rat option" where
  "stall_override = resolve_abs_override (\<lambda>q. q) py_float"

record wd_env =
  we_watchdog :: "string option"
  we_scale :: "string option"
  we_max_bytes :: "string option"
  we_stall :: "string option"

record wd_args =
  wa_scale :: rat
  wa_max_bytes :: "rat option"
  wa_stall :: "rat option"

definition effective_scale :: "rat \<Rightarrow> string option \<Rightarrow> rat" where
  "effective_scale scale env =
     (let e = (case py_float (env_or env ''0'') of None \<Rightarrow> 0 | Some q \<Rightarrow> q) in
      if 0 < e then e else if 0 < scale then scale else 1)"

text \<open>The budgets of the agent afterwards; it had \<open>(b0, s0)\<close>.\<close>

definition arm_watchdog :: "wd_env \<Rightarrow> calibration \<Rightarrow> rat \<Rightarrow> string \<Rightarrow> string \<Rightarrow> string option \<Rightarrow> wd_args \<Rightarrow> int \<times> rat \<Rightarrow> int \<times> rat" where
  "arm_watchdog env tbl multiplier worker model effort args own = (case own of (b0, s0) \<Rightarrow>
     if py_lower (env_or (we_watchdog env) []) = ''off'' then own
     else if 0 < b0 \<or> 0 < s0 then own
     else case budget_for tbl multiplier worker model effort of (b, s) \<Rightarrow>
       let k = effective_scale (wa_scale args) (we_scale env);
           b1 = (if k = 1 then b else trunc (of_int b * k)); s1 = (if k = 1 then s else s * k) in
       (case bytes_override (wa_max_bytes args) (we_max_bytes env) of None \<Rightarrow> b1 | Some q \<Rightarrow> trunc q,
        case stall_override (wa_stall args) (we_stall env) of None \<Rightarrow> s1 | Some q \<Rightarrow> q))"

section \<open>The quantile covers the runs\<close>

lemma ventile_pos_bounds:
  assumes "20 \<le> n"
  shows "1 \<le> ventile_pos n" "ventile_pos n \<le> n - 1" "19 * n \<le> 20 * ventile_pos n" "20 * ventile_pos n \<le> 19 * (n + 1)"
proof -
  define j where "j = (19 * (n + 1)) div 20"
  have j: "1 \<le> j" "j \<le> n - 1" "19 * n \<le> 20 * j" "20 * j \<le> 19 * (n + 1)" 
  proof -
    have "\<exists>m < 20. 20 * j + m = 19 * (n + 1)"
      using mult_div_mod_eq [of 20 "19 * (n + 1)"] by (intro exI [of _ "(19 * (n + 1)) mod 20"]) (simp add: j_def)
    then obtain m where "m < 20" "20 * j + m = 19 * (n + 1)" by blast
    moreover have "19 * (n + 1) = 19 * n + 19" by simp
    ultimately have "1 \<le> j" "j \<le> n - 1" "19 * n \<le> 20 * j" "20 * j \<le> 19 * (n + 1)" using assms by linarith+
    then show "1 \<le> j" "j \<le> n - 1" "19 * n \<le> 20 * j" "20 * j \<le> 19 * (n + 1)" by simp_all
  qed
  then have "ventile_pos n = j" by (simp add: ventile_pos_def Let_def j_def)
  with j show "1 \<le> ventile_pos n" "ventile_pos n \<le> n - 1" "19 * n \<le> 20 * ventile_pos n" "20 * ventile_pos n \<le> 19 * (n + 1)"
    by simp_all
qed

lemma interpolation_between:
  fixes a b d :: rat
  assumes "a \<le> b" "0 \<le> d" "d \<le> 20"
  shows "a \<le> (a * (20 - d) + b * d) / 20"
proof -
  have "a * d \<le> b * d" using assms by (intro mult_right_mono) auto
  then show ?thesis by (simp add: field_simps)
qed

lemma sorted_prefix_count:
  assumes "sorted d" "j < length d" "d ! j \<le> (q :: rat)"
  shows "Suc j \<le> length (filter (\<lambda>x. x \<le> q) d)"
proof -
  have "list_all (\<lambda>x. x \<le> q) (take (Suc j) d)"
    unfolding list_all_length
  proof (intro allI impI)
    fix i assume "i < length (take (Suc j) d)"
    then have "i \<le> j" by simp
    then have "d ! i \<le> d ! j" using assms(1,2) by (auto intro: sorted_nth_mono)
    then show "take (Suc j) d ! i \<le> q" using \<open>i \<le> j\<close> assms(3) by simp
  qed
  then have "filter (\<lambda>x. x \<le> q) (take (Suc j) d) = take (Suc j) d" by (simp add: list_all_iff)
  moreover have "filter (\<lambda>x. x \<le> q) d = filter (\<lambda>x. x \<le> q) (take (Suc j) d) @ filter (\<lambda>x. x \<le> q) (drop (Suc j) d)"
    by (metis append_take_drop_id filter_append)
  ultimately show ?thesis using assms(2) by simp
qed

lemma length_filter_sort: "length (filter P (sort xs)) = length (filter P xs)"
  by (simp add: filter_sort)

lemma p95_covers:
  assumes "xs \<noteq> []"
  shows "19 * length xs \<le> 20 * length (filter (\<lambda>x. x \<le> p95 xs) xs)"
proof (cases "20 \<le> length xs")
  case True
  define d where "d = sort xs"
  define j where "j = ventile_pos (length d)"
  have len: "length d = length xs" by (simp add: d_def)
  note j = ventile_pos_bounds [OF True, folded len, folded j_def, unfolded len]
  define delta where "delta = rat_of_int (int (19 * (length d + 1)) - int (j * 20))"
  have p: "p95 xs = (d ! (j - 1) * (20 - delta) + d ! j * delta) / 20"
    using True unfolding p95_def last_ventile_def Let_def d_def [symmetric] j_def [symmetric] delta_def [symmetric] by simp
  have "j * 20 \<le> 19 * (length d + 1)" "19 * (length d + 1) \<le> j * 20 + 20" using j(3,4) len by simp_all
  then have "int (19 * (length d + 1)) - int (j * 20) \<ge> 0" "int (19 * (length d + 1)) - int (j * 20) \<le> 20" by linarith+
  then have delta: "0 \<le> delta" "delta \<le> 20" unfolding delta_def by linarith+
  have "d ! (j - 1) \<le> d ! j" using j len True by (intro sorted_nth_mono) (auto simp: d_def)
  then have "d ! (j - 1) \<le> p95 xs" unfolding p by (rule interpolation_between [OF _ delta])
  then have "Suc (j - 1) \<le> length (filter (\<lambda>x. x \<le> p95 xs) d)"
    using j len True by (intro sorted_prefix_count) (auto simp: d_def)
  then show ?thesis using j unfolding d_def length_filter_sort by linarith
next
  case False
  then have "filter (\<lambda>x. x \<le> p95 xs) xs = xs" by (auto simp: p95_def intro!: filter_True)
  then show ?thesis by simp
qed

lemma two_nonempty: "2 \<le> length xs \<Longrightarrow> xs \<noteq> []"
  by auto

lemma length_filter_weaken: "(\<And>x. x \<in> set xs \<Longrightarrow> P x \<Longrightarrow> Q x) \<Longrightarrow> length (filter P xs) \<le> length (filter Q xs)"
  by (induction xs) auto

text \<open>A budget never is below the worker's default silence or 8000 bytes; without three successful runs it is
  the default; and at least 95 of 100 of the recorded runs stay within it even when their bytes and time
  are multiplied by the safety factor.\<close>

theorem budgets_are_generous:
  assumes "budget_for tbl multiplier worker model effort = (b, s)" "0 < multiplier"
  shows "default_stall_of worker \<le> s \<and> 8000 \<le> b \<and>
    (length (rows_for tbl worker model effort) < 3 \<longrightarrow> b = default_max_bytes \<and> s = default_stall_of worker) \<and>
    (let rows = rows_for tbl worker model effort; ts = filter (\<lambda>t. 0 < t) (map fst rows); ws = filter (\<lambda>w. 0 < w) (map snd rows) in
      (3 \<le> length rows \<and> 2 \<le> length ts \<longrightarrow>
         19 * length ts \<le> 20 * length (filter (\<lambda>t. \<lfloor>of_int (t * bytes_per_token) * multiplier\<rfloor> \<le> b) ts)) \<and>
      (3 \<le> length rows \<and> 2 \<le> length ws \<longrightarrow>
         19 * length ws \<le> 20 * length (filter (\<lambda>w. w / 1000 * multiplier \<le> s) ws)))"
proof -
  let ?rows = "rows_for tbl worker model effort"
  let ?ts = "filter (\<lambda>t. 0 < t) (map fst ?rows)" and ?ws = "filter (\<lambda>w. 0 < w) (map snd ?rows)"
  have ts: "filter (\<lambda>t. 0 < t) (map (\<lambda>r. rat_of_int (fst r)) ?rows) = map rat_of_int ?ts"
    by (simp add: filter_map comp_def)
  note e = assms(1) [unfolded budget_for_def Let_def ts]
  have 1: "default_stall_of worker \<le> s" "8000 \<le> b"
    "length ?rows < 3 \<longrightarrow> b = default_max_bytes \<and> s = default_stall_of worker"
    using e by (auto simp: default_max_bytes_def split: if_splits)
  have 2: "19 * length ?ts \<le> 20 * length (filter (\<lambda>t. \<lfloor>of_int (t * bytes_per_token) * multiplier\<rfloor> \<le> b) ?ts)"
    if h: "3 \<le> length ?rows" "2 \<le> length ?ts"
  proof -
    have b: "trunc (p95 (map rat_of_int ?ts) * of_int bytes_per_token * multiplier) \<le> b" using e h by auto
    have "map rat_of_int ?ts \<noteq> []" using two_nonempty [OF h(2)] by (simp only: map_is_Nil_conv) simp
    from p95_covers [OF this]
    have "19 * length ?ts \<le> 20 * length (filter (\<lambda>t. rat_of_int t \<le> p95 (map rat_of_int ?ts)) ?ts)"
      by (simp only: filter_map length_map comp_def)
    also have "\<dots> \<le> 20 * length (filter (\<lambda>t. \<lfloor>of_int (t * bytes_per_token) * multiplier\<rfloor> \<le> b) ?ts)"
    proof (intro mult_le_mono2 length_filter_weaken)
      fix t assume t: "t \<in> set ?ts" "rat_of_int t \<le> p95 (map rat_of_int ?ts)"
      have "of_int (t * bytes_per_token) * multiplier \<le> p95 (map rat_of_int ?ts) * of_int bytes_per_token * multiplier"
        using t(2) assms(2) by (simp add: bytes_per_token_def)
      moreover have "0 \<le> of_int (t * bytes_per_token) * multiplier" using t(1) assms(2) by (simp add: bytes_per_token_def)
      ultimately show "\<lfloor>of_int (t * bytes_per_token) * multiplier\<rfloor> \<le> b"
        using b by (auto simp: trunc_def intro: order_trans floor_mono)
    qed
    finally show ?thesis .
  qed
  have 3: "19 * length ?ws \<le> 20 * length (filter (\<lambda>w. w / 1000 * multiplier \<le> s) ?ws)"
    if h: "3 \<le> length ?rows" "2 \<le> length ?ws"
  proof -
    have s: "p95 ?ws / 1000 * multiplier \<le> s" using e h by auto
    have "19 * length ?ws \<le> 20 * length (filter (\<lambda>w. w \<le> p95 ?ws) ?ws)" by (rule p95_covers [OF two_nonempty [OF h(2)]])
    also have "\<dots> \<le> 20 * length (filter (\<lambda>w. w / 1000 * multiplier \<le> s) ?ws)"
    proof (intro mult_le_mono2 length_filter_weaken)
      fix w assume "w \<le> p95 ?ws"
      then have "w / 1000 * multiplier \<le> p95 ?ws / 1000 * multiplier" using assms(2) by (simp add: divide_right_mono)
      then show "w / 1000 * multiplier \<le> s" using s by simp
    qed
    finally show ?thesis .
  qed
  show ?thesis unfolding Let_def using 1 2 3 by blast
qed

definition sample_table :: calibration where
  "sample_table = replicate 3 ((PStr ''codex'', PStr ''standard'', PStr ''high''), 5000, 900000)"

theorem budgets_are_generous_witness:
  "let (b, s) = budget_for sample_table 5 ''codex'' ''standard'' (Some ''high'') in b = 100000 \<and> s = 4500 \<and> 8000 \<le> b \<and> 600 \<le> s"
proof -
  have e: "budget_for sample_table 5 ''codex'' ''standard'' (Some ''high'') = (100000, 4500)" by code_simp
  have m: "(0::rat) < 5" by simp
  show ?thesis using budgets_are_generous [OF e m] by (simp add: e default_stall_of_def)
qed

section \<open>Arming respects each dimension\<close>

definition arms :: "wd_env \<Rightarrow> int \<times> rat \<Rightarrow> bool" where
  "arms env own = (py_lower (env_or (we_watchdog env) []) \<noteq> ''off'' \<and> fst own \<le> 0 \<and> snd own \<le> 0)"

lemma arm_watchdog_armed:
  assumes "arms env own" "budget_for tbl multiplier worker model effort = (b, s)" "k = effective_scale (wa_scale args) (we_scale env)"
  shows "arm_watchdog env tbl multiplier worker model effort args own =
    (case bytes_override (wa_max_bytes args) (we_max_bytes env) of None \<Rightarrow> if k = 1 then b else trunc (of_int b * k) | Some q \<Rightarrow> trunc q,
     case stall_override (wa_stall args) (we_stall env) of None \<Rightarrow> s * k | Some q \<Rightarrow> q)"
  using assms by (cases own) (auto simp: arm_watchdog_def arms_def Let_def split: option.split)

lemma effective_scale_pos: "0 < effective_scale q env"
  by (simp add: effective_scale_def Let_def)

lemma positive_Some: "positive v = Some q \<Longrightarrow> 0 < q"
  by (auto simp: positive_def split: option.splits if_splits)

lemma override_positive: "resolve_abs_override conv cast arg env = Some q \<Longrightarrow> 0 < q"
  unfolding resolve_abs_override_def by (auto split: option.splits if_splits dest: positive_Some)

lemma scaled_stall:
  assumes "d \<le> s" "1 \<le> k" "0 < d"
  shows "d \<le> s * (k :: rat)"
proof -
  have "d * 1 \<le> s * k" using assms by (intro mult_mono) auto
  then show ?thesis by simp
qed

lemma default_stall_pos: "0 < default_stall_of worker"
  by (simp add: default_stall_of_def)

text \<open>Arming leaves an agent alone that is switched off or has budgets of its own; otherwise an override of one
  budget decides that budget and leaves the other as it would be without it, and an agent whose silence is
  not overridden and whose scale is at least one may be silent for the worker's default or longer.\<close>

theorem arming_is_decoupled:
  assumes "arm_watchdog env tbl multiplier worker model effort args own = (b, s)"
    "arm_watchdog env tbl multiplier worker model effort (args\<lparr>wa_stall := x\<rparr>) own = (b1, s1)"
    "arm_watchdog env tbl multiplier worker model effort (args\<lparr>wa_max_bytes := y\<rparr>) own = (b2, s2)" "0 < multiplier"
  shows "(\<not> arms env own \<longrightarrow> (b, s) = own) \<and> b1 = b \<and> s2 = s \<and>
    (arms env own \<and> bytes_override (wa_max_bytes args) (we_max_bytes env) = Some q \<longrightarrow> b = trunc q) \<and>
    (arms env own \<and> stall_override (wa_stall args) (we_stall env) = Some q \<longrightarrow> s = q \<and> 0 < s) \<and>
    (arms env own \<and> stall_override (wa_stall args) (we_stall env) = None \<and> 1 \<le> effective_scale (wa_scale args) (we_scale env) \<longrightarrow>
       default_stall_of worker \<le> s)"
proof (cases "arms env own")
  case False
  then have "arm_watchdog env tbl multiplier worker model effort a own = own" for a
    by (cases own) (auto simp: arms_def arm_watchdog_def)
  with assms False show ?thesis by (cases own) auto
next
  case True
  obtain b0 s0 where bs: "budget_for tbl multiplier worker model effort = (b0, s0)" by fastforce
  have low: "default_stall_of worker \<le> s0" using bs by (auto simp: budget_for_def Let_def split: if_splits)
  have sel: "wa_scale (args\<lparr>wa_stall := x\<rparr>) = wa_scale args" "wa_max_bytes (args\<lparr>wa_stall := x\<rparr>) = wa_max_bytes args"
    "wa_scale (args\<lparr>wa_max_bytes := y\<rparr>) = wa_scale args" "wa_stall (args\<lparr>wa_max_bytes := y\<rparr>) = wa_stall args" by simp_all
  note a = assms(1-3) [unfolded arm_watchdog_armed [OF True bs refl], unfolded sel]
  have "default_stall_of worker \<le> s"
    if "stall_override (wa_stall args) (we_stall env) = None" "1 \<le> effective_scale (wa_scale args) (we_scale env)"
    using a(1) that scaled_stall [OF low that(2) default_stall_pos] by auto
  moreover have "0 < s" if "stall_override (wa_stall args) (we_stall env) = Some q"
    using a(1) that override_positive [OF that [unfolded stall_override_def]] by auto
  ultimately show ?thesis using True a by auto
qed

definition sample_wd :: wd_env where
  "sample_wd = \<lparr>we_watchdog = None, we_scale = None, we_max_bytes = None, we_stall = None\<rparr>"

theorem arming_is_decoupled_witness:
  "arm_watchdog sample_wd sample_table 5 ''codex'' ''standard'' (Some ''high'') \<lparr>wa_scale = 2, wa_max_bytes = Some 9, wa_stall = None\<rparr> (0, 0) = (9, 9000) \<and>
   default_stall_of ''codex'' \<le> 9000"
proof -
  let ?a = "\<lparr>wa_scale = 2, wa_max_bytes = Some 9, wa_stall = None\<rparr>"
  let ?arm = "\<lambda>a. arm_watchdog sample_wd sample_table 5 ''codex'' ''standard'' (Some ''high'') a (0, 0)"
  have e: "?arm ?a = (9, 9000)" by code_simp
  have e1: "?arm (?a\<lparr>wa_stall := Some 7\<rparr>) = (9, 7)" by code_simp
  have e2: "?arm (?a\<lparr>wa_max_bytes := Some 5\<rparr>) = (5, 9000)" by code_simp
  have m: "(0::rat) < 5" by simp
  have "arms sample_wd (0, 0) \<and> stall_override (wa_stall ?a) (we_stall sample_wd) = None \<and> 1 \<le> effective_scale (wa_scale ?a) (we_scale sample_wd)"
    by code_simp
  with arming_is_decoupled [OF e e1 e2 m] e show ?thesis by blast
qed

section \<open>The ledger is learned\<close>

lemma dget_filter_map: "k \<notin> set ks \<Longrightarrow> dget (filter P (map (\<lambda>k. (k, f k)) ks)) k = PNone"
  by (induction ks) auto

lemma live_row_fields:
  assumes "live_row env worker model effort ok out_bytes wall opts = Some r"
  shows "dget r ''ok'' = PBool ok" "dget_or r ''worker'' (PStr []) = PStr worker" "dget_or r ''model'' (PStr []) = PStr model"
    "dget r ''effort'' = opt_str effort" "dget r ''out_tokens'' = opt_num (\<lambda>b. PInt (b div bytes_per_token)) out_bytes"
    "dget r ''wall_ms'' = opt_num PFloat wall"
proof -
  have "''out_tokens'' \<notin> set ledger_optional_keys" "''wall_ms'' \<notin> set ledger_optional_keys" by (simp_all add: ledger_optional_keys_def)
  note n = this [THEN dget_filter_map, where P = "\<lambda>(k, v). v \<noteq> PNone" and f = "dget opts"]
  have r: "r = [(''worker'', PStr worker), (''model'', PStr model), (''effort'', opt_str effort), (''ok'', PBool ok)] @
      filter (\<lambda>(k, v). v \<noteq> PNone) ([(''out_tokens'', opt_num (\<lambda>b. PInt (b div bytes_per_token)) out_bytes), (''wall_ms'', opt_num PFloat wall)] @
        map (\<lambda>k. (k, dget opts k)) ledger_optional_keys)"
    using assms by (auto simp: live_row_def split: if_splits)
  show "dget r ''ok'' = PBool ok" "dget_or r ''worker'' (PStr []) = PStr worker" "dget_or r ''model'' (PStr []) = PStr model"
    "dget r ''effort'' = opt_str effort" "dget r ''out_tokens'' = opt_num (\<lambda>b. PInt (b div bytes_per_token)) out_bytes"
    "dget r ''wall_ms'' = opt_num PFloat wall"
    unfolding r using n by (cases out_bytes; cases wall; simp add: opt_num_def)+
qed

text \<open>A row the live ledger appends for a verified run with bytes or a time is read back by the calibration as one
  more run of that configuration, with the bytes as tokens; a row of a failed run teaches nothing.\<close>

theorem ledger_is_learned:
  assumes "live_row env worker model effort ok out_bytes wall opts = Some r" "out_bytes \<noteq> None \<or> wall \<noteq> None"
  shows "ingest [PDict r] tbl = (if ok
    then tbl @ [((PStr worker, PStr model, opt_str effort),
      (case out_bytes of None \<Rightarrow> 0 | Some b \<Rightarrow> b div bytes_per_token), (case wall of None \<Rightarrow> 0 | Some w \<Rightarrow> w))]
    else tbl, None)"
proof -
  have h: "hashable (opt_str effort)" by (simp add: opt_str_def split: option.split)
  note f = live_row_fields [OF assms(1)]
  have tr: "trunc (rat_of_int i) = i" for i by (simp add: trunc_def)
  show ?thesis
    using assms(2) h by (cases out_bytes; cases wall) (simp_all add: ingest_row_def f opt_num_def or_zero_def Let_def tr trunc_def)
qed

theorem ledger_is_learned_witness:
  "\<exists>r. live_row None ''codex'' ''standard'' None True (Some 4002) None [] = Some r \<and>
     ingest [PDict r] [] = ([((PStr ''codex'', PStr ''standard'', PNone), 1000, 0)], None)"
proof -
  obtain r where r: "live_row None ''codex'' ''standard'' None True (Some 4002) None [] = Some r"
    by (simp add: live_row_def env_or_def py_lower_def)
  have b: "(4002 :: int) div bytes_per_token = 1000" by (simp add: bytes_per_token_def)
  show ?thesis using ledger_is_learned [OF r, of "[]"] r b by (simp add: opt_str_def)
qed

end
