(* ===== verification/Watchdog.thy ===== *)
theory Watchdog
  imports Failure_Classes
begin

text \<open>
  The streaming watchdog of \<^verbatim>\<open>agy_orchestrator/core/agent.py\<close>: how a worker's output is cut into lines, what
  each line does to the state the watchdog shares with the two drains, when a tick trips, the liveness wait with its
  wall-clock cap, and the attempt loop of \<open>run_async\<close>.  Time is the monotonic clock, handed to every step; the
  worker is the sequence of chunks, lines and ticks it causes.
\<close>

section \<open>Draining a pipe\<close>

text \<open>\<open>_drain\<close>: chunks are appended to a buffer, every complete line is emitted, the rest waits for the next chunk
  and is flushed at the end of the stream.\<close>

definition lf :: char where
  "lf = CHR 0x0A"

fun complete_lines :: "string \<Rightarrow> string \<Rightarrow> string list \<times> string" where
  "complete_lines acc [] = ([], acc)"
| "complete_lines acc (c # cs) =
     (if c = lf then (let (ls, r) = complete_lines [] cs in ((acc @ [c]) # ls, r)) else complete_lines (acc @ [c]) cs)"

fun drain :: "string \<Rightarrow> string list \<Rightarrow> string list" where
  "drain buf [] = (if buf = [] then [] else [buf])"
| "drain buf (d # ds) = (let (ls, r) = complete_lines [] (buf @ d) in ls @ drain r ds)"

lemma complete_lines_append:
  "complete_lines acc (xs @ ys) =
     (let (ls, r) = complete_lines acc xs; (ms, s) = complete_lines r ys in (ls @ ms, s))"
  by (induction acc xs rule: complete_lines.induct) (auto simp: Let_def split: prod.splits)

lemma complete_lines_acc: "lf \<notin> set acc \<Longrightarrow> complete_lines [] (acc @ xs) = complete_lines acc xs"
proof -
  have "lf \<notin> set ys \<Longrightarrow> complete_lines acc ys = ([], acc @ ys)" for acc ys
    by (induction ys arbitrary: acc) auto
  then show "lf \<notin> set acc \<Longrightarrow> complete_lines [] (acc @ xs) = complete_lines acc xs"
    by (simp add: complete_lines_append)
qed

lemma complete_lines_rest: "lf \<notin> set acc \<Longrightarrow> complete_lines acc xs = (ls, r) \<Longrightarrow> lf \<notin> set r"
  by (induction acc xs arbitrary: ls r rule: complete_lines.induct) (auto simp: Let_def split: prod.splits if_splits)

lemma complete_lines_concat: "complete_lines acc xs = (ls, r) \<Longrightarrow> concat ls @ r = acc @ xs"
  by (induction acc xs arbitrary: ls r rule: complete_lines.induct) (auto simp: Let_def split: prod.splits if_splits)

lemma complete_lines_shape:
  "lf \<notin> set acc \<Longrightarrow> complete_lines acc xs = (ls, r) \<Longrightarrow> l \<in> set ls \<Longrightarrow> \<exists>b. l = b @ [lf] \<and> lf \<notin> set b"
  by (induction acc xs arbitrary: ls r rule: complete_lines.induct) (auto simp: Let_def split: prod.splits if_splits)

lemma drain_rejoin: "lf \<notin> set buf \<Longrightarrow> drain buf ds = drain [] [buf @ concat ds]"
proof (induction buf ds rule: drain.induct)
  case (1 buf)
  have "complete_lines [] buf = ([], buf)" using 1 complete_lines_acc [of buf "[]"] by simp
  then show ?case by simp
next
  case (2 buf d ds)
  obtain ls r where lr: "complete_lines [] (buf @ d) = (ls, r)" by (cases "complete_lines [] (buf @ d)")
  have r: "lf \<notin> set r" using complete_lines_rest [OF _ lr] by simp
  have "drain r ds = drain [] [r @ concat ds]" by (rule 2(1) [OF lr [symmetric] refl r])
  moreover have "complete_lines [] ((buf @ d) @ concat ds) = (let (ms, s) = complete_lines r (concat ds) in (ls @ ms, s))"
    using complete_lines_append [of "[]" "buf @ d" "concat ds"] unfolding lr by simp
  ultimately show ?case using lr complete_lines_acc [OF r, of "concat ds"] by (auto simp: Let_def split: prod.splits)
qed

lemma drain_concat: "concat (drain buf ds) = buf @ concat ds"
proof (induction buf ds rule: drain.induct)
  case (2 buf d ds)
  obtain ls r where lr: "complete_lines [] (buf @ d) = (ls, r)" by (cases "complete_lines [] (buf @ d)")
  with 2(1) [OF lr [symmetric] refl] complete_lines_concat [OF lr] show ?case by simp
qed simp

section \<open>The watchdog's state\<close>

record budgets =
  bd_max_output_bytes :: int
  bd_stall_seconds :: rat
  bd_transport_max_errors :: int
  bd_transport_max_seconds :: rat
  bd_transport_recovery_window :: rat
  bd_transport_decay_per_window :: rat
  bd_silence_max_seconds :: rat

definition default_budgets :: budgets where
  "default_budgets = \<lparr>bd_max_output_bytes = 0, bd_stall_seconds = 0, bd_transport_max_errors = 25,
     bd_transport_max_seconds = 300, bd_transport_recovery_window = 60, bd_transport_decay_per_window = 1,
     bd_silence_max_seconds = 600\<rparr>"

record watch =
  w_out_total :: int
  w_any_output :: bool
  w_noise_only :: bool
  w_last_progress :: rat
  w_spell_active :: bool
  w_spell_start :: rat
  w_err_count :: int
  w_last_err :: rat
  w_cum_errors :: rat
  w_cum_degraded :: rat
  w_cum_event :: rat

definition watch_start :: "rat \<Rightarrow> watch" where
  "watch_start now = \<lparr>w_out_total = 0, w_any_output = False, w_noise_only = False, w_last_progress = now,
     w_spell_active = False, w_spell_start = 0, w_err_count = 0, w_last_err = 0, w_cum_errors = 0,
     w_cum_degraded = 0, w_cum_event = 0\<rparr>"

definition mark_progress :: "rat \<Rightarrow> watch \<Rightarrow> watch" where
  "mark_progress now s = s\<lparr>w_last_progress := now, w_any_output := True, w_noise_only := False\<rparr>"

text \<open>The transport half of \<open>_emit_line\<close>: a spell opens or grows, and the cumulative weights accrue.\<close>

definition transport_error :: "budgets \<Rightarrow> rat \<Rightarrow> watch \<Rightarrow> watch" where
  "transport_error b now s =
     (let s1 = (if w_spell_active s then s\<lparr>w_err_count := w_err_count s + 1\<rparr>
                else s\<lparr>w_spell_active := True, w_spell_start := now, w_err_count := 1\<rparr>);
          gap = now - w_last_err s;
          s2 = (if w_last_err s > 0 \<and> (bd_transport_recovery_window b \<le> 0 \<or> gap \<le> bd_transport_recovery_window b)
                then s1\<lparr>w_cum_degraded := w_cum_degraded s1 + gap\<rparr> else s1)
      in s2\<lparr>w_cum_errors := w_cum_errors s2 + 1, w_cum_event := now, w_last_err := now\<rparr>)"

datatype stream = Stdout | Stderr

definition emit_line :: "budgets \<Rightarrow> stream \<Rightarrow> string \<Rightarrow> rat \<Rightarrow> watch \<Rightarrow> watch" where
  "emit_line b strm line now s =
     (let s1 = (if strm = Stderr \<and> is_transport_error line then transport_error b now s else s)
      in if strm = Stdout then mark_progress now s1
         else if is_transport_noise_line line then s1\<lparr>w_noise_only := True\<rparr>
         else if is_wedged_session line then s1
         else mark_progress now s1)"

section \<open>A tick\<close>

datatype trip = Verbose | Transport_stall | Stalled

definition transport_armed :: "budgets \<Rightarrow> bool" where
  "transport_armed b = (bd_transport_max_errors b > 0 \<or> bd_transport_max_seconds b > 0)"

definition watchdog_armed :: "budgets \<Rightarrow> bool" where
  "watchdog_armed b = (bd_max_output_bytes b > 0 \<or> bd_stall_seconds b > 0 \<or> transport_armed b \<or> bd_silence_max_seconds b > 0)"

definition spell_check :: "budgets \<Rightarrow> rat \<Rightarrow> watch \<Rightarrow> trip option \<times> watch" where
  "spell_check b now s =
     (if transport_armed b \<and> w_spell_active s then
        if bd_transport_recovery_window b > 0 \<and> now - w_last_err s > bd_transport_recovery_window b
        then (None, s\<lparr>w_spell_active := False, w_err_count := 0\<rparr>)
        else if (bd_transport_max_errors b > 0 \<and> w_err_count s \<ge> bd_transport_max_errors b)
              \<or> (bd_transport_max_seconds b > 0 \<and> now - w_spell_start s > bd_transport_max_seconds b)
        then (Some Transport_stall, s) else (None, s)
      else (None, s))"

text \<open>Decay of the cumulative weights: only clean time beyond a first recovery window counts.\<close>

definition decay :: "budgets \<Rightarrow> rat \<Rightarrow> watch \<Rightarrow> watch" where
  "decay b now s =
     (let rw = bd_transport_recovery_window b; d = bd_transport_decay_per_window b;
          clean = now - (if w_cum_event s = 0 then now else w_cum_event s)
      in if rw > 0 \<and> d > 0 \<and> clean > rw then
           let shed = (clean - rw) / rw * d
           in s\<lparr>w_cum_errors := max 0 (w_cum_errors s - shed), w_cum_degraded := max 0 (w_cum_degraded s - shed * rw),
                w_cum_event := now\<rparr>
         else s)"

definition cumulative_check :: "budgets \<Rightarrow> rat \<Rightarrow> watch \<Rightarrow> trip option \<times> watch" where
  "cumulative_check b now s =
     (if transport_armed b \<and> (w_cum_errors s > 0 \<or> w_cum_degraded s > 0) then
        let s1 = decay b now s
        in if (bd_transport_max_errors b > 0 \<and> w_cum_errors s1 \<ge> of_int (bd_transport_max_errors b))
             \<or> (bd_transport_max_seconds b > 0 \<and> w_cum_degraded s1 > bd_transport_max_seconds b)
           then (Some Transport_stall, s1) else (None, s1)
      else (None, s))"

definition silence_check :: "budgets \<Rightarrow> rat \<Rightarrow> watch \<Rightarrow> trip option" where
  "silence_check b now s =
     (if bd_stall_seconds b > 0 \<and> now - w_last_progress s > bd_stall_seconds b \<and> w_noise_only s then Some Transport_stall
      else let bound = (if bd_stall_seconds b > 0 then bd_stall_seconds b else bd_silence_max_seconds b)
           in if bound > 0 \<and> \<not> w_any_output s \<and> now - w_last_progress s > bound then Some Stalled else None)"

definition verbose_check :: "budgets \<Rightarrow> watch \<Rightarrow> bool" where
  "verbose_check b s = (bd_max_output_bytes b > 0 \<and> w_out_total s > bd_max_output_bytes b)"

definition tick :: "budgets \<Rightarrow> rat \<Rightarrow> watch \<Rightarrow> trip option \<times> watch" where
  "tick b now s =
     (if verbose_check b s then (Some Verbose, s)
      else case spell_check b now s of
        (Some t, s1) \<Rightarrow> (Some t, s1)
      | (None, s1) \<Rightarrow>
          (case cumulative_check b now s1 of
             (Some t, s2) \<Rightarrow> (Some t, s2)
           | (None, s2) \<Rightarrow> (silence_check b now s2, s2)))"

section \<open>A streamed call\<close>

datatype happening = Chunk nat | Line stream string | Tick

text \<open>What a worker does, with the time of each: the call ends at the first tick that trips, and a finished
  call is checked once more for a runaway (\<open>_stream_communicate\<close>).\<close>

fun watch_run :: "budgets \<Rightarrow> (rat \<times> happening) list \<Rightarrow> watch \<Rightarrow> trip option \<times> watch" where
  "watch_run b [] s = (if verbose_check b s then Some Verbose else None, s)"
| "watch_run b ((now, h) # hs) s =
     (case h of
        Chunk n \<Rightarrow> watch_run b hs (s\<lparr>w_out_total := w_out_total s + int n\<rparr>)
      | Line strm l \<Rightarrow> watch_run b hs (emit_line b strm l now s)
      | Tick \<Rightarrow>
          if \<not> watchdog_armed b then watch_run b hs s
          else case tick b now s of (Some t, s1) \<Rightarrow> (Some t, s1) | (None, s1) \<Rightarrow> watch_run b hs s1)"

section \<open>Spells and weights\<close>

definition is_error :: "happening \<Rightarrow> bool" where
  "is_error h = (case h of Line Stderr l \<Rightarrow> is_transport_error l | _ \<Rightarrow> False)"

definition is_noise :: "happening \<Rightarrow> bool" where
  "is_noise h = (case h of Line Stderr l \<Rightarrow> is_transport_noise_line l | _ \<Rightarrow> False)"

definition productive :: "happening \<Rightarrow> bool" where
  "productive h = (case h of Line Stdout _ \<Rightarrow> True | Line Stderr l \<Rightarrow> \<not> is_transport_noise_line l \<and> \<not> is_wedged_session l | _ \<Rightarrow> False)"

definition error_total :: "(rat \<times> happening) list \<Rightarrow> nat" where
  "error_total hs = length (filter (\<lambda>(_, h). is_error h) hs)"

lemma error_total_simps [simp]:
  "error_total [] = 0" "error_total ((t, h) # hs) = (if is_error h then 1 else 0) + error_total hs"
  by (simp_all add: error_total_def)

text \<open>The weight an error keeps when the next happening is at most \<open>T\<close> away.\<close>

definition used :: "budgets \<Rightarrow> rat \<Rightarrow> rat" where
  "used b x = (if bd_transport_recovery_window b > 0 \<and> bd_transport_decay_per_window b > 0 \<and> x > bd_transport_recovery_window b
     then (x - bd_transport_recovery_window b) / bd_transport_recovery_window b * bd_transport_decay_per_window b else 0)"

definition kept :: "budgets \<Rightarrow> rat \<Rightarrow> rat" where
  "kept b T = 1 - used b T"

text \<open>A provider that flaps: once an error has come, nothing happens more than \<open>T\<close> after the last one.\<close>

fun flapping :: "rat \<Rightarrow> rat option \<Rightarrow> (rat \<times> happening) list \<Rightarrow> bool" where
  "flapping T e [] = True"
| "flapping T e ((t, h) # hs) =
     (t > 0 \<and> (case e of None \<Rightarrow> True | Some e0 \<Rightarrow> e0 \<le> t \<and> t - e0 \<le> T)
      \<and> flapping T (if is_error h then Some t else e) hs)"

lemma used_mono: "x \<le> y \<Longrightarrow> used b x \<le> used b y"
  by (auto simp: used_def intro!: mult_right_mono divide_right_mono)

lemma used_nonneg: "0 \<le> used b x"
  by (auto simp: used_def)

lemma used_add:
  assumes "bd_transport_recovery_window b > 0" "bd_transport_decay_per_window b > 0" "x \<ge> 0" "y > bd_transport_recovery_window b"
  shows "used b x + used b y \<le> used b (x + y)"
proof -
  let ?r = "bd_transport_recovery_window b" and ?d = "bd_transport_decay_per_window b"
  have y: "used b y = (y - ?r) / ?r * ?d" and xy: "used b (x + y) = (x + y - ?r) / ?r * ?d"
    using assms by (simp_all add: used_def)
  show ?thesis
  proof (cases "x > ?r")
    case True
    have "(x - ?r) / ?r * ?d + (y - ?r) / ?r * ?d = (x + y - ?r - ?r) / ?r * ?d"
      by (simp add: add_divide_distrib diff_divide_distrib algebra_simps)
    also have "\<dots> \<le> (x + y - ?r) / ?r * ?d" using assms by (intro mult_right_mono divide_right_mono) auto
    finally show ?thesis using True assms y xy by (simp add: used_def)
  next
    case False
    have "used b y \<le> used b (x + y)" by (rule used_mono) (use assms in simp)
    then show ?thesis using False by (simp add: used_def [of b x])
  qed
qed

lemma used_0 [simp]: "used b 0 = 0"
  by (simp add: used_def)

text \<open>What the cumulative weight is worth: \<open>e\<close> is the time of the last of \<open>n\<close> errors.\<close>

definition worth :: "budgets \<Rightarrow> rat \<Rightarrow> nat \<Rightarrow> rat option \<Rightarrow> watch \<Rightarrow> bool" where
  "worth b T n e s =
     (case e of None \<Rightarrow> n = 0 \<and> w_cum_errors s \<ge> 0
      | Some e0 \<Rightarrow> e0 > 0 \<and> e0 \<le> w_cum_event s \<and> used b (w_cum_event s - e0) \<le> used b T
          \<and> w_cum_errors s \<ge> of_nat n * kept b T + used b T - used b (w_cum_event s - e0))"

lemma worth_cum: "worth b T n e s \<Longrightarrow> used b T \<ge> 0 \<Longrightarrow> w_cum_errors s \<ge> of_nat n * kept b T"
  by (auto simp: worth_def split: option.splits)

lemma worth_decay:
  assumes "worth b T n (Some e) s" "e \<le> now" "now - e \<le> T"
  shows "worth b T n (Some e) (decay b now s)"
proof -
  let ?r = "bd_transport_recovery_window b" and ?d = "bd_transport_decay_per_window b"
  let ?clean = "now - w_cum_event s"
  have e: "e > 0" "e \<le> w_cum_event s" and w: "w_cum_errors s \<ge> of_nat n * kept b T + used b T - used b (w_cum_event s - e)"
    using assms(1) by (auto simp: worth_def)
  show ?thesis
  proof (cases "?r > 0 \<and> ?d > 0 \<and> ?clean > ?r")
    case True
    have sum: "used b (w_cum_event s - e) + used b ?clean \<le> used b (now - e)"
      using used_add [of b "w_cum_event s - e" ?clean] True e by simp
    have le: "used b (now - e) \<le> used b T" by (rule used_mono [OF assms(3)])
    have "decay b now s = s\<lparr>w_cum_errors := max 0 (w_cum_errors s - used b ?clean),
        w_cum_degraded := max 0 (w_cum_degraded s - used b ?clean * ?r), w_cum_event := now\<rparr>"
      using True e by (simp add: decay_def used_def Let_def)
    moreover have "w_cum_errors s - used b ?clean \<ge> of_nat n * kept b T + used b T - used b (now - e)" using w sum by linarith
    ultimately show ?thesis using e assms le by (simp add: worth_def)
  next
    case False
    then have "decay b now s = s" using e by (auto simp: decay_def Let_def)
    then show ?thesis using assms(1) by simp
  qed
qed

lemma worth_error:
  assumes "worth b T n e s" "now > 0"
  shows "worth b T (Suc n) (Some now) (transport_error b now s)"
proof -
  have "w_cum_errors (transport_error b now s) = w_cum_errors s + 1" "w_cum_event (transport_error b now s) = now"
    by (simp_all add: transport_error_def Let_def)
  moreover have "w_cum_errors s \<ge> of_nat n * kept b T" by (rule worth_cum [OF assms(1) used_nonneg])
  moreover have "of_nat (Suc n) * kept b T + used b T = of_nat n * kept b T + 1" by (simp add: kept_def algebra_simps)
  ultimately show ?thesis using assms(2) used_nonneg [of b T] unfolding worth_def by simp
qed

lemma worth_cong: "w_cum_errors s' = w_cum_errors s \<Longrightarrow> w_cum_event s' = w_cum_event s \<Longrightarrow> worth b T n e s' = worth b T n e s"
  by (simp add: worth_def split: option.split)

lemma worth_line:
  assumes "worth b T n e s" "now > 0"
  shows "worth b T (n + (if is_error (Line strm l) then 1 else 0)) (if is_error (Line strm l) then Some now else e) (emit_line b strm l now s)"
proof -
  let ?s1 = "if strm = Stderr \<and> is_transport_error l then transport_error b now s else s"
  have "w_cum_errors (emit_line b strm l now s) = w_cum_errors ?s1" "w_cum_event (emit_line b strm l now s) = w_cum_event ?s1"
    by (simp_all add: emit_line_def Let_def mark_progress_def)
  moreover have "is_error (Line strm l) = (strm = Stderr \<and> is_transport_error l)" by (cases strm) (simp_all add: is_error_def)
  moreover have "worth b T (n + (if strm = Stderr \<and> is_transport_error l then 1 else 0)) (if strm = Stderr \<and> is_transport_error l then Some now else e) ?s1"
    using worth_error [OF assms] assms(1) by simp
  ultimately show ?thesis using worth_cong [of "emit_line b strm l now s" ?s1] by simp
qed

lemma spell_check_cum:
  "w_cum_errors (snd (spell_check b now s)) = w_cum_errors s \<and> w_cum_event (snd (spell_check b now s)) = w_cum_event s"
  by (simp add: spell_check_def)

lemma tick_quiet:
  assumes "fst (tick b now s) = None"
  shows "\<not> verbose_check b s" "fst (spell_check b now s) = None"
    "fst (cumulative_check b now (snd (spell_check b now s))) = None"
    "snd (tick b now s) = snd (cumulative_check b now (snd (spell_check b now s)))"
    "silence_check b now (snd (tick b now s)) = None"
  using assms by (auto simp: tick_def split: if_splits prod.splits option.splits)

lemma cumulative_quiet:
  assumes "fst (cumulative_check b now s) = None" "worth b T n e s" "bd_transport_max_errors b > 0"
    "case e of None \<Rightarrow> True | Some e0 \<Rightarrow> e0 \<le> now \<and> now - e0 \<le> T"
  shows "of_nat n * kept b T < of_int (bd_transport_max_errors b) \<and> worth b T n e (snd (cumulative_check b now s))"
proof (cases "transport_armed b \<and> (w_cum_errors s > 0 \<or> w_cum_degraded s > 0)")
  case True
  have d: "worth b T n e (decay b now s)"
  proof (cases e)
    case None
    then have "0 \<le> w_cum_errors s" using assms(2) by (simp add: worth_def)
    then have "0 \<le> w_cum_errors (decay b now s)" by (simp add: decay_def Let_def)
    then show ?thesis using None assms(2) by (simp add: worth_def)
  qed (use assms worth_decay in auto)
  have "w_cum_errors (decay b now s) < of_int (bd_transport_max_errors b)"
    using assms(1,3) True by (auto simp: cumulative_check_def Let_def split: if_splits)
  with worth_cum [OF d used_nonneg] d show ?thesis using True by (simp add: cumulative_check_def Let_def)
next
  case False
  have "transport_armed b" using assms(3) by (simp add: transport_armed_def)
  with False have "w_cum_errors s \<le> 0" by auto
  with worth_cum [OF assms(2) used_nonneg] have "of_nat n * kept b T \<le> 0" by linarith
  moreover have "(0 :: rat) < of_int (bd_transport_max_errors b)" using assms(3) by simp
  ultimately show ?thesis using False assms(2) by (auto simp: cumulative_check_def)
qed

lemma flapping_run:
  assumes "flapping T e hs" "worth b T n e s" "bd_transport_max_errors b > 0" "hs \<noteq> []" "snd (last hs) = Tick"
    "fst (watch_run b hs s) = None"
  shows "of_nat (n + error_total hs) * kept b T < of_int (bd_transport_max_errors b)"
  using assms
proof (induction hs arbitrary: e n s)
  case (Cons th hs)
  obtain now h where th: "th = (now, h)" by (cases th)
  have pos: "now > 0" and near: "case e of None \<Rightarrow> True | Some e0 \<Rightarrow> e0 \<le> now \<and> now - e0 \<le> T"
    and rest: "flapping T (if is_error h then Some now else e) hs"
    using Cons.prems(1) th by auto
  have armed: "watchdog_armed b" using Cons.prems(3) by (simp add: watchdog_armed_def transport_armed_def)
  show ?case
  proof (cases h)
    case Tick
    have q: "fst (tick b now s) = None" and run: "fst (watch_run b hs (snd (tick b now s))) = None"
      using Cons.prems(6) th Tick armed by (auto split: prod.splits option.splits)
    let ?s1 = "snd (spell_check b now s)"
    have w1: "worth b T n e ?s1" using Cons.prems(2) worth_cong [of ?s1 s] spell_check_cum by simp
    from cumulative_quiet [OF tick_quiet(3) [OF q] w1 Cons.prems(3) near]
    have lt: "of_nat n * kept b T < of_int (bd_transport_max_errors b)" and w2: "worth b T n e (snd (tick b now s))"
      using tick_quiet(4) [OF q] by auto
    have ne: "\<not> is_error h" using Tick by (simp add: is_error_def)
    show ?thesis
    proof (cases "hs = []")
      case False
      have "snd (last hs) = Tick" using Cons.prems(5) False by simp
      from Cons.IH [OF _ w2 Cons.prems(3) False this run] rest ne show ?thesis using th by simp
    qed (use lt ne th in simp)
  next
    case (Chunk k)
    have ne: "\<not> is_error h" and hs: "hs \<noteq> []" using Chunk Cons.prems(5) th by (auto simp: is_error_def)
    have "worth b T n e (s\<lparr>w_out_total := w_out_total s + int k\<rparr>)"
      using Cons.prems(2) worth_cong [of "s\<lparr>w_out_total := w_out_total s + int k\<rparr>" s] by simp
    from Cons.IH [OF _ this Cons.prems(3) hs] rest ne Cons.prems(5,6) hs th Chunk show ?thesis by simp
  next
    case (Line strm l)
    have hs: "hs \<noteq> []" using Line Cons.prems(5) th by auto
    have "fst (watch_run b hs (emit_line b strm l now s)) = None" "snd (last hs) = Tick"
      using Cons.prems(5,6) hs th Line by auto
    with Cons.IH [OF _ worth_line [OF Cons.prems(2) pos, of strm l] Cons.prems(3) hs] rest
    show ?thesis using th Line by (cases "is_error (Line strm l)") (simp_all add: ac_simps)
  qed
qed simp

section \<open>A blip\<close>

text \<open>How far a call may be disturbed: \<open>n\<close> errors so far, all of them between \<open>f\<close> and \<open>f + L\<close>.\<close>

definition mild :: "nat \<Rightarrow> rat \<Rightarrow> rat \<Rightarrow> watch \<Rightarrow> bool" where
  "mild n f L s =
     (w_cum_errors s \<le> of_nat n \<and> (w_err_count s \<le> int n)
      \<and> (w_last_err s = 0 \<and> w_cum_degraded s = 0 \<and> \<not> w_spell_active s
         \<or> f \<le> w_last_err s \<and> w_last_err s \<le> f + L \<and> w_cum_degraded s \<le> w_last_err s - f \<and> (w_spell_active s \<longrightarrow> f \<le> w_spell_start s)))"

text \<open>A budget that \<open>n\<close> errors in a window of \<open>L\<close> leave alone.\<close>

definition within_budget :: "budgets \<Rightarrow> nat \<Rightarrow> rat \<Rightarrow> bool" where
  "within_budget b n L =
     ((bd_transport_max_errors b > 0 \<longrightarrow> int n < bd_transport_max_errors b)
      \<and> (bd_transport_max_seconds b > 0 \<longrightarrow> bd_transport_recovery_window b > 0 \<and> L + bd_transport_recovery_window b \<le> bd_transport_max_seconds b))"

lemma mild_error:
  assumes "mild n f L s" "f \<le> now" "now \<le> f + L" "0 < f"
  shows "mild (Suc n) f L (transport_error b now s)"
  using assms by (auto simp: mild_def transport_error_def Let_def)

lemma mild_cong:
  "w_cum_errors s' = w_cum_errors s \<Longrightarrow> w_err_count s' = w_err_count s \<Longrightarrow> w_last_err s' = w_last_err s \<Longrightarrow>
   w_cum_degraded s' = w_cum_degraded s \<Longrightarrow> w_spell_active s' = w_spell_active s \<Longrightarrow> w_spell_start s' = w_spell_start s \<Longrightarrow>
   mild n f L s' = mild n f L s"
  by (simp add: mild_def)

lemma mild_mono: "mild n f L s \<Longrightarrow> n \<le> m \<Longrightarrow> mild m f L s"
  by (auto simp: mild_def)

lemma mild_spell:
  assumes "mild n f L s" "within_budget b n L"
  shows "fst (spell_check b now s) = None \<and> mild n f L (snd (spell_check b now s))"
  using assms by (auto simp: spell_check_def mild_def within_budget_def)

lemma decay_cases:
  obtains "decay b now s = s"
  | sh sd where "0 \<le> sh" "0 \<le> sd" "decay b now s = s\<lparr>w_cum_errors := max 0 (w_cum_errors s - sh),
      w_cum_degraded := max 0 (w_cum_degraded s - sd), w_cum_event := now\<rparr>"
proof -
  let ?r = "bd_transport_recovery_window b" and ?d = "bd_transport_decay_per_window b"
  let ?clean = "now - (if w_cum_event s = 0 then now else w_cum_event s)"
  show thesis
  proof (cases "?r > 0 \<and> ?d > 0 \<and> ?clean > ?r")
    case True
    show thesis
    proof (rule that(2))
      show "0 \<le> (?clean - ?r) / ?r * ?d" "0 \<le> (?clean - ?r) / ?r * ?d * ?r"
        using True by (intro mult_nonneg_nonneg divide_nonneg_nonneg; simp)+
    qed (simp only: decay_def Let_def True if_True simp_thms)
  next
    case False
    show thesis by (rule that(1)) (simp only: decay_def Let_def False if_False)
  qed
qed

lemma decay_le:
  "w_cum_errors (decay b now s) \<le> max 0 (w_cum_errors s)"
  "w_cum_degraded (decay b now s) \<le> max 0 (w_cum_degraded s)"
  "0 \<le> w_cum_degraded s \<Longrightarrow> 0 \<le> w_cum_degraded (decay b now s)"
  by (cases rule: decay_cases [where b = b and now = now and s = s]; auto)+

lemma mild_decay: "mild n f L s \<Longrightarrow> mild n f L (decay b now s)"
proof -
  have "w_err_count (decay b now s) = w_err_count s" "w_last_err (decay b now s) = w_last_err s"
    "w_spell_active (decay b now s) = w_spell_active s" "w_spell_start (decay b now s) = w_spell_start s"
    by (simp_all add: decay_def Let_def)
  moreover assume "mild n f L s"
  ultimately show ?thesis using decay_le [where b = b and now = now and s = s] by (auto simp: mild_def)
qed

lemma mild_cumulative:
  assumes "mild n f L s" "within_budget b n L" "0 \<le> L"
  shows "fst (cumulative_check b now s) = None \<and> mild n f L (snd (cumulative_check b now s))"
proof -
  have d: "mild n f L (decay b now s)" by (rule mild_decay [OF assms(1)])
  then have "w_cum_errors (decay b now s) \<le> of_nat n" "w_cum_degraded (decay b now s) \<le> L" using assms(3) by (auto simp: mild_def)
  moreover have "of_nat n < (of_int (bd_transport_max_errors b) :: rat)" if "bd_transport_max_errors b > 0"
    using assms(2) that unfolding within_budget_def by (metis of_int_less_iff of_int_of_nat_eq)
  moreover have "L \<le> bd_transport_max_seconds b" if "bd_transport_max_seconds b > 0"
    using assms(2) that by (auto simp: within_budget_def)
  ultimately show ?thesis using d assms(1) by (auto simp: cumulative_check_def Let_def)
qed

lemma spell_keeps:
  "w_out_total (snd (spell_check b now s)) = w_out_total s" "w_any_output (snd (spell_check b now s)) = w_any_output s"
  "w_noise_only (snd (spell_check b now s)) = w_noise_only s" "w_last_progress (snd (spell_check b now s)) = w_last_progress s"
  by (simp_all add: spell_check_def)

lemma decay_keeps:
  "w_out_total (decay b now s) = w_out_total s" "w_any_output (decay b now s) = w_any_output s"
  "w_noise_only (decay b now s) = w_noise_only s" "w_last_progress (decay b now s) = w_last_progress s"
  by (simp_all add: decay_def Let_def)

lemma cumulative_keeps:
  "w_out_total (snd (cumulative_check b now s)) = w_out_total s" "w_any_output (snd (cumulative_check b now s)) = w_any_output s"
  "w_noise_only (snd (cumulative_check b now s)) = w_noise_only s" "w_last_progress (snd (cumulative_check b now s)) = w_last_progress s"
  by (simp_all add: cumulative_check_def Let_def decay_keeps)

lemma mild_tick:
  assumes "mild n f L s" "within_budget b n L" "0 \<le> L" "\<not> verbose_check b s"
  obtains s2 where "tick b now s = (silence_check b now s2, s2)" "mild n f L s2" "w_out_total s2 = w_out_total s"
    "w_any_output s2 = w_any_output s" "w_noise_only s2 = w_noise_only s" "w_last_progress s2 = w_last_progress s"
proof -
  let ?s1 = "snd (spell_check b now s)" and ?s2 = "snd (cumulative_check b now (snd (spell_check b now s)))"
  from mild_spell [OF assms(1,2), of now] have s1: "fst (spell_check b now s) = None" "mild n f L ?s1" by auto
  from mild_cumulative [OF s1(2) assms(2,3), of now]
  have s2: "fst (cumulative_check b now ?s1) = None" "mild n f L ?s2" by auto
  show thesis
  proof (rule that [of ?s2])
    show "tick b now s = (silence_check b now ?s2, ?s2)"
      using s1(1) s2(1) assms(4) by (auto simp: tick_def split: prod.splits option.splits)
  qed (use s2 in \<open>simp_all only: cumulative_keeps spell_keeps\<close>)
qed

section \<open>What the tick sees of the output\<close>

definition bytes_total :: "(rat \<times> happening) list \<Rightarrow> int" where
  "bytes_total hs = sum_list (map (\<lambda>(_, h). case h of Chunk n \<Rightarrow> int n | _ \<Rightarrow> 0) hs)"

definition silence_bound :: "budgets \<Rightarrow> rat" where
  "silence_bound b = (if bd_stall_seconds b > 0 then bd_stall_seconds b else bd_silence_max_seconds b)"

fun speaks_in_time :: "rat \<Rightarrow> rat \<Rightarrow> (rat \<times> happening) list \<Rightarrow> bool" where
  "speaks_in_time bound start [] = True"
| "speaks_in_time bound start ((t, h) # hs) =
     (productive h \<or> ((h = Tick \<longrightarrow> bound \<le> 0 \<or> t - start \<le> bound) \<and> speaks_in_time bound start hs))"

lemma bytes_total_simps [simp]:
  "bytes_total [] = 0" "bytes_total ((t, h) # hs) = (case h of Chunk n \<Rightarrow> int n | _ \<Rightarrow> 0) + bytes_total hs"
  by (simp_all add: bytes_total_def)

lemma bytes_total_nonneg: "0 \<le> bytes_total hs"
  unfolding bytes_total_def by (rule sum_list_nonneg) (auto split: happening.splits)

lemma transport_error_keeps:
  "w_out_total (transport_error b now s) = w_out_total s" "w_any_output (transport_error b now s) = w_any_output s"
  "w_noise_only (transport_error b now s) = w_noise_only s" "w_last_progress (transport_error b now s) = w_last_progress s"
  by (simp_all add: transport_error_def Let_def)

lemma emit_line_out_total: "w_out_total (emit_line b strm l now s) = w_out_total s"
  by (simp add: emit_line_def Let_def mark_progress_def transport_error_keeps)

lemma emit_line_any_output: "w_any_output (emit_line b strm l now s) = (productive (Line strm l) \<or> w_any_output s)"
  by (cases strm) (simp_all add: emit_line_def Let_def mark_progress_def transport_error_keeps productive_def)

lemma emit_line_noise:
  "\<not> is_noise (Line strm l) \<Longrightarrow> \<not> w_noise_only s \<Longrightarrow> \<not> w_noise_only (emit_line b strm l now s)"
  by (cases strm) (simp_all add: emit_line_def Let_def mark_progress_def transport_error_keeps is_noise_def)

lemma emit_line_quiet:
  "\<not> productive (Line strm l) \<Longrightarrow> w_last_progress (emit_line b strm l now s) = w_last_progress s"
  by (cases strm) (auto simp: emit_line_def Let_def mark_progress_def transport_error_keeps productive_def)

lemmas emit_line_output = emit_line_out_total emit_line_any_output emit_line_noise emit_line_quiet

lemma emit_line_mild:
  assumes "mild n f L s" "is_error (Line strm l) \<Longrightarrow> f \<le> now \<and> now \<le> f + L" "0 < f"
  shows "mild (n + (if is_error (Line strm l) then 1 else 0)) f L (emit_line b strm l now s)"
proof -
  let ?s1 = "if strm = Stderr \<and> is_transport_error l then transport_error b now s else s"
  have "mild m f L (emit_line b strm l now s) = mild m f L ?s1" for m
    by (rule mild_cong) (simp_all add: emit_line_def Let_def mark_progress_def)
  moreover have "is_error (Line strm l) = (strm = Stderr \<and> is_transport_error l)" by (cases strm) (simp_all add: is_error_def)
  ultimately show ?thesis using assms mild_error [OF assms(1) _ _ assms(3)] by (cases "strm = Stderr \<and> is_transport_error l") auto
qed

lemma blip_run:
  assumes "mild n f L s" "within_budget b (n + error_total hs) L" "0 \<le> L" "0 < f"
    "list_all (\<lambda>(t, h). is_error h \<longrightarrow> f \<le> t \<and> t \<le> f + L) hs"
    "bd_max_output_bytes b > 0 \<longrightarrow> w_out_total s + bytes_total hs \<le> bd_max_output_bytes b"
    "bd_stall_seconds b > 0 \<longrightarrow> \<not> w_noise_only s \<and> list_all (\<lambda>(t, h). \<not> is_noise h) hs"
    "w_any_output s \<or> w_last_progress s = start \<and> speaks_in_time (silence_bound b) start hs"
  shows "fst (watch_run b hs s) = None"
  using assms
proof (induction hs arbitrary: n s)
  case Nil
  then show ?case by (auto simp: verbose_check_def)
next
  case (Cons th hs)
  obtain now h where th: "th = (now, h)" by (cases th)
  note prems = Cons.prems [unfolded th]
  show ?case
  proof (cases h)
    case (Chunk k)
    have "fst (watch_run b hs (s\<lparr>w_out_total := w_out_total s + int k\<rparr>)) = None"
      using prems Chunk by (intro Cons.IH [of n]) (auto simp: is_error_def is_noise_def productive_def mild_def algebra_simps)
    then show ?thesis using th Chunk by simp
  next
    case (Line strm l)
    have "fst (watch_run b hs (emit_line b strm l now s)) = None"
    proof (rule Cons.IH [of "n + (if is_error h then 1 else 0)"])
      show "mild (n + (if is_error h then 1 else 0)) f L (emit_line b strm l now s)"
        unfolding Line by (rule emit_line_mild [OF prems(1)]) (use prems Line in auto)
      show "w_any_output (emit_line b strm l now s) \<or> w_last_progress (emit_line b strm l now s) = start \<and> speaks_in_time (silence_bound b) start hs"
        using prems(8) emit_line_any_output emit_line_quiet Line by auto
    qed (use prems Line in \<open>auto simp: emit_line_output ac_simps\<close>)
    then show ?thesis using th Line by simp
  next
    case Tick
    have ne: "\<not> is_error h" using Tick by (simp add: is_error_def)
    have wb: "within_budget b n L" using prems(2) by (auto simp: within_budget_def)
    have v: "\<not> verbose_check b s" using prems(6) Tick bytes_total_nonneg [of hs] by (auto simp: verbose_check_def)
    obtain s2 where s2: "tick b now s = (silence_check b now s2, s2)" "mild n f L s2" "w_out_total s2 = w_out_total s"
      "w_any_output s2 = w_any_output s" "w_noise_only s2 = w_noise_only s" "w_last_progress s2 = w_last_progress s"
      by (rule mild_tick [OF prems(1) wb prems(3) v])
    have quiet: "silence_check b now s2 = None"
      using prems(7,8) s2 Tick by (auto simp: silence_check_def silence_bound_def Let_def productive_def split: if_splits)
    have rest: "fst (watch_run b hs s') = None" if "s' = s \<or> s' = s2" for s'
      using prems s2 that Tick ne by (intro Cons.IH [of n]) (auto simp: productive_def)
    show ?thesis using th Tick s2(1) quiet rest by simp
  qed
qed

section \<open>Silence\<close>

definition mute :: "happening \<Rightarrow> bool" where
  "mute h = (case h of Chunk _ \<Rightarrow> False | _ \<Rightarrow> \<not> productive h \<and> \<not> is_noise h)"

lemma transport_error_noise: "is_transport_error l \<Longrightarrow> is_transport_noise_line l"
  by (auto simp: is_transport_error_def is_transport_noise_line_def transport_noise_markers_def any_in_append Let_def split: if_splits)

lemma mute_line: "mute (Line strm l) \<Longrightarrow> emit_line b strm l now s = s"
  using transport_error_noise [of l]
  by (cases strm) (auto simp: mute_def productive_def is_noise_def emit_line_def Let_def)

lemma mute_tick:
  assumes "silence_bound b > 0"
  shows "tick b now (watch_start start) = (if now - start > silence_bound b then Some Stalled else None, watch_start start)"
  using assms
  by (auto simp: tick_def verbose_check_def spell_check_def cumulative_check_def silence_check_def silence_bound_def
      watch_start_def Let_def)

lemma mute_run:
  assumes "silence_bound b > 0" "list_all (\<lambda>(_, h). mute h) hs"
  shows "fst (watch_run b hs (watch_start start))
    = (if list_ex (\<lambda>(t, h). h = Tick \<and> t - start > silence_bound b) hs then Some Stalled else None)"
  using assms(2)
proof (induction hs)
  case Nil
  then show ?case by (simp add: verbose_check_def watch_start_def)
next
  case (Cons th hs)
  obtain now h where th: "th = (now, h)" by (cases th)
  have armed: "watchdog_armed b" using assms(1) by (auto simp: watchdog_armed_def silence_bound_def split: if_splits)
  show ?case
  proof (cases h)
    case Tick
    then show ?thesis using Cons th armed mute_tick [OF assms(1), of now start] by simp
  qed (use Cons th mute_line in \<open>auto simp: mute_def\<close>)
qed

section \<open>Properties\<close>

text \<open>However the worker's output is cut into chunks, the same lines are emitted; they are the output, and a line
  feed can only be the last character of one.\<close>

theorem chunking_is_invisible:
  "drain [] ds = drain [] [concat ds] \<and> concat (drain [] ds) = concat ds
   \<and> list_all (\<lambda>l. l \<noteq> [] \<and> lf \<notin> set (butlast l)) (drain [] ds)"
proof (intro conjI)
  show d: "drain [] ds = drain [] [concat ds]" using drain_rejoin [of "[]" ds] by simp
  show "concat (drain [] ds) = concat ds" by (simp add: drain_concat)
  obtain ls r where lr: "complete_lines [] (concat ds) = (ls, r)" by (cases "complete_lines [] (concat ds)")
  have "lf \<notin> set r" using complete_lines_rest [OF _ lr] by simp
  moreover have "l \<noteq> [] \<and> lf \<notin> set (butlast l)" if "l \<in> set ls" for l
    using complete_lines_shape [OF _ lr that] by auto
  ultimately show "list_all (\<lambda>l. l \<noteq> [] \<and> lf \<notin> set (butlast l)) (drain [] ds)"
    unfolding d using lr by (auto simp: list_all_iff dest: in_set_butlastD)
qed

text \<open>C26: a provider that keeps failing is caught.  Let nothing happen more than \<open>T\<close> seconds after the last transport
  error: once \<open>max_errors / kept T\<close> errors have come, however many clean spells and however much other output lie
  between them, the next tick has tripped; \<open>kept T\<close> is 1 for a \<open>T\<close> within the recovery window and falls linearly
  beyond.\<close>

theorem flapping_provider_is_caught:
  assumes "flapping T None hs" "bd_transport_max_errors b > 0" "hs \<noteq> []" "snd (last hs) = Tick"
    "of_int (bd_transport_max_errors b) \<le> of_nat (error_total hs) * kept b T"
  shows "fst (watch_run b hs (watch_start start)) \<noteq> None"
proof
  assume n: "fst (watch_run b hs (watch_start start)) = None"
  have "worth b T 0 None (watch_start start)" by (simp add: worth_def watch_start_def)
  from flapping_run [OF assms(1) this assms(2-4) n] assms(5) show False by simp
qed

text \<open>The witness is also a false alarm: 25 lines of a worker's own chatter that mention a \<open>websocket\<close>, with
  progress on standard output between them, trip the default budgets.\<close>

theorem flapping_provider_is_caught_witness:
  "fst (watch_run default_budgets (concat (replicate 25 [(10, Line Stderr ''editing websocket.py''), (11, Line Stdout ''ok'')]) @ [(12, Tick)])
     (watch_start 5)) \<noteq> None"
proof (rule flapping_provider_is_caught [where T = 60])
  have e: "is_error (Line Stderr ''editing websocket.py'')" "\<not> is_error (Line Stdout ''ok'')" "\<not> is_error Tick"
    by code_simp+
  have rep: "replicate 25 x = [x, x, x, x, x, x, x, x, x, x, x, x, x, x, x, x, x, x, x, x, x, x, x, x, x]" for x :: "(rat \<times> happening) list"
    by (simp add: numeral_eq_Suc)
  show "flapping 60 None (concat (replicate 25 [(10, Line Stderr ''editing websocket.py''), (11, Line Stdout ''ok'')]) @ [(12, Tick)])"
    unfolding rep by (simp add: e)
  show "of_int (bd_transport_max_errors default_budgets)
      \<le> of_nat (error_total (concat (replicate 25 [(10, Line Stderr ''editing websocket.py''), (11, Line Stdout ''ok'')]) @ [(12, Tick)]))
        * kept default_budgets 60"
    unfolding rep by (simp add: e default_budgets_def kept_def used_def)
qed (simp_all add: default_budgets_def)

text \<open>A passing blip is forgiven.  A call is never tripped when its output stays in the byte budget, it says
  something before the silence bound has passed, and its transport errors are fewer than the limit and lie in a window
  that ends a recovery window short of the time limit; with the stall budget armed its standard error must also be
  free of transport noise.\<close>

theorem passing_blip_is_forgiven:
  assumes "bd_max_output_bytes b > 0 \<longrightarrow> bytes_total hs \<le> bd_max_output_bytes b"
    "speaks_in_time (silence_bound b) start hs"
    "within_budget b (error_total hs) L" "0 \<le> L" "0 < f"
    "list_all (\<lambda>(t, h). is_error h \<longrightarrow> f \<le> t \<and> t \<le> f + L) hs"
    "bd_stall_seconds b > 0 \<longrightarrow> list_all (\<lambda>(t, h). \<not> is_noise h) hs"
  shows "fst (watch_run b hs (watch_start start)) = None"
  by (rule blip_run [where n = 0, OF _ _ assms(4-6)]) (use assms in \<open>simp_all add: watch_start_def mild_def\<close>)

theorem passing_blip_is_forgiven_witness:
  "fst (watch_run default_budgets
     [(110, Line Stdout ''hi''), (112, Line Stderr ''connection reset''), (114, Line Stderr ''http 503''), (116, Tick), (5000, Tick)]
     (watch_start 100)) = None"
proof (rule passing_blip_is_forgiven [where f = 112 and L = 2])
  have e: "is_error (Line Stderr ''connection reset'')" "is_error (Line Stderr ''http 503'')" "\<not> is_error (Line Stdout ''hi'')" "\<not> is_error Tick"
    "productive (Line Stdout ''hi'')"
    by code_simp+
  show "speaks_in_time (silence_bound default_budgets) 100
     [(110, Line Stdout ''hi''), (112, Line Stderr ''connection reset''), (114, Line Stderr ''http 503''), (116, Tick), (5000, Tick)]"
    by (simp add: e)
  show "within_budget default_budgets (error_total
     [(110, Line Stdout ''hi''), (112, Line Stderr ''connection reset''), (114, Line Stderr ''http 503''), (116, Tick), (5000, Tick)]) 2"
    by (simp add: e within_budget_def default_budgets_def)
  show "list_all (\<lambda>(t, h). is_error h \<longrightarrow> (112 :: rat) \<le> t \<and> t \<le> 112 + 2)
     [(110, Line Stdout ''hi''), (112, Line Stderr ''connection reset''), (114, Line Stderr ''http 503''), (116, Tick), (5000, Tick)]"
    by (simp add: e)
qed (simp_all add: default_budgets_def)

text \<open>C27: a call that says nothing is stopped as stalled at the first tick after the silence bound, and not before; the
  bound is the stall budget when it is armed, else the silence ceiling, and the lines of a wedged session do not put it
  off.\<close>

theorem silence_is_bounded:
  assumes "silence_bound b > 0" "list_all (\<lambda>(_, h). mute h) hs"
  shows "fst (watch_run b hs (watch_start start))
    = (if list_ex (\<lambda>(t, h). h = Tick \<and> t - start > silence_bound b) hs then Some Stalled else None)"
  by (rule mute_run [OF assms])

theorem silence_is_bounded_witness:
  "fst (watch_run default_budgets [(300, Tick), (650, Line Stderr ''stdin is closed for this session''), (700, Tick)] (watch_start 0)) = Some Stalled"
proof -
  have m: "mute (Line Stderr ''stdin is closed for this session'')" "mute Tick" by code_simp+
  show ?thesis by (subst silence_is_bounded) (simp_all add: m silence_bound_def default_budgets_def)
qed

end
