(* ===== verification/Worker_Call.thy ===== *)
theory Worker_Call
  imports Watchdog Fallback_Agent
begin

text \<open>
  One call of a worker in \<^verbatim>\<open>agy_orchestrator/core/agent.py\<close>: the wall-clock cap and the liveness wait, the usage
  record, the attempt loop of \<open>run_async\<close> with its events, and the bounds the child's environment gets.  How an
  attempt of the process ends is a parameter, and so are the hooks an adapter overrides.
\<close>

section \<open>The liveness wait\<close>

record limits =
  lm_timeout :: rat
  lm_absolute :: rat
  lm_cmd :: rat

definition absolute_cap :: "limits \<Rightarrow> rat" where
  "absolute_cap lm =
     (case filter (\<lambda>c. c > 0) [lm_cmd lm, lm_absolute lm] of
        [] \<Rightarrow> if lm_timeout lm > 0 then lm_timeout lm * 4 else 0
      | c # cs \<Rightarrow> fold min cs c)"

datatype wait_end = Idle_stall | Wall_clock | Flat_ceiling

datatype wait_step = Give_up wait_end | Sleep rat

definition liveness_step :: "limits \<Rightarrow> rat \<Rightarrow> rat \<Rightarrow> rat \<Rightarrow> wait_step" where
  "liveness_step lm start now last_progress =
     (let idle = (if lm_timeout lm > 0 then lm_timeout lm else 0); cap = absolute_cap lm;
          seen = (if last_progress = 0 then start else last_progress)
      in if cap > 0 \<and> now - start \<ge> cap then Give_up Wall_clock
         else if idle > 0 \<and> now - seen \<ge> idle then Give_up Idle_stall
         else let s1 = (if idle > 0 then min 2 (max (idle - (now - seen)) (1 / 20)) else 2);
                  s2 = (if cap > 0 then min s1 (max (cap - (now - start)) (1 / 20)) else s1)
              in Sleep (max s2 (1 / 20)))"

text \<open>The loop, on a clock that advances by the time slept.  \<open>progress\<close> is the last progress at a time and \<open>fin\<close>
  the time the child's output is complete, if ever; fuel bounds the polls.  \<open>Stuck\<close> is a wait that never returns.\<close>

datatype waited = Result rat | Timeout wait_end rat | Stuck

fun poll_liveness :: "nat \<Rightarrow> limits \<Rightarrow> (rat \<Rightarrow> rat) \<Rightarrow> rat option \<Rightarrow> rat \<Rightarrow> rat \<Rightarrow> waited option" where
  "poll_liveness 0 lm progress fin start now = None"
| "poll_liveness (Suc n) lm progress fin start now =
     (case liveness_step lm start now (progress now) of
        Give_up e \<Rightarrow> Some (Timeout e now)
      | Sleep d \<Rightarrow>
          (case fin of
             Some f \<Rightarrow> if f \<le> now + d then Some (Result (max f now)) else poll_liveness n lm progress fin start (now + d)
           | None \<Rightarrow> poll_liveness n lm progress fin start (now + d)))"

text \<open>The \<open>finally\<close> block, entered when the loop gives up on a task that is not done: a child is killed and the task gets ten
  seconds to complete by itself; a task that still runs is cancelled and awaited without a bound.  Parameters: whether
  there is a child, how long after its kill the task completes, and how long after the cancellation; \<open>None\<close> is never.\<close>

record unwinding =
  un_child :: bool
  un_after_kill :: "rat option"
  un_after_cancel :: "rat option"

definition teardown_time :: "unwinding \<Rightarrow> rat option" where
  "teardown_time u =
     (let given = (if un_child u then 10 else 0); cancelled = map_option (\<lambda>t. given + t) (un_after_cancel u)
      in if un_child u then case un_after_kill u of Some t \<Rightarrow> if t \<le> 10 then Some t else cancelled | None \<Rightarrow> cancelled
         else cancelled)"

definition await_with_liveness ::
  "nat \<Rightarrow> limits \<Rightarrow> (rat \<Rightarrow> rat) \<Rightarrow> rat option \<Rightarrow> unwinding \<Rightarrow> rat \<Rightarrow> waited option" where
  "await_with_liveness n lm progress fin u start =
     (if lm_timeout lm \<le> 0 \<and> absolute_cap lm \<le> 0
      then Some (case fin of Some f \<Rightarrow> Result (max f start) | None \<Rightarrow> Stuck)
      else case poll_liveness n lm progress fin start start of
        None \<Rightarrow> None
      | Some w \<Rightarrow>
          Some (case w of
            Timeout e t \<Rightarrow> (case teardown_time u of None \<Rightarrow> Stuck | Some d \<Rightarrow> Timeout e (t + d))
          | _ \<Rightarrow> w))"

section \<open>The usage record\<close>

definition to_int_token :: "pyval \<Rightarrow> int option" where
  "to_int_token v = (case v of PNone \<Rightarrow> None | PBool _ \<Rightarrow> None
     | _ \<Rightarrow> (case to_int v of Inl _ \<Rightarrow> None | Inr i \<Rightarrow> if i \<ge> 0 then Some i else None))"

record usage_data =
  us_source :: string
  us_input :: "int option"
  us_output :: "int option"
  us_cache :: "int option"
  us_total :: "int option"
  us_attempt :: nat
  us_success :: bool

text \<open>\<open>usage\<close> is what the adapter extracts; \<open>None\<close> when it raises.\<close>

definition usage_record :: "pydict option \<Rightarrow> nat \<Rightarrow> bool \<Rightarrow> usage_data" where
  "usage_record usage k success =
     (let u = (case usage of None \<Rightarrow> [] | Some d \<Rightarrow> d)
      in \<lparr>us_source = (if dget u ''token_source'' = PStr ''cli'' then ''cli'' else ''unavailable''),
          us_input = to_int_token (dget u ''input_tokens''), us_output = to_int_token (dget u ''output_tokens''),
          us_cache = to_int_token (dget u ''cache_read_tokens''), us_total = to_int_token (dget u ''total_tokens''),
          us_attempt = k, us_success = success\<rparr>)"

section \<open>An attempt\<close>

datatype ending =
    Cancelled_then
  | Raised bool string                                  \<comment> \<open>whether it is a \<open>RuntimeError\<close>, and its text\<close>
  | Timed_out wait_end rat bool                         \<comment> \<open>the time waited, and whether there was output\<close>
  | Exited string string int "trip option"              \<comment> \<open>both streams, the code, the watchdog's reason\<close>

datatype call_event =
    Agent_started
  | Usage usage_data
  | Watchdog_trip trip
  | Stdout_complete string
  | Agent_finished bool "int option"

record hooks =
  hk_filter :: "string \<Rightarrow> string"
  hk_augment :: "string \<Rightarrow> string \<Rightarrow> string option"
  hk_post :: "string \<Rightarrow> (bool \<times> string) + string"
  hk_complete :: "string \<Rightarrow> (bool \<times> string) option"
  hk_usage :: "string \<Rightarrow> string \<Rightarrow> pydict option"
  hk_seconds :: "rat \<Rightarrow> string"

record call_state =
  ca_stdout :: string
  ca_stderr :: string
  ca_returncode :: "int option"
  ca_events :: "call_event list"

datatype attempt_end = Return string | Raise string | Raise_cancel | Again

fun trip_name :: "trip \<Rightarrow> string" where
  "trip_name Verbose = ''verbose''"
| "trip_name Transport_stall = ''transport_stall''"
| "trip_name Stalled = ''stalled''"

definition trip_marker :: "trip \<Rightarrow> string" where
  "trip_marker t = watchdog_marker @ trip_name t @ '']''"

definition say :: "call_event \<Rightarrow> call_state \<Rightarrow> call_state" where
  "say e c = c\<lparr>ca_events := ca_events c @ [e]\<rparr>"

definition report_usage :: "hooks \<Rightarrow> nat \<Rightarrow> string \<Rightarrow> bool \<Rightarrow> call_state \<Rightarrow> call_state" where
  "report_usage hk k out success c = say (Usage (usage_record (hk_usage hk out (ca_stderr c)) k success)) c"

definition raised :: "bool \<times> string \<Rightarrow> call_state \<Rightarrow> attempt_end \<times> call_state" where
  "raised e c = (if fst e then (Raise (snd e), c) else (Again, c\<lparr>ca_stderr := snd e\<rparr>))"

definition mark_trip :: "trip \<Rightarrow> call_state \<Rightarrow> call_state" where
  "mark_trip t c = (say (Watchdog_trip t) c)\<lparr>ca_stderr := py_strip (trip_marker t @ '' '' @ ca_stderr c)\<rparr>"

definition timed_out :: "hooks \<Rightarrow> nat \<Rightarrow> wait_end \<Rightarrow> rat \<Rightarrow> bool \<Rightarrow> call_state \<Rightarrow> attempt_end \<times> call_state" where
  "timed_out hk k e waited any_output c =
     (let c1 = c\<lparr>ca_stderr := ''timed out after '' @ hk_seconds hk waited @ ''s''\<rparr>;
          c2 = (if e \<noteq> Wall_clock \<and> \<not> any_output then mark_trip Stalled c1 else c1);
          c3 = report_usage hk k [] False c2
      in (Raise (ca_stderr c3), c3))"

definition failed_exit :: "hooks \<Rightarrow> string \<Rightarrow> call_state \<Rightarrow> attempt_end \<times> call_state" where
  "failed_exit hk out c =
     (let c1 = (case hk_augment hk out (ca_stderr c) of None \<Rightarrow> c | Some s \<Rightarrow> c\<lparr>ca_stderr := s\<rparr>); err = ca_stderr c1
      in if is_context_overflow err then (Raise (''context overflow: '' @ take 200 err), c1)
         else if is_usage_wall err then (Raise (''usage wall: '' @ take 200 err), c1)
         else if is_wedged_session err then (Raise (''wedged session: '' @ take 200 err), c1)
         else (Again, c1))"

definition good_exit :: "hooks \<Rightarrow> string \<Rightarrow> call_state \<Rightarrow> attempt_end \<times> call_state" where
  "good_exit hk out c =
     (case hk_post hk out of
        Inl e \<Rightarrow> raised e c
      | Inr res \<Rightarrow>
          let c1 = c\<lparr>ca_stdout := res\<rparr>
          in case hk_complete hk out of Some e \<Rightarrow> raised e c1 | None \<Rightarrow> (Return res, say (Stdout_complete out) c1))"

definition one_attempt :: "hooks \<Rightarrow> nat \<Rightarrow> ending \<Rightarrow> call_state \<Rightarrow> attempt_end \<times> call_state" where
  "one_attempt hk k e c =
     (case e of
        Cancelled_then \<Rightarrow> (Raise_cancel, c)
      | Raised rt m \<Rightarrow> raised (rt, m) c
      | Timed_out w waited out \<Rightarrow> timed_out hk k w waited out c
      | Exited out err rc trip \<Rightarrow>
          let c1 = report_usage hk k out (rc = 0) (c\<lparr>ca_stderr := hk_filter hk err, ca_returncode := Some rc\<rparr>)
          in case trip of
               Some t \<Rightarrow> let c2 = mark_trip t c1 in (Raise (ca_stderr c2), c2)
             | None \<Rightarrow> if rc = 0 then good_exit hk out c1 else failed_exit hk out c1)"

text \<open>\<open>backoff_time\<close> before the next attempt, for a random number \<open>r\<close> between 0 and 1.\<close>

definition backoff_time :: "nat \<Rightarrow> rat \<Rightarrow> rat" where
  "backoff_time k r = min 8 (2 ^ k) * (1 / 2 + r)"

section \<open>The attempt loop\<close>

datatype call_outcome = Returned string | Failed string | Cancelled

fun to_outcome :: "attempt_end \<Rightarrow> call_outcome" where
  "to_outcome (Return s) = Returned s"
| "to_outcome (Raise m) = Failed m"
| "to_outcome Raise_cancel = Cancelled"
| "to_outcome Again = Failed []"

definition exhausted :: "nat \<Rightarrow> call_state \<Rightarrow> call_outcome" where
  "exhausted n c = Failed (''AgentInstance failed after '' @ show_nat n @ '' attempts: '' @ ca_stderr c)"

fun attempt_loop :: "hooks \<Rightarrow> (nat \<Rightarrow> ending) \<Rightarrow> nat \<Rightarrow> nat \<Rightarrow> call_state \<Rightarrow> call_outcome \<times> call_state" where
  "attempt_loop hk env n 0 c = (exhausted n c, c)"
| "attempt_loop hk env n (Suc m) c =
     (case one_attempt hk (n - m) (env (n - m)) c of
        (Again, c1) \<Rightarrow> attempt_loop hk env n m c1
      | (e, c1) \<Rightarrow> (to_outcome e, c1))"

definition max_retries :: nat where
  "max_retries = 3"

definition run_call :: "hooks \<Rightarrow> (nat \<Rightarrow> ending) \<Rightarrow> call_state \<Rightarrow> call_outcome \<times> call_state" where
  "run_call hk env c =
     (case attempt_loop hk env max_retries max_retries (say Agent_started c) of
        (r, c1) \<Rightarrow> (r, say (Agent_finished (case r of Returned _ \<Rightarrow> True | _ \<Rightarrow> False) (ca_returncode c1)) c1))"

section \<open>Bounds on the child's environment\<close>

definition shell_safe :: "char \<Rightarrow> bool" where
  "shell_safe c = (let n = (of_char c :: nat) in (48 \<le> n \<and> n \<le> 57) \<or> (65 \<le> n \<and> n \<le> 90) \<or> (97 \<le> n \<and> n \<le> 122)
     \<or> c \<in> set ''_@%+=:,./-'')"

definition shell_quote :: "string \<Rightarrow> string" where
  "shell_quote s = (let q = CHR 0x27 in
     if s = [] then [q, q]
     else if list_all shell_safe s then s
     else [q] @ concat (map (\<lambda>c. if c = q then [q, CHR 0x22, q, CHR 0x22, q] else [c]) s) @ [q])"

type_synonym env_vars = "string \<Rightarrow> string option"

definition resource_bound_disabled :: "env_vars \<Rightarrow> bool" where
  "resource_bound_disabled os = (py_lower (py_strip (env_or (os ''AGY_WORKER_RESOURCE_BOUND'') ''1'')) \<in> set [''0'', ''no'', ''false'', ''off''])"

definition thread_pin_vars :: "string list" where
  "thread_pin_vars = [''OPENBLAS_NUM_THREADS'', ''OMP_NUM_THREADS'', ''MKL_NUM_THREADS'', ''NUMEXPR_NUM_THREADS'']"

definition pin :: "string \<Rightarrow> env_vars \<Rightarrow> env_vars" where
  "pin v env = (case env v of None \<Rightarrow> env(v \<mapsto> ''1'') | Some _ \<Rightarrow> env)"

definition join_blank :: "string list \<Rightarrow> string" where
  "join_blank xs = (case xs of [] \<Rightarrow> [] | y # ys \<Rightarrow> y @ concat (map (\<lambda>z. CHR '' '' # z) ys))"

definition addopts_fragments :: "env_vars \<Rightarrow> string list" where
  "addopts_fragments os =
     (let k = (case py_int (env_or (os ''AGY_WORKER_PYTEST_XDIST'') ''2'') of None \<Rightarrow> 2 | Some i \<Rightarrow> i);
          markers = py_strip (env_or (os ''AGY_WORKER_PYTEST_MARKERS'') [])
      in [if k > 0 then ''-n '' @ show_int k else ''-p no:xdist'']
         @ (if markers \<noteq> [] then [''-m '' @ shell_quote markers] else []))"

definition apply_worker_resource_bounds :: "env_vars \<Rightarrow> env_vars \<Rightarrow> env_vars" where
  "apply_worker_resource_bounds os env =
     (if resource_bound_disabled os then env
      else let out = fold pin thread_pin_vars env;
               existing = py_strip (env_or (out ''PYTEST_ADDOPTS'') [])
           in out(''PYTEST_ADDOPTS'' \<mapsto> join_blank ((if existing \<noteq> [] then [existing] else []) @ addopts_fragments os)))"

definition child_env :: "env_vars \<Rightarrow> (string \<times> string) list \<Rightarrow> env_vars option" where
  "child_env os extra =
     (if extra = [] \<and> resource_bound_disabled os then None
      else Some (apply_worker_resource_bounds os os ++ map_of extra))"

definition post_exit_drain_grace :: "env_vars \<Rightarrow> rat" where
  "post_exit_drain_grace os =
     (case os ''AGY_WORKER_DRAIN_GRACE'' of None \<Rightarrow> 5
      | Some s \<Rightarrow> if s = [] then 0 else (case py_float s of None \<Rightarrow> 5 | Some g \<Rightarrow> g))"

section \<open>The wait ends in time\<close>

definition seen :: "rat \<Rightarrow> rat \<Rightarrow> rat" where
  "seen start p = (if p = 0 then start else p)"

text \<open>What is promised of the polls of a wait that started at \<open>start\<close>: the result of a child that has one, else a timeout at
  a time the child had none, unless it is the very start.\<close>

definition polled :: "limits \<Rightarrow> (rat \<Rightarrow> rat) \<Rightarrow> rat option \<Rightarrow> rat \<Rightarrow> waited \<Rightarrow> bool" where
  "polled lm progress fin start w =
     (case w of
        Result t \<Rightarrow> fin \<noteq> None \<and> the fin \<le> t \<and> t \<le> start + absolute_cap lm + 1 / 20
      | Timeout e t \<Rightarrow>
          t \<le> start + absolute_cap lm + 1 / 20 \<and> (fin = None \<or> t < the fin \<or> t = start)
          \<and> (e = Wall_clock \<and> start + absolute_cap lm \<le> t
             \<or> e = Idle_stall \<and> lm_timeout lm > 0 \<and> t - seen start (progress t) \<ge> lm_timeout lm)
      | Stuck \<Rightarrow> False)"

lemma liveness_step_cases:
  assumes "0 < absolute_cap lm"
  obtains "liveness_step lm start now p = Give_up Wall_clock" "now - start \<ge> absolute_cap lm"
  | "liveness_step lm start now p = Give_up Idle_stall" "lm_timeout lm > 0" "now - seen start p \<ge> lm_timeout lm"
      "now - start < absolute_cap lm"
  | d where "liveness_step lm start now p = Sleep d" "1 / 20 \<le> d" "d \<le> max (absolute_cap lm - (now - start)) (1 / 20)"
      "now - start < absolute_cap lm"
proof -
  let ?idle = "if lm_timeout lm > 0 then lm_timeout lm else 0"
  let ?s1 = "if ?idle > 0 then min 2 (max (?idle - (now - seen start p)) (1 / 20)) else 2"
  have eq: "liveness_step lm start now p =
     (if now - start \<ge> absolute_cap lm then Give_up Wall_clock
      else if ?idle > 0 \<and> now - seen start p \<ge> ?idle then Give_up Idle_stall
      else Sleep (max (min ?s1 (max (absolute_cap lm - (now - start)) (1 / 20))) (1 / 20)))"
    by (simp only: liveness_step_def Let_def seen_def assms if_True simp_thms)
  consider "now - start \<ge> absolute_cap lm" | "now - start < absolute_cap lm" "?idle > 0 \<and> now - seen start p \<ge> ?idle"
    | "now - start < absolute_cap lm" "\<not> (?idle > 0 \<and> now - seen start p \<ge> ?idle)" by linarith
  then show thesis
  proof cases
    case 1
    then show thesis using that(1) eq by simp
  next
    case 2
    then show thesis using that(2) eq by (simp split: if_splits)
  next
    case 3
    show thesis
    proof (rule that(3))
      show "liveness_step lm start now p = Sleep (max (min ?s1 (max (absolute_cap lm - (now - start)) (1 / 20))) (1 / 20))"
        unfolding eq using 3 by (simp only: not_le [symmetric] if_False)
    qed (use 3 in auto)
  qed
qed

lemma await_ends:
  assumes "0 < absolute_cap lm" "start \<le> now" "now - start \<le> absolute_cap lm + 1 / 20"
    "absolute_cap lm - (now - start) \<le> of_nat m / 20" "fin = None \<or> now < the fin \<or> now = start"
  shows "\<exists>w. poll_liveness (Suc m) lm progress fin start now = Some w \<and> polled lm progress fin start w"
  using assms(2-)
proof (induction m arbitrary: now)
  case 0
  then show ?case
    by (cases rule: liveness_step_cases [OF assms(1), of start now "progress now"]) (auto simp: polled_def)
next
  case (Suc m)
  show ?case
  proof (cases rule: liveness_step_cases [OF assms(1), of start now "progress now"])
    case (3 d)
    have near: "now + d - start \<le> absolute_cap lm + 1 / 20" using 3 by (auto simp: max_def split: if_splits)
    have less: "absolute_cap lm - (now + d - start) \<le> of_nat m / 20" using 3(2) Suc.prems(3) by (simp add: field_simps)
    show ?thesis
    proof (cases "\<exists>f. fin = Some f \<and> f \<le> now + d")
      case True
      then obtain f where f: "fin = Some f" "f \<le> now + d" by blast
      have "poll_liveness (Suc (Suc m)) lm progress fin start now = Some (Result (max f now))" using 3(1) f by simp
      moreover have "polled lm progress fin start (Result (max f now))" using f near 3(2) by (auto simp: polled_def)
      ultimately show ?thesis by blast
    next
      case False
      then have "fin = None \<or> now + d < the fin" by (cases fin) auto
      then obtain w where w: "poll_liveness (Suc m) lm progress fin start (now + d) = Some w" "polled lm progress fin start w"
        using Suc.IH [of "now + d"] near less Suc.prems(1) 3(2) by auto
      from False have "poll_liveness (Suc (Suc m)) lm progress fin start now = poll_liveness (Suc m) lm progress fin start (now + d)"
        unfolding poll_liveness.simps(2) [of "Suc m"] 3(1) by (auto split: option.split)
      from trans [OF this w(1)] w(2) show ?thesis by (intro exI conjI)
    qed
  qed (use Suc.prems in \<open>auto simp: polled_def\<close>)
qed

text \<open>The ceilings that are set, and what is promised of a whole wait for each of them.\<close>

definition ceiling_set :: "limits \<Rightarrow> rat \<Rightarrow> bool" where
  "ceiling_set lm c =
     (0 < c \<and> (c = lm_cmd lm \<or> c = lm_absolute lm \<or> lm_cmd lm \<le> 0 \<and> lm_absolute lm \<le> 0 \<and> c = 4 * lm_timeout lm))"

lemma absolute_cap_tightest:
  assumes "ceiling_set lm c"
  shows "absolute_cap lm \<le> c" "ceiling_set lm (absolute_cap lm)" "0 < absolute_cap lm"
  using assms by (auto simp: absolute_cap_def ceiling_set_def)

definition completes_by_itself :: "unwinding \<Rightarrow> bool" where
  "completes_by_itself u = (un_child u \<and> (case un_after_kill u of None \<Rightarrow> False | Some t \<Rightarrow> t \<le> 10))"

lemma teardown_cases:
  "case teardown_time u of
     None \<Rightarrow> \<not> completes_by_itself u \<and> un_after_cancel u = None
   | Some d \<Rightarrow> if completes_by_itself u then d \<le> 10 else \<exists>t. un_after_cancel u = Some t \<and> d = (if un_child u then 10 else 0) + t"
  by (auto simp: teardown_time_def completes_by_itself_def Let_def split: option.split)

definition wait_fair :: "limits \<Rightarrow> (rat \<Rightarrow> rat) \<Rightarrow> rat option \<Rightarrow> unwinding \<Rightarrow> rat \<Rightarrow> rat \<Rightarrow> waited \<Rightarrow> bool" where
  "wait_fair lm progress fin u start c w =
     (case w of
        Result t \<Rightarrow> fin \<noteq> None \<and> the fin \<le> t \<and> t \<le> start + c + 1 / 20
      | Timeout e t \<Rightarrow>
          \<exists>t0. t0 \<le> start + c + 1 / 20 \<and> (fin = None \<or> t0 < the fin \<or> t0 = start)
            \<and> (e = Wall_clock \<and> (\<exists>c'. ceiling_set lm c' \<and> start + c' \<le> t0)
               \<or> e = Idle_stall \<and> lm_timeout lm > 0 \<and> t0 - seen start (progress t0) \<ge> lm_timeout lm)
            \<and> (if completes_by_itself u then t \<le> t0 + 10
               else \<exists>d. un_after_cancel u = Some d \<and> t = t0 + (if un_child u then 10 else 0) + d)
      | Stuck \<Rightarrow> \<not> completes_by_itself u \<and> un_after_cancel u = None)"

lemma polled_fair:
  assumes "ceiling_set lm c" "polled lm progress fin start w"
  shows "wait_fair lm progress fin u start c
    (case w of Timeout e t \<Rightarrow> (case teardown_time u of None \<Rightarrow> Stuck | Some d \<Rightarrow> Timeout e (t + d)) | _ \<Rightarrow> w)"
proof (cases w)
  case (Result t)
  then show ?thesis using assms absolute_cap_tightest(1) [OF assms(1)] by (auto simp: polled_def wait_fair_def)
next
  case (Timeout e t)
  note cap = absolute_cap_tightest [OF assms(1)]
  have t: "t \<le> start + c + 1 / 20" "fin = None \<or> t < the fin \<or> t = start"
    "e = Wall_clock \<and> (\<exists>c'. ceiling_set lm c' \<and> start + c' \<le> t)
       \<or> e = Idle_stall \<and> lm_timeout lm > 0 \<and> t - seen start (progress t) \<ge> lm_timeout lm"
    using assms(2) cap(1,2) by (auto simp: Timeout polled_def)
  show ?thesis
  proof (cases "teardown_time u")
    case None
    then show ?thesis using teardown_cases [of u] by (simp add: Timeout wait_fair_def)
  next
    case (Some d)
    then have "if completes_by_itself u then t + d \<le> t + 10
        else \<exists>x. un_after_cancel u = Some x \<and> t + d = t + (if un_child u then 10 else 0) + x"
      using teardown_cases [of u] by (auto split: if_splits)
    with t Some show ?thesis unfolding Timeout wait_fair_def by (simp only: waited.case option.case) blast
  qed
qed (use assms(2) in \<open>simp add: polled_def\<close>)

section \<open>How attempts end\<close>

definition retryable :: "hooks \<Rightarrow> ending \<Rightarrow> bool" where
  "retryable hk e =
     (case e of
        Cancelled_then \<Rightarrow> False
      | Raised rt _ \<Rightarrow> \<not> rt
      | Timed_out _ _ _ \<Rightarrow> False
      | Exited out err rc trip \<Rightarrow>
          trip = None
          \<and> (if rc = 0
             then (case hk_post hk out of Inl e \<Rightarrow> \<not> fst e
                   | Inr _ \<Rightarrow> (case hk_complete hk out of Some e \<Rightarrow> \<not> fst e | None \<Rightarrow> False))
             else let s = (case hk_augment hk out (hk_filter hk err) of None \<Rightarrow> hk_filter hk err | Some s \<Rightarrow> s)
                  in \<not> is_context_overflow s \<and> \<not> is_usage_wall s \<and> \<not> is_wedged_session s))"

lemmas attempt_defs = one_attempt_def timed_out_def failed_exit_def good_exit_def raised_def mark_trip_def report_usage_def say_def Let_def

lemma one_attempt_again: "(fst (one_attempt hk k e c) = Again) = retryable hk e"
  by (cases e) (auto simp: attempt_defs retryable_def split: option.splits sum.splits)

lemma one_attempt_tag: "fst (one_attempt hk k e c) = fst (one_attempt hk k' e c')"
  by (cases e) (auto simp: attempt_defs split: option.splits sum.splits)

lemma one_attempt_stderr:
  "retryable hk e \<Longrightarrow> ca_stderr (snd (one_attempt hk k e c)) = ca_stderr (snd (one_attempt hk k' e c'))"
  by (cases e) (auto simp: attempt_defs retryable_def split: option.splits sum.splits if_splits)

lemma attempt_loop_step:
  "attempt_loop hk env n (Suc m) c =
     (let a = one_attempt hk (n - m) (env (n - m)) c
      in if retryable hk (env (n - m)) then attempt_loop hk env n m (snd a) else (to_outcome (fst a), snd a))"
  using one_attempt_again [of hk "n - m" "env (n - m)" c]
  by (cases "one_attempt hk (n - m) (env (n - m)) c"; cases "fst (one_attempt hk (n - m) (env (n - m)) c)") (auto simp: Let_def)

lemma exhausted_cong: "ca_stderr c = ca_stderr c' \<Longrightarrow> exhausted n c = exhausted n c'"
  by (simp add: exhausted_def)

lemma attempts_from:
  "m < n \<Longrightarrow> [n - m..<Suc n] = (n - m) # [Suc (n - m)..<Suc n]"
  by (rule upt_conv_Cons) simp

lemma attempt_loop_outcome:
  "m \<le> n \<Longrightarrow> fst (attempt_loop hk env n m c) =
     (case find (\<lambda>k. \<not> retryable hk (env k)) [Suc (n - m)..<Suc n] of
        Some k \<Rightarrow> to_outcome (fst (one_attempt hk k (env k) c0))
      | None \<Rightarrow> exhausted n (if m = 0 then c else snd (one_attempt hk n (env n) c0)))"
proof (induction m arbitrary: c)
  case (Suc m)
  then have m: "m < n" "Suc (n - Suc m) = n - m" by auto
  let ?k = "n - m"
  show ?case
  proof (cases "retryable hk (env ?k)")
    case True
    have l: "[Suc (n - Suc m)..<Suc n] = ?k # [Suc ?k..<Suc n]" using attempts_from m by metis
    have "fst (attempt_loop hk env n (Suc m) c) = fst (attempt_loop hk env n m (snd (one_attempt hk ?k (env ?k) c)))"
      using True by (simp only: attempt_loop_step Let_def if_True)
    also have "\<dots> = (case find (\<lambda>k. \<not> retryable hk (env k)) [Suc ?k..<Suc n] of
        Some k \<Rightarrow> to_outcome (fst (one_attempt hk k (env k) c0))
      | None \<Rightarrow> exhausted n (if m = 0 then snd (one_attempt hk ?k (env ?k) c) else snd (one_attempt hk n (env n) c0)))"
      using Suc.IH m by simp
    also have "exhausted n (if m = 0 then snd (one_attempt hk ?k (env ?k) c) else snd (one_attempt hk n (env n) c0))
      = exhausted n (snd (one_attempt hk n (env n) c0))"
      using one_attempt_stderr [OF True, of ?k c ?k c0] by (auto intro: exhausted_cong)
    finally show ?thesis unfolding l using True by simp
  next
    case False
    have l: "[Suc (n - Suc m)..<Suc n] = ?k # [Suc ?k..<Suc n]" using attempts_from m by metis
    have "fst (attempt_loop hk env n (Suc m) c) = to_outcome (fst (one_attempt hk ?k (env ?k) c))"
      using False by (simp only: attempt_loop_step Let_def if_False fst_conv)
    then show ?thesis unfolding l using False one_attempt_tag [of hk ?k "env ?k" c ?k c0] by simp
  qed
qed simp

lemma run_call_outcome: "fst (run_call hk env c) = fst (attempt_loop hk env max_retries max_retries (say Agent_started c))"
  by (simp add: run_call_def split: prod.split)

lemma call_decided:
  "fst (run_call hk env c) =
     (case find (\<lambda>k. \<not> retryable hk (env k)) [1, 2, 3] of
        Some k \<Rightarrow> to_outcome (fst (one_attempt hk k (env k) c))
      | None \<Rightarrow> exhausted 3 (snd (one_attempt hk 3 (env 3) c)))"
proof -
  have "[Suc (max_retries - max_retries)..<Suc max_retries] = [1, 2, 3]" by (simp add: max_retries_def upt_rec)
  then show ?thesis
    unfolding run_call_outcome using attempt_loop_outcome [of max_retries max_retries hk env "say Agent_started c" c]
    by (simp add: max_retries_def del: attempt_loop.simps)
qed

section \<open>The events of a call\<close>

definition lifecycle :: "call_event \<Rightarrow> bool" where
  "lifecycle e = (case e of Agent_started \<Rightarrow> True | Agent_finished _ _ \<Rightarrow> True | _ \<Rightarrow> False)"

fun usage_attempts :: "call_event list \<Rightarrow> nat list" where
  "usage_attempts [] = []"
| "usage_attempts (e # es) = (case e of Usage u \<Rightarrow> us_attempt u # usage_attempts es | _ \<Rightarrow> usage_attempts es)"

lemma usage_attempts_append [simp]: "usage_attempts (xs @ ys) = usage_attempts xs @ usage_attempts ys"
  by (induction xs) (auto split: call_event.splits)

definition plain_events :: "nat \<Rightarrow> nat \<Rightarrow> call_event list \<Rightarrow> bool" where
  "plain_events lo hi es = (list_all (\<lambda>e. \<not> lifecycle e) es \<and> sorted_wrt (<) (usage_attempts es)
     \<and> list_all (\<lambda>k. lo \<le> k \<and> k < hi) (usage_attempts es))"

lemma plain_events_append:
  "plain_events lo mid xs \<Longrightarrow> plain_events mid hi ys \<Longrightarrow> lo \<le> mid \<Longrightarrow> mid \<le> hi \<Longrightarrow> plain_events lo hi (xs @ ys)"
  by (fastforce simp: plain_events_def sorted_wrt_append list_all_iff)

lemma one_attempt_events:
  "\<exists>es. ca_events (snd (one_attempt hk k e c)) = ca_events c @ es \<and> plain_events k (Suc k) es"
  by (cases e) (auto simp: attempt_defs plain_events_def lifecycle_def usage_record_def split: option.splits sum.splits)

lemma attempt_loop_events:
  "m \<le> n \<Longrightarrow> \<exists>es. ca_events (snd (attempt_loop hk env n m c)) = ca_events c @ es \<and> plain_events (Suc (n - m)) (Suc n) es"
proof (induction m arbitrary: c)
  case 0
  then show ?case by (simp add: plain_events_def)
next
  case (Suc m)
  let ?k = "n - m" and ?c1 = "snd (one_attempt hk (n - m) (env (n - m)) c)"
  obtain es where es: "ca_events ?c1 = ca_events c @ es" "plain_events ?k (Suc ?k) es" using one_attempt_events by blast
  obtain fs where fs: "ca_events (snd (attempt_loop hk env n m ?c1)) = ca_events ?c1 @ fs" "plain_events (Suc ?k) (Suc n) fs"
    using Suc by (meson Suc_leD)
  have k: "Suc (n - Suc m) = ?k" using Suc.prems by simp
  show ?case
  proof (cases "retryable hk (env ?k)")
    case True
    then have "snd (attempt_loop hk env n (Suc m) c) = snd (attempt_loop hk env n m ?c1)"
      by (simp only: attempt_loop_step Let_def if_True)
    then show ?thesis using es fs plain_events_append [OF es(2) fs(2)] by (intro exI [of _ "es @ fs"]) (simp add: k)
  next
    case False
    then have "snd (attempt_loop hk env n (Suc m) c) = ?c1"
      by (simp only: attempt_loop_step Let_def if_False snd_conv)
    moreover have "plain_events ?k (Suc n) es" using es(2) by (auto simp: plain_events_def list_all_iff)
    ultimately show ?thesis using es k by auto
  qed
qed

section \<open>The watchdog's reason\<close>

lemma py_strip_prefix:
  assumes "a \<noteq> []" "\<not> py_space (hd a)" "\<not> py_space (last a)"
  shows "\<exists>z. py_strip (a @ b) = a @ z"
proof -
  have l: "py_lstrip (a @ b) = a @ b" using assms by (cases a) (simp_all add: py_lstrip_def)
  have "rev (dropWhile py_space (rev (a @ b))) = a @ rev (dropWhile py_space (rev b))"
    using assms by (cases a rule: rev_cases) (auto simp: dropWhile_append)
  then show ?thesis unfolding py_strip_def l by blast
qed

lemma after_marker_here: "m \<noteq> [] \<Longrightarrow> after_marker m (m @ z) = Some z"
  by (cases m) auto

lemma trip_marker_read: "watchdog_reason_in (trip_marker t @ z) = Some (trip_name t)"
proof -
  have "after_marker watchdog_marker (trip_marker t @ z) = Some (trip_name t @ '']'' @ z)"
    using after_marker_here [of watchdog_marker "trip_name t @ '']'' @ z"] by (simp add: trip_marker_def watchdog_marker_def)
  then have "watchdog_reason_in (trip_marker t @ z)
    = truthy_str (Some (py_strip (takeWhile (\<lambda>c. c \<noteq> CHR '']'') (trip_name t @ '']'' @ z))))"
    by (simp only: watchdog_reason_in_def option.simps)
  also have "takeWhile (\<lambda>c. c \<noteq> CHR '']'') (trip_name t @ '']'' @ z) = trip_name t" by (cases t) simp_all
  also have "py_strip (trip_name t) = trip_name t" by (cases t) (simp_all add: py_strip_def py_lstrip_def py_space_def)
  finally show ?thesis by (cases t) (simp_all add: truthy_str_def)
qed

lemma marked_read: "watchdog_reason_in (py_strip (trip_marker t @ '' '' @ s)) = Some (trip_name t)"
proof -
  have "\<exists>z. py_strip (trip_marker t @ '' '' @ s) = trip_marker t @ z"
    by (rule py_strip_prefix) (simp_all add: trip_marker_def watchdog_marker_def py_space_def)
  then show ?thesis using trip_marker_read by auto
qed

section \<open>Properties\<close>

text \<open>C28: with a ceiling set, a streamed call is given up in time.  For every ceiling \<open>c\<close> that is set, of at most \<open>m / 20\<close>
  seconds, \<open>m + 1\<close> polls decide the wait not later than a twentieth of a second after \<open>c\<close>: with the child's result when it
  has one by then, else because a ceiling is reached, or because the child made no progress for the idle window.  A timeout
  is raised at most ten seconds later when the task completes once its child is killed; else it takes as long as the
  cancelled task takes to unwind, and only when that never happens does the wait never return.\<close>

theorem liveness_wait_ends:
  assumes "ceiling_set lm c" "c \<le> of_nat m / 20"
  shows "\<exists>w. await_with_liveness (Suc m) lm progress fin u start = Some w \<and> wait_fair lm progress fin u start c w"
proof -
  note cap = absolute_cap_tightest [OF assms(1)]
  obtain w where w: "poll_liveness (Suc m) lm progress fin start start = Some w" "polled lm progress fin start w"
    using await_ends [of lm start start m fin progress] cap assms(2) by auto
  from polled_fair [OF assms(1) w(2)] w(1) cap(3) show ?thesis by (simp add: await_with_liveness_def del: poll_liveness.simps)
qed

theorem liveness_wait_ends_witness:
  "\<exists>w. await_with_liveness 2001 \<lparr>lm_timeout = 10, lm_absolute = 0, lm_cmd = 100\<rparr> id None
       \<lparr>un_child = True, un_after_kill = Some 2, un_after_cancel = None\<rparr> 5 = Some w
     \<and> wait_fair \<lparr>lm_timeout = 10, lm_absolute = 0, lm_cmd = 100\<rparr> id None \<lparr>un_child = True, un_after_kill = Some 2, un_after_cancel = None\<rparr> 5 100 w"
  using liveness_wait_ends [of "\<lparr>lm_timeout = 10, lm_absolute = 0, lm_cmd = 100\<rparr>" 100 2000 id None
      "\<lparr>un_child = True, un_after_kill = Some 2, un_after_cancel = None\<rparr>" 5]
  by (simp add: ceiling_set_def del: poll_liveness.simps)

text \<open>C29: a call tries at most three times and its first attempt that is not retryable decides it; only an exception
  other than a \<open>RuntimeError\<close>, and an exit that is no trip, overflow, quota wall or wedged session, is retried.\<close>

theorem first_decisive_attempt:
  "fst (run_call hk env c) =
     (case find (\<lambda>k. \<not> retryable hk (env k)) [1, 2, 3] of
        Some k \<Rightarrow> to_outcome (fst (one_attempt hk k (env k) c))
      | None \<Rightarrow> exhausted 3 (snd (one_attempt hk 3 (env 3) c)))"
  by (rule call_decided)

text \<open>The events of a call are one start, one finish that says whether it returned, and between them usage records
  of attempts in ascending order, at most one for each of the three.\<close>

theorem call_events_shape:
  "\<exists>es rc. ca_events (snd (run_call hk env c)) = ca_events c @ [Agent_started] @ es @ [Agent_finished (\<exists>s. fst (run_call hk env c) = Returned s) rc]
     \<and> plain_events 1 4 es"
proof -
  obtain r c1 where rc: "attempt_loop hk env max_retries max_retries (say Agent_started c) = (r, c1)"
    by (cases "attempt_loop hk env max_retries max_retries (say Agent_started c)")
  obtain es where es: "ca_events c1 = ca_events (say Agent_started c) @ es" "plain_events (Suc 0) (Suc max_retries) es"
    using attempt_loop_events [of max_retries max_retries hk env "say Agent_started c"] rc by auto
  have "(case r of Returned _ \<Rightarrow> True | _ \<Rightarrow> False) = (\<exists>s. r = Returned s)" by (cases r) auto
  then have "ca_events (snd (run_call hk env c)) = ca_events c @ [Agent_started] @ es @ [Agent_finished (\<exists>s. r = Returned s) (ca_returncode c1)]"
    using rc es(1) by (simp add: run_call_def say_def)
  moreover have "fst (run_call hk env c) = r" using rc by (simp add: run_call_outcome)
  moreover have "plain_events 1 4 es" using es(2) by (simp add: max_retries_def)
  ultimately show ?thesis by blast
qed

text \<open>C30: a trip of the watchdog is never retried here, and the message the call fails with carries its reason to the
  fallback chain; so does a call that ran into its idle ceiling without a word.\<close>

theorem trip_reaches_the_chain:
  assumes "k \<in> {1, 2, 3}" "list_all (\<lambda>j. retryable hk (env j)) [1..<k]"
    "env k = Exited out err rc (Some t) \<or> t = Stalled \<and> (\<exists>w waited. w \<noteq> Wall_clock \<and> env k = Timed_out w waited False)"
  shows "\<exists>msg. fst (run_call hk env c) = Failed msg \<and> watchdog_reason_in msg = Some (trip_name t)"
proof -
  have "\<not> retryable hk (env k)" using assms(3) by (auto simp: retryable_def)
  then have "find (\<lambda>j. \<not> retryable hk (env j)) [1, 2, 3] = Some k"
    using assms(1,2) by (auto simp: numeral_2_eq_2 numeral_3_eq_3 upt_rec)
  then have "fst (run_call hk env c) = to_outcome (fst (one_attempt hk k (env k) c))"
    unfolding call_decided by simp
  moreover have "\<exists>s. fst (one_attempt hk k (env k) c) = Raise (py_strip (trip_marker t @ '' '' @ s))"
    using assms(3) by (auto simp: attempt_defs)
  ultimately show ?thesis using marked_read by auto
qed

theorem trip_reaches_the_chain_witness:
  "\<exists>msg. fst (run_call \<lparr>hk_filter = id, hk_augment = \<lambda>_ _. None, hk_post = Inr, hk_complete = \<lambda>_. None, hk_usage = \<lambda>_ _. None, hk_seconds = \<lambda>_. ''9''\<rparr>
     (\<lambda>k. if k = 1 then Raised False ''ENOENT'' else Exited ''out'' ''err'' (-9) (Some Verbose))
     \<lparr>ca_stdout = [], ca_stderr = [], ca_returncode = None, ca_events = []\<rparr>) = Failed msg \<and> watchdog_reason_in msg = Some ''verbose''"
  using trip_reaches_the_chain [of 2 _ "\<lambda>k. if k = 1 then Raised False ''ENOENT'' else Exited ''out'' ''err'' (-9) (Some Verbose)" "''out''" "''err''" "-9" Verbose]
  by (simp add: upt_rec retryable_def)

text \<open>The environment of a worker, unless bounding is switched off: a variable the adapter sets is as it set it; a
  thread pin is the operator's or 1; \<open>PYTEST_ADDOPTS\<close> ends with the bound, so that it wins over what was there; every
  other variable is the parent's.\<close>

theorem child_is_bounded:
  assumes "\<not> resource_bound_disabled os"
  shows "\<exists>e. child_env os extra = Some e
     \<and> (\<forall>v x. map_of extra v = Some x \<longrightarrow> e v = Some x)
     \<and> (\<forall>v. map_of extra v = None \<longrightarrow>
          (v \<in> set thread_pin_vars \<longrightarrow> e v = Some (case os v of None \<Rightarrow> ''1'' | Some x \<Rightarrow> x))
          \<and> (v = ''PYTEST_ADDOPTS'' \<longrightarrow> (\<exists>pre. e v = Some (pre @ join_blank (addopts_fragments os))))
          \<and> (v \<notin> set (''PYTEST_ADDOPTS'' # thread_pin_vars) \<longrightarrow> e v = os v))"
proof -
  have pins: "fold pin vs env v = (if v \<in> set vs then Some (case env v of None \<Rightarrow> ''1'' | Some x \<Rightarrow> x) else env v)" for vs env v
    by (induction vs arbitrary: env) (auto simp: pin_def split: option.splits)
  have join: "\<exists>pre. join_blank ((if x \<noteq> [] then [x] else []) @ ys) = pre @ join_blank ys" if "ys \<noteq> []" for x ys
    using that by (cases ys) (auto simp: join_blank_def intro: exI [of _ "[]"])
  have ne: "addopts_fragments os \<noteq> []" by (simp add: addopts_fragments_def Let_def)
  have other: "''PYTEST_ADDOPTS'' \<notin> set thread_pin_vars" by (simp add: thread_pin_vars_def)
  define b where "b = apply_worker_resource_bounds os os"
  have b_pin: "b v = Some (case os v of None \<Rightarrow> ''1'' | Some x \<Rightarrow> x)" if "v \<in> set thread_pin_vars" for v
    using that assms other by (auto simp: b_def apply_worker_resource_bounds_def Let_def pins)
  have b_opt: "\<exists>pre. b ''PYTEST_ADDOPTS'' = Some (pre @ join_blank (addopts_fragments os))"
    using join [OF ne] assms by (auto simp: b_def apply_worker_resource_bounds_def Let_def)
  have b_rest: "b v = os v" if "v \<notin> set (''PYTEST_ADDOPTS'' # thread_pin_vars)" for v
    using that assms by (auto simp: b_def apply_worker_resource_bounds_def Let_def pins)
  have "child_env os extra = Some (b ++ map_of extra)" using assms by (simp add: child_env_def b_def)
  then show ?thesis using b_pin b_opt b_rest by (auto simp: map_add_def)
qed

theorem child_is_bounded_witness:
  "\<exists>e. child_env (Map.empty(''OMP_NUM_THREADS'' \<mapsto> ''4'')) [(''BROWSER'', ''true'')] = Some e \<and> e ''BROWSER'' = Some ''true'' \<and> e ''OMP_NUM_THREADS'' = Some ''4''"
proof -
  let ?os = "Map.empty(''OMP_NUM_THREADS'' \<mapsto> ''4'')" and ?extra = "[(''BROWSER'', ''true'')]"
  have "\<not> resource_bound_disabled ?os" by code_simp
  from child_is_bounded [OF this, of ?extra] obtain e where e: "child_env ?os ?extra = Some e"
    "\<forall>v x. map_of ?extra v = Some x \<longrightarrow> e v = Some x"
    "\<forall>v. map_of ?extra v = None \<longrightarrow> (v \<in> set thread_pin_vars \<longrightarrow> e v = Some (case ?os v of None \<Rightarrow> ''1'' | Some x \<Rightarrow> x))"
    by blast
  have "e ''BROWSER'' = Some ''true''" using e(2) by simp
  moreover have "e ''OMP_NUM_THREADS'' = Some ''4''"
    using e(3) [rule_format, of "''OMP_NUM_THREADS''"] by (simp add: thread_pin_vars_def)
  ultimately show ?thesis using e(1) by blast
qed

text \<open>A call whose last attempt timed out reports the exit code of an earlier one as its own.\<close>

lemma finished_with_a_stale_code:
  "\<exists>(hk :: hooks) env. ca_events (snd (run_call hk env \<lparr>ca_stdout = [], ca_stderr = [], ca_returncode = None, ca_events = []\<rparr>))
     = [Agent_started, Usage (usage_record None 1 False), Usage (usage_record None 2 False), Agent_finished False (Some 1)]"
proof -
  define hk where "hk = \<lparr>hk_filter = id, hk_augment = \<lambda>_ _. None, hk_post = Inr, hk_complete = \<lambda>_. None, hk_usage = \<lambda>_ _. None, hk_seconds = \<lambda>_. ''9''\<rparr>"
  define env where "env k = (if k = (1 :: nat) then Exited [] ''boom'' 1 None else Timed_out Wall_clock 9 True)" for k
  have c: "\<not> is_context_overflow ''boom''" "\<not> is_usage_wall ''boom''" "\<not> is_wedged_session ''boom''" by code_simp+
  show ?thesis
    by (intro exI [of _ hk] exI [of _ env])
       (simp add: run_call_def max_retries_def numeral_3_eq_3 numeral_2_eq_2 attempt_defs hk_def env_def c)
qed

end
