(* ===== verification/Path_Policy.thy ===== *)
theory Path_Policy
  imports Py_Prelude
begin

text \<open>
  The path policy of \<^verbatim>\<open>harness/dispatch.py\<close>: globs, the regular expressions they are compiled to, and the
  violations a change set has.
\<close>

section \<open>Globs\<close>

text \<open>The pieces of the compiled expression: \<open>(?:.*/)?\<close>, \<open>.*\<close>, \<open>[^/]*\<close>, \<open>[^/]\<close> and a literal.\<close>

datatype glob_tok = Dirs | Any | Seg | One | Lit char

fun glob_tokens :: "string \<Rightarrow> glob_tok list" where
  "glob_tokens [] = []"
| "glob_tokens (c # cs) =
     (if c = CHR ''*'' then
        (case cs of
           [] \<Rightarrow> [Seg]
         | d # ds \<Rightarrow>
             if d = CHR ''*'' then
               (case ds of
                  [] \<Rightarrow> [Any]
                | e # es \<Rightarrow> if e = CHR ''/'' then Dirs # glob_tokens es else Any # glob_tokens (e # es))
             else Seg # glob_tokens (d # ds))
      else if c = CHR ''?'' then One # glob_tokens cs
      else Lit c # glob_tokens cs)"

definition glob_to_regex :: "string \<Rightarrow> glob_tok list" where
  "glob_to_regex g = (let s = py_strip g in glob_tokens (if prefix ''./'' s then drop 2 s else s))"

text \<open>\<open>pattern.match\<close>: a dot matches no end of line, and the final \<open>$\<close> also matches before one that ends the text.\<close>

definition newline :: char where
  "newline = CHR 0x0A"

definition slash :: char where
  "slash = CHR ''/''"

fun tok_weight :: "glob_tok \<Rightarrow> nat" where
  "tok_weight Dirs = 3"
| "tok_weight _ = 1"

function glob_match :: "glob_tok list \<Rightarrow> string \<Rightarrow> bool" where
  "glob_match [] s = (s = [] \<or> s = [newline])"
| "glob_match (Lit c # ts) s = (case s of [] \<Rightarrow> False | d # ds \<Rightarrow> d = c \<and> glob_match ts ds)"
| "glob_match (One # ts) s = (case s of [] \<Rightarrow> False | d # ds \<Rightarrow> d \<noteq> slash \<and> glob_match ts ds)"
| "glob_match (Seg # ts) s = (glob_match ts s \<or> (case s of [] \<Rightarrow> False | d # ds \<Rightarrow> d \<noteq> slash \<and> glob_match (Seg # ts) ds))"
| "glob_match (Any # ts) s = (glob_match ts s \<or> (case s of [] \<Rightarrow> False | d # ds \<Rightarrow> d \<noteq> newline \<and> glob_match (Any # ts) ds))"
| "glob_match (Dirs # ts) s = (glob_match ts s \<or> glob_match (Any # Lit slash # ts) s)"
  by pat_completeness auto
termination
  by (relation "measures [\<lambda>(ts, s). sum_list (map tok_weight ts), \<lambda>(ts, s). length s]") auto

section \<open>The policy\<close>

datatype violation = Protected string | Outside_allowed

definition posix :: "string \<Rightarrow> string" where
  "posix p = map (\<lambda>c. if c = CHR 0x5C then slash else c) p"

definition globs_of :: "string list option \<Rightarrow> string list" where
  "globs_of gs = filter (\<lambda>g. py_strip g \<noteq> []) (case gs of None \<Rightarrow> [] | Some xs \<Rightarrow> xs)"

definition path_violation :: "string list \<Rightarrow> string list \<Rightarrow> string \<Rightarrow> violation option" where
  "path_violation protect allow p =
     (case find (\<lambda>g. glob_match (glob_to_regex g) (posix p)) protect of
        Some g \<Rightarrow> Some (Protected g)
      | None \<Rightarrow>
          if allow \<noteq> [] \<and> \<not> list_ex (\<lambda>g. glob_match (glob_to_regex g) (posix p)) allow then Some Outside_allowed else None)"

definition evaluate_path_policy :: "string list \<Rightarrow> string list option \<Rightarrow> string list option \<Rightarrow> (string \<times> violation) list" where
  "evaluate_path_policy paths protect allow =
     concat (map (\<lambda>p. case path_violation (globs_of protect) (globs_of allow) p of None \<Rightarrow> [] | Some v \<Rightarrow> [(p, v)]) paths)"

section \<open>What a glob denotes\<close>

fun tok_lang :: "glob_tok \<Rightarrow> string \<Rightarrow> bool" where
  "tok_lang (Lit c) w = (w = [c])"
| "tok_lang One w = (\<exists>c. w = [c] \<and> c \<noteq> slash)"
| "tok_lang Seg w = (slash \<notin> set w)"
| "tok_lang Any w = (newline \<notin> set w)"
| "tok_lang Dirs w = (w = [] \<or> (\<exists>v. w = v @ [slash] \<and> newline \<notin> set v))"

fun toks_lang :: "glob_tok list \<Rightarrow> string \<Rightarrow> bool" where
  "toks_lang [] w = (w = [])"
| "toks_lang (t # ts) w = (\<exists>u v. w = u @ v \<and> tok_lang t u \<and> toks_lang ts v)"

definition denotes :: "glob_tok list \<Rightarrow> string \<Rightarrow> bool" where
  "denotes ts s = (toks_lang ts s \<or> (\<exists>w. s = w @ [newline] \<and> toks_lang ts w))"

lemma denotes_iff: "denotes ts s = (\<exists>w z. s = w @ z \<and> toks_lang ts w \<and> (z = [] \<or> z = [newline]))"
  by (auto simp: denotes_def)

lemma denotes_Cons: "denotes (t # ts) s = (\<exists>u v. s = u @ v \<and> tok_lang t u \<and> denotes ts v)"
proof
  assume "denotes (t # ts) s"
  then obtain w z where w: "s = w @ z" "toks_lang (t # ts) w" "z = [] \<or> z = [newline]"
    unfolding denotes_iff by blast
  from w(2) obtain u v where "w = u @ v" "tok_lang t u" "toks_lang ts v" by auto
  with w show "\<exists>u v. s = u @ v \<and> tok_lang t u \<and> denotes ts v"
    unfolding denotes_iff by (intro exI [of _ u] exI [of _ "v @ z"]) auto
next
  assume "\<exists>u v. s = u @ v \<and> tok_lang t u \<and> denotes ts v"
  then obtain u v z where "s = u @ v @ z" "tok_lang t u" "toks_lang ts v" "z = [] \<or> z = [newline]"
    unfolding denotes_iff by blast
  then show "denotes (t # ts) s"
    unfolding denotes_iff toks_lang.simps by (intro exI [of _ "u @ v"] exI [of _ z]) auto
qed

lemma one_step:
  "(\<exists>u v. s = u @ v \<and> (\<exists>c. u = [c] \<and> q c) \<and> Q v) = (case s of [] \<Rightarrow> False | d # ds \<Rightarrow> q d \<and> Q ds)"
proof (cases s)
  case (Cons d ds)
  have "(\<exists>u v. d # ds = u @ v \<and> (\<exists>c. u = [c] \<and> q c) \<and> Q v) = (q d \<and> Q ds)"
  proof
    assume "\<exists>u v. d # ds = u @ v \<and> (\<exists>c. u = [c] \<and> q c) \<and> Q v"
    then show "q d \<and> Q ds" by auto
  next
    assume "q d \<and> Q ds"
    then show "\<exists>u v. d # ds = u @ v \<and> (\<exists>c. u = [c] \<and> q c) \<and> Q v"
      by (intro exI [of _ "[d]"] exI [of _ ds]) simp
  qed
  then show ?thesis using Cons by simp
qed auto

lemma star_step:
  assumes "P [] = True" "\<And>d u. P (d # u) = (q d \<and> P u)"
  shows "(\<exists>u v. s = u @ v \<and> P u \<and> Q v) = (Q s \<or> (case s of [] \<Rightarrow> False | d # ds \<Rightarrow> q d \<and> (\<exists>u v. ds = u @ v \<and> P u \<and> Q v)))"
proof (cases s)
  case (Cons d ds)
  show ?thesis
  proof
    assume "\<exists>u v. s = u @ v \<and> P u \<and> Q v"
    then obtain u v where uv: "s = u @ v" "P u" "Q v" by blast
    show "Q s \<or> (case s of [] \<Rightarrow> False | d # ds \<Rightarrow> q d \<and> (\<exists>u v. ds = u @ v \<and> P u \<and> Q v))"
      using uv Cons assms by (cases u) auto
  next
    assume "Q s \<or> (case s of [] \<Rightarrow> False | d # ds \<Rightarrow> q d \<and> (\<exists>u v. ds = u @ v \<and> P u \<and> Q v))"
    then show "\<exists>u v. s = u @ v \<and> P u \<and> Q v"
    proof
      assume "Q s"
      then show ?thesis using assms(1) by (intro exI [of _ "[]"] exI [of _ s]) simp
    next
      assume "case s of [] \<Rightarrow> False | d # ds \<Rightarrow> q d \<and> (\<exists>u v. ds = u @ v \<and> P u \<and> Q v)"
      then obtain u v where "q d" "ds = u @ v" "P u" "Q v" using Cons by auto
      then show ?thesis using Cons assms(2) by (intro exI [of _ "d # u"] exI [of _ v]) simp
    qed
  qed
qed (use assms(1) in auto)

text \<open>The matcher decides the language of the glob.\<close>

lemma glob_match_denotes: "glob_match ts s = denotes ts s"
proof (induction ts s rule: glob_match.induct)
  case (1 s)
  then show ?case by (auto simp: denotes_def)
next
  case (2 c ts s)
  have "denotes (Lit c # ts) s = (case s of [] \<Rightarrow> False | d # ds \<Rightarrow> d = c \<and> denotes ts ds)"
    using one_step [of s "\<lambda>d. d = c" "denotes ts"] unfolding denotes_Cons tok_lang.simps by auto
  with 2 show ?case by (cases s) auto
next
  case (3 ts s)
  have "denotes (One # ts) s = (case s of [] \<Rightarrow> False | d # ds \<Rightarrow> d \<noteq> slash \<and> denotes ts ds)"
    unfolding denotes_Cons tok_lang.simps by (rule one_step)
  with 3 show ?case by (cases s) auto
next
  case (4 ts s)
  have "denotes (Seg # ts) s = (denotes ts s \<or> (case s of [] \<Rightarrow> False | d # ds \<Rightarrow> d \<noteq> slash \<and> denotes (Seg # ts) ds))"
    unfolding denotes_Cons tok_lang.simps by (rule star_step) auto
  with 4 show ?case by (cases s) auto
next
  case (5 ts s)
  have "denotes (Any # ts) s = (denotes ts s \<or> (case s of [] \<Rightarrow> False | d # ds \<Rightarrow> d \<noteq> newline \<and> denotes (Any # ts) ds))"
    unfolding denotes_Cons tok_lang.simps by (rule star_step) auto
  with 5 show ?case by (cases s) auto
next
  case (6 ts s)
  have "denotes (Dirs # ts) s = (denotes ts s \<or> denotes (Any # Lit slash # ts) s)"
  proof
    assume "denotes (Dirs # ts) s"
    then obtain u v where uv: "s = u @ v" "tok_lang Dirs u" "denotes ts v" unfolding denotes_Cons by blast
    show "denotes ts s \<or> denotes (Any # Lit slash # ts) s"
    proof (cases "u = []")
      case False
      then obtain w where w: "u = w @ [slash]" "tok_lang Any w" using uv(2) by auto
      have "denotes (Lit slash # ts) (slash # v)" unfolding denotes_Cons using uv(3) by (intro exI [of _ "[slash]"] exI [of _ v]) simp
      then have "denotes (Any # Lit slash # ts) s"
        unfolding denotes_Cons [of Any] using uv(1) w by (intro exI [of _ w] exI [of _ "slash # v"]) simp
      then show ?thesis ..
    qed (use uv in simp)
  next
    assume "denotes ts s \<or> denotes (Any # Lit slash # ts) s"
    then show "denotes (Dirs # ts) s"
    proof
      assume "denotes ts s"
      then show ?thesis unfolding denotes_Cons [of Dirs] by (intro exI [of _ "[]"] exI [of _ s]) simp
    next
      assume "denotes (Any # Lit slash # ts) s"
      then obtain w v where "s = w @ slash # v" "tok_lang Any w" "denotes ts v"
        unfolding denotes_Cons by auto
      then show ?thesis
        unfolding denotes_Cons [of Dirs] by (intro exI [of _ "w @ [slash]"] exI [of _ v]) auto
    qed
  qed
  with 6 show ?case by simp
qed

text \<open>A directory whose text is taken literally, and the paths below it that a \<open>**\<close> can span.\<close>

definition plain_dir :: "string \<Rightarrow> bool" where
  "plain_dir d = (list_all (\<lambda>c. c \<noteq> CHR ''*'' \<and> c \<noteq> CHR ''?'') d \<and> py_strip (d @ ''/**'') = d @ ''/**'' \<and> \<not> prefix ''./'' (d @ ''/**''))"

definition beneath :: "string \<Rightarrow> string \<Rightarrow> bool" where
  "beneath d s = (prefix (d @ ''/'') s \<and> newline \<notin> set (butlast (drop (length d + 1) s)))"

lemma glob_tokens_plain:
  "list_all (\<lambda>c. c \<noteq> CHR ''*'' \<and> c \<noteq> CHR ''?'') d \<Longrightarrow> glob_tokens (d @ r) = map Lit d @ glob_tokens r"
  by (induction d) auto

lemma toks_lang_Lit [simp]: "toks_lang (Lit c # ts) w = (\<exists>v. w = c # v \<and> toks_lang ts v)"
  by auto

declare toks_lang.simps(2) [simp del]

lemma toks_lang_plain: "toks_lang (map Lit d @ ts) w = (\<exists>v. w = d @ v \<and> toks_lang ts v)"
  by (induction d arbitrary: w) auto

lemma toks_lang_Any: "toks_lang [Any] w = (newline \<notin> set w)"
  by (simp add: toks_lang.simps(2))

lemma subtree_tokens: "plain_dir d \<Longrightarrow> glob_to_regex (d @ ''/**'') = map Lit d @ [Lit slash, Any]"
  by (simp add: plain_dir_def glob_to_regex_def glob_tokens_plain Let_def slash_def)

lemma newline_only_at_the_end:
  "(\<exists>w z. x = w @ z \<and> newline \<notin> set w \<and> (z = [] \<or> z = [newline])) = (newline \<notin> set (butlast x))"
proof (cases x rule: rev_cases)
  case (snoc ys y)
  show ?thesis
  proof
    assume "\<exists>w z. x = w @ z \<and> newline \<notin> set w \<and> (z = [] \<or> z = [newline])"
    then show "newline \<notin> set (butlast x)" by (auto dest: in_set_butlastD)
  next
    assume n: "newline \<notin> set (butlast x)"
    show "\<exists>w z. x = w @ z \<and> newline \<notin> set w \<and> (z = [] \<or> z = [newline])"
    proof (cases "y = newline")
      case True
      then show ?thesis using n snoc by (intro exI [of _ ys] exI [of _ "[y]"]) simp
    next
      case False
      then show ?thesis using n snoc by (intro exI [of _ x] exI [of _ "[]"]) simp
    qed
  qed
qed auto

lemma subtree_match: "plain_dir d \<Longrightarrow> glob_match (glob_to_regex (d @ ''/**'')) s = beneath d s"
proof -
  assume "plain_dir d"
  then have "glob_match (glob_to_regex (d @ ''/**'')) s
    = (\<exists>x. s = d @ slash # x \<and> (\<exists>w z. x = w @ z \<and> newline \<notin> set w \<and> (z = [] \<or> z = [newline])))"
    (is "_ = ?r")
  proof -
    have "glob_match (glob_to_regex (d @ ''/**'')) s
      = (\<exists>w z. s = w @ z \<and> (\<exists>v. w = d @ slash # v \<and> newline \<notin> set v) \<and> (z = [] \<or> z = [newline]))"
      using \<open>plain_dir d\<close> unfolding glob_match_denotes denotes_iff subtree_tokens [OF \<open>plain_dir d\<close>] toks_lang_plain
      by (simp only: toks_lang_Lit toks_lang_Any) metis
    also have "\<dots> = ?r" by (metis append.assoc append_Cons)
    finally show ?thesis .
  qed
  also have "\<dots> = beneath d s"
    unfolding newline_only_at_the_end beneath_def by (auto simp: prefix_def slash_def)
  finally show ?thesis .
qed

section \<open>Properties\<close>

lemma find_Some_list_ex: "(find P xs \<noteq> None) = list_ex P xs"
  by (induction xs) auto

lemma path_violation_iff:
  "path_violation protect allow p = None \<longleftrightarrow>
     \<not> list_ex (\<lambda>g. glob_match (glob_to_regex g) (posix p)) protect
   \<and> (allow = [] \<or> list_ex (\<lambda>g. glob_match (glob_to_regex g) (posix p)) allow)"
  using find_Some_list_ex [of "\<lambda>g. glob_match (glob_to_regex g) (posix p)" protect]
  by (auto simp: path_violation_def split: option.split)

text \<open>The documented meaning of a glob, on its text: \<open>*\<close> stays within a segment, \<open>?\<close> is one character of a segment,
  \<open>**/\<close> is any leading directories or none, another \<open>**\<close> spans directories (but no line feed, as Python's dot), and
  everything else is literal.\<close>

inductive glob_means :: "string \<Rightarrow> string \<Rightarrow> bool" where
  gm_end: "glob_means [] []"
| gm_no_dirs: "glob_means g s \<Longrightarrow> glob_means (''**/'' @ g) s"
| gm_dirs: "glob_means g s \<Longrightarrow> CHR 0x0A \<notin> set v \<Longrightarrow> glob_means (''**/'' @ g) (v @ ''/'' @ s)"
| gm_any: "glob_means g s \<Longrightarrow> \<not> prefix ''/'' g \<Longrightarrow> CHR 0x0A \<notin> set v \<Longrightarrow> glob_means (''**'' @ g) (v @ s)"
| gm_segment: "glob_means g s \<Longrightarrow> \<not> prefix ''*'' g \<Longrightarrow> CHR ''/'' \<notin> set v \<Longrightarrow> glob_means (''*'' @ g) (v @ s)"
| gm_one: "glob_means g s \<Longrightarrow> c \<noteq> CHR ''/'' \<Longrightarrow> glob_means (''?'' @ g) (c # s)"
| gm_literal: "glob_means g s \<Longrightarrow> c \<noteq> CHR ''*'' \<Longrightarrow> c \<noteq> CHR ''?'' \<Longrightarrow> glob_means (c # g) (c # s)"

lemma glob_tokens_stars [simp]:
  "glob_tokens (CHR ''*'' # CHR ''*'' # CHR ''/'' # g) = Dirs # glob_tokens g"
  "\<not> prefix ''/'' g \<Longrightarrow> glob_tokens (CHR ''*'' # CHR ''*'' # g) = Any # glob_tokens g"
  "\<not> prefix ''*'' g \<Longrightarrow> glob_tokens (CHR ''*'' # g) = Seg # glob_tokens g"
  by (simp, (cases g, simp, simp)+)

lemma means_tokens: "glob_means g s \<Longrightarrow> toks_lang (glob_tokens g) s"
proof (induction rule: glob_means.induct)
  case (gm_dirs g s v)
  then show ?case unfolding toks_lang.simps(2) append_Cons append_Nil glob_tokens_stars
    by (intro exI [of _ "v @ [slash]"] exI [of _ s]) (simp add: slash_def newline_def)
next
  case (gm_no_dirs g s)
  then show ?case unfolding toks_lang.simps(2) append_Cons append_Nil glob_tokens_stars by (intro exI [of _ "[]"] exI [of _ s]) simp
next
  case (gm_any g s v)
  then show ?case by (auto simp: toks_lang.simps(2) newline_def simp del: glob_tokens.simps)
next
  case (gm_segment g s v)
  then show ?case by (auto simp: toks_lang.simps(2) slash_def simp del: glob_tokens.simps)
next
  case (gm_one g s c)
  then show ?case unfolding append_Cons append_Nil by (simp add: toks_lang.simps(2)) (intro exI [of _ "[c]"] exI [of _ s], simp add: slash_def)
next
  case (gm_literal g s c)
  then show ?case by simp
qed simp

lemma tokens_mean: "toks_lang (glob_tokens g) s \<Longrightarrow> glob_means g s"
proof (induction g arbitrary: s rule: length_induct)
  case (1 g)
  have ih: "toks_lang (glob_tokens h) u \<Longrightarrow> glob_means h u" if "length h < length g" for h u using 1 that by blast
  consider "g = []" | h where "g = ''**/'' @ h" | h where "g = ''**'' @ h" "\<not> prefix ''/'' h"
    | h where "g = ''*'' @ h" "\<not> prefix ''*'' h" | h where "g = ''?'' @ h" | c h where "g = c # h" "c \<noteq> CHR ''*''" "c \<noteq> CHR ''?''"
  proof (cases g)
    case (Cons c h)
    consider "c = CHR ''?''" | "c \<noteq> CHR ''*''" "c \<noteq> CHR ''?''" | "c = CHR ''*''" "\<not> prefix ''*'' h"
      | k where "c = CHR ''*''" "h = CHR ''*'' # k" "\<not> prefix ''/'' k" | k where "c = CHR ''*''" "h = CHR ''*'' # CHR ''/'' # k"
      by (auto simp: prefix_def)
    then show thesis using Cons that by cases auto
  qed (use that in blast)
  then show ?case
  proof cases
    case 1
    with "1.prems" show ?thesis by (simp add: gm_end)
  next
    case (2 h)
    then obtain u v where uv: "s = u @ v" "u = [] \<or> (\<exists>w. u = w @ [slash] \<and> newline \<notin> set w)" "toks_lang (glob_tokens h) v"
      using "1.prems" by (auto simp: toks_lang.simps(2) simp del: glob_tokens.simps)
    then have "glob_means h v" using ih 2 by simp
    with uv 2 show ?thesis using gm_no_dirs [of h v] gm_dirs [of h v] by (auto simp: slash_def newline_def)
  next
    case (3 h)
    then obtain u v where uv: "s = u @ v" "newline \<notin> set u" "toks_lang (glob_tokens h) v"
      using "1.prems" by (auto simp: toks_lang.simps(2) simp del: glob_tokens.simps)
    then have "glob_means h v" using ih 3 by simp
    from gm_any [OF this 3(2)] uv 3 show ?thesis by (simp add: newline_def)
  next
    case (4 h)
    then obtain u v where uv: "s = u @ v" "slash \<notin> set u" "toks_lang (glob_tokens h) v"
      using "1.prems" by (auto simp: toks_lang.simps(2) simp del: glob_tokens.simps)
    then have "glob_means h v" using ih 4 by simp
    from gm_segment [OF this 4(2)] uv 4 show ?thesis by (simp add: slash_def)
  next
    case (5 h)
    then obtain c v where "s = c # v" "c \<noteq> slash" "toks_lang (glob_tokens h) v" using "1.prems" by (auto simp: toks_lang.simps(2))
    with ih [of h v] 5 gm_one [of h v c] show ?thesis by (simp add: slash_def)
  next
    case (6 c h)
    then obtain v where "s = c # v" "toks_lang (glob_tokens h) v" using "1.prems" by auto
    with ih [of h v] 6 gm_literal [of h v c] show ?thesis by simp
  qed
qed

text \<open>A path, with either separator, that a glob selects: blanks around the glob and one leading \<open>./\<close> do not count, and a
  line feed at the end of the path is overlooked, as Python's \<open>$\<close> does.\<close>

definition core_glob :: "string \<Rightarrow> string \<Rightarrow> bool" where
  "core_glob g h = (\<exists>a x b. g = a @ x @ b \<and> list_all py_space (a @ b)
     \<and> (x = [] \<or> \<not> py_space (hd x) \<and> \<not> py_space (last x)) \<and> (if prefix ''./'' x then x = ''./'' @ h else h = x))"

definition selects :: "string \<Rightarrow> string \<Rightarrow> bool" where
  "selects g p =
     (let s = map (\<lambda>c. if c = CHR 0x5C then CHR ''/'' else c) p
      in \<exists>h. core_glob g h \<and> (glob_means h s \<or> (\<exists>w. s = w @ [CHR 0x0A] \<and> glob_means h w)))"

definition selected_by :: "string list option \<Rightarrow> string \<Rightarrow> string option" where
  "selected_by gs p = find (\<lambda>g. \<not> list_all py_space g \<and> selects g p) (case gs of None \<Rightarrow> [] | Some xs \<Rightarrow> xs)"

lemma core_glob_iff: "core_glob g h = (h = (let x = py_strip g in if prefix ''./'' x then drop 2 x else x))"
proof -
  have strip: "py_strip (a @ x @ b) = x" if "list_all py_space (a @ b)" "x = [] \<or> \<not> py_space (hd x) \<and> \<not> py_space (last x)" for a x b
  proof -
    have ab: "\<forall>c \<in> set a. py_space c" "\<forall>c \<in> set b. py_space c" using that(1) by (auto simp: list_all_iff)
    show ?thesis
    proof (cases "x = []")
      case True
      then show ?thesis using that(1) by (simp add: py_strip_empty_iff)
    next
      case False
      then have "py_lstrip (a @ x @ b) = x @ b" using ab(1) that(2) by (cases x) (auto simp: py_lstrip_def dropWhile_append2)
      moreover have "dropWhile py_space (rev b @ rev x) = dropWhile py_space (rev x)" using ab(2) by (intro dropWhile_append2) simp
      moreover have "dropWhile py_space (rev x) = rev x" using that(2) False by (cases x rule: rev_cases) auto
      ultimately show ?thesis by (simp add: py_strip_def)
    qed
  qed
  obtain a b where ab: "g = a @ py_strip g @ b" "list_all py_space (a @ b)" using py_strip_decomp [of g] by auto
  have ends: "py_strip g = [] \<or> \<not> py_space (hd (py_strip g)) \<and> \<not> py_space (last (py_strip g))"
  proof (cases "py_strip g = []")
    case False
    have d: "dropWhile py_space (rev (py_lstrip g)) \<noteq> []" using False by (simp add: py_strip_def)
    have "last (py_strip g) = hd (dropWhile py_space (rev (py_lstrip g)))" unfolding py_strip_def using d by (simp add: last_rev)
    then have "\<not> py_space (last (py_strip g))" using hd_dropWhile [OF d] by simp
    with py_strip_hd [OF False] show ?thesis by blast
  qed simp
  let ?Q = "\<lambda>x. if prefix ''./'' x then x = ''./'' @ h else h = x"
  have "core_glob g h = ?Q (py_strip g)"
  proof
    assume "core_glob g h"
    then obtain a' x b' where x: "g = a' @ x @ b'" "list_all py_space (a' @ b')"
      "x = [] \<or> \<not> py_space (hd x) \<and> \<not> py_space (last x)" "?Q x" unfolding core_glob_def by blast
    then have "py_strip g = x" using strip [OF x(2,3)] by (simp only:)
    with x(4) show "?Q (py_strip g)" by (simp only:)
  next
    assume "?Q (py_strip g)"
    then show "core_glob g h" unfolding core_glob_def by (intro exI [of _ a] exI [of _ "py_strip g"] exI [of _ b] conjI ab ends)
  qed
  then show ?thesis by (auto simp: Let_def prefix_def)
qed

lemma selects_iff: "selects g p = glob_match (glob_to_regex g) (posix p)"
  unfolding selects_def core_glob_iff glob_match_denotes denotes_def glob_to_regex_def posix_def Let_def slash_def newline_def
  using means_tokens tokens_mean by auto

lemma selected_by_iff: "selected_by gs p = find (\<lambda>g. glob_match (glob_to_regex g) (posix p)) (globs_of gs)"
proof -
  have "find (\<lambda>g. \<not> list_all py_space g \<and> Q g) xs = find Q (filter (\<lambda>g. py_strip g \<noteq> []) xs)" for Q xs
    by (induction xs) (auto simp: py_strip_empty_iff)
  then show ?thesis by (simp add: selected_by_def globs_of_def selects_iff)
qed

lemma some_glob: "list_ex (\<lambda>g. \<not> list_all py_space g) (case gs of None \<Rightarrow> [] | Some xs \<Rightarrow> xs) = (globs_of gs \<noteq> [])"
  by (simp add: globs_of_def filter_empty_conv list_ex_iff py_strip_empty_iff)

lemma violation_by_selection:
  "path_violation (globs_of protect) (globs_of allow) p =
     (case selected_by protect p of
        Some g \<Rightarrow> Some (Protected g)
      | None \<Rightarrow> if globs_of allow \<noteq> [] \<and> selected_by allow p = None then Some Outside_allowed else None)"
proof -
  have none: "(find Q xs = None) = (\<not> list_ex Q xs)" for Q and xs :: "string list" using find_Some_list_ex [of Q xs] by blast
  show ?thesis
    using none [of _ "globs_of allow"] by (cases "selected_by protect p") (auto simp: path_violation_def selected_by_iff)
qed


text \<open>Protecting a directory \<open>d\<close> with \<open>d/**\<close> flags exactly the changed paths below it, save those with a line feed
  in the rest of their name before its last character: a file whose name has one is changed unseen.\<close>

theorem subtree_guard_exact:
  assumes "plain_dir d"
  shows "evaluate_path_policy paths (Some [d @ ''/**'']) None
         = map (\<lambda>p. (p, Protected (d @ ''/**''))) (filter (\<lambda>p. beneath d (posix p)) paths)"
proof -
  have "globs_of (Some [d @ ''/**'']) = [d @ ''/**'']" "globs_of None = []"
    using assms by (auto simp: globs_of_def plain_dir_def)
  then show ?thesis
    by (induction paths) (simp_all add: evaluate_path_policy_def path_violation_def subtree_match [OF assms])
qed

theorem subtree_guard_exact_witness:
  "evaluate_path_policy [''src/a.py'', ''docs/a.md'', ''src'' @ [CHR 0x5C] @ ''b.py'', ''src/a'' @ [newline] @ ''b''] (Some [''src'' @ ''/**'']) None
   = [(''src/a.py'', Protected ''src/**''), (''src'' @ [CHR 0x5C] @ ''b.py'', Protected ''src/**'')]"
proof -
  have "plain_dir ''src''" by code_simp
  then show ?thesis by (subst subtree_guard_exact) (simp_all add: beneath_def posix_def slash_def newline_def)
qed

end
