(* ===== verification/Plan_File.thy ===== *)
theory Plan_File
  imports Graph_Plan_Laws
begin

text \<open>
  The plan file of \<^verbatim>\<open>harness/dispatch.py\<close>: loading an operator's plan in either shape, the file a plan-only run
  writes, and the digest that pins one.  The file system and the JSON reader are parameters.
\<close>

text \<open>A file over texts of type \<open>'t\<close>.\<close>

datatype 't plan_text = No_file | Cannot_read | Text 't

datatype plan_error = Missing_file | Unreadable_file | Bad_json | Both_shapes | Bad_graph graph_error | No_steps | Bad_step nat | Bad_shape

fun clean_steps_from :: "nat \<Rightarrow> pyval list \<Rightarrow> plan_error + string list" where
  "clean_steps_from i [] = Inr []"
| "clean_steps_from i (v # vs) =
     (case str_nonblank v of
        None \<Rightarrow> Inl (Bad_step i)
      | Some s \<Rightarrow> ebind (clean_steps_from (Suc i) vs) (\<lambda>rest. Inr (s # rest)))"

definition clean_chain_steps :: "pyval \<Rightarrow> plan_error + string list" where
  "clean_chain_steps v =
     (case v of PList xs \<Rightarrow> if xs = [] then Inl No_steps else clean_steps_from 1 xs | _ \<Rightarrow> Inl No_steps)"

definition has_key :: "string \<Rightarrow> pydict \<Rightarrow> bool" where
  "has_key k d = (k \<in> set (map fst d))"

definition plan_of_json :: "pyval \<Rightarrow> plan_error + plan" where
  "plan_of_json v =
     (case v of
        PList xs \<Rightarrow> ebind (clean_chain_steps v) (\<lambda>s. Inr (ChainPlan s))
      | PDict d \<Rightarrow>
          if has_key ''nodes'' d \<and> has_key ''steps'' d then Inl Both_shapes
          else if has_key ''nodes'' d
          then (case validate_graph (dget d ''nodes'') of Inl e \<Rightarrow> Inl (Bad_graph e) | Inr ns \<Rightarrow> Inr (GraphPlan ns))
          else ebind (clean_chain_steps (dget d ''steps'')) (\<lambda>s. Inr (ChainPlan s))
      | _ \<Rightarrow> Inl Bad_shape)"

definition load_plan :: "('t \<Rightarrow> pyval option) \<Rightarrow> 't plan_text \<Rightarrow> plan_error + plan" where
  "load_plan loads f =
     (case f of
        No_file \<Rightarrow> Inl Missing_file
      | Cannot_read \<Rightarrow> Inl Unreadable_file
      | Text t \<Rightarrow> (case loads t of None \<Rightarrow> Inl Bad_json | Some v \<Rightarrow> plan_of_json v))"

definition load_plan_steps :: "('t \<Rightarrow> pyval option) \<Rightarrow> 't plan_text \<Rightarrow> (plan_error + graph_error) + string list" where
  "load_plan_steps loads f =
     (case load_plan loads f of
        Inl e \<Rightarrow> Inl (Inl e)
      | Inr p \<Rightarrow> (case as_steps p of Inl e \<Rightarrow> Inl (Inr e) | Inr ss \<Rightarrow> Inr ss))"

text \<open>\<open>plan_file_sha256\<close>; the digest is a parameter.\<close>

definition plan_file_sha :: "('t \<Rightarrow> string) \<Rightarrow> 't plan_text \<Rightarrow> plan_error + string" where
  "plan_file_sha sha f = (case f of No_file \<Rightarrow> Inl Missing_file | Cannot_read \<Rightarrow> Inl Unreadable_file | Text t \<Rightarrow> Inr (sha t))"

text \<open>What a plan-only run writes.\<close>

definition emitted_plan :: "string \<Rightarrow> plan \<Rightarrow> pyval" where
  "emitted_plan instruction p =
     (case p of
        GraphPlan ns \<Rightarrow> PDict (as_dict (plan_to_json p) @ [(''instruction'', PStr instruction)])
      | ChainPlan ss \<Rightarrow> PDict [(''instruction'', PStr instruction), (''n_steps'', PInt (int (length ss))), (''steps'', PList (map PStr ss))])"

section \<open>Laws\<close>

definition clean_file_plan :: "plan \<Rightarrow> bool" where
  "clean_file_plan p =
     (case p of ChainPlan ss \<Rightarrow> ss \<noteq> [] \<and> list_all (\<lambda>s. py_strip s \<noteq> []) ss | GraphPlan ns \<Rightarrow> clean_plan ns)"

lemma clean_steps_from_iff:
  "clean_steps_from i vs = Inr ss \<longleftrightarrow> vs = map PStr ss \<and> list_all (\<lambda>s. py_strip s \<noteq> []) ss"
proof (induction vs arbitrary: i ss)
  case (Cons v vs)
  show ?case
  proof (cases "str_nonblank v")
    case None
    then have "\<not> (\<exists>s. v = PStr s \<and> py_strip s \<noteq> [])" using str_nonblank_Some by (metis option.distinct(1))
    then show ?thesis using None by (cases ss) auto
  next
    case (Some s)
    then have s: "v = PStr s" "py_strip s \<noteq> []" by (simp_all add: str_nonblank_Some)
    show ?thesis
    proof (cases ss)
      case (Cons t ts)
      then show ?thesis using s Some Cons.IH [of "Suc i" ts]
        by (cases "clean_steps_from (Suc i) vs") (auto simp: ebind_def)
    qed (use Some in \<open>auto simp: ebind_iffs\<close>)
  qed
qed auto

lemma clean_chain_steps_iff:
  "clean_chain_steps v = Inr ss \<longleftrightarrow> v = PList (map PStr ss) \<and> ss \<noteq> [] \<and> list_all (\<lambda>s. py_strip s \<noteq> []) ss"
  by (cases v) (auto simp: clean_chain_steps_def clean_steps_from_iff)

lemma plan_of_json_clean: "plan_of_json v = Inr p \<Longrightarrow> clean_file_plan p"
  by (cases v) (auto simp: plan_of_json_def ebind_iffs clean_chain_steps_iff clean_file_plan_def
      split: if_splits sum.splits dest: validate_graph_sound)

lemma plan_of_json_emitted: "clean_file_plan p \<Longrightarrow> plan_of_json (emitted_plan i p) = Inr p"
proof (cases p)
  case (GraphPlan ns)
  assume "clean_file_plan p"
  then have "validate_graph (PList (map node_to_json ns)) = Inr ns"
    using GraphPlan validate_graph_json by (simp add: clean_file_plan_def)
  then show ?thesis using GraphPlan by (simp add: emitted_plan_def plan_to_json_def plan_of_json_def has_key_def)
next
  case (ChainPlan ss)
  assume "clean_file_plan p"
  then have "clean_chain_steps (PList (map PStr ss)) = Inr ss"
    using ChainPlan by (simp add: clean_file_plan_def clean_chain_steps_iff)
  then show ?thesis using ChainPlan by (simp add: emitted_plan_def plan_of_json_def has_key_def)
qed

text \<open>C34: a plan file that loads is a clean plan: a nonempty list of nonblank steps, or a graph with distinct ids and
  declared, acyclic dependencies; and what a plan-only run writes for a clean plan loads back to that plan, whatever
  writer and reader of JSON are used, as long as reading undoes writing.\<close>

theorem plan_file_round_trip:
  assumes "\<And>v. loads (dumps v) = Some v"
  shows "(load_plan loads f = Inr p \<longrightarrow> clean_file_plan p)
    \<and> (clean_file_plan p \<longrightarrow> load_plan loads (Text (dumps (emitted_plan i p))) = Inr p)"
  using plan_of_json_clean plan_of_json_emitted assms
  by (auto simp: load_plan_def split: plan_text.splits option.splits)

theorem plan_file_round_trip_witness:
  "load_plan Some (Text (emitted_plan ''go'' (GraphPlan diamond))) = Inr (GraphPlan diamond)"
proof -
  have "list_all clean_node diamond" "diamond \<noteq> []" by code_simp+
  then have "clean_file_plan (GraphPlan diamond)"
    using diamond_wf diamond_order by (simp add: clean_file_plan_def clean_plan_def)
  then show ?thesis using plan_file_round_trip [of Some "\<lambda>v. v"] by blast
qed

text \<open>The pin: the digest is that of the text on disk, so a changed text passes only with an equal digest.\<close>

lemma pin_is_of_the_text: "plan_file_sha sha (Text t) = Inr h \<longleftrightarrow> h = sha t"
  by (auto simp: plan_file_sha_def)

end
