(* ===== verification/Usage.thy ===== *)
theory Usage
  imports Py_Prelude
begin

text \<open>
  The token telemetry of a run in \<^verbatim>\<open>harness/dispatch.py\<close>: one pass over the event log that keeps a row for each worker,
  and the totals over the rows.  A reference definition computes the same summary from the list of calls.
\<close>

section \<open>Reading a call\<close>

definition as_int :: "pyval \<Rightarrow> int option" where
  "as_int v = (case v of PNone \<Rightarrow> None | PBool _ \<Rightarrow> None
     | _ \<Rightarrow> (case to_int v of Inl _ \<Rightarrow> None | Inr i \<Rightarrow> if i \<ge> 0 then Some i else None))"

record usage_call =
  uc_worker :: string
  uc_model :: string
  uc_cli :: bool
  uc_input :: "int option"
  uc_output :: "int option"
  uc_cache :: "int option"
  uc_total :: "int option"

text \<open>\<open>str(a or b or d)\<close>; \<open>rp\<close> is the text of floats and containers.\<close>

definition first_text :: "(pyval \<Rightarrow> string) \<Rightarrow> pyval \<Rightarrow> pyval \<Rightarrow> string \<Rightarrow> string" where
  "first_text rp a b d = py_str rp (py_or (py_or a b) (PStr d))"

text \<open>The call a line of the log records, if it does; \<open>loads\<close> is the JSON reader.\<close>

definition call_of_line :: "(string \<Rightarrow> pyval option) \<Rightarrow> (pyval \<Rightarrow> string) \<Rightarrow> string \<Rightarrow> usage_call option" where
  "call_of_line loads rp raw =
     (if py_strip raw = [] then None
      else case loads (py_strip raw) of
        Some (PDict event) \<Rightarrow>
          if \<not> py_eq (dget event ''kind'') (PStr ''usage'') then None
          else (case dget event ''data'' of
            PDict data \<Rightarrow>
              if \<not> py_eq (dget data ''usage_kind'') (PStr ''call'') then None
              else Some \<lparr>uc_worker = first_text rp (dget event ''worker'') (dget data ''worker'') ''unknown'',
                uc_model = first_text rp (dget event ''model'') (dget data ''model'') ''n/a'',
                uc_cli = (py_str rp (py_or (dget data ''token_source'') (PStr ''unavailable'')) = ''cli''),
                uc_input = as_int (dget data ''input_tokens''), uc_output = as_int (dget data ''output_tokens''),
                uc_cache = as_int (dget data ''cache_read_tokens''), uc_total = as_int (dget data ''total_tokens'')\<rparr>
          | _ \<Rightarrow> None)
      | _ \<Rightarrow> None)"

section \<open>The pass over the log\<close>

text \<open>A sum and its \<open>has_\<close> flag.\<close>

record tally =
  ty_sum :: int
  ty_has :: bool

definition no_tally :: tally where
  "no_tally = \<lparr>ty_sum = 0, ty_has = False\<rparr>"

definition count_in :: "int option \<Rightarrow> tally \<Rightarrow> tally" where
  "count_in v t = (case v of None \<Rightarrow> t | Some n \<Rightarrow> \<lparr>ty_sum = ty_sum t + n, ty_has = True\<rparr>)"

definition tally_value :: "tally \<Rightarrow> int option" where
  "tally_value t = (if ty_has t then Some (ty_sum t) else None)"

record usage_row =
  ur_calls :: nat
  ur_cli :: nat
  ur_input :: tally
  ur_output :: tally
  ur_cache :: tally
  ur_total :: tally
  ur_models :: "string list"

definition empty_row :: usage_row where
  "empty_row = \<lparr>ur_calls = 0, ur_cli = 0, ur_input = no_tally, ur_output = no_tally, ur_cache = no_tally, ur_total = no_tally, ur_models = []\<rparr>"

definition add_call :: "usage_call \<Rightarrow> usage_row \<Rightarrow> usage_row" where
  "add_call c r = \<lparr>ur_calls = ur_calls r + 1, ur_cli = (if uc_cli c then ur_cli r + 1 else ur_cli r),
     ur_input = count_in (uc_input c) (ur_input r), ur_output = count_in (uc_output c) (ur_output r),
     ur_cache = count_in (uc_cache c) (ur_cache r), ur_total = count_in (uc_total c) (ur_total r),
     ur_models = (if uc_model c \<in> set (ur_models r) then ur_models r else ur_models r @ [uc_model c])\<rparr>"

text \<open>\<open>setdefault\<close> and the update in place.\<close>

fun upsert :: "string \<Rightarrow> (usage_row \<Rightarrow> usage_row) \<Rightarrow> (string \<times> usage_row) list \<Rightarrow> (string \<times> usage_row) list" where
  "upsert k f [] = [(k, f empty_row)]"
| "upsert k f ((k', r) # t) = (if k = k' then (k', f r) # t else (k', r) # upsert k f t)"

definition worker_table :: "usage_call list \<Rightarrow> (string \<times> usage_row) list" where
  "worker_table cs = fold (\<lambda>c. upsert (uc_worker c) (add_call c)) cs []"

section \<open>The summary\<close>

definition round4 :: "rat \<Rightarrow> rat" where
  "round4 q = (let x = q * 10000; f = \<lfloor>x\<rfloor>; r = x - of_int f
     in of_int (if r < 1 / 2 \<or> r = 1 / 2 \<and> even f then f else f + 1) / 10000)"

definition cache_read_ratio :: "int option \<Rightarrow> int option \<Rightarrow> rat option" where
  "cache_read_ratio cache inp =
     (case (cache, inp) of
        (Some c, Some i) \<Rightarrow> if c + i \<le> 0 then None else Some (round4 (of_int c / of_int (c + i)))
      | _ \<Rightarrow> None)"

record worker_usage =
  wu_calls :: nat
  wu_source :: string
  wu_models :: "string list"
  wu_input :: "int option"
  wu_output :: "int option"
  wu_cache :: "int option"
  wu_total :: "int option"
  wu_ratio :: "rat option"

definition worker_usage_of :: "usage_row \<Rightarrow> worker_usage" where
  "worker_usage_of r = \<lparr>wu_calls = ur_calls r,
     wu_source = (if ur_cli r = ur_calls r \<and> ur_calls r > 0 then ''cli''
                  else if 0 < ur_cli r \<and> ur_cli r < ur_calls r then ''mixed'' else ''unavailable''),
     wu_models = sort (ur_models r), wu_input = tally_value (ur_input r), wu_output = tally_value (ur_output r),
     wu_cache = tally_value (ur_cache r), wu_total = tally_value (ur_total r),
     wu_ratio = cache_read_ratio (tally_value (ur_cache r)) (tally_value (ur_input r))\<rparr>"

record grand_total =
  gt_input :: "int option"
  gt_output :: "int option"
  gt_cache :: "int option"
  gt_total :: "int option"
  gt_ratio :: "rat option"

definition total_of :: "int option list \<Rightarrow> int option" where
  "total_of vs = tally_value (fold count_in vs no_tally)"

record usage_summary =
  su_calls :: nat
  su_workers :: "(string \<times> worker_usage) list"
  su_grand :: grand_total

definition summarize_calls :: "usage_call list \<Rightarrow> usage_summary" where
  "summarize_calls cs =
     (let tbl = worker_table cs;
          rows = map (\<lambda>w. (w, worker_usage_of (the (map_of tbl w)))) (sort (map fst tbl));
          col = (\<lambda>f. total_of (map (\<lambda>(_, u). f u) rows))
      in \<lparr>su_calls = length cs, su_workers = rows,
          su_grand = \<lparr>gt_input = col wu_input, gt_output = col wu_output, gt_cache = col wu_cache, gt_total = col wu_total,
            gt_ratio = cache_read_ratio (col wu_cache) (col wu_input)\<rparr>\<rparr>)"

definition summarize_token_usage :: "(string \<Rightarrow> pyval option) \<Rightarrow> (pyval \<Rightarrow> string) \<Rightarrow> string list \<Rightarrow> usage_summary" where
  "summarize_token_usage loads rp ls = summarize_calls (List.map_filter (call_of_line loads rp) ls)"

section \<open>The reference\<close>

text \<open>The known values of a column, and their sum when there is one.\<close>

definition known_sum :: "int option list \<Rightarrow> int option" where
  "known_sum vs = (let ks = List.map_filter (\<lambda>v. v) vs in if ks = [] then None else Some (sum_list ks))"

definition reference_worker :: "usage_call list \<Rightarrow> worker_usage" where
  "reference_worker cs =
     (let n = length cs; k = length (filter uc_cli cs); col = (\<lambda>f. known_sum (map f cs))
      in \<lparr>wu_calls = n, wu_source = (if k = n \<and> n > 0 then ''cli'' else if 0 < k \<and> k < n then ''mixed'' else ''unavailable''),
          wu_models = sort (remdups (map uc_model cs)), wu_input = col uc_input, wu_output = col uc_output,
          wu_cache = col uc_cache, wu_total = col uc_total, wu_ratio = cache_read_ratio (col uc_cache) (col uc_input)\<rparr>)"

definition reference_summary :: "usage_call list \<Rightarrow> usage_summary" where
  "reference_summary cs =
     (let col = (\<lambda>f. known_sum (map f cs))
      in \<lparr>su_calls = length cs,
          su_workers = map (\<lambda>w. (w, reference_worker (filter (\<lambda>c. uc_worker c = w) cs))) (sort (remdups (map uc_worker cs))),
          su_grand = \<lparr>gt_input = col uc_input, gt_output = col uc_output, gt_cache = col uc_cache, gt_total = col uc_total,
            gt_ratio = cache_read_ratio (col uc_cache) (col uc_input)\<rparr>\<rparr>)"

section \<open>The pass computes the reference\<close>

lemma fold_count_in:
  "ty_sum (fold count_in vs t) = ty_sum t + sum_list (List.map_filter (\<lambda>v. v) vs)"
  "ty_has (fold count_in vs t) = (ty_has t \<or> List.map_filter (\<lambda>v. v) vs \<noteq> [])"
  by (induction vs arbitrary: t) (auto simp: count_in_def map_filter_simps split: option.splits)

lemma tally_known: "tally_value (fold count_in vs no_tally) = known_sum vs"
  by (simp add: tally_value_def known_sum_def fold_count_in no_tally_def Let_def)

lemma total_of_known: "total_of vs = known_sum vs"
  by (simp add: total_of_def tally_known)

lemma fold_add_call:
  "ur_calls (fold add_call cs r) = ur_calls r + length cs"
  "ur_cli (fold add_call cs r) = ur_cli r + length (filter uc_cli cs)"
  "ur_input (fold add_call cs r) = fold count_in (map uc_input cs) (ur_input r)"
  "ur_output (fold add_call cs r) = fold count_in (map uc_output cs) (ur_output r)"
  "ur_cache (fold add_call cs r) = fold count_in (map uc_cache cs) (ur_cache r)"
  "ur_total (fold add_call cs r) = fold count_in (map uc_total cs) (ur_total r)"
  "set (ur_models (fold add_call cs r)) = set (ur_models r) \<union> set (map uc_model cs)"
  "distinct (ur_models r) \<Longrightarrow> distinct (ur_models (fold add_call cs r))"
  by (induction cs arbitrary: r) (auto simp: add_call_def)

lemma sort_same: "distinct xs \<Longrightarrow> set xs = set ys \<Longrightarrow> sort xs = sort (remdups ys)"
  for xs ys :: "string list"
  by (rule sorted_distinct_set_unique) auto

lemma row_reference: "worker_usage_of (fold add_call cs empty_row) = reference_worker cs"
proof -
  let ?r = "fold add_call cs empty_row"
  have m: "sort (ur_models ?r) = sort (remdups (map uc_model cs))"
    by (rule sort_same) (simp_all add: fold_add_call empty_row_def)
  show ?thesis
    unfolding worker_usage_of_def reference_worker_def m Let_def
    by (simp add: fold_add_call empty_row_def tally_known)
qed

lemma map_of_upsert: "map_of (upsert k f t) w = (if w = k then Some (f (case map_of t k of None \<Rightarrow> empty_row | Some r \<Rightarrow> r)) else map_of t w)"
  by (induction t) auto

lemma map_fst_upsert: "map fst (upsert k f t) = (if k \<in> set (map fst t) then map fst t else map fst t @ [k])"
  by (induction k f t rule: upsert.induct) auto

lemma keys_upsert: "set (map fst (upsert k f t)) = insert k (set (map fst t))"
  unfolding map_fst_upsert by auto

lemma distinct_upsert: "distinct (map fst t) \<Longrightarrow> distinct (map fst (upsert k f t))"
  unfolding map_fst_upsert by auto

lemma table_fold:
  "map_of (fold (\<lambda>c. upsert (uc_worker c) (add_call c)) cs t) w =
     (if map_of t w = None \<and> filter (\<lambda>c. uc_worker c = w) cs = [] then None
      else Some (fold add_call (filter (\<lambda>c. uc_worker c = w) cs) (case map_of t w of None \<Rightarrow> empty_row | Some r \<Rightarrow> r)))"
  by (induction cs arbitrary: t) (auto simp: map_of_upsert)

lemma table_keys:
  "set (map fst (fold (\<lambda>c. upsert (uc_worker c) (add_call c)) cs t)) = set (map fst t) \<union> set (map uc_worker cs)"
  "distinct (map fst t) \<Longrightarrow> distinct (map fst (fold (\<lambda>c. upsert (uc_worker c) (add_call c)) cs t))"
proof (induction cs arbitrary: t)
  case (Cons c cs)
  { case 1 show ?case using Cons(1) [of "upsert (uc_worker c) (add_call c) t"] keys_upsert [of "uc_worker c" "add_call c" t] by auto }
  { case 2 show ?case using Cons(2) [of "upsert (uc_worker c) (add_call c) t"] distinct_upsert [OF 2] by simp }
qed simp_all

lemma rows_reference:
  "map (\<lambda>w. (w, worker_usage_of (the (map_of (worker_table cs) w)))) (sort (map fst (worker_table cs)))
   = map (\<lambda>w. (w, reference_worker (filter (\<lambda>c. uc_worker c = w) cs))) (sort (remdups (map uc_worker cs)))"
proof -
  have s: "sort (map fst (worker_table cs)) = sort (remdups (map uc_worker cs))"
    by (rule sort_same) (use table_keys [where t = "[]" and cs = cs] in \<open>simp_all add: worker_table_def\<close>)
  have "worker_usage_of (the (map_of (worker_table cs) w)) = reference_worker (filter (\<lambda>c. uc_worker c = w) cs)" if "w \<in> uc_worker ` set cs" for w
  proof -
    have "filter (\<lambda>c. uc_worker c = w) cs \<noteq> []" using that by (auto simp: filter_empty_conv)
    then have "map_of (worker_table cs) w = Some (fold add_call (filter (\<lambda>c. uc_worker c = w) cs) empty_row)"
      using table_fold [of cs "[]" w] by (simp add: worker_table_def)
    then show ?thesis by (simp add: row_reference)
  qed
  then show ?thesis unfolding s by simp
qed

text \<open>Summing by worker and then over the workers is summing over the calls.\<close>

definition vals :: "int option list \<Rightarrow> int list" where
  "vals vs = List.map_filter (\<lambda>v. v) vs"

lemma vals_simps [simp]: "vals [] = []" "vals (v # vs) = (case v of None \<Rightarrow> vals vs | Some n \<Rightarrow> n # vals vs)"
  by (simp_all add: vals_def map_filter_simps split: option.split)

lemma known_sum_vals: "known_sum vs = (if vals vs = [] then None else Some (sum_list (vals vs)))"
  by (simp add: known_sum_def vals_def Let_def)

lemma vals_append [simp]: "vals (xs @ ys) = vals xs @ vals ys"
  by (induction xs) (auto split: option.split)

lemma vals_empty: "vals vs = [] \<longleftrightarrow> set vs \<subseteq> {None}"
  by (induction vs) (auto split: option.splits)

lemma sum_by_worker:
  assumes "finite W" "uc_worker ` set cs \<subseteq> W"
  shows "(\<Sum>w\<in>W. sum_list (vals (map f (filter (\<lambda>c. uc_worker c = w) cs)))) = sum_list (vals (map f cs))"
  using assms(2)
proof (induction cs)
  case (Cons c cs)
  let ?v = "case f c of None \<Rightarrow> 0 | Some n \<Rightarrow> n"
  have "sum_list (vals (map f (filter (\<lambda>c. uc_worker c = w) (c # cs))))
      = (if w = uc_worker c then ?v else 0) + sum_list (vals (map f (filter (\<lambda>c. uc_worker c = w) cs)))" for w
    by (auto split: option.split)
  then have "(\<Sum>w\<in>W. sum_list (vals (map f (filter (\<lambda>c. uc_worker c = w) (c # cs)))))
      = (\<Sum>w\<in>W. if w = uc_worker c then ?v else 0) + sum_list (vals (map f cs))"
    using Cons by (simp add: sum.distrib)
  also have "(\<Sum>w\<in>W. if w = uc_worker c then ?v else 0) = ?v" using assms(1) Cons.prems by (simp add: sum.delta)
  finally show ?case by (simp split: option.split)
qed simp

lemma sum_list_known: "sum_list (vals (map (\<lambda>w. known_sum (g w)) ws)) = sum_list (map (\<lambda>w. sum_list (vals (g w))) ws)"
  by (induction ws) (auto simp: known_sum_vals)

lemma vals_known_empty: "vals (map (\<lambda>w. known_sum (g w)) ws) = [] \<longleftrightarrow> (\<forall>w \<in> set ws. vals (g w) = [])"
  by (induction ws) (auto simp: known_sum_vals)

lemma grand_reference:
  "known_sum (map (\<lambda>w. known_sum (map f (filter (\<lambda>c. uc_worker c = w) cs))) (sort (remdups (map uc_worker cs)))) = known_sum (map f cs)"
proof -
  let ?ws = "sort (remdups (map uc_worker cs))"
  let ?g = "\<lambda>w. map f (filter (\<lambda>c. uc_worker c = w) cs)"
  have "sum_list (vals (map (\<lambda>w. known_sum (?g w)) ?ws)) = (\<Sum>w\<in>set ?ws. sum_list (vals (?g w)))"
    unfolding sum_list_known by (rule sum_list_distinct_conv_sum_set) simp
  also have "\<dots> = sum_list (vals (map f cs))" by (rule sum_by_worker) auto
  finally have s: "sum_list (vals (map (\<lambda>w. known_sum (?g w)) ?ws)) = sum_list (vals (map f cs))" .
  have "vals (map (\<lambda>w. known_sum (?g w)) ?ws) = [] \<longleftrightarrow> vals (map f cs) = []"
  proof -
    have "vals (map (\<lambda>w. known_sum (?g w)) ?ws) = [] \<longleftrightarrow> (\<forall>w \<in> set ?ws. vals (?g w) = [])"
      by (rule vals_known_empty)
    also have "\<dots> \<longleftrightarrow> (\<forall>c \<in> set cs. f c = None)" unfolding vals_empty by auto
    also have "\<dots> \<longleftrightarrow> vals (map f cs) = []" unfolding vals_empty by auto
    finally show ?thesis .
  qed
  with s show ?thesis by (simp only: known_sum_vals [of "map f cs"] known_sum_vals [of "map (\<lambda>w. known_sum (?g w)) ?ws"])
qed

lemma summarize_reference: "summarize_calls cs = reference_summary cs"
  unfolding summarize_calls_def reference_summary_def Let_def rows_reference total_of_known
  by (simp add: o_def case_prod_unfold reference_worker_def Let_def grand_reference)

section \<open>Properties\<close>

text \<open>C35: the pass over the log is the reference: every worker's row counts its calls and sums what is known of them, a
  total is the sum over all calls and is missing exactly when nothing is known; so the order of the log does not matter.\<close>

theorem usage_is_the_reference:
  "summarize_token_usage loads rp ls = reference_summary (List.map_filter (call_of_line loads rp) ls)
   \<and> su_grand (summarize_token_usage loads rp (rev ls)) = su_grand (summarize_token_usage loads rp ls)"
proof
  have r: "summarize_token_usage loads rp ls = reference_summary (List.map_filter (call_of_line loads rp) ls)" for ls
    by (simp add: summarize_token_usage_def summarize_reference)
  then show "summarize_token_usage loads rp ls = reference_summary (List.map_filter (call_of_line loads rp) ls)" .
  have "vals (rev vs) = rev (vals vs)" for vs by (induction vs) (auto split: option.split)
  then have k: "known_sum (rev vs) = known_sum vs" for vs by (simp add: known_sum_vals)
  have "List.map_filter g (rev xs) = rev (List.map_filter g xs)" for g :: "string \<Rightarrow> usage_call option" and xs
    by (simp add: List.map_filter_def rev_map rev_filter)
  then show "su_grand (summarize_token_usage loads rp (rev ls)) = su_grand (summarize_token_usage loads rp ls)"
    unfolding r reference_summary_def Let_def by (simp add: rev_map [symmetric] k)
qed

end
