(* ===== verification/Git_PR.thy ===== *)
theory Git_PR
  imports Py_Prelude
begin

text \<open>
  The git and \<open>gh\<close> layer of \<^verbatim>\<open>harness/gitpr.py\<close>, the pull-request life cycle around a run in
  \<^verbatim>\<open>harness/dispatch.py\<close>, and the two decisions of \<^verbatim>\<open>harness/cli.py\<close>.  A command is its working directory and its
  arguments; the shell is a parameter that answers a command from the commands before it, so a missing binary or a
  timeout is an exit code.  Every operation extends the log of commands.
\<close>

section \<open>Commands\<close>

type_synonym cmd = "string option \<times> string list"
type_synonym shell = "cmd list \<Rightarrow> cmd \<Rightarrow> int \<times> string \<times> string"

definition run_cmd :: "shell \<Rightarrow> cmd \<Rightarrow> cmd list \<Rightarrow> (int \<times> string \<times> string) \<times> cmd list" where
  "run_cmd sh c l = (sh l c, l @ [c])"

definition git_cmd :: "string \<Rightarrow> string list \<Rightarrow> cmd" where
  "git_cmd path args = (None, [''git'', ''-C'', path] @ args)"

definition gh_cmd :: "string \<Rightarrow> string list \<Rightarrow> cmd" where
  "gh_cmd path args = (Some path, ''gh'' # args)"

datatype git_error = Cmd_failed string int string | No_pr_url string | Unknown_method string

definition err_text :: "string \<Rightarrow> string \<Rightarrow> string" where
  "err_text out err = py_strip (if err \<noteq> [] then err else out)"

text \<open>A mutation: a non-zero exit code is a \<open>GitError\<close>.\<close>

definition must :: "shell \<Rightarrow> string \<Rightarrow> cmd \<Rightarrow> cmd list \<Rightarrow> (git_error + string \<times> string) \<times> cmd list" where
  "must sh what c l = (case run_cmd sh c l of
     ((rc, out, err), l1) \<Rightarrow> (if rc \<noteq> 0 then Inl (Cmd_failed what rc (err_text out err)) else Inr (out, err), l1))"

section \<open>Probes\<close>

definition probe_text :: "shell \<Rightarrow> string \<Rightarrow> string list \<Rightarrow> cmd list \<Rightarrow> string option \<times> cmd list" where
  "probe_text sh path args l = (case run_cmd sh (git_cmd path args) l of
     ((rc, out, _), l1) \<Rightarrow> (if rc = 0 \<and> py_strip out \<noteq> [] then Some (py_strip out) else None, l1))"

definition current_branch :: "shell \<Rightarrow> string \<Rightarrow> cmd list \<Rightarrow> string option \<times> cmd list" where
  "current_branch sh path = probe_text sh path [''rev-parse'', ''--abbrev-ref'', ''HEAD'']"

definition is_detached_head :: "shell \<Rightarrow> string \<Rightarrow> cmd list \<Rightarrow> bool \<times> cmd list" where
  "is_detached_head sh path l = (case current_branch sh path l of (b, l1) \<Rightarrow> (b = Some ''HEAD'', l1))"

definition head_sha :: "shell \<Rightarrow> string \<Rightarrow> cmd list \<Rightarrow> string option \<times> cmd list" where
  "head_sha sh path = probe_text sh path [''rev-parse'', ''HEAD'']"

definition has_remote :: "shell \<Rightarrow> string \<Rightarrow> string option \<Rightarrow> cmd list \<Rightarrow> bool \<times> cmd list" where
  "has_remote sh path remote l = (case run_cmd sh (git_cmd path [''remote'']) l of
     ((rc, out, _), l1) \<Rightarrow>
       (rc = 0 \<and> (case remote of None \<Rightarrow> py_words [] out \<noteq> [] | Some r \<Rightarrow> r \<in> set (py_words [] out)), l1))"

text \<open>\<open>on_path\<close>: whether \<open>gh\<close> is installed.\<close>

definition gh_authed :: "bool \<Rightarrow> shell \<Rightarrow> string \<Rightarrow> cmd list \<Rightarrow> bool \<times> cmd list" where
  "gh_authed on_path sh path l =
     (if \<not> on_path then (False, l)
      else case run_cmd sh (gh_cmd path [''auth'', ''status'']) l of ((rc, _, _), l1) \<Rightarrow> (rc = 0, l1))"

definition branch_exists :: "shell \<Rightarrow> string \<Rightarrow> string \<Rightarrow> cmd list \<Rightarrow> bool \<times> cmd list" where
  "branch_exists sh path branch l =
     (case run_cmd sh (git_cmd path [''rev-parse'', ''--verify'', ''--quiet'', ''refs/heads/'' @ branch]) l of
        ((rc, _, _), l1) \<Rightarrow> (rc = 0, l1))"

text \<open>The two probes of \<^verbatim>\<open>execution/workspace.py\<close>; \<open>is_dir\<close> asks the file system.\<close>

definition is_git_repo :: "(string \<Rightarrow> bool) \<Rightarrow> shell \<Rightarrow> string \<Rightarrow> cmd list \<Rightarrow> bool \<times> cmd list" where
  "is_git_repo is_dir sh path l =
     (if \<not> is_dir path then (False, l)
      else case run_cmd sh (git_cmd path [''rev-parse'', ''--is-inside-work-tree'']) l of
        ((rc, out, _), l1) \<Rightarrow> (rc = 0 \<and> py_strip out = ''true'', l1))"

definition has_uncommitted_changes :: "shell \<Rightarrow> string \<Rightarrow> cmd list \<Rightarrow> bool \<times> cmd list" where
  "has_uncommitted_changes sh path l =
     (case run_cmd sh (git_cmd path [''status'', ''--porcelain'']) l of
        ((rc, out, _), l1) \<Rightarrow> (rc = 0 \<and> py_strip out \<noteq> [], l1))"

section \<open>Mutations\<close>

definition branch_name_for_run :: "string \<Rightarrow> string" where
  "branch_name_for_run run_id = ''agentorch/'' @ run_id"

definition add_worktree ::
  "shell \<Rightarrow> string \<Rightarrow> string \<Rightarrow> string \<Rightarrow> string option \<Rightarrow> bool \<Rightarrow> cmd list \<Rightarrow> (git_error + unit) \<times> cmd list" where
  "add_worktree sh base target branch start_point create l =
     (let args = (if create then [''worktree'', ''add'', ''-b'', branch, target]
                    @ (case start_point of None \<Rightarrow> [] | Some s \<Rightarrow> if s = [] then [] else [s])
                  else [''worktree'', ''add'', target, branch])
      in case must sh ''git worktree add'' (git_cmd base args) l of
           (Inl e, l1) \<Rightarrow> (Inl e, l1) | (Inr _, l1) \<Rightarrow> (Inr (), l1))"

definition remove_worktree :: "shell \<Rightarrow> string \<Rightarrow> string \<Rightarrow> cmd list \<Rightarrow> cmd list" where
  "remove_worktree sh base target l =
     snd (run_cmd sh (git_cmd base [''worktree'', ''prune''])
            (snd (run_cmd sh (git_cmd base [''worktree'', ''remove'', ''--force'', target]) l)))"

definition stage_all :: "shell \<Rightarrow> string \<Rightarrow> cmd list \<Rightarrow> (git_error + unit) \<times> cmd list" where
  "stage_all sh path l = (case run_cmd sh (git_cmd path [''add'', ''-A'']) l of
     ((rc, _, err), l1) \<Rightarrow> (if rc \<noteq> 0 then Inl (Cmd_failed ''git add -A'' rc (py_strip err)) else Inr (), l1))"

text \<open>\<open>commit\<close>: the new id, or nothing when nothing is staged; \<open>author\<close> is a name and an address.\<close>

definition git_commit ::
  "shell \<Rightarrow> string \<Rightarrow> string \<Rightarrow> (string \<times> string) option \<Rightarrow> cmd list \<Rightarrow> (git_error + string option) \<times> cmd list" where
  "git_commit sh path message author l =
     (case stage_all sh path l of
        (Inl e, l1) \<Rightarrow> (Inl e, l1)
      | (Inr _, l1) \<Rightarrow>
          (case run_cmd sh (git_cmd path [''diff'', ''--cached'', ''--quiet'']) l1 of
             ((rc, _, _), l2) \<Rightarrow>
               if rc = 0 then (Inr None, l2)
               else
                 let pre = (case author of None \<Rightarrow> []
                     | Some (n, m) \<Rightarrow> if n \<noteq> [] \<and> m \<noteq> [] then [''-c'', ''user.name='' @ n, ''-c'', ''user.email='' @ m] else [])
                 in case must sh ''git commit'' (git_cmd path (pre @ [''commit'', ''-m'', message])) l2 of
                      (Inl e, l3) \<Rightarrow> (Inl e, l3)
                    | (Inr _, l3) \<Rightarrow> (case head_sha sh path l3 of (s, l4) \<Rightarrow> (Inr s, l4))))"

definition push_cmd :: "string \<Rightarrow> string \<Rightarrow> cmd" where
  "push_cmd path branch = git_cmd path [''push'', ''-u'', ''origin'', branch]"

definition git_push :: "shell \<Rightarrow> string \<Rightarrow> string \<Rightarrow> cmd list \<Rightarrow> (git_error + string \<times> string) \<times> cmd list" where
  "git_push sh path branch = must sh ''git push'' (push_cmd path branch)"

section \<open>Pull requests\<close>

text \<open>\<open>https?://\S+?/pull/(\d+)\<close>: the shortest run of non-blank text before \<open>/pull/\<close> and digits; the result is the
  match, the digits and what follows.\<close>

fun lazy_pull :: "string \<Rightarrow> string \<Rightarrow> (string \<times> string \<times> string) option" where
  "lazy_pull acc [] = None"
| "lazy_pull acc (c # cs) =
     (if py_space c then None
      else let acc1 = acc @ [c];
               ds = takeWhile is_digit (drop 6 cs)
           in if prefix ''/pull/'' cs \<and> ds \<noteq> [] then Some (acc1 @ ''/pull/'' @ ds, ds, drop (6 + length ds) cs)
              else lazy_pull acc1 cs)"

definition pull_at :: "string \<Rightarrow> (string \<times> string \<times> string) option" where
  "pull_at s =
     (if prefix ''http://'' s then lazy_pull ''http://'' (drop 7 s)
      else if prefix ''https://'' s then lazy_pull ''https://'' (drop 8 s)
      else None)"

text \<open>\<open>finditer\<close>, keeping the last match; fuel bounds the scan, and the length of the text is enough.\<close>

fun last_pull :: "nat \<Rightarrow> string \<Rightarrow> (string \<times> string) option \<Rightarrow> (string \<times> string) option" where
  "last_pull 0 s best = best"
| "last_pull (Suc n) [] best = best"
| "last_pull (Suc n) (c # cs) best =
     (case pull_at (c # cs) of Some (u, ds, rest) \<Rightarrow> last_pull n rest (Some (u, ds)) | None \<Rightarrow> last_pull n cs best)"

definition parse_pr_ref :: "string \<Rightarrow> string \<times> nat option" where
  "parse_pr_ref text =
     (case last_pull (length text) text None of
        Some (u, ds) \<Rightarrow> (u, Some (read_nat ds))
      | None \<Rightarrow> (case find (\<lambda>l. prefix ''http'' l) (map py_strip (rev (split_lines [] text))) of
                   Some u \<Rightarrow> (u, None) | None \<Rightarrow> ([], None)))"

definition create_pr ::
  "shell \<Rightarrow> string \<Rightarrow> string \<Rightarrow> string \<Rightarrow> string \<Rightarrow> string \<Rightarrow> bool \<Rightarrow> cmd list \<Rightarrow> (git_error + string \<times> nat option) \<times> cmd list" where
  "create_pr sh path base head title body draft l =
     (case must sh ''gh pr create''
          (gh_cmd path ([''pr'', ''create'', ''--base'', base, ''--head'', head, ''--title'', title, ''--body'', body]
             @ (if draft then [''--draft''] else []))) l of
        (Inl e, l1) \<Rightarrow> (Inl e, l1)
      | (Inr (out, err), l1) \<Rightarrow>
          let info = parse_pr_ref (out @ nl @ err)
          in (if fst info = [] then Inl (No_pr_url out) else Inr info, l1))"

definition ready_cmd :: "string \<Rightarrow> string \<Rightarrow> cmd" where
  "ready_cmd path pr = gh_cmd path [''pr'', ''ready'', pr]"

definition mark_ready :: "shell \<Rightarrow> string \<Rightarrow> string \<Rightarrow> cmd list \<Rightarrow> (git_error + string \<times> string) \<times> cmd list" where
  "mark_ready sh path pr = must sh ''gh pr ready'' (ready_cmd path pr)"

definition merge_pr :: "shell \<Rightarrow> string \<Rightarrow> string \<Rightarrow> string \<Rightarrow> bool \<Rightarrow> cmd list \<Rightarrow> (git_error + string \<times> string) \<times> cmd list" where
  "merge_pr sh path pr how delete_branch l =
     (if how \<notin> set [''squash'', ''merge'', ''rebase''] then (Inl (Unknown_method how), l)
      else must sh ''gh pr merge''
        (gh_cmd path ([''pr'', ''merge'', pr, ''--'' @ how] @ (if delete_branch then [''--delete-branch''] else []))) l)"

definition close_pr :: "shell \<Rightarrow> string \<Rightarrow> string \<Rightarrow> bool \<Rightarrow> cmd list \<Rightarrow> (git_error + string \<times> string) \<times> cmd list" where
  "close_pr sh path pr delete_branch =
     must sh ''gh pr close'' (gh_cmd path ([''pr'', ''close'', pr] @ (if delete_branch then [''--delete-branch''] else [])))"

section \<open>Sessions\<close>

record pr_commit =
  pc_step :: pyval
  pc_sha :: string
  pc_outcome :: string
  pc_title :: string

record pr_session =
  ps_run_id :: string
  ps_base_branch :: string
  ps_temp_branch :: string
  ps_base_sha :: string
  ps_work_dir :: string
  ps_target_repo :: string
  ps_status :: string
  ps_pr_url :: "string option"
  ps_pr_number :: "int option"
  ps_draft :: bool
  ps_verified :: bool
  ps_decision :: "string option"
  ps_parent :: "string option"
  ps_runs :: "string list"
  ps_commits :: "pr_commit list"

definition commit_to_dict :: "pr_commit \<Rightarrow> pyval" where
  "commit_to_dict c = PDict ((if pc_step c = PNone then [] else [(''step'', pc_step c)])
     @ [(''sha'', PStr (pc_sha c)), (''outcome'', PStr (pc_outcome c)), (''title'', PStr (pc_title c))])"

definition session_to_dict :: "pr_session \<Rightarrow> pydict" where
  "session_to_dict s =
     [(''run_id'', PStr (ps_run_id s)), (''base_branch'', PStr (ps_base_branch s)), (''temp_branch'', PStr (ps_temp_branch s)),
      (''base_sha'', PStr (ps_base_sha s)), (''work_dir'', PStr (ps_work_dir s)), (''target_repo'', PStr (ps_target_repo s)),
      (''status'', PStr (ps_status s)), (''pr_url'', opt_str (ps_pr_url s)),
      (''pr_number'', case ps_pr_number s of None \<Rightarrow> PNone | Some n \<Rightarrow> PInt n), (''draft'', PBool (ps_draft s)),
      (''verified'', PBool (ps_verified s)), (''decision'', opt_str (ps_decision s)), (''parent_run_id'', opt_str (ps_parent s)),
      (''contributing_runs'', PList (map PStr (ps_runs s))), (''commits'', PList (map commit_to_dict (ps_commits s)))]"

text \<open>What a run changes: the log of commands, and the sessions written, oldest first.\<close>

record pr_world =
  pw_log :: "cmd list"
  pw_saved :: "pr_session list"

definition save_session :: "pr_session \<Rightarrow> pr_world \<Rightarrow> pr_world" where
  "save_session s w = w\<lparr>pw_saved := pw_saved w @ [s]\<rparr>"

definition drop_worktree :: "shell \<Rightarrow> string \<Rightarrow> string \<Rightarrow> pr_world \<Rightarrow> pr_world" where
  "drop_worktree sh repo wt w = w\<lparr>pw_log := remove_worktree sh repo wt (pw_log w)\<rparr>"

definition on_log :: "(cmd list \<Rightarrow> 'a \<times> cmd list) \<Rightarrow> pr_world \<Rightarrow> 'a \<times> pr_world" where
  "on_log m w = (case m (pw_log w) of (x, l) \<Rightarrow> (x, w\<lparr>pw_log := l\<rparr>))"

definition save_and_drop :: "shell \<Rightarrow> string \<Rightarrow> string \<Rightarrow> pr_session \<Rightarrow> pr_world \<Rightarrow> pr_session \<times> pr_world" where
  "save_and_drop sh repo wt s w = (s, drop_worktree sh repo wt (save_session s w))"

section \<open>The end of a run\<close>

record finish =
  fi_worktree :: string
  fi_repo :: string
  fi_run_id :: string
  fi_instruction :: string
  fi_verified :: bool
  fi_success :: bool
  fi_body :: string
  fi_gh_on_path :: bool

definition promote :: "shell \<Rightarrow> finish \<Rightarrow> int \<Rightarrow> pr_session \<Rightarrow> pr_world \<Rightarrow> pr_session \<times> pr_world" where
  "promote sh fi n s w =
     (case on_log (mark_ready sh (fi_repo fi) (show_int n)) w of
        (Inl _, w1) \<Rightarrow> (s, w1) | (Inr _, w1) \<Rightarrow> (s\<lparr>ps_draft := False\<rparr>, w1))"

text \<open>4a: a corrective run pushed to the branch of an open pull request.\<close>

definition update_pr :: "shell \<Rightarrow> finish \<Rightarrow> pr_session \<Rightarrow> pr_world \<Rightarrow> pr_session \<times> pr_world" where
  "update_pr sh fi s w =
     (case (case ps_pr_number s of
              Some n \<Rightarrow> if fi_success fi \<and> fi_verified fi \<and> ps_draft s then promote sh fi n s w else (s, w)
            | None \<Rightarrow> (s, w)) of
        (s1, w1) \<Rightarrow> save_and_drop sh (fi_repo fi) (fi_worktree fi) (s1\<lparr>ps_status := ''awaiting_decision''\<rparr>) w1)"

text \<open>4b: a new pull request.\<close>

definition open_pr :: "shell \<Rightarrow> finish \<Rightarrow> pr_session \<Rightarrow> pr_world \<Rightarrow> pr_session \<times> pr_world" where
  "open_pr sh fi s w =
     (let unopened = s\<lparr>ps_status := ''pushed_no_pr''\<rparr>
      in case on_log (gh_authed (fi_gh_on_path fi) sh (fi_repo fi)) w of
           (False, w1) \<Rightarrow> (unopened, w1)
         | (True, w1) \<Rightarrow>
             (case on_log (create_pr sh (fi_repo fi) (ps_base_branch s) (ps_temp_branch s)
                     (''[agentorch] '' @ take 64 (py_strip (fi_instruction fi))) (fi_body fi) True) w1 of
                (Inl _, w2) \<Rightarrow> (unopened, w2)
              | (Inr (url, number), w2) \<Rightarrow>
                  let s1 = s\<lparr>ps_pr_url := Some url, ps_pr_number := map_option int number, ps_draft := True\<rparr>;
                      r = (case number of
                             Some n \<Rightarrow> if fi_success fi \<and> fi_verified fi then promote sh fi (int n) s1 w2 else (s1, w2)
                           | None \<Rightarrow> (s1, w2))
                  in ((fst r)\<lparr>ps_status := ''awaiting_decision''\<rparr>, snd r)))"

definition try_push :: "shell \<Rightarrow> finish \<Rightarrow> pr_session \<Rightarrow> pr_world \<Rightarrow> bool \<times> pr_world" where
  "try_push sh fi s w =
     (case on_log (has_remote sh (fi_repo fi) None) w of
        (False, w1) \<Rightarrow> (False, w1)
      | (True, w1) \<Rightarrow> (case on_log (git_push sh (fi_repo fi) (ps_temp_branch s)) w1 of
            (Inl _, w2) \<Rightarrow> (False, w2) | (Inr _, w2) \<Rightarrow> (True, w2)))"

definition sweep :: "shell \<Rightarrow> finish \<Rightarrow> pr_session \<Rightarrow> pr_world \<Rightarrow> (git_error + pr_session) \<times> pr_world" where
  "sweep sh fi s w =
     (let title = take 72 (py_strip (fi_instruction fi))
      in case on_log (git_commit sh (fi_worktree fi) (''agentorch '' @ fi_run_id fi @ '': '' @ title) None) w of
           (Inl e, w1) \<Rightarrow> (Inl e, w1)
         | (Inr sha, w1) \<Rightarrow>
             (Inr (case truthy_str sha of
                None \<Rightarrow> s
              | Some h \<Rightarrow> s\<lparr>ps_commits := ps_commits s @ [\<lparr>pc_step = PNone, pc_sha = h,
                   pc_outcome = (if fi_verified fi then ''verified'' else ''unverified''), pc_title = title\<rparr>]\<rparr>), w1))"

definition finalize_git_pr :: "shell \<Rightarrow> finish \<Rightarrow> pr_session \<Rightarrow> pr_world \<Rightarrow> pr_session \<times> pr_world" where
  "finalize_git_pr sh fi s w =
     (case sweep sh fi s w of
        (Inl _, w1) \<Rightarrow> let s1 = s\<lparr>ps_status := ''error'', ps_verified := fi_verified fi\<rparr> in (s1, save_session s1 w1)
      | (Inr s0, w1) \<Rightarrow>
          let s1 = s0\<lparr>ps_verified := fi_verified fi\<rparr>; done_with = save_and_drop sh (fi_repo fi) (fi_worktree fi)
          in if ps_commits s1 = [] then done_with (s1\<lparr>ps_status := ''no_changes''\<rparr>) w1
             else case try_push sh fi s1 w1 of
               (False, w2) \<Rightarrow> done_with (s1\<lparr>ps_status := ''branch_ready''\<rparr>) w2
             | (True, w2) \<Rightarrow>
                 if ps_pr_number s1 \<noteq> None \<or> truthy_str (ps_pr_url s1) \<noteq> None then update_pr sh fi s1 w2
                 else case open_pr sh fi s1 w2 of (s2, w3) \<Rightarrow> done_with s2 w3)"

section \<open>The start of a run, and its steps\<close>

datatype refusal = No_session | Not_a_repo | Branch_gone | Detached | Dirty | Worktree_failed git_error

text \<open>A fresh run: the probes, then the worktree on a new branch at the current commit.\<close>

definition start_git_pr ::
  "(string \<Rightarrow> bool) \<Rightarrow> shell \<Rightarrow> string \<Rightarrow> string \<Rightarrow> string \<Rightarrow> pr_world \<Rightarrow> (refusal + pr_session) \<times> pr_world" where
  "start_git_pr is_dir sh repo worktree run_id w =
     (case on_log (is_git_repo is_dir sh repo) w of
        (False, w1) \<Rightarrow> (Inl Not_a_repo, w1)
      | (True, w1) \<Rightarrow>
     (case on_log (is_detached_head sh repo) w1 of
        (True, w2) \<Rightarrow> (Inl Detached, w2)
      | (False, w2) \<Rightarrow>
     (case on_log (has_uncommitted_changes sh repo) w2 of
        (True, w3) \<Rightarrow> (Inl Dirty, w3)
      | (False, w3) \<Rightarrow>
     (case on_log (current_branch sh repo) w3 of (base, w4) \<Rightarrow>
     (case on_log (head_sha sh repo) w4 of (sha, w5) \<Rightarrow>
     (case on_log (add_worktree sh repo worktree (branch_name_for_run run_id) sha True) w5 of
        (Inl e, w6) \<Rightarrow> (Inl (Worktree_failed e), w6)
      | (Inr _, w6) \<Rightarrow>
          let s = \<lparr>ps_run_id = run_id, ps_base_branch = (case base of None \<Rightarrow> [] | Some b \<Rightarrow> b),
                ps_temp_branch = branch_name_for_run run_id, ps_base_sha = (case sha of None \<Rightarrow> [] | Some h \<Rightarrow> h),
                ps_work_dir = worktree, ps_target_repo = repo, ps_status = ''running'', ps_pr_url = None, ps_pr_number = None,
                ps_draft = True, ps_verified = False, ps_decision = None, ps_parent = None, ps_runs = [run_id], ps_commits = []\<rparr>
          in (Inr s, save_session s w6)))))))"

text \<open>A corrective run on the branch of an earlier one.\<close>

definition continue_git_pr ::
  "(string \<Rightarrow> bool) \<Rightarrow> shell \<Rightarrow> string \<Rightarrow> string \<Rightarrow> string \<Rightarrow> pr_session option \<Rightarrow> pr_world \<Rightarrow> (refusal + pr_session) \<times> pr_world" where
  "continue_git_pr is_dir sh worktree run_id parent prior w =
     (case prior of
        None \<Rightarrow> (Inl No_session, w)
      | Some s \<Rightarrow>
          let repo = ps_target_repo s
          in case on_log (is_git_repo is_dir sh repo) w of
               (False, w1) \<Rightarrow> (Inl Not_a_repo, w1)
             | (True, w1) \<Rightarrow>
               (case on_log (branch_exists sh repo (ps_temp_branch s)) w1 of
                  (False, w2) \<Rightarrow> (Inl Branch_gone, w2)
                | (True, w2) \<Rightarrow>
                  (case on_log (add_worktree sh repo worktree (ps_temp_branch s) None False) w2 of
                     (Inl e, w3) \<Rightarrow> (Inl (Worktree_failed e), w3)
                   | (Inr _, w3) \<Rightarrow>
                       let s1 = s\<lparr>ps_status := ''running'', ps_parent := Some parent,
                                  ps_runs := (if run_id \<in> set (ps_runs s) then ps_runs s else ps_runs s @ [run_id])\<rparr>
                       in (Inr s1, save_session s1 w3))))"

text \<open>The listener that commits an accepted step; \<open>rp\<close> is the text of a float or container.\<close>

definition accepted_step :: "pydict \<Rightarrow> (pyval \<times> pyval \<times> string \<times> string) option" where
  "accepted_step event =
     (let data = as_dict (dget event ''data''); orch = as_dict (dget data ''orchestration'')
      in if dget data ''event'' \<noteq> PStr ''orchestration_transition'' \<or> dget orch ''phase'' \<noteq> PStr ''step''
            \<or> dget orch ''action'' \<noteq> PStr ''completed'' then None
         else case dget orch ''outcome'' of
           PStr oc \<Rightarrow>
             if oc \<noteq> ''verified'' \<and> oc \<noteq> ''approved'' then None
             else (case (if truthy (dget orch ''step_title'') then dget orch ''step_title'' else PStr []) of
                     PStr t \<Rightarrow> Some (dget orch ''step_index'', dget orch ''step_total'', py_strip t, oc)
                   | _ \<Rightarrow> None)
         | _ \<Rightarrow> None)"

definition step_commit ::
  "shell \<Rightarrow> (pyval \<Rightarrow> string) \<Rightarrow> string \<Rightarrow> pydict \<Rightarrow> pr_session \<Rightarrow> pr_world \<Rightarrow> pr_session \<times> pr_world" where
  "step_commit sh rp worktree event s w =
     (case accepted_step event of
        None \<Rightarrow> (s, w)
      | Some (idx, of_n, title, outcome) \<Rightarrow>
          let msg = py_strip (''step '' @ py_str rp idx @ ''/'' @ py_str rp of_n @ '': '' @ title @ '' ['' @ outcome @ '']'')
          in case on_log (git_commit sh worktree msg None) w of
               (Inl _, w1) \<Rightarrow> (s, w1)
             | (Inr sha, w1) \<Rightarrow>
                 (case truthy_str sha of
                    None \<Rightarrow> (s, w1)
                  | Some h \<Rightarrow>
                      let s1 = s\<lparr>ps_commits := ps_commits s @ [\<lparr>pc_step = idx, pc_sha = h, pc_outcome = outcome, pc_title = title\<rparr>]\<rparr>
                      in (s1, save_session s1 w1)))"

section \<open>The operator's decision\<close>

definition pr_ref :: "pr_session \<Rightarrow> string option" where
  "pr_ref s = (case ps_pr_number s of Some n \<Rightarrow> if n = 0 then None else Some (show_int n) | None \<Rightarrow> truthy_str (ps_pr_url s))"

definition repo_or_here :: "pr_session \<Rightarrow> string" where
  "repo_or_here s = (if ps_target_repo s = [] then ''.'' else ps_target_repo s)"

definition cmd_merge :: "shell \<Rightarrow> string \<Rightarrow> bool \<Rightarrow> pr_session option \<Rightarrow> pr_world \<Rightarrow> int \<times> pr_world" where
  "cmd_merge sh how delete_branch sess w =
     (case sess of
        None \<Rightarrow> (1, w)
      | Some s \<Rightarrow>
          (case pr_ref s of
             None \<Rightarrow> (1, w)
           | Some pr \<Rightarrow>
               (case on_log (merge_pr sh (repo_or_here s) pr how delete_branch) w of
                  (Inl _, w1) \<Rightarrow> (1, w1)
                | (Inr _, w1) \<Rightarrow> (0, save_session (s\<lparr>ps_status := ''merged'', ps_decision := Some ''merge''\<rparr>) w1))))"

definition cmd_abandon :: "shell \<Rightarrow> bool \<Rightarrow> pr_session option \<Rightarrow> pr_world \<Rightarrow> int \<times> pr_world" where
  "cmd_abandon sh delete_branch sess w =
     (case sess of
        None \<Rightarrow> (1, w)
      | Some s \<Rightarrow>
          let w1 = (case ps_pr_number s of None \<Rightarrow> w
                    | Some n \<Rightarrow> snd (on_log (close_pr sh (repo_or_here s) (show_int n) delete_branch) w))
          in (0, save_session (s\<lparr>ps_status := ''abandoned'', ps_decision := Some ''abandon''\<rparr>) w1))"

section \<open>What a step adds to the log\<close>

definition grows :: "(cmd \<Rightarrow> bool) \<Rightarrow> cmd list \<Rightarrow> cmd list \<Rightarrow> bool" where
  "grows P l l' = (\<exists>cs. l' = l @ cs \<and> list_all P cs)"

named_theorems grow

lemma grows_refl [grow]: "grows P l l"
  by (simp add: grows_def)

lemma grows_trans: "grows P a b \<Longrightarrow> grows P b c \<Longrightarrow> grows P a c"
  by (force simp: grows_def)

lemma grows_snoc: "P c \<Longrightarrow> grows P l l' \<Longrightarrow> grows P l (l' @ [c])"
  by (force simp: grows_def)

lemma grows_mono: "grows P l l' \<Longrightarrow> (\<And>c. P c \<Longrightarrow> Q c) \<Longrightarrow> grows Q l l'"
  by (force simp: grows_def list_all_iff)

lemma grows_prefix: "grows P l l' \<Longrightarrow> prefix l l'"
  by (auto simp: grows_def)

definition is_git :: "cmd \<Rightarrow> bool" where
  "is_git c = (fst c = None)"

definition is_ready :: "cmd \<Rightarrow> bool" where
  "is_ready c = (take 3 (snd c) = [''gh'', ''pr'', ''ready''])"

lemma is_git_cmd [simp]: "is_git (git_cmd p a)" "\<not> is_git (gh_cmd p a)" "\<not> is_ready (git_cmd p a)"
  by (simp_all add: is_git_def is_ready_def git_cmd_def gh_cmd_def)

text \<open>A plain command: one that git runs, or a \<open>gh\<close> command other than a promotion.\<close>

definition tame :: "cmd \<Rightarrow> bool" where
  "tame c = (\<not> is_ready c)"

lemma tame_cmds [simp]:
  "tame (git_cmd p a)" "tame (gh_cmd p (''auth'' # a))" "tame (gh_cmd p (''pr'' # ''create'' # a))"
  by (simp_all add: tame_def is_ready_def git_cmd_def gh_cmd_def)

lemma run_cmd_snd [simp]: "snd (run_cmd sh c l) = l @ [c]"
  by (simp add: run_cmd_def)

lemma must_log [simp]: "snd (must sh what c l) = l @ [c]"
  by (simp add: must_def run_cmd_def split: prod.split)

lemma must_ok: "fst (must sh what c l) = Inr r \<Longrightarrow> fst (sh l c) = 0"
  by (auto simp: must_def run_cmd_def split: prod.splits if_splits)

lemma probe_log [simp]: "snd (probe_text sh p a l) = l @ [git_cmd p a]"
  by (simp add: probe_text_def run_cmd_def split: prod.split)

lemma git_commit_grows [grow]: "grows tame l (snd (git_commit sh path msg author l))"
proof -
  have snoc: "grows tame l (l @ [c])" if "tame c" for c l using that by (simp add: grows_def)
  note step = grows_trans [OF _ snoc]
  have s: "grows tame l (snd (stage_all sh path l))"
    by (simp add: stage_all_def run_cmd_def snoc split: prod.split)
  show ?thesis
  proof (cases "stage_all sh path l")
    case (Pair r l1)
    with s have l1: "grows tame l l1" by simp
    show ?thesis
    proof (cases r)
      case (Inr u)
      obtain rc o1 e1 where rc: "sh l1 (git_cmd path [''diff'', ''--cached'', ''--quiet'']) = (rc, o1, e1)" by (metis prod_cases3)
      let ?l2 = "l1 @ [git_cmd path [''diff'', ''--cached'', ''--quiet'']]"
      have l2: "grows tame l ?l2" by (rule step [OF l1]) simp
      define pre where "pre = (case author of None \<Rightarrow> []
                     | Some (n, m) \<Rightarrow> if n \<noteq> [] \<and> m \<noteq> [] then [''-c'', ''user.name='' @ n, ''-c'', ''user.email='' @ m] else [])"
      let ?c = "git_cmd path (pre @ [''commit'', ''-m'', msg])"
      have l3: "grows tame l (?l2 @ [?c])" by (rule step [OF l2]) simp
      have l4: "grows tame l ((?l2 @ [?c]) @ [git_cmd path [''rev-parse'', ''HEAD'']])" by (rule step [OF l3]) simp
      obtain x l3' where m: "must sh ''git commit'' ?c ?l2 = (x, l3')" by (cases "must sh ''git commit'' ?c ?l2")
      then have l3': "l3' = ?l2 @ [?c]" using must_log [of sh "''git commit''" ?c ?l2] by simp
      have "snd (head_sha sh path l3') = l3' @ [git_cmd path [''rev-parse'', ''HEAD'']]" by (simp add: head_sha_def)
      then show ?thesis
        using Pair Inr rc m l2 l3 l4 l3'
        by (auto simp: git_commit_def run_cmd_def pre_def [symmetric] Let_def split: sum.split prod.split)
    qed (use Pair l1 in \<open>simp add: git_commit_def\<close>)
  qed
qed

lemma on_log_D:
  assumes "on_log m w = (x, w1)"
  shows "pw_saved w1 = pw_saved w" "pw_log w1 = snd (m (pw_log w))" "x = fst (m (pw_log w))"
  using assms by (auto simp: on_log_def split: prod.splits)

section \<open>The pieces of the end of a run\<close>

lemma sweep_facts:
  assumes "sweep sh fi s w = (r, w1)"
  shows "pw_saved w1 = pw_saved w" "grows tame (pw_log w) (pw_log w1)"
    "\<And>s0. r = Inr s0 \<Longrightarrow> \<exists>cs. s0 = s\<lparr>ps_commits := ps_commits s @ cs\<rparr>"
proof -
  let ?m = "git_commit sh (fi_worktree fi) (''agentorch '' @ fi_run_id fi @ '': '' @ take 72 (py_strip (fi_instruction fi))) None"
  obtain x w2 where x: "on_log ?m w = (x, w2)" by (cases "on_log ?m w")
  have w2: "w1 = w2" using assms x by (auto simp: sweep_def Let_def split: sum.splits)
  show "pw_saved w1 = pw_saved w" using on_log_D(1) [OF x] w2 by (simp only:)
  show "grows tame (pw_log w) (pw_log w1)" unfolding w2 on_log_D(2) [OF x] by (rule git_commit_grows)
  show "\<exists>cs. s0 = s\<lparr>ps_commits := ps_commits s @ cs\<rparr>" if "r = Inr s0" for s0
    using assms x that by (auto simp: sweep_def Let_def split: sum.splits option.splits intro: exI [of _ "[]"])
qed

text \<open>The branch has been pushed: the command is in the log and succeeded there.\<close>

definition pushed :: "shell \<Rightarrow> string \<Rightarrow> string \<Rightarrow> cmd list \<Rightarrow> bool" where
  "pushed sh repo branch l = (\<exists>l0. prefix (l0 @ [push_cmd repo branch]) l \<and> fst (sh l0 (push_cmd repo branch)) = 0)"

lemma pushed_grows: "pushed sh repo branch l \<Longrightarrow> grows P l l' \<Longrightarrow> pushed sh repo branch l'"
  unfolding pushed_def using grows_prefix prefix_order.trans by blast

lemma has_remote_log: "snd (has_remote sh p r l) = l @ [git_cmd p [''remote'']]"
  by (simp add: has_remote_def run_cmd_def split: prod.split)

lemma try_push_facts:
  assumes "try_push sh fi s w = (ok, w1)"
  shows "pw_saved w1 = pw_saved w" "grows tame (pw_log w) (pw_log w1)"
    "ok \<Longrightarrow> pushed sh (fi_repo fi) (ps_temp_branch s) (pw_log w1)"
proof -
  let ?h = "has_remote sh (fi_repo fi) None" and ?p = "git_push sh (fi_repo fi) (ps_temp_branch s)"
  obtain b w2 where b: "on_log ?h w = (b, w2)" by (cases "on_log ?h w")
  obtain x w3 where x: "on_log ?p w2 = (x, w3)" by (cases "on_log ?p w2")
  have w2: "pw_saved w2 = pw_saved w" "pw_log w2 = pw_log w @ [git_cmd (fi_repo fi) [''remote'']]"
    using on_log_D [OF b] by (simp_all add: has_remote_log)
  have w3: "pw_saved w3 = pw_saved w2" "pw_log w3 = pw_log w2 @ [push_cmd (fi_repo fi) (ps_temp_branch s)]" "x = fst (?p (pw_log w2))"
    using on_log_D [OF x] by (simp_all add: git_push_def)
  have cases: "(ok, w1) = (if \<not> b then (False, w2) else (case x of Inl _ \<Rightarrow> False | Inr _ \<Rightarrow> True, w3))"
    using assms b x by (auto simp: try_push_def split: sum.splits bool.splits)
  have t: "tame (push_cmd (fi_repo fi) (ps_temp_branch s))" by (simp add: push_cmd_def)
  show "pw_saved w1 = pw_saved w" using cases w2 w3 by (auto split: if_splits)
  show "grows tame (pw_log w) (pw_log w1)" using cases w2 w3 t by (auto simp: grows_def split: if_splits)
  show "pushed sh (fi_repo fi) (ps_temp_branch s) (pw_log w1)" if k: ok
  proof -
    obtain r where "x = Inr r" using cases k by (auto split: if_splits sum.splits)
    then have "fst (sh (pw_log w2) (push_cmd (fi_repo fi) (ps_temp_branch s))) = 0" using w3(3) must_ok by (metis git_push_def)
    moreover have "w1 = w3" using cases k by (auto split: if_splits)
    ultimately show ?thesis using w3(2) unfolding pushed_def by (intro exI [of _ "pw_log w2"]) simp
  qed
qed

text \<open>What a piece leaves of a session, and what it adds to the log: a promotion needs a run that succeeded and
  verified.\<close>

definition earned :: "finish \<Rightarrow> bool" where
  "earned fi = (fi_success fi \<and> fi_verified fi)"

definition fair_step :: "finish \<Rightarrow> pr_session \<Rightarrow> pr_world \<Rightarrow> pr_session \<Rightarrow> pr_world \<Rightarrow> bool" where
  "fair_step fi s w s1 w1 =
     (ps_commits s1 = ps_commits s \<and> ps_verified s1 = ps_verified s \<and> ps_temp_branch s1 = ps_temp_branch s
      \<and> grows (\<lambda>c. tame c \<or> earned fi) (pw_log w) (pw_log w1)
      \<and> (ps_draft s1 = ps_draft s \<or> ps_draft s1 \<or> earned fi))"

lemma tame_any: "grows tame l l' \<Longrightarrow> grows (\<lambda>c. tame c \<or> earned fi) l l'"
  by (erule grows_mono) simp

lemma fair_step_trans: "fair_step fi a u b v \<Longrightarrow> fair_step fi b v c x \<Longrightarrow> fair_step fi a u c x"
  by (auto simp: fair_step_def intro: grows_trans)

lemma promote_facts:
  assumes "promote sh fi n s w = (s1, w1)" "earned fi"
  shows "pw_saved w1 = pw_saved w" "fair_step fi s w s1 w1" "ps_pr_url s1 = ps_pr_url s" "ps_pr_number s1 = ps_pr_number s"
proof -
  let ?m = "mark_ready sh (fi_repo fi) (show_int n)"
  obtain x w2 where x: "on_log ?m w = (x, w2)" by (cases "on_log ?m w")
  have w2: "pw_saved w2 = pw_saved w" "pw_log w2 = pw_log w @ [ready_cmd (fi_repo fi) (show_int n)]"
    using on_log_D [OF x] by (simp_all add: mark_ready_def)
  have "(s1, w1) = (case x of Inl _ \<Rightarrow> s | Inr _ \<Rightarrow> s\<lparr>ps_draft := False\<rparr>, w2)"
    using assms(1) x by (auto simp: promote_def split: sum.splits)
  then show "pw_saved w1 = pw_saved w" "fair_step fi s w s1 w1" "ps_pr_url s1 = ps_pr_url s" "ps_pr_number s1 = ps_pr_number s"
    using w2 assms(2) by (auto simp: fair_step_def grows_def split: sum.splits)
qed

lemma save_and_drop_facts:
  assumes "save_and_drop sh repo wt s w = (s1, w1)"
  shows "s1 = s" "pw_saved w1 = pw_saved w @ [s]" "grows tame (pw_log w) (pw_log w1)"
    "pw_log w1 = pw_log w @ [git_cmd repo [''worktree'', ''remove'', ''--force'', wt], git_cmd repo [''worktree'', ''prune'']]"
  using assms by (auto simp: save_and_drop_def drop_worktree_def save_session_def remove_worktree_def grows_def)

lemma update_pr_facts:
  assumes "update_pr sh fi s w = (s1, w1)"
  shows "pw_saved w1 = pw_saved w @ [s1]" "fair_step fi s w s1 w1" "ps_status s1 = ''awaiting_decision''"
    "ps_pr_url s1 = ps_pr_url s" "ps_pr_number s1 = ps_pr_number s"
proof -
  define a where "a = (case ps_pr_number s of
      Some n \<Rightarrow> if fi_success fi \<and> fi_verified fi \<and> ps_draft s then promote sh fi n s w else (s, w) | None \<Rightarrow> (s, w))"
  obtain s2 w2 where a2: "a = (s2, w2)" by (cases a)
  have refl: "fair_step fi s w s w" by (simp add: fair_step_def grows_refl)
  have f: "pw_saved w2 = pw_saved w \<and> fair_step fi s w s2 w2 \<and> ps_pr_url s2 = ps_pr_url s \<and> ps_pr_number s2 = ps_pr_number s"
  proof (cases "\<exists>n. ps_pr_number s = Some n \<and> earned fi \<and> ps_draft s")
    case True
    then obtain n where "promote sh fi n s w = (s2, w2)" "earned fi"
      using a2 by (auto simp: a_def earned_def)
    from promote_facts [OF this] show ?thesis by simp
  next
    case False
    then have "(s2, w2) = (s, w)" using a2 by (auto simp: a_def earned_def split: option.splits if_splits)
    then show ?thesis using refl by simp
  qed
  have u: "save_and_drop sh (fi_repo fi) (fi_worktree fi) (s2\<lparr>ps_status := ''awaiting_decision''\<rparr>) w2 = (s1, w1)"
    using assms a2 unfolding update_pr_def a_def [symmetric] by simp
  note d = save_and_drop_facts [OF u]
  show "pw_saved w1 = pw_saved w @ [s1]" "ps_status s1 = ''awaiting_decision''"
    "ps_pr_url s1 = ps_pr_url s" "ps_pr_number s1 = ps_pr_number s" using d f by simp_all
  have "fair_step fi s2 w2 s1 w1" using d(1) tame_any [OF d(3)] by (simp add: fair_step_def)
  then show "fair_step fi s w s1 w1" using f fair_step_trans by blast
qed

lemma gh_authed_grows: "grows tame l (snd (gh_authed on_path sh p l))"
  by (simp add: gh_authed_def run_cmd_def grows_def split: prod.split)

lemma create_pr_grows: "grows tame l (snd (create_pr sh p base head title body draft l))"
proof -
  let ?c = "gh_cmd p ([''pr'', ''create'', ''--base'', base, ''--head'', head, ''--title'', title, ''--body'', body] @ (if draft then [''--draft''] else []))"
  obtain x l1 where m: "must sh ''gh pr create'' ?c l = (x, l1)" by (cases "must sh ''gh pr create'' ?c l")
  then have "l1 = l @ [?c]" using must_log [of sh "''gh pr create''" ?c l] by simp
  then have "snd (create_pr sh p base head title body draft l) = l @ [?c]"
    using m by (auto simp: create_pr_def Let_def split: sum.split)
  then show ?thesis by (simp add: grows_def)
qed

lemma open_pr_facts:
  assumes "open_pr sh fi s w = (s1, w1)"
  shows "pw_saved w1 = pw_saved w" "fair_step fi s w s1 w1"
    "ps_status s1 = ''pushed_no_pr'' \<and> ps_pr_number s1 = ps_pr_number s \<and> ps_pr_url s1 = ps_pr_url s
      \<or> ps_status s1 = ''awaiting_decision'' \<and> truthy_str (ps_pr_url s1) \<noteq> None"
proof -
  let ?g = "gh_authed (fi_gh_on_path fi) sh (fi_repo fi)"
  let ?c = "create_pr sh (fi_repo fi) (ps_base_branch s) (ps_temp_branch s) (''[agentorch] '' @ take 64 (py_strip (fi_instruction fi))) (fi_body fi) True"
  obtain b w2 where b: "on_log ?g w = (b, w2)" by (cases "on_log ?g w")
  obtain x w3 where x: "on_log ?c w2 = (x, w3)" by (cases "on_log ?c w2")
  have w2: "pw_saved w2 = pw_saved w" "grows tame (pw_log w) (pw_log w2)"
    using on_log_D [OF b] gh_authed_grows by (simp_all only:)
  have w3: "pw_saved w3 = pw_saved w2" "grows tame (pw_log w2) (pw_log w3)"
    using on_log_D [OF x] create_pr_grows by (simp_all only:)
  have url: "x = Inr (url, number) \<Longrightarrow> url \<noteq> []" for url number
    using on_log_D(3) [OF x] by (auto simp: create_pr_def Let_def split: prod.splits sum.splits if_splits)
  have w3': "grows tame (pw_log w) (pw_log w3)" using w2 w3 grows_trans by blast
  consider "\<not> b" "(s1, w1) = (s\<lparr>ps_status := ''pushed_no_pr''\<rparr>, w2)"
    | e where "b" "x = Inl e" "(s1, w1) = (s\<lparr>ps_status := ''pushed_no_pr''\<rparr>, w3)"
    | url number where "b" "x = Inr (url, number)" by (cases b; cases x) (use assms b x in \<open>auto simp: open_pr_def Let_def\<close>)
  then have "pw_saved w1 = pw_saved w \<and> fair_step fi s w s1 w1
    \<and> (ps_status s1 = ''pushed_no_pr'' \<and> ps_pr_number s1 = ps_pr_number s \<and> ps_pr_url s1 = ps_pr_url s
      \<or> ps_status s1 = ''awaiting_decision'' \<and> truthy_str (ps_pr_url s1) \<noteq> None)"
  proof cases
    case 1
    then show ?thesis using w2 tame_any by (simp add: fair_step_def)
  next
    case 2
    then show ?thesis using w2 w3 w3' tame_any by (simp add: fair_step_def)
  next
    case 3
    define s2 where "s2 = s\<lparr>ps_pr_url := Some url, ps_pr_number := map_option int number, ps_draft := True\<rparr>"
    define r where "r = (case number of
        Some n \<Rightarrow> if fi_success fi \<and> fi_verified fi then promote sh fi (int n) s2 w3 else (s2, w3) | None \<Rightarrow> (s2, w3))"
    have s1: "(s1, w1) = ((fst r)\<lparr>ps_status := ''awaiting_decision''\<rparr>, snd r)"
      using assms b x 3 unfolding open_pr_def Let_def r_def s2_def by simp
    have f2: "fair_step fi s w s2 w3" using w3' tame_any by (simp add: fair_step_def s2_def)
    have "pw_saved (snd r) = pw_saved w3 \<and> fair_step fi s2 w3 (fst r) (snd r) \<and> ps_pr_url (fst r) = ps_pr_url s2"
    proof (cases "\<exists>n. number = Some n \<and> earned fi")
      case True
      then obtain n where "promote sh fi (int n) s2 w3 = (fst r, snd r)" "earned fi" by (auto simp: r_def earned_def)
      from promote_facts [OF this] show ?thesis by simp
    next
      case False
      then have "r = (s2, w3)" by (auto simp: r_def earned_def split: option.splits)
      then show ?thesis by (simp add: fair_step_def grows_refl)
    qed
    moreover have "fair_step fi (fst r) (snd r) s1 w1" using s1 by (simp add: fair_step_def grows_refl)
    ultimately show ?thesis using s1 f2 w2 w3 fair_step_trans [OF fair_step_trans [OF f2]] url [OF 3(2)] by (auto simp: s2_def truthy_str_def)
  qed
  then show "pw_saved w1 = pw_saved w" "fair_step fi s w s1 w1"
    "ps_status s1 = ''pushed_no_pr'' \<and> ps_pr_number s1 = ps_pr_number s \<and> ps_pr_url s1 = ps_pr_url s
      \<or> ps_status s1 = ''awaiting_decision'' \<and> truthy_str (ps_pr_url s1) \<noteq> None" by auto
qed

section \<open>Properties\<close>

text \<open>What \<open>finalize_git_pr\<close> leaves, in one case analysis.\<close>

lemma finalize_cases:
  assumes "finalize_git_pr sh fi s w = (s', w')"
  obtains
    (failed) "ps_status s' = ''error''" "pw_saved w' = pw_saved w @ [s']" "grows tame (pw_log w) (pw_log w')"
      "ps_draft s' = ps_draft s" "ps_verified s' = fi_verified fi"
  | (local) "ps_status s' = (if ps_commits s' = [] then ''no_changes'' else ''branch_ready'')" "pw_saved w' = pw_saved w @ [s']"
      "grows tame (pw_log w) (pw_log w')" "ps_draft s' = ps_draft s" "ps_verified s' = fi_verified fi"
  | (remote) "ps_status s' = ''pushed_no_pr'' \<or> ps_status s' = ''awaiting_decision'' \<and> (ps_pr_number s' \<noteq> None \<or> ps_pr_url s' \<noteq> None)"
      "pw_saved w' = pw_saved w @ [s']" "grows (\<lambda>c. tame c \<or> earned fi) (pw_log w) (pw_log w')"
      "ps_draft s' = ps_draft s \<or> ps_draft s' \<or> earned fi" "ps_verified s' = fi_verified fi" "ps_commits s' \<noteq> []"
      "pushed sh (fi_repo fi) (ps_temp_branch s') (pw_log w')"
proof -
  obtain r w1 where r: "sweep sh fi s w = (r, w1)" by (cases "sweep sh fi s w")
  note sw = sweep_facts [OF r]
  show thesis
  proof (cases r)
    case (Inl e)
    then show thesis using assms r sw by (intro failed) (auto simp: finalize_git_pr_def save_session_def Let_def)
  next
    case (Inr s0)
    obtain cs where cs: "s0 = s\<lparr>ps_commits := ps_commits s @ cs\<rparr>" using sw(3) [OF Inr] by blast
    define s1 where "s1 = s0\<lparr>ps_verified := fi_verified fi\<rparr>"
    have d1: "ps_draft s1 = ps_draft s" using cs by (simp add: s1_def)
    have fin: "finalize_git_pr sh fi s w = (if ps_commits s1 = [] then save_and_drop sh (fi_repo fi) (fi_worktree fi) (s1\<lparr>ps_status := ''no_changes''\<rparr>) w1
       else case try_push sh fi s1 w1 of
         (False, w2) \<Rightarrow> save_and_drop sh (fi_repo fi) (fi_worktree fi) (s1\<lparr>ps_status := ''branch_ready''\<rparr>) w2
       | (True, w2) \<Rightarrow> if ps_pr_number s1 \<noteq> None \<or> truthy_str (ps_pr_url s1) \<noteq> None then update_pr sh fi s1 w2
           else case open_pr sh fi s1 w2 of (s2, w3) \<Rightarrow> save_and_drop sh (fi_repo fi) (fi_worktree fi) s2 w3)"
      unfolding finalize_git_pr_def Let_def s1_def r Inr by simp
    show thesis
    proof (cases "ps_commits s1 = []")
      case True
      then have "save_and_drop sh (fi_repo fi) (fi_worktree fi) (s1\<lparr>ps_status := ''no_changes''\<rparr>) w1 = (s', w')" using fin assms by simp
      note d = save_and_drop_facts [OF this]
      show thesis by (rule local) (use d sw d1 True grows_trans [OF sw(2) d(3)] in \<open>simp_all add: s1_def\<close>)
    next
      case False
      obtain ok w2 where p: "try_push sh fi s1 w1 = (ok, w2)" by (cases "try_push sh fi s1 w1")
      note tp = try_push_facts [OF p]
      have l2: "grows tame (pw_log w) (pw_log w2)" by (rule grows_trans [OF sw(2) tp(2)])
      show thesis
      proof (cases ok)
        case no: False
        then have "save_and_drop sh (fi_repo fi) (fi_worktree fi) (s1\<lparr>ps_status := ''branch_ready''\<rparr>) w2 = (s', w')" using fin assms p False by simp
        note d = save_and_drop_facts [OF this]
        show thesis by (rule local) (use d sw tp d1 False grows_trans [OF l2 d(3)] in \<open>simp_all add: s1_def\<close>)
      next
        case True
        have pu: "pushed sh (fi_repo fi) (ps_temp_branch s1) (pw_log w2)" by (rule tp(3) [OF True])
        have s2: "pw_saved w2 = pw_saved w" using tp(1) sw(1) by simp
        have v1: "ps_verified s1 = fi_verified fi" by (simp add: s1_def)
        show thesis
        proof (cases "ps_pr_number s1 \<noteq> None \<or> truthy_str (ps_pr_url s1) \<noteq> None")
          case True
          then have "update_pr sh fi s1 w2 = (s', w')" using fin assms p False \<open>ok\<close> by simp
          note u = update_pr_facts [OF this]
          have url: "ps_pr_number s1 \<noteq> None \<or> ps_pr_url s1 \<noteq> None" using True by (auto simp: truthy_str_def split: option.splits)
          have g: "grows (\<lambda>c. tame c \<or> earned fi) (pw_log w2) (pw_log w')" using u(2) by (simp add: fair_step_def)
          show thesis
            by (rule remote) (use u url s2 d1 v1 False pushed_grows [OF pu g] grows_trans [OF tame_any [OF l2] g] in \<open>auto simp: fair_step_def\<close>)
        next
          case no: False
          obtain s3 w3 where o3: "open_pr sh fi s1 w2 = (s3, w3)" by (cases "open_pr sh fi s1 w2")
          then have "save_and_drop sh (fi_repo fi) (fi_worktree fi) s3 w3 = (s', w')" using fin assms p False no \<open>ok\<close> by simp
          note d = save_and_drop_facts [OF this]
          note op = open_pr_facts [OF o3]
          have g: "grows (\<lambda>c. tame c \<or> earned fi) (pw_log w2) (pw_log w')"
            using op(2) tame_any [OF d(3)] grows_trans by (fastforce simp: fair_step_def)
          show thesis
            by (rule remote) (use d op s2 d1 v1 False pushed_grows [OF pu g] grows_trans [OF tame_any [OF l2] g] in \<open>auto simp: fair_step_def truthy_str_def\<close>)
        qed
      qed
    qed
  qed
qed

text \<open>What the shell answers to the final commit: a command that fails, nothing staged or a commit whose id git does not
  tell, or a commit and its id.  The commands are add, the test of the index, commit and the question for the id.\<close>

datatype swept = Sweep_failed | No_id | Commit_id string

definition sweep_cmds :: "finish \<Rightarrow> cmd list" where
  "sweep_cmds fi = map (git_cmd (fi_worktree fi))
     [[''add'', ''-A''], [''diff'', ''--cached'', ''--quiet''],
      [''commit'', ''-m'', ''agentorch '' @ fi_run_id fi @ '': '' @ take 72 (py_strip (fi_instruction fi))], [''rev-parse'', ''HEAD'']]"

definition code_of :: "shell \<Rightarrow> cmd list \<Rightarrow> cmd list \<Rightarrow> nat \<Rightarrow> int" where
  "code_of sh l cs i = fst (sh (l @ take i cs) (cs ! i))"

definition sweep_answer :: "shell \<Rightarrow> finish \<Rightarrow> cmd list \<Rightarrow> swept" where
  "sweep_answer sh fi l =
     (let cs = sweep_cmds fi; told = py_strip (fst (snd (sh (l @ take 3 cs) (cs ! 3))))
      in if code_of sh l cs 0 \<noteq> 0 then Sweep_failed
         else if code_of sh l cs 1 = 0 then No_id
         else if code_of sh l cs 2 \<noteq> 0 then Sweep_failed
         else if code_of sh l cs 3 = 0 \<and> told \<noteq> [] then Commit_id told else No_id)"

definition swept_commits :: "finish \<Rightarrow> swept \<Rightarrow> pr_commit list" where
  "swept_commits fi a =
     (case a of
        Commit_id h \<Rightarrow> [\<lparr>pc_step = PNone, pc_sha = h, pc_outcome = (if fi_verified fi then ''verified'' else ''unverified''),
          pc_title = take 72 (py_strip (fi_instruction fi))\<rparr>]
      | _ \<Rightarrow> [])"

text \<open>The branch is pushed between two states of the log; the worktree is removed by the last two commands.\<close>

definition pushed_since :: "shell \<Rightarrow> finish \<Rightarrow> string \<Rightarrow> cmd list \<Rightarrow> cmd list \<Rightarrow> bool" where
  "pushed_since sh fi branch l l' =
     (\<exists>l0. prefix l l0 \<and> prefix (l0 @ [push_cmd (fi_repo fi) branch]) l' \<and> fst (sh l0 (push_cmd (fi_repo fi) branch)) = 0)"

definition worktree_dropped :: "finish \<Rightarrow> cmd list \<Rightarrow> cmd list \<Rightarrow> bool" where
  "worktree_dropped fi l l' = (git_cmd (fi_repo fi) [''worktree'', ''remove'', ''--force'', fi_worktree fi] \<in> set (drop (length l) l'))"

lemma sweep_exact:
  assumes "sweep sh fi s w = (r, w1)"
  shows "(case r of Inl _ \<Rightarrow> sweep_answer sh fi (pw_log w) = Sweep_failed
      | Inr s0 \<Rightarrow> sweep_answer sh fi (pw_log w) \<noteq> Sweep_failed
          \<and> s0 = s\<lparr>ps_commits := ps_commits s @ swept_commits fi (sweep_answer sh fi (pw_log w))\<rparr>)
    \<and> (\<exists>n. pw_log w1 = pw_log w @ take n (sweep_cmds fi)) \<and> pw_saved w1 = pw_saved w"
proof -
  let ?p = "fi_worktree fi" and ?l = "pw_log w" and ?msg = "''agentorch '' @ fi_run_id fi @ '': '' @ take 72 (py_strip (fi_instruction fi))"
  obtain c0 c1 c2 c3 where c: "c0 = git_cmd ?p [''add'', ''-A'']" "c1 = git_cmd ?p [''diff'', ''--cached'', ''--quiet'']"
    "c2 = git_cmd ?p [''commit'', ''-m'', ?msg]" "c3 = git_cmd ?p [''rev-parse'', ''HEAD'']" by simp
  have cs: "sweep_cmds fi = [c0, c1, c2, c3]" by (simp add: sweep_cmds_def c)
  obtain r0 o0 e0 where a0: "sh ?l c0 = (r0, o0, e0)" by (metis prod_cases3)
  obtain r1 o1 e1 where a1: "sh (?l @ [c0]) c1 = (r1, o1, e1)" by (metis prod_cases3)
  obtain r2 o2 e2 where a2: "sh (?l @ [c0, c1]) c2 = (r2, o2, e2)" by (metis prod_cases3)
  obtain r3 o3 e3 where a3: "sh (?l @ [c0, c1, c2]) c3 = (r3, o3, e3)" by (metis prod_cases3)
  have ans: "sweep_answer sh fi ?l = (if r0 \<noteq> 0 then Sweep_failed else if r1 = 0 then No_id else if r2 \<noteq> 0 then Sweep_failed
      else if r3 = 0 \<and> py_strip o3 \<noteq> [] then Commit_id (py_strip o3) else No_id)"
    by (simp add: sweep_answer_def code_of_def cs Let_def a0 a1 a2 a3 numeral_2_eq_2 numeral_3_eq_3)
  have gc: "git_commit sh ?p ?msg None ?l = (if r0 \<noteq> 0 then (Inl (Cmd_failed ''git add -A'' r0 (py_strip e0)), ?l @ [c0])
      else if r1 = 0 then (Inr None, ?l @ [c0, c1])
      else if r2 \<noteq> 0 then (Inl (Cmd_failed ''git commit'' r2 (err_text o2 e2)), ?l @ [c0, c1, c2])
      else (Inr (if r3 = 0 \<and> py_strip o3 \<noteq> [] then Some (py_strip o3) else None), ?l @ [c0, c1, c2, c3]))"
    using a0 a1 a2 a3 unfolding c
    by (simp add: git_commit_def stage_all_def must_def head_sha_def probe_text_def run_cmd_def)
  have n: "\<exists>n. snd (git_commit sh ?p ?msg None ?l) = ?l @ take n (sweep_cmds fi)"
    unfolding gc cs by (rule exI [of _ "if r0 \<noteq> 0 then 1 else if r1 = 0 then 2 else if r2 \<noteq> 0 then 3 else 4"]) (simp add: eval_nat_numeral)
  define g where "g = git_commit sh ?p ?msg None ?l"
  have sw: "sweep sh fi s w = (case g of (Inl e, l1) \<Rightarrow> (Inl e, w\<lparr>pw_log := l1\<rparr>)
      | (Inr sha, l1) \<Rightarrow> (Inr (case truthy_str sha of None \<Rightarrow> s
          | Some h \<Rightarrow> s\<lparr>ps_commits := ps_commits s @ [\<lparr>pc_step = PNone, pc_sha = h,
              pc_outcome = (if fi_verified fi then ''verified'' else ''unverified''), pc_title = take 72 (py_strip (fi_instruction fi))\<rparr>]\<rparr>), w\<lparr>pw_log := l1\<rparr>))"
    unfolding g_def sweep_def Let_def on_log_def by (simp split: prod.split sum.split)
  have log: "pw_log w1 = snd g \<and> pw_saved w1 = pw_saved w" using assms unfolding sw by (auto split: prod.splits sum.splits)
  have "case r of Inl _ \<Rightarrow> sweep_answer sh fi ?l = Sweep_failed
      | Inr s0 \<Rightarrow> sweep_answer sh fi ?l \<noteq> Sweep_failed \<and> s0 = s\<lparr>ps_commits := ps_commits s @ swept_commits fi (sweep_answer sh fi ?l)\<rparr>"
    using assms unfolding sw g_def gc ans by (auto simp: swept_commits_def truthy_str_def split: if_splits)
  with log n show ?thesis unfolding g_def by simp
qed

lemma pushed_since_later: "pushed_since sh fi b l1 l2 \<Longrightarrow> prefix l l1 \<Longrightarrow> prefix l2 l3 \<Longrightarrow> pushed_since sh fi b l l3"
  unfolding pushed_since_def using prefix_order.trans by blast

lemma pushed_since_split:
  assumes "pushed_since sh fi b l l3" "prefix l l2" "prefix l2 l3"
  shows "pushed_since sh fi b l l2 \<or> pushed_since sh fi b l2 l3"
proof -
  let ?p = "push_cmd (fi_repo fi) b"
  obtain l0 where l0: "prefix l l0" "prefix (l0 @ [?p]) l3" "fst (sh l0 ?p) = 0" using assms(1) by (auto simp: pushed_since_def)
  from prefix_same_cases [OF l0(2) assms(3)] have "prefix (l0 @ [?p]) l2 \<or> prefix l2 l0" by (auto simp: prefix_snoc)
  with l0 show ?thesis unfolding pushed_since_def by blast
qed

lemma no_push: "push_cmd (fi_repo fi) b \<notin> set cs \<Longrightarrow> \<not> pushed_since sh fi b l (l @ cs)"
proof
  assume "push_cmd (fi_repo fi) b \<notin> set cs" "pushed_since sh fi b l (l @ cs)"
  then obtain l0 where l0: "prefix l l0" "prefix (l0 @ [push_cmd (fi_repo fi) b]) (l @ cs)" by (auto simp: pushed_since_def)
  then have "push_cmd (fi_repo fi) b \<in> set cs" by (auto simp: prefix_def)
  with \<open>push_cmd (fi_repo fi) b \<notin> set cs\<close> show False by simp
qed

lemma push_is_not:
  "push_cmd p b \<notin> set (take n (sweep_cmds fi))" "push_cmd p b \<noteq> git_cmd q [''remote'']" "push_cmd p b \<noteq> git_cmd q (''worktree'' # as)"
  "git_cmd q [''worktree'', ''remove'', ''--force'', x] \<notin> set (take n (sweep_cmds fi))"
  by (auto simp: push_cmd_def git_cmd_def sweep_cmds_def dest!: in_set_takeD)

lemma try_push_exact:
  assumes "try_push sh fi s w = (ok, w1)"
  shows "ok = pushed_since sh fi (ps_temp_branch s) (pw_log w) (pw_log w1)"
proof -
  let ?b = "ps_temp_branch s" and ?c = "git_cmd (fi_repo fi) [''remote'']" and ?p = "push_cmd (fi_repo fi) (ps_temp_branch s)"
  have none: "\<not> pushed_since sh fi ?b l (l @ [?c])" for l by (rule no_push) (simp add: push_is_not)
  have one: "pushed_since sh fi ?b l (l @ [?p]) = (fst (sh l ?p) = 0)" for l
  proof
    assume "pushed_since sh fi ?b l (l @ [?p])"
    then obtain l0 where l0: "prefix l l0" "prefix (l0 @ [?p]) (l @ [?p])" "fst (sh l0 ?p) = 0" by (auto simp: pushed_since_def)
    then have "length l0 \<le> length l" "length l \<le> length l0" using prefix_length_le by fastforce+
    with l0(1) have "l0 = l" by (auto simp: prefix_def)
    with l0(3) show "fst (sh l ?p) = 0" by simp
  qed (auto simp: pushed_since_def)
  have both: "pushed_since sh fi ?b l ((l @ [?c]) @ [?p]) = (fst (sh (l @ [?c]) ?p) = 0)" for l
    using pushed_since_split [of sh fi ?b l "(l @ [?c]) @ [?p]" "l @ [?c]"] none [of l] one [of "l @ [?c]"]
      pushed_since_later [of sh fi ?b "l @ [?c]" "(l @ [?c]) @ [?p]" l "(l @ [?c]) @ [?p]"] by auto
  let ?l = "pw_log w"
  obtain rc out err where a: "sh ?l ?c = (rc, out, err)" by (metis prod_cases3)
  obtain pc po pe where q: "sh (?l @ [?c]) ?p = (pc, po, pe)" by (metis prod_cases3)
  have "(ok, pw_log w1) = (if rc = 0 \<and> py_words [] out \<noteq> [] then (pc = 0, (?l @ [?c]) @ [?p]) else (False, ?l @ [?c]))"
    using assms a q by (auto simp: try_push_def on_log_def has_remote_def run_cmd_def git_push_def must_def split: if_splits)
  then show ?thesis using both [of ?l] none [of ?l] q by (auto split: if_splits)
qed

lemma dropped_at_the_end:
  "save_and_drop sh (fi_repo fi) (fi_worktree fi) s w = (s1, w1) \<Longrightarrow> prefix l (pw_log w) \<Longrightarrow> worktree_dropped fi l (pw_log w1)"
  by (drule save_and_drop_facts(4)) (auto simp: worktree_dropped_def prefix_def)

lemma update_pr_drops:
  assumes "update_pr sh fi s w = (s1, w1)" "prefix l (pw_log w)"
  shows "worktree_dropped fi l (pw_log w1)"
proof -
  define a where "a = (case ps_pr_number s of
      Some n \<Rightarrow> if fi_success fi \<and> fi_verified fi \<and> ps_draft s then promote sh fi n s w else (s, w) | None \<Rightarrow> (s, w))"
  obtain s2 w2 where a2: "a = (s2, w2)" by (cases a)
  have "snd (promote sh fi n s w) = w\<lparr>pw_log := pw_log w @ [ready_cmd (fi_repo fi) (show_int n)]\<rparr>" for n
    by (simp add: promote_def on_log_def mark_ready_def must_def run_cmd_def split: prod.split sum.split)
  then have logged: "promote sh fi n s w = (s2, w2) \<Longrightarrow> pw_log w2 = pw_log w @ [ready_cmd (fi_repo fi) (show_int n)]" for n
    by (metis (no_types, lifting) pr_world.select_convs(1) pr_world.surjective pr_world.update_convs(1) snd_conv)
  have "prefix l (pw_log w2)" using a2 assms(2) unfolding a_def by (auto split: option.splits if_splits dest!: logged)
  moreover have "save_and_drop sh (fi_repo fi) (fi_worktree fi) (s2\<lparr>ps_status := ''awaiting_decision''\<rparr>) w2 = (s1, w1)"
    using assms(1) a2 unfolding update_pr_def a_def [symmetric] by simp
  ultimately show ?thesis using dropped_at_the_end by blast
qed



text \<open>C31: no promotion is unearned: unless the run succeeded and verified, no \<open>gh pr ready\<close> is issued and a session that
  was a draft stays one.\<close>

theorem no_unearned_promotion:
  assumes "finalize_git_pr sh fi s w = (s', w')" "\<not> (fi_success fi \<and> fi_verified fi)"
  shows "(\<exists>cs. pw_log w' = pw_log w @ cs \<and> list_all (\<lambda>c. \<not> is_ready c) cs) \<and> (ps_draft s \<longrightarrow> ps_draft s')"
proof -
  have "\<not> earned fi" using assms(2) by (simp add: earned_def)
  then have "grows tame (pw_log w) (pw_log w') \<and> (ps_draft s \<longrightarrow> ps_draft s')"
    by (cases rule: finalize_cases [OF assms(1)]) auto
  moreover have "tame = (\<lambda>c. \<not> is_ready c)" by (rule ext) (simp add: tame_def)
  ultimately show ?thesis by (simp add: grows_def)
qed

text \<open>A shell for the witnesses: \<open>gh pr create\<close> prints a URL, the index has changes, everything succeeds.\<close>

definition good_shell :: shell where
  "good_shell l c =
     (if ''diff'' \<in> set (snd c) then (1, [], [])
      else if ''create'' \<in> set (snd c) then (0, ''https://github.com/o/r/pull/7'', [])
      else if ''remote'' \<in> set (snd c) then (0, ''origin'', [])
      else (0, ''abc'', []))"

definition sample_finish :: "bool \<Rightarrow> finish" where
  "sample_finish v = \<lparr>fi_worktree = ''wt'', fi_repo = ''repo'', fi_run_id = ''r1'', fi_instruction = ''fix it'', fi_verified = v,
     fi_success = v, fi_body = [], fi_gh_on_path = True\<rparr>"

definition sample_session :: "bool \<Rightarrow> int option \<Rightarrow> pr_session" where
  "sample_session draft number = \<lparr>ps_run_id = ''r1'', ps_base_branch = ''main'', ps_temp_branch = ''agentorch/r1'', ps_base_sha = ''0'',
     ps_work_dir = ''wt'', ps_target_repo = ''repo'', ps_status = ''running'', ps_pr_url = None, ps_pr_number = number,
     ps_draft = draft, ps_verified = \<not> draft, ps_decision = None, ps_parent = None, ps_runs = [''r1''], ps_commits = []\<rparr>"

definition empty_world :: pr_world where
  "empty_world = \<lparr>pw_log = [], pw_saved = []\<rparr>"

lemma sample_run:
  "ps_status (fst (finalize_git_pr good_shell (sample_finish True) (sample_session True None) empty_world)) = ''awaiting_decision''"
  "ps_draft (fst (finalize_git_pr good_shell (sample_finish True) (sample_session True None) empty_world)) = False"
  "ps_pr_number (fst (finalize_git_pr good_shell (sample_finish True) (sample_session True None) empty_world)) = Some 7"
  by code_simp+

text \<open>A corrective run that fails leaves an earlier promotion in place: its unverified commits are pushed to a pull request
  that is marked ready.\<close>

lemma stale_promotion:
  "ps_draft (fst (finalize_git_pr good_shell (sample_finish False) (sample_session False (Some 7)) empty_world)) = False
   \<and> ps_verified (fst (finalize_git_pr good_shell (sample_finish False) (sample_session False (Some 7)) empty_world)) = False
   \<and> map pc_outcome (ps_commits (fst (finalize_git_pr good_shell (sample_finish False) (sample_session False (Some 7)) empty_world))) = [''unverified'']"
  by (intro conjI) code_simp+


theorem no_unearned_promotion_witness:
  "ps_draft (fst (finalize_git_pr good_shell (sample_finish False) (sample_session True None) empty_world))"
proof -
  obtain s' w' where f: "finalize_git_pr good_shell (sample_finish False) (sample_session True None) empty_world = (s', w')"
    by (cases "finalize_git_pr good_shell (sample_finish False) (sample_session True None) empty_world")
  have "\<not> (fi_success (sample_finish False) \<and> fi_verified (sample_finish False))" "ps_draft (sample_session True None)"
    by (simp_all add: sample_finish_def sample_session_def)
  with no_unearned_promotion [OF f] show ?thesis using f by simp
qed

section \<open>The start\<close>

definition no_worktree :: "cmd \<Rightarrow> bool" where
  "no_worktree c = (''worktree'' \<notin> set (drop 3 (snd c)))"

lemma probes_grow:
  "grows no_worktree l (snd (is_git_repo is_dir sh p l))"
  "grows no_worktree l (snd (is_detached_head sh p l))"
  "grows no_worktree l (snd (has_uncommitted_changes sh p l))"
  by (auto simp: grows_def is_git_repo_def is_detached_head_def current_branch_def probe_text_def has_uncommitted_changes_def
      run_cmd_def no_worktree_def git_cmd_def split: prod.split)

text \<open>A run gets a branch of its own only in a directory that git calls a work tree, whose head is attached and whose
  status is clean; it starts as a draft with nothing committed, saved on disk.  A refusal touches no worktree and
  saves nothing.\<close>

theorem start_is_guarded:
  assumes "start_git_pr is_dir sh repo wt run_id w = (r, w')"
  shows "(case r of
       Inr s \<Rightarrow> is_dir repo \<and> ps_status s = ''running'' \<and> ps_draft s \<and> ps_commits s = [] \<and> ps_temp_branch s = branch_name_for_run run_id
          \<and> pw_saved w' = pw_saved w @ [s]
          \<and> (\<exists>l. \<not> fst (is_detached_head sh repo l)) \<and> (\<exists>l. \<not> fst (has_uncommitted_changes sh repo l))
     | Inl (Worktree_failed e) \<Rightarrow> pw_saved w' = pw_saved w
     | Inl _ \<Rightarrow> pw_saved w' = pw_saved w \<and> grows no_worktree (pw_log w) (pw_log w'))"
proof -
  obtain b1 w1 where 1: "on_log (is_git_repo is_dir sh repo) w = (b1, w1)" by (cases "on_log (is_git_repo is_dir sh repo) w")
  obtain b2 w2 where 2: "on_log (is_detached_head sh repo) w1 = (b2, w2)" by (cases "on_log (is_detached_head sh repo) w1")
  obtain b3 w3 where 3: "on_log (has_uncommitted_changes sh repo) w2 = (b3, w3)" by (cases "on_log (has_uncommitted_changes sh repo) w2")
  obtain b4 w4 where 4: "on_log (current_branch sh repo) w3 = (b4, w4)" by (cases "on_log (current_branch sh repo) w3")
  obtain b5 w5 where 5: "on_log (head_sha sh repo) w4 = (b5, w5)" by (cases "on_log (head_sha sh repo) w4")
  obtain b6 w6 where 6: "on_log (add_worktree sh repo wt (branch_name_for_run run_id) b5 True) w5 = (b6, w6)"
    by (cases "on_log (add_worktree sh repo wt (branch_name_for_run run_id) b5 True) w5")
  note logs = on_log_D(2) [OF 1] on_log_D(2) [OF 2] on_log_D(2) [OF 3]
  note saved = on_log_D(1) [OF 1] on_log_D(1) [OF 2] on_log_D(1) [OF 3] on_log_D(1) [OF 4] on_log_D(1) [OF 5] on_log_D(1) [OF 6]
  have g1: "grows no_worktree (pw_log w) (pw_log w1)" using probes_grow(1) logs(1) by metis
  have g2: "grows no_worktree (pw_log w) (pw_log w2)" using grows_trans [OF g1] probes_grow(2) logs(2) by metis
  have g3: "grows no_worktree (pw_log w) (pw_log w3)" using grows_trans [OF g2] probes_grow(3) logs(3) by metis
  note eq = assms [unfolded start_git_pr_def 1 prod.case]
  show ?thesis
  proof (cases b1)
    case False
    then show ?thesis using eq g1 saved by auto
  next
    case b1: True
    have d: "is_dir repo" using on_log_D(3) [OF 1] b1 by (auto simp: is_git_repo_def split: if_splits)
    show ?thesis
    proof (cases b2)
      case True
      then show ?thesis using eq b1 2 g2 saved by auto
    next
      case b2: False
      show ?thesis
      proof (cases b3)
        case True
        then show ?thesis using eq b1 b2 2 3 g3 saved by auto
      next
        case b3: False
        have "\<exists>l. \<not> fst (is_detached_head sh repo l)" "\<exists>l. \<not> fst (has_uncommitted_changes sh repo l)"
          using on_log_D(3) [OF 2] on_log_D(3) [OF 3] b2 b3 by auto
        then show ?thesis
          using eq b1 b2 b3 2 3 4 5 6 d saved by (cases b6) (auto simp: Let_def save_session_def)
      qed
    qed
  qed
qed

theorem start_is_guarded_witness:
  "\<not> grows no_worktree [] [git_cmd ''r'' [''worktree'']] \<and>
   (case start_git_pr (\<lambda>_. True) (\<lambda>l c. (0, ''true'', [])) ''repo'' ''wt'' ''r1'' empty_world of
      (Inl _, w') \<Rightarrow> grows no_worktree [] (pw_log w') | (Inr _, w') \<Rightarrow> False)"
proof -
  obtain w' where s: "start_git_pr (\<lambda>_. True) (\<lambda>l c. (0, ''true'', [])) ''repo'' ''wt'' ''r1'' empty_world = (Inl Dirty, w')"
    by (simp add: start_git_pr_def on_log_def is_git_repo_def is_detached_head_def current_branch_def probe_text_def
        has_uncommitted_changes_def run_cmd_def py_strip_def py_lstrip_def py_space_def)
  from start_is_guarded [OF s] have "grows no_worktree [] (pw_log w')" by (simp add: empty_world_def)
  then show ?thesis using s by (simp add: grows_def no_worktree_def git_cmd_def)
qed

section \<open>Steps and decisions\<close>

text \<open>The listener commits exactly the completed steps that were verified or approved: every other event leaves
  session and world as they are, and what it records is one commit with the step's own verdict, saved on disk.\<close>

theorem only_accepted_steps_commit:
  assumes "step_commit sh rp wt event s w = (s', w')"
  shows "(s', w') = (s, w) \<or>
     (\<exists>idx tot title outcome. accepted_step event = Some (idx, tot, title, outcome) \<and> (outcome = ''verified'' \<or> outcome = ''approved'')
        \<and> (s' = s \<and> pw_saved w' = pw_saved w
           \<or> (\<exists>sha. sha \<noteq> [] \<and> s' = s\<lparr>ps_commits := ps_commits s @ [\<lparr>pc_step = idx, pc_sha = sha, pc_outcome = outcome, pc_title = title\<rparr>]\<rparr>
                 \<and> pw_saved w' = pw_saved w @ [s'])))"
proof (cases "accepted_step event")
  case None
  then show ?thesis using assms by (simp add: step_commit_def)
next
  case (Some a)
  obtain idx tot title outcome where a: "a = (idx, tot, title, outcome)" by (cases a)
  have oc: "outcome = ''verified'' \<or> outcome = ''approved''"
    using Some a by (auto simp: accepted_step_def Let_def split: if_splits pyval.splits)
  define msg where "msg = py_strip (''step '' @ py_str rp idx @ ''/'' @ py_str rp tot @ '': '' @ title @ '' ['' @ outcome @ '']'')"
  obtain x w1 where x: "on_log (git_commit sh wt msg None) w = (x, w1)" by (cases "on_log (git_commit sh wt msg None) w")
  have eq: "(s', w') = (case x of Inl _ \<Rightarrow> (s, w1) | Inr sha \<Rightarrow> (case truthy_str sha of None \<Rightarrow> (s, w1)
     | Some h \<Rightarrow> let s1 = s\<lparr>ps_commits := ps_commits s @ [\<lparr>pc_step = idx, pc_sha = h, pc_outcome = outcome, pc_title = title\<rparr>]\<rparr>
          in (s1, save_session s1 w1)))"
    using assms unfolding step_commit_def Some a option.case prod.case Let_def msg_def [symmetric] x by simp
  have "s' = s \<and> pw_saved w' = pw_saved w
      \<or> (\<exists>sha. sha \<noteq> [] \<and> s' = s\<lparr>ps_commits := ps_commits s @ [\<lparr>pc_step = idx, pc_sha = sha, pc_outcome = outcome, pc_title = title\<rparr>]\<rparr>
            \<and> pw_saved w' = pw_saved w @ [s'])"
    using eq on_log_D(1) [OF x] by (auto simp: Let_def save_session_def truthy_str_def split: sum.splits option.splits if_splits)
  then show ?thesis using Some a oc by blast
qed

definition sample_event :: pydict where
  "sample_event = [(''data'', PDict [(''event'', PStr ''orchestration_transition''),
     (''orchestration'', PDict [(''phase'', PStr ''step''), (''action'', PStr ''completed''), (''outcome'', PStr ''approved''),
        (''step_index'', PInt 2), (''step_total'', PInt 3), (''step_title'', PStr '' tidy '')])])]"

theorem only_accepted_steps_commit_witness:
  "ps_commits (fst (step_commit good_shell (\<lambda>_. []) ''wt'' sample_event (sample_session True None) empty_world))
   = [\<lparr>pc_step = PInt 2, pc_sha = ''abc'', pc_outcome = ''approved'', pc_title = ''tidy''\<rparr>]"
proof -
  obtain s' w' where f: "step_commit good_shell (\<lambda>_. []) ''wt'' sample_event (sample_session True None) empty_world = (s', w')"
    by (cases "step_commit good_shell (\<lambda>_. []) ''wt'' sample_event (sample_session True None) empty_world")
  have a: "accepted_step sample_event = Some (PInt 2, PInt 3, ''tidy'', ''approved'')" by code_simp
  have c: "map pc_sha (ps_commits (fst (step_commit good_shell (\<lambda>_. []) ''wt'' sample_event (sample_session True None) empty_world))) = [''abc'']"
    by code_simp
  have n: "ps_commits (sample_session True None) = []" by (simp add: sample_session_def)
  from only_accepted_steps_commit [OF f] a c f n show ?thesis by auto
qed

text \<open>A session is marked merged only when \<open>gh\<close> merged; abandoning always ends as abandoned, even when closing failed.\<close>

lemma decisions:
  "cmd_merge sh how del sess w = (0, w') \<Longrightarrow>
     \<exists>s pr. sess = Some s \<and> pr_ref s = Some pr \<and> how \<in> {''squash'', ''merge'', ''rebase''}
       \<and> pw_saved w' = pw_saved w @ [s\<lparr>ps_status := ''merged'', ps_decision := Some ''merge''\<rparr>]"
  "cmd_merge sh how del sess w = (1, w') \<Longrightarrow> pw_saved w' = pw_saved w"
  "cmd_abandon sh del (Some s) w = (rc, w') \<Longrightarrow>
     rc = 0 \<and> pw_saved w' = pw_saved w @ [s\<lparr>ps_status := ''abandoned'', ps_decision := Some ''abandon''\<rparr>]"
    apply (auto simp: cmd_merge_def save_session_def merge_pr_def on_log_def split: option.splits sum.splits prod.splits if_splits)[1]
   apply (auto simp: cmd_merge_def save_session_def on_log_def split: option.splits sum.splits prod.splits)[1]
  apply (auto simp: cmd_abandon_def save_session_def Let_def on_log_def split: option.splits prod.splits)
  done

end
