(* ===== verification/Dispatch.thy ===== *)
theory Dispatch
  imports Routing Path_Policy Reconcile_Parse Repair_Loops Calibration
begin

text \<open>
  What \<^verbatim>\<open>harness/dispatch.py\<close> decides around a workflow: the gates before it, the reconcile station after it, and how
  the end of the run, the path policy and the reconcile verdict become the success, the error and the records of the
  run.  The workflow, the station and the snapshot are parameters: how they ended, and which paths changed.
\<close>

section \<open>Before the run\<close>

definition resolve_reconcile_disposition :: "string option \<Rightarrow> bool \<Rightarrow> string" where
  "resolve_reconcile_disposition given_one mission_critical =
     (case given_one of None \<Rightarrow> if mission_critical then ''fail'' else ''warn'' | Some d \<Rightarrow> d)"

definition reconcile_enabled :: "bool \<Rightarrow> bool \<Rightarrow> string option \<Rightarrow> bool" where
  "reconcile_enabled reconcile mission_critical env =
     (reconcile \<or> mission_critical \<or> py_lower (case env of None \<Rightarrow> [] | Some s \<Rightarrow> s) \<in> set [''1'', ''true'', ''on''])"

definition resolve_run_stall_abort :: "rat option \<Rightarrow> bool \<Rightarrow> string option \<Rightarrow> rat option" where
  "resolve_run_stall_abort given_one mission_critical env =
     (case given_one of
        Some q \<Rightarrow> Some q
      | None \<Rightarrow>
          if \<not> mission_critical then None
          else let d = (case env of None \<Rightarrow> 1800
                  | Some s \<Rightarrow> if s = [] then 0 else (case py_float s of None \<Rightarrow> 1800 | Some q \<Rightarrow> q))
               in if d \<le> 0 then None else Some d)"

definition verifier_mem_cap :: "string option \<Rightarrow> string option \<Rightarrow> string \<Rightarrow> string option" where
  "verifier_mem_cap verifier_max worker_max mode =
     (case truthy_str verifier_max of
        Some m \<Rightarrow> Some m
      | None \<Rightarrow> if mode \<in> set [''vote'', ''tot''] then truthy_str worker_max else None)"

definition runs_baseline :: "bool \<Rightarrow> string \<Rightarrow> bool \<Rightarrow> bool" where
  "runs_baseline had_verifier mode baseline_gate = (had_verifier \<and> (mode = ''vote'' \<or> baseline_gate))"

text \<open>\<open>--notify\<close>: an address or a command; the result is the webhook and the command.\<close>

definition notify_target :: "string option \<Rightarrow> string option \<Rightarrow> string option \<times> string option" where
  "notify_target notify cmd =
     (case truthy_str notify of
        None \<Rightarrow> (None, cmd)
      | Some n \<Rightarrow>
          if prefix ''http://'' n \<or> prefix ''https://'' n then (Some n, cmd)
          else (None, case truthy_str cmd of Some c \<Rightarrow> Some c | None \<Rightarrow> Some n))"

text \<open>\<open>--plan-expect-sha\<close>: \<open>Inl\<close> is the refusal; the second component is \<open>matches_emitted\<close>.\<close>

definition check_plan_pin :: "string \<Rightarrow> string option \<Rightarrow> unit + bool option" where
  "check_plan_pin loaded_sha pin_sha =
     (case pin_sha of None \<Rightarrow> Inr None
      | Some p \<Rightarrow> if loaded_sha = py_lower (py_strip p) then Inr (Some True) else Inl ())"

section \<open>The reconcile station\<close>

definition decide_reconcile_status :: "bool \<Rightarrow> bool \<Rightarrow> bool \<Rightarrow> string \<Rightarrow> bool \<Rightarrow> string" where
  "decide_reconcile_status enabled plan_only has_output disposition verifier_green =
     (if \<not> enabled then ''skipped:not_enabled''
      else if plan_only then ''skipped:plan_only''
      else if \<not> has_output then ''skipped:no_output''
      else if disposition = ''fail'' \<and> \<not> verifier_green then ''skipped:verifier_not_green''
      else ''run'')"

definition watchdog_mark :: string where
  "watchdog_mark = ''[watchdog:''"

definition exhausted_mark :: string where
  "exhausted_mark = ''fallback attempts exhausted''"

definition detect_recon_starvation :: "string option \<Rightarrow> string \<Rightarrow> string option" where
  "detect_recon_starvation reason stderr =
     (case truthy_str reason of
        Some r \<Rightarrow> Some r
      | None \<Rightarrow>
          (case after_marker watchdog_mark stderr of
             Some rest \<Rightarrow> let slug = py_strip (takeWhile (\<lambda>c. c \<noteq> CHR '']'') rest) in Some (if slug = [] then ''watchdog'' else slug)
           | None \<Rightarrow> if py_in exhausted_mark stderr then Some ''fallback_exhausted'' else None))"

text \<open>\<open>_run_reconciliation\<close> after the station returned: a starved trace is hollow.\<close>

definition settle_station :: "string option \<Rightarrow> string \<Rightarrow> verdict \<Rightarrow> verdict" where
  "settle_station reason stderr v =
     (case detect_recon_starvation reason stderr of None \<Rightarrow> v | Some r \<Rightarrow> mark_starved r v)"

definition unmeasured_note :: string where
  "unmeasured_note = '' (load-bearing witnesses inferred, not ablated - pass --ablation-cmd to measure)''"

definition mock_hidden_note :: string where
  "mock_hidden_note = '' (a load-bearing mechanism is only mock-covered in tests, never exercised for real '' @
     ''- load-bearing claim unproven; #86)''"

definition qualifiers_of :: "pydict \<Rightarrow> string" where
  "qualifiers_of r = (if truthy (dget r ''witnesses_unmeasured'') then unmeasured_note else [])
     @ (if truthy (dget r ''mock_hidden_load_bearing'') then mock_hidden_note else [])"

text \<open>\<open>d[k] += s\<close> on a text.\<close>

definition append_text :: "string \<Rightarrow> string \<Rightarrow> pydict \<Rightarrow> pydict" where
  "append_text k s d = map (\<lambda>(k', v). (k', if k' = k then (case v of PStr t \<Rightarrow> PStr (t @ s) | _ \<Rightarrow> v) else v)) d"

definition apply_honesty_note :: "pydict \<Rightarrow> pydict \<Rightarrow> pydict \<times> pydict" where
  "apply_honesty_note r quality =
     (if qualifiers_of r = [] then (r, quality)
      else (append_text ''verdict'' (qualifiers_of r) r, append_text ''note'' (qualifiers_of r) quality))"

section \<open>Verifier telemetry\<close>

record timed_vresult = vresult +
  v_duration :: int

definition derive_verifier_delta :: "timed_vresult option \<Rightarrow> bool \<Rightarrow> string option" where
  "derive_verifier_delta baseline final_verified =
     (case baseline of None \<Rightarrow> None
      | Some b \<Rightarrow> Some (if v_ok b \<and> final_verified then ''preserved'' else if v_ok b \<and> \<not> final_verified then ''regressed''
          else if \<not> v_ok b \<and> final_verified then ''fixed'' else ''unchanged''))"

text \<open>\<open>round\<close>: half to even.\<close>

definition py_round :: "rat \<Rightarrow> int" where
  "py_round q = (let f = \<lfloor>q\<rfloor>; r = q - of_int f in if r < 1 / 2 \<or> r = 1 / 2 \<and> even f then f else f + 1)"

record verifier_row =
  vt_duration :: int
  vt_margin :: "int option"
  vt_margin_pct :: "rat option"
  vt_margin_low :: "bool option"
  vt_oversubscribed :: "bool option"

definition verifier_telemetry :: "timed_vresult option \<Rightarrow> rat option \<Rightarrow> timed_vresult option \<Rightarrow> verifier_row option" where
  "verifier_telemetry final timeout baseline =
     (case final of
        None \<Rightarrow> None
      | Some f \<Rightarrow>
          let budget = (case timeout of Some t \<Rightarrow> if t > 0 then Some (t * 1000) else None | None \<Rightarrow> None);
              margin = map_option (\<lambda>b. py_round (b - of_int (v_duration f))) budget;
              pct = (case (budget, margin) of (Some b, Some m) \<Rightarrow> Some (of_int m / b) | _ \<Rightarrow> None);
              over = (case baseline of None \<Rightarrow> None
                | Some b \<Rightarrow> if \<not> v_timeout b \<and> v_duration b > 0 \<and> \<not> v_timeout f
                    then Some (of_int (v_duration f) / of_int (v_duration b) \<ge> (2 :: rat)) else None)
          in Some \<lparr>vt_duration = v_duration f, vt_margin = margin, vt_margin_pct = map_option (\<lambda>p. of_int (py_round (p * 1000)) / 1000) pct,
               vt_margin_low = map_option (\<lambda>p. p < 1 / 5) pct, vt_oversubscribed = over\<rparr>)"

section \<open>The run and its record\<close>

text \<open>How the supervised workflow ended.\<close>

datatype run_end = Output string | Run_stalled string | Run_raised string string

record dispatch_env =
  dp_end :: run_end
  dp_computer_use :: bool
  dp_signals :: workflow_signals
  dp_had_verifier :: bool
  dp_plan_only :: bool
  dp_recon_enabled :: bool
  dp_disposition :: string
  dp_station :: "string + verdict \<times> string option \<times> string"
  dp_changed :: "string list"
  dp_protect :: "string list"
  dp_allow :: "string list"
  dp_baseline :: "timed_vresult option"
  dp_telemetry :: pydict
  dp_stall_text :: string

datatype notice = Verifier_fail | Oom | Finish bool

record dispatch_result =
  dr_success :: bool
  dr_error :: "string option"
  dr_outcome :: "string option"
  dr_recon_status :: string
  dr_reconciliation :: "pydict option"
  dr_quality :: pydict
  dr_violations :: "(string \<times> violation) list"
  dr_announced :: bool
  dr_notices :: "notice list"
  dr_learned :: bool

definition output_of :: "dispatch_env \<Rightarrow> string" where
  "output_of de = (case dp_end de of Output s \<Rightarrow> s | _ \<Rightarrow> [])"

definition verifier_green :: "dispatch_env \<Rightarrow> bool" where
  "verifier_green de = (\<not> dp_had_verifier de \<or> flag (wf_verified (dp_signals de)))"

text \<open>The station as it ran: the status, and the verdict when there is one.\<close>

definition station_outcome :: "dispatch_env \<Rightarrow> string \<times> verdict option" where
  "station_outcome de =
     (let unreached = (if dp_recon_enabled de then ''skipped:no_output'' else ''skipped:not_enabled'')
      in case dp_end de of
           Output s \<Rightarrow>
             if dp_computer_use de then (unreached, None)
             else let st = decide_reconcile_status (dp_recon_enabled de) (dp_plan_only de) (py_strip s \<noteq> []) (dp_disposition de) (verifier_green de)
                  in if st = ''run''
                     then (case dp_station de of Inl exn \<Rightarrow> (''error:'' @ exn, None) | Inr (v, reason, err) \<Rightarrow>
                         let v1 = settle_station reason err v in (substance_status v1, Some v1))
                     else (st, None)
         | _ \<Rightarrow> (unreached, None))"

definition first_verdict :: "dispatch_env \<Rightarrow> bool \<times> string option \<times> string option" where
  "first_verdict de =
     (case dp_end de of
        Output _ \<Rightarrow> (True, None, None)
      | Run_stalled reason \<Rightarrow> (False, Some (''run aborted by watchdog: no run-level forward progress within '' @ dp_stall_text de @ '' (stuck/stalled)''),
          Some reason)
      | Run_raised ty msg \<Rightarrow> (False, Some (ty @ '': '' @ msg), None))"

definition join_error :: "string option \<Rightarrow> string \<Rightarrow> string option" where
  "join_error e s = (case truthy_str e of None \<Rightarrow> Some s | Some t \<Rightarrow> Some (t @ ''; '' @ s))"

definition join_comma :: "string list \<Rightarrow> string" where
  "join_comma xs = (case xs of [] \<Rightarrow> [] | y # ys \<Rightarrow> y @ concat (map (\<lambda>z. '', '' @ z) ys))"

definition policy_gate :: "dispatch_env \<Rightarrow> (string \<times> violation) list" where
  "policy_gate de =
     (if dp_protect de = [] \<and> dp_allow de = [] then []
      else evaluate_path_policy (dp_changed de) (Some (dp_protect de)) (Some (dp_allow de)))"

definition recon_error :: "verdict \<Rightarrow> string" where
  "recon_error v =
     (if \<not> is_substantive v
      then ''reconciliation did not verify ('' @ substance_status v @ ''): the trace was hollow, so the run cannot pass the fail-disposition gate''
      else ''reconciliation failed: '' @ show_nat (length (dead_findings v)) @ '' exists-but-not-load-bearing finding(s) ('' @
        join_comma (map (\<lambda>f. fd_name f @ '':'' @ (case fd_sub f of None \<Rightarrow> ''None'' | Some s \<Rightarrow> s)) (dead_findings v)) @ '')'')"

definition quality_of :: "dispatch_env \<Rightarrow> pydict" where
  "quality_of de = build_ledger (dp_signals de) (dp_had_verifier de) (py_strip (output_of de) \<noteq> []) (Some (dp_telemetry de))
     (snd (snd (first_verdict de)) = Some ''stalled'')"

definition notices_of :: "dispatch_env \<Rightarrow> bool \<Rightarrow> notice list" where
  "notices_of de success =
     (if snd (snd (first_verdict de)) \<noteq> Some ''stalled'' \<and> \<not> success \<and> dp_had_verifier de
      then [if (case dp_baseline de of None \<Rightarrow> False | Some b \<Rightarrow> v_resource b) then Oom else Verifier_fail] else [])
     @ [Finish success]"

definition settle_run :: "dispatch_env \<Rightarrow> dispatch_result" where
  "settle_run de =
     (let (ok0, err0, outcome) = first_verdict de;
          (status, verdict) = station_outcome de;
          violations = policy_gate de;
          ok1 = (ok0 \<and> violations = []);
          err1 = (if violations = [] then err0 else join_error err0 (''path-policy violation: '' @ join_comma (map fst violations)));
          failed = (case verdict of None \<Rightarrow> False | Some v \<Rightarrow> should_fail_run v);
          ok2 = (ok1 \<and> \<not> failed);
          err2 = (case verdict of None \<Rightarrow> err1 | Some v \<Rightarrow> if failed then join_error err1 (recon_error v) else err1);
          notes = (case verdict of None \<Rightarrow> (None, quality_of de)
             | Some v \<Rightarrow> (case apply_honesty_note (verdict_to_dict v) (quality_of de) of (r, q) \<Rightarrow> (Some r, q)))
      in \<lparr>dr_success = ok2, dr_error = err2, dr_outcome = outcome, dr_recon_status = status, dr_reconciliation = fst notes,
          dr_quality = snd notes, dr_violations = violations, dr_announced = ok0, dr_notices = notices_of de ok2,
          dr_learned = (dget (snd notes) ''confidence'' = PStr ''verified'')\<rparr>)"

section \<open>Laws\<close>

lemma dget_append_text: "k \<noteq> k' \<Longrightarrow> dget (append_text k s d) k' = dget d k'"
  by (induction d) (auto simp: append_text_def)

lemma honesty_note_keeps:
  assumes "apply_honesty_note r q = (r', q')"
  shows "k \<noteq> ''verdict'' \<Longrightarrow> dget r' k = dget r k" "k \<noteq> ''note'' \<Longrightarrow> dget q' k = dget q k"
  using assms by (auto simp: apply_honesty_note_def dget_append_text split: if_splits)

definition gate_fails :: "dispatch_env \<Rightarrow> bool" where
  "gate_fails de = (case snd (station_outcome de) of None \<Rightarrow> False | Some v \<Rightarrow> should_fail_run v)"

lemma settle_run_simps:
  "dr_success (settle_run de) = (fst (first_verdict de) \<and> policy_gate de = [] \<and> \<not> gate_fails de)"
  "dr_recon_status (settle_run de) = fst (station_outcome de)"
  "dr_announced (settle_run de) = fst (first_verdict de)"
  "dr_violations (settle_run de) = policy_gate de"
  "dr_notices (settle_run de) = notices_of de (dr_success (settle_run de))"
  "dr_quality (settle_run de) = (case snd (station_outcome de) of None \<Rightarrow> quality_of de
      | Some v \<Rightarrow> snd (apply_honesty_note (verdict_to_dict v) (quality_of de)))"
  "dr_reconciliation (settle_run de) = map_option (\<lambda>v. fst (apply_honesty_note (verdict_to_dict v) (quality_of de))) (snd (station_outcome de))"
  "dr_learned (settle_run de) = (dget (dr_quality (settle_run de)) ''confidence'' = PStr ''verified'')"
  by (auto simp: settle_run_def gate_fails_def Let_def split: prod.splits option.splits)

lemma settle_run_error:
  "dr_error (settle_run de) =
     (let e = (if policy_gate de = [] then fst (snd (first_verdict de))
               else join_error (fst (snd (first_verdict de))) (''path-policy violation: '' @ join_comma (map fst (policy_gate de))))
      in case snd (station_outcome de) of None \<Rightarrow> e | Some v \<Rightarrow> if should_fail_run v then join_error e (recon_error v) else e)"
  by (simp add: settle_run_def Let_def split: prod.splits option.splits)

lemma join_error_Some: "join_error e s \<noteq> None"
  by (simp add: join_error_def split: option.split)

lemma first_error: "(fst (snd (first_verdict de)) = None) = fst (first_verdict de)"
  by (simp add: first_verdict_def split: run_end.split)

lemma quality_confidence: "dget (dr_quality (settle_run de)) ''confidence'' = dget (quality_of de) ''confidence''"
proof (cases "snd (station_outcome de)")
  case (Some v)
  show ?thesis
    using honesty_note_keeps(2) [of "verdict_to_dict v" "quality_of de" _ _ "''confidence''"] Some
    by (cases "apply_honesty_note (verdict_to_dict v) (quality_of de)") (simp add: settle_run_simps)
qed (simp add: settle_run_simps)

lemma starved_fails: "detect_recon_starvation reason err \<noteq> None \<Longrightarrow> \<not> rr_reconciled (settle_station reason err v) \<and> rr_disposition (settle_station reason err v) = rr_disposition v"
  by (auto simp: settle_station_def mark_starved_def)

section \<open>Properties\<close>

text \<open>The station is reached, and what it finds fails the run: a verdict under a fail disposition that is not reconciled or
  whose agent starved.\<close>

definition reviewed :: "dispatch_env \<Rightarrow> bool" where
  "reviewed de = ((\<exists>s. dp_end de = Output s \<and> py_strip s \<noteq> []) \<and> \<not> dp_computer_use de \<and> dp_recon_enabled de \<and> \<not> dp_plan_only de
     \<and> \<not> (dp_disposition de = ''fail'' \<and> \<not> verifier_green de))"

definition station_refuses :: "dispatch_env \<Rightarrow> bool" where
  "station_refuses de =
     (case dp_station de of
        Inl _ \<Rightarrow> False
      | Inr (v, reason, err) \<Rightarrow> rr_disposition v = ''fail'' \<and> (\<not> rr_reconciled v \<or> detect_recon_starvation reason err \<noteq> None))"

text \<open>A changed path that the policy allows, by what its globs select.\<close>

definition path_allowed :: "dispatch_env \<Rightarrow> string \<Rightarrow> bool" where
  "path_allowed de p =
     (selected_by (Some (dp_protect de)) p = None
      \<and> (list_all (list_all py_space) (dp_allow de) \<or> selected_by (Some (dp_allow de)) p \<noteq> None))"

lemma gate_fails_iff: "gate_fails de = (reviewed de \<and> station_refuses de)"
proof -
  have s: "should_fail_run (settle_station reason err v) = (rr_disposition v = ''fail'' \<and> (\<not> rr_reconciled v \<or> detect_recon_starvation reason err \<noteq> None))"
    for reason err v
    using starved_fails [of reason err v] by (cases "detect_recon_starvation reason err") (auto simp: should_fail_run_def settle_station_def)
  show ?thesis
  proof (cases "dp_end de")
    case (Output o')
    have "(decide_reconcile_status (dp_recon_enabled de) (dp_plan_only de) (py_strip o' \<noteq> []) (dp_disposition de) (verifier_green de) = ''run'')
        = (dp_recon_enabled de \<and> \<not> dp_plan_only de \<and> py_strip o' \<noteq> [] \<and> \<not> (dp_disposition de = ''fail'' \<and> \<not> verifier_green de))"
      by (simp add: decide_reconcile_status_def)
    with Output show ?thesis
      by (auto simp: gate_fails_def station_outcome_def reviewed_def station_refuses_def Let_def s split: sum.splits)
  qed (simp_all add: gate_fails_def station_outcome_def reviewed_def Let_def)
qed

lemma policy_gate_iff: "(policy_gate de = []) = list_all (path_allowed de) (dp_changed de)"
proof -
  have globs: "globs_of (Some xs) = [] \<longleftrightarrow> list_all (list_all py_space) xs" for xs
    by (simp add: globs_of_def filter_empty_conv py_strip_empty_iff list_all_iff)
  have one: "(path_violation (globs_of (Some (dp_protect de))) (globs_of (Some (dp_allow de))) p = None) = path_allowed de p" for p
    unfolding violation_by_selection path_allowed_def globs [symmetric] by (auto split: option.splits if_splits)
  have free: "path_allowed de p" if "dp_protect de = []" "dp_allow de = []" for p
    using that by (simp add: path_allowed_def selected_by_def)
  have "(evaluate_path_policy (dp_changed de) (Some (dp_protect de)) (Some (dp_allow de)) = []) = list_all (path_allowed de) (dp_changed de)"
    by (auto simp: evaluate_path_policy_def list_all_iff one [symmetric] split: option.splits)
  then show ?thesis using free by (auto simp: policy_gate_def list_all_iff)
qed


text \<open>The note on unmeasured witnesses changes neither the confidence nor the verdict's flag.\<close>

theorem honesty_note_is_honest:
  "dget (dr_quality (settle_run de)) ''confidence'' = dget (quality_of de) ''confidence''
   \<and> map_option (\<lambda>r. dget r ''reconciled'') (dr_reconciliation (settle_run de))
       = map_option (\<lambda>v. PBool (rr_reconciled v)) (snd (station_outcome de))"
proof
  show "dget (dr_quality (settle_run de)) ''confidence'' = dget (quality_of de) ''confidence''" by (rule quality_confidence)
  show "map_option (\<lambda>r. dget r ''reconciled'') (dr_reconciliation (settle_run de))
       = map_option (\<lambda>v. PBool (rr_reconciled v)) (snd (station_outcome de))"
  proof (cases "snd (station_outcome de)")
    case (Some v)
    have "dget (fst (apply_honesty_note (verdict_to_dict v) (quality_of de))) ''reconciled'' = dget (verdict_to_dict v) ''reconciled''"
      using honesty_note_keeps(1) [of "verdict_to_dict v" "quality_of de" _ _ "''reconciled''"]
      by (cases "apply_honesty_note (verdict_to_dict v) (quality_of de)") simp
    then show ?thesis using Some by (simp add: settle_run_simps verdict_to_dict_def Let_def)
  qed (simp add: settle_run_simps)
qed

text \<open>The station runs exactly when it is enabled, the run is no plan, it has output, and the verifier is green or the
  disposition does not fail the run; the status says which of these held it back; and a trace whose agent starved is
  never reconciled, so a fail disposition fails the run.\<close>

theorem station_runs_exactly_when:
  "((\<exists>s. dp_end de = Output s \<and> py_strip s \<noteq> []) \<and> \<not> dp_computer_use de \<and> dp_recon_enabled de \<and> \<not> dp_plan_only de
      \<and> \<not> (dp_disposition de = ''fail'' \<and> \<not> verifier_green de)
    \<longleftrightarrow> \<not> prefix ''skipped:'' (dr_recon_status (settle_run de)))
   \<and> (snd (station_outcome de) \<noteq> None \<longleftrightarrow> prefix ''ran:'' (dr_recon_status (settle_run de)))
   \<and> (\<not> (\<exists>v reason err. dp_station de = Inr (v, reason, err) \<and> detect_recon_starvation reason err \<noteq> None \<and> rr_disposition v = ''fail''
          \<and> snd (station_outcome de) \<noteq> None \<and> dr_success (settle_run de)))"
proof (intro conjI)
  have ss: "\<not> prefix ''skipped:'' (substance_status v)" "prefix ''ran:'' (substance_status v)" for v
    by (simp_all add: substance_status_def)
  show "(\<exists>s. dp_end de = Output s \<and> py_strip s \<noteq> []) \<and> \<not> dp_computer_use de \<and> dp_recon_enabled de \<and> \<not> dp_plan_only de
      \<and> \<not> (dp_disposition de = ''fail'' \<and> \<not> verifier_green de)
    \<longleftrightarrow> \<not> prefix ''skipped:'' (dr_recon_status (settle_run de))"
    unfolding settle_run_simps(2) station_outcome_def
    by (auto simp: decide_reconcile_status_def Let_def ss split: run_end.splits sum.splits)
  show "snd (station_outcome de) \<noteq> None \<longleftrightarrow> prefix ''ran:'' (dr_recon_status (settle_run de))"
    unfolding settle_run_simps(2) station_outcome_def
    by (auto simp: decide_reconcile_status_def Let_def ss split: run_end.splits sum.splits)
  show "\<not> (\<exists>v reason err. dp_station de = Inr (v, reason, err) \<and> detect_recon_starvation reason err \<noteq> None \<and> rr_disposition v = ''fail''
          \<and> snd (station_outcome de) \<noteq> None \<and> dr_success (settle_run de))"
  proof
    assume "\<exists>v reason err. dp_station de = Inr (v, reason, err) \<and> detect_recon_starvation reason err \<noteq> None \<and> rr_disposition v = ''fail''
          \<and> snd (station_outcome de) \<noteq> None \<and> dr_success (settle_run de)"
    then obtain v reason err where d: "dp_station de = Inr (v, reason, err)" "detect_recon_starvation reason err \<noteq> None"
      "rr_disposition v = ''fail''" "snd (station_outcome de) \<noteq> None" "dr_success (settle_run de)" by blast
    have "snd (station_outcome de) = Some (settle_station reason err v)"
    proof (cases "dp_end de")
      case (Output s)
      then show ?thesis using d(1,4) by (auto simp: station_outcome_def Let_def split: if_split_asm)
    qed (use d(4) in \<open>simp_all add: station_outcome_def Let_def\<close>)
    then have "gate_fails de" using starved_fails [OF d(2), of v] d(3) by (simp add: gate_fails_def should_fail_run_def)
    then show False using d(5) by (simp add: settle_run_simps)
  qed
qed

section \<open>What the order of the gates lets through\<close>

definition sample_verdict :: verdict where
  "sample_verdict = \<lparr>rr_reconciled = False, rr_findings = [], rr_disposition = ''fail'', rr_raw = [], rr_parse_error = None, rr_starved = None\<rparr>"

definition sample_dispatch :: "bool \<Rightarrow> string list \<Rightarrow> dispatch_env" where
  "sample_dispatch green protected = \<lparr>dp_end = Output ''ok'', dp_computer_use = False, dp_signals = \<lparr>wf_verified = Some (PBool green), wf_approved = None, wf_stalled = None,
     wf_iterations = None\<rparr>, dp_had_verifier = True, dp_plan_only = False, dp_recon_enabled = True, dp_disposition = ''fail'',
     dp_station = Inr (sample_verdict, None, []), dp_changed = [''a''], dp_protect = protected, dp_allow = [], dp_baseline = None,
     dp_telemetry = [], dp_stall_text = []\<rparr>"


text \<open>A run whose tests fail skips the reconcile gate that a fail disposition asked for, and succeeds; no notice is sent.\<close>

lemma red_run_passes:
  "dr_success (settle_run (sample_dispatch False [])) \<and> dr_recon_status (settle_run (sample_dispatch False [])) = ''skipped:verifier_not_green''
   \<and> dr_notices (settle_run (sample_dispatch False [])) = [Finish True]"
  by (intro conjI) code_simp+

text \<open>A run that a gate refuses is announced as a success, and its row still enters the live ledger as verified.\<close>

lemma refused_run_is_announced_and_learned:
  "\<not> dr_success (settle_run (sample_dispatch True [''a''])) \<and> dr_announced (settle_run (sample_dispatch True [''a'']))
   \<and> dr_learned (settle_run (sample_dispatch True [''a'']))"
  by (intro conjI) code_simp+

text \<open>A run that crashed after its workflow had verified something keeps the confidence.\<close>

lemma crashed_run_is_verified:
  "dget (dr_quality (settle_run ((sample_dispatch True [])\<lparr>dp_end := Run_raised ''MergeConflict'' ''x''\<rparr>))) ''confidence'' = PStr ''verified''
   \<and> \<not> dr_success (settle_run ((sample_dispatch True [])\<lparr>dp_end := Run_raised ''MergeConflict'' ''x''\<rparr>))"
  by (intro conjI) code_simp+

text \<open>An unattended critical run gets both nets unless the operator says otherwise.\<close>

lemma mission_critical_defaults:
  "resolve_reconcile_disposition None True = ''fail'' \<and> resolve_reconcile_disposition (Some d) c = d
   \<and> resolve_run_stall_abort None True None = Some 1800 \<and> resolve_run_stall_abort (Some q) c e = Some q
   \<and> resolve_run_stall_abort None False e = None \<and> reconcile_enabled r True e"
  by (simp add: resolve_reconcile_disposition_def resolve_run_stall_abort_def reconcile_enabled_def)

end
