(* ===== verification/Event_Bus.thy ===== *)
theory Event_Bus
  imports Py_Prelude
begin

text \<open>
  The event bus of \<^verbatim>\<open>dashboard/event_bus.py\<close>, through which every component reports: normalization of an event, the
  bounded replay buffer of a run, sinks, closing and eviction, subscribers as machines that scan the live buffer and
  wait, and the two readers of a persisted log.
\<close>

section \<open>Events\<close>

definition worker_event_kinds :: "string list" where
  "worker_event_kinds = [''lifecycle'', ''reasoning'', ''message'', ''tool_call'', ''tool_result'', ''usage'', ''stderr'', ''watchdog'', ''heartbeat'']"

text \<open>A knob: a positive integer, clamped from below.\<close>

definition env_int :: "string option \<Rightarrow> int \<Rightarrow> int \<Rightarrow> int" where
  "env_int raw dflt minimum =
     (case truthy_str raw of None \<Rightarrow> dflt
      | Some s \<Rightarrow> (case py_int s of None \<Rightarrow> dflt | Some v \<Rightarrow> if v \<le> 0 then dflt else max v minimum))"

definition ev_float :: "pyval \<Rightarrow> rat \<Rightarrow> rat" where
  "ev_float v dflt =
     (case v of PStr s \<Rightarrow> (case py_float s of None \<Rightarrow> dflt | Some q \<Rightarrow> q)
      | _ \<Rightarrow> (case num_opt v of None \<Rightarrow> dflt | Some q \<Rightarrow> q))"

definition to_branch :: "(pyval \<Rightarrow> string) \<Rightarrow> pyval \<Rightarrow> int option" where
  "to_branch rp v = (case v of PNone \<Rightarrow> None | PBool b \<Rightarrow> Some (if b then 1 else 0) | PInt i \<Rightarrow> Some i | _ \<Rightarrow> py_int (py_str rp v))"

record bus_event =
  be_ts :: rat
  be_run :: string
  be_worker :: string
  be_model :: string
  be_effort :: string
  be_branch :: "int option"
  be_kind :: string
  be_text :: string
  be_data :: pydict

text \<open>Who publishes: the arguments of \<open>publisher_for\<close>.\<close>

record source =
  so_run :: string
  so_worker :: string
  so_model :: "string option"
  so_effort :: "string option"
  so_branch :: pyval

definition known_kind :: "string \<Rightarrow> string" where
  "known_kind k = (if k \<in> set worker_event_kinds then k else ''stderr'')"

definition or_text :: "(pyval \<Rightarrow> string) \<Rightarrow> pyval \<Rightarrow> string option \<Rightarrow> string" where
  "or_text rp v d = py_str rp (py_or v (PStr (case truthy_str d of None \<Rightarrow> ''n/a'' | Some s \<Rightarrow> s)))"

definition normalize_event :: "(pyval \<Rightarrow> string) \<Rightarrow> rat \<Rightarrow> source \<Rightarrow> pydict \<Rightarrow> bus_event" where
  "normalize_event rp now so p =
     \<lparr>be_ts = ev_float (dget p ''ts'') now, be_run = so_run so,
      be_worker = py_str rp (py_or (dget p ''worker'') (PStr (so_worker so))),
      be_model = or_text rp (dget p ''model'') (so_model so), be_effort = or_text rp (dget p ''effort'') (so_effort so),
      be_branch = (case to_branch rp (dget p ''branch'') of None \<Rightarrow> to_branch rp (so_branch so) | Some b \<Rightarrow> Some b),
      be_kind = known_kind (py_str rp (py_or (dget p ''kind'') (PStr ''stderr''))),
      be_text = py_str rp (dget_or p ''text'' (PStr [])), be_data = as_dict (dget p ''data'')\<rparr>"

section \<open>The bus\<close>

text \<open>The four dictionaries of the bus have the same keys: a run maps to an address, and at the address are its list
  of events, its sinks (which the dispatcher may remove), its next id and its wake-up event.  Subscribers hold on to
  the list and the wake-up event by address, also when the run is evicted.  An \<open>asyncio.Event\<close> is its flag and the
  number of times it was set, since a set wakes whoever waits then even when the flag is cleared again first.
  Payloads are of any type.\<close>

record 'e slot =
  sl_queue :: "(int \<times> 'e) list"
  sl_sinks :: "nat list option"
  sl_next :: int
  sl_flag :: bool
  sl_sets :: nat

record 'e bus =
  bu_slots :: "'e slot list"
  bu_at :: "string \<Rightarrow> nat option"
  bu_closed :: "string set"
  bu_order :: "string list"
  bu_replay_max :: nat
  bu_retain :: nat
  bu_calls :: "(nat \<times> 'e) list"

definition new_slot :: "'e slot" where
  "new_slot = \<lparr>sl_queue = [], sl_sinks = Some [], sl_next = 0, sl_flag = False, sl_sets = 0\<rparr>"

definition new_bus :: "nat \<Rightarrow> nat \<Rightarrow> 'e bus" where
  "new_bus replay_max retain = \<lparr>bu_slots = [], bu_at = Map.empty, bu_closed = {}, bu_order = [],
     bu_replay_max = replay_max, bu_retain = retain, bu_calls = []\<rparr>"

definition on_slot :: "nat \<Rightarrow> ('e slot \<Rightarrow> 'e slot) \<Rightarrow> 'e bus \<Rightarrow> 'e bus" where
  "on_slot a f b = b\<lparr>bu_slots := (bu_slots b)[a := f (bu_slots b ! a)]\<rparr>"

definition wake_set :: "'e slot \<Rightarrow> 'e slot" where
  "wake_set sl = sl\<lparr>sl_flag := True, sl_sets := Suc (sl_sets sl)\<rparr>"

definition ensure :: "string \<Rightarrow> 'e bus \<Rightarrow> 'e bus" where
  "ensure r b =
     (case bu_at b r of
        Some _ \<Rightarrow> b
      | None \<Rightarrow> b\<lparr>bu_slots := bu_slots b @ [new_slot], bu_at := (bu_at b)(r \<mapsto> length (bu_slots b))\<rparr>)"

definition keep_last :: "nat \<Rightarrow> 'a list \<Rightarrow> 'a list" where
  "keep_last n xs = (if length xs > n then drop (length xs - n) xs else xs)"

definition push_event :: "nat \<Rightarrow> int option \<Rightarrow> 'e \<Rightarrow> 'e slot \<Rightarrow> 'e slot" where
  "push_event cap eid e sl =
     (let i = (case eid of None \<Rightarrow> sl_next sl | Some i \<Rightarrow> i)
      in wake_set (sl\<lparr>sl_next := max (sl_next sl) (i + 1), sl_queue := keep_last cap (sl_queue sl @ [(i, e)])\<rparr>))"

text \<open>\<open>eid\<close> is the \<open>_event_id\<close> an event brings along, which \<open>int\<close> reads.\<close>

definition own_number :: "pyval option \<Rightarrow> pyexn + int option" where
  "own_number eid = (case eid of None \<Rightarrow> Inr None | Some v \<Rightarrow> ebind (to_int v) (\<lambda>i. Inr (Some i)))"

text \<open>\<open>_publish\<close>; \<open>None\<close> is an exception, which leaves the bus as it was: the \<open>KeyError\<close> of a run that was evicted, or
  what \<open>int\<close> raises.\<close>

definition publish :: "string \<Rightarrow> pyval option \<Rightarrow> 'e \<Rightarrow> 'e bus \<Rightarrow> 'e bus option" where
  "publish r eid e b =
     (if r \<in> bu_closed b then Some b
      else case bu_at b r of
        None \<Rightarrow> None
      | Some a \<Rightarrow>
          (case own_number eid of
             Inl why \<Rightarrow> None
           | Inr n \<Rightarrow>
               let ss = (case sl_sinks (bu_slots b ! a) of None \<Rightarrow> [] | Some ss \<Rightarrow> ss)
               in Some ((on_slot a (push_event (bu_replay_max b) n e) b)\<lparr>bu_calls := bu_calls b @ map (\<lambda>s. (s, e)) ss\<rparr>)))"

lemma own_number_None [simp]: "own_number None = Inr None"
  by (simp add: own_number_def)

text \<open>\<open>add_sink\<close>; the second definition is the dispatcher's \<open>sinks.pop\<close>.\<close>

definition add_sink :: "string \<Rightarrow> nat \<Rightarrow> 'e bus \<Rightarrow> 'e bus option" where
  "add_sink r s b =
     (let b1 = ensure r b; a = the (bu_at b1 r)
      in map_option (\<lambda>ss. on_slot a (\<lambda>sl. sl\<lparr>sl_sinks := Some (ss @ [s])\<rparr>) b1) (sl_sinks (bu_slots b1 ! a)))"

definition drop_sinks :: "string \<Rightarrow> 'e bus \<Rightarrow> 'e bus" where
  "drop_sinks r b = (case bu_at b r of None \<Rightarrow> b | Some a \<Rightarrow> on_slot a (\<lambda>sl. sl\<lparr>sl_sinks := None\<rparr>) b)"

definition evict_run :: "string \<Rightarrow> 'e bus \<Rightarrow> 'e bus" where
  "evict_run r b = b\<lparr>bu_at := (bu_at b)(r := None), bu_closed := bu_closed b - {r}\<rparr>"

definition close_run :: "string \<Rightarrow> 'e bus \<Rightarrow> 'e bus" where
  "close_run r b =
     (let b1 = ensure r b
      in if r \<in> bu_closed b1 then b1
         else let order = bu_order b1 @ [r]; k = length order - bu_retain b1
              in fold evict_run (take k order)
                   ((on_slot (the (bu_at b1 r)) wake_set b1)\<lparr>bu_closed := insert r (bu_closed b1), bu_order := drop k order\<rparr>))"

definition reset_bus :: "'e bus \<Rightarrow> 'e bus" where
  "reset_bus b = b\<lparr>bu_at := Map.empty, bu_closed := {}, bu_order := []\<rparr>"

section \<open>Subscribers\<close>

text \<open>A subscriber at one of its suspensions: about to look at an index of the list it iterates, or waiting for the
  event it found not set, having noted how often that was set before.\<close>

datatype sub_phase = Scan nat nat | Wait nat nat | Ended | Key_error

record 'e subscriber =
  sb_run :: string
  sb_floor :: int
  sb_phase :: sub_phase
  sb_last :: int
  sb_got :: "(int \<times> 'e) list"

definition start_floor :: "string option \<Rightarrow> int option \<Rightarrow> int" where
  "start_floor last_event_id after =
     (case last_event_id of
        None \<Rightarrow> (case after of None \<Rightarrow> - 1 | Some i \<Rightarrow> i)
      | Some s \<Rightarrow> (case py_int s of None \<Rightarrow> - 1 | Some i \<Rightarrow> i))"

definition start_scan :: "'e bus \<Rightarrow> 'e subscriber \<Rightarrow> 'e subscriber" where
  "start_scan b s = s\<lparr>sb_phase := (case bu_at b (sb_run s) of None \<Rightarrow> Key_error | Some a \<Rightarrow> Scan a 0)\<rparr>"

definition subscribe :: "string \<Rightarrow> int \<Rightarrow> 'e bus \<Rightarrow> 'e subscriber \<times> 'e bus" where
  "subscribe r fl b =
     (start_scan (ensure r b) \<lparr>sb_run = r, sb_floor = fl, sb_phase = Ended, sb_last = fl, sb_got = []\<rparr>, ensure r b)"

definition look_at :: "int \<times> 'e \<Rightarrow> 'e subscriber \<Rightarrow> 'e subscriber" where
  "look_at x s = (if fst x \<le> sb_last s then s else s\<lparr>sb_last := fst x, sb_got := sb_got s @ [x]\<rparr>)"

text \<open>The end of a pass: return, wait, or clear an event that is already set and start over.\<close>

definition end_of_pass :: "'e bus \<Rightarrow> 'e subscriber \<Rightarrow> 'e subscriber \<times> 'e bus" where
  "end_of_pass b s =
     (if sb_run s \<in> bu_closed b then (s\<lparr>sb_phase := Ended\<rparr>, b)
      else case bu_at b (sb_run s) of
        None \<Rightarrow> (s\<lparr>sb_phase := Key_error\<rparr>, b)
      | Some a \<Rightarrow>
          if sl_flag (bu_slots b ! a) then (start_scan b s, on_slot a (\<lambda>sl. sl\<lparr>sl_flag := False\<rparr>) b)
          else (s\<lparr>sb_phase := Wait a (sl_sets (bu_slots b ! a))\<rparr>, b))"

definition sub_step :: "'e bus \<Rightarrow> 'e subscriber \<Rightarrow> 'e subscriber \<times> 'e bus" where
  "sub_step b s =
     (case sb_phase s of
        Scan a i \<Rightarrow>
          if i < length (sl_queue (bu_slots b ! a))
          then ((look_at (sl_queue (bu_slots b ! a) ! i) s)\<lparr>sb_phase := Scan a (Suc i)\<rparr>, b)
          else end_of_pass b s
      | Wait a g \<Rightarrow>
          if sl_sets (bu_slots b ! a) > g then (start_scan b s, on_slot a (\<lambda>sl. sl\<lparr>sl_flag := False\<rparr>) b)
          else (s, b)
      | _ \<Rightarrow> (s, b))"

text \<open>A history of the bus: what publishers, the server and the subscribers do, in the order they do it.  A call that
  raises \<open>KeyError\<close> changes nothing.\<close>

datatype 'e move =
    Publisher string
  | Publish string "pyval option" 'e
  | Sink string nat
  | Drop_sinks string
  | Close string
  | Reset
  | Join string int
  | Resume nat

fun play :: "'e move \<Rightarrow> 'e bus \<times> 'e subscriber list \<Rightarrow> 'e bus \<times> 'e subscriber list" where
  "play (Publisher r) (b, ss) = (ensure r b, ss)"
| "play (Publish r eid e) (b, ss) = ((case publish r eid e b of None \<Rightarrow> b | Some b1 \<Rightarrow> b1), ss)"
| "play (Sink r s) (b, ss) = ((case add_sink r s b of None \<Rightarrow> ensure r b | Some b1 \<Rightarrow> b1), ss)"
| "play (Drop_sinks r) (b, ss) = (drop_sinks r b, ss)"
| "play (Close r) (b, ss) = (close_run r b, ss)"
| "play Reset (b, ss) = (reset_bus b, ss)"
| "play (Join r fl) (b, ss) = (case subscribe r fl b of (s, b1) \<Rightarrow> (b1, ss @ [s]))"
| "play (Resume i) (b, ss) = (if i < length ss then case sub_step b (ss ! i) of (s, b1) \<Rightarrow> (b1, ss[i := s]) else (b, ss))"

definition plays :: "'e move list \<Rightarrow> 'e bus \<times> 'e subscriber list \<Rightarrow> 'e bus \<times> 'e subscriber list" where
  "plays = fold play"

section \<open>The bus stays bounded\<close>

lemma evict_runs:
  "fold evict_run rs b = b\<lparr>bu_at := (\<lambda>r. if r \<in> set rs then None else bu_at b r), bu_closed := bu_closed b - set rs\<rparr>"
  by (induction rs arbitrary: b) (auto simp: evict_run_def fun_eq_iff intro!: bus.equality)

lemma keep_last_length: "length (keep_last n xs) \<le> n"
  by (simp add: keep_last_def)

lemma keep_last_subset: "set (keep_last n xs) \<subseteq> set xs"
  by (auto simp: keep_last_def dest: in_set_dropD)

definition bounded_bus :: "nat \<Rightarrow> nat \<Rightarrow> 'e bus \<Rightarrow> bool" where
  "bounded_bus m n b =
     (bu_replay_max b = m \<and> bu_retain b = n \<and> distinct (bu_order b) \<and> set (bu_order b) = bu_closed b \<and> length (bu_order b) \<le> n
      \<and> bu_closed b \<subseteq> dom (bu_at b) \<and> list_all (\<lambda>sl. length (sl_queue sl) \<le> m) (bu_slots b))"

lemma bounded_on_slot:
  assumes "bounded_bus m n b" "\<And>sl. length (sl_queue sl) \<le> m \<Longrightarrow> length (sl_queue (f sl)) \<le> m"
  shows "bounded_bus m n (on_slot a f b)"
proof (cases "a < length (bu_slots b)")
  case True
  then show ?thesis
    using assms by (auto simp: bounded_bus_def on_slot_def list_all_length nth_list_update)
qed (use assms(1) in \<open>simp add: on_slot_def bounded_bus_def list_update_beyond\<close>)

lemma bounded_ensure: "bounded_bus m n b \<Longrightarrow> bounded_bus m n (ensure r b)"
  by (auto simp: bounded_bus_def ensure_def new_slot_def split: option.split)

lemma ensure_keeps [simp]:
  "bu_closed (ensure r b) = bu_closed b" "bu_order (ensure r b) = bu_order b"
  "bu_retain (ensure r b) = bu_retain b" "bu_replay_max (ensure r b) = bu_replay_max b"
  by (auto simp: ensure_def split: option.split)

lemma ensure_at: "\<exists>a. bu_at (ensure r b) r = Some a"
  by (auto simp: ensure_def split: option.split)

lemma on_slot_keeps [simp]:
  "bu_closed (on_slot a f b) = bu_closed b" "bu_order (on_slot a f b) = bu_order b" "bu_at (on_slot a f b) = bu_at b"
  "bu_retain (on_slot a f b) = bu_retain b" "bu_replay_max (on_slot a f b) = bu_replay_max b"
  "length (bu_slots (on_slot a f b)) = length (bu_slots b)"
  by (simp_all add: on_slot_def)

lemma bounded_publish: "bounded_bus m n b \<Longrightarrow> publish r eid e b = Some b1 \<Longrightarrow> bounded_bus m n b1"
  using bounded_on_slot [of m n b "push_event (bu_replay_max b) (case own_number eid of Inr i \<Rightarrow> i) e"]
  by (auto simp: publish_def push_event_def wake_set_def Let_def keep_last_length bounded_bus_def
      split: if_splits option.splits sum.splits)

lemma close_run_eq:
  assumes "r \<notin> bu_closed b"
  shows "close_run r b =
     (let b1 = on_slot (the (bu_at (ensure r b) r)) wake_set (ensure r b); order = bu_order b @ [r]; k = length order - bu_retain b
      in b1\<lparr>bu_at := (\<lambda>x. if x \<in> set (take k order) then None else bu_at b1 x), bu_closed := insert r (bu_closed b) - set (take k order),
           bu_order := drop k order\<rparr>)"
  using assms unfolding close_run_def evict_runs Let_def
  by (intro bus.equality) (simp_all del: take_append drop_append cong: if_cong)

lemma bounded_close:
  assumes "bounded_bus m n b"
  shows "bounded_bus m n (close_run r b)"
proof (cases "r \<in> bu_closed b")
  case False
  define b1 where "b1 = on_slot (the (bu_at (ensure r b) r)) wake_set (ensure r b)"
  define xs where "xs = bu_order b @ [r]"
  define k where "k = length xs - n"
  have b1: "bounded_bus m n b1"
    unfolding b1_def by (rule bounded_on_slot [OF bounded_ensure [OF assms]]) (simp add: wake_set_def)
  have shut: "bu_closed b1 = bu_closed b" by (simp add: b1_def)
  obtain a where at1: "bu_at b1 r = Some a" using ensure_at [of r b] by (auto simp: b1_def)
  have "distinct xs" "set xs = insert r (bu_closed b)" using assms False by (auto simp: xs_def bounded_bus_def)
  then have "set (drop k xs) = insert r (bu_closed b) - set (take k xs)" "distinct (drop k xs)"
    by (metis Diff_cancel Un_Diff append_take_drop_id set_append distinct_append Diff_triv Int_commute Un_empty_left, simp)
  moreover have "length (drop k xs) \<le> n" by (simp add: k_def)
  moreover have "close_run r b = b1\<lparr>bu_at := (\<lambda>x. if x \<in> set (take k xs) then None else bu_at b1 x),
      bu_closed := insert r (bu_closed b) - set (take k xs), bu_order := drop k xs\<rparr>"
    using assms unfolding close_run_eq [OF False] Let_def b1_def [symmetric] xs_def [symmetric] by (simp add: k_def bounded_bus_def)
  ultimately show ?thesis using b1 at1 shut by (auto simp: bounded_bus_def dom_def)
qed (use assms in \<open>simp add: close_run_def Let_def bounded_ensure\<close>)

lemma bounded_flag: "bounded_bus m n b \<Longrightarrow> bounded_bus m n (on_slot a (\<lambda>sl. sl\<lparr>sl_flag := False\<rparr>) b)"
  by (rule bounded_on_slot) simp_all

lemma bounded_sub_step: "bounded_bus m n b \<Longrightarrow> bounded_bus m n (snd (sub_step b s))"
  by (auto simp: sub_step_def end_of_pass_def bounded_flag split: sub_phase.split option.split)

lemma bounded_play: "bounded_bus m n (fst w) \<Longrightarrow> bounded_bus m n (fst (play x w))"
proof (induction x w rule: play.induct)
  case (2 r eid e b ss)
  then show ?case by (auto simp: bounded_publish split: option.split)
next
  case (3 r s b ss)
  have "bounded_bus m n (on_slot a (\<lambda>sl. sl\<lparr>sl_sinks := xs\<rparr>) (ensure r b))" for a xs
    using 3 by (auto intro: bounded_on_slot bounded_ensure)
  with 3 show ?case by (auto simp: add_sink_def Let_def bounded_ensure split: option.split)
next
  case (4 r b ss)
  then show ?case by (auto simp: drop_sinks_def intro: bounded_on_slot split: option.split)
next
  case (8 i b ss)
  then show ?case using bounded_sub_step [of m n b "ss ! i"] by (auto split: prod.split)
next
  case (6 b ss)
  then show ?case by (simp add: reset_bus_def bounded_bus_def)
qed (simp_all add: bounded_ensure bounded_close subscribe_def)

section \<open>Delivery is in order and stays within a run\<close>

definition in_order :: "'e subscriber \<Rightarrow> bool" where
  "in_order s = (sorted_wrt (<) (sb_floor s # map fst (sb_got s)) \<and> sb_last s = last (sb_floor s # map fst (sb_got s)))"

lemma sorted_snoc: "sorted_wrt (<) (xs @ [x :: int]) = (sorted_wrt (<) xs \<and> (xs = [] \<or> last xs < x))"
proof (cases xs rule: rev_cases)
  case (snoc ys y)
  then show ?thesis by (auto simp: sorted_wrt_append)
qed simp

lemma in_order_look_at: "in_order s \<Longrightarrow> in_order (look_at x s)"
proof -
  assume s: "in_order s"
  show "in_order (look_at x s)"
  proof (cases "fst x \<le> sb_last s")
    case False
    let ?ys = "sb_floor s # map fst (sb_got s)"
    have "sorted_wrt (<) (?ys @ [fst x])" unfolding sorted_snoc using s False by (simp add: in_order_def)
    with False show ?thesis by (simp add: in_order_def look_at_def)
  qed (use s in \<open>simp add: look_at_def\<close>)
qed

text \<open>\<open>own\<close> says which run an address was made for, and \<open>pub\<close> what is published to a run.\<close>

definition belongs :: "(string \<Rightarrow> 'e set) \<Rightarrow> string list \<Rightarrow> 'e bus \<Rightarrow> bool" where
  "belongs pub own b =
     (length own = length (bu_slots b) \<and> (\<forall>r a. bu_at b r = Some a \<longrightarrow> a < length own \<and> own ! a = r)
      \<and> (\<forall>a < length own. snd ` set (sl_queue (bu_slots b ! a)) \<subseteq> pub (own ! a)))"

definition sound_subscriber :: "(string \<Rightarrow> 'e set) \<Rightarrow> string list \<Rightarrow> 'e subscriber \<Rightarrow> bool" where
  "sound_subscriber pub own s =
     (in_order s \<and> snd ` set (sb_got s) \<subseteq> pub (sb_run s)
      \<and> (case sb_phase s of Scan a i \<Rightarrow> a < length own \<and> own ! a = sb_run s | _ \<Rightarrow> True))"

lemma belongsD:
  assumes "belongs pub own b"
  shows "length own = length (bu_slots b)" "bu_at b r = Some a \<Longrightarrow> a < length own" "bu_at b r = Some a \<Longrightarrow> own ! a = r"
    "x < length own \<Longrightarrow> snd ` set (sl_queue (bu_slots b ! x)) \<subseteq> pub (own ! x)"
  using assms unfolding belongs_def by blast+

lemma belongs_calls [simp]: "belongs pub own (b\<lparr>bu_calls := cs\<rparr>) = belongs pub own b"
  by (simp add: belongs_def)

lemma belongs_on_slot:
  assumes "belongs pub own b"
    and "\<And>sl. a < length own \<Longrightarrow> snd ` set (sl_queue sl) \<subseteq> pub (own ! a) \<Longrightarrow> snd ` set (sl_queue (f sl)) \<subseteq> pub (own ! a)"
  shows "belongs pub own (on_slot a f b)"
proof -
  have "snd ` set (sl_queue ((bu_slots b)[a := f (bu_slots b ! a)] ! x)) \<subseteq> pub (own ! x)" if x: "x < length own" for x
  proof -
    note belongsD(4) [OF assms(1) x] belongsD(1) [OF assms(1)]
    then show ?thesis using x assms(2) [of "bu_slots b ! a"] by (cases "x = a") simp_all
  qed
  then show ?thesis using belongsD(1-3) [OF assms(1)] unfolding belongs_def on_slot_def by simp
qed

lemma belongs_ensure:
  assumes "belongs pub own b"
  obtains extra where "belongs pub (own @ extra) (ensure r b)"
proof (cases "bu_at b r")
  case None
  with assms have "belongs pub (own @ [r]) (ensure r b)"
    by (auto simp: belongs_def ensure_def new_slot_def nth_append less_Suc_eq)
  then show ?thesis by (rule that)
next
  case (Some a)
  with assms have "belongs pub (own @ []) (ensure r b)" by (simp add: ensure_def)
  then show ?thesis by (rule that)
qed

lemma belongs_restrict: "belongs pub own b \<Longrightarrow> belongs pub own (b\<lparr>bu_at := (\<lambda>r. if r \<in> A then None else bu_at b r), bu_closed := C, bu_order := ord\<rparr>)"
  by (auto simp: belongs_def split: if_splits)

lemma sound_start_scan: "belongs pub own b \<Longrightarrow> sound_subscriber pub own s \<Longrightarrow> sound_subscriber pub own (start_scan b s)"
  by (auto simp: sound_subscriber_def start_scan_def belongs_def in_order_def split: option.split)

lemma sound_extend: "sound_subscriber pub own s \<Longrightarrow> sound_subscriber pub (own @ extra) s"
  by (auto simp: sound_subscriber_def nth_append split: sub_phase.splits)

lemma sound_phase: "sound_subscriber pub own s \<Longrightarrow> (\<And>a i. p \<noteq> Scan a i) \<Longrightarrow> sound_subscriber pub own (s\<lparr>sb_phase := p\<rparr>)"
  by (cases p) (auto simp: sound_subscriber_def in_order_def)

lemma sound_step:
  assumes b: "belongs pub own b" and s: "sound_subscriber pub own s" and step: "sub_step b s = (s', b')"
  shows "belongs pub own b' \<and> sound_subscriber pub own s'"
proof -
  have flag: "belongs pub own (on_slot a (\<lambda>sl. sl\<lparr>sl_flag := False\<rparr>) b)" for a
    using b by (rule belongs_on_slot) simp
  have stop: "end_of_pass b s = (s', b') \<Longrightarrow> ?thesis"
    using b s flag by (auto simp: end_of_pass_def sound_start_scan sound_phase split: if_splits option.splits)
  show ?thesis
  proof (cases "sb_phase s")
    case (Scan a i)
    let ?q = "sl_queue (bu_slots b ! a)"
    show ?thesis
    proof (cases "i < length ?q")
      case True
      have "snd ` set ?q \<subseteq> pub (sb_run s)" using belongsD(4) [OF b, of a] s Scan by (simp add: sound_subscriber_def)
      then have "snd (?q ! i) \<in> pub (sb_run s)" using True by (meson image_subset_iff nth_mem)
      moreover have "s' = (look_at (?q ! i) s)\<lparr>sb_phase := Scan a (Suc i)\<rparr>" "b' = b" using step Scan True by (auto simp: sub_step_def)
      moreover have "in_order (look_at (?q ! i) s)" using s by (simp add: in_order_look_at sound_subscriber_def)
      ultimately show ?thesis using b s Scan by (auto simp: sound_subscriber_def look_at_def in_order_def)
    next
      case False
      with step Scan stop show ?thesis by (simp add: sub_step_def)
    qed
  next
    case (Wait a g)
    with step b s flag show ?thesis by (auto simp: sub_step_def sound_start_scan split: if_splits)
  qed (use step b s in \<open>auto simp: sub_step_def\<close>)
qed

definition sound_world :: "(string \<Rightarrow> 'e set) \<Rightarrow> 'e bus \<times> 'e subscriber list \<Rightarrow> bool" where
  "sound_world pub w = (\<exists>own. belongs pub own (fst w) \<and> list_all (sound_subscriber pub own) (snd w))"

lemma sound_extends: "list_all (sound_subscriber pub own) ss \<Longrightarrow> list_all (sound_subscriber pub (own @ extra)) ss"
  by (simp add: list_all_iff sound_extend)

lemma sound_worldI: "belongs pub own b \<Longrightarrow> list_all (sound_subscriber pub own) ss \<Longrightarrow> sound_world pub (b, ss)"
  by (auto simp: sound_world_def)

lemma belongs_publish:
  assumes "belongs pub own b" "publish r eid e b = Some b1" "e \<in> pub r"
  shows "belongs pub own b1"
proof (cases "r \<in> bu_closed b")
  case False
  with assms(2) obtain a n where a: "bu_at b r = Some a" "own_number eid = Inr n"
    by (auto simp: publish_def split: option.splits sum.splits)
  have "belongs pub own (on_slot a (push_event (bu_replay_max b) n e) b)"
  proof (rule belongs_on_slot [OF assms(1)])
    fix sl :: "'a slot" assume "a < length own" "snd ` set (sl_queue sl) \<subseteq> pub (own ! a)"
    moreover have "own ! a = r" using belongsD(3) [OF assms(1) a(1)] .
    ultimately show "snd ` set (sl_queue (push_event (bu_replay_max b) n e sl)) \<subseteq> pub (own ! a)"
      using assms(3) keep_last_subset [of "bu_replay_max b"] by (fastforce simp: push_event_def wake_set_def Let_def)
  qed
  then show ?thesis using assms(2) False a by (auto simp: publish_def Let_def)
qed (use assms in \<open>simp add: publish_def\<close>)

lemma list_all_update: "list_all P xs \<Longrightarrow> P x \<Longrightarrow> list_all P (xs[i := x])"
  using set_update_subset_insert [of xs i x] by (auto simp: list_all_iff)

lemma sound_play:
  assumes "sound_world pub w" and "\<And>r eid e. x = Publish r eid e \<Longrightarrow> e \<in> pub r"
  shows "sound_world pub (play x w)"
proof -
  obtain b ss where w: "w = (b, ss)" by (cases w)
  obtain own where b: "belongs pub own b" and ss: "list_all (sound_subscriber pub own) ss"
    using assms(1) by (auto simp: sound_world_def w)
  have same: "belongs pub own b1 \<Longrightarrow> sound_world pub (b1, ss)" for b1 using ss by (simp add: sound_worldI)
  have grown: "belongs pub (own @ extra) b1 \<Longrightarrow> sound_world pub (b1, ss)" for b1 extra
    using ss by (simp add: sound_worldI sound_extends)
  show ?thesis
  proof (cases x)
    case (Publisher r)
    then show ?thesis using belongs_ensure [OF b, of r] grown by (auto simp: w)
  next
    case (Publish r eid e)
    then show ?thesis using belongs_publish [OF b, of r eid e] assms(2) b by (auto simp: w same split: option.split)
  next
    case (Sink r k)
    obtain extra where e: "belongs pub (own @ extra) (ensure r b)" by (rule belongs_ensure [OF b])
    have "belongs pub (own @ extra) (on_slot a (\<lambda>sl. sl\<lparr>sl_sinks := xs\<rparr>) (ensure r b))" for a xs
      by (rule belongs_on_slot [OF e]) simp
    with e grown show ?thesis by (auto simp: w Sink add_sink_def Let_def split: option.split)
  next
    case (Drop_sinks r)
    have "belongs pub own (on_slot a (\<lambda>sl. sl\<lparr>sl_sinks := None\<rparr>) b)" for a by (rule belongs_on_slot [OF b]) simp
    with b same show ?thesis by (auto simp: w Drop_sinks drop_sinks_def split: option.split)
  next
    case (Close r)
    obtain extra where e: "belongs pub (own @ extra) (ensure r b)" by (rule belongs_ensure [OF b])
    have f: "belongs pub (own @ extra) (on_slot a wake_set (ensure r b))" for a
      by (rule belongs_on_slot [OF e]) (simp add: wake_set_def)
    have "belongs pub (own @ extra) (close_run r b)"
    proof (cases "r \<in> bu_closed b")
      case False
      show ?thesis unfolding close_run_eq [OF False] Let_def by (rule belongs_restrict [OF f])
    qed (use e in \<open>simp add: close_run_def\<close>)
    then show ?thesis using grown by (simp add: w Close)
  next
    case Reset
    have "belongs pub own (reset_bus b)" using b by (simp add: belongs_def reset_bus_def)
    with same show ?thesis by (simp add: w Reset)
  next
    case (Join r fl)
    obtain extra where e: "belongs pub (own @ extra) (ensure r b)" by (rule belongs_ensure [OF b])
    have "sound_subscriber pub (own @ extra) (fst (subscribe r fl b))"
      unfolding subscribe_def fst_conv by (rule sound_start_scan [OF e]) (simp add: sound_subscriber_def in_order_def)
    with e ss show ?thesis by (auto simp: w Join subscribe_def sound_extends intro!: sound_worldI)
  next
    case (Resume i)
    show ?thesis
    proof (cases "i < length ss")
      case True
      obtain s' b' where st: "sub_step b (ss ! i) = (s', b')" by (cases "sub_step b (ss ! i)")
      have "sound_subscriber pub own (ss ! i)" using ss True by (simp add: list_all_length)
      from sound_step [OF b this st] ss True have "belongs pub own b'" "list_all (sound_subscriber pub own) (ss[i := s'])"
        by (auto intro: list_all_update)
      then show ?thesis using True st by (simp add: w Resume sound_worldI)
    qed (use assms(1) in \<open>simp add: w Resume\<close>)
  qed
qed

section \<open>Nothing is lost below the cap\<close>

text \<open>What publishers to a run say before it is closed, and a history in which its cap is never reached, no event brings
  an id, and too few runs are closed for one to be evicted.\<close>

fun heard :: "string \<Rightarrow> 'e move list \<Rightarrow> 'e list" where
  "heard r [] = []"
| "heard r (Publish r' eid e # ms) = (if r' = r then e # heard r ms else heard r ms)"
| "heard r (Close r' # ms) = (if r' = r then [] else heard r ms)"
| "heard r (x # ms) = heard r ms"

fun is_close :: "'e move \<Rightarrow> bool" where
  "is_close (Close r) = True"
| "is_close x = False"

fun plain_for :: "string \<Rightarrow> 'e move \<Rightarrow> bool" where
  "plain_for r (Publish r' eid e) = (r' = r \<longrightarrow> eid = None)"
| "plain_for r Reset = False"
| "plain_for r x = True"

definition calm :: "nat \<Rightarrow> nat \<Rightarrow> string \<Rightarrow> 'e move list \<Rightarrow> bool" where
  "calm m n r ms = (length (heard r ms) \<le> m \<and> length (filter is_close ms) \<le> n \<and> list_all (plain_for r) ms)"

text \<open>A subscriber that cannot go on until something happens, or has returned.\<close>

definition at_rest :: "'e bus \<Rightarrow> 'e subscriber \<Rightarrow> bool" where
  "at_rest b s = (case sb_phase s of Ended \<Rightarrow> True | Wait a g \<Rightarrow> sl_sets (bu_slots b ! a) = g | _ \<Rightarrow> False)"

lemma heard_snoc:
  "heard r (ms @ [x]) = heard r ms @ (case x of Publish r' eid e \<Rightarrow> if r' = r \<and> Close r \<notin> set ms then [e] else [] | _ \<Rightarrow> [])"
  by (induction r ms rule: heard.induct) (auto split: move.split)

lemma calm_snoc: "calm m n r (ms @ [x]) \<Longrightarrow> calm m n r ms"
  by (auto simp: calm_def heard_snoc)

definition in_sequence :: "'e list \<Rightarrow> (int \<times> 'e) list" where
  "in_sequence es = zip (map int [0..<length es]) es"

lemma in_sequence_simps [simp]:
  "length (in_sequence es) = length es" "i < length es \<Longrightarrow> in_sequence es ! i = (int i, es ! i)" "in_sequence [] = []"
  "in_sequence (es @ [e]) = in_sequence es @ [(int (length es), e)]"
  by (simp_all add: in_sequence_def)

definition between :: "int \<Rightarrow> int \<Rightarrow> (int \<times> 'e) list \<Rightarrow> (int \<times> 'e) list" where
  "between lo hi xs = filter (\<lambda>(i, _). lo < i \<and> i \<le> hi) xs"

lemma between_snoc: "between lo hi (xs @ [x]) = between lo hi xs @ (if lo < fst x \<and> fst x \<le> hi then [x] else [])"
  by (auto simp: between_def split: prod.splits)

lemma between_none [simp]: "between lo lo xs = []"
  by (auto simp: between_def filter_empty_conv)

lemma between_step:
  assumes "lo \<le> hi" "hi < int i" "i < length es" "\<And>j. j < i \<Longrightarrow> int j \<le> hi"
  shows "between lo (int i) (in_sequence es) = between lo hi (in_sequence es) @ [in_sequence es ! i]"
  using assms(3)
proof (induction es rule: rev_induct)
  case (snoc e es)
  show ?case
  proof (cases "i < length es")
    case True
    have "\<not> int (length es) \<le> int i" "\<not> int (length es) \<le> hi" using True assms by auto
    then show ?thesis using snoc.IH [OF True] True by (simp add: between_snoc nth_append)
  next
    case False
    then have i: "i = length es" using snoc.prems by simp
    have "between lo (int i) (in_sequence es) = between lo hi (in_sequence es)"
      unfolding between_def
    proof (rule filter_cong [OF refl])
      fix x assume "x \<in> set (in_sequence es)"
      then obtain j where "j < length es" "fst x = int j" by (auto simp: in_set_conv_nth)
      then show "(case x of (k, _) \<Rightarrow> lo < k \<and> k \<le> int i) = (case x of (k, _) \<Rightarrow> lo < k \<and> k \<le> hi)"
        using assms(1,2,4) i by (cases x) force
    qed
    then show ?thesis using i assms by (auto simp: between_snoc nth_append)
  qed
qed simp

lemma between_all: "(\<And>j. j < length es \<Longrightarrow> int j \<le> hi) \<Longrightarrow> map snd (between lo hi (in_sequence es)) = drop (nat (lo + 1)) es"
proof (induction es rule: rev_induct)
  case (snoc e es)
  have "map snd (between lo hi (in_sequence es)) = drop (nat (lo + 1)) es" by (rule snoc.IH) (simp add: snoc.prems)
  moreover have "int (length es) \<le> hi" using snoc.prems [of "length es"] by simp
  moreover have "(nat (lo + 1) \<le> length es) = (lo < int (length es))" by (simp add: nat_le_iff) linarith
  ultimately show ?case by (auto simp: between_snoc)
qed (simp add: between_def)

text \<open>What holds of a subscriber of the run at address \<open>a\<close>, whose queue is the numbered list of \<open>es\<close>.\<close>

definition sub_calm :: "'e bus \<Rightarrow> nat \<Rightarrow> 'e list \<Rightarrow> 'e subscriber \<Rightarrow> bool" where
  "sub_calm b a es s =
     (sb_got s = between (sb_floor s) (sb_last s) (in_sequence es) \<and> sb_floor s \<le> sb_last s
      \<and> (sb_last s = sb_floor s \<or> sb_last s < int (length es))
      \<and> (case sb_phase s of
           Scan a' i \<Rightarrow> a' = a \<and> i \<le> length es \<and> (\<forall>j < i. int j \<le> sb_last s)
         | Wait a' g \<Rightarrow> a' = a \<and> g \<le> sl_sets (bu_slots b ! a) \<and> (g = sl_sets (bu_slots b ! a) \<longrightarrow> (\<forall>j < length es. int j \<le> sb_last s))
         | Ended \<Rightarrow> sb_run s \<in> bu_closed b \<and> (\<forall>j < length es. int j \<le> sb_last s)
         | Key_error \<Rightarrow> False))"

lemma start_scan_calm: "sub_calm b a es s \<Longrightarrow> bu_at b (sb_run s) = Some a \<Longrightarrow> sub_calm b a es (start_scan b s)"
  by (simp add: sub_calm_def start_scan_def)

text \<open>A subscriber is not disturbed by a change of the bus that leaves its list and never unsets a wake-up.\<close>

lemma sub_calm_frame:
  assumes "sub_calm b a es s" "sl_sets (bu_slots b ! a) \<le> sl_sets (bu_slots b' ! a)" "bu_closed b \<subseteq> bu_closed b'"
  shows "sub_calm b' a es s"
  using assms unfolding sub_calm_def by (cases "sb_phase s") auto

lemma sub_calm_grow:
  assumes "sub_calm b a es s" "sl_sets (bu_slots b ! a) < sl_sets (bu_slots b' ! a)" "sb_run s \<notin> bu_closed b"
  shows "sub_calm b' a (es @ [e]) s"
proof -
  have "sb_got s = between (sb_floor s) (sb_last s) (in_sequence (es @ [e]))"
    using assms(1) by (auto simp: sub_calm_def between_snoc)
  then show ?thesis using assms unfolding sub_calm_def by (cases "sb_phase s") auto
qed

lemma sub_calm_step:
  assumes s: "sub_calm b a es s" and at: "bu_at b (sb_run s) = Some a" and q: "sl_queue (bu_slots b ! a) = in_sequence es"
    and a: "a < length (bu_slots b)" and step: "sub_step b s = (s', b')"
  shows "sub_calm b' a es s' \<and> sb_run s' = sb_run s \<and> (b' = b \<or> b' = on_slot a (\<lambda>sl. sl\<lparr>sl_flag := False\<rparr>) b)"
proof -
  let ?clear = "on_slot a (\<lambda>sl. sl\<lparr>sl_flag := False\<rparr>) b"
  have clear: "sub_calm ?clear a es (start_scan b s)"
    by (rule sub_calm_frame [OF start_scan_calm [OF s at]]) (use a in \<open>simp_all add: on_slot_def\<close>)
  have run: "sb_run (start_scan b s) = sb_run s" by (simp add: start_scan_def)
  show ?thesis
  proof (cases "sb_phase s")
    case (Scan a' i)
    with s have a': "a' = a" and i: "i \<le> length es" and before: "\<And>j. j < i \<Longrightarrow> int j \<le> sb_last s" by (auto simp: sub_calm_def)
    show ?thesis
    proof (cases "i < length es")
      case True
      have st: "s' = (look_at (int i, es ! i) s)\<lparr>sb_phase := Scan a (Suc i)\<rparr>" "b' = b"
        using step Scan a' True q by (simp_all add: sub_step_def)
      show ?thesis
      proof (cases "int i \<le> sb_last s")
        case True
        with s st \<open>i < length es\<close> before show ?thesis by (auto simp: sub_calm_def look_at_def less_Suc_eq)
      next
        case False
        have "between (sb_floor s) (int i) (in_sequence es) = sb_got s @ [(int i, es ! i)]"
          using between_step [of "sb_floor s" "sb_last s" i es] s False True before by (simp add: sub_calm_def)
        with s st False True before show ?thesis by (force simp: sub_calm_def look_at_def less_Suc_eq)
      qed
    next
      case False
      then have all: "\<forall>j < length es. int j \<le> sb_last s" using i before by auto
      have "end_of_pass b s = (s', b')" using step Scan a' False q by (simp add: sub_step_def)
      then show ?thesis
        using s at all clear run unfolding end_of_pass_def by (auto simp: sub_calm_def split: if_splits)
    qed
  next
    case (Wait a' g)
    with s have "a' = a" by (simp add: sub_calm_def)
    with step Wait s clear run show ?thesis by (auto simp: sub_step_def split: if_splits)
  qed (use s step in \<open>auto simp: sub_step_def\<close>)
qed

definition homed :: "string \<Rightarrow> nat \<Rightarrow> 'e list \<Rightarrow> 'e bus \<Rightarrow> bool" where
  "homed r a es b =
     (bu_at b r = Some a \<and> (\<forall>r' a'. bu_at b r' = Some a' \<longrightarrow> a' < length (bu_slots b) \<and> (a' = a \<longrightarrow> r' = r))
      \<and> sl_queue (bu_slots b ! a) = in_sequence es \<and> sl_next (bu_slots b ! a) = int (length es))"

lemma homedD:
  assumes "homed r a es b"
  shows "bu_at b r = Some a" "a < length (bu_slots b)" "bu_at b r' = Some a' \<Longrightarrow> a' < length (bu_slots b)"
    "bu_at b r' = Some a \<Longrightarrow> r' = r" "sl_queue (bu_slots b ! a) = in_sequence es" "sl_next (bu_slots b ! a) = int (length es)"
  using assms unfolding homed_def by blast+

lemma homed_ensure: "homed r a es b \<Longrightarrow> homed r a es (ensure r' b)"
proof -
  assume h: "homed r a es b"
  note d = homedD [OF h]
  show ?thesis
  proof (cases "bu_at b r'")
    case None
    have eq: "ensure r' b = b\<lparr>bu_slots := bu_slots b @ [new_slot], bu_at := (bu_at b)(r' \<mapsto> length (bu_slots b))\<rparr>"
      using None by (simp add: ensure_def)
    have ne: "r' \<noteq> r" using d(1) None by auto
    have addr: "x < length (bu_slots (ensure r' b)) \<and> (x = a \<longrightarrow> y = r)" if "bu_at (ensure r' b) y = Some x" for x y
    proof (cases "y = r'")
      case True
      with that d(2) show ?thesis by (simp add: eq)
    next
      case False
      with that have y: "bu_at b y = Some x" by (simp add: eq)
      from d(3) [OF y] d(4) [of y] y show ?thesis by (simp add: eq)
    qed
    have "bu_at (ensure r' b) r = Some a" "sl_queue (bu_slots (ensure r' b) ! a) = in_sequence es" "sl_next (bu_slots (ensure r' b) ! a) = int (length es)"
      using ne d(1,2,5,6) by (simp_all add: eq nth_append)
    with addr show ?thesis unfolding homed_def by blast
  qed (use h in \<open>simp add: ensure_def\<close>)
qed

lemma homed_on_slot:
  assumes "homed r a es b" "sl_queue (f (bu_slots b ! a)) = sl_queue (bu_slots b ! a)" "sl_next (f (bu_slots b ! a)) = sl_next (bu_slots b ! a)"
  shows "homed r a es (on_slot a' f b)"
  using assms unfolding homed_def on_slot_def by (cases "a' = a") auto

lemma homed_calls [simp]: "homed r a es (b\<lparr>bu_calls := cs\<rparr>) = homed r a es b"
  by (simp add: homed_def)

lemma homed_closed [simp]: "homed r a es (b\<lparr>bu_closed := C, bu_order := ord\<rparr>) = homed r a es b"
  by (simp add: homed_def)

definition calm_world :: "string \<Rightarrow> bool \<Rightarrow> 'e list \<Rightarrow> 'e bus \<times> 'e subscriber list \<Rightarrow> bool" where
  "calm_world r shut es w =
     (\<exists>a. homed r a es (fst w) \<and> (r \<in> bu_closed (fst w)) = shut \<and> list_all (\<lambda>s. sb_run s = r \<longrightarrow> sub_calm (fst w) a es s) (snd w))"

lemma calm_worldI:
  "homed r a es b \<Longrightarrow> (r \<in> bu_closed b) = shut \<Longrightarrow> list_all (\<lambda>s. sb_run s = r \<longrightarrow> sub_calm b a es s) ss \<Longrightarrow> calm_world r shut es (b, ss)"
  by (auto simp: calm_world_def)

lemma frame_all:
  "list_all (\<lambda>s. sb_run s = r \<longrightarrow> sub_calm b a es s) ss \<Longrightarrow> sl_sets (bu_slots b ! a) \<le> sl_sets (bu_slots b' ! a) \<Longrightarrow>
   bu_closed b \<subseteq> bu_closed b' \<Longrightarrow> list_all (\<lambda>s. sb_run s = r \<longrightarrow> sub_calm b' a es s) ss"
  using sub_calm_frame by (fastforce simp: list_all_iff)

lemma sets_ensure: "a < length (bu_slots b) \<Longrightarrow> bu_slots (ensure r' b) ! a = bu_slots b ! a"
  by (simp add: ensure_def nth_append split: option.split)

lemma sets_on_slot:
  "sl_sets (bu_slots b ! a) \<le> sl_sets (f (bu_slots b ! a)) \<Longrightarrow> sl_sets (bu_slots b ! a) \<le> sl_sets (bu_slots (on_slot a' f b) ! a)"
  by (cases "a < length (bu_slots b)"; cases "a' = a") (simp_all add: on_slot_def list_update_beyond)

lemma calm_publish_other:
  assumes h: "homed r a es b" and p: "publish r' eid e b = Some b'" and ne: "r' \<noteq> r"
  shows "homed r a es b'" "bu_slots b' ! a = bu_slots b ! a" "bu_closed b' = bu_closed b"
proof -
  have "homed r a es b' \<and> bu_slots b' ! a = bu_slots b ! a \<and> bu_closed b' = bu_closed b"
  proof (cases "r' \<in> bu_closed b")
    case False
    with p obtain a' n where a': "bu_at b r' = Some a'" and n: "own_number eid = Inr n"
      by (auto simp: publish_def split: option.splits sum.splits)
    have na: "a' \<noteq> a" using a' homedD(4) [OF h] ne by auto
    have "homed r a es (on_slot a' f b)" for f using h na unfolding homed_def on_slot_def by simp
    then show ?thesis using p False a' n na by (auto simp: publish_def Let_def on_slot_keeps) (simp_all add: on_slot_def)
  qed (use p h in \<open>simp add: publish_def\<close>)
  then show "homed r a es b'" "bu_slots b' ! a = bu_slots b ! a" "bu_closed b' = bu_closed b" by simp_all
qed

lemma calm_publish_own:
  assumes h: "homed r a es b" and r: "r \<notin> bu_closed b" and room: "length es < bu_replay_max b"
    and ss: "list_all (\<lambda>s. sb_run s = r \<longrightarrow> sub_calm b a es s) ss"
  obtains b' where "publish r None e b = Some b'" "calm_world r False (es @ [e]) (b', ss)"
proof -
  define b' where "b' = the (publish r None e b)"
  have b': "publish r None e b = Some b'" "bu_at b' = bu_at b" "bu_closed b' = bu_closed b"
    "bu_slots b' = (bu_slots b)[a := push_event (bu_replay_max b) None e (bu_slots b ! a)]"
    using r homedD(1) [OF h] by (simp_all add: b'_def publish_def Let_def on_slot_def)
  have new: "bu_slots b' ! a = push_event (bu_replay_max b) None e (bu_slots b ! a)" using homedD(2) [OF h] b' by simp
  have "homed r a (es @ [e]) b'"
    using h room b' new homedD(2) [OF h] by (simp add: homed_def push_event_def wake_set_def keep_last_def Let_def)
  moreover have "list_all (\<lambda>s. sb_run s = r \<longrightarrow> sub_calm b' a (es @ [e]) s) ss"
    using ss sub_calm_grow [of b a es _ b' e] r new by (auto simp: list_all_iff push_event_def wake_set_def Let_def)
  ultimately have "calm_world r False (es @ [e]) (b', ss)" using r b' by (intro calm_worldI) simp_all
  with b'(1) show ?thesis by (rule that)
qed

lemma close_run_room:
  assumes "r' \<notin> bu_closed b" "length (bu_order b) < bu_retain b"
  shows "close_run r' b = (on_slot (the (bu_at (ensure r' b) r')) wake_set (ensure r' b))\<lparr>bu_closed := insert r' (bu_closed b), bu_order := bu_order b @ [r']\<rparr>"
proof -
  have k: "length (bu_order b @ [r']) - bu_retain b = 0" using assms(2) by simp
  show ?thesis unfolding close_run_eq [OF assms(1)] k Let_def by simp
qed

lemma calm_play:
  assumes w: "calm_world r shut es (b, ss)" and plain: "plain_for r x"
    and room: "\<And>e. x = Publish r None e \<Longrightarrow> \<not> shut \<Longrightarrow> length es < bu_replay_max b"
    and keep: "is_close x \<Longrightarrow> length (bu_order b) < bu_retain b"
  shows "calm_world r (shut \<or> x = Close r) (es @ (case x of Publish r' eid e \<Rightarrow> if r' = r \<and> \<not> shut then [e] else [] | _ \<Rightarrow> [])) (play x (b, ss))"
proof -
  obtain a where h: "homed r a es b" and shut: "(r \<in> bu_closed b) = shut"
    and ss: "list_all (\<lambda>s. sb_run s = r \<longrightarrow> sub_calm b a es s) ss"
    using w by (auto simp: calm_world_def)
  have frame: "calm_world r shut' es (b', ss)"
    if "homed r a es b'" "sl_sets (bu_slots b ! a) \<le> sl_sets (bu_slots b' ! a)" "bu_closed b \<subseteq> bu_closed b'" "(r \<in> bu_closed b') = shut'" for b' shut'
    using that(1,4) frame_all [OF ss that(2,3)] by (rule calm_worldI)
  have grown: "homed r a es (ensure r' b)" "bu_slots (ensure r' b) ! a = bu_slots b ! a" for r'
    using homed_ensure [OF h] sets_ensure [OF homedD(2) [OF h]] by auto
  show ?thesis
  proof (cases x)
    case (Publisher r')
    then show ?thesis using frame [OF grown(1)] grown(2) shut by simp
  next
    case (Publish r' eid e)
    show ?thesis
    proof (cases "r' = r \<and> \<not> shut")
      case True
      then have eid: "eid = None" using plain Publish by simp
      obtain b' where b': "publish r None e b = Some b'" "calm_world r False (es @ [e]) (b', ss)"
        by (rule calm_publish_own [OF h _ _ ss]) (use True shut room eid Publish in simp_all)
      then show ?thesis using True Publish eid by simp
    next
      case False
      show ?thesis
      proof (cases "r' = r")
        case True
        then have "publish r' eid e b = Some b" using False shut by (simp add: publish_def)
        then show ?thesis using w False Publish by auto
      next
        case False
        then show ?thesis using w Publish shut calm_publish_other [OF h _ False]
          by (auto intro!: frame split: option.split)
      qed
    qed
  next
    case (Sink r' k)
    have "homed r a es (on_slot a' (\<lambda>sl. sl\<lparr>sl_sinks := xs\<rparr>) (ensure r' b))
        \<and> sl_sets (bu_slots b ! a) \<le> sl_sets (bu_slots (on_slot a' (\<lambda>sl. sl\<lparr>sl_sinks := xs\<rparr>) (ensure r' b)) ! a)" for a' xs
      using homed_on_slot [OF grown(1)] sets_on_slot [of "ensure r' b" a "\<lambda>sl. sl\<lparr>sl_sinks := xs\<rparr>" a'] grown(2) by simp
    then show ?thesis using grown shut by (auto simp: Sink add_sink_def Let_def intro!: frame split: option.split)
  next
    case (Drop_sinks r')
    have "homed r a es (on_slot a' (\<lambda>sl. sl\<lparr>sl_sinks := None\<rparr>) b)
        \<and> sl_sets (bu_slots b ! a) \<le> sl_sets (bu_slots (on_slot a' (\<lambda>sl. sl\<lparr>sl_sinks := None\<rparr>) b) ! a)" for a'
      using homed_on_slot [OF h] sets_on_slot [of b a "\<lambda>sl. sl\<lparr>sl_sinks := None\<rparr>" a'] by simp
    then show ?thesis using h shut by (auto simp: Drop_sinks drop_sinks_def intro!: frame split: option.split)
  next
    case (Close r')
    show ?thesis
    proof (cases "r' \<in> bu_closed b")
      case True
      then show ?thesis using frame [OF grown(1)] grown(2) shut Close by (cases "r' = r") (auto simp: close_run_def)
    next
      case False
      define b1 where "b1 = on_slot (the (bu_at (ensure r' b) r')) wake_set (ensure r' b)"
      have "homed r a es b1" unfolding b1_def by (rule homed_on_slot [OF grown(1)]) (simp_all add: wake_set_def)
      moreover have "sl_sets (bu_slots b ! a) \<le> sl_sets (bu_slots b1 ! a)"
        using sets_on_slot [of "ensure r' b" a wake_set] grown(2) by (simp add: b1_def wake_set_def)
      ultimately show ?thesis
        using frame [of "close_run r' b" "shut \<or> r' = r"] shut Close keep close_run_room [OF False] by (auto simp: b1_def)
    qed
  next
    case Reset
    with plain show ?thesis by simp
  next
    case (Join r' fl)
    let ?s = "fst (subscribe r' fl b)"
    have "list_all (\<lambda>s. sb_run s = r \<longrightarrow> sub_calm (ensure r' b) a es s) ss" using frame_all [OF ss] grown(2) by simp
    moreover have "sb_run ?s = r \<longrightarrow> sub_calm (ensure r' b) a es ?s"
      using homedD(1) [OF grown(1)] by (auto simp: subscribe_def start_scan_def sub_calm_def)
    ultimately have "calm_world r shut es (ensure r' b, ss @ [?s])" using grown(1) shut by (intro calm_worldI) simp_all
    then show ?thesis by (simp add: Join subscribe_def)
  next
    case (Resume i)
    show ?thesis
    proof (cases "i < length ss")
      case True
      obtain s' b' where st: "sub_step b (ss ! i) = (s', b')" by (cases "sub_step b (ss ! i)")
      have run: "sb_run s' = sb_run (ss ! i)" and b': "b' = b \<or> (\<exists>a'. b' = on_slot a' (\<lambda>sl. sl\<lparr>sl_flag := False\<rparr>) b)"
        using st by (auto simp: sub_step_def end_of_pass_def start_scan_def look_at_def split: sub_phase.splits if_splits option.splits)
      have clear: "homed r a es (on_slot a' (\<lambda>sl. sl\<lparr>sl_flag := False\<rparr>) b)
          \<and> sl_sets (bu_slots b ! a) \<le> sl_sets (bu_slots (on_slot a' (\<lambda>sl. sl\<lparr>sl_flag := False\<rparr>) b) ! a)" for a'
        using homed_on_slot [OF h] sets_on_slot [of b a "\<lambda>sl. sl\<lparr>sl_flag := False\<rparr>" a'] by simp
      have same: "homed r a es b'" "sl_sets (bu_slots b ! a) \<le> sl_sets (bu_slots b' ! a)" "bu_closed b' = bu_closed b"
        using b' clear h by auto
      have "sub_calm b' a es s'" if "sb_run s' = r"
      proof -
        have old: "sub_calm b a es (ss ! i)" using ss True that run by (simp add: list_all_length)
        have at: "bu_at b (sb_run (ss ! i)) = Some a" using that run homedD(1) [OF h] by simp
        from sub_calm_step [OF old at homedD(5) [OF h] homedD(2) [OF h] st] show ?thesis by simp
      qed
      then have "list_all (\<lambda>s. sb_run s = r \<longrightarrow> sub_calm b' a es s) (ss[i := s'])"
        using frame_all [OF ss same(2)] same(3) by (intro list_all_update) simp_all
      then have "calm_world r shut es (b', ss[i := s'])" using same shut by (intro calm_worldI) simp_all
      then show ?thesis using True st by (simp add: Resume)
    qed (use w in \<open>simp add: Resume\<close>)
  qed
qed

lemma bounded_plays: "bounded_bus m n (fst (plays ms (new_bus m n, [])))"
proof (induction ms rule: rev_induct)
  case Nil
  show ?case by (simp add: plays_def bounded_bus_def new_bus_def)
next
  case (snoc x ms)
  then show ?case using bounded_play by (simp add: plays_def)
qed

lemma order_play: "length (bu_order (fst (play x w))) \<le> length (bu_order (fst w)) + (if is_close x then 1 else 0)"
proof (induction x w rule: play.induct)
  case (2 r eid e b ss)
  show ?case by (auto simp: publish_def Let_def split: option.splits sum.splits)
next
  case (3 r s b ss)
  show ?case by (auto simp: add_sink_def Let_def split: option.split)
next
  case (4 r b ss)
  show ?case by (simp add: drop_sinks_def split: option.split)
next
  case (5 r b ss)
  show ?case by (cases "r \<in> bu_closed b") (simp_all add: close_run_eq Let_def, simp add: close_run_def)
next
  case (8 i b ss)
  have "bu_order (snd (sub_step b s)) = bu_order b" for s
    by (auto simp: sub_step_def end_of_pass_def split: sub_phase.split option.split)
  then show ?case by (auto split: prod.split) (metis order_refl snd_conv)
qed (simp_all add: subscribe_def reset_bus_def)

lemma order_plays: "length (bu_order (fst (plays ms (new_bus m n, [])))) \<le> length (filter is_close ms)"
proof (induction ms rule: rev_induct)
  case (snoc x ms)
  then show ?case using order_play [of x "plays ms (new_bus m n, [])"] by (cases "is_close x") (auto simp: plays_def)
qed (simp add: plays_def new_bus_def)

lemma calm_plays:
  assumes "calm m n r ms"
  shows "calm_world r (Close r \<in> set ms) (heard r ms) (plays ms (play (Publisher r) (new_bus m n, [])))"
  using assms
proof (induction ms rule: rev_induct)
  case Nil
  show ?case by (simp add: plays_def calm_world_def homed_def new_bus_def ensure_def new_slot_def)
next
  case (snoc x ms)
  let ?w = "plays (Publisher r # ms) (new_bus m n, [])"
  have w: "?w = plays ms (play (Publisher r) (new_bus m n, []))" by (simp add: plays_def)
  obtain b ss where bs: "?w = (b, ss)" by (cases ?w)
  have bb: "bounded_bus m n b" using bounded_plays [of m n "Publisher r # ms"] bs by simp
  have ord: "length (bu_order b) \<le> length (filter is_close ms)" using order_plays [of "Publisher r # ms" m n] bs by simp
  have calm: "calm_world r (Close r \<in> set ms) (heard r ms) (b, ss)" using snoc.IH [OF calm_snoc [OF snoc.prems]] w bs by simp
  have plain: "plain_for r x" using snoc.prems by (simp add: calm_def)
  have "calm_world r (Close r \<in> set ms \<or> x = Close r) (heard r (ms @ [x])) (play x (b, ss))"
    unfolding heard_snoc
    by (rule calm_play [OF calm plain]) (use snoc.prems bb ord in \<open>auto simp: calm_def heard_snoc bounded_bus_def\<close>)
  then show ?case using bs unfolding w by (simp add: plays_def disj_commute eq_commute [of x])
qed

text \<open>A subscriber that is resumed often enough comes to rest.\<close>

fun resumed :: "nat \<Rightarrow> 'e bus \<Rightarrow> 'e subscriber \<Rightarrow> 'e bus \<times> 'e subscriber" where
  "resumed 0 b s = (b, s)"
| "resumed (Suc k) b s = (case sub_step b s of (s1, b1) \<Rightarrow> resumed k b1 s1)"

lemma resumed_add: "resumed (j + k) b s = (case resumed j b s of (b1, s1) \<Rightarrow> resumed k b1 s1)"
  by (induction j arbitrary: b s) (auto split: prod.split)

lemma scan_to_the_end:
  assumes "sb_phase s = Scan a i" "i \<le> length (sl_queue (bu_slots b ! a))"
  obtains s' where "resumed (length (sl_queue (bu_slots b ! a)) - i) b s = (b, s')" "sb_phase s' = Scan a (length (sl_queue (bu_slots b ! a)))" "sb_run s' = sb_run s"
proof -
  have "\<exists>s'. resumed k b s = (b, s') \<and> sb_phase s' = Scan a (i + k) \<and> sb_run s' = sb_run s"
    if "i + k \<le> length (sl_queue (bu_slots b ! a))" "sb_phase s = Scan a i" for k i s
    using that
  proof (induction k arbitrary: i s)
    case (Suc k)
    let ?s = "(look_at (sl_queue (bu_slots b ! a) ! i) s)\<lparr>sb_phase := Scan a (Suc i)\<rparr>"
    have "sub_step b s = (?s, b)" using Suc.prems by (simp add: sub_step_def)
    moreover have "sb_run ?s = sb_run s" by (simp add: look_at_def)
    moreover have "\<exists>s'. resumed k b ?s = (b, s') \<and> sb_phase s' = Scan a (Suc i + k) \<and> sb_run s' = sb_run ?s"
      using Suc.prems by (intro Suc.IH) simp_all
    ultimately show ?case by auto
  qed simp
  from this [of i "length (sl_queue (bu_slots b ! a)) - i" s] assms that show ?thesis by auto
qed

definition settled :: "'e bus \<times> 'e subscriber \<Rightarrow> bool" where
  "settled x = (at_rest (fst x) (snd x) \<or> sb_phase (snd x) = Key_error)"

definition well_placed :: "nat \<Rightarrow> 'e bus \<Rightarrow> bool" where
  "well_placed m b = (list_all (\<lambda>sl. length (sl_queue sl) \<le> m) (bu_slots b) \<and> (\<forall>r a. bu_at b r = Some a \<longrightarrow> a < length (bu_slots b)))"

lemma one_pass:
  assumes "well_placed m b" "sb_phase s = Scan a i" "i \<le> length (sl_queue (bu_slots b ! a))" "a < length (bu_slots b)"
  obtains k s1 where "k \<le> m + 1" "sb_run s1 = sb_run s" "resumed k b s = (snd (end_of_pass b s1), fst (end_of_pass b s1))"
proof -
  let ?k = "length (sl_queue (bu_slots b ! a)) - i"
  obtain s1 where s1: "resumed ?k b s = (b, s1)" "sb_phase s1 = Scan a (length (sl_queue (bu_slots b ! a)))" "sb_run s1 = sb_run s"
    by (rule scan_to_the_end [OF assms(2,3)])
  have "sub_step b s1 = end_of_pass b s1" using s1(2) by (simp add: sub_step_def)
  then have "resumed (?k + 1) b s = (snd (end_of_pass b s1), fst (end_of_pass b s1))"
    unfolding resumed_add s1(1) by (simp add: prod.case_eq_if)
  moreover have "?k + 1 \<le> m + 1" using assms(1,4) by (auto simp: well_placed_def list_all_length intro: le_trans diff_le_self)
  ultimately show ?thesis using s1(3) that by blast
qed

lemma end_unsettled:
  assumes "\<not> settled (snd (end_of_pass b s), fst (end_of_pass b s))"
  obtains a where "bu_at b (sb_run s) = Some a" "sl_flag (bu_slots b ! a)" "sb_run s \<notin> bu_closed b"
proof (cases "sb_run s \<in> bu_closed b")
  case True
  then show ?thesis using assms by (simp add: end_of_pass_def settled_def at_rest_def)
next
  case False
  show ?thesis
  proof (cases "bu_at b (sb_run s)")
    case None
    then show ?thesis using assms False by (simp add: end_of_pass_def settled_def)
  next
    case (Some a)
    then show ?thesis using assms False that by (cases "sl_flag (bu_slots b ! a)") (simp_all add: end_of_pass_def settled_def at_rest_def)
  qed
qed

text \<open>A subscriber that nothing disturbs comes to rest, or is gone with its run, within \<open>2 * m + 2\<close> resumptions.\<close>

lemma comes_to_rest:
  assumes b: "well_placed m b" and ph: "sb_phase s = Scan a i" "a < length (bu_slots b)" "i \<le> length (sl_queue (bu_slots b ! a))"
  shows "\<exists>k \<le> 2 * m + 2. settled (resumed k b s)"
proof -
  obtain k s1 where k: "k \<le> m + 1" "sb_run s1 = sb_run s" "resumed k b s = (snd (end_of_pass b s1), fst (end_of_pass b s1))"
    by (rule one_pass [OF b ph(1,3,2)])
  show ?thesis
  proof (cases "settled (resumed k b s)")
    case True
    then show ?thesis using k(1) by (intro exI [of _ k]) simp
  next
    case False
    let ?s = "start_scan b s1"
    from False obtain a' where a': "bu_at b (sb_run s1) = Some a'" "sl_flag (bu_slots b ! a')" "sb_run s1 \<notin> bu_closed b"
      using end_unsettled [of b s1] unfolding k(3) by blast
    let ?b = "on_slot a' (\<lambda>sl. sl\<lparr>sl_flag := False\<rparr>) b"
    have again: "resumed k b s = (?b, ?s)" using k(3) a' by (simp add: end_of_pass_def)
    have len: "a' < length (bu_slots b)" using b a'(1) by (auto simp: well_placed_def)
    have wp: "well_placed m ?b" using b len by (auto simp: well_placed_def list_all_length on_slot_def nth_list_update)
    have scan: "sb_phase ?s = Scan a' 0" "sb_run ?s = sb_run s1" using a'(1) by (simp_all add: start_scan_def)
    obtain j s2 where j: "j \<le> m + 1" "sb_run s2 = sb_run ?s" "resumed j ?b ?s = (snd (end_of_pass ?b s2), fst (end_of_pass ?b s2))"
      by (rule one_pass [OF wp scan(1)]) (use len in simp_all)
    have "settled (resumed j ?b ?s)"
    proof (rule ccontr)
      assume "\<not> settled (resumed j ?b ?s)"
      then obtain x where "bu_at ?b (sb_run s2) = Some x" "sl_flag (bu_slots ?b ! x)"
        unfolding j(3) by (rule end_unsettled)
      then show False using a'(1) j(2) scan(2) len by (simp add: on_slot_def)
    qed
    then have "settled (resumed (k + j) b s)" unfolding resumed_add again by simp
    then show ?thesis using k(1) j(1) by (intro exI [of _ "k + j"]) simp
  qed
qed

text \<open>The finding: a subscriber that has looked at one event when the cap drops the head skips the next one, although it
  is still retained.\<close>

lemma trim_skips_an_event:
  "map snd (sb_got (hd (snd (plays [Publisher ''r'', Publish ''r'' None a, Publish ''r'' None b, Join ''r'' (- 1), Resume 0,
      Publish ''r'' None c, Resume 0, Resume 0, Resume 0, Resume 0] (new_bus 2 8, []))))) = [a, c]"
  by (simp add: plays_def new_bus_def ensure_def new_slot_def publish_def on_slot_def push_event_def wake_set_def keep_last_def
      subscribe_def start_scan_def sub_step_def look_at_def end_of_pass_def Let_def)

text \<open>The finding: a publisher of a run that was evicted raises instead of being ignored.\<close>

lemma evicted_publisher_raises:
  "publish ''a'' None e (fst (plays [Publisher ''a'', Close ''a'', Close ''b''] (new_bus 5 1, []))) = None"
  "publish ''a'' None e (fst (plays [Publisher ''a'', Close ''a''] (new_bus 5 1, []))) \<noteq> None"
  by (simp_all add: plays_def new_bus_def ensure_def new_slot_def publish_def on_slot_def wake_set_def close_run_def evict_run_def Let_def)

section \<open>What the bus promises\<close>

text \<open>Whatever happens to the bus, it stays bounded: at most \<open>n\<close> closed runs are retained, each with its list, the
  order of closing lists exactly the closed runs and each once, and no list ever exceeds the cap \<open>m\<close>.\<close>

theorem bus_is_bounded:
  "(case plays ms (new_bus m n, []) of (b, ss) \<Rightarrow>
      distinct (bu_order b) \<and> set (bu_order b) = bu_closed b \<and> length (bu_order b) \<le> n \<and> bu_closed b \<subseteq> dom (bu_at b)
      \<and> list_all (\<lambda>sl. length (sl_queue sl) \<le> m) (bu_slots b))"
  using bounded_plays [of m n ms] by (cases "plays ms (new_bus m n, [])") (simp add: bounded_bus_def)

text \<open>C37: in every history, whatever the order in which publishers, closings, evictions and other subscribers come in
  between, a subscriber gets only events published to its own run, each at most once, in the order of their ids and none at
  or below the id it asked to start after.\<close>

theorem delivery_in_order:
  fixes ms :: "'e move list"
  shows "list_all (\<lambda>s. sorted_wrt (<) (sb_floor s # map fst (sb_got s)) \<and> snd ` set (sb_got s) \<subseteq> {e. \<exists>eid. Publish (sb_run s) eid e \<in> set ms})
    (snd (plays ms (new_bus m n, [])))"
proof -
  let ?pub = "\<lambda>r. {e. \<exists>eid. Publish r eid e \<in> set ms}"
  have "set xs \<subseteq> set ms \<Longrightarrow> sound_world ?pub (plays xs (new_bus m n, []))" for xs
  proof (induction xs rule: rev_induct)
    case Nil
    show ?case by (simp add: plays_def sound_world_def belongs_def new_bus_def)
  next
    case (snoc x xs)
    have "sound_world ?pub (play x (plays xs (new_bus m n, [])))" by (rule sound_play) (use snoc in auto)
    then show ?case by (simp add: plays_def)
  qed
  from this [of ms] obtain own where "list_all (sound_subscriber ?pub own) (snd (plays ms (new_bus m n, [])))"
    by (auto simp: sound_world_def)
  then show ?thesis by (auto simp: list_all_iff sound_subscriber_def in_order_def)
qed

text \<open>C36: below the cap nothing is lost.  When a run's publishers say at most \<open>m\<close> things before it is closed, none with an
  id of its own, the bus is not reset and not so many runs are closed that one is evicted, every subscriber of the run that cannot go on, or has returned, has got all
  that was said from the id it asked to start after, in order, however it and the others were interleaved.\<close>

theorem nothing_is_lost:
  fixes ms :: "'e move list"
  assumes "calm m n r ms" "plays (Publisher r # ms) (new_bus m n, []) = (b, ss)" "s \<in> set ss" "sb_run s = r" "at_rest b s"
  shows "map snd (sb_got s) = drop (nat (sb_floor s + 1)) (heard r ms)"
proof -
  from calm_plays [OF assms(1)] assms(2) obtain a where "sub_calm b a (heard r ms) s"
    using assms(3,4) by (auto simp: plays_def calm_world_def list_all_iff)
  with assms(5) have "sb_got s = between (sb_floor s) (sb_last s) (in_sequence (heard r ms))" "\<forall>j < length (heard r ms). int j \<le> sb_last s"
    by (auto simp: sub_calm_def at_rest_def split: sub_phase.splits)
  then show ?thesis using between_all by metis
qed

definition sample_moves :: "nat move list" where
  "sample_moves = [Join ''r'' 0, Publish ''r'' None 7, Resume 0, Publish ''r'' None 8, Resume 0, Publish ''q'' None 1, Resume 0, Resume 0,
     Resume 0, Resume 0]"

theorem nothing_is_lost_witness:
  "map snd (sb_got (hd (snd (plays (Publisher ''r'' # sample_moves) (new_bus 3 2, []))))) = [8]"
proof -
  obtain b s where bs: "plays (Publisher ''r'' # sample_moves) (new_bus 3 2, []) = (b, [s])" "sb_run s = ''r''" "at_rest b s" "sb_floor s = 0"
    by (simp add: sample_moves_def plays_def new_bus_def ensure_def new_slot_def publish_def on_slot_def push_event_def wake_set_def keep_last_def
        subscribe_def start_scan_def sub_step_def look_at_def end_of_pass_def Let_def at_rest_def)
  have "calm 3 2 ''r'' sample_moves" by (simp add: calm_def sample_moves_def)
  from nothing_is_lost [OF this bs(1) _ bs(2,3)] have "map snd (sb_got s) = drop (nat (0 + 1)) (heard ''r'' sample_moves)" using bs(4) by simp
  then show ?thesis using bs(1) by (simp add: sample_moves_def)
qed

section \<open>Reading a persisted log\<close>

definition log_source :: "(pyval \<Rightarrow> string) \<Rightarrow> pydict \<Rightarrow> source" where
  "log_source rp d = \<lparr>so_run = py_str rp (py_or (dget d ''run_id'') (PStr ''unknown'')),
     so_worker = py_str rp (py_or (dget d ''worker'') (PStr ''unknown'')), so_model = str_opt (dget d ''model''),
     so_effort = str_opt (dget d ''effort''), so_branch = (case to_branch rp (dget d ''branch'') of None \<Rightarrow> PNone | Some i \<Rightarrow> PInt i)\<rparr>"

text \<open>An id: an integer of the row (a \<open>bool\<close> passes), or its line.\<close>

definition row_id :: "nat \<Rightarrow> pydict \<Rightarrow> int" where
  "row_id idx d = (case int_opt (dget d ''_event_id'') of None \<Rightarrow> int idx | Some i \<Rightarrow> i)"

fun replay_jsonl_from ::
  "(string \<Rightarrow> pyval option) \<Rightarrow> (pyval \<Rightarrow> string) \<Rightarrow> rat \<Rightarrow> int \<Rightarrow> nat \<Rightarrow> string list \<Rightarrow> bus_event list" where
  "replay_jsonl_from loads rp now lo idx [] = []"
| "replay_jsonl_from loads rp now lo idx (raw # ls) =
     (let rest = replay_jsonl_from loads rp now lo (Suc idx) ls
      in if py_strip raw = [] then rest
         else case loads (py_strip raw) of
           Some (PDict d) \<Rightarrow> if row_id idx d \<le> lo then rest else normalize_event rp now (log_source rp d) d # rest
         | _ \<Rightarrow> rest)"

definition replay_jsonl ::
  "(string \<Rightarrow> pyval option) \<Rightarrow> (pyval \<Rightarrow> string) \<Rightarrow> rat \<Rightarrow> string list option \<Rightarrow> string option \<Rightarrow> bus_event list" where
  "replay_jsonl loads rp now file last_event_id =
     (case file of None \<Rightarrow> [] | Some ls \<Rightarrow> replay_jsonl_from loads rp now (start_floor last_event_id None) 0 ls)"

fun replay_events_from ::
  "(string \<Rightarrow> pyval option) \<Rightarrow> (pyval \<Rightarrow> string) \<Rightarrow> rat \<Rightarrow> int \<Rightarrow> nat \<Rightarrow> string list \<Rightarrow> (int \<times> bus_event) list" where
  "replay_events_from loads rp now after idx [] = []"
| "replay_events_from loads rp now after idx (raw # ls) =
     (let rest = replay_events_from loads rp now after (Suc idx) ls
      in if py_strip raw = [] then rest
         else case loads (py_strip raw) of
           Some (PDict d) \<Rightarrow>
             if row_id idx d \<le> after then rest else (row_id idx d, normalize_event rp now (log_source rp d) d) # rest
         | _ \<Rightarrow> rest)"

definition replay_events ::
  "(string \<Rightarrow> pyval option) \<Rightarrow> (pyval \<Rightarrow> string) \<Rightarrow> rat \<Rightarrow> string list option \<Rightarrow> int \<Rightarrow> (int \<times> bus_event) list" where
  "replay_events loads rp now file after = (case file of None \<Rightarrow> [] | Some ls \<Rightarrow> replay_events_from loads rp now after 0 ls)"

text \<open>What a sink writes of an event.\<close>

definition event_to_dict :: "bus_event \<Rightarrow> pydict" where
  "event_to_dict e = [(''ts'', PFloat (be_ts e)), (''run_id'', PStr (be_run e)), (''worker'', PStr (be_worker e)),
     (''model'', PStr (be_model e)), (''effort'', PStr (be_effort e)),
     (''branch'', case be_branch e of None \<Rightarrow> PNone | Some i \<Rightarrow> PInt i), (''kind'', PStr (be_kind e)), (''text'', PStr (be_text e)),
     (''data'', PDict (be_data e))]"

section \<open>Laws of the log\<close>

lemma replay_events_from_snd: "map snd (replay_events_from loads rp now lo idx ls) = replay_jsonl_from loads rp now lo idx ls"
  by (induction ls arbitrary: idx) (auto simp: Let_def split: option.split pyval.split)

text \<open>The two readers agree.\<close>

lemma readers_agree:
  "replay_jsonl loads rp now file last_event_id = map snd (replay_events loads rp now file (start_floor last_event_id None))"
  by (simp add: replay_jsonl_def replay_events_def replay_events_from_snd split: option.split)

text \<open>An event as \<open>_normalize_worker_event\<close> leaves it.\<close>

definition clean_event :: "bus_event \<Rightarrow> bool" where
  "clean_event e = (be_kind e \<in> set worker_event_kinds \<and> be_run e \<noteq> [] \<and> be_worker e \<noteq> [] \<and> be_model e \<noteq> [] \<and> be_effort e \<noteq> [])"

lemma normalize_is_clean:
  assumes "so_run so \<noteq> []" "so_worker so \<noteq> []" "\<And>v. rp v \<noteq> []"
  shows "clean_event (normalize_event rp now so p)"
proof -
  have "show_nat n \<noteq> []" for n by (subst show_nat.simps) simp
  then have show_int_nonempty: "show_int i \<noteq> []" for i by (simp add: show_int_def)
  have nonempty: "truthy v \<Longrightarrow> py_str rp v \<noteq> []" for v
    using assms(3) by (cases v) (simp_all add: show_int_nonempty)
  have or: "d \<noteq> [] \<Longrightarrow> py_str rp (py_or v (PStr d)) \<noteq> []" for v d using nonempty by (simp add: py_or_def)
  have alt: "(case truthy_str x of None \<Rightarrow> ''n/a'' | Some s \<Rightarrow> s) \<noteq> []" for x
    by (auto simp: truthy_str_def split: option.split)
  have kind: "known_kind k \<in> set worker_event_kinds" for k by (simp add: known_kind_def worker_event_kinds_def)
  show ?thesis using or [OF assms(2)] or [OF alt] assms(1) kind by (simp add: clean_event_def normalize_event_def or_text_def)
qed

lemma normalize_clean:
  assumes "clean_event e"
  shows "normalize_event rp now (log_source rp (event_to_dict e)) (event_to_dict e) = e"
proof (rule bus_event.equality)
  let ?d = "event_to_dict e"
  have get: "dget ?d ''ts'' = PFloat (be_ts e)" "dget ?d ''run_id'' = PStr (be_run e)" "dget ?d ''worker'' = PStr (be_worker e)"
    "dget ?d ''model'' = PStr (be_model e)" "dget ?d ''effort'' = PStr (be_effort e)" "dget ?d ''kind'' = PStr (be_kind e)"
    "dget ?d ''branch'' = (case be_branch e of None \<Rightarrow> PNone | Some i \<Rightarrow> PInt i)" "dget_or ?d ''text'' x = PStr (be_text e)"
    "dget ?d ''data'' = PDict (be_data e)" for x
    by (simp_all add: event_to_dict_def)
  have kind: "be_kind e \<noteq> []" "known_kind (be_kind e) = be_kind e" using assms by (auto simp: clean_event_def known_kind_def worker_event_kinds_def)
  let ?e = "normalize_event rp now (log_source rp ?d) ?d"
  show "be_ts ?e = be_ts e" by (simp add: normalize_event_def get ev_float_def)
  show "be_run ?e = be_run e" "be_worker ?e = be_worker e" "be_model ?e = be_model e" "be_effort ?e = be_effort e" "be_kind ?e = be_kind e"
    using assms kind by (simp_all add: normalize_event_def get log_source_def py_or_def or_text_def clean_event_def)
  show "be_branch ?e = be_branch e" by (simp add: normalize_event_def get log_source_def to_branch_def split: option.split)
  show "be_text ?e = be_text e" "be_data ?e = be_data e" by (simp_all add: normalize_event_def get)
qed simp

lemma persisted_from:
  assumes "\<And>e. e \<in> set es \<Longrightarrow> py_strip (dump e) \<noteq> [] \<and> loads (py_strip (dump e)) = Some (PDict (event_to_dict e))" "list_all clean_event es"
  shows "replay_jsonl_from loads rp now (- 1) idx (map dump es) = es"
  using assms
proof (induction es arbitrary: idx)
  case (Cons e es)
  have "dget (event_to_dict e) ''_event_id'' = PNone" by (simp add: event_to_dict_def)
  then have "\<not> row_id idx (event_to_dict e) \<le> - 1" by (simp add: row_id_def)
  moreover have "replay_jsonl_from loads rp now (- 1) (Suc idx) (map dump es) = es" using Cons by simp
  moreover have "normalize_event rp now (log_source rp (event_to_dict e)) (event_to_dict e) = e" using Cons.prems(2) by (simp add: normalize_clean)
  ultimately show ?case using Cons.prems(1) [of e] by simp
qed simp

text \<open>C38: the log gives back what was published: when each event, as the publisher normalized it, is written as a line that
  the JSON reader reads as its dictionary, replaying the log yields the same events in the same order.\<close>

theorem log_round_trip:
  assumes "\<And>e. e \<in> set es \<Longrightarrow> py_strip (dump e) \<noteq> [] \<and> loads (py_strip (dump e)) = Some (PDict (event_to_dict e))"
    and "list_all clean_event es"
  shows "replay_jsonl loads rp now (Some (map dump es)) None = es"
  using persisted_from [OF assms] by (simp add: replay_jsonl_def start_floor_def)

theorem log_round_trip_witness:
  "\<exists>dump loads (es :: bus_event list). es \<noteq> [] \<and> replay_jsonl loads (\<lambda>_. ''?'') 0 (Some (map dump es)) None = es"
proof -
  define e where "e = normalize_event (\<lambda>_. ''?'') 5 \<lparr>so_run = ''r'', so_worker = ''codex'', so_model = None, so_effort = None, so_branch = PNone\<rparr>
    [(''kind'', PStr ''message''), (''text'', PStr ''hi'')]"
  have "clean_event e" unfolding e_def by (rule normalize_is_clean) simp_all
  then have "replay_jsonl (\<lambda>_. Some (PDict (event_to_dict e))) (\<lambda>_. ''?'') 0 (Some (map (\<lambda>_. ''x'') [e])) None = [e]"
    by (intro log_round_trip) (simp_all add: py_strip_def py_lstrip_def py_space_def)
  then show ?thesis by (intro exI [of _ "\<lambda>_. ''x''"] exI [of _ "\<lambda>_. Some (PDict (event_to_dict e))"] exI [of _ "[e]"]) simp
qed

end
