(* ===== verification/Verifier_Text.thy ===== *)
theory Verifier_Text
  imports Watchdog
begin

text \<open>
  The text handling of the verifier (\<^verbatim>\<open>execution/verifier.py\<close>): the limit it puts on the parallel test workers a
  command asks for, the failing tests it reads from an output, and the cut of a long log.
\<close>

section \<open>The limit on test workers\<close>

text \<open>A flag with its separator and count at the head of a text, and what follows:
  \<open>(--numprocesses|-n)(=|\s+|)(\d+)\<close>.\<close>

definition flag_at :: "string \<Rightarrow> (string \<times> string) option" where
  "flag_at s =
     (if prefix ''--numprocesses'' s then Some (''--numprocesses'', drop 14 s)
      else if prefix ''-n'' s then Some (''-n'', drop 2 s) else None)"

definition sep_of :: "string \<Rightarrow> string" where
  "sep_of s = (if prefix ''='' s then ''='' else takeWhile py_space s)"

definition count_at :: "string \<Rightarrow> (string \<times> string \<times> string) option" where
  "count_at s =
     (case flag_at s of None \<Rightarrow> None
      | Some (flag, u) \<Rightarrow>
          let sep = sep_of u; v = drop (length sep) u; ds = takeWhile is_digit v
          in if ds = [] then None else Some (flag @ sep, ds, drop (length ds) v))"

lemma count_at_length: "count_at s = Some (pre, ds, rest) \<Longrightarrow> length rest < length s"
  by (auto simp: count_at_def flag_at_def Let_def prefix_def split: if_splits)

text \<open>\<open>_clamp_xdist\<close>: a flag counts at the start of the command or after white space.\<close>

definition clamp_count :: "nat \<Rightarrow> string \<Rightarrow> string" where
  "clamp_count cpu ds = (if read_nat ds \<le> cpu then ds else show_nat cpu)"

definition match_at :: "bool \<Rightarrow> string \<Rightarrow> (string \<times> string \<times> string) option" where
  "match_at start s =
     (case (if start then count_at s else None) of
        Some m \<Rightarrow> Some m
      | None \<Rightarrow>
          (case s of [] \<Rightarrow> None
           | c # cs \<Rightarrow> if py_space c then map_option (\<lambda>(pre, ds, rest). (c # pre, ds, rest)) (count_at cs) else None))"

lemma match_at_length: "match_at start s = Some (pre, ds, rest) \<Longrightarrow> length rest < length s"
  by (auto simp: match_at_def dest!: count_at_length split: option.splits list.splits if_splits)

function clamp_scan :: "nat \<Rightarrow> bool \<Rightarrow> string \<Rightarrow> string" where
  "clamp_scan cpu start s =
     (case match_at start s of
        Some (pre, ds, rest) \<Rightarrow> pre @ clamp_count cpu ds @ clamp_scan cpu False rest
      | None \<Rightarrow> (case s of [] \<Rightarrow> [] | c # cs \<Rightarrow> c # clamp_scan cpu False cs))"
  by pat_completeness auto
termination
  by (relation "measure (\<lambda>(cpu, start, s). length s)") (auto dest!: match_at_length)

declare clamp_scan.simps [simp del]

lemma clamp_scan_eqs:
  "match_at start s = Some (pre, ds, rest) \<Longrightarrow> clamp_scan cpu start s = pre @ clamp_count cpu ds @ clamp_scan cpu False rest"
  "match_at start (c # cs) = None \<Longrightarrow> clamp_scan cpu start (c # cs) = c # clamp_scan cpu False cs"
  "clamp_scan cpu start [] = []"
  by (subst clamp_scan.simps, simp add: match_at_def count_at_def flag_at_def)+

definition clamp_xdist :: "bool \<Rightarrow> nat \<Rightarrow> string \<Rightarrow> string" where
  "clamp_xdist unbounded cpu cmd = (if unbounded then cmd else clamp_scan cpu True cmd)"

section \<open>What a failure reports\<close>

text \<open>\<open>^(?:FAILED|ERROR)\s+(\S+)\<close> in multi-line mode.\<close>

definition failed_at :: "string \<Rightarrow> (string \<times> string) option" where
  "failed_at s =
     (let u = (if prefix ''FAILED'' s then Some (drop 6 s) else if prefix ''ERROR'' s then Some (drop 5 s) else None)
      in case u of None \<Rightarrow> None
         | Some v \<Rightarrow>
             let sp = takeWhile py_space v; w = dropWhile py_space v; name = takeWhile (\<lambda>c. \<not> py_space c) w
             in if sp = [] \<or> name = [] then None else Some (name, drop (length name) w))"

lemma failed_at_length:
  assumes "failed_at s = Some (name, rest)"
  shows "length rest < length s"
proof -
  have shorter: "length (drop n (dropWhile py_space (drop k s))) < length s" if "k > 0" "s \<noteq> []" for k n
  proof -
    have "length (dropWhile py_space (drop k s)) \<le> length (drop k s)" by (rule length_dropWhile_le)
    moreover have "length (drop k s) < length s" using that by simp
    ultimately show ?thesis by simp
  qed
  show ?thesis
  proof (cases "s = []")
    case False
    with assms show ?thesis by (auto simp: failed_at_def Let_def simp del: length_drop intro: shorter split: if_splits)
  qed (use assms in \<open>simp add: failed_at_def Let_def\<close>)
qed

function failed_ids :: "bool \<Rightarrow> string \<Rightarrow> string list" where
  "failed_ids bol s =
     (case (if bol then failed_at s else None) of
        Some (name, rest) \<Rightarrow> name # failed_ids False rest
      | None \<Rightarrow> (case s of [] \<Rightarrow> [] | c # cs \<Rightarrow> failed_ids (c = lf) cs))"
  by pat_completeness auto
termination
  by (relation "measure (\<lambda>(bol, s). length s)") (auto dest!: failed_at_length split: if_splits)

declare failed_ids.simps [simp del]

fun first_new :: "nat \<Rightarrow> string list \<Rightarrow> string list \<Rightarrow> string list" where
  "first_new limit known [] = known"
| "first_new limit known (n # ns) =
     (let known1 = (if n \<in> set known then known else known @ [n])
      in if length known1 \<ge> limit then known1 else first_new limit known1 ns)"

definition parse_failed_tests :: "string \<Rightarrow> nat \<Rightarrow> string list" where
  "parse_failed_tests out limit = (if out = [] then [] else first_new limit [] (failed_ids True out))"

text \<open>The marker has a dash for the long dash of the code, which no \<open>char\<close> holds; a cap that is set but empty is 0, no bound.\<close>

definition elision :: "nat \<Rightarrow> string" where
  "elision n = nl @ ''... ['' @ show_nat n @ '' bytes elided - head+tail kept] ...'' @ nl"

definition framed :: "nat \<Rightarrow> string \<Rightarrow> string" where
  "framed half text = (let h = take half text; t = (if half > 0 then drop (length text - half) text else [])
     in h @ elision (length text - length h - length t) @ t)"

definition head_tail :: "string \<Rightarrow> int \<Rightarrow> string" where
  "head_tail text max_chars =
     (if max_chars \<le> 0 \<or> int (length text) \<le> max_chars then text
      else let m = nat max_chars; half = m div 2
           in if half = 0 \<or> length (framed half text) \<ge> length text then take m text else framed half text)"

definition full_log_cap :: "string option \<Rightarrow> int" where
  "full_log_cap env = (case env of None \<Rightarrow> 1048576 | Some s \<Rightarrow> if s = [] then 0 else (case py_int s of None \<Rightarrow> 1048576 | Some n \<Rightarrow> n))"

section \<open>The limit is exact\<close>

text \<open>The counts that flags of a command ask for, and which text before a digit is a flag with its separator.\<close>

function worker_counts :: "bool \<Rightarrow> string \<Rightarrow> nat list" where
  "worker_counts start s =
     (case match_at start s of
        Some (pre, ds, rest) \<Rightarrow> read_nat ds # worker_counts False rest
      | None \<Rightarrow> (case s of [] \<Rightarrow> [] | c # cs \<Rightarrow> worker_counts False cs))"
  by pat_completeness auto
termination
  by (relation "measure (\<lambda>(start, s). length s)") (auto dest!: match_at_length)

declare worker_counts.simps [simp del]

lemma worker_counts_eqs:
  "match_at start s = Some (pre, ds, rest) \<Longrightarrow> worker_counts start s = read_nat ds # worker_counts False rest"
  "match_at start (c # cs) = None \<Longrightarrow> worker_counts start (c # cs) = worker_counts False cs"
  "worker_counts start [] = []"
  by (subst worker_counts.simps, simp add: match_at_def count_at_def flag_at_def)+

abbreviation no_digit :: "char \<Rightarrow> bool" where
  "no_digit c \<equiv> \<not> is_digit c"

definition flag_sep :: "string \<Rightarrow> bool" where
  "flag_sep p = (case flag_at p of None \<Rightarrow> False | Some (flag, u) \<Rightarrow> sep_of u = u)"

lemma digit_not_space: "is_digit c \<Longrightarrow> \<not> py_space c"
  by (auto simp: is_digit_def py_space_def Let_def)

lemma prefix_plain:
  assumes "list_all no_digit x" "q = [] \<or> is_digit (hd q)"
  shows "prefix x (p @ q) = prefix x p"
proof
  assume "prefix x (p @ q)"
  then obtain z where z: "p @ q = x @ z" by (auto simp: prefix_def)
  then consider us where "p = x @ us" | us where "x = p @ us" "q = us @ z" by (auto simp: append_eq_append_conv2)
  then show "prefix x p"
  proof cases
    case 2
    then have "us = []" using assms by (cases us) auto
    with 2 show ?thesis by simp
  qed auto
qed (rule prefix_prefix)

lemma flag_texts: "list_all no_digit ''--numprocesses''" "list_all no_digit ''-n''" "list_all no_digit ''=''"
  by (simp_all add: is_digit_def)

lemma flag_at_append:
  assumes "q = [] \<or> is_digit (hd q)"
  shows "flag_at (p @ q) = map_option (\<lambda>(f, u). (f, u @ q)) (flag_at p)"
proof -
  have "prefix ''--numprocesses'' (p @ q) = prefix ''--numprocesses'' p" "prefix ''-n'' (p @ q) = prefix ''-n'' p"
    using prefix_plain [OF flag_texts(1) assms] prefix_plain [OF flag_texts(2) assms] by blast+
  moreover have "prefix ''--numprocesses'' p \<Longrightarrow> 14 \<le> length p" "prefix ''-n'' p \<Longrightarrow> 2 \<le> length p"
    by (auto dest!: prefix_length_le)
  ultimately show ?thesis by (auto simp: flag_at_def)
qed

lemma sep_of_append:
  assumes "q = [] \<or> is_digit (hd q)"
  shows "sep_of (u @ q) = sep_of u"
proof -
  have "prefix ''='' (u @ q) = prefix ''='' u" by (rule prefix_plain [OF flag_texts(3) assms])
  moreover have "takeWhile py_space (u @ q) = takeWhile py_space u"
  proof (cases "\<forall>c \<in> set u. py_space c")
    case True
    have "takeWhile py_space q = []" using assms digit_not_space by (cases q) auto
    moreover have "takeWhile py_space u = u" using True by (simp only: takeWhile_eq_all_conv)
    ultimately show ?thesis using True by (simp only: sep_of_def takeWhile_append2) simp
  next
    case False
    then show ?thesis by (auto simp: takeWhile_append1)
  qed
  ultimately show ?thesis by (simp add: sep_of_def)
qed

lemma sep_of_prefix: "\<exists>z. u = sep_of u @ z"
  by (auto simp: sep_of_def prefix_def intro: exI [of _ "dropWhile py_space u"])

lemma count_at_split:
  assumes "list_all no_digit p" "q = [] \<or> is_digit (hd q)"
  shows "count_at (p @ q) = (if flag_sep p \<and> q \<noteq> [] then Some (p, takeWhile is_digit q, dropWhile is_digit q) else None)"
proof (cases "flag_at p")
  case None
  then show ?thesis using assms by (simp add: count_at_def flag_at_append flag_sep_def)
next
  case (Some fu)
  obtain f u where fu: "flag_at p = Some (f, u)" using Some by (cases fu) simp
  have p: "p = f @ u" using fu by (auto simp: flag_at_def prefix_def split: if_splits)
  obtain z where z: "u = sep_of u @ z" using sep_of_prefix by blast
  have v: "drop (length (sep_of u)) (u @ q) = z @ q" by (metis z append.assoc append_eq_conv_conj)
  have ds: "takeWhile is_digit (z @ q) = (if z = [] then takeWhile is_digit q else [])"
  proof -
    have "list_all no_digit z" using assms(1) p z by (metis list_all_append)
    then show ?thesis by (cases z) auto
  qed
  have "(sep_of u = u) = (z = [])" using z arg_cong [OF z, of length] by auto
  then have fs: "flag_sep p = (z = [])" by (simp add: flag_sep_def fu)
  have q: "(takeWhile is_digit q = []) = (q = [])" using assms(2) by (cases q) auto
  have rest: "drop (length (takeWhile is_digit q)) q = dropWhile is_digit q" by (simp add: dropWhile_eq_drop)
  have at: "count_at (p @ q) = (let ds = takeWhile is_digit (z @ q) in if ds = [] then None else Some (f @ sep_of u, ds, drop (length ds) (z @ q)))"
    unfolding count_at_def flag_at_append [OF assms(2)] fu option.map option.case prod.case sep_of_append [OF assms(2)] v Let_def ..
  show ?thesis
  proof (cases "z = []")
    case True
    then have "f @ sep_of u = p" using z p by simp
    then show ?thesis unfolding at ds Let_def using fs q rest True by simp
  next
    case False
    then show ?thesis unfolding at ds Let_def using fs by simp
  qed
qed

lemma plain_split: "list_all no_digit (takeWhile no_digit s)" "dropWhile no_digit s = [] \<or> is_digit (hd (dropWhile no_digit s))"
  using hd_dropWhile [of no_digit s] by (auto simp: list_all_iff dest: set_takeWhileD)

lemma count_at_eq:
  "count_at s = (if flag_sep (takeWhile no_digit s) \<and> dropWhile no_digit s \<noteq> []
     then Some (takeWhile no_digit s, takeWhile is_digit (dropWhile no_digit s), dropWhile is_digit (dropWhile no_digit s)) else None)"
  using count_at_split [OF plain_split(1) [of s] plain_split(2) [of s]] unfolding takeWhile_dropWhile_id .

lemma count_at_SomeD:
  assumes "count_at s = Some (pre, ds, rest)"
  shows "s = pre @ ds @ rest" "list_all no_digit pre" "flag_sep pre" "ds \<noteq> []" "list_all is_digit ds" "rest = [] \<or> no_digit (hd rest)"
proof -
  from assms have e: "flag_sep (takeWhile no_digit s)" "dropWhile no_digit s \<noteq> []" "pre = takeWhile no_digit s"
    "ds = takeWhile is_digit (dropWhile no_digit s)" "rest = dropWhile is_digit (dropWhile no_digit s)"
    unfolding count_at_eq by (auto split: if_splits)
  show "s = pre @ ds @ rest" using e by simp
  show "list_all no_digit pre" "flag_sep pre" using e plain_split(1) by simp_all
  show "ds \<noteq> []" using e hd_dropWhile [OF e(2)] by (cases "dropWhile no_digit s") auto
  show "list_all is_digit ds" using e by (auto simp: list_all_iff dest: set_takeWhileD)
  show "rest = [] \<or> no_digit (hd rest)" using e hd_dropWhile [of is_digit "dropWhile no_digit s"] by auto
qed

lemma show_nat_digits: "list_all is_digit (show_nat n) \<and> show_nat n \<noteq> []"
proof (induction n rule: show_nat.induct)
  case (1 n)
  have d: "is_digit (digit_char k)" if "k < 10" for k using that by (simp add: is_digit_def of_digit_char Let_def)
  from 1 show ?case by (cases "n < 10") (simp_all add: show_nat.simps [of n] d)
qed

lemma clamp_count_digits: "list_all is_digit ds \<Longrightarrow> ds \<noteq> [] \<Longrightarrow> list_all is_digit (clamp_count cpu ds) \<and> clamp_count cpu ds \<noteq> []"
  using show_nat_digits by (simp add: clamp_count_def)

lemma read_clamp_count: "read_nat (clamp_count cpu ds) = min cpu (read_nat ds)"
  by (simp add: clamp_count_def)

text \<open>What the scan keeps: the text up to the first digit, whether there is one, and the first character.\<close>

definition same_front :: "string \<Rightarrow> string \<Rightarrow> bool" where
  "same_front t s =
     (takeWhile no_digit t = takeWhile no_digit s \<and> (dropWhile no_digit t = []) = (dropWhile no_digit s = [])
      \<and> (t = [] \<longleftrightarrow> s = []) \<and> (s \<noteq> [] \<longrightarrow> is_digit (hd t) = is_digit (hd s)))"

lemma same_front_pair:
  assumes "list_all no_digit p" "p \<noteq> []" "d \<noteq> []" "list_all is_digit d" "d' \<noteq> []" "list_all is_digit d'"
  shows "same_front (p @ d @ x) (p @ d' @ y)"
proof -
  have front: "takeWhile no_digit (p @ z) = p" "dropWhile no_digit (p @ z) = z" if "z \<noteq> []" "is_digit (hd z)" for z
    using that assms(1) by (cases z; auto simp: list_all_iff takeWhile_append dropWhile_append)+
  have d: "d @ x \<noteq> []" "is_digit (hd (d @ x))" using assms(3,4) by (cases d; simp)+
  have d': "d' @ y \<noteq> []" "is_digit (hd (d' @ y))" using assms(5,6) by (cases d'; simp)+
  show ?thesis unfolding same_front_def front [OF d] front [OF d'] using assms(2,3,5) by simp
qed

lemma same_front_Cons: "same_front t s \<Longrightarrow> same_front (c # t) (c # s)"
  by (simp add: same_front_def)

lemma flag_sep_nonempty: "flag_sep p \<Longrightarrow> p \<noteq> []"
  by (auto simp: flag_sep_def flag_at_def)

lemma match_at_SomeD:
  assumes "match_at start s = Some (pre, ds, rest)"
  shows "s = pre @ ds @ rest \<and> list_all no_digit pre \<and> pre \<noteq> [] \<and> ds \<noteq> [] \<and> list_all is_digit ds \<and> (rest = [] \<or> no_digit (hd rest))"
proof (cases "if start then count_at s else None")
  case (Some m)
  then have "count_at s = Some (pre, ds, rest)" using assms by (auto simp: match_at_def split: if_splits)
  from count_at_SomeD [OF this] show ?thesis using flag_sep_nonempty by blast
next
  case None
  then obtain c cs pre' where c: "s = c # cs" "py_space c" "count_at cs = Some (pre', ds, rest)" "pre = c # pre'"
    using assms by (auto simp: match_at_def split: list.splits if_splits)
  from count_at_SomeD [OF c(3)] show ?thesis using c(1,2,4) digit_not_space by auto
qed

lemma clamp_scan_front: "same_front (clamp_scan cpu start s) s"
proof (induction cpu start s rule: clamp_scan.induct)
  case (1 cpu start s)
  show ?case
  proof (cases "match_at start s")
    case (Some m)
    obtain pre ds rest where m: "match_at start s = Some (pre, ds, rest)" using Some by (cases m) simp
    from match_at_SomeD [OF m] have d: "s = pre @ ds @ rest" "list_all no_digit pre" "pre \<noteq> []" "ds \<noteq> []" "list_all is_digit ds" by blast+
    have "same_front (pre @ clamp_count cpu ds @ clamp_scan cpu False rest) (pre @ ds @ rest)"
      using clamp_count_digits [OF d(5,4)] d by (intro same_front_pair) simp_all
    then show ?thesis unfolding clamp_scan_eqs(1) [OF m] d(1) [symmetric] .
  next
    case None
    show ?thesis
    proof (cases s)
      case Nil
      then show ?thesis by (simp add: clamp_scan_eqs(3) same_front_def)
    next
      case (Cons c cs)
      have "same_front (clamp_scan cpu False cs) cs" using "1.IH"(1) [OF None Cons] .
      then show ?thesis using None by (simp add: Cons clamp_scan_eqs(2) same_front_Cons)
    qed
  qed
qed

lemma count_at_front: "same_front t s \<Longrightarrow> count_at s = None \<Longrightarrow> count_at t = None"
  unfolding count_at_eq same_front_def by (auto split: if_splits)

lemma match_at_front:
  assumes "match_at start (c # s) = None" "same_front t s"
  shows "match_at start (c # t) = None"
  using assms count_at_front [OF assms(2)] count_at_front [OF same_front_Cons [OF assms(2)], of c]
  by (auto simp: match_at_def split: option.splits if_splits)

lemma count_at_again:
  assumes "count_at s = Some (pre, ds, rest)" "same_front x rest" "list_all is_digit d" "d \<noteq> []"
  shows "count_at (pre @ d @ x) = Some (pre, d, x)"
proof -
  note s = count_at_SomeD [OF assms(1)]
  have x: "x = [] \<or> no_digit (hd x)" using assms(2) s(6) by (auto simp: same_front_def)
  then have "takeWhile is_digit (d @ x) = d" "dropWhile is_digit (d @ x) = x"
    using assms(3) by (cases x; simp add: list_all_iff)+
  moreover have "d @ x = [] \<or> is_digit (hd (d @ x))" using assms(3,4) by (cases d) auto
  ultimately show ?thesis using count_at_split [OF s(2), of "d @ x"] s(3) assms(4) by simp
qed

lemma match_at_again:
  assumes "match_at start s = Some (pre, ds, rest)" "same_front x rest" "list_all is_digit d" "d \<noteq> []"
  shows "match_at start (pre @ d @ x) = Some (pre, d, x)"
proof (cases "if start then count_at s else None")
  case (Some m)
  then have "start" "count_at s = Some (pre, ds, rest)" using assms(1) by (auto simp: match_at_def split: if_splits)
  with count_at_again [OF this(2) assms(2-4)] show ?thesis by (simp add: match_at_def)
next
  case None
  then obtain c cs pre' where c: "s = c # cs" "py_space c" "count_at cs = Some (pre', ds, rest)" "pre = c # pre'"
    using assms(1) by (auto simp: match_at_def split: list.splits if_splits)
  have "same_front (pre @ d @ x) s"
  proof -
    from match_at_SomeD [OF assms(1)] have "s = pre @ ds @ rest" "list_all no_digit pre" "pre \<noteq> []" "ds \<noteq> []" "list_all is_digit ds" by blast+
    then show ?thesis using assms(3,4) by (auto intro: same_front_pair)
  qed
  then have "start \<longrightarrow> count_at (pre @ d @ x) = None" using None count_at_front by (auto split: if_splits)
  then show ?thesis using count_at_again [OF c(3) assms(2-4)] c(2,4) by (auto simp: match_at_def)
qed

text \<open>The clamped command has the same flags, each with the smaller of its count and the number of processors.\<close>

lemma counts_clamped: "worker_counts start (clamp_scan cpu start s) = map (min cpu) (worker_counts start s)"
proof (induction cpu start s rule: clamp_scan.induct)
  case (1 cpu start s)
  show ?case
  proof (cases "match_at start s")
    case (Some m)
    obtain pre ds rest where m: "match_at start s = Some (pre, ds, rest)" using Some by (cases m) simp
    from match_at_SomeD [OF m] have d: "ds \<noteq> []" "list_all is_digit ds" by blast+
    have again: "match_at start (pre @ clamp_count cpu ds @ clamp_scan cpu False rest) = Some (pre, clamp_count cpu ds, clamp_scan cpu False rest)"
      using match_at_again [OF m clamp_scan_front] clamp_count_digits [OF d(2,1)] by blast
    have "worker_counts False (clamp_scan cpu False rest) = map (min cpu) (worker_counts False rest)" using "1.IH"(2) [OF m refl refl] .
    then show ?thesis by (simp add: clamp_scan_eqs(1) [OF m] worker_counts_eqs(1) [OF again] worker_counts_eqs(1) [OF m] read_clamp_count)
  next
    case None
    show ?thesis
    proof (cases s)
      case Nil
      then show ?thesis by (simp add: clamp_scan_eqs worker_counts_eqs)
    next
      case (Cons c cs)
      have ih: "worker_counts False (clamp_scan cpu False cs) = map (min cpu) (worker_counts False cs)" using "1.IH"(1) [OF None Cons] .
      have none: "match_at start (c # cs) = None" using None Cons by simp
      have again: "match_at start (c # clamp_scan cpu False cs) = None" by (rule match_at_front [OF none clamp_scan_front])
      show ?thesis by (simp add: Cons clamp_scan_eqs(2) [OF none] worker_counts_eqs(2) [OF again] worker_counts_eqs(2) [OF none] ih)
    qed
  qed
qed

section \<open>Requests in a command\<close>

text \<open>A flag with its separator, and a request in a text: the flag starts the text or follows white space, and the count is
  the longest run of digits after it.\<close>

definition worker_flag :: "string \<Rightarrow> bool" where
  "worker_flag p = (\<exists>flag sep. p = flag @ sep \<and> flag \<in> {''-n'', ''--numprocesses''} \<and> (sep = ''='' \<or> list_all py_space sep))"

definition asks :: "string \<Rightarrow> string \<Rightarrow> string \<Rightarrow> string \<Rightarrow> bool" where
  "asks s before ds rest =
     (s = before @ ds @ rest \<and> ds \<noteq> [] \<and> list_all is_digit ds \<and> (rest = [] \<or> \<not> is_digit (hd rest))
      \<and> (\<exists>a p. before = a @ p \<and> worker_flag p \<and> (a = [] \<or> py_space (last a))))"

text \<open>A command after its requests were limited: \<open>t\<close> is \<open>s\<close>, which stands after \<open>before\<close>, except that counts that are
  asked for may be the limit where they exceed it.\<close>

inductive limited :: "nat \<Rightarrow> string \<Rightarrow> string \<Rightarrow> string \<Rightarrow> bool" for cpu :: nat where
  limited_end: "limited cpu before [] []"
| limited_keep: "limited cpu (before @ [c]) s t \<Longrightarrow> limited cpu before (c # s) (c # t)"
| limited_count: "asks (before @ ds @ s) before ds s \<Longrightarrow> limited cpu (before @ ds) s t
    \<Longrightarrow> limited cpu before (ds @ s) ((if read_nat ds \<le> cpu then ds else show_nat cpu) @ t)"

lemma flag_sep_iff: "flag_sep p = worker_flag p"
proof -
  have eq: "\<not> py_space (CHR ''='')" by (simp add: py_space_def)
  have sep: "(sep_of u = u) = (u = ''='' \<or> list_all py_space u)" for u
    using eq by (auto simp: sep_of_def prefix_def list_all_iff takeWhile_eq_all_conv)
  have "worker_flag p = (\<exists>u. (p = ''-n'' @ u \<or> p = ''--numprocesses'' @ u) \<and> sep_of u = u)"
    unfolding worker_flag_def sep by blast
  also have "\<dots> = flag_sep p" by (auto simp: flag_sep_def flag_at_def prefix_def)
  finally show ?thesis by simp
qed

lemma flag_no_digit: "worker_flag p \<Longrightarrow> list_all no_digit p"
proof -
  assume "worker_flag p"
  then obtain f sp where p: "p = f @ sp" "f = ''-n'' \<or> f = ''--numprocesses''" "sp = ''='' \<or> list_all py_space sp"
    unfolding worker_flag_def by auto
  have "list_all no_digit f" using p(2) flag_texts by blast
  moreover have "list_all no_digit sp" using p(3) flag_texts(3) digit_not_space by (auto simp: list_all_iff)
  ultimately show ?thesis by (simp add: p(1))
qed

lemma request_found:
  assumes "worker_flag p" "ds \<noteq> []" "list_all is_digit ds" "rest = [] \<or> \<not> is_digit (hd rest)"
  shows "count_at (p @ ds @ rest) = Some (p, ds, rest)"
proof -
  have q: "is_digit (hd (ds @ rest))" using assms(2,3) by (cases ds) auto
  have "takeWhile is_digit (ds @ rest) = ds" "dropWhile is_digit (ds @ rest) = rest"
    using assms(3,4) by (cases rest; auto simp: list_all_iff takeWhile_append dropWhile_append)+
  then show ?thesis using count_at_split [OF flag_no_digit [OF assms(1)], of "ds @ rest"] q assms(1,2) by (simp add: flag_sep_iff)
qed

lemma match_at_flag:
  assumes "match_at start s = Some (pre, ds, rest)"
  shows "\<exists>p. worker_flag p \<and> (start \<and> pre = p \<or> (\<exists>c. py_space c \<and> pre = c # p))"
proof (cases "if start then count_at s else None")
  case (Some m)
  then have "start" "count_at s = Some (pre, ds, rest)" using assms by (auto simp: match_at_def split: if_splits)
  with count_at_SomeD(3) [of s] show ?thesis unfolding flag_sep_iff by blast
next
  case None
  then obtain c cs p where "s = c # cs" "py_space c" "count_at cs = Some (p, ds, rest)" "pre = c # p"
    using assms by (auto simp: match_at_def split: list.splits if_splits)
  with count_at_SomeD(3) [of cs p] show ?thesis by (auto simp: flag_sep_iff)
qed

lemma match_asks:
  assumes "match_at start s = Some (pre, ds, rest)" "start \<longrightarrow> before = []"
  shows "asks (before @ s) (before @ pre) ds rest"
proof -
  note d = match_at_SomeD [OF assms(1)]
  obtain p where p: "worker_flag p" "start \<and> pre = p \<or> (\<exists>c. py_space c \<and> pre = c # p)" using match_at_flag [OF assms(1)] by blast
  have "\<exists>a. before @ pre = a @ p \<and> (a = [] \<or> py_space (last a))"
    using p(2) assms(2) by (elim disjE conjE exE) (auto intro: exI [of _ "before @ [_]"])
  with d p(1) show ?thesis unfolding asks_def by auto
qed

lemma limited_keeps: "limited cpu (before @ p) s t \<Longrightarrow> limited cpu before (p @ s) (p @ t)"
proof (induction p arbitrary: before)
  case (Cons c p)
  then show ?case using limited_keep [of cpu before c "p @ s" "p @ t"] by simp
qed simp

text \<open>The clamped command is the command with its requests limited.\<close>

lemma clamp_limited: "(start \<longrightarrow> before = []) \<Longrightarrow> limited cpu before s (clamp_scan cpu start s)"
proof (induction cpu start s arbitrary: before rule: clamp_scan.induct)
  case (1 cpu start s)
  show ?case
  proof (cases "match_at start s")
    case (Some m)
    obtain pre ds rest where m: "match_at start s = Some (pre, ds, rest)" using Some by (cases m) simp
    have s: "s = pre @ ds @ rest" using match_at_SomeD [OF m] by blast
    have "limited cpu ((before @ pre) @ ds) rest (clamp_scan cpu False rest)" using "1.IH"(2) [OF m refl refl] by simp
    with match_asks [OF m "1.prems"] s have "limited cpu (before @ pre) (ds @ rest) (clamp_count cpu ds @ clamp_scan cpu False rest)"
      using limited_count [of "before @ pre" ds rest cpu] by (simp add: clamp_count_def)
    from limited_keeps [OF this] show ?thesis by (simp only: clamp_scan_eqs(1) [OF m] s [symmetric])
  next
    case None
    show ?thesis
    proof (cases s)
      case Nil
      then show ?thesis by (simp add: clamp_scan_eqs limited_end)
    next
      case (Cons c cs)
      have none: "match_at start (c # cs) = None" using None Cons by simp
      have "limited cpu (before @ [c]) cs (clamp_scan cpu False cs)" using "1.IH"(1) [OF None Cons] by simp
      then show ?thesis unfolding Cons clamp_scan_eqs(2) [OF none] by (rule limited_keep)
    qed
  qed
qed

lemma no_flag_inside:
  assumes "worker_flag p" "list_all is_digit ds" "py_space c"
  shows "p @ ds \<noteq> a @ c # ''-'' @ u"
proof
  assume e: "p @ ds = a @ c # ''-'' @ u"
  obtain f sp where p: "p = f @ sp" "f = ''-n'' \<or> f = ''--numprocesses''" "sp = ''='' \<or> list_all py_space sp"
    using assms(1) unfolding worker_flag_def by auto
  have dash: "CHR ''-'' \<notin> set (sp @ ds)"
    using p(3) assms(2) by (auto simp: list_all_iff is_digit_def py_space_def Let_def)
  have blank: "c \<notin> set f" using p(2) assms(3) by (auto simp: py_space_def Let_def)
  from e have "f @ (sp @ ds) = a @ (c # ''-'' @ u)" by (simp add: p(1))
  then consider us where "f = a @ us" "us @ (sp @ ds) = c # ''-'' @ u" | us where "sp @ ds = us @ c # ''-'' @ u"
    by (auto simp: append_eq_append_conv2)
  then show False
  proof cases
    case (1 us)
    show False
    proof (cases us)
      case Nil
      with 1(2) dash show False by auto
    next
      case (Cons x xs)
      with 1 blank show False by auto
    qed
  next
    case 2
    then have "CHR ''-'' \<in> set (sp @ ds)" by simp
    with dash show False by blast
  qed
qed

lemma worker_flag_dash: "worker_flag p \<Longrightarrow> \<exists>u. p = ''-'' @ u"
  by (auto simp: worker_flag_def)

text \<open>The scan overlooks no request.\<close>

lemma scan_complete:
  assumes "s = a @ p @ ds @ post" "worker_flag p" "ds \<noteq> []" "list_all is_digit ds" "post = [] \<or> \<not> is_digit (hd post)"
    "a = [] \<and> start \<or> a \<noteq> [] \<and> py_space (last a)"
  shows "read_nat ds \<in> set (worker_counts start s)"
  using assms(1,6)
proof (induction start s arbitrary: a rule: worker_counts.induct)
  case (1 start s)
  note found = request_found [OF assms(2-5)]
  obtain u where u: "p = ''-'' @ u" using worker_flag_dash [OF assms(2)] by blast
  have dash: "\<not> py_space (CHR ''-'')" by (simp add: py_space_def)
  consider "a = []" start | c where "a = [c]" "py_space c" | c a2 where "a = c # a2" "a2 \<noteq> []" "py_space (last a2)"
    using "1.prems"(2) by (cases a) (auto split: if_splits)
  then show ?case
  proof cases
    case 1
    then have "match_at start s = Some (p, ds, post)" using found "1.prems"(1) by (simp add: match_at_def)
    then show ?thesis by (simp add: worker_counts_eqs(1))
  next
    case (2 c)
    have "count_at s = None"
    proof (rule ccontr)
      assume "count_at s \<noteq> None"
      then obtain q d r where q: "count_at s = Some (q, d, r)" by (metis option.exhaust prod_cases3)
      from worker_flag_dash [OF count_at_SomeD(3) [OF q, unfolded flag_sep_iff]] count_at_SomeD(1) [OF q] have "hd s = CHR ''-''" by auto
      with 2 dash "1.prems"(1) show False by auto
    qed
    then have "match_at start s = Some (c # p, ds, post)" using found "1.prems"(1) 2 by (simp add: match_at_def)
    then show ?thesis by (simp add: worker_counts_eqs(1))
  next
    case (3 c a2)
    show ?thesis
    proof (cases "match_at start s")
      case None
      then have "read_nat ds \<in> set (worker_counts False (a2 @ p @ ds @ post))"
        using "1.IH"(1) [OF None, of c "a2 @ p @ ds @ post" a2] "1.prems" 3 by simp
      moreover have "worker_counts start s = worker_counts False (a2 @ p @ ds @ post)"
        using worker_counts_eqs(2) [of start c "a2 @ p @ ds @ post"] None "1.prems"(1) 3 by simp
      ultimately show ?thesis by simp
    next
      case (Some m)
      obtain pre d rest where m: "match_at start s = Some (pre, d, rest)" using Some by (cases m) simp
      note mm = match_at_SomeD [OF m]
      obtain q where q: "worker_flag q" "pre = q \<or> (\<exists>c. pre = c # q)" using match_at_flag [OF m] by blast
      have sp: "py_space (last a)" "a = (c # butlast a2) @ [last a2]" "last a = last a2" using 3 by simp_all
      have last: "\<not> py_space (last (pre @ d))"
        using mm digit_not_space [of "last d"] by (simp add: list_all_iff)
      have inside: "pre @ d \<noteq> a @ ''-'' @ v" for v
      proof
        assume x: "pre @ d = a @ ''-'' @ v"
        from q(2) show False
        proof
          assume "pre = q"
          then have "q @ d = (c # butlast a2) @ last a2 # ''-'' @ v" using x sp by simp
          with no_flag_inside [OF q(1) _ 3(3), of d] mm show False by blast
        next
          assume "\<exists>c. pre = c # q"
          then have "q @ d = butlast a2 @ last a2 # ''-'' @ v" using x sp by auto
          with no_flag_inside [OF q(1) _ 3(3), of d] mm show False by blast
        qed
      qed
      have "(pre @ d) @ rest = a @ p @ ds @ post" using mm "1.prems"(1) by simp
      then consider us where "pre @ d = a @ us" "us @ rest = p @ ds @ post" | us where "a = (pre @ d) @ us" "rest = us @ p @ ds @ post"
        unfolding append_eq_append_conv2 by blast
      then have "\<exists>us. a = (pre @ d) @ us \<and> rest = us @ p @ ds @ post \<and> us \<noteq> []"
      proof cases
        case (1 us)
        then show ?thesis using last sp(1) inside u by (cases us) auto
      next
        case (2 us)
        then show ?thesis using last sp(1) by (cases us) auto
      qed
      then obtain us where us: "a = (pre @ d) @ us" "rest = us @ p @ ds @ post" "us \<noteq> []" by blast
      then have "read_nat ds \<in> set (worker_counts False rest)"
        using "1.IH"(2) [OF m refl refl, of us] sp(1) by simp
      then show ?thesis by (simp add: worker_counts_eqs(1) [OF m])
    qed
  qed
qed

lemma requests_limited: "asks (clamp_scan cpu True s) before ds rest \<Longrightarrow> read_nat ds \<le> cpu"
proof -
  assume a: "asks (clamp_scan cpu True s) before ds rest"
  then obtain b p where "clamp_scan cpu True s = b @ p @ ds @ rest" "worker_flag p" "b = [] \<or> py_space (last b)" "ds \<noteq> []"
    "list_all is_digit ds" "rest = [] \<or> \<not> is_digit (hd rest)" by (auto simp: asks_def)
  then have "read_nat ds \<in> set (worker_counts True (clamp_scan cpu True s))" by (intro scan_complete) auto
  then show ?thesis by (auto simp: counts_clamped)
qed

section \<open>What is reported\<close>

text \<open>The first occurrences of the elements of a list.\<close>

definition firsts :: "'a list \<Rightarrow> 'a list" where
  "firsts xs = rev (remdups (rev xs))"

lemma remdups_drop: "n \<in> set ys \<Longrightarrow> remdups (xs @ n # ys) = remdups (xs @ ys)"
  by (induction xs) auto

lemma firsts_known: "n \<in> set known \<Longrightarrow> firsts (known @ n # ns) = firsts (known @ ns)"
  using remdups_drop [of n "rev known" "rev ns"] by (simp add: firsts_def)

lemma firsts_extend: "distinct known \<Longrightarrow> \<exists>more. firsts (known @ ns) = known @ more"
proof (induction ns rule: rev_induct)
  case (snoc n ns)
  then obtain more where "firsts (known @ ns) = known @ more" by blast
  then show ?case by (auto simp: firsts_def)
qed (simp add: firsts_def distinct_remdups_id)

lemma first_new_exact:
  assumes "distinct known" "length known < limit"
  shows "first_new limit known ns = take limit (firsts (known @ ns))"
  using assms
proof (induction ns arbitrary: known)
  case Nil
  then show ?case by (simp add: firsts_def distinct_remdups_id)
next
  case (Cons n ns)
  show ?case
  proof (cases "n \<in> set known")
    case True
    with Cons show ?thesis by (simp add: firsts_known)
  next
    case False
    then have d: "distinct (known @ [n])" using Cons.prems by simp
    show ?thesis
    proof (cases "length (known @ [n]) < limit")
      case True
      with Cons.IH [OF d] False show ?thesis by simp
    next
      case full: False
      obtain more where more: "firsts ((known @ [n]) @ ns) = (known @ [n]) @ more" using firsts_extend [OF d] by blast
      moreover have "limit = Suc (length known)" using full Cons.prems by simp
      ultimately show ?thesis using False by simp
    qed
  qed
qed

text \<open>The report names the first failing tests, each once, in the order of the output.\<close>

lemma reported_tests: "limit > 0 \<Longrightarrow> parse_failed_tests out limit = take limit (firsts (failed_ids True out))"
  by (cases "out = []") (simp_all add: parse_failed_tests_def first_new_exact failed_ids.simps firsts_def failed_at_def)

text \<open>A cut log is never longer than the log, and keeps its head; its length may exceed the cap by the marker.\<close>

lemma framed_eq:
  assumes "0 < half" "half \<le> length text"
  shows "framed half text = take half text @ elision (length text - 2 * half) @ drop (length text - half) text"
    and "length (framed half text) = 2 * half + length (elision (length text - 2 * half))"
proof -
  have "length text - length (take half text) - length (drop (length text - half) text) = length text - 2 * half" using assms by simp
  then show eq: "framed half text = take half text @ elision (length text - 2 * half) @ drop (length text - half) text"
    using assms(1) by (simp add: framed_def Let_def)
  show "length (framed half text) = 2 * half + length (elision (length text - 2 * half))"
    unfolding eq length_append using assms by simp
qed

lemma head_tail_bounds:
  assumes "m > 0"
  shows "length (head_tail text m) \<le> length text"
    and "length (head_tail text m) \<le> nat m + length (elision (length text - 2 * (nat m div 2)))"
    and "prefix (take (nat m div 2) text) (head_tail text m)"
proof -
  let ?h = "head_tail text m" and ?half = "nat m div 2"
  have "length ?h \<le> length text \<and> length ?h \<le> nat m + length (elision (length text - 2 * ?half)) \<and> prefix (take ?half text) ?h"
  proof -
    consider (short) "int (length text) \<le> m" | (cut) "int (length text) > m" "?half = 0 \<or> length text \<le> length (framed ?half text)"
      | (both) "int (length text) > m" "?half > 0" "length (framed ?half text) < length text" by linarith
    then show ?thesis
    proof cases
      case short
      then have "?h = text" by (simp add: head_tail_def)
      with short show ?thesis by (simp add: take_is_prefix)
    next
      case cut
      then have h: "?h = take (nat m) text" using assms by (simp add: head_tail_def Let_def)
      have "take ?half text = take ?half (take (nat m) text)" by (simp add: min_def)
      then have "prefix (take ?half text) ?h" unfolding h by (metis take_is_prefix)
      then show ?thesis using h by simp
    next
      case both
      then have h: "?h = framed ?half text" and half: "?half \<le> length text" using assms by (simp_all add: head_tail_def Let_def)
      have "2 * ?half \<le> nat m" by simp
      moreover have "prefix (take ?half text) ?h" unfolding h framed_eq(1) [OF both(2) half] by simp
      moreover have "length ?h \<le> length text" using both(3) unfolding h by simp
      moreover have "length ?h \<le> nat m + length (elision (length text - 2 * ?half))"
        using framed_eq(2) [OF both(2) half] \<open>2 * ?half \<le> nat m\<close> unfolding h by linarith
      ultimately show ?thesis by blast
    qed
  qed
  then show "length (head_tail text m) \<le> length text" "length (head_tail text m) \<le> nat m + length (elision (length text - 2 * (nat m div 2)))"
    "prefix (take (nat m div 2) text) (head_tail text m)" by blast+
qed

end
