(* ===== verification/Verifier.thy ===== *)
theory Verifier
  imports Repair_Loops Worker_Call Verifier_Text
begin

text \<open>
  The verifier of \<^verbatim>\<open>execution/verifier.py\<close>: the limit it puts on parallel test workers, the run of its commands with
  the classification of a failure, and what it reports of one.  A process is a parameter: how it ends and how long it
  takes; so are the clock's rendering and the digest, the directory, and whether anyone listens to events.
\<close>

section \<open>Running the commands\<close>

text \<open>How a process ends: with a code and its two streams, or not within the limit, and then what its code is once it has
  been killed; or with an exception, because it could not be started or because the verification is cancelled while it
  runs.  With a process comes whether the id of its group could be read, and with each end how many milliseconds it took.\<close>

datatype proc_end = Exits bool int string string | Hangs bool "int option" | No_start | Cancelled

record checked = vresult +
  v_out :: string
  v_err :: string
  v_ms :: int
  v_cmd :: string

datatype proc_start = Shell string | Scoped "string list"

text \<open>A sweep is the kill of the process group.  Without the id of the group it does nothing after an exit, and kills the
  process alone after a timeout.\<close>

datatype proc_act = Spawn "env_vars option" proc_start | Sweep bool

record vconf =
  vc_commands :: "string list"
  vc_mem :: "string option"
  vc_swap :: string
  vc_scope :: bool
  vc_unbounded :: bool
  vc_cpu :: nat
  vc_limit :: string
  vc_sha :: "string \<Rightarrow> string"
  vc_dir :: bool
  vc_step :: string
  vc_log_cap :: int
  vc_os :: env_vars
  vc_events :: bool

record vstate =
  vs_last :: "checked option"
  vs_iter :: nat
  vs_acts :: "proc_act list"
  vs_files :: "(string \<times> string) list"
  vs_events :: "(nat \<times> int \<times> string list) list"

definition cap_active :: "vconf \<Rightarrow> bool" where
  "cap_active cf = (truthy_str (vc_mem cf) \<noteq> None \<and> vc_scope cf)"

definition mem_text :: "vconf \<Rightarrow> string" where
  "mem_text cf = (case vc_mem cf of None \<Rightarrow> ''None'' | Some m \<Rightarrow> m)"

definition exec_argv :: "vconf \<Rightarrow> string \<Rightarrow> proc_start" where
  "exec_argv cf cmd =
     (if cap_active cf
      then Scoped [''systemd-run'', ''--user'', ''--scope'', ''--quiet'', ''--collect'', ''-p'', ''MemoryMax='' @ mem_text cf,
             ''-p'', ''MemorySwapMax='' @ vc_swap cf, ''/bin/sh'', ''-c'', cmd]
      else Shell cmd)"

definition verifier_env :: "env_vars \<Rightarrow> env_vars option" where
  "verifier_env os = (if resource_bound_disabled os then None else Some (fold pin thread_pin_vars os))"

definition tail_chars :: "nat \<Rightarrow> string \<Rightarrow> string" where
  "tail_chars n s = drop (length s - n) s"

definition passed_result :: "string \<Rightarrow> int \<Rightarrow> string \<Rightarrow> checked" where
  "passed_result msg ms cmd = \<lparr>v_ok = True, v_message = msg, v_returncode = 0, v_timeout = False, v_resource = False, v_infra = False,
     v_hash = None, v_out = [], v_err = [], v_ms = ms, v_cmd = cmd\<rparr>"

definition timeout_result :: "vconf \<Rightarrow> string \<Rightarrow> int option \<Rightarrow> int \<Rightarrow> checked" where
  "timeout_result cf cmd rc ms =
     \<lparr>v_ok = False, v_message = ''Verification command timed out after '' @ vc_limit cf @ ''s: '' @ cmd,
      v_returncode = (case rc of None \<Rightarrow> - 1 | Some c \<Rightarrow> c), v_timeout = True, v_resource = False, v_infra = False,
      v_hash = None, v_out = [], v_err = [], v_ms = ms, v_cmd = cmd\<rparr>"

definition failed_result :: "vconf \<Rightarrow> string \<Rightarrow> int \<Rightarrow> string \<Rightarrow> string \<Rightarrow> int \<Rightarrow> checked" where
  "failed_result cf cmd rc out err ms =
     (let over = (cap_active cf \<and> rc \<in> {137, - 9, 9}); et = tail_chars 2000 err
      in \<lparr>v_ok = False,
          v_message = (if over then ''Verifier exceeded its resource budget (memory cap '' @ mem_text cf @ ''); OOM-killed in its own scope: '' @ cmd
                       else ''Command failed with exit code '' @ show_int rc @ '': '' @ cmd),
          v_returncode = rc, v_timeout = False, v_resource = over, v_infra = (\<not> over \<and> looks_like_infra et),
          v_hash = (if et = [] then None else Some (take 16 (vc_sha cf et))), v_out = tail_chars 2000 out, v_err = et, v_ms = ms, v_cmd = cmd\<rparr>)"

definition log_header :: "checked \<Rightarrow> string" where
  "log_header r = ''$ '' @ v_cmd r @ nl @ ''exit code: '' @ show_int (v_returncode r) @ nl @ ''duration_ms: '' @ show_int (v_ms r) @ nl
     @ ''message: '' @ v_message r @ nl"

text \<open>\<open>_report_failure\<close>: the counter, the two artifacts and the event.\<close>

definition report_failure :: "vconf \<Rightarrow> checked \<Rightarrow> string \<Rightarrow> string \<Rightarrow> vstate \<Rightarrow> vstate" where
  "report_failure cf r out err st =
     (let k = Suc (vs_iter st); stem = ''verify_step'' @ vc_step cf @ ''_iter'' @ show_nat k;
          quick = log_header r @ ''=== STDOUT (tail) ==='' @ nl @ v_out r @ nl @ ''=== STDERR (tail) ==='' @ nl @ v_err r @ nl;
          full = log_header r @ ''=== STDOUT (full) ==='' @ nl @ head_tail out (vc_log_cap cf) @ nl
                   @ ''=== STDERR (full) ==='' @ nl @ head_tail err (vc_log_cap cf) @ nl;
          names = parse_failed_tests out 25
      in st\<lparr>vs_iter := k,
            vs_files := vs_files st @ (if vc_dir cf then [(stem @ ''.log'', quick), (stem @ ''.full.log'', full)] else []),
            vs_events := vs_events st @ (if names \<noteq> [] \<and> vc_events cf then [(k, v_returncode r, names)] else [])\<rparr>)"

definition record_act :: "proc_act \<Rightarrow> vstate \<Rightarrow> vstate" where
  "record_act a st = st\<lparr>vs_acts := vs_acts st @ [a]\<rparr>"

definition finalize :: "checked \<Rightarrow> vstate \<Rightarrow> checked option \<times> vstate" where
  "finalize r st = (Some r, st\<lparr>vs_last := Some r\<rparr>)"

text \<open>\<open>run\<close> answers the number of a command and what was started; no result is an exception.\<close>

fun verify_from ::
  "vconf \<Rightarrow> (nat \<Rightarrow> proc_start \<Rightarrow> proc_end \<times> int) \<Rightarrow> nat \<Rightarrow> string list \<Rightarrow> int \<Rightarrow> vstate \<Rightarrow> checked option \<times> vstate" where
  "verify_from cf run i [] total_ms st =
     finalize (passed_result ''All tests passed'' total_ms (if length (vc_commands cf) > 1 then ''<multi>'' else hd (vc_commands cf))) st"
| "verify_from cf run i (c # cs) total_ms st =
     (let cmd = clamp_xdist (vc_unbounded cf) (vc_cpu cf) c; l = exec_argv cf cmd; st1 = record_act (Spawn (verifier_env (vc_os cf)) l) st
      in case run i l of
           (No_start, ms) \<Rightarrow> (None, st)
         | (Cancelled, ms) \<Rightarrow> (None, st1)
         | (Hangs g rc, ms) \<Rightarrow> finalize (timeout_result cf cmd rc ms) (record_act (Sweep g) st1)
         | (Exits g rc out err, ms) \<Rightarrow>
             if rc \<noteq> 0
             then let r = failed_result cf cmd rc out err ms in finalize r (record_act (Sweep g) (report_failure cf r out err st1))
             else verify_from cf run (Suc i) cs (total_ms + ms) (record_act (Sweep g) st1))"

definition verify :: "vconf \<Rightarrow> (nat \<Rightarrow> proc_start \<Rightarrow> proc_end \<times> int) \<Rightarrow> vstate \<Rightarrow> checked option \<times> vstate" where
  "verify cf run st =
     (if vc_commands cf = [] then finalize (passed_result ''No verification commands configured'' 0 []) st
      else verify_from cf run 0 (vc_commands cf) 0 st)"

section \<open>The verdict\<close>

text \<open>What the commands start, and the first one that does not exit cleanly in time.\<close>

definition clamped :: "vconf \<Rightarrow> nat \<Rightarrow> string" where
  "clamped cf i = clamp_xdist (vc_unbounded cf) (vc_cpu cf) (vc_commands cf ! i)"

definition launched_cmd :: "vconf \<Rightarrow> nat \<Rightarrow> proc_start" where
  "launched_cmd cf i = exec_argv cf (clamped cf i)"

fun clean_exit :: "proc_end \<times> int \<Rightarrow> bool" where
  "clean_exit (Exits g rc out err, ms) = (rc = 0)"
| "clean_exit e = False"

definition first_failure :: "vconf \<Rightarrow> (nat \<Rightarrow> proc_start \<Rightarrow> proc_end \<times> int) \<Rightarrow> nat option" where
  "first_failure cf run = find (\<lambda>i. \<not> clean_exit (run i (launched_cmd cf i))) [0..<length (vc_commands cf)]"

text \<open>The result of a failure, if it has one, and the acts of a command: its start, and the sweep of its group unless it
  ended with an exception.\<close>

fun failure_of :: "vconf \<Rightarrow> string \<Rightarrow> proc_end \<times> int \<Rightarrow> checked option" where
  "failure_of cf cmd (Hangs g rc, ms) = Some (timeout_result cf cmd rc ms)"
| "failure_of cf cmd (Exits g rc out err, ms) = Some (failed_result cf cmd rc out err ms)"
| "failure_of cf cmd e = None"

fun sweeps :: "proc_end \<Rightarrow> proc_act list" where
  "sweeps (Exits g rc out err) = [Sweep g]"
| "sweeps (Hangs g rc) = [Sweep g]"
| "sweeps e = []"

definition acts_of :: "vconf \<Rightarrow> (nat \<Rightarrow> proc_start \<Rightarrow> proc_end \<times> int) \<Rightarrow> nat \<Rightarrow> proc_act list" where
  "acts_of cf run j =
     (let e = fst (run j (launched_cmd cf j))
      in if e = No_start then [] else Spawn (verifier_env (vc_os cf)) (launched_cmd cf j) # sweeps e)"

definition acts_upto :: "vconf \<Rightarrow> (nat \<Rightarrow> proc_start \<Rightarrow> proc_end \<times> int) \<Rightarrow> nat \<Rightarrow> nat \<Rightarrow> proc_act list" where
  "acts_upto cf run i n = concat (map (acts_of cf run) [i..<n])"

lemma acts_upto_Suc: "i < n \<Longrightarrow> acts_upto cf run i n = acts_of cf run i @ acts_upto cf run (Suc i) n"
  by (simp add: acts_upto_def upt_conv_Cons)

lemma report_keeps [simp]:
  "vs_acts (report_failure cf r out err st) = vs_acts st" "vs_last (report_failure cf r out err st) = vs_last st"
  by (simp_all add: report_failure_def Let_def)

text \<open>What is promised when the commands from \<open>i\<close> on were reached with a sum of times.\<close>

definition exact_from ::
  "vconf \<Rightarrow> (nat \<Rightarrow> proc_start \<Rightarrow> proc_end \<times> int) \<Rightarrow> nat \<Rightarrow> int \<Rightarrow> vstate \<Rightarrow> checked option \<Rightarrow> vstate \<Rightarrow> bool" where
  "exact_from cf run i t st res st' =
     (let n = length (vc_commands cf)
      in case find (\<lambda>j. \<not> clean_exit (run j (launched_cmd cf j))) [i..<n] of
           None \<Rightarrow> res \<noteq> None \<and> v_ok (the res) \<and> \<not> v_timeout (the res) \<and> \<not> v_resource (the res) \<and> \<not> v_infra (the res)
             \<and> v_ms (the res) = t + sum_list (map (\<lambda>j. snd (run j (launched_cmd cf j))) [i..<n])
             \<and> vs_last st' = res \<and> vs_acts st' = vs_acts st @ acts_upto cf run i n \<and> vs_iter st' = vs_iter st
         | Some k \<Rightarrow> res = failure_of cf (clamped cf k) (run k (launched_cmd cf k)) \<and> vs_acts st' = vs_acts st @ acts_upto cf run i (Suc k)
             \<and> vs_last st' = (if res = None then vs_last st else res)
             \<and> vs_iter st' = vs_iter st + (if res = None \<or> v_timeout (the res) then 0 else 1))"

lemma passed_fields [simp]:
  "v_ok (passed_result m t c)" "\<not> v_timeout (passed_result m t c)" "\<not> v_resource (passed_result m t c)" "\<not> v_infra (passed_result m t c)"
  "v_ms (passed_result m t c) = t"
  by (simp_all add: passed_result_def)

lemma verify_from_exact:
  assumes "vc_commands cf = pre @ cs" "length pre = i" "verify_from cf run i cs t st = (r, st')"
  shows "exact_from cf run i t st r st'"
  using assms
proof (induction cs arbitrary: pre i t st)
  case Nil
  then show ?case by (auto simp: exact_from_def finalize_def acts_upto_def)
next
  case (Cons c cs)
  let ?run = "run i (launched_cmd cf i)" and ?n = "length (vc_commands cf)"
  let ?P = "\<lambda>j. \<not> clean_exit (run j (launched_cmd cf j))"
  have i: "i < ?n" "vc_commands cf ! i = c" using Cons.prems(1,2) by (auto simp: nth_append)
  have cl: "clamp_xdist (vc_unbounded cf) (vc_cpu cf) c = clamped cf i" "exec_argv cf (clamped cf i) = launched_cmd cf i"
    by (simp_all add: clamped_def launched_cmd_def i(2))
  have upt: "[i..<?n] = i # [Suc i..<?n]" using i(1) by (rule upt_conv_Cons)
  show ?case
  proof (cases "clean_exit ?run")
    case True
    then obtain g out err ms where e: "?run = (Exits g 0 out err, ms)" by (cases ?run; cases "fst ?run") auto
    have a: "acts_of cf run i = [Spawn (verifier_env (vc_os cf)) (launched_cmd cf i), Sweep g]" by (simp add: acts_of_def e)
    have "verify_from cf run (Suc i) cs (t + ms) (record_act (Sweep g) (record_act (Spawn (verifier_env (vc_os cf)) (launched_cmd cf i)) st)) = (r, st')"
      using Cons.prems(3) cl e by (simp add: Let_def)
    note ih = Cons.IH [OF _ _ this, of "pre @ [c]"]
    have fi: "find ?P [i..<?n] = find ?P [Suc i..<?n]" using True upt by simp
    show ?thesis
    proof (cases "find ?P [Suc i..<?n]")
      case None
      with ih Cons.prems(1,2) fi e upt acts_upto_Suc [OF i(1)] a show ?thesis by (simp add: exact_from_def record_act_def Let_def)
    next
      case (Some k)
      then have "k \<in> set [Suc i..<?n]" by (auto simp: find_Some_iff intro: nth_mem)
      then have "i < Suc k" by simp
      from ih Some Cons.prems(1,2) fi acts_upto_Suc [OF this] a show ?thesis by (simp add: exact_from_def record_act_def Let_def)
    qed
  next
    case False
    have k: "find ?P [i..<?n] = Some i" using False upt by simp
    have a: "acts_upto cf run i (Suc i) = acts_of cf run i" by (simp add: acts_upto_def)
    obtain e ms where e: "?run = (e, ms)" by (cases ?run)
    show ?thesis
      using False Cons.prems(3) cl k a e
      by (cases e) (auto simp: exact_from_def acts_of_def Let_def finalize_def record_act_def failed_result_def timeout_result_def report_failure_def)
  qed
qed

lemma one_reason:
  "failure_of cf cmd e = Some r \<Longrightarrow> \<not> (v_timeout r \<and> v_resource r) \<and> \<not> (v_timeout r \<and> v_infra r) \<and> \<not> (v_resource r \<and> v_infra r)"
  by (cases "(cf, cmd, e)" rule: failure_of.cases) (auto simp: timeout_result_def failed_result_def Let_def)

lemma failure_not_ok: "failure_of cf cmd e = Some r \<Longrightarrow> \<not> v_ok r"
  by (cases "(cf, cmd, e)" rule: failure_of.cases) (auto simp: timeout_result_def failed_result_def Let_def)

text \<open>C39: The verifier passes exactly when every command exits cleanly in time, with the sum of their times.  Otherwise the
  first command that does not decides: its failure is reported, with at most one of the reasons timeout, memory cap and
  suspected host, or its exception leaves the verifier without a new result; no later command runs, and only a
  failure that is no timeout counts as an iteration.  Each command runs after the one before it has ended and the kill
  of its process group was issued; only a command that is cancelled is left without.  A result is the one kept for the
  telemetry.\<close>

theorem verdict_is_exact:
  "let (r, st') = verify cf run st; n = length (vc_commands cf)
   in (r \<noteq> None \<and> v_ok (the r)) = (first_failure cf run = None)
     \<and> vs_last st' = (if r = None then vs_last st else r)
     \<and> length (filter id [r \<noteq> None \<and> v_timeout (the r), r \<noteq> None \<and> v_resource (the r), r \<noteq> None \<and> v_infra (the r)]) \<le> 1
     \<and> (case first_failure cf run of
          None \<Rightarrow> v_ms (the r) = sum_list (map (\<lambda>j. snd (run j (launched_cmd cf j))) [0..<n])
            \<and> vs_acts st' = vs_acts st @ acts_upto cf run 0 n \<and> vs_iter st' = vs_iter st
        | Some k \<Rightarrow> r = failure_of cf (clamped cf k) (run k (launched_cmd cf k)) \<and> vs_acts st' = vs_acts st @ acts_upto cf run 0 (Suc k)
            \<and> vs_iter st' = vs_iter st + (if r = None \<or> v_timeout (the r) then 0 else 1))"
proof (cases "vc_commands cf = []")
  case True
  then show ?thesis by (simp add: verify_def finalize_def first_failure_def acts_upto_def)
next
  case False
  obtain r st' where v: "verify cf run st = (r, st')" by fastforce
  then have "verify_from cf run 0 (vc_commands cf) 0 st = (r, st')" using False by (simp add: verify_def)
  then have "exact_from cf run 0 0 st r st'" by (intro verify_from_exact) auto
  note e = this [unfolded exact_from_def Let_def first_failure_def [symmetric]]
  show ?thesis
  proof (cases "first_failure cf run")
    case None
    with e v show ?thesis by auto
  next
    case (Some k)
    then have f: "failure_of cf (clamped cf k) (run k (launched_cmd cf k)) = r" using e by simp
    show ?thesis
    proof (cases r)
      case None
      with e v Some f show ?thesis by simp
    next
      case (Some x)
      then show ?thesis using one_reason [OF f [unfolded Some]] failure_not_ok [OF f [unfolded Some]] e v f \<open>first_failure cf run = Some k\<close> by auto
    qed
  qed
qed


text \<open>A failed verification is recorded as one more iteration: the two logs of a run with a directory carry its number, and
  the event, if anyone listens and a test is named, names the first 25 distinct failing tests in the order of the
  output.  The full log holds the whole output unless it is longer than the cap; then it is never longer than the output, and
  at most the marker longer than the cap.\<close>

theorem failure_is_recorded:
  assumes "vc_log_cap cf > 0"
  shows "let st' = report_failure cf r out err st; k = Suc (vs_iter st); stem = ''verify_step'' @ vc_step cf @ ''_iter'' @ show_nat k;
            names = take 25 (firsts (failed_ids True out)); full = head_tail out (vc_log_cap cf); cap = nat (vc_log_cap cf)
         in vs_iter st' = k
           \<and> map fst (vs_files st') = map fst (vs_files st) @ (if vc_dir cf then [stem @ ''.log'', stem @ ''.full.log''] else [])
           \<and> vs_events st' = vs_events st @ (if names \<noteq> [] \<and> vc_events cf then [(k, v_returncode r, names)] else [])
           \<and> (full = out \<or> length out > cap) \<and> length full \<le> length out
           \<and> length full \<le> cap + length (elision (length out - 2 * (cap div 2))) \<and> prefix (take (cap div 2) out) full"
  using head_tail_bounds [OF assms, of out] assms
  by (auto simp: report_failure_def Let_def reported_tests head_tail_def [of _ "vc_log_cap cf"])

definition sample_conf :: vconf where
  "sample_conf = \<lparr>vc_commands = [''pytest -n 64''], vc_mem = None, vc_swap = ''0'', vc_scope = False, vc_unbounded = False, vc_cpu = 4,
     vc_limit = ''600'', vc_sha = id, vc_dir = True, vc_step = ''2'', vc_log_cap = 9, vc_os = (\<lambda>_. None), vc_events = True\<rparr>"

definition sample_vstate :: vstate where
  "sample_vstate = \<lparr>vs_last = None, vs_iter = 0, vs_acts = [], vs_files = [], vs_events = []\<rparr>"

definition sample_out :: string where
  "sample_out = ''FAILED t::a'' @ nl @ ''ERROR  t::b - x'' @ nl @ ''FAILED t::a'' @ nl"

definition sample_failed :: checked where
  "sample_failed = failed_result sample_conf ''pytest -n 4'' 1 sample_out [] 7"

theorem failure_is_recorded_witness:
  "let st' = report_failure sample_conf sample_failed sample_out [] sample_vstate
   in map fst (vs_files st') = [''verify_step2_iter1.log'', ''verify_step2_iter1.full.log'']
     \<and> vs_events st' = [(1, 1, [''t::a'', ''t::b''])]"
proof -
  have "vc_log_cap sample_conf > 0" by (simp add: sample_conf_def)
  note f = failure_is_recorded [OF this, of sample_failed sample_out "[]" sample_vstate]
  have names: "take 25 (firsts (failed_ids True sample_out)) = [''t::a'', ''t::b'']" by code_simp
  have stem: "''verify_step'' @ vc_step sample_conf @ ''_iter'' @ show_nat 1 = ''verify_step2_iter1''" by code_simp
  have "v_returncode sample_failed = 1" "vc_dir sample_conf" "vc_events sample_conf" "vs_iter sample_vstate = 0"
      "vs_files sample_vstate = []" "vs_events sample_vstate = []"
    by (simp_all add: sample_failed_def failed_result_def sample_conf_def sample_vstate_def Let_def)
  with f names stem show ?thesis by (simp add: Let_def)
qed

end
