(* ===== verification/Spec2Isabelle.thy ===== *)
theory Spec2Isabelle
  imports Graph_Plan_Laws Fallback_Laws Broker Real_Act_Laws Master_Execute Vote Reconcile_Laws CU_Run_Laws
    Exploration Decompose Routing Probe Overrides Calibration
    Watchdog Worker_Call Path_Policy Plan_File Usage Git_PR Dispatch Event_Bus Verifier
begin

text \<open>
  \<^bold>\<open>AgentOrch: a model of its workflows, its agents' fallback, its broker and its safety gates.\<close>

  The program drives coding agents (external command line programs) on a working tree.  A workflow of
  \<^verbatim>\<open>agy_orchestrator/workflows\<close> runs a task: it asks agents, has a verifier judge the tree, repairs or
  retries, and answers with an output and flags such as \<open>verified\<close>.  Behind an agent stands the fallback
  chain of \<^verbatim>\<open>core/agents/fallback_agent.py\<close>, which classifies failures and moves on to other models and
  providers.  \<^verbatim>\<open>harness/job_queue.py\<close> and \<^verbatim>\<open>harness/broker.py\<close> queue whole runs and start them under
  resource limits.  \<^verbatim>\<open>agy_orchestrator/computer_use\<close> lets an agent act on a display: every action passes a
  gate that is either isolated (a private display) or asks the operator about foreign processes.

  \<^bold>\<open>The theories.\<close>

  \<^item> \<open>Py_Prelude\<close>: dynamic values, ASCII strings, numerals, results that may be exceptions, list lemmas.
  \<^item> \<open>Graph_Plan\<close>, \<open>Graph_Plan_Laws\<close> (\<^verbatim>\<open>execution/graph_plan.py\<close>): plans as graphs and chains; the stable sort,
    layers, ancestors, the JSON form and the loader that accepts exactly the clean acyclic plans.
  \<^item> \<open>Workspace\<close>, \<open>Graph_Merge\<close> (\<^verbatim>\<open>execution/workspace.py\<close>, \<^verbatim>\<open>workflows/graph_merge.py\<close>): write-back of isolated
    trees; merges that fold in a node's difference and never clobber a sibling.
  \<^item> \<open>Failure_Classes\<close>, \<open>Fallback_Agent\<close>, \<open>Fallback_Laws\<close> (\<^verbatim>\<open>core/agent.py\<close>, \<^verbatim>\<open>core/agents/fallback_agent.py\<close>):
    classification of failures, caches, and the re-route loop with its bound on attempts.
  \<^item> \<open>Repair_Loops\<close>, \<open>Adversarial\<close> (\<^verbatim>\<open>test_feedback.py\<close>, \<^verbatim>\<open>cascade.py\<close>, \<^verbatim>\<open>pat.py\<close>, \<^verbatim>\<open>adversarial.py\<close>): the
    repair loops against a verifier or a critic; what checks and critiques their flags rest on.
  \<^item> \<open>Vote\<close> (\<^verbatim>\<open>vote.py\<close>): isolated candidates, the preflight, the ranking and the winner's write-back.
  \<^item> \<open>Reconcile_Parse\<close>, \<open>Reconcile\<close>, \<open>Reconcile_Laws\<close> (\<^verbatim>\<open>reconcile.py\<close>): the review of a finished build against
    its goal; a positive verdict is earned by a parsed, nonempty trace without dead findings.
  \<^item> \<open>Master_Context\<close>, \<open>Master_Checkpoint\<close>, \<open>Master_Linear\<close>, \<open>Master_Linear_Laws\<close>, \<open>Master_Graph\<close>,
    \<open>Master_Graph_Laws\<close>, \<open>Master_Graph_Runs\<close>, \<open>Master_Execute\<close> (\<^verbatim>\<open>master.py\<close>): contexts and compaction;
    checkpoints and resuming; planner, steps and the flat loop; the graph walker as a step relation over
    all interleavings, with its invariants, its verdict and its bound; the entry point.
  \<^item> \<open>Job_Queue\<close>, \<open>Broker\<close> (\<^verbatim>\<open>harness/job_queue.py\<close>, \<^verbatim>\<open>harness/broker.py\<close>): the persistent queue and its crash
    recovery; the scheduler, whose bookkeeping holds under every interleaving, and what stops it.
  \<^item> \<open>Grants\<close>, \<open>Ownership\<close>, \<open>Safety_Kernel\<close>, \<open>Safety_Laws\<close>, \<open>Real_Act\<close>, \<open>Real_Act_Laws\<close>
    (\<^verbatim>\<open>computer_use/grants.py\<close>, \<^verbatim>\<open>ownership.py\<close>, \<^verbatim>\<open>safety.py\<close>): consent, whose process a point belongs to, the
    two gates, and that over a whole run no foreign process is touched without the operator's consent.
  \<^item> \<open>Supervisor\<close>, \<open>Supervisor_Laws\<close>, \<open>Executor\<close>, \<open>Session\<close>, \<open>Reasoner\<close>, \<open>CU_Run\<close>, \<open>CU_Run_Laws\<close>
    (\<^verbatim>\<open>computer_use/process_supervisor.py\<close>, \<^verbatim>\<open>xauth.py\<close>, \<^verbatim>\<open>action_executor.py\<close>, \<^verbatim>\<open>session.py\<close>, \<^verbatim>\<open>reasoner.py\<close>,
    \<^verbatim>\<open>adapter.py\<close>): owned process trees and their environments, the effects of an action, sessions with their
    confirmations, the reasoner's decision, and the loop that puts them together; its actions stay within
    budgets and off the operator's display, and a high risk costs a token of the operator.
  \<^item> \<open>Exploration\<close>, \<open>Decompose\<close> (\<^verbatim>\<open>pipeline.py\<close>, \<^verbatim>\<open>tree_of_thought.py\<close>, \<^verbatim>\<open>generate_and_rank.py\<close>,
    \<^verbatim>\<open>execution_selector.py\<close>, \<^verbatim>\<open>decompose.py\<close>, \<^verbatim>\<open>spec.py\<close>): swarms that survive hanging branches, the choice
    among candidates, splitting on failure, and the loop that writes a design document.
  \<^item> \<open>Routing\<close>, \<open>Overrides\<close>, \<open>Calibration\<close>, \<open>Probe\<close> (\<^verbatim>\<open>routing/policy.py\<close>, \<^verbatim>\<open>execution/ledger.py\<close>,
    \<^verbatim>\<open>harness/effort_overrides.py\<close>, \<^verbatim>\<open>core/calibration.py\<close>, \<^verbatim>\<open>harness/roles.py\<close>, \<^verbatim>\<open>execution/complexity_probe.py\<close>): the
    choice of a mode and the confidence of a result, the layers of model and effort flags, the budgets of the
    watchdog and how they are learned, and the slope of running times.
  \<^item> \<open>Watchdog\<close>, \<open>Worker_Call\<close> (\<^verbatim>\<open>core/agent.py\<close>): a worker's output cut into lines, the state the watchdog keeps
    of it and the checks of a tick, which catch a provider that flaps or is silent and forgive a blip; the
    liveness wait with its teardown, the attempts and events of a call, and the environment of the child.
  \<^item> \<open>Path_Policy\<close>, \<open>Plan_File\<close>, \<open>Usage\<close>, \<open>Git_PR\<close>, \<open>Dispatch\<close> (\<^verbatim>\<open>harness/dispatch.py\<close>, \<^verbatim>\<open>harness/gitpr.py\<close>,
    \<^verbatim>\<open>harness/cli.py\<close>): protected paths and what a glob denotes; plan files; the token summary of a log; the branch
    and pull request of a run, as the commands issued and the sessions saved; and how the end of a workflow, the
    path policy and the reconcile verdict become the success of a run.
  \<^item> \<open>Verifier_Text\<close>, \<open>Verifier\<close> (\<^verbatim>\<open>execution/verifier.py\<close>): the limit on test workers, the run of the test
    commands with the classification of the first failure, and what is recorded of it.
  \<^item> \<open>Event_Bus\<close> (\<^verbatim>\<open>dashboard/event_bus.py\<close>): the bounded replay buffers, sinks, closing and eviction, and the
    subscribers as machines interleaved with the publishers; under the stated conditions no event is lost, and always
    events come in order.  The lists are a store addressed by numbers, as a subscriber holds its list across an eviction.

  \<^bold>\<open>Conventions.\<close>  A record holds the state of a component, a function takes the state and returns it updated;
  an exception is the left side of a sum or an explicit constructor.  Agents, verifiers, git, the disk, the
  clock, the display and the operator are parameters: functions of a call number and of what the code hands
  them, so every theorem holds for whatever they answer, in any order.  Loops over lists are structural;
  loops over work lists recurse with a measure, and run with a fuel only where a theorem says how much is
  enough (the ancestor search: the number of nodes; the re-route loop: \<open>attempt_bound\<close>; the liveness wait: the number of polls).  Concurrency is a
  step relation where interleavings matter (graph walker, broker) and is left out where semaphores only delay.

  \<^bold>\<open>Not modelled.\<close>  The agents' command lines, process groups and pipes (also those of the verifier),
  browser and display access, the Telegram bridge: these are calls to other programs; git and gh are a parameter
  that answers commands.  The command line and the plumbing of options into a workflow are glue.  Log texts and
  event payloads that nothing reads are left out.  Text outside ASCII, infinities and NaN are excluded.
\<close>

end
